(* ===== verification/Prelude.thy ===== *)
theory Prelude
  imports Main "HOL-Library.Word" "HOL-Library.Monad_Syntax"
begin

text \<open>
  Shared vocabulary of the development: the C integer types, memory accesses that may fault,
  and the list and word facts that several components use.

  A C computation that can leave the defined behaviour of the language (an access outside the
  allocated block, a dereference of NULL) has type \<open>'a option\<close>, with \<open>None\<close> for the fault.
  Fixed-width integers are words: \<open>+\<close>, \<open>-\<close> and \<open>*\<close> wrap around, \<open>unat\<close> reads an unsigned value
  and \<open>sint\<close> a two's complement one.  The library is compiled with NDEBUG, so an
  \<^verbatim>\<open>assert\<close> of the source tests nothing and is not a branch of the model.
\<close>

unbundle bit_operations_syntax

section \<open>C integer types and status codes\<close>

type_synonym u8 = "8 word"
type_synonym u16 = "16 word"
type_synonym u32 = "32 word"
type_synonym u64 = "64 word"

text \<open>A signed 32-bit integer is a word read through \<open>sint\<close>.\<close>
type_synonym i32 = "32 word"

text \<open>Bytes of buffers and packets.\<close>
type_synonym byte = "8 word"

named_theorems c_simps \<open>definitions of memory accesses and C arithmetic\<close>
named_theorems list_rules \<open>facts on lists indexed by machine words\<close>

section \<open>Signed division\<close>

text \<open>C division truncates towards zero.\<close>

definition trunc_div :: "int \<Rightarrow> int \<Rightarrow> int" where
  "trunc_div a b = sgn a * sgn b * (\<bar>a\<bar> div \<bar>b\<bar>)"

definition trunc_mod :: "int \<Rightarrow> int \<Rightarrow> int" where
  "trunc_mod a b = a - trunc_div a b * b"

lemma trunc_div_nonneg [simp]: "0 \<le> a \<Longrightarrow> 0 < b \<Longrightarrow> trunc_div a b = a div b"
  by (cases "a = 0") (auto simp: trunc_div_def)

lemma trunc_mod_nonneg [simp]: "0 \<le> a \<Longrightarrow> 0 < b \<Longrightarrow> trunc_mod a b = a mod b"
  by (simp add: trunc_mod_def minus_div_mult_eq_mod)

section \<open>Arrays in memory\<close>

text \<open>Reading and writing one element of an allocated block.\<close>

definition arr_get :: "'a list \<Rightarrow> nat \<Rightarrow> 'a option" where
  [c_simps]: "arr_get xs i = (if i < length xs then Some (xs ! i) else None)"

definition arr_set :: "'a list \<Rightarrow> nat \<Rightarrow> 'a \<Rightarrow> 'a list option" where
  [c_simps]: "arr_set xs i x = (if i < length xs then Some (xs[i := x]) else None)"

text \<open>
  \<^verbatim>\<open>memcpy\<close> of \<open>n\<close> elements from offset \<open>so\<close> of \<open>src\<close> to offset \<open>d\<close> of \<open>dst\<close>, for two distinct
  blocks; both ranges must lie inside their blocks.
\<close>

definition mem_copy :: "'a list \<Rightarrow> nat \<Rightarrow> 'a list \<Rightarrow> nat \<Rightarrow> nat \<Rightarrow> 'a list option" where
  [c_simps]: "mem_copy dst d src so n =
     (if d + n \<le> length dst \<and> so + n \<le> length src
      then Some (take d dst @ take n (drop so src) @ drop (d + n) dst)
      else None)"

text \<open>
  \<^verbatim>\<open>realloc\<close> of a block to \<open>n\<close> elements: the common prefix is kept, what is new has the contents
  that the allocator left there.
\<close>

definition mem_realloc :: "(nat \<Rightarrow> 'a) \<Rightarrow> 'a list \<Rightarrow> nat \<Rightarrow> 'a list" where
  "mem_realloc fresh xs n = take n xs @ map fresh [length xs..<n]"

lemma mem_realloc_length [simp]: "length (mem_realloc fresh xs n) = n"
  by (simp add: mem_realloc_def)

lemma mem_realloc_grow: "length xs \<le> n \<Longrightarrow> mem_realloc fresh xs n = xs @ map fresh [length xs..<n]"
  by (simp add: mem_realloc_def)

lemma arr_get_Some [simp]: "i < length xs \<Longrightarrow> arr_get xs i = Some (xs ! i)"
  by (simp add: arr_get_def)

lemma arr_set_Some [simp]: "i < length xs \<Longrightarrow> arr_set xs i x = Some (xs[i := x])"
  by (simp add: arr_set_def)

lemma arr_get_iff: "(arr_get xs i = Some x) = (i < length xs \<and> xs ! i = x)"
  by (auto simp: arr_get_def)

lemma mem_copy_length: "mem_copy dst d src so n = Some r \<Longrightarrow> length r = length dst"
  by (auto simp: mem_copy_def split: if_splits)

lemma mem_copy_zero: "d \<le> length dst \<Longrightarrow> so \<le> length src \<Longrightarrow> mem_copy dst d src so 0 = Some dst"
  by (simp add: mem_copy_def)

section \<open>Words\<close>

lemma pow2_dvd_pow2: "k \<le> n \<Longrightarrow> (2::nat) ^ k dvd 2 ^ n"
  by (rule le_imp_power_dvd)

lemma word_pow2_minus_one:
  fixes w :: "'a::len word"
  assumes "unat w = 2 ^ k"
  shows "w - 1 = mask k"
proof -
  have "w = word_of_nat (unat w)" by simp
  then have "w = 2 ^ k" using assms by simp
  then show ?thesis by (simp add: mask_eq_exp_minus_1)
qed

text \<open>The mask idiom \<open>x & (size - 1)\<close> is \<open>x mod size\<close> when \<open>size\<close> is a power of two.\<close>

lemma unat_and_pow2_minus_one:
  fixes x w :: "'a::len word"
  assumes "unat w = 2 ^ k"
  shows "unat (x AND (w - 1)) = unat x mod 2 ^ k"
proof -
  have "x AND (w - 1) = take_bit k x"
    by (simp add: word_pow2_minus_one [OF assms] take_bit_eq_mask)
  then show ?thesis by (metis unsigned_take_bit_eq take_bit_eq_mod)
qed

lemma unat_add_mod_pow2:
  fixes x y :: "'a::len word"
  assumes "k \<le> LENGTH('a)"
  shows "unat (x + y) mod 2 ^ k = (unat x + unat y) mod 2 ^ k"
  using assms by (simp add: unat_word_ariths mod_mod_cancel pow2_dvd_pow2)

lemma unat_bound: "unat (w :: 'a::len word) < 2 ^ LENGTH('a)"
  by (rule unsigned_less)

lemma unat_Suc_of_nat:
  fixes x :: "'a::len word"
  assumes "unat x + n < 2 ^ LENGTH('a)"
  shows "unat (x + of_nat n) = unat x + n"
proof -
  have "unat (of_nat n :: 'a word) = n"
    using assms by (simp add: unat_of_nat take_bit_nat_eq_self)
  with assms show ?thesis by (simp add: unat_word_ariths)
qed

lemma unat_diff_add_one:
  fixes h t :: "'a::len word"
  assumes "unat (t - h) + 1 < 2 ^ LENGTH('a)"
  shows "unat (t + 1 - h) = unat (t - h) + 1"
proof -
  have "t + 1 - h = (t - h) + of_nat 1" by (simp add: algebra_simps)
  then show ?thesis using unat_Suc_of_nat [of "t - h" 1] assms by metis
qed

lemma unat_diff_minus_one:
  fixes h t :: "'a::len word"
  assumes "0 < unat (t - h)"
  shows "unat (t - (h + 1)) = unat (t - h) - 1"
proof -
  have "1 \<le> t - h" using assms by (simp add: word_le_nat_alt Suc_leI)
  then have "unat ((t - h) - 1) = unat (t - h) - 1" by (simp add: unat_sub)
  then show ?thesis by (simp add: algebra_simps)
qed

lemma uint_of_nat_small:
  assumes "n < 2 ^ LENGTH('a)"
  shows "uint (of_nat n :: 'a::len word) = int n"
proof -
  have "unat (of_nat n :: 'a word) = n" using assms by (simp add: unat_of_nat take_bit_nat_eq_self)
  then show ?thesis by (metis of_nat_unat)
qed

lemma of_nat_small_zero_iff:
  assumes "n < 2 ^ LENGTH('a)"
  shows "(of_nat n :: 'a::len word) = 0 \<longleftrightarrow> n = 0"
  using uint_of_nat_small [OF assms] by (auto simp: word_uint_eq_iff)

text \<open>A lower slice of a difference depends only on the lower slices.\<close>

lemma take_bit_word_diff_left:
  assumes "k \<le> LENGTH('a)"
  shows "take_bit k (take_bit k x - y) = take_bit k (x - y :: 'a::len word)"
proof (rule word_uint_eqI)
  have d: "(2::int) ^ k dvd 2 ^ LENGTH('a)" using assms by (rule le_imp_power_dvd)
  show "uint (take_bit k (take_bit k x - y)) = uint (take_bit k (x - y))"
    by (simp add: unsigned_take_bit_eq uint_word_ariths take_bit_eq_mod [where 'a = int] mod_mod_cancel [OF d] mod_diff_left_eq)
qed

text \<open>Reading a 32-bit word as signed when its top bit is clear.\<close>

lemma sint_small:
  assumes "unat (w :: i32) < 2 ^ 31"
  shows "sint w = int (unat w)"
proof -
  have "sint w = signed_take_bit 31 (int (unat w))" by (simp add: sint_uint)
  also have "\<dots> = int (unat w)"
  proof (rule signed_take_bit_int_eq_self)
    show "- (2 ^ 31) \<le> int (unat w)" by (rule order_trans [of _ 0]) simp_all
    have "int (unat w) < int (2 ^ 31)" using assms by (simp only: of_nat_less_iff)
    then show "int (unat w) < 2 ^ 31" by (simp only: of_nat_power of_nat_numeral)
  qed
  finally show ?thesis .
qed

lemma sint_nonneg_unat:
  assumes "0 \<le> sint (w :: i32)"
  shows "sint w = int (unat w)"
proof -
  have "\<not> bit w 31" using assms bit_last_iff [of w] by simp
  then have "take_bit 31 w = w" by (intro bit_word_eqI) (auto simp: bit_take_bit_iff less_Suc_eq numeral_eq_Suc)
  then have "take_bit 31 (unat w) = unat w" by (metis unsigned_take_bit_eq)
  then have "unat w < 2 ^ 31" by (metis take_bit_nat_less_exp)
  then show ?thesis by (rule sint_small)
qed

section \<open>Lists\<close>

lemma nth_update_eq_if: "i < length xs \<Longrightarrow> xs[i := x] ! j = (if i = j then x else xs ! j)"
  by simp

lemma list_update_beyond_take: "n \<le> i \<Longrightarrow> take n (xs[i := x]) = take n xs"
  by simp

text \<open>Counting the elements with a property across an update.\<close>

lemma length_filter_update:
  assumes "i < length xs"
  shows "length (filter P (xs[i := x])) + (if P (xs ! i) then 1 else 0) =
    length (filter P xs) + (if P x then 1 else 0)"
proof -
  have xs: "xs = take i xs @ xs ! i # drop (Suc i) xs" by (rule id_take_nth_drop [OF assms])
  have "xs[i := x] = take i xs @ x # drop (Suc i) xs" using assms by (rule upd_conv_take_nth_drop)
  moreover have "length (filter P xs) = length (filter P (take i xs)) +
      (if P (xs ! i) then 1 else 0) + length (filter P (drop (Suc i) xs))"
    by (subst xs) simp
  ultimately show ?thesis by simp
qed

lemma map_upt_Suc_shift: "map f [0..<Suc n] = f 0 # map (\<lambda>i. f (Suc i)) [0..<n]"
  by (rule nth_equalityI) (auto simp del: upt_Suc simp: nth_Cons split: nat.split)

end
