(* ===== verification/RingQueue.thy ===== *)
theory RingQueue
  imports Prelude
begin

text \<open>
  The growable ring buffer of \<^verbatim>\<open>src/queue.h\<close> (the \<^verbatim>\<open>QUEUE_*\<close> macros), the container under the
  task queue of an I/O thread and under the send queue of a session.

  \<open>head\<close> and \<open>tail\<close> are free-running 32-bit counters that wrap around; a slot is found by
  masking with \<open>size - 1\<close>, so \<open>size\<close> has to be a power of two.  The abstraction \<open>ring_list\<close>
  reads the queued elements in order; every operation is shown to be the list operation of the
  same name, also across the wrap-around of the counters.  The argument \<open>mem\<close> of an operation
  that allocates says whether \<^verbatim>\<open>calloc\<close> returned a block, \<open>z\<close> is the all-zero element.
\<close>

section \<open>State and operations\<close>

record 'a ring =
  q_size :: u32
  q_entries :: "'a list option"
  q_head :: u32
  q_tail :: u32

text \<open>The slot that counter value \<open>i\<close> denotes.\<close>

definition q_slot :: "'a ring \<Rightarrow> u32 \<Rightarrow> nat" where
  "q_slot q i = unat (i AND (q_size q - 1))"

definition QUEUE_COUNT :: "'a ring \<Rightarrow> u32" where
  "QUEUE_COUNT q = q_tail q - q_head q"

definition QUEUE_SIZE :: "'a ring \<Rightarrow> u32" where
  "QUEUE_SIZE q = q_size q"

definition QUEUE_INIT :: "bool \<Rightarrow> 'a \<Rightarrow> u32 \<Rightarrow> int \<times> 'a ring" where
  "QUEUE_INIT mem z sz =
     (let sz = (if sz \<noteq> 0 then sz else 8);
          entries = (if mem then Some (replicate (unat sz) z) else None)
      in (if entries = None then - 1 else 0,
          \<lparr>q_size = sz, q_entries = entries, q_head = 0, q_tail = 0\<rparr>))"

definition QUEUE_GROW :: "bool \<Rightarrow> 'a \<Rightarrow> 'a ring \<Rightarrow> (int \<times> 'a ring) option" where
  "QUEUE_GROW mem z q =
     (let newsize = push_bit 1 (q_size q);
          count = q_tail q - q_head q
      in if \<not> mem then Some (- 1, q)
         else do {
           es \<leftarrow> q_entries q;
           let len = q_size q - (q_head q AND (q_size q - 1));
           let len = (if len > count then count else len);
           ns \<leftarrow> mem_copy (replicate (unat newsize) z) 0 es (q_slot q (q_head q)) (unat len);
           ns \<leftarrow> mem_copy ns (unat len) es 0 (unat (count - len));
           Some (0, q\<lparr>q_head := 0, q_tail := count, q_size := newsize, q_entries := Some ns\<rparr>)
         })"

definition QUEUE_PUSH :: "bool \<Rightarrow> 'a \<Rightarrow> 'a ring \<Rightarrow> 'a \<Rightarrow> (int \<times> 'a ring) option" where
  "QUEUE_PUSH mem z q x = do {
     (rc, q) \<leftarrow> (if q_size q + q_head q - q_tail q \<le> 0 then QUEUE_GROW mem z q else Some (0, q));
     (if rc \<noteq> 0 then Some (- 1, q)
      else do {
        es \<leftarrow> q_entries q;
        es \<leftarrow> arr_set es (q_slot q (q_tail q)) x;
        Some (0, q\<lparr>q_entries := Some es, q_tail := q_tail q + 1\<rparr>)
      })
   }"

text \<open>The second component is the element stored through the \<open>data\<close> pointer, if any.\<close>

definition QUEUE_POP :: "'a ring \<Rightarrow> (int \<times> 'a option \<times> 'a ring) option" where
  "QUEUE_POP q =
     (if 0 < q_tail q - q_head q
      then do {
        es \<leftarrow> q_entries q;
        x \<leftarrow> arr_get es (q_slot q (q_head q));
        Some (1, Some x, q\<lparr>q_head := q_head q + 1\<rparr>)
      }
      else Some (0, None, q))"

definition QUEUE_GET :: "'a ring \<Rightarrow> u32 \<Rightarrow> (int \<times> 'a option) option" where
  "QUEUE_GET q index =
     (if index < q_tail q - q_head q
      then do {
        es \<leftarrow> q_entries q;
        x \<leftarrow> arr_get es (q_slot q (q_head q + index));
        Some (0, Some x)
      }
      else Some (- 1, None))"

definition QUEUE_TOP :: "'a ring \<Rightarrow> (int \<times> 'a option) option" where
  "QUEUE_TOP q = QUEUE_GET q 0"

definition QUEUE_SWAP :: "'a ring \<Rightarrow> 'a ring \<Rightarrow> int \<times> 'a ring \<times> 'a ring" where
  "QUEUE_SWAP self q =
     (0,
      self\<lparr>q_head := q_head q, q_tail := q_tail q, q_size := q_size q, q_entries := q_entries q\<rparr>,
      q\<lparr>q_head := q_head self, q_tail := q_tail self, q_size := q_size self,
        q_entries := q_entries self\<rparr>)"

definition QUEUE_CLEAR :: "'a ring \<Rightarrow> 'a ring" where
  "QUEUE_CLEAR q = q\<lparr>q_entries := None, q_size := 0, q_head := 0, q_tail := 0\<rparr>"

definition QUEUE_RESET :: "'a ring \<Rightarrow> 'a ring" where
  "QUEUE_RESET q = q\<lparr>q_head := 0, q_tail := 0\<rparr>"

text \<open>
  \<^verbatim>\<open>realloc\<close> to a smaller block keeps the first \<open>sz\<close> elements; when it fails the old block is
  kept.
\<close>

definition QUEUE_SHRINK :: "bool \<Rightarrow> 'a ring \<Rightarrow> u32 \<Rightarrow> u32 \<times> 'a ring" where
  "QUEUE_SHRINK mem q sz =
     (case q_entries q of
        None \<Rightarrow> (q_size q, q)
      | Some es \<Rightarrow>
          if q_size q \<le> sz \<or> QUEUE_COUNT q \<noteq> 0 then (q_size q, q)
          else if \<not> mem then (q_size q, q)
          else (sz, q\<lparr>q_entries := Some (take (unat sz) es), q_size := sz,
                      q_head := 0, q_tail := 0\<rparr>))"

section \<open>Reading a block circularly\<close>

text \<open>The \<open>n\<close> elements met from index \<open>h\<close> on, going round the block.\<close>

definition wrap_list :: "'a list \<Rightarrow> nat \<Rightarrow> nat \<Rightarrow> 'a list" where
  "wrap_list es h n = map (\<lambda>i. es ! ((h + i) mod length es)) [0..<n]"

lemma wrap_list_simps [simp]:
  "wrap_list es h 0 = []"
  "length (wrap_list es h n) = n"
  by (simp_all add: wrap_list_def)

lemma wrap_list_nth [simp]: "i < n \<Longrightarrow> wrap_list es h n ! i = es ! ((h + i) mod length es)"
  by (simp add: wrap_list_def)

lemma wrap_list_Suc:
  "wrap_list es h (Suc n) = es ! (h mod length es) # wrap_list es (Suc h) n"
  unfolding wrap_list_def by (subst map_upt_Suc_shift) simp

lemma wrap_index_inj:
  assumes "i < n" "n < (L::nat)"
  shows "(h + i) mod L \<noteq> (h + n) mod L"
proof
  assume "(h + i) mod L = (h + n) mod L"
  then have "L dvd (h + n) - (h + i)"
    using assms mod_eq_dvd_iff_nat [of "h + i" "h + n" L] by simp
  then have "L dvd n - i" by simp
  then show False using assms by (simp add: nat_dvd_not_less)
qed

lemma wrap_list_snoc:
  assumes "n < length es"
  shows "wrap_list (es[(h + n) mod length es := x]) h (Suc n) = wrap_list es h n @ [x]"
proof (rule nth_equalityI)
  fix i assume "i < length (wrap_list (es[(h + n) mod length es := x]) h (Suc n))"
  then have "i < Suc n" by simp
  moreover have "(h + n) mod length es < length es" using assms by (intro mod_less_divisor) linarith
  ultimately show "wrap_list (es[(h + n) mod length es := x]) h (Suc n) ! i
      = (wrap_list es h n @ [x]) ! i"
    using wrap_index_inj [of i n "length es" h] assms
    by (cases "i = n") (auto simp: nth_append)
qed simp

text \<open>Going round is two contiguous runs: up to the end of the block, then from its start.\<close>

lemma wrap_list_runs:
  assumes "n \<le> length es" and len: "len = min n (length es - h mod length es)"
  shows "wrap_list es h n = take len (drop (h mod length es) es) @ take (n - len) es"
proof (cases "es = []")
  case True
  with assms show ?thesis by simp
next
  case False
  define L where "L = length es"
  have L: "0 < L" "n \<le> L" using False assms by (auto simp: L_def)
  have m: "h mod L < L" using L by simp
  show ?thesis
  proof (rule nth_equalityI)
    have "len \<le> L - h mod L" "len \<le> n" "n - len \<le> L"
      using L by (auto simp: len L_def [symmetric])
    then show "length (wrap_list es h n) = length (take len (drop (h mod length es) es) @ take (n - len) es)"
      by (simp add: L_def [symmetric] min_absorb2)
  next
    fix i assume "i < length (wrap_list es h n)"
    then have i: "i < n" by simp
    have s: "(h + i) mod L = (if h mod L + i < L then h mod L + i else h mod L + i - L)"
    proof -
      have "(h + i) mod L = (h mod L + i) mod L" by (simp add: mod_simps)
      moreover have "h mod L + i < L + L" using L i m by linarith
      ultimately show ?thesis by (simp add: le_mod_geq not_less)
    qed
    show "wrap_list es h n ! i = (take len (drop (h mod length es) es) @ take (n - len) es) ! i"
      using i s L m by (auto simp: nth_append len L_def [symmetric] min_def add.commute)
  qed
qed

section \<open>Invariant and abstraction\<close>

definition ring_ok :: "'a ring \<Rightarrow> bool" where
  "ring_ok q \<longleftrightarrow>
     (\<exists>k < 32. unat (q_size q) = 2 ^ k) \<and>
     (\<exists>es. q_entries q = Some es \<and> length es = unat (q_size q)) \<and>
     unat (QUEUE_COUNT q) \<le> unat (q_size q)"

definition ring_list :: "'a ring \<Rightarrow> 'a list" where
  "ring_list q = (case q_entries q of None \<Rightarrow> []
     | Some es \<Rightarrow> map (\<lambda>i. es ! q_slot q (q_head q + of_nat i)) [0..<unat (QUEUE_COUNT q)])"

lemma ring_okE:
  assumes "ring_ok q"
  obtains k es where "k < 32" "unat (q_size q) = 2 ^ k" "q_entries q = Some es"
    "length es = 2 ^ k" "unat (q_tail q - q_head q) \<le> 2 ^ k"
  using assms by (auto simp: ring_ok_def QUEUE_COUNT_def)

lemma ring_list_length: "ring_ok q \<Longrightarrow> length (ring_list q) = unat (QUEUE_COUNT q)"
  by (auto simp: ring_ok_def ring_list_def)

lemma q_slot_mod:
  assumes "unat (q_size q) = 2 ^ k" "k \<le> 32"
  shows "q_slot q i = unat i mod 2 ^ k"
  unfolding q_slot_def by (rule unat_and_pow2_minus_one) (rule assms)

lemma q_slot_add:
  assumes "unat (q_size q) = 2 ^ k" "k \<le> 32"
  shows "q_slot q (h + of_nat i) = (unat h + i) mod 2 ^ k"
proof -
  have "unat (of_nat i :: u32) mod 2 ^ k = i mod 2 ^ k"
    using pow2_dvd_pow2 [OF assms(2)] by (simp add: unat_of_nat take_bit_eq_mod mod_mod_cancel)
  moreover have "q_slot q (h + of_nat i) = (unat h + unat (of_nat i :: u32)) mod 2 ^ k"
    using q_slot_mod [OF assms, of "h + of_nat i"]
      unat_add_mod_pow2 [of k h "of_nat i"] assms(2) by simp
  ultimately show ?thesis by (metis mod_add_right_eq)
qed

lemma ring_list_wrap:
  assumes "unat (q_size q) = 2 ^ k" "k \<le> 32" "q_entries q = Some es" "length es = 2 ^ k"
  shows "ring_list q = wrap_list es (unat (q_head q)) (unat (q_tail q - q_head q))"
  by (simp add: ring_list_def assms wrap_list_def q_slot_add [OF assms(1,2)] QUEUE_COUNT_def)

section \<open>The operations on the abstract list\<close>

lemma ring_init:
  assumes "sz = 0 \<or> (\<exists>k < 32. unat sz = 2 ^ k)"
  shows "\<exists>q. QUEUE_INIT True z sz = (0, q) \<and> ring_ok q \<and> ring_list q = []"
proof -
  have "\<exists>k < 32. unat (if sz \<noteq> 0 then sz else 8) = 2 ^ k"
    using assms by (cases "sz = 0") (auto intro: exI [of _ 3])
  then show ?thesis
    by (auto simp: QUEUE_INIT_def Let_def ring_ok_def ring_list_def QUEUE_COUNT_def)
qed

lemma ring_reset:
  "ring_ok q \<Longrightarrow> ring_ok (QUEUE_RESET q) \<and> ring_list (QUEUE_RESET q) = []"
  by (auto simp: QUEUE_RESET_def ring_ok_def ring_list_def QUEUE_COUNT_def)

lemma ring_swap:
  "QUEUE_SWAP a b = (0, b, a)"
  by (simp add: QUEUE_SWAP_def)

lemma ring_clear: "ring_list (QUEUE_CLEAR q) = [] \<and> QUEUE_COUNT (QUEUE_CLEAR q) = 0"
  by (simp add: QUEUE_CLEAR_def ring_list_def QUEUE_COUNT_def)

text \<open>Growing copies the two runs of the old block to the front of the new one.\<close>

lemma ring_grow:
  assumes ok: "ring_ok q" and small: "unat (q_size q) < 2 ^ 31"
  shows "\<exists>q'. QUEUE_GROW True z q = Some (0, q') \<and> ring_ok q' \<and> ring_list q' = ring_list q \<and>
    unat (q_size q') = 2 * unat (q_size q) \<and> QUEUE_COUNT q' = QUEUE_COUNT q \<and> q_head q' = 0"
proof -
  obtain k es where k: "k < 32" "unat (q_size q) = 2 ^ k" and es: "q_entries q = Some es"
    "length es = 2 ^ k" and n: "unat (q_tail q - q_head q) \<le> 2 ^ k"
    using ok by (rule ring_okE)
  define c where "c = q_tail q - q_head q"
  define h where "h = q_slot q (q_head q)"
  define room where "room = q_size q - (q_head q AND (q_size q - 1))"
  define len where "len = (if room > c then c else room)"
  define ns where "ns = take (unat len) (drop h es) @ take (unat c - unat len) es"
  have hs: "h = unat (q_head q) mod 2 ^ k" "h = unat (q_head q AND (q_size q - 1))"
    using q_slot_mod [OF k(2)] k(1) by (auto simp: h_def q_slot_def)
  then have hL: "h < 2 ^ k" by simp
  have room: "unat room = 2 ^ k - h"
    unfolding room_def using hs hL k by (subst unat_sub) (auto simp: word_le_nat_alt)
  have len: "unat len = min (unat c) (2 ^ k - h)"
    using room by (auto simp: len_def word_less_nat_alt min_def)
  have lens: "unat len \<le> unat c" "unat len \<le> 2 ^ k - h" "unat c \<le> 2 ^ k" "unat c - unat len \<le> 2 ^ k"
    "h + unat len \<le> 2 ^ k"
    using len n hL by (auto simp: c_def)
  have cl: "unat (c - len) = unat c - unat len"
    using lens by (simp add: unat_sub word_le_nat_alt)
  have ns: "ns = wrap_list es (unat (q_head q)) (unat c)" "length ns = unat c"
    using wrap_list_runs [of "unat c" es "unat len" "unat (q_head q)"] es len hs lens
    by (auto simp: ns_def)
  have sz: "unat (push_bit 1 (q_size q)) = 2 * 2 ^ k"
    using small k by (simp add: push_bit_eq_mult unat_word_ariths)
  define q' where "q' = q\<lparr>q_head := 0, q_tail := c, q_size := push_bit 1 (q_size q),
     q_entries := Some (ns @ replicate (2 * 2 ^ k - unat c) z)\<rparr>"
  have k31: "k < 31"
    using small k power_less_imp_less_exp [of "2::nat" k 31] by simp
  have "QUEUE_GROW True z q = Some (0, q')"
    using lens hL es sz cl hs
    by (simp add: QUEUE_GROW_def Let_def c_def [symmetric] room_def [symmetric] len_def [symmetric]
        h_def [symmetric] mem_copy_def q'_def ns_def)
  moreover have "ring_ok q'"
    using sz lens ns k31
    by (auto simp: q'_def ring_ok_def QUEUE_COUNT_def intro!: exI [of _ "Suc k"])
  moreover have "ring_list q' = ring_list q"
  proof -
    have "ring_list q' = wrap_list (ns @ replicate (2 * 2 ^ k - unat c) z) 0 (unat c)"
      using ring_list_wrap [of q' "Suc k"] sz k lens ns by (simp add: q'_def)
    also have "\<dots> = ns"
      using lens ns by (intro nth_equalityI) (auto simp: nth_append)
    finally show ?thesis using ring_list_wrap [OF k(2) _ es] k ns by (simp add: c_def)
  qed
  ultimately show ?thesis
    using sz k by (intro exI [of _ q']) (auto simp: q'_def QUEUE_COUNT_def c_def)
qed

text \<open>Whether one more element needs a bigger block.\<close>

lemma ring_full_iff: "q_size q + q_head q = q_tail q \<longleftrightarrow> QUEUE_COUNT q = q_size q"
  by (auto simp: QUEUE_COUNT_def algebra_simps)

lemma ring_store:
  assumes ok: "ring_ok q" and room: "unat (QUEUE_COUNT q) < unat (q_size q)"
  shows "\<exists>es q'. q_entries q = Some es \<and>
     arr_set es (q_slot q (q_tail q)) x = Some (es[q_slot q (q_tail q) := x]) \<and>
     q' = q\<lparr>q_entries := Some (es[q_slot q (q_tail q) := x]), q_tail := q_tail q + 1\<rparr> \<and>
     ring_ok q' \<and> ring_list q' = ring_list q @ [x]"
proof -
  obtain k es where k: "k < 32" "unat (q_size q) = 2 ^ k" and es: "q_entries q = Some es"
    "length es = 2 ^ k" and n: "unat (q_tail q - q_head q) \<le> 2 ^ k"
    using ok by (rule ring_okE)
  define n where "n = unat (q_tail q - q_head q)"
  have nL: "n < 2 ^ k" using room k by (simp add: n_def QUEUE_COUNT_def)
  have big: "2 ^ k \<le> (2::nat) ^ 31" using k(1) by (intro power_increasing) auto
  have "q_tail q = q_head q + of_nat n" by (simp add: n_def)
  then have slot: "q_slot q (q_tail q) = (unat (q_head q) + n) mod 2 ^ k"
    using q_slot_add [OF k(2)] k(1) by simp
  then have sl: "q_slot q (q_tail q) < 2 ^ k" by simp
  define q' where "q' = q\<lparr>q_entries := Some (es[q_slot q (q_tail q) := x]), q_tail := q_tail q + 1\<rparr>"
  have cnt: "unat (q_tail q + 1 - q_head q) = Suc n"
    using unat_diff_add_one [of "q_tail q" "q_head q"] nL big by (simp add: n_def)
  have "ring_ok q'"
    using k es nL cnt by (auto simp: q'_def ring_ok_def QUEUE_COUNT_def)
  moreover have "ring_list q' = ring_list q @ [x]"
    using ring_list_wrap [OF k(2) _ es] ring_list_wrap [of q' k] k es cnt slot
      wrap_list_snoc [of n es "unat (q_head q)" x] nL
    by (simp add: q'_def n_def)
  ultimately show ?thesis
    using es sl by (intro exI [of _ es] exI [of _ q']) (auto simp: q'_def)
qed

text \<open>
  Appending: while the block can still be doubled the push succeeds, keeps the invariant, and
  puts the element last; no access leaves the block.
\<close>

lemma ring_push:
  assumes ok: "ring_ok q" and small: "length (ring_list q) < 2 ^ 31"
  shows "\<exists>q'. QUEUE_PUSH True z q x = Some (0, q') \<and> ring_ok q' \<and> ring_list q' = ring_list q @ [x]"
proof (cases "QUEUE_COUNT q = q_size q")
  case True
  then have "unat (q_size q) < 2 ^ 31" using ring_list_length [OF ok] small by simp
  then obtain q1 where g: "QUEUE_GROW True z q = Some (0, q1)" "ring_ok q1"
      "ring_list q1 = ring_list q" "unat (q_size q1) = 2 * unat (q_size q)"
      "QUEUE_COUNT q1 = QUEUE_COUNT q"
    using ring_grow [OF ok] by blast
  have "unat (QUEUE_COUNT q1) < unat (q_size q1)"
    using g True ok by (auto simp: ring_ok_def)
  with ring_store [OF g(2), of x] g True show ?thesis
    by (auto simp: QUEUE_PUSH_def ring_full_iff Let_def)
next
  case False
  then have "unat (QUEUE_COUNT q) < unat (q_size q)"
    using ok by (auto simp: ring_ok_def le_less word_unat_eq_iff)
  with ring_store [OF ok, of x] False show ?thesis
    by (auto simp: QUEUE_PUSH_def ring_full_iff Let_def)
qed

text \<open>When \<^verbatim>\<open>calloc\<close> fails the push of a full ring reports it and changes nothing.\<close>

lemma ring_push_oom:
  assumes "ring_ok q" and "QUEUE_COUNT q = q_size q"
  shows "QUEUE_PUSH False z q x = Some (- 1, q)"
  using assms by (simp add: QUEUE_PUSH_def ring_full_iff QUEUE_GROW_def Let_def)

lemma ring_pop_Nil:
  assumes "ring_ok q" and "ring_list q = []"
  shows "QUEUE_POP q = Some (0, None, q)"
  using ring_list_length [OF assms(1)] assms(2)
  by (simp add: QUEUE_POP_def QUEUE_COUNT_def word_less_nat_alt)

lemma ring_get:
  assumes ok: "ring_ok q"
  shows "QUEUE_GET q i = Some (if unat i < length (ring_list q)
           then (0, Some (ring_list q ! unat i)) else (- 1, None))"
proof -
  obtain k es where k: "k < 32" "unat (q_size q) = 2 ^ k" and es: "q_entries q = Some es"
    "length es = 2 ^ k"
    using ok by (rule ring_okE)
  have len: "length (ring_list q) = unat (q_tail q - q_head q)"
    using ring_list_length [OF ok] by (simp add: QUEUE_COUNT_def)
  have slot: "q_slot q (q_head q + i) = (unat (q_head q) + unat i) mod 2 ^ k"
    using q_slot_add [OF k(2), of "q_head q" "unat i"] k(1) by simp
  then have "q_slot q (q_head q + i) < 2 ^ k" by simp
  then show ?thesis
    using ring_list_wrap [OF k(2) _ es] k es len slot
    by (auto simp: QUEUE_GET_def word_less_nat_alt)
qed

lemma ring_top:
  "ring_ok q \<Longrightarrow> ring_list q = x # xs \<Longrightarrow> QUEUE_TOP q = Some (0, Some x)"
  by (simp add: QUEUE_TOP_def ring_get)

lemma ring_pop:
  assumes ok: "ring_ok q" and ne: "ring_list q = x # xs"
  shows "\<exists>q'. QUEUE_POP q = Some (1, Some x, q') \<and> ring_ok q' \<and> ring_list q' = xs"
proof -
  obtain k es where k: "k < 32" "unat (q_size q) = 2 ^ k" and es: "q_entries q = Some es"
    "length es = 2 ^ k" and n: "unat (q_tail q - q_head q) \<le> 2 ^ k"
    using ok by (rule ring_okE)
  define n where "n = unat (q_tail q - q_head q)"
  have len: "n = Suc (length xs)"
    using ring_list_length [OF ok] ne by (simp add: n_def QUEUE_COUNT_def)
  have slot: "q_slot q (q_head q) = unat (q_head q) mod 2 ^ k"
    using q_slot_mod [OF k(2)] k(1) by simp
  define q' where "q' = q\<lparr>q_head := q_head q + 1\<rparr>"
  have cnt: "unat (q_tail q - (q_head q + 1)) = length xs"
    using unat_diff_minus_one [of "q_tail q" "q_head q"] len by (simp add: n_def)
  have wl: "ring_list q = wrap_list es (unat (q_head q)) n"
    using ring_list_wrap [OF k(2) _ es] k by (simp add: n_def)
  then have x: "x = es ! (unat (q_head q) mod 2 ^ k)"
    and xs: "xs = wrap_list es (Suc (unat (q_head q))) (length xs)"
    using ne es by (auto simp: len wrap_list_Suc)
  have "QUEUE_POP q = Some (1, Some x, q')"
    using es slot x len by (simp add: QUEUE_POP_def q'_def word_less_nat_alt n_def)
  moreover have "ring_ok q'"
    using k es cnt len n by (auto simp: q'_def ring_ok_def QUEUE_COUNT_def n_def)
  moreover have "ring_list q' = xs"
  proof -
    have "unat (q_head q + 1) mod 2 ^ k = Suc (unat (q_head q)) mod 2 ^ k"
      using unat_add_mod_pow2 [of k "q_head q" 1] k(1) by simp
    then have "(unat (q_head q + 1) + i) mod 2 ^ k = (Suc (unat (q_head q)) + i) mod 2 ^ k" for i
      by (metis mod_add_left_eq)
    then have "wrap_list es (unat (q_head q + 1)) (length xs)
        = wrap_list es (Suc (unat (q_head q))) (length xs)"
      using es by (simp add: wrap_list_def)
    with xs show ?thesis
      using ring_list_wrap [of q' k es] k es cnt by (simp add: q'_def)
  qed
  ultimately show ?thesis by blast
qed

text \<open>Shrinking acts on an empty ring only.\<close>

lemma ring_shrink:
  assumes ok: "ring_ok q" and sz: "\<exists>k < 32. unat sz = 2 ^ k"
  shows "ring_ok (snd (QUEUE_SHRINK mem q sz)) \<and>
    ring_list (snd (QUEUE_SHRINK mem q sz)) = ring_list q"
proof -
  obtain k es where k: "k < 32" "unat (q_size q) = 2 ^ k" and es: "q_entries q = Some es"
    "length es = 2 ^ k"
    using ok by (rule ring_okE)
  show ?thesis
  proof (cases "q_size q \<le> sz \<or> QUEUE_COUNT q \<noteq> 0 \<or> \<not> mem")
    case True
    then show ?thesis using ok es by (auto simp: QUEUE_SHRINK_def)
  next
    case False
    then have "unat sz \<le> 2 ^ k" using k by (simp add: word_le_nat_alt)
    moreover have "ring_list q = []" using ring_list_length [OF ok] False by simp
    ultimately show ?thesis
      using False es sz by (auto simp: QUEUE_SHRINK_def ring_ok_def ring_list_def QUEUE_COUNT_def)
  qed
qed

lemma ring_count_one_iff:
  assumes "ring_ok q"
  shows "QUEUE_COUNT q = 1 \<longleftrightarrow> length (ring_list q) = 1"
  using ring_list_length [OF assms] by (simp add: word_unat_eq_iff)

lemma ring_count_zero_iff:
  assumes "ring_ok q"
  shows "QUEUE_COUNT q = 0 \<longleftrightarrow> ring_list q = []"
  using ring_list_length [OF assms] by (simp add: word_unat_eq_iff flip: length_0_conv)

text \<open>A push needs memory only when the ring is full.\<close>

lemma ring_push_cases:
  assumes "ring_ok q" "length (ring_list q) < 2 ^ 31"
  shows "QUEUE_PUSH mem z q x = Some (- 1, q) \<and> \<not> mem \<or>
    (\<exists>q'. QUEUE_PUSH mem z q x = Some (0, q') \<and> ring_ok q' \<and> ring_list q' = ring_list q @ [x])"
proof (cases "mem \<or> QUEUE_COUNT q \<noteq> q_size q")
  case True
  then have "QUEUE_PUSH mem z q x = QUEUE_PUSH True z q x"
    by (auto simp: QUEUE_PUSH_def ring_full_iff)
  then show ?thesis using ring_push [OF assms, of z x] by simp
next
  case False
  then show ?thesis using ring_push_oom [OF assms(1)] by auto
qed

text \<open>A loop that pops ends.\<close>

lemma pop_decreases:
  assumes "QUEUE_POP q = Some (rc, Some t, q')"
  shows "unat (QUEUE_COUNT q') < unat (QUEUE_COUNT q)"
proof -
  have c: "0 < q_tail q - q_head q" "q' = q\<lparr>q_head := q_head q + 1\<rparr>"
    using assms by (auto simp: QUEUE_POP_def split: if_splits bind_splits)
  then have pos: "0 < unat (q_tail q - q_head q)" by (simp add: word_less_nat_alt)
  then have "unat (q_tail q - (q_head q + 1)) = unat (q_tail q - q_head q) - 1"
    by (rule unat_diff_minus_one)
  then show ?thesis using pos c(2) by (simp add: QUEUE_COUNT_def)
qed

section \<open>The first-in first-out contract\<close>

text \<open>
  What the clients of a queue (the message queue of an I/O thread, the send queue of a session)
  rely on: an invariant, the queued elements in order, a bound below which pushing succeeds, and
  the effect of push and pop on the order.
\<close>

locale fifo =
  fixes inv :: "'q \<Rightarrow> bool"
    and elems :: "'q \<Rightarrow> 'a list"
    and push :: "'q \<Rightarrow> 'a \<Rightarrow> (int \<times> 'q) option"
    and pop :: "'q \<Rightarrow> (int \<times> 'a option \<times> 'q) option"
    and bound :: nat
  assumes push_law: "inv q \<Longrightarrow> length (elems q) < bound \<Longrightarrow>
      \<exists>q'. push q x = Some (0, q') \<and> inv q' \<and> elems q' = elems q @ [x]"
    and pop_law: "inv q \<Longrightarrow> elems q = x # xs \<Longrightarrow>
      \<exists>q'. pop q = Some (1, Some x, q') \<and> inv q' \<and> elems q' = xs"
    and pop_nil_law: "inv q \<Longrightarrow> elems q = [] \<Longrightarrow> pop q = Some (0, None, q)"
begin

text \<open>Pushing a list of elements one by one, and popping until the queue reports that it is empty.\<close>

fun push_all :: "'q \<Rightarrow> 'a list \<Rightarrow> 'q option" where
  "push_all q [] = Some q"
| "push_all q (x # xs) = (case push q x of
      None \<Rightarrow> None
    | Some (rc, q') \<Rightarrow> if rc = 0 then push_all q' xs else None)"

fun pop_all :: "nat \<Rightarrow> 'q \<Rightarrow> ('a list \<times> 'q) option" where
  "pop_all 0 q = None"
| "pop_all (Suc fuel) q = (case pop q of
      None \<Rightarrow> None
    | Some (rc, x, q') \<Rightarrow> (case x of
         None \<Rightarrow> Some ([], q')
       | Some y \<Rightarrow> map_option (\<lambda>(ys, q''). (y # ys, q'')) (pop_all fuel q')))"

lemma push_all_elems:
  "inv q \<Longrightarrow> length (elems q) + length xs \<le> bound \<Longrightarrow>
   \<exists>q'. push_all q xs = Some q' \<and> inv q' \<and> elems q' = elems q @ xs"
proof (induction xs arbitrary: q)
  case Nil
  then show ?case by simp
next
  case (Cons x xs)
  then obtain q1 where q1: "push q x = Some (0, q1)" "inv q1" "elems q1 = elems q @ [x]"
    using push_law [of q x] by auto
  with Cons.IH [of q1] Cons.prems show ?case by auto
qed

lemma pop_all_elems:
  "inv q \<Longrightarrow> length (elems q) < fuel \<Longrightarrow>
   \<exists>q'. pop_all fuel q = Some (elems q, q') \<and> inv q' \<and> elems q' = []"
proof (induction fuel arbitrary: q)
  case 0
  then show ?case by simp
next
  case (Suc fuel)
  show ?case
  proof (cases "elems q")
    case Nil
    with Suc.prems show ?thesis using pop_nil_law [of q] by simp
  next
    case (Cons x xs)
    with Suc.prems obtain q1 where "pop q = Some (1, Some x, q1)" "inv q1" "elems q1 = xs"
      using pop_law by blast
    with Suc.IH [of q1] Suc.prems Cons show ?thesis by auto
  qed
qed

lemma push_all_pop_all:
  assumes "inv q" "elems q = []" "length xs \<le> bound" "length xs < fuel"
  shows "\<exists>q' q''. push_all q xs = Some q' \<and> pop_all fuel q' = Some (xs, q'')"
proof -
  obtain q' where "push_all q xs = Some q'" "inv q'" "elems q' = xs"
    using push_all_elems [of q xs] assms by auto
  with pop_all_elems [of q' fuel] assms show ?thesis by auto
qed

end

text \<open>The ring buffer is such a queue while \<^verbatim>\<open>calloc\<close> succeeds.\<close>

interpretation rq: fifo ring_ok ring_list "QUEUE_PUSH True z" QUEUE_POP "2 ^ 31" for z
proof (unfold_locales, goal_cases)
  case (1 q x)
  then show ?case by (rule ring_push)
next
  case (2 q x xs)
  then show ?case by (rule ring_pop)
next
  case (3 q)
  then show ?case by (rule ring_pop_Nil)
qed

section \<open>Sequences of operations\<close>

text \<open>The calls a client makes on a queue, and what each one reports.\<close>

datatype 'a qop = Push 'a | Pop | Top | Get u32 | Count | Reset
datatype 'a qres = Code int | Elem int "'a option" | Num u32

fun ring_step :: "'a \<Rightarrow> 'a ring \<Rightarrow> 'a qop \<Rightarrow> ('a qres \<times> 'a ring) option" where
  "ring_step z q (Push x) = map_option (\<lambda>(rc, q'). (Code rc, q')) (QUEUE_PUSH True z q x)"
| "ring_step z q Pop = map_option (\<lambda>(rc, x, q'). (Elem rc x, q')) (QUEUE_POP q)"
| "ring_step z q Top = map_option (\<lambda>(rc, x). (Elem rc x, q)) (QUEUE_TOP q)"
| "ring_step z q (Get i) = map_option (\<lambda>(rc, x). (Elem rc x, q)) (QUEUE_GET q i)"
| "ring_step z q Count = Some (Num (QUEUE_COUNT q), q)"
| "ring_step z q Reset = Some (Code 0, QUEUE_RESET q)"

fun list_step :: "'a list \<Rightarrow> 'a qop \<Rightarrow> 'a qres \<times> 'a list" where
  "list_step xs (Push x) = (Code 0, xs @ [x])"
| "list_step xs Pop = (case xs of [] \<Rightarrow> (Elem 0 None, []) | x # ys \<Rightarrow> (Elem 1 (Some x), ys))"
| "list_step xs Top = (case xs of [] \<Rightarrow> (Elem (- 1) None, []) | x # ys \<Rightarrow> (Elem 0 (Some x), xs))"
| "list_step xs (Get i) =
     (if unat i < length xs then (Elem 0 (Some (xs ! unat i)), xs) else (Elem (- 1) None, xs))"
| "list_step xs Count = (Num (of_nat (length xs)), xs)"
| "list_step xs Reset = (Code 0, [])"

fun ring_run :: "'a \<Rightarrow> 'a ring \<Rightarrow> 'a qop list \<Rightarrow> ('a qres list \<times> 'a ring) option" where
  "ring_run z q [] = Some ([], q)"
| "ring_run z q (op # ops) = do {
     (r, q) \<leftarrow> ring_step z q op;
     (rs, q) \<leftarrow> ring_run z q ops;
     Some (r # rs, q)
   }"

fun list_run :: "'a list \<Rightarrow> 'a qop list \<Rightarrow> 'a qres list \<times> 'a list" where
  "list_run xs [] = ([], xs)"
| "list_run xs (op # ops) =
     (let (r, xs) = list_step xs op; (rs, xs) = list_run xs ops in (r # rs, xs))"

lemma ring_step_refines:
  assumes ok: "ring_ok q" and small: "length (ring_list q) < 2 ^ 31"
  shows "\<exists>q'. ring_step z q op = Some (fst (list_step (ring_list q) op), q') \<and> ring_ok q' \<and>
     ring_list q' = snd (list_step (ring_list q) op)"
proof (cases op)
  case (Push x)
  then show ?thesis using ring_push [OF assms, of z x] by auto
next
  case Pop
  then show ?thesis
    using ring_pop [OF ok] ring_pop_Nil [OF ok] ok by (cases "ring_list q") fastforce+
next
  case Top
  then show ?thesis
    using ok by (cases "ring_list q") (auto simp: QUEUE_TOP_def ring_get)
next
  case (Get i)
  then show ?thesis using ok by (auto simp: ring_get)
next
  case Count
  then show ?thesis using ok ring_list_length [OF ok] by simp
next
  case Reset
  then show ?thesis using ring_reset [OF ok] by simp
qed

lemma list_step_length: "length (snd (list_step xs op)) \<le> Suc (length xs)"
  by (cases op) (auto split: list.splits)

lemma ring_run_refines:
  assumes "ring_ok q" and "length (ring_list q) + length ops \<le> 2 ^ 31"
  shows "\<exists>q'. ring_run z q ops = Some (fst (list_run (ring_list q) ops), q') \<and> ring_ok q' \<and>
     ring_list q' = snd (list_run (ring_list q) ops)"
  using assms
proof (induction ops arbitrary: q)
  case Nil
  then show ?case by simp
next
  case (Cons op ops)
  then obtain q1 where q1: "ring_step z q op = Some (fst (list_step (ring_list q) op), q1)"
      "ring_ok q1" "ring_list q1 = snd (list_step (ring_list q) op)"
    using ring_step_refines [of q z op] by auto
  moreover have "length (ring_list q1) + length ops \<le> 2 ^ 31"
    using list_step_length [of "ring_list q" op] q1(3) Cons.prems by simp
  ultimately show ?case
    using Cons.IH [of q1] by (auto simp: Let_def split_beta)
qed

text \<open>
  C5: The ring queue of queue.h behaves as an unbounded first-in first-out list.  For every
  sequence of up to 2^31 calls of QUEUE_PUSH, QUEUE_POP, QUEUE_TOP, QUEUE_GET, QUEUE_COUNT and
  QUEUE_RESET on a well-formed ring, with memory available, each call returns the code and the
  element that the list operation returns, no access leaves the block, and the ring still holds
  the list's elements, wherever its wrapping counters stand and however often it grew.
\<close>

theorem ring_queue_refines_list:
  assumes "ring_ok q" and "length (ring_list q) + length ops \<le> 2 ^ 31"
  shows "\<exists>q'. ring_run z q ops = Some (fst (list_run (ring_list q) ops), q') \<and> ring_ok q' \<and>
     ring_list q' = snd (list_run (ring_list q) ops)"
  using assms by (rule ring_run_refines)

text \<open>A ring of two slots whose counters are about to wrap: three pushes grow it across the end.\<close>

definition ring_example :: "nat ring" where
  "ring_example = \<lparr>q_size = 2, q_entries = Some [10, 0], q_head = - 2, q_tail = - 1\<rparr>"

theorem ring_queue_refines_list_witness:
  "\<exists>q'. ring_run 0 ring_example [Push 11, Push 12, Pop, Count]
     = Some (fst (list_run (ring_list ring_example) [Push 11, Push 12, Pop, Count]), q') \<and>
   ring_ok q' \<and> ring_list q' = snd (list_run (ring_list ring_example) [Push 11, Push 12, Pop, Count])"
proof -
  have "ring_ok ring_example" "ring_list ring_example = [10]"
    by (auto simp: ring_ok_def ring_example_def QUEUE_COUNT_def ring_list_def q_slot_def
        intro: exI [of _ 1])
  then show ?thesis by (intro ring_queue_refines_list) simp_all
qed

end
