(* ===== verification/TailQueue.thy ===== *)
theory TailQueue
  imports Prelude
begin

text \<open>
  The intrusive doubly linked tail queue of \<^verbatim>\<open>src/queue.h\<close> (the \<^verbatim>\<open>TAILQ_*\<close> macros), at the level
  of its pointers.  A link field holds the next element and the \<^emph>\<open>address of the cell that points
  to this element\<close>; a head holds the first element and the address of the last cell.  Addresses
  of cells are values of \<open>loc\<close>, the memory is a record of the fields of all heads and elements,
  and one memory may hold many queues (the buckets of the timer share one link field).

  \<open>tailq m h xs\<close> says that the memory holds, at head \<open>h\<close>, a well linked queue of the elements
  \<open>xs\<close>.  Each macro is shown to be the list operation, and to leave every other queue alone.
\<close>

section \<open>Memory and macros\<close>

datatype ('h, 'n) loc = FirstOf 'h | NextOf 'n

record ('h, 'n) tqmem =
  tqh_first :: "'h \<Rightarrow> 'n option"
  tqh_last :: "'h \<Rightarrow> ('h, 'n) loc"
  tqe_next :: "'n \<Rightarrow> 'n option"
  tqe_prev :: "'n \<Rightarrow> ('h, 'n) loc"

text \<open>Reading and writing the pointer stored in a cell.\<close>

fun deref :: "('h, 'n) tqmem \<Rightarrow> ('h, 'n) loc \<Rightarrow> 'n option" where
  "deref m (FirstOf h) = tqh_first m h"
| "deref m (NextOf n) = tqe_next m n"

fun store :: "('h, 'n) loc \<Rightarrow> 'n option \<Rightarrow> ('h, 'n) tqmem \<Rightarrow> ('h, 'n) tqmem" where
  "store (FirstOf h) v m = m\<lparr>tqh_first := (tqh_first m)(h := v)\<rparr>"
| "store (NextOf n) v m = m\<lparr>tqe_next := (tqe_next m)(n := v)\<rparr>"

text \<open>
  The second pointer of the structure that starts at a cell: \<^verbatim>\<open>TAILQ_LAST\<close> and \<^verbatim>\<open>TAILQ_PREV\<close> read
  a link field through a pointer to a head, both being a pair of pointers.
\<close>

fun second :: "('h, 'n) tqmem \<Rightarrow> ('h, 'n) loc \<Rightarrow> ('h, 'n) loc" where
  "second m (FirstOf h) = tqh_last m h"
| "second m (NextOf n) = tqe_prev m n"

definition set_last :: "'h \<Rightarrow> ('h, 'n) loc \<Rightarrow> ('h, 'n) tqmem \<Rightarrow> ('h, 'n) tqmem" where
  "set_last h l m = m\<lparr>tqh_last := (tqh_last m)(h := l)\<rparr>"

definition set_prev :: "'n \<Rightarrow> ('h, 'n) loc \<Rightarrow> ('h, 'n) tqmem \<Rightarrow> ('h, 'n) tqmem" where
  "set_prev n l m = m\<lparr>tqe_prev := (tqe_prev m)(n := l)\<rparr>"

definition TAILQ_INIT :: "'h \<Rightarrow> ('h, 'n) tqmem \<Rightarrow> ('h, 'n) tqmem" where
  "TAILQ_INIT h m = set_last h (FirstOf h) (store (FirstOf h) None m)"

definition TAILQ_EMPTY :: "('h, 'n) tqmem \<Rightarrow> 'h \<Rightarrow> bool" where
  "TAILQ_EMPTY m h \<longleftrightarrow> tqh_first m h = None"

definition TAILQ_FIRST :: "('h, 'n) tqmem \<Rightarrow> 'h \<Rightarrow> 'n option" where
  "TAILQ_FIRST m h = tqh_first m h"

definition TAILQ_NEXT :: "('h, 'n) tqmem \<Rightarrow> 'n \<Rightarrow> 'n option" where
  "TAILQ_NEXT m n = tqe_next m n"

definition TAILQ_LAST :: "('h, 'n) tqmem \<Rightarrow> 'h \<Rightarrow> 'n option" where
  "TAILQ_LAST m h = deref m (second m (tqh_last m h))"

definition TAILQ_PREV :: "('h, 'n) tqmem \<Rightarrow> 'n \<Rightarrow> 'n option" where
  "TAILQ_PREV m n = deref m (second m (tqe_prev m n))"

definition TAILQ_INSERT_TAIL :: "'h \<Rightarrow> 'n \<Rightarrow> ('h, 'n) tqmem \<Rightarrow> ('h, 'n) tqmem" where
  "TAILQ_INSERT_TAIL h n m =
     (let m = store (NextOf n) None m;
          m = set_prev n (tqh_last m h) m;
          m = store (tqh_last m h) (Some n) m
      in set_last h (NextOf n) m)"

definition TAILQ_INSERT_HEAD :: "'h \<Rightarrow> 'n \<Rightarrow> ('h, 'n) tqmem \<Rightarrow> ('h, 'n) tqmem" where
  "TAILQ_INSERT_HEAD h n m =
     (let m = store (NextOf n) (tqh_first m h) m;
          m = (case tqe_next m n of
                 Some f \<Rightarrow> set_prev f (NextOf n) m
               | None \<Rightarrow> set_last h (NextOf n) m);
          m = store (FirstOf h) (Some n) m
      in set_prev n (FirstOf h) m)"

definition TAILQ_INSERT_AFTER :: "'h \<Rightarrow> 'n \<Rightarrow> 'n \<Rightarrow> ('h, 'n) tqmem \<Rightarrow> ('h, 'n) tqmem" where
  "TAILQ_INSERT_AFTER h a n m =
     (let m = store (NextOf n) (tqe_next m a) m;
          m = (case tqe_next m n of
                 Some f \<Rightarrow> set_prev f (NextOf n) m
               | None \<Rightarrow> set_last h (NextOf n) m);
          m = store (NextOf a) (Some n) m
      in set_prev n (NextOf a) m)"

definition TAILQ_INSERT_BEFORE :: "'n \<Rightarrow> 'n \<Rightarrow> ('h, 'n) tqmem \<Rightarrow> ('h, 'n) tqmem" where
  "TAILQ_INSERT_BEFORE b n m =
     (let m = set_prev n (tqe_prev m b) m;
          m = store (NextOf n) (Some b) m;
          m = store (tqe_prev m b) (Some n) m
      in set_prev b (NextOf n) m)"

definition TAILQ_REMOVE :: "'h \<Rightarrow> 'n \<Rightarrow> ('h, 'n) tqmem \<Rightarrow> ('h, 'n) tqmem" where
  "TAILQ_REMOVE h n m =
     (let m = (case tqe_next m n of
                 Some f \<Rightarrow> set_prev f (tqe_prev m n) m
               | None \<Rightarrow> set_last h (tqe_prev m n) m)
      in store (tqe_prev m n) (tqe_next m n) m)"

definition TAILQ_CONCAT :: "'h \<Rightarrow> 'h \<Rightarrow> ('h, 'n) tqmem \<Rightarrow> ('h, 'n) tqmem" where
  "TAILQ_CONCAT h1 h2 m =
     (case tqh_first m h2 of
        None \<Rightarrow> m
      | Some f \<Rightarrow>
          (let m = store (tqh_last m h1) (Some f) m;
               m = set_prev f (tqh_last m h1) m;
               m = set_last h1 (tqh_last m h2) m
           in TAILQ_INIT h2 m))"

text \<open>\<^verbatim>\<open>TAILQ_FOREACH\<close>: the elements visited, following at most \<open>fuel\<close> links.\<close>

fun TAILQ_FOREACH :: "nat \<Rightarrow> ('h, 'n) tqmem \<Rightarrow> 'n option \<Rightarrow> 'n list option" where
  "TAILQ_FOREACH fuel m None = Some []"
| "TAILQ_FOREACH 0 m (Some n) = None"
| "TAILQ_FOREACH (Suc fuel) m (Some n) = map_option ((#) n) (TAILQ_FOREACH fuel m (TAILQ_NEXT m n))"

section \<open>Well linked queues\<close>

fun path :: "('h, 'n) tqmem \<Rightarrow> ('h, 'n) loc \<Rightarrow> 'n list \<Rightarrow> ('h, 'n) loc \<Rightarrow> bool" where
  "path m l [] e \<longleftrightarrow> l = e"
| "path m l (x # xs) e \<longleftrightarrow> deref m l = Some x \<and> tqe_prev m x = l \<and> path m (NextOf x) xs e"

definition tailq :: "('h, 'n) tqmem \<Rightarrow> 'h \<Rightarrow> 'n list \<Rightarrow> bool" where
  "tailq m h xs \<longleftrightarrow> path m (FirstOf h) xs (tqh_last m h) \<and> deref m (tqh_last m h) = None \<and> distinct xs"

lemma path_append: "path m l (xs @ ys) e \<longleftrightarrow> (\<exists>k. path m l xs k \<and> path m k ys e)"
  by (induction xs arbitrary: l) auto

lemma path_end: "path m l xs e \<Longrightarrow> e = (if xs = [] then l else NextOf (last xs))"
  by (induction xs arbitrary: l) auto

lemma tqh_first_deref: "tqh_first m h = deref m (FirstOf h)"
  by simp

lemma tqe_next_deref: "tqe_next m n = deref m (NextOf n)"
  by simp

declare deref.simps [simp del]


text \<open>A path reads the cell it starts from, the next cells but the last one, and the back links.\<close>

lemma path_frame:
  assumes "path m l xs e"
    and "xs \<noteq> [] \<Longrightarrow> deref m' l = deref m l"
    and "\<And>x. x \<in> set (butlast xs) \<Longrightarrow> deref m' (NextOf x) = deref m (NextOf x)"
    and "\<And>x. x \<in> set xs \<Longrightarrow> tqe_prev m' x = tqe_prev m x"
  shows "path m' l xs e"
  using assms
proof (induction xs arbitrary: l)
  case Nil
  then show ?case by simp
next
  case (Cons x xs)
  have "path m' (NextOf x) xs e"
  proof (rule Cons.IH)
    show "path m (NextOf x) xs e" using Cons.prems(1) by simp
    show "xs \<noteq> [] \<Longrightarrow> deref m' (NextOf x) = deref m (NextOf x)" using Cons.prems(3) by simp
    show "\<And>y. y \<in> set (butlast xs) \<Longrightarrow> deref m' (NextOf y) = deref m (NextOf y)"
      using Cons.prems(3) by (cases xs) auto
    show "\<And>y. y \<in> set xs \<Longrightarrow> tqe_prev m' y = tqe_prev m y" using Cons.prems(4) by simp
  qed
  with Cons.prems show ?case by simp
qed

lemma store_simps [simp]:
  "tqh_last (store l v m) = tqh_last m"
  "tqe_prev (store l v m) = tqe_prev m"
  "tqe_prev (set_last h k m) = tqe_prev m"
  "tqh_last (set_last h k m) = (tqh_last m)(h := k)"
  "tqh_last (set_prev n k m) = tqh_last m"
  "tqe_prev (set_prev n k m) = (tqe_prev m)(n := k)"
  by (cases l; simp add: set_last_def set_prev_def)+

lemma deref_updates [simp]:
  "deref (store k v m) l = (if l = k then v else deref m l)"
  "deref (set_last h k' m) l = deref m l"
  "deref (set_prev n k' m) l = deref m l"
  by (cases l; cases k; simp add: deref.simps set_last_def set_prev_def)+

declare store.simps [simp del]

lemmas tailq_mem = tqh_first_deref tqe_next_deref

lemma last_notin_butlast: "distinct xs \<Longrightarrow> xs \<noteq> [] \<Longrightarrow> last xs \<notin> set (butlast xs)"
  by (cases xs rule: rev_cases) auto

lemma tailqE:
  assumes "tailq m h xs"
  shows "path m (FirstOf h) xs (tqh_last m h)" "deref m (tqh_last m h) = None" "distinct xs"
    "tqh_last m h = (if xs = [] then FirstOf h else NextOf (last xs))"
  using assms path_end [of m "FirstOf h" xs "tqh_last m h"] by (auto simp: tailq_def)

section \<open>The macros on the queue they are applied to\<close>

lemma tailq_init: "tailq (TAILQ_INIT h m) h []"
  by (simp add: tailq_def TAILQ_INIT_def)

text \<open>A segment whose end is moved away: only its last cell may change.\<close>

lemma path_segment:
  assumes "path m (FirstOf h) xs e" and "distinct xs"
    and "\<And>c. c = FirstOf h \<or> c \<in> NextOf ` set xs \<Longrightarrow> c \<noteq> e \<Longrightarrow> deref m' c = deref m c"
    and "\<And>x. x \<in> set xs \<Longrightarrow> tqe_prev m' x = tqe_prev m x"
  shows "path m' (FirstOf h) xs e"
proof (rule path_frame [OF assms(1)])
  note e = path_end [OF assms(1)]
  show "xs \<noteq> [] \<Longrightarrow> deref m' (FirstOf h) = deref m (FirstOf h)" using assms(3) e by simp
  show "deref m' (NextOf x) = deref m (NextOf x)" if x: "x \<in> set (butlast xs)" for x
  proof -
    have "xs \<noteq> []" using x by auto
    then have "x \<noteq> last xs" using x last_notin_butlast [OF assms(2)] by blast
    then show ?thesis using assms(3) [of "NextOf x"] e x \<open>xs \<noteq> []\<close> by (simp add: in_set_butlastD)
  qed
  show "\<And>x. x \<in> set xs \<Longrightarrow> tqe_prev m' x = tqe_prev m x" using assms(4) .
qed

text \<open>A queue seen from one of its positions.\<close>

lemma tailq_split:
  assumes "tailq m h (ys @ zs)"
  obtains k where "path m (FirstOf h) ys k" "path m k zs (tqh_last m h)"
    "k = (if ys = [] then FirstOf h else NextOf (last ys))"
    "tqh_last m h = (if zs = [] then k else NextOf (last zs))"
    "deref m (tqh_last m h) = None" "distinct ys" "distinct zs" "set ys \<inter> set zs = {}"
proof -
  obtain k where k: "path m (FirstOf h) ys k" "path m k zs (tqh_last m h)"
    using assms by (auto simp: tailq_def path_append)
  show thesis
    by (rule that [OF k]) (use assms path_end [OF k(1)] path_end [OF k(2)] in \<open>auto simp: tailq_def\<close>)
qed

lemma tailqI:
  assumes "path m (FirstOf h) ys k" "path m k zs (tqh_last m h)" "deref m (tqh_last m h) = None"
    "distinct (ys @ zs)"
  shows "tailq m h (ys @ zs)"
  using assms by (auto simp: tailq_def path_append)

lemma tailq_insert_tail:
  assumes t: "tailq m h xs" and new: "x \<notin> set xs"
  shows "tailq (TAILQ_INSERT_TAIL h x m) h (xs @ [x])"
proof (rule tailqI)
  note t = tailqE [OF t]
  show "path (TAILQ_INSERT_TAIL h x m) (FirstOf h) xs (tqh_last m h)"
    by (rule path_segment [OF t(1,3)])
      (use t(4) new in \<open>auto simp: TAILQ_INSERT_TAIL_def Let_def split: if_splits\<close>)
  show "path (TAILQ_INSERT_TAIL h x m) (tqh_last m h) [x] (tqh_last (TAILQ_INSERT_TAIL h x m) h)"
    by (simp add: TAILQ_INSERT_TAIL_def Let_def)
  show "deref (TAILQ_INSERT_TAIL h x m) (tqh_last (TAILQ_INSERT_TAIL h x m) h) = None"
    using t(4) new by (auto simp: TAILQ_INSERT_TAIL_def Let_def split: if_splits)
  show "distinct (xs @ [x])" using t(3) new by simp
qed

lemma tailq_remove_split:
  assumes "tailq m h (ys @ x # zs)"
  shows "tailq (TAILQ_REMOVE h x m) h (ys @ zs)"
proof -
  obtain k where t: "path m (FirstOf h) ys k" "path m k (x # zs) (tqh_last m h)"
    "k = (if ys = [] then FirstOf h else NextOf (last ys))"
    "tqh_last m h = NextOf (last (x # zs))"
    "deref m (tqh_last m h) = None" "distinct ys" "distinct (x # zs)" "set ys \<inter> set (x # zs) = {}"
    using tailq_split [OF assms] by (metis list.discI)
  have lys: "ys \<noteq> [] \<Longrightarrow> last ys \<in> set ys" "ys \<noteq> [] \<Longrightarrow> last ys \<notin> set (x # zs)"
    using t(8) last_in_set [of ys] by (blast intro: last_in_set)+
  show ?thesis
  proof (rule tailqI)
    show "path (TAILQ_REMOVE h x m) (FirstOf h) ys k"
      by (rule path_segment [OF t(1,6)])
        (use t lys in \<open>(cases zs; auto simp: TAILQ_REMOVE_def tailq_mem split: if_splits)+\<close>)
    show "path (TAILQ_REMOVE h x m) k zs (tqh_last (TAILQ_REMOVE h x m) h)"
    proof (cases zs)
      case Nil
      then show ?thesis using t by (auto simp: TAILQ_REMOVE_def tailq_mem)
    next
      case (Cons z zs')
      have "path (TAILQ_REMOVE h x m) (NextOf z) zs' (tqh_last m h)"
        by (rule path_frame [where m = m])
          (use t Cons lys in \<open>auto simp: TAILQ_REMOVE_def tailq_mem dest: in_set_butlastD split: if_splits\<close>)
      then show ?thesis using t Cons by (auto simp: TAILQ_REMOVE_def tailq_mem)
    qed
    show "deref (TAILQ_REMOVE h x m) (tqh_last (TAILQ_REMOVE h x m) h) = None"
      using t lys by (cases zs) (auto simp: TAILQ_REMOVE_def tailq_mem split: if_splits)
    show "distinct (ys @ zs)" using t by auto
  qed
qed

lemma tailq_insert_split:
  assumes t: "tailq m h (ys @ zs)" and new: "x \<notin> set (ys @ zs)"
    and k: "k = (if ys = [] then FirstOf h else NextOf (last ys))"
    and m1: "deref m' k = Some x" "tqe_prev m' x = k" "deref m' (NextOf x) = deref m k"
      "\<And>c. c \<noteq> k \<Longrightarrow> c \<noteq> NextOf x \<Longrightarrow> deref m' c = deref m c"
    and m2: "\<And>y. y \<noteq> x \<Longrightarrow> tqe_prev m' y = (if deref m k = Some y then NextOf x else tqe_prev m y)"
    and m3: "tqh_last m' h = (if zs = [] then NextOf x else tqh_last m h)"
  shows "tailq m' h (ys @ x # zs)"
proof -
  obtain k' where t: "path m (FirstOf h) ys k'" "path m k' zs (tqh_last m h)"
    "k' = (if ys = [] then FirstOf h else NextOf (last ys))"
    "tqh_last m h = (if zs = [] then k' else NextOf (last zs))"
    "deref m (tqh_last m h) = None" "distinct ys" "distinct zs" "set ys \<inter> set zs = {}"
    using t by (rule tailq_split)
  have k: "k' = k" using t(3) k by simp
  note t = t [unfolded k]
  have lys: "ys \<noteq> [] \<Longrightarrow> last ys \<in> set ys" "ys \<noteq> [] \<Longrightarrow> last ys \<notin> set zs"
    using t(8) last_in_set [of ys] by (blast intro: last_in_set)+
  have hd: "deref m k = (case zs of [] \<Rightarrow> None | z # _ \<Rightarrow> Some z)"
    using t by (cases zs) auto
  have prev: "tqe_prev m' y = tqe_prev m y" if y: "y \<in> set ys" for y
  proof -
    have "y \<noteq> x" "deref m k \<noteq> Some y"
      using y new t(8) hd by (auto split: list.splits)
    then show ?thesis using m2 by simp
  qed
  show ?thesis
  proof (rule tailqI)
    show "path m' (FirstOf h) ys k"
      by (rule path_segment [OF t(1,6)]) (use new m1(4) prev in auto)
    have "path m' (NextOf x) zs (tqh_last m' h)"
    proof (cases zs)
      case Nil
      then show ?thesis using m3 by simp
    next
      case (Cons z zs')
      have "path m' (NextOf z) zs' (tqh_last m h)"
      proof (rule path_frame [where m = m])
        show "path m (NextOf z) zs' (tqh_last m h)" using t(2) Cons by simp
        have "NextOf z \<noteq> k" "z \<noteq> x" using t(3) lys Cons new by (auto split: if_splits)
        then show "deref m' (NextOf z) = deref m (NextOf z)" by (simp add: m1(4))
        fix y
        have "NextOf y \<noteq> k \<and> y \<noteq> x \<and> y \<noteq> z" if "y \<in> set zs'"
          using that t(3,7) lys Cons new by (auto split: if_splits)
        then show "y \<in> set (butlast zs') \<Longrightarrow> deref m' (NextOf y) = deref m (NextOf y)"
          and "y \<in> set zs' \<Longrightarrow> tqe_prev m' y = tqe_prev m y"
          using hd Cons by (auto simp: m1(4) m2 dest: in_set_butlastD)
      qed
      then show ?thesis using Cons m1 m2 m3 hd new by auto
    qed
    then show "path m' k (x # zs) (tqh_last m' h)" using m1 by simp
    show "deref m' (tqh_last m' h) = None"
    proof (cases "zs = []")
      case True
      then show ?thesis using m3 m1 hd by simp
    next
      case False
      then have "tqh_last m h \<noteq> k" "tqh_last m h \<noteq> NextOf x"
        using t(3,4) lys new last_in_set [OF False]
        by (auto simp del: last_in_set split: if_splits)
      then show ?thesis using False m3 m1(4) t(5) by simp
    qed
    show "distinct (ys @ x # zs)" using t new by auto
  qed
qed

text \<open>The cell before a position, and what the macros read of it.\<close>

lemma tailq_cell:
  assumes "tailq m h (ys @ zs)"
  defines "k \<equiv> (if ys = [] then FirstOf h else NextOf (last ys))"
  shows "deref m k = (if zs = [] then None else Some (hd zs))"
    "zs \<noteq> [] \<Longrightarrow> tqe_prev m (hd zs) = k" "zs = [] \<Longrightarrow> tqh_last m h = k"
proof -
  obtain k' where "path m (FirstOf h) ys k'" "path m k' zs (tqh_last m h)" "k' = k"
    "deref m (tqh_last m h) = None"
    using assms by (metis tailq_split)
  then show "deref m k = (if zs = [] then None else Some (hd zs))"
    "zs \<noteq> [] \<Longrightarrow> tqe_prev m (hd zs) = k" "zs = [] \<Longrightarrow> tqh_last m h = k"
    by (cases zs; auto)+
qed

lemma tailq_insert_head:
  assumes t: "tailq m h xs" and new: "x \<notin> set xs"
  shows "tailq (TAILQ_INSERT_HEAD h x m) h (x # xs)"
proof -
  have c: "deref m (FirstOf h) = (if xs = [] then None else Some (hd xs))"
    using tailq_cell [of m h "[]" xs] t by simp
  have "tailq (TAILQ_INSERT_HEAD h x m) h ([] @ x # xs)"
    by (rule tailq_insert_split [where m = m and ys = "[]" and zs = xs and k = "FirstOf h"])
      (use t new c hd_in_set [of xs] in
        \<open>auto simp: TAILQ_INSERT_HEAD_def tailq_mem Let_def simp del: list.set_sel(1) hd_in_set split: if_splits\<close>)
  then show ?thesis by simp
qed

lemma tailq_insert_after:
  assumes t: "tailq m h (ys @ a # zs)" and new: "x \<notin> set (ys @ a # zs)"
  shows "tailq (TAILQ_INSERT_AFTER h a x m) h (ys @ a # x # zs)"
proof -
  have c: "deref m (NextOf a) = (if zs = [] then None else Some (hd zs))"
    using tailq_cell [of m h "ys @ [a]" zs] t by simp
  have "tailq (TAILQ_INSERT_AFTER h a x m) h ((ys @ [a]) @ x # zs)"
    by (rule tailq_insert_split [where m = m and ys = "ys @ [a]" and zs = zs and k = "NextOf a"])
      (use t new c hd_in_set [of zs] in
        \<open>auto simp: TAILQ_INSERT_AFTER_def tailq_mem Let_def simp del: list.set_sel(1) hd_in_set split: if_splits\<close>)
  then show ?thesis by simp
qed

lemma tailq_insert_before:
  assumes t: "tailq m h (ys @ b # zs)" and new: "x \<notin> set (ys @ b # zs)"
  shows "tailq (TAILQ_INSERT_BEFORE b x m) h (ys @ x # b # zs)"
proof -
  define k where "k = (if ys = [] then FirstOf h else NextOf (last ys))"
  have c: "deref m k = Some b" "tqe_prev m b = k" and "k \<noteq> NextOf x"
    using tailq_cell [OF t] new by (auto simp: k_def)
  then show ?thesis
    by (intro tailq_insert_split [where m = m and ys = ys and zs = "b # zs" and k = k, OF t])
      (use new in \<open>auto simp: TAILQ_INSERT_BEFORE_def tailq_mem Let_def k_def [symmetric]\<close>)
qed

lemma tailq_remove:
  assumes "tailq m h xs" and "x \<in> set xs"
  shows "tailq (TAILQ_REMOVE h x m) h (remove1 x xs)"
proof -
  obtain ys zs where "xs = ys @ x # zs" "x \<notin> set ys"
    using assms(2) by (metis split_list_first)
  with assms(1) show ?thesis
    using tailq_remove_split [of m h ys x zs] by (simp add: remove1_append)
qed

section \<open>Reading a queue\<close>

lemma tailq_first: "tailq m h xs \<Longrightarrow> TAILQ_FIRST m h = (if xs = [] then None else Some (hd xs))"
  by (cases xs) (auto simp: tailq_def TAILQ_FIRST_def tailq_mem)

lemma tailq_empty: "tailq m h xs \<Longrightarrow> TAILQ_EMPTY m h \<longleftrightarrow> xs = []"
  by (cases xs) (auto simp: tailq_def TAILQ_EMPTY_def tailq_mem)

lemma tailq_next:
  "tailq m h (ys @ x # zs) \<Longrightarrow> TAILQ_NEXT m x = (if zs = [] then None else Some (hd zs))"
  by (cases zs) (auto simp: tailq_def TAILQ_NEXT_def tailq_mem path_append)

lemma tailq_prev:
  assumes t: "tailq m h (ys @ x # zs)"
  shows "TAILQ_PREV m x = (if ys = [] then None else Some (last ys))"
proof (cases ys rule: rev_cases)
  case Nil
  then show ?thesis
    using tailqE(2) [OF t] tailq_cell(2) [OF t] by (simp add: TAILQ_PREV_def)
next
  case (snoc vs v)
  then show ?thesis
    using tailq_cell [OF t] tailq_cell [of m h vs "v # x # zs"] t by (simp add: TAILQ_PREV_def)
qed

lemma tailq_last:
  assumes t: "tailq m h xs"
  shows "TAILQ_LAST m h = (if xs = [] then None else Some (last xs))"
proof (cases xs rule: rev_cases)
  case Nil
  then show ?thesis using tailqE [OF t] by (simp add: TAILQ_LAST_def)
next
  case (snoc ys x)
  then show ?thesis
    using tailqE(4) [OF t] tailq_cell [of m h ys "[x]"] t by (simp add: TAILQ_LAST_def)
qed

lemma tailq_foreach_from:
  "path m l xs e \<Longrightarrow> deref m e = None \<Longrightarrow> length xs \<le> fuel \<Longrightarrow>
   TAILQ_FOREACH fuel m (deref m l) = Some xs"
proof (induction xs arbitrary: l fuel)
  case (Cons x xs)
  then show ?case by (cases fuel) (auto simp: TAILQ_NEXT_def tailq_mem)
qed simp

lemma tailq_foreach:
  "tailq m h xs \<Longrightarrow> length xs \<le> fuel \<Longrightarrow> TAILQ_FOREACH fuel m (TAILQ_FIRST m h) = Some xs"
  using tailq_foreach_from [of m "FirstOf h" xs "tqh_last m h" fuel]
  by (simp add: tailq_def TAILQ_FIRST_def tailq_mem)

section \<open>Many queues in one memory\<close>

text \<open>A macro on queue \<open>h\<close> only writes cells and back links of that queue's own elements.\<close>

definition agree_outside :: "'h set \<Rightarrow> 'n set \<Rightarrow> ('h, 'n) tqmem \<Rightarrow> ('h, 'n) tqmem \<Rightarrow> bool" where
  "agree_outside G X m m' \<longleftrightarrow>
     (\<forall>c. c \<notin> FirstOf ` G \<and> c \<notin> NextOf ` X \<longrightarrow> deref m' c = deref m c) \<and>
     (\<forall>y. y \<notin> X \<longrightarrow> tqe_prev m' y = tqe_prev m y) \<and>
     (\<forall>g. g \<notin> G \<longrightarrow> tqh_last m' g = tqh_last m g)"

lemma tailq_other:
  assumes t: "tailq m g ys" and a: "agree_outside G X m m'" and "g \<notin> G" "set ys \<inter> X = {}"
  shows "tailq m' g ys"
proof -
  have d: "deref m' c = deref m c" if "c = FirstOf g \<or> c \<in> NextOf ` set ys" for c
    using a that assms(3,4) by (auto simp: agree_outside_def)
  have p: "tqe_prev m' y = tqe_prev m y" if "y \<in> set ys" for y
    using a that assms(4) by (auto simp: agree_outside_def)
  have l: "tqh_last m' g = tqh_last m g" using a assms(3) by (simp add: agree_outside_def)
  have "path m' (FirstOf g) ys (tqh_last m g)"
    by (rule path_segment [OF tailqE(1,3) [OF t]]) (use d p in auto)
  moreover have "deref m' (tqh_last m g) = deref m (tqh_last m g)"
    using tailqE(4) [OF t] by (intro d) auto
  ultimately show ?thesis using tailqE [OF t] l by (simp add: tailq_def)
qed

lemma tailq_last_cell: "tailq m h xs \<Longrightarrow> tqh_last m h \<in> insert (FirstOf h) (NextOf ` set xs)"
  using tailqE(4) [of m h xs] by auto

lemma tailq_prev_cell:
  "tailq m h xs \<Longrightarrow> x \<in> set xs \<Longrightarrow> tqe_prev m x \<in> insert (FirstOf h) (NextOf ` set xs)"
  using tailq_cell(2) [of m h _ "x # _"] by (auto dest!: split_list split: if_splits)

lemma tailq_next_elem:
  assumes "tailq m h xs" and "x \<in> set xs" and "deref m (NextOf x) = Some y"
  shows "y \<in> set xs"
proof -
  obtain ys zs where xs: "xs = ys @ x # zs" using assms(2) by (auto dest: split_list)
  then have "deref m (NextOf x) = (if zs = [] then None else Some (hd zs))"
    using tailq_next [of m h ys x zs] assms(1) by (simp add: TAILQ_NEXT_def tailq_mem)
  then show ?thesis using assms(3) xs by (auto split: if_splits)
qed

lemma tailq_first_elem: "tailq m h xs \<Longrightarrow> deref m (FirstOf h) = Some y \<Longrightarrow> y \<in> set xs"
  using tailq_first [of m h xs] by (auto simp: TAILQ_FIRST_def tailq_mem split: if_splits)

lemma agree_init: "agree_outside {h} {} m (TAILQ_INIT h m)"
  by (auto simp: agree_outside_def TAILQ_INIT_def)

lemma agree_insert_tail:
  "tailq m h xs \<Longrightarrow> agree_outside {h} (insert x (set xs)) m (TAILQ_INSERT_TAIL h x m)"
  using tailq_last_cell [of m h xs]
  by (auto simp: agree_outside_def TAILQ_INSERT_TAIL_def Let_def)

lemma agree_insert_head:
  "tailq m h xs \<Longrightarrow> agree_outside {h} (insert x (set xs)) m (TAILQ_INSERT_HEAD h x m)"
  using tailq_first_elem [of m h xs]
  by (auto simp: agree_outside_def TAILQ_INSERT_HEAD_def Let_def tailq_mem split: option.splits)

lemma agree_insert_before:
  "tailq m h xs \<Longrightarrow> b \<in> set xs \<Longrightarrow> x \<noteq> b \<Longrightarrow>
   agree_outside {h} (insert x (set xs)) m (TAILQ_INSERT_BEFORE b x m)"
  using tailq_prev_cell [of m h xs b]
  by (auto simp: agree_outside_def TAILQ_INSERT_BEFORE_def Let_def)

lemma agree_remove:
  "tailq m h xs \<Longrightarrow> x \<in> set xs \<Longrightarrow> agree_outside {h} (set xs) m (TAILQ_REMOVE h x m)"
  using tailq_prev_cell [of m h xs x] tailq_next_elem [of m h xs x]
  by (auto simp: agree_outside_def TAILQ_REMOVE_def Let_def tailq_mem split: option.splits)

lemma tailq_concat:
  assumes t1: "tailq m g xs" and t2: "tailq m h ys" and ne: "g \<noteq> h" and dis: "set xs \<inter> set ys = {}"
  shows "tailq (TAILQ_CONCAT g h m) g (xs @ ys)" "tailq (TAILQ_CONCAT g h m) h []"
    "agree_outside {g, h} (set xs \<union> set ys) m (TAILQ_CONCAT g h m)"
proof -
  let ?m = "TAILQ_CONCAT g h m"
  note l1 = tailqE [OF t1] note l2 = tailqE [OF t2]
  note c = tailq_last_cell [OF t1]
  show "agree_outside {g, h} (set xs \<union> set ys) m ?m"
    using c tailq_first_elem [OF t2]
    by (auto simp: agree_outside_def TAILQ_CONCAT_def TAILQ_INIT_def Let_def tailq_mem split: option.splits)
  show "tailq ?m h []"
    using t2 tailq_first [OF t2]
    by (cases ys) (auto simp: tailq_def TAILQ_CONCAT_def TAILQ_INIT_def Let_def tailq_mem TAILQ_FIRST_def)
  show "tailq ?m g (xs @ ys)"
  proof (cases ys)
    case Nil
    then show ?thesis using t1 tailq_first [OF t2] by (simp add: TAILQ_CONCAT_def TAILQ_FIRST_def)
  next
    case (Cons y ys')
    have first: "tqh_first m h = Some y" using tailq_first [OF t2] Cons by (simp add: TAILQ_FIRST_def)
    have last: "tqh_last m h \<in> NextOf ` set ys"
      using l2(4) Cons by (simp del: list.set_sel last_in_set) (metis last_in_set image_eqI list.discI)
    have cells: "tqh_last m g \<noteq> FirstOf h" "tqh_last m g \<notin> NextOf ` set ys"
      using c dis ne by auto
    have cell: "NextOf v \<noteq> tqh_last m g" if "v \<in> set (butlast ys')" for v
      using c dis ne Cons in_set_butlastD [OF that] by auto
    show ?thesis
    proof (rule tailqI)
      show "path ?m (FirstOf g) xs (tqh_last m g)"
        by (rule path_segment [OF l1(1,3)])
          (use ne dis Cons in \<open>auto simp: TAILQ_CONCAT_def TAILQ_INIT_def Let_def first\<close>)
      have "path ?m (NextOf y) ys' (tqh_last m h)"
        by (rule path_frame [where m = m])
          (use l2 Cons cells cell in \<open>auto simp: TAILQ_CONCAT_def TAILQ_INIT_def Let_def first\<close>)
      then show "path ?m (tqh_last m g) ys (tqh_last ?m g)"
        using Cons cells ne by (simp add: TAILQ_CONCAT_def TAILQ_INIT_def Let_def first)
      show "deref ?m (tqh_last ?m g) = None"
        using l2(2) last cells ne by (auto simp: TAILQ_CONCAT_def TAILQ_INIT_def Let_def first)
      show "distinct (xs @ ys)" using l1 l2 dis by simp
    qed
  qed
qed

section \<open>Sequences of calls on many queues\<close>

text \<open>
  \<open>tailqs m G Q\<close>: every head of \<open>G\<close> has been initialised and holds the list \<open>Q h\<close>, and no
  element is on two of these queues, which the single link field could not represent.
\<close>

definition tailqs :: "('h, 'n) tqmem \<Rightarrow> 'h set \<Rightarrow> ('h \<Rightarrow> 'n list) \<Rightarrow> bool" where
  "tailqs m G Q \<longleftrightarrow>
     (\<forall>h \<in> G. tailq m h (Q h)) \<and> (\<forall>g \<in> G. \<forall>h \<in> G. g \<noteq> h \<longrightarrow> set (Q g) \<inter> set (Q h) = {})"

datatype ('h, 'n) tqop =
    InsTail 'h 'n | InsHead 'h 'n | InsBefore 'h 'n 'n | Remove 'h 'n | Concat 'h 'h
  | First 'h | Last 'h | Next 'h 'n | Prev 'h 'n

text \<open>The macros: the new memory and the pointer that a reading macro yields.\<close>

fun tq_step :: "('h, 'n) tqmem \<Rightarrow> ('h, 'n) tqop \<Rightarrow> 'n option \<times> ('h, 'n) tqmem" where
  "tq_step m (InsTail h x) = (None, TAILQ_INSERT_TAIL h x m)"
| "tq_step m (InsHead h x) = (None, TAILQ_INSERT_HEAD h x m)"
| "tq_step m (InsBefore h b x) = (None, TAILQ_INSERT_BEFORE b x m)"
| "tq_step m (Remove h x) = (None, TAILQ_REMOVE h x m)"
| "tq_step m (Concat g h) = (None, TAILQ_CONCAT g h m)"
| "tq_step m (First h) = (TAILQ_FIRST m h, m)"
| "tq_step m (Last h) = (TAILQ_LAST m h, m)"
| "tq_step m (Next h x) = (TAILQ_NEXT m x, m)"
| "tq_step m (Prev h x) = (TAILQ_PREV m x, m)"

text \<open>The contract on lists; a call outside the contract has no result.\<close>

fun insert_before :: "'n \<Rightarrow> 'n \<Rightarrow> 'n list \<Rightarrow> 'n list" where
  "insert_before b x [] = []"
| "insert_before b x (y # ys) = (if y = b then x # y # ys else y # insert_before b x ys)"

fun neighbour :: "'n \<Rightarrow> 'n list \<Rightarrow> 'n option" where
  "neighbour x [] = None"
| "neighbour x (y # ys) =
     (if y = x then (case ys of [] \<Rightarrow> None | z # _ \<Rightarrow> Some z) else neighbour x ys)"

definition fresh_in :: "'h list \<Rightarrow> ('h \<Rightarrow> 'n list) \<Rightarrow> 'n \<Rightarrow> bool" where
  "fresh_in hs Q x \<longleftrightarrow> list_all (\<lambda>h. x \<notin> set (Q h)) hs"

fun lists_step :: "'h list \<Rightarrow> ('h \<Rightarrow> 'n list) \<Rightarrow> ('h, 'n) tqop \<Rightarrow> ('n option \<times> ('h \<Rightarrow> 'n list)) option" where
  "lists_step hs Q (InsTail h x) =
     (if h \<in> set hs \<and> fresh_in hs Q x then Some (None, Q(h := Q h @ [x])) else None)"
| "lists_step hs Q (InsHead h x) =
     (if h \<in> set hs \<and> fresh_in hs Q x then Some (None, Q(h := x # Q h)) else None)"
| "lists_step hs Q (InsBefore h b x) =
     (if h \<in> set hs \<and> b \<in> set (Q h) \<and> fresh_in hs Q x
      then Some (None, Q(h := insert_before b x (Q h))) else None)"
| "lists_step hs Q (Remove h x) =
     (if h \<in> set hs \<and> x \<in> set (Q h) then Some (None, Q(h := remove1 x (Q h))) else None)"
| "lists_step hs Q (Concat g h) =
     (if g \<in> set hs \<and> h \<in> set hs \<and> g \<noteq> h then Some (None, Q(g := Q g @ Q h, h := [])) else None)"
| "lists_step hs Q (First h) =
     (if h \<in> set hs then Some (case Q h of [] \<Rightarrow> None | x # _ \<Rightarrow> Some x, Q) else None)"
| "lists_step hs Q (Last h) =
     (if h \<in> set hs then Some (if Q h = [] then None else Some (last (Q h)), Q) else None)"
| "lists_step hs Q (Next h x) =
     (if h \<in> set hs \<and> x \<in> set (Q h) then Some (neighbour x (Q h), Q) else None)"
| "lists_step hs Q (Prev h x) =
     (if h \<in> set hs \<and> x \<in> set (Q h) then Some (neighbour x (rev (Q h)), Q) else None)"

fun tq_run :: "('h, 'n) tqmem \<Rightarrow> ('h, 'n) tqop list \<Rightarrow> 'n option list \<times> ('h, 'n) tqmem" where
  "tq_run m [] = ([], m)"
| "tq_run m (op # ops) =
     (let (r, m) = tq_step m op; (rs, m) = tq_run m ops in (r # rs, m))"

fun lists_run :: "'h list \<Rightarrow> ('h \<Rightarrow> 'n list) \<Rightarrow> ('h, 'n) tqop list \<Rightarrow>
    ('n option list \<times> ('h \<Rightarrow> 'n list)) option" where
  "lists_run hs Q [] = Some ([], Q)"
| "lists_run hs Q (op # ops) = do {
     (r, Q) \<leftarrow> lists_step hs Q op;
     (rs, Q) \<leftarrow> lists_run hs Q ops;
     Some (r # rs, Q)
   }"

definition tq_init :: "'h list \<Rightarrow> ('h, 'n) tqmem \<Rightarrow> ('h, 'n) tqmem" where
  "tq_init hs m = fold TAILQ_INIT hs m"

lemma fresh_in_iff: "fresh_in hs Q x \<longleftrightarrow> (\<forall>h \<in> set hs. x \<notin> set (Q h))"
  by (simp add: fresh_in_def list_all_iff)

lemma insert_before_split: "b \<notin> set ys \<Longrightarrow> insert_before b x (ys @ b # zs) = ys @ x # b # zs"
  by (induction ys) auto

lemma neighbour_split:
  "x \<notin> set ys \<Longrightarrow> neighbour x (ys @ x # zs) = (if zs = [] then None else Some (hd zs))"
  by (induction ys; cases zs; auto)

lemma tailq_init_all: "distinct hs \<Longrightarrow> tailqs (tq_init hs m) (set hs) (\<lambda>_. [])"
proof -
  have "\<forall>h \<in> G \<union> set hs. tailq (fold TAILQ_INIT hs m) h []" if "\<forall>h \<in> G. tailq m h []" for G
    using that
  proof (induction hs arbitrary: m G)
    case (Cons g hs)
    have "\<forall>h \<in> insert g G. tailq (TAILQ_INIT g m) h []"
      using Cons.prems tailq_init [of g m] tailq_other [of m _ "[]" "{g}" "{}"] agree_init [of g m]
      by (metis empty_set inf_bot_left insertE singletonD)
    from Cons.IH [OF this] show ?case by auto
  qed simp
  from this [of "{}"] show ?thesis by (simp add: tailqs_def tq_init_def)
qed

text \<open>Replacing the list of one queue, or of two.\<close>

lemma tailqs_update:
  assumes q: "tailqs m G Q" and h: "h \<in> G" and new: "tailq m' h xs"
    and agree: "agree_outside {h} X m m'" and sub: "set xs \<subseteq> X"
    and dis: "\<And>g. g \<in> G \<Longrightarrow> g \<noteq> h \<Longrightarrow> set (Q g) \<inter> X = {}"
  shows "tailqs m' G (Q(h := xs))"
  unfolding tailqs_def
proof (intro conjI ballI impI)
  fix g assume g: "g \<in> G"
  show "tailq m' g ((Q(h := xs)) g)"
  proof (cases "g = h")
    case False
    then show ?thesis
      using tailq_other [OF _ agree, of g "Q g"] q g dis by (simp add: tailqs_def)
  qed (simp add: new)
  fix k assume k: "k \<in> G" "g \<noteq> k"
  have "set (Q g) \<inter> set (Q k) = {}" using q g k by (simp add: tailqs_def)
  moreover have "g \<noteq> h \<Longrightarrow> set (Q g) \<inter> set xs = {}" "k \<noteq> h \<Longrightarrow> set xs \<inter> set (Q k) = {}"
    using dis [OF g] dis [OF k(1)] sub by blast+
  ultimately show "set ((Q(h := xs)) g) \<inter> set ((Q(h := xs)) k) = {}" using k(2) by auto
qed

lemma tailqs_concat:
  assumes q: "tailqs m G Q" and "g \<in> G" "h \<in> G" "g \<noteq> h"
  shows "tailqs (TAILQ_CONCAT g h m) G (Q(g := Q g @ Q h, h := []))"
  unfolding tailqs_def
proof (intro conjI ballI impI)
  note dis = q [unfolded tailqs_def, THEN conjunct2, rule_format]
  note c = tailq_concat [OF _ _ assms(4) dis [OF assms(2-4)], of m]
  have t: "tailq m g (Q g)" "tailq m h (Q h)" using q assms(2,3) by (simp_all add: tailqs_def)
  fix k assume k: "k \<in> G"
  show "tailq (TAILQ_CONCAT g h m) k ((Q(g := Q g @ Q h, h := [])) k)"
  proof (cases "k = g \<or> k = h")
    case True
    then show ?thesis using c(1,2) [OF t] assms(4) by auto
  next
    case False
    then have "set (Q k) \<inter> (set (Q g) \<union> set (Q h)) = {}"
      using dis [OF k assms(2)] dis [OF k assms(3)] by auto
    then show ?thesis
      using tailq_other [OF _ c(3) [OF t], of k "Q k"] q k False by (simp add: tailqs_def)
  qed
  fix l assume l: "l \<in> G" "k \<noteq> l"
  show "set ((Q(g := Q g @ Q h, h := [])) k) \<inter> set ((Q(g := Q g @ Q h, h := [])) l) = {}"
    using dis [OF k l] dis [OF k assms(2)] dis [OF k assms(3)] dis [OF assms(2) l(1)]
      dis [OF assms(3) l(1)] l(2) by auto
qed

lemma tailqs_fresh:
  assumes "tailqs m (set hs) Q" "h \<in> set hs" "fresh_in hs Q x" "g \<in> set hs" "g \<noteq> h"
  shows "set (Q g) \<inter> insert x (set (Q h)) = {}"
  using assms by (auto simp: tailqs_def fresh_in_iff)

lemma tailqs_at: "tailqs m G Q \<Longrightarrow> h \<in> G \<Longrightarrow> tailq m h (Q h)"
  by (simp add: tailqs_def)

lemma tq_step_refines:
  assumes q: "tailqs m (set hs) Q" and s: "lists_step hs Q op = Some (r, Q')"
  shows "fst (tq_step m op) = r \<and> tailqs (snd (tq_step m op)) (set hs) Q'"
proof (cases op)
  case (InsTail h x)
  then have *: "h \<in> set hs" "fresh_in hs Q x" "r = None" "Q' = Q(h := Q h @ [x])"
    using s by (auto split: if_splits)
  note t = tailqs_at [OF q *(1)]
  have new: "x \<notin> set (Q h)" using *(1,2) by (simp add: fresh_in_iff)
  have "tailqs (TAILQ_INSERT_TAIL h x m) (set hs) (Q(h := Q h @ [x]))"
    by (rule tailqs_update [OF q *(1) tailq_insert_tail [OF t new] agree_insert_tail [OF t]])
      (use tailqs_fresh [OF q *(1,2)] in auto)
  then show ?thesis using * InsTail by simp
next
  case (InsHead h x)
  then have *: "h \<in> set hs" "fresh_in hs Q x" "r = None" "Q' = Q(h := x # Q h)"
    using s by (auto split: if_splits)
  note t = tailqs_at [OF q *(1)]
  have new: "x \<notin> set (Q h)" using *(1,2) by (simp add: fresh_in_iff)
  have "tailqs (TAILQ_INSERT_HEAD h x m) (set hs) (Q(h := x # Q h))"
    by (rule tailqs_update [OF q *(1) tailq_insert_head [OF t new] agree_insert_head [OF t]])
      (use tailqs_fresh [OF q *(1,2)] in auto)
  then show ?thesis using * InsHead by simp
next
  case (InsBefore h b x)
  then have *: "h \<in> set hs" "fresh_in hs Q x" "b \<in> set (Q h)" "r = None"
      "Q' = Q(h := insert_before b x (Q h))"
    using s by (auto split: if_splits)
  obtain ys zs where ys: "Q h = ys @ b # zs" "b \<notin> set ys"
    using *(3) by (metis split_list_first)
  have t: "tailq m h (ys @ b # zs)" using tailqs_at [OF q *(1)] ys by simp
  have new: "x \<notin> set (ys @ b # zs)" using * ys by (auto simp: fresh_in_iff)
  have "tailqs (TAILQ_INSERT_BEFORE b x m) (set hs) (Q(h := ys @ x # b # zs))"
    by (rule tailqs_update [OF q *(1) tailq_insert_before [OF t new] agree_insert_before [OF t]])
      (use new tailqs_fresh [OF q *(1,2)] ys in auto)
  then show ?thesis using * ys InsBefore by (simp add: insert_before_split)
next
  case (Remove h x)
  then have *: "h \<in> set hs" "x \<in> set (Q h)" "r = None" "Q' = Q(h := remove1 x (Q h))"
    using s by (auto split: if_splits)
  note t = tailqs_at [OF q *(1)]
  have "tailqs (TAILQ_REMOVE h x m) (set hs) (Q(h := remove1 x (Q h)))"
    by (rule tailqs_update [OF q *(1) tailq_remove [OF t *(2)] agree_remove [OF t *(2)]])
      (use q *(1) in \<open>auto simp: tailqs_def dest: set_remove1_subset [THEN subsetD]\<close>)
  then show ?thesis using * Remove by simp
next
  case (Concat g h)
  then show ?thesis using s q tailqs_concat by (auto split: if_splits)
next
  case (First h)
  then show ?thesis
    using s q tailq_first [OF tailqs_at [OF q, of h]] by (auto split: if_splits list.splits)
next
  case (Last h)
  then show ?thesis
    using s q tailq_last [OF tailqs_at [OF q, of h]] by (auto split: if_splits)
next
  case (Next h x)
  then have *: "h \<in> set hs" "x \<in> set (Q h)" "r = neighbour x (Q h)" "Q' = Q"
    using s by (auto split: if_splits)
  obtain ys zs where "Q h = ys @ x # zs" "x \<notin> set ys"
    using *(2) by (metis split_list_first)
  then show ?thesis
    using * q Next tailq_next [of m h ys x zs] tailqs_at [OF q *(1)] by (simp add: neighbour_split)
next
  case (Prev h x)
  then have *: "h \<in> set hs" "x \<in> set (Q h)" "r = neighbour x (rev (Q h))" "Q' = Q"
    using s by (auto split: if_splits)
  obtain ys zs where "Q h = ys @ x # zs" "x \<notin> set zs"
    using *(2) by (metis split_list_last)
  then show ?thesis
    using * q Prev tailq_prev [of m h ys x zs] tailqs_at [OF q *(1)]
    by (simp add: neighbour_split hd_rev)
qed

lemma tq_run_refines:
  assumes "tailqs m (set hs) Q" and "lists_run hs Q ops = Some (rs, Q')"
  shows "fst (tq_run m ops) = rs \<and> tailqs (snd (tq_run m ops)) (set hs) Q'"
  using assms
proof (induction ops arbitrary: m Q rs)
  case (Cons op ops)
  obtain r Q1 rs1 where *: "lists_step hs Q op = Some (r, Q1)" "lists_run hs Q1 ops = Some (rs1, Q')"
      "rs = r # rs1"
    using Cons.prems(2) by (auto split: Option.bind_splits)
  show ?case
    using tq_step_refines [OF Cons.prems(1) *(1)] Cons.IH [OF _ *(2)] *(3)
    by (auto simp: split_beta Let_def)
qed simp

text \<open>
  C14: The TAILQ macros of queue.h, working on raw next/previous pointers, implement lists.  From
  any memory, initialise any number of heads and run any sequence of insertions at the tail, at
  the head or before an element, removals, concatenations and pointer reads that respects the
  contract (a new element is on none of the queues, a named element is on its queue): every read
  returns the element the list operation returns, and at the end every head holds, well linked in
  both directions, exactly the list that the abstract run computes.
\<close>

theorem tailq_refines_lists:
  assumes "distinct hs" and "lists_run hs (\<lambda>_. []) ops = Some (rs, Q)"
  shows "fst (tq_run (tq_init hs m) ops) = rs \<and>
    (\<forall>h \<in> set hs. tailq (snd (tq_run (tq_init hs m) ops)) h (Q h))"
  using tq_run_refines [OF tailq_init_all [OF assms(1), of m] assms(2)] by (simp add: tailqs_def)

definition tq_junk :: "(nat, nat) tqmem" where
  "tq_junk = \<lparr>tqh_first = \<lambda>_. Some 7, tqh_last = \<lambda>_. NextOf 3, tqe_next = \<lambda>_. Some 1,
     tqe_prev = \<lambda>_. FirstOf 9\<rparr>"

definition tq_example :: "(nat, nat) tqop list" where
  "tq_example = [InsTail 0 10, InsTail 0 11, InsHead 1 20, InsBefore 0 11 12, Concat 0 1, Remove 0 12, Next 0 10]"

theorem tailq_refines_lists_witness:
  "fst (tq_run (tq_init [0, 1] tq_junk) tq_example) = [None, None, None, None, None, None, Some 11] \<and>
   tailq (snd (tq_run (tq_init [0, 1] tq_junk) tq_example)) 0 [10, 11, 20] \<and>
   tailq (snd (tq_run (tq_init [0, 1] tq_junk) tq_example)) 1 []"
proof -
  have "distinct [0, 1 :: nat]" by simp
  moreover have "lists_run [0, 1] (\<lambda>_. []) tq_example
      = Some ([None, None, None, None, None, None, Some 11], (\<lambda>_. [])(0 := [10, 11, 20]))"
    by (auto simp: tq_example_def fresh_in_def fun_eq_iff)
  ultimately show ?thesis using tailq_refines_lists [of "[0, 1]"] by fastforce
qed

end
