(* ===== verification/Utils.thy ===== *)
theory Utils
  imports Prelude
begin

text \<open>
  The arithmetic helpers of \<^verbatim>\<open>src/utils.c\<close>: \<open>getpower\<close>, the exponent of the largest power of
  two that fits, and \<open>nextpow2\<close>, the rounding up to a power of two by smearing the top bit to
  the right, which callers use to size hash tables and rings.  The clock readers and the
  descriptor flag setters take the system call they make as an argument.
\<close>

section \<open>Powers of two\<close>

lemma unat_half: "unat (drop_bit 1 (w :: u32)) = unat w div 2"
  by (simp add: drop_bit_eq_div unat_div del: One_nat_def)

text \<open>The loop halves \<open>sz\<close> until nothing is left.\<close>

function getpower_loop :: "u32 \<Rightarrow> u32 \<Rightarrow> u32" where
  "getpower_loop sz n =
     (let sz = drop_bit 1 sz in if sz \<noteq> 0 then getpower_loop sz (n + 1) else n)"
  by auto
termination
proof (relation "measure (\<lambda>(sz, _). unat sz)")
  fix sz n s :: u32
  assume "s = drop_bit 1 sz" "s \<noteq> 0"
  then have "unat s = unat sz div 2" "unat sz \<noteq> 0"
    using unat_half [of sz] unat_eq_zero [of sz] by auto
  then show "((s, n + 1), sz, n) \<in> measure (\<lambda>(sz, _). unat sz)" by simp
qed simp

declare getpower_loop.simps [simp del]

definition getpower :: "u32 \<Rightarrow> u32" where
  "getpower sz = getpower_loop sz 0"

definition nextpow2 :: "u32 \<Rightarrow> u32" where
  "nextpow2 sz =
     (let sz = sz - 1;
          sz = sz OR drop_bit 1 sz;
          sz = sz OR drop_bit 2 sz;
          sz = sz OR drop_bit 4 sz;
          sz = sz OR drop_bit 8 sz;
          sz = sz OR drop_bit 16 sz
      in sz + 1)"

lemma getpower_loop_bounds:
  assumes "sz \<noteq> 0"
  shows "\<exists>k < 32. getpower_loop sz n = n + of_nat k \<and> 2 ^ k \<le> unat sz \<and> unat sz < 2 ^ Suc k"
  using assms
proof (induction sz n rule: getpower_loop.induct)
  case (1 sz n)
  define h where "h = drop_bit 1 sz"
  have h: "unat h = unat sz div 2"
    by (simp only: h_def unat_half)
  have pos: "0 < unat sz" using 1(2) by (simp add: unat_gt_0)
  show ?case
  proof (cases "h = 0")
    case True
    then have "unat sz = 1" using h pos by (simp add: div_eq_0_iff)
    then show ?thesis
      using True by (intro exI [of _ 0]) (subst getpower_loop.simps, simp add: h_def Let_def)
  next
    case False
    then obtain k where k: "k < 32" "getpower_loop h (n + 1) = n + 1 + of_nat k"
        "2 ^ k \<le> unat h" "unat h < 2 ^ Suc k"
      using 1(1) [OF h_def] by auto
    have "2 ^ Suc k \<le> unat sz" "unat sz < 2 ^ Suc (Suc k)" using k(3,4) h by auto
    moreover have "Suc k < 32"
    proof -
      have "unat sz < 2 ^ LENGTH(32)" by (rule unsigned_less)
      then have "(2::nat) ^ Suc k < 2 ^ 32" using \<open>2 ^ Suc k \<le> unat sz\<close> by simp
      then show ?thesis by (rule power_less_imp_less_exp [rotated]) simp
    qed
    moreover have "getpower_loop sz n = n + of_nat (Suc k)"
      using False k(2) by (subst getpower_loop.simps) (simp add: h_def Let_def algebra_simps)
    ultimately show ?thesis by blast
  qed
qed

text \<open>\<open>getpower\<close> is the binary logarithm, rounded down.\<close>

lemma getpower_floor:
  assumes "0 < sz"
  shows "2 ^ unat (getpower sz) \<le> unat sz \<and> unat sz < 2 ^ Suc (unat (getpower sz))"
proof -
  obtain k where k: "k < 32" "getpower sz = of_nat k" "2 ^ k \<le> unat sz" "unat sz < 2 ^ Suc k"
    using getpower_loop_bounds [of sz 0] assms by (auto simp: getpower_def)
  then have "unat (getpower sz) = k" by (simp add: unat_of_nat take_bit_nat_eq_self)
  with k show ?thesis by simp
qed

lemma getpower_zero: "getpower 0 = 0"
  by (simp add: getpower_def getpower_loop.simps)

section \<open>Smearing the top bit\<close>

text \<open>Bit \<open>i\<close> of \<open>s\<close> says that \<open>x\<close> has a bit in the \<open>n\<close> positions from \<open>i\<close> on.\<close>

definition smeared :: "nat \<Rightarrow> u32 \<Rightarrow> u32 \<Rightarrow> bool" where
  "smeared n x s \<longleftrightarrow> (\<forall>i. bit s i \<longleftrightarrow> (\<exists>j. i \<le> j \<and> j < i + n \<and> bit x j))"

lemma smeared_start: "smeared 1 x x"
  by (auto simp: smeared_def less_Suc_eq_le dest: le_antisym)

lemma smeared_step:
  assumes "smeared n x s"
  shows "smeared (n + n) x (s OR drop_bit n s)"
  unfolding smeared_def
proof
  fix i
  have "bit (s OR drop_bit n s) i \<longleftrightarrow> bit s i \<or> bit s (n + i)"
    by (simp add: bit_or_iff bit_drop_bit_eq)
  also have "\<dots> \<longleftrightarrow> (\<exists>j. i \<le> j \<and> j < i + (n + n) \<and> bit x j)"
  proof -
    have "i \<le> j \<and> j < i + (n + n) \<longleftrightarrow> (i \<le> j \<and> j < i + n) \<or> (n + i \<le> j \<and> j < n + i + n)" for j
      by linarith
    moreover have "bit s i \<longleftrightarrow> (\<exists>j. i \<le> j \<and> j < i + n \<and> bit x j)"
      "bit s (n + i) \<longleftrightarrow> (\<exists>j. n + i \<le> j \<and> j < n + i + n \<and> bit x j)"
      using assms by (simp_all add: smeared_def)
    ultimately show ?thesis by metis
  qed
  finally show "bit (s OR drop_bit n s) i \<longleftrightarrow> (\<exists>j. i \<le> j \<and> j < i + (n + n) \<and> bit x j)" .
qed

text \<open>A word between two powers of two has its top bit at the lower exponent.\<close>

lemma top_bit:
  fixes x :: u32
  assumes "2 ^ k \<le> unat x" "unat x < 2 ^ Suc k"
  shows "bit x k" "bit x j \<Longrightarrow> j \<le> k"
proof -
  have "unat x div 2 ^ k = 1" using assms by (simp add: div_nat_eqI)
  then have "bit (unat x) k" by (simp add: bit_iff_odd)
  then show "bit x k" by (simp add: bit_unsigned_iff)
  assume "bit x j"
  then have "bit (unat x) j" by (simp add: bit_unsigned_iff bit_imp_le_length)
  then have "2 ^ j \<le> unat x" by (auto simp: bit_iff_odd intro!: leI dest: div_less)
  then have "(2::nat) ^ j < 2 ^ Suc k" using assms(2) by linarith
  then show "j \<le> k" using power_less_imp_less_exp [of "2::nat" j "Suc k"] by simp
qed

lemma smeared_mask:
  assumes s: "smeared 32 x s" and x: "2 ^ k \<le> unat x" "unat x < 2 ^ Suc k"
  shows "s = mask (Suc k)"
proof (rule bit_word_eqI)
  fix i assume i: "i < LENGTH(32)"
  have k: "k < 32" using top_bit(1) [OF x] bit_imp_le_length by fastforce
  have "bit s i \<longleftrightarrow> (\<exists>j. i \<le> j \<and> j < i + 32 \<and> bit x j)" using s by (simp add: smeared_def)
  also have "\<dots> \<longleftrightarrow> i \<le> k"
    using top_bit [OF x] k by (meson le_trans trans_less_add2)
  finally show "bit s i \<longleftrightarrow> bit (mask (Suc k) :: u32) i"
    using i by (simp add: bit_mask_iff less_Suc_eq_le)
qed

lemma nextpow2_smear:
  obtains s where "smeared 32 (sz - 1) s" "nextpow2 sz = s + 1"
proof -
  define s1 where "s1 = (sz - 1) OR drop_bit 1 (sz - 1)"
  define s2 where "s2 = s1 OR drop_bit 2 s1"
  define s3 where "s3 = s2 OR drop_bit 4 s2"
  define s4 where "s4 = s3 OR drop_bit 8 s3"
  define s5 where "s5 = s4 OR drop_bit 16 s4"
  have "smeared 2 (sz - 1) s1"
    using smeared_step [OF smeared_start] by (simp add: s1_def numeral_2_eq_2)
  then have "smeared 4 (sz - 1) s2" using smeared_step [of 2] by (simp add: s2_def)
  then have "smeared 8 (sz - 1) s3" using smeared_step [of 4] by (simp add: s3_def)
  then have "smeared 16 (sz - 1) s4" using smeared_step [of 8] by (simp add: s4_def)
  then have "smeared 32 (sz - 1) s5" using smeared_step [of 16] by (simp add: s5_def)
  moreover have "nextpow2 sz = s5 + 1"
    by (simp add: nextpow2_def Let_def s5_def s4_def s3_def s2_def s1_def)
  ultimately show thesis by (rule that)
qed

lemma nextpow2_between:
  assumes "2 ^ k < unat sz" and "unat sz \<le> 2 ^ Suc k" and "Suc k < 32"
  shows "unat (nextpow2 sz) = 2 ^ Suc k"
proof -
  obtain s where s: "smeared 32 (sz - 1) s" "nextpow2 sz = s + 1" by (rule nextpow2_smear)
  have "1 \<le> sz" using assms(1) by (simp add: word_le_nat_alt)
  then have u: "unat (sz - 1) = unat sz - 1" by (simp add: unat_sub)
  have "s = mask (Suc k)" by (rule smeared_mask [OF s(1)]) (use u assms in auto)
  then have "nextpow2 sz = 2 ^ Suc k" using s(2) by (simp add: mask_eq_exp_minus_1)
  then have "nextpow2 sz = of_nat (2 ^ Suc k)" by simp
  moreover have "(2::nat) ^ Suc k < 2 ^ 32" using assms(3) by (intro power_strict_increasing) auto
  ultimately show ?thesis by (simp add: unat_of_nat take_bit_nat_eq_self del: power_Suc of_nat_power)
qed

lemma nextpow2_one: "nextpow2 1 = 1"
  by (simp add: nextpow2_def)

lemma nextpow2_least:
  assumes "1 \<le> unat sz" and "unat sz \<le> 2 ^ 31"
  shows "\<exists>k \<le> 31. unat (nextpow2 sz) = 2 ^ k \<and> unat sz \<le> 2 ^ k \<and> (0 < k \<longrightarrow> 2 ^ (k - 1) < unat sz)"
proof (cases "unat sz = 1")
  case True
  then have "sz = 1" by (simp add: word_unat_eq_iff)
  then show ?thesis by (intro exI [of _ 0]) (simp add: nextpow2_one)
next
  case False
  define k where "k = (LEAST k. unat sz \<le> 2 ^ k)"
  have le: "unat sz \<le> 2 ^ k" unfolding k_def by (rule LeastI [of _ 31]) (rule assms(2))
  have "k \<le> 31" unfolding k_def by (rule Least_le) (rule assms(2))
  have "k \<noteq> 0" using le False assms(1) by (intro notI) simp
  then obtain j where j: "k = Suc j" by (cases k) auto
  have "\<not> unat sz \<le> 2 ^ j" using not_less_Least [of j "\<lambda>k. unat sz \<le> 2 ^ k"] j by (simp add: k_def)
  then have "unat (nextpow2 sz) = 2 ^ k" using nextpow2_between [of j sz] le \<open>k \<le> 31\<close> j by simp
  with le \<open>k \<le> 31\<close> j \<open>\<not> unat sz \<le> 2 ^ j\<close> show ?thesis by (intro exI [of _ k]) auto
qed

lemma nextpow2_power:
  assumes "1 \<le> unat sz" "unat sz \<le> 2 ^ 31"
  shows "\<exists>k < 32. unat (nextpow2 sz) = 2 ^ k"
proof -
  obtain k where "k \<le> 31" "unat (nextpow2 sz) = 2 ^ k" using nextpow2_least [OF assms] by blast
  then show ?thesis by (intro exI [of _ k]) simp
qed

text \<open>
  Nextpow2 rounds up to a power of two: for every size from 1 to 2^31 the result is the
  smallest power of two that is at least the size.  Hash tables and ring queues are sized with it
  and find their slots by masking, which is only right for powers of two.
\<close>

theorem nextpow2_least_power:
  assumes "1 \<le> unat sz" and "unat sz \<le> 2 ^ 31"
  shows "\<exists>k \<le> 31. unat (nextpow2 sz) = 2 ^ k \<and> unat sz \<le> 2 ^ k \<and> (0 < k \<longrightarrow> 2 ^ (k - 1) < unat sz)"
  using assms by (rule nextpow2_least)

theorem nextpow2_least_power_witness:
  "\<exists>k \<le> 31. unat (nextpow2 1000) = 2 ^ k \<and> unat (1000 :: u32) \<le> 2 ^ k \<and>
     (0 < k \<longrightarrow> 2 ^ (k - 1) < unat (1000 :: u32))"
  by (rule nextpow2_least_power) simp_all

text \<open>Outside that range the addition or the subtraction wraps around and the result is 0.\<close>

lemma nextpow2_wraps: "nextpow2 0 = 0" "nextpow2 (2 ^ 31 + 1) = 0"
  by (simp_all add: nextpow2_def Let_def)

section \<open>Clocks and descriptor flags\<close>

text \<open>
  \<open>gettimeofday\<close> is an argument: \<open>None\<close> for a failure, otherwise seconds and microseconds.
\<close>

definition milliseconds :: "(int \<times> int) option \<Rightarrow> int" where
  "milliseconds tv = (case tv of None \<Rightarrow> - 1
     | Some (sec, usec) \<Rightarrow> sec * 1000 + trunc_div usec 1000)"

definition microseconds :: "(int \<times> int) option \<Rightarrow> int" where
  "microseconds tv = (case tv of None \<Rightarrow> - 1 | Some (sec, usec) \<Rightarrow> sec * 1000000 + usec)"

text \<open>\<open>msleep\<close> hands this time value to \<^verbatim>\<open>select\<close>.\<close>

definition msleep_timeval :: "int \<Rightarrow> int \<times> int" where
  "msleep_timeval ms = (trunc_div ms 1000, trunc_mod ms 1000 * 1000)"

text \<open>The two calls of \<^verbatim>\<open>fcntl\<close>: what the first one returns, and whether the second succeeds.\<close>

definition set_cloexec :: "int \<Rightarrow> (int \<Rightarrow> bool) \<Rightarrow> int" where
  "set_cloexec getfd setfd =
     (if 0 \<le> getfd then (if setfd (or getfd 1) then 0 else - 2) else - 1)"

definition set_non_block :: "int \<Rightarrow> (int \<Rightarrow> bool) \<Rightarrow> int" where
  "set_non_block getfl setfl =
     (if 0 \<le> getfl then (if setfl (or getfl 2048) then 0 else - 2) else - 1)"

lemma milliseconds_microseconds:
  "0 \<le> s \<Longrightarrow> 0 \<le> us \<Longrightarrow> milliseconds (Some (s, us)) = microseconds (Some (s, us)) div 1000"
  by (simp add: milliseconds_def microseconds_def)

end
