(* ===== verification/Sid.thy ===== *)
theory Sid
  imports Prelude
begin

text \<open>
  The layout of a 64-bit session identifier (\<^verbatim>\<open>src/session.h\<close>): 16 reserved bits for the
  application, 8 bits for the number of the manager plus one, 16 bits for the version of the slot
  and 24 bits for the slot.  The packing macro keeps the low bits of every part; unpacking gives
  the parts back.
\<close>

type_synonym sid = u64

definition SID_RES_MASK :: u64 where "SID_RES_MASK = 2 ^ 16 - 1"
definition SID_INDEX_MASK :: u64 where "SID_INDEX_MASK = 2 ^ 8 - 1"
definition SID_VERSION_MASK :: u64 where "SID_VERSION_MASK = 2 ^ 16 - 1"
definition SID_SEQ_MASK :: u64 where "SID_SEQ_MASK = 2 ^ 24 - 1"

definition INVALID_SLOT_INDEX :: u32 where "INVALID_SLOT_INDEX = 0xFFFFFFFF"
definition MAX_SLOT_CAPACITY :: u32 where "MAX_SLOT_CAPACITY = push_bit 24 1"

definition SID_SEQ :: "sid \<Rightarrow> u32" where
  "SID_SEQ sid = ucast (sid AND SID_SEQ_MASK)"

definition SID_VERSION :: "sid \<Rightarrow> u16" where
  "SID_VERSION sid = ucast (drop_bit 24 sid AND SID_VERSION_MASK)"

text \<open>The subtraction is done on \<open>int\<close>, after the cast to eight bits.\<close>

definition SID_INDEX :: "sid \<Rightarrow> int" where
  "SID_INDEX sid = uint (ucast (drop_bit 40 sid AND SID_INDEX_MASK) :: u8) - 1"

definition SID_RES :: "sid \<Rightarrow> u16" where
  "SID_RES sid = ucast (drop_bit 48 sid AND SID_RES_MASK)"

definition MAKE_SID :: "u8 \<Rightarrow> u16 \<Rightarrow> u32 \<Rightarrow> sid" where
  "MAKE_SID index ver sq =
     (push_bit 40 ((ucast index + 1) AND SID_INDEX_MASK) OR
      push_bit 24 (ucast ver AND SID_VERSION_MASK)) OR
     (ucast sq AND SID_SEQ_MASK)"

definition BIND_LOGIC_RES :: "sid \<Rightarrow> u16 \<Rightarrow> sid" where
  "BIND_LOGIC_RES sid res = sid OR push_bit 48 (ucast res AND SID_RES_MASK)"

lemmas sid_masks = SID_RES_MASK_def SID_INDEX_MASK_def SID_VERSION_MASK_def SID_SEQ_MASK_def

lemma sid_masks_mask:
  "SID_RES_MASK = mask 16" "SID_INDEX_MASK = mask 8" "SID_VERSION_MASK = mask 16" "SID_SEQ_MASK = mask 24"
  by (simp_all add: sid_masks mask_eq_exp_minus_1)

lemmas sid_defs = SID_SEQ_def SID_VERSION_def SID_INDEX_def SID_RES_def MAKE_SID_def BIND_LOGIC_RES_def

lemma SID_SEQ_MAKE: "SID_SEQ (MAKE_SID index ver sq) = take_bit 24 sq"
  unfolding SID_SEQ_def MAKE_SID_def sid_masks_mask
  by (rule bit_word_eqI) (auto simp: bit_simps)

lemma SID_VERSION_MAKE: "SID_VERSION (MAKE_SID index ver sq) = ver"
  unfolding SID_VERSION_def MAKE_SID_def sid_masks_mask
  by (rule bit_word_eqI) (auto simp: bit_simps)

lemma SID_RES_MAKE: "SID_RES (MAKE_SID index ver sq) = 0"
  unfolding SID_RES_def MAKE_SID_def sid_masks_mask
  by (rule bit_word_eqI) (auto simp: bit_simps)

lemma SID_INDEX_MAKE:
  assumes "index \<noteq> - 1"
  shows "SID_INDEX (MAKE_SID index ver sq) = uint index"
proof -
  have *: "ucast (drop_bit 40 (MAKE_SID index ver sq) AND SID_INDEX_MASK) = (ucast (ucast index + 1 :: u64) :: u8)"
    unfolding MAKE_SID_def sid_masks_mask
    by (rule bit_word_eqI) (auto simp: bit_simps)
  have "(ucast (ucast index + 1 :: u64) :: u8) = index + 1"
    by transfer (simp add: take_bit_eq_mod mod_simps mod_mod_cancel)
  moreover have "uint (index + 1) = uint index + 1"
  proof -
    have "uint index \<noteq> 255" using assms word_uint_eq_iff [of index "- 1"]
      by (simp add: unsigned_minus_1_eq_mask mask_eq_exp_minus_1)
    moreover have "uint index < 256" using uint_lt2p [of index] by simp
    ultimately show ?thesis by (simp add: uint_word_ariths)
  qed
  ultimately show ?thesis using * by (simp add: SID_INDEX_def)
qed

lemma seq_fits: "sq < 2 ^ 24 \<Longrightarrow> take_bit 24 (sq :: u32) = sq"
  by (simp add: take_bit_eq_mod word_less_nat_alt word_arith_nat_mod)

text \<open>The application's bits do not disturb the others.\<close>

lemma BIND_parts:
  "SID_SEQ (BIND_LOGIC_RES sid res) = SID_SEQ sid"
  "SID_VERSION (BIND_LOGIC_RES sid res) = SID_VERSION sid"
  "SID_INDEX (BIND_LOGIC_RES sid res) = SID_INDEX sid"
proof -
  show "SID_SEQ (BIND_LOGIC_RES sid res) = SID_SEQ sid"
    unfolding SID_SEQ_def BIND_LOGIC_RES_def sid_masks_mask
    by (rule bit_word_eqI) (auto simp: bit_simps)
  show "SID_VERSION (BIND_LOGIC_RES sid res) = SID_VERSION sid"
    unfolding SID_VERSION_def BIND_LOGIC_RES_def sid_masks_mask
    by (rule bit_word_eqI) (auto simp: bit_simps)
  have "drop_bit 40 (BIND_LOGIC_RES sid res) AND SID_INDEX_MASK = drop_bit 40 sid AND SID_INDEX_MASK"
    unfolding BIND_LOGIC_RES_def sid_masks_mask
    by (rule bit_word_eqI) (auto simp: bit_simps)
  then show "SID_INDEX (BIND_LOGIC_RES sid res) = SID_INDEX sid" by (simp add: SID_INDEX_def)
qed

lemma BIND_res: "SID_RES sid = 0 \<Longrightarrow> SID_RES (BIND_LOGIC_RES sid res) = res"
proof -
  assume z: "SID_RES sid = 0"
  have "SID_RES (BIND_LOGIC_RES sid res) = SID_RES sid OR res"
    unfolding SID_RES_def BIND_LOGIC_RES_def sid_masks_mask
    by (rule bit_word_eqI) (auto simp: bit_simps)
  then show ?thesis using z by simp
qed

lemma MAKE_SID_nonzero:
  assumes "index \<noteq> - 1"
  shows "MAKE_SID index ver sq \<noteq> 0"
proof
  assume "MAKE_SID index ver sq = 0"
  then have "uint index = - 1" using SID_INDEX_MAKE [OF assms, of ver sq] by (simp add: SID_INDEX_def)
  then show False using uint_nonnegative [of index] by simp
qed

lemma MAKE_SID_inj:
  "MAKE_SID i v s = MAKE_SID i' v' s' \<Longrightarrow> v = v' \<and> take_bit 24 s = take_bit 24 s'"
  by (metis SID_SEQ_MAKE SID_VERSION_MAKE)

text \<open>
  C37: Session identifiers round-trip.  Packing a manager number (below 255), a slot version and a
  slot below 2^24, then binding 16 bits of application data into the reserved part, is undone by
  the four extraction macros, and the identifier is never 0, the value that means no session.
\<close>

theorem sid_roundtrip:
  assumes "index \<noteq> - 1" and "sq < 2 ^ 24"
  shows "let sid = BIND_LOGIC_RES (MAKE_SID index ver sq) res
    in SID_SEQ sid = sq \<and> SID_VERSION sid = ver \<and> SID_INDEX sid = uint index \<and> SID_RES sid = res \<and>
    MAKE_SID index ver sq \<noteq> 0"
proof -
  have "take_bit 24 sq = sq"
    using assms(2) by (rule seq_fits)
  then show ?thesis
    using assms(1) MAKE_SID_nonzero
    by (simp add: Let_def BIND_parts BIND_res SID_SEQ_MAKE SID_VERSION_MAKE SID_INDEX_MAKE SID_RES_MAKE)
qed

theorem sid_roundtrip_witness:
  "let sid = BIND_LOGIC_RES (MAKE_SID 3 65535 77) 9
    in SID_SEQ sid = 77 \<and> SID_VERSION sid = 65535 \<and> SID_INDEX sid = uint (3 :: u8) \<and> SID_RES sid = 9 \<and>
    MAKE_SID 3 65535 77 \<noteq> 0"
  by (rule sid_roundtrip) simp_all

end
