(* ===== verification/SidList.thy ===== *)
theory SidList
  imports Sid "HOL-Library.Multiset"
begin

text \<open>
  \<^verbatim>\<open>src/sidlist.c\<close>: the growable array of session identifiers that broadcasts collect their
  receivers in.  Indices are 32-bit; \<open>- 1\<close> names the last element.  Elements are removed by
  moving the last one into the hole.  \<open>mem\<close> says whether the allocation succeeds and \<open>fresh\<close> what
  new memory contains; a failed \<^verbatim>\<open>realloc\<close> is only asserted on, so the write that follows faults.
\<close>

record sidlist =
  sl_count :: u32
  sl_size :: u32
  sl_entries :: "sid list option"

definition sidlist_create :: "bool \<Rightarrow> bool \<Rightarrow> (nat \<Rightarrow> sid) \<Rightarrow> u32 \<Rightarrow> sidlist option" where
  "sidlist_create mem1 mem2 fresh sz =
     (let sz = (if sz \<noteq> 0 then sz else 8)
      in if \<not> mem1 then None
         else if \<not> mem2 then None
         else Some \<lparr>sl_count = 0, sl_size = sz, sl_entries = Some (map fresh [0..<unat sz])\<rparr>)"

text \<open>The slot an index stands for.\<close>

definition sidlist_slot :: "sidlist \<Rightarrow> i32 \<Rightarrow> u32" where
  "sidlist_slot self index = (if index = - 1 then sl_count self - 1 else index)"

definition sidlist_get :: "sidlist \<Rightarrow> i32 \<Rightarrow> sid option" where
  "sidlist_get self index =
     (let i = sidlist_slot self index
      in if i < sl_count self
         then do { es \<leftarrow> sl_entries self; arr_get es (unat i) }
         else Some 0)"

definition sidlist_realloc :: "bool \<Rightarrow> (nat \<Rightarrow> sid) \<Rightarrow> u32 \<Rightarrow> sidlist \<Rightarrow> sidlist" where
  "sidlist_realloc mem fresh sz self =
     self\<lparr>sl_size := sz,
       sl_entries := (if mem then Some (mem_realloc fresh (case sl_entries self of None \<Rightarrow> [] | Some es \<Rightarrow> es)
                                          (unat sz)) else None)\<rparr>"

definition sidlist_add :: "bool \<Rightarrow> (nat \<Rightarrow> sid) \<Rightarrow> sidlist \<Rightarrow> sid \<Rightarrow> (int \<times> sidlist) option" where
  "sidlist_add mem fresh self sd = do {
     let self = (if sl_count self + 1 > sl_size self
                 then sidlist_realloc mem fresh (push_bit 1 (sl_size self)) self else self);
     es \<leftarrow> sl_entries self;
     es \<leftarrow> arr_set es (unat (sl_count self)) sd;
     Some (0, self\<lparr>sl_entries := Some es, sl_count := sl_count self + 1\<rparr>)
   }"

definition sidlist_adds :: "bool \<Rightarrow> (nat \<Rightarrow> sid) \<Rightarrow> sidlist \<Rightarrow> sid list \<Rightarrow> u32 \<Rightarrow> (int \<times> sidlist) option" where
  "sidlist_adds mem fresh self ids cnt = do {
     let totalcount = sl_count self + cnt;
     let self = (if totalcount > sl_size self then sidlist_realloc mem fresh totalcount self else self);
     es \<leftarrow> sl_entries self;
     es \<leftarrow> mem_copy es (unat (sl_count self)) ids 0 (unat cnt);
     Some (0, self\<lparr>sl_entries := Some es, sl_count := totalcount\<rparr>)
   }"

definition sidlist_append :: "bool \<Rightarrow> (nat \<Rightarrow> sid) \<Rightarrow> sidlist \<Rightarrow> sidlist \<Rightarrow> (int \<times> sidlist) option" where
  "sidlist_append mem fresh self list = do {
     ids \<leftarrow> sl_entries list;
     sidlist_adds mem fresh self ids (sl_count list)
   }"

definition sidlist_del :: "sidlist \<Rightarrow> i32 \<Rightarrow> (sid \<times> sidlist) option" where
  "sidlist_del self index =
     (let i = sidlist_slot self index
      in if i < sl_count self
         then do {
           let self = self\<lparr>sl_count := sl_count self - 1\<rparr>;
           es \<leftarrow> sl_entries self;
           rc \<leftarrow> arr_get es (unat i);
           (if i \<noteq> sl_count self
            then do {
              x \<leftarrow> arr_get es (unat (sl_count self));
              es \<leftarrow> arr_set es (unat i) x;
              Some (rc, self\<lparr>sl_entries := Some es\<rparr>)
            }
            else Some (rc, self))
         }
         else Some (0, self))"

section \<open>The list of identifiers\<close>

definition sidlist_ok :: "sidlist \<Rightarrow> bool" where
  "sidlist_ok self \<longleftrightarrow> sl_count self \<le> sl_size self \<and> sl_size self \<noteq> 0 \<and>
     (\<exists>es. sl_entries self = Some es \<and> length es = unat (sl_size self))"

definition sids :: "sidlist \<Rightarrow> sid list" where
  "sids self = (case sl_entries self of None \<Rightarrow> [] | Some es \<Rightarrow> take (unat (sl_count self)) es)"

lemma sidlist_okE:
  assumes "sidlist_ok self"
  obtains es where "sl_entries self = Some es" "length es = unat (sl_size self)"
    "unat (sl_count self) \<le> length es" "sids self = take (unat (sl_count self)) es"
    "sl_size self \<noteq> 0"
  using assms by (auto simp: sidlist_ok_def sids_def word_le_nat_alt)

lemma sids_length: "sidlist_ok self \<Longrightarrow> length (sids self) = unat (sl_count self)"
  by (elim sidlist_okE) simp

lemma sids_upd [simp]:
  "sids (s\<lparr>sl_entries := Some es, sl_count := n\<rparr>) = take (unat n) es"
  "sids (s\<lparr>sl_count := n, sl_entries := Some es\<rparr>) = take (unat n) es"
  by (simp_all add: sids_def)

lemma sidlist_create_ok:
  "\<exists>self. sidlist_create True True fresh sz = Some self \<and> sidlist_ok self \<and> sids self = []"
  by (auto simp: sidlist_create_def Let_def sidlist_ok_def sids_def)

lemma sidlist_realloc_ok:
  assumes "sidlist_ok self" and "sl_size self \<le> sz"
  shows "sidlist_ok (sidlist_realloc True fresh sz self)" "sids (sidlist_realloc True fresh sz self) = sids self"
proof -
  obtain es where es: "sl_entries self = Some es" "length es = unat (sl_size self)"
    "unat (sl_count self) \<le> length es" "sids self = take (unat (sl_count self)) es" "sl_size self \<noteq> 0"
    using assms(1) by (rule sidlist_okE)
  have "sl_count self \<le> sz" "sz \<noteq> 0"
    using assms by (auto simp: sidlist_ok_def)
  then show "sidlist_ok (sidlist_realloc True fresh sz self)"
    by (simp add: sidlist_ok_def sidlist_realloc_def)
  show "sids (sidlist_realloc True fresh sz self) = sids self"
    using es assms(2) by (simp add: sids_def sidlist_realloc_def mem_realloc_def word_le_nat_alt)
qed

lemma sidlist_add_list:
  assumes ok: "sidlist_ok self" and room: "unat (sl_count self) < 2 ^ 31"
  shows "\<exists>self'. sidlist_add True fresh self sd = Some (0, self') \<and> sidlist_ok self' \<and>
    sids self' = sids self @ [sd]"
proof -
  define s1 where "s1 = (if sl_count self + 1 > sl_size self
     then sidlist_realloc True fresh (push_bit 1 (sl_size self)) self else self)"
  have c: "unat (sl_count self + 1) = unat (sl_count self) + 1"
    using room unat_Suc_of_nat [of "sl_count self" 1] by simp
  have *: "sidlist_ok s1 \<and> sids s1 = sids self \<and> sl_count s1 = sl_count self \<and> sl_count self < sl_size s1"
  proof (cases "sl_count self + 1 > sl_size self")
    case True
    then have eq: "sl_count self = sl_size self" "sl_size self \<noteq> 0"
      using ok c by (auto simp: sidlist_ok_def word_less_nat_alt word_le_nat_alt word_unat_eq_iff)
    have "unat (push_bit 1 (sl_size self)) = 2 * unat (sl_size self)"
      using room eq by (simp add: push_bit_eq_mult unat_word_ariths)
    with eq have "sl_size self < push_bit 1 (sl_size self)"
      by (simp add: word_less_nat_alt unat_gt_0)
    then show ?thesis
      using sidlist_realloc_ok [OF ok, of "push_bit 1 (sl_size self)" fresh] True eq
      by (simp add: s1_def) (simp add: sidlist_realloc_def)
  next
    case False
    then show ?thesis using ok c by (auto simp: s1_def word_less_nat_alt)
  qed
  then obtain es where es: "sl_entries s1 = Some es" "length es = unat (sl_size s1)"
    "sids self = take (unat (sl_count self)) es"
    by (metis sidlist_okE)
  note s1 = * [THEN conjunct1] * [THEN conjunct2, THEN conjunct2, THEN conjunct1]
    * [THEN conjunct2, THEN conjunct2, THEN conjunct2]
  have lt: "unat (sl_count self) < length es" using s1 es by (simp add: word_less_nat_alt)
  have "sidlist_add True fresh self sd =
     Some (0, s1\<lparr>sl_entries := Some (es[unat (sl_count self) := sd]), sl_count := sl_count self + 1\<rparr>)"
    using s1 es lt by (simp add: sidlist_add_def s1_def [symmetric] Let_def)
  moreover have "sidlist_ok (s1\<lparr>sl_entries := Some (es[unat (sl_count self) := sd]),
      sl_count := sl_count self + 1\<rparr>)"
    using s1 es lt c by (auto simp: sidlist_ok_def word_le_nat_alt word_less_nat_alt)
  moreover have "sids (s1\<lparr>sl_entries := Some (es[unat (sl_count self) := sd]),
      sl_count := sl_count self + 1\<rparr>) = sids self @ [sd]"
    using es lt c by (simp add: take_Suc_conv_app_nth)
  ultimately show ?thesis by blast
qed

lemma sidlist_adds_list:
  assumes ok: "sidlist_ok self" and fits: "unat (sl_count self) + unat cnt < 2 ^ 32"
    and n: "unat cnt \<le> length ids"
  shows "\<exists>self'. sidlist_adds True fresh self ids cnt = Some (0, self') \<and> sidlist_ok self' \<and>
    sids self' = sids self @ take (unat cnt) ids"
proof -
  define total where "total = sl_count self + cnt"
  define s1 where "s1 = (if total > sl_size self then sidlist_realloc True fresh total self else self)"
  have c: "unat total = unat (sl_count self) + unat cnt"
    using fits by (simp add: total_def unat_word_ariths)
  have *: "sidlist_ok s1 \<and> sids s1 = sids self \<and> sl_count s1 = sl_count self \<and> total \<le> sl_size s1"
  proof (cases "total > sl_size self")
    case True
    then show ?thesis
      using sidlist_realloc_ok [OF ok, of total fresh]
      by (simp add: s1_def) (simp add: sidlist_realloc_def)
  next
    case False
    then show ?thesis using ok by (simp add: s1_def)
  qed
  then obtain es where es: "sl_entries s1 = Some es" "length es = unat (sl_size s1)"
    "sids self = take (unat (sl_count self)) es"
    by (metis sidlist_okE)
  note s1 = * [THEN conjunct1] * [THEN conjunct2, THEN conjunct2, THEN conjunct1]
    * [THEN conjunct2, THEN conjunct2, THEN conjunct2]
  define es' where "es' = take (unat (sl_count self)) es @ take (unat cnt) ids
    @ drop (unat (sl_count self) + unat cnt) es"
  have le: "unat (sl_count self) + unat cnt \<le> length es"
    using s1 es c by (simp add: word_le_nat_alt)
  have "sidlist_adds True fresh self ids cnt = Some (0, s1\<lparr>sl_entries := Some es', sl_count := total\<rparr>)"
    using s1 es n le
    by (simp add: sidlist_adds_def total_def [symmetric] s1_def [symmetric] Let_def mem_copy_def es'_def)
  moreover have "length es' = length es" using le n by (simp add: es'_def)
  then have "sidlist_ok (s1\<lparr>sl_entries := Some es', sl_count := total\<rparr>)"
    using s1 es by (simp add: sidlist_ok_def)
  moreover have "sids (s1\<lparr>sl_entries := Some es', sl_count := total\<rparr>) = sids self @ take (unat cnt) ids"
    using es n le c by (simp add: es'_def)
  ultimately show ?thesis by blast
qed

lemma sidlist_append_list:
  assumes ok: "sidlist_ok self" "sidlist_ok l" and fits: "unat (sl_count self) + unat (sl_count l) < 2 ^ 32"
  shows "\<exists>self'. sidlist_append True fresh self l = Some (0, self') \<and> sidlist_ok self' \<and>
    sids self' = sids self @ sids l"
proof -
  obtain es where es: "sl_entries l = Some es" "unat (sl_count l) \<le> length es"
    "sids l = take (unat (sl_count l)) es"
    using ok(2) by (rule sidlist_okE)
  then show ?thesis using sidlist_adds_list [OF ok(1) fits es(2), of fresh]
    by (auto simp: sidlist_append_def)
qed

section \<open>Indices\<close>

text \<open>The position an index names in a list, counted from the end for \<open>- 1\<close>.\<close>

definition pos :: "sid list \<Rightarrow> i32 \<Rightarrow> nat" where
  "pos xs index = (if index = - 1 then length xs - 1 else unat index)"

definition swap_remove :: "nat \<Rightarrow> 'a list \<Rightarrow> 'a list" where
  "swap_remove i xs = butlast (xs[i := last xs])"

lemma swap_remove_mset:
  "i < length xs \<Longrightarrow> mset (swap_remove i xs) = mset xs - {#xs ! i#}"
proof (cases xs rule: rev_cases)
  case (snoc ys y)
  moreover assume "i < length xs"
  ultimately show ?thesis
    by (cases "i = length ys")
      (auto simp: swap_remove_def list_update_append nth_append mset_update butlast_append)
qed simp

lemma sidlist_slot_pos:
  assumes ok: "sidlist_ok self"
  shows "sidlist_slot self index < sl_count self \<longleftrightarrow> pos (sids self) index < length (sids self)"
    and "pos (sids self) index < length (sids self) \<Longrightarrow> unat (sidlist_slot self index) = pos (sids self) index"
proof -
  have l: "length (sids self) = unat (sl_count self)" by (rule sids_length [OF ok])
  show "sidlist_slot self index < sl_count self \<longleftrightarrow> pos (sids self) index < length (sids self)"
  proof (cases "sl_count self = 0")
    case False
    then show ?thesis
      by (auto simp: sidlist_slot_def pos_def l word_less_nat_alt unat_sub word_le_nat_alt Suc_le_eq unat_gt_0)
  qed (simp add: l)
  show "unat (sidlist_slot self index) = pos (sids self) index" if "pos (sids self) index < length (sids self)"
  proof -
    have "1 \<le> sl_count self" using that l by (simp add: word_le_nat_alt)
    then show ?thesis by (simp add: sidlist_slot_def pos_def l unat_sub)
  qed
qed

lemma sidlist_get_list:
  assumes ok: "sidlist_ok self"
  shows "sidlist_get self index =
    Some (if pos (sids self) index < length (sids self) then sids self ! pos (sids self) index else 0)"
proof -
  obtain es where "sl_entries self = Some es" "unat (sl_count self) \<le> length es"
    "sids self = take (unat (sl_count self)) es"
    using ok by (rule sidlist_okE)
  then show ?thesis
    using sidlist_slot_pos [OF ok, of index] sids_length [OF ok]
    by (auto simp: sidlist_get_def Let_def)
qed

lemma sidlist_del_list:
  assumes ok: "sidlist_ok self" and i: "pos (sids self) index < length (sids self)"
  shows "\<exists>self'. sidlist_del self index = Some (sids self ! pos (sids self) index, self') \<and>
    sidlist_ok self' \<and> sids self' = swap_remove (pos (sids self) index) (sids self)"
proof -
  obtain es where es: "sl_entries self = Some es" "length es = unat (sl_size self)"
    "unat (sl_count self) \<le> length es" "sids self = take (unat (sl_count self)) es" "sl_size self \<noteq> 0"
    using ok by (rule sidlist_okE)
  define p where "p = pos (sids self) index"
  define n where "n = unat (sl_count self)"
  have p: "p < n" "unat (sidlist_slot self index) = p" "sidlist_slot self index < sl_count self"
    using sidlist_slot_pos [OF ok, of index] i sids_length [OF ok] by (simp_all add: p_def n_def)
  have "1 \<le> sl_count self" using p by (simp add: word_le_nat_alt n_def)
  then have n1: "unat (sl_count self - 1) = n - 1" by (simp add: unat_sub n_def)
  have same: "sidlist_slot self index = sl_count self - 1 \<longleftrightarrow> p = n - 1"
    using p n1 by (metis word_unat_eq_iff)
  have n: "n \<le> length es" "n = length (sids self)" using es by (simp_all add: n_def)
  have take: "swap_remove p (sids self) = take (n - 1) (if p = n - 1 then es else es[p := es ! (n - 1)])"
  proof -
    have "swap_remove p (take n es) = take (n - 1) ((take n es)[p := es ! (n - 1)])"
    proof -
      have "take n es \<noteq> []" using p(1) n(1) by auto
      then have "last (take n es) = es ! (n - 1)" using p(1) n(1) by (simp add: last_conv_nth)
      then show ?thesis using n(1) by (simp add: swap_remove_def butlast_conv_take)
    qed
    also have "\<dots> = take (n - 1) (es[p := es ! (n - 1)])"
      by (simp add: take_update_swap min_def)
    finally show ?thesis using es(4) by (simp add: n_def)
  qed
  define self' where "self' = self\<lparr>sl_count := sl_count self - 1,
     sl_entries := Some (if p = n - 1 then es else es[p := es ! (n - 1)])\<rparr>"
  have "sidlist_del self index = Some (sids self ! p, self')"
  proof -
    have "sids self ! p = es ! p" "p < length es" "n - 1 < length es"
      using es(4) p(1) n(1) by (simp_all add: n_def)
    then show ?thesis
      using es(1) p(2,3) n1 same
      by (cases "p = n - 1") (simp_all add: sidlist_del_def self'_def)
  qed
  moreover have "sidlist_ok self'"
  proof -
    have "sl_count self - 1 \<le> sl_size self"
      using n1 n es by (simp add: word_le_nat_alt)
    then show ?thesis using es by (simp add: sidlist_ok_def self'_def)
  qed
  moreover have "sids self' = swap_remove p (sids self)" by (simp add: self'_def n1 take)
  ultimately show ?thesis by (auto simp: p_def)
qed

lemma sidlist_del_out:
  "sidlist_ok self \<Longrightarrow> \<not> pos (sids self) index < length (sids self) \<Longrightarrow> sidlist_del self index = Some (0, self)"
  using sidlist_slot_pos(1) [of self index] by (simp add: sidlist_del_def Let_def)

section \<open>Sequences of calls\<close>

datatype sl_op = Add sid | Adds "sid list" | Get i32 | Del i32

text \<open>The code, with memory available, and the list it stands for.\<close>

fun sl_step :: "(nat \<Rightarrow> sid) \<Rightarrow> sidlist \<Rightarrow> sl_op \<Rightarrow> (sid \<times> sidlist) option" where
  "sl_step fresh s (Add x) = map_option (\<lambda>(_, s). (0, s)) (sidlist_add True fresh s x)"
| "sl_step fresh s (Adds xs) =
     map_option (\<lambda>(_, s). (0, s)) (sidlist_adds True fresh s xs (of_nat (length xs)))"
| "sl_step fresh s (Get i) = map_option (\<lambda>x. (x, s)) (sidlist_get s i)"
| "sl_step fresh s (Del i) = sidlist_del s i"

fun sl_spec :: "sid list \<Rightarrow> sl_op \<Rightarrow> sid \<times> sid list" where
  "sl_spec xs (Add x) = (0, xs @ [x])"
| "sl_spec xs (Adds ys) = (0, xs @ ys)"
| "sl_spec xs (Get i) = (if pos xs i < length xs then xs ! pos xs i else 0, xs)"
| "sl_spec xs (Del i) =
     (if pos xs i < length xs then (xs ! pos xs i, swap_remove (pos xs i) xs) else (0, xs))"

fun sl_run :: "(nat \<Rightarrow> sid) \<Rightarrow> sidlist \<Rightarrow> sl_op list \<Rightarrow> (sid list \<times> sidlist) option" where
  "sl_run fresh s [] = Some ([], s)"
| "sl_run fresh s (op # ops) = do {
     (r, s) \<leftarrow> sl_step fresh s op;
     (rs, s) \<leftarrow> sl_run fresh s ops;
     Some (r # rs, s)
   }"

fun sl_spec_run :: "sid list \<Rightarrow> sl_op list \<Rightarrow> sid list \<times> sid list" where
  "sl_spec_run xs [] = ([], xs)"
| "sl_spec_run xs (op # ops) =
     (let (r, xs) = sl_spec xs op; (rs, xs) = sl_spec_run xs ops in (r # rs, xs))"

fun sl_cost :: "sl_op \<Rightarrow> nat" where
  "sl_cost (Add x) = 1"
| "sl_cost (Adds xs) = length xs"
| "sl_cost _ = 0"

lemma sl_spec_length: "length (snd (sl_spec xs op)) \<le> length xs + sl_cost op"
  by (cases op) (auto simp: swap_remove_def)

lemma sl_step_refines:
  assumes ok: "sidlist_ok s" and fits: "length (sids s) + sl_cost op \<le> 2 ^ 31"
  shows "\<exists>s'. sl_step fresh s op = Some (fst (sl_spec (sids s) op), s') \<and> sidlist_ok s' \<and>
    sids s' = snd (sl_spec (sids s) op)"
proof (cases op)
  case (Add x)
  then show ?thesis
    using sidlist_add_list [OF ok, of fresh x] fits sids_length [OF ok] by auto
next
  case (Adds xs)
  then have n: "unat (of_nat (length xs) :: u32) = length xs"
    using fits by (simp add: unat_of_nat take_bit_nat_eq_self)
  then show ?thesis
    using sidlist_adds_list [OF ok, of "of_nat (length xs)" xs fresh] fits sids_length [OF ok] Adds by auto
next
  case (Get i)
  then show ?thesis using sidlist_get_list [OF ok] ok by simp
next
  case (Del i)
  then show ?thesis
    using sidlist_del_list [OF ok, of i] sidlist_del_out [OF ok, of i] ok by auto
qed

lemma sl_run_refines:
  assumes "sidlist_ok s" and "length (sids s) + sum_list (map sl_cost ops) \<le> 2 ^ 31"
  shows "\<exists>s'. sl_run fresh s ops = Some (fst (sl_spec_run (sids s) ops), s') \<and> sidlist_ok s' \<and>
    sids s' = snd (sl_spec_run (sids s) ops)"
  using assms
proof (induction ops arbitrary: s)
  case (Cons op ops)
  obtain s1 where s1: "sl_step fresh s op = Some (fst (sl_spec (sids s) op), s1)" "sidlist_ok s1"
      "sids s1 = snd (sl_spec (sids s) op)"
    using sl_step_refines [OF Cons.prems(1), of op fresh] Cons.prems(2) by auto
  moreover have "length (sids s1) + sum_list (map sl_cost ops) \<le> 2 ^ 31"
    using sl_spec_length [of "sids s" op] s1(3) Cons.prems(2) by simp
  ultimately show ?case using Cons.IH [of s1] by (auto simp: Let_def split_beta)
qed simp

text \<open>
  The identifier list of sidlist.c is a list with swap-removal.  From a new list, any
  sequence of sidlist_add, sidlist_adds, sidlist_get and sidlist_del calls (up to 2^31 added
  identifiers, memory available) stays inside its block, whatever fresh memory contains, and
  returns what the list operations return: index -1 is the last element, an index out of range
  yields 0 and changes nothing, and a removal fills the hole with the last element.
\<close>

theorem sidlist_refines_list:
  assumes "sidlist_create True True fresh sz = Some s" and "sum_list (map sl_cost ops) \<le> 2 ^ 31"
  shows "\<exists>s'. sl_run fresh s ops = Some (fst (sl_spec_run [] ops), s') \<and> sidlist_ok s' \<and>
    sids s' = snd (sl_spec_run [] ops)"
proof -
  have "sidlist_ok s" "sids s = []" using sidlist_create_ok [of fresh sz] assms(1) by auto
  then show ?thesis using sl_run_refines [of s ops fresh] assms(2) by simp
qed

definition sidlist_example :: sidlist where
  "sidlist_example = \<lparr>sl_count = 0, sl_size = 1, sl_entries = Some [99]\<rparr>"

theorem sidlist_refines_list_witness:
  "\<exists>s'. sl_run (\<lambda>_. 99) sidlist_example [Add 5, Adds [6, 7, 8], Del 0, Get (- 1)]
     = Some (fst (sl_spec_run [] [Add 5, Adds [6, 7, 8], Del 0, Get (- 1)]), s') \<and> sidlist_ok s' \<and>
   sids s' = snd (sl_spec_run [] [Add 5, Adds [6, 7, 8], Del 0, Get (- 1)])"
  by (rule sidlist_refines_list [of _ 1]) (simp_all add: sidlist_create_def sidlist_example_def)

text \<open>Swap-removal keeps the other identifiers.\<close>

lemma sidlist_del_keeps_others:
  "pos xs i < length xs \<Longrightarrow>
   mset (snd (sl_spec xs (Del i))) = mset xs - {#fst (sl_spec xs (Del i))#}"
  by (simp add: swap_remove_mset)

end
