(* ===== verification/SlotMap.thy ===== *)
theory SlotMap
  imports Sid
begin

text \<open>
  The session manager of \<^verbatim>\<open>src/session.c\<close> (\<^verbatim>\<open>session_manager_*\<close>): a slot map.  A table of slots is
  threaded by a free list; a slot is a union of the next free slot and the session it holds, with
  a version that grows each time the slot is given back.  An identifier names a slot and its
  version, so an identifier kept after its session has gone does not name a later session of the
  same slot, until the 16-bit version comes round.

  Sessions are pointers \<open>'p\<close>; of the session the model holds the two fields the manager writes,
  its identifier and whether its manager is this one.  \<open>mem\<close> says whether \<^verbatim>\<open>realloc\<close> succeeds and
  \<open>fresh\<close> is what \<open>_new_session\<close> returns.  \<open>reuse\<close> is the build option \<^verbatim>\<open>USE_REUSESESSION\<close>.
\<close>

section \<open>State\<close>

datatype 'p slot_union = NextFree u32 | Session "'p option"

record 'p slot =
  sl_union :: "'p slot_union"
  sl_version :: u16
  sl_is_active :: bool

record 'p session_manager =
  sm_index :: u8
  sm_count :: u32
  sm_capacity :: u32
  sm_table :: "'p slot list"
  sm_free_head :: u32
  sm_recyclesize :: u32
  sm_recyclelist :: "'p list"
  se_id :: "'p \<Rightarrow> sid"
  se_manager :: "'p \<Rightarrow> bool"

text \<open>Reading a member of the union that was not the last one written is a fault.\<close>

definition slot_session :: "'p slot \<Rightarrow> 'p option option" where
  "slot_session sl = (case sl_union sl of Session s \<Rightarrow> Some s | NextFree _ \<Rightarrow> None)"

definition slot_next_free :: "'p slot \<Rightarrow> u32 option" where
  "slot_next_free sl = (case sl_union sl of NextFree n \<Rightarrow> Some n | Session _ \<Rightarrow> None)"

section \<open>Operations\<close>

text \<open>The loop that threads slots \<open>a\<close> to \<open>b - 1\<close>, and the end mark in the last slot.\<close>

definition init_slots :: "nat \<Rightarrow> nat \<Rightarrow> 'p slot list \<Rightarrow> 'p slot list" where
  "init_slots a b t =
     fold (\<lambda>i t. t[i := \<lparr>sl_union = NextFree (of_nat i + 1), sl_version = 0, sl_is_active = False\<rparr>])
       [a..<b] t"

definition end_slot :: "nat \<Rightarrow> 'p slot list \<Rightarrow> 'p slot list option" where
  "end_slot i t = do {
     sl \<leftarrow> arr_get t i;
     arr_set t i (sl\<lparr>sl_union := NextFree INVALID_SLOT_INDEX\<rparr>)
   }"

definition session_manager_expand ::
  "bool \<Rightarrow> (nat \<Rightarrow> 'p slot) \<Rightarrow> 'p session_manager \<Rightarrow> (int \<times> 'p session_manager) option" where
  "session_manager_expand mem fresh self =
     (if sm_capacity self \<ge> MAX_SLOT_CAPACITY then Some (- 1, self)
      else
        let old_capacity = sm_capacity self;
            new_capacity = old_capacity * 2;
            new_capacity = (if new_capacity > MAX_SLOT_CAPACITY then MAX_SLOT_CAPACITY else new_capacity)
        in if \<not> mem then Some (- 2, self)
           else do {
             let t = mem_realloc fresh (sm_table self) (unat new_capacity);
             let t = init_slots (unat old_capacity) (unat new_capacity) t;
             t \<leftarrow> end_slot (unat (new_capacity - 1)) t;
             Some (0, self\<lparr>sm_table := t, sm_capacity := new_capacity, sm_free_head := old_capacity\<rparr>)
           })"

definition session_manager_create ::
  "u8 \<Rightarrow> u32 \<Rightarrow> ('p \<Rightarrow> sid) \<Rightarrow> ('p \<Rightarrow> bool) \<Rightarrow> 'p session_manager option" where
  "session_manager_create index sz ids mgrs = do {
     let sz = (if sz = 0 then 1024 else sz);
     let sz = (if sz > MAX_SLOT_CAPACITY then MAX_SLOT_CAPACITY else sz);
     let t = replicate (unat sz) \<lparr>sl_union = NextFree 0, sl_version = 0, sl_is_active = False\<rparr>;
     t \<leftarrow> end_slot (unat (sz - 1)) (init_slots 0 (unat sz) t);
     Some \<lparr>sm_index = index, sm_count = 0, sm_capacity = sz, sm_table = t, sm_free_head = 0,
       sm_recyclesize = 0, sm_recyclelist = [], se_id = ids, se_manager = mgrs\<rparr>
   }"

text \<open>The session object: recycled when the build keeps old sessions, otherwise a new one.\<close>

definition take_session :: "bool \<Rightarrow> 'p option \<Rightarrow> 'p session_manager \<Rightarrow> 'p option \<times> 'p session_manager" where
  "take_session reuse new self =
     (if \<not> reuse then (new, self)
      else case sm_recyclelist self of
        [] \<Rightarrow> (new, self)
      | s # ss \<Rightarrow> (Some s, self\<lparr>sm_recyclesize := sm_recyclesize self - 1, sm_recyclelist := ss\<rparr>))"

definition session_manager_alloc ::
  "bool \<Rightarrow> bool \<Rightarrow> (nat \<Rightarrow> 'p slot) \<Rightarrow> 'p option \<Rightarrow> 'p session_manager
   \<Rightarrow> ('p option \<times> 'p session_manager) option" where
  "session_manager_alloc reuse mem fresh new self = do {
     (rc, self) \<leftarrow> (if sm_free_head self = INVALID_SLOT_INDEX
                     then session_manager_expand mem fresh self else Some (0, self));
     (if rc \<noteq> 0 then Some (None, self)
      else
        case take_session reuse new self of
          (None, self) \<Rightarrow> Some (None, self)
        | (Some session, self) \<Rightarrow> do {
            let sq = sm_free_head self;
            sl \<leftarrow> arr_get (sm_table self) (unat sq);
            next \<leftarrow> slot_next_free sl;
            let sl' = sl\<lparr>sl_is_active := True, sl_union := Session (Some session)\<rparr>;
            t \<leftarrow> arr_set (sm_table self) (unat sq) sl';
            Some (Some session,
              self\<lparr>sm_free_head := next, sm_count := sm_count self + 1, sm_table := t,
                se_id := (se_id self)(session := MAKE_SID (sm_index self) (sl_version sl) sq),
                se_manager := (se_manager self)(session := True)\<rparr>)
          })
   }"

definition session_manager_get :: "'p session_manager \<Rightarrow> sid \<Rightarrow> 'p option option" where
  "session_manager_get self sd =
     (if SID_SEQ sd \<ge> sm_capacity self then Some None
      else do {
        sl \<leftarrow> arr_get (sm_table self) (unat (SID_SEQ sd));
        (if sl_is_active sl \<and> sl_version sl = SID_VERSION sd
         then do {
           s \<leftarrow> slot_session sl;
           (if s \<noteq> None then Some s else Some None)
         }
         else Some None)
      })"

definition session_manager_remove ::
  "'p session_manager \<Rightarrow> 'p option \<Rightarrow> (int \<times> 'p session_manager) option" where
  "session_manager_remove self session =
     (case session of
        None \<Rightarrow> Some (- 1, self)
      | Some p \<Rightarrow>
          if SID_SEQ (se_id self p) \<ge> sm_capacity self then Some (- 1, self)
          else do {
            let sq = SID_SEQ (se_id self p);
            sl \<leftarrow> arr_get (sm_table self) (unat sq);
            hit \<leftarrow> (if \<not> sl_is_active sl then Some False else map_option (\<lambda>s. s = Some p) (slot_session sl));
            (if \<not> hit then Some (- 1, self)
             else do {
               t \<leftarrow> arr_set (sm_table self) (unat sq)
                      \<lparr>sl_union = NextFree (sm_free_head self), sl_version = sl_version sl + 1,
                       sl_is_active = False\<rparr>;
               Some (0, self\<lparr>sm_table := t, sm_count := sm_count self - 1, sm_free_head := sq,
                 se_id := (se_id self)(p := 0), se_manager := (se_manager self)(p := False)\<rparr>)
             })
          })"

definition session_manager_recycle ::
  "'p session_manager \<Rightarrow> 'p \<Rightarrow> 'p session_manager option" where
  "session_manager_recycle self p =
     (if se_manager self p \<and> se_id self p \<noteq> 0
      then map_option snd (session_manager_remove self (Some p))
      else Some (self\<lparr>sm_recyclesize := sm_recyclesize self + 1,
                   sm_recyclelist := sm_recyclelist self @ [p]\<rparr>))"

text \<open>
  The visitor may work on the manager itself (a session shut down by the visitor leaves the
  table), so the loop passes the manager through it together with the visitor's own state; \<open>fuel\<close>
  bounds the number of slots looked at.
\<close>

fun foreach_loop ::
  "nat \<Rightarrow> ('p \<Rightarrow> 'p session_manager \<times> 'c \<Rightarrow> int \<times> ('p session_manager \<times> 'c)) \<Rightarrow> nat \<Rightarrow> int
   \<Rightarrow> 'p session_manager \<times> 'c \<Rightarrow> (int \<times> ('p session_manager \<times> 'c)) option" where
  "foreach_loop 0 func i cnt (self, c) = None"
| "foreach_loop (Suc fuel) func i cnt (self, c) =
     (if \<not> i < unat (sm_capacity self) then Some (cnt, (self, c))
      else do {
        sl \<leftarrow> arr_get (sm_table self) i;
        (if sl_is_active sl
         then do {
           s \<leftarrow> slot_session sl;
           (case s of
              None \<Rightarrow> foreach_loop fuel func (Suc i) cnt (self, c)
            | Some p \<Rightarrow>
                (case func p (self, c) of
                   (rc, st) \<Rightarrow> if rc \<noteq> 0 then Some (cnt, st)
                               else foreach_loop fuel func (Suc i) (cnt + 1) st))
         }
         else foreach_loop fuel func (Suc i) cnt (self, c))
      })"

definition session_manager_foreach ::
  "('p \<Rightarrow> 'p session_manager \<times> 'c \<Rightarrow> int \<times> ('p session_manager \<times> 'c))
   \<Rightarrow> 'p session_manager \<times> 'c \<Rightarrow> (int \<times> ('p session_manager \<times> 'c)) option" where
  "session_manager_foreach func st = foreach_loop (Suc (2 ^ 24)) func 0 0 st"

section \<open>Invariant\<close>

text \<open>\<open>fl\<close> are the slots of the free list from \<open>h\<close> on.\<close>

fun free_chain :: "'p slot list \<Rightarrow> u32 \<Rightarrow> nat list \<Rightarrow> bool" where
  "free_chain t h [] \<longleftrightarrow> h = INVALID_SLOT_INDEX"
| "free_chain t h (i # fl) \<longleftrightarrow> unat h = i \<and> i < length t \<and> \<not> sl_is_active (t ! i) \<and>
     (\<exists>n. sl_union (t ! i) = NextFree n \<and> free_chain t n fl)"

definition session_slot_ok :: "'p session_manager \<Rightarrow> nat \<Rightarrow> bool" where
  "session_slot_ok m i \<longleftrightarrow>
     (\<exists>p. sl_union (sm_table m ! i) = Session (Some p) \<and> se_manager m p \<and>
       se_id m p = MAKE_SID (sm_index m) (sl_version (sm_table m ! i)) (of_nat i))"

definition smgr_ok :: "'p session_manager \<Rightarrow> bool" where
  "smgr_ok m \<longleftrightarrow>
     length (sm_table m) = unat (sm_capacity m) \<and> 0 < sm_capacity m \<and> sm_capacity m \<le> MAX_SLOT_CAPACITY \<and>
     (\<exists>fl. free_chain (sm_table m) (sm_free_head m) fl \<and> distinct fl \<and>
       set fl = {i. i < length (sm_table m) \<and> \<not> sl_is_active (sm_table m ! i)}) \<and>
     unat (sm_count m) = length (filter sl_is_active (sm_table m)) \<and>
     (\<forall>i < length (sm_table m). sl_is_active (sm_table m ! i) \<longrightarrow> session_slot_ok m i)"

text \<open>The abstract view: which session a slot number and version stand for.\<close>

definition handles :: "'p session_manager \<Rightarrow> nat \<times> u16 \<Rightarrow> 'p option" where
  "handles m k = (case k of (i, v) \<Rightarrow>
     if i < length (sm_table m) \<and> sl_is_active (sm_table m ! i) \<and> sl_version (sm_table m ! i) = v
     then (case sl_union (sm_table m ! i) of Session s \<Rightarrow> s | NextFree _ \<Rightarrow> None) else None)"

definition key :: "sid \<Rightarrow> nat \<times> u16" where
  "key sd = (unat (SID_SEQ sd), SID_VERSION sd)"

lemma get_handles:
  assumes "smgr_ok m"
  shows "session_manager_get m sd = Some (handles m (key sd))"
proof -
  have *: "\<forall>i < length (sm_table m). sl_is_active (sm_table m ! i) \<longrightarrow>
      (\<exists>p. sl_union (sm_table m ! i) = Session (Some p))"
    using assms by (auto simp: smgr_ok_def session_slot_ok_def)
  have len: "length (sm_table m) = unat (sm_capacity m)" using assms by (simp add: smgr_ok_def)
  show ?thesis
  proof (cases "SID_SEQ sd \<ge> sm_capacity m")
    case True
    then show ?thesis by (simp add: session_manager_get_def handles_def key_def len word_le_nat_alt)
  next
    case False
    then have "unat (SID_SEQ sd) < length (sm_table m)" by (simp add: len word_le_nat_alt)
    then show ?thesis
      using False * by (auto simp: session_manager_get_def handles_def key_def slot_session_def)
  qed
qed

lemma smgr_okE:
  assumes "smgr_ok m"
  obtains fl where "length (sm_table m) = unat (sm_capacity m)" "0 < unat (sm_capacity m)"
    "unat (sm_capacity m) \<le> 2 ^ 24" "free_chain (sm_table m) (sm_free_head m) fl" "distinct fl"
    "set fl = {i. i < length (sm_table m) \<and> \<not> sl_is_active (sm_table m ! i)}"
    "unat (sm_count m) = length (filter sl_is_active (sm_table m))"
    "\<And>i. i < length (sm_table m) \<Longrightarrow> sl_is_active (sm_table m ! i) \<Longrightarrow> session_slot_ok m i"
proof -
  have "unat (sm_capacity m) \<le> 2 ^ 24"
    using assms by (simp add: smgr_ok_def MAX_SLOT_CAPACITY_def word_le_nat_alt)
  with that assms show thesis unfolding smgr_ok_def unat_gt_0 word_neq_0_conv by blast
qed

lemma seq_bits: "i < 2 ^ 24 \<Longrightarrow> SID_SEQ (MAKE_SID x v (of_nat i)) = of_nat i"
proof -
  assume "i < 2 ^ 24"
  then have "take_bit 24 (of_nat i :: u32) = of_nat i"
    by (intro seq_fits) (simp add: word_less_nat_alt unat_of_nat take_bit_nat_eq_self)
  then show ?thesis by (simp add: SID_SEQ_MAKE)
qed

section \<open>The free list\<close>

lemma init_slots_length [simp]: "length (init_slots a b t) = length t"
proof -
  have "length (fold (\<lambda>i t. t[i := f i]) xs t) = length t" for f :: "nat \<Rightarrow> 'a slot" and xs
    by (induction xs arbitrary: t) auto
  then show ?thesis by (simp add: init_slots_def)
qed

lemma init_slots_nth:
  assumes "j < length t"
  shows "init_slots a b t ! j =
    (if a \<le> j \<and> j < b then \<lparr>sl_union = NextFree (of_nat j + 1), sl_version = 0, sl_is_active = False\<rparr>
     else t ! j)"
proof -
  have "fold (\<lambda>i t. t[i := f i]) xs t ! j = (if j \<in> set xs then f j else t ! j)"
    if "j < length t" for f :: "nat \<Rightarrow> 'a slot" and xs
    using that by (induction xs arbitrary: t) auto
  then show ?thesis using assms by (simp add: init_slots_def)
qed

lemma free_chain_frame:
  "free_chain t h fl \<Longrightarrow> length t \<le> length t' \<Longrightarrow> (\<And>i. i \<in> set fl \<Longrightarrow> t' ! i = t ! i) \<Longrightarrow> free_chain t' h fl"
  by (induction fl arbitrary: h) auto

text \<open>Freshly threaded slots form a free list of their own.\<close>

lemma free_chain_upt:
  assumes "a < b" "b = length t" "b \<le> 2 ^ 24"
    and "\<And>i. a \<le> i \<Longrightarrow> i < b \<Longrightarrow> \<not> sl_is_active (t ! i) \<and>
      sl_union (t ! i) = NextFree (if Suc i = b then INVALID_SLOT_INDEX else of_nat i + 1)"
  shows "free_chain t (of_nat a) [a..<b]"
  using assms
proof (induction "b - a" arbitrary: a)
  case (Suc n)
  have a: "unat (of_nat a :: u32) = a"
    using Suc.prems by (simp add: unat_of_nat take_bit_nat_eq_self)
  show ?case
  proof (cases "Suc a = b")
    case True
    then show ?thesis using Suc.prems a by (auto simp: upt_conv_Cons)
  next
    case False
    then have "free_chain t (of_nat (Suc a)) [Suc a..<b]"
      using Suc by (intro Suc.hyps(1)) auto
    then show ?thesis
      using Suc.prems a False by (simp add: upt_conv_Cons add.commute)
  qed
qed simp

definition threaded :: "nat \<Rightarrow> nat \<Rightarrow> 'p slot list \<Rightarrow> 'p slot list" where
  "threaded a b t = (init_slots a b t)[b - 1 := (init_slots a b t ! (b - 1))\<lparr>sl_union := NextFree INVALID_SLOT_INDEX\<rparr>]"

lemma end_slot_threaded: "b \<noteq> 0 \<Longrightarrow> b \<le> length t \<Longrightarrow> end_slot (b - 1) (init_slots a b t) = Some (threaded a b t)"
  by (simp add: end_slot_def threaded_def)

lemma threaded_props:
  assumes "a < b" "b = length t" "b \<le> 2 ^ 24"
  shows "length (threaded a b t) = b" "free_chain (threaded a b t) (of_nat a) [a..<b]"
    "\<And>i. i < a \<Longrightarrow> threaded a b t ! i = t ! i"
    "\<And>i. a \<le> i \<Longrightarrow> i < b \<Longrightarrow> \<not> sl_is_active (threaded a b t ! i)"
proof -
  have n: "threaded a b t ! i = (if Suc i = b then (init_slots a b t ! i)\<lparr>sl_union := NextFree INVALID_SLOT_INDEX\<rparr>
      else init_slots a b t ! i)" if "i < b" for i
  proof (cases "b - 1 = i")
    case True
    then show ?thesis using that assms by (auto simp: threaded_def)
  next
    case False
    then show ?thesis using that by (auto simp: threaded_def)
  qed
  show "length (threaded a b t) = b" using assms by (simp add: threaded_def)
  then show "free_chain (threaded a b t) (of_nat a) [a..<b]"
    using assms n by (intro free_chain_upt) (auto simp: init_slots_nth)
  show "\<And>i. i < a \<Longrightarrow> threaded a b t ! i = t ! i" using assms n by (auto simp: init_slots_nth)
  show "\<And>i. a \<le> i \<Longrightarrow> i < b \<Longrightarrow> \<not> sl_is_active (threaded a b t ! i)"
    using assms n by (auto simp: init_slots_nth)
qed

section \<open>Creation and growth\<close>

lemma create_ok:
  fixes ids :: "'p \<Rightarrow> sid"
  shows "\<exists>m. session_manager_create index sz ids mgrs = Some m \<and> smgr_ok m \<and> handles m = (\<lambda>_. None) \<and>
    sm_index m = index \<and> sm_recyclelist m = []"
proof -
  define n where "n = (let sz = (if sz = 0 then 1024 else sz)
    in if sz > MAX_SLOT_CAPACITY then MAX_SLOT_CAPACITY else sz)"
  have n: "0 < n" "n \<le> MAX_SLOT_CAPACITY"
    by (auto simp: n_def Let_def word_le_nat_alt word_less_nat_alt MAX_SLOT_CAPACITY_def unat_gt_0)
  then have un: "0 < unat n" "unat n \<le> 2 ^ 24" "unat (n - 1) = unat n - 1"
    by (auto simp: word_le_nat_alt word_less_nat_alt MAX_SLOT_CAPACITY_def unat_sub Suc_leI)
  define t0 where "t0 = replicate (unat n) \<lparr>sl_union = NextFree 0 :: 'p slot_union, sl_version = 0, sl_is_active = False\<rparr>"
  define t where "t = threaded 0 (unat n) t0"
  have t: "length t = unat n" "free_chain t 0 [0..<unat n]" "\<And>i. i < unat n \<Longrightarrow> \<not> sl_is_active (t ! i)"
  proof -
    have l: "unat n = length t0" by (simp add: t0_def)
    note p = threaded_props [OF un(1) l un(2), folded t_def]
    show "length t = unat n" by (rule p(1))
    show "free_chain t 0 [0..<unat n]" using p(2) by simp
    show "\<And>i. i < unat n \<Longrightarrow> \<not> sl_is_active (t ! i)" by (rule p(4)) simp_all
  qed
  define m where "m = \<lparr>sm_index = index, sm_count = 0, sm_capacity = n, sm_table = t, sm_free_head = 0,
       sm_recyclesize = 0, sm_recyclelist = [], se_id = ids, se_manager = mgrs\<rparr>"
  have "end_slot (unat (n - 1)) (init_slots 0 (unat n) t0) = Some t"
    unfolding un(3) t_def by (rule end_slot_threaded) (use un in \<open>simp_all add: t0_def\<close>)
  moreover have "session_manager_create index sz ids mgrs =
      (do { t \<leftarrow> end_slot (unat (n - 1)) (init_slots 0 (unat n) t0);
            Some (m\<lparr>sm_table := t\<rparr>) })"
    by (simp only: session_manager_create_def n_def t0_def Let_def m_def session_manager.update_convs)
  ultimately have "session_manager_create index sz ids mgrs = Some m" by (simp add: m_def)
  moreover have "filter sl_is_active t = []" using t by (auto simp: filter_empty_conv in_set_conv_nth)
  then have "smgr_ok m" using t n by (auto simp: smgr_ok_def m_def intro!: exI [of _ "[0..<unat n]"])
  moreover have "handles m = (\<lambda>_. None)" using t by (auto simp: handles_def m_def fun_eq_iff)
  ultimately show ?thesis by (auto simp: m_def)
qed

text \<open>With no free slot every slot is in use; growth adds a second half of free slots.\<close>

lemma no_free_all_active:
  assumes "smgr_ok m" "sm_free_head m = INVALID_SLOT_INDEX" "i < length (sm_table m)"
  shows "sl_is_active (sm_table m ! i)"
proof -
  obtain fl where fl: "free_chain (sm_table m) (sm_free_head m) fl" "unat (sm_capacity m) \<le> 2 ^ 24"
    "set fl = {i. i < length (sm_table m) \<and> \<not> sl_is_active (sm_table m ! i)}"
    "length (sm_table m) = unat (sm_capacity m)"
    using assms(1) by (rule smgr_okE)
  have "fl = []" using fl assms(2) by (cases fl) (auto simp: INVALID_SLOT_INDEX_def)
  then show ?thesis using fl(3) assms(3) by auto
qed

lemma expand_ok:
  assumes ok: "smgr_ok m" and inv: "sm_free_head m = INVALID_SLOT_INDEX" and cap: "sm_capacity m < MAX_SLOT_CAPACITY"
  shows "\<exists>m'. session_manager_expand True fresh m = Some (0, m') \<and> smgr_ok m' \<and> handles m' = handles m \<and>
    sm_free_head m' \<noteq> INVALID_SLOT_INDEX \<and> sm_index m' = sm_index m \<and> se_id m' = se_id m \<and>
    se_manager m' = se_manager m \<and> sm_recyclelist m' = sm_recyclelist m \<and>
    length (sm_table m) \<le> length (sm_table m') \<and> (\<forall>i < length (sm_table m). sm_table m' ! i = sm_table m ! i)"
proof -
  note okE = ok [THEN smgr_okE]
  define a where "a = sm_capacity m"
  define b where "b = (if a * 2 > MAX_SLOT_CAPACITY then MAX_SLOT_CAPACITY else a * 2)"
  have len: "length (sm_table m) = unat a" and pos: "0 < unat a"
    using ok by (auto elim: smgr_okE simp: a_def)
  have a24: "unat a < 2 ^ 24" using cap by (simp add: a_def word_less_nat_alt MAX_SLOT_CAPACITY_def)
  then have "unat (a * 2) = unat a * 2" by (simp add: unat_word_ariths)
  then have b: "unat a < unat b" "unat b \<le> 2 ^ 24"
    using a24 pos by (auto simp: b_def word_less_nat_alt MAX_SLOT_CAPACITY_def)
  then have b1: "unat (b - 1) = unat b - 1" by (simp add: unat_sub word_le_nat_alt Suc_leI)
  define t0 where "t0 = mem_realloc fresh (sm_table m) (unat b)"
  define t where "t = threaded (unat a) (unat b) t0"
  have old: "t0 ! i = sm_table m ! i" if "i < unat a" for i
    using that len b by (simp add: t0_def mem_realloc_def nth_append)
  have t: "length t = unat b" "free_chain t a [unat a..<unat b]"
    "\<And>i. i < unat a \<Longrightarrow> t ! i = sm_table m ! i" "\<And>i. unat a \<le> i \<Longrightarrow> i < unat b \<Longrightarrow> \<not> sl_is_active (t ! i)"
  proof -
    have l: "unat b = length t0" by (simp add: t0_def)
    note p = threaded_props [OF b(1) l b(2), folded t_def]
    show "length t = unat b" by (rule p(1))
    show "free_chain t a [unat a..<unat b]" using p(2) by simp
    show "\<And>i. i < unat a \<Longrightarrow> t ! i = sm_table m ! i" using p(3) old by simp
    show "\<And>i. unat a \<le> i \<Longrightarrow> i < unat b \<Longrightarrow> \<not> sl_is_active (t ! i)" by (rule p(4))
  qed
  define m' where "m' = m\<lparr>sm_table := t, sm_capacity := b, sm_free_head := a\<rparr>"
  have "end_slot (unat (b - 1)) (init_slots (unat a) (unat b) t0) = Some t"
    unfolding b1 t_def by (rule end_slot_threaded) (use b in \<open>simp_all add: t0_def\<close>)
  moreover have "session_manager_expand True fresh m =
      (do { t \<leftarrow> end_slot (unat (b - 1)) (init_slots (unat a) (unat b) t0);
            Some (0, m\<lparr>sm_table := t, sm_capacity := b, sm_free_head := a\<rparr>) })"
    using cap by (simp only: session_manager_expand_def b_def t0_def a_def Let_def not_le [symmetric] if_False not_True_eq_False)
  ultimately have "session_manager_expand True fresh m = Some (0, m')" by (simp add: m'_def)
  moreover have "smgr_ok m'"
  proof -
    have "length (filter sl_is_active t) = length (filter sl_is_active (sm_table m))"
    proof -
      have "t = take (unat a) t @ drop (unat a) t" by simp
      moreover have "take (unat a) t = sm_table m"
        using t len b by (intro nth_equalityI) auto
      moreover have "filter sl_is_active (drop (unat a) t) = []"
        using t by (auto simp: filter_empty_conv in_set_conv_nth)
      ultimately show ?thesis by (metis append.right_neutral filter_append)
    qed
    moreover have "set [unat a..<unat b] = {i. i < length t \<and> \<not> sl_is_active (t ! i)}"
    proof -
      have "sl_is_active (t ! i)" if "i < unat a" for i
        using that t(3) no_free_all_active [OF ok inv] len by simp
      then show ?thesis using t(1,4) by (auto simp: not_less [symmetric])
    qed
    moreover have "session_slot_ok m' i" if "i < length t" "sl_is_active (t ! i)" for i
    proof -
      have "i < unat a" using that t by (metis not_le)
      then show ?thesis
        using that t ok len by (auto simp: session_slot_ok_def m'_def elim: smgr_okE)
    qed
    moreover have "0 < b" using b(1) by (simp add: word_less_nat_alt)
    ultimately show ?thesis
      using t b ok unfolding smgr_ok_def
      by (auto simp: m'_def word_le_nat_alt MAX_SLOT_CAPACITY_def unat_gt_0 intro!: exI [of _ "[unat a..<unat b]"])
  qed
  moreover have "handles m' = handles m"
  proof
    fix k show "handles m' k = handles m k"
    proof (cases k)
      case (Pair i v)
      then show ?thesis
        using t len b by (cases "i < unat a") (auto simp: handles_def m'_def not_less)
    qed
  qed
  moreover have "a \<noteq> INVALID_SLOT_INDEX" using a24 by (auto simp: INVALID_SLOT_INDEX_def)
  ultimately show ?thesis using t len b by (intro exI [of _ m']) (auto simp: m'_def)
qed

section \<open>Taking and giving back a slot\<close>

definition sessions :: "'p session_manager \<Rightarrow> 'p set" where
  "sessions m = ran (handles m)"

lemma sessions_iff:
  "p \<in> sessions m \<longleftrightarrow>
    (\<exists>i < length (sm_table m). sl_is_active (sm_table m ! i) \<and> sl_union (sm_table m ! i) = Session (Some p))"
proof -
  show ?thesis
  proof
    assume "p \<in> sessions m"
    then obtain i v where "handles m (i, v) = Some p" by (auto simp: sessions_def ran_def)
    then show "\<exists>i < length (sm_table m). sl_is_active (sm_table m ! i) \<and> sl_union (sm_table m ! i) = Session (Some p)"
      by (intro exI [of _ i]) (auto simp: handles_def split: if_splits slot_union.splits)
  next
    assume "\<exists>i < length (sm_table m). sl_is_active (sm_table m ! i) \<and> sl_union (sm_table m ! i) = Session (Some p)"
    then obtain i where "i < length (sm_table m)" "sl_is_active (sm_table m ! i)"
      "sl_union (sm_table m ! i) = Session (Some p)" by blast
    then have "handles m (i, sl_version (sm_table m ! i)) = Some p" by (simp add: handles_def)
    then show "p \<in> sessions m" unfolding sessions_def ran_def by blast
  qed
qed

text \<open>Every session in the table carries the identifier that leads to it, so a session has one slot.\<close>

lemma session_at:
  assumes ok: "smgr_ok m" and i: "i < length (sm_table m)" "sl_is_active (sm_table m ! i)"
  obtains p where "sl_union (sm_table m ! i) = Session (Some p)" "se_manager m p"
    "se_id m p = MAKE_SID (sm_index m) (sl_version (sm_table m ! i)) (of_nat i)"
    "key (se_id m p) = (i, sl_version (sm_table m ! i))" "unat (of_nat i :: u32) = i"
proof -
  obtain p where p: "sl_union (sm_table m ! i) = Session (Some p)" "se_manager m p"
      "se_id m p = MAKE_SID (sm_index m) (sl_version (sm_table m ! i)) (of_nat i)"
    using ok i by (auto simp: smgr_ok_def session_slot_ok_def)
  have "unat (sm_capacity m) \<le> 2 ^ 24" "length (sm_table m) = unat (sm_capacity m)"
    using ok by (auto elim: smgr_okE)
  then have "i < 2 ^ 24" using i by simp
  then have "unat (of_nat i :: u32) = i" by (simp add: unat_of_nat take_bit_nat_eq_self)
  then show thesis using that p \<open>i < 2 ^ 24\<close> by (simp add: key_def seq_bits SID_VERSION_MAKE)
qed

lemma one_slot:
  assumes "smgr_ok m" "i < length (sm_table m)" "sl_is_active (sm_table m ! i)"
    "j < length (sm_table m)" "sl_is_active (sm_table m ! j)"
    "sl_union (sm_table m ! i) = Session (Some p)" "sl_union (sm_table m ! j) = Session (Some p)"
  shows "i = j"
  using session_at [OF assms(1-3)] session_at [OF assms(1,4,5)] assms(6,7)
  by (metis option.inject prod.inject slot_union.inject(2))

text \<open>The update that \<open>session_manager_alloc\<close> makes once it has a session and a free slot.\<close>

definition take_slot :: "'p \<Rightarrow> u32 \<Rightarrow> 'p session_manager \<Rightarrow> 'p session_manager" where
  "take_slot p next m = (let h = sm_free_head m; sl = sm_table m ! unat h in
     m\<lparr>sm_free_head := next, sm_count := sm_count m + 1,
       sm_table := (sm_table m)[unat h := sl\<lparr>sl_is_active := True, sl_union := Session (Some p)\<rparr>],
       se_id := (se_id m)(p := MAKE_SID (sm_index m) (sl_version sl) h),
       se_manager := (se_manager m)(p := True)\<rparr>)"

lemma free_slot:
  assumes "smgr_ok m" "sm_free_head m \<noteq> INVALID_SLOT_INDEX"
  obtains n where "unat (sm_free_head m) < length (sm_table m)"
    "\<not> sl_is_active (sm_table m ! unat (sm_free_head m))"
    "sl_union (sm_table m ! unat (sm_free_head m)) = NextFree n"
proof -
  obtain fl where "free_chain (sm_table m) (sm_free_head m) fl"
    using assms(1) by (rule smgr_okE)
  then show thesis using assms(2) that by (cases fl) auto
qed

lemma take_slot_ok:
  assumes ok: "smgr_ok m" and head: "sm_free_head m \<noteq> INVALID_SLOT_INDEX"
    and n: "sl_union (sm_table m ! unat (sm_free_head m)) = NextFree n" and new: "p \<notin> sessions m"
  shows "smgr_ok (take_slot p n m)"
    "handles (take_slot p n m) = (handles m)(key (se_id (take_slot p n m) p) \<mapsto> p)"
    "handles m (key (se_id (take_slot p n m) p)) = None"
    "key (se_id (take_slot p n m) p) =
       (unat (sm_free_head m), sl_version (sm_table m ! unat (sm_free_head m)))"
proof -
  define h where "h = unat (sm_free_head m)"
  define m' where "m' = take_slot p n m"
  obtain fl where fl: "length (sm_table m) = unat (sm_capacity m)" "unat (sm_capacity m) \<le> 2 ^ 24"
    "free_chain (sm_table m) (sm_free_head m) fl" "distinct fl"
    "set fl = {i. i < length (sm_table m) \<and> \<not> sl_is_active (sm_table m ! i)}"
    using ok by (rule smgr_okE)
  have h: "h < length (sm_table m)" "\<not> sl_is_active (sm_table m ! h)"
    using free_slot [OF ok head] by (auto simp: h_def)
  have hh: "of_nat h = sm_free_head m" by (simp add: h_def)
  have t': "sm_table m' = (sm_table m)[h := (sm_table m ! h)\<lparr>sl_is_active := True, sl_union := Session (Some p)\<rparr>]"
    "sm_capacity m' = sm_capacity m" "sm_free_head m' = n" "sm_count m' = sm_count m + 1"
    "sm_index m' = sm_index m" "se_manager m' = (se_manager m)(p := True)"
    "se_id m' = (se_id m)(p := MAKE_SID (sm_index m) (sl_version (sm_table m ! h)) (of_nat h))"
    by (simp_all add: m'_def take_slot_def Let_def h_def)
  have k: "key (se_id m' p) = (h, sl_version (sm_table m ! h))"
  proof -
    have "h < 2 ^ 24" using h fl by simp
    moreover from this have "unat (of_nat h :: u32) = h" by (simp add: unat_of_nat take_bit_nat_eq_self)
    ultimately show ?thesis by (simp add: t' key_def seq_bits SID_VERSION_MAKE)
  qed
  then show "key (se_id (take_slot p n m) p) =
       (unat (sm_free_head m), sl_version (sm_table m ! unat (sm_free_head m)))"
    by (simp add: m'_def h_def)
  show "handles m (key (se_id (take_slot p n m) p)) = None"
    using h k by (simp add: m'_def [symmetric] handles_def)
  show "handles (take_slot p n m) = (handles m)(key (se_id (take_slot p n m) p) \<mapsto> p)"
    unfolding m'_def [symmetric] k
  proof
    fix x show "handles m' x = ((handles m)((h, sl_version (sm_table m ! h)) \<mapsto> p)) x"
      using h by (cases x) (auto simp: handles_def t' nth_list_update)
  qed
  have old: "session_slot_ok m' i" if i: "i < length (sm_table m)" "sl_is_active (sm_table m ! i)" for i
  proof -
    obtain q where q: "sl_union (sm_table m ! i) = Session (Some q)" "se_manager m q"
        "se_id m q = MAKE_SID (sm_index m) (sl_version (sm_table m ! i)) (of_nat i)"
      using session_at [OF ok i] by metis
    then have "q \<noteq> p" using new sessions_iff [of p m] i by auto
    moreover have "i \<noteq> h" using i h by auto
    ultimately show ?thesis using q by (auto simp: session_slot_ok_def t')
  qed
  have "free_chain (sm_table m) n (tl fl) \<and> fl = h # tl fl"
    using fl(3) head n by (cases fl) (auto simp: h_def)
  then have tl: "free_chain (sm_table m) n (tl fl)" "set (tl fl) = set fl - {h}" "distinct (tl fl)" "h \<notin> set (tl fl)"
    using fl(4) by (metis, metis distinct.simps(2) Diff_insert_absorb list.simps(15), metis distinct_tl, metis distinct.simps(2))
  have "free_chain (sm_table m') n (tl fl)"
    by (rule free_chain_frame [OF tl(1)]) (use tl(4) in \<open>auto simp: t'(1) intro!: nth_list_update_neq\<close>)
  moreover have "set (tl fl) = {i. i < length (sm_table m') \<and> \<not> sl_is_active (sm_table m' ! i)}"
    using tl(2) fl(5) h by (auto simp: t' nth_list_update)
  moreover have "unat (sm_count m') = length (filter sl_is_active (sm_table m'))"
  proof -
    have c: "unat (sm_count m) = length (filter sl_is_active (sm_table m))"
      using ok by (rule smgr_okE)
    moreover have "length (filter sl_is_active (sm_table m')) = Suc (length (filter sl_is_active (sm_table m)))"
      using length_filter_update [OF h(1), of sl_is_active "(sm_table m ! h)\<lparr>sl_is_active := True, sl_union := Session (Some p)\<rparr>"] h
      by (simp add: t')
    moreover have "length (filter sl_is_active (sm_table m)) \<le> 2 ^ 24"
      using fl length_filter_le [of sl_is_active "sm_table m"] by simp
    ultimately show ?thesis using unat_Suc_of_nat [of "sm_count m" 1] by (simp add: t')
  qed
  moreover have "session_slot_ok m' i" if "i < length (sm_table m')" "sl_is_active (sm_table m' ! i)" for i
  proof (cases "i = h")
    case True
    then show ?thesis using h by (auto simp: session_slot_ok_def t')
  next
    case False
    then show ?thesis using that old [of i] by (auto simp: t')
  qed
  ultimately show "smgr_ok (take_slot p n m)"
    using ok tl(3) unfolding m'_def [symmetric] smgr_ok_def by (auto simp: t')
qed

definition full :: "'p session_manager \<Rightarrow> bool" where
  "full m \<longleftrightarrow> sm_free_head m = INVALID_SLOT_INDEX \<and> sm_capacity m = MAX_SLOT_CAPACITY"

lemma alloc_take_slot:
  assumes "smgr_ok m" "sm_free_head m \<noteq> INVALID_SLOT_INDEX"
  obtains n where "sl_union (sm_table m ! unat (sm_free_head m)) = NextFree n"
    "session_manager_alloc False mem fresh (Some p) m = Some (Some p, take_slot p n m)"
proof -
  obtain n where n: "unat (sm_free_head m) < length (sm_table m)"
      "sl_union (sm_table m ! unat (sm_free_head m)) = NextFree n"
    using free_slot [OF assms] by metis
  then show thesis
    using that assms(2)
    by (simp add: session_manager_alloc_def take_session_def slot_next_free_def take_slot_def Let_def)
qed

lemma alloc_after_expand:
  assumes "sm_free_head m = INVALID_SLOT_INDEX" "session_manager_expand mem fresh m = Some (0, m1)"
    "sm_free_head m1 \<noteq> INVALID_SLOT_INDEX"
  shows "session_manager_alloc False mem fresh (Some p) m = session_manager_alloc False mem fresh (Some p) m1"
  using assms by (simp add: session_manager_alloc_def)

lemma alloc_ok:
  assumes ok: "smgr_ok m" and "\<not> full m" and new: "p \<notin> sessions m"
  shows "\<exists>m'. session_manager_alloc False True fresh (Some p) m = Some (Some p, m') \<and> smgr_ok m' \<and>
    handles m (key (se_id m' p)) = None \<and> handles m' = (handles m)(key (se_id m' p) \<mapsto> p) \<and>
    (\<forall>q. q \<noteq> p \<longrightarrow> se_id m' q = se_id m q) \<and> sm_index m' = sm_index m \<and>
    (\<exists>v i. se_id m' p = MAKE_SID (sm_index m) v i)"
proof -
  have core: "\<exists>m'. session_manager_alloc False True fresh (Some p) m = Some (Some p, m') \<and> smgr_ok m' \<and>
    handles m (key (se_id m' p)) = None \<and> handles m' = (handles m)(key (se_id m' p) \<mapsto> p) \<and>
    (\<forall>q. q \<noteq> p \<longrightarrow> se_id m' q = se_id m q) \<and> sm_index m' = sm_index m \<and>
    (\<exists>v i. se_id m' p = MAKE_SID (sm_index m) v i)"
    if *: "smgr_ok m" "sm_free_head m \<noteq> INVALID_SLOT_INDEX" "p \<notin> sessions m" for m
  proof -
    obtain n where n: "sl_union (sm_table m ! unat (sm_free_head m)) = NextFree n"
      "session_manager_alloc False True fresh (Some p) m = Some (Some p, take_slot p n m)"
      using alloc_take_slot [OF *(1,2)] by metis
    show ?thesis
      using take_slot_ok [OF *(1,2) n(1) *(3)] n(2)
      by (intro exI [of _ "take_slot p n m"]) (auto simp: take_slot_def Let_def)
  qed
  show ?thesis
  proof (cases "sm_free_head m = INVALID_SLOT_INDEX")
    case False
    then show ?thesis using core ok new by blast
  next
    case True
    have "sm_capacity m < MAX_SLOT_CAPACITY" using assms(2) True ok by (auto simp: full_def smgr_ok_def)
    then obtain m1 where m1: "session_manager_expand True fresh m = Some (0, m1)" "smgr_ok m1"
        "handles m1 = handles m" "sm_free_head m1 \<noteq> INVALID_SLOT_INDEX" "sm_index m1 = sm_index m" "se_id m1 = se_id m"
      using expand_ok [OF ok True] by metis
    then have "p \<notin> sessions m1" using new by (simp add: sessions_def)
    from core [OF m1(2,4) this] show ?thesis
      using m1 alloc_after_expand [OF True m1(1,4)] by simp
  qed
qed

lemma alloc_fails:
  assumes "smgr_ok m" "sm_free_head m = INVALID_SLOT_INDEX" "full m \<or> \<not> mem"
  shows "session_manager_alloc reuse mem fresh new m = Some (None, m)"
  using assms by (auto simp: session_manager_alloc_def session_manager_expand_def full_def Let_def)

text \<open>The update that \<open>session_manager_remove\<close> makes.\<close>

lemma remove_ok:
  assumes ok: "smgr_ok m" and p: "p \<in> sessions m"
  shows "\<exists>m'. session_manager_remove m (Some p) = Some (0, m') \<and> smgr_ok m' \<and>
    handles m' = (handles m)(key (se_id m p) := None) \<and> handles m (key (se_id m p)) = Some p \<and>
    sm_index m' = sm_index m \<and> se_id m' p = 0 \<and> sm_table m' = (sm_table m)[fst (key (se_id m p)) :=
      \<lparr>sl_union = NextFree (sm_free_head m), sl_version = snd (key (se_id m p)) + 1, sl_is_active = False\<rparr>]"
proof -
  obtain h where h: "h < length (sm_table m)" "sl_is_active (sm_table m ! h)"
      "sl_union (sm_table m ! h) = Session (Some p)"
    using p by (auto simp: sessions_iff)
  have q: "se_id m p = MAKE_SID (sm_index m) (sl_version (sm_table m ! h)) (of_nat h)"
      "key (se_id m p) = (h, sl_version (sm_table m ! h))" "unat (of_nat h :: u32) = h"
    using session_at [OF ok h(1,2)] h(3) by (metis option.inject slot_union.inject(2))+
  have sq: "unat (SID_SEQ (se_id m p)) = h" using q(2) by (simp add: key_def)
  obtain fl where fl: "length (sm_table m) = unat (sm_capacity m)" "unat (sm_capacity m) \<le> 2 ^ 24"
    "free_chain (sm_table m) (sm_free_head m) fl" "distinct fl"
    "set fl = {i. i < length (sm_table m) \<and> \<not> sl_is_active (sm_table m ! i)}"
    using ok by (rule smgr_okE)
  define sl where "sl = \<lparr>sl_union = NextFree (sm_free_head m) :: 'a slot_union,
    sl_version = sl_version (sm_table m ! h) + 1, sl_is_active = False\<rparr>"
  define m' where "m' = m\<lparr>sm_table := (sm_table m)[h := sl], sm_count := sm_count m - 1,
    sm_free_head := SID_SEQ (se_id m p), se_id := (se_id m)(p := 0), se_manager := (se_manager m)(p := False)\<rparr>"
  have "\<not> SID_SEQ (se_id m p) \<ge> sm_capacity m" using h(1) sq fl(1) by (simp add: word_le_nat_alt)
  then have "session_manager_remove m (Some p) = Some (0, m')"
    using h by (simp add: session_manager_remove_def Let_def slot_session_def sq m'_def sl_def)
  moreover have "smgr_ok m'"
  proof -
    have nh: "h \<notin> set fl" using fl(5) h by simp
    have "free_chain ((sm_table m)[h := sl]) (sm_free_head m) fl"
      by (rule free_chain_frame [OF fl(3)]) (use nh in \<open>auto intro!: nth_list_update_neq\<close>)
    then have "free_chain (sm_table m') (sm_free_head m') (h # fl)"
      using h(1) sq by (simp add: m'_def sl_def)
    moreover have "set (h # fl) = {i. i < length (sm_table m') \<and> \<not> sl_is_active (sm_table m' ! i)}"
      using fl(5) h(1) by (auto simp: m'_def nth_list_update sl_def)
    moreover have "unat (sm_count m') = length (filter sl_is_active (sm_table m'))"
    proof -
      have c: "unat (sm_count m) = length (filter sl_is_active (sm_table m))"
        using ok by (rule smgr_okE)
      moreover have c': "length (filter sl_is_active (sm_table m)) = Suc (length (filter sl_is_active (sm_table m')))"
        using length_filter_update [OF h(1), of sl_is_active sl] h by (simp add: m'_def sl_def)
      ultimately have "1 \<le> sm_count m" by (simp add: word_le_nat_alt)
      then show ?thesis using c c' by (simp add: m'_def unat_sub)
    qed
    moreover have "session_slot_ok m' i" if "i < length (sm_table m')" "sl_is_active (sm_table m' ! i)" for i
    proof -
      have i: "i < length (sm_table m)" "i \<noteq> h" "sl_is_active (sm_table m ! i)"
        using that h by (auto simp: m'_def sl_def nth_list_update split: if_splits)
      obtain r where r: "sl_union (sm_table m ! i) = Session (Some r)" "se_manager m r"
        "se_id m r = MAKE_SID (sm_index m) (sl_version (sm_table m ! i)) (of_nat i)"
        using session_at [OF ok i(1,3)] by metis
      have "r \<noteq> p" using one_slot [OF ok i(1,3) h(1,2)] r(1) h(3) i(2) by auto
      then show ?thesis using r i by (auto simp: session_slot_ok_def m'_def)
    qed
    ultimately show ?thesis
      using ok fl(4) nh unfolding smgr_ok_def
      by (intro conjI exI [of _ "h # fl"]) (auto simp: m'_def)
  qed
  moreover have "handles m' = (handles m)(key (se_id m p) := None)"
  proof
    fix x show "handles m' x = ((handles m)(key (se_id m p) := None)) x"
      unfolding q(2) using h(1) by (cases x) (auto simp: handles_def m'_def sl_def nth_list_update)
  qed
  ultimately show ?thesis
    using h q(2) by (intro exI [of _ m']) (auto simp: m'_def sl_def handles_def)
qed

lemma remove_unknown:
  assumes ok: "smgr_ok m" and "p \<notin> sessions m"
  shows "session_manager_remove m (Some p) = Some (- 1, m)"
proof -
  define h where "h = unat (SID_SEQ (se_id m p))"
  have len: "length (sm_table m) = unat (sm_capacity m)" using ok by (rule smgr_okE)
  show ?thesis
  proof (cases "h < length (sm_table m) \<and> sl_is_active (sm_table m ! h)")
    case True
    then obtain q where "sl_union (sm_table m ! h) = Session (Some q)"
      using session_at [OF ok] by metis
    moreover from this have "q \<noteq> p" using assms(2) True by (auto simp: sessions_iff)
    ultimately show ?thesis
      using True len by (auto simp: session_manager_remove_def h_def slot_session_def Let_def)
  next
    case False
    then show ?thesis using len
      by (auto simp: session_manager_remove_def h_def word_le_nat_alt Let_def)
  qed
qed

section \<open>Sequences of calls\<close>

text \<open>
  The interface a caller relies on: identifiers are handed out with sessions and resolved to them
  until the session is removed.
\<close>

locale session_table =
  fixes ok :: "'m \<Rightarrow> bool"
    and resolve :: "'m \<Rightarrow> 'k \<Rightarrow> 'p option"
    and insert_t :: "'p \<Rightarrow> 'm \<Rightarrow> ('k \<times> 'm) option"
    and delete :: "'k \<Rightarrow> 'm \<Rightarrow> 'm option"
  assumes insert_law: "ok m \<Longrightarrow> p \<notin> ran (resolve m) \<Longrightarrow> insert_t p m = Some (k, m') \<Longrightarrow>
      ok m' \<and> resolve m k = None \<and> resolve m' = (resolve m)(k \<mapsto> p)"
    and delete_law: "ok m \<Longrightarrow> resolve m k = Some p \<Longrightarrow> \<exists>m'. delete k m = Some m' \<and> ok m' \<and>
      resolve m' = (resolve m)(k := None)"
begin

text \<open>A session resolves to itself while it is in the table, whatever else comes and goes.\<close>

lemma insert_resolves:
  "ok m \<Longrightarrow> p \<notin> ran (resolve m) \<Longrightarrow> insert_t p m = Some (k, m') \<Longrightarrow> resolve m' k = Some p"
  by (drule (2) insert_law) simp

lemma insert_keeps:
  "ok m \<Longrightarrow> p \<notin> ran (resolve m) \<Longrightarrow> insert_t p m = Some (k, m') \<Longrightarrow> resolve m k' = Some q \<Longrightarrow>
   resolve m' k' = Some q"
  by (drule (2) insert_law) auto

lemma insert_delete:
  assumes "ok m" "p \<notin> ran (resolve m)" "insert_t p m = Some (k, m')"
  shows "\<exists>m''. delete k m' = Some m'' \<and> ok m'' \<and> resolve m'' = resolve m"
proof -
  have i: "ok m'" "resolve m k = None" "resolve m' = (resolve m)(k \<mapsto> p)"
    using insert_law [OF assms] by auto
  then have "resolve m' k = Some p" by simp
  then obtain m'' where "delete k m' = Some m''" "ok m''" "resolve m'' = (resolve m')(k := None)"
    using delete_law [OF i(1)] by blast
  moreover have "(resolve m')(k := None) = resolve m" using i by (auto simp: fun_eq_iff)
  ultimately show ?thesis by auto
qed

lemma one_key:
  assumes "ok m" "p \<notin> ran (resolve m)" "insert_t p m = Some (k, m')"
  shows "resolve m' k' = Some p \<longleftrightarrow> k' = k"
  using insert_law [OF assms] assms(2) by (auto simp: ran_def)

end

definition table_insert :: "(nat \<Rightarrow> 'p slot) \<Rightarrow> 'p \<Rightarrow> 'p session_manager \<Rightarrow> ((nat \<times> u16) \<times> 'p session_manager) option" where
  "table_insert fresh p m = (case session_manager_alloc False True fresh (Some p) m of
     Some (Some q, m') \<Rightarrow> Some (key (se_id m' q), m') | _ \<Rightarrow> None)"

definition table_delete :: "nat \<times> u16 \<Rightarrow> 'p session_manager \<Rightarrow> 'p session_manager option" where
  "table_delete k m = (case session_manager_remove m (handles m k) of
     Some (rc, m') \<Rightarrow> if rc = 0 then Some m' else None | None \<Rightarrow> None)"

lemma handles_key:
  assumes ok: "smgr_ok m" and "handles m k = Some p"
  shows "p \<in> sessions m" "key (se_id m p) = k"
proof -
  obtain i v where k: "k = (i, v)" by (cases k)
  then have i: "i < length (sm_table m)" "sl_is_active (sm_table m ! i)" "sl_version (sm_table m ! i) = v"
    "sl_union (sm_table m ! i) = Session (Some p)"
    using assms(2) by (auto simp: handles_def split: if_splits slot_union.splits)
  show "p \<in> sessions m" using i by (auto simp: sessions_iff)
  show "key (se_id m p) = k" using session_at [OF ok i(1,2)] i k by (metis option.inject slot_union.inject(2))
qed

lemma table_insert_law:
  assumes a: "smgr_ok m" "p \<notin> ran (handles m)" "table_insert fresh p m = Some (k, m')"
  shows "smgr_ok m' \<and> handles m k = None \<and> handles m' = (handles m)(k \<mapsto> p)"
proof -
  have "\<not> full m"
  proof
    assume f: "full m"
    then have "session_manager_alloc False True fresh (Some p) m = Some (None, m)"
      by (intro alloc_fails [OF a(1)]) (simp_all add: full_def)
    then show False using a(3) by (simp add: table_insert_def)
  qed
  then obtain m1 where m1: "session_manager_alloc False True fresh (Some p) m = Some (Some p, m1)" "smgr_ok m1"
      "handles m (key (se_id m1 p)) = None" "handles m1 = (handles m)(key (se_id m1 p) \<mapsto> p)"
    using alloc_ok [OF a(1), of p fresh] a(2) unfolding sessions_def by metis
  from m1(1) a(3) have "k = key (se_id m1 p)" "m' = m1" by (auto simp: table_insert_def)
  with m1 show ?thesis by simp
qed

lemma table_delete_law:
  assumes a: "smgr_ok m" "handles m k = Some p"
  shows "\<exists>m'. table_delete k m = Some m' \<and> smgr_ok m' \<and> handles m' = (handles m)(k := None)"
proof -
  obtain m' where "session_manager_remove m (Some p) = Some (0, m')" "smgr_ok m'"
      "handles m' = (handles m)(key (se_id m p) := None)"
    using remove_ok [OF a(1) handles_key(1) [OF a]] by metis
  then show ?thesis using a handles_key(2) [OF a] by (simp add: table_delete_def)
qed

interpretation slots: session_table smgr_ok handles "table_insert fresh" table_delete for fresh
  by unfold_locales (fact table_insert_law, fact table_delete_law)

section \<open>Stale identifiers\<close>

datatype 'p sm_op = Alloc 'p | Remove 'p

text \<open>
  A sequence of allocations and removals as a caller makes them: an allocation is handed a new
  session object, one that is not in the table.
\<close>

fun sm_run :: "(nat \<Rightarrow> 'p slot) \<Rightarrow> 'p session_manager \<Rightarrow> 'p sm_op list \<Rightarrow> 'p session_manager option" where
  "sm_run fresh m [] = Some m"
| "sm_run fresh m (Alloc p # ops) =
     (if p \<in> sessions m then None
      else do { (r, m) \<leftarrow> session_manager_alloc False True fresh (Some p) m; sm_run fresh m ops })"
| "sm_run fresh m (Remove p # ops) =
     do { (rc, m) \<leftarrow> session_manager_remove m (Some p); sm_run fresh m ops }"

text \<open>No sequence of calls faults, as long as every allocation brings a new session object.\<close>

fun allocs :: "'p sm_op list \<Rightarrow> 'p list" where
  "allocs [] = []"
| "allocs (Alloc p # ops) = p # allocs ops"
| "allocs (Remove p # ops) = allocs ops"

lemma alloc_total:
  assumes ok: "smgr_ok m" and new: "p \<notin> sessions m"
  shows "\<exists>r m'. session_manager_alloc False True fresh (Some p) m = Some (r, m') \<and> smgr_ok m' \<and>
    sessions m' \<subseteq> insert p (sessions m)"
proof (cases "full m")
  case True
  then show ?thesis using alloc_fails [OF ok, of True False fresh "Some p"] ok by (auto simp: full_def)
next
  case False
  then obtain m' k where "session_manager_alloc False True fresh (Some p) m = Some (Some p, m')" "smgr_ok m'"
      "handles m' = (handles m)(k \<mapsto> p)"
    using alloc_ok [OF ok False new, of fresh] by metis
  then show ?thesis by (auto simp: sessions_def ran_def)
qed

lemma remove_total:
  assumes ok: "smgr_ok m"
  shows "\<exists>r m'. session_manager_remove m (Some p) = Some (r, m') \<and> smgr_ok m' \<and> sessions m' \<subseteq> sessions m"
proof (cases "p \<in> sessions m")
  case True
  then obtain m' k where "session_manager_remove m (Some p) = Some (0, m')" "smgr_ok m'"
      "handles m' = (handles m)(k := None)"
    using remove_ok [OF ok] by metis
  then show ?thesis by (auto simp: sessions_def ran_def split: if_splits)
next
  case False
  then show ?thesis using remove_unknown [OF ok] ok by auto
qed

lemma sm_run_total:
  "smgr_ok m \<Longrightarrow> distinct (allocs ops) \<Longrightarrow> set (allocs ops) \<inter> sessions m = {} \<Longrightarrow>
   \<exists>m'. sm_run fresh m ops = Some m' \<and> smgr_ok m'"
proof (induction ops arbitrary: m)
  case (Cons op ops)
  show ?case
  proof (cases op)
    case (Alloc p)
    then have p: "p \<notin> sessions m" using Cons.prems by auto
    obtain r m1 where m1: "session_manager_alloc False True fresh (Some p) m = Some (r, m1)" "smgr_ok m1"
        "sessions m1 \<subseteq> insert p (sessions m)"
      using alloc_total [OF Cons.prems(1) p] by metis
    have "set (allocs ops) \<inter> sessions m1 = {}" using m1(3) Cons.prems Alloc by auto
    then show ?thesis using Cons.IH [OF m1(2)] Cons.prems(2) Alloc p m1(1) by auto
  next
    case (Remove p)
    obtain r m1 where m1: "session_manager_remove m (Some p) = Some (r, m1)" "smgr_ok m1"
        "sessions m1 \<subseteq> sessions m"
      using remove_total [OF Cons.prems(1)] by metis
    have "set (allocs ops) \<inter> sessions m1 = {}" using m1(3) Cons.prems Remove by auto
    then show ?thesis using Cons.IH [OF m1(2)] Cons.prems(2) Remove m1(1) by auto
  qed
qed simp

definition same_versions :: "'p session_manager \<Rightarrow> 'p session_manager \<Rightarrow> bool" where
  "same_versions m m' \<longleftrightarrow> length (sm_table m) \<le> length (sm_table m') \<and>
     (\<forall>i < length (sm_table m). sl_version (sm_table m' ! i) = sl_version (sm_table m ! i))"

lemma version_update: "i < length t \<Longrightarrow>
   sl_version (t[h := (t ! h)\<lparr>sl_is_active := a, sl_union := u\<rparr>] ! i) = sl_version (t ! i)"
  by (cases "i = h") auto

lemma take_slot_versions: "same_versions m (take_slot p n m)"
  by (auto simp: same_versions_def take_slot_def Let_def version_update)

lemma alloc_step:
  assumes ok: "smgr_ok m" and new: "p \<notin> sessions m"
    and a: "session_manager_alloc False True fresh (Some p) m = Some (r, m')"
  shows "smgr_ok m' \<and> same_versions m m'"
proof (cases "full m")
  case True
  then have "m' = m" using a alloc_fails [OF ok, of True False fresh "Some p"] by (simp add: full_def)
  then show ?thesis using ok by (simp add: same_versions_def)
next
  case False
  then have "smgr_ok m'" using alloc_ok [OF ok False new, of fresh] a by auto
  moreover have "same_versions m m'"
  proof (cases "sm_free_head m = INVALID_SLOT_INDEX")
    case True
    have "sm_capacity m < MAX_SLOT_CAPACITY" using False True ok by (auto simp: full_def smgr_ok_def)
    then obtain m1 where m1: "session_manager_expand True fresh m = Some (0, m1)" "smgr_ok m1"
        "sm_free_head m1 \<noteq> INVALID_SLOT_INDEX" "length (sm_table m) \<le> length (sm_table m1)"
        "\<forall>i < length (sm_table m). sm_table m1 ! i = sm_table m ! i"
      using expand_ok [OF ok True] by metis
    obtain n where "session_manager_alloc False True fresh (Some p) m1 = Some (Some p, take_slot p n m1)"
      using alloc_take_slot [OF m1(2,3)] by metis
    then have "m' = take_slot p n m1" using a alloc_after_expand [OF True m1(1,3)] by simp
    then show ?thesis using take_slot_versions [of m1 p n] m1(4,5) by (auto simp: same_versions_def)
  next
    case False
    then obtain n where "session_manager_alloc False True fresh (Some p) m = Some (Some p, take_slot p n m)"
      using alloc_take_slot [OF ok] by metis
    then show ?thesis using a take_slot_versions by auto
  qed
  ultimately show ?thesis by simp
qed

lemma remove_step:
  assumes ok: "smgr_ok m" and r: "session_manager_remove m (Some p) = Some (rc, m')"
  shows "smgr_ok m' \<and> (same_versions m m' \<or>
    (\<exists>h < length (sm_table m). length (sm_table m') = length (sm_table m) \<and>
       (\<forall>i < length (sm_table m). sl_version (sm_table m' ! i) =
          (if i = h then sl_version (sm_table m ! i) + 1 else sl_version (sm_table m ! i)))))"
proof (cases "p \<in> sessions m")
  case True
  then obtain m1 where m1: "session_manager_remove m (Some p) = Some (0, m1)" "smgr_ok m1"
      "handles m (key (se_id m p)) = Some p" "sm_table m1 = (sm_table m)[fst (key (se_id m p)) :=
      \<lparr>sl_union = NextFree (sm_free_head m), sl_version = snd (key (se_id m p)) + 1, sl_is_active = False\<rparr>]"
    using remove_ok [OF ok True] by metis
  define h where "h = fst (key (se_id m p))"
  have h: "h < length (sm_table m)" "snd (key (se_id m p)) = sl_version (sm_table m ! h)"
    using m1(3) by (auto simp: handles_def h_def split: if_splits prod.splits)
  have "\<forall>i < length (sm_table m). sl_version (sm_table m1 ! i) =
          (if i = h then sl_version (sm_table m ! i) + 1 else sl_version (sm_table m ! i))"
    using h by (auto simp: m1(4) h_def [symmetric] nth_list_update)
  moreover have "m' = m1" "length (sm_table m1) = length (sm_table m)" using r m1 by simp_all
  ultimately show ?thesis using m1(2) h(1) by blast
next
  case False
  then show ?thesis using r remove_unknown [OF ok] ok by (simp add: same_versions_def)
qed

definition removals :: "'p sm_op list \<Rightarrow> nat" where
  "removals ops = length (filter (\<lambda>op. case op of Remove _ \<Rightarrow> True | _ \<Rightarrow> False) ops)"

text \<open>The version of a slot is the number of times it was given back, modulo 2^16.\<close>

lemma sm_run_versions:
  assumes "smgr_ok m" "i < length (sm_table m)" "sm_run fresh m ops = Some m'"
  shows "smgr_ok m' \<and> i < length (sm_table m') \<and>
    (\<exists>k \<le> removals ops. sl_version (sm_table m' ! i) = sl_version (sm_table m ! i) + of_nat k)"
  using assms
proof (induction fresh m ops rule: sm_run.induct)
  case (1 fresh m)
  then show ?case by (auto simp: removals_def)
next
  case (2 fresh m p ops)
  obtain r m1 where m1: "p \<notin> sessions m" "session_manager_alloc False True fresh (Some p) m = Some (r, m1)"
      "sm_run fresh m1 ops = Some m'"
    using "2.prems"(3) by (auto split: if_splits Option.bind_splits)
  have s: "smgr_ok m1" "same_versions m m1" using alloc_step [OF "2.prems"(1) m1(1,2)] by auto
  then show ?case
    using "2.IH" [OF m1(1,2) refl s(1) _ m1(3)] "2.prems"(2) by (auto simp: same_versions_def removals_def)
next
  case (3 fresh m p ops)
  obtain rc m1 where m1: "session_manager_remove m (Some p) = Some (rc, m1)" "sm_run fresh m1 ops = Some m'"
    using "3.prems"(3) by (auto split: Option.bind_splits)
  have s: "smgr_ok m1" using remove_step [OF "3.prems"(1) m1(1)] by auto
  have "\<exists>j \<le> (1 :: nat). length (sm_table m) \<le> length (sm_table m1) \<and>
      sl_version (sm_table m1 ! i) = sl_version (sm_table m ! i) + of_nat j"
    using remove_step [OF "3.prems"(1) m1(1)]
  proof (elim conjE disjE exE)
    assume "same_versions m m1"
    then show ?thesis using "3.prems"(2) by (intro exI [of _ 0]) (simp add: same_versions_def)
  next
    fix h assume "length (sm_table m1) = length (sm_table m)" "\<forall>i < length (sm_table m). sl_version (sm_table m1 ! i) =
          (if i = h then sl_version (sm_table m ! i) + 1 else sl_version (sm_table m ! i))"
    then show ?thesis
      using "3.prems"(2) by (intro exI [of _ "if i = h then 1 else 0"]) simp
  qed
  then obtain j where j: "j \<le> 1" "length (sm_table m) \<le> length (sm_table m1)"
      "sl_version (sm_table m1 ! i) = sl_version (sm_table m ! i) + of_nat j" by blast
  moreover from j(2) "3.prems"(2) have "i < length (sm_table m1)" by simp
  ultimately obtain k where "smgr_ok m'" "i < length (sm_table m')" "k \<le> removals ops"
      "sl_version (sm_table m' ! i) = sl_version (sm_table m1 ! i) + of_nat k"
    using "3.IH" [OF m1(1) refl s _ m1(2)] by blast
  with j show ?case
    by (auto simp: removals_def intro!: exI [of _ "j + k"])
qed

lemma get_iff: "smgr_ok m \<Longrightarrow> session_manager_get m sd = Some (Some p) \<longleftrightarrow> handles m (key sd) = Some p"
  by (simp add: get_handles)

text \<open>
  C28: Allocation.  While the manager is not full (2^24 sessions) session_manager_alloc returns the
  new session, keeps the manager's invariant (the free list threads exactly the inactive slots, the
  counter counts the active ones, every session carries the identifier of its slot), gives it a
  non-zero identifier that no live session has, session_manager_get of that identifier finds the
  session, and every identifier that resolved before still resolves to the same session, also when
  the table had to be doubled.
\<close>

theorem session_manager_alloc_correct:
  assumes "smgr_ok m" and "p \<notin> sessions m" and "\<not> full m" and "sm_index m \<noteq> - 1"
  shows "\<exists>m'. session_manager_alloc False True fresh (Some p) m = Some (Some p, m') \<and> smgr_ok m' \<and>
    se_id m' p \<noteq> 0 \<and> session_manager_get m (se_id m' p) = Some None \<and>
    (\<forall>sd. session_manager_get m' sd =
      (if key sd = key (se_id m' p) then Some (Some p) else session_manager_get m sd))"
proof -
  obtain m' where m': "session_manager_alloc False True fresh (Some p) m = Some (Some p, m')" "smgr_ok m'"
      "handles m (key (se_id m' p)) = None" "handles m' = (handles m)(key (se_id m' p) \<mapsto> p)"
      "\<exists>v i. se_id m' p = MAKE_SID (sm_index m) v i"
    using alloc_ok [OF assms(1,3,2), of fresh] by metis
  then have "se_id m' p \<noteq> 0" using MAKE_SID_nonzero [OF assms(4)] by auto
  then show ?thesis
    using m' assms(1) by (intro exI [of _ m']) (simp add: get_handles)
qed

text \<open>
  C30: Removal.  session_manager_remove of a session in the table succeeds, keeps the invariant,
  clears the session's identifier, and afterwards its old identifier resolves to nothing while
  every other identifier resolves as before.  For a session that is not in the table it returns -1
  and changes nothing.
\<close>

theorem session_manager_remove_correct:
  assumes "smgr_ok m"
  shows "(if p \<in> sessions m
    then \<exists>m'. session_manager_remove m (Some p) = Some (0, m') \<and> smgr_ok m' \<and> se_id m' p = 0 \<and>
      session_manager_get m (se_id m p) = Some (Some p) \<and>
      (\<forall>sd. session_manager_get m' sd =
        (if key sd = key (se_id m p) then Some None else session_manager_get m sd))
    else session_manager_remove m (Some p) = Some (- 1, m))"
proof (cases "p \<in> sessions m")
  case True
  then obtain m' where "session_manager_remove m (Some p) = Some (0, m')" "smgr_ok m'" "se_id m' p = 0"
      "handles m' = (handles m)(key (se_id m p) := None)" "handles m (key (se_id m p)) = Some p"
    using remove_ok [OF assms True] by metis
  then show ?thesis using True assms by (simp add: get_handles)
next
  case False
  then show ?thesis using remove_unknown [OF assms] by simp
qed

text \<open>
  C25: A stale identifier is harmless.  Once a session has been removed, its identifier resolves to
  nothing after any further sequence of allocations and removals that contains fewer than 65,535
  removals, even though its slot may be reused any number of times in between.
\<close>

theorem stale_sid_resolves_to_nothing:
  assumes "smgr_ok m" and "session_manager_get m sd = Some (Some p)"
    and "sm_run fresh m (Remove p # ops) = Some m'" and "removals ops < 65535"
  shows "session_manager_get m' sd = Some None"
proof -
  have h: "handles m (key sd) = Some p" using assms(1,2) by (simp add: get_handles)
  note hk = handles_key [OF assms(1) h]
  obtain m1 where m1: "session_manager_remove m (Some p) = Some (0, m1)" "smgr_ok m1"
      "sm_table m1 = (sm_table m)[fst (key (se_id m p)) :=
      \<lparr>sl_union = NextFree (sm_free_head m), sl_version = snd (key (se_id m p)) + 1, sl_is_active = False\<rparr>]"
    using remove_ok [OF assms(1) hk(1)] by metis
  obtain i v where iv: "key sd = (i, v)" by (cases "key sd")
  have i: "i < length (sm_table m1)" "sl_version (sm_table m1 ! i) = v + 1"
    using h m1(3) hk(2) iv by (auto simp: handles_def split: if_splits)
  have "sm_run fresh m1 ops = Some m'" using assms(3) m1(1) by simp
  then obtain k where k: "smgr_ok m'" "k \<le> removals ops" "sl_version (sm_table m' ! i) = v + 1 + of_nat k"
    using sm_run_versions [OF m1(2) i(1)] i(2) by metis
  have "v + 1 + of_nat k \<noteq> v"
  proof
    assume "v + 1 + of_nat k = v"
    then have "of_nat (Suc k) = (0 :: u16)" by (simp add: algebra_simps)
    then have "2 ^ 16 dvd Suc k" by (simp add: word_of_nat_eq_0_iff del: of_nat_Suc)
    then show False using k(2) assms(4) by (auto dest: dvd_imp_le)
  qed
  then have "handles m' (key sd) = None" using k(3) by (simp add: iv handles_def)
  then show ?thesis using k(1) by (simp add: get_handles)
qed

text \<open>A manager of two slots, the first one holding session 7 in its sixth use.\<close>

definition example_manager :: "nat session_manager" where
  "example_manager = \<lparr>sm_index = 3, sm_count = 1, sm_capacity = 2,
     sm_table = [\<lparr>sl_union = Session (Some 7), sl_version = 5, sl_is_active = True\<rparr>,
                 \<lparr>sl_union = NextFree INVALID_SLOT_INDEX, sl_version = 0, sl_is_active = False\<rparr>],
     sm_free_head = 1, sm_recyclesize = 0, sm_recyclelist = [],
     se_id = (\<lambda>_. 0)(7 := MAKE_SID 3 5 0), se_manager = (\<lambda>_. False)(7 := True)\<rparr>"

lemma example_manager_ok: "smgr_ok example_manager"
proof -
  have "\<exists>fl. free_chain (sm_table example_manager) (sm_free_head example_manager) fl \<and> distinct fl \<and>
      set fl = {i. i < length (sm_table example_manager) \<and> \<not> sl_is_active (sm_table example_manager ! i)}"
    by (intro exI [of _ "[1]"]) (auto simp: example_manager_def less_Suc_eq)
  then show ?thesis
    unfolding smgr_ok_def
    by (auto simp: example_manager_def MAX_SLOT_CAPACITY_def session_slot_ok_def less_Suc_eq)
qed

lemma example_manager_sessions: "p \<in> sessions example_manager \<longleftrightarrow> p = 7"
  by (auto simp: sessions_iff example_manager_def less_Suc_eq)

theorem session_manager_alloc_correct_witness:
  "\<exists>m'. session_manager_alloc False True (\<lambda>_. undefined) (Some 8) example_manager = Some (Some 8, m') \<and>
    smgr_ok m' \<and> se_id m' 8 \<noteq> 0 \<and> session_manager_get example_manager (se_id m' 8) = Some None \<and>
    (\<forall>sd. session_manager_get m' sd =
      (if key sd = key (se_id m' 8) then Some (Some 8) else session_manager_get example_manager sd))"
  by (rule session_manager_alloc_correct [OF example_manager_ok])
    (simp add: example_manager_sessions, simp_all add: full_def example_manager_def INVALID_SLOT_INDEX_def)

theorem session_manager_remove_correct_witness:
  "\<exists>m'. session_manager_remove example_manager (Some 7) = Some (0, m') \<and> smgr_ok m' \<and> se_id m' 7 = 0 \<and>
      session_manager_get example_manager (se_id example_manager 7) = Some (Some 7) \<and>
      (\<forall>sd. session_manager_get m' sd =
        (if key sd = key (se_id example_manager 7) then Some None else session_manager_get example_manager sd))"
  using session_manager_remove_correct [OF example_manager_ok, of 7]
  by (simp add: example_manager_sessions)

theorem stale_sid_resolves_to_nothing_witness:
  "\<exists>m'. sm_run (\<lambda>_. undefined) example_manager [Remove 7, Alloc 9, Remove 9, Alloc 11] = Some m' \<and>
    session_manager_get m' (MAKE_SID 3 5 0) = Some None"
proof -
  have "distinct (allocs [Remove 7, Alloc 9, Remove 9, Alloc (11 :: nat)])"
    "set (allocs [Remove 7, Alloc 9, Remove 9, Alloc 11]) \<inter> sessions example_manager = {}"
    by (auto simp: example_manager_sessions)
  then obtain m' where m': "sm_run (\<lambda>_. undefined) example_manager [Remove 7, Alloc 9, Remove 9, Alloc 11] = Some m'"
    using sm_run_total [OF example_manager_ok] by metis
  have "handles example_manager (key (MAKE_SID 3 5 0)) = Some 7"
    by (simp add: handles_def key_def SID_SEQ_MAKE SID_VERSION_MAKE example_manager_def)
  then have "session_manager_get example_manager (MAKE_SID 3 5 0) = Some (Some 7)"
    by (simp add: get_handles [OF example_manager_ok])
  then have "session_manager_get m' (MAKE_SID 3 5 0) = Some None"
    by (rule stale_sid_resolves_to_nothing [OF example_manager_ok _ m']) (simp add: removals_def)
  with m' show ?thesis by blast
qed

section \<open>Versions come round\<close>

text \<open>The state of a one-slot manager after \<open>n\<close> sessions have come and gone.\<close>

definition idle :: "u16 \<Rightarrow> nat session_manager" where
  "idle v = \<lparr>sm_index = 0, sm_count = 0, sm_capacity = 1,
     sm_table = [\<lparr>sl_union = NextFree INVALID_SLOT_INDEX, sl_version = v, sl_is_active = False\<rparr>],
     sm_free_head = 0, sm_recyclesize = 0, sm_recyclelist = [], se_id = \<lambda>_. 0, se_manager = \<lambda>_. False\<rparr>"

lemma idle_create: "session_manager_create 0 1 (\<lambda>_. 0) (\<lambda>_. False) = Some (idle 0)"
  by (simp add: session_manager_create_def MAX_SLOT_CAPACITY_def init_slots_def end_slot_def idle_def)

lemma idle_alloc:
  "session_manager_alloc False True fresh (Some p) (idle v) = Some (Some p, take_slot p INVALID_SLOT_INDEX (idle v))"
  by (simp add: session_manager_alloc_def idle_def take_session_def slot_next_free_def take_slot_def
      INVALID_SLOT_INDEX_def)

lemma idle_sessions: "sessions (idle v) = {}"
  by (auto simp: sessions_iff idle_def)

lemma idle_remove:
  "session_manager_remove (take_slot p INVALID_SLOT_INDEX (idle v)) (Some p) = Some (0, idle (v + 1))"
  by (auto simp: session_manager_remove_def take_slot_def idle_def SID_SEQ_MAKE slot_session_def fun_eq_iff)

lemma idle_cycles:
  "sm_run fresh (idle v) (concat (replicate n [Alloc p, Remove p]) @ ops) = sm_run fresh (idle (v + of_nat n)) ops"
proof (induction n arbitrary: v)
  case (Suc n)
  then show ?case by (simp add: idle_sessions idle_alloc idle_remove algebra_simps)
qed simp

lemma idle_get:
  "session_manager_get (take_slot p INVALID_SLOT_INDEX (idle v)) (MAKE_SID 0 v 0) = Some (Some p)"
  by (simp add: session_manager_get_def take_slot_def idle_def SID_SEQ_MAKE SID_VERSION_MAKE slot_session_def)

text \<open>
  The bound on stale identifiers is exact.  In a new one-slot manager, the identifier of
  session 1 resolves to session 1; after session 1 and 65,535 more sessions have come and gone the
  16-bit version has come round, and the same identifier resolves to the unrelated session 2.
\<close>

theorem sid_version_comes_round:
  "\<exists>m0 m1 m2. session_manager_create 0 1 (\<lambda>_. 0) (\<lambda>_. False) = Some m0 \<and>
    sm_run fresh m0 [Alloc 1] = Some m1 \<and>
    session_manager_get m1 (MAKE_SID 0 0 0) = Some (Some 1) \<and>
    sm_run fresh m0 (concat (replicate 65536 [Alloc 1, Remove 1]) @ [Alloc 2]) = Some m2 \<and>
    session_manager_get m2 (MAKE_SID 0 0 0) = Some (Some (2 :: nat))"
proof (intro exI conjI)
  show "session_manager_create 0 1 (\<lambda>_. 0) (\<lambda>_. False) = Some (idle 0)" by (rule idle_create)
  show "sm_run fresh (idle 0) [Alloc 1] = Some (take_slot 1 INVALID_SLOT_INDEX (idle 0))"
    by (simp add: idle_sessions idle_alloc)
  show "session_manager_get (take_slot 1 INVALID_SLOT_INDEX (idle 0)) (MAKE_SID 0 0 0) = Some (Some 1)"
    by (rule idle_get)
  have "(of_nat 65536 :: u16) = 0" by simp
  then show "sm_run fresh (idle 0) (concat (replicate 65536 [Alloc 1, Remove 1]) @ [Alloc 2])
      = Some (take_slot 2 INVALID_SLOT_INDEX (idle 0))"
    by (simp only: idle_cycles add_0_left) (simp add: idle_sessions idle_alloc)
  show "session_manager_get (take_slot 2 INVALID_SLOT_INDEX (idle 0)) (MAKE_SID 0 0 0) = Some (Some 2)"
    by (rule idle_get)
qed

section \<open>Visiting the sessions\<close>

definition session_list :: "'p session_manager \<Rightarrow> nat \<Rightarrow> 'p list" where
  "session_list m i = concat (map (\<lambda>sl. if sl_is_active sl
     then (case sl_union sl of Session (Some p) \<Rightarrow> [p] | _ \<Rightarrow> []) else []) (drop i (sm_table m)))"

lemma session_list_step:
  assumes "i < length (sm_table m)"
  shows "session_list m i = (if sl_is_active (sm_table m ! i)
     then (case sl_union (sm_table m ! i) of Session (Some p) \<Rightarrow> [p] | _ \<Rightarrow> []) else []) @ session_list m (Suc i)"
  using assms by (simp add: session_list_def flip: Cons_nth_drop_Suc)

lemma foreach_loop_visits:
  assumes ok: "smgr_ok m" and f: "\<And>p c. func p (m, c) = (0, (m, g p c))"
  shows "i \<le> length (sm_table m) \<Longrightarrow> length (sm_table m) < fuel + i \<Longrightarrow> foreach_loop fuel func i cnt (m, c) =
    Some (cnt + int (length (session_list m i)), (m, fold g (session_list m i) c))"
proof (induction fuel arbitrary: i cnt c)
  case (Suc fuel)
  have len: "length (sm_table m) = unat (sm_capacity m)" using ok by (rule smgr_okE)
  show ?case
  proof (cases "i < length (sm_table m)")
    case True
    show ?thesis
    proof (cases "sl_is_active (sm_table m ! i)")
      case active: True
      obtain p where p: "sl_union (sm_table m ! i) = Session (Some p)"
        using session_at [OF ok True active] by metis
      have "foreach_loop (Suc fuel) func i cnt (m, c) = foreach_loop fuel func (Suc i) (cnt + 1) (m, g p c)"
        using True active p len by (simp add: slot_session_def f)
      then show ?thesis
        using Suc.IH [of "Suc i" "cnt + 1" "g p c"] Suc.prems True active p
        by (simp add: session_list_step)
    next
      case False
      then show ?thesis
        using Suc.IH [of "Suc i" cnt c] Suc.prems True len by (simp add: session_list_step)
    qed
  next
    case False
    then show ?thesis using len by (simp add: session_list_def)
  qed
qed simp

text \<open>A visitor with a state of its own, and what holds of it after the sessions \<open>ps\<close>.\<close>

lemma foreach_loop_inv:
  assumes ok: "smgr_ok m"
    and f: "\<And>ps p c. p \<in> sessions m \<Longrightarrow> p \<notin> set ps \<Longrightarrow> Q ps c \<Longrightarrow> \<exists>c'. func p (m, c) = (0, (m, c')) \<and> Q (ps @ [p]) c'"
  shows "i \<le> length (sm_table m) \<Longrightarrow> length (sm_table m) < fuel + i \<Longrightarrow> Q ps c \<Longrightarrow>
    set ps \<inter> set (session_list m i) = {} \<Longrightarrow> distinct (session_list m i) \<Longrightarrow>
    \<exists>c'. foreach_loop fuel func i cnt (m, c) = Some (cnt + int (length (session_list m i)), (m, c')) \<and>
      Q (ps @ session_list m i) c'"
proof (induction fuel arbitrary: i cnt c ps)
  case (Suc fuel)
  have len: "length (sm_table m) = unat (sm_capacity m)" using ok by (rule smgr_okE)
  show ?case
  proof (cases "i < length (sm_table m)")
    case True
    show ?thesis
    proof (cases "sl_is_active (sm_table m ! i)")
      case active: True
      obtain p where p: "sl_union (sm_table m ! i) = Session (Some p)"
        using session_at [OF ok True active] by metis
      have ss: "p \<in> sessions m" using True active p by (auto simp: sessions_iff)
      have sl: "session_list m i = p # session_list m (Suc i)" using True active p by (simp add: session_list_step)
      obtain c' where c': "func p (m, c) = (0, (m, c'))" "Q (ps @ [p]) c'"
        using f [OF ss _ Suc.prems(3)] Suc.prems(4) sl by auto
      have step: "foreach_loop (Suc fuel) func i cnt (m, c) = foreach_loop fuel func (Suc i) (cnt + 1) (m, c')"
        using True active p len by (simp add: slot_session_def c'(1))
      show ?thesis
        unfolding step using Suc.IH [of "Suc i" "ps @ [p]" c' "cnt + 1"] Suc.prems True c'(2) sl by (simp add: ac_simps)
    next
      case False
      then show ?thesis
        using Suc.IH [of "Suc i" ps c cnt] Suc.prems True len by (simp add: session_list_step)
    qed
  next
    case False
    then show ?thesis using len Suc.prems(3) by (simp add: session_list_def)
  qed
qed simp

lemma session_list_set: "set (session_list m 0) = sessions m"
proof (rule set_eqI)
  fix p
  have "p \<in> set (session_list m 0) \<longleftrightarrow>
      (\<exists>sl \<in> set (sm_table m). sl_is_active sl \<and> sl_union sl = Session (Some p))"
    by (auto simp: session_list_def split: if_splits slot_union.splits option.splits
        intro!: bexI [rotated])
  then show "p \<in> set (session_list m 0) \<longleftrightarrow> p \<in> sessions m"
    unfolding sessions_iff by (metis in_set_conv_nth)
qed

lemma session_list_length:
  assumes ok: "smgr_ok m"
  shows "int (length (session_list m 0)) = uint (sm_count m)"
proof -
  have "length (concat (map (\<lambda>sl. if sl_is_active sl
      then (case sl_union sl of Session (Some p) \<Rightarrow> [p] | _ \<Rightarrow> []) else []) t)) = length (filter sl_is_active t)"
    if "\<forall>sl \<in> set t. sl_is_active sl \<longrightarrow> (\<exists>p. sl_union sl = Session (Some p))" for t :: "'a slot list"
    using that by (induction t) auto
  moreover have "\<forall>sl \<in> set (sm_table m). sl_is_active sl \<longrightarrow> (\<exists>p. sl_union sl = Session (Some p))"
    using session_at [OF ok] by (metis in_set_conv_nth)
  moreover have "unat (sm_count m) = length (filter sl_is_active (sm_table m))" using ok by (rule smgr_okE)
  ultimately have "length (session_list m 0) = unat (sm_count m)" by (simp add: session_list_def)
  then show ?thesis by simp
qed

lemma session_list_distinct:
  assumes ok: "smgr_ok m"
  shows "distinct (session_list m 0)"
proof -
  have "distinct (session_list m i)" if "i \<le> length (sm_table m)" for i
    using that
  proof (induction "length (sm_table m) - i" arbitrary: i)
    case 0
    then show ?case by (simp add: session_list_def)
  next
    case (Suc n)
    then have i: "i < length (sm_table m)" by simp
    have d: "distinct (session_list m (Suc i))" using Suc i by simp
    have "p \<notin> set (session_list m (Suc i))"
      if p: "sl_is_active (sm_table m ! i)" "sl_union (sm_table m ! i) = Session (Some p)" for p
    proof
      assume "p \<in> set (session_list m (Suc i))"
      then obtain sl where sl: "sl \<in> set (drop (Suc i) (sm_table m))" "sl_is_active sl" "sl_union sl = Session (Some p)"
        by (auto simp: session_list_def split: if_splits slot_union.splits option.splits)
      then obtain k where k: "k < length (sm_table m) - Suc i" "sl = sm_table m ! (Suc i + k)"
        by (auto simp: in_set_conv_nth)
      then have "Suc i + k < length (sm_table m)" by linarith
      then obtain j where j: "j < length (sm_table m)" "Suc i \<le> j" "sl_is_active (sm_table m ! j)"
        "sl_union (sm_table m ! j) = Session (Some p)"
        using sl(2,3) k(2) that [of "Suc i + k"] by simp
      then show False using one_slot [OF ok i p(1) j(1,3) p(2) j(4)] by simp
    qed
    then show ?case
      using d session_list_step [OF i] session_at [OF ok i] by (cases "sl_is_active (sm_table m ! i)") fastforce+
  qed
  then show ?thesis by simp
qed

lemma foreach_inv:
  assumes ok: "smgr_ok m" and Q: "Q [] c"
    and f: "\<And>ps p c. p \<in> sessions m \<Longrightarrow> p \<notin> set ps \<Longrightarrow> Q ps c \<Longrightarrow> \<exists>c'. func p (m, c) = (0, (m, c')) \<and> Q (ps @ [p]) c'"
  shows "\<exists>c'. session_manager_foreach func (m, c) = Some (uint (sm_count m), (m, c')) \<and> Q (session_list m 0) c'"
proof -
  have "unat (sm_capacity m) \<le> 2 ^ 24" "length (sm_table m) = unat (sm_capacity m)"
    using ok by (auto elim: smgr_okE)
  then show ?thesis
    using foreach_loop_inv [where func = func and Q = Q and m = m and i = 0 and cnt = 0 and c = c and ps = "[]"
        and fuel = "Suc (2 ^ 24)", OF ok f] session_list_length [OF ok] session_list_distinct [OF ok] Q
    by (simp add: session_manager_foreach_def del: foreach_loop.simps)
qed

text \<open>
  Visiting.  With a visitor that leaves the manager alone and returns 0,
  session_manager_foreach calls it on exactly the sessions of the table, in the order of the slots,
  and returns their number.
\<close>

theorem session_manager_foreach_visits:
  assumes "smgr_ok m" and "\<And>p c. func p (m, c) = (0, (m, g p c))"
  shows "session_manager_foreach func (m, c) =
      Some (uint (sm_count m), (m, fold g (session_list m 0) c)) \<and>
    set (session_list m 0) = sessions m"
proof -
  have "unat (sm_capacity m) \<le> 2 ^ 24" "length (sm_table m) = unat (sm_capacity m)"
    using assms(1) by (auto elim: smgr_okE)
  then show ?thesis
    using foreach_loop_visits [where func = func and g = g and m = m and i = 0 and cnt = 0 and c = c
        and fuel = "Suc (2 ^ 24)", OF assms(1)] assms(2) session_list_length [OF assms(1)]
    by (simp add: session_manager_foreach_def session_list_set del: foreach_loop.simps)
qed

theorem session_manager_foreach_visits_witness:
  "session_manager_foreach (\<lambda>p (m, c). (0, (m, p # c))) (example_manager, []) =
      Some (uint (sm_count example_manager), (example_manager, fold (#) (session_list example_manager 0) [])) \<and>
    set (session_list example_manager 0) = sessions example_manager"
  by (rule session_manager_foreach_visits [OF example_manager_ok]) simp

end
