(* ===== verification/EpHash.thy ===== *)
theory EpHash
  imports Utils
begin

text \<open>
  \<^verbatim>\<open>src/ephashtable.c\<close>: the hash table of remote endpoints behind the KCP port, keyed by host and
  port.  A chain of a bucket is the list of its entries from the head on; an entry is the block
  \<open>calloc\<close> returned, whose trailing object is its value.  New entries are put in front of their
  chain without a search, so an endpoint that is added twice is shadowed, not replaced: seen from
  outside, the table keeps a stack of entries for every endpoint.

  Host names are byte lists without the terminating zero.  The bytes of the stack buffer that
  \<^verbatim>\<open>snprintf\<close> leaves alone are the argument \<open>junk\<close>.
\<close>

type_synonym endpoint_key = "byte list \<times> u16"

section \<open>The hash function\<close>

text \<open>A 32-bit load from a byte buffer; the platform is little-endian.\<close>

definition load32 :: "byte list \<Rightarrow> nat \<Rightarrow> u32 option" where
  "load32 data i = do {
     b0 \<leftarrow> arr_get data i;
     b1 \<leftarrow> arr_get data (i + 1);
     b2 \<leftarrow> arr_get data (i + 2);
     b3 \<leftarrow> arr_get data (i + 3);
     Some (ucast b0 OR push_bit 8 (ucast b1) OR push_bit 16 (ucast b2) OR push_bit 24 (ucast b3))
   }"

definition hash_m :: u32 where "hash_m = 0x5bd1e995"

text \<open>The loop over four bytes at a time, and the fall-through switch over the last ones.\<close>

function hash_loop :: "byte list \<Rightarrow> nat \<Rightarrow> nat \<Rightarrow> u32 \<Rightarrow> (u32 \<times> nat \<times> nat) option" where
  "hash_loop data i len h =
     (if 4 \<le> len
      then do {
        k \<leftarrow> load32 data i;
        let k = k * hash_m;
        let k = k XOR drop_bit 24 k;
        let k = k * hash_m;
        hash_loop data (i + 4) (len - 4) (h * hash_m XOR k)
      }
      else Some (h, i, len))"
  by auto
termination by (relation "measure (\<lambda>(_, _, len, _). len)") auto

declare hash_loop.simps [simp del]

definition hash_tail :: "byte list \<Rightarrow> nat \<Rightarrow> nat \<Rightarrow> u32 \<Rightarrow> u32 option" where
  "hash_tail data i len h = do {
     h \<leftarrow> (if len = 3 then map_option (\<lambda>b. h XOR push_bit 16 (ucast b)) (arr_get data (i + 2)) else Some h);
     h \<leftarrow> (if len = 3 \<or> len = 2 then map_option (\<lambda>b. h XOR push_bit 8 (ucast b)) (arr_get data (i + 1))
            else Some h);
     (if len = 3 \<or> len = 2 \<or> len = 1 then map_option (\<lambda>b. (h XOR ucast b) * hash_m) (arr_get data i)
      else Some h)
   }"

definition hash_function :: "byte list \<Rightarrow> nat \<Rightarrow> u32 option" where
  "hash_function data len = do {
     (h, i, rest) \<leftarrow> hash_loop data 0 len (5381 XOR of_nat len);
     h \<leftarrow> hash_tail data i rest h;
     let h = h XOR drop_bit 13 h;
     let h = h * hash_m;
     let h = h XOR drop_bit 15 h;
     Some h
   }"

text \<open>Decimal digits, as \<^verbatim>\<open>%d\<close> prints a port.\<close>

fun decimal :: "nat \<Rightarrow> byte list" where
  "decimal n = (if n < 10 then [of_nat (48 + n)] else decimal (n div 10) @ [of_nat (48 + n mod 10)])"

declare decimal.simps [simp del]

definition key_text :: "byte list \<Rightarrow> u16 \<Rightarrow> byte list" where
  "key_text host port = host @ [58, 58] @ decimal (unat port)"

text \<open>
  \<^verbatim>\<open>snprintf\<close> into 127 bytes of a buffer of 128: at most 126 characters and the final zero are
  written, and the length of the whole text is returned.
\<close>

definition get_hashkey :: "byte list \<Rightarrow> byte list \<Rightarrow> u16 \<Rightarrow> u32 option" where
  "get_hashkey junk host port =
     (let text = key_text host port;
          written = take 126 text @ [0];
          key = written @ take (128 - length written) (junk @ replicate 128 0)
      in hash_function key (length text))"

section \<open>State and operations\<close>

record 'p endpoint =
  ep_port :: u16
  ep_host :: "byte list"
  ep_value :: "'p option"
  ep_block :: 'p

record 'p ephashtable =
  ht_table :: "'p endpoint list list"
  ht_size :: u64
  ht_sizemask :: u64
  ht_count :: u64
  ht_objsize :: u64
  ht_helper :: bool
  ht_calls :: "(int \<times> 'p endpoint) list"

text \<open>The \<^verbatim>\<open>INVOKE\<close> macro: calls of the helper are recorded in order.\<close>

definition INVOKE :: "'p ephashtable \<Rightarrow> int \<Rightarrow> 'p endpoint \<Rightarrow> 'p ephashtable" where
  "INVOKE self meth entry =
     (if ht_helper self then self\<lparr>ht_calls := ht_calls self @ [(meth, entry)]\<rparr> else self)"

definition ephashtable_create :: "u64 \<Rightarrow> u64 \<Rightarrow> bool \<Rightarrow> 'p ephashtable" where
  "ephashtable_create cnt sz helper =
     (let s = ucast (nextpow2 (ucast cnt)) :: u64
      in \<lparr>ht_table = replicate (unat s) [], ht_size = s, ht_sizemask = s - 1, ht_count = 0,
          ht_objsize = sz, ht_helper = helper, ht_calls = []\<rparr>)"

definition same_endpoint :: "'p endpoint \<Rightarrow> byte list \<Rightarrow> u16 \<Rightarrow> bool" where
  "same_endpoint e host port \<longleftrightarrow> port = ep_port e \<and> host = ep_host e"

definition bucket :: "byte list \<Rightarrow> 'p ephashtable \<Rightarrow> byte list \<Rightarrow> u16 \<Rightarrow> nat option" where
  "bucket junk self host port = do {
     h \<leftarrow> get_hashkey junk host port;
     Some (unat ((ucast h :: u64) AND ht_sizemask self))
   }"

fun find_loop :: "byte list \<Rightarrow> u16 \<Rightarrow> 'p endpoint list \<Rightarrow> 'p option" where
  "find_loop host port [] = None"
| "find_loop host port (head # next) =
     (if same_endpoint head host port then ep_value head else find_loop host port next)"

definition ephashtable_find :: "byte list \<Rightarrow> 'p ephashtable \<Rightarrow> byte list \<Rightarrow> u16 \<Rightarrow> 'p option option" where
  "ephashtable_find junk self host port =
     (if ht_count self = 0 then Some None
      else do {
        index \<leftarrow> bucket junk self host port;
        head \<leftarrow> arr_get (ht_table self) index;
        Some (find_loop host port head)
      })"

text \<open>The unlinking loop: the entries already passed, and the ones from the current on.\<close>

fun remove_loop :: "byte list \<Rightarrow> u16 \<Rightarrow> 'p endpoint list \<Rightarrow> 'p endpoint list
    \<Rightarrow> ('p endpoint \<times> 'p endpoint list) option" where
  "remove_loop host port prev [] = None"
| "remove_loop host port prev (head # next) =
     (if same_endpoint head host port then Some (head, rev prev @ next)
      else remove_loop host port (head # prev) next)"

definition ephashtable_remove ::
  "byte list \<Rightarrow> 'p ephashtable \<Rightarrow> byte list \<Rightarrow> u16 \<Rightarrow> 'p ephashtable option" where
  "ephashtable_remove junk self host port =
     (if ht_count self = 0 then Some self
      else do {
        index \<leftarrow> bucket junk self host port;
        head \<leftarrow> arr_get (ht_table self) index;
        (case remove_loop host port [] head of
           None \<Rightarrow> Some self
         | Some (entry, chain) \<Rightarrow> do {
             t \<leftarrow> arr_set (ht_table self) index chain;
             let self = INVOKE (self\<lparr>ht_table := t\<rparr>) 2 entry;
             Some (self\<lparr>ht_count := ht_count self - 1\<rparr>)
           })
      })"

text \<open>\<open>block\<close> is what \<^verbatim>\<open>calloc\<close> returns; the host field has room for 64 bytes.\<close>

definition ephashtable_append ::
  "byte list \<Rightarrow> 'p option \<Rightarrow> 'p ephashtable \<Rightarrow> byte list \<Rightarrow> u16 \<Rightarrow> ('p option \<times> 'p ephashtable) option" where
  "ephashtable_append junk block self host port = do {
     index \<leftarrow> bucket junk self host port;
     b \<leftarrow> block;
     host' \<leftarrow> (if length host < 64 then Some host else None);
     let entry = \<lparr>ep_port = port, ep_host = host',
                  ep_value = (if 0 < ht_objsize self then Some b else None), ep_block = b\<rparr>;
     chain \<leftarrow> arr_get (ht_table self) index;
     t \<leftarrow> arr_set (ht_table self) index (entry # chain);
     let self = INVOKE (self\<lparr>ht_count := ht_count self + 1, ht_table := t\<rparr>) 1 entry;
     Some (ep_value entry, self)
   }"

text \<open>Destruction frees every entry of every chain, after telling the helper.\<close>

definition ephashtable_destroy :: "'p ephashtable \<Rightarrow> 'p list \<times> 'p ephashtable" where
  "ephashtable_destroy self =
     (let es = concat (ht_table self);
          self = fold (\<lambda>e self. (INVOKE self 3 e)\<lparr>ht_count := ht_count self - 1\<rparr>) es self
      in (map ep_block es, self\<lparr>ht_table := [], ht_count := 0, ht_size := 0, ht_sizemask := 0\<rparr>))"

section \<open>The hash reads the text of the key and nothing else\<close>

lemma load32_total: "i + 4 \<le> length data \<Longrightarrow> load32 data i \<noteq> None"
  by (simp add: load32_def)

lemma load32_append: "i + 4 \<le> length xs \<Longrightarrow> load32 (xs @ ys) i = load32 xs i"
  by (simp add: load32_def nth_append)

lemma hash_loop_total:
  "i + len \<le> length data \<Longrightarrow> \<exists>h' i' r. hash_loop data i len h = Some (h', i', r) \<and> i' + r = i + len \<and> r < 4"
proof (induction data i len h rule: hash_loop.induct)
  case (1 data i len h)
  show ?case
  proof (cases "4 \<le> len")
    case True
    then obtain k where k: "load32 data i = Some k" using 1(2) load32_total [of i data] by fastforce
    show ?thesis
      using 1(1) [OF True k refl refl refl] 1(2) True k
      by (subst hash_loop.simps) (simp add: Let_def add.commute add.left_commute)
  next
    case False
    then show ?thesis by (subst hash_loop.simps) auto
  qed
qed

lemma hash_loop_append:
  "i + len \<le> length xs \<Longrightarrow> hash_loop (xs @ ys) i len h = hash_loop xs i len h"
proof (induction xs i len h rule: hash_loop.induct)
  case (1 xs i len h)
  show ?case
  proof (cases "4 \<le> len")
    case True
    then obtain k where k: "load32 xs i = Some k" using 1(2) load32_total [of i xs] by fastforce
    show ?thesis
      using 1(1) [OF True k refl refl refl] 1(2) True k load32_append [of i xs ys]
      by (subst (1 2) hash_loop.simps) (simp add: Let_def)
  next
    case False
    then show ?thesis by (subst (1 2) hash_loop.simps) simp
  qed
qed

lemma hash_tail_total: "i + r \<le> length data \<Longrightarrow> hash_tail data i r h \<noteq> None"
  by (auto simp: hash_tail_def)

lemma hash_tail_append: "i + r \<le> length xs \<Longrightarrow> hash_tail (xs @ ys) i r h = hash_tail xs i r h"
  by (auto simp: hash_tail_def arr_get_def nth_append)

lemma hash_loop_start:
  assumes "len \<le> length data"
  obtains h i r where "hash_loop data 0 len (5381 XOR of_nat len) = Some (h, i, r)" "i + r = len"
  using hash_loop_total [of 0 len data "5381 XOR of_nat len"] assms by auto

lemma hash_function_total:
  assumes "len \<le> length data"
  shows "\<exists>h. hash_function data len = Some h"
proof -
  obtain h i r where l: "hash_loop data 0 len (5381 XOR of_nat len) = Some (h, i, r)" "i + r = len"
    using assms by (rule hash_loop_start)
  then obtain h' where "hash_tail data i r h = Some h'"
    using hash_tail_total [of i r data h] assms by auto
  with l show ?thesis by (simp add: hash_function_def Let_def)
qed

lemma hash_function_append:
  assumes "len \<le> length xs"
  shows "hash_function (xs @ ys) len = hash_function xs len"
proof -
  obtain h i r where l: "hash_loop xs 0 len (5381 XOR of_nat len) = Some (h, i, r)" "i + r = len"
    using assms by (rule hash_loop_start)
  then show ?thesis
    using hash_loop_append [where i = 0 and len = len and xs = xs and ys = ys] hash_tail_append [of i r xs ys h] assms
    by (simp add: hash_function_def)
qed

lemma decimal_length: "0 < k \<Longrightarrow> n < 10 ^ k \<Longrightarrow> length (decimal n) \<le> k"
proof (induction n arbitrary: k rule: decimal.induct)
  case (1 n)
  show ?case
  proof (cases "n < 10")
    case True
    then show ?thesis using 1(2) by (subst decimal.simps) simp
  next
    case False
    then obtain j where k: "k = Suc j" "0 < j"
      using 1(2,3) by (cases k; cases "k - 1") auto
    then have "n div 10 < 10 ^ j" using 1(3) by (simp add: less_mult_imp_div_less)
    then show ?thesis using 1(1) [OF False k(2)] False k by (subst decimal.simps) simp
  qed
qed

lemma key_text_length: "length host < 64 \<Longrightarrow> length (key_text host port) \<le> 70"
proof -
  have "unat port < 2 ^ LENGTH(16)" by (rule unsigned_less)
  then have "length (decimal (unat port)) \<le> 5" by (intro decimal_length) simp_all
  moreover assume "length host < 64"
  ultimately show ?thesis by (simp add: key_text_def)
qed

definition hashkey :: "endpoint_key \<Rightarrow> u32" where
  "hashkey k = the (hash_function (key_text (fst k) (snd k)) (length (key_text (fst k) (snd k))))"

text \<open>For a host that fits its field the hash never reads past the text, whatever the stack holds.\<close>

lemma get_hashkey_total:
  assumes "length host < 64"
  shows "get_hashkey junk host port = Some (hashkey (host, port))"
proof -
  let ?t = "key_text host port"
  have "length ?t \<le> 70" using assms by (rule key_text_length)
  then have "take 126 ?t = ?t" by simp
  moreover have "hash_function ((?t @ [0]) @ ys) (length ?t) = hash_function ?t (length ?t)" for ys
    using hash_function_append [of "length ?t" ?t "[0] @ ys"] by simp
  ultimately have "get_hashkey junk host port = hash_function ?t (length ?t)"
    by (simp add: get_hashkey_def Let_def)
  then show ?thesis using hash_function_total [of "length ?t" ?t] by (auto simp: hashkey_def)
qed

section \<open>Invariant and abstraction\<close>

definition slot_of :: "'p ephashtable \<Rightarrow> endpoint_key \<Rightarrow> nat" where
  "slot_of t k = unat ((ucast (hashkey k) :: u64) AND ht_sizemask t)"

definition ep_key :: "'p endpoint \<Rightarrow> endpoint_key" where
  "ep_key e = (ep_host e, ep_port e)"

definition ht_ok :: "'p ephashtable \<Rightarrow> bool" where
  "ht_ok t \<longleftrightarrow> (\<exists>k < 32. unat (ht_size t) = 2 ^ k) \<and> ht_sizemask t = ht_size t - 1 \<and>
     length (ht_table t) = unat (ht_size t) \<and>
     unat (ht_count t) = length (concat (ht_table t)) \<and>
     (\<forall>i < length (ht_table t). \<forall>e \<in> set (ht_table t ! i). slot_of t (ep_key e) = i)"

text \<open>The entries of an endpoint, the latest first.\<close>

definition entries :: "'p ephashtable \<Rightarrow> endpoint_key \<Rightarrow> 'p endpoint list" where
  "entries t k = filter (\<lambda>e. ep_key e = k) (ht_table t ! slot_of t k)"

lemma slot_of_less: "ht_ok t \<Longrightarrow> slot_of t k < length (ht_table t)"
  by (auto simp: ht_ok_def slot_of_def unat_and_pow2_minus_one)

lemma same_endpoint_key: "same_endpoint e host port \<longleftrightarrow> ep_key e = (host, port)"
  by (auto simp: same_endpoint_def ep_key_def)

lemma find_loop_filter:
  "find_loop host port es = (case filter (\<lambda>e. ep_key e = (host, port)) es of [] \<Rightarrow> None | e # _ \<Rightarrow> ep_value e)"
  by (induction es) (auto simp: same_endpoint_key)

lemma entries_empty:
  assumes ok: "ht_ok t" and "ht_count t = 0"
  shows "entries t k = []"
proof -
  have "concat (ht_table t) = []" using assms by (simp add: ht_ok_def)
  then have "ht_table t ! slot_of t k = []"
    using nth_mem [OF slot_of_less [OF ok, of k]] by (simp del: nth_mem)
  then show ?thesis by (simp add: entries_def)
qed

lemma bucket_slot: "length host < 64 \<Longrightarrow> bucket junk t host port = Some (slot_of t (host, port))"
  by (simp add: bucket_def get_hashkey_total slot_of_def)

lemma find_entries:
  assumes ok: "ht_ok t" and h: "length host < 64"
  shows "ephashtable_find junk t host port =
    Some (case entries t (host, port) of [] \<Rightarrow> None | e # _ \<Rightarrow> ep_value e)"
  using entries_empty [OF ok] slot_of_less [OF ok]
  by (auto simp: ephashtable_find_def bucket_slot [OF h] find_loop_filter entries_def)

text \<open>Replacing one chain of the table.\<close>

lemma length_concat_update:
  "i < length t \<Longrightarrow> length (concat (t[i := c])) + length (t ! i) = length (concat t) + length c"
  by (induction t arbitrary: i) (auto simp: nth_Cons split: nat.splits)

lemma entries_update:
  assumes ok: "ht_ok t" and i: "i = slot_of t k"
    and t': "ht_table t' = (ht_table t)[i := c]" "ht_sizemask t' = ht_sizemask t"
    and same: "\<And>k'. k' \<noteq> k \<Longrightarrow> filter (\<lambda>e. ep_key e = k') c = filter (\<lambda>e. ep_key e = k') (ht_table t ! i)"
  shows "entries t' = (entries t)(k := filter (\<lambda>e. ep_key e = k) c)"
proof
  fix k'
  have s: "slot_of t' k' = slot_of t k'" by (simp add: slot_of_def t')
  have i': "i < length (ht_table t)" using slot_of_less [OF ok] i by simp
  show "entries t' k' = ((entries t)(k := filter (\<lambda>e. ep_key e = k) c)) k'"
    using same [of k'] i i' by (cases "slot_of t k' = i") (auto simp: entries_def s t')
qed

lemma INVOKE_simps [simp]:
  "ht_table (INVOKE t n e) = ht_table t" "ht_size (INVOKE t n e) = ht_size t"
  "ht_sizemask (INVOKE t n e) = ht_sizemask t" "ht_count (INVOKE t n e) = ht_count t"
  "ht_objsize (INVOKE t n e) = ht_objsize t" "ht_helper (INVOKE t n e) = ht_helper t"
  "ht_calls (INVOKE t n e) = ht_calls t @ (if ht_helper t then [(n, e)] else [])"
  by (simp_all add: INVOKE_def)

definition new_endpoint :: "'p ephashtable \<Rightarrow> endpoint_key \<Rightarrow> 'p \<Rightarrow> 'p endpoint" where
  "new_endpoint t k b = \<lparr>ep_port = snd k, ep_host = fst k,
     ep_value = (if 0 < ht_objsize t then Some b else None), ep_block = b\<rparr>"

lemma new_endpoint_key [simp]: "ep_key (new_endpoint t k b) = k"
  by (simp add: new_endpoint_def ep_key_def)

lemma append_entries:
  fixes port :: u16 and b :: 'p
  assumes ok: "ht_ok t" and h: "length host < 64" and room: "unat (ht_count t) + 1 < 2 ^ 64"
  defines "e \<equiv> new_endpoint t (host, port) b"
  shows "\<exists>t'. ephashtable_append junk (Some b) t host port = Some (ep_value e, t') \<and> ht_ok t' \<and>
    entries t' = (entries t)((host, port) := e # entries t (host, port)) \<and>
    ht_calls t' = ht_calls t @ (if ht_helper t then [(1, e)] else []) \<and>
    ht_helper t' = ht_helper t \<and> ht_objsize t' = ht_objsize t \<and> unat (ht_count t') = unat (ht_count t) + 1"
proof -
  define i where "i = slot_of t (host, port)"
  have i: "i < length (ht_table t)" using slot_of_less [OF ok] by (simp add: i_def)
  define t' where "t' = INVOKE (t\<lparr>ht_count := ht_count t + 1,
     ht_table := (ht_table t)[i := e # ht_table t ! i]\<rparr>) 1 e"
  have "ephashtable_append junk (Some b) t host port = Some (ep_value e, t')"
    using i h by (simp add: ephashtable_append_def bucket_slot [OF h] i_def [symmetric] t'_def e_def
        new_endpoint_def Let_def)
  moreover have c: "unat (ht_count t + 1) = unat (ht_count t) + 1"
    using room unat_Suc_of_nat [of "ht_count t" 1] by simp
  moreover have "ht_ok t'"
  proof -
    have s: "slot_of t' k = slot_of t k" for k by (simp add: slot_of_def t'_def)
    have "\<forall>j < length (ht_table t). \<forall>x \<in> set ((ht_table t)[i := e # ht_table t ! i] ! j). slot_of t (ep_key x) = j"
      using ok i by (auto simp: ht_ok_def nth_list_update i_def e_def)
    then show ?thesis
      using ok c length_concat_update [OF i, of "e # ht_table t ! i"]
      unfolding ht_ok_def s by (auto simp: t'_def)
  qed
  moreover have "entries t' = (entries t)((host, port) := e # entries t (host, port))"
    using entries_update [OF ok i_def, of t' "e # ht_table t ! i"]
    by (simp add: t'_def e_def entries_def i_def)
  ultimately show ?thesis by (intro exI [of _ t']) (auto simp: t'_def)
qed

lemma remove_loop_none:
  "\<forall>e \<in> set es. ep_key e \<noteq> (host, port) \<Longrightarrow> remove_loop host port prev es = None"
  by (induction es arbitrary: prev) (auto simp: same_endpoint_key)

lemma remove_loop_hit:
  "\<forall>y \<in> set ys. ep_key y \<noteq> (host, port) \<Longrightarrow> ep_key e = (host, port) \<Longrightarrow>
   remove_loop host port prev (ys @ e # zs) = Some (e, rev prev @ ys @ zs)"
  by (induction ys arbitrary: prev) (auto simp: same_endpoint_key)

lemma split_first:
  assumes "filter P es = e # fs"
  shows "\<exists>ys zs. es = ys @ e # zs \<and> (\<forall>y \<in> set ys. \<not> P y) \<and> P e \<and> fs = filter P zs"
  using assms by (auto simp: filter_eq_Cons_iff)

lemma remove_entries:
  assumes ok: "ht_ok t" and h: "length host < 64"
  shows "\<exists>t'. ephashtable_remove junk t host port = Some t' \<and> ht_ok t' \<and>
    entries t' = (entries t)((host, port) := tl (entries t (host, port))) \<and>
    ht_calls t' = ht_calls t @ (if ht_helper t \<and> entries t (host, port) \<noteq> []
      then [(2, hd (entries t (host, port)))] else []) \<and>
    ht_helper t' = ht_helper t \<and> ht_objsize t' = ht_objsize t \<and>
    unat (ht_count t') = unat (ht_count t) - (if entries t (host, port) = [] then 0 else 1)"
proof (cases "entries t (host, port)")
  case Nil
  then have "\<forall>e \<in> set (ht_table t ! slot_of t (host, port)). ep_key e \<noteq> (host, port)"
    by (auto simp: entries_def filter_empty_conv)
  then have "ephashtable_remove junk t host port = Some t"
    using slot_of_less [OF ok] by (simp add: ephashtable_remove_def bucket_slot [OF h] remove_loop_none)
  moreover have "(entries t)((host, port) := []) = entries t" by (rule fun_upd_idem) (rule Nil)
  ultimately show ?thesis using ok Nil by simp
next
  case (Cons e fs)
  define i where "i = slot_of t (host, port)"
  have i: "i < length (ht_table t)" using slot_of_less [OF ok] by (simp add: i_def)
  obtain ys zs where es: "ht_table t ! i = ys @ e # zs" "\<forall>y \<in> set ys. ep_key y \<noteq> (host, port)"
      "ep_key e = (host, port)" "fs = filter (\<lambda>e. ep_key e = (host, port)) zs"
    using Cons split_first [of "\<lambda>e. ep_key e = (host, port)" "ht_table t ! i" e fs]
    by (auto simp: entries_def i_def)
  have "length (concat (ht_table t)) \<noteq> 0" using es(1) nth_mem [OF i] by auto
  then have c0: "ht_count t \<noteq> 0" and c1: "unat (ht_count t - 1) = unat (ht_count t) - 1"
    using ok unat_sub [of 1 "ht_count t"] by (auto simp: ht_ok_def word_le_nat_alt unat_gt_0 Suc_leI)
  define t' where "t' = (INVOKE (t\<lparr>ht_table := (ht_table t)[i := ys @ zs]\<rparr>) 2 e)\<lparr>ht_count := ht_count t - 1\<rparr>"
  have "remove_loop host port [] (ht_table t ! i) = Some (e, ys @ zs)"
    using es(2,3) by (simp add: es(1) remove_loop_hit)
  then have "ephashtable_remove junk t host port = Some t'"
    using i c0 by (simp add: ephashtable_remove_def bucket_slot [OF h] i_def [symmetric] t'_def Let_def)
  moreover have "ht_ok t'"
  proof -
    have s: "slot_of t' k = slot_of t k" for k by (simp add: slot_of_def t'_def)
    have "\<forall>j < length (ht_table t). \<forall>x \<in> set ((ht_table t)[i := ys @ zs] ! j). slot_of t (ep_key x) = j"
      using ok i es(1) by (auto simp: ht_ok_def nth_list_update)
    then show ?thesis
      using ok c1 length_concat_update [OF i, of "ys @ zs"] es(1)
      unfolding ht_ok_def s by (auto simp: t'_def)
  qed
  moreover have "entries t' = (entries t)((host, port) := fs)"
    using entries_update [OF ok i_def, of t' "ys @ zs"] es by (simp add: t'_def filter_empty_conv)
  ultimately show ?thesis using Cons c1 by (intro exI [of _ t']) (auto simp: t'_def)
qed

lemma create_entries:
  assumes "1 \<le> unat cnt" "unat cnt \<le> 2 ^ 31"
  shows "ht_ok (ephashtable_create cnt sz helper)" "entries (ephashtable_create cnt sz helper) k = []"
    "ht_count (ephashtable_create cnt sz helper) = 0"
proof -
  have "unat (ucast cnt :: u32) = unat cnt"
    using assms by (simp add: unsigned_ucast_eq take_bit_nat_eq_self)
  then have "\<exists>k < 32. unat (nextpow2 (ucast cnt)) = 2 ^ k"
    using nextpow2_power [of "ucast cnt"] assms by auto
  then obtain n where n: "n < 32" "unat (nextpow2 (ucast cnt)) = 2 ^ n" by blast
  have "unat (ucast (nextpow2 (ucast cnt)) :: u64) = unat (nextpow2 (ucast cnt))"
  proof -
    have "unat (nextpow2 (ucast cnt)) < 2 ^ LENGTH(32)" by (rule unsigned_less)
    then show ?thesis by (simp add: unsigned_ucast_eq take_bit_nat_eq_self)
  qed
  then show ok: "ht_ok (ephashtable_create cnt sz helper)"
    using n by (auto simp: ht_ok_def ephashtable_create_def Let_def)
  show "entries (ephashtable_create cnt sz helper) k = []"
    by (rule entries_empty [OF ok]) (simp add: ephashtable_create_def Let_def)
qed (simp add: ephashtable_create_def Let_def)

section \<open>Sequences of calls\<close>

datatype 'p ht_op = Append "byte list" u16 'p | Remove_ep "byte list" u16 | Find "byte list" u16

fun ht_host :: "'p ht_op \<Rightarrow> byte list" where
  "ht_host (Append h p b) = h" | "ht_host (Remove_ep h p) = h" | "ht_host (Find h p) = h"

fun ht_step :: "byte list \<Rightarrow> 'p ephashtable \<Rightarrow> 'p ht_op \<Rightarrow> ('p option \<times> 'p ephashtable) option" where
  "ht_step junk t (Append h p b) = ephashtable_append junk (Some b) t h p"
| "ht_step junk t (Remove_ep h p) = map_option (Pair None) (ephashtable_remove junk t h p)"
| "ht_step junk t (Find h p) = map_option (\<lambda>v. (v, t)) (ephashtable_find junk t h p)"

text \<open>The contract: every endpoint has a stack of values.\<close>

fun stack_step :: "(endpoint_key \<Rightarrow> 'p list) \<Rightarrow> 'p ht_op \<Rightarrow> 'p option \<times> (endpoint_key \<Rightarrow> 'p list)" where
  "stack_step S (Append h p b) = (Some b, S((h, p) := b # S (h, p)))"
| "stack_step S (Remove_ep h p) = (None, S((h, p) := tl (S (h, p))))"
| "stack_step S (Find h p) = (case S (h, p) of [] \<Rightarrow> None | b # _ \<Rightarrow> Some b, S)"

fun ht_run :: "byte list \<Rightarrow> 'p ephashtable \<Rightarrow> 'p ht_op list \<Rightarrow> ('p option list \<times> 'p ephashtable) option" where
  "ht_run junk t [] = Some ([], t)"
| "ht_run junk t (op # ops) = do {
     (r, t) \<leftarrow> ht_step junk t op;
     (rs, t) \<leftarrow> ht_run junk t ops;
     Some (r # rs, t)
   }"

fun stack_run :: "(endpoint_key \<Rightarrow> 'p list) \<Rightarrow> 'p ht_op list \<Rightarrow> 'p option list \<times> (endpoint_key \<Rightarrow> 'p list)" where
  "stack_run S [] = ([], S)"
| "stack_run S (op # ops) =
     (let (r, S) = stack_step S op; (rs, S) = stack_run S ops in (r # rs, S))"

text \<open>Tables whose entries carry an object: the value of an entry is its block.\<close>

lemma in_tl: "x \<in> set (tl xs) \<Longrightarrow> x \<in> set xs"
  by (cases xs) auto

definition stacks :: "'p ephashtable \<Rightarrow> endpoint_key \<Rightarrow> 'p list" where
  "stacks t k = map ep_block (entries t k)"

definition ht_wf :: "'p ephashtable \<Rightarrow> bool" where
  "ht_wf t \<longleftrightarrow> ht_ok t \<and> 0 < ht_objsize t \<and> (\<forall>k. \<forall>e \<in> set (entries t k). ep_value e = Some (ep_block e))"

lemma wf_update:
  assumes "ht_wf t" "ht_ok t'" "ht_objsize t' = ht_objsize t" "entries t' = (entries t)(k := es)"
    and "\<forall>e \<in> set es. ep_value e = Some (ep_block e)"
  shows "ht_wf t'" "stacks t' = (stacks t)(k := map ep_block es)"
  using assms by (simp_all add: ht_wf_def stacks_def fun_eq_iff)

lemma ht_step_refines:
  assumes wf: "ht_wf t" and h: "length (ht_host op) < 64" and room: "unat (ht_count t) + 1 < 2 ^ 64"
  shows "\<exists>t'. ht_step junk t op = Some (fst (stack_step (stacks t) op), t') \<and> ht_wf t' \<and>
    stacks t' = snd (stack_step (stacks t) op) \<and> unat (ht_count t') \<le> unat (ht_count t) + 1"
proof -
  have ok: "ht_ok t" "0 < ht_objsize t" and vals: "\<And>k e. e \<in> set (entries t k) \<Longrightarrow> ep_value e = Some (ep_block e)"
    using wf by (auto simp: ht_wf_def)
  show ?thesis
  proof (cases op)
    case (Append host port b)
    let ?e = "new_endpoint t (host, port) b"
    have e: "ep_value ?e = Some b" "ep_block ?e = b" using ok(2) by (simp_all add: new_endpoint_def)
    have h': "length host < 64" using h Append by simp
    obtain t' where t': "ephashtable_append junk (Some b) t host port = Some (Some b, t')" "ht_ok t'"
        "entries t' = (entries t)((host, port) := ?e # entries t (host, port))"
        "ht_objsize t' = ht_objsize t" "unat (ht_count t') = unat (ht_count t) + 1"
      using append_entries [OF ok(1) h' room, where b = b and junk = junk and port = port] e by metis
    show ?thesis
      using wf_update [OF wf t'(2,4,3)] vals e t'(1,5) Append by (simp add: stacks_def)
  next
    case (Remove_ep host port)
    have h': "length host < 64" using h Remove_ep by simp
    obtain t' where t': "ephashtable_remove junk t host port = Some t'" "ht_ok t'"
        "entries t' = (entries t)((host, port) := tl (entries t (host, port)))"
        "ht_objsize t' = ht_objsize t" "unat (ht_count t') \<le> unat (ht_count t)"
      using remove_entries [OF ok(1) h', where junk = junk and port = port] by auto
    have "\<forall>e \<in> set (tl (entries t (host, port))). ep_value e = Some (ep_block e)"
      using vals in_tl by metis
    then show ?thesis
      using wf_update [OF wf t'(2,4,3)] t'(1,5) Remove_ep by (simp add: stacks_def map_tl)
  next
    case (Find host port)
    have h': "length host < 64" using h Find by simp
    show ?thesis
      using find_entries [OF ok(1) h', where junk = junk and port = port] vals [of _ "(host, port)"] wf Find
      by (auto simp: stacks_def split: list.splits)
  qed
qed

lemma ht_run_refines:
  assumes "ht_wf t" and "\<And>op. op \<in> set ops \<Longrightarrow> length (ht_host op) < 64"
    and "unat (ht_count t) + length ops < 2 ^ 64"
  shows "\<exists>t'. ht_run junk t ops = Some (fst (stack_run (stacks t) ops), t') \<and> ht_wf t' \<and>
    stacks t' = snd (stack_run (stacks t) ops)"
  using assms
proof (induction ops arbitrary: t)
  case (Cons op ops)
  obtain t1 where t1: "ht_step junk t op = Some (fst (stack_step (stacks t) op), t1)" "ht_wf t1"
      "stacks t1 = snd (stack_step (stacks t) op)" "unat (ht_count t1) \<le> unat (ht_count t) + 1"
    using ht_step_refines [of t op junk] Cons.prems by auto
  then show ?case
    using Cons.IH [OF t1(2)] Cons.prems by (auto simp: split_beta Let_def)
qed simp

text \<open>
  C39: The endpoint table is a map from endpoints to stacks of entries.  From a table created for 1
  to 2^31 endpoints with a non-empty object, any sequence of ephashtable_append, ephashtable_remove
  and ephashtable_find calls with hosts that fit their field never leaves a block, whatever the
  bytes of the key buffer beyond the text; find returns the value of the latest entry of the
  endpoint, append returns its new one, and remove uncovers the previous one without touching any
  other endpoint, however the hash distributes them.
\<close>

theorem ephashtable_refines_stacks:
  fixes ops :: "'p ht_op list"
  assumes "1 \<le> unat cnt" "unat cnt \<le> 2 ^ 31" "0 < sz"
    and "list_all (\<lambda>op. length (ht_host op) < 64) ops" and "length ops < 2 ^ 64"
  shows "\<exists>t'. ht_run junk (ephashtable_create cnt sz helper) ops
      = Some (fst (stack_run (\<lambda>_. []) ops), t') \<and> stacks t' = snd (stack_run (\<lambda>_. []) ops)"
proof -
  let ?t = "ephashtable_create cnt sz helper :: 'p ephashtable"
  note c = create_entries [OF assms(1,2), of sz helper]
  have "ht_objsize ?t = sz" by (simp add: ephashtable_create_def Let_def)
  then have wf: "ht_wf ?t" using c(1) assms(3) by (simp add: ht_wf_def c(2))
  have "stacks ?t = (\<lambda>_. [])" by (rule ext) (simp add: stacks_def c(2))
  then show ?thesis
    using ht_run_refines [OF wf, of ops junk] assms(4,5) by (auto simp: list_all_iff c(3))
qed

theorem ephashtable_refines_stacks_witness:
  "\<exists>t'. ht_run [1, 2] (ephashtable_create 100 16 True)
      [Append [49] 80 (7 :: nat), Append [49] 80 8, Find [49] 80, Remove_ep [49] 80, Find [49] 80]
      = Some (fst (stack_run (\<lambda>_. []) [Append [49] 80 7, Append [49] 80 8, Find [49] 80, Remove_ep [49] 80, Find [49] 80]), t') \<and>
    stacks t' = snd (stack_run (\<lambda>_. []) [Append [49] 80 7, Append [49] 80 8, Find [49] 80, Remove_ep [49] 80, Find [49] 80])"
  by (rule ephashtable_refines_stacks) simp_all

end
