(* ===== verification/Buffer.thy ===== *)
theory Buffer
  imports Prelude
begin

text \<open>
  The byte buffer of \<^verbatim>\<open>src/message.c\<close>: one allocated block, with the live bytes somewhere in its
  middle.  Erasing moves the start of the live bytes, appending goes behind them, and when there is
  no room behind them they are moved to the front of the block or the block is doubled.

  A block is the list of its bytes; \<open>bf_offset\<close> is \<open>buffer - orignbuffer\<close>.  \<open>mem\<close> says whether
  \<^verbatim>\<open>realloc\<close> succeeds and \<open>fresh\<close> what new memory contains.  The calls into the kernel
  (\<^verbatim>\<open>readv\<close>, \<^verbatim>\<open>read\<close>, \<^verbatim>\<open>ioctl\<close>, \<^verbatim>\<open>recvfrom\<close>) are arguments.
\<close>

definition MIN_BUFFER_LENGTH :: u64 where "MIN_BUFFER_LENGTH = 128"
definition MAX_BUFFER_LENGTH :: u64 where "MAX_BUFFER_LENGTH = 65536"

record buffer =
  bf_length :: u64
  bf_capacity :: u64
  bf_block :: "byte list option"
  bf_offset :: u64

section \<open>Operations\<close>

definition buffer_init :: buffer where
  "buffer_init = \<lparr>bf_length = 0, bf_capacity = 0, bf_block = None, bf_offset = 0\<rparr>"

text \<open>\<^verbatim>\<open>memmove\<close> of the live bytes to the front.\<close>

definition buffer_align :: "buffer \<Rightarrow> buffer option" where
  "buffer_align self = do {
     b \<leftarrow> (case bf_block self of
             None \<Rightarrow> if bf_length self = 0 then Some None else None
           | Some b \<Rightarrow>
               if unat (bf_offset self) + unat (bf_length self) \<le> length b
               then Some (Some (take (unat (bf_length self)) (drop (unat (bf_offset self)) b)
                                @ drop (unat (bf_length self)) b))
               else None);
     Some (self\<lparr>bf_block := b, bf_offset := 0\<rparr>)
   }"

definition buffer_left :: "buffer \<Rightarrow> u64" where
  "buffer_left self = bf_capacity self - bf_offset self - bf_length self"

text \<open>The doubling loop; \<open>None\<close> if it has not ended after \<open>fuel\<close> rounds.\<close>

fun grow_capacity :: "nat \<Rightarrow> u64 \<Rightarrow> u64 \<Rightarrow> u64 option" where
  "grow_capacity 0 newcapacity needlength = None"
| "grow_capacity (Suc fuel) newcapacity needlength =
     (if newcapacity < needlength then grow_capacity fuel (push_bit 1 newcapacity) needlength
      else Some newcapacity)"

definition buffer_expand ::
  "bool \<Rightarrow> (nat \<Rightarrow> byte) \<Rightarrow> buffer \<Rightarrow> u64 \<Rightarrow> (int \<times> buffer) option" where
  "buffer_expand mem fresh self len =
     (let needlength = bf_offset self + bf_length self + len
      in if needlength \<le> bf_capacity self then Some (0, self)
         else if bf_capacity self - bf_length self \<ge> len
         then map_option (Pair 0) (buffer_align self)
         else do {
           let newcapacity = (if bf_capacity self < MIN_BUFFER_LENGTH then MIN_BUFFER_LENGTH
                              else bf_capacity self);
           newcapacity \<leftarrow> grow_capacity 65 newcapacity needlength;
           self \<leftarrow> (if bf_offset self \<noteq> 0 then buffer_align self else Some self);
           (if \<not> mem then Some (- 1, self)
            else
              let old = (case bf_block self of None \<Rightarrow> [] | Some b \<Rightarrow> b)
              in Some (0, self\<lparr>bf_capacity := newcapacity,
                            bf_block := Some (mem_realloc fresh old (unat newcapacity)), bf_offset := 0\<rparr>))
         })"

definition buffer_set :: "buffer \<Rightarrow> byte list option \<Rightarrow> u64 \<Rightarrow> int \<times> buffer" where
  "buffer_set self buf len = (0, \<lparr>bf_length = len, bf_capacity = len, bf_block = buf, bf_offset = 0\<rparr>)"

definition buffer_clear :: "buffer \<Rightarrow> int \<times> buffer" where
  "buffer_clear self = buffer_set self None 0"

definition buffer_erase :: "buffer \<Rightarrow> u64 \<Rightarrow> int \<times> buffer" where
  "buffer_erase self len =
     (0, if bf_length self \<le> len then self\<lparr>bf_length := 0, bf_offset := 0\<rparr>
         else self\<lparr>bf_offset := bf_offset self + len, bf_length := bf_length self - len\<rparr>)"

text \<open>Writing bytes behind the live ones, with \<^verbatim>\<open>memcpy\<close> or by the kernel.\<close>

definition write_tail :: "buffer \<Rightarrow> byte list \<Rightarrow> buffer option" where
  "write_tail self bs =
     (case bf_block self of
        None \<Rightarrow> if bs = [] then Some self else None
      | Some b \<Rightarrow>
          map_option (\<lambda>b. self\<lparr>bf_block := Some b\<rparr>)
            (mem_copy b (unat (bf_offset self) + unat (bf_length self)) bs 0 (length bs)))"

definition buffer_append ::
  "bool \<Rightarrow> (nat \<Rightarrow> byte) \<Rightarrow> buffer \<Rightarrow> byte list \<Rightarrow> u64 \<Rightarrow> (int \<times> buffer) option" where
  "buffer_append mem fresh self buf len = do {
     let needlength = bf_offset self + bf_length self + len;
     (rc, self) \<leftarrow> (if needlength > bf_capacity self then buffer_expand mem fresh self len else Some (0, self));
     (if rc = - 1 then Some (- 1, self)
      else do {
        bs \<leftarrow> (if unat len \<le> length buf then Some (take (unat len) buf) else None);
        self \<leftarrow> write_tail self bs;
        Some (0, self\<lparr>bf_length := bf_length self + len\<rparr>)
      })
   }"

text \<open>The live bytes, the \<open>len\<close> bytes from \<open>buffer_data\<close> on.\<close>

definition buffer_data :: "buffer \<Rightarrow> byte list" where
  "buffer_data self = (case bf_block self of None \<Rightarrow> [] | Some b \<Rightarrow> drop (unat (bf_offset self)) b)"

definition buffer_append2 ::
  "bool \<Rightarrow> (nat \<Rightarrow> byte) \<Rightarrow> buffer \<Rightarrow> buffer \<Rightarrow> (int \<times> buffer) option" where
  "buffer_append2 mem fresh self other = buffer_append mem fresh self (buffer_data other) (bf_length other)"

text \<open>The caller's memory must have room for the bytes; they are the second component.\<close>

definition buffer_take :: "buffer \<Rightarrow> u64 \<Rightarrow> (u64 \<times> byte list \<times> buffer) option" where
  "buffer_take self len = do {
     let len = (if len > bf_length self then bf_length self else len);
     bs \<leftarrow> (if unat len \<le> length (buffer_data self) then Some (take (unat len) (buffer_data self)) else None);
     Some (len, bs, snd (buffer_erase self len))
   }"

definition buffer_reserve :: "bool \<Rightarrow> (nat \<Rightarrow> byte) \<Rightarrow> buffer \<Rightarrow> u64 \<Rightarrow> (int \<times> buffer) option" where
  "buffer_reserve mem fresh self len = buffer_expand mem fresh self len"

definition buffer_swap :: "buffer \<Rightarrow> buffer \<Rightarrow> buffer \<times> buffer" where
  "buffer_swap buf1 buf2 = (buf2, buf1)"

text \<open>
  \<^verbatim>\<open>readv\<close> into the free tail of the block and, when that is small, into 64 KB of stack.  The
  kernel is asked for at most \<open>room\<close> bytes and answers with a return value and the bytes.
\<close>

definition read_withvector ::
  "(nat \<Rightarrow> int \<times> byte list) \<Rightarrow> bool \<Rightarrow> (nat \<Rightarrow> byte) \<Rightarrow> buffer \<Rightarrow> (int \<times> buffer) option" where
  "read_withvector readv mem fresh self = do {
     let left = buffer_left self;
     let room = unat left + (if left < MAX_BUFFER_LENGTH then unat MAX_BUFFER_LENGTH else 0);
     let (nread, bs) = readv room;
     self \<leftarrow> write_tail self (take (unat left) bs);
     (if nread > uint left
      then do {
        let self = self\<lparr>bf_length := bf_length self + left\<rparr>;
        (rc, self) \<leftarrow> buffer_append mem fresh self (drop (unat left) bs) (of_int (nread - uint left));
        Some (if rc \<noteq> 0 then - 2 else nread, self)
      }
      else if nread > 0 then Some (nread, self\<lparr>bf_length := bf_length self + of_int nread\<rparr>)
      else Some (nread, self))
   }"

text \<open>
  \<^verbatim>\<open>ioctl(FIONREAD)\<close> stores an \<open>int\<close> through a pointer to the 64-bit \<open>nread\<close>, which holds -1: on
  a little-endian machine the low half is replaced.
\<close>

definition store_low32 :: "u64 \<Rightarrow> u32 \<Rightarrow> u64" where
  "store_low32 w v = (w AND push_bit 32 (mask 32)) OR ucast v"

definition read_withsize ::
  "(nat \<Rightarrow> int \<times> byte list) \<Rightarrow> u32 option \<Rightarrow> bool \<Rightarrow> (nat \<Rightarrow> byte) \<Rightarrow> buffer \<Rightarrow> int \<Rightarrow> (int \<times> buffer) option" where
  "read_withsize read_k fionread mem fresh self nbytes = do {
     let nbytes =
       (if nbytes = - 1
        then (case fionread of
                Some v \<Rightarrow> let nread = sint (store_low32 (- 1) v)
                          in if nread > 0 then nread else uint MAX_BUFFER_LENGTH
              | None \<Rightarrow> uint MAX_BUFFER_LENGTH)
        else nbytes);
     (rc, self) \<leftarrow> buffer_expand mem fresh self (of_int nbytes);
     (if rc \<noteq> 0 then Some (- 2, self)
      else do {
        let (nread, bs) = read_k (unat (of_int nbytes :: u64));
        self \<leftarrow> write_tail self bs;
        Some (nread, if nread > 0 then self\<lparr>bf_length := bf_length self + of_int nread\<rparr> else self)
      })
   }"

definition buffer_readv ::
  "(nat \<Rightarrow> int \<times> byte list) \<Rightarrow> bool \<Rightarrow> (nat \<Rightarrow> byte) \<Rightarrow> buffer \<Rightarrow> (int \<times> buffer) option" where
  "buffer_readv readv mem fresh self = read_withvector readv mem fresh self"

definition buffer_read ::
  "(nat \<Rightarrow> int \<times> byte list) \<Rightarrow> u32 option \<Rightarrow> bool \<Rightarrow> (nat \<Rightarrow> byte) \<Rightarrow> buffer \<Rightarrow> int \<Rightarrow> (int \<times> buffer) option" where
  "buffer_read read_k fionread mem fresh self nbytes =
     (if nbytes = 0 then read_withvector read_k mem fresh self
      else read_withsize read_k fionread mem fresh self nbytes)"

definition buffer_receive ::
  "(nat \<Rightarrow> int \<times> byte list) \<Rightarrow> bool \<Rightarrow> (nat \<Rightarrow> byte) \<Rightarrow> buffer \<Rightarrow> (int \<times> buffer) option" where
  "buffer_receive recvfrom mem fresh self = do {
     (rc, self) \<leftarrow> buffer_expand mem fresh self MAX_BUFFER_LENGTH;
     (if rc \<noteq> 0 then Some (- 2, self)
      else do {
        let (nread, bs) = recvfrom (unat MAX_BUFFER_LENGTH);
        self \<leftarrow> write_tail self bs;
        Some (nread, if nread > 0 then self\<lparr>bf_length := bf_length self + of_int nread\<rparr> else self)
      })
   }"

section \<open>Invariant and abstraction\<close>

definition buffer_ok :: "buffer \<Rightarrow> bool" where
  "buffer_ok b \<longleftrightarrow>
     (case bf_block b of
        None \<Rightarrow> bf_length b = 0 \<and> bf_capacity b = 0 \<and> bf_offset b = 0
      | Some bs \<Rightarrow> length bs = unat (bf_capacity b) \<and>
          unat (bf_offset b) + unat (bf_length b) \<le> unat (bf_capacity b))"

definition contents :: "buffer \<Rightarrow> byte list" where
  "contents b = take (unat (bf_length b)) (buffer_data b)"

lemma contents_length: "buffer_ok b \<Longrightarrow> length (contents b) = unat (bf_length b)"
  by (auto simp: buffer_ok_def contents_def buffer_data_def split: option.splits)

lemma buffer_ok_bound: "buffer_ok b \<Longrightarrow> unat (bf_offset b) + unat (bf_length b) \<le> unat (bf_capacity b)"
  by (auto simp: buffer_ok_def split: option.splits)

lemma contents_simps [simp]:
  "contents (b\<lparr>bf_length := n, bf_offset := k\<rparr>) = take (unat n) (buffer_data (b\<lparr>bf_offset := k\<rparr>))"
  "buffer_data (b\<lparr>bf_length := n\<rparr>) = buffer_data b"
  "buffer_data (b\<lparr>bf_capacity := n\<rparr>) = buffer_data b"
  by (cases "bf_block b"; simp add: contents_def buffer_data_def)+

declare grow_capacity.simps [simp del]

lemma align_ok:
  assumes ok: "buffer_ok b"
  shows "\<exists>b'. buffer_align b = Some b' \<and> buffer_ok b' \<and> contents b' = contents b \<and> bf_length b' = bf_length b \<and>
    bf_capacity b' = bf_capacity b \<and> bf_offset b' = 0 \<and> (bf_block b' = None \<longleftrightarrow> bf_block b = None)"
proof (cases "bf_block b")
  case None
  then show ?thesis using ok by (simp add: buffer_align_def buffer_ok_def contents_def buffer_data_def)
next
  case (Some bs)
  then have "unat (bf_offset b) + unat (bf_length b) \<le> length bs" "length bs = unat (bf_capacity b)"
    using ok by (auto simp: buffer_ok_def)
  then show ?thesis using Some by (auto simp: buffer_align_def buffer_ok_def contents_def buffer_data_def)
qed

text \<open>The doubling ends, for every length up to half of the address space.\<close>

lemma grow_capacity_ok:
  assumes "unat need \<le> unat c * 2 ^ fuel" and "unat need \<le> 2 ^ 63"
  shows "\<exists>c'. grow_capacity (Suc fuel) c need = Some c' \<and> need \<le> c' \<and> c \<le> c' \<and>
    (c' = c \<or> unat c' < 2 * unat need)"
  using assms
proof (induction fuel arbitrary: c)
  case 0
  then show ?case by (auto simp: grow_capacity.simps word_less_nat_alt word_le_nat_alt)
next
  case (Suc fuel)
  show ?case
  proof (cases "c < need")
    case True
    then have "unat c < 2 ^ 63" using Suc.prems(2) by (simp add: word_less_nat_alt)
    then have d: "unat (push_bit 1 c) = 2 * unat c" by (simp add: push_bit_eq_mult unat_word_ariths)
    then have "unat need \<le> unat (push_bit 1 c) * 2 ^ fuel" using Suc.prems(1) by simp
    then obtain c' where "grow_capacity (Suc fuel) (push_bit 1 c) need = Some c'" "need \<le> c'" "push_bit 1 c \<le> c'"
        "c' = push_bit 1 c \<or> unat c' < 2 * unat need"
      using Suc.IH Suc.prems(2) by blast
    moreover from this(4) have "unat c' < 2 * unat need" using True d by (auto simp: word_less_nat_alt)
    moreover have "c \<le> push_bit 1 c" using d by (simp add: word_le_nat_alt)
    ultimately show ?thesis using True by (auto simp: grow_capacity.simps(2) [of "Suc fuel"] intro: order_trans)
  qed (auto simp: grow_capacity.simps(2) [of "Suc fuel"] not_less)
qed

text \<open>How far the block may have grown when \<open>n\<close> bytes were asked for.\<close>

definition cap_after :: "buffer \<Rightarrow> nat \<Rightarrow> nat" where
  "cap_after b n = max 128 (max (unat (bf_capacity b)) (4 * (unat (bf_length b) + n)))"

lemma buffer_expand_ok:
  assumes ok: "buffer_ok b" and need: "unat (bf_offset b) + unat (bf_length b) + unat n \<le> 2 ^ 63"
  shows "\<exists>rc b'. buffer_expand mem fresh b n = Some (rc, b') \<and> buffer_ok b' \<and> contents b' = contents b \<and>
    bf_length b' = bf_length b \<and> (rc = 0 \<or> \<not> mem \<and> rc = - 1) \<and>
    (rc = 0 \<longrightarrow> unat (bf_offset b') + unat (bf_length b) + unat n \<le> unat (bf_capacity b')) \<and>
    unat (bf_capacity b') \<le> cap_after b (unat n)"
proof -
  define needlen where "needlen = bf_offset b + bf_length b + n"
  have un: "unat needlen = unat (bf_offset b) + unat (bf_length b) + unat n"
    using need by (simp add: needlen_def unat_word_ariths)
  have le: "bf_length b \<le> bf_capacity b" using buffer_ok_bound [OF ok] by (simp add: word_le_nat_alt)
  then have room: "unat (bf_capacity b - bf_length b) = unat (bf_capacity b) - unat (bf_length b)"
    by (simp add: unat_sub)
  consider (fits) "needlen \<le> bf_capacity b"
    | (align) "\<not> needlen \<le> bf_capacity b" "n \<le> bf_capacity b - bf_length b"
    | (grow) "\<not> needlen \<le> bf_capacity b" "\<not> n \<le> bf_capacity b - bf_length b" by blast
  then show ?thesis
  proof cases
    case fits
    then show ?thesis using ok un
      by (simp add: buffer_expand_def needlen_def [symmetric] word_le_nat_alt) (simp add: cap_after_def)
  next
    case align
    obtain b' where "buffer_align b = Some b'" "buffer_ok b'" "contents b' = contents b" "bf_length b' = bf_length b"
        "bf_capacity b' = bf_capacity b" "bf_offset b' = 0"
      using align_ok [OF ok] by auto
    moreover have "unat (bf_length b) + unat n \<le> unat (bf_capacity b)"
      using align(2) room le by (simp add: word_le_nat_alt)
    moreover have "unat (bf_capacity b) \<le> cap_after b (unat n)" by (simp add: cap_after_def)
    ultimately show ?thesis using align
      by (simp add: buffer_expand_def needlen_def [symmetric])
  next
    case grow
    define c where "c = (if bf_capacity b < MIN_BUFFER_LENGTH then MIN_BUFFER_LENGTH else bf_capacity b)"
    have c: "128 \<le> unat c" "bf_capacity b \<le> c"
      by (auto simp: c_def MIN_BUFFER_LENGTH_def word_less_nat_alt word_le_nat_alt)
    have "unat needlen \<le> unat c * 2 ^ 64"
    proof -
      have "unat needlen < 2 ^ LENGTH(64)" by (rule unsigned_less)
      then show ?thesis using c(1) by simp
    qed
    then obtain c' where c': "grow_capacity 65 c needlen = Some c'" "needlen \<le> c'" "c \<le> c'"
        "c' = c \<or> unat c' < 2 * unat needlen"
    proof -
      have "Suc 64 = 65" by simp
      then show thesis
        using grow_capacity_ok [of needlen c 64] \<open>unat needlen \<le> unat c * 2 ^ 64\<close> need un that by metis
    qed
    have "\<exists>b1. (if bf_offset b \<noteq> 0 then buffer_align b else Some b) = Some b1 \<and> buffer_ok b1 \<and>
        contents b1 = contents b \<and> bf_length b1 = bf_length b \<and> bf_capacity b1 = bf_capacity b \<and> bf_offset b1 = 0"
      using align_ok [OF ok] ok by auto
    then obtain b1 where b1: "(if bf_offset b \<noteq> 0 then buffer_align b else Some b) = Some b1" "buffer_ok b1"
        "contents b1 = contents b" "bf_length b1 = bf_length b" "bf_capacity b1 = bf_capacity b" "bf_offset b1 = 0"
      by blast
    define old where "old = (case bf_block b1 of None \<Rightarrow> [] | Some x \<Rightarrow> x)"
    define b2 where "b2 = b1\<lparr>bf_capacity := c', bf_block := Some (mem_realloc fresh old (unat c')), bf_offset := 0\<rparr>"
    have old: "length old = unat (bf_capacity b)" "take (unat (bf_length b)) old = contents b"
      using b1 by (auto simp: old_def buffer_ok_def contents_def buffer_data_def split: option.splits)
    have cc: "unat (bf_capacity b) \<le> unat c'" using c(2) c'(3) by (simp add: word_le_nat_alt)
    have "buffer_expand mem fresh b n = Some (if mem then (0, b2) else (- 1, b1))"
      using grow c' b1(1)
      by (simp add: buffer_expand_def needlen_def [symmetric] c_def [symmetric] Let_def b2_def old_def)
    moreover have "buffer_ok b2"
      using c'(2) un b1(4) by (simp add: buffer_ok_def b2_def word_le_nat_alt)
    moreover have "contents b2 = contents b"
      using old cc le b1(4)
      by (simp add: contents_def b2_def buffer_data_def mem_realloc_def word_le_nat_alt)
    moreover have "unat (bf_offset b2) + unat (bf_length b) + unat n \<le> unat (bf_capacity b2)"
      using c'(2) un by (simp add: b2_def word_le_nat_alt)
    moreover have "unat (bf_capacity b2) \<le> cap_after b (unat n)"
    proof -
      have "unat (bf_capacity b) < unat (bf_length b) + unat n"
        using grow(2) room le by (simp add: word_le_nat_alt)
      then have "unat needlen < 2 * (unat (bf_length b) + unat n)"
        using un buffer_ok_bound [OF ok] by simp
      moreover have "unat c \<le> max 128 (unat (bf_capacity b))"
        by (auto simp: c_def MIN_BUFFER_LENGTH_def word_less_nat_alt)
      ultimately show ?thesis using c'(4) by (auto simp: b2_def cap_after_def)
    qed
    moreover have "unat (bf_capacity b) \<le> cap_after b (unat n)" by (simp add: cap_after_def)
    ultimately show ?thesis using b1 by (cases mem) (auto simp: b2_def)
  qed
qed

lemma write_tail_ok:
  assumes ok: "buffer_ok b" and room: "unat (bf_offset b) + unat (bf_length b) + length bs \<le> unat (bf_capacity b)"
  shows "\<exists>b'. write_tail b bs = Some b' \<and> bf_length b' = bf_length b \<and> bf_offset b' = bf_offset b \<and>
    bf_capacity b' = bf_capacity b \<and> buffer_ok b' \<and> contents b' = contents b \<and>
    (\<forall>n. unat n = unat (bf_length b) + length bs \<longrightarrow>
       buffer_ok (b'\<lparr>bf_length := n\<rparr>) \<and> contents (b'\<lparr>bf_length := n\<rparr>) = contents b @ bs)"
proof (cases "bf_block b")
  case None
  then have "bs = []" using ok room by (simp add: buffer_ok_def)
  then show ?thesis using None ok
    by (auto simp: write_tail_def contents_def buffer_ok_def buffer_data_def unat_eq_0)
next
  case (Some xs)
  then have len: "length xs = unat (bf_capacity b)" using ok by (simp add: buffer_ok_def)
  let ?d = "unat (bf_offset b) + unat (bf_length b)"
  define ys where "ys = take ?d xs @ bs @ drop (?d + length bs) xs"
  have "write_tail b bs = Some (b\<lparr>bf_block := Some ys\<rparr>)"
    using Some room len by (simp add: write_tail_def mem_copy_def ys_def)
  moreover have ys: "length ys = length xs" using room len by (simp add: ys_def)
  moreover have "drop (unat (bf_offset b)) ys = take (unat (bf_length b)) (drop (unat (bf_offset b)) xs) @ bs @ drop (?d + length bs) xs"
    using room len by (simp add: ys_def drop_take)
  ultimately show ?thesis
    using Some room len ok by (auto simp: buffer_ok_def contents_def buffer_data_def)
qed

section \<open>The operations on the live bytes\<close>

lemma init_ok: "buffer_ok buffer_init \<and> contents buffer_init = []"
  by (simp add: buffer_init_def buffer_ok_def contents_def)

lemma set_ok:
  "length bs = unat n \<Longrightarrow> buffer_ok (snd (buffer_set b (Some bs) n)) \<and> contents (snd (buffer_set b (Some bs) n)) = bs"
  by (simp add: buffer_set_def buffer_ok_def contents_def buffer_data_def)

lemma clear_ok: "buffer_ok (snd (buffer_clear b)) \<and> contents (snd (buffer_clear b)) = []"
  by (simp add: buffer_clear_def buffer_set_def buffer_ok_def contents_def buffer_data_def)

lemma erase_ok:
  assumes ok: "buffer_ok b"
  shows "buffer_ok (snd (buffer_erase b n)) \<and> contents (snd (buffer_erase b n)) = drop (unat n) (contents b) \<and>
    bf_capacity (snd (buffer_erase b n)) = bf_capacity b"
proof (cases "bf_length b \<le> n")
  case True
  then have "length (contents b) \<le> unat n" using contents_length [OF ok] by (simp add: word_le_nat_alt)
  then show ?thesis using True ok
    by (auto simp: buffer_erase_def buffer_ok_def contents_def split: option.splits)
next
  case False
  then have n: "unat n < unat (bf_length b)" "unat (bf_length b - n) = unat (bf_length b) - unat n"
    by (auto simp: word_le_nat_alt unat_sub)
  obtain bs where bs: "bf_block b = Some bs" "length bs = unat (bf_capacity b)"
      "unat (bf_offset b) + unat (bf_length b) \<le> unat (bf_capacity b)"
    using ok n(1) by (auto simp: buffer_ok_def split: option.splits)
  have "unat (bf_capacity b) < 2 ^ LENGTH(64)" by (rule unsigned_less)
  then have o: "unat (bf_offset b + n) = unat (bf_offset b) + unat n"
    using bs(3) n(1) by (simp add: unat_word_ariths)
  show ?thesis
    using False bs n o
    by (simp add: buffer_erase_def buffer_ok_def contents_def buffer_data_def drop_take add.commute)
qed

lemma append_ok:
  assumes ok: "buffer_ok b" and need: "unat (bf_offset b) + unat (bf_length b) + unat n \<le> 2 ^ 63"
    and n: "unat n \<le> length bs"
  shows "\<exists>rc b'. buffer_append mem fresh b bs n = Some (rc, b') \<and> buffer_ok b' \<and>
    unat (bf_capacity b') \<le> cap_after b (unat n) \<and>
    (if rc = 0 then contents b' = contents b @ take (unat n) bs else \<not> mem \<and> rc = - 1 \<and> contents b' = contents b)"
proof -
  have un: "unat (bf_offset b + bf_length b + n) = unat (bf_offset b) + unat (bf_length b) + unat n"
    using need by (simp add: unat_word_ariths)
  have "\<exists>rc b1. (if bf_offset b + bf_length b + n > bf_capacity b then buffer_expand mem fresh b n else Some (0, b))
      = Some (rc, b1) \<and> buffer_ok b1 \<and> contents b1 = contents b \<and>
    bf_length b1 = bf_length b \<and> (rc = 0 \<or> \<not> mem \<and> rc = - 1) \<and>
    (rc = 0 \<longrightarrow> unat (bf_offset b1) + unat (bf_length b) + unat n \<le> unat (bf_capacity b1)) \<and>
    unat (bf_capacity b1) \<le> cap_after b (unat n)"
    using buffer_expand_ok [OF ok need, of mem fresh] ok un by (auto simp: word_less_nat_alt not_less cap_after_def)
  then obtain rc b1 where b1: "(if bf_offset b + bf_length b + n > bf_capacity b then buffer_expand mem fresh b n else Some (0, b))
      = Some (rc, b1)" "buffer_ok b1" "contents b1 = contents b"
    "bf_length b1 = bf_length b" "rc = 0 \<or> \<not> mem \<and> rc = - 1"
    "rc = 0 \<Longrightarrow> unat (bf_offset b1) + unat (bf_length b) + unat n \<le> unat (bf_capacity b1)"
    "unat (bf_capacity b1) \<le> cap_after b (unat n)"
    by blast
  show ?thesis
  proof (cases "rc = 0")
    case False
    then show ?thesis unfolding buffer_append_def Let_def b1(1) using b1(2-5,7) by auto
  next
    case True
    have room: "unat (bf_offset b1) + unat (bf_length b1) + length (take (unat n) bs) \<le> unat (bf_capacity b1)"
      using b1(4,6) True n by simp
    have "unat (bf_capacity b1) < 2 ^ LENGTH(64)" by (rule unsigned_less)
    then have u: "unat (bf_length b1 + n) = unat (bf_length b1) + length (take (unat n) bs)"
      using room n by (simp add: unat_word_ariths)
    obtain b2 where b2: "write_tail b1 (take (unat n) bs) = Some b2" "bf_length b2 = bf_length b1" "bf_capacity b2 = bf_capacity b1"
        "\<And>m. unat m = unat (bf_length b1) + length (take (unat n) bs) \<Longrightarrow> buffer_ok (b2\<lparr>bf_length := m\<rparr>) \<and>
          contents (b2\<lparr>bf_length := m\<rparr>) = contents b1 @ take (unat n) bs"
      using write_tail_ok [OF b1(2) room] by auto
    show ?thesis
      unfolding buffer_append_def Let_def b1(1) using b1(3,4,7) b2(1-3) b2(4) [OF u] True n by simp
  qed
qed

lemma take_ok:
  assumes ok: "buffer_ok b"
  shows "\<exists>b'. buffer_take b n = Some (of_nat (length (take (unat n) (contents b))), take (unat n) (contents b), b') \<and>
    buffer_ok b' \<and> contents b' = drop (unat n) (contents b) \<and> bf_capacity b' = bf_capacity b"
proof -
  define k where "k = (if n > bf_length b then bf_length b else n)"
  have k: "unat k = min (unat n) (unat (bf_length b))" by (auto simp: k_def word_less_nat_alt min_def)
  have l: "unat (bf_length b) \<le> length (buffer_data b)"
    using contents_length [OF ok] by (simp add: contents_def)
  have "take (unat k) (buffer_data b) = take (unat n) (contents b)"
    by (simp add: contents_def k min.commute)
  moreover have "drop (unat k) (contents b) = drop (unat n) (contents b)"
    using contents_length [OF ok] k by (cases "unat n \<le> unat (bf_length b)") auto
  moreover have "of_nat (length (take (unat n) (contents b))) = k"
  proof -
    have "length (take (unat n) (contents b)) = unat k" using contents_length [OF ok] k by simp
    then show ?thesis by simp
  qed
  ultimately show ?thesis
    using erase_ok [OF ok, of k] l k
    by (simp add: buffer_take_def k_def [symmetric] Let_def)
qed

text \<open>What a reading call of the kernel may answer when it is asked for at most \<open>room\<close> bytes.\<close>

definition kernel_read :: "nat \<Rightarrow> int \<times> byte list \<Rightarrow> bool" where
  "kernel_read room r = (case r of (n, bs) \<Rightarrow> length bs \<le> room \<and> (n = int (length bs) \<or> n = - 1 \<and> bs = []))"

lemma left_room: "buffer_ok b \<Longrightarrow> unat (buffer_left b) = unat (bf_capacity b) - unat (bf_offset b) - unat (bf_length b)"
proof -
  assume "buffer_ok b"
  then have "unat (bf_offset b) + unat (bf_length b) \<le> unat (bf_capacity b)" by (rule buffer_ok_bound)
  then have "bf_offset b \<le> bf_capacity b" "bf_length b \<le> bf_capacity b - bf_offset b"
    by (auto simp: word_le_nat_alt unat_sub)
  then show ?thesis by (simp add: buffer_left_def unat_sub)
qed

lemma readv_ok:
  assumes ok: "buffer_ok b" and cap: "unat (bf_capacity b) \<le> 2 ^ 62"
    and k: "kernel_read (unat (buffer_left b) + (if buffer_left b < MAX_BUFFER_LENGTH then 65536 else 0))
      (readv (unat (buffer_left b) + (if buffer_left b < MAX_BUFFER_LENGTH then 65536 else 0)))"
      (is "kernel_read ?room (readv ?room)")
  shows "\<exists>rc b'. read_withvector readv mem fresh b = Some (rc, b') \<and> buffer_ok b' \<and>
    unat (bf_capacity b') \<le> cap_after b (length (snd (readv ?room))) \<and>
    (if rc = - 2 then \<not> mem \<and> contents b' = contents b @ take (unat (buffer_left b)) (snd (readv ?room))
     else rc = fst (readv ?room) \<and> contents b' = contents b @ snd (readv ?room))"
proof -
  obtain n bs where r: "readv ?room = (n, bs)" by (cases "readv ?room")
  have kr: "length bs \<le> ?room" "n = int (length bs) \<or> n = - 1 \<and> bs = []"
    using k r by (auto simp: kernel_read_def)
  let ?L = "buffer_left b"
  have room: "unat ?L = unat (bf_capacity b) - unat (bf_offset b) - unat (bf_length b)"
    by (rule left_room [OF ok])
  note bound = buffer_ok_bound [OF ok]
  define xs where "xs = take (unat ?L) bs"
  have fits: "unat (bf_offset b) + unat (bf_length b) + length xs \<le> unat (bf_capacity b)"
    using room bound by (simp add: xs_def)
  obtain b1 where b1: "write_tail b xs = Some b1" "bf_length b1 = bf_length b"
      "bf_offset b1 = bf_offset b" "bf_capacity b1 = bf_capacity b" "buffer_ok b1" "contents b1 = contents b"
      "\<And>m. unat m = unat (bf_length b) + length xs \<Longrightarrow> buffer_ok (b1\<lparr>bf_length := m\<rparr>) \<and>
        contents (b1\<lparr>bf_length := m\<rparr>) = contents b @ xs"
    using write_tail_ok [OF ok fits] by auto
  have M: "unat MAX_BUFFER_LENGTH = 65536" by (simp add: MAX_BUFFER_LENGTH_def)
  have rv: "readv (unat ?L + (if ?L < MAX_BUFFER_LENGTH then unat MAX_BUFFER_LENGTH else 0)) = (n, bs)"
    using r by (simp only: M)
  have uL: "uint ?L = int (unat ?L)" by simp
  have len_le: "unat (bf_length b) \<le> 2 ^ 62" using bound cap by simp
  have eq: "read_withvector readv mem fresh b =
    (if n > uint ?L
     then do {
       (rc, self) \<leftarrow> buffer_append mem fresh (b1\<lparr>bf_length := bf_length b1 + ?L\<rparr>) (drop (unat ?L) bs)
                      (of_int (n - uint ?L));
       Some (if rc \<noteq> 0 then - 2 else n, self)
     }
     else if n > 0 then Some (n, b1\<lparr>bf_length := bf_length b1 + of_int n\<rparr>) else Some (n, b1))"
    by (simp only: read_withvector_def Let_def rv prod.case xs_def [symmetric] b1(1) Option.bind.bind_lunit)
  have L0: "0 \<le> uint ?L" by simp
  consider (over) "n > uint ?L" | (some) "\<not> n > uint ?L" "n > 0" | (none) "n \<le> 0"
    by linarith
  then show ?thesis
  proof cases
    case none
    then have "bs = []" "xs = []" using kr(2) by (auto simp: xs_def)
    moreover have "\<not> n > uint ?L" "\<not> n > 0" using none L0 by linarith+
    ultimately have "read_withvector readv mem fresh b = Some (n, b1)"
      unfolding eq by (simp only: if_False)
    moreover have "n \<noteq> - 2" using kr(2) by linarith
    moreover have "contents b1 = contents b @ bs" using b1(6) \<open>bs = []\<close> by simp
    ultimately have "read_withvector readv mem fresh b = Some (n, b1) \<and> buffer_ok b1 \<and>
      n \<noteq> - 2 \<and> contents b1 = contents b @ bs" using b1(5) by blast
    then show ?thesis unfolding r using b1(4) by (intro exI [of _ n] exI [of _ b1]) (simp add: cap_after_def)
  next
    case some
    then have n: "n = int (length bs)" "length bs \<le> unat ?L" using kr(2) uL by linarith+
    then have xs: "xs = bs" by (simp add: xs_def)
    have "length bs \<le> 2 ^ 62" using n(2) room cap by simp
    then have "unat (of_int n :: u64) = length bs" using n(1)
      by (simp add: unat_of_nat take_bit_nat_eq_self)
    then have "unat (bf_length b + of_int n) = unat (bf_length b) + length xs"
      using len_le n(2) room cap xs by (simp add: unat_word_ariths)
    then have "buffer_ok (b1\<lparr>bf_length := bf_length b + of_int n\<rparr>)"
      "contents (b1\<lparr>bf_length := bf_length b + of_int n\<rparr>) = contents b @ bs"
      using b1(7) xs by simp_all
    then show ?thesis unfolding eq r using b1(2,4) some by (auto simp: cap_after_def)
  next
    case over
    then have n: "n = int (length bs)" "unat ?L < length bs" using kr(2) uL L0 by linarith+
    have L: "?L < MAX_BUFFER_LENGTH" "length bs \<le> unat ?L + 65536"
      using kr(1) n(2) by (auto split: if_splits)
    have xl: "length xs = unat ?L" using n by (simp add: xs_def)
    define b2 where "b2 = b1\<lparr>bf_length := bf_length b1 + ?L\<rparr>"
    have Lm: "unat ?L \<le> 2 ^ 62" using room cap by simp
    have u2: "unat (bf_length b + ?L) = unat (bf_length b) + length xs"
      using len_le Lm xl by (simp add: unat_word_ariths)
    then have b2: "buffer_ok b2" "contents b2 = contents b @ xs" using b1(2,7) by (simp_all add: b2_def)
    define m :: u64 where "m = of_int (n - uint ?L)"
    have "m = of_nat (length bs - unat ?L)" using n by (simp add: m_def of_nat_diff)
    then have m: "unat m = length bs - unat ?L"
      using L(2) by (simp add: unat_of_nat take_bit_nat_eq_self)
    have "unat (bf_offset b2) + unat (bf_length b2) + unat m \<le> 2 ^ 63"
    proof -
      have "unat (bf_offset b2) + unat (bf_length b2) \<le> 2 ^ 62"
        using fits cap b1(2,3) u2 by (simp add: b2_def)
      then show ?thesis using m L(2) by simp
    qed
    moreover have "unat m \<le> length (drop (unat ?L) bs)" using m by simp
    ultimately obtain rc b3 where b3: "buffer_append mem fresh b2 (drop (unat ?L) bs) m = Some (rc, b3)"
        "buffer_ok b3" "if rc = 0 then contents b3 = contents b2 @ take (unat m) (drop (unat ?L) bs)
          else \<not> mem \<and> rc = - 1 \<and> contents b3 = contents b2"
        "unat (bf_capacity b3) \<le> cap_after b2 (unat m)"
      using append_ok [OF b2(1)] by metis
    have "contents b2 @ take (unat m) (drop (unat ?L) bs) = contents b @ bs"
      using b2(2) m by (simp add: xs_def)
    moreover have "read_withvector readv mem fresh b = Some (if rc \<noteq> 0 then - 2 else n, b3)"
      unfolding eq using over b3(1) by (simp add: b2_def m_def)
    moreover have "cap_after b2 (unat m) = cap_after b (length bs)"
      using b1(2,4) u2 m n(2) xl by (simp add: cap_after_def b2_def)
    ultimately show ?thesis unfolding r using b2(2) b3(2,3,4) n(1)
      by (auto simp: xs_def split: if_splits)
  qed
qed

section \<open>Sequences of calls\<close>

datatype buf_op = BAppend "byte list" | BErase u64 | BTake u64 | BReserve u64 | BRead "byte list"

text \<open>
  The code, with memory available; a successful \<open>buffer_readv\<close> is given the bytes that the kernel
  delivers.  The result is the return value and the bytes handed to the caller.
\<close>

fun buf_step :: "(nat \<Rightarrow> byte) \<Rightarrow> buffer \<Rightarrow> buf_op \<Rightarrow> ((int \<times> byte list) \<times> buffer) option" where
  "buf_step fresh b (BAppend bs) =
     map_option (\<lambda>(rc, b). ((rc, []), b)) (buffer_append True fresh b bs (of_nat (length bs)))"
| "buf_step fresh b (BErase n) = (case buffer_erase b n of (rc, b) \<Rightarrow> Some ((rc, []), b))"
| "buf_step fresh b (BTake n) = map_option (\<lambda>(n, bs, b). ((uint n, bs), b)) (buffer_take b n)"
| "buf_step fresh b (BReserve n) = map_option (\<lambda>(rc, b). ((rc, []), b)) (buffer_reserve True fresh b n)"
| "buf_step fresh b (BRead bs) =
     map_option (\<lambda>(rc, b). ((rc, []), b)) (buffer_readv (\<lambda>_. (int (length bs), bs)) True fresh b)"

text \<open>The same on the stream of bytes.\<close>

fun stream_step :: "byte list \<Rightarrow> buf_op \<Rightarrow> (int \<times> byte list) \<times> byte list" where
  "stream_step xs (BAppend bs) = ((0, []), xs @ bs)"
| "stream_step xs (BErase n) = ((0, []), drop (unat n) xs)"
| "stream_step xs (BTake n) = ((int (length (take (unat n) xs)), take (unat n) xs), drop (unat n) xs)"
| "stream_step xs (BReserve n) = ((0, []), xs)"
| "stream_step xs (BRead bs) = ((int (length bs), []), xs @ bs)"

text \<open>Bytes that a call asks room for; one read delivers at most 64 KB here.\<close>

fun buf_demand :: "buf_op \<Rightarrow> nat" where
  "buf_demand (BAppend bs) = length bs"
| "buf_demand (BReserve n) = unat n"
| "buf_demand (BRead bs) = length bs"
| "buf_demand _ = 0"

fun buf_op_ok :: "byte list \<Rightarrow> buf_op \<Rightarrow> bool" where
  "buf_op_ok xs op \<longleftrightarrow> length xs + buf_demand op \<le> 2 ^ 60 \<and> (case op of BRead bs \<Rightarrow> length bs \<le> 65536 | _ \<Rightarrow> True)"

fun buf_run :: "(nat \<Rightarrow> byte) \<Rightarrow> buffer \<Rightarrow> buf_op list \<Rightarrow> ((int \<times> byte list) list \<times> buffer) option" where
  "buf_run fresh b [] = Some ([], b)"
| "buf_run fresh b (op # ops) = do {
     (r, b) \<leftarrow> buf_step fresh b op;
     (rs, b) \<leftarrow> buf_run fresh b ops;
     Some (r # rs, b)
   }"

text \<open>The stream run fails when the live bytes and the demand pass 2^60.\<close>

fun stream_run :: "byte list \<Rightarrow> buf_op list \<Rightarrow> ((int \<times> byte list) list \<times> byte list) option" where
  "stream_run xs [] = Some ([], xs)"
| "stream_run xs (op # ops) =
     (if buf_op_ok xs op
      then (case stream_step xs op of (r, xs) \<Rightarrow> map_option (\<lambda>(rs, xs). (r # rs, xs)) (stream_run xs ops))
      else None)"

definition buffer_inv :: "buffer \<Rightarrow> bool" where
  "buffer_inv b \<longleftrightarrow> buffer_ok b \<and> unat (bf_capacity b) \<le> 2 ^ 62"

lemma cap_after_small: "unat (bf_capacity b) \<le> 2 ^ 62 \<Longrightarrow> unat (bf_length b) + n \<le> 2 ^ 60 \<Longrightarrow> cap_after b n \<le> 2 ^ 62"
  by (simp add: cap_after_def)

lemma buf_step_refines:
  assumes inv: "buffer_inv b" and op: "buf_op_ok (contents b) op"
  shows "\<exists>b'. buf_step fresh b op = Some (fst (stream_step (contents b) op), b') \<and> buffer_inv b' \<and>
    contents b' = snd (stream_step (contents b) op)"
proof -
  have ok: "buffer_ok b" and cap: "unat (bf_capacity b) \<le> 2 ^ 62" using inv by (auto simp: buffer_inv_def)
  have len: "length (contents b) = unat (bf_length b)" by (rule contents_length [OF ok])
  have demand: "unat (bf_length b) + buf_demand op \<le> 2 ^ 60" using op len by simp
  note small = cap_after_small [OF cap demand]
  have need: "unat (bf_offset b) + unat (bf_length b) + buf_demand op \<le> 2 ^ 63"
    using buffer_ok_bound [OF ok] cap demand by simp
  show ?thesis
  proof (cases op)
    case (BAppend bs)
    have n: "unat (of_nat (length bs) :: u64) = length bs"
      using demand BAppend by (simp add: unat_of_nat take_bit_nat_eq_self)
    show ?thesis
      using append_ok [OF ok, of "of_nat (length bs)" bs True fresh] need small n BAppend
      by (auto simp: buffer_inv_def split: if_splits)
  next
    case (BErase n)
    then show ?thesis using erase_ok [OF ok, of n] cap by (simp add: buffer_inv_def buffer_erase_def)
  next
    case (BTake n)
    have "length (take (unat n) (contents b)) < 2 ^ 64" using len demand by simp
    then have "uint (of_nat (length (take (unat n) (contents b))) :: u64) = int (length (take (unat n) (contents b)))"
      by (intro uint_of_nat_small) simp
    then show ?thesis using take_ok [OF ok, of n] cap BTake by (auto simp: buffer_inv_def simp del: length_take)
  next
    case (BReserve n)
    then show ?thesis
      using buffer_expand_ok [OF ok, of n True fresh] need small by (auto simp: buffer_reserve_def buffer_inv_def)
  next
    case (BRead bs)
    have "kernel_read (unat (buffer_left b) + (if buffer_left b < MAX_BUFFER_LENGTH then 65536 else 0)) (int (length bs), bs)"
      using op BRead by (auto simp: kernel_read_def MAX_BUFFER_LENGTH_def word_less_nat_alt)
    then show ?thesis
      using readv_ok [OF ok cap, of "\<lambda>_. (int (length bs), bs)" True fresh] small BRead
      by (auto simp: buffer_readv_def buffer_inv_def split: if_splits)
  qed
qed

lemma buf_run_refines:
  assumes "buffer_inv b" and "stream_run (contents b) ops = Some (rs, xs)"
  shows "\<exists>b'. buf_run fresh b ops = Some (rs, b') \<and> buffer_inv b' \<and> contents b' = xs"
  using assms
proof (induction ops arbitrary: b rs)
  case (Cons op ops)
  have op: "buf_op_ok (contents b) op" using Cons.prems(2) by (auto split: if_splits simp del: buf_op_ok.simps)
  obtain rs1 where rs: "stream_run (snd (stream_step (contents b) op)) ops = Some (rs1, xs)"
      "rs = fst (stream_step (contents b) op) # rs1"
    using Cons.prems(2) op by (auto split: prod.splits simp del: buf_op_ok.simps)
  obtain b1 where b1: "buf_step fresh b op = Some (fst (stream_step (contents b) op), b1)" "buffer_inv b1"
      "contents b1 = snd (stream_step (contents b) op)"
    using buf_step_refines [OF Cons.prems(1) op] by blast
  obtain b2 where "buf_run fresh b1 ops = Some (rs1, b2)" "buffer_inv b2" "contents b2 = xs"
    using Cons.IH [OF b1(2)] rs(1) b1(3) by auto
  then show ?case using b1(1) rs(2) by simp
qed simp

text \<open>
  C31: The byte buffer is a byte stream.  From a new buffer, any sequence of buffer_append,
  buffer_erase, buffer_take, buffer_reserve and vectored buffer_read calls (memory available, at
  most 2^60 live bytes) returns what the operations on the stream return: appended and received
  bytes come out once, in order, however often the live bytes were moved or the block was doubled,
  and no access leaves the block.  In particular the doubling loop ends.
\<close>

theorem buffer_refines_stream:
  assumes "stream_run [] ops = Some (rs, xs)"
  shows "\<exists>b. buf_run fresh buffer_init ops = Some (rs, b) \<and> buffer_ok b \<and> contents b = xs"
proof -
  have "buffer_inv buffer_init" using init_ok by (simp add: buffer_inv_def buffer_init_def)
  then show ?thesis
    using buf_run_refines [of buffer_init ops rs xs fresh] assms init_ok by (auto simp: buffer_inv_def)
qed

theorem buffer_refines_stream_witness:
  "\<exists>b. buf_run (\<lambda>_. 0) buffer_init [BAppend [1, 2, 3], BErase 1, BRead [4, 5], BReserve 1000, BTake 3]
     = Some ([(0, []), (0, []), (2, []), (0, []), (3, [2, 3, 4])], b) \<and> buffer_ok b \<and> contents b = [5]"
  by (rule buffer_refines_stream) simp

section \<open>Asking for everything\<close>

lemma store_low32_negative: "sint (store_low32 (- 1) v) < 0"
proof -
  have "bit (store_low32 (- 1) v) 63" by (simp add: store_low32_def bit_simps)
  then show ?thesis using bit_last_iff [of "store_low32 (- 1) v"] by simp
qed

text \<open>
  With -1, which message.h documents as reading all the data of the socket, buffer_read asks
  the kernel for exactly MAX_BUFFER_LENGTH bytes, whatever FIONREAD reports: the 32-bit count is
  stored into the low half of a 64-bit -1, so the value is never positive and never used.
\<close>

theorem buffer_read_ignores_fionread:
  "buffer_read read_k fionread mem fresh b (- 1) = buffer_read read_k None mem fresh b (uint MAX_BUFFER_LENGTH)"
proof -
  have "(case fionread of Some v \<Rightarrow> let nread = sint (store_low32 (- 1) v)
                          in if nread > 0 then nread else uint MAX_BUFFER_LENGTH
              | None \<Rightarrow> uint MAX_BUFFER_LENGTH) = uint MAX_BUFFER_LENGTH"
  proof (cases fionread)
    case (Some v)
    have "\<not> 0 < sint (store_low32 (- 1) v)" using store_low32_negative [of v] by linarith
    then show ?thesis using Some by simp
  qed simp
  moreover have "uint MAX_BUFFER_LENGTH \<noteq> - 1" "uint MAX_BUFFER_LENGTH \<noteq> 0" by (simp_all add: MAX_BUFFER_LENGTH_def)
  ultimately show ?thesis
    unfolding buffer_read_def read_withsize_def by simp
qed

end
