(* ===== verification/Message.thy ===== *)
theory Message
  imports SidList
begin

text \<open>
  The message of \<^verbatim>\<open>src/message.c\<close>: the bytes to send, the list of the sessions they go to, and two
  counters of outcomes.  A message shared by several send queues is destroyed by the last one, the
  one that finds as many outcomes as receivers.  The allocator's answers are arguments:
  \<open>mem1\<close> and \<open>mem2\<close> for \<open>sidlist_create\<close>, \<open>mem\<close> for the growth of the list or of the buffer.
\<close>

record message =
  msg_nsuccess :: i32
  msg_nfailure :: i32
  msg_buffer :: "byte list option"
  msg_length :: u64
  msg_tolist :: "sidlist option"

definition message_create :: "bool \<Rightarrow> message option" where
  "message_create mem = (if mem then Some \<lparr>msg_nsuccess = 0, msg_nfailure = 0, msg_buffer = None,
     msg_length = 0, msg_tolist = None\<rparr> else None)"

definition message_add_receiver ::
  "bool \<Rightarrow> bool \<Rightarrow> bool \<Rightarrow> (nat \<Rightarrow> sid) \<Rightarrow> message \<Rightarrow> sid \<Rightarrow> (int \<times> message) option" where
  "message_add_receiver mem1 mem2 mem fresh self sd =
     (let self = (case msg_tolist self of
                    None \<Rightarrow> self\<lparr>msg_tolist := sidlist_create mem1 mem2 fresh 8\<rparr> | Some _ \<Rightarrow> self)
      in case msg_tolist self of
           None \<Rightarrow> Some (- 1, self)
         | Some l \<Rightarrow> do {
             (rc, l) \<leftarrow> sidlist_add mem fresh l sd;
             Some (rc, self\<lparr>msg_tolist := Some l\<rparr>)
           })"

definition message_add_receivers ::
  "bool \<Rightarrow> bool \<Rightarrow> bool \<Rightarrow> (nat \<Rightarrow> sid) \<Rightarrow> message \<Rightarrow> sid list \<Rightarrow> u32 \<Rightarrow> (int \<times> message) option" where
  "message_add_receivers mem1 mem2 mem fresh self ids n =
     (let self = (case msg_tolist self of
                    None \<Rightarrow> self\<lparr>msg_tolist := sidlist_create mem1 mem2 fresh n\<rparr> | Some _ \<Rightarrow> self)
      in case msg_tolist self of
           None \<Rightarrow> Some (- 1, self)
         | Some l \<Rightarrow> do {
             (rc, l) \<leftarrow> sidlist_adds mem fresh l ids n;
             Some (rc, self\<lparr>msg_tolist := Some l\<rparr>)
           })"

definition message_set_receivers :: "message \<Rightarrow> sidlist option \<Rightarrow> int \<times> message" where
  "message_set_receivers self ids = (0, self\<lparr>msg_tolist := ids\<rparr>)"

definition message_reserve_receivers ::
  "bool \<Rightarrow> bool \<Rightarrow> bool \<Rightarrow> (nat \<Rightarrow> sid) \<Rightarrow> message \<Rightarrow> u32 \<Rightarrow> (int \<times> message) option" where
  "message_reserve_receivers mem1 mem2 mem fresh self n =
     (let n = (case msg_tolist self of None \<Rightarrow> n | Some l \<Rightarrow> n + sl_count l)
      in case sidlist_create mem1 mem2 fresh n of
           None \<Rightarrow> Some (- 1, self)
         | Some tolist \<Rightarrow> do {
             tolist \<leftarrow> (case msg_tolist self of
                          None \<Rightarrow> Some tolist
                        | Some l \<Rightarrow> map_option snd (sidlist_append mem fresh tolist l));
             Some (0, self\<lparr>msg_tolist := Some tolist\<rparr>)
           })"

definition message_set_buffer :: "message \<Rightarrow> byte list option \<Rightarrow> u64 \<Rightarrow> int \<times> message" where
  "message_set_buffer self buf len = (0, self\<lparr>msg_length := len, msg_buffer := buf\<rparr>)"

text \<open>A failed \<^verbatim>\<open>malloc\<close> is only asserted on, so the copy that follows faults.\<close>

definition message_add_buffer :: "bool \<Rightarrow> message \<Rightarrow> byte list \<Rightarrow> u64 \<Rightarrow> (int \<times> message) option" where
  "message_add_buffer mem self buf len =
     (if unat len \<le> length buf \<and> (mem \<or> len = 0)
      then Some (0, self\<lparr>msg_length := len, msg_buffer := (if mem then Some (take (unat len) buf) else None)\<rparr>)
      else None)"

definition message_add_failure :: "message \<Rightarrow> message" where
  "message_add_failure self = self\<lparr>msg_nfailure := msg_nfailure self + 1\<rparr>"

definition message_add_success :: "message \<Rightarrow> message" where
  "message_add_success self = self\<lparr>msg_nsuccess := msg_nsuccess self + 1\<rparr>"

definition message_is_complete :: "message \<Rightarrow> bool" where
  "message_is_complete self \<longleftrightarrow>
     (case msg_tolist self of None \<Rightarrow> 0 | Some l \<Rightarrow> sl_count l) = msg_nsuccess self + msg_nfailure self"

definition message_get_buffer :: "message \<Rightarrow> byte list option" where
  "message_get_buffer self = msg_buffer self"

definition message_get_length :: "message \<Rightarrow> u64" where
  "message_get_length self = msg_length self"

section \<open>Receivers and outcomes\<close>

definition receivers :: "message \<Rightarrow> sid list" where
  "receivers m = (case msg_tolist m of None \<Rightarrow> [] | Some l \<Rightarrow> sids l)"

definition message_ok :: "message \<Rightarrow> bool" where
  "message_ok m \<longleftrightarrow> (case msg_tolist m of None \<Rightarrow> True | Some l \<Rightarrow> sidlist_ok l)"

text \<open>The number of outcomes recorded so far, as the counters hold it.\<close>

definition outcomes :: "message \<Rightarrow> nat" where
  "outcomes m = unat (msg_nsuccess m + msg_nfailure m)"

lemma receivers_length:
  "message_ok m \<Longrightarrow> length (receivers m) = unat (case msg_tolist m of None \<Rightarrow> 0 | Some l \<Rightarrow> sl_count l)"
  by (auto simp: message_ok_def receivers_def sids_length split: option.splits)

lemma complete_iff: "message_ok m \<Longrightarrow> message_is_complete m \<longleftrightarrow> outcomes m = length (receivers m)"
  by (simp add: message_is_complete_def outcomes_def receivers_length word_unat_eq_iff eq_commute)

lemma add_receiver_ok:
  assumes ok: "message_ok m" and n: "length (receivers m) < 2 ^ 31"
  shows "\<exists>m'. message_add_receiver True True True fresh m sd = Some (0, m') \<and> message_ok m' \<and>
    receivers m' = receivers m @ [sd] \<and> outcomes m' = outcomes m"
proof -
  define l where "l = (case msg_tolist m of None \<Rightarrow> the (sidlist_create True True fresh 8) | Some l \<Rightarrow> l)"
  have l: "sidlist_ok l" "sids l = receivers m"
    using ok sidlist_create_ok [of fresh 8] by (auto simp: l_def message_ok_def receivers_def split: option.splits)
  then obtain l' where "sidlist_add True fresh l sd = Some (0, l')" "sidlist_ok l'" "sids l' = receivers m @ [sd]"
    using sidlist_add_list [OF l(1), of fresh sd] n sids_length [OF l(1)] by auto
  then show ?thesis
    using sidlist_create_ok [of fresh 8]
    by (intro exI [of _ "m\<lparr>msg_tolist := Some l'\<rparr>"])
      (auto simp: message_add_receiver_def message_ok_def receivers_def outcomes_def l_def Let_def split: option.splits)
qed

lemma add_receivers_ok:
  assumes ok: "message_ok m" and n: "length (receivers m) + unat k < 2 ^ 32" "unat k \<le> length ids"
  shows "\<exists>m'. message_add_receivers True True True fresh m ids k = Some (0, m') \<and> message_ok m' \<and>
    receivers m' = receivers m @ take (unat k) ids \<and> outcomes m' = outcomes m"
proof -
  define l where "l = (case msg_tolist m of None \<Rightarrow> the (sidlist_create True True fresh k) | Some l \<Rightarrow> l)"
  have l: "sidlist_ok l" "sids l = receivers m"
    using ok sidlist_create_ok [of fresh k] by (auto simp: l_def message_ok_def receivers_def split: option.splits)
  then obtain l' where "sidlist_adds True fresh l ids k = Some (0, l')" "sidlist_ok l'"
      "sids l' = receivers m @ take (unat k) ids"
    using sidlist_adds_list [OF l(1) _ n(2), of fresh] n(1) sids_length [OF l(1)] by auto
  then show ?thesis
    using sidlist_create_ok [of fresh k]
    by (intro exI [of _ "m\<lparr>msg_tolist := Some l'\<rparr>"])
      (auto simp: message_add_receivers_def message_ok_def receivers_def outcomes_def l_def Let_def split: option.splits)
qed

lemma reserve_receivers_ok:
  assumes ok: "message_ok m"
  shows "\<exists>m'. message_reserve_receivers True True True fresh m k = Some (0, m') \<and> message_ok m' \<and>
    receivers m' = receivers m \<and> outcomes m' = outcomes m"
proof (cases "msg_tolist m")
  case None
  then show ?thesis
    using sidlist_create_ok [of fresh k]
    by (auto simp: message_reserve_receivers_def message_ok_def receivers_def outcomes_def Let_def)
next
  case (Some l)
  obtain t where t: "sidlist_create True True fresh (k + sl_count l) = Some t" "sidlist_ok t" "sids t = []"
    using sidlist_create_ok by blast
  have l: "sidlist_ok l" using ok Some by (simp add: message_ok_def)
  have "unat (sl_count t) = 0" using sids_length [OF t(2)] t(3) by simp
  moreover have "unat (sl_count l) < 2 ^ LENGTH(32)" by (rule unsigned_less)
  ultimately obtain t' where "sidlist_append True fresh t l = Some (0, t')" "sidlist_ok t'" "sids t' = sids l"
    using sidlist_append_list [OF t(2) l, of fresh] t(3) by auto
  then show ?thesis
    using Some t(1) by (simp add: message_reserve_receivers_def message_ok_def receivers_def outcomes_def)
qed

lemma outcome_ok:
  assumes "outcomes m + 1 < 2 ^ 32"
  shows "outcomes (message_add_success m) = outcomes m + 1" "outcomes (message_add_failure m) = outcomes m + 1"
proof -
  have *: "unat (msg_nsuccess m + msg_nfailure m + 1) = unat (msg_nsuccess m + msg_nfailure m) + 1"
    using unat_Suc_of_nat [of "msg_nsuccess m + msg_nfailure m" 1] assms by (simp add: outcomes_def)
  show "outcomes (message_add_success m) = outcomes m + 1"
    using * by (simp add: outcomes_def message_add_success_def ac_simps)
  show "outcomes (message_add_failure m) = outcomes m + 1"
    using * by (simp add: outcomes_def message_add_failure_def ac_simps)
qed

section \<open>The life of a message\<close>

datatype msg_op = AddReceiver sid | AddReceivers "sid list" | ReserveReceivers u32 | Success | Failure sid

fun msg_step :: "(nat \<Rightarrow> sid) \<Rightarrow> message \<Rightarrow> msg_op \<Rightarrow> message option" where
  "msg_step fresh m (AddReceiver sd) = map_option snd (message_add_receiver True True True fresh m sd)"
| "msg_step fresh m (AddReceivers ids) =
     map_option snd (message_add_receivers True True True fresh m ids (of_nat (length ids)))"
| "msg_step fresh m (ReserveReceivers k) = map_option snd (message_reserve_receivers True True True fresh m k)"
| "msg_step fresh m Success = Some (message_add_success m)"
| "msg_step fresh m (Failure sd) = Some (message_add_failure m)"

fun msg_run :: "(nat \<Rightarrow> sid) \<Rightarrow> message \<Rightarrow> msg_op list \<Rightarrow> message option" where
  "msg_run fresh m [] = Some m"
| "msg_run fresh m (op # ops) = do { m \<leftarrow> msg_step fresh m op; msg_run fresh m ops }"

fun op_receivers :: "msg_op \<Rightarrow> sid list" where
  "op_receivers (AddReceiver sd) = [sd]"
| "op_receivers (AddReceivers ids) = ids"
| "op_receivers _ = []"

fun op_outcomes :: "msg_op \<Rightarrow> nat" where
  "op_outcomes Success = 1" | "op_outcomes (Failure sd) = 1" | "op_outcomes _ = 0"

lemma msg_step_ok:
  assumes "message_ok m" and "length (receivers m) + length (op_receivers op) \<le> 2 ^ 31"
    and "outcomes m + op_outcomes op < 2 ^ 32"
  shows "\<exists>m'. msg_step fresh m op = Some m' \<and> message_ok m' \<and> receivers m' = receivers m @ op_receivers op \<and>
    outcomes m' = outcomes m + op_outcomes op"
proof (cases op)
  case (AddReceivers ids)
  then have n: "unat (of_nat (length ids) :: u32) = length ids"
    using assms(2) by (simp add: unat_of_nat take_bit_nat_eq_self)
  then show ?thesis
    using add_receivers_ok [OF assms(1), of "of_nat (length ids)" ids fresh] assms(2) AddReceivers by auto
next
  case (ReserveReceivers k)
  then show ?thesis using reserve_receivers_ok [OF assms(1), of fresh k] by auto
next
  case (AddReceiver sd)
  then show ?thesis using add_receiver_ok [OF assms(1), of fresh sd] assms(2) by auto
qed (use outcome_ok [of m] assms in
  \<open>simp_all add: message_ok_def receivers_def message_add_success_def message_add_failure_def\<close>)

lemma msg_run_ok:
  assumes "message_ok m" and "length (receivers m) + length (concat (map op_receivers ops)) \<le> 2 ^ 31"
    and "outcomes m + sum_list (map op_outcomes ops) < 2 ^ 32"
  shows "\<exists>m'. msg_run fresh m ops = Some m' \<and> message_ok m' \<and>
    receivers m' = receivers m @ concat (map op_receivers ops) \<and>
    outcomes m' = outcomes m + sum_list (map op_outcomes ops)"
  using assms
proof (induction ops arbitrary: m)
  case (Cons op ops)
  obtain m1 where m1: "msg_step fresh m op = Some m1" "message_ok m1" "receivers m1 = receivers m @ op_receivers op"
      "outcomes m1 = outcomes m + op_outcomes op"
    using msg_step_ok [OF Cons.prems(1), of op fresh] Cons.prems(2,3) by auto
  then show ?case using Cons.IH [OF m1(2)] Cons.prems(2,3) by auto
qed simp

text \<open>
  C32: A message is complete exactly when every receiver has had its outcome.  From a new message,
  any sequence of message_add_receiver, message_add_receivers, message_reserve_receivers and
  recorded successes and failures (up to 2^31 receivers, memory available) never faults, collects
  the receivers in order, and message_is_complete holds at the end if and only if as many outcomes
  as receivers were recorded; so the holder that destroys a complete message is the last one, and
  one outcome recorded twice makes the message look complete one holder too early.
\<close>

theorem message_complete_iff_all_outcomes:
  assumes "message_create True = Some m" and "length (concat (map op_receivers ops)) \<le> 2 ^ 31"
    and "sum_list (map op_outcomes ops) < 2 ^ 32"
  shows "\<exists>m'. msg_run fresh m ops = Some m' \<and> receivers m' = concat (map op_receivers ops) \<and>
    (message_is_complete m' \<longleftrightarrow> sum_list (map op_outcomes ops) = length (concat (map op_receivers ops)))"
proof -
  have m: "message_ok m" "receivers m = []" "outcomes m = 0"
    using assms(1) by (auto simp: message_create_def message_ok_def receivers_def outcomes_def)
  then show ?thesis using msg_run_ok [of m ops fresh] assms(2,3) complete_iff by auto
qed

definition message_example :: message where
  "message_example = \<lparr>msg_nsuccess = 0, msg_nfailure = 0, msg_buffer = None, msg_length = 0, msg_tolist = None\<rparr>"

theorem message_complete_iff_all_outcomes_witness:
  "\<exists>m'. msg_run (\<lambda>_. 0) message_example [ReserveReceivers 2, AddReceivers [7, 8], Success, Failure 8] = Some m' \<and>
    receivers m' = concat (map op_receivers [ReserveReceivers 2, AddReceivers [7, 8], Success, Failure 8]) \<and>
    (message_is_complete m' \<longleftrightarrow>
      sum_list (map op_outcomes [ReserveReceivers 2, AddReceivers [7, 8], Success, Failure 8]) =
      length (concat (map op_receivers [ReserveReceivers 2, AddReceivers [7, 8], Success, Failure 8])))"
  by (rule message_complete_iff_all_outcomes) (simp_all add: message_create_def message_example_def)

end
