(* ===== verification/EventCore.thy ===== *)
theory EventCore
  imports Prelude
begin

text \<open>
  Events and the lists they are on (\<^verbatim>\<open>src/event-internal.h\<close>, the first half of \<^verbatim>\<open>src/event.c\<close> and
  the insertion and removal of \<^verbatim>\<open>src/timer.c\<close>).

  The memory of one event set is a record: its events are a store from event pointers to their
  fields, its three kinds of intrusive lists (all events, active events, timer buckets) are lists
  of pointers.  The tail queue development shows that the \<^verbatim>\<open>TAILQ\<close> macros are these list operations
  as long as an element that is inserted is on no list of its link field and an element that is
  removed is on the list; a call outside this contract corrupts memory, so here it is a fault.
\<close>

section \<open>Flags\<close>

definition EV_READ :: u16 where "EV_READ = 0x01"
definition EV_WRITE :: u16 where "EV_WRITE = 0x02"
definition EV_TIMEOUT :: u16 where "EV_TIMEOUT = 0x04"
definition EV_PERSIST :: u16 where "EV_PERSIST = 0x08"

definition EVSTATUS_INSERTED :: i32 where "EVSTATUS_INSERTED = 0x01"
definition EVSTATUS_TIMER :: i32 where "EVSTATUS_TIMER = 0x02"
definition EVSTATUS_ACTIVE :: i32 where "EVSTATUS_ACTIVE = 0x04"
definition EVSTATUS_INTERNAL :: i32 where "EVSTATUS_INTERNAL = 0x10"
definition EVSTATUS_INIT :: i32 where "EVSTATUS_INIT = 0x20"
definition EVSTATUS_ALL :: i32 where "EVSTATUS_ALL = 0x0f00 OR 0x37"

definition TIMER_BUCKET_COUNT :: i32 where "TIMER_BUCKET_COUNT = 8192"

text \<open>A flag test of C.\<close>

definition has :: "'a::len word \<Rightarrow> 'a word \<Rightarrow> bool" where
  "has s f \<longleftrightarrow> s AND f \<noteq> 0"

section \<open>State\<close>

record 'cb event =
  ev_fd :: i32
  ev_events :: u16
  ev_status :: i32
  ev_results :: i32
  ev_cb :: "'cb option"
  ev_evsets :: bool
  ev_timer_msecs :: i32
  ev_timer_index :: i32
  ev_timer_stepcnt :: i32

record 'e evtimer =
  et_event_count :: i32
  et_bucket_count :: i32
  et_max_precision :: i32
  et_dispatch_refer :: i32
  et_buckets :: "'e list list"

record ('e, 'cb, 'p) eventset =
  es_timer_precision :: i32
  es_expire_time :: int
  es_cache_current :: int
  es_timer :: "'e evtimer"
  es_poll :: 'p
  es_eventlist :: "'e list"
  es_activelist :: "'e list"
  es_events :: "'e \<Rightarrow> 'cb event"

abbreviation set_event :: "'e \<Rightarrow> 'cb event \<Rightarrow> ('e, 'cb, 'p) eventset \<Rightarrow> ('e, 'cb, 'p) eventset" where
  "set_event e ev S \<equiv> S\<lparr>es_events := (es_events S)(e := ev)\<rparr>"

abbreviation event_at :: "('e, 'cb, 'p) eventset \<Rightarrow> 'e \<Rightarrow> 'cb event" where
  "event_at S e \<equiv> es_events S e"

section \<open>Lists by their contract\<close>

definition insert_tail :: "'e \<Rightarrow> 'e list \<Rightarrow> 'e list option" where
  "insert_tail e xs = (if e \<in> set xs then None else Some (xs @ [e]))"

definition remove_elem :: "'e \<Rightarrow> 'e list \<Rightarrow> 'e list option" where
  "remove_elem e xs = (if e \<in> set xs then Some (remove1 e xs) else None)"

text \<open>All buckets share one link field, so an insertion needs the event to be in none of them.\<close>

definition bucket_insert_tail :: "'e \<Rightarrow> nat \<Rightarrow> 'e list list \<Rightarrow> 'e list list option" where
  "bucket_insert_tail e i bs =
     (if i < length bs \<and> list_all (\<lambda>b. e \<notin> set b) bs then Some (bs[i := bs ! i @ [e]]) else None)"

definition bucket_remove :: "'e \<Rightarrow> nat \<Rightarrow> 'e list list \<Rightarrow> 'e list list option" where
  "bucket_remove e i bs =
     (if i < length bs \<and> e \<in> set (bs ! i) then Some (bs[i := remove1 e (bs ! i)]) else None)"

section \<open>Creation of events\<close>

definition event_create :: "'cb event" where
  "event_create = \<lparr>ev_fd = - 1, ev_events = 0, ev_status = EVSTATUS_INIT, ev_results = 0, ev_cb = None,
     ev_evsets = False, ev_timer_msecs = - 1, ev_timer_index = - 1, ev_timer_stepcnt = - 1\<rparr>"

definition event_set :: "'cb event \<Rightarrow> i32 \<Rightarrow> u16 \<Rightarrow> 'cb event" where
  "event_set self fd ev = self\<lparr>ev_fd := fd, ev_events := ev\<rparr>"

definition event_set_callback :: "'cb event \<Rightarrow> 'cb option \<Rightarrow> 'cb event" where
  "event_set_callback self cb = self\<lparr>ev_cb := cb\<rparr>"

definition event_get_fd :: "'cb event \<Rightarrow> i32" where
  "event_get_fd self = ev_fd self"

section \<open>The timer's lists\<close>

definition EVTIMER_INDEX :: "'e evtimer \<Rightarrow> i32 \<Rightarrow> i32" where
  "EVTIMER_INDEX t c = c AND (et_bucket_count t - 1)"

definition evtimer_create :: "bool \<Rightarrow> bool \<Rightarrow> i32 \<Rightarrow> i32 \<Rightarrow> 'e evtimer option" where
  "evtimer_create mem1 mem2 max_precision bucket_count =
     (if \<not> mem1 then None
      else if \<not> mem2 then None
      else Some \<lparr>et_event_count = 0, et_bucket_count = bucket_count, et_max_precision = max_precision,
             et_dispatch_refer = 0, et_buckets = replicate (unat bucket_count) []\<rparr>)"

definition evtimer_count :: "'e evtimer \<Rightarrow> i32" where
  "evtimer_count self = et_event_count self"

text \<open>Division and remainder of two \<^verbatim>\<open>int32_t\<close>; a zero divisor is a fault.\<close>

definition div32 :: "i32 \<Rightarrow> i32 \<Rightarrow> i32 option" where
  "div32 a b = (if b = 0 then None else Some (of_int (trunc_div (sint a) (sint b))))"

definition mod32 :: "i32 \<Rightarrow> i32 \<Rightarrow> i32 option" where
  "mod32 a b = (if b = 0 then None else Some (of_int (trunc_mod (sint a) (sint b))))"

definition evtimer_append :: "('e, 'cb, 'p) eventset \<Rightarrow> 'e \<Rightarrow> (int \<times> ('e, 'cb, 'p) eventset) option" where
  "evtimer_append S e = do {
     let self = es_timer S;
     let ev = event_at S e;
     let tv = ev_timer_msecs ev;
     let index = et_dispatch_refer self - 1;
     (if sint tv < 0 then Some (- 1, S)
      else do {
        let tv = (if sint tv < sint (et_max_precision self) then et_max_precision self else tv);
        q \<leftarrow> div32 tv (et_max_precision self);
        let index = EVTIMER_INDEX self (index + q);
        let cycle = et_max_precision self * et_bucket_count self;
        stepcnt \<leftarrow> div32 tv cycle;
        rest \<leftarrow> mod32 tv cycle;
        let stepcnt = (if rest \<noteq> 0 then stepcnt + 1 else stepcnt);
        let S = set_event e (ev\<lparr>ev_timer_index := index, ev_timer_stepcnt := stepcnt\<rparr>) S;
        bs \<leftarrow> bucket_insert_tail e (unat index) (et_buckets self);
        Some (0, S\<lparr>es_timer := self\<lparr>et_event_count := et_event_count self + 1, et_buckets := bs\<rparr>\<rparr>)
      })
   }"

definition evtimer_remove :: "('e, 'cb, 'p) eventset \<Rightarrow> 'e \<Rightarrow> (int \<times> ('e, 'cb, 'p) eventset) option" where
  "evtimer_remove S e = do {
     let self = es_timer S;
     let ev = event_at S e;
     let index = ev_timer_index ev;
     (if sint index < 0 \<or> sint index \<ge> sint (et_bucket_count self) then Some (- 1, S)
      else do {
        let S = set_event e (ev\<lparr>ev_timer_index := - 1, ev_timer_stepcnt := - 1\<rparr>) S;
        bs \<leftarrow> bucket_remove e (unat index) (et_buckets self);
        Some (0, S\<lparr>es_timer := self\<lparr>et_event_count := et_event_count self - 1, et_buckets := bs\<rparr>\<rparr>)
      })
   }"

section \<open>The event queues\<close>

definition event_queue_insert ::
  "('e, 'cb, 'p) eventset \<Rightarrow> 'e \<Rightarrow> i32 \<Rightarrow> (int \<times> ('e, 'cb, 'p) eventset) option" where
  "event_queue_insert S e typ =
     (let ev = event_at S e
      in if has (ev_status ev) typ then Some (1, S)
         else
           let S = set_event e (ev\<lparr>ev_status := ev_status ev OR typ\<rparr>) S
           in if typ = EVSTATUS_INSERTED
              then map_option (\<lambda>l. (0, S\<lparr>es_eventlist := l\<rparr>)) (insert_tail e (es_eventlist S))
              else if typ = EVSTATUS_ACTIVE
              then map_option (\<lambda>l. (0, S\<lparr>es_activelist := l\<rparr>)) (insert_tail e (es_activelist S))
              else if typ = EVSTATUS_TIMER
              then map_option (\<lambda>(_, S). (0, S)) (evtimer_append S e)
              else Some (- 1, S))"

definition event_queue_remove ::
  "('e, 'cb, 'p) eventset \<Rightarrow> 'e \<Rightarrow> i32 \<Rightarrow> (int \<times> ('e, 'cb, 'p) eventset) option" where
  "event_queue_remove S e typ =
     (let ev = event_at S e
      in if \<not> has (ev_status ev) typ then Some (- 1, S)
         else
           let S = set_event e (ev\<lparr>ev_status := ev_status ev AND NOT typ\<rparr>) S
           in if typ = EVSTATUS_INSERTED
              then map_option (\<lambda>l. (0, S\<lparr>es_eventlist := l\<rparr>)) (remove_elem e (es_eventlist S))
              else if typ = EVSTATUS_ACTIVE
              then map_option (\<lambda>l. (0, S\<lparr>es_activelist := l\<rparr>)) (remove_elem e (es_activelist S))
              else if typ = EVSTATUS_TIMER
              then map_option (\<lambda>(_, S). (0, S)) (evtimer_remove S e)
              else Some (- 2, S))"

text \<open>The event must belong to the set whose lists it is put on.\<close>

definition event_active ::
  "('e, 'cb, 'p) eventset \<Rightarrow> 'e \<Rightarrow> u16 \<Rightarrow> (int \<times> ('e, 'cb, 'p) eventset) option" where
  "event_active S e res =
     (let ev = event_at S e
      in if has (ev_status ev) EVSTATUS_ACTIVE
         then Some (1, set_event e (ev\<lparr>ev_results := ev_results ev OR scast res\<rparr>) S)
         else if \<not> ev_evsets ev then None
         else map_option (\<lambda>(_, S). (0, S))
                (event_queue_insert (set_event e (ev\<lparr>ev_results := scast res\<rparr>) S) e EVSTATUS_ACTIVE))"

section \<open>Status bits\<close>

lemma has_bit:
  "has s EVSTATUS_INSERTED \<longleftrightarrow> bit s 0" "has s EVSTATUS_TIMER \<longleftrightarrow> bit s 1" "has s EVSTATUS_ACTIVE \<longleftrightarrow> bit s 2"
proof -
  have "has s (2 ^ n) \<longleftrightarrow> bit s n" for n by (simp add: has_def and_exp_eq_0_iff_not_bit)
  from this [of 0] this [of 1] this [of 2]
  show "has s EVSTATUS_INSERTED \<longleftrightarrow> bit s 0" "has s EVSTATUS_TIMER \<longleftrightarrow> bit s 1" "has s EVSTATUS_ACTIVE \<longleftrightarrow> bit s 2"
    by (simp_all add: EVSTATUS_INSERTED_def EVSTATUS_TIMER_def EVSTATUS_ACTIVE_def)
qed

lemma has_or: "has s (a OR b) \<longleftrightarrow> has s a \<or> has s b"
  by (auto simp: has_def bit_eq_iff bit_simps)

lemma status_exp: "EVSTATUS_INSERTED = 2 ^ 0" "EVSTATUS_TIMER = 2 ^ 1" "EVSTATUS_ACTIVE = 2 ^ 2"
  by (simp_all add: EVSTATUS_INSERTED_def EVSTATUS_TIMER_def EVSTATUS_ACTIVE_def)

lemma status_distinct [simp]:
  "EVSTATUS_INSERTED \<noteq> EVSTATUS_TIMER" "EVSTATUS_TIMER \<noteq> EVSTATUS_INSERTED"
  "EVSTATUS_INSERTED \<noteq> EVSTATUS_ACTIVE" "EVSTATUS_ACTIVE \<noteq> EVSTATUS_INSERTED"
  "EVSTATUS_TIMER \<noteq> EVSTATUS_ACTIVE" "EVSTATUS_ACTIVE \<noteq> EVSTATUS_TIMER"
  by (simp_all add: status_exp)

lemma status_bits:
  "bit EVSTATUS_INSERTED m \<longleftrightarrow> m = 0" "bit EVSTATUS_TIMER m \<longleftrightarrow> m = 1" "bit EVSTATUS_ACTIVE m \<longleftrightarrow> m = 2"
  unfolding status_exp bit_exp_iff by (auto simp: possible_bit_word)

text \<open>Setting and clearing one of the three list bits leaves the other two.\<close>

lemma has_set_clear [simp]:
  "has (s OR EVSTATUS_INSERTED) EVSTATUS_INSERTED" "has (s OR EVSTATUS_TIMER) EVSTATUS_TIMER"
  "has (s OR EVSTATUS_ACTIVE) EVSTATUS_ACTIVE"
  "has (s OR EVSTATUS_INSERTED) EVSTATUS_TIMER \<longleftrightarrow> has s EVSTATUS_TIMER"
  "has (s OR EVSTATUS_INSERTED) EVSTATUS_ACTIVE \<longleftrightarrow> has s EVSTATUS_ACTIVE"
  "has (s OR EVSTATUS_TIMER) EVSTATUS_INSERTED \<longleftrightarrow> has s EVSTATUS_INSERTED"
  "has (s OR EVSTATUS_TIMER) EVSTATUS_ACTIVE \<longleftrightarrow> has s EVSTATUS_ACTIVE"
  "has (s OR EVSTATUS_ACTIVE) EVSTATUS_INSERTED \<longleftrightarrow> has s EVSTATUS_INSERTED"
  "has (s OR EVSTATUS_ACTIVE) EVSTATUS_TIMER \<longleftrightarrow> has s EVSTATUS_TIMER"
  "\<not> has (s AND NOT EVSTATUS_INSERTED) EVSTATUS_INSERTED" "\<not> has (s AND NOT EVSTATUS_TIMER) EVSTATUS_TIMER"
  "\<not> has (s AND NOT EVSTATUS_ACTIVE) EVSTATUS_ACTIVE"
  "has (s AND NOT EVSTATUS_INSERTED) EVSTATUS_TIMER \<longleftrightarrow> has s EVSTATUS_TIMER"
  "has (s AND NOT EVSTATUS_INSERTED) EVSTATUS_ACTIVE \<longleftrightarrow> has s EVSTATUS_ACTIVE"
  "has (s AND NOT EVSTATUS_TIMER) EVSTATUS_INSERTED \<longleftrightarrow> has s EVSTATUS_INSERTED"
  "has (s AND NOT EVSTATUS_TIMER) EVSTATUS_ACTIVE \<longleftrightarrow> has s EVSTATUS_ACTIVE"
  "has (s AND NOT EVSTATUS_ACTIVE) EVSTATUS_INSERTED \<longleftrightarrow> has s EVSTATUS_INSERTED"
  "has (s AND NOT EVSTATUS_ACTIVE) EVSTATUS_TIMER \<longleftrightarrow> has s EVSTATUS_TIMER"
  by (simp_all add: has_bit bit_or_iff bit_and_iff bit_not_iff status_bits)

text \<open>The reserved status bits.\<close>

lemma reserved_bits [simp]:
  "has (s OR EVSTATUS_INSERTED) (NOT EVSTATUS_ALL) \<longleftrightarrow> has s (NOT EVSTATUS_ALL)"
  "has (s OR EVSTATUS_TIMER) (NOT EVSTATUS_ALL) \<longleftrightarrow> has s (NOT EVSTATUS_ALL)"
  "has (s OR EVSTATUS_ACTIVE) (NOT EVSTATUS_ALL) \<longleftrightarrow> has s (NOT EVSTATUS_ALL)"
  "has (s AND NOT EVSTATUS_INSERTED) (NOT EVSTATUS_ALL) \<longleftrightarrow> has s (NOT EVSTATUS_ALL)"
  "has (s AND NOT EVSTATUS_TIMER) (NOT EVSTATUS_ALL) \<longleftrightarrow> has s (NOT EVSTATUS_ALL)"
  "has (s AND NOT EVSTATUS_ACTIVE) (NOT EVSTATUS_ALL) \<longleftrightarrow> has s (NOT EVSTATUS_ALL)"
proof -
  have or: "(s OR f) AND NOT EVSTATUS_ALL = s AND NOT EVSTATUS_ALL" if "f AND EVSTATUS_ALL = f" for f
  proof (rule bit_word_eqI)
    fix n
    have "bit f n \<Longrightarrow> bit EVSTATUS_ALL n" using that by (metis bit_and_iff)
    then show "bit ((s OR f) AND NOT EVSTATUS_ALL) n \<longleftrightarrow> bit (s AND NOT EVSTATUS_ALL) n"
      by (auto simp: bit_and_iff bit_or_iff bit_not_iff)
  qed
  have nt: "(s AND NOT f) AND NOT EVSTATUS_ALL = s AND NOT EVSTATUS_ALL" if "f AND EVSTATUS_ALL = f" for f
  proof (rule bit_word_eqI)
    fix n
    have "bit f n \<Longrightarrow> bit EVSTATUS_ALL n" using that by (metis bit_and_iff)
    then show "bit ((s AND NOT f) AND NOT EVSTATUS_ALL) n \<longleftrightarrow> bit (s AND NOT EVSTATUS_ALL) n"
      by (auto simp: bit_and_iff bit_not_iff)
  qed
  have "EVSTATUS_INSERTED AND EVSTATUS_ALL = EVSTATUS_INSERTED" "EVSTATUS_TIMER AND EVSTATUS_ALL = EVSTATUS_TIMER"
    "EVSTATUS_ACTIVE AND EVSTATUS_ALL = EVSTATUS_ACTIVE"
    by (simp_all add: EVSTATUS_ALL_def EVSTATUS_INSERTED_def EVSTATUS_TIMER_def EVSTATUS_ACTIVE_def)
  note f = this
  show "has (s OR EVSTATUS_INSERTED) (NOT EVSTATUS_ALL) \<longleftrightarrow> has s (NOT EVSTATUS_ALL)"
    "has (s OR EVSTATUS_TIMER) (NOT EVSTATUS_ALL) \<longleftrightarrow> has s (NOT EVSTATUS_ALL)"
    "has (s OR EVSTATUS_ACTIVE) (NOT EVSTATUS_ALL) \<longleftrightarrow> has s (NOT EVSTATUS_ALL)"
    "has (s AND NOT EVSTATUS_INSERTED) (NOT EVSTATUS_ALL) \<longleftrightarrow> has s (NOT EVSTATUS_ALL)"
    "has (s AND NOT EVSTATUS_TIMER) (NOT EVSTATUS_ALL) \<longleftrightarrow> has s (NOT EVSTATUS_ALL)"
    "has (s AND NOT EVSTATUS_ACTIVE) (NOT EVSTATUS_ALL) \<longleftrightarrow> has s (NOT EVSTATUS_ALL)"
    unfolding has_def by (simp_all only: or [OF f(1)] or [OF f(2)] or [OF f(3)] nt [OF f(1)] nt [OF f(2)] nt [OF f(3)])
qed

end
