(* ===== verification/TimerWheel.thy ===== *)
theory TimerWheel
  imports EventCore
begin

text \<open>
  The timing wheel of \<^verbatim>\<open>src/timer.c\<close>.  A timer sits in one of a power of two of buckets with a count
  of revolutions; every dispatch looks at the next bucket, fires the timers whose count runs out and
  decrements the others.  The abstract view is a map from timers to the number of dispatches until
  they fire: appending sets it, a dispatch fires the ones at 1 and decrements all others.
\<close>

section \<open>Dispatch\<close>

text \<open>
  The loop takes the first timer of the bucket until it has met the one that was last at the start.
  Timers that are kept go to the tail of the same bucket.
\<close>

fun dispatch_loop ::
  "nat \<Rightarrow> nat \<Rightarrow> 'e \<Rightarrow> int \<Rightarrow> ('e, 'cb, 'p) eventset \<Rightarrow> (int \<times> ('e, 'cb, 'p) eventset) option" where
  "dispatch_loop 0 h laster rc S = None"
| "dispatch_loop (Suc fuel) h laster rc S = do {
     head \<leftarrow> arr_get (et_buckets (es_timer S)) h;
     ev \<leftarrow> (case head of [] \<Rightarrow> None | e # _ \<Rightarrow> Some e);
     let finished = (ev = laster);
     let S = set_event ev ((event_at S ev)\<lparr>ev_timer_stepcnt := ev_timer_stepcnt (event_at S ev) - 1\<rparr>) S;
     let step = sint (ev_timer_stepcnt (event_at S ev));
     (rc, S) \<leftarrow>
       (if step > 0
        then do {
          bs \<leftarrow> bucket_remove ev h (et_buckets (es_timer S));
          bs \<leftarrow> bucket_insert_tail ev h bs;
          Some (rc, S\<lparr>es_timer := (es_timer S)\<lparr>et_buckets := bs\<rparr>\<rparr>)
        }
        else do {
          (_, S) \<leftarrow> evtimer_remove S ev;
          let S = set_event ev ((event_at S ev)\<lparr>ev_status := ev_status (event_at S ev) AND NOT EVSTATUS_TIMER\<rparr>) S;
          (if step = 0
           then do {
             (_, S) \<leftarrow> event_active S ev EV_TIMEOUT;
             Some (rc + 1, S)
           }
           else Some (rc, S))
        });
     (if finished then Some (rc, S) else dispatch_loop fuel h laster rc S)
   }"

definition evtimer_dispatch :: "('e, 'cb, 'p) eventset \<Rightarrow> (int \<times> ('e, 'cb, 'p) eventset) option" where
  "evtimer_dispatch S = do {
     let index = et_dispatch_refer (es_timer S);
     let S = S\<lparr>es_timer := (es_timer S)\<lparr>et_dispatch_refer := index + 1\<rparr>\<rparr>;
     let h = unat (EVTIMER_INDEX (es_timer S) index);
     head \<leftarrow> arr_get (et_buckets (es_timer S)) h;
     (if head = [] then Some (0, S) else dispatch_loop (length head) h (last head) 0 S)
   }"

section \<open>Invariant and abstraction\<close>

text \<open>The geometry: a power of two of buckets, a positive precision, one revolution below 2^31 ms.\<close>

definition wheel_size :: "'e evtimer \<Rightarrow> nat" where
  "wheel_size T = unat (et_bucket_count T)"

definition wheel_prec :: "'e evtimer \<Rightarrow> nat" where
  "wheel_prec T = nat (sint (et_max_precision T))"

definition wheel_geom :: "'e evtimer \<Rightarrow> bool" where
  "wheel_geom T \<longleftrightarrow> (\<exists>k \<le> 30. wheel_size T = 2 ^ k) \<and> 0 < sint (et_max_precision T) \<and>
     wheel_prec T * wheel_size T < 2 ^ 31 \<and> length (et_buckets T) = wheel_size T"

text \<open>
  A timer is linked in the bucket its index names and in no other, has at least one revolution to
  go and belongs to an event set; the counter is the number of linked timers.
\<close>

definition timer_linked :: "nat \<Rightarrow> 'cb event \<Rightarrow> bool" where
  "timer_linked n ev \<longleftrightarrow> unat (ev_timer_index ev) < n \<and> 1 \<le> sint (ev_timer_stepcnt ev) \<and> ev_evsets ev"

definition wheel_ok :: "('e, 'cb, 'p) eventset \<Rightarrow> bool" where
  "wheel_ok S \<longleftrightarrow>
     (let T = es_timer S; bs = et_buckets T in
      wheel_geom T \<and> (\<forall>i < length bs. distinct (bs ! i)) \<and>
      (\<forall>e. has (ev_status (event_at S e)) EVSTATUS_TIMER \<longrightarrow> timer_linked (length bs) (event_at S e)) \<and>
      (\<forall>i < length bs. \<forall>e. e \<in> set (bs ! i) \<longleftrightarrow>
         has (ev_status (event_at S e)) EVSTATUS_TIMER \<and> unat (ev_timer_index (event_at S e)) = i) \<and>
      et_event_count T = of_nat (sum_list (map length bs)))"

text \<open>The events that are active are the ones on the active list, and they belong to the set.\<close>

definition active_ok :: "('e, 'cb, 'p) eventset \<Rightarrow> bool" where
  "active_ok S \<longleftrightarrow> distinct (es_activelist S) \<and>
     (\<forall>e. has (ev_status (event_at S e)) EVSTATUS_ACTIVE \<longleftrightarrow> e \<in> set (es_activelist S)) \<and>
     (\<forall>e \<in> set (es_activelist S). ev_evsets (event_at S e))"

text \<open>The number of dispatches until a timer fires.\<close>

definition remaining :: "'e evtimer \<Rightarrow> 'cb event \<Rightarrow> nat" where
  "remaining T ev = unat (EVTIMER_INDEX T (ev_timer_index ev - et_dispatch_refer T)) + 1
     + (nat (sint (ev_timer_stepcnt ev)) - 1) * wheel_size T"

definition due :: "('e, 'cb, 'p) eventset \<Rightarrow> 'e \<Rightarrow> nat option" where
  "due S e = (if has (ev_status (event_at S e)) EVSTATUS_TIMER
              then Some (remaining (es_timer S) (event_at S e)) else None)"

text \<open>
  The delay the code gives a timeout of \<open>tv\<close> milliseconds: its quotient by the precision, except
  that a timeout that is not a whole number of revolutions but falls on the bucket just dispatched
  waits for one more revolution.
\<close>

definition delay :: "nat \<Rightarrow> nat \<Rightarrow> nat \<Rightarrow> nat" where
  "delay P N tv =
     (let tv = max P tv; q = tv div P
      in if q mod N = 0 \<and> tv mod (P * N) \<noteq> 0 then q + N else q)"

lemma delay_formula:
  assumes "0 < P" "0 < N" "P \<le> tv"
  shows "(tv div P - 1) mod N + 1 + (tv div (P * N) + (if tv mod (P * N) \<noteq> 0 then 1 else 0) - 1) * N = delay P N tv"
proof -
  define q where "q = tv div P"
  define a where "a = q div N"
  define b where "b = q mod N"
  have q: "q = a * N + b" "b < N" "1 \<le> q" using assms by (auto simp: a_def b_def q_def div_greater_zero_iff Suc_le_eq)
  have a: "tv div (P * N) = a" by (simp add: a_def q_def div_mult2_eq)
  have d: "delay P N tv = (if b = 0 \<and> tv mod (P * N) \<noteq> 0 then q + N else q)"
    using assms by (simp add: delay_def b_def q_def max_def)
  show ?thesis
  proof (cases "b = 0")
    case False
    have "tv mod (P * N) \<noteq> 0"
    proof
      assume "tv mod (P * N) = 0"
      then have "tv = P * N * a" using a by (metis mult_div_mod_eq add.right_neutral)
      then have "q = N * a" using assms by (simp add: q_def mult.assoc)
      then show False using False by (simp add: b_def)
    qed
    moreover have "(q - 1) mod N = b - 1"
    proof -
      have "q - 1 = a * N + (b - 1)" using q False by simp
      then show ?thesis using q(2) by simp
    qed
    ultimately show ?thesis using False q by (simp add: d a q_def [symmetric])
  next
    case True
    then have q': "q = a * N" "0 < a" using q by auto
    then obtain c where c: "a = Suc c" by (cases a) auto
    have "q - 1 = c * N + (N - 1)" using q' c assms(2) by simp
    moreover have "(c * N + (N - 1)) mod N = N - 1"
      using assms(2) by (metis mod_mult_self3 mod_less diff_less zero_less_one)
    ultimately have "(q - 1) mod N = N - 1" by (simp only:)
    then show ?thesis using True q' c assms(2) by (simp add: d a q_def [symmetric])
  qed
qed

section \<open>Appending and removing a timer\<close>

lemma wheel_geomE:
  assumes "wheel_geom T"
  obtains k where "k \<le> 30" "wheel_size T = 2 ^ k" "unat (et_bucket_count T) = 2 ^ k"
    "0 < sint (et_max_precision T)" "sint (et_max_precision T) = int (wheel_prec T)" "0 < wheel_prec T"
    "wheel_prec T * 2 ^ k < 2 ^ 31" "length (et_buckets T) = 2 ^ k" "sint (et_bucket_count T) = 2 ^ k"
proof -
  obtain k where k: "k \<le> 30" "wheel_size T = 2 ^ k" "0 < sint (et_max_precision T)"
      "wheel_prec T * 2 ^ k < 2 ^ 31" "length (et_buckets T) = 2 ^ k"
    using assms by (auto simp: wheel_geom_def)
  have "(2::nat) ^ k \<le> 2 ^ 30" using k(1) by (intro power_increasing) auto
  then have "unat (et_bucket_count T) < 2 ^ 31" using k(2) by (simp add: wheel_size_def)
  then have "sint (et_bucket_count T) = int (unat (et_bucket_count T))" by (rule sint_small)
  moreover have "unat (et_bucket_count T) = 2 ^ k" using k(2) by (simp only: wheel_size_def)
  ultimately have "sint (et_bucket_count T) = 2 ^ k" by simp
  moreover have p: "sint (et_max_precision T) = int (wheel_prec T)" using k(3) by (simp add: wheel_prec_def)
  moreover have "0 < wheel_prec T" using k(3) p by simp
  ultimately show thesis using k \<open>unat (et_bucket_count T) = 2 ^ k\<close> by (intro that [of k])
qed

lemma index_small: "wheel_geom T \<Longrightarrow> unat (EVTIMER_INDEX T c) < wheel_size T"
  by (erule wheel_geomE) (simp add: EVTIMER_INDEX_def unat_and_pow2_minus_one)

lemma index_take_bit:
  assumes "unat (et_bucket_count T) = 2 ^ k"
  shows "EVTIMER_INDEX T c = take_bit k c"
  unfolding EVTIMER_INDEX_def using word_pow2_minus_one [OF assms] by (simp add: take_bit_eq_mask)

text \<open>The slot is chosen relative to the last dispatched one.\<close>

lemma index_distance:
  assumes g: "wheel_geom T" and q: "1 \<le> q" "q < 2 ^ 32"
  shows "unat (EVTIMER_INDEX T (EVTIMER_INDEX T (r - 1 + of_nat q) - r)) = (q - 1) mod wheel_size T"
proof -
  obtain k where k: "k \<le> 30" "wheel_size T = 2 ^ k" "unat (et_bucket_count T) = 2 ^ k"
    using g by (rule wheel_geomE)
  have "take_bit k (take_bit k (r - 1 + of_nat q) - r) = take_bit k ((r - 1 + of_nat q) - r)"
    using k(1) by (intro take_bit_word_diff_left) simp
  also have "(r - 1 + of_nat q) - r = of_nat (q - 1)" using q by (simp add: of_nat_diff)
  also have "unat (take_bit k (of_nat (q - 1) :: i32)) = take_bit k (unat (of_nat (q - 1) :: i32))"
    by (rule unsigned_take_bit_eq)
  also have "unat (of_nat (q - 1) :: i32) = q - 1"
    using q by (simp add: unat_of_nat take_bit_nat_eq_self del: of_nat_diff)
  also have "take_bit k (q - 1) = (q - 1) mod 2 ^ k" by (rule take_bit_eq_mod)
  finally show ?thesis using k by (simp add: index_take_bit)
qed

text \<open>The two quotients of \<open>evtimer_append\<close>, computed without overflow.\<close>

lemma word_of_int_nat_div: "word_of_int (int a div int b) = (of_nat (a div b) :: 'a::len word)"
  by (simp flip: zdiv_int)

lemma word_of_int_nat_mod: "word_of_int (int a mod int b) = (of_nat (a mod b) :: 'a::len word)"
  by (simp flip: zmod_int)

lemma append_arith:
  assumes g: "wheel_geom T" and tv: "0 \<le> sint tv"
  defines "P \<equiv> wheel_prec T" and "N \<equiv> wheel_size T" and "m \<equiv> max (wheel_prec T) (nat (sint tv))"
  defines "tv' \<equiv> (if sint tv < sint (et_max_precision T) then et_max_precision T else tv)"
  shows "div32 tv' (et_max_precision T) = Some (of_nat (m div P))"
    "div32 tv' (et_max_precision T * et_bucket_count T) = Some (of_nat (m div (P * N)))"
    "mod32 tv' (et_max_precision T * et_bucket_count T) = Some (of_nat (m mod (P * N)))"
    "m < 2 ^ 31" "P \<le> m" "0 < P" "0 < N" "m div P < 2 ^ 31"
    "m div (P * N) + (if m mod (P * N) \<noteq> 0 then 1 else 0) < 2 ^ 31"
    "0 < m div (P * N) + (if m mod (P * N) \<noteq> 0 then 1 else 0)"
proof -
  obtain k where k: "k \<le> 30" "N = 2 ^ k" "unat (et_bucket_count T) = 2 ^ k"
    "0 < sint (et_max_precision T)" "sint (et_max_precision T) = int P" "0 < P"
    "P * 2 ^ k < 2 ^ 31" "sint (et_bucket_count T) = 2 ^ k"
    using g unfolding P_def N_def by (rule wheel_geomE)
  have sm: "sint tv' = int m"
    using tv k(5) by (auto simp: tv'_def m_def P_def [symmetric] max_def)
  show m: "m < 2 ^ 31" using sint_less [of tv'] sm by simp
  show "P \<le> m" "0 < P" "0 < N" using k by (auto simp: m_def P_def)
  have prod: "sint (et_max_precision T * et_bucket_count T) = int (P * N)"
  proof -
    have "sint (et_max_precision T) = int (unat (et_max_precision T))" using k(4) by (intro sint_nonneg_unat) simp
    then have "int (unat (et_max_precision T)) = int P" using k(5) by (rule trans [OF sym])
    then have "unat (et_max_precision T) = P" by (rule of_nat_eq_iff [THEN iffD1])
    then have "unat (et_max_precision T * et_bucket_count T) = P * N"
      using k by (simp add: unat_word_ariths)
    then show ?thesis using k(2,7) by (simp add: sint_small)
  qed
  have pos: "0 < P * N" using k by simp
  have nz: "et_max_precision T \<noteq> 0" "et_max_precision T * et_bucket_count T \<noteq> 0"
    using k(4) prod pos by auto
  show "div32 tv' (et_max_precision T) = Some (of_nat (m div P))"
    using nz k(5,6) sm by (simp add: div32_def word_of_int_nat_div)
  show "div32 tv' (et_max_precision T * et_bucket_count T) = Some (of_nat (m div (P * N)))"
    using nz prod sm pos by (simp add: div32_def word_of_int_nat_div del: of_nat_mult)
  show "mod32 tv' (et_max_precision T * et_bucket_count T) = Some (of_nat (m mod (P * N)))"
    using nz prod sm pos by (simp add: mod32_def word_of_int_nat_mod del: of_nat_mult)
  show "m div P < 2 ^ 31" using m by (meson div_le_dividend order_le_less_trans)
  show "0 < m div (P * N) + (if m mod (P * N) \<noteq> 0 then 1 else 0)"
    using k(6) \<open>P \<le> m\<close> by (auto simp: div_eq_0_iff)
  show "m div (P * N) + (if m mod (P * N) \<noteq> 0 then 1 else 0) < 2 ^ 31"
  proof (cases "P * N = 1")
    case False
    then have "2 \<le> P * N" using pos by linarith
    then have "m div (P * N) \<le> m div 2" by (intro div_le_mono2) auto
    moreover have "m div 2 < 2 ^ 30" using m by simp
    ultimately have "m div (P * N) < 2 ^ 30" by (rule order_le_less_trans)
    then show ?thesis by simp
  qed (use m in simp)
qed

text \<open>The fields of the wheel that insertion and removal leave alone.\<close>

abbreviation (input) relink :: "'e evtimer \<Rightarrow> i32 \<Rightarrow> 'e list list \<Rightarrow> 'e evtimer" where
  "relink T n bs \<equiv> T\<lparr>et_event_count := n, et_buckets := bs\<rparr>"

lemma relink_same [simp]:
  "EVTIMER_INDEX (relink T n bs) c = EVTIMER_INDEX T c" "wheel_size (relink T n bs) = wheel_size T"
  "wheel_prec (relink T n bs) = wheel_prec T" "remaining (relink T n bs) ev = remaining T ev"
  "wheel_geom (relink T n bs) \<longleftrightarrow> wheel_geom T \<and> True" if "length bs = length (et_buckets T)"
  using that by (simp_all add: EVTIMER_INDEX_def wheel_size_def wheel_prec_def remaining_def wheel_geom_def)

lemma sum_list_replace:
  fixes xs :: "nat list"
  assumes "i < length xs"
  shows "sum_list (xs[i := x]) + xs ! i = sum_list xs + x"
  using assms elem_le_sum_list [of i xs] by (simp add: sum_list_update)

lemma wheel_okD:
  assumes "wheel_ok S"
  shows "wheel_geom (es_timer S)" "length (et_buckets (es_timer S)) = wheel_size (es_timer S)"
    "i < wheel_size (es_timer S) \<Longrightarrow> distinct (et_buckets (es_timer S) ! i)"
    "has (ev_status (event_at S e)) EVSTATUS_TIMER \<Longrightarrow> timer_linked (wheel_size (es_timer S)) (event_at S e)"
    "i < wheel_size (es_timer S) \<Longrightarrow> e \<in> set (et_buckets (es_timer S) ! i) \<longleftrightarrow>
       has (ev_status (event_at S e)) EVSTATUS_TIMER \<and> unat (ev_timer_index (event_at S e)) = i"
    "et_event_count (es_timer S) = of_nat (sum_list (map length (et_buckets (es_timer S))))"
  using assms by (auto simp: wheel_ok_def Let_def wheel_geom_def)

lemma event_timer_commute: "S\<lparr>es_events := f, es_timer := T\<rparr> = S\<lparr>es_timer := T, es_events := f\<rparr>"
  by simp

lemma event_fields_commute:
  "ev\<lparr>ev_timer_index := i, ev_timer_stepcnt := c, ev_status := s\<rparr> =
   ev\<lparr>ev_status := s, ev_timer_index := i, ev_timer_stepcnt := c\<rparr>"
  by simp

lemma insert_timer_eq:
  assumes ok: "wheel_ok S" and fresh: "\<not> has (ev_status (event_at S e)) EVSTATUS_TIMER"
    and tv: "0 \<le> sint (ev_timer_msecs (event_at S e))"
  defines "T \<equiv> es_timer S"
  defines "m \<equiv> max (wheel_prec T) (nat (sint (ev_timer_msecs (event_at S e))))"
    and "C \<equiv> wheel_prec T * wheel_size T"
  defines "j \<equiv> EVTIMER_INDEX T (et_dispatch_refer T - 1 + of_nat (m div wheel_prec T))"
  shows "event_queue_insert S e EVSTATUS_TIMER = Some (0,
    set_event e ((event_at S e)\<lparr>ev_status := ev_status (event_at S e) OR EVSTATUS_TIMER, ev_timer_index := j,
        ev_timer_stepcnt := of_nat (m div C + (if m mod C \<noteq> 0 then 1 else 0))\<rparr>)
      (S\<lparr>es_timer := relink T (et_event_count T + 1) ((et_buckets T)[unat j := et_buckets T ! unat j @ [e]])\<rparr>))"
proof -
  note w = wheel_okD [OF ok, folded T_def]
  note a = append_arith [OF w(1) tv, folded m_def C_def]
  have j: "unat j < wheel_size T" unfolding j_def by (rule index_small [OF w(1)])
  have no: "list_all (\<lambda>b. e \<notin> set b) (et_buckets T)"
    using w(2,5) fresh by (auto simp: list_all_length)
  have mod0: "(of_nat (m mod C) :: i32) = 0 \<longleftrightarrow> m mod C = 0"
  proof -
    have "m mod C < 2 ^ 31" using mod_less_eq_dividend a(4) by (rule order_le_less_trans)
    also have "(2::nat) ^ 31 < 2 ^ LENGTH(32)" by simp
    finally show ?thesis by (rule of_nat_small_zero_iff)
  qed
  define tv' where "tv' = (if sint (ev_timer_msecs (event_at S e)) < sint (et_max_precision T)
    then et_max_precision T else ev_timer_msecs (event_at S e))"
  define S1 where "S1 = set_event e ((event_at S e)\<lparr>ev_status := ev_status (event_at S e) OR EVSTATUS_TIMER\<rparr>) S"
  have S1: "es_timer S1 = T" "ev_timer_msecs (event_at S1 e) = ev_timer_msecs (event_at S e)"
    by (simp_all add: S1_def T_def)
  have "evtimer_append S1 e = do {
      q \<leftarrow> div32 tv' (et_max_precision T);
      stepcnt \<leftarrow> div32 tv' (et_max_precision T * et_bucket_count T);
      rest \<leftarrow> mod32 tv' (et_max_precision T * et_bucket_count T);
      bs \<leftarrow> bucket_insert_tail e (unat (EVTIMER_INDEX T (et_dispatch_refer T - 1 + q))) (et_buckets T);
      Some (0, (set_event e ((event_at S1 e)\<lparr>ev_timer_index := EVTIMER_INDEX T (et_dispatch_refer T - 1 + q),
          ev_timer_stepcnt := if rest \<noteq> 0 then stepcnt + 1 else stepcnt\<rparr>) S1)
        \<lparr>es_timer := relink T (et_event_count T + 1) bs\<rparr>) }"
    unfolding evtimer_append_def Let_def S1 tv'_def using tv by (simp add: S1)
  also have "\<dots> = Some (0, set_event e ((event_at S1 e)\<lparr>ev_timer_index := j,
          ev_timer_stepcnt := of_nat (m div C + (if m mod C \<noteq> 0 then 1 else 0))\<rparr>)
        (S1\<lparr>es_timer := relink T (et_event_count T + 1) ((et_buckets T)[unat j := et_buckets T ! unat j @ [e]])\<rparr>))"
    unfolding a(1-3) [folded tv'_def]
    using j no w(2) by (simp add: bucket_insert_tail_def mod0 flip: j_def)
  finally have ap: "evtimer_append S1 e = \<dots>" .
  have "event_queue_insert S e EVSTATUS_TIMER = map_option (\<lambda>(_, S). (0, S)) (evtimer_append S1 e)"
    using fresh by (simp add: event_queue_insert_def Let_def S1_def status_exp)
  then show ?thesis unfolding ap by (simp add: S1_def T_def)
qed

text \<open>An inserted timer is due after its delay; the other timers keep their place.\<close>

lemma insert_timer:
  assumes ok: "wheel_ok S" and fresh: "\<not> has (ev_status (event_at S e)) EVSTATUS_TIMER"
    and tv: "0 \<le> sint (ev_timer_msecs (event_at S e))" and own: "ev_evsets (event_at S e)"
  obtains i c n bs S' where "event_queue_insert S e EVSTATUS_TIMER = Some (0, S')"
    "S' = set_event e ((event_at S e)\<lparr>ev_status := ev_status (event_at S e) OR EVSTATUS_TIMER,
        ev_timer_index := i, ev_timer_stepcnt := c\<rparr>) (S\<lparr>es_timer := relink (es_timer S) n bs\<rparr>)"
    "wheel_ok S'"
    "due S' = (due S)(e \<mapsto> delay (wheel_prec (es_timer S)) (wheel_size (es_timer S))
        (nat (sint (ev_timer_msecs (event_at S e)))))"
proof -
  define T where "T = es_timer S"
  define m where "m = max (wheel_prec T) (nat (sint (ev_timer_msecs (event_at S e))))"
  define C where "C = wheel_prec T * wheel_size T"
  define j where "j = EVTIMER_INDEX T (et_dispatch_refer T - 1 + of_nat (m div wheel_prec T))"
  define cnt where "cnt = m div C + (if m mod C \<noteq> 0 then 1 else 0)"
  define bs where "bs = (et_buckets T)[unat j := et_buckets T ! unat j @ [e]]"
  define S' where "S' = set_event e ((event_at S e)\<lparr>ev_status := ev_status (event_at S e) OR EVSTATUS_TIMER, ev_timer_index := j,
        ev_timer_stepcnt := of_nat cnt\<rparr>) (S\<lparr>es_timer := relink T (et_event_count T + 1) bs\<rparr>)"
  note w = wheel_okD [OF ok, folded T_def]
  note a = append_arith [OF w(1) tv, folded m_def C_def]
  have eq: "event_queue_insert S e EVSTATUS_TIMER = Some (0, S')"
    unfolding S'_def cnt_def bs_def j_def m_def C_def T_def by (rule insert_timer_eq [OF ok fresh tv])
  have j: "unat j < wheel_size T" unfolding j_def by (rule index_small [OF w(1)])
  have len: "length bs = wheel_size T" using w(2) by (simp add: bs_def)
  have "cnt < 2 ^ 31" "0 < cnt" unfolding cnt_def by (rule a(9), rule a(10))
  then have cnt: "sint (of_nat cnt :: i32) = int cnt" "1 \<le> cnt"
    by (simp_all add: sint_small unat_of_nat take_bit_nat_eq_self)
  have bs_nth: "i < wheel_size T \<Longrightarrow> bs ! i = et_buckets T ! i @ (if i = unat j then [e] else [])" for i
    using w(2) j by (auto simp: bs_def nth_list_update)
  have sum: "sum_list (map length bs) = sum_list (map length (et_buckets T)) + 1"
    using j w(2) sum_list_replace [of "unat j" "map length (et_buckets T)" "length (et_buckets T ! unat j) + 1"]
    by (simp add: bs_def map_update)
  have ok': "wheel_ok S'"
    unfolding wheel_ok_def Let_def
  proof (intro conjI allI impI)
    show "wheel_geom (es_timer S')" using w(1,2) len by (simp add: S'_def)
    show "et_event_count (es_timer S') = of_nat (sum_list (map length (et_buckets (es_timer S'))))"
      using w(6) sum by (simp add: S'_def)
  next
    fix i assume "i < length (et_buckets (es_timer S'))"
    then have i: "i < wheel_size T" using len by (simp add: S'_def)
    then show "distinct (et_buckets (es_timer S') ! i)"
      using w(3) [OF i] w(5) [OF i, of e] fresh by (auto simp: S'_def bs_nth)
    fix d
    show "d \<in> set (et_buckets (es_timer S') ! i) \<longleftrightarrow>
        has (ev_status (event_at S' d)) EVSTATUS_TIMER \<and> unat (ev_timer_index (event_at S' d)) = i"
      using w(5) [OF i, of d] fresh i by (auto simp: S'_def bs_nth)
  next
    fix d assume "has (ev_status (event_at S' d)) EVSTATUS_TIMER"
    then show "timer_linked (length (et_buckets (es_timer S'))) (event_at S' d)"
      using w(4) [of d] len own j cnt by (auto simp: S'_def timer_linked_def)
  qed
  have q: "1 \<le> m div wheel_prec T" "m div wheel_prec T < 2 ^ 32"
    using a(5,6,8) by (simp_all add: div_greater_zero_iff Suc_le_eq)
  have "remaining T ((event_at S' e)) =
      (m div wheel_prec T - 1) mod wheel_size T + 1 + (cnt - 1) * wheel_size T"
    unfolding remaining_def using index_distance [OF w(1) q] cnt by (simp add: S'_def j_def)
  also have "\<dots> = delay (wheel_prec T) (wheel_size T) m"
    unfolding cnt_def C_def by (rule delay_formula) (use a in auto)
  also have "\<dots> = delay (wheel_prec T) (wheel_size T) (nat (sint (ev_timer_msecs (event_at S e))))"
    by (simp add: delay_def m_def)
  finally have "due S' = (due S)(e \<mapsto> \<dots>)"
    using len w(2) by (auto simp: due_def fun_eq_iff S'_def T_def)
  with eq ok' show thesis unfolding S'_def T_def by (intro that) (assumption | rule refl)+
qed

text \<open>Unlinking a timer, which the queue removal and the dispatch both do.\<close>

abbreviation (input) unlink :: "('e, 'cb, 'p) eventset \<Rightarrow> 'e \<Rightarrow> ('e, 'cb, 'p) eventset" where
  "unlink S e \<equiv>
     (let T = es_timer S; i = unat (ev_timer_index (event_at S e)); bs = et_buckets T
      in set_event e ((event_at S e)\<lparr>ev_status := ev_status (event_at S e) AND NOT EVSTATUS_TIMER,
           ev_timer_index := - 1, ev_timer_stepcnt := - 1\<rparr>)
         (S\<lparr>es_timer := relink T (et_event_count T - 1) (bs[i := remove1 e (bs ! i)])\<rparr>))"

lemma index_in_range:
  assumes g: "wheel_geom T" and i: "unat (i :: i32) < wheel_size T"
  shows "\<not> sint i < 0" "\<not> sint i \<ge> sint (et_bucket_count T)"
proof -
  obtain k where k: "k \<le> 30" "wheel_size T = 2 ^ k" "sint (et_bucket_count T) = 2 ^ k" using g by (rule wheel_geomE)
  have "(2::nat) ^ k \<le> 2 ^ 30" using k(1) by (intro power_increasing) auto
  then have "unat i < 2 ^ 31" using i k(2) by simp
  then have "sint i = int (unat i)" by (rule sint_small)
  moreover have "int (unat i) < int (2 ^ k)" using i k(2) by (simp only: of_nat_less_iff)
  ultimately show "\<not> sint i < 0" "\<not> sint i \<ge> sint (et_bucket_count T)" using k(3) by auto
qed

lemma unlink_eq:
  assumes ok: "wheel_ok S" and timer: "has (ev_status (event_at S e)) EVSTATUS_TIMER"
    and st: "unat (ev_timer_index ev) = unat (ev_timer_index (event_at S e))"
  shows "evtimer_remove (set_event e ev S) e = Some (0,
    (set_event e (ev\<lparr>ev_timer_index := - 1, ev_timer_stepcnt := - 1\<rparr>)
         (S\<lparr>es_timer := es_timer (unlink S e)\<rparr>)))"
proof -
  note w = wheel_okD [OF ok]
  have i: "unat (ev_timer_index (event_at S e)) < wheel_size (es_timer S)"
    using w(4) [OF timer] by (simp add: timer_linked_def)
  moreover have "e \<in> set (et_buckets (es_timer S) ! unat (ev_timer_index (event_at S e)))"
    using w(5) [OF i, of e] timer by simp
  ultimately show ?thesis
    using index_in_range [OF w(1), of "ev_timer_index ev"] w(2) st
    by (simp add: evtimer_remove_def Let_def bucket_remove_def)
qed

lemma unlink_ok:
  assumes ok: "wheel_ok S" and timer: "has (ev_status (event_at S e)) EVSTATUS_TIMER"
  shows "wheel_ok (unlink S e)" "due (unlink S e) = (due S)(e := None)"
proof -
  define T where "T = es_timer S"
  define j where "j = unat (ev_timer_index (event_at S e))"
  define bs where "bs = (et_buckets T)[j := remove1 e (et_buckets T ! j)]"
  define S' where "S' = unlink S e"
  note S' = S'_def [unfolded Let_def, folded T_def j_def, folded bs_def]
  note w = wheel_okD [OF ok, folded T_def]
  have j: "j < wheel_size T" using w(4) [OF timer] by (simp add: timer_linked_def j_def)
  have e: "e \<in> set (et_buckets T ! j)" using w(5) [OF j, of e] timer by (simp add: j_def)
  have len: "length bs = wheel_size T" using w(2) by (simp add: bs_def)
  have bs_nth: "i < wheel_size T \<Longrightarrow> bs ! i = (if i = j then remove1 e (et_buckets T ! i) else et_buckets T ! i)" for i
    using w(2) j by (auto simp: bs_def nth_list_update)
  have sum: "sum_list (map length (et_buckets T)) = sum_list (map length bs) + 1"
  proof -
    have "0 < length (et_buckets T ! j)" using e by (rule length_pos_if_in_set)
    moreover have bs: "map length bs = (map length (et_buckets T))[j := length (et_buckets T ! j) - 1]"
      using e by (simp add: bs_def map_update length_remove1)
    moreover have "sum_list (map length bs) + length (et_buckets T ! j) =
        sum_list (map length (et_buckets T)) + (length (et_buckets T ! j) - 1)"
      unfolding bs using j w(2) sum_list_replace [of j "map length (et_buckets T)" "length (et_buckets T ! j) - 1"] by simp
    ultimately show ?thesis by linarith
  qed
  show "wheel_ok (unlink S e)"
    unfolding wheel_ok_def S'_def [symmetric] Let_def [of "es_timer S'"] Let_def [of "et_buckets (es_timer S')"]
  proof (intro conjI allI impI)
    show "wheel_geom (es_timer S')" using w(1,2) len by (simp add: S')
    show "et_event_count (es_timer S') = of_nat (sum_list (map length (et_buckets (es_timer S'))))"
      using w(6) sum by (simp add: S')
  next
    fix i assume "i < length (et_buckets (es_timer S'))"
    then have i: "i < wheel_size T" using len by (simp add: S')
    then show "distinct (et_buckets (es_timer S') ! i)"
      using w(3) [OF i] by (auto simp: S' bs_nth)
    fix d
    show "d \<in> set (et_buckets (es_timer S') ! i) \<longleftrightarrow>
        has (ev_status (event_at S' d)) EVSTATUS_TIMER \<and> unat (ev_timer_index (event_at S' d)) = i"
      using w(5) [OF i, of d] w(3) [OF i] i timer by (auto simp: S' bs_nth j_def)
  next
    fix d assume "has (ev_status (event_at S' d)) EVSTATUS_TIMER"
    then show "timer_linked (length (et_buckets (es_timer S'))) (event_at S' d)"
      using w(4) [of d] len by (auto simp: S' split: if_splits)
  qed
  have "due S' = (due S)(e := None)"
    using len w(2) by (auto simp: due_def fun_eq_iff S' T_def [symmetric])
  then show "due (unlink S e) = (due S)(e := None)" by (simp only: S'_def)
qed

lemma remove_timer_eq:
  assumes ok: "wheel_ok S" and timer: "has (ev_status (event_at S e)) EVSTATUS_TIMER"
  shows "event_queue_remove S e EVSTATUS_TIMER = Some (0, unlink S e)"
  using unlink_eq [OF ok timer, of "(event_at S e)\<lparr>ev_status := ev_status (event_at S e) AND NOT EVSTATUS_TIMER\<rparr>"] timer
  by (simp add: event_queue_remove_def Let_def status_exp)

section \<open>Activation\<close>

text \<open>The state after \<open>event_active\<close>.\<close>

definition activated :: "('e, 'cb, 'p) eventset \<Rightarrow> 'e \<Rightarrow> u16 \<Rightarrow> ('e, 'cb, 'p) eventset" where
  "activated S e res =
     (let ev = event_at S e
      in if has (ev_status ev) EVSTATUS_ACTIVE
         then set_event e (ev\<lparr>ev_results := ev_results ev OR scast res\<rparr>) S
         else set_event e (ev\<lparr>ev_results := scast res, ev_status := ev_status ev OR EVSTATUS_ACTIVE\<rparr>)
           (S\<lparr>es_activelist := es_activelist S @ [e]\<rparr>))"

lemma event_active_eq:
  assumes "active_ok S" "ev_evsets (event_at S e)"
  shows "event_active S e res =
    Some (if has (ev_status (event_at S e)) EVSTATUS_ACTIVE then 1 else 0, activated S e res)"
proof (cases "has (ev_status (event_at S e)) EVSTATUS_ACTIVE")
  case True
  then show ?thesis by (simp add: event_active_def activated_def Let_def)
next
  case False
  then have "e \<notin> set (es_activelist S)" using assms(1) by (simp add: active_ok_def)
  then show ?thesis using False assms(2)
    by (simp add: event_active_def activated_def event_queue_insert_def insert_tail_def Let_def)
qed

lemma activated_fields [simp]:
  "es_timer (activated S e res) = es_timer S"
  "es_eventlist (activated S e res) = es_eventlist S"
  "es_poll (activated S e res) = es_poll S"
  "d \<noteq> e \<Longrightarrow> event_at (activated S e res) d = event_at S d"
  "has (ev_status (event_at (activated S e res) d)) EVSTATUS_TIMER \<longleftrightarrow> has (ev_status (event_at S d)) EVSTATUS_TIMER"
  "has (ev_status (event_at (activated S e res) d)) EVSTATUS_INSERTED \<longleftrightarrow> has (ev_status (event_at S d)) EVSTATUS_INSERTED"
  "has (ev_status (event_at (activated S e res) d)) (NOT EVSTATUS_ALL) \<longleftrightarrow> has (ev_status (event_at S d)) (NOT EVSTATUS_ALL)"
  "ev_timer_index (event_at (activated S e res) d) = ev_timer_index (event_at S d)"
  "ev_timer_stepcnt (event_at (activated S e res) d) = ev_timer_stepcnt (event_at S d)"
  "ev_timer_msecs (event_at (activated S e res) d) = ev_timer_msecs (event_at S d)"
  "ev_evsets (event_at (activated S e res) d) = ev_evsets (event_at S d)"
  "ev_events (event_at (activated S e res) d) = ev_events (event_at S d)"
  "ev_fd (event_at (activated S e res) d) = ev_fd (event_at S d)"
  "ev_cb (event_at (activated S e res) d) = ev_cb (event_at S d)"
  by (auto simp: activated_def Let_def)

lemma activated_list:
  "es_activelist (activated S e res) =
     es_activelist S @ (if has (ev_status (event_at S e)) EVSTATUS_ACTIVE then [] else [e])"
  by (simp add: activated_def Let_def)

lemma activated_ok:
  assumes "active_ok S" "ev_evsets (event_at S e)"
  shows "active_ok (activated S e res)" "set (es_activelist (activated S e res)) = insert e (set (es_activelist S))"
proof -
  show "active_ok (activated S e res)"
    using assms unfolding active_ok_def activated_list by (auto simp: activated_def Let_def)
  show "set (es_activelist (activated S e res)) = insert e (set (es_activelist S))"
    using assms unfolding activated_list by (auto simp: active_ok_def)
qed

text \<open>The wheel depends on the timer and on the timer fields of the events only.\<close>

lemma wheel_frame:
  assumes "es_timer S' = es_timer S"
    "\<And>e. has (ev_status (event_at S' e)) EVSTATUS_TIMER \<longleftrightarrow> has (ev_status (event_at S e)) EVSTATUS_TIMER"
    "\<And>e. ev_timer_index (event_at S' e) = ev_timer_index (event_at S e)"
    "\<And>e. ev_timer_stepcnt (event_at S' e) = ev_timer_stepcnt (event_at S e)"
    "\<And>e. ev_evsets (event_at S' e) = ev_evsets (event_at S e)"
  shows "wheel_ok S' \<longleftrightarrow> wheel_ok S" "due S' = due S"
  using assms by (simp_all add: wheel_ok_def timer_linked_def due_def remaining_def fun_eq_iff Let_def)

lemma activated_wheel [simp]:
  "wheel_ok (activated S e res) \<longleftrightarrow> wheel_ok S" "due (activated S e res) = due S"
  by (rule wheel_frame; simp)+

section \<open>One timer of the dispatched bucket\<close>

text \<open>A timer in its last revolution fires, the others are moved to the tail with one less to go.\<close>

definition tick :: "nat \<Rightarrow> 'e \<Rightarrow> ('e, 'cb, 'p) eventset \<Rightarrow> ('e, 'cb, 'p) eventset" where
  "tick h e S =
     (let ev = event_at S e; c = ev_timer_stepcnt ev; T = es_timer S; bs = et_buckets T
      in if sint c = 1 then activated (unlink S e) e EV_TIMEOUT
         else set_event e (ev\<lparr>ev_timer_stepcnt := c - 1\<rparr>)
                (S\<lparr>es_timer := T\<lparr>et_buckets := bs[h := remove1 e (bs ! h) @ [e]]\<rparr>\<rparr>))"

definition fires :: "('e, 'cb, 'p) eventset \<Rightarrow> 'e \<Rightarrow> bool" where
  "fires S e \<longleftrightarrow> sint (ev_timer_stepcnt (event_at S e)) = 1"

lemma sint_minus_one:
  assumes "1 \<le> sint (w :: i32)"
  shows "sint (w - 1) = sint w - 1"
proof -
  have w: "sint w = int (unat w)" using assms by (intro sint_nonneg_unat) simp
  then have "1 \<le> unat w" using assms by linarith
  then have u: "unat (w - 1) = unat w - 1" by (simp add: unat_sub word_le_nat_alt)
  have "int (unat w) < int (2 ^ 31)" unfolding w [symmetric] using sint_less [of w] by simp
  then have "unat w < 2 ^ 31" by (simp only: of_nat_less_iff)
  then have "sint (w - 1) = int (unat (w - 1))" using u by (intro sint_small) simp
  then show ?thesis using u w \<open>1 \<le> unat w\<close> by (simp add: of_nat_diff)
qed

lemma tick_other:
  assumes "d \<noteq> e"
  shows "event_at (tick h e S) d = event_at S d"
  using assms by (simp add: tick_def Let_def)

lemma unlink_active_ok: "active_ok S \<Longrightarrow> active_ok (unlink S e)"
  by (simp add: active_ok_def Let_def)

lemma tick_ok:
  assumes ok: "wheel_ok S" and ao: "active_ok S" and h: "h < wheel_size (es_timer S)"
    and e: "e \<in> set (et_buckets (es_timer S) ! h)"
  shows "wheel_ok (tick h e S)" "active_ok (tick h e S)"
    "due (tick h e S) = (due S)(e := if fires S e then None else Some (the (due S e) - wheel_size (es_timer S)))"
    "et_buckets (es_timer (tick h e S)) ! h = remove1 e (et_buckets (es_timer S) ! h) @ (if fires S e then [] else [e])"
    "wheel_size (es_timer (tick h e S)) = wheel_size (es_timer S)"
    "wheel_prec (es_timer (tick h e S)) = wheel_prec (es_timer S)"
    "et_dispatch_refer (es_timer (tick h e S)) = et_dispatch_refer (es_timer S)"
    "set (es_activelist (tick h e S)) = set (es_activelist S) \<union> {d. d = e \<and> fires S d}"
    "es_eventlist (tick h e S) = es_eventlist S" "es_poll (tick h e S) = es_poll S"
proof -
  define T where "T = es_timer S"
  note w = wheel_okD [OF ok, folded T_def]
  note h = h [folded T_def] and e = e [folded T_def]
  have timer: "has (ev_status (event_at S e)) EVSTATUS_TIMER" and idx: "unat (ev_timer_index (event_at S e)) = h"
    using w(5) [OF h, of e] e by simp_all
  have c: "1 \<le> sint (ev_timer_stepcnt (event_at S e))" and own: "ev_evsets (event_at S e)"
    using w(4) [OF timer] by (simp_all add: timer_linked_def)
  note u = unlink_ok [OF ok timer]
  have len: "length (et_buckets T) = wheel_size T" by (rule w(2))
  define U where "U = unlink S e"
  have uf: "et_buckets (es_timer U) = (et_buckets T)[h := remove1 e (et_buckets T ! h)]"
      "wheel_size (es_timer U) = wheel_size T" "wheel_prec (es_timer U) = wheel_prec T"
      "et_dispatch_refer (es_timer U) = et_dispatch_refer T"
      "es_activelist U = es_activelist S" "es_eventlist U = es_eventlist S" "es_poll U = es_poll S"
      "ev_evsets (event_at U e)"
    using own by (simp_all add: U_def Let_def idx T_def [symmetric] wheel_size_def wheel_prec_def)
  have ua: "active_ok U" unfolding U_def by (rule unlink_active_ok [OF ao])
  define R where "R = tick h e S"
  have goal: "wheel_ok R \<and> active_ok R \<and>
      due R = (due S)(e := if fires S e then None else Some (the (due S e) - wheel_size T)) \<and>
      et_buckets (es_timer R) ! h = remove1 e (et_buckets T ! h) @ (if fires S e then [] else [e]) \<and>
      wheel_size (es_timer R) = wheel_size T \<and> wheel_prec (es_timer R) = wheel_prec T \<and>
      et_dispatch_refer (es_timer R) = et_dispatch_refer T \<and>
      set (es_activelist R) = set (es_activelist S) \<union> {d. d = e \<and> fires S d} \<and>
      es_eventlist R = es_eventlist S \<and> es_poll R = es_poll S"
  proof (cases "fires S e")
    case True
    then have R: "R = activated U e EV_TIMEOUT" by (simp add: R_def tick_def fires_def U_def Let_def)
    have d: "{d. d = e \<and> fires S d} = {e}" using True by auto
    show ?thesis
      using True h len u [folded U_def] uf activated_ok [OF ua uf(8), of EV_TIMEOUT]
      unfolding R d by simp
  next
    case False
    then have c2: "2 \<le> sint (ev_timer_stepcnt (event_at S e))" using c by (simp add: fires_def)
    have d: "{d. d = e \<and> fires S d} = {}" using False by auto
    define bs where "bs = (et_buckets T)[h := remove1 e (et_buckets T ! h) @ [e]]"
    have R: "R = set_event e ((event_at S e)\<lparr>ev_timer_stepcnt := ev_timer_stepcnt (event_at S e) - 1\<rparr>)
        (S\<lparr>es_timer := T\<lparr>et_buckets := bs\<rparr>\<rparr>)"
      using False by (simp add: R_def tick_def fires_def Let_def T_def bs_def)
    have bs: "length bs = wheel_size T" "bs ! h = remove1 e (et_buckets T ! h) @ [e]"
      "i < wheel_size T \<Longrightarrow> set (bs ! i) = set (et_buckets T ! i)"
      "i < wheel_size T \<Longrightarrow> distinct (bs ! i)" for i
      using len h e w(3) by (auto simp: bs_def nth_list_update)
    have sum: "map length bs = map length (et_buckets T)"
      using len h e by (intro nth_equalityI) (auto simp: bs_def nth_list_update length_remove1
        Suc_pred [OF length_pos_if_in_set])
    have "wheel_ok R"
      unfolding wheel_ok_def Let_def
    proof (intro conjI allI impI)
      show "wheel_geom (es_timer R)"
        using w(1,2) bs(1) by (simp add: R wheel_geom_def wheel_size_def wheel_prec_def)
      show "et_event_count (es_timer R) = of_nat (sum_list (map length (et_buckets (es_timer R))))"
        using w(6) sum by (simp add: R)
      fix i assume "i < length (et_buckets (es_timer R))"
      then have i: "i < wheel_size T" using bs(1) by (simp add: R)
      show "distinct (et_buckets (es_timer R) ! i)" using bs(4) [OF i] by (simp add: R)
      fix x
      show "x \<in> set (et_buckets (es_timer R) ! i) \<longleftrightarrow>
          has (ev_status (event_at R x)) EVSTATUS_TIMER \<and> unat (ev_timer_index (event_at R x)) = i"
        using w(5) [OF i, of x] bs(3) [OF i] by (auto simp: R)
    next
      fix x assume "has (ev_status (event_at R x)) EVSTATUS_TIMER"
      then show "timer_linked (length (et_buckets (es_timer R))) (event_at R x)"
        using w(4) [of x] w(4) [OF timer] bs(1) c2 sint_minus_one [OF c] by (auto simp: R timer_linked_def)
    qed
    moreover have "due R = (due S)(e := Some (the (due S e) - wheel_size T))"
    proof -
      obtain n where n: "sint (ev_timer_stepcnt (event_at S e)) = int n + 2"
        using c2 by (metis add.commute add_diff_cancel_left' nonneg_int_cases le_add_diff_inverse diff_ge_0_iff_ge)
      then have "nat (int n + 2) = n + 2" "nat (int n + 1) = n + 1" by linarith+
      then show ?thesis
        using timer sint_minus_one [OF c] n
        by (auto simp: due_def R fun_eq_iff T_def [symmetric] remaining_def wheel_size_def EVTIMER_INDEX_def)
    qed
    ultimately show ?thesis
      using False bs ao unfolding d by (simp add: R T_def [symmetric] wheel_size_def wheel_prec_def active_ok_def)
  qed
  then show "wheel_ok (tick h e S)" "active_ok (tick h e S)"
    "due (tick h e S) = (due S)(e := if fires S e then None else Some (the (due S e) - wheel_size (es_timer S)))"
    "et_buckets (es_timer (tick h e S)) ! h = remove1 e (et_buckets (es_timer S) ! h) @ (if fires S e then [] else [e])"
    "wheel_size (es_timer (tick h e S)) = wheel_size (es_timer S)"
    "wheel_prec (es_timer (tick h e S)) = wheel_prec (es_timer S)"
    "et_dispatch_refer (es_timer (tick h e S)) = et_dispatch_refer (es_timer S)"
    "set (es_activelist (tick h e S)) = set (es_activelist S) \<union> {d. d = e \<and> fires S d}"
    "es_eventlist (tick h e S) = es_eventlist S" "es_poll (tick h e S) = es_poll S"
    unfolding R_def T_def by blast+
qed

text \<open>Handling a timer touches, of the fields the set relies on, the timer and active bits only.\<close>

definition ev_keep :: "'cb event \<Rightarrow> 'cb event \<Rightarrow> bool" where
  "ev_keep ev ev' \<longleftrightarrow> ev_fd ev' = ev_fd ev \<and> ev_events ev' = ev_events ev \<and> ev_cb ev' = ev_cb ev \<and>
     ev_evsets ev' = ev_evsets ev \<and> ev_timer_msecs ev' = ev_timer_msecs ev \<and>
     (\<forall>n. n \<noteq> 1 \<longrightarrow> n \<noteq> 2 \<longrightarrow> bit (ev_status ev') n = bit (ev_status ev) n)"

lemma ev_keep_refl [simp]: "ev_keep ev ev"
  by (simp add: ev_keep_def)

lemma ev_keep_trans: "ev_keep a b \<Longrightarrow> ev_keep b c \<Longrightarrow> ev_keep a c"
  by (simp add: ev_keep_def)

lemma ev_keep_status:
  assumes "ev_keep ev ev'"
  shows "has (ev_status ev') EVSTATUS_INSERTED \<longleftrightarrow> has (ev_status ev) EVSTATUS_INSERTED"
    "has (ev_status ev') (NOT EVSTATUS_ALL) \<longleftrightarrow> has (ev_status ev) (NOT EVSTATUS_ALL)"
proof -
  show "has (ev_status ev') EVSTATUS_INSERTED \<longleftrightarrow> has (ev_status ev) EVSTATUS_INSERTED"
    using assms by (simp add: ev_keep_def has_bit)
  have "bit EVSTATUS_ALL 1" "bit EVSTATUS_ALL 2" by (simp_all add: EVSTATUS_ALL_def)
  then have "ev_status ev' AND NOT EVSTATUS_ALL = ev_status ev AND NOT EVSTATUS_ALL"
  proof (intro bit_word_eqI)
    fix n
    have "n \<noteq> 1 \<Longrightarrow> n \<noteq> 2 \<Longrightarrow> bit (ev_status ev') n = bit (ev_status ev) n" using assms by (simp add: ev_keep_def)
    then show "bit (ev_status ev' AND NOT EVSTATUS_ALL) n = bit (ev_status ev AND NOT EVSTATUS_ALL) n"
      using \<open>bit EVSTATUS_ALL 1\<close> \<open>bit EVSTATUS_ALL 2\<close>
      by (cases "n = 1"; cases "n = 2") (simp_all add: bit_and_iff bit_not_iff)
  qed
  then show "has (ev_status ev') (NOT EVSTATUS_ALL) \<longleftrightarrow> has (ev_status ev) (NOT EVSTATUS_ALL)"
    by (simp add: has_def)
qed

lemma tick_keep: "ev_keep (event_at S d) (event_at (tick h e S) d)"
  by (auto simp: ev_keep_def tick_def activated_def Let_def bit_and_iff bit_or_iff bit_not_iff status_bits
    dest: bit_imp_le_length)

lemma dispatch_loop_step:
  assumes ok: "wheel_ok S" and ao: "active_ok S" and h: "h < wheel_size (es_timer S)"
    and e: "et_buckets (es_timer S) ! h = e # rest"
  shows "dispatch_loop (Suc fuel) h laster rc S =
    (if e = laster then Some (rc + (if fires S e then 1 else 0), tick h e S)
     else dispatch_loop fuel h laster (rc + (if fires S e then 1 else 0)) (tick h e S))"
proof -
  define T where "T = es_timer S"
  note w = wheel_okD [OF ok, folded T_def]
  note h = h [folded T_def] and e = e [folded T_def]
  have timer: "has (ev_status (event_at S e)) EVSTATUS_TIMER" and idx: "unat (ev_timer_index (event_at S e)) = h"
    using w(5) [OF h, of e] e by simp_all
  have c: "1 \<le> sint (ev_timer_stepcnt (event_at S e))" and own: "ev_evsets (event_at S e)"
    using w(4) [OF timer] by (simp_all add: timer_linked_def)
  define ev where "ev = (event_at S e)\<lparr>ev_timer_stepcnt := ev_timer_stepcnt (event_at S e) - 1\<rparr>"
  define S1 where "S1 = set_event e ev S"
  have head: "arr_get (et_buckets (es_timer S)) h = Some (e # rest)" using h e w(2) by (simp add: T_def)
  have step: "sint (ev_timer_stepcnt (event_at S1 e)) = sint (ev_timer_stepcnt (event_at S e)) - 1"
    using sint_minus_one [OF c] by (simp add: S1_def ev_def)
  have unf: "dispatch_loop (Suc fuel) h laster rc S = do {
      (rc, S) \<leftarrow>
        (if sint (ev_timer_stepcnt (event_at S1 e)) > 0
         then do {
           bs \<leftarrow> bucket_remove e h (et_buckets (es_timer S1));
           bs \<leftarrow> bucket_insert_tail e h bs;
           Some (rc, S1\<lparr>es_timer := (es_timer S1)\<lparr>et_buckets := bs\<rparr>\<rparr>) }
         else do {
           (_, R) \<leftarrow> evtimer_remove S1 e;
           let U = set_event e ((event_at R e)\<lparr>ev_status := ev_status (event_at R e) AND NOT EVSTATUS_TIMER\<rparr>) R;
           (if sint (ev_timer_stepcnt (event_at S1 e)) = 0
            then do { (_, S) \<leftarrow> event_active U e EV_TIMEOUT; Some (rc + 1, S) }
            else Some (rc, U)) });
      (if e = laster then Some (rc, S) else dispatch_loop fuel h laster rc S) }"
    by (simp add: head S1_def ev_def Let_def)
  show ?thesis
  proof (cases "fires S e")
    case True
    define R where "R = set_event e (ev\<lparr>ev_timer_index := - 1, ev_timer_stepcnt := - 1\<rparr>)
         (S\<lparr>es_timer := es_timer (unlink S e)\<rparr>)"
    have rm: "evtimer_remove S1 e = Some (0, R)"
      unfolding S1_def R_def by (rule unlink_eq [OF ok timer]) (simp add: ev_def)
    define U where "U = unlink S e"
    have un: "set_event e ((event_at R e)\<lparr>ev_status := ev_status (event_at R e) AND NOT EVSTATUS_TIMER\<rparr>) R = U"
      by (simp add: U_def R_def ev_def Let_def event_fields_commute)
    have ac: "event_active U e EV_TIMEOUT =
        Some (if has (ev_status (event_at U e)) EVSTATUS_ACTIVE then 1 else 0, tick h e S)"
      using event_active_eq [OF unlink_active_ok [OF ao], of e e EV_TIMEOUT] own True
      by (simp add: U_def tick_def fires_def Let_def)
    have "sint (ev_timer_stepcnt (event_at S1 e)) = 0" using step True by (simp add: fires_def)
    then show ?thesis using True
      unfolding unf by (simp only: rm Option.bind.simps case_prod_conv un Let_def ac) simp
  next
    case False
    then have "0 < sint (ev_timer_stepcnt (event_at S1 e))" using step c by (simp add: fires_def)
    moreover have "bucket_remove e h (et_buckets T) = Some ((et_buckets T)[h := rest])"
      using h e w(2) by (simp add: bucket_remove_def)
    moreover have "bucket_insert_tail e h ((et_buckets T)[h := rest]) = Some ((et_buckets T)[h := rest @ [e]])"
    proof -
      have "list_all (\<lambda>b. e \<notin> set b) ((et_buckets T)[h := rest])"
        unfolding list_all_length
      proof (intro allI impI)
        fix n assume "n < length ((et_buckets T)[h := rest])"
        then have n: "n < wheel_size T" using w(2) by simp
        show "e \<notin> set ((et_buckets T)[h := rest] ! n)"
          using w(2) w(3) [OF h] w(5) [OF n, of e] e idx n by (cases "n = h") auto
      qed
      then show ?thesis using h w(2) by (simp add: bucket_insert_tail_def)
    qed
    moreover have "tick h e S = S1\<lparr>es_timer := T\<lparr>et_buckets := (et_buckets T)[h := rest @ [e]]\<rparr>\<rparr>"
      using False e by (simp add: tick_def fires_def Let_def T_def S1_def ev_def)
    moreover have "es_timer S1 = T" by (simp add: S1_def T_def)
    ultimately show ?thesis unfolding unf using False by (cases "e = laster") simp_all
  qed
qed

text \<open>The effect of handling the timers \<open>xs\<close> of the dispatched bucket.\<close>

definition handled :: "'e list \<Rightarrow> ('e, 'cb, 'p) eventset \<Rightarrow> ('e, 'cb, 'p) eventset \<Rightarrow> bool" where
  "handled xs S S' \<longleftrightarrow> wheel_ok S' \<and> active_ok S' \<and>
    due S' = (\<lambda>d. if d \<in> set xs then if fires S d then None else Some (the (due S d) - wheel_size (es_timer S)) else due S d) \<and>
    wheel_size (es_timer S') = wheel_size (es_timer S) \<and> wheel_prec (es_timer S') = wheel_prec (es_timer S) \<and>
    set (es_activelist S') = set (es_activelist S) \<union> {d \<in> set xs. fires S d} \<and>
    (\<forall>d. d \<notin> set xs \<longrightarrow> event_at S' d = event_at S d) \<and> (\<forall>d. ev_keep (event_at S d) (event_at S' d)) \<and>
    es_eventlist S' = es_eventlist S \<and> es_poll S' = es_poll S"

lemma handled_tick:
  assumes "wheel_ok S" "active_ok S" "h < wheel_size (es_timer S)" "e \<in> set (et_buckets (es_timer S) ! h)"
  shows "handled [e] S (tick h e S)"
proof -
  note t = tick_ok [OF assms] tick_other [where e = e and h = h and S = S]
  have "due (tick h e S) = (\<lambda>d. if d \<in> set [e] then if fires S d then None
      else Some (the (due S d) - wheel_size (es_timer S)) else due S d)"
    using t(3) by (auto simp: fun_eq_iff)
  moreover have "set (es_activelist (tick h e S)) = set (es_activelist S) \<union> {d \<in> set [e]. fires S d}"
    using t(8) by auto
  ultimately show ?thesis using t by (simp add: handled_def tick_keep)
qed

lemma handled_fires:
  assumes "handled xs S S'" "d \<notin> set xs"
  shows "fires S' d \<longleftrightarrow> fires S d" "due S' d = due S d"
  using assms by (simp_all add: handled_def fires_def)

lemma handled_trans:
  assumes 1: "handled xs S S1" and 2: "handled ys S1 S2" and dis: "set xs \<inter> set ys = {}"
  shows "handled (xs @ ys) S S2"
proof -
  have f: "fires S1 d \<longleftrightarrow> fires S d" "due S1 d = due S d" if "d \<in> set ys" for d
    using handled_fires [OF 1] that dis by auto
  have "ev_keep (event_at S d) (event_at S2 d)" for d
    using 1 2 ev_keep_trans unfolding handled_def by blast
  moreover have "due S2 = (\<lambda>d. if d \<in> set (xs @ ys) then if fires S d then None
      else Some (the (due S d) - wheel_size (es_timer S)) else due S d)"
    using 1 2 f dis by (auto simp: handled_def fun_eq_iff)
  moreover have "set (es_activelist S2) = set (es_activelist S) \<union> {d \<in> set (xs @ ys). fires S d}"
    using 1 2 f by (auto simp: handled_def)
  ultimately show ?thesis using 1 2 by (simp add: handled_def)
qed

text \<open>The loop handles every timer of the bucket once.\<close>

lemma dispatch_loop_eq:
  assumes "wheel_ok S" "active_ok S" "h < wheel_size (es_timer S)" "rest \<noteq> []" "laster = last rest"
    "et_buckets (es_timer S) ! h = rest @ kept"
  shows "\<exists>S'. dispatch_loop (length rest) h laster rc S = Some (rc + int (length (filter (fires S) rest)), S') \<and>
    handled rest S S'"
  using assms
proof (induction rest arbitrary: S kept rc)
  case (Cons e rest)
  note ok = Cons.prems(1) and ao = Cons.prems(2) and h = Cons.prems(3)
  note w = wheel_okD [OF ok]
  have b: "et_buckets (es_timer S) ! h = e # rest @ kept" using Cons.prems(6) by simp
  have e: "e \<in> set (et_buckets (es_timer S) ! h)" using b by simp
  have dist: "e \<notin> set rest" using w(3) [OF h] b by simp
  note hd1 = handled_tick [OF ok ao h e]
  note st = dispatch_loop_step [OF ok ao h b]
  have filt: "filter (fires (tick h e S)) rest = filter (fires S) rest"
  proof (rule filter_cong [OF refl])
    fix d assume "d \<in> set rest"
    then have "d \<notin> set [e]" using dist by auto
    then show "fires (tick h e S) d \<longleftrightarrow> fires S d" by (rule handled_fires(1) [OF hd1])
  qed
  show ?case
  proof (cases "rest = []")
    case True
    then have l: "e = laster" using Cons.prems(5) by simp
    show ?thesis
      by (rule exI [of _ "tick h e S"], unfold length_Cons st) (use hd1 l True in simp)
  next
    case False
    then have l: "e \<noteq> laster" and la: "laster = last rest" using Cons.prems(5) dist last_in_set [OF False] by auto
    have b': "et_buckets (es_timer (tick h e S)) ! h = rest @ (kept @ (if fires S e then [] else [e]))"
      using tick_ok(4) [OF ok ao h e] b by simp
    have h': "h < wheel_size (es_timer (tick h e S))" and ok': "wheel_ok (tick h e S)" "active_ok (tick h e S)"
      using hd1 h by (simp_all add: handled_def)
    obtain S' where S': "dispatch_loop (length rest) h laster (rc + (if fires S e then 1 else 0)) (tick h e S) =
          Some (rc + (if fires S e then 1 else 0) + int (length (filter (fires (tick h e S)) rest)), S')"
        "handled rest (tick h e S) S'"
      using Cons.IH [OF ok' h' False la b', of "rc + (if fires S e then 1 else 0)"] by blast
    have "dispatch_loop (length (e # rest)) h laster rc S = Some (rc + int (length (filter (fires S) (e # rest))), S')"
      using S'(1) l unfolding filt length_Cons st by simp
    moreover have "handled ([e] @ rest) S S'" by (rule handled_trans [OF hd1 S'(2)]) (use dist in simp)
    ultimately show ?thesis by auto
  qed
qed simp

section \<open>A dispatch fires what is due\<close>

lemma index_pred:
  assumes g: "wheel_geom T"
  shows "unat (EVTIMER_INDEX T (a - 1)) =
    (if unat (EVTIMER_INDEX T a) = 0 then wheel_size T - 1 else unat (EVTIMER_INDEX T a) - 1)"
proof -
  obtain k where k: "k \<le> 30" "wheel_size T = 2 ^ k" "unat (et_bucket_count T) = 2 ^ k" using g by (rule wheel_geomE)
  have t: "take_bit k (a - 1) = take_bit k (take_bit k a - 1)"
    using k(1) by (simp add: take_bit_word_diff_left)
  show ?thesis
  proof (cases "take_bit k a = 0")
    case True
    then have "unat (take_bit k (a - 1)) = unat (mask k :: i32)" by (simp add: t take_bit_minus_one_eq_mask)
    also have "\<dots> = 2 ^ k - 1"
      using word_pow2_minus_one [OF k(3), symmetric] k(3) by (simp add: unat_sub word_le_nat_alt)
    finally show ?thesis using True k by (simp add: index_take_bit)
  next
    case False
    then have u: "unat (take_bit k a - 1) = unat (take_bit k a) - 1" "0 < unat (take_bit k a)"
      by (simp_all add: unat_sub word_le_nat_alt unat_gt_0 Suc_le_eq)
    have "unat (take_bit k a) < 2 ^ k" by (simp add: unsigned_take_bit_eq)
    then have "unat (take_bit k a) - 1 < 2 ^ k" by simp
    then have "take_bit k (unat (take_bit k a) - 1) = unat (take_bit k a) - 1" by (rule take_bit_nat_eq_self)
    then have "unat (take_bit k (take_bit k a - 1)) = unat (take_bit k a) - 1"
      by (simp only: unsigned_take_bit_eq u(1) [unfolded unsigned_take_bit_eq])
    then show ?thesis using False k u(2) by (simp add: index_take_bit t)
  qed
qed

lemma index_zero:
  assumes g: "wheel_geom T" and i: "unat i < wheel_size T"
  shows "unat (EVTIMER_INDEX T (i - r)) = 0 \<longleftrightarrow> unat i = unat (EVTIMER_INDEX T r)"
proof -
  obtain k where k: "k \<le> 30" "wheel_size T = 2 ^ k" "unat (et_bucket_count T) = 2 ^ k" using g by (rule wheel_geomE)
  have kk: "k \<le> LENGTH(32)" using k(1) by simp
  have "unat i = take_bit k (unat i)" using i k(2) by (simp add: take_bit_nat_eq_self)
  then have self: "take_bit k i = i" by (metis unsigned_take_bit_eq unsigned_word_eqI)
  have "take_bit k (i - r) = 0 \<longleftrightarrow> i = take_bit k r"
  proof
    assume z: "take_bit k (i - r) = 0"
    have "take_bit k i = take_bit k ((i - r) - (- r))" by simp
    also have "\<dots> = take_bit k (take_bit k (i - r) - (- r))" by (rule take_bit_word_diff_left [OF kk, symmetric])
    finally show "i = take_bit k r" using z self by simp
  next
    assume "i = take_bit k r"
    then have "take_bit k (i - r) = take_bit k (r - r)" by (simp only: take_bit_word_diff_left [OF kk])
    then show "take_bit k (i - r) = 0" by simp
  qed
  then show ?thesis using k by (simp add: index_take_bit word_unat_eq_iff)
qed

text \<open>Advancing the reference: the timers of the dispatched bucket are a revolution ahead.\<close>

lemma remaining_advance:
  assumes g: "wheel_geom T" and l: "timer_linked (wheel_size T) ev"
  defines "T' \<equiv> T\<lparr>et_dispatch_refer := et_dispatch_refer T + 1\<rparr>"
    and "here \<equiv> unat (ev_timer_index ev) = unat (EVTIMER_INDEX T (et_dispatch_refer T))"
  shows "here \<Longrightarrow> remaining T' ev = remaining T ev - 1 + wheel_size T"
    "here \<Longrightarrow> remaining T ev = 1 \<longleftrightarrow> sint (ev_timer_stepcnt ev) = 1"
    "\<not> here \<Longrightarrow> remaining T' ev = remaining T ev - 1 \<and> remaining T ev \<noteq> 1"
    "1 \<le> remaining T ev"
proof -
  define D where "D = unat (EVTIMER_INDEX T (ev_timer_index ev - et_dispatch_refer T))"
  have i: "unat (ev_timer_index ev) < wheel_size T" and c: "1 \<le> sint (ev_timer_stepcnt ev)"
    using l by (simp_all add: timer_linked_def)
  have here: "here \<longleftrightarrow> D = 0" unfolding here_def D_def using index_zero [OF g i] by simp
  have pos: "0 < wheel_size T" using i by simp
  have r: "remaining T ev = D + 1 + (nat (sint (ev_timer_stepcnt ev)) - 1) * wheel_size T"
    by (simp add: remaining_def D_def)
  have e: "ev_timer_index ev - (et_dispatch_refer T + 1) = (ev_timer_index ev - et_dispatch_refer T) - 1" by simp
  have "unat (EVTIMER_INDEX T (ev_timer_index ev - (et_dispatch_refer T + 1))) =
      (if D = 0 then wheel_size T - 1 else D - 1)"
    unfolding e D_def by (rule index_pred [OF g])
  then have r': "remaining T' ev = (if D = 0 then wheel_size T - 1 else D - 1) + 1 +
      (nat (sint (ev_timer_stepcnt ev)) - 1) * wheel_size T"
    by (simp add: remaining_def T'_def EVTIMER_INDEX_def wheel_size_def)
  show "here \<Longrightarrow> remaining T' ev = remaining T ev - 1 + wheel_size T" using pos by (simp add: here r r')
  show "here \<Longrightarrow> remaining T ev = 1 \<longleftrightarrow> sint (ev_timer_stepcnt ev) = 1" using pos c by (auto simp: here r)
  show "\<not> here \<Longrightarrow> remaining T' ev = remaining T ev - 1 \<and> remaining T ev \<noteq> 1" by (simp add: here r r')
  show "1 \<le> remaining T ev" by (simp add: r)
qed

text \<open>One dispatch on the abstract view: every timer comes one dispatch closer.\<close>

definition count_down :: "('e \<Rightarrow> nat option) \<Rightarrow> 'e \<Rightarrow> nat option" where
  "count_down D = (\<lambda>e. case D e of None \<Rightarrow> None | Some n \<Rightarrow> if n = 1 then None else Some (n - 1))"

lemma dispatch_ok:
  assumes ok: "wheel_ok S" and ao: "active_ok S"
  obtains S' where "evtimer_dispatch S = Some (int (card {e. due S e = Some 1}), S')"
    "wheel_ok S'" "active_ok S'" "due S' = count_down (due S)"
    "wheel_size (es_timer S') = wheel_size (es_timer S)" "wheel_prec (es_timer S') = wheel_prec (es_timer S)"
    "set (es_activelist S') = set (es_activelist S) \<union> {e. due S e = Some 1}"
    "es_eventlist S' = es_eventlist S" "es_poll S' = es_poll S"
    "\<And>e. due S e = None \<Longrightarrow> event_at S' e = event_at S e" "\<forall>e. ev_keep (event_at S e) (event_at S' e)"
proof -
  define T where "T = es_timer S"
  define S1 where "S1 = S\<lparr>es_timer := T\<lparr>et_dispatch_refer := et_dispatch_refer T + 1\<rparr>\<rparr>"
  define h where "h = unat (EVTIMER_INDEX T (et_dispatch_refer T))"
  define xs where "xs = et_buckets T ! h"
  note w = wheel_okD [OF ok, folded T_def]
  have h: "h < wheel_size T" unfolding h_def by (rule index_small [OF w(1)])
  have ok1: "wheel_ok S1" and ao1: "active_ok S1"
    using ok ao by (auto simp: S1_def T_def wheel_ok_def wheel_geom_def wheel_size_def wheel_prec_def active_ok_def Let_def)
  have sz: "wheel_size (es_timer S1) = wheel_size T" "wheel_prec (es_timer S1) = wheel_prec T"
    by (simp_all add: S1_def wheel_size_def wheel_prec_def)
  have xs: "e \<in> set xs \<longleftrightarrow> has (ev_status (event_at S e)) EVSTATUS_TIMER \<and> unat (ev_timer_index (event_at S e)) = h" for e
    using w(5) [OF h] by (simp add: xs_def)
  have adv: "due S1 e = (case due S e of None \<Rightarrow> None | Some n \<Rightarrow> Some (n - 1 + (if e \<in> set xs then wheel_size T else 0)))"
    "due S e = Some 1 \<longleftrightarrow> e \<in> set xs \<and> fires S1 e" for e
    using remaining_advance [OF w(1) w(4), of e] xs [of e]
    by (auto simp: due_def T_def [symmetric] S1_def h_def fires_def)
  have head: "arr_get (et_buckets (es_timer S1)) (unat (EVTIMER_INDEX (es_timer S1) (et_dispatch_refer T))) = Some xs"
    using h w(2) by (simp add: S1_def EVTIMER_INDEX_def h_def xs_def T_def)
  have idx: "unat (EVTIMER_INDEX (es_timer S1) (et_dispatch_refer T)) = h"
    by (simp add: S1_def EVTIMER_INDEX_def h_def)
  have disp: "evtimer_dispatch S = (if xs = [] then Some (0, S1) else dispatch_loop (length xs) h (last xs) 0 S1)"
    using head idx by (simp add: evtimer_dispatch_def Let_def T_def S1_def)
  have cd: "(\<lambda>e. if e \<in> set xs then if fires S1 e then None else Some (the (due S1 e) - wheel_size T) else due S1 e) =
      count_down (due S)"
  proof
    fix e
    have "e \<in> set xs \<Longrightarrow> due S e \<noteq> None" using xs [of e] by (simp add: due_def)
    then show "(if e \<in> set xs then if fires S1 e then None else Some (the (due S1 e) - wheel_size T) else due S1 e) =
        count_down (due S) e"
      using adv [of e] by (auto simp: count_down_def split: option.splits)
  qed
  have fire: "{e \<in> set xs. fires S1 e} = {e. due S e = Some 1}" using adv(2) by auto
  have len: "int (length (filter (fires S1) xs)) = int (card {e. due S e = Some 1})"
    using w(3) [OF h] unfolding fire [symmetric]
    by (simp add: xs_def [symmetric] distinct_length_filter Int_def conj_commute)
  show thesis
  proof (cases "xs = []")
    case True
    have "{e. due S e = Some 1} = {}" unfolding fire [symmetric] using True by simp
    moreover have "due S1 = count_down (due S)" using cd True by simp
    ultimately show thesis using disp ok1 ao1 sz True
      by (intro that [of S1]) (auto simp: S1_def T_def)
  next
    case False
    have b: "et_buckets (es_timer S1) ! h = xs @ []" by (simp add: S1_def xs_def)
    have h1: "h < wheel_size (es_timer S1)" using h sz by simp
    obtain S' where S': "dispatch_loop (length xs) h (last xs) 0 S1 = Some (0 + int (length (filter (fires S1) xs)), S')"
        "handled xs S1 S'"
      using dispatch_loop_eq [OF ok1 ao1 h1 False refl b, of 0] by blast
    note H = S'(2) [unfolded handled_def]
    show thesis
    proof (rule that [of S'])
      show "evtimer_dispatch S = Some (int (card {e. due S e = Some 1}), S')" using disp False S'(1) len by simp
      have "due S' = (\<lambda>d. if d \<in> set xs then if fires S1 d then None else Some (the (due S1 d) - wheel_size (es_timer S1)) else due S1 d)"
        using H by blast
      then show "due S' = count_down (due S)" unfolding sz cd .
      show "set (es_activelist S') = set (es_activelist S) \<union> {e. due S e = Some 1}"
        using H fire by (simp add: S1_def)
      show "event_at S' e = event_at S e" if "due S e = None" for e
      proof -
        have "e \<notin> set xs" using that xs [of e] by (auto simp: due_def split: if_splits)
        then have "event_at S' e = event_at S1 e" using H by blast
        then show ?thesis by (simp add: S1_def)
      qed
    qed (use H sz in \<open>simp_all add: S1_def T_def\<close>)
  qed
qed

section \<open>Several dispatches\<close>

text \<open>\<open>n\<close> dispatches in a row.\<close>

fun dispatches :: "nat \<Rightarrow> ('e, 'cb, 'p) eventset \<Rightarrow> ('e, 'cb, 'p) eventset option" where
  "dispatches 0 S = Some S"
| "dispatches (Suc n) S = do { (_, S) \<leftarrow> evtimer_dispatch S; dispatches n S }"

lemma dispatches_ok:
  assumes "wheel_ok S" "active_ok S" "due S e = Some d"
  shows "\<exists>S'. dispatches n S = Some S' \<and> wheel_ok S' \<and> active_ok S' \<and>
    due S' e = (if n < d then Some (d - n) else None) \<and>
    (d \<le> n \<longrightarrow> e \<in> set (es_activelist S')) \<and> (n < d \<longrightarrow> e \<in> set (es_activelist S') \<longrightarrow> e \<in> set (es_activelist S))"
proof -
  have gone: "\<exists>S'. dispatches n S = Some S' \<and> wheel_ok S' \<and> active_ok S' \<and> due S' e = None \<and> e \<in> set (es_activelist S')"
    if "wheel_ok S" "active_ok S" "due S e = None" "e \<in> set (es_activelist S)" for n S
    using that
  proof (induction n arbitrary: S)
    case (Suc n)
    obtain S' where "evtimer_dispatch S = Some (int (card {e. due S e = Some 1}), S')"
        "wheel_ok S'" "active_ok S'" "due S' = count_down (due S)"
        "set (es_activelist S') = set (es_activelist S) \<union> {e. due S e = Some 1}"
      using dispatch_ok [OF Suc.prems(1,2)] by metis
    then show ?case using Suc.IH [of S'] Suc.prems by (simp add: count_down_def)
  qed simp
  from assms show ?thesis
  proof (induction n arbitrary: S d)
    case 0
    have "1 \<le> d"
      using 0 wheel_okD(1,4) [OF 0(1)] remaining_advance(4) by (auto simp: due_def split: if_splits)
    then show ?case using 0 by simp
  next
    case (Suc n)
    obtain S' where S': "evtimer_dispatch S = Some (int (card {e. due S e = Some 1}), S')"
        "wheel_ok S'" "active_ok S'" "due S' = count_down (due S)"
        "set (es_activelist S') = set (es_activelist S) \<union> {e. due S e = Some 1}"
      using dispatch_ok [OF Suc.prems(1,2)] by metis
    show ?case
    proof (cases "d = 1")
      case True
      then have "due S' e = None" "e \<in> set (es_activelist S')" using S'(4,5) Suc.prems(3) by (simp_all add: count_down_def)
      then show ?thesis using gone [OF S'(2,3), of n] S'(1) True by auto
    next
      case False
      then have "due S' e = Some (d - 1)" using S'(4) Suc.prems(3) by (simp add: count_down_def)
      moreover have "e \<in> set (es_activelist S') \<longleftrightarrow> e \<in> set (es_activelist S)" using S'(5) Suc.prems(3) False by simp
      ultimately show ?thesis using Suc.IH [OF S'(2,3), of "d - 1"] S'(1) False
        by (cases d) (auto simp: less_diff_conv)
    qed
  qed
qed

lemma timer_schedule:
  assumes "wheel_ok S" "active_ok S"
    and "\<not> has (ev_status (event_at S e)) EVSTATUS_TIMER" "\<not> has (ev_status (event_at S e)) EVSTATUS_ACTIVE"
    and "0 \<le> sint (ev_timer_msecs (event_at S e))" "ev_evsets (event_at S e)"
  defines "d \<equiv> delay (wheel_prec (es_timer S)) (wheel_size (es_timer S)) (nat (sint (ev_timer_msecs (event_at S e))))"
  shows "\<exists>S1. event_queue_insert S e EVSTATUS_TIMER = Some (0, S1) \<and>
    (\<exists>S2. dispatches n S1 = Some S2 \<and> wheel_ok S2 \<and> active_ok S2 \<and>
       due S2 e = (if n < d then Some (d - n) else None) \<and> (e \<in> set (es_activelist S2) \<longleftrightarrow> d \<le> n))"
proof -
  obtain S1 i c m bs where i: "event_queue_insert S e EVSTATUS_TIMER = Some (0, S1)"
    "S1 = set_event e ((event_at S e)\<lparr>ev_status := ev_status (event_at S e) OR EVSTATUS_TIMER,
        ev_timer_index := i, ev_timer_stepcnt := c\<rparr>) (S\<lparr>es_timer := relink (es_timer S) m bs\<rparr>)"
    "wheel_ok S1" "due S1 = (due S)(e \<mapsto> d)"
    using insert_timer [OF assms(1,3,5,6)] unfolding d_def by metis
  have "active_ok S1" using assms(2) unfolding i(2) by (simp add: active_ok_def)
  moreover have "e \<notin> set (es_activelist S1)" using assms(2,4) unfolding i(2) by (simp add: active_ok_def)
  moreover have "due S1 e = Some d" by (simp add: i(4))
  ultimately have "\<exists>S2. dispatches n S1 = Some S2 \<and> wheel_ok S2 \<and> active_ok S2 \<and>
       due S2 e = (if n < d then Some (d - n) else None) \<and> (e \<in> set (es_activelist S2) \<longleftrightarrow> d \<le> n)"
    using dispatches_ok [OF i(3), of e d n] by (metis linorder_not_le)
  then show ?thesis using i(1) by blast
qed

section \<open>Properties\<close>

text \<open>
  C18: one call of \<open>evtimer_dispatch\<close> on a well-formed wheel takes out of the wheel and puts on the
  active list exactly the timers that are due at it, returns their number, brings every other timer
  one dispatch closer, and keeps the wheel and the active list well formed.\<close>

theorem timer_dispatch_fires_due:
  assumes "wheel_ok S" "active_ok S"
  shows "\<exists>S'. evtimer_dispatch S = Some (int (card {e. due S e = Some 1}), S') \<and> wheel_ok S' \<and> active_ok S' \<and>
    due S' = (\<lambda>e. case due S e of None \<Rightarrow> None | Some n \<Rightarrow> if n = 1 then None else Some (n - 1)) \<and>
    set (es_activelist S') = set (es_activelist S) \<union> {e. due S e = Some 1}"
  by (rule dispatch_ok [OF assms]) (auto simp: count_down_def)

text \<open>
  C20: a timer that is inserted into a well-formed wheel fires at exactly the dispatch with the
  number \<open>delay P N tv\<close> counted from the insertion: before it, it is still in the wheel, and from it on
  it is on the active list.\<close>

theorem timer_fires_at_its_delay:
  assumes "wheel_ok S" "active_ok S"
    and "\<not> has (ev_status (event_at S e)) EVSTATUS_TIMER" "\<not> has (ev_status (event_at S e)) EVSTATUS_ACTIVE"
    and "0 \<le> sint (ev_timer_msecs (event_at S e))" "ev_evsets (event_at S e)"
  defines "d \<equiv> delay (wheel_prec (es_timer S)) (wheel_size (es_timer S)) (nat (sint (ev_timer_msecs (event_at S e))))"
  shows "\<exists>S1. event_queue_insert S e EVSTATUS_TIMER = Some (0, S1) \<and>
    (\<exists>S2. dispatches n S1 = Some S2 \<and> wheel_ok S2 \<and> active_ok S2 \<and>
       due S2 e = (if n < d then Some (d - n) else None) \<and> (e \<in> set (es_activelist S2) \<longleftrightarrow> d \<le> n))"
  unfolding d_def by (rule timer_schedule [OF assms(1-6)])

text \<open>
  C40: a timeout that exceeds a whole number of revolutions of the wheel by less than its precision
  fires a whole revolution late: after the number of dispatches its milliseconds stand for it is
  still waiting, and it waits for as many more dispatches as the wheel has buckets.\<close>

theorem timer_late_by_a_revolution:
  assumes "wheel_ok S" "active_ok S"
    and "\<not> has (ev_status (event_at S e)) EVSTATUS_TIMER" "\<not> has (ev_status (event_at S e)) EVSTATUS_ACTIVE"
    and "ev_evsets (event_at S e)"
    and "sint (ev_timer_msecs (event_at S e)) = int (a * wheel_size (es_timer S) * wheel_prec (es_timer S) + r)"
    and "0 < a" "0 < r" "r < wheel_prec (es_timer S)"
  shows "\<exists>S1 S2. event_queue_insert S e EVSTATUS_TIMER = Some (0, S1) \<and>
    dispatches (a * wheel_size (es_timer S)) S1 = Some S2 \<and> due S2 e = Some (wheel_size (es_timer S)) \<and>
    e \<notin> set (es_activelist S2)"
proof -
  define N where "N = wheel_size (es_timer S)"
  define P where "P = wheel_prec (es_timer S)"
  have N: "0 < N" using wheel_okD(1) [OF assms(1)] unfolding N_def by (rule wheel_geomE) simp
  have tv: "nat (sint (ev_timer_msecs (event_at S e))) = a * N * P + r"
    unfolding assms(6) nat_int by (simp add: N_def P_def)
  have "1 \<le> a * N" using assms(7) N by simp
  then have "1 * P \<le> a * N * P" by (rule mult_le_mono1)
  then have "max P (a * N * P + r) = a * N * P + r" by linarith
  moreover have "(a * N * P + r) div P = a * N" using assms(9) by (simp add: P_def)
  moreover have "(a * N * P + r) mod (P * N) = r"
  proof -
    have "P \<le> P * N" using N by simp
    then have "r < P * N" using assms(9) unfolding P_def [symmetric] by linarith
    then show ?thesis by (simp add: mult.assoc mult.commute [of N P])
  qed
  ultimately have "delay P N (a * N * P + r) = a * N + N"
    using assms(8) by (simp add: delay_def)
  then show ?thesis
    using timer_schedule [OF assms(1-4) _ assms(5), of "a * N"] N assms(6) tv
    by (auto simp: N_def P_def)
qed

section \<open>Instances\<close>

text \<open>A wheel of two buckets of 8 ms with one timer, due at the next dispatch, and an idle event.\<close>

definition demo_wheel :: "(bool, unit, unit) eventset" where
  "demo_wheel = \<lparr>es_timer_precision = 8, es_expire_time = 0, es_cache_current = 0,
     es_timer = \<lparr>et_event_count = 1, et_bucket_count = 2, et_max_precision = 8, et_dispatch_refer = 0,
       et_buckets = [[True], []]\<rparr>,
     es_poll = (), es_eventlist = [], es_activelist = [],
     es_events = (\<lambda>e. if e then event_create\<lparr>ev_status := EVSTATUS_INIT OR EVSTATUS_TIMER, ev_evsets := True,
         ev_timer_msecs := 8, ev_timer_index := 0, ev_timer_stepcnt := 1\<rparr>
       else event_create\<lparr>ev_evsets := True, ev_timer_msecs := 17\<rparr>)\<rparr>"

lemma demo_fields:
  "es_timer demo_wheel = \<lparr>et_event_count = 1, et_bucket_count = 2, et_max_precision = 8, et_dispatch_refer = 0,
       et_buckets = [[True], []]\<rparr>"
  "es_activelist demo_wheel = []" "ev_evsets (event_at demo_wheel e)"
  "has (ev_status (event_at demo_wheel e)) EVSTATUS_TIMER \<longleftrightarrow> e"
  "\<not> has (ev_status (event_at demo_wheel e)) EVSTATUS_ACTIVE"
  "ev_timer_index (event_at demo_wheel True) = 0" "ev_timer_stepcnt (event_at demo_wheel True) = 1"
  "ev_timer_msecs (event_at demo_wheel False) = 17"
  by (simp_all add: demo_wheel_def event_create_def has_def EVSTATUS_INIT_def EVSTATUS_TIMER_def EVSTATUS_ACTIVE_def)

lemma demo_geom: "wheel_geom (es_timer demo_wheel)" "wheel_prec (es_timer demo_wheel) = 8" "wheel_size (es_timer demo_wheel) = 2"
proof -
  have "\<exists>k\<le>30. (2::nat) = 2 ^ k" by (rule exI [of _ 1]) simp
  then show "wheel_geom (es_timer demo_wheel)"
    by (simp add: wheel_geom_def demo_fields wheel_size_def wheel_prec_def)
qed (simp_all add: demo_fields wheel_size_def wheel_prec_def)

lemma demo_wheel_ok: "wheel_ok demo_wheel" "active_ok demo_wheel" "due demo_wheel e = (if e then Some 1 else None)"
proof -
  have l: "length (et_buckets (es_timer demo_wheel)) = 2" by (simp add: demo_fields(1))
  have "timer_linked 2 (event_at demo_wheel True)" by (simp add: timer_linked_def demo_fields)
  then have t: "e \<Longrightarrow> timer_linked 2 (event_at demo_wheel e)" for e by (cases e) simp_all
  show "wheel_ok demo_wheel"
    unfolding wheel_ok_def Let_def demo_fields(4) l
  proof (intro conjI allI impI)
    show "wheel_geom (es_timer demo_wheel)" by (rule demo_geom)
  next
    fix i :: nat and e assume i: "i < 2"
    then show "distinct (et_buckets (es_timer demo_wheel) ! i)" by (cases i) (simp_all add: demo_fields)
    show "e \<in> set (et_buckets (es_timer demo_wheel) ! i) \<longleftrightarrow> e \<and> unat (ev_timer_index (event_at demo_wheel e)) = i"
      using i by (cases i; cases e) (simp_all add: demo_fields)
  qed (simp_all add: t demo_fields(1))
  show "active_ok demo_wheel" by (simp add: active_ok_def demo_fields)
  have "remaining (es_timer demo_wheel) (event_at demo_wheel True) = 1"
    by (simp add: remaining_def demo_fields EVTIMER_INDEX_def)
  then show "due demo_wheel e = (if e then Some 1 else None)"
    by (cases e) (simp_all add: due_def demo_fields(4))
qed

lemma demo_due: "{e. due demo_wheel e = Some 1} = {True}"
  by (auto simp: demo_wheel_ok(3) split: if_splits)

theorem timer_dispatch_fires_due_witness:
  "\<exists>S'. evtimer_dispatch demo_wheel = Some (1, S') \<and> wheel_ok S' \<and> due S' True = None \<and> set (es_activelist S') = {True}"
proof -
  obtain S' where S': "evtimer_dispatch demo_wheel = Some (int (card {True}), S')" "wheel_ok S'"
      "due S' = (\<lambda>e. case due demo_wheel e of None \<Rightarrow> None | Some n \<Rightarrow> if n = 1 then None else Some (n - 1))"
      "set (es_activelist S') = set (es_activelist demo_wheel) \<union> {True}"
    using timer_dispatch_fires_due [OF demo_wheel_ok(1,2)] unfolding demo_due by blast
  show ?thesis
    by (rule exI [of _ S']) (simp add: S' demo_wheel_ok(3) demo_fields(2))
qed

theorem timer_fires_at_its_delay_witness:
  "\<exists>S1. event_queue_insert demo_wheel False EVSTATUS_TIMER = Some (0, S1) \<and>
    (\<exists>S2. dispatches 3 S1 = Some S2 \<and> due S2 False = Some 1)"
proof -
  have d: "delay (wheel_prec (es_timer demo_wheel)) (wheel_size (es_timer demo_wheel))
      (nat (sint (ev_timer_msecs (event_at demo_wheel False)))) = 4"
    by (simp add: demo_fields(8) demo_geom delay_def)
  have "\<not> has (ev_status (event_at demo_wheel False)) EVSTATUS_TIMER" "0 \<le> sint (ev_timer_msecs (event_at demo_wheel False))"
    by (simp_all add: demo_fields(4,8))
  from timer_fires_at_its_delay [OF demo_wheel_ok(1,2) this(1) demo_fields(5) this(2) demo_fields(3), of 3]
  show ?thesis unfolding d by auto
qed

theorem timer_late_by_a_revolution_witness:
  "\<exists>S1 S2. event_queue_insert demo_wheel False EVSTATUS_TIMER = Some (0, S1) \<and>
    dispatches 2 S1 = Some S2 \<and> due S2 False = Some 2"
proof -
  have "\<not> has (ev_status (event_at demo_wheel False)) EVSTATUS_TIMER"
    "sint (ev_timer_msecs (event_at demo_wheel False)) =
       int (1 * wheel_size (es_timer demo_wheel) * wheel_prec (es_timer demo_wheel) + 1)"
    "1 < wheel_prec (es_timer demo_wheel)"
    by (simp_all add: demo_fields(4,8) demo_geom)
  from timer_late_by_a_revolution [OF demo_wheel_ok(1,2) this(1) demo_fields(5) demo_fields(3) this(2) _ _ this(3)]
  show ?thesis by (auto simp: demo_geom)
qed

end
