(* ===== verification/EventOp.thy ===== *)
theory EventOp
  imports TimerWheel
begin

text \<open>
  The table of functions through which an event set uses its I/O back end (\<^verbatim>\<open>struct eventop\<close> of
  \<^verbatim>\<open>src/event-internal.h\<close>) and the contract the event set relies on, stated as a locale.
\<close>

section \<open>The table\<close>

text \<open>\<open>'w\<close> is the world the back end works on: the kernel and the allocator.\<close>

record ('e, 'cb, 'p, 'w) eventop =
  eo_init :: "'w \<Rightarrow> 'p option \<times> 'w"
  eo_add :: "'p \<Rightarrow> 'e \<Rightarrow> 'cb event \<Rightarrow> 'w \<Rightarrow> (int \<times> 'p \<times> 'w) option"
  eo_del :: "'p \<Rightarrow> 'e \<Rightarrow> 'cb event \<Rightarrow> 'w \<Rightarrow> (int \<times> 'p \<times> 'w) option"
  eo_dispatch :: "('e, 'cb, 'p) eventset \<Rightarrow> i32 \<Rightarrow> 'w \<Rightarrow> (int \<times> ('e, 'cb, 'p) eventset \<times> 'w) option"
  eo_final :: "'p \<Rightarrow> 'w \<Rightarrow> 'w"

section \<open>Several activations\<close>

definition activate_all :: "('e \<times> u16) list \<Rightarrow> ('e, 'cb, 'p) eventset \<Rightarrow> ('e, 'cb, 'p) eventset" where
  "activate_all acts S = fold (\<lambda>(e, res) S. activated S e res) acts S"

lemma activate_all_simps [simp]:
  "activate_all [] S = S"
  "activate_all ((e, res) # acts) S = activate_all acts (activated S e res)"
  "activate_all (acts @ acts') S = activate_all acts' (activate_all acts S)"
  by (simp_all add: activate_all_def)

lemma activate_all_fields [simp]:
  "es_timer (activate_all acts S) = es_timer S"
  "es_eventlist (activate_all acts S) = es_eventlist S"
  "es_poll (activate_all acts S) = es_poll S"
  "has (ev_status (event_at (activate_all acts S) d)) EVSTATUS_TIMER \<longleftrightarrow> has (ev_status (event_at S d)) EVSTATUS_TIMER"
  "has (ev_status (event_at (activate_all acts S) d)) EVSTATUS_INSERTED \<longleftrightarrow> has (ev_status (event_at S d)) EVSTATUS_INSERTED"
  "has (ev_status (event_at (activate_all acts S) d)) (NOT EVSTATUS_ALL) \<longleftrightarrow> has (ev_status (event_at S d)) (NOT EVSTATUS_ALL)"
  "ev_timer_msecs (event_at (activate_all acts S) d) = ev_timer_msecs (event_at S d)"
  "ev_evsets (event_at (activate_all acts S) d) = ev_evsets (event_at S d)"
  "ev_events (event_at (activate_all acts S) d) = ev_events (event_at S d)"
  "ev_fd (event_at (activate_all acts S) d) = ev_fd (event_at S d)"
  "ev_cb (event_at (activate_all acts S) d) = ev_cb (event_at S d)"
  "wheel_ok (activate_all acts S) \<longleftrightarrow> wheel_ok S" "due (activate_all acts S) = due S"
  by (induction acts arbitrary: S) auto

lemma activate_all_ok:
  assumes "active_ok S" "\<And>e res. (e, res) \<in> set acts \<Longrightarrow> ev_evsets (event_at S e)"
  shows "active_ok (activate_all acts S) \<and>
    set (es_activelist (activate_all acts S)) = set (es_activelist S) \<union> fst ` set acts"
  using assms
proof (induction acts arbitrary: S)
  case (Cons a acts)
  obtain e res where a: "a = (e, res)" by (cases a) auto
  have own: "ev_evsets (event_at S e)" using Cons.prems(2) [of e res] a by simp
  have "(d, r) \<in> set acts \<Longrightarrow> ev_evsets (event_at (activated S e res) d)" for d r
    using Cons.prems(2) [of d r] by simp
  then show ?case
    using Cons.IH [OF activated_ok(1) [OF Cons.prems(1) own, of res]] activated_ok(2) [OF Cons.prems(1) own, of res]
    by (auto simp: a)
qed simp

lemma activate_all_poll: "(activate_all acts S)\<lparr>es_poll := q\<rparr> = activate_all acts (S\<lparr>es_poll := q\<rparr>)"
proof (induction acts arbitrary: S)
  case (Cons a acts)
  have "(activated S e res)\<lparr>es_poll := q\<rparr> = activated (S\<lparr>es_poll := q\<rparr>) e res" for e res
    by (cases S) (simp add: activated_def Let_def)
  then show ?case using Cons by (cases a) simp
qed simp

section \<open>The contract\<close>

text \<open>Events that may be given to the back end.\<close>

definition watchable :: "'cb event \<Rightarrow> bool" where
  "watchable ev \<longleftrightarrow> 0 \<le> sint (ev_fd ev) \<and> sint (ev_fd ev) < 2 ^ 30 \<and>
     (has (ev_events ev) EV_READ \<or> has (ev_events ev) EV_WRITE)"

abbreviation (input) inserted :: "'cb event \<Rightarrow> bool" where
  "inserted ev \<equiv> has (ev_status ev) EVSTATUS_INSERTED"

text \<open>
  \<open>table_ok p evs\<close> says that the back end's table refers only to events that are inserted.  A new
  table is empty; adding an event that is then marked as inserted, or failing to add it, keeps this;
  deleting an event removes every reference to it; waiting only activates inserted events.
\<close>

locale io_backend =
  fixes ops :: "('e, 'cb, 'p, 'w) eventop"
    and table_ok :: "'p \<Rightarrow> ('e \<Rightarrow> 'cb event) \<Rightarrow> bool"
  assumes init_ok: "eo_init ops w = (Some p, w') \<Longrightarrow> (\<And>e. \<not> inserted (evs e)) \<Longrightarrow> table_ok p evs"
    and add_ok: "table_ok p evs \<Longrightarrow> \<not> inserted (evs e) \<Longrightarrow> watchable (evs e) \<Longrightarrow>
      \<exists>rc p' w'. eo_add ops p e (evs e) w = Some (rc, p', w') \<and>
        (rc \<noteq> 0 \<longrightarrow> table_ok p' evs) \<and>
        (rc = 0 \<longrightarrow> table_ok p' (evs(e := (evs e)\<lparr>ev_status := ev_status (evs e) OR EVSTATUS_INSERTED\<rparr>)))"
    and del_ok: "table_ok p evs \<Longrightarrow> inserted (evs e) \<Longrightarrow>
      \<exists>rc p' w'. eo_del ops p e ((evs e)\<lparr>ev_status := ev_status (evs e) AND NOT EVSTATUS_INSERTED\<rparr>) w = Some (rc, p', w') \<and>
        table_ok p' (evs(e := (evs e)\<lparr>ev_status := ev_status (evs e) AND NOT EVSTATUS_INSERTED\<rparr>))"
    and dispatch_ok: "table_ok (es_poll S) (es_events S) \<Longrightarrow> active_ok S \<Longrightarrow>
      (\<And>e. inserted (event_at S e) \<Longrightarrow> ev_evsets (event_at S e)) \<Longrightarrow>
      \<exists>acts res p' w'. eo_dispatch ops S tv w = Some (res, activate_all acts (S\<lparr>es_poll := p'\<rparr>), w') \<and>
        (\<forall>(e, r) \<in> set acts. inserted (event_at S e)) \<and> table_ok p' (es_events S)"
    and frame_ok: "table_ok p evs \<Longrightarrow>
      (\<And>e. ev_fd (evs' e) = ev_fd (evs e) \<and> ev_events (evs' e) = ev_events (evs e) \<and>
         (inserted (evs' e) \<longleftrightarrow> inserted (evs e))) \<Longrightarrow> table_ok p evs'"

end
