(* ===== verification/Epoll.thy ===== *)
theory Epoll
  imports EventOp
begin

text \<open>
  The epoll back end (\<^verbatim>\<open>src/epoll.c\<close>).  Epoll watches descriptors, the library watches events, so
  every descriptor has a pair of a reading and a writing event.  The kernel and the allocator are
  arguments: a record of functions on a world that they may change.
\<close>

section \<open>The system\<close>

text \<open>
  \<open>sys_alloc\<close> tells whether the next allocation succeeds; \<open>sys_epoll_ctl\<close> gets descriptor, operation,
  watched descriptor and event mask and returns an error number, if any; \<open>sys_epoll_wait\<close> gets
  descriptor, capacity and time-out and returns an error number or the ready descriptors with their
  masks.
\<close>

record 'w sys =
  sys_milliseconds :: "'w \<Rightarrow> int \<times> 'w"
  sys_alloc :: "'w \<Rightarrow> bool \<times> 'w"
  sys_epoll_create1 :: "'w \<Rightarrow> i32 \<times> 'w"
  sys_epoll_create :: "'w \<Rightarrow> i32 \<times> 'w"
  sys_set_cloexec :: "i32 \<Rightarrow> 'w \<Rightarrow> 'w"
  sys_close :: "i32 \<Rightarrow> 'w \<Rightarrow> 'w"
  sys_epoll_ctl :: "i32 \<Rightarrow> i32 \<Rightarrow> i32 \<Rightarrow> i32 \<Rightarrow> 'w \<Rightarrow> i32 option \<times> 'w"
  sys_epoll_wait :: "i32 \<Rightarrow> i32 \<Rightarrow> i32 \<Rightarrow> 'w \<Rightarrow> (i32 + (i32 \<times> i32) list) \<times> 'w"

definition EPOLLIN :: i32 where "EPOLLIN = 0x01"
definition EPOLLPRI :: i32 where "EPOLLPRI = 0x02"
definition EPOLLOUT :: i32 where "EPOLLOUT = 0x04"
definition EPOLLERR :: i32 where "EPOLLERR = 0x08"
definition EPOLLHUP :: i32 where "EPOLLHUP = 0x10"

definition EPOLL_CTL_ADD :: i32 where "EPOLL_CTL_ADD = 1"
definition EPOLL_CTL_DEL :: i32 where "EPOLL_CTL_DEL = 2"
definition EPOLL_CTL_MOD :: i32 where "EPOLL_CTL_MOD = 3"

definition ENOENT :: i32 where "ENOENT = 2"
definition EINTR :: i32 where "EINTR = 4"
definition EEXIST :: i32 where "EEXIST = 17"

definition INIT_EVENTS :: i32 where "INIT_EVENTS = 1024"
definition MAX_EPOLL_WAIT :: i32 where "MAX_EPOLL_WAIT = 35 * 60 * 1000"

section \<open>State\<close>

record 'e eventpair =
  evread :: "'e option"
  evwrite :: "'e option"

definition empty_pair :: "'e eventpair" where
  "empty_pair = \<lparr>evread = None, evwrite = None\<rparr>"

record 'e epoller =
  ep_npairs :: i32
  ep_evpairs :: "'e eventpair list"
  ep_nevents :: i32
  ep_events :: "(i32 \<times> i32) list"
  ep_epollfd :: i32

section \<open>Creation\<close>

text \<open>
  Both tables are requested before either is tested.  A poller whose tables are incomplete is
  finalised, which closes the descriptor.
\<close>

definition epoll_final :: "'w sys \<Rightarrow> i32 \<Rightarrow> 'w \<Rightarrow> 'w" where
  "epoll_final sys epollfd w = (if sint epollfd \<ge> 0 then sys_close sys epollfd w else w)"

definition epoll_init :: "'w sys \<Rightarrow> 'w \<Rightarrow> 'e epoller option \<times> 'w" where
  "epoll_init sys w =
     (let (epollfd, w) = sys_epoll_create1 sys w;
          (epollfd, w) =
            (if epollfd = - 1
             then let (epollfd, w) = sys_epoll_create sys w
                  in if epollfd = - 1 then (epollfd, w) else (epollfd, sys_set_cloexec sys epollfd w)
             else (epollfd, w))
      in if epollfd = - 1 then (None, w)
         else
           let (mem, w) = sys_alloc sys w
           in if \<not> mem then (None, sys_close sys epollfd w)
              else
                let (evpairs, w) = sys_alloc sys w; (events, w) = sys_alloc sys w
                in if \<not> evpairs \<or> \<not> events then (None, epoll_final sys epollfd w)
                   else (Some \<lparr>ep_npairs = INIT_EVENTS, ep_evpairs = replicate (unat INIT_EVENTS) empty_pair,
                           ep_nevents = INIT_EVENTS, ep_events = replicate (unat INIT_EVENTS) (0, 0),
                           ep_epollfd = epollfd\<rparr>, w))"

section \<open>Growing the tables\<close>

text \<open>
  The number of entries is multiplied by the size of an entry as \<^verbatim>\<open>size_t\<close>, so a negative number is
  a request above the largest block, which fails.
\<close>

definition epoll_expand :: "'w sys \<Rightarrow> 'e epoller \<Rightarrow> 'w \<Rightarrow> int \<times> 'e epoller \<times> 'w" where
  "epoll_expand sys self w =
     (let nevents = push_bit 1 (ep_nevents self);
          (mem, w) = sys_alloc sys w
      in if sint nevents < 0 \<or> \<not> mem then (- 1, self, w)
         else (0, self\<lparr>ep_nevents := nevents,
                    ep_events := mem_realloc (\<lambda>_. (0, 0)) (ep_events self) (unat nevents)\<rparr>, w))"

text \<open>Doubling until the descriptor fits; it does not return when the doubling reaches zero.\<close>

partial_function (option) grow_pairs :: "i32 \<Rightarrow> i32 \<Rightarrow> i32 option" where
  "grow_pairs npairs mx =
     (if sint npairs \<le> sint mx then grow_pairs (push_bit 1 npairs) mx else Some npairs)"

definition epoll_insert :: "'w sys \<Rightarrow> 'e epoller \<Rightarrow> i32 \<Rightarrow> 'w \<Rightarrow> (int \<times> 'e epoller \<times> 'w) option" where
  "epoll_insert sys self mx w = do {
     npairs \<leftarrow> grow_pairs (ep_npairs self) mx;
     let (mem, w) = sys_alloc sys w;
     (if \<not> mem then Some (- 1, self, w)
      else Some (0, self\<lparr>ep_evpairs := mem_realloc (\<lambda>_. empty_pair) (ep_evpairs self) (unat npairs),
             ep_npairs := npairs\<rparr>, w))
   }"

section \<open>Adding and deleting an event\<close>

definition epoll_add ::
  "'w sys \<Rightarrow> 'e epoller \<Rightarrow> 'e \<Rightarrow> 'cb event \<Rightarrow> 'w \<Rightarrow> (int \<times> 'e epoller \<times> 'w) option" where
  "epoll_add sys poller e ev w =
     (let fd = event_get_fd ev
      in if sint fd < 0 then Some (- 3, poller, w)
         else do {
           (rc, poller, w) \<leftarrow>
             (if sint fd \<ge> sint (ep_npairs poller) then epoll_insert sys poller fd w else Some (0, poller, w));
           (if rc \<noteq> 0 then Some (- 1, poller, w)
            else do {
              pair \<leftarrow> arr_get (ep_evpairs poller) (unat fd);
              let (events, op) = (0, EPOLL_CTL_ADD);
              let (events, op) = (if evread pair \<noteq> None then (events OR EPOLLIN, EPOLL_CTL_MOD) else (events, op));
              let (events, op) = (if evwrite pair \<noteq> None then (events OR EPOLLOUT, EPOLL_CTL_MOD) else (events, op));
              let events = (if has (ev_events ev) EV_READ then events OR EPOLLIN else events);
              let events = (if has (ev_events ev) EV_WRITE then events OR EPOLLOUT else events);
              let (rc, w) = sys_epoll_ctl sys (ep_epollfd poller) op fd events w;
              let (rc, w) =
                (if op = EPOLL_CTL_MOD \<and> rc = Some ENOENT
                 then sys_epoll_ctl sys (ep_epollfd poller) EPOLL_CTL_ADD fd events w
                 else if op = EPOLL_CTL_ADD \<and> rc = Some EEXIST
                 then sys_epoll_ctl sys (ep_epollfd poller) EPOLL_CTL_MOD fd events w
                 else (rc, w));
              (if rc \<noteq> None then Some (- 2, poller, w)
               else do {
                 let pair = (if has (ev_events ev) EV_READ then pair\<lparr>evread := Some e\<rparr> else pair);
                 let pair = (if has (ev_events ev) EV_WRITE then pair\<lparr>evwrite := Some e\<rparr> else pair);
                 evpairs \<leftarrow> arr_set (ep_evpairs poller) (unat fd) pair;
                 Some (0, poller\<lparr>ep_evpairs := evpairs\<rparr>, w)
               })
            })
         })"

text \<open>A negative descriptor is outside the table, and the access is a fault.\<close>

definition epoll_del ::
  "'w sys \<Rightarrow> 'e epoller \<Rightarrow> 'cb event \<Rightarrow> 'w \<Rightarrow> (int \<times> 'e epoller \<times> 'w) option" where
  "epoll_del sys poller ev w =
     (let fd = event_get_fd ev
      in if sint fd \<ge> sint (ep_npairs poller) then Some (- 1, poller, w)
         else do {
           pair \<leftarrow> (if sint fd < 0 then None else arr_get (ep_evpairs poller) (unat fd));
           let events = 0;
           let events = (if has (ev_events ev) EV_READ then events OR EPOLLIN else events);
           let events = (if has (ev_events ev) EV_WRITE then events OR EPOLLOUT else events);
           let (events, op, delread, delwrite) =
             (if events AND (EPOLLIN OR EPOLLOUT) \<noteq> (EPOLLIN OR EPOLLOUT)
              then if has events EPOLLIN \<and> evwrite pair \<noteq> None then (EPOLLOUT, EPOLL_CTL_MOD, True, False)
              else if has events EPOLLOUT \<and> evread pair \<noteq> None then (EPOLLIN, EPOLL_CTL_MOD, False, True)
              else (events, EPOLL_CTL_DEL, True, True)
              else (events, EPOLL_CTL_DEL, True, True));
           let pair = (if delread then pair\<lparr>evread := None\<rparr> else pair);
           let pair = (if delwrite then pair\<lparr>evwrite := None\<rparr> else pair);
           evpairs \<leftarrow> arr_set (ep_evpairs poller) (unat fd) pair;
           let (rc, w) = sys_epoll_ctl sys (ep_epollfd poller) op fd events w;
           Some (if rc \<noteq> None then - 2 else 0, poller\<lparr>ep_evpairs := evpairs\<rparr>, w)
         })"

section \<open>Waiting\<close>

text \<open>The events one ready descriptor activates.\<close>

definition ready_events :: "'e epoller \<Rightarrow> i32 \<Rightarrow> i32 \<Rightarrow> ('e option \<times> 'e option) option" where
  "ready_events poller fd what =
     (if sint fd < 0 \<or> sint fd \<ge> sint (ep_npairs poller) then Some (None, None)
      else do {
        pair \<leftarrow> arr_get (ep_evpairs poller) (unat fd);
        Some (if has what (EPOLLHUP OR EPOLLERR) then (evread pair, evwrite pair)
              else (if has what (EPOLLIN OR EPOLLPRI) then evread pair else None,
                    if has what EPOLLOUT then evwrite pair else None))
      })"

fun activate_ready ::
  "'e epoller \<Rightarrow> (i32 \<times> i32) list \<Rightarrow> ('e, 'cb, 'p) eventset \<Rightarrow> ('e, 'cb, 'p) eventset option" where
  "activate_ready poller [] S = Some S"
| "activate_ready poller ((fd, what) # ready) S = do {
     (r, wr) \<leftarrow> ready_events poller fd what;
     S \<leftarrow> (case r of None \<Rightarrow> Some S | Some e \<Rightarrow> map_option snd (event_active S e EV_READ));
     S \<leftarrow> (case wr of None \<Rightarrow> Some S | Some e \<Rightarrow> map_option snd (event_active S e EV_WRITE));
     activate_ready poller ready S
   }"

text \<open>The kernel stores at most as many entries as it is asked for.\<close>

definition epoll_dispatch ::
  "'w sys \<Rightarrow> ('e, 'cb, 'e epoller) eventset \<Rightarrow> i32 \<Rightarrow> 'w \<Rightarrow> (int \<times> ('e, 'cb, 'e epoller) eventset \<times> 'w) option" where
  "epoll_dispatch sys S tv w =
     (let poller = es_poll S;
          tv = (if sint tv > sint MAX_EPOLL_WAIT then MAX_EPOLL_WAIT else tv);
          (res, w) = sys_epoll_wait sys (ep_epollfd poller) (ep_nevents poller) tv w
      in case res of
           Inl err \<Rightarrow> Some (if err \<noteq> EINTR then - 1 else 0, S, w)
         | Inr ready \<Rightarrow> do {
             let ready = take (unat (ep_nevents poller)) ready;
             let poller = poller\<lparr>ep_events := ready @ drop (length ready) (ep_events poller)\<rparr>;
             S \<leftarrow> activate_ready poller (take (length ready) (ep_events poller)) (S\<lparr>es_poll := poller\<rparr>);
             let (poller, w) =
               (if length ready = unat (ep_nevents poller)
                then let (_, poller, w) = epoll_expand sys poller w in (poller, w)
                else (poller, w));
             Some (int (length ready), S\<lparr>es_poll := poller\<rparr>, w)
           })"

section \<open>The tables stay well formed\<close>

text \<open>Descriptors the pair table can grow to: doubling 1024 reaches 2^30.\<close>

definition fd_ok :: "i32 \<Rightarrow> bool" where
  "fd_ok fd \<longleftrightarrow> 0 \<le> sint fd \<and> sint fd < 2 ^ 30"

definition poller_ok :: "'e epoller \<Rightarrow> bool" where
  "poller_ok p \<longleftrightarrow> (\<exists>k \<le> 30. unat (ep_npairs p) = 2 ^ k) \<and> length (ep_evpairs p) = unat (ep_npairs p) \<and>
     (\<exists>k \<le> 30. unat (ep_nevents p) = 2 ^ k) \<and> length (ep_events p) = unat (ep_nevents p)"

lemma pow2_word:
  assumes "unat (w :: i32) = 2 ^ k" "k \<le> 30"
  shows "sint w = 2 ^ k" "w = 2 ^ k" "\<not> sint w < 0"
proof -
  have "(2::nat) ^ k \<le> 2 ^ 30" using assms(2) by (intro power_increasing) auto
  then have "unat w < 2 ^ 31" using assms(1) by simp
  then show s: "sint w = 2 ^ k" using assms(1) by (simp add: sint_small)
  have "w = of_nat (unat w)" by simp
  then show "w = 2 ^ k" using assms(1) by simp
  show "\<not> sint w < 0" by (simp add: s)
qed

lemma pow2_unat: "k \<le> 31 \<Longrightarrow> unat (2 ^ k :: i32) = 2 ^ k"
proof -
  assume "k \<le> 31"
  then have "(2::nat) ^ k < 2 ^ 32" by (intro power_strict_increasing) auto
  then have "(2::nat) ^ k mod 2 ^ LENGTH(32) = 2 ^ k" by (intro mod_less) simp
  then have "unat (of_nat (2 ^ k) :: i32) = 2 ^ k" by (simp only: unat_of_nat)
  then show ?thesis by simp
qed

lemma grow_pairs_ok:
  assumes "unat n = 2 ^ k" "k \<le> 30" "sint mx < 2 ^ 30"
  shows "\<exists>j \<ge> k. j \<le> 30 \<and> grow_pairs n mx = Some (2 ^ j) \<and> sint mx < 2 ^ j"
  using assms
proof (induction "30 - k" arbitrary: n k)
  case 0
  then have "k = 30" by simp
  then show ?case using 0 pow2_word [of n k] by (subst grow_pairs.simps) auto
next
  case (Suc d)
  have n: "n = 2 ^ k" "sint n = 2 ^ k" using pow2_word Suc.prems by auto
  have k: "k < 30" using Suc.hyps(2) by simp
  show ?case
  proof (cases "sint n \<le> sint mx")
    case True
    have "push_bit 1 n = 2 ^ Suc k" by (simp add: n(1) push_bit_eq_mult)
    moreover have "unat (2 ^ Suc k :: i32) = 2 ^ Suc k" using k by (intro pow2_unat) simp
    moreover have "d = 30 - Suc k" using Suc.hyps(2) by simp
    ultimately obtain j where "Suc k \<le> j" "j \<le> 30" "grow_pairs (push_bit 1 n) mx = Some (2 ^ j)" "sint mx < 2 ^ j"
      using Suc.hyps(1) [of "Suc k" "push_bit 1 n"] k Suc.prems(3) by auto
    then show ?thesis using True by (subst grow_pairs.simps) (auto intro!: exI [of _ j])
  next
    case False
    then show ?thesis using n k by (subst grow_pairs.simps) (auto intro!: exI [of _ k])
  qed
qed

text \<open>The pair of a descriptor; descriptors outside the table have no events.\<close>

definition pair_at :: "'e epoller \<Rightarrow> i32 \<Rightarrow> 'e eventpair" where
  "pair_at p fd = (if unat fd < length (ep_evpairs p) then ep_evpairs p ! unat fd else empty_pair)"

lemma npairs_bounds:
  assumes "poller_ok p" "0 \<le> sint (fd :: i32)"
  shows "sint fd < sint (ep_npairs p) \<longleftrightarrow> unat fd < length (ep_evpairs p)"
proof -
  obtain k where "k \<le> 30" "unat (ep_npairs p) = 2 ^ k" "length (ep_evpairs p) = 2 ^ k"
    using assms(1) by (auto simp: poller_ok_def)
  moreover have "sint fd = int (unat fd)" using assms(2) by (rule sint_nonneg_unat)
  moreover have "int (unat fd) < int (2 ^ k) \<longleftrightarrow> unat fd < 2 ^ k" by (simp only: of_nat_less_iff)
  ultimately show ?thesis using pow2_word(1) by auto
qed

lemma epoll_insert_ok:
  assumes p: "poller_ok p" and fd: "fd_ok fd"
  obtains p' where
    "epoll_insert sys p fd w = Some (if fst (sys_alloc sys w) then 0 else - 1, p', snd (sys_alloc sys w))"
    "poller_ok p'" "pair_at p' = pair_at p" "ep_epollfd p' = ep_epollfd p"
    "fst (sys_alloc sys w) \<Longrightarrow> unat fd < length (ep_evpairs p')" "ep_nevents p' = ep_nevents p"
proof -
  obtain k where k: "k \<le> 30" "unat (ep_npairs p) = 2 ^ k" "length (ep_evpairs p) = 2 ^ k"
    using p by (auto simp: poller_ok_def)
  obtain j where j: "k \<le> j" "j \<le> 30" "grow_pairs (ep_npairs p) fd = Some (2 ^ j)" "sint fd < 2 ^ j"
    using grow_pairs_ok [OF k(2,1), of fd] fd by (auto simp: fd_ok_def)
  have u: "unat (2 ^ j :: i32) = 2 ^ j" using j(2) by (intro pow2_unat) simp
  have le: "(2::nat) ^ k \<le> 2 ^ j" using j(1) by (intro power_increasing) auto
  define p' where "p' = p\<lparr>ep_evpairs := ep_evpairs p @ replicate (2 ^ j - 2 ^ k) empty_pair, ep_npairs := 2 ^ j\<rparr>"
  have eq: "epoll_insert sys p fd w = (if fst (sys_alloc sys w) then Some (0, p', snd (sys_alloc sys w))
      else Some (- 1, p, snd (sys_alloc sys w)))"
    using le by (cases "sys_alloc sys w") (simp add: epoll_insert_def j(3) mem_realloc_grow k(3) u p'_def map_replicate_const)
  have ok: "poller_ok p'" using p j(2) u le k by (auto simp: poller_ok_def p'_def)
  have pr: "pair_at p' = pair_at p" using k(3) le order_less_le_trans [OF _ le] by (auto simp: pair_at_def p'_def fun_eq_iff nth_append)
  have "unat fd < 2 ^ j"
  proof -
    have "sint fd = int (unat fd)" using fd by (intro sint_nonneg_unat) (simp add: fd_ok_def)
    then have "int (unat fd) < int (2 ^ j)" using j(4) by simp
    then show ?thesis by (simp only: of_nat_less_iff)
  qed
  then have "unat fd < length (ep_evpairs p')" using le k(3) by (simp add: p'_def)
  then show thesis
    using that [of p'] that [of p] eq ok pr p by (cases "fst (sys_alloc sys w)") (simp_all add: p'_def)
qed

section \<open>The kernel watches what the table says\<close>

text \<open>
  The documented behaviour of \<^verbatim>\<open>epoll_ctl\<close> on the set of watched descriptors \<open>interest\<close>: a watched
  descriptor cannot be added (EEXIST), an unwatched one cannot be modified or deleted (ENOENT), a
  success has its effect and a failure has none.  Allocating memory does not concern it.
\<close>

definition epoll_kernel :: "'w sys \<Rightarrow> ('w \<Rightarrow> i32 \<Rightarrow> i32 \<Rightarrow> i32 option) \<Rightarrow> bool" where
  "epoll_kernel sys interest \<longleftrightarrow>
     (\<forall>w. interest (snd (sys_alloc sys w)) = interest w) \<and>
     (\<forall>epfd fd events w rc w'. sys_epoll_ctl sys epfd EPOLL_CTL_ADD fd events w = (rc, w') \<longrightarrow>
        (if interest w epfd fd \<noteq> None then rc = Some EEXIST else rc \<noteq> Some EEXIST) \<and>
        interest w' = (if rc = None then (interest w)(epfd := (interest w epfd)(fd \<mapsto> events)) else interest w)) \<and>
     (\<forall>epfd fd events w rc w'. sys_epoll_ctl sys epfd EPOLL_CTL_MOD fd events w = (rc, w') \<longrightarrow>
        (if interest w epfd fd = None then rc = Some ENOENT else rc \<noteq> Some ENOENT) \<and>
        interest w' = (if rc = None then (interest w)(epfd := (interest w epfd)(fd \<mapsto> events)) else interest w)) \<and>
     (\<forall>epfd fd events w rc w'. sys_epoll_ctl sys epfd EPOLL_CTL_DEL fd events w = (rc, w') \<longrightarrow>
        (if interest w epfd fd = None then rc = Some ENOENT else rc \<noteq> Some ENOENT) \<and>
        interest w' = (if rc = None then (interest w)(epfd := (interest w epfd)(fd := None)) else interest w))"

text \<open>What a pair asks the kernel for.\<close>

definition pair_mask :: "'e eventpair \<Rightarrow> i32 option" where
  "pair_mask pair =
     (if evread pair = None \<and> evwrite pair = None then None
      else Some ((if evread pair \<noteq> None then EPOLLIN else 0) OR (if evwrite pair \<noteq> None then EPOLLOUT else 0)))"

definition watch_ok :: "('w \<Rightarrow> i32 \<Rightarrow> i32 \<Rightarrow> i32 option) \<Rightarrow> 'e epoller \<Rightarrow> 'w \<Rightarrow> bool" where
  "watch_ok interest p w \<longleftrightarrow> (\<forall>fd. 0 \<le> sint fd \<longrightarrow> interest w (ep_epollfd p) fd = pair_mask (pair_at p fd))"

definition pair_add :: "'e \<Rightarrow> u16 \<Rightarrow> 'e eventpair \<Rightarrow> 'e eventpair" where
  "pair_add e evs pair =
     \<lparr>evread = (if has evs EV_READ then Some e else evread pair),
      evwrite = (if has evs EV_WRITE then Some e else evwrite pair)\<rparr>"

text \<open>
  Deletion clears the side of the event, or both sides, unless the other side has an event and the
  deleted one is on one side only.
\<close>

definition pair_del :: "u16 \<Rightarrow> 'e eventpair \<Rightarrow> 'e eventpair" where
  "pair_del evs pair =
     (if has evs EV_READ \<and> \<not> has evs EV_WRITE then pair\<lparr>evread := None\<rparr>
      else if has evs EV_WRITE \<and> \<not> has evs EV_READ then pair\<lparr>evwrite := None\<rparr>
      else empty_pair)"

lemma poller_set_pair:
  assumes "poller_ok p" "unat fd < length (ep_evpairs p)"
  shows "poller_ok (p\<lparr>ep_evpairs := (ep_evpairs p)[unat fd := x]\<rparr>)"
    "pair_at (p\<lparr>ep_evpairs := (ep_evpairs p)[unat fd := x]\<rparr>) = (pair_at p)(fd := x)"
  using assms by (auto simp: poller_ok_def pair_at_def fun_eq_iff nth_list_update dest: word_unat_eq_iff [THEN iffD2])

lemma watch_update:
  assumes "watch_ok interest p w" "interest w' = (interest w)(ep_epollfd p := (interest w (ep_epollfd p))(fd := pair_mask x))"
    "pair_at p' = (pair_at p)(fd := x)" "ep_epollfd p' = ep_epollfd p"
  shows "watch_ok interest p' w'"
  using assms by (simp add: watch_ok_def)

lemma watch_same:
  assumes "watch_ok interest p w" "interest w' = interest w" "pair_at p' = pair_at p" "ep_epollfd p' = ep_epollfd p"
  shows "watch_ok interest p' w'"
  using assms by (simp add: watch_ok_def)

lemma epoll_kernelD:
  assumes "epoll_kernel sys interest"
  shows "interest (snd (sys_alloc sys w)) = interest w"
    "sys_epoll_ctl sys epfd EPOLL_CTL_ADD fd events w = (rc, w') \<Longrightarrow>
      (if interest w epfd fd \<noteq> None then rc = Some EEXIST else rc \<noteq> Some EEXIST) \<and>
        interest w' = (if rc = None then (interest w)(epfd := (interest w epfd)(fd \<mapsto> events)) else interest w)"
    "sys_epoll_ctl sys epfd EPOLL_CTL_MOD fd events w = (rc, w') \<Longrightarrow>
      (if interest w epfd fd = None then rc = Some ENOENT else rc \<noteq> Some ENOENT) \<and>
        interest w' = (if rc = None then (interest w)(epfd := (interest w epfd)(fd \<mapsto> events)) else interest w)"
    "sys_epoll_ctl sys epfd EPOLL_CTL_DEL fd events w = (rc, w') \<Longrightarrow>
      (if interest w epfd fd = None then rc = Some ENOENT else rc \<noteq> Some ENOENT) \<and>
        interest w' = (if rc = None then (interest w)(epfd := (interest w epfd)(fd := None)) else interest w)"
  using assms unfolding epoll_kernel_def by blast+

text \<open>The operation \<open>epoll_add\<close> asks for, and the retry that a kernel in step with the table never needs.\<close>

definition ctl_add :: "'w sys \<Rightarrow> i32 \<Rightarrow> i32 \<Rightarrow> 'e eventpair \<Rightarrow> i32 \<Rightarrow> 'w \<Rightarrow> i32 option \<times> 'w" where
  "ctl_add sys epfd fd pair events w =
     (let op = (if pair_mask pair = None then EPOLL_CTL_ADD else EPOLL_CTL_MOD);
          (rc, w) = sys_epoll_ctl sys epfd op fd events w
      in if op = EPOLL_CTL_MOD \<and> rc = Some ENOENT then sys_epoll_ctl sys epfd EPOLL_CTL_ADD fd events w
         else if op = EPOLL_CTL_ADD \<and> rc = Some EEXIST then sys_epoll_ctl sys epfd EPOLL_CTL_MOD fd events w
         else (rc, w))"

lemma ctl_add_ok:
  assumes k: "epoll_kernel sys interest" and i: "interest w epfd fd = pair_mask pair"
    and c: "ctl_add sys epfd fd pair events w = (rc, w')"
  shows "interest w' = (if rc = None then (interest w)(epfd := (interest w epfd)(fd \<mapsto> events)) else interest w)"
proof -
  have ops: "EPOLL_CTL_ADD \<noteq> EPOLL_CTL_MOD" "EPOLL_CTL_MOD \<noteq> EPOLL_CTL_ADD"
    by (simp_all add: EPOLL_CTL_ADD_def EPOLL_CTL_MOD_def)
  show ?thesis
  proof (cases "pair_mask pair")
    case None
    obtain rc1 w1 where 1: "sys_epoll_ctl sys epfd EPOLL_CTL_ADD fd events w = (rc1, w1)" by fastforce
    then have "rc1 \<noteq> Some EEXIST" using epoll_kernelD(2) [OF k 1] None i by simp
    then have "rc1 = rc" "w1 = w'" using c None 1 ops by (simp_all add: ctl_add_def)
    then show ?thesis using epoll_kernelD(2) [OF k 1] by simp
  next
    case (Some m)
    obtain rc1 w1 where 1: "sys_epoll_ctl sys epfd EPOLL_CTL_MOD fd events w = (rc1, w1)" by fastforce
    then have "rc1 \<noteq> Some ENOENT" using epoll_kernelD(3) [OF k 1] Some i by simp
    then have "rc1 = rc" "w1 = w'" using c Some 1 ops by (simp_all add: ctl_add_def)
    then show ?thesis using epoll_kernelD(3) [OF k 1] by simp
  qed
qed

lemma epoll_add_eq:
  fixes e :: 'e and p :: "'e epoller"
  assumes "fd_ok (ev_fd ev)" "has (ev_events ev) EV_READ \<or> has (ev_events ev) EV_WRITE"
    and "unat (ev_fd ev) < length (ep_evpairs p)" "sint (ev_fd ev) < sint (ep_npairs p)"
  defines "fd \<equiv> ev_fd ev" and "x \<equiv> pair_add e (ev_events ev) (pair_at p (ev_fd ev))"
  shows "epoll_add sys p e ev w =
    (let (rc, w) = ctl_add sys (ep_epollfd p) fd (pair_at p fd) (the (pair_mask x)) w
     in Some (if rc = None then (0, p\<lparr>ep_evpairs := (ep_evpairs p)[unat fd := x]\<rparr>, w) else (- 2, p, w)))"
proof -
  obtain r wr where pr: "pair_at p fd = \<lparr>evread = r, evwrite = wr\<rparr>" by (cases "pair_at p fd") auto
  have get: "arr_get (ep_evpairs p) (unat fd) = Some \<lparr>evread = r, evwrite = wr\<rparr>"
    using assms(3) pr by (simp add: fd_def pair_at_def)
  have x: "x = \<lparr>evread = (if has (ev_events ev) EV_READ then Some e else r),
      evwrite = (if has (ev_events ev) EV_WRITE then Some e else wr)\<rparr>"
    by (simp add: x_def pair_add_def pr flip: fd_def)
  have "\<not> sint fd < 0" "\<not> sint fd \<ge> sint (ep_npairs p)" using assms(1,4) by (auto simp: fd_def fd_ok_def)
  then show ?thesis
    using assms(2,3)
    unfolding epoll_add_def event_get_fd_def fd_def [symmetric] Let_def pr
    by (cases r; cases wr; cases "has (ev_events ev) EV_READ"; cases "has (ev_events ev) EV_WRITE")
      (simp_all add: get x ctl_add_def pair_mask_def EPOLLIN_def EPOLLOUT_def EPOLL_CTL_ADD_def EPOLL_CTL_MOD_def
         split: prod.splits)
qed

lemma pair_mask_add: "has evs EV_READ \<or> has evs EV_WRITE \<Longrightarrow> pair_mask (pair_add e evs pair) \<noteq> None"
  by (auto simp: pair_mask_def pair_add_def)

text \<open>Adding an event in range.\<close>

lemma epoll_add_in_range:
  assumes k: "epoll_kernel sys interest" and p: "poller_ok p" and wa: "watch_ok interest p w"
    and ev: "fd_ok (ev_fd ev)" "has (ev_events ev) EV_READ \<or> has (ev_events ev) EV_WRITE"
    and r: "unat (ev_fd ev) < length (ep_evpairs p)"
  obtains rc p' w' where "epoll_add sys p e ev w = Some (rc, p', w')" "rc = 0 \<or> rc = - 2"
    "poller_ok p'" "watch_ok interest p' w'" "ep_epollfd p' = ep_epollfd p"
    "pair_at p' = (if rc = 0 then (pair_at p)(ev_fd ev := pair_add e (ev_events ev) (pair_at p (ev_fd ev))) else pair_at p)"
proof -
  define fd where "fd = ev_fd ev"
  define x where "x = pair_add e (ev_events ev) (pair_at p fd)"
  have fd0: "0 \<le> sint fd" using ev(1) by (simp add: fd_def fd_ok_def)
  have s: "sint fd < sint (ep_npairs p)" using npairs_bounds [OF p fd0] r by (simp add: fd_def)
  obtain rc w' where c: "ctl_add sys (ep_epollfd p) fd (pair_at p fd) (the (pair_mask x)) w = (rc, w')" by fastforce
  have eq: "epoll_add sys p e ev w =
      Some (if rc = None then (0, p\<lparr>ep_evpairs := (ep_evpairs p)[unat fd := x]\<rparr>, w') else (- 2, p, w'))"
    using epoll_add_eq [OF ev r s [unfolded fd_def], of sys e w, folded fd_def, folded x_def] c by simp
  have i: "interest w (ep_epollfd p) fd = pair_mask (pair_at p fd)" using wa fd0 by (simp add: watch_ok_def)
  have m: "Some (the (pair_mask x)) = pair_mask x" using pair_mask_add [OF ev(2), of e "pair_at p fd"] by (simp add: x_def)
  note up = ctl_add_ok [OF k i c, unfolded m]
  note set = poller_set_pair [OF p r, folded fd_def, of x]
  show thesis
  proof (cases rc)
    case None
    show thesis
      by (rule that [of 0 "p\<lparr>ep_evpairs := (ep_evpairs p)[unat fd := x]\<rparr>" w'])
        (use eq None set up watch_update [OF wa, of w' fd x] in \<open>simp_all add: x_def flip: fd_def\<close>)
  next
    case (Some err)
    show thesis
      by (rule that [of "- 2" p w']) (use eq Some p up watch_same [OF wa, of w'] in simp_all)
  qed
qed

text \<open>
  C33: adding a reading or writing event to epoll returns 0, -1 (no memory) or -2 (the kernel
  refused); the table grows as needed and keeps the pairs of all other descriptors; exactly when it
  returns 0 the pair of the descriptor has the event on the sides it asks for, and the kernel keeps
  watching exactly what the table says.\<close>

theorem epoll_add_correct:
  assumes "epoll_kernel sys interest" "poller_ok p" "watch_ok interest p w" "fd_ok (ev_fd ev)"
    and "has (ev_events ev) EV_READ \<or> has (ev_events ev) EV_WRITE"
  shows "\<exists>rc p' w'. epoll_add sys p e ev w = Some (rc, p', w') \<and> rc \<in> {0, - 1, - 2} \<and>
    poller_ok p' \<and> watch_ok interest p' w' \<and>
    pair_at p' = (if rc = 0 then (pair_at p)(ev_fd ev := pair_add e (ev_events ev) (pair_at p (ev_fd ev))) else pair_at p)"
proof (cases "unat (ev_fd ev) < length (ep_evpairs p)")
  case True
  then show ?thesis by (rule epoll_add_in_range [OF assms, of e]) auto
next
  case False
  have fd0: "0 \<le> sint (ev_fd ev)" using assms(4) by (simp add: fd_ok_def)
  then have ge: "sint (ev_fd ev) \<ge> sint (ep_npairs p)" using npairs_bounds [OF assms(2) fd0] False by linarith
  obtain p1 where p1: "epoll_insert sys p (ev_fd ev) w =
        Some (if fst (sys_alloc sys w) then 0 else - 1, p1, snd (sys_alloc sys w))"
      "poller_ok p1" "pair_at p1 = pair_at p" "ep_epollfd p1 = ep_epollfd p"
      "fst (sys_alloc sys w) \<Longrightarrow> unat (ev_fd ev) < length (ep_evpairs p1)"
    using epoll_insert_ok [OF assms(2,4)] by metis
  have w1: "watch_ok interest p1 (snd (sys_alloc sys w))"
    by (rule watch_same [OF assms(3) epoll_kernelD(1) [OF assms(1)] p1(3,4)])
  show ?thesis
  proof (cases "fst (sys_alloc sys w)")
    case True
    note r = p1(5) [OF True]
    have "\<not> sint (ev_fd ev) \<ge> sint (ep_npairs p1)" using npairs_bounds [OF p1(2) fd0] r by simp
    then have "epoll_add sys p e ev w = epoll_add sys p1 e ev (snd (sys_alloc sys w))"
      using fd0 ge p1(1) True unfolding epoll_add_def event_get_fd_def by simp
    then show ?thesis
      using epoll_add_in_range [OF assms(1) p1(2) w1 assms(4,5) r, of e] p1(3) by (metis insertI1 insertCI)
  next
    case False
    then have "epoll_add sys p e ev w = Some (- 1, p1, snd (sys_alloc sys w))"
      using fd0 ge p1(1) unfolding epoll_add_def event_get_fd_def by simp
    then show ?thesis using p1 w1 by auto
  qed
qed

lemma epoll_masks:
  "EPOLLIN \<noteq> EPOLLIN OR EPOLLOUT" "EPOLLOUT \<noteq> EPOLLIN OR EPOLLOUT" "EPOLLIN OR EPOLLOUT \<noteq> 0" "0 \<noteq> EPOLLIN OR EPOLLOUT"
  "EPOLLIN AND (EPOLLIN OR EPOLLOUT) = EPOLLIN" "EPOLLOUT AND (EPOLLIN OR EPOLLOUT) = EPOLLOUT"
  "\<not> has (0 OR EPOLLIN) EPOLLOUT" "\<not> has EPOLLIN EPOLLOUT" "\<not> has EPOLLOUT EPOLLIN" "has EPOLLIN EPOLLIN" "has EPOLLOUT EPOLLOUT"
  "has (0 OR EPOLLIN) EPOLLIN" "\<not> has 0 EPOLLIN" "\<not> has (0 OR EPOLLOUT) EPOLLIN" "has (0 OR EPOLLOUT) EPOLLOUT" "\<not> has 0 EPOLLOUT"
  "(0 OR EPOLLIN OR EPOLLOUT) AND (EPOLLIN OR EPOLLOUT) = EPOLLIN OR EPOLLOUT"
  "(0 OR EPOLLIN) AND (EPOLLIN OR EPOLLOUT) \<noteq> EPOLLIN OR EPOLLOUT"
  "(0 OR EPOLLOUT) AND (EPOLLIN OR EPOLLOUT) \<noteq> EPOLLIN OR EPOLLOUT"
  "0 AND (EPOLLIN OR EPOLLOUT) \<noteq> EPOLLIN OR EPOLLOUT"
  by (simp_all add: has_def EPOLLIN_def EPOLLOUT_def)

lemma epoll_del_eq:
  assumes "poller_ok p" "0 \<le> sint (ev_fd ev)" "unat (ev_fd ev) < length (ep_evpairs p)"
  defines "x \<equiv> pair_del (ev_events ev) (pair_at p (ev_fd ev))"
  obtains evs where "pair_mask x = None \<or> pair_mask x = Some evs"
    "epoll_del sys p ev w =
      (let (rc, w) = sys_epoll_ctl sys (ep_epollfd p) (if pair_mask x = None then EPOLL_CTL_DEL else EPOLL_CTL_MOD)
             (ev_fd ev) evs w
       in Some (if rc \<noteq> None then - 2 else 0, p\<lparr>ep_evpairs := (ep_evpairs p)[unat (ev_fd ev) := x]\<rparr>, w))"
proof -
  define fd where "fd = ev_fd ev"
  obtain r wr where pr: "pair_at p fd = \<lparr>evread = r, evwrite = wr\<rparr>" by (cases "pair_at p fd") auto
  have get: "arr_get (ep_evpairs p) (unat fd) = Some \<lparr>evread = r, evwrite = wr\<rparr>"
    using assms(3) pr by (simp add: fd_def pair_at_def)
  have s: "\<not> sint fd \<ge> sint (ep_npairs p)" "\<not> sint fd < 0"
    using npairs_bounds [OF assms(1,2)] assms(2,3) by (simp_all add: fd_def)
  have x: "x = pair_del (ev_events ev) \<lparr>evread = r, evwrite = wr\<rparr>" by (simp add: x_def pr flip: fd_def)
  define op where "op = (if pair_mask x = None then EPOLL_CTL_DEL else EPOLL_CTL_MOD)"
  define p' where "p' = p\<lparr>ep_evpairs := (ep_evpairs p)[unat fd := x]\<rparr>"
  define evs :: i32 where "evs =
    (if has (ev_events ev) EV_READ then
       if has (ev_events ev) EV_WRITE then EPOLLIN OR EPOLLOUT else if wr \<noteq> None then EPOLLOUT else EPOLLIN
     else if has (ev_events ev) EV_WRITE then if r \<noteq> None then EPOLLIN else EPOLLOUT else 0)"
  have 1: "pair_mask x = None \<or> pair_mask x = Some evs"
    by (cases "has (ev_events ev) EV_READ"; cases "has (ev_events ev) EV_WRITE"; cases wr; cases r)
      (simp_all add: x pair_del_def pair_mask_def evs_def empty_pair_def)
  have 2: "epoll_del sys p ev w = (let (rc, w) = sys_epoll_ctl sys (ep_epollfd p) op fd evs w
       in Some (if rc \<noteq> None then - 2 else 0, p', w))"
    using s assms(3) unfolding epoll_del_def event_get_fd_def fd_def [symmetric] Let_def
    by (cases "has (ev_events ev) EV_READ"; cases "has (ev_events ev) EV_WRITE"; cases wr; cases r)
      (simp_all add: get epoll_masks x pair_del_def pair_mask_def op_def p'_def evs_def empty_pair_def)
  from 1 2 show thesis unfolding op_def p'_def fd_def by (rule that)
qed

text \<open>
  Deleting an event from epoll clears the sides of its pair that it was on, leaves the event
  on the other side watched, and when it returns 0 the kernel watches exactly what the table says.\<close>

theorem epoll_del_correct:
  assumes "epoll_kernel sys interest" "poller_ok p" "watch_ok interest p w" "0 \<le> sint (ev_fd ev)"
    and "unat (ev_fd ev) < length (ep_evpairs p)"
  shows "\<exists>rc p' w'. epoll_del sys p ev w = Some (rc, p', w') \<and> poller_ok p' \<and>
    pair_at p' = (pair_at p)(ev_fd ev := pair_del (ev_events ev) (pair_at p (ev_fd ev))) \<and>
    (rc = 0 \<longrightarrow> watch_ok interest p' w')"
proof -
  define fd where "fd = ev_fd ev"
  define x where "x = pair_del (ev_events ev) (pair_at p fd)"
  define p' where "p' = p\<lparr>ep_evpairs := (ep_evpairs p)[unat fd := x]\<rparr>"
  define op where "op = (if pair_mask x = None then EPOLL_CTL_DEL else EPOLL_CTL_MOD)"
  obtain evs where evs: "pair_mask x = None \<or> pair_mask x = Some evs"
    and eq: "epoll_del sys p ev w = (let (rc, w) = sys_epoll_ctl sys (ep_epollfd p) op fd evs w
       in Some (if rc \<noteq> None then - 2 else 0, p', w))"
    by (rule epoll_del_eq [OF assms(2,4,5), of sys w, folded fd_def, folded x_def, folded op_def p'_def])
  note set = poller_set_pair [OF assms(2,5), folded fd_def, of x, folded p'_def]
  obtain rc w' where c: "sys_epoll_ctl sys (ep_epollfd p) op fd evs w = (rc, w')" by fastforce
  have "watch_ok interest p' w'" if "rc = None"
  proof (rule watch_update [OF assms(3)])
    show "interest w' = (interest w)(ep_epollfd p := (interest w (ep_epollfd p))(fd := pair_mask x))"
      using that c evs epoll_kernelD(3,4) [OF assms(1)] by (auto simp: op_def split: if_splits)
    show "pair_at p' = (pair_at p)(fd := x)" by (rule set)
  qed (simp add: p'_def)
  then show ?thesis using eq c set by (auto simp: x_def fd_def)
qed

section \<open>The events of a wait\<close>

definition opt_act :: "'e option \<Rightarrow> u16 \<Rightarrow> ('e \<times> u16) list" where
  "opt_act x res = (case x of None \<Rightarrow> [] | Some e \<Rightarrow> [(e, res)])"

text \<open>The activations a list of ready descriptors asks for, in order.\<close>

definition ready_acts :: "'e epoller \<Rightarrow> (i32 \<times> i32) list \<Rightarrow> ('e \<times> u16) list" where
  "ready_acts p ready = concat (map (\<lambda>(fd, what).
     if 0 \<le> sint fd
     then let pair = pair_at p fd; err = has what (EPOLLHUP OR EPOLLERR)
          in (if err \<or> has what (EPOLLIN OR EPOLLPRI) then opt_act (evread pair) EV_READ else []) @
             (if err \<or> has what EPOLLOUT then opt_act (evwrite pair) EV_WRITE else [])
     else []) ready)"

lemma ready_events_eq:
  assumes p: "poller_ok p"
  obtains r wr where "ready_events p fd what = Some (r, wr)"
    "ready_acts p [(fd, what)] = opt_act r EV_READ @ opt_act wr EV_WRITE"
    "r = None \<or> r = evread (pair_at p fd)" "wr = None \<or> wr = evwrite (pair_at p fd)"
proof (cases "sint fd < 0 \<or> sint fd \<ge> sint (ep_npairs p)")
  case True
  then have "0 \<le> sint fd \<Longrightarrow> pair_at p fd = empty_pair"
    using npairs_bounds [OF p, of fd] by (auto simp: pair_at_def)
  then show thesis using True that [of None None]
    by (auto simp: ready_events_def ready_acts_def opt_act_def empty_pair_def Let_def)
next
  case False
  then have "unat fd < length (ep_evpairs p)" using npairs_bounds [OF p, of fd] by auto
  then have "arr_get (ep_evpairs p) (unat fd) = Some (pair_at p fd)" by (simp add: pair_at_def)
  then show thesis using False
    by (intro that [of "if has what (EPOLLHUP OR EPOLLERR) \<or> has what (EPOLLIN OR EPOLLPRI) then evread (pair_at p fd) else None"
          "if has what (EPOLLHUP OR EPOLLERR) \<or> has what EPOLLOUT then evwrite (pair_at p fd) else None"])
      (auto simp: ready_events_def ready_acts_def opt_act_def Let_def)
qed

text \<open>What the pair table says about the events of the set.\<close>

definition epoll_table_ok :: "'e epoller \<Rightarrow> ('e \<Rightarrow> 'cb event) \<Rightarrow> bool" where
  "epoll_table_ok p evs \<longleftrightarrow> poller_ok p \<and>
     (\<forall>fd e. evread (pair_at p fd) = Some e \<longrightarrow> inserted (evs e) \<and> ev_fd (evs e) = fd \<and> has (ev_events (evs e)) EV_READ) \<and>
     (\<forall>fd e. evwrite (pair_at p fd) = Some e \<longrightarrow> inserted (evs e) \<and> ev_fd (evs e) = fd \<and> has (ev_events (evs e)) EV_WRITE) \<and>
     (\<forall>e. inserted (evs e) \<longrightarrow> watchable (evs e) \<and> unat (ev_fd (evs e)) < length (ep_evpairs p))"

lemma ready_acts_inserted:
  assumes "epoll_table_ok p evs" "(e, res) \<in> set (ready_acts p ready)"
  shows "inserted (evs e)"
  using assms by (auto simp: epoll_table_ok_def ready_acts_def opt_act_def Let_def split: if_splits option.splits)

lemma activate_ready_eq:
  fixes S :: "('e, 'cb, 'p) eventset" and evs :: "'e \<Rightarrow> 'cb event"
  assumes "epoll_table_ok p evs" "active_ok S" "\<And>e. inserted (evs e) \<Longrightarrow> ev_evsets (event_at S e)"
  shows "activate_ready p ready S = Some (activate_all (ready_acts p ready) S)"
  using assms(2,3)
proof (induction ready arbitrary: S)
  case Nil
  then show ?case by (simp add: ready_acts_def)
next
  case (Cons x ready)
  obtain fd what where x: "x = (fd, what)" by (cases x) auto
  have p: "poller_ok p" using assms(1) by (simp add: epoll_table_ok_def)
  obtain r wr where rw: "ready_events p fd what = Some (r, wr)"
    "ready_acts p [(fd, what)] = opt_act r EV_READ @ opt_act wr EV_WRITE"
    "r = None \<or> r = evread (pair_at p fd)" "wr = None \<or> wr = evwrite (pair_at p fd)"
    by (rule ready_events_eq [OF p, of fd what])
  have step: "(case y of None \<Rightarrow> Some T | Some e \<Rightarrow> map_option snd (event_active T e res)) =
        Some (activate_all (opt_act y res) T) \<and> active_ok (activate_all (opt_act y res) T)"
    if "active_ok T" "\<And>e. inserted (evs e) \<Longrightarrow> ev_evsets (event_at T e)"
      "\<And>e. y = Some e \<Longrightarrow> inserted (evs e)" for y res and T :: "('e, 'cb, 'p) eventset"
    using that event_active_eq [OF that(1)] activated_ok(1) [OF that(1)] by (cases y) (auto simp: opt_act_def)
  have ins: "r = Some e \<Longrightarrow> inserted (evs e)" "wr = Some e \<Longrightarrow> inserted (evs e)" for e
    using assms(1) rw(3,4) by (auto simp: epoll_table_ok_def)
  have "ready_acts p (x # ready) = ready_acts p [(fd, what)] @ ready_acts p ready"
    by (simp add: ready_acts_def x)
  moreover note s1 = step [OF Cons.prems(1) Cons.prems(2) ins(1), of r EV_READ]
  moreover have "inserted (evs e) \<Longrightarrow> ev_evsets (event_at (activate_all acts S) e)" for acts e
    using Cons.prems(2) by simp
  moreover note s2 = step [of "activate_all (opt_act r EV_READ) S" wr EV_WRITE]
  ultimately show ?case using rw(1,2) ins(2) x
    Cons.IH [of "activate_all (opt_act wr EV_WRITE) (activate_all (opt_act r EV_READ) S)"] by (simp del: activate_all_simps(1,2))
qed

lemma epoll_expand_ok:
  assumes p: "poller_ok p"
  obtains rc p' w' where "epoll_expand sys p w = (rc, p', w')" "poller_ok p'" "pair_at p' = pair_at p"
    "ep_evpairs p' = ep_evpairs p" "ep_epollfd p' = ep_epollfd p"
proof -
  obtain k where k: "k \<le> 30" "unat (ep_nevents p) = 2 ^ k" "length (ep_events p) = 2 ^ k"
    using p by (auto simp: poller_ok_def)
  have n: "ep_nevents p = 2 ^ k" using pow2_word [OF k(2,1)] by simp
  have b: "push_bit 1 (ep_nevents p) = 2 ^ Suc k" by (simp add: n push_bit_eq_mult)
  show thesis
  proof (cases "k = 30")
    case True
    then have "sint (push_bit 1 (ep_nevents p)) < 0" unfolding b by simp
    then show thesis using that [of "- 1" p] p by (cases "sys_alloc sys w") (simp add: epoll_expand_def)
  next
    case False
    then have u: "unat (2 ^ Suc k :: i32) = 2 ^ Suc k" using k(1) by (intro pow2_unat) simp
    then have "\<exists>j\<le>30. unat (2 ^ Suc k :: i32) = 2 ^ j" using False k(1) by (intro exI [of _ "Suc k"]) auto
    moreover have "length (ep_evpairs p) = unat (ep_npairs p)" "\<exists>j\<le>30. unat (ep_npairs p) = 2 ^ j"
      using p by (auto simp: poller_ok_def)
    moreover define q where "q = p\<lparr>ep_nevents := 2 ^ Suc k,
        ep_events := mem_realloc (\<lambda>_. (0, 0)) (ep_events p) (unat (2 ^ Suc k :: i32))\<rparr>"
    ultimately have q: "poller_ok q" "pair_at q = pair_at p" "ep_evpairs q = ep_evpairs p" "ep_epollfd q = ep_epollfd p"
      unfolding poller_ok_def by (simp_all add: pair_at_def fun_eq_iff)
    obtain mem w1 where w1: "sys_alloc sys w = (mem, w1)" by fastforce
    have eq: "epoll_expand sys p w = (if sint (2 ^ Suc k :: i32) < 0 \<or> \<not> mem then (- 1, p, w1) else (0, q, w1))"
      unfolding epoll_expand_def b Let_def w1 q_def by simp
    show thesis
    proof (cases "sint (2 ^ Suc k :: i32) < 0 \<or> \<not> mem")
      case True
      show thesis by (rule that [of "- 1" p w1]) (unfold eq if_P [OF True], use p in auto)
    next
      case False
      show thesis by (rule that [of 0 q w1]) (unfold eq if_not_P [OF False], use q in auto)
    qed
  qed
qed

definition epollops :: "'w sys \<Rightarrow> ('e, 'cb, 'e epoller, 'w) eventop" where
  "epollops sys = \<lparr>eo_init = epoll_init sys, eo_add = epoll_add sys, eo_del = (\<lambda>p e. epoll_del sys p),
     eo_dispatch = epoll_dispatch sys, eo_final = (\<lambda>p. epoll_final sys (ep_epollfd p))\<rparr>"

text \<open>The clipped time-out and the answer of the kernel.\<close>

definition epoll_answer :: "'w sys \<Rightarrow> 'e epoller \<Rightarrow> i32 \<Rightarrow> 'w \<Rightarrow> (i32 + (i32 \<times> i32) list) \<times> 'w" where
  "epoll_answer sys p tv w =
     sys_epoll_wait sys (ep_epollfd p) (ep_nevents p) (if sint tv > sint MAX_EPOLL_WAIT then MAX_EPOLL_WAIT else tv) w"

lemma epoll_dispatch_ok:
  assumes t: "epoll_table_ok (es_poll S) (es_events S)" and a: "active_ok S"
    and own: "\<And>e. inserted (event_at S e) \<Longrightarrow> ev_evsets (event_at S e)"
  obtains p' w' where "epoll_dispatch sys S tv w =
      Some (case fst (epoll_answer sys (es_poll S) tv w) of
          Inl err \<Rightarrow> if err = EINTR then 0 else - 1
        | Inr ready \<Rightarrow> int (length (take (unat (ep_nevents (es_poll S))) ready)),
        activate_all (case fst (epoll_answer sys (es_poll S) tv w) of
          Inl err \<Rightarrow> []
        | Inr ready \<Rightarrow> ready_acts (es_poll S) (take (unat (ep_nevents (es_poll S))) ready)) (S\<lparr>es_poll := p'\<rparr>), w')"
    "epoll_table_ok p' (es_events S)" "pair_at p' = pair_at (es_poll S)"
proof -
  define p where "p = es_poll S"
  obtain r w1 where r: "epoll_answer sys p tv w = (r, w1)" by fastforce
  have p: "poller_ok p" using t by (simp add: epoll_table_ok_def p_def)
  show thesis
  proof (cases r)
    case (Inl err)
    then show thesis using r t that [of p w1] by (auto simp: epoll_dispatch_def epoll_answer_def p_def [symmetric] Let_def)
  next
    case (Inr ready)
    define rd where "rd = take (unat (ep_nevents p)) ready"
    define p1 where "p1 = p\<lparr>ep_events := rd @ drop (length rd) (ep_events p)\<rparr>"
    have len: "length rd \<le> length (ep_events p)" using p by (simp add: rd_def poller_ok_def)
    then have ok1: "poller_ok p1" using p by (simp add: poller_ok_def p1_def)
    have tk: "take (length rd) (ep_events p1) = rd" by (simp add: p1_def)
    have pr: "pair_at p1 = pair_at p" "ep_evpairs p1 = ep_evpairs p" by (simp_all add: p1_def pair_at_def fun_eq_iff)
    have t1: "epoll_table_ok p1 (es_events S)" using t ok1 pr by (simp add: epoll_table_ok_def p_def)
    have acts: "ready_acts p1 rd = ready_acts p rd" unfolding ready_acts_def pr ..
    have "activate_ready p1 rd (S\<lparr>es_poll := p1\<rparr>) = Some (activate_all (ready_acts p rd) (S\<lparr>es_poll := p1\<rparr>))"
      unfolding acts [symmetric] by (rule activate_ready_eq [OF t1]) (use a own in \<open>simp_all add: active_ok_def\<close>)
    then have eq: "epoll_dispatch sys S tv w =
      (let (p2, w) = (if length rd = unat (ep_nevents p1) then let (_, q, w) = epoll_expand sys p1 w1 in (q, w) else (p1, w1))
       in Some (int (length rd), activate_all (ready_acts p rd) (S\<lparr>es_poll := p2\<rparr>), w))"
      unfolding epoll_dispatch_def p_def [symmetric] Let_def r [unfolded epoll_answer_def] Inr
      by (simp only: sum.case case_prod_conv rd_def [symmetric] p1_def [symmetric] tk Option.bind.simps
          activate_all_poll eventset.update_convs eventset.ext_inject split: prod.split) simp
    show thesis
    proof (cases "length rd = unat (ep_nevents p1)")
      case True
      obtain rc p2 w2 where e: "epoll_expand sys p1 w1 = (rc, p2, w2)" "poller_ok p2" "pair_at p2 = pair_at p1"
          "ep_evpairs p2 = ep_evpairs p1"
        using epoll_expand_ok [OF ok1] by metis
      then have "epoll_table_ok p2 (es_events S)" using t1 by (simp add: epoll_table_ok_def)
      then show thesis using that [of p2 w2] eq True e pr r Inr by (simp add: p_def [symmetric] rd_def [symmetric])
    next
      case False
      then show thesis using that [of p1 w1] eq t1 pr r Inr by (simp add: p_def [symmetric] rd_def [symmetric])
    qed
  qed
qed

lemma epoll_table_init:
  assumes "epoll_init sys w = (Some p, w')" "\<And>e. \<not> inserted (evs e)"
  shows "epoll_table_ok p evs"
proof -
  obtain fd where p: "p = \<lparr>ep_npairs = INIT_EVENTS, ep_evpairs = replicate (unat INIT_EVENTS) empty_pair,
      ep_nevents = INIT_EVENTS, ep_events = replicate (unat INIT_EVENTS) (0, 0), ep_epollfd = fd\<rparr>"
    using assms(1) by (auto simp: epoll_init_def Let_def split: prod.splits if_splits)
  have "\<exists>k\<le>30. (1024::nat) = 2 ^ k" by (rule exI [of _ 10]) simp
  then have "poller_ok p" by (simp add: p poller_ok_def INIT_EVENTS_def)
  moreover have "pair_at p d = empty_pair" for d by (simp add: pair_at_def p)
  ultimately show ?thesis using assms(2) by (simp add: epoll_table_ok_def empty_pair_def)
qed

lemma ctl_any: "\<exists>rc w'. ctl_add sys epfd fd pair events w = (rc, w')"
  by (cases "ctl_add sys epfd fd pair events w") simp

text \<open>Adding, whatever the kernel answers.\<close>

lemma epoll_add_any:
  assumes p: "poller_ok p" and ev: "watchable ev"
  obtains rc p' w' where "epoll_add sys p e ev w = Some (rc, p', w')" "poller_ok p'"
    "length (ep_evpairs p) \<le> length (ep_evpairs p')"
    "rc \<noteq> 0 \<Longrightarrow> pair_at p' = pair_at p"
    "rc = 0 \<Longrightarrow> pair_at p' = (pair_at p)(ev_fd ev := pair_add e (ev_events ev) (pair_at p (ev_fd ev))) \<and>
       unat (ev_fd ev) < length (ep_evpairs p')"
proof -
  have fd: "fd_ok (ev_fd ev)" and dir: "has (ev_events ev) EV_READ \<or> has (ev_events ev) EV_WRITE"
    and fd0: "0 \<le> sint (ev_fd ev)"
    using ev by (simp_all add: watchable_def fd_ok_def)
  have inr: "\<exists>rc p' w'. epoll_add sys q e ev v = Some (rc, p', w') \<and> poller_ok p' \<and>
      length (ep_evpairs p') = length (ep_evpairs q) \<and> (rc \<noteq> 0 \<longrightarrow> pair_at p' = pair_at q) \<and>
      (rc = 0 \<longrightarrow> pair_at p' = (pair_at q)(ev_fd ev := pair_add e (ev_events ev) (pair_at q (ev_fd ev))))"
    if q: "poller_ok q" "unat (ev_fd ev) < length (ep_evpairs q)" for q v
  proof -
    have s: "sint (ev_fd ev) < sint (ep_npairs q)" using npairs_bounds [OF q(1) fd0] q(2) by simp
    obtain rc v' where "ctl_add sys (ep_epollfd q) (ev_fd ev) (pair_at q (ev_fd ev))
        (the (pair_mask (pair_add e (ev_events ev) (pair_at q (ev_fd ev))))) v = (rc, v')" by fastforce
    then show ?thesis
      using epoll_add_eq [OF fd dir q(2) s, of sys e v] poller_set_pair [OF q] q(1) by (cases rc) auto
  qed
  show thesis
  proof (cases "unat (ev_fd ev) < length (ep_evpairs p)")
    case True
    then show thesis using inr [OF p True, of w] that by (metis order_refl)
  next
    case False
    then have ge: "sint (ev_fd ev) \<ge> sint (ep_npairs p)" using npairs_bounds [OF p fd0] by linarith
    obtain p1 where p1: "epoll_insert sys p (ev_fd ev) w =
          Some (if fst (sys_alloc sys w) then 0 else - 1, p1, snd (sys_alloc sys w))"
        "poller_ok p1" "pair_at p1 = pair_at p"
        "fst (sys_alloc sys w) \<Longrightarrow> unat (ev_fd ev) < length (ep_evpairs p1)"
      using epoll_insert_ok [OF p fd, of sys w] by metis
    show thesis
    proof (cases "fst (sys_alloc sys w)")
      case True
      note r = p1(4) [OF True]
      have "\<not> sint (ev_fd ev) \<ge> sint (ep_npairs p1)" using npairs_bounds [OF p1(2) fd0] r by simp
      then have "epoll_add sys p e ev w = epoll_add sys p1 e ev (snd (sys_alloc sys w))"
        using fd0 ge p1(1) True unfolding epoll_add_def event_get_fd_def by simp
      moreover obtain rc p' w' where q: "epoll_add sys p1 e ev (snd (sys_alloc sys w)) = Some (rc, p', w')" "poller_ok p'"
        "length (ep_evpairs p') = length (ep_evpairs p1)" "rc \<noteq> 0 \<longrightarrow> pair_at p' = pair_at p1"
        "rc = 0 \<longrightarrow> pair_at p' = (pair_at p1)(ev_fd ev := pair_add e (ev_events ev) (pair_at p1 (ev_fd ev)))"
        using inr [OF p1(2) r] by blast
      moreover have "length (ep_evpairs p) \<le> length (ep_evpairs p')" using False r q(3) by linarith
      ultimately show thesis using that [of rc p' w'] p1(3) r by simp
    next
      case nomem: False
      then have "epoll_insert sys p (ev_fd ev) w = Some (- 1, p, snd (sys_alloc sys w))"
        using p1(1)
        by (cases "grow_pairs (ep_npairs p) (ev_fd ev)"; cases "sys_alloc sys w") (simp_all add: epoll_insert_def)
      then have "epoll_add sys p e ev w = Some (- 1, p, snd (sys_alloc sys w))"
        using fd0 ge unfolding epoll_add_def event_get_fd_def by simp
      then show thesis using that [of "- 1" p] p by simp
    qed
  qed
qed

lemma epoll_table_add:
  assumes t: "epoll_table_ok p evs" and n: "\<not> inserted (evs e)" and ev: "watchable (evs e)"
  shows "\<exists>rc p' w'. epoll_add sys p e (evs e) w = Some (rc, p', w') \<and> (rc \<noteq> 0 \<longrightarrow> epoll_table_ok p' evs) \<and>
    (rc = 0 \<longrightarrow> epoll_table_ok p' (evs(e := (evs e)\<lparr>ev_status := ev_status (evs e) OR EVSTATUS_INSERTED\<rparr>)))"
proof -
  have p: "poller_ok p" using t by (simp add: epoll_table_ok_def)
  obtain rc p' w' where a: "epoll_add sys p e (evs e) w = Some (rc, p', w')" "poller_ok p'"
    "length (ep_evpairs p) \<le> length (ep_evpairs p')" "rc \<noteq> 0 \<Longrightarrow> pair_at p' = pair_at p"
    "rc = 0 \<Longrightarrow> pair_at p' = (pair_at p)(ev_fd (evs e) := pair_add e (ev_events (evs e)) (pair_at p (ev_fd (evs e)))) \<and>
       unat (ev_fd (evs e)) < length (ep_evpairs p')"
    using epoll_add_any [OF p ev, of sys e w] by metis
  have len: "inserted (evs d) \<Longrightarrow> watchable (evs d) \<and> unat (ev_fd (evs d)) < length (ep_evpairs p')" for d
    using t a(3) order_less_le_trans by (fastforce simp: epoll_table_ok_def)
  have "rc \<noteq> 0 \<Longrightarrow> epoll_table_ok p' evs"
    using t a(2,4) len by (simp add: epoll_table_ok_def)
  moreover have "epoll_table_ok p' (evs(e := (evs e)\<lparr>ev_status := ev_status (evs e) OR EVSTATUS_INSERTED\<rparr>))" if "rc = 0"
  proof -
    have rd: "evread (pair_at p fd) = Some d \<Longrightarrow> inserted (evs d) \<and> ev_fd (evs d) = fd \<and> has (ev_events (evs d)) EV_READ"
      and wr: "evwrite (pair_at p fd) = Some d \<Longrightarrow> inserted (evs d) \<and> ev_fd (evs d) = fd \<and> has (ev_events (evs d)) EV_WRITE" for fd d
      using t by (auto simp: epoll_table_ok_def)
    show ?thesis
      unfolding epoll_table_ok_def
    proof (intro conjI allI impI)
      show "poller_ok p'" by (rule a)
    qed (use a(5) [OF that] rd wr ev len n in \<open>auto simp: pair_add_def watchable_def split: if_splits\<close>)
  qed
  ultimately show ?thesis using a(1) by blast
qed

lemma epoll_table_del:
  assumes t: "epoll_table_ok p evs" and n: "inserted (evs e)"
  shows "\<exists>rc p' w'. epoll_del sys p ((evs e)\<lparr>ev_status := ev_status (evs e) AND NOT EVSTATUS_INSERTED\<rparr>) w = Some (rc, p', w') \<and>
    epoll_table_ok p' (evs(e := (evs e)\<lparr>ev_status := ev_status (evs e) AND NOT EVSTATUS_INSERTED\<rparr>))"
proof -
  define ev where "ev = (evs e)\<lparr>ev_status := ev_status (evs e) AND NOT EVSTATUS_INSERTED\<rparr>"
  have p: "poller_ok p" and fd: "0 \<le> sint (ev_fd ev)" "unat (ev_fd ev) < length (ep_evpairs p)"
    using t n by (auto simp: epoll_table_ok_def watchable_def ev_def)
  define x where "x = pair_del (ev_events ev) (pair_at p (ev_fd ev))"
  define p' where "p' = p\<lparr>ep_evpairs := (ep_evpairs p)[unat (ev_fd ev) := x]\<rparr>"
  note set = poller_set_pair [OF p fd(2), of x, folded p'_def]
  obtain evs' where eq: "epoll_del sys p ev w = (let (rc, w) = sys_epoll_ctl sys (ep_epollfd p)
        (if pair_mask x = None then EPOLL_CTL_DEL else EPOLL_CTL_MOD) (ev_fd ev) evs' w
       in Some (if rc \<noteq> None then - 2 else 0, p', w))"
    by (rule epoll_del_eq [OF p fd, of sys w, folded x_def, folded p'_def])
  have rd: "evread (pair_at p fd) = Some d \<Longrightarrow> inserted (evs d) \<and> ev_fd (evs d) = fd \<and> has (ev_events (evs d)) EV_READ"
    and wr: "evwrite (pair_at p fd) = Some d \<Longrightarrow> inserted (evs d) \<and> ev_fd (evs d) = fd \<and> has (ev_events (evs d)) EV_WRITE" for fd d
    using t by (auto simp: epoll_table_ok_def)
  have len: "inserted (evs d) \<Longrightarrow> watchable (evs d) \<and> unat (ev_fd (evs d)) < length (ep_evpairs p')" for d
    using t by (simp add: epoll_table_ok_def p'_def)
  have "evread x = Some d \<Longrightarrow> evread (pair_at p (ev_fd ev)) = Some d \<and> d \<noteq> e"
    "evwrite x = Some d \<Longrightarrow> evwrite (pair_at p (ev_fd ev)) = Some d \<and> d \<noteq> e" for d
    using rd [of "ev_fd ev" d] wr [of "ev_fd ev" d]
    by (auto simp: x_def pair_del_def ev_def empty_pair_def split: if_splits)
  then have "epoll_table_ok p' (evs(e := ev))"
    unfolding epoll_table_ok_def set(2) using set(1) rd wr len by (auto simp: ev_def split: if_splits)
  then show ?thesis unfolding ev_def [symmetric] eq by (simp split: prod.splits)
qed

interpretation ep: io_backend "epollops sys" epoll_table_ok for sys
proof (unfold_locales, goal_cases)
  case (1 w p w' evs)
  then show ?case by (intro epoll_table_init [of sys w p w']) (simp_all add: epollops_def)
next
  case (2 p evs e w)
  then show ?case using epoll_table_add [OF 2] by (simp add: epollops_def)
next
  case (3 p evs e w)
  then show ?case using epoll_table_del [OF 3] by (simp add: epollops_def)
next
  case (4 S tv w)
  define acts where "acts = (case fst (epoll_answer sys (es_poll S) tv w) of Inl err \<Rightarrow> []
    | Inr ready \<Rightarrow> ready_acts (es_poll S) (take (unat (ep_nevents (es_poll S))) ready))"
  obtain res p' w' where "epoll_dispatch sys S tv w = Some (res, activate_all acts (S\<lparr>es_poll := p'\<rparr>), w')"
      "epoll_table_ok p' (es_events S)"
    using epoll_dispatch_ok [OF 4, of sys tv w] unfolding acts_def by metis
  moreover have "\<forall>(e, r) \<in> set acts. inserted (event_at S e)"
    using ready_acts_inserted [OF 4(1)] unfolding acts_def by (auto split: sum.splits)
  ultimately show ?case by (auto simp: epollops_def)
next
  case (5 p evs evs')
  then show ?case by (simp add: epoll_table_ok_def watchable_def)
qed

text \<open>
  C34: waiting returns -1 or 0 (interrupted) when the kernel fails and otherwise the number of
  ready descriptors; it activates, in the kernel's order, exactly the reading and writing events of
  the ready descriptors (both on an error or a hang-up), never touches a descriptor outside its
  table, and keeps the pair table.\<close>

theorem epoll_dispatch_activates_ready:
  assumes "epoll_table_ok (es_poll S) (es_events S)" "active_ok S"
    and "\<And>e. has (ev_status (event_at S e)) EVSTATUS_INSERTED \<Longrightarrow> ev_evsets (event_at S e)"
  shows "\<exists>p' w'. epoll_dispatch sys S tv w =
      Some (case fst (epoll_answer sys (es_poll S) tv w) of
          Inl err \<Rightarrow> if err = EINTR then 0 else - 1
        | Inr ready \<Rightarrow> int (length (take (unat (ep_nevents (es_poll S))) ready)),
        activate_all (case fst (epoll_answer sys (es_poll S) tv w) of
          Inl err \<Rightarrow> []
        | Inr ready \<Rightarrow> ready_acts (es_poll S) (take (unat (ep_nevents (es_poll S))) ready)) (S\<lparr>es_poll := p'\<rparr>), w') \<and>
    epoll_table_ok p' (es_events S) \<and> pair_at p' = pair_at (es_poll S)"
  by (rule epoll_dispatch_ok [OF assms, of sys tv w]) blast+

section \<open>Instances\<close>

text \<open>A kernel whose world is its sets of watched descriptors; descriptor 3 is always ready to read.\<close>

definition demo_sys :: "(i32 \<Rightarrow> i32 \<Rightarrow> i32 option) sys" where
  "demo_sys = \<lparr>sys_milliseconds = (\<lambda>w. (0, w)), sys_alloc = (\<lambda>w. (True, w)),
     sys_epoll_create1 = (\<lambda>w. (9, w)), sys_epoll_create = (\<lambda>w. (9, w)),
     sys_set_cloexec = (\<lambda>_ w. w), sys_close = (\<lambda>_ w. w),
     sys_epoll_ctl = (\<lambda>epfd op fd events w.
       if op = EPOLL_CTL_ADD
       then if w epfd fd \<noteq> None then (Some EEXIST, w) else (None, w(epfd := (w epfd)(fd \<mapsto> events)))
       else if w epfd fd = None then (Some ENOENT, w)
       else (None, w(epfd := (w epfd)(fd := if op = EPOLL_CTL_MOD then Some events else None)))),
     sys_epoll_wait = (\<lambda>_ _ _ w. (Inr [(3, EPOLLIN)], w))\<rparr>"

definition demo_poller :: "bool epoller" where
  "demo_poller = \<lparr>ep_npairs = 1, ep_evpairs = [empty_pair], ep_nevents = 1, ep_events = [(0, 0)], ep_epollfd = 9\<rparr>"

definition demo_event :: "unit event" where
  "demo_event = event_create\<lparr>ev_fd := 3, ev_events := EV_READ\<rparr>"

lemma demo_kernel: "epoll_kernel demo_sys (\<lambda>w. w)"
  by (simp add: epoll_kernel_def demo_sys_def EPOLL_CTL_ADD_def EPOLL_CTL_MOD_def EPOLL_CTL_DEL_def)

lemma demo_poller_ok: "poller_ok demo_poller" "watch_ok (\<lambda>w. w) demo_poller (\<lambda>_ _. None)"
proof -
  have "\<exists>k\<le>30. (1::nat) = 2 ^ k" by (rule exI [of _ 0]) simp
  then show "poller_ok demo_poller" by (simp add: poller_ok_def demo_poller_def)
  have "pair_at demo_poller fd = empty_pair" for fd by (simp add: pair_at_def demo_poller_def)
  then show "watch_ok (\<lambda>w. w) demo_poller (\<lambda>_ _. None)" by (simp add: watch_ok_def pair_mask_def empty_pair_def)
qed

lemma demo_event_ok: "fd_ok (ev_fd demo_event)" "has (ev_events demo_event) EV_READ \<or> has (ev_events demo_event) EV_WRITE"
  by (simp_all add: demo_event_def fd_ok_def has_def EV_READ_def)

theorem epoll_add_correct_witness:
  "\<exists>rc p' w'. epoll_add demo_sys demo_poller True demo_event (\<lambda>_ _. None) = Some (rc, p', w') \<and>
    poller_ok p' \<and> watch_ok (\<lambda>w. w) p' w'"
  using epoll_add_correct [OF demo_kernel demo_poller_ok demo_event_ok, of True] by blast

text \<open>The table after the event was added.\<close>

definition demo_poller2 :: "bool epoller" where
  "demo_poller2 = \<lparr>ep_npairs = 4, ep_evpairs = [empty_pair, empty_pair, empty_pair, \<lparr>evread = Some True, evwrite = None\<rparr>],
     ep_nevents = 1, ep_events = [(0, 0)], ep_epollfd = 9\<rparr>"

lemma demo_poller2_at: "pair_at demo_poller2 fd = (if fd = 3 then \<lparr>evread = Some True, evwrite = None\<rparr> else empty_pair)"
proof -
  have "unat fd < 4 \<Longrightarrow> fd = 0 \<or> fd = 1 \<or> fd = 2 \<or> fd = 3"
    by (simp add: word_unat_eq_iff) linarith
  then show ?thesis by (auto simp: pair_at_def demo_poller2_def)
qed

lemma demo_poller2_ok: "poller_ok demo_poller2"
  "watch_ok (\<lambda>w. w) demo_poller2 (\<lambda>epfd fd. if epfd = 9 \<and> fd = 3 then Some EPOLLIN else None)"
proof -
  have "\<exists>k\<le>30. (1::nat) = 2 ^ k" "\<exists>k\<le>30. (4::nat) = 2 ^ k"
    by (rule exI [of _ 0], simp) (rule exI [of _ 2], simp)
  then show "poller_ok demo_poller2" by (simp add: poller_ok_def demo_poller2_def)
  show "watch_ok (\<lambda>w. w) demo_poller2 (\<lambda>epfd fd. if epfd = 9 \<and> fd = 3 then Some EPOLLIN else None)"
    unfolding watch_ok_def demo_poller2_at by (simp add: pair_mask_def empty_pair_def demo_poller2_def)
qed

theorem epoll_del_correct_witness:
  "\<exists>rc p' w'. epoll_del demo_sys demo_poller2 demo_event (\<lambda>epfd fd. if epfd = 9 \<and> fd = 3 then Some EPOLLIN else None) =
      Some (rc, p', w') \<and> evread (pair_at p' 3) = None"
proof -
  have fd: "ev_fd demo_event = 3" "0 \<le> sint (ev_fd demo_event)" "unat (ev_fd demo_event) < length (ep_evpairs demo_poller2)"
    by (simp_all add: demo_event_def demo_poller2_def)
  have d: "pair_del (ev_events demo_event) x = x\<lparr>evread := None\<rparr>" for x :: "bool eventpair"
    by (simp add: pair_del_def demo_event_def has_def EV_READ_def EV_WRITE_def)
  show ?thesis using epoll_del_correct [OF demo_kernel demo_poller2_ok fd(2,3)] unfolding fd(1) d by fastforce
qed

text \<open>An event set with this table, in which event \<open>True\<close> is inserted.\<close>

definition demo_epoll_set :: "(bool, unit, bool epoller) eventset" where
  "demo_epoll_set = \<lparr>es_timer_precision = 8, es_expire_time = 0, es_cache_current = 0, es_timer = es_timer demo_wheel,
     es_poll = demo_poller2, es_eventlist = [True], es_activelist = [],
     es_events = (\<lambda>e. if e then demo_event\<lparr>ev_status := EVSTATUS_INIT OR EVSTATUS_INSERTED, ev_evsets := True\<rparr>
       else event_create)\<rparr>"

lemma demo_epoll_set_ok: "epoll_table_ok (es_poll demo_epoll_set) (es_events demo_epoll_set)" "active_ok demo_epoll_set"
  "has (ev_status (event_at demo_epoll_set e)) EVSTATUS_INSERTED \<Longrightarrow> ev_evsets (event_at demo_epoll_set e)"
proof -
  have s: "has (ev_status (event_at demo_epoll_set e)) EVSTATUS_INSERTED \<longleftrightarrow> e"
    "\<not> has (ev_status (event_at demo_epoll_set e)) EVSTATUS_ACTIVE" for e
    by (simp_all add: demo_epoll_set_def demo_event_def event_create_def has_def EVSTATUS_INIT_def
      EVSTATUS_INSERTED_def EVSTATUS_ACTIVE_def)
  have f: "ev_fd (event_at demo_epoll_set True) = 3" "has (ev_events (event_at demo_epoll_set True)) EV_READ"
      "es_poll demo_epoll_set = demo_poller2" "es_activelist demo_epoll_set = []"
    by (simp_all add: demo_epoll_set_def demo_event_def has_def EV_READ_def)
  have "unat (3 :: i32) < length (ep_evpairs demo_poller2)" by (simp add: demo_poller2_def)
  then show "epoll_table_ok (es_poll demo_epoll_set) (es_events demo_epoll_set)"
    using demo_poller2_ok(1) unfolding epoll_table_ok_def s f demo_poller2_at
    by (auto simp: f empty_pair_def watchable_def split: if_splits)
  show "active_ok demo_epoll_set" by (simp add: active_ok_def f s)
  show "has (ev_status (event_at demo_epoll_set e)) EVSTATUS_INSERTED \<Longrightarrow> ev_evsets (event_at demo_epoll_set e)"
    by (simp add: s) (simp add: demo_epoll_set_def)
qed

theorem epoll_dispatch_activates_ready_witness:
  "\<exists>p' w'. epoll_dispatch demo_sys demo_epoll_set 100 (\<lambda>_ _. None) =
     Some (1, activate_all [(True, EV_READ)] (demo_epoll_set\<lparr>es_poll := p'\<rparr>), w')"
proof -
  have p: "es_poll demo_epoll_set = demo_poller2" "unat (ep_nevents demo_poller2) = 1"
    by (simp_all add: demo_epoll_set_def demo_poller2_def)
  have "fst (epoll_answer demo_sys demo_poller2 100 (\<lambda>_ _. None)) = Inr [(3, EPOLLIN)]"
    by (simp add: epoll_answer_def demo_sys_def)
  moreover have "ready_acts demo_poller2 [(3, EPOLLIN)] = [(True, EV_READ)]"
    by (simp add: ready_acts_def demo_poller2_at opt_act_def has_def EPOLLIN_def EPOLLPRI_def EPOLLOUT_def
        EPOLLERR_def EPOLLHUP_def)
  ultimately show ?thesis
    using epoll_dispatch_activates_ready [OF demo_epoll_set_ok, of demo_sys 100 "\<lambda>_ _. None"] p by auto
qed

end
