(* ===== verification/EventSet.thy ===== *)
theory EventSet
  imports Epoll
begin

text \<open>
  The event set (second half of \<^verbatim>\<open>src/event.c\<close>, \<^verbatim>\<open>evtimer_clean\<close> of \<^verbatim>\<open>src/timer.c\<close>): adding and deleting
  events, one round of dispatching, the calls of the event callbacks, and destruction.  The back
  end is a table of functions, the clock and the callbacks are arguments.
\<close>

section \<open>Time\<close>

definition get_current ::
  "('w \<Rightarrow> int \<times> 'w) \<Rightarrow> ('e, 'cb, 'p) eventset \<Rightarrow> bool \<Rightarrow> 'w \<Rightarrow> int \<times> ('e, 'cb, 'p) eventset \<times> 'w" where
  "get_current clock self clear w =
     (let self = (if clear then self\<lparr>es_cache_current := 0\<rparr> else self);
          (self, w) =
            (if es_cache_current self = 0
             then let (now, w) = clock w in (self\<lparr>es_cache_current := now\<rparr>, w)
             else (self, w))
      in (es_cache_current self, self, w))"

definition evsets_get_current ::
  "('w \<Rightarrow> int \<times> 'w) \<Rightarrow> ('e, 'cb, 'p) eventset \<Rightarrow> 'w \<Rightarrow> int \<times> ('e, 'cb, 'p) eventset \<times> 'w" where
  "evsets_get_current clock self w = get_current clock self False w"

definition event_get_current ::
  "('w \<Rightarrow> int \<times> 'w) \<Rightarrow> ('e, 'cb, 'p) eventset \<Rightarrow> 'e \<Rightarrow> 'w \<Rightarrow> int \<times> ('e, 'cb, 'p) eventset \<times> 'w" where
  "event_get_current clock S e w =
     (if ev_evsets (event_at S e) then get_current clock S False w
      else let (now, w) = clock w in (now, S, w))"

section \<open>Creation\<close>

text \<open>The outcome of a creation: a set, NULL, or a fault.\<close>

datatype 's created = Created 's | Null | Fault

text \<open>
  When the back end or the timer cannot be created, the half-built set is destroyed.  Destruction
  finalises the back end whatever the pointer; the epoll back end dereferences it, so a missing
  back end is a fault (\<open>mem1\<close>, \<open>mem2\<close>, \<open>mem3\<close>: the allocations of the set, the timer, its buckets).
\<close>

definition evsets_create ::
  "('e, 'cb, 'p, 'w) eventop \<Rightarrow> ('w \<Rightarrow> int \<times> 'w) \<Rightarrow> bool \<Rightarrow> bool \<Rightarrow> bool \<Rightarrow> ('e \<Rightarrow> 'cb event) \<Rightarrow> i32 \<Rightarrow> 'w \<Rightarrow>
     ('e, 'cb, 'p) eventset created \<times> 'w" where
  "evsets_create ops clock mem1 mem2 mem3 evs precision w =
     (if \<not> mem1 then (Null, w)
      else let (p, w) = eo_init ops w
           in case p of
                None \<Rightarrow> (Fault, w)
              | Some p \<Rightarrow>
                  (case evtimer_create mem2 mem3 precision TIMER_BUCKET_COUNT of
                     None \<Rightarrow> (Null, eo_final ops p w)
                   | Some t \<Rightarrow>
                       let (now, w) = clock w
                       in (Created \<lparr>es_timer_precision = precision, es_expire_time = now + sint precision,
                             es_cache_current = 0, es_timer = t, es_poll = p, es_eventlist = [],
                             es_activelist = [], es_events = evs\<rparr>, w)))"

section \<open>Adding and deleting\<close>

definition evsets_add ::
  "('e, 'cb, 'p, 'w) eventop \<Rightarrow> ('e, 'cb, 'p) eventset \<Rightarrow> 'e \<Rightarrow> i32 \<Rightarrow> 'w \<Rightarrow> (int \<times> ('e, 'cb, 'p) eventset \<times> 'w) option" where
  "evsets_add ops S e tv w =
     (if has (ev_status (event_at S e)) (NOT EVSTATUS_ALL) then Some (- 1, S, w)
      else do {
        let S = set_event e ((event_at S e)\<lparr>ev_evsets := True\<rparr>) S;
        (rc, S, w) \<leftarrow>
          (let ev = event_at S e
           in if sint (ev_fd ev) > 0 \<and> has (ev_events ev) (EV_READ OR EV_WRITE) \<and>
                 \<not> has (ev_status ev) (EVSTATUS_ACTIVE OR EVSTATUS_INSERTED)
              then do {
                (r, p, w) \<leftarrow> eo_add ops (es_poll S) e ev w;
                let S = S\<lparr>es_poll := p\<rparr>;
                (if r = 0
                 then do { (_, S) \<leftarrow> event_queue_insert S e EVSTATUS_INSERTED; Some (1, S, w) }
                 else Some (0, S, w))
              }
              else Some (0, S, w));
        (if sint tv \<ge> 0
         then do {
           S \<leftarrow> (if has (ev_status (event_at S e)) EVSTATUS_TIMER
                then map_option snd (event_queue_remove S e EVSTATUS_TIMER) else Some S);
           S \<leftarrow> (if has (ev_results (event_at S e)) (scast EV_TIMEOUT) \<and> has (ev_status (event_at S e)) EVSTATUS_ACTIVE
                then map_option snd (event_queue_remove S e EVSTATUS_ACTIVE) else Some S);
           let S = set_event e ((event_at S e)\<lparr>ev_timer_msecs := tv\<rparr>) S;
           (_, S) \<leftarrow> event_queue_insert S e EVSTATUS_TIMER;
           Some (rc + 2, S, w)
         }
         else Some (rc, S, w))
      })"

definition evsets_del ::
  "('e, 'cb, 'p, 'w) eventop \<Rightarrow> ('e, 'cb, 'p) eventset \<Rightarrow> 'e \<Rightarrow> 'w \<Rightarrow> (int \<times> ('e, 'cb, 'p) eventset \<times> 'w) option" where
  "evsets_del ops S e w =
     (if has (ev_status (event_at S e)) (NOT EVSTATUS_ALL) then Some (- 2, S, w)
      else do {
        S \<leftarrow> (if has (ev_status (event_at S e)) EVSTATUS_TIMER
             then map_option snd (event_queue_remove S e EVSTATUS_TIMER) else Some S);
        S \<leftarrow> (if has (ev_status (event_at S e)) EVSTATUS_ACTIVE
             then map_option snd (event_queue_remove S e EVSTATUS_ACTIVE) else Some S);
        (if has (ev_status (event_at S e)) EVSTATUS_INSERTED
         then do {
           (_, S) \<leftarrow> event_queue_remove S e EVSTATUS_INSERTED;
           (r, p, w) \<leftarrow> eo_del ops (es_poll S) e (event_at S e) w;
           Some (r, S\<lparr>es_poll := p\<rparr>, w)
         }
         else Some (0, S, w))
      })"

definition event_reset ::
  "('e, 'cb, 'p, 'w) eventop \<Rightarrow> ('e, 'cb, 'p) eventset \<Rightarrow> 'e \<Rightarrow> 'w \<Rightarrow> (('e, 'cb, 'p) eventset \<times> 'w) option" where
  "event_reset ops S e w = do {
     (S, w) \<leftarrow> (if ev_evsets (event_at S e) then map_option snd (evsets_del ops S e w) else Some (S, w));
     Some (set_event e event_create S, w)
   }"

section \<open>One round\<close>

text \<open>
  A callback gets the descriptor and the results, narrowed to 16 bits, and may do anything to the
  event set.  The loop takes the first active event until there is none.
\<close>

type_synonym ('e, 'cb, 'p, 'w) callback =
  "'cb \<Rightarrow> i32 \<Rightarrow> u16 \<Rightarrow> ('e, 'cb, 'p) eventset \<Rightarrow> 'w \<Rightarrow> (('e, 'cb, 'p) eventset \<times> 'w) option"

text \<open>What happens to an active event before its callback is called.\<close>

definition retire ::
  "('e, 'cb, 'p, 'w) eventop \<Rightarrow> ('e, 'cb, 'p) eventset \<Rightarrow> 'e \<Rightarrow> 'w \<Rightarrow> (('e, 'cb, 'p) eventset \<times> 'w) option" where
  "retire ops self ev w =
     (if \<not> has (ev_events (event_at self ev)) EV_PERSIST
      then map_option snd (evsets_del ops self ev w)
      else do {
        (_, self) \<leftarrow> event_queue_remove self ev EVSTATUS_ACTIVE;
        self \<leftarrow>
          (if sint (ev_timer_msecs (event_at self ev)) \<ge> 0
           then do {
             self \<leftarrow> (if \<not> has (ev_results (event_at self ev)) (scast EV_TIMEOUT)
                     then map_option snd (event_queue_remove self ev EVSTATUS_TIMER) else Some self);
             map_option snd (event_queue_insert self ev EVSTATUS_TIMER)
           }
           else Some self);
        Some (self, w)
      })"

partial_function (option) process_active ::
  "('e, 'cb, 'p, 'w) eventop \<Rightarrow> ('e, 'cb, 'p, 'w) callback \<Rightarrow> int \<Rightarrow> ('e, 'cb, 'p) eventset \<Rightarrow> 'w \<Rightarrow>
     (int \<times> ('e, 'cb, 'p) eventset \<times> 'w) option" where
  "process_active ops run rc self w =
     (case es_activelist self of
        [] \<Rightarrow> Some (rc, self, w)
      | ev # _ \<Rightarrow> do {
          (self, w) \<leftarrow> retire ops self ev w;
          cb \<leftarrow> ev_cb (event_at self ev);
          (self, w) \<leftarrow> run cb (ev_fd (event_at self ev)) (ucast (ev_results (event_at self ev))) self w;
          process_active ops run (rc + 1) self w
        })"

definition evsets_process_active ::
  "('e, 'cb, 'p, 'w) eventop \<Rightarrow> ('e, 'cb, 'p, 'w) callback \<Rightarrow> ('e, 'cb, 'p) eventset \<Rightarrow> 'w \<Rightarrow>
     (int \<times> ('e, 'cb, 'p) eventset \<times> 'w) option" where
  "evsets_process_active ops run self w = process_active ops run 0 self w"

definition evsets_dispatch ::
  "('e, 'cb, 'p, 'w) eventop \<Rightarrow> ('w \<Rightarrow> int \<times> 'w) \<Rightarrow> ('e, 'cb, 'p, 'w) callback \<Rightarrow> ('e, 'cb, 'p) eventset \<Rightarrow> 'w \<Rightarrow>
     (int \<times> ('e, 'cb, 'p) eventset \<times> 'w) option" where
  "evsets_dispatch ops clock run sets w = do {
     let (seconds4wait, sets, w) =
       (if es_activelist sets = []
        then let (now, sets, w) = get_current clock sets True w;
                 s = word_of_int (es_expire_time sets - now) :: i32;
                 s = (if sint s < 0 then 0
                      else if sint s > sint (es_timer_precision sets) then es_timer_precision sets else s)
             in (s, sets, w)
        else (0, sets, w));
     (res, sets, w) \<leftarrow> eo_dispatch ops sets seconds4wait w;
     let (now, sets, w) = get_current clock sets True w;
     sets \<leftarrow>
       (if es_expire_time sets \<le> now
        then do {
          (_, sets) \<leftarrow> evtimer_dispatch sets;
          Some (sets\<lparr>es_expire_time := now + sint (es_timer_precision sets)\<rparr>)
        }
        else Some sets);
     evsets_process_active ops run sets w
   }"

section \<open>Destruction\<close>

text \<open>
  Each loop fetches the successor before it deletes an event, and deleting an event changes the
  membership of no other, so the loops run over the list as it was at their start.
\<close>

fun del_all ::
  "('e, 'cb, 'p, 'w) eventop \<Rightarrow> 'e list \<Rightarrow> ('e, 'cb, 'p) eventset \<Rightarrow> 'w \<Rightarrow> (('e, 'cb, 'p) eventset \<times> 'w) option" where
  "del_all ops [] S w = Some (S, w)"
| "del_all ops (e # es) S w = do {
     (S, w) \<leftarrow> (if \<not> has (ev_status (event_at S e)) EVSTATUS_INTERNAL
              then map_option snd (evsets_del ops S e w) else Some (S, w));
     del_all ops es S w
   }"

fun clean_bucket ::
  "('e, 'cb, 'p, 'w) eventop \<Rightarrow> 'e list \<Rightarrow> int \<Rightarrow> ('e, 'cb, 'p) eventset \<Rightarrow> 'w \<Rightarrow>
     (int \<times> ('e, 'cb, 'p) eventset \<times> 'w) option" where
  "clean_bucket ops [] rc S w = Some (rc, S, w)"
| "clean_bucket ops (e # es) rc S w = do {
     (_, S, w) \<leftarrow> evsets_del ops S e w;
     let t = es_timer S;
     clean_bucket ops es (rc + 1) (S\<lparr>es_timer := t\<lparr>et_event_count := et_event_count t - 1\<rparr>\<rparr>) w
   }"

fun clean_buckets ::
  "('e, 'cb, 'p, 'w) eventop \<Rightarrow> nat list \<Rightarrow> int \<Rightarrow> ('e, 'cb, 'p) eventset \<Rightarrow> 'w \<Rightarrow>
     (int \<times> ('e, 'cb, 'p) eventset \<times> 'w) option" where
  "clean_buckets ops [] rc S w = Some (rc, S, w)"
| "clean_buckets ops (i # is) rc S w = do {
     head \<leftarrow> arr_get (et_buckets (es_timer S)) i;
     (rc, S, w) \<leftarrow> clean_bucket ops head rc S w;
     clean_buckets ops is rc S w
   }"

definition evtimer_clean ::
  "('e, 'cb, 'p, 'w) eventop \<Rightarrow> ('e, 'cb, 'p) eventset \<Rightarrow> 'w \<Rightarrow> (int \<times> ('e, 'cb, 'p) eventset \<times> 'w) option" where
  "evtimer_clean ops S w = do {
     (rc, S, w) \<leftarrow> clean_buckets ops [0..<nat (sint (et_bucket_count (es_timer S)))] 0 S w;
     Some (rc, S\<lparr>es_timer := (es_timer S)\<lparr>et_dispatch_refer := 0\<rparr>\<rparr>, w)
   }"

text \<open>The memory of the set is freed at the end; the events stay with their owners.\<close>

definition evsets_destroy ::
  "('e, 'cb, 'p, 'w) eventop \<Rightarrow> ('e, 'cb, 'p) eventset \<Rightarrow> 'w \<Rightarrow> (('e \<Rightarrow> 'cb event) \<times> 'w) option" where
  "evsets_destroy ops S w = do {
     (S, w) \<leftarrow> del_all ops (es_eventlist S) S w;
     (_, S, w) \<leftarrow> evtimer_clean ops S w;
     (S, w) \<leftarrow> del_all ops (es_activelist S) S w;
     Some (es_events S, eo_final ops (es_poll S) w)
   }"

section \<open>Invariant\<close>

text \<open>
  The wheel and the active list are well formed, the list of inserted events holds exactly the
  events marked so, and every event that belongs to the set has a callback and no reserved status bit.
\<close>

definition core_ok :: "('e, 'cb, 'p) eventset \<Rightarrow> bool" where
  "core_ok S \<longleftrightarrow> wheel_ok S \<and> active_ok S \<and> distinct (es_eventlist S) \<and>
     (\<forall>e. has (ev_status (event_at S e)) EVSTATUS_INSERTED \<longleftrightarrow> e \<in> set (es_eventlist S)) \<and>
     (\<forall>e. has (ev_status (event_at S e)) EVSTATUS_INSERTED \<longrightarrow> ev_evsets (event_at S e)) \<and>
     (\<forall>e. ev_evsets (event_at S e) \<longrightarrow>
        ev_cb (event_at S e) \<noteq> None \<and> \<not> has (ev_status (event_at S e)) (NOT EVSTATUS_ALL))"

definition evset_ok :: "('p \<Rightarrow> ('e \<Rightarrow> 'cb event) \<Rightarrow> bool) \<Rightarrow> ('e, 'cb, 'p) eventset \<Rightarrow> bool" where
  "evset_ok table_ok S \<longleftrightarrow> core_ok S \<and> table_ok (es_poll S) (es_events S)"

text \<open>What the timer and active-list operations leave alone.\<close>

definition io_same :: "('e, 'cb, 'p) eventset \<Rightarrow> ('e, 'cb, 'p) eventset \<Rightarrow> bool" where
  "io_same S S' \<longleftrightarrow> es_poll S' = es_poll S \<and> es_eventlist S' = es_eventlist S \<and>
     wheel_size (es_timer S') = wheel_size (es_timer S) \<and> wheel_prec (es_timer S') = wheel_prec (es_timer S) \<and>
     (\<forall>e. ev_fd (event_at S' e) = ev_fd (event_at S e) \<and> ev_events (event_at S' e) = ev_events (event_at S e) \<and>
        ev_cb (event_at S' e) = ev_cb (event_at S e) \<and> ev_evsets (event_at S' e) = ev_evsets (event_at S e) \<and>
        ev_timer_msecs (event_at S' e) = ev_timer_msecs (event_at S e) \<and>
        ev_results (event_at S' e) = ev_results (event_at S e) \<and>
        (has (ev_status (event_at S' e)) EVSTATUS_INSERTED \<longleftrightarrow> has (ev_status (event_at S e)) EVSTATUS_INSERTED))"

lemma io_same_refl [simp]: "io_same S S"
  by (simp add: io_same_def)

lemma io_same_trans [trans]: "io_same S S' \<Longrightarrow> io_same S' S'' \<Longrightarrow> io_same S S''"
  by (simp add: io_same_def)

section \<open>The steps of the operations\<close>

lemma timer_off:
  assumes ok: "core_ok S" and t: "has (ev_status (event_at S e)) EVSTATUS_TIMER"
  obtains S' where "event_queue_remove S e EVSTATUS_TIMER = Some (0, S')" "core_ok S'" "io_same S S'"
    "due S' = (due S)(e := None)" "es_activelist S' = es_activelist S"
    "\<forall>d. has (ev_status (event_at S' d)) EVSTATUS_ACTIVE \<longleftrightarrow> has (ev_status (event_at S d)) EVSTATUS_ACTIVE"
    "\<not> has (ev_status (event_at S' e)) EVSTATUS_TIMER"
proof -
  have w: "wheel_ok S" using ok by (simp add: core_ok_def)
  show thesis
  proof (rule that [of "unlink S e"])
    show "event_queue_remove S e EVSTATUS_TIMER = Some (0, unlink S e)" by (rule remove_timer_eq [OF w t])
    show "due (unlink S e) = (due S)(e := None)" by (rule unlink_ok [OF w t])
    show "core_ok (unlink S e)"
      using ok unlink_ok(1) [OF w t] unlink_active_ok [of S e] unfolding core_ok_def by (simp add: Let_def)
    show "io_same S (unlink S e)" by (simp add: io_same_def Let_def wheel_size_def wheel_prec_def)
  qed (simp_all add: Let_def)
qed

lemma timer_on:
  assumes ok: "core_ok S" and t: "\<not> has (ev_status (event_at S e)) EVSTATUS_TIMER"
    and tv: "0 \<le> sint (ev_timer_msecs (event_at S e))" and own: "ev_evsets (event_at S e)"
  obtains S' where "event_queue_insert S e EVSTATUS_TIMER = Some (0, S')" "core_ok S'" "io_same S S'"
    "due S' = (due S)(e \<mapsto> delay (wheel_prec (es_timer S)) (wheel_size (es_timer S))
        (nat (sint (ev_timer_msecs (event_at S e)))))" "es_activelist S' = es_activelist S"
    "\<forall>d. has (ev_status (event_at S' d)) EVSTATUS_ACTIVE \<longleftrightarrow> has (ev_status (event_at S d)) EVSTATUS_ACTIVE"
proof -
  have w: "wheel_ok S" and a: "active_ok S" using ok by (simp_all add: core_ok_def)
  obtain S' i c n bs where S': "event_queue_insert S e EVSTATUS_TIMER = Some (0, S')"
    "S' = set_event e ((event_at S e)\<lparr>ev_status := ev_status (event_at S e) OR EVSTATUS_TIMER,
        ev_timer_index := i, ev_timer_stepcnt := c\<rparr>) (S\<lparr>es_timer := relink (es_timer S) n bs\<rparr>)"
    "wheel_ok S'"
    "due S' = (due S)(e \<mapsto> delay (wheel_prec (es_timer S)) (wheel_size (es_timer S))
        (nat (sint (ev_timer_msecs (event_at S e)))))"
    using insert_timer [OF w t tv own] by metis
  show thesis
  proof (rule that [of S'])
    show "core_ok S'" using ok S'(3) unfolding core_ok_def by (simp add: S'(2) active_ok_def)
    show "io_same S S'" by (simp add: io_same_def S'(2) wheel_size_def wheel_prec_def)
  qed (use S' in \<open>simp_all add: S'(2)\<close>)
qed

lemma active_off:
  assumes ok: "core_ok S" and t: "has (ev_status (event_at S e)) EVSTATUS_ACTIVE"
  obtains S' where "event_queue_remove S e EVSTATUS_ACTIVE = Some (0, S')" "core_ok S'" "io_same S S'"
    "due S' = due S" "set (es_activelist S') = set (es_activelist S) - {e}"
    "\<forall>d. has (ev_status (event_at S' d)) EVSTATUS_TIMER \<longleftrightarrow> has (ev_status (event_at S d)) EVSTATUS_TIMER"
    "\<not> has (ev_status (event_at S' e)) EVSTATUS_ACTIVE" "es_activelist S' = remove1 e (es_activelist S)"
proof -
  define S' where "S' = (set_event e ((event_at S e)\<lparr>ev_status := ev_status (event_at S e) AND NOT EVSTATUS_ACTIVE\<rparr>) S)
    \<lparr>es_activelist := remove1 e (es_activelist S)\<rparr>"
  have a: "e \<in> set (es_activelist S)" "distinct (es_activelist S)"
    using ok t by (simp_all add: core_ok_def active_ok_def)
  have w: "wheel_ok S'" "due S' = due S"
    using ok wheel_frame [of S' S] by (auto simp: S'_def core_ok_def)
  show thesis
  proof (rule that [of S'])
    show "event_queue_remove S e EVSTATUS_ACTIVE = Some (0, S')"
      using t a by (simp add: event_queue_remove_def remove_elem_def S'_def Let_def)
    show "core_ok S'" using ok w(1) a unfolding core_ok_def by (auto simp: S'_def active_ok_def)
    show "io_same S S'" by (simp add: io_same_def S'_def)
    show "set (es_activelist S') = set (es_activelist S) - {e}" using a by (simp add: S'_def)
  qed (use w in \<open>simp_all add: S'_def\<close>)
qed

lemma inserted_on:
  assumes ok: "core_ok S" and t: "\<not> has (ev_status (event_at S e)) EVSTATUS_INSERTED" and own: "ev_evsets (event_at S e)"
  defines "S' \<equiv> (set_event e ((event_at S e)\<lparr>ev_status := ev_status (event_at S e) OR EVSTATUS_INSERTED\<rparr>) S)
    \<lparr>es_eventlist := es_eventlist S @ [e]\<rparr>"
  shows "event_queue_insert S e EVSTATUS_INSERTED = Some (0, S')" "core_ok S'" "due S' = due S"
proof -
  have a: "e \<notin> set (es_eventlist S)" using ok t by (simp add: core_ok_def)
  have w: "wheel_ok S'" "due S' = due S"
    using ok wheel_frame [of S' S] by (auto simp: S'_def core_ok_def)
  show "event_queue_insert S e EVSTATUS_INSERTED = Some (0, S')"
    using t a by (simp add: event_queue_insert_def insert_tail_def S'_def Let_def)
  show "core_ok S'" using ok w(1) a own unfolding core_ok_def by (auto simp: S'_def active_ok_def)
  show "due S' = due S" by (rule w)
qed

lemma inserted_off:
  assumes ok: "core_ok S" and t: "has (ev_status (event_at S e)) EVSTATUS_INSERTED"
  defines "S' \<equiv> (set_event e ((event_at S e)\<lparr>ev_status := ev_status (event_at S e) AND NOT EVSTATUS_INSERTED\<rparr>) S)
    \<lparr>es_eventlist := remove1 e (es_eventlist S)\<rparr>"
  shows "event_queue_remove S e EVSTATUS_INSERTED = Some (0, S')" "core_ok S'" "due S' = due S"
proof -
  have a: "e \<in> set (es_eventlist S)" "distinct (es_eventlist S)" using ok t by (simp_all add: core_ok_def)
  have w: "wheel_ok S'" "due S' = due S"
    using ok wheel_frame [of S' S] by (auto simp: S'_def core_ok_def)
  show "event_queue_remove S e EVSTATUS_INSERTED = Some (0, S')"
    using t a by (simp add: event_queue_remove_def remove_elem_def S'_def Let_def)
  show "core_ok S'" using ok w(1) a unfolding core_ok_def by (auto simp: S'_def active_ok_def)
  show "due S' = due S" by (rule w)
qed

text \<open>A tick of the wheel.\<close>

lemma wheel_dispatch_core:
  assumes ok: "core_ok S"
  obtains S' where "evtimer_dispatch S = Some (int (card {e. due S e = Some 1}), S')" "core_ok S'"
    "set (es_activelist S') = set (es_activelist S) \<union> {e. due S e = Some 1}" "es_poll S' = es_poll S"
    "\<forall>e. ev_keep (event_at S e) (event_at S' e)"
proof -
  have w: "wheel_ok S" "active_ok S" using ok by (simp_all add: core_ok_def)
  obtain S' where S': "evtimer_dispatch S = Some (int (card {e. due S e = Some 1}), S')"
    "wheel_ok S'" "active_ok S'" "set (es_activelist S') = set (es_activelist S) \<union> {e. due S e = Some 1}"
    "es_eventlist S' = es_eventlist S" "es_poll S' = es_poll S" "\<forall>e. ev_keep (event_at S e) (event_at S' e)"
    by (rule dispatch_ok [OF w]) (rule that)
  have "core_ok S'"
  proof -
    have "has (ev_status (event_at S' e)) EVSTATUS_INSERTED \<longleftrightarrow> has (ev_status (event_at S e)) EVSTATUS_INSERTED"
      "has (ev_status (event_at S' e)) (NOT EVSTATUS_ALL) \<longleftrightarrow> has (ev_status (event_at S e)) (NOT EVSTATUS_ALL)"
      "ev_evsets (event_at S' e) = ev_evsets (event_at S e)" "ev_cb (event_at S' e) = ev_cb (event_at S e)" for e
      using S'(7) ev_keep_status [of "event_at S e" "event_at S' e"] by (simp_all add: ev_keep_def)
    then show ?thesis using ok S'(2,3,5) by (simp add: core_ok_def)
  qed
  then show thesis using S' that by blast
qed

text \<open>An event that joins the set.\<close>

lemma own_on:
  assumes ok: "core_ok S" and cb: "ev_cb (event_at S e) \<noteq> None" "\<not> has (ev_status (event_at S e)) (NOT EVSTATUS_ALL)"
  defines "S' \<equiv> set_event e ((event_at S e)\<lparr>ev_evsets := True\<rparr>) S"
  shows "core_ok S'" "due S' = due S"
proof -
  have "wheel_ok S'"
    using ok by (auto simp: core_ok_def wheel_ok_def S'_def timer_linked_def Let_def)
  then show "core_ok S'" using ok cb unfolding core_ok_def by (auto simp: S'_def active_ok_def)
  show "due S' = due S" by (auto simp: due_def S'_def remaining_def fun_eq_iff)
qed

text \<open>The fields that reading the clock and setting the deadline change are in no invariant.\<close>

lemma clock_fields:
  "core_ok (S\<lparr>es_cache_current := t\<rparr>) \<longleftrightarrow> core_ok S" "due (S\<lparr>es_cache_current := t\<rparr>) = due S"
  "core_ok (S\<lparr>es_expire_time := t\<rparr>) \<longleftrightarrow> core_ok S" "due (S\<lparr>es_expire_time := t\<rparr>) = due S"
  "core_ok (S\<lparr>es_poll := p\<rparr>) \<longleftrightarrow> core_ok S" "due (S\<lparr>es_poll := p\<rparr>) = due S"
  using wheel_frame [of "S\<lparr>es_cache_current := t\<rparr>" S] wheel_frame [of "S\<lparr>es_expire_time := t\<rparr>" S]
    wheel_frame [of "S\<lparr>es_poll := p\<rparr>" S]
  by (simp_all add: core_ok_def active_ok_def)

lemma get_current_fields:
  assumes "get_current clock S clear w = (now, S', w')"
  obtains t where "S' = S\<lparr>es_cache_current := t\<rparr>" "now = t"
  using assms that [of "es_cache_current S"] by (fastforce simp: get_current_def Let_def split: prod.splits if_splits)

text \<open>
  What the loop over the active events needs of the callbacks: they return, keep the set well formed
  and activate nothing (an event that is added with a time-out of 0 waits for the next tick); a
  quiet callback also leaves the list of active events as it is.
\<close>

definition callback_ok ::
  "('p \<Rightarrow> ('e \<Rightarrow> 'cb event) \<Rightarrow> bool) \<Rightarrow> ('e, 'cb, 'p, 'w) callback \<Rightarrow> bool" where
  "callback_ok table_ok run \<longleftrightarrow> (\<forall>cb fd res S w. evset_ok table_ok S \<longrightarrow>
     (\<exists>S' w'. run cb fd res S w = Some (S', w') \<and> evset_ok table_ok S' \<and> set (es_activelist S') \<subseteq> set (es_activelist S)))"

definition callback_quiet :: "('e, 'cb, 'p, 'w) callback \<Rightarrow> bool" where
  "callback_quiet run \<longleftrightarrow> (\<forall>cb fd res S w S' w'. run cb fd res S w = Some (S', w') \<longrightarrow> es_activelist S' = es_activelist S)"

text \<open>An event with a descriptor to watch, which is not watched and not active.\<close>

definition wants_io :: "'cb event \<Rightarrow> bool" where
  "wants_io ev \<longleftrightarrow> 0 < sint (ev_fd ev) \<and> has (ev_events ev) (EV_READ OR EV_WRITE) \<and>
     \<not> has (ev_status ev) (EVSTATUS_ACTIVE OR EVSTATUS_INSERTED)"

text \<open>
  What a callback is called with.  \<open>calls\<close> reads off the world the calls made so far: the callbacks add themselves
  to it, the back end and the clock leave it alone.  A still callback neither activates nor deactivates events, and does
  not change what the active ones will be called with.
\<close>

definition call_of :: "('e, 'cb, 'p) eventset \<Rightarrow> 'e \<Rightarrow> 'cb \<times> i32 \<times> u16" where
  "call_of S e = (the (ev_cb (event_at S e)), ev_fd (event_at S e), ucast (ev_results (event_at S e)))"

definition records :: "('w \<Rightarrow> ('cb \<times> i32 \<times> u16) list) \<Rightarrow> ('e, 'cb, 'p, 'w) callback \<Rightarrow> bool" where
  "records calls run \<longleftrightarrow> (\<forall>cb fd res S w S' w'. run cb fd res S w = Some (S', w') \<longrightarrow> calls w' = calls w @ [(cb, fd, res)])"

definition unseen :: "('w \<Rightarrow> ('cb \<times> i32 \<times> u16) list) \<Rightarrow> ('e, 'cb, 'p, 'w) eventop \<Rightarrow> ('w \<Rightarrow> int \<times> 'w) \<Rightarrow> bool" where
  "unseen calls ops clock \<longleftrightarrow> (\<forall>w. calls (snd (clock w)) = calls w) \<and>
     (\<forall>p e ev w r p' w'. eo_del ops p e ev w = Some (r, p', w') \<longrightarrow> calls w' = calls w) \<and>
     (\<forall>S tv w r S' w'. eo_dispatch ops S tv w = Some (r, S', w') \<longrightarrow> calls w' = calls w)"

definition callback_still :: "('e, 'cb, 'p, 'w) callback \<Rightarrow> bool" where
  "callback_still run \<longleftrightarrow> (\<forall>cb fd res S w S' w'. run cb fd res S w = Some (S', w') \<longrightarrow>
     es_activelist S' = es_activelist S \<and> (\<forall>e \<in> set (es_activelist S). call_of S' e = call_of S e))"

text \<open>How long a round waits for the kernel: not at all when events are active, else until the next tick at most.\<close>

definition round_wait ::
  "('w \<Rightarrow> int \<times> 'w) \<Rightarrow> ('e, 'cb, 'p) eventset \<Rightarrow> 'w \<Rightarrow> i32 \<times> ('e, 'cb, 'p) eventset \<times> 'w" where
  "round_wait clock S w =
     (if es_activelist S = []
      then let (now, w) = clock w;
               s = word_of_int (es_expire_time S - now) :: i32
           in (if sint s < 0 then 0 else if sint s > sint (es_timer_precision S) then es_timer_precision S else s,
               S\<lparr>es_cache_current := now\<rparr>, w)
      else (0, S, w))"

section \<open>The operations over any back end that keeps its contract\<close>

context io_backend
begin

lemma table_same:
  assumes "table_ok (es_poll S) (es_events S)" "io_same S S'"
  shows "table_ok (es_poll S') (es_events S')"
proof -
  have "table_ok (es_poll S) (es_events S')"
    by (rule frame_ok [OF assms(1)]) (use assms(2) in \<open>simp add: io_same_def\<close>)
  then show ?thesis using assms(2) by (simp add: io_same_def)
qed

lemma optional_timer_off:
  assumes "core_ok S"
  obtains S' where "(if has (ev_status (event_at S e)) EVSTATUS_TIMER
      then map_option snd (event_queue_remove S e EVSTATUS_TIMER) else Some S) = Some S'"
    "core_ok S'" "io_same S S'" "due S' = (due S)(e := None)" "es_activelist S' = es_activelist S"
    "\<forall>d. has (ev_status (event_at S' d)) EVSTATUS_ACTIVE \<longleftrightarrow> has (ev_status (event_at S d)) EVSTATUS_ACTIVE"
    "\<not> has (ev_status (event_at S' e)) EVSTATUS_TIMER"
proof (cases "has (ev_status (event_at S e)) EVSTATUS_TIMER")
  case True
  show thesis by (rule timer_off [OF assms True]) (rule that, simp_all add: True)
next
  case False
  then have "due S = (due S)(e := None)" by (auto simp: due_def)
  then show thesis using that [of S] assms False by simp
qed

lemma optional_active_off:
  assumes "core_ok S" "c \<longrightarrow> has (ev_status (event_at S e)) EVSTATUS_ACTIVE"
  obtains S' where "(if c then map_option snd (event_queue_remove S e EVSTATUS_ACTIVE) else Some S) = Some S'"
    "core_ok S'" "io_same S S'" "due S' = due S"
    "es_activelist S' = (if c then remove1 e (es_activelist S) else es_activelist S)"
    "set (es_activelist S') = (if c then set (es_activelist S) - {e} else set (es_activelist S))"
    "\<forall>d. has (ev_status (event_at S' d)) EVSTATUS_TIMER \<longleftrightarrow> has (ev_status (event_at S d)) EVSTATUS_TIMER"
proof (cases c)
  case True
  obtain S' where "event_queue_remove S e EVSTATUS_ACTIVE = Some (0, S')" "core_ok S'" "io_same S S'"
    "due S' = due S" "set (es_activelist S') = set (es_activelist S) - {e}"
    "\<forall>d. has (ev_status (event_at S' d)) EVSTATUS_TIMER \<longleftrightarrow> has (ev_status (event_at S d)) EVSTATUS_TIMER"
    "\<not> has (ev_status (event_at S' e)) EVSTATUS_ACTIVE" "es_activelist S' = remove1 e (es_activelist S)"
    using active_off [OF assms(1) mp [OF assms(2) True]] by metis
  then show thesis using that [of S'] True by simp
next
  case False
  then show thesis using that [of S] assms by simp
qed

lemma del_contract:
  assumes ok: "evset_ok table_ok S" and own: "ev_evsets (event_at S e)"
  obtains rc S' w' where "evsets_del ops S e w = Some (rc, S', w')" "evset_ok table_ok S'"
    "due S' = (due S)(e := None)" "es_activelist S' = remove1 e (es_activelist S)"
    "set (es_activelist S') = set (es_activelist S) - {e}"
    "es_eventlist S' = remove1 e (es_eventlist S)"
    "\<forall>d. ev_fd (event_at S' d) = ev_fd (event_at S d)" "\<forall>d. ev_events (event_at S' d) = ev_events (event_at S d)"
    "\<forall>d. ev_cb (event_at S' d) = ev_cb (event_at S d)" "\<forall>d. ev_results (event_at S' d) = ev_results (event_at S d)"
    "\<forall>d. ev_evsets (event_at S' d) = ev_evsets (event_at S d)"
    "wheel_size (es_timer S') = wheel_size (es_timer S)" "wheel_prec (es_timer S') = wheel_prec (es_timer S)"
proof -
  have c: "core_ok S" and t: "table_ok (es_poll S) (es_events S)" using ok by (simp_all add: evset_ok_def)
  have clean: "\<not> has (ev_status (event_at S e)) (NOT EVSTATUS_ALL)" using c own by (simp add: core_ok_def)
  obtain S1 where S1: "(if has (ev_status (event_at S e)) EVSTATUS_TIMER
      then map_option snd (event_queue_remove S e EVSTATUS_TIMER) else Some S) = Some S1"
    "core_ok S1" "io_same S S1" "due S1 = (due S)(e := None)" "es_activelist S1 = es_activelist S"
    by (rule optional_timer_off [OF c, of e]) (rule that)
  obtain S2 where S2: "(if has (ev_status (event_at S1 e)) EVSTATUS_ACTIVE
      then map_option snd (event_queue_remove S1 e EVSTATUS_ACTIVE) else Some S1) = Some S2"
    "core_ok S2" "io_same S1 S2" "due S2 = due S1"
    "es_activelist S2 = (if has (ev_status (event_at S1 e)) EVSTATUS_ACTIVE then remove1 e (es_activelist S1) else es_activelist S1)"
    "set (es_activelist S2) = (if has (ev_status (event_at S1 e)) EVSTATUS_ACTIVE
       then set (es_activelist S1) - {e} else set (es_activelist S1))"
    by (rule optional_active_off [OF S1(2) impI]) (assumption, rule that)
  have act: "es_activelist S2 = remove1 e (es_activelist S)" "set (es_activelist S2) = set (es_activelist S) - {e}"
    using S2(5,6) S1(2,5) by (auto simp: core_ok_def active_ok_def remove1_idem)
  have io: "io_same S S2" using S1(3) S2(3) by (rule io_same_trans)
  have t2: "table_ok (es_poll S2) (es_events S2)" by (rule table_same [OF t io])
  have eq: "evsets_del ops S e w = (if has (ev_status (event_at S2 e)) EVSTATUS_INSERTED
         then do {
           (_, S) \<leftarrow> event_queue_remove S2 e EVSTATUS_INSERTED;
           (r, p, w) \<leftarrow> eo_del ops (es_poll S) e (event_at S e) w;
           Some (r, S\<lparr>es_poll := p\<rparr>, w) }
         else Some (0, S2, w))"
    unfolding evsets_del_def using clean by (simp only: if_False S1(1) Option.bind.simps S2(1))
  show thesis
  proof (cases "has (ev_status (event_at S2 e)) EVSTATUS_INSERTED")
    case False
    then have "e \<notin> set (es_eventlist S)" using io c by (simp add: io_same_def core_ok_def)
    then show thesis using that [of 0 S2 w] eq False S2(2) t2 act io S1(4) S2(4)
      by (simp add: evset_ok_def io_same_def remove1_idem)
  next
    case True
    define ev where "ev = (event_at S2 e)\<lparr>ev_status := ev_status (event_at S2 e) AND NOT EVSTATUS_INSERTED\<rparr>"
    define S3 where "S3 = (set_event e ev S2)\<lparr>es_eventlist := remove1 e (es_eventlist S2)\<rparr>"
    note S3 = inserted_off [OF S2(2) True, folded ev_def, folded S3_def]
    obtain rc p w' where d: "eo_del ops (es_poll S2) e ev w = Some (rc, p, w')" "table_ok p ((es_events S2)(e := ev))"
      using del_ok [OF t2 True, of w] unfolding ev_def by blast
    define S4 where "S4 = S3\<lparr>es_poll := p\<rparr>"
    have S3f: "es_poll S3 = es_poll S2" "event_at S3 e = ev" "es_events S3 = (es_events S2)(e := ev)" by (simp_all add: S3_def)
    have "core_ok S4" using S3(2) wheel_frame [of S4 S3] by (simp add: core_ok_def S4_def active_ok_def)
    moreover have "due S4 = due S3" by (rule wheel_frame) (simp_all add: S4_def)
    moreover have "evsets_del ops S e w = Some (rc, S4, w')" unfolding eq if_P [OF True] S3(1)
      by (simp add: S3f d(1) S4_def)
    ultimately show thesis using that [of rc S4 w'] d(2) S3(3) S2(4) S1(4) act io S3f(3)
      by (simp add: evset_ok_def S4_def) (simp add: S3_def io_same_def ev_def)
  qed
qed

lemma add_io:
  assumes ok: "evset_ok table_ok S" and own: "ev_evsets (event_at S e)" and fd: "sint (ev_fd (event_at S e)) < 2 ^ 30"
  obtains rc S' w' where "(let ev = event_at S e
           in if sint (ev_fd ev) > 0 \<and> has (ev_events ev) (EV_READ OR EV_WRITE) \<and>
                 \<not> has (ev_status ev) (EVSTATUS_ACTIVE OR EVSTATUS_INSERTED)
              then do {
                (r, p, w) \<leftarrow> eo_add ops (es_poll S) e ev w;
                let S = S\<lparr>es_poll := p\<rparr>;
                (if r = 0
                 then do { (_, S) \<leftarrow> event_queue_insert S e EVSTATUS_INSERTED; Some (1, S, w) }
                 else Some (0, S, w))
              }
              else Some (0, S, w)) = Some (rc, S', w')"
    "evset_ok table_ok S'" "due S' = due S" "es_activelist S' = es_activelist S"
    "rc = 0 \<and> es_eventlist S' = es_eventlist S \<or> rc = (1::int) \<and> es_eventlist S' = es_eventlist S @ [e]"
    "\<forall>d. ev_evsets (event_at S' d) = ev_evsets (event_at S d)"
    "es_timer S' = es_timer S" "rc = 1 \<longleftrightarrow> wants_io (event_at S e) \<and> (\<exists>p w'. eo_add ops (es_poll S) e (event_at S e) w = Some (0, p, w'))"
proof (cases "sint (ev_fd (event_at S e)) > 0 \<and> has (ev_events (event_at S e)) (EV_READ OR EV_WRITE) \<and>
    \<not> has (ev_status (event_at S e)) (EVSTATUS_ACTIVE OR EVSTATUS_INSERTED)")
  case False
  show thesis by (rule that [of 0 S w], unfold Let_def if_not_P [OF False]) (use ok False in \<open>simp_all add: wants_io_def\<close>)
next
  case True
  have c: "core_ok S" and t: "table_ok (es_poll S) (es_events S)" using ok by (simp_all add: evset_ok_def)
  have n: "\<not> has (ev_status (event_at S e)) EVSTATUS_INSERTED"
    using True by (simp add: has_or)
  have wa: "watchable (event_at S e)" using True fd by (simp add: watchable_def has_or)
  define ev where "ev = (event_at S e)\<lparr>ev_status := ev_status (event_at S e) OR EVSTATUS_INSERTED\<rparr>"
  obtain r p w' where a: "eo_add ops (es_poll S) e (event_at S e) w = Some (r, p, w')" "r \<noteq> 0 \<Longrightarrow> table_ok p (es_events S)"
      "r = 0 \<Longrightarrow> table_ok p ((es_events S)(e := ev))"
    using add_ok [OF t n wa, of w] unfolding ev_def by blast
  define S1 where "S1 = S\<lparr>es_poll := p\<rparr>"
  have c1: "core_ok S1" "due S1 = due S"
    using c wheel_frame [of S1 S] by (auto simp: core_ok_def S1_def active_ok_def)
  have n1: "\<not> has (ev_status (event_at S1 e)) EVSTATUS_INSERTED" "ev_evsets (event_at S1 e)" using n own by (simp_all add: S1_def)
  show thesis
  proof (cases "r = 0")
    case False
    then show thesis using that [of 0 S1 w'] True a c1 by (simp add: S1_def evset_ok_def Let_def wants_io_def)
  next
    case r: True
    define S2 where "S2 = (set_event e ((event_at S1 e)\<lparr>ev_status := ev_status (event_at S1 e) OR EVSTATUS_INSERTED\<rparr>) S1)
      \<lparr>es_eventlist := es_eventlist S1 @ [e]\<rparr>"
    note s2 = inserted_on [OF c1(1) n1, folded S2_def]
    have "es_events S2 = (es_events S)(e := ev)" "es_poll S2 = p" by (simp_all add: S2_def S1_def ev_def)
    then have "evset_ok table_ok S2" using s2(2) a(3) [OF r] by (simp add: evset_ok_def)
    moreover have "due S2 = due S" using s2(3) c1(2) by simp
    ultimately show thesis using that [of 1 S2 w'] True r a(1) s2(1)
      by (simp add: Let_def wants_io_def flip: S1_def) (simp add: S2_def S1_def)
  qed
qed

lemma add_contract:
  assumes ok: "evset_ok table_ok S" and fd: "sint (ev_fd (event_at S e)) < 2 ^ 30"
    and cb: "ev_cb (event_at S e) \<noteq> None" "\<not> has (ev_status (event_at S e)) (NOT EVSTATUS_ALL)"
  obtains rc io S' w' where "evsets_add ops S e tv w = Some (rc, S', w')" "evset_ok table_ok S'"
    "rc = (if io then 1 else 0) + (if 0 \<le> sint tv then 2 else 0)"
    "es_eventlist S' = (if io then es_eventlist S @ [e] else es_eventlist S)"
    "due S' = (if 0 \<le> sint tv
       then (due S)(e \<mapsto> delay (wheel_prec (es_timer S)) (wheel_size (es_timer S)) (nat (sint tv))) else due S)"
    "set (es_activelist S') \<subseteq> set (es_activelist S)" "set (es_activelist S) \<subseteq> insert e (set (es_activelist S'))"
    "ev_evsets (event_at S' e)"
    "io \<longleftrightarrow> wants_io (event_at S e) \<and> (\<exists>p w'. eo_add ops (es_poll S) e ((event_at S e)\<lparr>ev_evsets := True\<rparr>) w = Some (0, p, w'))"
proof -
  define S0 where "S0 = set_event e ((event_at S e)\<lparr>ev_evsets := True\<rparr>) S"
  have c: "core_ok S" and t: "table_ok (es_poll S) (es_events S)" using ok by (simp_all add: evset_ok_def)
  note s0 = own_on [OF c cb, folded S0_def]
  have "table_ok (es_poll S0) (es_events S0)"
    using frame_ok [OF t, of "es_events S0"] by (simp add: S0_def)
  then have ok0: "evset_ok table_ok S0" using s0 by (simp add: evset_ok_def)
  have f0: "ev_evsets (event_at S0 e)" "sint (ev_fd (event_at S0 e)) < 2 ^ 30" "es_activelist S0 = es_activelist S"
    "es_eventlist S0 = es_eventlist S" "es_timer S0 = es_timer S" using fd by (simp_all add: S0_def)
  obtain r1 S1 w1 where S1: "(let ev = event_at S0 e
           in if sint (ev_fd ev) > 0 \<and> has (ev_events ev) (EV_READ OR EV_WRITE) \<and>
                 \<not> has (ev_status ev) (EVSTATUS_ACTIVE OR EVSTATUS_INSERTED)
              then do {
                (r, p, w) \<leftarrow> eo_add ops (es_poll S0) e ev w;
                let S = S0\<lparr>es_poll := p\<rparr>;
                (if r = 0
                 then do { (_, S) \<leftarrow> event_queue_insert S e EVSTATUS_INSERTED; Some (1, S, w) }
                 else Some (0, S, w))
              }
              else Some (0, S0, w)) = Some (r1, S1, w1)"
    "evset_ok table_ok S1" "due S1 = due S0" "es_activelist S1 = es_activelist S0"
    "r1 = 0 \<and> es_eventlist S1 = es_eventlist S0 \<or> r1 = (1::int) \<and> es_eventlist S1 = es_eventlist S0 @ [e]"
    "\<forall>d. ev_evsets (event_at S1 d) = ev_evsets (event_at S0 d)" "es_timer S1 = es_timer S0"
    "r1 = 1 \<longleftrightarrow> wants_io (event_at S0 e) \<and> (\<exists>p w'. eo_add ops (es_poll S0) e (event_at S0 e) w = Some (0, p, w'))"
    by (rule add_io [OF ok0 f0(1,2), of w]) (rule that)
  have c1: "core_ok S1" and t1: "table_ok (es_poll S1) (es_events S1)" using S1(2) by (simp_all add: evset_ok_def)
  define io where "io = (r1 = 1)"
  have io: "r1 = (if io then 1 else 0)" "es_eventlist S1 = (if io then es_eventlist S @ [e] else es_eventlist S)"
    using S1(5) f0(4) by (auto simp: io_def)
  have want: "io \<longleftrightarrow> wants_io (event_at S e) \<and> (\<exists>p w'. eo_add ops (es_poll S) e ((event_at S e)\<lparr>ev_evsets := True\<rparr>) w = Some (0, p, w'))"
    using S1(8) by (simp add: io_def S0_def wants_io_def)
  have eq: "evsets_add ops S e tv w =
     (if sint tv \<ge> 0
      then do {
        S \<leftarrow> (if has (ev_status (event_at S1 e)) EVSTATUS_TIMER
             then map_option snd (event_queue_remove S1 e EVSTATUS_TIMER) else Some S1);
        S \<leftarrow> (if has (ev_results (event_at S e)) (scast EV_TIMEOUT) \<and> has (ev_status (event_at S e)) EVSTATUS_ACTIVE
             then map_option snd (event_queue_remove S e EVSTATUS_ACTIVE) else Some S);
        let S = set_event e ((event_at S e)\<lparr>ev_timer_msecs := tv\<rparr>) S;
        (_, S) \<leftarrow> event_queue_insert S e EVSTATUS_TIMER;
        Some (r1 + 2, S, w1) }
      else Some (r1, S1, w1))"
    using cb(2) unfolding evsets_add_def S0_def [symmetric] Let_def [of S0]
    by (simp only: if_False Let_def S0_def [symmetric] S1(1) [unfolded Let_def] Option.bind.simps case_prod_conv)
  show thesis
  proof (cases "0 \<le> sint tv")
    case False
    have "evsets_add ops S e tv w = Some (r1, S1, w1)" unfolding eq if_not_P [OF False] ..
    then show thesis using that [of r1 S1 w1 io] False io want S1(2-4,6) s0(2) f0(1,3) by auto
  next
    case True
    obtain S2 where S2: "(if has (ev_status (event_at S1 e)) EVSTATUS_TIMER
        then map_option snd (event_queue_remove S1 e EVSTATUS_TIMER) else Some S1) = Some S2"
      "core_ok S2" "io_same S1 S2" "due S2 = (due S1)(e := None)" "es_activelist S2 = es_activelist S1"
      "\<not> has (ev_status (event_at S2 e)) EVSTATUS_TIMER"
      by (rule optional_timer_off [OF c1, of e]) (rule that)
    define cond where "cond \<longleftrightarrow> has (ev_results (event_at S2 e)) (scast EV_TIMEOUT) \<and> has (ev_status (event_at S2 e)) EVSTATUS_ACTIVE"
    have "cond \<longrightarrow> has (ev_status (event_at S2 e)) EVSTATUS_ACTIVE" by (simp add: cond_def)
    then obtain S3 where S3: "(if cond then map_option snd (event_queue_remove S2 e EVSTATUS_ACTIVE) else Some S2) = Some S3"
      "core_ok S3" "io_same S2 S3" "due S3 = due S2"
      "set (es_activelist S3) = (if cond then set (es_activelist S2) - {e} else set (es_activelist S2))"
      "\<forall>d. has (ev_status (event_at S3 d)) EVSTATUS_TIMER \<longleftrightarrow> has (ev_status (event_at S2 d)) EVSTATUS_TIMER"
      by (rule optional_active_off [OF S2(2)]) (rule that)
    define S4 where "S4 = set_event e ((event_at S3 e)\<lparr>ev_timer_msecs := tv\<rparr>) S3"
    have c4: "core_ok S4" "due S4 = due S3"
      using S3(2) wheel_frame [of S4 S3] by (auto simp: core_ok_def S4_def active_ok_def)
    have io3: "io_same S1 S3" using S2(3) S3(3) by (rule io_same_trans)
    have own4: "ev_evsets (event_at S4 e)" using io3 S1(6) f0(1) by (simp add: S4_def io_same_def)
    have n4: "\<not> has (ev_status (event_at S4 e)) EVSTATUS_TIMER" using S2(6) S3(6) by (simp add: S4_def)
    have m4: "ev_timer_msecs (event_at S4 e) = tv" by (simp add: S4_def)
    have tv4: "0 \<le> sint (ev_timer_msecs (event_at S4 e))" using True m4 by simp
    obtain S5 where S5: "event_queue_insert S4 e EVSTATUS_TIMER = Some (0, S5)" "core_ok S5" "io_same S4 S5"
      "due S5 = (due S4)(e \<mapsto> delay (wheel_prec (es_timer S4)) (wheel_size (es_timer S4))
          (nat (sint (ev_timer_msecs (event_at S4 e)))))" "es_activelist S5 = es_activelist S4"
      by (rule timer_on [OF c4(1) n4 tv4 own4]) (rule that)
    have "table_ok (es_poll S3) (es_events S3)" by (rule table_same [OF t1 io3])
    then have "table_ok (es_poll S4) (es_events S4)"
      using frame_ok [of "es_poll S3" "es_events S3" "es_events S4"] by (simp add: S4_def)
    then have t5: "table_ok (es_poll S5) (es_events S5)" by (rule table_same) (rule S5)
    have dim: "wheel_prec (es_timer S4) = wheel_prec (es_timer S)" "wheel_size (es_timer S4) = wheel_size (es_timer S)"
      using io3 S1(7) f0(5) by (simp_all add: S4_def io_same_def)
    have "evsets_add ops S e tv w = Some (r1 + 2, S5, w1)"
      unfolding eq if_P [OF True] S2(1) Option.bind.simps cond_def [symmetric] S3(1) Let_def S4_def [symmetric] S5(1)
      by simp
    moreover have "due S5 = (due S)(e \<mapsto> delay (wheel_prec (es_timer S)) (wheel_size (es_timer S)) (nat (sint tv)))"
      using S5(4) c4(2) S3(4) S2(4) S1(3) s0(2) unfolding m4 dim by (simp add: fun_eq_iff)
    moreover have "es_eventlist S5 = (if io then es_eventlist S @ [e] else es_eventlist S)"
      using S5(3) io3 io(2) by (simp add: io_same_def S4_def)
    moreover have "set (es_activelist S5) = (if cond then set (es_activelist S) - {e} else set (es_activelist S))"
      using S5(5) S3(5) S2(5) S1(4) f0(3) by (simp add: S4_def)
    moreover have "ev_evsets (event_at S5 e)" using S5(3) own4 by (simp add: io_same_def)
    ultimately show thesis using that [of "r1 + 2" S5 w1 io] True io(1) want S5(2) t5
      by (auto simp: evset_ok_def split: if_splits)
  qed
qed

lemma retire_contract:
  assumes ok: "evset_ok table_ok S" and act: "e \<in> set (es_activelist S)"
  obtains S' w' where "retire ops S e w = Some (S', w')" "evset_ok table_ok S'"
    "set (es_activelist S') = set (es_activelist S) - {e}" "es_activelist S' = remove1 e (es_activelist S)"
    "\<forall>d. ev_cb (event_at S' d) = ev_cb (event_at S d)" "\<forall>d. ev_fd (event_at S' d) = ev_fd (event_at S d)"
    "\<forall>d. ev_results (event_at S' d) = ev_results (event_at S d)"
    "es_eventlist S' = (if has (ev_events (event_at S e)) EV_PERSIST then es_eventlist S else remove1 e (es_eventlist S))"
    "due S' = (due S)(e :=
       if \<not> has (ev_events (event_at S e)) EV_PERSIST then None
       else if 0 \<le> sint (ev_timer_msecs (event_at S e)) \<and>
         (\<not> has (ev_results (event_at S e)) (scast EV_TIMEOUT) \<or> due S e = None)
       then Some (delay (wheel_prec (es_timer S)) (wheel_size (es_timer S)) (nat (sint (ev_timer_msecs (event_at S e)))))
       else due S e)"
proof -
  have c: "core_ok S" and t: "table_ok (es_poll S) (es_events S)" using ok by (simp_all add: evset_ok_def)
  have st: "has (ev_status (event_at S e)) EVSTATUS_ACTIVE" and own: "ev_evsets (event_at S e)"
    and dist: "distinct (es_activelist S)"
    using c act by (auto simp: core_ok_def active_ok_def)
  show thesis
  proof (cases "has (ev_events (event_at S e)) EV_PERSIST")
    case False
    obtain rc S' w' where d: "evsets_del ops S e w = Some (rc, S', w')" "evset_ok table_ok S'"
        "due S' = (due S)(e := None)" "es_activelist S' = remove1 e (es_activelist S)"
        "set (es_activelist S') = set (es_activelist S) - {e}" "es_eventlist S' = remove1 e (es_eventlist S)"
        "\<forall>d. ev_fd (event_at S' d) = ev_fd (event_at S d)" "\<forall>d. ev_cb (event_at S' d) = ev_cb (event_at S d)"
        "\<forall>d. ev_results (event_at S' d) = ev_results (event_at S d)"
      by (rule del_contract [OF ok own, of w]) (rule that)
    have r: "retire ops S e w = Some (S', w')" using False d(1) by (simp add: retire_def)
    show thesis by (rule that [OF r d(2) d(5) d(4)]) (use False d in simp_all)
  next
    case True
    obtain S1 where S1: "event_queue_remove S e EVSTATUS_ACTIVE = Some (0, S1)" "core_ok S1" "io_same S S1"
        "due S1 = due S" "set (es_activelist S1) = set (es_activelist S) - {e}"
        "\<forall>d. has (ev_status (event_at S1 d)) EVSTATUS_TIMER \<longleftrightarrow> has (ev_status (event_at S d)) EVSTATUS_TIMER"
        "es_activelist S1 = remove1 e (es_activelist S)"
      by (rule active_off [OF c st]) (rule that)
    note len = S1(7)
    have t1: "table_ok (es_poll S1) (es_events S1)" by (rule table_same [OF t S1(3)])
    have same: "ev_timer_msecs (event_at S1 e) = ev_timer_msecs (event_at S e)"
      "ev_results (event_at S1 e) = ev_results (event_at S e)" using S1(3) by (simp_all add: io_same_def)
    show thesis
    proof (cases "0 \<le> sint (ev_timer_msecs (event_at S e))")
      case no: False
      then have r: "retire ops S e w = Some (S1, w)" using True S1(1) same by (simp add: retire_def)
      show thesis by (rule that [OF r]) (use S1 t1 len True no in \<open>simp_all add: evset_ok_def io_same_def\<close>)
    next
      case tv: True
      define to where "to \<longleftrightarrow> has (ev_results (event_at S e)) (scast EV_TIMEOUT)"
      obtain S2 where S2: "(if \<not> to then map_option snd (event_queue_remove S1 e EVSTATUS_TIMER) else Some S1) = Some S2"
        "core_ok S2" "io_same S1 S2" "due S2 = (due S)(e := if \<not> to then None else due S e)" "es_activelist S2 = es_activelist S1"
      proof (cases "to \<or> \<not> has (ev_status (event_at S1 e)) EVSTATUS_TIMER")
        case skip: True
        have rm: "\<not> to \<Longrightarrow> event_queue_remove S1 e EVSTATUS_TIMER = Some (- 1, S1)"
          using skip by (simp add: event_queue_remove_def Let_def)
        have "due S1 = (due S)(e := if \<not> to then None else due S e)"
          using skip S1(4,6) by (auto simp: due_def fun_eq_iff)
        then show thesis using that [of S1] rm S1(2) by simp
      next
        case False
        obtain S2 where "event_queue_remove S1 e EVSTATUS_TIMER = Some (0, S2)" "core_ok S2" "io_same S1 S2"
            "due S2 = (due S1)(e := None)" "es_activelist S2 = es_activelist S1"
          by (rule timer_off [OF S1(2), of e]) (use False in \<open>auto intro: that\<close>)
        then show thesis using that [of S2] False S1(4) by simp
      qed
      have io2: "io_same S S2" using S1(3) S2(3) by (rule io_same_trans)
      have own2: "ev_evsets (event_at S2 e)" and tv2: "0 \<le> sint (ev_timer_msecs (event_at S2 e))"
        and same2: "ev_timer_msecs (event_at S2 e) = ev_timer_msecs (event_at S e)"
          "wheel_prec (es_timer S2) = wheel_prec (es_timer S)" "wheel_size (es_timer S2) = wheel_size (es_timer S)"
        using io2 own tv by (simp_all add: io_same_def)
      have eq: "retire ops S e w = do {
          self \<leftarrow> map_option snd (event_queue_insert S2 e EVSTATUS_TIMER); Some (self, w) }"
        using True tv S1(1) S2(1) same
        by (simp add: retire_def to_def [symmetric] split: if_splits)
      have idle: "due S2 e = None \<longleftrightarrow> \<not> has (ev_status (event_at S2 e)) EVSTATUS_TIMER" by (simp add: due_def)
      show thesis
      proof (cases "has (ev_status (event_at S2 e)) EVSTATUS_TIMER")
        case on: True
        then have to: "to" "due S e \<noteq> None" using idle S2(4) by (auto split: if_splits)
        have "event_queue_insert S2 e EVSTATUS_TIMER = Some (1, S2)" using on by (simp add: event_queue_insert_def Let_def)
        then have r: "retire ops S e w = Some (S2, w)" unfolding eq by simp
        show thesis
          by (rule that [OF r])
            (use S1 S2 table_same [OF t1 S2(3)] io2 len True to in \<open>auto simp: evset_ok_def io_same_def to_def\<close>)
      next
        case off: False
        obtain S3 where S3: "event_queue_insert S2 e EVSTATUS_TIMER = Some (0, S3)" "core_ok S3" "io_same S2 S3"
            "due S3 = (due S2)(e \<mapsto> delay (wheel_prec (es_timer S2)) (wheel_size (es_timer S2))
                (nat (sint (ev_timer_msecs (event_at S2 e)))))" "es_activelist S3 = es_activelist S2"
          by (rule timer_on [OF S2(2) off tv2 own2]) (rule that)
        have to: "\<not> to \<or> due S e = None" using off idle S2(4) by (auto split: if_splits)
        have r: "retire ops S e w = Some (S3, w)" unfolding eq S3(1) by simp
        have io3: "io_same S S3" using io2 S3(3) by (rule io_same_trans)
        show thesis
        proof (rule that [OF r])
          show "evset_ok table_ok S3"
            using S3(2) table_same [OF table_same [OF t1 S2(3)] S3(3)] by (simp add: evset_ok_def)
          show "due S3 = (due S)(e :=
             if \<not> has (ev_events (event_at S e)) EV_PERSIST then None
             else if 0 \<le> sint (ev_timer_msecs (event_at S e)) \<and>
               (\<not> has (ev_results (event_at S e)) (scast EV_TIMEOUT) \<or> due S e = None)
             then Some (delay (wheel_prec (es_timer S)) (wheel_size (es_timer S)) (nat (sint (ev_timer_msecs (event_at S e)))))
             else due S e)"
            using S3(4) S2(4) True tv to unfolding same2 to_def [symmetric] by (simp add: fun_eq_iff)
        qed (use io3 S3(5) S2(5) S1(5) len True in \<open>simp_all add: io_same_def\<close>)
      qed
    qed
  qed
qed

lemma retire_unseen:
  assumes "unseen calls ops clock" "retire ops S e w = Some (S', w')"
  shows "calls w' = calls w"
proof -
  have d: "calls w'' = calls w" if "evsets_del ops S e w = Some (r, S'', w'')" for r S'' w''
    using that assms(1) by (auto simp: evsets_del_def unseen_def split: bind_splits if_splits)
  show ?thesis
  proof (cases "has (ev_events (event_at S e)) EV_PERSIST")
    case True
    then show ?thesis using assms(2) by (auto simp: retire_def split: bind_splits)
  next
    case False
    then show ?thesis using assms(2) d by (auto simp: retire_def)
  qed
qed

lemma activate_all_expire:
  "es_expire_time (activate_all acts S) = es_expire_time S \<and> es_poll (activate_all acts S) = es_poll S"
  by (induction acts arbitrary: S) (auto simp: activated_def Let_def)

lemma process_contract:
  assumes "evset_ok table_ok S" "callback_ok table_ok run" "records calls run" "unseen calls ops clock"
  shows "\<exists>L S' w'. process_active ops run rc S w = Some (rc + int (length L), S', w') \<and> calls w' = calls w @ L \<and>
    length L \<le> length (es_activelist S) \<and> (callback_still run \<longrightarrow> L = map (call_of S) (es_activelist S)) \<and>
    evset_ok table_ok S' \<and> es_activelist S' = []"
  using assms(1)
proof (induction "length (es_activelist S)" arbitrary: S w rc rule: less_induct)
  case less
  show ?case
  proof (cases "es_activelist S")
    case Nil
    then show ?thesis using less.prems by (subst process_active.simps) (auto intro!: exI [of _ "[]"])
  next
    case (Cons e rest)
    then have e: "e \<in> set (es_activelist S)" by simp
    obtain S1 w1 where S1: "retire ops S e w = Some (S1, w1)" "evset_ok table_ok S1"
      "es_activelist S1 = remove1 e (es_activelist S)" "\<forall>d. ev_cb (event_at S1 d) = ev_cb (event_at S d)"
      "\<forall>d. ev_fd (event_at S1 d) = ev_fd (event_at S d)" "\<forall>d. ev_results (event_at S1 d) = ev_results (event_at S d)"
      by (rule retire_contract [OF less.prems e, of w]) (rule that)
    have rest: "es_activelist S1 = rest" and w1: "calls w1 = calls w" and call1: "call_of S1 d = call_of S d" for d
      using S1(3-6) Cons retire_unseen [OF assms(4) S1(1)] by (simp_all add: call_of_def)
    have "ev_evsets (event_at S e)" "ev_cb (event_at S e) \<noteq> None"
      using less.prems e by (auto simp: evset_ok_def core_ok_def active_ok_def)
    then obtain cb where cb: "ev_cb (event_at S1 e) = Some cb" using S1(4) by auto
    obtain S2 w2 where S2: "run cb (ev_fd (event_at S1 e)) (ucast (ev_results (event_at S1 e))) S1 w1 = Some (S2, w2)"
        "evset_ok table_ok S2" "set (es_activelist S2) \<subseteq> set (es_activelist S1)"
      using assms(2) S1(2) unfolding callback_ok_def by blast
    have w2: "calls w2 = calls w @ [call_of S e]"
      using assms(3) S2(1) w1 cb call1 [of e] by (auto simp: records_def call_of_def)
    have "distinct (es_activelist S1)" "distinct (es_activelist S2)"
      using S1(2) S2(2) by (simp_all add: evset_ok_def core_ok_def active_ok_def)
    then have le: "length (es_activelist S2) \<le> length rest"
      using S2(3) rest by (metis List.finite_set card_mono distinct_card)
    then have lt: "length (es_activelist S2) < length (es_activelist S)" using Cons by simp
    obtain L S' w' where ih: "process_active ops run (rc + 1) S2 w2 = Some (rc + 1 + int (length L), S', w')" "calls w' = calls w2 @ L"
        "length L \<le> length (es_activelist S2)" "callback_still run \<longrightarrow> L = map (call_of S2) (es_activelist S2)"
        "evset_ok table_ok S'" "es_activelist S' = []"
      using less.hyps [OF lt S2(2)] by blast
    have "process_active ops run rc S w = Some (rc + int (length (call_of S e # L)), S', w')"
      by (subst process_active.simps) (simp add: Cons S1(1) cb S2(1) ih(1))
    moreover have "callback_still run \<longrightarrow> call_of S e # L = map (call_of S) (es_activelist S)"
    proof
      assume q: "callback_still run"
      then have "es_activelist S2 = rest" "\<forall>d \<in> set rest. call_of S2 d = call_of S1 d"
        using S2(1) rest unfolding callback_still_def by blast+
      then show "call_of S e # L = map (call_of S) (es_activelist S)" using q ih(4) Cons call1 by simp
    qed
    ultimately show ?thesis using ih w2 le Cons by (intro exI [of _ "call_of S e # L"]) auto
  qed
qed

lemma dispatch_contract:
  assumes ok: "evset_ok table_ok S" and run: "callback_ok table_ok run" and rec: "records calls run" and un: "unseen calls ops clock"
    and wait: "round_wait clock S w = (tv, S0, w0)"
  shows "\<exists>res S1 w1 now w2 S3 L S' w'. eo_dispatch ops S0 tv w0 = Some (res, S1, w1) \<and> clock w1 = (now, w2) \<and>
    (\<exists>acts. S1 = activate_all acts (S0\<lparr>es_poll := es_poll S1\<rparr>) \<and> (\<forall>(e, r) \<in> set acts. e \<in> set (es_eventlist S))) \<and>
    (if es_expire_time S \<le> now
     then (\<exists>k S4. evtimer_dispatch (S1\<lparr>es_cache_current := now\<rparr>) = Some (k, S4) \<and> S3 = S4\<lparr>es_expire_time := now + sint (es_timer_precision S4)\<rparr>)
     else S3 = S1\<lparr>es_cache_current := now\<rparr>) \<and>
    set (es_activelist S3) = set (es_activelist S1) \<union> (if es_expire_time S \<le> now then {e. due S e = Some 1} else {}) \<and>
    distinct (es_activelist S3) \<and>
    evsets_dispatch ops clock run S w = Some (int (length L), S', w') \<and> calls w' = calls w @ L \<and>
    length L \<le> length (es_activelist S3) \<and> (callback_still run \<longrightarrow> L = map (call_of S3) (es_activelist S3)) \<and>
    evset_ok table_ok S' \<and> es_activelist S' = []"
proof -
  have "\<exists>t. S0 = S\<lparr>es_cache_current := t\<rparr>"
  proof (cases "es_activelist S = []")
    case True
    then show ?thesis using wait by (auto simp: round_wait_def Let_def split: prod.splits)
  next
    case False
    then show ?thesis using wait by (intro exI [of _ "es_cache_current S"]) (simp add: round_wait_def)
  qed
  then obtain t0 where t0: "S0 = S\<lparr>es_cache_current := t0\<rparr>" by blast
  have w0: "calls w0 = calls w"
  proof -
    have "w0 = w \<or> w0 = snd (clock w)" using wait by (auto simp: round_wait_def Let_def split: prod.splits if_splits)
    then show ?thesis using un unfolding unseen_def by metis
  qed
  have c: "core_ok S0" and tb: "table_ok (es_poll S0) (es_events S0)" and a0: "active_ok S0"
  proof -
    show c: "core_ok S0" and "table_ok (es_poll S0) (es_events S0)"
      using ok by (simp_all add: evset_ok_def t0 clock_fields)
    show "active_ok S0" using c by (simp add: core_ok_def)
  qed
  have own: "inserted (event_at S0 e) \<Longrightarrow> ev_evsets (event_at S0 e)" for e using c by (simp add: core_ok_def)
  obtain acts res p1 w1 where d: "eo_dispatch ops S0 tv w0 = Some (res, activate_all acts (S0\<lparr>es_poll := p1\<rparr>), w1)"
      "\<forall>(e, r) \<in> set acts. inserted (event_at S0 e)" "table_ok p1 (es_events S0)"
    using dispatch_ok [OF tb a0 own, of tv w0] by blast
  define S1 where "S1 = activate_all acts (S0\<lparr>es_poll := p1\<rparr>)"
  have ins: "(e, r) \<in> set acts \<Longrightarrow> e \<in> set (es_eventlist S)" for e r
    using d(2) c by (auto simp: core_ok_def t0)
  have a1: "active_ok S1" "set (es_activelist S1) = set (es_activelist S) \<union> fst ` set acts"
  proof -
    have "active_ok (S0\<lparr>es_poll := p1\<rparr>)" using a0 by (simp add: active_ok_def)
    moreover have "(e, r) \<in> set acts \<Longrightarrow> ev_evsets (event_at (S0\<lparr>es_poll := p1\<rparr>) e)" for e r
      using d(2) own by auto
    ultimately have "active_ok (activate_all acts (S0\<lparr>es_poll := p1\<rparr>)) \<and>
        set (es_activelist (activate_all acts (S0\<lparr>es_poll := p1\<rparr>))) =
          set (es_activelist (S0\<lparr>es_poll := p1\<rparr>)) \<union> fst ` set acts"
      by (rule activate_all_ok)
    then show "active_ok S1" "set (es_activelist S1) = set (es_activelist S) \<union> fst ` set acts"
      by (simp_all add: S1_def t0)
  qed
  have "core_ok (S0\<lparr>es_poll := p1\<rparr>)" "due (S0\<lparr>es_poll := p1\<rparr>) = due S"
    using c by (simp_all add: clock_fields t0)
  then have c1: "core_ok S1" and due1: "due S1 = due S"
    using a1(1) by (simp_all add: core_ok_def S1_def)
  have tb1: "table_ok (es_poll S1) (es_events S1)"
    by (simp add: S1_def) (rule frame_ok [OF d(3)], simp)
  obtain now w2 where g: "clock w1 = (now, w2)" by (rule prod.exhaust)
  define S2 where "S2 = S1\<lparr>es_cache_current := now\<rparr>"
  have gc: "get_current clock S1 True w1 = (now, S2, w2)" by (simp add: get_current_def g S2_def)
  have w2: "calls w2 = calls w"
    using un d(1) g w0 unfolding unseen_def by (metis snd_conv)
  have c2: "core_ok S2" and due2: "due S2 = due S" and a2: "set (es_activelist S2) = set (es_activelist S1)"
    and tb2: "table_ok (es_poll S2) (es_events S2)" and e2: "es_expire_time S2 = es_expire_time S"
    using c1 due1 tb1 activate_all_expire [of acts "S0\<lparr>es_poll := p1\<rparr>"] by (simp_all add: S2_def clock_fields) (simp add: S1_def t0)
  obtain S3 where S3: "(if es_expire_time S2 \<le> now
        then do { (_, sets) \<leftarrow> evtimer_dispatch S2; Some (sets\<lparr>es_expire_time := now + sint (es_timer_precision sets)\<rparr>) }
        else Some S2) = Some S3"
      "evset_ok table_ok S3"
      "set (es_activelist S3) = set (es_activelist S1) \<union> (if es_expire_time S \<le> now then {e. due S e = Some 1} else {})"
      "if es_expire_time S \<le> now
       then \<exists>k S4. evtimer_dispatch S2 = Some (k, S4) \<and> S3 = S4\<lparr>es_expire_time := now + sint (es_timer_precision S4)\<rparr>
       else S3 = S2"
  proof (cases "es_expire_time S2 \<le> now")
    case False
    then show thesis using that [of S2] c2 tb2 a2 e2 by (simp add: evset_ok_def)
  next
    case True
    obtain S4 where S4: "evtimer_dispatch S2 = Some (int (card {e. due S2 e = Some 1}), S4)" "core_ok S4"
        "set (es_activelist S4) = set (es_activelist S2) \<union> {e. due S2 e = Some 1}" "es_poll S4 = es_poll S2"
        "\<forall>e. ev_keep (event_at S2 e) (event_at S4 e)"
      by (rule wheel_dispatch_core [OF c2]) (rule that)
    have "table_ok (es_poll S4) (es_events S4)"
      unfolding S4(4)
    proof (rule frame_ok [OF tb2])
      fix e
      have "ev_keep (event_at S2 e) (event_at S4 e)" using S4(5) by blast
      then show "ev_fd (event_at S4 e) = ev_fd (event_at S2 e) \<and> ev_events (event_at S4 e) = ev_events (event_at S2 e) \<and>
          (inserted (event_at S4 e) \<longleftrightarrow> inserted (event_at S2 e))"
        using ev_keep_status(1) by (simp add: ev_keep_def)
    qed
    define S5 where "S5 = S4\<lparr>es_expire_time := now + sint (es_timer_precision S4)\<rparr>"
    have "evset_ok table_ok S5" using S4(2) \<open>table_ok (es_poll S4) (es_events S4)\<close> by (simp add: evset_ok_def S5_def clock_fields)
    then show thesis using that [of S5] True S4(1,3) due2 a2 e2 by (simp add: S5_def)
  qed
  obtain L S' w' where p: "process_active ops run 0 S3 w2 = Some (0 + int (length L), S', w')" "calls w' = calls w2 @ L"
      "length L \<le> length (es_activelist S3)" "callback_still run \<longrightarrow> L = map (call_of S3) (es_activelist S3)"
      "evset_ok table_ok S'" "es_activelist S' = []"
    using process_contract [OF S3(2) run rec un, of 0 w2] by blast
  have dist: "distinct (es_activelist S3)" using S3(2) by (simp add: evset_ok_def core_ok_def active_ok_def)
  have S0: "(if es_activelist S = []
        then let (now, sets, w) = get_current clock S True w;
                 s = word_of_int (es_expire_time sets - now) :: i32;
                 s = (if sint s < 0 then 0
                      else if sint s > sint (es_timer_precision sets) then es_timer_precision sets else s)
             in (s, sets, w)
        else (0, S, w)) = (tv, S0, w0)"
    using wait by (auto simp: round_wait_def get_current_def Let_def split: prod.splits if_splits)
  have run_eq: "evsets_dispatch ops clock run S w = Some (int (length L), S', w')"
  proof -
    have "evsets_dispatch ops clock run S w = do {
        (res, sets, w) \<leftarrow> eo_dispatch ops S0 tv w0;
        let (now, sets, w) = get_current clock sets True w;
        sets \<leftarrow> (if es_expire_time sets \<le> now
          then do { (_, sets) \<leftarrow> evtimer_dispatch sets; Some (sets\<lparr>es_expire_time := now + sint (es_timer_precision sets)\<rparr>) }
          else Some sets);
        process_active ops run 0 sets w }"
      unfolding evsets_dispatch_def S0 evsets_process_active_def by simp
    also have "\<dots> = Some (int (length L), S', w')"
      by (simp only: d(1) Option.bind.simps case_prod_conv S1_def [symmetric] gc Let_def S3(1) p(1)) simp
    finally show ?thesis .
  qed
  have acts: "\<exists>acts. S1 = activate_all acts (S0\<lparr>es_poll := es_poll S1\<rparr>) \<and> (\<forall>(e, r) \<in> set acts. e \<in> set (es_eventlist S))"
    using ins by (intro exI [of _ acts]) (auto simp: S1_def activate_all_expire)
  show ?thesis
    by (rule exI [of _ res], rule exI [of _ S1], rule exI [of _ w1], rule exI [of _ now], rule exI [of _ w2], rule exI [of _ S3],
        rule exI [of _ L], rule exI [of _ S'], rule exI [of _ w'])
      (use d(1) g acts S3(3,4) dist run_eq p(2-6) w2 in \<open>simp add: S1_def [symmetric] S2_def [symmetric]\<close>)
qed

end

section \<open>The event set over epoll\<close>

lemma wheel_create:
  assumes "evtimer_create True True precision TIMER_BUCKET_COUNT = Some t"
    and "0 < sint precision" "sint precision < 2 ^ 18"
  shows "wheel_geom t" "et_buckets t = replicate 8192 []" "et_event_count t = 0"
proof -
  have t: "t = \<lparr>et_event_count = 0, et_bucket_count = TIMER_BUCKET_COUNT, et_max_precision = precision,
      et_dispatch_refer = 0, et_buckets = replicate 8192 []\<rparr>"
    using assms(1) by (simp add: evtimer_create_def TIMER_BUCKET_COUNT_def)
  have "\<exists>k\<le>30. (8192::nat) = 2 ^ k" by (rule exI [of _ 13]) simp
  moreover have "nat (sint precision) < 2 ^ 18" using assms(2,3) by (simp add: nat_less_iff)
  ultimately show "wheel_geom t"
    using assms(2) by (simp add: t wheel_geom_def wheel_size_def wheel_prec_def TIMER_BUCKET_COUNT_def)
  show "et_buckets t = replicate 8192 []" "et_event_count t = 0" by (simp_all add: t)
qed

text \<open>
  An event set that could be created over epoll is well formed when no event is in a set yet:
  empty wheel and lists, and a pair table in which no descriptor has an event (precision below 2^18 ms,
  so that one revolution of the wheel is below 2^31 ms).\<close>

theorem evsets_create_correct:
  assumes "evsets_create (epollops sys) clock mem1 mem2 mem3 evs precision w = (Created S, w')"
    and "0 < sint precision" "sint precision < 2 ^ 18"
    and "\<And>e. ev_status (evs e) = EVSTATUS_INIT \<and> \<not> ev_evsets (evs e)"
  shows "evset_ok epoll_table_ok S \<and> es_events S = evs \<and> es_eventlist S = [] \<and> es_activelist S = [] \<and>
    due S = (\<lambda>_. None) \<and> wheel_prec (es_timer S) = nat (sint precision) \<and> wheel_size (es_timer S) = 8192"
proof -
  obtain p w1 t where p: "epoll_init sys w = (Some p, w1)" and t: "evtimer_create True True precision TIMER_BUCKET_COUNT = Some t"
    and S: "es_timer S = t" "es_poll S = p" "es_eventlist S = []" "es_activelist S = []" "es_events S = evs"
    using assms(1)
    by (auto simp: evsets_create_def epollops_def evtimer_create_def Let_def split: prod.splits option.splits if_splits)
  note t' = wheel_create [OF t assms(2,3)]
  have bits: "\<not> has (ev_status (evs e)) EVSTATUS_TIMER" "\<not> has (ev_status (evs e)) EVSTATUS_ACTIVE"
    "\<not> has (ev_status (evs e)) EVSTATUS_INSERTED" "\<not> ev_evsets (evs e)" for e
    using assms(4) [of e] by (simp_all add: has_def EVSTATUS_INIT_def EVSTATUS_TIMER_def EVSTATUS_ACTIVE_def EVSTATUS_INSERTED_def)
  have "wheel_ok S"
    using t' bits by (simp add: wheel_ok_def S Let_def sum_list_replicate)
  then have "core_ok S" using bits by (simp add: core_ok_def S active_ok_def)
  moreover have "epoll_table_ok (es_poll S) (es_events S)"
    using epoll_table_init [OF p, of evs] bits by (simp add: S)
  moreover have "wheel_prec t = nat (sint precision)" "wheel_size t = 8192"
    using t by (auto simp: evtimer_create_def wheel_prec_def wheel_size_def TIMER_BUCKET_COUNT_def)
  ultimately show ?thesis using bits by (simp add: evset_ok_def S due_def fun_eq_iff)
qed

text \<open>
  C26: \<open>evsets_add\<close> on a well-formed set over epoll never faults and keeps the set well formed.  The
  event goes to the list of watched events exactly when it has a descriptor above 0 and asks for reading or writing, is neither
  active nor watched, and epoll accepts it; bit 0 of the result says so.  Bit 1 says that a
  time-out was given; with a time-out the event's timer is restarted with the wheel's delay
  for it, without one a timer that is already running is left running; no other event is affected.  When epoll refuses,
  the result is 0 or 2, not the negative value that \<^verbatim>\<open>include/event.h\<close> announces.\<close>

theorem evsets_add_correct:
  assumes "evset_ok epoll_table_ok S" "sint (ev_fd (event_at S e)) < 2 ^ 30"
    and "ev_cb (event_at S e) \<noteq> None" "\<not> has (ev_status (event_at S e)) (NOT EVSTATUS_ALL)"
    and io: "io \<longleftrightarrow> 0 < sint (ev_fd (event_at S e)) \<and> has (ev_events (event_at S e)) (EV_READ OR EV_WRITE) \<and>
      \<not> has (ev_status (event_at S e)) (EVSTATUS_ACTIVE OR EVSTATUS_INSERTED) \<and>
      (\<exists>p w'. epoll_add sys (es_poll S) e ((event_at S e)\<lparr>ev_evsets := True\<rparr>) w = Some (0, p, w'))"
  shows "\<exists>rc S' w'. evsets_add (epollops sys) S e tv w = Some (rc, S', w') \<and> evset_ok epoll_table_ok S' \<and>
    rc = (if io then 1 else 0) + (if 0 \<le> sint tv then 2 else 0) \<and>
    es_eventlist S' = (if io then es_eventlist S @ [e] else es_eventlist S) \<and>
    due S' = (if 0 \<le> sint tv
       then (due S)(e \<mapsto> delay (wheel_prec (es_timer S)) (wheel_size (es_timer S)) (nat (sint tv))) else due S) \<and>
    set (es_activelist S') \<subseteq> set (es_activelist S) \<and> set (es_activelist S) \<subseteq> insert e (set (es_activelist S'))"
proof -
  have io': "io \<longleftrightarrow> wants_io (event_at S e) \<and> (\<exists>p w'. eo_add (epollops sys) (es_poll S) e ((event_at S e)\<lparr>ev_evsets := True\<rparr>) w = Some (0, p, w'))"
    using io by (simp add: wants_io_def epollops_def)
  show ?thesis unfolding io' by (rule ep.add_contract [OF assms(1-4), of sys tv w]) blast
qed

text \<open>
  C27: \<open>evsets_del\<close> on a well-formed set over epoll never faults, takes the event off the timer wheel,
  the active list and the list of watched events, leaves every other event where it was, and keeps
  the set and the pair table well formed, so no descriptor keeps a reference to the event.\<close>

theorem evsets_del_correct:
  assumes "evset_ok epoll_table_ok S" "ev_evsets (event_at S e)"
  shows "\<exists>rc S' w'. evsets_del (epollops sys) S e w = Some (rc, S', w') \<and> evset_ok epoll_table_ok S' \<and>
    due S' = (due S)(e := None) \<and> es_activelist S' = remove1 e (es_activelist S) \<and>
    es_eventlist S' = remove1 e (es_eventlist S) \<and>
    (\<forall>fd. evread (pair_at (es_poll S') fd) \<noteq> Some e \<and> evwrite (pair_at (es_poll S') fd) \<noteq> Some e)"
proof -
  obtain rc S' w' where d: "evsets_del (epollops sys) S e w = Some (rc, S', w')" "evset_ok epoll_table_ok S'"
    "due S' = (due S)(e := None)" "es_activelist S' = remove1 e (es_activelist S)"
    "es_eventlist S' = remove1 e (es_eventlist S)"
    by (rule ep.del_contract [OF assms, of sys w]) (rule that)
  have "distinct (es_eventlist S)" using assms(1) by (simp add: evset_ok_def core_ok_def)
  then have "\<not> has (ev_status (event_at S' e)) EVSTATUS_INSERTED"
    using d(2,5) by (auto simp: evset_ok_def core_ok_def)
  then have "\<forall>fd. evread (pair_at (es_poll S') fd) \<noteq> Some e \<and> evwrite (pair_at (es_poll S') fd) \<noteq> Some e"
    using d(2) by (auto simp: evset_ok_def epoll_table_ok_def)
  then show ?thesis using d by blast
qed

text \<open>
  Before the callback of an active event is called, a one-shot event is off every list; a
  persistent one stays watched, and if it has a time-out its timer runs anew, also when it was
  activated by its descriptor.\<close>

theorem active_event_retired:
  assumes "evset_ok epoll_table_ok S" "e \<in> set (es_activelist S)"
  shows "\<exists>S' w'. retire (epollops sys) S e w = Some (S', w') \<and> evset_ok epoll_table_ok S' \<and>
    set (es_activelist S') = set (es_activelist S) - {e} \<and>
    es_eventlist S' = (if has (ev_events (event_at S e)) EV_PERSIST then es_eventlist S else remove1 e (es_eventlist S)) \<and>
    due S' = (due S)(e :=
       if \<not> has (ev_events (event_at S e)) EV_PERSIST then None
       else if 0 \<le> sint (ev_timer_msecs (event_at S e)) \<and>
         (\<not> has (ev_results (event_at S e)) (scast EV_TIMEOUT) \<or> due S e = None)
       then Some (delay (wheel_prec (es_timer S)) (wheel_size (es_timer S)) (nat (sint (ev_timer_msecs (event_at S e)))))
       else due S e)"
  by (rule ep.retire_contract [OF assms, of sys w]) blast

text \<open>
  C17: One round of \<open>evsets_dispatch\<close> over epoll, with callbacks that return, keep the set well
  formed and activate nothing: the round waits, takes what the back end activates among the watched events, then, when
  the deadline of the tick is over by the clock, the events whose timer is due, and only then; and it ends with no event
  active and the set well formed.  It returns how many callbacks it has called, never more than events were active; and callbacks
  that leave the other active events alone are called for each active event, in the order of the list, exactly once, with its
  descriptor and results.  (\<open>calls\<close> reads the calls off the world: the callbacks append to it, the kernel and
  the clock do not.)\<close>

theorem evsets_dispatch_correct:
  fixes S :: "('e, 'cb, 'e epoller) eventset"
  assumes "evset_ok epoll_table_ok S" "callback_ok epoll_table_ok run" "records calls run"
    "unseen calls (epollops sys :: ('e, 'cb, 'e epoller, 'w) eventop) clock"
    "round_wait clock S w = (tv, S0, w0)"
  shows "\<exists>res S1 w1 now w2 S3 L S' w'. eo_dispatch (epollops sys) S0 tv w0 = Some (res, S1, w1) \<and> clock w1 = (now, w2) \<and>
    (\<exists>acts. S1 = activate_all acts (S0\<lparr>es_poll := es_poll S1\<rparr>) \<and> (\<forall>(e, r) \<in> set acts. e \<in> set (es_eventlist S))) \<and>
    (if es_expire_time S \<le> now
     then (\<exists>k S4. evtimer_dispatch (S1\<lparr>es_cache_current := now\<rparr>) = Some (k, S4) \<and> S3 = S4\<lparr>es_expire_time := now + sint (es_timer_precision S4)\<rparr>)
     else S3 = S1\<lparr>es_cache_current := now\<rparr>) \<and>
    set (es_activelist S3) = set (es_activelist S1) \<union> (if es_expire_time S \<le> now then {e. due S e = Some 1} else {}) \<and>
    distinct (es_activelist S3) \<and>
    evsets_dispatch (epollops sys) clock run S w = Some (int (length L), S', w') \<and> calls w' = calls w @ L \<and>
    length L \<le> length (es_activelist S3) \<and> (callback_still run \<longrightarrow> L = map (call_of S3) (es_activelist S3)) \<and>
    evset_ok epoll_table_ok S' \<and> es_activelist S' = []"
  by (rule ep.dispatch_contract [OF assms])

section \<open>Instances of the event set\<close>

definition demo_evs :: "bool \<Rightarrow> unit event" where
  "demo_evs = (\<lambda>_. event_create\<lparr>ev_fd := 3, ev_events := EV_READ, ev_cb := Some ()\<rparr>)"

definition demo_set :: "(bool, unit, bool epoller) eventset" where
  "demo_set = \<lparr>es_timer_precision = 8, es_expire_time = 8, es_cache_current = 0,
     es_timer = \<lparr>et_event_count = 0, et_bucket_count = TIMER_BUCKET_COUNT, et_max_precision = 8, et_dispatch_refer = 0,
       et_buckets = replicate (unat TIMER_BUCKET_COUNT) []\<rparr>,
     es_poll = \<lparr>ep_npairs = INIT_EVENTS, ep_evpairs = replicate (unat INIT_EVENTS) empty_pair,
       ep_nevents = INIT_EVENTS, ep_events = replicate (unat INIT_EVENTS) (0, 0), ep_epollfd = 9\<rparr>,
     es_eventlist = [], es_activelist = [], es_events = demo_evs\<rparr>"

lemma demo_create:
  "evsets_create (epollops demo_sys) (sys_milliseconds demo_sys) True True True demo_evs 8 (\<lambda>_ _. None) =
    (Created demo_set, (\<lambda>_ _. None))"
  by (simp add: evsets_create_def epollops_def epoll_init_def demo_sys_def evtimer_create_def demo_set_def Let_def)

lemma demo_evs_fresh: "ev_status (demo_evs e) = EVSTATUS_INIT \<and> \<not> ev_evsets (demo_evs e)"
  by (simp add: demo_evs_def event_create_def)

theorem evsets_create_correct_witness: "evset_ok epoll_table_ok demo_set \<and> wheel_size (es_timer demo_set) = 8192"
  using evsets_create_correct [OF demo_create _ _ demo_evs_fresh] by simp

lemma demo_set_ok: "evset_ok epoll_table_ok demo_set"
proof -
  have t: "evtimer_create True True 8 TIMER_BUCKET_COUNT = Some (es_timer demo_set)"
    by (simp add: evtimer_create_def demo_set_def)
  have s: "\<not> has EVSTATUS_INIT EVSTATUS_TIMER" "\<not> has EVSTATUS_INIT EVSTATUS_ACTIVE" "\<not> has EVSTATUS_INIT EVSTATUS_INSERTED"
    by (simp_all add: has_def EVSTATUS_INIT_def EVSTATUS_TIMER_def EVSTATUS_ACTIVE_def EVSTATUS_INSERTED_def)
  have f: "es_events demo_set = demo_evs" "es_eventlist demo_set = []" "es_activelist demo_set = []"
    by (simp_all add: demo_set_def)
  have "wheel_ok demo_set"
    using wheel_create [OF t] s demo_evs_fresh by (simp add: wheel_ok_def f Let_def sum_list_replicate)
  then have "core_ok demo_set" using s demo_evs_fresh by (simp add: core_ok_def f active_ok_def)
  moreover have "epoll_init demo_sys (\<lambda>_ _. None) = (Some (es_poll demo_set), (\<lambda>_ _. None))"
    by (simp add: epoll_init_def demo_sys_def demo_set_def Let_def)
  then have "epoll_table_ok (es_poll demo_set) (es_events demo_set)"
    by (rule epoll_table_init) (simp add: f s demo_evs_fresh)
  ultimately show ?thesis by (simp add: evset_ok_def)
qed

lemma demo_set_event: "sint (ev_fd (event_at demo_set e)) < 2 ^ 30" "ev_cb (event_at demo_set e) \<noteq> None"
  "\<not> has (ev_status (event_at demo_set e)) (NOT EVSTATUS_ALL)"
  by (simp_all add: demo_set_def demo_evs_def event_create_def has_def EVSTATUS_INIT_def EVSTATUS_ALL_def)

theorem evsets_add_correct_witness:
  "\<exists>S' w'. evsets_add (epollops demo_sys) demo_set True 100 (\<lambda>_ _. None) = Some (3, S', w') \<and>
    evset_ok epoll_table_ok S' \<and> es_eventlist S' = [True] \<and> due S' True = Some 12"
proof -
  have d: "wheel_prec (es_timer demo_set) = 8" "wheel_size (es_timer demo_set) = 8192" "es_eventlist demo_set = []"
    by (simp_all add: demo_set_def wheel_prec_def wheel_size_def TIMER_BUCKET_COUNT_def)
  have dl: "delay 8 8192 (nat (sint (100 :: i32))) = 12" by (simp add: delay_def)
  define ev where "ev = (event_at demo_set True)\<lparr>ev_evsets := True\<rparr>"
  have ev: "ev_fd ev = 3" "ev_events ev = EV_READ" by (simp_all add: ev_def demo_set_def demo_evs_def)
  have "\<exists>p w'. epoll_add demo_sys (es_poll demo_set) True ev (\<lambda>_ _. None) = Some (0, p, w')"
    by (simp add: epoll_add_def ev Let_def demo_set_def demo_sys_def event_get_fd_def INIT_EVENTS_def arr_get_def empty_pair_def arr_set_def)
  then have io: "True \<longleftrightarrow> 0 < sint (ev_fd (event_at demo_set True)) \<and> has (ev_events (event_at demo_set True)) (EV_READ OR EV_WRITE) \<and>
      \<not> has (ev_status (event_at demo_set True)) (EVSTATUS_ACTIVE OR EVSTATUS_INSERTED) \<and>
      (\<exists>p w'. epoll_add demo_sys (es_poll demo_set) True ((event_at demo_set True)\<lparr>ev_evsets := True\<rparr>) (\<lambda>_ _. None) = Some (0, p, w'))"
    unfolding ev_def by (simp add: demo_set_def demo_evs_def event_create_def has_def EV_READ_def EV_WRITE_def EVSTATUS_INIT_def
        EVSTATUS_ACTIVE_def EVSTATUS_INSERTED_def)
  from evsets_add_correct [OF demo_set_ok demo_set_event io, of 100] show ?thesis using d dl by auto
qed

text \<open>The set after event \<open>True\<close> joined and was activated.\<close>

definition demo_active :: "(bool, unit, bool epoller) eventset" where
  "demo_active = activated (set_event True ((event_at demo_set True)\<lparr>ev_evsets := True\<rparr>) demo_set) True EV_READ"

lemma demo_active_ok: "evset_ok epoll_table_ok demo_active" "True \<in> set (es_activelist demo_active)"
  "ev_evsets (event_at demo_active True)"
proof -
  define S where "S = set_event True ((event_at demo_set True)\<lparr>ev_evsets := True\<rparr>) demo_set"
  have c: "core_ok S" unfolding S_def
    by (rule own_on) (use demo_set_ok demo_set_event in \<open>simp_all add: evset_ok_def\<close>)
  have own: "ev_evsets (event_at S True)" by (simp add: S_def)
  have a: "demo_active = activated S True EV_READ" by (simp add: demo_active_def S_def)
  have "active_ok S" using c by (simp add: core_ok_def)
  note act = activated_ok [OF this own, of EV_READ]
  have "core_ok demo_active" using c act(1) by (simp add: core_ok_def a)
  moreover have "epoll_table_ok (es_poll demo_active) (es_events demo_active)"
    using demo_set_ok by (simp add: a S_def evset_ok_def epoll_table_ok_def watchable_def)
  ultimately show "evset_ok epoll_table_ok demo_active" by (simp add: evset_ok_def)
  show "True \<in> set (es_activelist demo_active)" using act(2) by (simp add: a)
  show "ev_evsets (event_at demo_active True)" using own by (simp add: a)
qed

theorem evsets_del_correct_witness:
  "\<exists>rc S' w'. evsets_del (epollops demo_sys) demo_active True (\<lambda>_ _. None) = Some (rc, S', w') \<and> due S' True = None"
  using evsets_del_correct [OF demo_active_ok(1,3), of demo_sys "\<lambda>_ _. None"] by (elim exE conjE) simp

theorem active_event_retired_witness:
  "\<exists>S' w'. retire (epollops demo_sys) demo_active True (\<lambda>_ _. None) = Some (S', w') \<and>
    set (es_activelist S') = set (es_activelist demo_active) - {True}"
  using active_event_retired [OF demo_active_ok(1,2), of demo_sys "\<lambda>_ _. None"] by blast

text \<open>A system whose world is the list of the calls, in which nothing becomes ready.\<close>

definition call_sys :: "(unit \<times> i32 \<times> u16) list sys" where
  "call_sys = \<lparr>sys_milliseconds = (\<lambda>w. (0, w)), sys_alloc = (\<lambda>w. (True, w)),
     sys_epoll_create1 = (\<lambda>w. (9, w)), sys_epoll_create = (\<lambda>w. (9, w)),
     sys_set_cloexec = (\<lambda>_ w. w), sys_close = (\<lambda>_ w. w),
     sys_epoll_ctl = (\<lambda>epfd op fd events w. (None, w)), sys_epoll_wait = (\<lambda>_ _ _ w. (Inr [], w))\<rparr>"

definition call_run :: "(bool, unit, bool epoller, (unit \<times> i32 \<times> u16) list) callback" where
  "call_run cb fd res S w = Some (S, w @ [(cb, fd, res)])"

lemma call_run_ok: "callback_ok epoll_table_ok call_run" "records (\<lambda>w. w) call_run" "callback_still call_run"
  by (simp_all add: callback_ok_def records_def callback_still_def call_run_def)

lemma call_sys_unseen: "unseen (\<lambda>w. w) (epollops call_sys :: (bool, unit, bool epoller, _) eventop) (sys_milliseconds call_sys)"
proof -
  have d: "w' = w" if "epoll_del call_sys p ev w = Some (r, p', w')" for p :: "bool epoller" and ev :: "unit event" and w r p' w'
    using that by (auto simp: epoll_del_def call_sys_def Let_def split: bind_splits if_splits)
  have x: "snd (snd (epoll_expand call_sys p w)) = w" for p :: "bool epoller" and w
    by (simp add: epoll_expand_def call_sys_def Let_def)
  have e: "w' = w" if "epoll_dispatch call_sys S tv w = Some (r, S', w')" for S :: "(bool, unit, bool epoller) eventset" and tv w r S' w'
  proof -
    have "snd (sys_epoll_wait call_sys a b c w) = w" for a b c by (simp add: call_sys_def)
    then show ?thesis using that x [of _ w]
      by (auto simp: epoll_dispatch_def Let_def split: prod.splits sum.splits bind_splits if_splits) (metis snd_conv)+
  qed
  show ?thesis using d e by (auto simp: unseen_def epollops_def call_sys_def)
qed

theorem evsets_dispatch_correct_witness:
  "\<exists>S'. evsets_dispatch (epollops call_sys) (sys_milliseconds call_sys) call_run demo_active [] = Some (1, S', [((), 3, EV_READ)]) \<and>
    es_activelist S' = []"
proof -
  have a: "es_activelist demo_active = [True]" "es_eventlist demo_active = []" "es_expire_time demo_active = 8"
    "call_of demo_active True = ((), 3, EV_READ)"
    by (simp_all add: demo_active_def activated_def demo_set_def demo_evs_def call_of_def event_create_def Let_def has_def
        EVSTATUS_INIT_def EVSTATUS_ACTIVE_def EV_READ_def)
  have wait: "round_wait (sys_milliseconds call_sys) demo_active [] = (0, demo_active, [])" using a(1) by (simp add: round_wait_def)
  obtain res S1 w1 now w2 S3 L S' w' where d: "sys_milliseconds call_sys w1 = (now, w2)"
    "\<exists>acts. S1 = activate_all acts (demo_active\<lparr>es_poll := es_poll S1\<rparr>) \<and> (\<forall>(e, r) \<in> set acts. e \<in> set (es_eventlist demo_active))"
    "if es_expire_time demo_active \<le> now
     then (\<exists>k S4. evtimer_dispatch (S1\<lparr>es_cache_current := now\<rparr>) = Some (k, S4) \<and> S3 = S4\<lparr>es_expire_time := now + sint (es_timer_precision S4)\<rparr>)
     else S3 = S1\<lparr>es_cache_current := now\<rparr>"
    "evsets_dispatch (epollops call_sys) (sys_milliseconds call_sys) call_run demo_active [] = Some (int (length L), S', w')"
    "w' = [] @ L" "callback_still call_run \<longrightarrow> L = map (call_of S3) (es_activelist S3)" "es_activelist S' = []"
    using evsets_dispatch_correct [OF demo_active_ok(1) call_run_ok(1,2) call_sys_unseen wait] by blast
  have "now = 0" using d(1) by (simp add: call_sys_def)
  then have "S3 = S1\<lparr>es_cache_current := 0\<rparr>" using d(3) a(3) by simp
  moreover obtain p where "S1 = demo_active\<lparr>es_poll := p\<rparr>"
  proof -
    obtain acts where "S1 = activate_all acts (demo_active\<lparr>es_poll := es_poll S1\<rparr>)" "\<forall>(e, r) \<in> set acts. e \<in> set (es_eventlist demo_active)"
      using d(2) by blast
    then show thesis using a(2) that by (cases acts) auto
  qed
  ultimately have "es_activelist S3 = [True]" "call_of S3 True = call_of demo_active True"
    using a(1) by (simp_all add: call_of_def)
  then have "L = [((), 3, EV_READ)]" using d(6) call_run_ok(3) a(4) by simp
  then show ?thesis using d(4,5,7) by simp
qed

end
