(* ===== verification/Lock.thy ===== *)
theory Lock
  imports Prelude
begin

text \<open>
  The spin lock of \<^verbatim>\<open>src/lock.h\<close> (the variant selected by \<^verbatim>\<open>USE_ATOMIC\<close>): one atomic integer, a
  test-and-set outer loop, a read-only inner loop with exponential back-off.  Any number of threads
  take steps in any order; every step is one atomic access.  With the acquire and release orders the
  code asks for, what happens between taking and releasing the lock is one step for the others,
  which is how the message queue is modelled.
\<close>

section \<open>Back-off\<close>

text \<open>A round of waiting pauses the processor a number of times or yields it.\<close>

datatype rest = Pause nat | Yield

definition evlock_backoff :: "nat \<Rightarrow> nat \<Rightarrow> rest \<times> nat" where
  "evlock_backoff step max_step =
     (if step < max_step then (Pause (push_bit step 1), step + 1) else (Yield, 0))"

section \<open>The lock\<close>

text \<open>
  Where a thread is: outside, about to exchange in the outer loop, about to load in the inner loop
  (both with the current back-off step), or holding the lock.
\<close>

datatype lock_pc = Outside | Exchange nat | Load nat | Holding

record 't locking =
  lk_lock :: int
  lk_pc :: "'t \<Rightarrow> lock_pc"

definition evlock_init :: "'t locking" where
  "evlock_init = \<lparr>lk_lock = 0, lk_pc = (\<lambda>_. Outside)\<rparr>"

text \<open>One atomic access of \<open>evlock_lock\<close> by a thread at the given place.\<close>

fun evlock_lock :: "lock_pc \<Rightarrow> int \<Rightarrow> lock_pc \<times> int" where
  "evlock_lock Outside l = (Exchange 0, l)"
| "evlock_lock (Exchange step) l = (if l = 1 then (Load step, 1) else (Holding, 1))"
| "evlock_lock (Load step) l = (if l = 1 then (Load (snd (evlock_backoff step 6)), l) else (Exchange 0, l))"
| "evlock_lock Holding l = (Holding, l)"

definition evlock_unlock :: "int \<Rightarrow> int" where
  "evlock_unlock l = 0"

inductive lock_step :: "'t \<Rightarrow> 't locking \<Rightarrow> 't locking \<Rightarrow> bool" where
  lock: "lk_pc s t \<noteq> Holding \<Longrightarrow> evlock_lock (lk_pc s t) (lk_lock s) = (p, l) \<Longrightarrow>
    lock_step t s (s\<lparr>lk_lock := l, lk_pc := (lk_pc s)(t := p)\<rparr>)"
| unlock: "lk_pc s t = Holding \<Longrightarrow>
    lock_step t s (s\<lparr>lk_lock := evlock_unlock (lk_lock s), lk_pc := (lk_pc s)(t := Outside)\<rparr>)"

inductive lock_reachable :: "'t locking \<Rightarrow> bool" where
  init: "lock_reachable evlock_init"
| step: "lock_reachable s \<Longrightarrow> lock_step t s s' \<Longrightarrow> lock_reachable s'"

inductive_cases lock_stepE: "lock_step t s s'"

section \<open>Invariant\<close>

text \<open>The integer is 1 exactly when some thread holds the lock, at most one does, back-off steps stay small.\<close>

definition lock_inv :: "'t locking \<Rightarrow> bool" where
  "lock_inv s \<longleftrightarrow> (lk_lock s = 0 \<or> lk_lock s = 1) \<and>
     (lk_lock s = 1 \<longleftrightarrow> (\<exists>t. lk_pc s t = Holding)) \<and>
     (\<forall>t u. lk_pc s t = Holding \<longrightarrow> lk_pc s u = Holding \<longrightarrow> t = u) \<and>
     (\<forall>t n. lk_pc s t = Exchange n \<or> lk_pc s t = Load n \<longrightarrow> n \<le> 6)"

lemma lock_inv_step:
  assumes inv: "lock_inv s" and st: "lock_step t s s'"
  shows "lock_inv s'"
  using st
proof (cases rule: lock_step.cases)
  case (lock p l)
  have other: "u \<noteq> t" if "lk_pc s u = Holding" for u using lock(2) that by blast
  show ?thesis
  proof (cases "lk_lock s = 1")
    case True
    then obtain u where u: "lk_pc s u = Holding" using inv unfolding lock_inv_def by blast
    have p: "l = 1" "p \<noteq> Holding" "\<And>n. p = Exchange n \<or> p = Load n \<Longrightarrow> n \<le> 6"
      using lock(2,3) True inv by (cases "lk_pc s t"; auto simp: lock_inv_def evlock_backoff_def split: if_splits)+
    show ?thesis
      using inv u other p unfolding lock(1) lock_inv_def by (simp add: True) metis
  next
    case False
    then have none: "lk_pc s u \<noteq> Holding" for u using inv unfolding lock_inv_def by blast
    have l0: "lk_lock s = 0" using inv False unfolding lock_inv_def by blast
    show ?thesis
      using inv none l0 lock by (cases "lk_pc s t") (auto simp: lock_inv_def)
  qed
next
  case unlock
  have none: "lk_pc s u \<noteq> Holding" if "u \<noteq> t" for u using inv that unlock(2) unfolding lock_inv_def by blast
  have "\<forall>u n. lk_pc s u = Exchange n \<or> lk_pc s u = Load n \<longrightarrow> n \<le> 6"
    using inv unfolding lock_inv_def by blast
  then show ?thesis
    using none unfolding unlock(1) lock_inv_def by (simp add: evlock_unlock_def)
qed

lemma lock_inv_reachable: "lock_reachable s \<Longrightarrow> lock_inv s"
proof (induction rule: lock_reachable.induct)
  case init
  then show ?case by (simp add: lock_inv_def evlock_init_def)
next
  case (step s t s')
  then show ?case by (blast intro: lock_inv_step)
qed

section \<open>Properties\<close>

text \<open>
  C35: in every reachable state of any number of threads that take and release the lock, at most
  one of them holds it, and the atomic integer is 1 exactly while one does.\<close>

theorem evlock_mutual_exclusion:
  assumes "lock_reachable s"
  shows "(lk_pc s t = Holding \<and> lk_pc s u = Holding \<longrightarrow> t = u) \<and> (lk_lock s = 1 \<longleftrightarrow> (\<exists>t. lk_pc s t = Holding))"
  using lock_inv_reachable [OF assms] unfolding lock_inv_def by blast

text \<open>
  The lock cannot be stuck: in a reachable state in which no thread holds it, a thread that
  waits for it gets it by at most two steps of its own.\<close>

theorem evlock_no_deadlock:
  assumes "lock_reachable s" "\<And>u. lk_pc s u \<noteq> Holding" "lk_pc s t \<noteq> Outside"
  shows "\<exists>s1. lock_step t s s1 \<and> (lk_pc s1 t = Holding \<or> (\<exists>s2. lock_step t s1 s2 \<and> lk_pc s2 t = Holding))"
proof -
  have l: "lk_lock s = 0"
    using lock_inv_reachable [OF assms(1)] assms(2) unfolding lock_inv_def by blast
  have ex: "lock_step t r (r\<lparr>lk_lock := 1, lk_pc := (lk_pc r)(t := Holding)\<rparr>)"
    if "lk_pc r t = Exchange n" "lk_lock r = 0" for r :: "'a locking" and n
    using that lock_step.lock [of r t Holding 1] by simp
  show ?thesis
  proof (cases "lk_pc s t")
    case (Exchange n)
    then show ?thesis using ex [OF Exchange l] by force
  next
    case (Load n)
    define s1 where "s1 = s\<lparr>lk_lock := 0, lk_pc := (lk_pc s)(t := Exchange 0)\<rparr>"
    have "lock_step t s s1" using lock_step.lock [of s t "Exchange 0" 0] Load l by (simp add: s1_def)
    moreover have "lk_pc s1 t = Exchange 0" "lk_lock s1 = 0" by (simp_all add: s1_def)
    ultimately show ?thesis using ex [of s1 0] by force
  qed (use assms in auto)
qed

section \<open>Instances\<close>

text \<open>Two threads; \<open>True\<close> has called the lock function.\<close>

definition demo_lock :: "bool locking" where
  "demo_lock = \<lparr>lk_lock = 0, lk_pc = (\<lambda>t. if t then Exchange 0 else Outside)\<rparr>"

lemma demo_lock_reachable: "lock_reachable demo_lock"
proof (rule lock_reachable.step [OF lock_reachable.init])
  have "demo_lock = evlock_init\<lparr>lk_lock := 0, lk_pc := (lk_pc evlock_init)(True := Exchange 0)\<rparr>"
    by (simp add: demo_lock_def evlock_init_def fun_eq_iff)
  then show "lock_step True evlock_init demo_lock"
    using lock_step.lock [of evlock_init True "Exchange 0" 0] by (simp add: evlock_init_def)
qed

theorem evlock_mutual_exclusion_witness:
  "(lk_lock demo_lock = 1) = (\<exists>t. lk_pc demo_lock t = Holding)"
  using evlock_mutual_exclusion [OF demo_lock_reachable, of True False] by blast

theorem evlock_no_deadlock_witness:
  "\<exists>s1. lock_step True demo_lock s1 \<and> (lk_pc s1 True = Holding \<or> (\<exists>s2. lock_step True s1 s2 \<and> lk_pc s2 True = Holding))"
  by (rule evlock_no_deadlock [OF demo_lock_reachable]) (simp_all add: demo_lock_def)

end
