(* ===== verification/MsgQueue.thy ===== *)
theory MsgQueue
  imports RingQueue
begin

text \<open>
  The message queue of an I/O thread (\<^verbatim>\<open>src/msgqueue.c\<close>): a ring of tasks under a spin lock, and a
  descriptor that is written when the queue stops being empty.  A critical section is one step (see
  the theory on the lock); the write of the notification happens after the lock is released and is
  therefore a result of \<open>msgqueue_push\<close> that the environment performs as a step of its own.

  The descriptors that \<^verbatim>\<open>eventfd\<close> or \<^verbatim>\<open>pipe\<close> return and the success of \<^verbatim>\<open>malloc\<close> and \<^verbatim>\<open>calloc\<close> are
  arguments; a result lists the descriptors that were closed.
\<close>

section \<open>Tasks\<close>

definition eTaskType_Null :: u16 where "eTaskType_Null = 0"
definition eTaskType_User :: u16 where "eTaskType_User = 1"
definition eTaskType_Data :: u16 where "eTaskType_Data = 2"

definition TASK_PADDING_SIZE :: nat where "TASK_PADDING_SIZE = 56"

text \<open>The union of a task holds a pointer, or the bytes that were copied into it.\<close>

datatype task_union = Taskdata u64 | Data "byte list"

record task =
  tk_type :: u16
  tk_utype :: u16
  tk_union :: task_union

definition null_task :: task where
  "null_task = \<lparr>tk_type = 0, tk_utype = 0, tk_union = Taskdata 0\<rparr>"

section \<open>The queue\<close>

record msgqueue =
  mq_queue :: "task ring"
  mq_popfd :: int
  mq_pushfd :: int

text \<open>What the system call that makes the notification channel returned.\<close>

datatype notifier = Eventfd int | Pipe "(int \<times> int) option"

text \<open>The descriptors handed to \<^verbatim>\<open>close\<close>; closing \<open>- 1\<close> has no effect.\<close>

definition msgqueue_destroy :: "msgqueue \<Rightarrow> int list" where
  "msgqueue_destroy self =
     (if mq_popfd self \<noteq> 0 then [mq_popfd self] else []) @
     (if mq_pushfd self \<noteq> 0 \<and> mq_pushfd self \<noteq> mq_popfd self then [mq_pushfd self] else [])"

definition msgqueue_create :: "bool \<Rightarrow> bool \<Rightarrow> notifier \<Rightarrow> u32 \<Rightarrow> msgqueue option \<times> int list" where
  "msgqueue_create mem qmem sys sz =
     (if \<not> mem then (None, [])
      else
        let (irc, queue) = QUEUE_INIT qmem null_task sz;
            self = \<lparr>mq_queue = queue, mq_popfd = - 1, mq_pushfd = - 1\<rparr>
        in if irc \<noteq> 0 then (None, msgqueue_destroy self)
           else
             let (rc, self) = (case sys of
                   Pipe None \<Rightarrow> (- 1, self)
                 | Pipe (Some (r, w)) \<Rightarrow> (0, self\<lparr>mq_popfd := r, mq_pushfd := w\<rparr>)
                 | Eventfd fd \<Rightarrow> (fd, if 0 \<le> fd then self\<lparr>mq_popfd := fd, mq_pushfd := fd\<rparr> else self))
             in if rc = - 1 then (None, msgqueue_destroy self) else (Some self, []))"

text \<open>The result: the return code, the descriptors to write a notification to, the queue.\<close>

definition msgqueue_push :: "bool \<Rightarrow> msgqueue \<Rightarrow> task \<Rightarrow> (int \<times> int list \<times> msgqueue) option" where
  "msgqueue_push mem self task = do {
     (rc, q) \<leftarrow> QUEUE_PUSH mem null_task (mq_queue self) task;
     let isbc = QUEUE_COUNT q;
     Some (rc, if rc = 0 \<and> isbc = 1 then [mq_pushfd self] else [], self\<lparr>mq_queue := q\<rparr>)
   }"

definition msgqueue_pop :: "msgqueue \<Rightarrow> (int \<times> task option \<times> msgqueue) option" where
  "msgqueue_pop self = do {
     (rc, t, q) \<leftarrow> QUEUE_POP (mq_queue self);
     Some (rc, t, self\<lparr>mq_queue := q\<rparr>)
   }"

text \<open>The loop of \<open>msgqueue_pops\<close>; the tasks are stored one after the other.\<close>

fun pops_loop :: "nat \<Rightarrow> task ring \<Rightarrow> (task list \<times> task ring) option" where
  "pops_loop 0 q = Some ([], q)"
| "pops_loop (Suc n) q = do {
     (rc, t, q) \<leftarrow> QUEUE_POP q;
     (case t of
        None \<Rightarrow> Some ([], q)
      | Some t \<Rightarrow> do {
          (ts, q) \<leftarrow> pops_loop n q;
          Some (t # ts, q)
        })
   }"

definition msgqueue_pops :: "msgqueue \<Rightarrow> u32 \<Rightarrow> (int \<times> task list \<times> msgqueue) option" where
  "msgqueue_pops self cnt = do {
     (ts, q) \<leftarrow> pops_loop (unat cnt) (mq_queue self);
     Some (int (length ts), ts, self\<lparr>mq_queue := q\<rparr>)
   }"

definition msgqueue_swap :: "msgqueue \<Rightarrow> task ring \<Rightarrow> int \<times> msgqueue \<times> task ring" where
  "msgqueue_swap self queue =
     (let (_, q, queue) = QUEUE_SWAP (mq_queue self) queue in (0, self\<lparr>mq_queue := q\<rparr>, queue))"

definition msgqueue_count :: "msgqueue \<Rightarrow> u32" where
  "msgqueue_count self = QUEUE_COUNT (mq_queue self)"

definition msgqueue_popfd :: "msgqueue \<Rightarrow> int" where
  "msgqueue_popfd self = mq_popfd self"

section \<open>What the operations do to the queued tasks\<close>

abbreviation mq_ok :: "msgqueue \<Rightarrow> bool" where "mq_ok self \<equiv> ring_ok (mq_queue self)"
abbreviation mq_list :: "msgqueue \<Rightarrow> task list" where "mq_list self \<equiv> ring_list (mq_queue self)"

lemma msgqueue_push_cases:
  assumes ok: "mq_ok self" and small: "length (mq_list self) < 2 ^ 31"
  shows "msgqueue_push mem self t = Some (- 1, [], self) \<and> \<not> mem \<or>
    (\<exists>self'. msgqueue_push mem self t = Some (0, if mq_list self = [] then [mq_pushfd self] else [], self') \<and>
       mq_ok self' \<and> mq_list self' = mq_list self @ [t] \<and>
       mq_popfd self' = mq_popfd self \<and> mq_pushfd self' = mq_pushfd self)"
  using ring_push_cases [OF ok small, of mem null_task t]
proof
  assume "QUEUE_PUSH mem null_task (mq_queue self) t = Some (- 1, mq_queue self) \<and> \<not> mem"
  then have "QUEUE_PUSH mem null_task (mq_queue self) t = Some (- 1, mq_queue self)" "\<not> mem" by blast+
  then show ?thesis unfolding msgqueue_push_def by (intro disjI1) simp
next
  assume "\<exists>q'. QUEUE_PUSH mem null_task (mq_queue self) t = Some (0, q') \<and> ring_ok q' \<and>
    ring_list q' = mq_list self @ [t]"
  then obtain q' where q': "QUEUE_PUSH mem null_task (mq_queue self) t = Some (0, q')" "ring_ok q'"
    "ring_list q' = mq_list self @ [t]" by blast
  then show ?thesis
    using ring_count_one_iff [OF q'(2)] unfolding msgqueue_push_def
    by (intro disjI2 exI [of _ "self\<lparr>mq_queue := q'\<rparr>"]) simp
qed

lemma pops_loop_list:
  "ring_ok q \<Longrightarrow> \<exists>q'. pops_loop n q = Some (take n (ring_list q), q') \<and> ring_ok q' \<and>
     ring_list q' = drop n (ring_list q)"
proof (induction n arbitrary: q)
  case 0
  then show ?case by simp
next
  case (Suc n)
  show ?case
  proof (cases "ring_list q")
    case Nil
    then show ?thesis using ring_pop_Nil [OF Suc.prems] Suc.prems by simp
  next
    case (Cons t ts)
    then obtain q1 where q1: "QUEUE_POP q = Some (1, Some t, q1)" "ring_ok q1" "ring_list q1 = ts"
      using ring_pop [OF Suc.prems] by blast
    then show ?thesis using Suc.IH [OF q1(2)] Cons by auto
  qed
qed

lemma msgqueue_swap_eq: "msgqueue_swap self q = (0, self\<lparr>mq_queue := q\<rparr>, mq_queue self)"
  by (simp add: msgqueue_swap_def ring_swap)

section \<open>Properties\<close>

text \<open>
  Taking a batch hands out the oldest tasks, at most as many as asked for, in the order in
  which they were pushed, and leaves the others in order; asking for one at a time gives the same
  tasks.\<close>

theorem msgqueue_pops_takes_oldest:
  assumes "mq_ok self"
  shows "\<exists>self'. msgqueue_pops self cnt =
      Some (int (min (length (mq_list self)) (unat cnt)), take (unat cnt) (mq_list self), self') \<and>
      mq_ok self' \<and> mq_list self' = drop (unat cnt) (mq_list self) \<and>
      msgqueue_count self' = msgqueue_count self - of_nat (min (length (mq_list self)) (unat cnt))"
proof -
  obtain q' where q': "pops_loop (unat cnt) (mq_queue self) = Some (take (unat cnt) (mq_list self), q')"
    "ring_ok q'" "ring_list q' = drop (unat cnt) (mq_list self)"
    using pops_loop_list [OF assms] by blast
  define c where "c = min (length (mq_list self)) (unat cnt)"
  have "length (mq_list self) = unat (QUEUE_COUNT (mq_queue self))"
    "length (mq_list self) - c = unat (QUEUE_COUNT q')"
    using ring_list_length [OF assms] ring_list_length [OF q'(2)] q'(3) by (auto simp: c_def min_def)
  then have "(of_nat (unat (QUEUE_COUNT q')) :: u32) = of_nat (unat (QUEUE_COUNT (mq_queue self)) - c)" by simp
  moreover have "c \<le> unat (QUEUE_COUNT (mq_queue self))"
    using ring_list_length [OF assms] by (simp add: c_def)
  ultimately have "QUEUE_COUNT q' = QUEUE_COUNT (mq_queue self) - of_nat c" by (simp add: of_nat_diff)
  then show ?thesis using q' by (simp add: msgqueue_pops_def msgqueue_count_def c_def)
qed

text \<open>
  A message queue has its channel open or does not exist: creation either returns an empty
  queue with the descriptors the system gave and closes nothing, or returns nothing and closes at
  most the invalid descriptor; destroying a queue closes each of its descriptors exactly once,
  except descriptor 0, which it leaves open.\<close>

theorem msgqueue_descriptors:
  assumes sz: "sz = 0 \<or> (\<exists>k < 32. unat sz = 2 ^ k)"
    and valid: "case sys of Eventfd fd \<Rightarrow> - 1 \<le> fd | Pipe None \<Rightarrow> True | Pipe (Some (r, w)) \<Rightarrow> 0 \<le> r \<and> 0 \<le> w \<and> r \<noteq> w"
    and cr: "msgqueue_create mem qmem sys sz = (res, cl)"
  shows "(case res of
      None \<Rightarrow> set cl \<subseteq> {- 1} \<and> (\<not> mem \<or> \<not> qmem \<or> sys = Eventfd (- 1) \<or> sys = Pipe None)
    | Some self \<Rightarrow> cl = [] \<and> mq_ok self \<and> mq_list self = [] \<and> mem \<and> qmem \<and>
        (sys = Eventfd (mq_popfd self) \<and> mq_pushfd self = mq_popfd self \<or>
         sys = Pipe (Some (mq_popfd self, mq_pushfd self))) \<and>
        distinct (msgqueue_destroy self) \<and>
        set (msgqueue_destroy self) = {mq_popfd self, mq_pushfd self} - {0})"
proof -
  have oom: "fst (QUEUE_INIT False null_task sz) = - 1" by (simp add: QUEUE_INIT_def)
  obtain q where q: "QUEUE_INIT True null_task sz = (0, q)" "ring_ok q" "ring_list q = []"
    using ring_init [OF sz, of null_task] by blast
  show ?thesis
  proof (cases "mem \<and> qmem")
    case True
    then show ?thesis
      using cr q valid
      by (cases sys) (auto simp: msgqueue_create_def msgqueue_destroy_def Let_def split: if_splits option.splits prod.splits)
  next
    case False
    then show ?thesis
      using cr oom by (cases "QUEUE_INIT False null_task sz") (auto simp: msgqueue_create_def msgqueue_destroy_def Let_def split: if_splits)
  qed
qed

section \<open>Instances\<close>

definition demo_mq :: msgqueue where
  "demo_mq = \<lparr>mq_queue = \<lparr>q_size = 2, q_entries = Some [null_task, null_task], q_head = 0, q_tail = 1\<rparr>,
     mq_popfd = 7, mq_pushfd = 7\<rparr>"

lemma demo_mq_ok: "mq_ok demo_mq" "mq_list demo_mq = [null_task]"
  by (auto simp: demo_mq_def ring_ok_def QUEUE_COUNT_def ring_list_def q_slot_def intro: exI [of _ 1])

theorem msgqueue_pops_takes_oldest_witness:
  "\<exists>self'. msgqueue_pops demo_mq 5 = Some (1, [null_task], self') \<and> mq_list self' = []"
  using msgqueue_pops_takes_oldest [OF demo_mq_ok(1), of 5] by (auto simp: demo_mq_ok(2))

theorem msgqueue_descriptors_witness:
  "(case fst (msgqueue_create True True (Eventfd 5) 4) of None \<Rightarrow> False
     | Some self \<Rightarrow> set (msgqueue_destroy self) = {5}) \<and>
   (case fst (msgqueue_create True True (Eventfd 0) 4) of None \<Rightarrow> False
     | Some self \<Rightarrow> set (msgqueue_destroy self) = {})"
proof -
  have sz: "(4::u32) = 0 \<or> (\<exists>k < 32. unat (4::u32) = 2 ^ k)" by (intro disjI2 exI [of _ 2]) simp
  show ?thesis
    using msgqueue_descriptors [OF sz _ surjective_pairing, of "Eventfd 5" True True]
      msgqueue_descriptors [OF sz _ surjective_pairing, of "Eventfd 0" True True]
    by (cases "fst (msgqueue_create True True (Eventfd 5) 4)"; cases "fst (msgqueue_create True True (Eventfd 0) 4)")
      simp_all
qed

end
