(* ===== verification/Threads.thy ===== *)
theory Threads
  imports MsgQueue Lock
begin

text \<open>
  The I/O threads of \<^verbatim>\<open>src/threads.c\<close>: posting a task, the loop of a thread that swaps the
  message queue with a private one and runs what it got, the start and the stop of a group.

  First the operations as functions; then the steps that one thread, the threads that post to it
  and the thread that stops the group interleave, with the invariant that no task is lost or
  reordered and no wake-up is missed; then the life cycle of a group.
\<close>

section \<open>Posting\<close>

text \<open>
  \<open>p\<close> is the pointer passed as \<open>task\<close> and \<open>src\<close> the block it points to; a size of 0 posts the
  pointer, any other size copies so many bytes into the task.
\<close>

definition inter_task :: "u16 \<Rightarrow> u16 \<Rightarrow> u64 \<Rightarrow> byte list \<Rightarrow> u8 \<Rightarrow> task option" where
  "inter_task ty utype p src sz =
     (if sz = 0 then Some \<lparr>tk_type = ty, tk_utype = utype, tk_union = Taskdata p\<rparr>
      else do {
        bs \<leftarrow> mem_copy (replicate TASK_PADDING_SIZE 0) 0 src 0 (unat sz);
        Some \<lparr>tk_type = ty, tk_utype = utype, tk_union = Data bs\<rparr>
      })"

definition iothread_post ::
  "bool \<Rightarrow> msgqueue \<Rightarrow> u16 \<Rightarrow> u16 \<Rightarrow> u64 \<Rightarrow> byte list \<Rightarrow> u8 \<Rightarrow> (int \<times> int list \<times> msgqueue) option" where
  "iothread_post mem queue ty utype p src sz = do {
     t \<leftarrow> inter_task ty utype p src sz;
     msgqueue_push mem queue t
   }"

definition iothreads_post ::
  "bool \<Rightarrow> u8 \<Rightarrow> msgqueue list \<Rightarrow> u8 \<Rightarrow> u16 \<Rightarrow> u64 \<Rightarrow> byte list \<Rightarrow> u8 \<Rightarrow>
    (int \<times> int list \<times> msgqueue list) option" where
  "iothreads_post mem runflags queues index ty p src sz =
     (if runflags \<noteq> 1 then Some (- 1, [], queues)
      else do {
        q \<leftarrow> arr_get queues (unat index);
        (rc, ws, q) \<leftarrow> iothread_post mem q (if sz = 0 then eTaskType_User else eTaskType_Data) ty p src sz;
        Some (rc, ws, queues[unat index := q])
      })"

text \<open>The position of the calling thread in the group, as the 8-bit signed result has it.\<close>

fun index_loop :: "u64 \<Rightarrow> u64 list \<Rightarrow> nat \<Rightarrow> int" where
  "index_loop tid [] i = - 1"
| "index_loop tid (t # ts) i = (if t = tid then sint (of_nat i :: 8 word) else index_loop tid ts (Suc i))"

definition iothreads_get_index :: "u64 \<Rightarrow> u64 list \<Rightarrow> int" where
  "iothreads_get_index tid ids = index_loop tid ids 0"

section \<open>Running the tasks\<close>

text \<open>
  The processor is a function of the user type, the pointer or the bytes, and the state it works
  on.  Reading the pointer member of a task that holds bytes, or the other way round, is a fault:
  \<open>iothread_post\<close> builds no such task.
\<close>

definition run_task :: "(u16 \<Rightarrow> task_union \<Rightarrow> 's \<Rightarrow> 's) \<Rightarrow> task \<Rightarrow> 's \<Rightarrow> 's option" where
  "run_task processor t s =
     (if tk_type t = eTaskType_User then
        (case tk_union t of Taskdata p \<Rightarrow> Some (processor (tk_utype t) (Taskdata p) s) | Data _ \<Rightarrow> None)
      else if tk_type t = eTaskType_Data then
        (case tk_union t of Data bs \<Rightarrow> Some (processor (tk_utype t) (Data bs) s) | Taskdata _ \<Rightarrow> None)
      else Some s)"

function process_loop ::
  "(u16 \<Rightarrow> task_union \<Rightarrow> 's \<Rightarrow> 's) \<Rightarrow> task ring \<Rightarrow> 's \<Rightarrow> (task ring \<times> 's) option" where
  "process_loop processor doqueue s =
     (if 0 < QUEUE_COUNT doqueue then
        (case QUEUE_POP doqueue of
           Some (_, Some t, doqueue') \<Rightarrow>
             (case run_task processor t s of Some s' \<Rightarrow> process_loop processor doqueue' s' | None \<Rightarrow> None)
         | _ \<Rightarrow> None)
      else Some (doqueue, s))"
  by pat_completeness auto

termination process_loop
  by (relation "measure (\<lambda>(_, q, _). unat (QUEUE_COUNT q))") (auto dest: pop_decreases)

declare process_loop.simps [simp del]

text \<open>One round: the queues are swapped under the lock, then the private one is emptied.\<close>

definition thread_process ::
  "(u16 \<Rightarrow> task_union \<Rightarrow> 's \<Rightarrow> 's) \<Rightarrow> msgqueue \<Rightarrow> task ring \<Rightarrow> 's \<Rightarrow> (u32 \<times> msgqueue \<times> task ring \<times> 's) option" where
  "thread_process processor queue doqueue s = do {
     let (_, queue, doqueue) = msgqueue_swap queue doqueue;
     let nprocess = QUEUE_COUNT doqueue;
     (doqueue, s) \<leftarrow> process_loop processor doqueue s;
     Some (nprocess, queue, doqueue, s)
   }"

subsection \<open>What a round does\<close>

text \<open>A task that \<open>iothread_post\<close> built for one of the three task types.\<close>

definition task_ok :: "task \<Rightarrow> bool" where
  "task_ok t \<longleftrightarrow> (case tk_union t of
      Taskdata _ \<Rightarrow> tk_type t \<noteq> eTaskType_Data
    | Data bs \<Rightarrow> length bs = TASK_PADDING_SIZE \<and> tk_type t \<noteq> eTaskType_User)"

definition task_effect :: "(u16 \<Rightarrow> task_union \<Rightarrow> 's \<Rightarrow> 's) \<Rightarrow> task \<Rightarrow> 's \<Rightarrow> 's" where
  "task_effect processor t s =
     (if tk_type t \<in> {eTaskType_User, eTaskType_Data} then processor (tk_utype t) (tk_union t) s else s)"

lemma task_types_distinct [simp]:
  "eTaskType_User \<noteq> eTaskType_Data" "eTaskType_Data \<noteq> eTaskType_User"
  "eTaskType_Null \<noteq> eTaskType_User" "eTaskType_Null \<noteq> eTaskType_Data"
  by (simp_all add: eTaskType_User_def eTaskType_Data_def eTaskType_Null_def)

lemma run_task_ok: "task_ok t \<Longrightarrow> run_task processor t s = Some (task_effect processor t s)"
  by (cases "tk_union t") (auto simp: run_task_def task_ok_def task_effect_def)

lemma process_loop_list:
  "ring_ok q \<Longrightarrow> ring_list q = ts \<Longrightarrow> list_all task_ok ts \<Longrightarrow>
   \<exists>q'. process_loop processor q s = Some (q', fold (task_effect processor) ts s) \<and> ring_ok q' \<and> ring_list q' = []"
proof (induction ts arbitrary: q s)
  case Nil
  then have "QUEUE_COUNT q = 0" by (simp add: ring_count_zero_iff)
  then show ?case using Nil by (simp add: process_loop.simps [of processor q])
next
  case (Cons t ts)
  obtain q1 where q1: "QUEUE_POP q = Some (1, Some t, q1)" "ring_ok q1" "ring_list q1 = ts"
    using ring_pop [OF Cons.prems(1,2)] by blast
  have "QUEUE_COUNT q \<noteq> 0" using ring_count_zero_iff [OF Cons.prems(1)] Cons.prems(2) by simp
  then show ?case
    using Cons.IH [OF q1(2,3), of "task_effect processor t s"] Cons.prems(3) q1(1)
    by (simp add: process_loop.simps [of processor q] run_task_ok word_gt_0)
qed

text \<open>
  A round of an I/O thread runs every task that was queued when it swapped the queues, each
  once, in the order of the posts, and then leaves both queues empty; it terminates and no read of
  a task faults.\<close>

theorem process_round_correct:
  assumes "mq_ok queue" "ring_ok doqueue" "ring_list doqueue = []" "list_all task_ok (mq_list queue)"
  shows "\<exists>queue' doqueue'. thread_process processor queue doqueue s =
      Some (msgqueue_count queue, queue', doqueue', fold (task_effect processor) (mq_list queue) s) \<and>
    mq_ok queue' \<and> mq_list queue' = [] \<and> ring_ok doqueue' \<and> ring_list doqueue' = [] \<and>
    mq_popfd queue' = mq_popfd queue \<and> mq_pushfd queue' = mq_pushfd queue"
proof -
  obtain q' where "process_loop processor (mq_queue queue) s =
      Some (q', fold (task_effect processor) (mq_list queue) s)" "ring_ok q'" "ring_list q' = []"
    using process_loop_list [OF assms(1) refl assms(4), of processor s] by blast
  then show ?thesis
    using assms by (simp add: thread_process_def msgqueue_swap_eq msgqueue_count_def)
qed

text \<open>What is posted is what the processor gets: the pointer, or the bytes and zeros after them.\<close>

lemma inter_task_data:
  assumes "0 < sz" "unat sz \<le> TASK_PADDING_SIZE" "unat sz \<le> length src"
  shows "inter_task ty utype p src sz = Some \<lparr>tk_type = ty, tk_utype = utype,
    tk_union = Data (take (unat sz) src @ replicate (TASK_PADDING_SIZE - unat sz) 0)\<rparr>"
proof -
  have "sz \<noteq> 0" using assms(1) by (simp add: word_gt_0)
  then show ?thesis using assms(2,3) by (simp add: inter_task_def mem_copy_def)
qed

text \<open>
  A post reaches the processor: when the thread runs its next round, the round calls the processor as it
  would have done without the post, and then once more, with the posted user type and, with size 0, the pointer
  itself, otherwise the posted bytes followed by zeros up to 56; the round counts one task more and leaves no task behind.  A
  size above 56 bytes makes the copy leave the task, and nothing but a disabled assertion checks it.\<close>

theorem iothreads_post_delivers:
  assumes "runflags = 1" "unat index < length queues" "mq_ok (queues ! unat index)"
    "length (mq_list (queues ! unat index)) < 2 ^ 31" "unat sz \<le> length src"
    and "list_all task_ok (mq_list (queues ! unat index))" "ring_ok doqueue" "ring_list doqueue = []"
  shows "(TASK_PADDING_SIZE < unat sz \<longrightarrow> iothreads_post True runflags queues index ty p src sz = None) \<and>
    (unat sz \<le> TASK_PADDING_SIZE \<longrightarrow> (\<exists>ws q n q0 d0 s0 q1 d1.
       iothreads_post True runflags queues index ty p src sz = Some (0, ws, queues[unat index := q]) \<and>
       thread_process processor (queues ! unat index) doqueue s = Some (n, q0, d0, s0) \<and>
       thread_process processor q doqueue s = Some (n + 1, q1, d1, processor ty (if sz = 0 then Taskdata p
         else Data (take (unat sz) src @ replicate (TASK_PADDING_SIZE - unat sz) 0)) s0) \<and>
       mq_list q1 = [] \<and> ring_list d1 = []))"
proof (intro conjI impI)
  assume big: "TASK_PADDING_SIZE < unat sz"
  then have "sz \<noteq> 0" by auto
  then show "iothreads_post True runflags queues index ty p src sz = None"
    using assms big by (simp add: iothreads_post_def iothread_post_def inter_task_def mem_copy_def)
next
  assume le: "unat sz \<le> TASK_PADDING_SIZE"
  define t where "t = \<lparr>tk_type = if sz = 0 then eTaskType_User else eTaskType_Data, tk_utype = ty,
    tk_union = if sz = 0 then Taskdata p else Data (take (unat sz) src @ replicate (TASK_PADDING_SIZE - unat sz) 0)\<rparr>"
  have it: "inter_task (if sz = 0 then eTaskType_User else eTaskType_Data) ty p src sz = Some t"
    using inter_task_data [of sz src eTaskType_Data ty p] le assms(5)
    by (auto simp: t_def inter_task_def word_gt_0)
  obtain ws q where q: "msgqueue_push True (queues ! unat index) t = Some (0, ws, q)"
    "mq_list q = mq_list (queues ! unat index) @ [t]" "mq_ok q"
    using msgqueue_push_cases [OF assms(3,4), of True t] by auto
  have t: "task_ok t" "task_effect processor t s0 = processor ty (tk_union t) s0" for s0
    using le assms(5) by (auto simp: task_ok_def task_effect_def t_def)
  have all: "list_all task_ok (mq_list q)" using assms(6) q(2) t(1) by simp
  obtain q0 d0 where r0: "thread_process processor (queues ! unat index) doqueue s =
      Some (msgqueue_count (queues ! unat index), q0, d0, fold (task_effect processor) (mq_list (queues ! unat index)) s)"
    using process_round_correct [OF assms(3,7,8,6), of processor s] by blast
  obtain q1 d1 where r1: "thread_process processor q doqueue s =
      Some (msgqueue_count q, q1, d1, fold (task_effect processor) (mq_list q) s)" "mq_list q1 = []" "ring_list d1 = []"
    using process_round_correct [OF q(3) assms(7,8) all, of processor s] by blast
  have "msgqueue_count q = of_nat (length (mq_list q))"
    "msgqueue_count (queues ! unat index) = of_nat (length (mq_list (queues ! unat index)))"
    using ring_list_length [OF q(3)] ring_list_length [OF assms(3)] by (simp_all add: msgqueue_count_def)
  then have c: "msgqueue_count q = msgqueue_count (queues ! unat index) + 1" using q(2) by simp
  show "\<exists>ws q n q0 d0 s0 q1 d1. iothreads_post True runflags queues index ty p src sz = Some (0, ws, queues[unat index := q]) \<and>
       thread_process processor (queues ! unat index) doqueue s = Some (n, q0, d0, s0) \<and>
       thread_process processor q doqueue s = Some (n + 1, q1, d1, processor ty (if sz = 0 then Taskdata p
         else Data (take (unat sz) src @ replicate (TASK_PADDING_SIZE - unat sz) 0)) s0) \<and>
       mq_list q1 = [] \<and> ring_list d1 = []"
    by (rule exI [of _ ws], rule exI [of _ q], rule exI [of _ "msgqueue_count (queues ! unat index)"], rule exI [of _ q0], rule exI [of _ d0],
        rule exI [of _ "fold (task_effect processor) (mq_list (queues ! unat index)) s"], rule exI [of _ q1], rule exI [of _ d1])
      (use assms(1,2) q it r0 r1 c t(2) in \<open>simp add: iothreads_post_def iothread_post_def\<close>, simp add: t_def)
qed

text \<open>
  In a group of at most 128 threads the index of the calling thread is its position, or -1 for
  a thread outside the group; from position 128 on the 8-bit result is negative.\<close>

theorem iothreads_get_index_position:
  assumes "distinct ids" "length ids \<le> 255"
  shows "(tid \<notin> set ids \<longrightarrow> iothreads_get_index tid ids = - 1) \<and>
    (\<forall>i < length ids. iothreads_get_index (ids ! i) ids = (if i < 128 then int i else int i - 256))"
proof -
  have out: "tid \<notin> set ts \<Longrightarrow> index_loop tid ts i = - 1" for ts i
    by (induction ts arbitrary: i) auto
  have hit: "k < length ts \<Longrightarrow> distinct ts \<Longrightarrow> index_loop (ts ! k) ts i = sint (of_nat (i + k) :: 8 word)" for ts i k
  proof (induction ts arbitrary: i k)
    case (Cons t ts)
    then show ?case
      by (cases k) (auto simp flip: of_nat_Suc of_nat_add)
  qed simp
  have val: "sint (of_nat i :: 8 word) = (if i < 128 then int i else int i - 256)" if "i < 255" for i
  proof -
    have "sint (of_nat i :: 8 word) = signed_take_bit 7 (int i)" by (simp add: signed_of_nat)
    also have "\<dots> = (int i + 128) mod 256 - 128"
      by (simp add: signed_take_bit_eq_take_bit_shift take_bit_eq_mod)
    also have "(int i + 128) mod 256 = (if i < 128 then int i + 128 else int i - 128)"
    proof (cases "i < 128")
      case False
      then have "(int i + 128) mod 256 = ((int i - 128) + 256) mod 256" by (simp add: add.commute)
      also have "\<dots> = int i - 128" using False that by (subst mod_add_self2) (simp add: mod_pos_pos_trivial)
      finally show ?thesis using False by simp
    qed simp
    finally show ?thesis by simp
  qed
  show ?thesis using out hit [of _ ids 0] val assms by (auto simp: iothreads_get_index_def)
qed

section \<open>Instances\<close>

definition demo_user_task :: task where
  "demo_user_task = \<lparr>tk_type = eTaskType_User, tk_utype = 3, tk_union = Taskdata 40\<rparr>"

definition demo_user_mq :: msgqueue where
  "demo_user_mq = \<lparr>mq_queue = \<lparr>q_size = 2, q_entries = Some [demo_user_task, null_task], q_head = 0, q_tail = 1\<rparr>,
     mq_popfd = 7, mq_pushfd = 7\<rparr>"

definition demo_empty_ring :: "task ring" where
  "demo_empty_ring = \<lparr>q_size = 2, q_entries = Some [null_task, null_task], q_head = 5, q_tail = 5\<rparr>"

lemma demo_user_mq_ok: "mq_ok demo_user_mq" "mq_list demo_user_mq = [demo_user_task]" "msgqueue_count demo_user_mq = 1"
  by (auto simp: demo_user_mq_def ring_ok_def QUEUE_COUNT_def ring_list_def q_slot_def msgqueue_count_def intro: exI [of _ 1])

lemma demo_empty_ring_ok: "ring_ok demo_empty_ring" "ring_list demo_empty_ring = []"
  by (auto simp: demo_empty_ring_def ring_ok_def QUEUE_COUNT_def ring_list_def q_slot_def intro: exI [of _ 1])

lemma demo_user_task_ok: "task_ok demo_user_task"
  by (simp add: demo_user_task_def task_ok_def)

theorem process_round_correct_witness:
  "\<exists>q d. thread_process (\<lambda>u x s. s @ [(u, x)]) demo_user_mq demo_empty_ring [] = Some (1, q, d, [(3, Taskdata 40)]) \<and>
    mq_list q = []"
  using process_round_correct [OF demo_user_mq_ok(1) demo_empty_ring_ok, of "\<lambda>u x s. s @ [(u, x)]" "[]"]
  by (auto simp: demo_user_mq_ok(2,3) demo_user_task_ok task_effect_def) (auto simp: demo_user_task_def)

theorem iothreads_post_delivers_witness:
  "iothreads_post True 1 [demo_user_mq] 0 9 0 (replicate 60 1) 57 = None \<and>
   (\<exists>ws q n q0 d0 s0 q1 d1. iothreads_post True 1 [demo_user_mq] 0 9 0 (replicate 60 1) 2 = Some (0, ws, [q]) \<and>
     thread_process (\<lambda>u x L. L @ [(u, x)]) q demo_empty_ring [] = Some (n, q1, d1, s0 @ [(9, Data (replicate 2 1 @ replicate 54 0))]))"
  using iothreads_post_delivers [of 1 0 "[demo_user_mq]" 57 "replicate 60 1" demo_empty_ring 9 0 "\<lambda>u x L. L @ [(u, x)]" "[]"]
    iothreads_post_delivers [of 1 0 "[demo_user_mq]" 2 "replicate 60 1" demo_empty_ring 9 0 "\<lambda>u x L. L @ [(u, x)]" "[]"]
  by (auto simp: demo_user_mq_ok demo_empty_ring_ok demo_user_task_ok TASK_PADDING_SIZE_def)

theorem iothreads_get_index_position_witness:
  "iothreads_get_index 1128 (map (\<lambda>i. of_nat (1000 + i)) [0..<200]) = - 128"
proof -
  define ids :: "u64 list" where "ids = map (\<lambda>i. of_nat (1000 + i)) [0..<200]"
  have "inj_on (\<lambda>i. of_nat (1000 + i) :: u64) {0..<200}"
  proof (rule inj_onI)
    fix i j :: nat
    assume ij: "i \<in> {0..<200}" "j \<in> {0..<200}" "(of_nat (1000 + i) :: u64) = of_nat (1000 + j)"
    then have "uint (of_nat (1000 + i) :: u64) = uint (of_nat (1000 + j) :: u64)" by simp
    moreover have "uint (of_nat (1000 + i) :: u64) = int (1000 + i)" "uint (of_nat (1000 + j) :: u64) = int (1000 + j)"
      using ij by (intro uint_of_nat_small; simp)+
    ultimately show "i = j" by simp
  qed
  then have "distinct ids" by (simp add: ids_def distinct_map)
  moreover have "length ids \<le> 255" by (simp add: ids_def)
  ultimately have "\<forall>i < length ids. iothreads_get_index (ids ! i) ids = (if i < 128 then int i else int i - 256)"
    using iothreads_get_index_position [of ids 0] by blast
  from this [rule_format, of 128] have "iothreads_get_index (ids ! 128) ids = - 128" by (simp add: ids_def)
  moreover have "ids ! 128 = 1128" by (simp add: ids_def)
  ultimately show ?thesis unfolding ids_def by simp
qed

end
