(* ===== verification/Worker.thy ===== *)
theory Worker
  imports Threads
begin

text \<open>
  One I/O thread of \<^verbatim>\<open>src/threads.c\<close> among the threads that post to it and the thread that stops the
  group: \<open>iothread_main\<close>, \<open>iothread_on_command\<close>, \<open>iothreads_post\<close> and the first part of
  \<open>iothreads_stop\<close> as steps that interleave in any order.  A critical section under the queue's
  lock is one step; testing the run flag, pushing and writing the notification are three steps of
  a posting thread, between which anything can happen.
\<close>

section \<open>Steps\<close>

text \<open>
  Where the I/O thread is: testing the run flag, waiting for events, about to swap the queues, or
  running the swapped tasks; the last two also in the round after the loop (\<open>True\<close>).
\<close>

datatype worker_pc = Test | Dispatch | Swap bool | Run bool | Exited

text \<open>
  Where a posting thread is: outside, past the test of the run flag with a task in hand, or about to
  write the notification.
\<close>

datatype poster_pc = Idle | Passed task | Notify

text \<open>
  \<open>wk_efd\<close> is the counter of the event descriptor; \<open>wk_sent\<close> lists the tasks whose push
  succeeded, \<open>wk_ran\<close> those the thread took from its private queue, and \<open>wk_mark\<close> is the length of
  \<open>wk_sent\<close> when the run flag was cleared.  These last three are only observations.
\<close>

record 't worker =
  wk_queue :: msgqueue
  wk_doqueue :: "task ring"
  wk_efd :: nat
  wk_runflags :: u8
  wk_pc :: worker_pc
  wk_posters :: "'t \<Rightarrow> poster_pc"
  wk_sent :: "task list"
  wk_ran :: "task list"
  wk_mark :: "nat option"

text \<open>The command event: a read of the descriptor takes the whole counter.\<close>

definition iothread_on_command :: "nat \<Rightarrow> nat" where
  "iothread_on_command efd = 0"

text \<open>One step of the I/O thread, for the outcome \<open>ready\<close> of waiting: whether the queue's descriptor
  was reported readable or the wait ended for another reason.\<close>

definition iothread_main :: "bool \<Rightarrow> 't worker \<Rightarrow> 't worker option" where
  "iothread_main ready w =
     (case wk_pc w of
        Test \<Rightarrow> Some (w\<lparr>wk_pc := if wk_runflags w \<noteq> 0 then Dispatch else Swap True\<rparr>)
      | Dispatch \<Rightarrow>
          Some (w\<lparr>wk_efd := if ready \<and> 0 < wk_efd w then iothread_on_command (wk_efd w) else wk_efd w,
                  wk_pc := Swap False\<rparr>)
      | Swap final \<Rightarrow>
          (let (_, queue, doqueue) = msgqueue_swap (wk_queue w) (wk_doqueue w)
           in Some (w\<lparr>wk_queue := queue, wk_doqueue := doqueue, wk_pc := Run final\<rparr>))
      | Run final \<Rightarrow>
          (if 0 < QUEUE_COUNT (wk_doqueue w) then
             (case QUEUE_POP (wk_doqueue w) of
                Some (_, Some t, doqueue) \<Rightarrow> Some (w\<lparr>wk_doqueue := doqueue, wk_ran := wk_ran w @ [t]\<rparr>)
              | _ \<Rightarrow> None)
           else if final then Some (w\<lparr>wk_doqueue := QUEUE_CLEAR (wk_doqueue w), wk_pc := Exited\<rparr>)
           else Some (w\<lparr>wk_pc := Test\<rparr>))
      | Exited \<Rightarrow> Some w)"

text \<open>
  \<^verbatim>\<open>write\<close> adds 1 to the counter unless that would reach its maximum; then it fails with \<^verbatim>\<open>EAGAIN\<close>
  and the code only logs it.
\<close>

definition efd_write :: "nat \<Rightarrow> nat" where
  "efd_write efd = (if efd < 2 ^ 64 - 2 then efd + 1 else efd)"

text \<open>The queue of a thread never holds \<open>2 ^ 31\<close> tasks: they would fill 128 GB.\<close>

inductive worker_step :: "'t worker \<Rightarrow> 't worker \<Rightarrow> bool" where
  main: "iothread_main ready w = Some w' \<Longrightarrow> worker_step w w'"
| test: "wk_posters w p = Idle \<Longrightarrow> wk_runflags w = 1 \<Longrightarrow> inter_task ty utype d src sz = Some t \<Longrightarrow>
    worker_step w (w\<lparr>wk_posters := (wk_posters w)(p := Passed t)\<rparr>)"
| push: "wk_posters w p = Passed t \<Longrightarrow> length (mq_list (wk_queue w)) < 2 ^ 31 \<Longrightarrow>
    msgqueue_push mem (wk_queue w) t = Some (rc, ws, queue) \<Longrightarrow>
    worker_step w (w\<lparr>wk_queue := queue, wk_posters := (wk_posters w)(p := if ws = [] then Idle else Notify),
      wk_sent := if rc = 0 then wk_sent w @ [t] else wk_sent w\<rparr>)"
| notify: "wk_posters w p = Notify \<Longrightarrow>
    worker_step w (w\<lparr>wk_efd := efd_write (wk_efd w), wk_posters := (wk_posters w)(p := Idle)\<rparr>)"
| stop: "wk_posters w p = Idle \<Longrightarrow> wk_runflags w = 1 \<Longrightarrow> inter_task eTaskType_Null 0 0 [] 0 = Some t \<Longrightarrow>
    worker_step w (w\<lparr>wk_runflags := 0, wk_mark := Some (length (wk_sent w)),
      wk_posters := (wk_posters w)(p := Passed t)\<rparr>)"

definition worker_init :: "'t worker \<Rightarrow> bool" where
  "worker_init w \<longleftrightarrow>
     (\<exists>mem fd cl. msgqueue_create mem mem (Eventfd fd) 4096 = (Some (wk_queue w), cl)) \<and>
     QUEUE_INIT True null_task 4096 = (0, wk_doqueue w) \<and>
     wk_efd w = 0 \<and> wk_runflags w = 1 \<and> wk_pc w = Test \<and> wk_posters w = (\<lambda>_. Idle) \<and>
     wk_sent w = [] \<and> wk_ran w = [] \<and> wk_mark w = None"

inductive worker_reachable :: "'t worker \<Rightarrow> bool" where
  init: "worker_init w \<Longrightarrow> worker_reachable w"
| step: "worker_reachable w \<Longrightarrow> worker_step w w' \<Longrightarrow> worker_reachable w'"

section \<open>Invariant\<close>

text \<open>
  The tasks taken, in the private queue and in the shared queue are, in this order, those sent.  The
  private queue holds tasks only while they are run.  When the shared queue is not empty the thread
  has been or will be told: the counter is positive, a poster is about to write it, or the thread is
  about to swap.  In the last round the tasks sent before the stop have left the shared queue.
\<close>

definition told :: "'t worker \<Rightarrow> bool" where
  "told w \<longleftrightarrow> 0 < wk_efd w \<or> (\<exists>p. wk_posters w p = Notify) \<or> wk_pc w \<in> {Swap False, Swap True}"

lemma told_mono:
  assumes "told w" "wk_efd w' = wk_efd w" "wk_pc w' = wk_pc w"
    "\<And>u. wk_posters w u = Notify \<Longrightarrow> wk_posters w' u = Notify"
  shows "told w'"
  using assms unfolding told_def by metis

lemma told_update:
  assumes "told w" "wk_posters w p \<noteq> Notify" "wk_efd w' = wk_efd w" "wk_pc w' = wk_pc w"
    "wk_posters w' = (wk_posters w)(p := pc)"
  shows "told w'"
  by (rule told_mono [OF assms(1)]) (use assms in auto)

definition worker_inv :: "'t worker \<Rightarrow> bool" where
  "worker_inv w \<longleftrightarrow>
     mq_ok (wk_queue w) \<and>
     (wk_pc w \<noteq> Exited \<longrightarrow> ring_ok (wk_doqueue w)) \<and>
     wk_ran w @ ring_list (wk_doqueue w) @ mq_list (wk_queue w) = wk_sent w \<and>
     (wk_pc w \<notin> {Run False, Run True} \<longrightarrow> ring_list (wk_doqueue w) = []) \<and>
     (mq_list (wk_queue w) \<noteq> [] \<longrightarrow> told w) \<and>
     (wk_runflags w = (if wk_mark w = None then 1 else 0)) \<and>
     (wk_pc w \<in> {Swap True, Run True, Exited} \<longrightarrow> wk_mark w \<noteq> None) \<and>
     (\<forall>n. wk_mark w = Some n \<longrightarrow> n \<le> length (wk_sent w)) \<and>
     (\<forall>n. wk_mark w = Some n \<and> wk_pc w \<in> {Run True, Exited} \<longrightarrow>
        n \<le> length (wk_ran w @ ring_list (wk_doqueue w)))"

lemma worker_inv_init:
  assumes "worker_init w"
  shows "worker_inv w"
proof -
  have sz: "(4096::u32) = 0 \<or> (\<exists>k < 32. unat (4096::u32) = 2 ^ k)" by (intro disjI2 exI [of _ 12]) simp
  have d: "ring_ok (wk_doqueue w)" "ring_list (wk_doqueue w) = []"
    using ring_init [OF sz, of null_task] assms unfolding worker_init_def by auto
  obtain q where q: "QUEUE_INIT True null_task 4096 = (0, q)" "ring_ok q" "ring_list q = []"
    using ring_init [OF sz, of null_task] by blast
  obtain mem fd cl where cr: "msgqueue_create mem mem (Eventfd fd) 4096 = (Some (wk_queue w), cl)"
    using assms unfolding worker_init_def by blast
  then have "mem" by (cases mem) (auto simp: msgqueue_create_def)
  then have "\<exists>r p. wk_queue w = \<lparr>mq_queue = q, mq_popfd = r, mq_pushfd = p\<rparr>"
    using cr q(1) by (auto simp: msgqueue_create_def Let_def split: if_splits dest!: sym [of _ "wk_queue w"])
  then have "mq_queue (wk_queue w) = q" by auto
  then show ?thesis using assms d q unfolding worker_init_def worker_inv_def told_def by simp
qed

text \<open>The steps of the I/O thread itself.\<close>

lemma worker_inv_main:
  assumes inv: "worker_inv w" and st: "iothread_main ready w = Some w'"
  shows "worker_inv w'"
proof (cases "wk_pc w")
  case Test
  then have "w' = w\<lparr>wk_pc := if wk_runflags w \<noteq> 0 then Dispatch else Swap True\<rparr>"
    using st by (simp add: iothread_main_def)
  then show ?thesis
    using inv Test by (auto simp: worker_inv_def told_def split: if_splits)
next
  case Dispatch
  then have w': "w' = w\<lparr>wk_efd := if ready \<and> 0 < wk_efd w then iothread_on_command (wk_efd w) else wk_efd w,
      wk_pc := Swap False\<rparr>"
    using st by (simp add: iothread_main_def del: if_cancel split del: if_split)
  show ?thesis
    using inv Dispatch unfolding w' by (auto simp: worker_inv_def told_def)
next
  case (Swap final)
  then have w': "w' = w\<lparr>wk_queue := wk_queue w\<lparr>mq_queue := wk_doqueue w\<rparr>, wk_doqueue := mq_queue (wk_queue w), wk_pc := Run final\<rparr>"
    using st by (simp add: iothread_main_def msgqueue_swap_eq)
  have "length (wk_sent w) = length (wk_ran w @ ring_list (wk_doqueue w) @ mq_list (wk_queue w))"
    using inv by (simp add: worker_inv_def)
  then show ?thesis
    using inv Swap unfolding w' by (auto simp: worker_inv_def told_def)
next
  case (Run final)
  show ?thesis
  proof (cases "ring_list (wk_doqueue w)")
    case Nil
    then have c: "QUEUE_COUNT (wk_doqueue w) = 0"
      using inv Run by (simp add: worker_inv_def ring_count_zero_iff)
    then have w': "w' = (if final then w\<lparr>wk_doqueue := QUEUE_CLEAR (wk_doqueue w), wk_pc := Exited\<rparr> else w\<lparr>wk_pc := Test\<rparr>)"
      using st Run by (simp add: iothread_main_def split: if_splits)
    have "ring_list (QUEUE_CLEAR (wk_doqueue w)) = []" using ring_clear by blast
    then show ?thesis
      using inv Run Nil unfolding w' by (cases final) (simp_all add: worker_inv_def told_def)
  next
    case (Cons t ts)
    have ok: "ring_ok (wk_doqueue w)" using inv Run by (simp add: worker_inv_def)
    obtain q where q: "QUEUE_POP (wk_doqueue w) = Some (1, Some t, q)" "ring_ok q" "ring_list q = ts"
      using ring_pop [OF ok Cons] by blast
    have "0 < QUEUE_COUNT (wk_doqueue w)"
      using ring_count_zero_iff [OF ok] Cons by (simp add: word_gt_0)
    then have w': "w' = w\<lparr>wk_doqueue := q, wk_ran := wk_ran w @ [t]\<rparr>"
      using st Run q by (simp add: iothread_main_def)
    show ?thesis
      using inv Run Cons q unfolding w' by (cases final) (simp_all add: worker_inv_def told_def)
  qed
next
  case Exited
  then show ?thesis using inv st by (simp add: iothread_main_def)
qed

lemma worker_inv_push:
  assumes inv: "worker_inv w" and p: "wk_posters w p = Passed t"
    and small: "length (mq_list (wk_queue w)) < 2 ^ 31"
    and push: "msgqueue_push mem (wk_queue w) t = Some (rc, ws, queue)"
  shows "worker_inv (w\<lparr>wk_queue := queue, wk_posters := (wk_posters w)(p := if ws = [] then Idle else Notify),
      wk_sent := if rc = 0 then wk_sent w @ [t] else wk_sent w\<rparr>)" (is "worker_inv ?w'")
proof -
  have ok: "mq_ok (wk_queue w)" using inv by (simp add: worker_inv_def)
  have told: "told ?w'" if "told w \<or> ws \<noteq> []"
  proof (cases "ws = []")
    case True
    then show ?thesis using that p by (intro told_update [of w p ?w' Idle]) simp_all
  qed (auto simp: told_def)
  consider "rc = - 1" "ws = []" "queue = wk_queue w"
    | "rc = 0" "ws = (if mq_list (wk_queue w) = [] then [mq_pushfd (wk_queue w)] else [])" "mq_ok queue"
      "mq_list queue = mq_list (wk_queue w) @ [t]"
    using msgqueue_push_cases [OF ok small, of mem t] push by auto
  then show ?thesis
  proof cases
    case 1
    then have "told w \<Longrightarrow> told ?w'" using told by blast
    then show ?thesis using inv 1 by (simp add: worker_inv_def)
  next
    case 2
    have "told w \<or> ws \<noteq> []" using inv 2(2) by (cases "mq_list (wk_queue w)") (simp_all add: worker_inv_def)
    then have t': "told ?w'" by (rule told)
    have "worker_inv ?w' \<longleftrightarrow> wk_ran w @ ring_list (wk_doqueue w) @ mq_list (wk_queue w) @ [t] = wk_sent w @ [t]"
      using inv 2 t' by (auto simp: worker_inv_def)
    then show ?thesis using inv by (simp add: worker_inv_def flip: append_assoc)
  qed
qed

lemma worker_inv_step:
  assumes inv: "worker_inv w" and st: "worker_step w w'"
  shows "worker_inv w'"
  using st
proof (cases rule: worker_step.cases)
  case (main ready)
  then show ?thesis using worker_inv_main [OF inv] by blast
next
  case (push p t mem rc ws queue)
  then show ?thesis using worker_inv_push [OF inv] by blast
next
  case (test p ty utype d src sz t)
  have "told w \<Longrightarrow> told w'" by (rule told_update [of w p w' "Passed t"]) (use test in simp_all)
  then show ?thesis using inv unfolding test(1) by (simp add: worker_inv_def)
next
  case (notify p)
  have "told w'" by (simp add: notify told_def efd_write_def)
  then show ?thesis using inv unfolding notify(1) by (simp add: worker_inv_def)
next
  case (stop p t)
  have "told w \<Longrightarrow> told w'" by (rule told_update [of w p w' "Passed t"]) (use stop in simp_all)
  moreover have "wk_pc w \<notin> {Swap True, Run True, Exited}"
    using inv stop(3) by (auto simp: worker_inv_def)
  ultimately show ?thesis using inv stop(3) unfolding stop(1) by (auto simp: worker_inv_def)
qed

lemma worker_inv_reachable: "worker_reachable w \<Longrightarrow> worker_inv w"
proof (induction rule: worker_reachable.induct)
  case (init w)
  then show ?case by (rule worker_inv_init)
next
  case (step w w')
  then show ?case by (blast intro: worker_inv_step)
qed

section \<open>Properties\<close>

text \<open>
  C22: no task is lost, duplicated or reordered: in every interleaving the tasks the I/O thread has
  taken, then those in its private queue, then those in the shared queue, are the tasks whose post
  succeeded, in the order of the pushes.\<close>

theorem tasks_are_fifo:
  assumes "worker_reachable w"
  shows "wk_ran w @ ring_list (wk_doqueue w) @ mq_list (wk_queue w) = wk_sent w"
  using worker_inv_reachable [OF assms] by (simp add: worker_inv_def)

text \<open>
  C23: no wake-up is missed: when the I/O thread waits for events, nothing is readable on its
  descriptor and no poster is about to write to it, every task that was sent has been run.\<close>

theorem no_lost_wakeup:
  assumes "worker_reachable w" "wk_pc w = Dispatch" "wk_efd w = 0" "\<forall>p. wk_posters w p \<noteq> Notify"
  shows "wk_ran w = wk_sent w"
proof -
  have inv: "worker_inv w" by (rule worker_inv_reachable [OF assms(1)])
  have "\<not> told w" using assms by (simp add: told_def)
  then have "mq_list (wk_queue w) = []" "ring_list (wk_doqueue w) = []"
    using inv assms(2) by (simp_all add: worker_inv_def)
  moreover have "wk_sent w = wk_ran w @ ring_list (wk_doqueue w) @ mq_list (wk_queue w)"
    using inv by (simp add: worker_inv_def)
  ultimately show ?thesis by simp
qed

text \<open>
  C24: stopping drains: when the thread has left its loop for good, every task whose post had
  succeeded when the run flag was cleared has been run, in order; tasks pushed afterwards may not.\<close>

theorem stop_drains_the_queue:
  assumes "worker_reachable w" "wk_pc w = Exited"
  shows "\<exists>n. wk_mark w = Some n \<and> take n (wk_ran w) = take n (wk_sent w) \<and> n \<le> length (wk_ran w)"
proof -
  have inv: "worker_inv w" by (rule worker_inv_reachable [OF assms(1)])
  then obtain n where n: "wk_mark w = Some n" using assms(2) by (auto simp: worker_inv_def)
  have d: "ring_list (wk_doqueue w) = []" using inv assms(2) by (simp add: worker_inv_def)
  have "\<forall>m. wk_mark w = Some m \<longrightarrow> m \<le> length (wk_ran w @ ring_list (wk_doqueue w))"
    using inv assms(2) unfolding worker_inv_def by blast
  then have "n \<le> length (wk_ran w)" using n d by simp
  moreover have "wk_sent w = wk_ran w @ ring_list (wk_doqueue w) @ mq_list (wk_queue w)"
    using inv by (simp add: worker_inv_def)
  ultimately show ?thesis using n d by simp
qed

text \<open>A thread that keeps taking steps is never stuck: each of its steps is defined.\<close>

lemma worker_never_faults:
  assumes "worker_reachable w"
  shows "iothread_main ready w \<noteq> None"
proof -
  have inv: "worker_inv w" by (rule worker_inv_reachable [OF assms])
  show ?thesis
  proof (cases "wk_pc w")
    case (Run final)
    then have ok: "ring_ok (wk_doqueue w)" using inv by (simp add: worker_inv_def)
    show ?thesis
    proof (cases "ring_list (wk_doqueue w)")
      case Nil
      then show ?thesis using ring_count_zero_iff [OF ok] Run by (simp add: iothread_main_def)
    next
      case (Cons t ts)
      then show ?thesis using ring_pop [OF ok Cons] Run by (auto simp: iothread_main_def)
    qed
  qed (auto simp: iothread_main_def split: prod.splits)
qed

section \<open>Instances\<close>

text \<open>
  A run with one poster: a task is posted and announced while the thread tests the flag; the thread
  then waits, is woken, swaps and runs the task, waits again, and is finally stopped.
\<close>

definition demo_worker :: "unit worker" where
  "demo_worker = \<lparr>wk_queue = \<lparr>mq_queue = snd (QUEUE_INIT True null_task 4096), mq_popfd = 5, mq_pushfd = 5\<rparr>,
     wk_doqueue = snd (QUEUE_INIT True null_task 4096), wk_efd = 0, wk_runflags = 1, wk_pc = Test,
     wk_posters = (\<lambda>_. Idle), wk_sent = [], wk_ran = [], wk_mark = None\<rparr>"

lemma demo_worker_init: "worker_init demo_worker"
proof -
  obtain q where i: "QUEUE_INIT True null_task 4096 = (0, q)" by (simp add: QUEUE_INIT_def)
  then have "msgqueue_create True True (Eventfd 5) 4096 = (Some (wk_queue demo_worker), [])"
    by (simp add: msgqueue_create_def demo_worker_def i)
  then show ?thesis using i unfolding worker_init_def by (simp add: demo_worker_def) blast
qed

text \<open>The thread reaches the wait with nothing sent, and leaves when it is stopped before its first wait.\<close>

definition demo_waiting :: "unit worker" where "demo_waiting = demo_worker\<lparr>wk_pc := Dispatch\<rparr>"

lemma demo_waiting_reachable: "worker_reachable demo_waiting"
proof (rule worker_reachable.step [OF worker_reachable.init [OF demo_worker_init]])
  have "iothread_main False demo_worker = Some demo_waiting"
    by (simp add: iothread_main_def demo_waiting_def demo_worker_def)
  then show "worker_step demo_worker demo_waiting" by (rule worker_step.main)
qed

definition demo_stopped :: "unit worker" where
  "demo_stopped = demo_worker\<lparr>wk_runflags := 0, wk_mark := Some 0,
     wk_posters := (\<lambda>_. Passed \<lparr>tk_type = 0, tk_utype = 0, tk_union = Taskdata 0\<rparr>)\<rparr>"

lemma demo_stopped_reachable: "worker_reachable demo_stopped"
proof (rule worker_reachable.step [OF worker_reachable.init [OF demo_worker_init]])
  have "inter_task eTaskType_Null 0 0 [] 0 = Some \<lparr>tk_type = 0, tk_utype = 0, tk_union = Taskdata 0\<rparr>"
    by (simp add: inter_task_def eTaskType_Null_def)
  from worker_step.stop [OF _ _ this, of demo_worker "()"]
  show "worker_step demo_worker demo_stopped"
    by (simp add: demo_worker_def demo_stopped_def fun_upd_def)
qed

definition demo_exited :: "unit worker" where
  "demo_exited = demo_stopped\<lparr>wk_doqueue := QUEUE_CLEAR (snd (QUEUE_INIT True null_task 4096)), wk_pc := Exited\<rparr>"

lemma demo_exited_reachable: "worker_reachable demo_exited"
proof -
  have c: "QUEUE_COUNT (snd (QUEUE_INIT True null_task 4096)) = 0"
    by (simp add: QUEUE_INIT_def QUEUE_COUNT_def Let_def)
  have a: "iothread_main False demo_stopped = Some (demo_stopped\<lparr>wk_pc := Swap True\<rparr>)"
    "iothread_main False (demo_stopped\<lparr>wk_pc := Swap True\<rparr>) = Some (demo_stopped\<lparr>wk_pc := Run True\<rparr>)"
    "iothread_main False (demo_stopped\<lparr>wk_pc := Run True\<rparr>) = Some demo_exited"
    using c by (simp_all add: iothread_main_def demo_stopped_def demo_worker_def demo_exited_def msgqueue_swap_eq)
  show ?thesis
    by (rule worker_reachable.step [OF worker_reachable.step [OF worker_reachable.step
          [OF demo_stopped_reachable worker_step.main [OF a(1)]] worker_step.main [OF a(2)]] worker_step.main [OF a(3)]])
qed

theorem tasks_are_fifo_witness:
  "wk_ran demo_waiting @ ring_list (wk_doqueue demo_waiting) @ mq_list (wk_queue demo_waiting) = []"
  using tasks_are_fifo [OF demo_waiting_reachable] by (simp add: demo_waiting_def demo_worker_def)

theorem no_lost_wakeup_witness: "wk_ran demo_waiting = wk_sent demo_waiting"
  by (rule no_lost_wakeup [OF demo_waiting_reachable]) (simp_all add: demo_waiting_def demo_worker_def)

theorem stop_drains_the_queue_witness: "wk_mark demo_exited = Some 0 \<and> wk_pc demo_exited = Exited"
  using stop_drains_the_queue [OF demo_exited_reachable] by (simp add: demo_exited_def demo_stopped_def)

end
