(* ===== verification/ThreadGroup.thy ===== *)
theory ThreadGroup
  imports Threads
begin

text \<open>
  Life cycle of a group of I/O threads (\<^verbatim>\<open>src/threads.c\<close>): \<open>iothread_start\<close>, \<open>iothread_stop\<close>,
  \<open>iothreads_start\<close>, \<open>iothreads_stop\<close> and the accessors.  The block of thread records comes from
  \<^verbatim>\<open>aligned_alloc\<close>, so its fields are indeterminate until they are assigned; reading such a field is
  a fault.  What the constructors of the parts returned is an argument (\<open>outcome\<close>), and a result
  lists the parts that were released, in order.
\<close>

section \<open>State\<close>

datatype 'a field = Uninit | Null | Ptr 'a

definition of_opt :: "'a option \<Rightarrow> 'a field" where
  "of_opt r = (case r of None \<Rightarrow> Null | Some x \<Rightarrow> Ptr x)"

text \<open>
  The session manager, the event set and the command event are opaque here; acceptors, connectors
  and associaters are named by numbers.
\<close>

record ('m, 's, 'e) iothread =
  th_index :: "u8 option"
  th_id :: "u64 option"
  th_sets :: "'s field"
  th_context :: "u64 option"
  th_manager :: "'m field"
  th_cmdevent :: "'e field"
  th_queue :: "msgqueue field"
  th_acceptorlist :: "nat list option"
  th_connectorlist :: "nat list option"
  th_associaterlist :: "nat list option"

definition uninit_thread :: "('m, 's, 'e) iothread" where
  "uninit_thread = \<lparr>th_index = None, th_id = None, th_sets = Uninit, th_context = None, th_manager = Uninit,
     th_cmdevent = Uninit, th_queue = Uninit, th_acceptorlist = None, th_connectorlist = None,
     th_associaterlist = None\<rparr>"

datatype ('m, 's, 'e) release =
  Rel_queue msgqueue | Rel_event 'e | Rel_sets 's | Rel_acceptor nat | Rel_connector nat
  | Rel_associater nat | Rel_manager 'm

record ('m, 's, 'e) outcome =
  oc_manager :: "'m option"
  oc_sets :: "'s option"
  oc_event :: "'e option"
  oc_queue :: "msgqueue option"
  oc_thread :: "u64 option"

section \<open>One thread\<close>

text \<open>Releasing one part: nothing for a null pointer, a fault for an indeterminate one.\<close>

definition release_field :: "('a \<Rightarrow> 'r) \<Rightarrow> 'a field \<Rightarrow> 'r list option" where
  "release_field f x = (case x of Uninit \<Rightarrow> None | Null \<Rightarrow> Some [] | Ptr v \<Rightarrow> Some [f v])"

definition iothread_stop ::
  "('m, 's, 'e) iothread \<Rightarrow> (('m, 's, 'e) release list \<times> ('m, 's, 'e) iothread) option" where
  "iothread_stop self = do {
     r1 \<leftarrow> release_field Rel_queue (th_queue self);
     let self = self\<lparr>th_queue := Null\<rparr>;
     r2 \<leftarrow> release_field Rel_event (th_cmdevent self);
     let self = self\<lparr>th_cmdevent := Null\<rparr>;
     r3 \<leftarrow> release_field Rel_sets (th_sets self);
     let self = self\<lparr>th_sets := Null\<rparr>;
     as \<leftarrow> th_acceptorlist self;
     cs \<leftarrow> th_connectorlist self;
     bs \<leftarrow> th_associaterlist self;
     r4 \<leftarrow> release_field Rel_manager (th_manager self);
     let self = self\<lparr>th_manager := Null\<rparr>;
     Some (r1 @ r2 @ r3 @ map Rel_acceptor as @ map Rel_connector cs @ map Rel_associater bs @ r4, self)
   }"

text \<open>The result: the return code, what was released on the way, the thread record.\<close>

definition iothread_start ::
  "('m, 's, 'e) iothread \<Rightarrow> u8 \<Rightarrow> ('m, 's, 'e) outcome \<Rightarrow>
    (int \<times> ('m, 's, 'e) release list \<times> ('m, 's, 'e) iothread) option" where
  "iothread_start self index oc = do {
     let self = self\<lparr>th_index := Some index, th_manager := of_opt (oc_manager oc)\<rparr>;
     (r0, self) \<leftarrow> (if oc_manager oc = None then iothread_stop self else Some ([], self));
     let self = self\<lparr>th_sets := of_opt (oc_sets oc)\<rparr>;
     (if oc_sets oc = None then do {
        (r, self) \<leftarrow> iothread_stop self;
        Some (- 1, r0 @ r, self)
      }
      else do {
        let self = self\<lparr>th_acceptorlist := Some [], th_connectorlist := Some [], th_associaterlist := Some []\<rparr>;
        let self = self\<lparr>th_cmdevent := of_opt (oc_event oc), th_queue := of_opt (oc_queue oc)\<rparr>;
        (if oc_queue oc = None \<or> oc_event oc = None then do {
           (r, self) \<leftarrow> iothread_stop self;
           Some (- 2, r0 @ r, self)
         }
         else (case oc_thread oc of
             None \<Rightarrow> do {
               (r, self) \<leftarrow> iothread_stop self;
               Some (- 3, r0 @ r, self)
             }
           | Some tid \<Rightarrow> Some (0, r0, self\<lparr>th_id := Some tid\<rparr>)))
      })
   }"

section \<open>The group\<close>

record ('m, 's, 'e, 'p) iothreads =
  io_threads :: "('m, 's, 'e) iothread list"
  io_processor :: 'p
  io_nthreads :: u8
  io_runflags :: u8
  io_precision :: int
  io_nrunthreads :: u8

text \<open>The start loop does not look at the return codes.\<close>

fun start_loop :: "nat \<Rightarrow> ('m, 's, 'e) outcome list \<Rightarrow> ('m, 's, 'e) iothread list option" where
  "start_loop i [] = Some []"
| "start_loop i (oc # ocs) = do {
     (_, _, t) \<leftarrow> iothread_start uninit_thread (of_nat i) oc;
     ts \<leftarrow> start_loop (Suc i) ocs;
     Some (t # ts)
   }"

text \<open>\<open>ocs\<close> gives the outcome for each of the \<open>nthreads\<close> threads; the outer option is the fault.\<close>

definition iothreads_start ::
  "bool \<Rightarrow> bool \<Rightarrow> 'p \<Rightarrow> u8 \<Rightarrow> int \<Rightarrow> ('m, 's, 'e) outcome list \<Rightarrow> ('m, 's, 'e, 'p) iothreads option option" where
  "iothreads_start mem tmem base_processor nthreads precision ocs =
     (if \<not> mem \<or> \<not> tmem then Some None
      else do {
        ts \<leftarrow> start_loop 0 (take (unat nthreads) ocs);
        Some (Some \<lparr>io_threads = ts, io_processor = base_processor, io_nthreads = nthreads, io_runflags = 1,
          io_precision = precision, io_nrunthreads = nthreads\<rparr>)
      })"

definition iothreads_set_processor :: "('m, 's, 'e, 'p) iothreads \<Rightarrow> 'p \<Rightarrow> ('m, 's, 'e, 'p) iothreads" where
  "iothreads_set_processor self processor = self\<lparr>io_processor := processor\<rparr>"

definition iothreads_get :: "('m, 's, 'e, 'p) iothreads \<Rightarrow> u8 \<Rightarrow> ('m, 's, 'e) iothread option" where
  "iothreads_get self index = arr_get (io_threads self) (unat index)"

definition iothreads_get_acceptlist :: "('m, 's, 'e, 'p) iothreads \<Rightarrow> u8 \<Rightarrow> nat list option" where
  "iothreads_get_acceptlist self index = Option.bind (arr_get (io_threads self) (unat index)) th_acceptorlist"

definition iothreads_get_connectlist :: "('m, 's, 'e, 'p) iothreads \<Rightarrow> u8 \<Rightarrow> nat list option" where
  "iothreads_get_connectlist self index = Option.bind (arr_get (io_threads self) (unat index)) th_connectorlist"

definition iothreads_get_associatelist :: "('m, 's, 'e, 'p) iothreads \<Rightarrow> u8 \<Rightarrow> nat list option" where
  "iothreads_get_associatelist self index = Option.bind (arr_get (io_threads self) (unat index)) th_associaterlist"

definition iothreads_get_id :: "('m, 's, 'e, 'p) iothreads \<Rightarrow> u8 \<Rightarrow> u64 option" where
  "iothreads_get_id self index = Option.bind (arr_get (io_threads self) (unat index)) th_id"

definition iothreads_get_sets :: "('m, 's, 'e, 'p) iothreads \<Rightarrow> u8 \<Rightarrow> 's field option" where
  "iothreads_get_sets self index = map_option th_sets (arr_get (io_threads self) (unat index))"

definition iothreads_get_context :: "('m, 's, 'e, 'p) iothreads \<Rightarrow> u8 \<Rightarrow> u64 option" where
  "iothreads_get_context self index = Option.bind (arr_get (io_threads self) (unat index)) th_context"

definition iothreads_set_context ::
  "('m, 's, 'e, 'p) iothreads \<Rightarrow> u8 \<Rightarrow> u64 \<Rightarrow> ('m, 's, 'e, 'p) iothreads option" where
  "iothreads_set_context self index context = do {
     t \<leftarrow> arr_get (io_threads self) (unat index);
     Some (self\<lparr>io_threads := (io_threads self)[unat index := t\<lparr>th_context := Some context\<rparr>]\<rparr>)
   }"

text \<open>Posting the empty task to every thread; its return code is not looked at.\<close>

fun post_stop :: "bool \<Rightarrow> ('m, 's, 'e) iothread list \<Rightarrow> ('m, 's, 'e) iothread list option" where
  "post_stop mem [] = Some []"
| "post_stop mem (t # ts) = (case th_queue t of
      Ptr q \<Rightarrow> do {
        (_, _, q) \<leftarrow> iothread_post mem q eTaskType_Null 0 0 [] 0;
        ts \<leftarrow> post_stop mem ts;
        Some (t\<lparr>th_queue := Ptr q\<rparr> # ts)
      }
    | _ \<Rightarrow> None)"

fun stop_all :: "('m, 's, 'e) iothread list \<Rightarrow> ('m, 's, 'e) release list option" where
  "stop_all [] = Some []"
| "stop_all (t # ts) = do {
     (r, _) \<leftarrow> iothread_stop t;
     rs \<leftarrow> stop_all ts;
     Some (r @ rs)
   }"

text \<open>
  \<open>exited\<close> threads have decremented the counter of running threads when no more will.  The result
  \<open>Some None\<close> says that the call waits for ever, \<open>None\<close> is the fault.
\<close>

definition iothreads_stop ::
  "bool \<Rightarrow> u8 \<Rightarrow> ('m, 's, 'e, 'p) iothreads \<Rightarrow> ('m, 's, 'e) release list option option" where
  "iothreads_stop mem exited self = do {
     let self = self\<lparr>io_runflags := 0\<rparr>;
     ts \<leftarrow> post_stop mem (io_threads self);
     (if 0 < io_nrunthreads self - exited then Some None
      else map_option Some (stop_all ts))
   }"

section \<open>What starting a thread leaves behind\<close>

definition oc_parts :: "('m, 's, 'e) outcome \<Rightarrow> ('m, 's, 'e) release list" where
  "oc_parts oc = (case oc_queue oc of None \<Rightarrow> [] | Some q \<Rightarrow> [Rel_queue q]) @
     (case oc_event oc of None \<Rightarrow> [] | Some e \<Rightarrow> [Rel_event e]) @
     (case oc_sets oc of None \<Rightarrow> [] | Some s \<Rightarrow> [Rel_sets s]) @
     (case oc_manager oc of None \<Rightarrow> [] | Some m \<Rightarrow> [Rel_manager m])"

definition oc_good :: "('m, 's, 'e) outcome \<Rightarrow> bool" where
  "oc_good oc \<longleftrightarrow> oc_manager oc \<noteq> None \<and> oc_sets oc \<noteq> None \<and> oc_event oc \<noteq> None \<and>
     oc_queue oc \<noteq> None \<and> oc_thread oc \<noteq> None"

definition thread_started :: "('m, 's, 'e) outcome \<Rightarrow> ('m, 's, 'e) iothread \<Rightarrow> bool" where
  "thread_started oc t \<longleftrightarrow> oc_good oc \<and>
     th_queue t = of_opt (oc_queue oc) \<and> th_cmdevent t = of_opt (oc_event oc) \<and>
     th_sets t = of_opt (oc_sets oc) \<and> th_manager t = of_opt (oc_manager oc) \<and>
     th_acceptorlist t = Some [] \<and> th_connectorlist t = Some [] \<and> th_associaterlist t = Some [] \<and>
     th_id t = oc_thread oc"

lemma release_field_simps [simp]:
  "release_field f Uninit = None" "release_field f Null = Some []" "release_field f (Ptr v) = Some [f v]"
  by (simp_all add: release_field_def)

lemma of_opt_simps [simp]: "of_opt None = Null" "of_opt (Some x) = Ptr x"
  by (simp_all add: of_opt_def)

lemma iothread_start_good:
  assumes "oc_good oc"
  shows "\<exists>t. iothread_start uninit_thread index oc = Some (0, [], t) \<and> thread_started oc t"
  using assms by (auto simp: iothread_start_def uninit_thread_def oc_good_def thread_started_def)

lemma iothread_start_failed_queue:
  assumes "\<not> oc_good oc" "iothread_start uninit_thread index oc = Some (rc, r, t)"
  shows "th_queue t = Null"
  using assms
  by (cases "oc_manager oc"; cases "oc_sets oc"; cases "oc_event oc"; cases "oc_queue oc"; cases "oc_thread oc")
    (auto simp: iothread_start_def iothread_stop_def uninit_thread_def oc_good_def)

text \<open>
  A thread that cannot be started completely releases every part it had made, each once, and
  keeps none, provided that the session manager and the event set could be made; when one of these
  two cannot be made the start reads fields that were never assigned.\<close>

theorem iothread_start_releases:
  "(oc_manager oc = None \<or> oc_sets oc = None \<longrightarrow> iothread_start uninit_thread index oc = None) \<and>
   (oc_manager oc \<noteq> None \<and> oc_sets oc \<noteq> None \<longrightarrow>
     (if oc_good oc
      then \<exists>t. iothread_start uninit_thread index oc = Some (0, [], t) \<and> thread_started oc t
      else \<exists>rc t. iothread_start uninit_thread index oc = Some (rc, oc_parts oc, t) \<and> rc < 0 \<and>
        th_queue t = Null \<and> th_cmdevent t = Null \<and> th_sets t = Null \<and> th_manager t = Null))"
  by (cases "oc_manager oc"; cases "oc_sets oc"; cases "oc_event oc"; cases "oc_queue oc"; cases "oc_thread oc")
    (simp_all add: iothread_start_def iothread_stop_def uninit_thread_def oc_good_def oc_parts_def thread_started_def)

lemma thread_started_stop: "thread_started oc t \<Longrightarrow> \<exists>t'. iothread_stop t = Some (oc_parts oc, t')"
  by (auto simp: iothread_stop_def oc_parts_def thread_started_def oc_good_def)

lemma start_loop_good:
  assumes "list_all oc_good ocs"
  shows "\<exists>ts. start_loop i ocs = Some ts \<and> list_all2 thread_started ocs ts"
  using assms
proof (induction ocs arbitrary: i)
  case (Cons oc ocs)
  then obtain ts where "start_loop (Suc i) ocs = Some ts" "list_all2 thread_started ocs ts" by auto
  moreover have "\<exists>t. iothread_start uninit_thread (of_nat i) oc = Some (0, [], t) \<and> thread_started oc t"
    using iothread_start_good [of oc "of_nat i"] Cons.prems by simp
  ultimately show ?case by auto
qed simp

lemma start_loop_length: "start_loop i ocs = Some ts \<Longrightarrow> length ts = length ocs"
  by (induction ocs arbitrary: i ts) (auto split: bind_splits)

text \<open>Posting to a started thread succeeds or fails for lack of memory, but does not fault.\<close>

lemma post_stop_started:
  assumes "list_all2 thread_started ocs ts" "\<forall>oc \<in> set ocs. \<forall>q. oc_queue oc = Some q \<longrightarrow> mq_ok q \<and> mq_list q = []"
  shows "\<exists>ts' qs. post_stop mem ts = Some ts' \<and> length qs = length ts \<and>
    ts' = map2 (\<lambda>t q. t\<lparr>th_queue := Ptr q\<rparr>) ts qs"
  using assms
proof (induction ocs ts rule: list_all2_induct)
  case (Cons oc ocs t ts)
  then obtain ts' qs where ts': "post_stop mem ts = Some ts'" "length qs = length ts"
    "ts' = map2 (\<lambda>t q. t\<lparr>th_queue := Ptr q\<rparr>) ts qs" by auto
  obtain q where q: "oc_queue oc = Some q" "th_queue t = Ptr q"
    using Cons.hyps(1) by (auto simp: thread_started_def oc_good_def)
  then have "mq_ok q" "mq_list q = []" using Cons.prems by auto
  then have "\<exists>rc ws q'. iothread_post mem q eTaskType_Null 0 0 [] 0 = Some (rc, ws, q')"
    using msgqueue_push_cases [of q mem] by (fastforce simp: iothread_post_def inter_task_def)
  then obtain rc ws q' where "iothread_post mem q eTaskType_Null 0 0 [] 0 = Some (rc, ws, q')" by blast
  then show ?case using ts' q by (intro exI [of _ "t\<lparr>th_queue := Ptr q'\<rparr> # ts'"] exI [of _ "q' # qs"]) simp
qed simp

definition same_kind :: "('m, 's, 'e) release \<Rightarrow> ('m, 's, 'e) release \<Rightarrow> bool" where
  "same_kind a b \<longleftrightarrow> a = b \<or> (\<exists>p q. a = Rel_queue p \<and> b = Rel_queue q)"

lemma stop_all_started:
  assumes "list_all2 thread_started ocs ts" "length qs = length ts"
  shows "\<exists>rs. stop_all (map2 (\<lambda>t q. t\<lparr>th_queue := Ptr q\<rparr>) ts qs) = Some rs \<and>
    list_all2 same_kind (concat (map oc_parts ocs)) rs"
  using assms
proof (induction ocs ts arbitrary: qs rule: list_all2_induct)
  case (Cons oc ocs t ts)
  then obtain q qs' where qs: "qs = q # qs'" "length qs' = length ts" by (cases qs) auto
  obtain rs where rs: "stop_all (map2 (\<lambda>t q. t\<lparr>th_queue := Ptr q\<rparr>) ts qs') = Some rs"
    "list_all2 same_kind (concat (map oc_parts ocs)) rs"
    using Cons.IH [OF qs(2)] by blast
  have "\<exists>r t'. iothread_stop (t\<lparr>th_queue := Ptr q\<rparr>) = Some (r, t') \<and> list_all2 same_kind (oc_parts oc) r"
    using Cons.hyps(1) by (auto simp: iothread_stop_def oc_parts_def thread_started_def oc_good_def same_kind_def)
  then show ?case using rs qs(1) by (auto intro!: list_all2_appendI)
qed simp

lemma post_stop_null:
  assumes "t \<in> set ts" "th_queue t = Null"
  shows "post_stop mem ts = None"
  using assms
proof (induction ts)
  case (Cons u us)
  then show ?case by (cases "u = t") (auto split: field.split bind_splits)
qed simp

lemma start_loop_bad:
  assumes "start_loop i ocs = Some ts" "oc \<in> set ocs" "\<not> oc_good oc"
  shows "\<exists>t \<in> set ts. th_queue t = Null"
  using assms
proof (induction ocs arbitrary: i ts)
  case (Cons o' ocs)
  obtain rc r t ts' where st: "iothread_start uninit_thread (of_nat i) o' = Some (rc, r, t)"
    "start_loop (Suc i) ocs = Some ts'" "ts = t # ts'"
    using Cons.prems(1) by (auto split: bind_splits)
  show ?case
  proof (cases "o' = oc")
    case True
    then show ?thesis using iothread_start_failed_queue [OF Cons.prems(3)] st by auto
  next
    case False
    then show ?thesis using Cons.IH [OF st(2)] Cons.prems st(3) by auto
  qed
qed simp

text \<open>
  A group all of whose threads started is stopped once every thread has left its loop: the call
  returns and releases each part that was made exactly once; while a thread has not left, the call
  waits.\<close>

theorem iothreads_stop_releases:
  assumes "list_all oc_good ocs" "length ocs = unat nthreads"
    and "\<forall>oc \<in> set ocs. \<forall>q. oc_queue oc = Some q \<longrightarrow> mq_ok q \<and> mq_list q = []"
  shows "\<exists>g. iothreads_start True True proc nthreads precision ocs = Some (Some g) \<and>
    (\<exists>rs. iothreads_stop mem nthreads g = Some (Some rs) \<and>
       list_all2 same_kind (concat (map oc_parts ocs)) rs) \<and>
    (exited < nthreads \<longrightarrow> iothreads_stop mem exited g = Some None)"
proof -
  obtain ts where ts: "start_loop 0 ocs = Some ts" "list_all2 thread_started ocs ts"
    using start_loop_good [OF assms(1)] by blast
  obtain ts' qs where ts': "post_stop mem ts = Some ts'" "length qs = length ts"
    "ts' = map2 (\<lambda>t q. t\<lparr>th_queue := Ptr q\<rparr>) ts qs"
    using post_stop_started [OF ts(2) assms(3)] by blast
  obtain rs where "stop_all ts' = Some rs" "list_all2 same_kind (concat (map oc_parts ocs)) rs"
    using stop_all_started [OF ts(2) ts'(2)] ts'(3) by blast
  moreover have "exited < nthreads \<Longrightarrow> 0 < nthreads - exited" by (simp add: word_gt_0)
  ultimately show ?thesis
    using ts ts' assms(2) by (auto simp: iothreads_start_def iothreads_stop_def)
qed

text \<open>
  A group in which some thread did not start can be made, but not stopped: the start reports
  success, and the stop dereferences the missing queue of that thread.\<close>

theorem iothreads_stop_faults:
  assumes "\<forall>oc \<in> set ocs. oc_manager oc \<noteq> None \<and> oc_sets oc \<noteq> None" "length ocs = unat nthreads"
    and "\<exists>oc \<in> set ocs. \<not> oc_good oc"
  shows "\<exists>g. iothreads_start True True proc nthreads precision ocs = Some (Some g) \<and>
    iothreads_stop mem exited g = None"
proof -
  have "\<exists>ts. start_loop i ocs = Some ts" for i
    using assms(1)
  proof (induction ocs arbitrary: i)
    case (Cons oc ocs)
    have "\<exists>rc r t. iothread_start uninit_thread (of_nat i) oc = Some (rc, r, t)"
      using Cons.prems
      by (cases "oc_manager oc"; cases "oc_sets oc"; cases "oc_event oc"; cases "oc_queue oc"; cases "oc_thread oc")
        (simp_all add: iothread_start_def iothread_stop_def uninit_thread_def)
    moreover have "\<exists>ts. start_loop (Suc i) ocs = Some ts" using Cons by auto
    ultimately show ?case by fastforce
  qed simp
  then obtain ts where ts: "start_loop 0 ocs = Some ts" by blast
  then obtain t where "t \<in> set ts" "th_queue t = Null" using start_loop_bad assms(3) by blast
  then have "post_stop mem ts = None" by (rule post_stop_null)
  then show ?thesis using ts assms(2) by (auto simp: iothreads_start_def iothreads_stop_def)
qed

section \<open>Instances\<close>

definition demo_outcome :: "(nat, nat, nat) outcome" where
  "demo_outcome = \<lparr>oc_manager = Some 1, oc_sets = Some 2, oc_event = Some 3,
     oc_queue = Some \<lparr>mq_queue = demo_empty_ring, mq_popfd = 5, mq_pushfd = 5\<rparr>, oc_thread = Some 9\<rparr>"

theorem iothread_start_releases_witness:
  "iothread_start uninit_thread 0 (demo_outcome\<lparr>oc_sets := None\<rparr>) = None"
  using iothread_start_releases [of "demo_outcome\<lparr>oc_sets := None\<rparr>" 0] by simp

theorem iothreads_stop_releases_witness:
  "\<exists>g rs. iothreads_start True True () 2 8 [demo_outcome, demo_outcome] = Some (Some g) \<and>
    iothreads_stop True 2 g = Some (Some rs) \<and> iothreads_stop True 1 g = Some None"
  using iothreads_stop_releases [of "[demo_outcome, demo_outcome]" 2 "()" 8 True 1]
  by (auto simp: demo_outcome_def oc_good_def demo_empty_ring_ok)

theorem iothreads_stop_faults_witness:
  "\<exists>g. iothreads_start True True () 2 8 [demo_outcome, demo_outcome\<lparr>oc_thread := None\<rparr>] = Some (Some g) \<and>
    iothreads_stop True 1 g = None"
  by (rule iothreads_stop_faults) (auto simp: demo_outcome_def oc_good_def)

end
