(* ===== verification/Session.thy ===== *)
theory Session
  imports Message Buffer RingQueue EventCore
begin

text \<open>
  The session of \<^verbatim>\<open>src/session.c\<close>: its state, sending, the registration of its events, timed tasks,
  and its end.  The first-in first-out send queue holds the addresses of messages, which several
  sessions of a thread share.

  The world of a session is a record of explicit state: the session, the messages, the bytes its
  descriptor has taken so far, the results the next writes will have, the event registrations, and
  a log of the calls that leave the model (close, callbacks, frees).  The callbacks of the
  application and what lies behind the UDP driver are functions on this world, given by the
  environment; a dereference of a null or freed pointer is the fault \<open>None\<close>.
\<close>

section \<open>Constants\<close>

definition SESSION_READING :: u8 where "SESSION_READING = 0x01"
definition SESSION_WRITING :: u8 where "SESSION_WRITING = 0x02"
definition SESSION_KEEPALIVING :: u8 where "SESSION_KEEPALIVING = 0x04"
definition SESSION_SHUTDOWNING :: u8 where "SESSION_SHUTDOWNING = 0x08"
definition SESSION_EXITING :: u8 where "SESSION_EXITING = 0x10"

definition eSessionType_Accept :: u8 where "eSessionType_Accept = 1"
definition eSessionType_Connect :: u8 where "eSessionType_Connect = 2"
definition eSessionType_Associate :: u8 where "eSessionType_Associate = 3"
definition eSessionType_Shared :: u8 where "eSessionType_Shared = 4"

definition DEFAULT_SENDQUEUE_SIZE :: u32 where "DEFAULT_SENDQUEUE_SIZE = 128"
definition MAX_SECONDS_WAIT_FOR_SHUTDOWN :: int where "MAX_SECONDS_WAIT_FOR_SHUTDOWN = 10 * 1000"
definition TRY_RECONNECT_INTERVAL :: int where "TRY_RECONNECT_INTERVAL = 200"

section \<open>State\<close>

text \<open>The pair of functions a session sends with.\<close>

datatype transport = No_transport | Channel | Driver

record session_setting =
  persist_mode :: u16
  timeout_msecs :: int
  keepalive_msecs :: int
  max_inbuffer_len :: int
  sendqueue_limit :: int
  setting_transport :: transport

text \<open>A timed task is named by its address, and so is its event.\<close>

record schedule_task =
  st_addr :: nat
  st_type :: int
  st_task :: u64
  st_interval :: int
  st_event :: bool

text \<open>\<open>ss_reattach\<close> is 0 when no function was set.\<close>

record session =
  ss_id :: sid
  ss_fd :: int
  ss_type :: u8
  ss_status :: u8
  ss_host :: "string option"
  ss_port :: u16
  ss_driver :: "nat option"
  ss_privdata :: u64
  ss_reattach :: u64
  ss_inbuffer :: buffer
  ss_tasklist :: "schedule_task list"
  ss_msgoffset :: nat
  ss_sendqueue :: "nat ring"
  ss_setting :: session_setting

datatype session_event = EvRead | EvWrite | EvKeepalive | EvTask nat
datatype callback = On_read | On_write | On_keepalive | On_reconnect | Reconnected | On_schedule

record registration =
  rg_fd :: int
  rg_events :: u16
  rg_callback :: callback
  rg_tv :: int

datatype errno = EAGAIN | EWOULDBLOCK | EINTR | EBADF | EISDIR | EFAULT | EINVAL | EIO | Errno_other
datatype io_result = Wrote nat | Failed errno

datatype action =
    Act_close int
  | Act_driver_destroy nat
  | Act_recycle_task nat
  | Act_message_destroy nat
  | Act_shutdown int
  | Act_manager_remove sid
  | Act_session_end sid

record world =
  w_session :: session
  w_alive :: bool
  w_msgs :: "nat \<Rightarrow> message option"
  w_next :: nat
  w_out :: "byte list"
  w_io :: "io_result list"
  w_regs :: "session_event \<Rightarrow> registration option"
  w_refuse :: "session_event \<Rightarrow> bool"
  w_acts :: "action list"

definition on_session :: "(session \<Rightarrow> session) \<Rightarrow> world \<Rightarrow> world" where
  "on_session f w = w\<lparr>w_session := f (w_session w)\<rparr>"

definition log_act :: "action \<Rightarrow> world \<Rightarrow> world" where
  "log_act a w = w\<lparr>w_acts := w_acts w @ [a]\<rparr>"

definition status_set :: "u8 \<Rightarrow> world \<Rightarrow> world" where
  "status_set fl = on_session (\<lambda>s. s\<lparr>ss_status := ss_status s OR fl\<rparr>)"

definition status_clear :: "u8 \<Rightarrow> world \<Rightarrow> world" where
  "status_clear fl = on_session (\<lambda>s. s\<lparr>ss_status := ss_status s AND NOT fl\<rparr>)"

definition has_status :: "u8 \<Rightarrow> world \<Rightarrow> bool" where
  "has_status fl w \<longleftrightarrow> ss_status (w_session w) AND fl \<noteq> 0"

subsection \<open>The environment\<close>

text \<open>
  What the function \<open>transform\<close> returned: the same block (perhaps with another length), no block, or a
  new block.
\<close>

datatype transformed = Same nat | Gone | Fresh "byte list"

record service =
  sv_start :: "world \<Rightarrow> int \<times> world"
  sv_process :: "byte list \<Rightarrow> world \<Rightarrow> int \<times> world"
  sv_transform :: "(byte list \<Rightarrow> transformed) option"
  sv_keepalive :: "world \<Rightarrow> int \<times> world"
  sv_timeout :: "world \<Rightarrow> int \<times> world"
  sv_error :: "int \<Rightarrow> world \<Rightarrow> int \<times> world"
  sv_perform :: "int \<Rightarrow> u64 \<Rightarrow> int \<Rightarrow> world \<Rightarrow> int \<times> world"
  sv_shutdown :: "int \<Rightarrow> world \<Rightarrow> world"

text \<open>
  The answers of the allocator during a call, the services, the two functions of the UDP driver
  (\<^verbatim>\<open>src/driver.c\<close>), the results of connecting and of checking a connection, whether the
  network layer is running, and the events of a new session that \<open>epoll_ctl\<close> refuses to watch.
\<close>

record environment =
  en_mem_queue :: bool
  en_mem_message :: bool
  en_mem_buffer :: bool
  en_mem_sidlist :: bool
  en_mem_task :: bool
  en_mem_event :: bool
  en_fresh_sid :: "nat \<Rightarrow> sid"
  en_fresh_byte :: "nat \<Rightarrow> byte"
  en_service :: service
  en_driver_send :: "byte list \<Rightarrow> world \<Rightarrow> (int \<times> world) option"
  en_driver_transmit :: "world \<Rightarrow> (int \<times> world) option"
  en_tcp_connect :: int
  en_reattach :: "int \<Rightarrow> u64 \<Rightarrow> int"
  en_is_connected :: int
  en_running :: bool
  en_refuse :: "session_event \<Rightarrow> bool"

section \<open>Events\<close>

text \<open>
  \<open>event_set\<close>, \<open>event_set_callback\<close> and \<open>evsets_add\<close> in a row: the event is registered when it has a
  descriptor to wait on or a time-out.  An event that is registered already stays registered, and it
  keeps its time-out when it is added again without one.
\<close>

definition armed :: "int \<Rightarrow> u16 \<Rightarrow> int \<Rightarrow> bool" where
  "armed fd ev tv \<longleftrightarrow> 0 < fd \<and> ev AND (EV_READ OR EV_WRITE) \<noteq> 0 \<or> 0 \<le> tv"

definition registered :: "int \<Rightarrow> u16 \<Rightarrow> callback \<Rightarrow> int \<Rightarrow> registration option \<Rightarrow> registration option" where
  "registered fd ev cb tv old =
     (case old of
        Some r \<Rightarrow> Some \<lparr>rg_fd = fd, rg_events = ev, rg_callback = cb, rg_tv = (if 0 \<le> tv then tv else rg_tv r)\<rparr>
      | None \<Rightarrow> if armed fd ev tv then Some \<lparr>rg_fd = fd, rg_events = ev, rg_callback = cb, rg_tv = tv\<rparr> else None)"

text \<open>
  When \<open>epoll_ctl\<close> refuses, \<open>evsets_add\<close> leaves the descriptor unwatched and still starts the timer of the
  event, if it has one; nothing but its result says so, and no caller looks at it.  An event whose descriptor is watched
  already is not added again.
\<close>

definition unwatched :: "int \<Rightarrow> u16 \<Rightarrow> callback \<Rightarrow> int \<Rightarrow> registration option \<Rightarrow> registration option" where
  "unwatched fd ev cb tv old =
     (case old of
        Some r \<Rightarrow> if armed (rg_fd r) (rg_events r) (- 1) then registered fd ev cb tv old
          else registered (- 1) (ev AND NOT (EV_READ OR EV_WRITE)) cb tv old
      | None \<Rightarrow> registered (- 1) (ev AND NOT (EV_READ OR EV_WRITE)) cb tv None)"

definition register :: "session_event \<Rightarrow> int \<Rightarrow> u16 \<Rightarrow> callback \<Rightarrow> int \<Rightarrow> world \<Rightarrow> world" where
  "register e fd ev cb tv w = w\<lparr>w_regs := (w_regs w)(e :=
     (if w_refuse w e then unwatched else registered) fd ev cb tv (w_regs w e))\<rparr>"

definition evsets_remove :: "session_event \<Rightarrow> world \<Rightarrow> world" where
  "evsets_remove e w = w\<lparr>w_regs := (w_regs w)(e := None)\<rparr>"

definition session_add_read :: "u16 \<Rightarrow> world \<Rightarrow> world" where
  "session_add_read ev w =
     (let s = w_session w;
          (fd, event) = (if ss_type s \<noteq> eSessionType_Shared then (ss_fd s, ev OR persist_mode (ss_setting s)) else (- 1, 0))
      in status_set SESSION_READING (register EvRead fd event On_read (timeout_msecs (ss_setting s)) w))"

definition session_add_write :: "bool \<Rightarrow> u16 \<Rightarrow> world \<Rightarrow> world" where
  "session_add_write exiting ev w =
     status_set SESSION_WRITING (register EvWrite (ss_fd (w_session w)) ev On_write
       (if exiting then MAX_SECONDS_WAIT_FOR_SHUTDOWN else - 1) w)"

definition session_add_event :: "u16 \<Rightarrow> world \<Rightarrow> world" where
  "session_add_event ev w0 =
     (let exiting = has_status SESSION_EXITING w0; reading = has_status SESSION_READING w0;
          writing = has_status SESSION_WRITING w0;
          w = (if \<not> exiting \<and> ev AND EV_READ \<noteq> 0 \<and> \<not> reading then session_add_read ev w0 else w0)
      in if ev AND EV_WRITE \<noteq> 0 \<and> \<not> writing then session_add_write exiting ev w else w)"

definition session_del_event :: "u16 \<Rightarrow> world \<Rightarrow> world" where
  "session_del_event ev w0 =
     (let reading = has_status SESSION_READING w0; writing = has_status SESSION_WRITING w0;
          w = (if ev AND EV_READ \<noteq> 0 \<and> reading then status_clear SESSION_READING (evsets_remove EvRead w0) else w0)
      in if ev AND EV_WRITE \<noteq> 0 \<and> writing then status_clear SESSION_WRITING (evsets_remove EvWrite w) else w)"

definition session_readd_event :: "u16 \<Rightarrow> world \<Rightarrow> world" where
  "session_readd_event ev w =
     (let w = (if ev AND EV_READ \<noteq> 0 then status_clear SESSION_READING w else w);
          w = (if ev AND EV_WRITE \<noteq> 0 then status_clear SESSION_WRITING w else w)
      in session_add_event ev w)"

definition session_start_keepalive :: "world \<Rightarrow> int \<times> world" where
  "session_start_keepalive w =
     (0, if 0 \<le> keepalive_msecs (ss_setting (w_session w)) \<and> \<not> has_status SESSION_KEEPALIVING w
         then status_set SESSION_KEEPALIVING
                (register EvKeepalive (- 1) 0 On_keepalive (keepalive_msecs (ss_setting (w_session w))) w)
         else w)"

section \<open>Construction and destruction\<close>

definition init_settings :: session_setting where
  "init_settings = \<lparr>persist_mode = 0, timeout_msecs = - 1, keepalive_msecs = - 1, max_inbuffer_len = 0,
     sendqueue_limit = 0, setting_transport = No_transport\<rparr>"

text \<open>A failed allocation of a session is only asserted on; the result is for a successful one.\<close>

definition new_session :: "bool \<Rightarrow> session" where
  "new_session qmem = \<lparr>ss_id = 0, ss_fd = 0, ss_type = 0, ss_status = 0, ss_host = None, ss_port = 0,
     ss_driver = None, ss_privdata = 0, ss_reattach = 0, ss_inbuffer = buffer_init, ss_tasklist = [],
     ss_msgoffset = 0, ss_sendqueue = snd (QUEUE_INIT qmem 0 DEFAULT_SENDQUEUE_SIZE),
     ss_setting = init_settings\<rparr>"

text \<open>\<open>event_reset\<close> takes an event out of its set if it is still in.\<close>

definition reset_session :: "bool \<Rightarrow> world \<Rightarrow> world" where
  "reset_session mem w =
     (let w = on_session (\<lambda>s. s\<lparr>ss_id := 0, ss_status := 0, ss_msgoffset := 0, ss_setting := init_settings,
            ss_host := None\<rparr>) w;
          w = evsets_remove EvKeepalive (evsets_remove EvWrite (evsets_remove EvRead w))
      in on_session (\<lambda>s. s\<lparr>ss_inbuffer := snd (buffer_erase (ss_inbuffer s) (bf_length (ss_inbuffer s))),
            ss_sendqueue := snd (QUEUE_SHRINK mem (QUEUE_RESET (ss_sendqueue s)) DEFAULT_SENDQUEUE_SIZE)\<rparr>) w)"

definition del_session :: "world \<Rightarrow> world" where
  "del_session w =
     (on_session (\<lambda>s. s\<lparr>ss_id := 0, ss_status := 0, ss_msgoffset := 0, ss_host := None,
        ss_inbuffer := snd (buffer_clear (ss_inbuffer s)), ss_sendqueue := QUEUE_CLEAR (ss_sendqueue s)\<rparr>) w)\<lparr>w_alive := False\<rparr>"

text \<open>Every timed task is taken out of the event set and recycled.\<close>

fun stop_tasks :: "schedule_task list \<Rightarrow> world \<Rightarrow> world" where
  "stop_tasks [] w = w"
| "stop_tasks (t # ts) w =
     stop_tasks ts (log_act (Act_recycle_task (st_addr t))
       (if st_event t then evsets_remove (EvTask (st_addr t)) w else w))"

definition stop_event :: "u8 \<Rightarrow> session_event \<Rightarrow> world \<Rightarrow> world" where
  "stop_event fl e w = (if has_status fl w then status_clear fl (evsets_remove e w) else w)"

definition session_stop :: "world \<Rightarrow> world" where
  "session_stop w =
     (let w = on_session (\<lambda>s. s\<lparr>ss_tasklist := []\<rparr>) (stop_tasks (ss_tasklist (w_session w)) w);
          w = stop_event SESSION_READING EvRead w;
          w = stop_event SESSION_WRITING EvWrite w;
          w = stop_event SESSION_KEEPALIVING EvKeepalive w;
          w = on_session (\<lambda>s. s\<lparr>ss_inbuffer := snd (buffer_erase (ss_inbuffer s) (- 1))\<rparr>) w;
          w = (case ss_driver (w_session w) of None \<Rightarrow> w | Some d \<Rightarrow> log_act (Act_driver_destroy d) w);
          w = (if 0 < ss_fd (w_session w) \<and> ss_type (w_session w) \<noteq> eSessionType_Shared
               then log_act (Act_close (ss_fd (w_session w))) w else w)
      in on_session (\<lambda>s. s\<lparr>ss_fd := - 1, ss_driver := None\<rparr>) w)"

section \<open>Sending\<close>

text \<open>
  A write of \<open>bs\<close> takes the next result; a result never exceeds what was offered, an empty request
  writes nothing, and when no more results are given the descriptor is full.
\<close>

definition sys_write :: "byte list \<Rightarrow> world \<Rightarrow> int \<times> errno \<times> world" where
  "sys_write bs w =
     (if bs = [] then (0, Errno_other, w)
      else (case w_io w of
          [] \<Rightarrow> (- 1, EAGAIN, w)
        | Wrote n # io \<Rightarrow> (int (min n (length bs)), Errno_other,
            w\<lparr>w_io := io, w_out := w_out w @ take n bs\<rparr>)
        | Failed e # io \<Rightarrow> (- 1, e, w\<lparr>w_io := io\<rparr>)))"

definition channel_send :: "byte list \<Rightarrow> world \<Rightarrow> int \<times> world" where
  "channel_send buf w =
     (let (writen, err, w) = sys_write buf w
      in (if writen < 0 \<and> err \<in> {EINTR, EAGAIN, EWOULDBLOCK} then 0 else writen, w))"

definition call_send :: "environment \<Rightarrow> byte list \<Rightarrow> world \<Rightarrow> (int \<times> world) option" where
  "call_send E buf w = (case setting_transport (ss_setting (w_session w)) of
      No_transport \<Rightarrow> None
    | Channel \<Rightarrow> Some (channel_send buf w)
    | Driver \<Rightarrow> en_driver_send E buf w)"

definition sendqueue_count :: "world \<Rightarrow> u32" where
  "sendqueue_count w = QUEUE_COUNT (ss_sendqueue (w_session w))"

definition sendqueue_append :: "bool \<Rightarrow> nat \<Rightarrow> world \<Rightarrow> (int \<times> world) option" where
  "sendqueue_append mem a w = do {
     (rc, q) \<leftarrow> QUEUE_PUSH mem 0 (ss_sendqueue (w_session w)) a;
     Some (rc, on_session (\<lambda>s. s\<lparr>ss_sendqueue := q\<rparr>) w)
   }"

definition send_only :: "environment \<Rightarrow> byte list \<Rightarrow> world \<Rightarrow> (int \<times> world) option" where
  "send_only E buf w =
     (if has_status SESSION_EXITING w then Some (- 1, w)
      else if \<not> has_status SESSION_WRITING w \<and> sendqueue_count w = 0 then do {
        (ntry, w) \<leftarrow> call_send E buf w;
        Some (if ntry < 0 then 0 else ntry, w)
      }
      else Some (0, w))"

definition the_message :: "nat \<Rightarrow> world \<Rightarrow> message option" where
  "the_message a w = w_msgs w a"

definition message_bytes :: "message \<Rightarrow> byte list option" where
  "message_bytes m = (if message_get_length m = 0 then Some []
     else do {
       b \<leftarrow> message_get_buffer m;
       (if unat (message_get_length m) \<le> length b then Some (take (unat (message_get_length m)) b) else None)
     })"

definition send_message :: "environment \<Rightarrow> nat \<Rightarrow> world \<Rightarrow> (int \<times> world) option" where
  "send_message E a w = do {
     m \<leftarrow> the_message a w;
     buf \<leftarrow> message_bytes m;
     (ntry, w) \<leftarrow> send_only E buf w;
     (if 0 \<le> ntry \<and> ntry < int (length buf) then do {
        let w = on_session (\<lambda>s. s\<lparr>ss_msgoffset := ss_msgoffset s + nat ntry\<rparr>) w;
        (_, w) \<leftarrow> sendqueue_append (en_mem_queue E) a w;
        Some (ntry, session_add_event EV_WRITE w)
      }
      else Some (ntry, w))
   }"

text \<open>A new message lives at a fresh address.\<close>

definition store_message :: "nat \<Rightarrow> message \<Rightarrow> world \<Rightarrow> world" where
  "store_message a m w = w\<lparr>w_msgs := (w_msgs w)(a := Some m)\<rparr>"

definition send_buffer :: "environment \<Rightarrow> byte list \<Rightarrow> world \<Rightarrow> (int \<times> world) option" where
  "send_buffer E buf w = do {
     (ntry, w) \<leftarrow> send_only E buf w;
     (if 0 \<le> ntry \<and> ntry < int (length buf) then
        (case message_create (en_mem_message E) of
           None \<Rightarrow> Some (- 2, w)
         | Some m \<Rightarrow> do {
             let rest = drop (nat ntry) buf;
             (_, m) \<leftarrow> message_add_buffer (en_mem_buffer E) m rest (of_nat (length rest));
             (_, m) \<leftarrow> message_add_receiver (en_mem_sidlist E) (en_mem_sidlist E) (en_mem_sidlist E)
                        (en_fresh_sid E) m (ss_id (w_session w));
             let a = w_next w;
             let w = store_message a m (w\<lparr>w_next := Suc a\<rparr>);
             (_, w) \<leftarrow> sendqueue_append (en_mem_queue E) a w;
             Some (ntry, session_add_event EV_WRITE w)
           })
      else Some (ntry, w))
   }"

definition session_send :: "environment \<Rightarrow> byte list \<Rightarrow> world \<Rightarrow> (int \<times> world) option" where
  "session_send E buf w =
     (case sv_transform (en_service E) of
        None \<Rightarrow> send_buffer E buf w
      | Some f \<Rightarrow> (case f buf of
            Same n \<Rightarrow> if n \<le> length buf then send_buffer E (take n buf) w else None
          | Gone \<Rightarrow> Some (- 1, w)
          | Fresh bs \<Rightarrow> send_buffer E bs w))"

definition update_message :: "(message \<Rightarrow> message) \<Rightarrow> nat \<Rightarrow> world \<Rightarrow> world option" where
  "update_message f a w = do {
     m \<leftarrow> w_msgs w a;
     Some (store_message a (f m) w)
   }"

definition session_sendmessage :: "environment \<Rightarrow> nat \<Rightarrow> world \<Rightarrow> (int \<times> world) option" where
  "session_sendmessage E a w = do {
     m \<leftarrow> the_message a w;
     buf \<leftarrow> message_bytes m;
     let t = (case sv_transform (en_service E) of None \<Rightarrow> Same (length buf) | Some f \<Rightarrow> f buf);
     (rc, w) \<leftarrow> (case t of
         Same _ \<Rightarrow> do {
           (rc, w) \<leftarrow> sendqueue_append (en_mem_queue E) a w;
           Some (rc, if rc = 0 then session_add_event EV_WRITE w else w)
         }
       | Gone \<Rightarrow> Some (- 1, w)
       | Fresh bs \<Rightarrow> do {
           (rc, w) \<leftarrow> send_buffer E bs w;
           w \<leftarrow> (if 0 \<le> rc then update_message message_add_success a w else Some w);
           Some (rc, w)
         });
     w \<leftarrow> (if rc < 0 then update_message message_add_failure a w else Some w);
     Some (rc, w)
   }"

section \<open>Starting\<close>

definition session_start :: "environment \<Rightarrow> u8 \<Rightarrow> int \<Rightarrow> world \<Rightarrow> int \<times> world" where
  "session_start E type fd w =
     (let w = on_session (\<lambda>s. s\<lparr>ss_fd := fd, ss_type := type\<rparr>) w;
          w = on_session (\<lambda>s. s\<lparr>ss_setting := (ss_setting s)\<lparr>setting_transport :=
                 (if ss_driver s = None then Channel else Driver)\<rparr>\<rparr>) w;
          (_, w) = sv_start (en_service E) w;
          w = session_add_event EV_READ w;
          (_, w) = session_start_keepalive w
      in (0, w))"

definition session_is_reattch :: "session \<Rightarrow> bool" where
  "session_is_reattch s =
     (if ss_type s = eSessionType_Accept then False
      else if ss_type s = eSessionType_Shared then False
      else if ss_type s = eSessionType_Connect then True
      else ss_reattach s \<noteq> 0)"

definition session_set_driver :: "nat option \<Rightarrow> session \<Rightarrow> session" where
  "session_set_driver d s = s\<lparr>ss_driver := d\<rparr>"

definition session_set_endpoint :: "string option \<Rightarrow> u16 \<Rightarrow> session \<Rightarrow> session" where
  "session_set_endpoint host port s = s\<lparr>ss_port := port, ss_host := host\<rparr>"

definition session_copy_endpoint :: "bool \<Rightarrow> string \<Rightarrow> u16 \<Rightarrow> session \<Rightarrow> session" where
  "session_copy_endpoint mem host port s = s\<lparr>ss_port := port, ss_host := if mem then Some host else None\<rparr>"

definition session_set_reattach :: "u64 \<Rightarrow> u64 \<Rightarrow> session \<Rightarrow> session" where
  "session_set_reattach reattach d s = s\<lparr>ss_privdata := d, ss_reattach := reattach\<rparr>"

section \<open>Taking and merging the send queue\<close>

definition session_sendqueue_take :: "bool \<Rightarrow> world \<Rightarrow> nat ring \<times> world" where
  "session_sendqueue_take mem w =
     (let (_, q) = QUEUE_INIT mem 0 DEFAULT_SENDQUEUE_SIZE;
          (_, q, sq) = QUEUE_SWAP q (ss_sendqueue (w_session w))
      in (q, on_session (\<lambda>s. s\<lparr>ss_msgoffset := 0, ss_sendqueue := sq\<rparr>) w))"

function merge_loop :: "bool \<Rightarrow> nat ring \<Rightarrow> world \<Rightarrow> (nat ring \<times> world) option" where
  "merge_loop mem q w =
     (if 0 < QUEUE_COUNT q then
        (case QUEUE_POP q of
           Some (_, Some a, q') \<Rightarrow>
             (case sendqueue_append mem a w of Some (_, w') \<Rightarrow> merge_loop mem q' w' | None \<Rightarrow> None)
         | _ \<Rightarrow> None)
      else Some (q, w))"
  by pat_completeness auto

termination merge_loop
  by (relation "measure (\<lambda>(_, q, _). unat (QUEUE_COUNT q))") (auto dest: pop_decreases)

declare merge_loop.simps [simp del]

definition session_sendqueue_merge :: "bool \<Rightarrow> nat ring \<Rightarrow> world \<Rightarrow> world option" where
  "session_sendqueue_merge mem q w = map_option snd (merge_loop mem q w)"

section \<open>Timed tasks and reconnecting\<close>

definition session_cancel_task :: "nat \<Rightarrow> world \<Rightarrow> (int \<times> world) option" where
  "session_cancel_task a w =
     (case find (\<lambda>t. st_addr t = a) (ss_tasklist (w_session w)) of
        None \<Rightarrow> None
      | Some t \<Rightarrow>
          let w = on_session (\<lambda>s. s\<lparr>ss_tasklist := filter (\<lambda>t. st_addr t \<noteq> a) (ss_tasklist s)\<rparr>) w;
              w = (if st_event t then evsets_remove (EvTask a) w else w)
          in Some (0, log_act (Act_recycle_task a) w))"

text \<open>The task field is given the address of the task itself; the argument \<open>t\<close> is not used.\<close>

definition session_schedule_task :: "environment \<Rightarrow> int \<Rightarrow> u64 \<Rightarrow> int \<Rightarrow> world \<Rightarrow> int \<times> world" where
  "session_schedule_task E type t interval w =
     (if has_status SESSION_EXITING w then (- 1, w)
      else if \<not> en_mem_task E then (- 2, w)
      else let a = w_next w; w = w\<lparr>w_next := Suc a\<rparr>;
               task = \<lparr>st_addr = a, st_type = type, st_task = of_nat a, st_interval = interval, st_event = en_mem_event E\<rparr>
           in if \<not> en_mem_event E then (- 3, w)
              else (0, register (EvTask a) (- 1) 0 On_schedule interval
                       (on_session (\<lambda>s. s\<lparr>ss_tasklist := task # ss_tasklist s\<rparr>) w)))"

definition session_start_reconnect :: "world \<Rightarrow> int \<times> world" where
  "session_start_reconnect w =
     (if has_status SESSION_EXITING w then (- 1, w)
      else if has_status SESSION_WRITING w then (- 2, w)
      else let w = (if ss_type (w_session w) = eSessionType_Associate then on_session (\<lambda>s. s\<lparr>ss_fd := - 1\<rparr>) w else w);
               w = session_stop w;
               w = register EvWrite (- 1) 0 On_reconnect TRY_RECONNECT_INTERVAL w
           in (0, status_set SESSION_WRITING w))"

section \<open>The end of a session\<close>

text \<open>Every message still queued counts a failure; the last outcome destroys it.\<close>

definition message_done :: "nat \<Rightarrow> world \<Rightarrow> world option" where
  "message_done a w = do {
     m \<leftarrow> w_msgs w a;
     Some (if message_is_complete m
           then log_act (Act_message_destroy a) (w\<lparr>w_msgs := (w_msgs w)(a := None)\<rparr>) else w)
   }"

fun end_loop :: "nat \<Rightarrow> world \<Rightarrow> world option" where
  "end_loop 0 w = Some w"
| "end_loop (Suc n) w = do {
     (_, a, q) \<leftarrow> QUEUE_POP (ss_sendqueue (w_session w));
     a \<leftarrow> a;
     w \<leftarrow> update_message message_add_failure a (on_session (\<lambda>s. s\<lparr>ss_sendqueue := q\<rparr>) w);
     w \<leftarrow> message_done a w;
     end_loop n w
   }"

definition session_end :: "environment \<Rightarrow> sid \<Rightarrow> bool \<Rightarrow> world \<Rightarrow> (int \<times> world) option" where
  "session_end E sd recycle w = do {
     w \<leftarrow> end_loop (unat (sendqueue_count w)) w;
     let w = session_stop w;
     let w = (if recycle then reset_session (en_mem_queue E) w else del_session w);
     Some (0, log_act (Act_session_end sd) w)
   }"

text \<open>
  Shutting down now (\<open>channel_shutdown\<close> of \<^verbatim>\<open>src/channel.c\<close>): the application is told, the identifier
  is retired in the session manager, which clears it in the session, and the session ends.
\<close>

definition channel_shutdown :: "environment \<Rightarrow> world \<Rightarrow> (int \<times> world) option" where
  "channel_shutdown E w = do {
     let way = (if has_status SESSION_SHUTDOWNING w then 0 else 1);
     let w = log_act (Act_shutdown way) (sv_shutdown (en_service E) way w);
     let w = on_session (\<lambda>s. s\<lparr>ss_id := 0\<rparr>) (log_act (Act_manager_remove (ss_id (w_session w))) w);
     (_, w) \<leftarrow> session_end E (ss_id (w_session w)) False w;
     Some (0, w)
   }"

definition session_shutdown :: "environment \<Rightarrow> world \<Rightarrow> (int \<times> world) option" where
  "session_shutdown E w =
     (if \<not> has_status SESSION_EXITING w \<and> 0 < sendqueue_count w
      then let w = status_set SESSION_EXITING w;
               w = session_del_event EV_READ w;
               w = session_add_event EV_WRITE w
           in Some (1, w)
      else channel_shutdown E w)"

definition session_close :: "world \<Rightarrow> world" where
  "session_close = status_set SESSION_SHUTDOWNING"

end
