(* ===== verification/Channel.thy ===== *)
theory Channel
  imports Session
begin

text \<open>
  The channel of \<^verbatim>\<open>src/channel.c\<close>: writing the send queue to the descriptor, feeding received bytes to
  the application, errors, time-outs, and the handlers of a session's events.  A handler is reached
  through the registration of its event (\<open>fire\<close>); an event that is not persistent has left the
  event set by then, as shown for the event sets.
\<close>

section \<open>Transmitting the send queue\<close>

text \<open>The largest number of blocks of one \<^verbatim>\<open>writev\<close> on Linux.\<close>

definition iov_max :: nat where "iov_max = 1024"

text \<open>The blocks for one \<^verbatim>\<open>writev\<close>, from the messages at the given positions of the queue.\<close>

fun gather_loop ::
  "(nat \<Rightarrow> message option) \<Rightarrow> nat ring \<Rightarrow> nat list \<Rightarrow> nat \<Rightarrow> nat \<Rightarrow> byte list list option" where
  "gather_loop msgs q [] offset iov_size = Some []"
| "gather_loop msgs q (i # is) offset iov_size =
     (if \<not> iov_size < iov_max then Some []
      else do {
        (_, a) \<leftarrow> QUEUE_GET q (of_nat i);
        a \<leftarrow> a;
        m \<leftarrow> msgs a;
        (if unat (message_get_length m) \<le> offset
         then gather_loop msgs q is (offset - unat (message_get_length m)) iov_size
         else do {
           bs \<leftarrow> message_bytes m;
           rest \<leftarrow> gather_loop msgs q is 0 (Suc iov_size);
           Some (drop offset bs # rest)
         })
      })"

text \<open>
  Dropping the messages that are written completely.  The loop runs while the queue is not empty and
  pops one message in each turn, so it recurses on the number of queued messages.
\<close>

fun written_loop :: "nat \<Rightarrow> nat \<Rightarrow> world \<Rightarrow> (nat \<times> world) option" where
  "written_loop 0 offset w = Some (offset, w)"
| "written_loop (Suc n) offset w = do {
     (_, a) \<leftarrow> QUEUE_TOP (ss_sendqueue (w_session w));
     a \<leftarrow> a;
     m \<leftarrow> w_msgs w a;
     (if offset < unat (message_get_length m) then Some (offset, w)
      else do {
        (_, a, q) \<leftarrow> QUEUE_POP (ss_sendqueue (w_session w));
        a \<leftarrow> a;
        w \<leftarrow> update_message message_add_success a (on_session (\<lambda>s. s\<lparr>ss_sendqueue := q\<rparr>) w);
        w \<leftarrow> message_done a w;
        written_loop n (offset - unat (message_get_length m)) w
      })
   }"

text \<open>
  One turn of the outer loop takes one result of a write, so as many turns as there are results, and
  one more, are enough; \<open>None\<close> is a fault.
\<close>

fun transmit_loop :: "nat \<Rightarrow> int \<Rightarrow> world \<Rightarrow> (int \<times> world) option" where
  "transmit_loop 0 sent w = None"
| "transmit_loop (Suc fuel) sent w =
     (if 0 < sendqueue_count w then do {
        iov \<leftarrow> gather_loop (w_msgs w) (ss_sendqueue (w_session w)) [0..<unat (sendqueue_count w)]
                 (ss_msgoffset (w_session w)) 0;
        let (writen, err, w) = sys_write (concat iov) w;
        (if writen \<le> 0 then
           (if writen < 0 \<and> (err = EAGAIN \<or> err = EWOULDBLOCK) then Some (sent, w) else Some (writen, w))
         else do {
           (offset, w) \<leftarrow> written_loop (unat (sendqueue_count w)) (ss_msgoffset (w_session w) + nat writen) w;
           transmit_loop fuel (sent + writen) (on_session (\<lambda>s. s\<lparr>ss_msgoffset := offset\<rparr>) w)
         })
      }
      else Some (sent, w))"

definition channel_transmit :: "world \<Rightarrow> (int \<times> world) option" where
  "channel_transmit w = transmit_loop (Suc (length (w_io w))) 0 w"

definition call_transmit :: "environment \<Rightarrow> world \<Rightarrow> (int \<times> world) option" where
  "call_transmit E w = (case setting_transport (ss_setting (w_session w)) of
      No_transport \<Rightarrow> None
    | Channel \<Rightarrow> channel_transmit w
    | Driver \<Rightarrow> en_driver_transmit E w)"

section \<open>Receiving, time-outs and errors\<close>

definition eIOError_OutMemory :: int where "eIOError_OutMemory = 0x00010001"
definition eIOError_ConnectStatus :: int where "eIOError_ConnectStatus = 0x00010002"
definition eIOError_ReadFailure :: int where "eIOError_ReadFailure = 0x00010005"
definition eIOError_PeerShutdown :: int where "eIOError_PeerShutdown = 0x00010006"
definition eIOError_WriteFailure :: int where "eIOError_WriteFailure = 0x00010007"
definition eIOError_ConnectFailure :: int where "eIOError_ConnectFailure = 0x00010008"
definition eIOError_SocketInvalid :: int where "eIOError_SocketInvalid = 0x0001000A"
definition eIOError_InBufferInvalid :: int where "eIOError_InBufferInvalid = 0x0001000B"
definition eIOError_ReadIOError :: int where "eIOError_ReadIOError = 0x0001000C"
definition eIOError_ReadInvalid :: int where "eIOError_ReadInvalid = 0x0001000D"
definition eIOError_SendQueueLimit :: int where "eIOError_SendQueueLimit = 0x0001000E"

text \<open>\<open>readv\<close> gives the results of the system call, \<open>err\<close> its error number if it fails.\<close>

definition channel_receive :: "environment \<Rightarrow> (nat \<Rightarrow> int \<times> byte list) \<Rightarrow> world \<Rightarrow> (int \<times> world) option" where
  "channel_receive E readv w = do {
     (n, b) \<leftarrow> buffer_readv readv (en_mem_buffer E) (en_fresh_byte E) (ss_inbuffer (w_session w));
     Some (n, on_session (\<lambda>s. s\<lparr>ss_inbuffer := b\<rparr>) w)
   }"

definition channel_process :: "environment \<Rightarrow> world \<Rightarrow> int \<times> world" where
  "channel_process E w =
     (let b = ss_inbuffer (w_session w)
      in if 0 < bf_length b then
           let (nprocess, w) = sv_process (en_service E) (take (unat (bf_length b)) (buffer_data b)) w
           in (nprocess, if 0 < nprocess
                 then on_session (\<lambda>s. s\<lparr>ss_inbuffer := snd (buffer_erase (ss_inbuffer s) (of_int nprocess))\<rparr>) w else w)
         else (0, w))"

definition channel_udpprocess :: "environment \<Rightarrow> (world \<Rightarrow> world) \<Rightarrow> world \<Rightarrow> world option" where
  "channel_udpprocess E driver_input w =
     (let (nprocess, w) = channel_process E (driver_input w)
      in if nprocess < 0 then map_option snd (session_shutdown E w) else Some w)"

definition channel_timeout :: "environment \<Rightarrow> world \<Rightarrow> (int \<times> world) option" where
  "channel_timeout E w =
     (let (rc, w) = sv_timeout (en_service E) w
      in if rc \<noteq> 0 \<or> has_status SESSION_EXITING w then session_shutdown E w
         else if session_is_reattch (w_session w) then Some (0, snd (session_start_reconnect w))
         else Some (0, snd (session_start_keepalive (session_add_event EV_READ w))))"

definition channel_error :: "environment \<Rightarrow> int \<Rightarrow> world \<Rightarrow> (int \<times> world) option" where
  "channel_error E result w =
     (let isattach = session_is_reattch (w_session w);
          (rc, w) = sv_error (en_service E) result w
      in if \<not> isattach \<or> (isattach \<and> rc \<noteq> 0) \<or> has_status SESSION_EXITING w then channel_shutdown E w
         else Some (0, snd (session_start_reconnect w)))"

section \<open>Handlers\<close>

definition read_error :: "errno \<Rightarrow> int" where
  "read_error e = (case e of
      EBADF \<Rightarrow> eIOError_SocketInvalid
    | EISDIR \<Rightarrow> eIOError_SocketInvalid
    | EFAULT \<Rightarrow> eIOError_InBufferInvalid
    | EINVAL \<Rightarrow> eIOError_ReadInvalid
    | EIO \<Rightarrow> eIOError_ReadIOError
    | _ \<Rightarrow> eIOError_ReadFailure)"

definition persistent :: "world \<Rightarrow> bool" where
  "persistent w \<longleftrightarrow> persist_mode (ss_setting (w_session w)) \<noteq> 0"

definition channel_on_read ::
  "environment \<Rightarrow> (nat \<Rightarrow> int \<times> byte list) \<Rightarrow> errno \<Rightarrow> u16 \<Rightarrow> world \<Rightarrow> world option" where
  "channel_on_read E readv err ev w = do {
     let w = (if \<not> persistent w then status_clear SESSION_READING w else w);
     (if ev AND EV_READ \<noteq> 0 then do {
        (nread, w) \<leftarrow> channel_receive E readv w;
        let (nprocess, w) = (if en_running E then channel_process E w else (0, w));
        (if nprocess < 0 then
           map_option snd (session_shutdown E (if persistent w then session_del_event EV_READ w else w))
         else if 0 < nread \<or> (nread = - 1 \<and> err = EINTR) \<or> (nread = - 1 \<and> err = EAGAIN) \<or> (nread = - 1 \<and> err = EWOULDBLOCK)
         then Some (if \<not> persistent w then session_add_event EV_READ w else w)
         else
           let w = (if persistent w then session_del_event EV_READ w else w)
           in if nread = - 2 then map_option snd (channel_error E eIOError_OutMemory w)
              else if nread = - 1 then map_option snd (channel_error E (read_error err) w)
              else if nread = 0 then map_option snd (channel_error E eIOError_PeerShutdown w)
              else Some w)
      }
      else map_option snd (channel_timeout E (if persistent w then session_del_event EV_READ w else w)))
   }"

definition channel_on_write :: "environment \<Rightarrow> u16 \<Rightarrow> world \<Rightarrow> world option" where
  "channel_on_write E ev w0 =
     (let w = status_clear SESSION_WRITING w0
      in if ev AND EV_WRITE \<noteq> 0 then
           if 0 < sendqueue_count w then do {
             (writen, w) \<leftarrow> call_transmit E w;
             (if writen < 0 then map_option snd (channel_error E eIOError_WriteFailure w)
              else
                let queuesize = sendqueue_count w; limit = sendqueue_limit (ss_setting (w_session w))
                in if 0 < queuesize then
                     if limit \<le> 0 \<or> uint queuesize < limit then Some (session_add_event EV_WRITE w)
                     else map_option snd (channel_error E eIOError_SendQueueLimit w)
                   else if has_status SESSION_EXITING w then map_option snd (channel_shutdown E w)
                   else Some w)
           }
           else Some w
         else map_option snd (channel_shutdown E w))"

definition channel_on_keepalive :: "environment \<Rightarrow> world \<Rightarrow> world" where
  "channel_on_keepalive E w0 =
     (let (rc, w) = sv_keepalive (en_service E) (status_clear SESSION_KEEPALIVING w0)
      in if rc = 0 then snd (session_start_keepalive w) else w)"

definition channel_on_reconnect :: "environment \<Rightarrow> world \<Rightarrow> world option" where
  "channel_on_reconnect E w0 =
     (let w = status_clear SESSION_WRITING w0;
          s = w_session w;
          w = (if ss_type s = eSessionType_Connect then on_session (\<lambda>s. s\<lparr>ss_fd := en_tcp_connect E\<rparr>) w
               else if ss_type s = eSessionType_Associate
               then on_session (\<lambda>s. s\<lparr>ss_fd := en_reattach E (ss_fd s) (ss_privdata s)\<rparr>) w else w)
      in if ss_fd (w_session w) < 0 then map_option snd (channel_error E eIOError_ConnectFailure w)
         else Some (status_set SESSION_WRITING (register EvWrite (ss_fd (w_session w)) EV_WRITE Reconnected (- 1) w)))"

definition channel_reconnected :: "environment \<Rightarrow> u16 \<Rightarrow> world \<Rightarrow> world option" where
  "channel_reconnected E ev w0 =
     (let w = status_clear SESSION_WRITING w0
      in if ev AND EV_WRITE \<noteq> 0 then
           if en_is_connected E \<noteq> 0 then map_option snd (channel_error E eIOError_ConnectStatus w)
           else do {
             let (queue, w) = session_sendqueue_take (en_mem_queue E) w;
             let (_, w) = sv_start (en_service E) w;
             w \<leftarrow> session_sendqueue_merge (en_mem_queue E) queue w;
             Some (snd (session_start_keepalive (session_add_event EV_WRITE (session_add_event EV_READ w))))
           }
         else map_option snd (channel_timeout E w))"

definition channel_on_schedule :: "environment \<Rightarrow> nat \<Rightarrow> world \<Rightarrow> world option" where
  "channel_on_schedule E a w = do {
     t \<leftarrow> find (\<lambda>t. st_addr t = a) (ss_tasklist (w_session w));
     let (rc, w) = sv_perform (en_service E) (st_type t) (st_task t) (st_interval t) w;
     (_, w) \<leftarrow> session_cancel_task a w;
     (if rc < 0 then map_option snd (session_shutdown E (session_close w)) else Some w)
   }"

section \<open>Firing an event\<close>

text \<open>What the kernel and the event set report: the event, the results, and what a read would give.\<close>

record occurrence =
  oc_results :: u16
  oc_readv :: "nat \<Rightarrow> int \<times> byte list"
  oc_errno :: errno

definition fire :: "environment \<Rightarrow> session_event \<Rightarrow> occurrence \<Rightarrow> world \<Rightarrow> world option" where
  "fire E e oc w0 = do {
     r \<leftarrow> w_regs w0 e;
     let w = (if rg_events r AND EV_PERSIST \<noteq> 0 then w0 else evsets_remove e w0);
     (case rg_callback r of
        On_read \<Rightarrow> channel_on_read E (oc_readv oc) (oc_errno oc) (oc_results oc) w
      | On_write \<Rightarrow> channel_on_write E (oc_results oc) w
      | On_keepalive \<Rightarrow> Some (channel_on_keepalive E w)
      | On_reconnect \<Rightarrow> channel_on_reconnect E w
      | Reconnected \<Rightarrow> channel_reconnected E (oc_results oc) w
      | On_schedule \<Rightarrow> (case e of EvTask a \<Rightarrow> channel_on_schedule E a w | _ \<Rightarrow> None))
   }"

end
