(* ===== verification/SendPath.thy ===== *)
theory SendPath
  imports Channel
begin

text \<open>
  The byte stream of a session: what has been written to its descriptor, followed by what waits in
  the send queue, is what the application sent, in order, whatever the kernel accepts at a time.
\<close>

section \<open>Pending bytes\<close>

definition sendable :: "message \<Rightarrow> bool" where
  "sendable m \<longleftrightarrow> message_ok m \<and> msg_length m \<noteq> 0 \<and>
     (\<exists>b. msg_buffer m = Some b \<and> unat (msg_length m) \<le> length b)"

definition bytes_of :: "(nat \<Rightarrow> message option) \<Rightarrow> nat \<Rightarrow> byte list" where
  "bytes_of msgs a = (case msgs a of None \<Rightarrow> [] | Some m \<Rightarrow>
     (case msg_buffer m of None \<Rightarrow> [] | Some b \<Rightarrow> take (unat (msg_length m)) b))"

definition stream :: "(nat \<Rightarrow> message option) \<Rightarrow> nat list \<Rightarrow> byte list" where
  "stream msgs as = concat (map (bytes_of msgs) as)"

text \<open>Every queued message exists, has bytes to send, and owes at least as many outcomes as it is queued here.\<close>

definition msgs_ok :: "(nat \<Rightarrow> message option) \<Rightarrow> nat list \<Rightarrow> bool" where
  "msgs_ok msgs as \<longleftrightarrow> (\<forall>a \<in> set as. \<exists>m. msgs a = Some m \<and> sendable m \<and>
     outcomes m + count_list as a \<le> length (receivers m))"

definition queue_list :: "world \<Rightarrow> nat list" where
  "queue_list w = ring_list (ss_sendqueue (w_session w))"

definition pending :: "world \<Rightarrow> byte list" where
  "pending w = drop (ss_msgoffset (w_session w)) (stream (w_msgs w) (queue_list w))"

text \<open>The offset lies inside the first message.\<close>

definition offset_ok :: "(nat \<Rightarrow> message option) \<Rightarrow> nat list \<Rightarrow> nat \<Rightarrow> bool" where
  "offset_ok msgs as off \<longleftrightarrow> (case as of [] \<Rightarrow> off = 0 | a # _ \<Rightarrow> off < length (bytes_of msgs a))"

definition queue_ok :: "world \<Rightarrow> bool" where
  "queue_ok w \<longleftrightarrow> ring_ok (ss_sendqueue (w_session w)) \<and> msgs_ok (w_msgs w) (queue_list w) \<and>
     offset_ok (w_msgs w) (queue_list w) (ss_msgoffset (w_session w)) \<and>
     (\<forall>a \<in> set (queue_list w). a < w_next w)"

text \<open>Recording one outcome of a message, which destroys it if it was the last one.\<close>

definition settle :: "(message \<Rightarrow> message) \<Rightarrow> nat \<Rightarrow> (nat \<Rightarrow> message option) \<Rightarrow> nat \<Rightarrow> message option" where
  "settle f a msgs = (case msgs a of None \<Rightarrow> msgs | Some m \<Rightarrow>
     msgs(a := if message_is_complete (f m) then None else Some (f m)))"

lemma sendable_bytes:
  assumes "msgs a = Some m" "sendable m"
  shows "message_bytes m = Some (bytes_of msgs a)" "length (bytes_of msgs a) = unat (msg_length m)"
    "bytes_of msgs a \<noteq> []"
  using assms by (auto simp: sendable_def message_bytes_def bytes_of_def message_get_length_def message_get_buffer_def unat_eq_zero)

lemma stream_simps [simp]:
  "stream msgs [] = []" "stream msgs (a # as) = bytes_of msgs a @ stream msgs as"
  "stream msgs (as @ bs) = stream msgs as @ stream msgs bs"
  by (simp_all add: stream_def)

lemma stream_cong: "(\<And>a. a \<in> set as \<Longrightarrow> bytes_of msgs a = bytes_of msgs' a) \<Longrightarrow> stream msgs as = stream msgs' as"
  unfolding stream_def by (intro arg_cong [where f = concat] map_cong) auto

text \<open>An outcome changes neither the bytes of the message nor its receivers.\<close>

lemma outcome_frame [simp]:
  "msg_buffer (message_add_success m) = msg_buffer m" "msg_buffer (message_add_failure m) = msg_buffer m"
  "msg_length (message_add_success m) = msg_length m" "msg_length (message_add_failure m) = msg_length m"
  "receivers (message_add_success m) = receivers m" "receivers (message_add_failure m) = receivers m"
  "message_ok (message_add_success m) = message_ok m" "message_ok (message_add_failure m) = message_ok m"
  by (simp_all add: message_add_success_def message_add_failure_def receivers_def message_ok_def)

lemma outcome_counts:
  assumes "outcomes m < length (receivers m)" "message_ok m"
  shows "outcomes (message_add_success m) = Suc (outcomes m)" "outcomes (message_add_failure m) = Suc (outcomes m)"
proof -
  have "length (receivers m) < 2 ^ 32"
    using receivers_length [OF assms(2)] using unat_bound [where 'a = 32] by simp
  then have "unat (msg_nsuccess m + msg_nfailure m) + 1 < 2 ^ 32" using assms(1) by (simp add: outcomes_def)
  then have "unat (msg_nsuccess m + msg_nfailure m + 1) = Suc (unat (msg_nsuccess m + msg_nfailure m))"
    using unat_Suc_of_nat [of "msg_nsuccess m + msg_nfailure m" 1] by simp
  then show "outcomes (message_add_success m) = Suc (outcomes m)" "outcomes (message_add_failure m) = Suc (outcomes m)"
    by (simp_all add: outcomes_def message_add_success_def message_add_failure_def ac_simps)
qed

definition is_outcome :: "(message \<Rightarrow> message) \<Rightarrow> bool" where
  "is_outcome f \<longleftrightarrow> f = message_add_success \<or> f = message_add_failure"

lemma settle_ok:
  assumes ok: "msgs_ok msgs (a # as)" and f: "is_outcome f"
  shows "msgs_ok (settle f a msgs) as" "stream (settle f a msgs) as = stream msgs as"
    "\<And>b. b \<in> set as \<Longrightarrow> bytes_of (settle f a msgs) b = bytes_of msgs b"
proof -
  obtain m where m: "msgs a = Some m" "sendable m" "outcomes m + count_list (a # as) a \<le> length (receivers m)"
    using ok unfolding msgs_ok_def by auto
  have oc: "outcomes (f m) = Suc (outcomes m)" "sendable (f m)" "receivers (f m) = receivers m" "message_ok (f m)"
    using outcome_counts [of m] m f by (auto simp: sendable_def is_outcome_def)
  have live: "settle f a msgs a = Some (f m)" if "a \<in> set as"
  proof -
    have "1 \<le> count_list as a" using that by (metis count_list_0_iff less_one not_le)
    then have "outcomes (f m) \<noteq> length (receivers (f m))" using m(3) oc by simp
    then have "\<not> message_is_complete (f m)" using complete_iff [OF oc(4)] by simp
    then show ?thesis using m by (simp add: settle_def)
  qed
  have other: "settle f a msgs b = msgs b" if "b \<noteq> a" for b
    using that m by (simp add: settle_def)
  have bo: "msg_buffer (f m) = msg_buffer m" "msg_length (f m) = msg_length m" using f by (auto simp: is_outcome_def)
  show eq: "bytes_of (settle f a msgs) b = bytes_of msgs b" if "b \<in> set as" for b
    using that live other m bo by (cases "b = a"; cases "msg_buffer m") (auto simp: bytes_of_def)
  then show "stream (settle f a msgs) as = stream msgs as" by (rule stream_cong)
  show "msgs_ok (settle f a msgs) as"
    unfolding msgs_ok_def
  proof
    fix b assume b: "b \<in> set as"
    show "\<exists>m. settle f a msgs b = Some m \<and> sendable m \<and> outcomes m + count_list as b \<le> length (receivers m)"
    proof (cases "b = a")
      case True
      then show ?thesis using live b oc m by auto
    next
      case False
      then show ?thesis using ok b other unfolding msgs_ok_def by auto
    qed
  qed
qed

lemma msgs_ok_tl: "msgs_ok msgs (a # as) \<Longrightarrow> msgs_ok msgs as"
  unfolding msgs_ok_def by (force split: if_splits)

lemma stream_pos: "msgs_ok msgs as \<Longrightarrow> as \<noteq> [] \<Longrightarrow> stream msgs as \<noteq> []"
  by (cases as) (auto simp: msgs_ok_def dest: sendable_bytes(3))

section \<open>Gathering the blocks\<close>

lemma of_nat_index: "i < unat (n :: u32) \<Longrightarrow> unat (of_nat i :: u32) = i"
  using unat_bound [of n] by (simp add: unat_of_nat take_bit_nat_eq_self)

lemma gather_loop_prefix:
  assumes ok: "ring_ok q" "msgs_ok msgs (ring_list q)"
  shows "i \<le> length (ring_list q) \<Longrightarrow> off \<le> length (stream msgs (drop i (ring_list q))) \<Longrightarrow>
    \<exists>iov rest. gather_loop msgs q [i..<length (ring_list q)] off k = Some iov \<and>
      concat iov @ rest = drop off (stream msgs (drop i (ring_list q))) \<and>
      (k < iov_max \<and> off < length (stream msgs (drop i (ring_list q))) \<longrightarrow> concat iov \<noteq> [])"
proof (induction "length (ring_list q) - i" arbitrary: i off k)
  case 0
  then show ?case by simp
next
  case (Suc n)
  define as where "as = ring_list q"
  have i: "i < length as" using Suc.hyps(2) by (simp add: as_def)
  have n: "n = length (ring_list q) - Suc i" and i': "Suc i \<le> length (ring_list q)"
    using Suc.hyps(2) by simp_all
  have up: "[i..<length as] = i # [Suc i..<length as]" using i by (rule upt_conv_Cons)
  have dr: "drop i as = as ! i # drop (Suc i) as" using i by (simp add: Cons_nth_drop_Suc)
  obtain m where m: "msgs (as ! i) = Some m" "sendable m"
    using ok(2) i nth_mem [OF i] unfolding msgs_ok_def as_def by blast
  note mb = sendable_bytes [of msgs "as ! i", OF m]
  have len: "length as = unat (QUEUE_COUNT q)" using ring_list_length [OF ok(1)] by (simp add: as_def)
  have get: "QUEUE_GET q (of_nat i) = Some (0, Some (as ! i))"
    using ring_get [OF ok(1), of "of_nat i"] of_nat_index [of i "QUEUE_COUNT q"] i len by (simp add: as_def)
  show ?case
  proof (cases "k < iov_max")
    case False
    then show ?thesis using up by (simp add: as_def)
  next
    case k: True
    show ?thesis
    proof (cases "unat (msg_length m) \<le> off")
      case True
      define off' where "off' = off - unat (msg_length m)"
      have off': "off' \<le> length (stream msgs (drop (Suc i) (ring_list q)))"
        using Suc.prems(2) dr mb True by (simp add: as_def [symmetric] off'_def)
      obtain iov rest where r: "gather_loop msgs q [Suc i..<length as] off' k = Some iov"
        "concat iov @ rest = drop off' (stream msgs (drop (Suc i) as))"
        "k < iov_max \<and> off' < length (stream msgs (drop (Suc i) as)) \<longrightarrow> concat iov \<noteq> []"
        using Suc.hyps(1) [OF n i' off', of k] unfolding as_def by blast
      have "gather_loop msgs q [i..<length as] off k = Some iov"
        using k get m True r(1) by (simp add: up off'_def message_get_length_def)
      moreover have "drop off (stream msgs (drop i as)) = drop off' (stream msgs (drop (Suc i) as))"
        using dr mb True by (simp add: off'_def)
      moreover have "off < length (stream msgs (drop i as)) \<longleftrightarrow> off' < length (stream msgs (drop (Suc i) as))"
        using dr mb True by (auto simp: off'_def)
      ultimately show ?thesis using r k unfolding as_def by auto
    next
      case False
      obtain iov rest where r: "gather_loop msgs q [Suc i..<length as] 0 (Suc k) = Some iov"
        "concat iov @ rest = drop 0 (stream msgs (drop (Suc i) as))"
        using Suc.hyps(1) [OF n i', of 0 "Suc k"] unfolding as_def by blast
      have "gather_loop msgs q [i..<length as] off k = Some (drop off (bytes_of msgs (as ! i)) # iov)"
        using k get m False r(1) mb(1) by (simp add: up message_get_length_def)
      moreover have "drop off (stream msgs (drop i as)) = drop off (bytes_of msgs (as ! i)) @ stream msgs (drop (Suc i) as)"
        using dr mb False by simp
      moreover have "drop off (bytes_of msgs (as ! i)) \<noteq> []" using mb False by simp
      ultimately show ?thesis using r unfolding as_def
        by (intro exI [of _ "drop off (bytes_of msgs (ring_list q ! i)) # iov"] exI [of _ rest]) auto
    qed
  qed
qed

section \<open>Dropping what was written\<close>

lemma queue_list_on_session [simp]:
  "queue_list (w\<lparr>w_msgs := x\<rparr>) = queue_list w" "queue_list (log_act a w) = queue_list w"
  "queue_list (on_session (\<lambda>s. s\<lparr>ss_msgoffset := k\<rparr>) w) = queue_list w"
  "queue_list (on_session (\<lambda>s. s\<lparr>ss_sendqueue := q\<rparr>) w) = ring_list q"
  by (simp_all add: queue_list_def log_act_def on_session_def)

text \<open>One outcome, as the code records it.\<close>

lemma outcome_step:
  assumes "w_msgs w a = Some m"
  shows "\<exists>w'. Option.bind (update_message f a w) (message_done a) = Some w' \<and>
    w_msgs w' = settle f a (w_msgs w) \<and> w_session w' = w_session w \<and> w_out w' = w_out w \<and> w_io w' = w_io w \<and>
    w_regs w' = w_regs w \<and> w_refuse w' = w_refuse w \<and> w_next w' = w_next w \<and> w_alive w' = w_alive w"
  using assms by (auto simp: update_message_def message_done_def store_message_def settle_def log_act_def)

definition same_but_queue :: "world \<Rightarrow> world \<Rightarrow> bool" where
  "same_but_queue w w' \<longleftrightarrow>
     (\<exists>q k. w_session w' = (w_session w)\<lparr>ss_sendqueue := q, ss_msgoffset := k\<rparr>) \<and>
     w_regs w' = w_regs w \<and> w_next w' = w_next w \<and> w_alive w' = w_alive w \<and> w_refuse w' = w_refuse w"

lemma same_but_queueI:
  "w_session w' = (w_session w)\<lparr>ss_sendqueue := q, ss_msgoffset := k\<rparr> \<Longrightarrow> w_regs w' = w_regs w \<Longrightarrow>
   w_next w' = w_next w \<Longrightarrow> w_alive w' = w_alive w \<Longrightarrow> w_refuse w' = w_refuse w \<Longrightarrow> same_but_queue w w'"
  unfolding same_but_queue_def by blast

lemma same_but_queueD:
  assumes "same_but_queue w w'"
  shows "w_regs w' = w_regs w \<and> w_refuse w' = w_refuse w" "w_next w' = w_next w" "w_alive w' = w_alive w"
  using assms unfolding same_but_queue_def by blast+

lemma same_but_queue_refl [simp]: "same_but_queue w w"
  by (rule same_but_queueI [where q = "ss_sendqueue (w_session w)" and k = "ss_msgoffset (w_session w)"]) simp_all

lemma same_but_queue_trans:
  assumes "same_but_queue u v" "same_but_queue v w"
  shows "same_but_queue u w"
proof -
  obtain q k where v: "w_session v = (w_session u)\<lparr>ss_sendqueue := q, ss_msgoffset := k\<rparr>"
    using assms(1) unfolding same_but_queue_def by blast
  obtain q' k' where w: "w_session w = (w_session v)\<lparr>ss_sendqueue := q', ss_msgoffset := k'\<rparr>"
    using assms(2) unfolding same_but_queue_def by blast
  show ?thesis
  proof (rule same_but_queueI)
    show "w_session w = (w_session u)\<lparr>ss_sendqueue := q', ss_msgoffset := k'\<rparr>" by (simp add: v w)
  qed (use assms in \<open>simp_all add: same_but_queue_def\<close>)
qed


lemma written_loop_spec:
  assumes "length (queue_list w) = n" "ring_ok (ss_sendqueue (w_session w))"
    "msgs_ok (w_msgs w) (queue_list w)" "off \<le> length (stream (w_msgs w) (queue_list w))"
  shows "\<exists>off' w' ps. written_loop n off w = Some (off', w') \<and> ring_ok (ss_sendqueue (w_session w')) \<and>
    queue_list w = ps @ queue_list w' \<and> w_msgs w' = fold (settle message_add_success) ps (w_msgs w) \<and>
    msgs_ok (w_msgs w') (queue_list w') \<and> off = length (stream (w_msgs w) ps) + off' \<and>
    offset_ok (w_msgs w') (queue_list w') off' \<and>
    stream (w_msgs w') (queue_list w') = stream (w_msgs w) (queue_list w') \<and>
    same_but_queue w w' \<and> w_out w' = w_out w \<and> w_io w' = w_io w"
  using assms
proof (induction n arbitrary: off w)
  case 0
  then show ?case by (intro exI [of _ off] exI [of _ w] exI [of _ "[]"]) (simp add: offset_ok_def)
next
  case (Suc n)
  note prems = Suc.prems
  obtain a as where as: "queue_list w = a # as" using prems(1) by (cases "queue_list w") auto
  then have rl: "ring_list (ss_sendqueue (w_session w)) = a # as" by (simp add: queue_list_def)
  have top: "QUEUE_TOP (ss_sendqueue (w_session w)) = Some (0, Some a)" by (rule ring_top [OF prems(2) rl])
  obtain q where q: "QUEUE_POP (ss_sendqueue (w_session w)) = Some (1, Some a, q)" "ring_ok q" "ring_list q = as"
    using ring_pop [OF prems(2) rl] by blast
  obtain m where m: "w_msgs w a = Some m" "sendable m"
    using prems(3) as unfolding msgs_ok_def by auto
  note mb = sendable_bytes [of "w_msgs w" a, OF m]
  show ?case
  proof (cases "off < unat (msg_length m)")
    case True
    have "written_loop (Suc n) off w = Some (off, w)"
      using True top m by (simp add: message_get_length_def)
    then show ?thesis
      using True prems as mb
      by (intro exI [of _ off] exI [of _ w] exI [of _ "[]"]) (simp add: offset_ok_def)
  next
    case False
    define w0 where "w0 = on_session (\<lambda>s. s\<lparr>ss_sendqueue := q\<rparr>) w"
    have w0: "w_msgs w0 a = Some m" "queue_list w0 = as" "w_session w0 = (w_session w)\<lparr>ss_sendqueue := q\<rparr>"
      using m q(3) by (simp_all add: w0_def on_session_def queue_list_def)
    obtain w1 where w1: "Option.bind (update_message message_add_success a w0) (message_done a) = Some w1"
      "w_msgs w1 = settle message_add_success a (w_msgs w0)" "w_session w1 = w_session w0" "w_out w1 = w_out w0"
      "w_io w1 = w_io w0" "w_regs w1 = w_regs w0 \<and> w_refuse w1 = w_refuse w0" "w_next w1 = w_next w0" "w_alive w1 = w_alive w0"
      using outcome_step [OF w0(1), of message_add_success] by blast
    have ms: "w_msgs w1 = settle message_add_success a (w_msgs w)" using w1(2) by (simp add: w0_def on_session_def)
    have ql: "queue_list w1 = as" "ring_ok (ss_sendqueue (w_session w1))"
      using w1(3) w0 q by (simp_all add: queue_list_def)
    have sok: "msgs_ok (w_msgs w1) as" "stream (w_msgs w1) as = stream (w_msgs w) as"
      "\<And>b. b \<in> set as \<Longrightarrow> bytes_of (w_msgs w1) b = bytes_of (w_msgs w) b"
      using settle_ok [of "w_msgs w" a as message_add_success] prems(3) as ms by (auto simp: is_outcome_def)
    define off1 where "off1 = off - unat (msg_length m)"
    have off1: "off1 \<le> length (stream (w_msgs w1) as)" "off = length (bytes_of (w_msgs w) a) + off1"
      using prems(4) as mb sok False by (auto simp: off1_def)
    obtain off' w' ps where r: "written_loop n off1 w1 = Some (off', w')" "ring_ok (ss_sendqueue (w_session w'))"
      "queue_list w1 = ps @ queue_list w'" "w_msgs w' = fold (settle message_add_success) ps (w_msgs w1)"
      "msgs_ok (w_msgs w') (queue_list w')" "off1 = length (stream (w_msgs w1) ps) + off'"
      "offset_ok (w_msgs w') (queue_list w') off'"
      "stream (w_msgs w') (queue_list w') = stream (w_msgs w1) (queue_list w')"
      "same_but_queue w1 w'" "w_out w' = w_out w1" "w_io w' = w_io w1"
      using Suc.IH [of w1 off1] ql sok off1 prems(1) as by auto
    have "written_loop (Suc n) off w = written_loop n off1 w1"
    proof -
      obtain v where v: "update_message message_add_success a w0 = Some v" "message_done a v = Some w1"
        using w1(1) by (cases "update_message message_add_success a w0") auto
      show ?thesis
        using False top m q v by (simp add: message_get_length_def off1_def flip: w0_def)
    qed
    moreover have "queue_list w = (a # ps) @ queue_list w'" using r(3) as ql by simp
    moreover have "stream (w_msgs w1) ps = stream (w_msgs w) ps"
      "stream (w_msgs w1) (queue_list w') = stream (w_msgs w) (queue_list w')"
      using sok(3) r(3) ql by (auto intro!: stream_cong)
    moreover have "same_but_queue w w1"
      by (rule same_but_queueI [where q = q and k = "ss_msgoffset (w_session w)"])
        (use w1 w0 in \<open>simp_all add: w0_def on_session_def\<close>)
    ultimately show ?thesis
      using r off1 ms w1(4,5) same_but_queue_trans [of w w1 w']
      by (intro exI [of _ off'] exI [of _ w'] exI [of _ "a # ps"]) (simp add: w0_def on_session_def del: written_loop.simps)
  qed
qed

section \<open>The whole transmission\<close>

text \<open>What a run of the transmission does, with the messages \<open>ps\<close> written completely.\<close>

definition transmitted :: "world \<Rightarrow> byte list \<Rightarrow> nat list \<Rightarrow> world \<Rightarrow> bool" where
  "transmitted w bs ps w' \<longleftrightarrow>
     queue_ok w' \<and> same_but_queue w w' \<and> w_out w' = w_out w @ bs \<and> pending w = bs @ pending w' \<and>
     queue_list w = ps @ queue_list w' \<and> w_msgs w' = fold (settle message_add_success) ps (w_msgs w)"

lemma transmitted_refl: "queue_ok w \<Longrightarrow> transmitted w [] [] w"
  by (simp add: transmitted_def)

lemma io_frame [simp]:
  "queue_list (w\<lparr>w_io := io\<rparr>) = queue_list w" "queue_ok (w\<lparr>w_io := io\<rparr>) = queue_ok w"
  "pending (w\<lparr>w_io := io\<rparr>) = pending w" "same_but_queue w (v\<lparr>w_io := io\<rparr>) = same_but_queue w v"
  by (simp_all add: queue_ok_def same_but_queue_def pending_def queue_list_def)

lemma transmitted_io: "transmitted w bs ps w' \<Longrightarrow> transmitted w bs ps (w'\<lparr>w_io := io\<rparr>)"
  by (simp add: transmitted_def)

lemma transmitted_trans:
  assumes "transmitted u bs ps v" "transmitted v cs qs w"
  shows "transmitted u (bs @ cs) (ps @ qs) w"
  using assms same_but_queue_trans [of u v w] unfolding transmitted_def by simp

lemma count_pos_iff: "ring_ok (ss_sendqueue (w_session w)) \<Longrightarrow> 0 < sendqueue_count w \<longleftrightarrow> queue_list w \<noteq> []"
  using ring_count_zero_iff [of "ss_sendqueue (w_session w)"] by (simp add: sendqueue_count_def queue_list_def word_gt_0)

lemma queue_length: "ring_ok (ss_sendqueue (w_session w)) \<Longrightarrow> unat (sendqueue_count w) = length (queue_list w)"
  using ring_list_length [of "ss_sendqueue (w_session w)"] by (simp add: sendqueue_count_def queue_list_def)

text \<open>One write, with what follows it when it wrote something.\<close>

lemma transmit_turn:
  assumes ok: "queue_ok w" and ne: "queue_list w \<noteq> []"
  obtains iov where
    "gather_loop (w_msgs w) (ss_sendqueue (w_session w)) [0..<unat (sendqueue_count w)] (ss_msgoffset (w_session w)) 0 = Some iov"
    "concat iov \<noteq> []"
    "\<forall>n v. 0 < n \<and> n \<le> length (concat iov) \<and> v = w\<lparr>w_io := io, w_out := w_out w @ take n (concat iov)\<rparr> \<longrightarrow>
       (\<exists>off' v' ps. written_loop (unat (sendqueue_count v)) (ss_msgoffset (w_session v) + n) v = Some (off', v') \<and>
          transmitted w (take n (concat iov)) ps (on_session (\<lambda>s. s\<lparr>ss_msgoffset := off'\<rparr>) v') \<and> w_io v' = io)"
proof -
  note q = ok [unfolded queue_ok_def]
  define off where "off = ss_msgoffset (w_session w)"
  have off: "off < length (stream (w_msgs w) (queue_list w))"
    using q ne by (cases "queue_list w") (auto simp: offset_ok_def off_def)
  obtain iov rest where iov: "gather_loop (w_msgs w) (ss_sendqueue (w_session w)) [0..<length (queue_list w)] off 0 = Some iov"
    "concat iov @ rest = drop off (stream (w_msgs w) (queue_list w))" "concat iov \<noteq> []"
    using gather_loop_prefix [of "ss_sendqueue (w_session w)" "w_msgs w" 0 off 0] q off
    by (auto simp: queue_list_def iov_max_def)
  have len: "unat (sendqueue_count w) = length (queue_list w)" by (rule queue_length) (use q in blast)
  show ?thesis
  proof (rule that [of iov])
    show "gather_loop (w_msgs w) (ss_sendqueue (w_session w)) [0..<unat (sendqueue_count w)] (ss_msgoffset (w_session w)) 0 = Some iov"
      using iov(1) len by (simp add: off_def)
    show "concat iov \<noteq> []" by (rule iov(3))
    show "\<forall>n v. 0 < n \<and> n \<le> length (concat iov) \<and> v = w\<lparr>w_io := io, w_out := w_out w @ take n (concat iov)\<rparr> \<longrightarrow>
       (\<exists>off' v' ps. written_loop (unat (sendqueue_count v)) (ss_msgoffset (w_session v) + n) v = Some (off', v') \<and>
          transmitted w (take n (concat iov)) ps (on_session (\<lambda>s. s\<lparr>ss_msgoffset := off'\<rparr>) v') \<and> w_io v' = io)"
    proof (intro allI impI)
      fix n v
      assume n: "0 < n \<and> n \<le> length (concat iov) \<and> v = w\<lparr>w_io := io, w_out := w_out w @ take n (concat iov)\<rparr>"
      then have v: "queue_list v = queue_list w" "w_msgs v = w_msgs w" "w_session v = w_session w" "w_io v = io"
        "w_out v = w_out w @ take n (concat iov)" "sendqueue_count v = sendqueue_count w"
        by (simp_all add: queue_list_def sendqueue_count_def)
      have "off + length (concat iov) \<le> length (stream (w_msgs w) (queue_list w))"
        using arg_cong [OF iov(2), of length] off by simp
      then have le: "off + n \<le> length (stream (w_msgs v) (queue_list v))" using n v by simp
      obtain off' v' ps where r: "written_loop (length (queue_list v)) (off + n) v = Some (off', v')"
        "ring_ok (ss_sendqueue (w_session v'))" "queue_list v = ps @ queue_list v'"
        "w_msgs v' = fold (settle message_add_success) ps (w_msgs v)" "msgs_ok (w_msgs v') (queue_list v')"
        "off + n = length (stream (w_msgs v) ps) + off'" "offset_ok (w_msgs v') (queue_list v') off'"
        "stream (w_msgs v') (queue_list v') = stream (w_msgs v) (queue_list v')"
        "same_but_queue v v'" "w_out v' = w_out v" "w_io v' = w_io v"
        using written_loop_spec [OF refl _ _ le] q v by auto
      define w' where "w' = on_session (\<lambda>s. s\<lparr>ss_msgoffset := off'\<rparr>) v'"
      have w': "queue_list w' = queue_list v'" "w_msgs w' = w_msgs v'" "ss_msgoffset (w_session w') = off'"
        "ss_sendqueue (w_session w') = ss_sendqueue (w_session v')" "w_next w' = w_next v'" "w_out w' = w_out v'"
        by (simp_all add: w'_def queue_list_def on_session_def)
      have "w_next v' = w_next w" using same_but_queueD(2) [OF r(9)] n by simp
      moreover have "set (queue_list v') \<subseteq> set (queue_list w)" using r(3) by (simp flip: v(1))
      ultimately have "\<forall>a \<in> set (queue_list v'). a < w_next v'" using q by auto
      then have "queue_ok w'"
        using r(2,5,7) w' unfolding queue_ok_def by simp
      moreover have "same_but_queue w w'"
      proof -
        obtain q k where "w_session v' = (w_session v)\<lparr>ss_sendqueue := q, ss_msgoffset := k\<rparr>"
          using r(9) unfolding same_but_queue_def by blast
        then show ?thesis
          using r(9) n by (intro same_but_queueI [where q = q and k = off'])
            (simp_all add: w'_def on_session_def same_but_queue_def)
      qed
      moreover have "pending w = take n (concat iov) @ pending w'"
      proof -
        have "drop (off + n) (stream (w_msgs w) (queue_list w)) = drop off' (stream (w_msgs v') (queue_list v'))"
          using r(3,6,8) v by simp
        moreover have "take n (drop off (stream (w_msgs w) (queue_list w))) = take n (concat iov)"
          using n by (simp flip: iov(2))
        ultimately show ?thesis
          using append_take_drop_id [of n "drop off (stream (w_msgs w) (queue_list w))"] w'
          by (simp add: pending_def off_def [symmetric] add.commute)
      qed
      ultimately have "transmitted w (take n (concat iov)) ps w'"
        using r v w' by (simp add: transmitted_def)
      then show "\<exists>off' v' ps. written_loop (unat (sendqueue_count v)) (ss_msgoffset (w_session v) + n) v = Some (off', v') \<and>
          transmitted w (take n (concat iov)) ps (on_session (\<lambda>s. s\<lparr>ss_msgoffset := off'\<rparr>) v') \<and> w_io v' = io"
        using r v len by (intro exI [of _ off'] exI [of _ v'] exI [of _ ps]) (simp add: w'_def off_def)
    qed
  qed
qed

lemma transmit_loop_spec:
  assumes "queue_ok w" "length (w_io w) < fuel" "0 \<le> sent"
  shows "\<exists>rc w' bs ps. transmit_loop fuel sent w = Some (rc, w') \<and> transmitted w bs ps w' \<and>
    (rc = sent + int (length bs) \<or> rc \<le> 0) \<and>
    (0 < rc \<and> queue_list w' \<noteq> [] \<longrightarrow> w_io w' = [] \<or> (\<exists>e. e \<in> {EAGAIN, EWOULDBLOCK} \<and> Failed e \<in> set (w_io w)))"
  using assms
proof (induction fuel arbitrary: w sent)
  case 0
  then show ?case by simp
next
  case (Suc fuel)
  have rok: "ring_ok (ss_sendqueue (w_session w))" using Suc.prems(1) by (simp add: queue_ok_def)
  show ?case
  proof (cases "queue_list w = []")
    case True
    then show ?thesis
      using count_pos_iff [OF rok] transmitted_refl [OF Suc.prems(1)]
      by (intro exI [of _ sent] exI [of _ w] exI [of _ "[]"]) (simp add: Suc.prems)
  next
    case False
    then have pos: "0 < sendqueue_count w" using count_pos_iff [OF rok] by simp
    define io where "io = tl (w_io w)"
    obtain iov where iov: "gather_loop (w_msgs w) (ss_sendqueue (w_session w)) [0..<unat (sendqueue_count w)]
        (ss_msgoffset (w_session w)) 0 = Some iov" "concat iov \<noteq> []"
      "\<forall>n v. 0 < n \<and> n \<le> length (concat iov) \<and> v = w\<lparr>w_io := io, w_out := w_out w @ take n (concat iov)\<rparr> \<longrightarrow>
       (\<exists>off' v' ps. written_loop (unat (sendqueue_count v)) (ss_msgoffset (w_session v) + n) v = Some (off', v') \<and>
          transmitted w (take n (concat iov)) ps (on_session (\<lambda>s. s\<lparr>ss_msgoffset := off'\<rparr>) v') \<and> w_io v' = io)"
      by (rule transmit_turn [OF Suc.prems(1) False, of io])
    note t0 = transmitted_io [OF transmitted_refl [OF Suc.prems(1)]]
    show ?thesis
    proof (cases "w_io w")
      case Nil
      then have "sys_write (concat iov) w = (- 1, EAGAIN, w)"
        using iov(2) unfolding sys_write_def by (simp del: concat_eq_Nil_conv)
      then have "transmit_loop (Suc fuel) sent w = Some (sent, w)" using pos iov(1) by simp
      then show ?thesis
        using Nil transmitted_refl [OF Suc.prems(1)]
        by (intro exI [of _ sent] exI [of _ w] exI [of _ "[]"]) simp
    next
      case (Cons r rs)
      show ?thesis
      proof (cases r)
        case (Failed e)
        then have "sys_write (concat iov) w = (- 1, e, w\<lparr>w_io := rs\<rparr>)"
          using iov(2) Cons unfolding sys_write_def by (simp del: concat_eq_Nil_conv)
        then have "transmit_loop (Suc fuel) sent w =
            Some (if e = EAGAIN \<or> e = EWOULDBLOCK then sent else - 1, w\<lparr>w_io := rs\<rparr>)"
          using pos iov(1) by simp
        then show ?thesis
          using t0 [of rs] Cons Failed
          by (intro exI [of _ "if e = EAGAIN \<or> e = EWOULDBLOCK then sent else - 1"] exI [of _ "w\<lparr>w_io := rs\<rparr>"]
              exI [of _ "[]"]) auto
      next
        case (Wrote n0)
        define n where "n = min n0 (length (concat iov))"
        define v where "v = w\<lparr>w_io := rs, w_out := w_out w @ take n (concat iov)\<rparr>"
        have wr: "sys_write (concat iov) w = (int n, Errno_other, v)"
          using iov(2) Cons Wrote unfolding sys_write_def v_def n_def by (simp add: min_def del: concat_eq_Nil_conv)
        show ?thesis
        proof (cases "n = 0")
          case True
          then have "transmit_loop (Suc fuel) sent w = Some (0, v)"
            using pos iov(1) wr by simp
          then show ?thesis
            using t0 [of rs] True
            by (intro exI [of _ 0] exI [of _ v] exI [of _ "[]"]) (simp add: v_def)
        next
          case n: False
          have "0 < n \<and> n \<le> length (concat iov) \<and> v = w\<lparr>w_io := io, w_out := w_out w @ take n (concat iov)\<rparr>"
            using n Cons by (simp add: v_def n_def io_def)
          then obtain off' v' ps where t: "written_loop (unat (sendqueue_count v)) (ss_msgoffset (w_session v) + n) v = Some (off', v')"
            "transmitted w (take n (concat iov)) ps (on_session (\<lambda>s. s\<lparr>ss_msgoffset := off'\<rparr>) v')" "w_io v' = io"
            using iov(3) by blast
          define u where "u = on_session (\<lambda>s. s\<lparr>ss_msgoffset := off'\<rparr>) v'"
          have u: "queue_ok u" "w_io u = rs" "w_io u = io"
            using t Cons by (simp_all add: u_def transmitted_def on_session_def io_def)
          have ul: "length (w_io u) < fuel" and sn: "0 \<le> sent + int n" using u Cons Suc.prems(2,3) by simp_all
          obtain rc w' bs qs where r: "transmit_loop fuel (sent + int n) u = Some (rc, w')" "transmitted u bs qs w'"
            "rc = sent + int n + int (length bs) \<or> rc \<le> 0"
            "0 < rc \<and> queue_list w' \<noteq> [] \<longrightarrow> w_io w' = [] \<or> (\<exists>e. e \<in> {EAGAIN, EWOULDBLOCK} \<and> Failed e \<in> set (w_io u))"
            using Suc.IH [OF u(1) ul sn] by blast
          have "transmit_loop (Suc fuel) sent w = Some (rc, w')"
            using pos iov(1) wr n t(1) r(1) by (simp add: u_def)
          moreover have "transmitted w (take n (concat iov) @ bs) (ps @ qs) w'"
            by (rule transmitted_trans [OF t(2) [folded u_def] r(2)])
          moreover have "rc = sent + int (length (take n (concat iov) @ bs)) \<or> rc \<le> 0"
            using r(3) by (auto simp: n_def)
          moreover have "0 < rc \<and> queue_list w' \<noteq> [] \<longrightarrow>
              w_io w' = [] \<or> (\<exists>e. e \<in> {EAGAIN, EWOULDBLOCK} \<and> Failed e \<in> set (w_io w))"
            using r(4) u(2) Cons by auto
          ultimately show ?thesis by blast
        qed
      qed
    qed
  qed
qed

lemma transmit_runs:
  assumes "queue_ok w"
  shows "\<exists>rc w' bs ps. channel_transmit w = Some (rc, w') \<and> transmitted w bs ps w'"
  using transmit_loop_spec [OF assms lessI order_refl] unfolding channel_transmit_def by blast

end
