(* ===== verification/SessionFacts.thy ===== *)
theory SessionFacts
  imports SendPath
begin

text \<open>
  What each small step of a session leaves alone, and the algebra of the status flags; collected in
  \<open>frame_simps\<close> and \<open>status_simps\<close>.
\<close>

named_theorems frame_simps \<open>fields that a step of the session does not change\<close>
named_theorems status_simps \<open>status flags after a step of the session\<close>

section \<open>Flags\<close>

lemma and_or_disjoint: "fl AND fl' = 0 \<Longrightarrow> (s OR fl') AND fl = s AND fl" for s :: "'a::len word"
  by (rule bit_eqI) (auto simp: bit_simps dest: arg_cong [where f = "\<lambda>w. bit w _"])

lemma and_not_disjoint: "fl AND fl' = 0 \<Longrightarrow> (s AND NOT fl') AND fl = s AND fl" for s :: "'a::len word"
  by (rule bit_eqI) (auto simp: bit_simps dest: arg_cong [where f = "\<lambda>w. bit w _"])

lemma flags_disjoint [simp]:
  "SESSION_READING AND SESSION_WRITING = 0" "SESSION_READING AND SESSION_KEEPALIVING = 0"
  "SESSION_READING AND SESSION_EXITING = 0" "SESSION_READING AND SESSION_SHUTDOWNING = 0"
  "SESSION_WRITING AND SESSION_READING = 0" "SESSION_WRITING AND SESSION_KEEPALIVING = 0"
  "SESSION_WRITING AND SESSION_EXITING = 0" "SESSION_WRITING AND SESSION_SHUTDOWNING = 0"
  "SESSION_KEEPALIVING AND SESSION_READING = 0" "SESSION_KEEPALIVING AND SESSION_WRITING = 0"
  "SESSION_KEEPALIVING AND SESSION_EXITING = 0" "SESSION_KEEPALIVING AND SESSION_SHUTDOWNING = 0"
  "SESSION_EXITING AND SESSION_READING = 0" "SESSION_EXITING AND SESSION_WRITING = 0"
  "SESSION_EXITING AND SESSION_KEEPALIVING = 0" "SESSION_EXITING AND SESSION_SHUTDOWNING = 0"
  by (simp_all add: SESSION_READING_def SESSION_WRITING_def SESSION_KEEPALIVING_def SESSION_EXITING_def
      SESSION_SHUTDOWNING_def)

lemma flags_nonzero [simp]:
  "SESSION_READING \<noteq> 0" "SESSION_WRITING \<noteq> 0" "SESSION_KEEPALIVING \<noteq> 0" "SESSION_EXITING \<noteq> 0"
  "SESSION_SHUTDOWNING \<noteq> 0"
  by (simp_all add: SESSION_READING_def SESSION_WRITING_def SESSION_KEEPALIVING_def SESSION_EXITING_def
      SESSION_SHUTDOWNING_def)

lemma flags_distinct [simp]:
  "SESSION_READING \<noteq> SESSION_WRITING" "SESSION_READING \<noteq> SESSION_KEEPALIVING"
  "SESSION_WRITING \<noteq> SESSION_READING" "SESSION_WRITING \<noteq> SESSION_KEEPALIVING"
  "SESSION_KEEPALIVING \<noteq> SESSION_READING" "SESSION_KEEPALIVING \<noteq> SESSION_WRITING"
  by (simp_all add: SESSION_READING_def SESSION_WRITING_def SESSION_KEEPALIVING_def)

lemma has_status_set_same [status_simps]: "fl \<noteq> 0 \<Longrightarrow> has_status fl (status_set fl w)"
  by (simp add: has_status_def status_set_def on_session_def bit.conj_disj_distrib2)

lemma has_status_clear_same [status_simps]: "\<not> has_status fl (status_clear fl w)"
  by (simp add: has_status_def status_clear_def on_session_def and.assoc)

lemma has_status_set_other [status_simps]: "fl AND fl' = 0 \<Longrightarrow> has_status fl (status_set fl' w) = has_status fl w"
  by (simp add: has_status_def status_set_def on_session_def and_or_disjoint)

lemma has_status_clear_other [status_simps]: "fl AND fl' = 0 \<Longrightarrow> has_status fl (status_clear fl' w) = has_status fl w"
  by (simp add: has_status_def status_clear_def on_session_def and_not_disjoint)

lemma has_status_frame [status_simps]:
  "has_status fl (register e fd ev cb tv w) = has_status fl w"
  "has_status fl (evsets_remove e w) = has_status fl w"
  "has_status fl (log_act a w) = has_status fl w"
  "has_status fl (w\<lparr>w_msgs := ms\<rparr>) = has_status fl w"
  "has_status fl (w\<lparr>w_io := io\<rparr>) = has_status fl w"
  "has_status fl (w\<lparr>w_out := bs\<rparr>) = has_status fl w"
  "has_status fl (w\<lparr>w_next := n\<rparr>) = has_status fl w"
  "has_status fl (store_message b m w) = has_status fl w"
  "has_status fl (on_session (\<lambda>s. s\<lparr>ss_sendqueue := q\<rparr>) w) = has_status fl w"
  "has_status fl (on_session (\<lambda>s. s\<lparr>ss_msgoffset := k\<rparr>) w) = has_status fl w"
  by (simp_all add: has_status_def register_def evsets_remove_def log_act_def store_message_def on_session_def)

section \<open>Frames\<close>

lemma status_frame [frame_simps]:
  "w_msgs (status_set fl w) = w_msgs w" "w_msgs (status_clear fl w) = w_msgs w"
  "w_out (status_set fl w) = w_out w" "w_out (status_clear fl w) = w_out w"
  "w_io (status_set fl w) = w_io w" "w_io (status_clear fl w) = w_io w"
  "w_next (status_set fl w) = w_next w" "w_next (status_clear fl w) = w_next w"
  "w_alive (status_set fl w) = w_alive w" "w_alive (status_clear fl w) = w_alive w"
  "w_regs (status_set fl w) = w_regs w" "w_regs (status_clear fl w) = w_regs w"
  "w_acts (status_set fl w) = w_acts w" "w_acts (status_clear fl w) = w_acts w"
  "w_refuse (status_set fl w) = w_refuse w" "w_refuse (status_clear fl w) = w_refuse w"
  by (simp_all add: status_set_def status_clear_def on_session_def)

lemma reg_frame [frame_simps]:
  "w_msgs (register e fd ev cb tv w) = w_msgs w" "w_msgs (evsets_remove e w) = w_msgs w"
  "w_out (register e fd ev cb tv w) = w_out w" "w_out (evsets_remove e w) = w_out w"
  "w_io (register e fd ev cb tv w) = w_io w" "w_io (evsets_remove e w) = w_io w"
  "w_next (register e fd ev cb tv w) = w_next w" "w_next (evsets_remove e w) = w_next w"
  "w_alive (register e fd ev cb tv w) = w_alive w" "w_alive (evsets_remove e w) = w_alive w"
  "w_session (register e fd ev cb tv w) = w_session w" "w_session (evsets_remove e w) = w_session w"
  "w_acts (register e fd ev cb tv w) = w_acts w" "w_acts (evsets_remove e w) = w_acts w"
  "w_refuse (register e fd ev cb tv w) = w_refuse w" "w_refuse (evsets_remove e w) = w_refuse w"
  by (simp_all add: register_def evsets_remove_def)

text \<open>The part of a session that the events do not touch.\<close>

definition session_data :: "session \<Rightarrow> session" where
  "session_data s = s\<lparr>ss_status := 0\<rparr>"

lemma session_data_fields:
  assumes "session_data s = session_data s'"
  shows "ss_id s = ss_id s'" "ss_fd s = ss_fd s'" "ss_type s = ss_type s'" "ss_driver s = ss_driver s'"
    "ss_sendqueue s = ss_sendqueue s'" "ss_msgoffset s = ss_msgoffset s'" "ss_setting s = ss_setting s'"
    "ss_tasklist s = ss_tasklist s'" "ss_inbuffer s = ss_inbuffer s'" "ss_reattach s = ss_reattach s'"
  using assms by (auto simp: session_data_def dest: arg_cong [of _ _ ss_id] arg_cong [of _ _ ss_fd]
      arg_cong [of _ _ ss_type] arg_cong [of _ _ ss_driver] arg_cong [of _ _ ss_sendqueue]
      arg_cong [of _ _ ss_msgoffset] arg_cong [of _ _ ss_setting] arg_cong [of _ _ ss_tasklist]
      arg_cong [of _ _ ss_inbuffer] arg_cong [of _ _ ss_reattach])

lemma session_data_status [frame_simps]:
  "session_data (w_session (status_set fl w)) = session_data (w_session w)"
  "session_data (w_session (status_clear fl w)) = session_data (w_session w)"
  by (simp_all add: session_data_def status_set_def status_clear_def on_session_def)

text \<open>A step on the events only.\<close>

definition events_only :: "world \<Rightarrow> world \<Rightarrow> bool" where
  "events_only w w' \<longleftrightarrow> session_data (w_session w') = session_data (w_session w) \<and> w_msgs w' = w_msgs w \<and>
     w_out w' = w_out w \<and> w_io w' = w_io w \<and> w_next w' = w_next w \<and> w_alive w' = w_alive w \<and> w_acts w' = w_acts w \<and>
     w_refuse w' = w_refuse w"

lemma events_only_trans: "events_only u v \<Longrightarrow> events_only v w \<Longrightarrow> events_only u w"
  by (simp add: events_only_def)

lemma events_only_steps:
  "events_only w w" "events_only w (status_set fl w)" "events_only w (status_clear fl w)"
  "events_only w (register e fd ev cb tv w)" "events_only w (evsets_remove e w)"
  by (simp_all add: events_only_def frame_simps)

lemma events_only_status:
  "events_only w v \<Longrightarrow> events_only w (status_set fl v)" "events_only w v \<Longrightarrow> events_only w (status_clear fl v)"
  "events_only w v \<Longrightarrow> events_only w (register e fd ev cb tv v)" "events_only w v \<Longrightarrow> events_only w (evsets_remove e v)"
  by (simp_all add: events_only_def frame_simps)

lemma add_event_only: "events_only w (session_add_event ev w)"
  by (auto simp: session_add_event_def session_add_read_def session_add_write_def Let_def
      intro!: events_only_status events_only_steps)

lemma del_event_only: "events_only w (session_del_event ev w)"
  by (auto simp: session_del_event_def Let_def intro!: events_only_status events_only_steps)

lemma start_keepalive_only: "events_only w (snd (session_start_keepalive w))"
  by (auto simp: session_start_keepalive_def intro!: events_only_status events_only_steps)

lemma events_only_queue:
  assumes "events_only w w'"
  shows "queue_list w' = queue_list w" "pending w' = pending w" "queue_ok w' = queue_ok w"
    "sendqueue_count w' = sendqueue_count w"
  using session_data_fields [of "w_session w'" "w_session w"] assms
  by (simp_all add: events_only_def queue_list_def pending_def queue_ok_def sendqueue_count_def)

end
