(* ===== verification/SendStream.thy ===== *)
theory SendStream
  imports SessionFacts
begin

text \<open>
  The properties of the byte stream of a session: transmission keeps it, sending appends to it, and
  the end of a session accounts for what was left.
\<close>

section \<open>Transmission\<close>

text \<open>
  C6: transmitting writes to the descriptor, in order and without repetition, a prefix of the bytes
  that wait in the send queue, whatever the kernel accepts in each call; the messages written
  completely leave the queue with one success each, the rest stays queued at the right offset, and
  only a full descriptor stops a transmission that goes well.  It ends, and reads no freed message.\<close>

theorem channel_transmit_streams:
  assumes "queue_ok w"
  shows "\<exists>rc w' bs ps. channel_transmit w = Some (rc, w') \<and> queue_ok w' \<and>
    w_out w' = w_out w @ bs \<and> pending w = bs @ pending w' \<and>
    queue_list w = ps @ queue_list w' \<and> w_msgs w' = fold (settle message_add_success) ps (w_msgs w) \<and>
    same_but_queue w w' \<and> (0 < rc \<longrightarrow> rc = int (length bs)) \<and>
    (0 < rc \<and> queue_list w' \<noteq> [] \<longrightarrow> w_io w' = [] \<or> (\<exists>e. e \<in> {EAGAIN, EWOULDBLOCK} \<and> Failed e \<in> set (w_io w)))"
proof -
  obtain rc w' bs ps where r: "transmit_loop (Suc (length (w_io w))) 0 w = Some (rc, w')" "transmitted w bs ps w'"
    "rc = 0 + int (length bs) \<or> rc \<le> 0"
    "0 < rc \<and> queue_list w' \<noteq> [] \<longrightarrow> w_io w' = [] \<or> (\<exists>e. e \<in> {EAGAIN, EWOULDBLOCK} \<and> Failed e \<in> set (w_io w))"
    using transmit_loop_spec [OF assms lessI order_refl] by blast
  have "0 < rc \<longrightarrow> rc = int (length bs)" using r(3) by linarith
  then show ?thesis using r(1,2,4) unfolding channel_transmit_def transmitted_def by blast
qed

section \<open>Sending\<close>

definition memory_ok :: "environment \<Rightarrow> bool" where
  "memory_ok E \<longleftrightarrow> en_mem_queue E \<and> en_mem_message E \<and> en_mem_buffer E \<and> en_mem_sidlist E"

lemma queue_ok_ring: "queue_ok w \<Longrightarrow> ring_ok (ss_sendqueue (w_session w))"
  by (simp add: queue_ok_def)

lemma sendqueue_append_ok:
  assumes "ring_ok (ss_sendqueue (w_session w))" "length (queue_list w) < 2 ^ 31"
  shows "\<exists>q. sendqueue_append True a w = Some (0, on_session (\<lambda>s. s\<lparr>ss_sendqueue := q\<rparr>) w) \<and>
    ring_ok q \<and> ring_list q = queue_list w @ [a]"
  using ring_push [OF assms(1), of 0 a] assms(2) by (auto simp: sendqueue_append_def queue_list_def)

text \<open>Appending an existing message with an outcome to spare.\<close>

lemma append_stream:
  assumes ok: "queue_ok w" and m: "w_msgs w a = Some m" "sendable m" "a < w_next w"
    and spare: "outcomes m + Suc (count_list (queue_list w) a) \<le> length (receivers m)"
    and q: "ring_ok q" "ring_list q = queue_list w @ [a]"
    and w': "w' = on_session (\<lambda>s. s\<lparr>ss_sendqueue := q\<rparr>) w"
  shows "queue_ok w'" "pending w' = pending w @ bytes_of (w_msgs w) a"
proof -
  have ql: "queue_list w' = queue_list w @ [a]" by (simp add: w' q)
  have same: "w_msgs w' = w_msgs w" "w_next w' = w_next w" "ss_msgoffset (w_session w') = ss_msgoffset (w_session w)"
    "ss_sendqueue (w_session w') = q"
    by (simp_all add: w' on_session_def)
  note o = ok [unfolded queue_ok_def]
  have "offset_ok (w_msgs w) (queue_list w @ [a]) (ss_msgoffset (w_session w))"
    using o sendable_bytes(3) [of "w_msgs w" a, OF m(1,2)] by (cases "queue_list w") (simp_all add: offset_ok_def)
  moreover have "msgs_ok (w_msgs w) (queue_list w @ [a])"
    unfolding msgs_ok_def
  proof
    fix b assume b: "b \<in> set (queue_list w @ [a])"
    show "\<exists>m. w_msgs w b = Some m \<and> sendable m \<and> outcomes m + count_list (queue_list w @ [a]) b \<le> length (receivers m)"
    proof (cases "b = a")
      case True
      then show ?thesis using m spare by simp
    next
      case False
      then show ?thesis using o b unfolding msgs_ok_def by auto
    qed
  qed
  ultimately show "queue_ok w'" using o q m(3) ql same unfolding queue_ok_def by auto
  have "ss_msgoffset (w_session w) \<le> length (stream (w_msgs w) (queue_list w))"
    using o by (cases "queue_list w") (auto simp: offset_ok_def)
  then show "pending w' = pending w @ bytes_of (w_msgs w) a"
    by (simp add: pending_def ql same)
qed

lemma send_only_cases:
  assumes ok: "queue_ok w" and tr: "setting_transport (ss_setting (w_session w)) = Channel"
    and st: "\<not> has_status SESSION_EXITING w"
  shows "\<exists>n io. send_only E d w = Some (int n, w\<lparr>w_io := io, w_out := w_out w @ take n d\<rparr>) \<and> n \<le> length d \<and>
    (0 < n \<longrightarrow> queue_list w = [])"
proof (cases "\<not> has_status SESSION_WRITING w \<and> sendqueue_count w = 0")
  case False
  then have "send_only E d w = Some (0, w)" using st by (auto simp: send_only_def)
  then show ?thesis by (intro exI [of _ 0] exI [of _ "w_io w"]) simp
next
  case True
  then have "queue_list w = []" using count_pos_iff [OF queue_ok_ring [OF ok]] by simp
  moreover have "\<exists>n io. channel_send d w = (int n, w\<lparr>w_io := io, w_out := w_out w @ take n d\<rparr>) \<and> n \<le> length d \<or>
      channel_send d w = (- 1, w\<lparr>w_io := io\<rparr>)"
  proof (cases "d = []")
    case True
    then show ?thesis by (intro exI [of _ 0] exI [of _ "w_io w"]) (simp add: channel_send_def sys_write_def)
  next
    case d: False
    show ?thesis
    proof (cases "w_io w")
      case Nil
      then show ?thesis using d
        by (intro exI [of _ 0] exI [of _ "w_io w"]) (simp add: channel_send_def sys_write_def)
    next
      case (Cons r rs)
      show ?thesis
      proof (cases r)
        case (Wrote n)
        then show ?thesis using d Cons
          by (intro exI [of _ "min n (length d)"] exI [of _ rs]) (simp add: channel_send_def sys_write_def min_def)
      next
        case (Failed e)
        then show ?thesis using d Cons
          by (intro exI [of _ 0] exI [of _ rs]) (auto simp: channel_send_def sys_write_def)
      qed
    qed
  qed
  ultimately show ?thesis
    using True st tr by (auto simp: send_only_def call_send_def)
qed

lemma new_message_ok:
  assumes mem: "memory_ok E" and d: "d \<noteq> []" "length d < 2 ^ 64"
  shows "\<exists>m0 m1 m2. message_create (en_mem_message E) = Some m0 \<and>
    message_add_buffer (en_mem_buffer E) m0 d (of_nat (length d)) = Some (0, m1) \<and>
    message_add_receiver (en_mem_sidlist E) (en_mem_sidlist E) (en_mem_sidlist E) (en_fresh_sid E) m1 sd = Some (0, m2) \<and>
    sendable m2 \<and> receivers m2 = [sd] \<and> outcomes m2 = 0 \<and> msg_buffer m2 = Some d \<and> unat (msg_length m2) = length d"
proof -
  define m0 where "m0 = \<lparr>msg_nsuccess = 0, msg_nfailure = 0, msg_buffer = None, msg_length = 0, msg_tolist = None\<rparr>"
  define m1 where "m1 = m0\<lparr>msg_length := of_nat (length d), msg_buffer := Some d\<rparr>"
  have ln: "unat (of_nat (length d) :: u64) = length d" using d(2) by (simp add: unat_of_nat take_bit_nat_eq_self)
  have c: "message_create (en_mem_message E) = Some m0" using mem by (simp add: message_create_def m0_def memory_ok_def)
  have b: "message_add_buffer (en_mem_buffer E) m0 d (of_nat (length d)) = Some (0, m1)"
    using mem ln by (simp add: message_add_buffer_def m1_def memory_ok_def)
  have "message_ok m1" "receivers m1 = []" "outcomes m1 = 0"
    by (simp_all add: message_ok_def receivers_def outcomes_def m1_def m0_def)
  then obtain m2 where r: "message_add_receiver True True True (en_fresh_sid E) m1 sd = Some (0, m2)" "message_ok m2"
    "receivers m2 = [sd]" "outcomes m2 = 0"
    using add_receiver_ok [of m1 "en_fresh_sid E" sd] by auto
  have keep: "msg_buffer m2 = msg_buffer m1" "msg_length m2 = msg_length m1"
    using r(1) by (auto simp: message_add_receiver_def Let_def split: option.splits bind_splits prod.splits)
  have "(of_nat (length d) :: u64) \<noteq> 0" using d ln by auto
  then have "sendable m2" using r(2) keep ln by (simp add: sendable_def m1_def)
  then show ?thesis using c b r mem keep ln by (simp add: memory_ok_def m1_def)
qed

text \<open>A new message for this session alone, at the end of its queue.\<close>

definition new_message_queued :: "world \<Rightarrow> world \<Rightarrow> bool" where
  "new_message_queued w v \<longleftrightarrow> (\<exists>m. sendable m \<and> receivers m = [ss_id (w_session w)] \<and> outcomes m = 0 \<and>
     w_msgs v = (w_msgs w)(w_next w \<mapsto> m) \<and> w_next v = Suc (w_next w) \<and> queue_list v = queue_list w @ [w_next w])"

text \<open>Sending a block: what the kernel takes at once, and a message with the rest.\<close>

lemma send_buffer_stream:
  assumes ok: "queue_ok w" and tr: "setting_transport (ss_setting (w_session w)) = Channel"
    and st: "\<not> has_status SESSION_EXITING w" and mem: "memory_ok E"
    and small: "length (queue_list w) < 2 ^ 31" "length d < 2 ^ 64"
  shows "\<exists>n w'. send_buffer E d w = Some (int n, w') \<and> n \<le> length d \<and> queue_ok w' \<and>
    w_out w' @ pending w' = w_out w @ pending w @ d \<and> w_alive w' = w_alive w \<and>
    (n < length d \<longrightarrow> has_status SESSION_WRITING w') \<and>
    (\<exists>v q. queue_ok v \<and> w_regs v = w_regs w \<and> w_refuse v = w_refuse w \<and> w_alive v = w_alive w \<and> w_session v = (w_session w)\<lparr>ss_sendqueue := q\<rparr> \<and>
       w_acts v = w_acts w \<and> (w' = session_add_event EV_WRITE v \<and> new_message_queued w v \<or>
         w' = v \<and> queue_list v = queue_list w \<and> w_msgs v = w_msgs w \<and> w_next v = w_next w))"
proof -
  obtain n io where so: "send_only E d w = Some (int n, w\<lparr>w_io := io, w_out := w_out w @ take n d\<rparr>)" "n \<le> length d"
    "0 < n \<longrightarrow> queue_list w = []"
    using send_only_cases [OF ok tr st] by blast
  define w1 where "w1 = w\<lparr>w_io := io, w_out := w_out w @ take n d\<rparr>"
  have w1: "queue_list w1 = queue_list w" "pending w1 = pending w" "queue_ok w1" "w_msgs w1 = w_msgs w"
    "w_next w1 = w_next w" "w_session w1 = w_session w" "w_alive w1 = w_alive w" "w_out w1 = w_out w @ take n d"
    using ok by (simp_all add: w1_def queue_list_def pending_def queue_ok_def)
  have p0: "0 < n \<longrightarrow> pending w = []" using so(3) by (simp add: pending_def)
  show ?thesis
  proof (cases "n = length d")
    case True
    then have "send_buffer E d w = Some (int n, w1)" using so(1) by (simp add: send_buffer_def w1_def)
    moreover have "\<exists>v q. queue_ok v \<and> w_regs v = w_regs w \<and> w_refuse v = w_refuse w \<and> w_alive v = w_alive w \<and>
       w_session v = (w_session w)\<lparr>ss_sendqueue := q\<rparr> \<and> w_acts v = w_acts w \<and>
       (w1 = session_add_event EV_WRITE v \<and> new_message_queued w v \<or>
        w1 = v \<and> queue_list v = queue_list w \<and> w_msgs v = w_msgs w \<and> w_next v = w_next w)"
      using w1 by (intro exI [of _ w1] exI [of _ "ss_sendqueue (w_session w)"]) (simp add: w1_def)
    moreover have "w_out w1 @ pending w1 = w_out w @ pending w @ d"
      using True w1 p0 by (cases "d = []") simp_all
    ultimately show ?thesis using True w1(3,7) by (intro exI [of _ n] exI [of _ w1]) simp
  next
    case False
    define rest where "rest = drop n d"
    have rest: "rest \<noteq> []" "length rest < 2 ^ 64" using False so(2) small(2) by (auto simp: rest_def)
    obtain m0 m1 m2 where m: "message_create (en_mem_message E) = Some m0"
      "message_add_buffer (en_mem_buffer E) m0 rest (of_nat (length rest)) = Some (0, m1)"
      "message_add_receiver (en_mem_sidlist E) (en_mem_sidlist E) (en_mem_sidlist E) (en_fresh_sid E) m1 (ss_id (w_session w)) = Some (0, m2)"
      "sendable m2" "receivers m2 = [ss_id (w_session w)]" "outcomes m2 = 0" "msg_buffer m2 = Some rest"
      "unat (msg_length m2) = length rest"
      using new_message_ok [OF mem rest, of "ss_id (w_session w)"] by blast
    define a where "a = w_next w"
    define w2 where "w2 = store_message a m2 (w1\<lparr>w_next := Suc a\<rparr>)"
    have fresh: "a \<notin> set (queue_list w)" using ok by (auto simp: queue_ok_def a_def)
    have same: "bytes_of (w_msgs w2) b = bytes_of (w_msgs w) b" "w_msgs w2 b = w_msgs w b" if "b \<in> set (queue_list w)" for b
      using that fresh by (auto simp: w2_def store_message_def bytes_of_def w1(4))
    have w2: "queue_list w2 = queue_list w" "w_msgs w2 a = Some m2" "w_next w2 = Suc a" "w_session w2 = w_session w"
      "w_out w2 = w_out w1" "w_alive w2 = w_alive w"
      by (simp_all add: w2_def store_message_def queue_list_def w1)
    have st2: "stream (w_msgs w2) (queue_list w) = stream (w_msgs w) (queue_list w)" by (rule stream_cong) (rule same)
    have "pending w2 = pending w" by (simp add: pending_def w2 st2)
    moreover have q2: "queue_ok w2"
      using ok same unfolding queue_ok_def w2 msgs_ok_def offset_ok_def
      by (cases "queue_list w") (auto simp: a_def less_Suc_eq)
    moreover have "bytes_of (w_msgs w2) a = rest" using w2(2) m(7,8) by (simp add: bytes_of_def)
    moreover obtain q where q: "sendqueue_append True a w2 = Some (0, on_session (\<lambda>s. s\<lparr>ss_sendqueue := q\<rparr>) w2)"
      "ring_ok q" "ring_list q = queue_list w2 @ [a]"
      using sendqueue_append_ok [OF queue_ok_ring [OF q2]] small(1) w2(1) by auto
    moreover have "count_list (queue_list w2) a = 0" using fresh w2(1) by (simp add: count_list_0_iff)
    ultimately have ap: "queue_ok (on_session (\<lambda>s. s\<lparr>ss_sendqueue := q\<rparr>) w2)"
      "pending (on_session (\<lambda>s. s\<lparr>ss_sendqueue := q\<rparr>) w2) = pending w @ rest"
      using append_stream [OF q2 w2(2) m(4) _ _ q(2,3) refl] w2(3) m(5,6) by simp_all
    define w3 where "w3 = on_session (\<lambda>s. s\<lparr>ss_sendqueue := q\<rparr>) w2"
    define w' where "w' = session_add_event EV_WRITE w3"
    have "send_buffer E d w = Some (int n, w')"
      using so(1,2) False m(1,2,3) q(1) mem
      by (simp add: send_buffer_def w1_def [symmetric] w1(5,6) rest_def [symmetric] Let_def a_def [symmetric]
          w2_def [symmetric] w3_def [symmetric] w'_def memory_ok_def)
    moreover have eo: "events_only w3 w'" unfolding w'_def by (rule add_event_only)
    moreover have "w_out w' @ pending w' = w_out w @ pending w @ d"
      using events_only_queue(2) [OF eo] eo ap(2) p0 w1(8) w2(5)
      by (cases "n = 0") (simp_all add: w3_def events_only_def rest_def on_session_def)
    moreover have "queue_ok w'" using events_only_queue(3) [OF eo] ap(1) by (simp add: w3_def)
    moreover have "has_status SESSION_WRITING w'"
      by (auto simp: w'_def session_add_event_def session_add_write_def session_add_read_def Let_def status_simps
          EV_WRITE_def split: prod.splits)
    moreover have "w_alive w' = w_alive w" using eo w2(6) by (simp add: events_only_def w3_def on_session_def)
    moreover have "queue_ok w3" "w_regs w3 = w_regs w \<and> w_refuse w3 = w_refuse w" "w_alive w3 = w_alive w" "w_session w3 = (w_session w)\<lparr>ss_sendqueue := q\<rparr>"
      "w_acts w3 = w_acts w"
      using ap(1) w2(4,6) by (simp_all add: w3_def on_session_def w2_def store_message_def w1_def)
    moreover have "new_message_queued w w3"
      unfolding new_message_queued_def using m(4-6) w2(1,3) q(3)
      by (intro exI [of _ m2]) (simp add: w3_def queue_list_def on_session_def w2_def store_message_def w1_def a_def)
    ultimately show ?thesis using so(2) w'_def by blast
  qed
qed

text \<open>
  C7: sending keeps the byte stream: what the descriptor has taken followed by what waits in the
  queue grows by exactly the (transformed) data at its end, however much of it the kernel takes at
  once; whatever is not written at once is queued and the session is marked as writing.  A session that
  is being closed refuses, and a transformation without a result sends nothing.\<close>

theorem session_send_streams:
  assumes "queue_ok w" "setting_transport (ss_setting (w_session w)) = Channel" "memory_ok E"
    and "length (queue_list w) < 2 ^ 31"
    and t: "(case sv_transform (en_service E) of None \<Rightarrow> Fresh buf | Some f \<Rightarrow> f buf) = t"
    and d: "d = (case t of Same n \<Rightarrow> take n buf | Gone \<Rightarrow> [] | Fresh bs \<Rightarrow> bs)" "length d < 2 ^ 64"
    and len: "case t of Same n \<Rightarrow> n \<le> length buf | _ \<Rightarrow> True"
  shows "\<exists>rc w'. session_send E buf w = Some (rc, w') \<and> queue_ok w' \<and>
    (if t = Gone \<or> has_status SESSION_EXITING w then rc = - 1 \<and> w' = w
     else 0 \<le> rc \<and> rc \<le> int (length d) \<and> w_out w' @ pending w' = w_out w @ pending w @ d \<and>
       (rc < int (length d) \<longrightarrow> has_status SESSION_WRITING w'))"
proof -
  have eq: "session_send E buf w = (if t = Gone then Some (- 1, w) else send_buffer E d w)"
    using t d(1) len by (auto simp: session_send_def split: option.splits transformed.splits)
  show ?thesis
  proof (cases "t = Gone")
    case True
    then show ?thesis using eq assms(1) by simp
  next
    case False
    show ?thesis
    proof (cases "has_status SESSION_EXITING w")
      case True
      then have "send_buffer E d w = Some (- 1, w)" by (simp add: send_buffer_def send_only_def)
      then show ?thesis using eq False True assms(1) by simp
    next
      case st: False
      obtain n w' where "send_buffer E d w = Some (int n, w')" "n \<le> length d" "queue_ok w'"
        "w_out w' @ pending w' = w_out w @ pending w @ d" "n < length d \<longrightarrow> has_status SESSION_WRITING w'"
        using send_buffer_stream [OF assms(1,2) st assms(3,4) d(2)] by blast
      then show ?thesis using eq False st by simp
    qed
  qed
qed

end
