(* ===== verification/SessionInv.thy ===== *)
theory SessionInv
  imports SendStream
begin

text \<open>
  The invariant of a session and of its event registrations: every registered event is known to the
  status flags, unsent data always has a write event or a reconnection under way, and a session that
  has ended has no event left in the set.  Each operation and each handler is shown to keep it.
\<close>

section \<open>Registrations and flags\<close>

definition regs_agree ::
  "(session_event \<Rightarrow> registration option) \<Rightarrow> bool \<Rightarrow> bool \<Rightarrow> bool \<Rightarrow> int \<Rightarrow> schedule_task list \<Rightarrow> u16 \<Rightarrow> bool" where
  "regs_agree R rd wr ka fd ts pm \<longleftrightarrow>
     (\<forall>r. R EvRead = Some r \<longrightarrow> rd \<and> rg_callback r = On_read \<and> (rg_events r AND EV_PERSIST \<noteq> 0 \<longrightarrow> pm \<noteq> 0)) \<and>
     (\<forall>r. R EvKeepalive = Some r \<longrightarrow> ka \<and> rg_callback r = On_keepalive \<and> rg_events r = 0) \<and>
     (\<forall>r. R EvWrite = Some r \<longrightarrow> wr \<and>
        (rg_callback r = On_reconnect \<and> fd < 0 \<and> rg_events r = 0 \<or> 0 < fd \<and> rg_events r = EV_WRITE \<and>
          (rg_callback r = On_write \<or> rg_callback r = Reconnected \<and> rg_tv r = - 1))) \<and>
     (wr \<longrightarrow> R EvWrite \<noteq> None) \<and>
     (\<forall>a r. R (EvTask a) = Some r \<longrightarrow> rg_callback r = On_schedule \<and> rg_events r = 0 \<and> a \<in> st_addr ` set ts) \<and>
     (\<forall>t \<in> set ts. st_event t)"

definition regs_known :: "world \<Rightarrow> bool" where
  "regs_known w \<longleftrightarrow> regs_agree (w_regs w) (has_status SESSION_READING w) (has_status SESSION_WRITING w)
     (has_status SESSION_KEEPALIVING w) (ss_fd (w_session w)) (ss_tasklist (w_session w))
     (persist_mode (ss_setting (w_session w)))"

text \<open>
  The second part says that \<open>epoll_ctl\<close> refuses none of the events of the session; without it a session can be
  marked as writing while nothing is watched (lemma \<open>refused_write_stalls\<close>).
\<close>

definition regs_ok :: "world \<Rightarrow> bool" where
  "regs_ok w \<longleftrightarrow> regs_known w \<and> (\<forall>e. \<not> w_refuse w e)"

lemma regs_ok_known: "regs_ok w \<Longrightarrow> regs_known w"
  by (simp add: regs_ok_def)

text \<open>\<open>live_ok\<close> also holds inside a handler, before it has registered the session for writing again.\<close>

definition live_ok :: "world \<Rightarrow> bool" where
  "live_ok w \<longleftrightarrow> w_alive w \<and> queue_ok w \<and> setting_transport (ss_setting (w_session w)) = Channel \<and>
     buffer_ok (ss_inbuffer (w_session w)) \<and> regs_ok w"

definition busy_ok :: "world \<Rightarrow> bool" where
  "busy_ok w \<longleftrightarrow> (queue_list w \<noteq> [] \<longrightarrow> has_status SESSION_WRITING w) \<and>
     (\<not> has_status SESSION_WRITING w \<longrightarrow> 0 < ss_fd (w_session w))"

definition sess_inv :: "world \<Rightarrow> bool" where
  "sess_inv w \<longleftrightarrow> (if w_alive w then live_ok w \<and> busy_ok w else \<forall>e. w_regs w e = None)"

lemma ev_bits [simp]:
  "EV_READ \<noteq> 0" "EV_WRITE \<noteq> 0" "EV_READ AND EV_WRITE = 0" "EV_WRITE AND EV_READ = 0"
  "EV_WRITE AND (EV_READ OR EV_WRITE) \<noteq> 0" "EV_WRITE AND EV_PERSIST = 0" "EV_READ AND EV_PERSIST = 0"
  by (simp_all add: EV_READ_def EV_WRITE_def EV_PERSIST_def)

lemma persist_bits [simp]: "(EV_READ OR p) AND EV_PERSIST = p AND EV_PERSIST"
proof -
  have "EV_PERSIST AND EV_READ = 0" by (simp add: EV_READ_def EV_PERSIST_def)
  then have "(p OR EV_READ) AND EV_PERSIST = p AND EV_PERSIST" by (rule and_or_disjoint)
  then show ?thesis by (simp only: or.commute)
qed

lemma regs_register [simp]:
  "w_regs (register e fd ev cb tv w) =
     (w_regs w)(e := (if w_refuse w e then unwatched else registered) fd ev cb tv (w_regs w e))"
  "w_regs (evsets_remove e w) = (w_regs w)(e := None)"
  by (simp_all add: register_def evsets_remove_def)

lemma registered_simps [simp]:
  "registered fd ev cb tv None = (if armed fd ev tv then Some \<lparr>rg_fd = fd, rg_events = ev, rg_callback = cb, rg_tv = tv\<rparr> else None)"
  "registered fd ev cb tv (Some r) = Some \<lparr>rg_fd = fd, rg_events = ev, rg_callback = cb, rg_tv = (if 0 \<le> tv then tv else rg_tv r)\<rparr>"
  by (simp_all add: registered_def)

lemma unwatched_timer [simp]: "unwatched (- 1) 0 cb tv old = registered (- 1) 0 cb tv old"
  by (auto simp: unwatched_def split: option.splits)

lemma fd_frame [simp]:
  "ss_fd (w_session (status_set fl w)) = ss_fd (w_session w)" "ss_fd (w_session (status_clear fl w)) = ss_fd (w_session w)"
  "ss_tasklist (w_session (status_set fl w)) = ss_tasklist (w_session w)"
  "ss_tasklist (w_session (status_clear fl w)) = ss_tasklist (w_session w)"
  "ss_setting (w_session (status_set fl w)) = ss_setting (w_session w)"
  "ss_setting (w_session (status_clear fl w)) = ss_setting (w_session w)"
  by (simp_all add: status_set_def status_clear_def on_session_def)

lemma live_ok_events:
  assumes "live_ok w" "events_only w w'" "regs_ok w'"
  shows "live_ok w'"
  using assms events_only_queue(3) [OF assms(2)] session_data_fields [of "w_session w'" "w_session w"]
  by (simp add: live_ok_def events_only_def)

section \<open>Registering\<close>

lemma add_read_state:
  "w_regs (session_add_event EV_READ w) EvWrite = w_regs w EvWrite"
  "has_status SESSION_WRITING (session_add_event EV_READ w) = has_status SESSION_WRITING w"
  "has_status SESSION_EXITING (session_add_event EV_READ w) = has_status SESSION_EXITING w"
  by (auto simp: session_add_event_def session_add_read_def Let_def frame_simps status_simps split: prod.splits)

lemma add_read_live: "live_ok w \<Longrightarrow> live_ok (session_add_event EV_READ w)"
proof (rule live_ok_events [OF _ add_event_only])
  assume "live_ok w"
  then have "regs_ok w" by (simp add: live_ok_def)
  then show "regs_ok (session_add_event EV_READ w)"
    by (auto simp: regs_ok_def regs_known_def regs_agree_def session_add_event_def session_add_read_def Let_def frame_simps status_simps
        split: prod.splits if_splits)
qed

lemma add_read_inv: "sess_inv w \<Longrightarrow> w_alive w \<Longrightarrow> sess_inv (session_add_event EV_READ w)"
  using add_read_live [of w] events_only_queue(1) [OF add_event_only, of EV_READ w] add_event_only [of w EV_READ]
    session_data_fields [of "w_session (session_add_event EV_READ w)" "w_session w"]
  by (simp add: sess_inv_def busy_ok_def add_read_state events_only_def)

lemma add_write_live:
  assumes "live_ok w" "has_status SESSION_WRITING w \<or> 0 < ss_fd (w_session w)"
  shows "live_ok (session_add_event EV_WRITE w)" "has_status SESSION_WRITING (session_add_event EV_WRITE w)"
proof -
  have r: "regs_ok w" using assms(1) by (simp add: live_ok_def)
  show "has_status SESSION_WRITING (session_add_event EV_WRITE w)"
    by (auto simp: session_add_event_def session_add_write_def Let_def status_simps)
  have "regs_ok (session_add_event EV_WRITE w)"
    using r assms(2)
    by (auto simp: regs_ok_def regs_known_def regs_agree_def session_add_event_def session_add_write_def Let_def frame_simps status_simps
        armed_def)
  then show "live_ok (session_add_event EV_WRITE w)" by (rule live_ok_events [OF assms(1) add_event_only])
qed

lemma add_write_inv:
  assumes "live_ok w" "has_status SESSION_WRITING w \<or> 0 < ss_fd (w_session w)"
  shows "sess_inv (session_add_event EV_WRITE w)"
  using add_write_live [OF assms] by (simp add: sess_inv_def busy_ok_def live_ok_def)

lemma del_read_state:
  "w_regs (session_del_event EV_READ w) EvWrite = w_regs w EvWrite"
  "has_status SESSION_WRITING (session_del_event EV_READ w) = has_status SESSION_WRITING w"
  "has_status SESSION_EXITING (session_del_event EV_READ w) = has_status SESSION_EXITING w"
  by (auto simp: session_del_event_def Let_def frame_simps status_simps)

lemma del_read_live: "live_ok w \<Longrightarrow> live_ok (session_del_event EV_READ w)"
proof (rule live_ok_events [OF _ del_event_only])
  assume "live_ok w"
  then have "regs_ok w" by (simp add: live_ok_def)
  then show "regs_ok (session_del_event EV_READ w)"
    by (auto simp: regs_ok_def regs_known_def regs_agree_def session_del_event_def Let_def frame_simps status_simps)
qed

lemma keepalive_live: "live_ok w \<Longrightarrow> live_ok (snd (session_start_keepalive w))"
proof (rule live_ok_events [OF _ start_keepalive_only])
  assume "live_ok w"
  then have "regs_ok w" by (simp add: live_ok_def)
  then show "regs_ok (snd (session_start_keepalive w))"
    by (auto simp: regs_ok_def regs_known_def regs_agree_def session_start_keepalive_def frame_simps status_simps split: if_splits)
qed

lemma keepalive_state:
  "has_status SESSION_WRITING (snd (session_start_keepalive w)) = has_status SESSION_WRITING w"
  by (auto simp: session_start_keepalive_def status_simps)

lemma busy_ok_events:
  assumes "busy_ok w" "events_only w w'" "has_status SESSION_WRITING w' = has_status SESSION_WRITING w"
  shows "busy_ok w'"
  using assms events_only_queue(1) [OF assms(2)] session_data_fields [of "w_session w'" "w_session w"]
  by (simp add: busy_ok_def events_only_def)

lemma keepalive_inv: "sess_inv w \<Longrightarrow> w_alive w \<Longrightarrow> sess_inv (snd (session_start_keepalive w))"
  using keepalive_live [of w] busy_ok_events [OF _ start_keepalive_only keepalive_state, of w]
    start_keepalive_only [of w]
  by (simp add: sess_inv_def events_only_def)

lemma del_read_inv: "sess_inv w \<Longrightarrow> w_alive w \<Longrightarrow> sess_inv (session_del_event EV_READ w)"
  using del_read_live [of w] busy_ok_events [OF _ del_event_only del_read_state(2), of w]
    del_event_only [of w EV_READ]
  by (simp add: sess_inv_def events_only_def)

section \<open>Stopping\<close>

lemma stop_tasks_state:
  "w_session (stop_tasks ts w) = w_session w \<and> w_msgs (stop_tasks ts w) = w_msgs w \<and>
   w_out (stop_tasks ts w) = w_out w \<and> w_io (stop_tasks ts w) = w_io w \<and> w_next (stop_tasks ts w) = w_next w \<and>
   w_alive (stop_tasks ts w) = w_alive w \<and>
   w_acts (stop_tasks ts w) = w_acts w @ map (\<lambda>t. Act_recycle_task (st_addr t)) ts"
proof (induction ts arbitrary: w)
  case (Cons t ts)
  then show ?case by (simp add: log_act_def frame_simps)
qed simp

lemma stop_tasks_regs:
  "w_regs (stop_tasks ts w) e =
     (if \<exists>t \<in> set ts. st_event t \<and> e = EvTask (st_addr t) then None else w_regs w e)"
proof (induction ts arbitrary: w)
  case (Cons t ts)
  then show ?case by (auto simp: log_act_def)
qed simp

lemma has_status_session: "has_status fl w = (ss_status (w_session w) AND fl \<noteq> 0)"
  by (simp add: has_status_def)

text \<open>Stopping closes the descriptor once, recycles each task once and leaves no event registered.\<close>

definition stop_acts :: "world \<Rightarrow> action list" where
  "stop_acts w = map (\<lambda>t. Act_recycle_task (st_addr t)) (ss_tasklist (w_session w)) @
     (case ss_driver (w_session w) of None \<Rightarrow> [] | Some d \<Rightarrow> [Act_driver_destroy d]) @
     (if 0 < ss_fd (w_session w) \<and> ss_type (w_session w) \<noteq> eSessionType_Shared
      then [Act_close (ss_fd (w_session w))] else [])"

lemma stop_event_frame [frame_simps]:
  "w_msgs (stop_event fl e w) = w_msgs w" "w_out (stop_event fl e w) = w_out w" "w_io (stop_event fl e w) = w_io w"
  "w_next (stop_event fl e w) = w_next w" "w_alive (stop_event fl e w) = w_alive w"
  "w_acts (stop_event fl e w) = w_acts w" "session_data (w_session (stop_event fl e w)) = session_data (w_session w)"
  by (simp_all add: stop_event_def frame_simps)

lemma stop_event_regs:
  "w_regs (stop_event fl e w) = (if has_status fl w then (w_regs w)(e := None) else w_regs w)"
  by (simp add: stop_event_def frame_simps)

lemma stop_event_status:
  "has_status fl' (stop_event fl e w) = (if fl' = fl then False else has_status fl' w)" if "fl' = fl \<or> fl' AND fl = 0"
  using that by (auto simp: stop_event_def status_simps)

lemma stop_tasks_refuse: "w_refuse (stop_tasks ts w) = w_refuse w"
  by (induction ts arbitrary: w) (simp_all add: log_act_def frame_simps)

lemma session_stop_refuse [simp]: "w_refuse (session_stop w) = w_refuse w"
  by (simp add: session_stop_def Let_def on_session_def log_act_def stop_event_def frame_simps stop_tasks_refuse split: option.splits)

lemma session_stop_state:
  assumes "regs_known w"
  shows "\<forall>e. w_regs (session_stop w) e = None" "w_msgs (session_stop w) = w_msgs w"
    "w_out (session_stop w) = w_out w" "w_next (session_stop w) = w_next w" "w_alive (session_stop w) = w_alive w"
    "w_acts (session_stop w) = w_acts w @ stop_acts w"
    "ss_fd (w_session (session_stop w)) = - 1" "ss_tasklist (w_session (session_stop w)) = []"
    "ss_sendqueue (w_session (session_stop w)) = ss_sendqueue (w_session w)"
    "ss_msgoffset (w_session (session_stop w)) = ss_msgoffset (w_session w)"
    "ss_setting (w_session (session_stop w)) = ss_setting (w_session w)"
    "ss_inbuffer (w_session (session_stop w)) = snd (buffer_erase (ss_inbuffer (w_session w)) (- 1))"
    "\<not> has_status SESSION_READING (session_stop w)" "\<not> has_status SESSION_WRITING (session_stop w)"
    "\<not> has_status SESSION_KEEPALIVING (session_stop w)"
proof -
  define w1 where "w1 = on_session (\<lambda>s. s\<lparr>ss_tasklist := []\<rparr>) (stop_tasks (ss_tasklist (w_session w)) w)"
  define w2 where "w2 = stop_event SESSION_KEEPALIVING EvKeepalive (stop_event SESSION_WRITING EvWrite
    (stop_event SESSION_READING EvRead w1))"
  have w1: "w_session w1 = (w_session w)\<lparr>ss_tasklist := []\<rparr>" "w_msgs w1 = w_msgs w" "w_out w1 = w_out w"
    "w_next w1 = w_next w" "w_alive w1 = w_alive w"
    "w_acts w1 = w_acts w @ map (\<lambda>t. Act_recycle_task (st_addr t)) (ss_tasklist (w_session w))"
    using stop_tasks_state [of "ss_tasklist (w_session w)" w] by (simp_all add: w1_def on_session_def)
  have st1: "has_status fl w1 = has_status fl w" for fl by (simp add: has_status_session w1)
  have reg1: "w_regs w1 e = (if \<exists>t \<in> set (ss_tasklist (w_session w)). st_event t \<and> e = EvTask (st_addr t) then None else w_regs w e)" for e
    by (simp add: w1_def on_session_def stop_tasks_regs)
  have d2: "session_data (w_session w2) = session_data (w_session w1)" by (simp add: w2_def frame_simps)
  note f2 = session_data_fields [OF d2]
  have w2: "w_msgs w2 = w_msgs w" "w_out w2 = w_out w" "w_next w2 = w_next w" "w_alive w2 = w_alive w"
    "w_acts w2 = w_acts w1"
    by (simp_all add: w2_def frame_simps w1)
  have st2: "\<not> has_status SESSION_READING w2" "\<not> has_status SESSION_WRITING w2" "\<not> has_status SESSION_KEEPALIVING w2"
    by (simp_all add: w2_def stop_event_status)
  have reg2: "w_regs w2 e = None" for e
  proof (cases e)
    case (EvTask a)
    then have "w_regs w2 e = w_regs w1 e" by (simp add: w2_def stop_event_regs)
    moreover have "w_regs w1 e = None"
    proof (cases "w_regs w (EvTask a)")
      case (Some r)
      then have "a \<in> st_addr ` set (ss_tasklist (w_session w))" "\<forall>t \<in> set (ss_tasklist (w_session w)). st_event t"
        using assms unfolding regs_known_def regs_agree_def by blast+
      then show ?thesis using EvTask by (auto simp: reg1)
    qed (simp add: reg1 EvTask)
    ultimately show ?thesis by simp
  next
    case EvRead
    then show ?thesis using assms
      by (cases "w_regs w EvRead") (auto simp: w2_def stop_event_regs stop_event_status reg1 st1 regs_known_def regs_agree_def)
  next
    case EvWrite
    then show ?thesis using assms
      by (cases "w_regs w EvWrite") (auto simp: w2_def stop_event_regs stop_event_status reg1 st1 regs_known_def regs_agree_def)
  next
    case EvKeepalive
    then show ?thesis using assms
      by (cases "w_regs w EvKeepalive") (auto simp: w2_def stop_event_regs stop_event_status reg1 st1 regs_known_def regs_agree_def)
  qed
  define w3 where "w3 = on_session (\<lambda>s. s\<lparr>ss_inbuffer := snd (buffer_erase (ss_inbuffer s) (- 1))\<rparr>) w2"
  have eq: "session_stop w = on_session (\<lambda>s. s\<lparr>ss_fd := - 1, ss_driver := None\<rparr>)
     (let v = (case ss_driver (w_session w3) of None \<Rightarrow> w3 | Some d \<Rightarrow> log_act (Act_driver_destroy d) w3)
      in if 0 < ss_fd (w_session v) \<and> ss_type (w_session v) \<noteq> eSessionType_Shared
         then log_act (Act_close (ss_fd (w_session v))) v else v)"
    unfolding session_stop_def Let_def w3_def w2_def w1_def by (rule refl)
  have w3: "w_session w3 = (w_session w2)\<lparr>ss_inbuffer := snd (buffer_erase (ss_inbuffer (w_session w)) (- 1))\<rparr>"
    "w_regs w3 = w_regs w2 \<and> w_refuse w3 = w_refuse w2" "w_msgs w3 = w_msgs w" "w_out w3 = w_out w" "w_next w3 = w_next w" "w_alive w3 = w_alive w"
    "w_acts w3 = w_acts w @ map (\<lambda>t. Act_recycle_task (st_addr t)) (ss_tasklist (w_session w))"
    using f2 w1 w2 by (simp_all add: w3_def on_session_def)
  have s3: "ss_driver (w_session w3) = ss_driver (w_session w)" "ss_fd (w_session w3) = ss_fd (w_session w)"
    "ss_type (w_session w3) = ss_type (w_session w)" "ss_status (w_session w3) = ss_status (w_session w2)"
    "ss_tasklist (w_session w3) = []" "ss_sendqueue (w_session w3) = ss_sendqueue (w_session w)"
    "ss_msgoffset (w_session w3) = ss_msgoffset (w_session w)" "ss_setting (w_session w3) = ss_setting (w_session w)"
    using f2 w1 by (simp_all add: w3)
  obtain as where as: "session_stop w = w3\<lparr>w_session := (w_session w3)\<lparr>ss_fd := - 1, ss_driver := None\<rparr>, w_acts := w_acts w @ stop_acts w\<rparr>"
  proof (rule that)
    show "session_stop w = w3\<lparr>w_session := (w_session w3)\<lparr>ss_fd := - 1, ss_driver := None\<rparr>, w_acts := w_acts w @ stop_acts w\<rparr>"
      by (cases "ss_driver (w_session w)") (simp_all add: eq s3 w3(7) log_act_def on_session_def stop_acts_def Let_def)
  qed
  show "\<forall>e. w_regs (session_stop w) e = None" by (simp add: as w3 reg2)
  show "w_msgs (session_stop w) = w_msgs w" "w_out (session_stop w) = w_out w" "w_next (session_stop w) = w_next w"
    "w_alive (session_stop w) = w_alive w" "w_acts (session_stop w) = w_acts w @ stop_acts w"
    "ss_fd (w_session (session_stop w)) = - 1" "ss_tasklist (w_session (session_stop w)) = []"
    "ss_sendqueue (w_session (session_stop w)) = ss_sendqueue (w_session w)"
    "ss_msgoffset (w_session (session_stop w)) = ss_msgoffset (w_session w)"
    "ss_setting (w_session (session_stop w)) = ss_setting (w_session w)"
    by (simp_all add: as w3(3-7) s3)
  show "ss_inbuffer (w_session (session_stop w)) = snd (buffer_erase (ss_inbuffer (w_session w)) (- 1))"
    by (simp add: as w3(1))
  show "\<not> has_status SESSION_READING (session_stop w)" "\<not> has_status SESSION_WRITING (session_stop w)"
    "\<not> has_status SESSION_KEEPALIVING (session_stop w)"
    using st2 s3(4) by (simp_all add: as has_status_session)
qed

section \<open>A refused registration\<close>

text \<open>
  Nothing looks at the result of \<open>evsets_add\<close>.  When \<open>epoll_ctl\<close> refuses the descriptor, the session is marked as writing all
  the same: a send reports success, the rest of its data stays in the queue, no event is registered for it, and as long as the
  mark stands nothing tries to register one again.
\<close>

lemma refused_write_stalls:
  assumes "queue_ok w" "setting_transport (ss_setting (w_session w)) = Channel" "memory_ok E"
    and "length (queue_list w) < 2 ^ 31" "sv_transform (en_service E) = None" "length buf < 2 ^ 64"
    and "\<not> has_status SESSION_EXITING w" "\<not> has_status SESSION_WRITING w"
    and "w_regs w EvWrite = None" "w_refuse w EvWrite"
  shows "\<exists>rc w'. session_send E buf w = Some (rc, w') \<and> 0 \<le> rc \<and> w_regs w' EvWrite = None \<and>
    (rc < int (length buf) \<longrightarrow> queue_list w' \<noteq> [] \<and> has_status SESSION_WRITING w' \<and> session_add_event EV_WRITE w' = w')"
proof -
  obtain n w' v q where s: "send_buffer E buf w = Some (int n, w')" "n < length buf \<longrightarrow> has_status SESSION_WRITING w'"
    "w_regs v = w_regs w" "w_refuse v = w_refuse w" "w_session v = (w_session w)\<lparr>ss_sendqueue := q\<rparr>"
    "w' = session_add_event EV_WRITE v \<and> new_message_queued w v \<or> w' = v"
    using send_buffer_stream [OF assms(1,2,7,3,4,6)] by blast
  have st: "\<not> has_status SESSION_WRITING v" "\<not> has_status SESSION_EXITING v"
    using assms(7,8) s(5) by (simp_all add: has_status_session)
  have none: "w_regs w' EvWrite = None"
    using s(6)
  proof
    assume w': "w' = session_add_event EV_WRITE v \<and> new_message_queued w v"
    have "EV_WRITE AND NOT (EV_READ OR EV_WRITE) = 0" by (simp add: EV_READ_def EV_WRITE_def)
    then show ?thesis
      using w' st s(3,4) assms(9,10)
      by (simp add: session_add_event_def session_add_write_def Let_def frame_simps unwatched_def armed_def)
  qed (use s(3) assms(9) in simp)
  have "queue_list w' \<noteq> []" if "has_status SESSION_WRITING w'"
    using s(6) st(1) that events_only_queue(1) [OF add_event_only, of EV_WRITE v]
    by (auto simp: new_message_queued_def)
  moreover have "session_add_event EV_WRITE w' = w'" if "has_status SESSION_WRITING w'"
    using that by (simp add: session_add_event_def)
  moreover have "session_send E buf w = send_buffer E buf w" using assms(5) by (simp add: session_send_def)
  ultimately show ?thesis using s(1,2) none by (intro exI [of _ "int n"] exI [of _ w']) simp
qed

end
