(* ===== verification/SessionLife.thy ===== *)
theory SessionLife
  imports SessionInv
begin

text \<open>
  The life of a session: its end accounts for everything it held, a shutdown keeps unsent data, an
  error leads to a reconnection or to the end, and every event that can fire keeps the invariant.
\<close>

section \<open>The end\<close>

text \<open>The messages destroyed when the outcomes of a list of messages are recorded.\<close>

fun freed :: "(message \<Rightarrow> message) \<Rightarrow> (nat \<Rightarrow> message option) \<Rightarrow> nat list \<Rightarrow> nat list" where
  "freed f msgs [] = []"
| "freed f msgs (a # as) =
     (case msgs a of None \<Rightarrow> [] | Some m \<Rightarrow> if message_is_complete (f m) then [a] else []) @ freed f (settle f a msgs) as"

lemma outcome_acts:
  assumes "w_msgs w a = Some m"
  shows "\<exists>v w'. update_message f a w = Some v \<and> message_done a v = Some w' \<and>
    w_msgs w' = settle f a (w_msgs w) \<and> w_session w' = w_session w \<and> w_out w' = w_out w \<and>
    w_regs w' = w_regs w \<and> w_refuse w' = w_refuse w \<and> w_next w' = w_next w \<and> w_alive w' = w_alive w \<and>
    w_acts w' = w_acts w @ (if message_is_complete (f m) then [Act_message_destroy a] else [])"
  using assms by (auto simp: update_message_def message_done_def store_message_def settle_def log_act_def)

lemma end_loop_spec:
  assumes "length (queue_list w) = n" "ring_ok (ss_sendqueue (w_session w))" "msgs_ok (w_msgs w) (queue_list w)"
  shows "\<exists>w' q. end_loop n w = Some w' \<and> w_session w' = (w_session w)\<lparr>ss_sendqueue := q\<rparr> \<and> ring_ok q \<and>
    ring_list q = [] \<and> w_msgs w' = fold (settle message_add_failure) (queue_list w) (w_msgs w) \<and> w_out w' = w_out w \<and>
    w_regs w' = w_regs w \<and> w_refuse w' = w_refuse w \<and> w_next w' = w_next w \<and> w_alive w' = w_alive w \<and>
    w_acts w' = w_acts w @ map Act_message_destroy (freed message_add_failure (w_msgs w) (queue_list w))"
  using assms
proof (induction n arbitrary: w)
  case 0
  then show ?case
    by (intro exI [of _ w] exI [of _ "ss_sendqueue (w_session w)"]) (simp add: queue_list_def)
next
  case (Suc n)
  obtain a as where as: "queue_list w = a # as" using Suc.prems(1) by (cases "queue_list w") auto
  then have rl: "ring_list (ss_sendqueue (w_session w)) = a # as" by (simp add: queue_list_def)
  obtain q where q: "QUEUE_POP (ss_sendqueue (w_session w)) = Some (1, Some a, q)" "ring_ok q" "ring_list q = as"
    using ring_pop [OF Suc.prems(2) rl] by blast
  obtain m where m: "w_msgs w a = Some m" using Suc.prems(3) as unfolding msgs_ok_def by auto
  define w0 where "w0 = on_session (\<lambda>s. s\<lparr>ss_sendqueue := q\<rparr>) w"
  have w0: "w_msgs w0 = w_msgs w" "w_session w0 = (w_session w)\<lparr>ss_sendqueue := q\<rparr>" "w_out w0 = w_out w"
    "w_regs w0 = w_regs w \<and> w_refuse w0 = w_refuse w" "w_next w0 = w_next w" "w_alive w0 = w_alive w" "w_acts w0 = w_acts w"
    by (simp_all add: w0_def on_session_def)
  obtain v w1 where w1: "update_message message_add_failure a w0 = Some v" "message_done a v = Some w1"
    "w_msgs w1 = settle message_add_failure a (w_msgs w0)" "w_session w1 = w_session w0" "w_out w1 = w_out w0"
    "w_regs w1 = w_regs w0 \<and> w_refuse w1 = w_refuse w0" "w_next w1 = w_next w0" "w_alive w1 = w_alive w0"
    "w_acts w1 = w_acts w0 @ (if message_is_complete (message_add_failure m) then [Act_message_destroy a] else [])"
    using outcome_acts [of w0 a m message_add_failure] m w0(1) by auto
  have ql: "queue_list w1 = as" "ring_ok (ss_sendqueue (w_session w1))"
    using w1(4) w0(2) q by (simp_all add: queue_list_def)
  have sok: "msgs_ok (w_msgs w1) as"
    using settle_ok(1) [of "w_msgs w" a as message_add_failure] Suc.prems(3) as w1(3) w0(1)
    by (simp add: is_outcome_def)
  obtain w' q' where r: "end_loop n w1 = Some w'" "w_session w' = (w_session w1)\<lparr>ss_sendqueue := q'\<rparr>" "ring_ok q'"
    "ring_list q' = []" "w_msgs w' = fold (settle message_add_failure) as (w_msgs w1)" "w_out w' = w_out w1"
    "w_regs w' = w_regs w1 \<and> w_refuse w' = w_refuse w1" "w_next w' = w_next w1" "w_alive w' = w_alive w1"
    "w_acts w' = w_acts w1 @ map Act_message_destroy (freed message_add_failure (w_msgs w1) as)"
    using Suc.IH [of w1] ql sok Suc.prems(1) as by auto
  have "end_loop (Suc n) w = end_loop n w1" using q(1) w1(1,2) by (simp flip: w0_def)
  then show ?case
    using r w1 w0 m as by (intro exI [of _ w'] exI [of _ q']) (simp del: end_loop.simps)
qed

lemma live_okD:
  assumes "live_ok w"
  shows "w_alive w" "queue_ok w" "ring_ok (ss_sendqueue (w_session w))" "msgs_ok (w_msgs w) (queue_list w)" "regs_ok w"
    "buffer_ok (ss_inbuffer (w_session w))" "setting_transport (ss_setting (w_session w)) = Channel"
  using assms by (simp_all add: live_ok_def queue_ok_def)

lemma session_end_spec:
  assumes "ring_ok (ss_sendqueue (w_session w))" "msgs_ok (w_msgs w) (queue_list w)" "regs_known w"
  shows "\<exists>w'. session_end E sd recycle w = Some (0, w') \<and>
    w_msgs w' = fold (settle message_add_failure) (queue_list w) (w_msgs w) \<and> queue_list w' = [] \<and>
    (\<forall>e. w_regs w' e = None) \<and> w_out w' = w_out w \<and> w_next w' = w_next w \<and> w_alive w' = (w_alive w \<and> recycle) \<and>
    w_acts w' = w_acts w @ map Act_message_destroy (freed message_add_failure (w_msgs w) (queue_list w)) @
      stop_acts w @ [Act_session_end sd]"
proof -
  obtain w1 q where w1: "end_loop (length (queue_list w)) w = Some w1" "w_session w1 = (w_session w)\<lparr>ss_sendqueue := q\<rparr>"
    "ring_ok q" "ring_list q = []" "w_msgs w1 = fold (settle message_add_failure) (queue_list w) (w_msgs w)"
    "w_out w1 = w_out w" "w_regs w1 = w_regs w \<and> w_refuse w1 = w_refuse w" "w_next w1 = w_next w" "w_alive w1 = w_alive w"
    "w_acts w1 = w_acts w @ map Act_message_destroy (freed message_add_failure (w_msgs w) (queue_list w))"
    using end_loop_spec [OF refl assms(1,2)] by blast
  have r1: "regs_known w1" using assms(3) by (simp add: regs_known_def has_status_session w1)
  note st = session_stop_state [OF r1]
  have sa: "stop_acts w1 = stop_acts w" by (simp add: stop_acts_def w1)
  define w2 where "w2 = session_stop w1"
  define w3 where "w3 = (if recycle then reset_session (en_mem_queue E) w2 else del_session w2)"
  have len: "unat (sendqueue_count w) = length (queue_list w)" by (rule queue_length [OF assms(1)])
  have fin: "session_end E sd recycle w = Some (0, log_act (Act_session_end sd) w3)"
    using w1(1) len by (simp add: session_end_def w2_def w3_def Let_def)
  have sq: "ss_sendqueue (w_session w2) = q" using st(9) w1(2) by (simp add: w2_def)
  have "ring_ok (QUEUE_RESET q) \<and> ring_list (QUEUE_RESET q) = []" by (rule ring_reset [OF w1(3)])
  moreover have "\<exists>k < 32. unat DEFAULT_SENDQUEUE_SIZE = 2 ^ k"
    by (intro exI [of _ 7]) (simp add: DEFAULT_SENDQUEUE_SIZE_def)
  ultimately have "ring_list (snd (QUEUE_SHRINK (en_mem_queue E) (QUEUE_RESET q) DEFAULT_SENDQUEUE_SIZE)) = []"
    using ring_shrink [of "QUEUE_RESET q" DEFAULT_SENDQUEUE_SIZE] by simp
  then have "queue_list w3 = []"
    using ring_clear [of q]
    by (simp add: w3_def queue_list_def reset_session_def del_session_def Let_def on_session_def sq frame_simps)
  moreover have "w_regs w3 e = None" for e
    using st(1) by (simp add: w3_def w2_def reset_session_def del_session_def Let_def on_session_def)
  moreover have "w_msgs w3 = w_msgs w2" "w_out w3 = w_out w2" "w_next w3 = w_next w2" "w_acts w3 = w_acts w2"
    "w_alive w3 = (w_alive w2 \<and> recycle)"
    by (simp_all add: w3_def reset_session_def del_session_def Let_def on_session_def frame_simps)
  ultimately show ?thesis
    using st(2,3,4,5,6) w1(5,6,8,9,10) sa
    by (intro exI [of _ "log_act (Act_session_end sd) w3"]) (simp add: fin w2_def log_act_def queue_list_def)
qed

text \<open>
  C8: ending a session accounts for everything it held: each message still queued gets one failure
  and is destroyed exactly if that was its last outcome, each timed task is recycled once, the
  descriptor is closed once (not at all when it is shared), and no event of the session stays
  registered, so nothing can call back into the freed session.\<close>

theorem session_end_accounts:
  assumes "live_ok w"
  shows "\<exists>w'. session_end E sd recycle w = Some (0, w') \<and>
    w_msgs w' = fold (settle message_add_failure) (queue_list w) (w_msgs w) \<and> queue_list w' = [] \<and>
    (\<forall>e. w_regs w' e = None) \<and> w_out w' = w_out w \<and>
    w_acts w' = w_acts w @ map Act_message_destroy (freed message_add_failure (w_msgs w) (queue_list w)) @
      map (\<lambda>t. Act_recycle_task (st_addr t)) (ss_tasklist (w_session w)) @
      (case ss_driver (w_session w) of None \<Rightarrow> [] | Some d \<Rightarrow> [Act_driver_destroy d]) @
      (if 0 < ss_fd (w_session w) \<and> ss_type (w_session w) \<noteq> eSessionType_Shared
       then [Act_close (ss_fd (w_session w))] else []) @ [Act_session_end sd]"
  using session_end_spec [OF live_okD(3,4) [OF assms] regs_ok_known [OF live_okD(5) [OF assms]], of E sd recycle]
  unfolding stop_acts_def append_assoc by blast

section \<open>Shutdown and errors\<close>

text \<open>The callbacks for errors and for the shutdown do not call back into the session.\<close>

definition quiet :: "environment \<Rightarrow> bool" where
  "quiet E \<longleftrightarrow> (\<forall>r w. snd (sv_error (en_service E) r w) = w) \<and> (\<forall>way w. sv_shutdown (en_service E) way w = w)"

lemma channel_shutdown_inv:
  assumes "quiet E" "live_ok w"
  shows "\<exists>w'. channel_shutdown E w = Some (0, w') \<and> \<not> w_alive w' \<and> sess_inv w' \<and> w_out w' = w_out w"
proof -
  define way :: int where "way = (if has_status SESSION_SHUTDOWNING w then 0 else 1)"
  define w1 where "w1 = on_session (\<lambda>s. s\<lparr>ss_id := 0\<rparr>)
     (log_act (Act_manager_remove (ss_id (w_session w))) (log_act (Act_shutdown way) w))"
  have w1: "w_session w1 = (w_session w)\<lparr>ss_id := 0\<rparr>" "w_msgs w1 = w_msgs w" "w_regs w1 = w_regs w \<and> w_refuse w1 = w_refuse w" "w_out w1 = w_out w"
    by (simp_all add: w1_def on_session_def log_act_def)
  have "ring_ok (ss_sendqueue (w_session w1))" "msgs_ok (w_msgs w1) (queue_list w1)" "regs_known w1"
    using live_okD(3,4,5) [OF assms(2)] by (simp_all add: w1 queue_list_def regs_ok_def regs_known_def has_status_session)
  then obtain w' where "session_end E (ss_id (w_session w1)) False w1 = Some (0, w')" "\<forall>e. w_regs w' e = None"
    "w_out w' = w_out w1" "\<not> w_alive w'"
    using session_end_spec [of w1 E "ss_id (w_session w1)" False] by auto
  moreover have "channel_shutdown E w =
      Option.bind (session_end E (ss_id (w_session w1)) False w1) (\<lambda>(_, w). Some (0, w))"
    using assms(1) unfolding channel_shutdown_def quiet_def Let_def way_def [symmetric] w1_def
    by (simp add: log_act_def)
  ultimately show ?thesis using w1(4) by (simp add: sess_inv_def)
qed

lemma buffer_erase_all_ok: "buffer_ok b \<Longrightarrow> buffer_ok (snd (buffer_erase b n))"
  by (auto simp: buffer_erase_def buffer_ok_def unat_sub word_le_nat_alt not_le unat_word_ariths split: option.splits)

lemma start_reconnect_inv:
  assumes "live_ok w" "\<not> has_status SESSION_EXITING w"
  shows "sess_inv (snd (session_start_reconnect w))" "w_alive (snd (session_start_reconnect w))"
    "w_out (snd (session_start_reconnect w)) = w_out w"
proof -
  note d = live_okD [OF assms(1)]
  show "sess_inv (snd (session_start_reconnect w))" "w_alive (snd (session_start_reconnect w))"
    "w_out (snd (session_start_reconnect w)) = w_out w"
  proof (atomize(full), cases "has_status SESSION_WRITING w")
    case True
    then have "session_start_reconnect w = (- 2, w)" using assms(2) by (simp add: session_start_reconnect_def)
    then show "sess_inv (snd (session_start_reconnect w)) \<and> w_alive (snd (session_start_reconnect w)) \<and>
        w_out (snd (session_start_reconnect w)) = w_out w"
      using True assms(1) d by (simp add: sess_inv_def busy_ok_def)
  next
    case False
    define w1 where "w1 = (if ss_type (w_session w) = eSessionType_Associate then on_session (\<lambda>s. s\<lparr>ss_fd := - 1\<rparr>) w else w)"
    have w1: "w_msgs w1 = w_msgs w" "w_out w1 = w_out w" "w_next w1 = w_next w" "w_alive w1 = w_alive w"
      "w_regs w1 = w_regs w \<and> w_refuse w1 = w_refuse w" "ss_sendqueue (w_session w1) = ss_sendqueue (w_session w)"
      "ss_msgoffset (w_session w1) = ss_msgoffset (w_session w)" "ss_setting (w_session w1) = ss_setting (w_session w)"
      "ss_inbuffer (w_session w1) = ss_inbuffer (w_session w)" "ss_tasklist (w_session w1) = ss_tasklist (w_session w)"
      "ss_status (w_session w1) = ss_status (w_session w)"
      by (simp_all add: w1_def on_session_def)
    have "w_regs w EvWrite = None"
      using d(5) False by (cases "w_regs w EvWrite") (auto simp: regs_ok_def regs_known_def regs_agree_def)
    then have r1: "regs_ok w1"
      using d(5) False by (simp add: regs_ok_def regs_known_def regs_agree_def has_status_session w1)
    note st = session_stop_state [OF regs_ok_known [OF r1]]
    define w2 where "w2 = session_stop w1"
    define w3 where "w3 = status_set SESSION_WRITING (register EvWrite (- 1) 0 On_reconnect TRY_RECONNECT_INTERVAL w2)"
    have eq: "session_start_reconnect w = (0, w3)"
      using assms(2) False by (simp add: session_start_reconnect_def w3_def w2_def w1_def Let_def)
    have s3: "session_data (w_session w3) = session_data (w_session w2)" by (simp add: w3_def frame_simps)
    note f3 = session_data_fields [OF s3]
    have regs: "regs_ok w3"
      using st(1,7,8,13,15) r1
      by (simp add: w3_def regs_ok_def regs_known_def regs_agree_def frame_simps status_simps w2_def armed_def TRY_RECONNECT_INTERVAL_def)
    have "queue_ok w3"
      using d(2) f3 st(2,4,9,10) w1 by (simp add: queue_ok_def queue_list_def w3_def w2_def frame_simps)
    moreover have "setting_transport (ss_setting (w_session w3)) = Channel" using f3 st(11) w1 d(7) by (simp add: w2_def)
    moreover have "buffer_ok (ss_inbuffer (w_session w3))" using f3 st(12) w1 d(6) buffer_erase_all_ok by (simp add: w2_def)
    moreover have "w_alive w3" using st(5) w1 d(1) by (simp add: w3_def w2_def frame_simps)
    moreover have "has_status SESSION_WRITING w3" by (simp add: w3_def status_simps)
    moreover have "w_out w3 = w_out w" using st(3) w1 by (simp add: w3_def w2_def frame_simps)
    ultimately show "sess_inv (snd (session_start_reconnect w)) \<and> w_alive (snd (session_start_reconnect w)) \<and>
        w_out (snd (session_start_reconnect w)) = w_out w"
      using regs by (simp add: eq sess_inv_def live_ok_def busy_ok_def)
  qed
qed

lemma channel_error_inv:
  assumes "quiet E" "live_ok w"
  shows "\<exists>rc w'. channel_error E result w = Some (rc, w') \<and> sess_inv w'"
proof -
  obtain rc where e: "sv_error (en_service E) result w = (rc, w)"
    using assms(1) unfolding quiet_def by (metis prod.collapse)
  show ?thesis
  proof (cases "\<not> session_is_reattch (w_session w) \<or> (session_is_reattch (w_session w) \<and> rc \<noteq> 0) \<or> has_status SESSION_EXITING w")
    case True
    then show ?thesis using channel_shutdown_inv [OF assms] e by (auto simp: channel_error_def)
  next
    case False
    then show ?thesis using start_reconnect_inv(1) [OF assms(2)] e by (auto simp: channel_error_def)
  qed
qed

lemma session_shutdown_inv:
  assumes "quiet E" "live_ok w" "has_status SESSION_WRITING w \<or> 0 < ss_fd (w_session w)"
  shows "\<exists>rc w'. session_shutdown E w = Some (rc, w') \<and> sess_inv w'"
proof (cases "\<not> has_status SESSION_EXITING w \<and> 0 < sendqueue_count w")
  case True
  define w1 where "w1 = status_set SESSION_EXITING w"
  have "regs_ok w1" using live_okD(5) [OF assms(2)] by (simp add: w1_def regs_ok_def regs_known_def frame_simps status_simps)
  then have "live_ok w1" unfolding w1_def by (rule live_ok_events [OF assms(2) events_only_steps(2)])
  then have "live_ok (session_del_event EV_READ w1)" by (rule del_read_live)
  moreover have "has_status SESSION_WRITING (session_del_event EV_READ w1) \<or> 0 < ss_fd (w_session (session_del_event EV_READ w1))"
    using assms(3) session_data_fields(2) [of "w_session (session_del_event EV_READ w1)" "w_session w1"]
      del_event_only [of w1 EV_READ]
    by (simp add: del_read_state w1_def status_simps events_only_def)
  ultimately have "sess_inv (session_add_event EV_WRITE (session_del_event EV_READ w1))" by (rule add_write_inv)
  then show ?thesis using True by (simp add: session_shutdown_def w1_def Let_def)
next
  case False
  then show ?thesis using channel_shutdown_inv [OF assms(1,2)] by (auto simp: session_shutdown_def)
qed

end
