(* ===== verification/SessionSteps.thy ===== *)
theory SessionSteps
  imports SessionLife
begin

text \<open>
  Every event of a session that can fire keeps the invariant, with callbacks of the application that
  may themselves send on the session; and what a shutdown does to unsent data.
\<close>

section \<open>What the application and the system may do\<close>

text \<open>
  A callback works on the session through the library only: it keeps the invariant, does not end the
  session, leaves messages of others alone, queues new messages only, a bounded number, and removes no
  timed task.
\<close>

definition callback_ok :: "(world \<Rightarrow> world) \<Rightarrow> bool" where
  "callback_ok f \<longleftrightarrow> (\<forall>w. sess_inv w \<and> w_alive w \<longrightarrow>
     sess_inv (f w) \<and> w_alive (f w) \<and>
     (\<forall>a < w_next w. a \<notin> set (queue_list w) \<longrightarrow> w_msgs (f w) a = w_msgs w a) \<and>
     w_next w \<le> w_next (f w) \<and>
     (\<forall>a \<in> set (queue_list (f w)). a \<in> set (queue_list w) \<or> w_next w \<le> a) \<and>
     length (queue_list (f w)) \<le> length (queue_list w) + 2 ^ 20 \<and>
     set (ss_tasklist (w_session w)) \<subseteq> set (ss_tasklist (w_session (f w))))"

definition env_ok :: "environment \<Rightarrow> bool" where
  "env_ok E \<longleftrightarrow> memory_ok E \<and> (\<forall>e. \<not> en_refuse E e) \<and> quiet E \<and> en_tcp_connect E \<noteq> 0 \<and> (\<forall>fd d. en_reattach E fd d \<noteq> 0) \<and>
     callback_ok (\<lambda>w. snd (sv_start (en_service E) w)) \<and>
     (\<forall>bs. callback_ok (\<lambda>w. snd (sv_process (en_service E) bs w))) \<and>
     callback_ok (\<lambda>w. snd (sv_keepalive (en_service E) w)) \<and>
     callback_ok (\<lambda>w. snd (sv_timeout (en_service E) w)) \<and>
     (\<forall>ty t i. callback_ok (\<lambda>w. snd (sv_perform (en_service E) ty t i w)))"

lemma callback_okD:
  assumes "callback_ok f" "sess_inv w" "w_alive w"
  shows "sess_inv (f w)" "w_alive (f w)" "w_next w \<le> w_next (f w)"
    "\<forall>a < w_next w. a \<notin> set (queue_list w) \<longrightarrow> w_msgs (f w) a = w_msgs w a"
    "\<forall>a \<in> set (queue_list (f w)). a \<in> set (queue_list w) \<or> w_next w \<le> a"
    "length (queue_list (f w)) \<le> length (queue_list w) + 2 ^ 20"
    "set (ss_tasklist (w_session w)) \<subseteq> set (ss_tasklist (w_session (f w)))"
  using assms unfolding callback_ok_def by blast+

text \<open>
  An event fires with what it was registered for, or with a time-out if it has one; a read gives at
  most what there is room for.
\<close>

definition occurrence_ok :: "registration \<Rightarrow> occurrence \<Rightarrow> bool" where
  "occurrence_ok r oc \<longleftrightarrow>
     (oc_results oc AND EV_READ \<noteq> 0 \<longrightarrow> rg_events r AND EV_READ \<noteq> 0) \<and>
     (oc_results oc AND EV_WRITE \<noteq> 0 \<longrightarrow> rg_events r AND EV_WRITE \<noteq> 0) \<and>
     (oc_results oc AND EV_READ = 0 \<and> oc_results oc AND EV_WRITE = 0 \<longrightarrow> 0 \<le> rg_tv r) \<and>
     (\<forall>room. kernel_read room (oc_readv oc room))"

section \<open>Time-outs and reads\<close>

lemma sess_invD:
  assumes "sess_inv w" "w_alive w"
  shows "live_ok w" "busy_ok w" "has_status SESSION_WRITING w \<or> 0 < ss_fd (w_session w)"
  using assms by (auto simp: sess_inv_def busy_ok_def)

lemma channel_timeout_inv:
  assumes "env_ok E" "sess_inv w" "w_alive w"
  shows "\<exists>rc w'. channel_timeout E w = Some (rc, w') \<and> sess_inv w'"
proof -
  define w1 where "w1 = snd (sv_timeout (en_service E) w)"
  obtain rc where t: "sv_timeout (en_service E) w = (rc, w1)" by (metis w1_def prod.collapse)
  have cb: "callback_ok (\<lambda>w. snd (sv_timeout (en_service E) w))" and q: "quiet E"
    using assms(1) unfolding env_ok_def by blast+
  have i: "sess_inv w1" "w_alive w1" using callback_okD(1,2) [OF cb assms(2,3)] by (simp_all add: w1_def)
  note d = sess_invD [OF i]
  show ?thesis
  proof (cases "rc \<noteq> 0 \<or> has_status SESSION_EXITING w1")
    case True
    then show ?thesis using session_shutdown_inv [OF q d(1,3)] t by (simp add: channel_timeout_def)
  next
    case False
    have "sess_inv (snd (session_start_reconnect w1))" using start_reconnect_inv(1) [OF d(1)] False by simp
    moreover have "w_alive (session_add_event EV_READ w1)" using add_event_only [of w1 EV_READ] i(2) by (simp add: events_only_def)
    then have "sess_inv (snd (session_start_keepalive (session_add_event EV_READ w1)))"
      by (rule keepalive_inv [OF add_read_inv [OF i]])
    ultimately show ?thesis using False t by (auto simp: channel_timeout_def)
  qed
qed

lemma inbuffer_inv:
  assumes "sess_inv w" "w_alive w" "buffer_ok b"
  shows "sess_inv (on_session (\<lambda>s. s\<lparr>ss_inbuffer := b\<rparr>) w)" "w_alive (on_session (\<lambda>s. s\<lparr>ss_inbuffer := b\<rparr>) w)"
  using assms by (simp_all add: sess_inv_def live_ok_def busy_ok_def queue_ok_def queue_list_def regs_ok_def regs_known_def
      has_status_session on_session_def)

lemma channel_receive_inv:
  assumes "sess_inv w" "w_alive w" "unat (bf_capacity (ss_inbuffer (w_session w))) \<le> 2 ^ 62"
    and "\<forall>room. kernel_read room (readv room)"
  shows "\<exists>n w'. channel_receive E readv w = Some (n, w') \<and> sess_inv w' \<and> w_alive w'"
proof -
  have b: "buffer_ok (ss_inbuffer (w_session w))" using sess_invD(1) [OF assms(1,2)] by (rule live_okD(6))
  obtain rc b' where r: "read_withvector readv (en_mem_buffer E) (en_fresh_byte E) (ss_inbuffer (w_session w)) = Some (rc, b')"
    "buffer_ok b'"
    using readv_ok [OF b assms(3), of readv "en_mem_buffer E" "en_fresh_byte E"] assms(4) by blast
  then show ?thesis
    using inbuffer_inv [OF assms(1,2) r(2)] by (simp add: channel_receive_def buffer_readv_def)
qed

lemma channel_process_inv:
  assumes "env_ok E" "sess_inv w" "w_alive w"
  shows "\<exists>n w'. channel_process E w = (n, w') \<and> sess_inv w' \<and> w_alive w'"
proof (cases "0 < bf_length (ss_inbuffer (w_session w))")
  case False
  then show ?thesis using assms by (simp add: channel_process_def Let_def)
next
  case True
  define bs where "bs = take (unat (bf_length (ss_inbuffer (w_session w)))) (buffer_data (ss_inbuffer (w_session w)))"
  define w1 where "w1 = snd (sv_process (en_service E) bs w)"
  obtain n where p: "sv_process (en_service E) bs w = (n, w1)" by (metis w1_def prod.collapse)
  have cb: "callback_ok (\<lambda>w. snd (sv_process (en_service E) bs w))" using assms(1) unfolding env_ok_def by blast
  have i: "sess_inv w1" "w_alive w1" using callback_okD(1,2) [OF cb assms(2,3)] by (simp_all add: w1_def)
  define w2 where "w2 = (if 0 < n then on_session (\<lambda>s. s\<lparr>ss_inbuffer := snd (buffer_erase (ss_inbuffer s) (of_int n))\<rparr>) w1 else w1)"
  have "buffer_ok (snd (buffer_erase (ss_inbuffer (w_session w1)) (of_int n)))"
    using live_okD(6) [OF sess_invD(1) [OF i]] by (rule buffer_erase_all_ok)
  from inbuffer_inv [OF i this] have "sess_inv w2" "w_alive w2" using i by (simp_all add: w2_def on_session_def)
  moreover have "channel_process E w = (n, w2)"
    using True p by (simp add: channel_process_def Let_def bs_def w2_def)
  ultimately show ?thesis by blast
qed

text \<open>The state in which the read handler starts.\<close>

lemma read_start_inv:
  assumes "sess_inv w0" "w_alive w0" "w_regs w0 EvRead = Some r"
    and w: "w = (if rg_events r AND EV_PERSIST \<noteq> 0 then w0 else evsets_remove EvRead w0)"
  shows "sess_inv (if \<not> persistent w then status_clear SESSION_READING w else w)"
    "w_alive (if \<not> persistent w then status_clear SESSION_READING w else w)"
proof -
  note d = sess_invD [OF assms(1,2)]
  define w1 where "w1 = (if \<not> persistent w then status_clear SESSION_READING w else w)"
  have eo: "events_only w0 w1"
    by (auto simp: w1_def w intro: events_only_status events_only_steps)
  have p: "persistent w = persistent w0" by (simp add: w persistent_def frame_simps)
  have "regs_ok w1"
    using live_okD(5) [OF d(1)] assms(3) p
    by (auto simp: w1_def w regs_ok_def regs_known_def regs_agree_def frame_simps status_simps persistent_def)
  then have "live_ok w1" by (rule live_ok_events [OF d(1) eo])
  moreover have "has_status SESSION_WRITING w1 = has_status SESSION_WRITING w0"
    by (simp add: w1_def w status_simps)
  then have "busy_ok w1" by (rule busy_ok_events [OF d(2) eo])
  ultimately show "sess_inv w1" "w_alive w1" by (simp_all add: sess_inv_def live_ok_def)
qed

lemma del_read_alive: "w_alive (session_del_event EV_READ w) = w_alive w"
  using del_event_only [of w EV_READ] by (simp add: events_only_def)

lemma if_inv:
  assumes "sess_inv w" "w_alive w"
  shows "sess_inv (if b then session_del_event EV_READ w else w)" "w_alive (if b then session_del_event EV_READ w else w)"
  using del_read_inv [OF assms] assms by (simp_all add: del_read_alive)

lemma on_read_inv:
  assumes E: "env_ok E" and inv: "sess_inv w0" "w_alive w0" "w_regs w0 EvRead = Some r"
    and w: "w = (if rg_events r AND EV_PERSIST \<noteq> 0 then w0 else evsets_remove EvRead w0)"
    and cap: "unat (bf_capacity (ss_inbuffer (w_session w0))) \<le> 2 ^ 62"
    and k: "\<forall>room. kernel_read room (readv room)"
  shows "\<exists>w'. channel_on_read E readv err ev w = Some w' \<and> sess_inv w'"
proof -
  have q: "quiet E" using E unfolding env_ok_def by blast
  define w1 where "w1 = (if \<not> persistent w then status_clear SESSION_READING w else w)"
  have i1: "sess_inv w1" "w_alive w1" using read_start_inv [OF inv w] by (simp_all add: w1_def)
  have c1: "unat (bf_capacity (ss_inbuffer (w_session w1))) \<le> 2 ^ 62"
    using cap by (simp add: w1_def w frame_simps status_clear_def on_session_def)
  show ?thesis
  proof (cases "ev AND EV_READ \<noteq> 0")
    case False
    define v where "v = (if persistent w1 then session_del_event EV_READ w1 else w1)"
    have "sess_inv v" "w_alive v" using if_inv [OF i1, of "persistent w1"] by (simp_all add: v_def)
    then obtain rc w' where "channel_timeout E v = Some (rc, w')" "sess_inv w'"
      using channel_timeout_inv [OF E] by blast
    then show ?thesis using False by (simp add: channel_on_read_def w1_def [symmetric] Let_def v_def)
  next
    case True
    obtain n w2 where r2: "channel_receive E readv w1 = Some (n, w2)" "sess_inv w2" "w_alive w2"
      using channel_receive_inv [OF i1 c1 k] by blast
    obtain np w3 where r3: "(if en_running E then channel_process E w2 else (0, w2)) = (np, w3)" "sess_inv w3" "w_alive w3"
      using channel_process_inv [OF E r2(2,3)] r2(2,3) by (cases "en_running E") auto
    define v where "v = (if persistent w3 then session_del_event EV_READ w3 else w3)"
    have v: "sess_inv v" "w_alive v" using if_inv [OF r3(2,3), of "persistent w3"] by (simp_all add: v_def)
    note d = sess_invD [OF v]
    obtain rs ws where sh: "session_shutdown E v = Some (rs, ws)" "sess_inv ws"
      using session_shutdown_inv [OF q d(1,3)] by blast
    have err: "\<exists>rc w'. channel_error E c v = Some (rc, w') \<and> sess_inv w'" for c
      by (rule channel_error_inv [OF q d(1)])
    have rd: "sess_inv (session_add_event EV_READ w3)" by (rule add_read_inv [OF r3(2,3)])
    show ?thesis
      using True r2(1) r3(1) sh err [of eIOError_OutMemory] err [of "read_error err"] err [of eIOError_PeerShutdown] rd r3(2) v(1)
      by (auto simp: channel_on_read_def w1_def [symmetric] Let_def v_def)
  qed
qed

section \<open>Writes\<close>

text \<open>The state in which a handler of the write event starts.\<close>

lemma write_start_live:
  assumes "sess_inv w0" "w_alive w0" "w_regs w0 EvWrite = Some r"
  shows "live_ok (status_clear SESSION_WRITING (evsets_remove EvWrite w0))"
    "rg_callback r \<noteq> On_reconnect \<Longrightarrow> 0 < ss_fd (w_session (status_clear SESSION_WRITING (evsets_remove EvWrite w0)))"
    "\<not> has_status SESSION_WRITING (status_clear SESSION_WRITING (evsets_remove EvWrite w0))"
    "rg_callback r = On_reconnect \<Longrightarrow> ss_fd (w_session (status_clear SESSION_WRITING (evsets_remove EvWrite w0))) < 0"
    "rg_events r AND EV_PERSIST = 0"
    "rg_callback r = Reconnected \<Longrightarrow> rg_tv r = - 1 \<and> rg_events r = EV_WRITE"
    "rg_callback r \<in> {On_write, On_reconnect, Reconnected}"
proof -
  note d = sess_invD [OF assms(1,2)]
  define w1 where "w1 = status_clear SESSION_WRITING (evsets_remove EvWrite w0)"
  have eo: "events_only w0 w1" by (simp add: w1_def events_only_status events_only_steps)
  have r: "regs_ok w0" by (rule live_okD(5) [OF d(1)])
  have "regs_ok w1" using r by (simp add: w1_def regs_ok_def regs_known_def regs_agree_def frame_simps status_simps)
  then show "live_ok w1" by (rule live_ok_events [OF d(1) eo])
  show "\<not> has_status SESSION_WRITING w1" by (simp add: w1_def status_simps)
  show "rg_callback r \<noteq> On_reconnect \<Longrightarrow> 0 < ss_fd (w_session w1)"
    "rg_callback r = On_reconnect \<Longrightarrow> ss_fd (w_session w1) < 0"
    "rg_events r AND EV_PERSIST = 0"
    "rg_callback r = Reconnected \<Longrightarrow> rg_tv r = - 1 \<and> rg_events r = EV_WRITE"
    "rg_callback r \<in> {On_write, On_reconnect, Reconnected}"
    using r assms(3) by (auto simp: w1_def frame_simps regs_ok_def regs_known_def regs_agree_def)
qed

lemma same_but_queue_live:
  assumes "live_ok w" "same_but_queue w w'" "queue_ok w'"
  shows "live_ok w'" "ss_fd (w_session w') = ss_fd (w_session w)" "has_status fl w' = has_status fl w"
proof -
  obtain q k where s: "w_session w' = (w_session w)\<lparr>ss_sendqueue := q, ss_msgoffset := k\<rparr>"
    using assms(2) unfolding same_but_queue_def by blast
  show "ss_fd (w_session w') = ss_fd (w_session w)" "has_status fl w' = has_status fl w"
    by (simp_all add: s has_status_session)
  show "live_ok w'"
    using assms(1,3) same_but_queueD [OF assms(2)] by (simp add: live_ok_def regs_ok_def regs_known_def has_status_session s)
qed

lemma on_write_inv:
  assumes E: "env_ok E" and l: "live_ok w1" "0 < ss_fd (w_session w1)" "\<not> has_status SESSION_WRITING w1"
    and w: "w1 = status_clear SESSION_WRITING w"
  shows "\<exists>w'. channel_on_write E ev w = Some w' \<and> sess_inv w'"
proof -
  have q: "quiet E" using E unfolding env_ok_def by blast
  have sh: "\<exists>w'. map_option snd (channel_shutdown E v) = Some w' \<and> sess_inv w'" if "live_ok v" for v
    using channel_shutdown_inv [OF q that] by auto
  have er: "\<exists>w'. map_option snd (channel_error E c v) = Some w' \<and> sess_inv w'" if "live_ok v" for v c
    using channel_error_inv [OF q that, of c] by auto
  show ?thesis
  proof (cases "ev AND EV_WRITE \<noteq> 0")
    case False
    then show ?thesis using sh [OF l(1)] by (simp add: channel_on_write_def w Let_def)
  next
    case ev: True
    show ?thesis
    proof (cases "0 < sendqueue_count w1")
      case False
      then have "queue_list w1 = []" using count_pos_iff [OF live_okD(3) [OF l(1)]] by simp
      then have "sess_inv w1" using l live_okD(1) [OF l(1)] by (simp add: sess_inv_def busy_ok_def)
      then show ?thesis using ev False by (simp add: channel_on_write_def w Let_def)
    next
      case True
      obtain rc w2 where t: "channel_transmit w1 = Some (rc, w2)" "queue_ok w2" "same_but_queue w1 w2"
        using transmit_runs [OF live_okD(2) [OF l(1)]] unfolding transmitted_def by blast
      note s = same_but_queue_live [OF l(1) t(3,2)]
      have ct: "call_transmit E w1 = Some (rc, w2)" using t(1) live_okD(7) [OF l(1)] by (simp add: call_transmit_def)
      have fd: "has_status SESSION_WRITING w2 \<or> 0 < ss_fd (w_session w2)" using s(2) l(2) by simp
      have eq: "channel_on_write E ev w =
        (if rc < 0 then map_option snd (channel_error E eIOError_WriteFailure w2)
         else if 0 < sendqueue_count w2 then
           if sendqueue_limit (ss_setting (w_session w2)) \<le> 0 \<or> uint (sendqueue_count w2) < sendqueue_limit (ss_setting (w_session w2))
           then Some (session_add_event EV_WRITE w2) else map_option snd (channel_error E eIOError_SendQueueLimit w2)
         else if has_status SESSION_EXITING w2 then map_option snd (channel_shutdown E w2) else Some w2)"
        using ev True ct by (simp add: channel_on_write_def Let_def flip: w)
      have idle: "sess_inv w2" if "\<not> 0 < sendqueue_count w2"
        using that count_pos_iff [OF live_okD(3) [OF s(1)]] s l(2) live_okD(1) [OF s(1)]
        by (simp add: sess_inv_def busy_ok_def)
      show ?thesis
        unfolding eq using er [OF s(1)] sh [OF s(1)] add_write_inv [OF s(1) fd] idle by auto
    qed
  qed
qed

section \<open>Keep-alive and timed tasks\<close>

lemma on_keepalive_inv:
  assumes E: "env_ok E" and inv: "sess_inv w0" "w_alive w0"
  shows "sess_inv (channel_on_keepalive E (evsets_remove EvKeepalive w0))"
proof -
  note d = sess_invD [OF inv]
  define w1 where "w1 = status_clear SESSION_KEEPALIVING (evsets_remove EvKeepalive w0)"
  have eo: "events_only w0 w1" by (simp add: w1_def events_only_status events_only_steps)
  have "regs_ok w1" using live_okD(5) [OF d(1)] by (simp add: w1_def regs_ok_def regs_known_def regs_agree_def frame_simps status_simps)
  then have "live_ok w1" by (rule live_ok_events [OF d(1) eo])
  moreover have "busy_ok w1" by (rule busy_ok_events [OF d(2) eo]) (simp add: w1_def status_simps)
  ultimately have i: "sess_inv w1" "w_alive w1" by (simp_all add: sess_inv_def live_ok_def)
  define w2 where "w2 = snd (sv_keepalive (en_service E) w1)"
  obtain rc where k: "sv_keepalive (en_service E) w1 = (rc, w2)" by (metis w2_def prod.collapse)
  have cb: "callback_ok (\<lambda>w. snd (sv_keepalive (en_service E) w))" using E unfolding env_ok_def by blast
  have i2: "sess_inv w2" "w_alive w2" using callback_okD(1,2) [OF cb i] by (simp_all add: w2_def)
  show ?thesis using k i2 keepalive_inv [OF i2] by (simp add: channel_on_keepalive_def w1_def Let_def)
qed

lemma on_schedule_inv:
  assumes E: "env_ok E" and inv: "sess_inv w0" "w_alive w0" "w_regs w0 (EvTask a) = Some r"
  shows "\<exists>w'. channel_on_schedule E a (evsets_remove (EvTask a) w0) = Some w' \<and> sess_inv w'"
proof -
  note d = sess_invD [OF inv(1,2)]
  have q: "quiet E" using E unfolding env_ok_def by blast
  define w1 where "w1 = evsets_remove (EvTask a) w0"
  have eo: "events_only w0 w1" by (simp add: w1_def events_only_steps)
  have r0: "regs_ok w0" by (rule live_okD(5) [OF d(1)])
  have "regs_ok w1" using r0 by (simp add: w1_def regs_ok_def regs_known_def regs_agree_def frame_simps status_simps)
  then have "live_ok w1" by (rule live_ok_events [OF d(1) eo])
  moreover have "busy_ok w1" by (rule busy_ok_events [OF d(2) eo]) (simp add: w1_def status_simps)
  ultimately have i: "sess_inv w1" "w_alive w1" by (simp_all add: sess_inv_def live_ok_def)
  have "a \<in> st_addr ` set (ss_tasklist (w_session w0))"
    using r0 inv(3) unfolding regs_ok_def regs_known_def regs_agree_def by blast
  then have mem1: "a \<in> st_addr ` set (ss_tasklist (w_session w1))" by (simp add: w1_def frame_simps)
  then obtain t where t: "find (\<lambda>t. st_addr t = a) (ss_tasklist (w_session w1)) = Some t"
    by (cases "find (\<lambda>t. st_addr t = a) (ss_tasklist (w_session w1))") (auto simp: find_None_iff)
  define w2 where "w2 = snd (sv_perform (en_service E) (st_type t) (st_task t) (st_interval t) w1)"
  obtain rc where p: "sv_perform (en_service E) (st_type t) (st_task t) (st_interval t) w1 = (rc, w2)"
    by (metis w2_def prod.collapse)
  have cb: "callback_ok (\<lambda>w. snd (sv_perform (en_service E) (st_type t) (st_task t) (st_interval t) w))"
    using E unfolding env_ok_def by blast
  have i2: "sess_inv w2" "w_alive w2" using callback_okD(1,2) [OF cb i] by (simp_all add: w2_def)
  note d2 = sess_invD [OF i2]
  have mem2: "a \<in> st_addr ` set (ss_tasklist (w_session w2))"
    using callback_okD(7) [OF cb i] mem1 by (auto simp: w2_def)
  obtain t2 where t2: "find (\<lambda>t. st_addr t = a) (ss_tasklist (w_session w2)) = Some t2"
    using mem2 by (cases "find (\<lambda>t. st_addr t = a) (ss_tasklist (w_session w2))") (auto simp: find_None_iff)
  then have "t2 \<in> set (ss_tasklist (w_session w2))" by (auto simp: find_Some_iff)
  then have ev2: "st_event t2" using live_okD(5) [OF d2(1)] unfolding regs_ok_def regs_known_def regs_agree_def by blast
  define w3 where "w3 = log_act (Act_recycle_task a) (evsets_remove (EvTask a)
     (on_session (\<lambda>s. s\<lparr>ss_tasklist := filter (\<lambda>t. st_addr t \<noteq> a) (ss_tasklist s)\<rparr>) w2))"
  have c: "session_cancel_task a w2 = Some (0, w3)" using t2 ev2 by (simp add: session_cancel_task_def w3_def Let_def)
  have w3: "w_session w3 = (w_session w2)\<lparr>ss_tasklist := filter (\<lambda>t. st_addr t \<noteq> a) (ss_tasklist (w_session w2))\<rparr>"
    "w_regs w3 = (w_regs w2)(EvTask a := None) \<and> w_refuse w3 = w_refuse w2" "w_msgs w3 = w_msgs w2" "w_next w3 = w_next w2" "w_alive w3 = w_alive w2"
    by (simp_all add: w3_def log_act_def on_session_def frame_simps)
  have af: "b \<in> st_addr ` set (filter (\<lambda>t. st_addr t \<noteq> a) ts) \<longleftrightarrow> b \<in> st_addr ` set ts \<and> b \<noteq> a" for b ts by auto
  have "\<forall>t \<in> set (filter (\<lambda>t. st_addr t \<noteq> a) (ss_tasklist (w_session w2))). st_event t"
    using live_okD(5) [OF d2(1)] by (simp add: regs_ok_def regs_known_def regs_agree_def)
  then have "regs_ok w3"
    using live_okD(5) [OF d2(1)] by (simp add: regs_ok_def regs_known_def regs_agree_def has_status_session w3 af del: set_filter)
  then have l3: "live_ok w3" using d2(1) by (simp add: live_ok_def queue_ok_def queue_list_def w3)
  have b3: "busy_ok w3" using d2(2) by (simp add: busy_ok_def queue_list_def has_status_session w3)
  then have i3: "sess_inv w3" "w_alive w3" using l3 by (simp_all add: sess_inv_def live_okD(1))
  define w4 where "w4 = session_close w3"
  have "regs_ok w4" using live_okD(5) [OF l3] by (simp add: w4_def session_close_def regs_ok_def regs_known_def frame_simps status_simps)
  then have l4: "live_ok w4"
    unfolding w4_def session_close_def by (rule live_ok_events [OF l3 events_only_steps(2)])
  have "has_status SESSION_WRITING w4 \<or> 0 < ss_fd (w_session w4)"
    using sess_invD(3) [OF i3] by (simp add: w4_def session_close_def status_simps)
  then obtain rs ws where "session_shutdown E w4 = Some (rs, ws)" "sess_inv ws"
    using session_shutdown_inv [OF q l4] by blast
  then show ?thesis
    using t p c i3 by (simp add: channel_on_schedule_def w4_def flip: w1_def)
qed

section \<open>Reconnecting\<close>

lemma on_reconnect_inv:
  assumes E: "env_ok E" and l: "live_ok w1" "\<not> has_status SESSION_WRITING w1" "ss_fd (w_session w1) < 0"
    and w: "w1 = status_clear SESSION_WRITING w"
  shows "\<exists>w'. channel_on_reconnect E w = Some w' \<and> sess_inv w'"
proof -
  have q: "quiet E" using E unfolding env_ok_def by blast
  have none: "w_regs w1 EvWrite = None"
    using live_okD(5) [OF l(1)] l(2) by (cases "w_regs w1 EvWrite") (auto simp: regs_ok_def regs_known_def regs_agree_def)
  have live: "live_ok (on_session (\<lambda>s. s\<lparr>ss_fd := fd\<rparr>) w1)" for fd
    using l(1,2) none by (simp add: live_ok_def queue_ok_def queue_list_def regs_ok_def regs_known_def regs_agree_def has_status_session on_session_def)
  define s where "s = w_session w1"
  define w2 where "w2 = (if ss_type s = eSessionType_Connect then on_session (\<lambda>s. s\<lparr>ss_fd := en_tcp_connect E\<rparr>) w1
     else if ss_type s = eSessionType_Associate
     then on_session (\<lambda>s. s\<lparr>ss_fd := en_reattach E (ss_fd s) (ss_privdata s)\<rparr>) w1 else w1)"
  obtain fd where fd: "w2 = on_session (\<lambda>s. s\<lparr>ss_fd := fd\<rparr>) w1" "fd \<noteq> 0"
  proof (cases "ss_type s = eSessionType_Connect")
    case True
    then show ?thesis using that [of "en_tcp_connect E"] E by (simp add: w2_def env_ok_def)
  next
    case False
    show ?thesis
    proof (cases "ss_type s = eSessionType_Associate")
      case True
      then show ?thesis
        using that [of "en_reattach E (ss_fd s) (ss_privdata s)"] False E
        by (simp add: w2_def env_ok_def s_def on_session_def)
    next
      case F: False
      then show ?thesis using that [of "ss_fd s"] False l(3) by (simp add: w2_def s_def on_session_def)
    qed
  qed
  have l2: "live_ok w2" using live fd(1) by simp
  have f2: "ss_fd (w_session w2) = fd" by (simp add: fd(1) on_session_def)
  have eq: "channel_on_reconnect E w = (if fd < 0 then map_option snd (channel_error E eIOError_ConnectFailure w2)
      else Some (status_set SESSION_WRITING (register EvWrite fd EV_WRITE Reconnected (- 1) w2)))"
    by (simp add: channel_on_reconnect_def Let_def w2_def s_def f2 [unfolded w2_def s_def] flip: w)
  show ?thesis
  proof (cases "fd < 0")
    case True
    then show ?thesis using channel_error_inv [OF q l2, of eIOError_ConnectFailure] by (auto simp: eq)
  next
    case False
    define w3 where "w3 = status_set SESSION_WRITING (register EvWrite fd EV_WRITE Reconnected (- 1) w2)"
    have pos: "0 < fd" using False fd(2) by simp
    have "\<not> has_status SESSION_WRITING w2" using l(2) by (simp add: fd(1) has_status_session on_session_def)
    then have nw: "w_regs w2 EvWrite = None"
      using live_okD(5) [OF l2] by (cases "w_regs w2 EvWrite") (auto simp: regs_ok_def regs_known_def regs_agree_def)
    have "regs_ok w3"
      using live_okD(5) [OF l2] pos f2 nw by (simp add: w3_def regs_ok_def regs_known_def regs_agree_def frame_simps status_simps armed_def)
    then have "live_ok w3"
      unfolding w3_def by (intro live_ok_events [OF l2]) (simp_all add: events_only_status events_only_steps)
    moreover have "busy_ok w3" by (simp add: busy_ok_def w3_def status_simps)
    ultimately show ?thesis using False live_okD(1) by (simp add: eq sess_inv_def w3_def)
  qed
qed

lemma merge_loop_spec:
  assumes "ring_ok q" "ring_list q = as" "ring_ok (ss_sendqueue (w_session w))"
    "length (queue_list w) + length as \<le> 2 ^ 31"
  shows "\<exists>q' sq. merge_loop True q w = Some (q', on_session (\<lambda>s. s\<lparr>ss_sendqueue := sq\<rparr>) w) \<and>
    ring_ok sq \<and> ring_list sq = queue_list w @ as"
  using assms
proof (induction as arbitrary: q w)
  case Nil
  then have "QUEUE_COUNT q = 0" by (simp add: ring_count_zero_iff)
  then show ?case
    using Nil by (intro exI [of _ q] exI [of _ "ss_sendqueue (w_session w)"])
      (simp add: merge_loop.simps [of True q] on_session_def queue_list_def)
next
  case (Cons a as)
  obtain q1 where q1: "QUEUE_POP q = Some (1, Some a, q1)" "ring_ok q1" "ring_list q1 = as"
    using ring_pop [OF Cons.prems(1,2)] by blast
  obtain sq where sq: "sendqueue_append True a w = Some (0, on_session (\<lambda>s. s\<lparr>ss_sendqueue := sq\<rparr>) w)" "ring_ok sq"
    "ring_list sq = queue_list w @ [a]"
    using sendqueue_append_ok [OF Cons.prems(3), of a] Cons.prems(4) by auto
  define w1 where "w1 = on_session (\<lambda>s. s\<lparr>ss_sendqueue := sq\<rparr>) w"
  have w1: "ring_ok (ss_sendqueue (w_session w1))" "queue_list w1 = queue_list w @ [a]"
    using sq by (simp_all add: w1_def on_session_def queue_list_def)
  have len: "length (queue_list w1) + length as \<le> 2 ^ 31" using Cons.prems(4) w1(2) by simp
  obtain q' sq' where r: "merge_loop True q1 w1 = Some (q', on_session (\<lambda>s. s\<lparr>ss_sendqueue := sq'\<rparr>) w1)" "ring_ok sq'"
    "ring_list sq' = queue_list w1 @ as"
    using Cons.IH [OF q1(2,3) w1(1) len] by blast
  have "QUEUE_COUNT q \<noteq> 0" using ring_count_zero_iff [OF Cons.prems(1)] Cons.prems(2) by simp
  then have "merge_loop True q w = merge_loop True q1 w1"
    using q1(1) sq(1) by (simp add: merge_loop.simps [of True q] word_gt_0 w1_def)
  then show ?case
    using r w1(2) by (intro exI [of _ q'] exI [of _ sq']) (simp add: w1_def on_session_def)
qed

text \<open>Two queues of messages with different addresses put together.\<close>

lemma msgs_ok_append:
  assumes "msgs_ok msgs as" "msgs_ok msgs bs" "set as \<inter> set bs = {}"
  shows "msgs_ok msgs (as @ bs)"
  unfolding msgs_ok_def
proof
  fix a assume a: "a \<in> set (as @ bs)"
  then consider "a \<in> set as" "count_list bs a = 0" | "a \<in> set bs" "count_list as a = 0"
    using assms(3) by (auto simp: count_list_0_iff)
  then show "\<exists>m. msgs a = Some m \<and> sendable m \<and> outcomes m + count_list (as @ bs) a \<le> length (receivers m)"
    using assms(1,2) unfolding msgs_ok_def by cases auto
qed

text \<open>The send queue is set aside while the application starts the session again, and put behind what it sent.\<close>

lemma reconnected_states:
  assumes E: "env_ok E" and l: "live_ok w1" "0 < ss_fd (w_session w1)" "\<not> has_status SESSION_WRITING w1"
    and w: "w1 = status_clear SESSION_WRITING w" and ev: "ev AND EV_WRITE \<noteq> 0"
    and small: "length (queue_list w1) < 2 ^ 30" and conn: "en_is_connected E = 0"
  obtains q0 w2 w3 sq w4 where "w2 = on_session (\<lambda>s. s\<lparr>ss_msgoffset := 0, ss_sendqueue := q0\<rparr>) w1" "ring_list q0 = []"
    "sess_inv w2" "w_alive w2" "w3 = snd (sv_start (en_service E) w2)" "sess_inv w3" "w_alive w3"
    "w4 = on_session (\<lambda>s. s\<lparr>ss_sendqueue := sq\<rparr>) w3" "queue_list w4 = queue_list w3 @ queue_list w1" "live_ok w4"
    "channel_reconnected E ev w =
       Some (snd (session_start_keepalive (session_add_event EV_WRITE (session_add_event EV_READ w4))))"
proof -
  have mem: "en_mem_queue E" using E unfolding env_ok_def memory_ok_def by blast
  have "\<exists>k < 32. unat DEFAULT_SENDQUEUE_SIZE = 2 ^ k"
    by (intro exI [of _ 7]) (simp add: DEFAULT_SENDQUEUE_SIZE_def)
  then obtain q0 where q0: "QUEUE_INIT True (0::nat) DEFAULT_SENDQUEUE_SIZE = (0, q0)" "ring_ok q0" "ring_list q0 = []"
    using ring_init [of DEFAULT_SENDQUEUE_SIZE 0] by blast
  define as where "as = queue_list w1"
  define w2 where "w2 = on_session (\<lambda>s. s\<lparr>ss_msgoffset := 0, ss_sendqueue := q0\<rparr>) w1"
  have take: "session_sendqueue_take (en_mem_queue E) w1 = (ss_sendqueue (w_session w1), w2)"
    using mem q0(1) by (simp add: session_sendqueue_take_def ring_swap w2_def)
  have w2: "queue_list w2 = []" "w_msgs w2 = w_msgs w1" "w_next w2 = w_next w1" "w_alive w2 = w_alive w1"
    using q0(3) by (simp_all add: w2_def queue_list_def on_session_def)
  have "live_ok w2"
    using l(1) q0(2) w2(1) by (simp add: live_ok_def queue_ok_def regs_ok_def regs_known_def has_status_session w2_def on_session_def
        queue_list_def msgs_ok_def offset_ok_def)
  moreover have "busy_ok w2" using l(2) w2(1) by (simp add: busy_ok_def w2_def on_session_def)
  ultimately have i2: "sess_inv w2" "w_alive w2" by (simp_all add: sess_inv_def live_okD(1))
  define w3 where "w3 = snd (sv_start (en_service E) w2)"
  obtain rc where st: "sv_start (en_service E) w2 = (rc, w3)" by (metis w3_def prod.collapse)
  have cb: "callback_ok (\<lambda>w. snd (sv_start (en_service E) w))" using E unfolding env_ok_def by blast
  have i3: "sess_inv w3" "w_alive w3" using callback_okD(1,2) [OF cb i2] by (simp_all add: w3_def)
  have c3: "w_next w1 \<le> w_next w3" "\<forall>a < w_next w1. w_msgs w3 a = w_msgs w1 a" "\<forall>a \<in> set (queue_list w3). w_next w1 \<le> a"
    "length (queue_list w3) \<le> 2 ^ 20"
    using callback_okD(3,4,5,6) [OF cb i2] w2 by (simp_all add: w3_def)
  note d3 = sess_invD [OF i3]
  have as: "msgs_ok (w_msgs w1) as" "\<forall>a \<in> set as. a < w_next w1"
    using live_okD(2) [OF l(1)] by (simp_all add: queue_ok_def as_def)
  then have as3: "msgs_ok (w_msgs w3) as" using c3(2) unfolding msgs_ok_def by simp
  have "length (queue_list w3) + length as \<le> 2 ^ 31" using c3(4) small by (simp add: as_def)
  then obtain q' sq where m: "merge_loop True (ss_sendqueue (w_session w1)) w3 = Some (q', on_session (\<lambda>s. s\<lparr>ss_sendqueue := sq\<rparr>) w3)"
    "ring_ok sq" "ring_list sq = queue_list w3 @ as"
    using merge_loop_spec [OF live_okD(3) [OF l(1)] _ live_okD(3) [OF d3(1)], of as] by (auto simp: as_def queue_list_def)
  define w4 where "w4 = on_session (\<lambda>s. s\<lparr>ss_sendqueue := sq\<rparr>) w3"
  have w4: "queue_list w4 = queue_list w3 @ as" "w_msgs w4 = w_msgs w3" "w_next w4 = w_next w3"
    "ss_msgoffset (w_session w4) = ss_msgoffset (w_session w3)" "ss_sendqueue (w_session w4) = sq"
    using m(3) by (simp_all add: w4_def queue_list_def on_session_def)
  have q3: "queue_ok w3" by (rule live_okD(2) [OF d3(1)])
  have disj: "set (queue_list w3) \<inter> set as = {}" using c3(3) as(2) by force
  have "msgs_ok (w_msgs w3) (queue_list w3 @ as)"
    using msgs_ok_append [OF _ as3 disj] q3 by (simp add: queue_ok_def)
  moreover have "offset_ok (w_msgs w3) (queue_list w3 @ as) (ss_msgoffset (w_session w3))"
  proof (cases "queue_list w3")
    case Nil
    then have off: "ss_msgoffset (w_session w3) = 0" using q3 by (simp add: queue_ok_def offset_ok_def)
    show ?thesis
    proof (cases as)
      case (Cons a bs)
      then obtain m where "w_msgs w3 a = Some m" "sendable m" using as3 unfolding msgs_ok_def by auto
      from sendable_bytes(3) [of "w_msgs w3", OF this] show ?thesis using Nil Cons off by (simp add: offset_ok_def)
    qed (use Nil off in \<open>simp add: offset_ok_def\<close>)
  next
    case (Cons a bs)
    then show ?thesis using q3 by (simp add: queue_ok_def offset_ok_def)
  qed
  moreover have "\<forall>a \<in> set (queue_list w3 @ as). a < w_next w3" using q3 as(2) c3(1) by (auto simp: queue_ok_def)
  ultimately have q4: "queue_ok w4" using m(2) unfolding queue_ok_def w4 by blast
  have l4: "live_ok w4"
    using d3(1) q4 by (simp add: live_ok_def regs_ok_def regs_known_def has_status_session w4_def on_session_def)
  have "channel_reconnected E ev w =
      Some (snd (session_start_keepalive (session_add_event EV_WRITE (session_add_event EV_READ w4))))"
    using conn ev take st m(1) mem
    by (simp add: channel_reconnected_def Let_def session_sendqueue_merge_def w4_def flip: w)
  then show thesis
    using that [OF w2_def q0(3) i2 w3_def i3 w4_def _ l4] w4(1) unfolding as_def by blast
qed

lemma reconnected_inv:
  assumes E: "env_ok E" and l: "live_ok w1" "0 < ss_fd (w_session w1)" "\<not> has_status SESSION_WRITING w1"
    and w: "w1 = status_clear SESSION_WRITING w" and ev: "ev AND EV_WRITE \<noteq> 0"
    and small: "length (queue_list w1) < 2 ^ 30"
  shows "\<exists>w'. channel_reconnected E ev w = Some w' \<and> sess_inv w'"
proof (cases "en_is_connected E = 0")
  case False
  have "quiet E" using E unfolding env_ok_def by blast
  then show ?thesis
    using channel_error_inv [OF _ l(1), of E eIOError_ConnectStatus] False ev
    by (auto simp: channel_reconnected_def Let_def simp flip: w)
next
  case conn: True
  obtain q0 w2 w3 sq w4 where i3: "sess_inv w3" "w_alive w3" and w4: "w4 = on_session (\<lambda>s. s\<lparr>ss_sendqueue := sq\<rparr>) w3"
    and l4: "live_ok w4"
    and eq: "channel_reconnected E ev w =
       Some (snd (session_start_keepalive (session_add_event EV_WRITE (session_add_event EV_READ w4))))"
    using reconnected_states [OF E l w ev small conn] by metis
  define w5 where "w5 = session_add_event EV_READ w4"
  have l5: "live_ok w5" unfolding w5_def by (rule add_read_live [OF l4])
  have "has_status SESSION_WRITING w4 \<or> 0 < ss_fd (w_session w4)"
    using sess_invD(3) [OF i3] by (simp add: w4 has_status_session on_session_def)
  then have "has_status SESSION_WRITING w5 \<or> 0 < ss_fd (w_session w5)"
    using session_data_fields(2) [of "w_session w5" "w_session w4"] add_event_only [of w4 EV_READ]
    by (simp add: w5_def add_read_state events_only_def)
  then have i6: "sess_inv (session_add_event EV_WRITE w5)" "w_alive (session_add_event EV_WRITE w5)"
    using add_write_inv [OF l5] live_okD(1) [OF add_write_live(1) [OF l5]] by blast+
  then show ?thesis using keepalive_inv [OF i6] by (simp add: eq w5_def)
qed

section \<open>Firing any event\<close>

lemma fire_inv:
  assumes "env_ok E" "sess_inv w" "w_alive w" "w_regs w e = Some r" "occurrence_ok r oc"
    and "unat (bf_capacity (ss_inbuffer (w_session w))) \<le> 2 ^ 62" "length (queue_list w) < 2 ^ 30"
  shows "\<exists>w'. fire E e oc w = Some w' \<and> sess_inv w'"
proof -
  note d = sess_invD [OF assms(2,3)]
  have r0: "regs_ok w" by (rule live_okD(5) [OF d(1)])
  show ?thesis
  proof (cases e)
    case EvRead
    then have "rg_callback r = On_read" using r0 assms(4) unfolding regs_ok_def regs_known_def regs_agree_def by blast
    then show ?thesis
      using on_read_inv [OF assms(1-3) assms(4) [unfolded EvRead] refl assms(6), of "oc_readv oc" "oc_errno oc" "oc_results oc"] assms(4,5) EvRead
      by (simp add: fire_def Let_def occurrence_ok_def split del: if_split)
  next
    case EvWrite
    define v where "v = evsets_remove EvWrite w"
    note s = write_start_live [OF assms(2,3) assms(4) [unfolded EvWrite], folded v_def]
    have small: "length (queue_list (status_clear SESSION_WRITING v)) < 2 ^ 30"
      using assms(7) by (simp add: v_def queue_list_def status_clear_def on_session_def frame_simps)
    have fire: "fire E e oc w = (case rg_callback r of
        On_read \<Rightarrow> channel_on_read E (oc_readv oc) (oc_errno oc) (oc_results oc) v
      | On_write \<Rightarrow> channel_on_write E (oc_results oc) v
      | On_keepalive \<Rightarrow> Some (channel_on_keepalive E v)
      | On_reconnect \<Rightarrow> channel_on_reconnect E v
      | Reconnected \<Rightarrow> channel_reconnected E (oc_results oc) v
      | On_schedule \<Rightarrow> None)"
      using assms(4) s(5) by (cases "rg_callback r") (simp_all add: fire_def EvWrite v_def Let_def)
    consider (W) "rg_callback r = On_write" | (R) "rg_callback r = On_reconnect" | (C) "rg_callback r = Reconnected"
      using s(7) by blast
    then show ?thesis
    proof cases
      case W
      then show ?thesis using on_write_inv [OF assms(1) s(1) _ s(3) refl] s(2) by (simp add: fire)
    next
      case R
      then show ?thesis using on_reconnect_inv [OF assms(1) s(1,3) _ refl] s(4) by (simp add: fire)
    next
      case C
      have "oc_results oc AND EV_WRITE \<noteq> 0"
        using assms(5) s(6) [OF C] by (auto simp: occurrence_ok_def)
      then show ?thesis using reconnected_inv [OF assms(1) s(1) _ s(3) refl _ small] s(2) C by (simp add: fire)
    qed
  next
    case EvKeepalive
    then have "rg_callback r = On_keepalive" "rg_events r = 0"
      using r0 assms(4) unfolding regs_ok_def regs_known_def regs_agree_def by blast+
    then show ?thesis using on_keepalive_inv [OF assms(1-3)] assms(4) EvKeepalive by (simp add: fire_def)
  next
    case (EvTask a)
    then have "rg_callback r = On_schedule" "rg_events r = 0"
      using r0 assms(4) unfolding regs_ok_def regs_known_def regs_agree_def by blast+
    then show ?thesis using on_schedule_inv [OF assms(1-3) assms(4) [unfolded EvTask]] assms(4) EvTask by (simp add: fire_def)
  qed
qed

text \<open>
  Whichever registered event of a live session fires, with whatever the kernel reports and
  with callbacks that use the session, its handler does not fault and leaves the session consistent:
  as long as the session lives, unsent data has a write event or a reconnection registered and every
  registered event is known to the status flags; once it has ended, none of its events is registered.\<close>

theorem fire_keeps_session:
  assumes "env_ok E" "sess_inv w" "w_alive w" "w_regs w e = Some r" "occurrence_ok r oc"
    and "unat (bf_capacity (ss_inbuffer (w_session w))) \<le> 2 ^ 62" "length (queue_list w) < 2 ^ 30"
  shows "\<exists>w'. fire E e oc w = Some w' \<and> sess_inv w' \<and>
    (w_alive w' \<and> pending w' \<noteq> [] \<longrightarrow> w_regs w' EvWrite \<noteq> None) \<and>
    (\<not> w_alive w' \<longrightarrow> (\<forall>e. w_regs w' e = None))"
proof -
  have fin: "(w_alive w' \<and> pending w' \<noteq> [] \<longrightarrow> w_regs w' EvWrite \<noteq> None) \<and>
    (\<not> w_alive w' \<longrightarrow> (\<forall>e. w_regs w' e = None))" if i: "sess_inv w'" for w'
  proof (intro conjI impI)
    assume "w_alive w' \<and> pending w' \<noteq> []"
    then have "live_ok w'" "busy_ok w'" "queue_list w' \<noteq> []"
      using i by (auto simp: sess_inv_def pending_def)
    then show "w_regs w' EvWrite \<noteq> None" by (auto simp: live_ok_def busy_ok_def regs_ok_def regs_known_def regs_agree_def)
  next
    assume "\<not> w_alive w'"
    then show "\<forall>e. w_regs w' e = None" using i by (simp add: sess_inv_def)
  qed
  show ?thesis using fire_inv [OF assms] fin by blast
qed

section \<open>Sending and shutting down\<close>

lemma session_send_inv:
  assumes mem: "memory_ok E" and inv: "sess_inv w" "w_alive w" "\<not> has_status SESSION_EXITING w"
    and small: "length (queue_list w) < 2 ^ 31" "length d < 2 ^ 64"
  shows "\<exists>n w'. send_buffer E d w = Some (n, w') \<and> sess_inv w' \<and> w_alive w'"
proof -
  note d = sess_invD [OF inv(1,2)]
  obtain n w' v q where r: "send_buffer E d w = Some (int n, w')" "w_alive w' = w_alive w"
    "queue_ok v" "w_regs v = w_regs w \<and> w_refuse v = w_refuse w" "w_alive v = w_alive w" "w_session v = (w_session w)\<lparr>ss_sendqueue := q\<rparr>"
    "w' = session_add_event EV_WRITE v \<or> w' = v \<and> queue_list v = queue_list w"
    using send_buffer_stream [OF live_okD(2,7) [OF d(1)] inv(3) mem small] by blast
  have lv: "live_ok v" using d(1) r(3-6) by (simp add: live_ok_def regs_ok_def regs_known_def has_status_session)
  have st: "has_status SESSION_WRITING v \<or> 0 < ss_fd (w_session v)" using d(3) r(6) by (simp add: has_status_session)
  have "sess_inv v" if "queue_list v = queue_list w"
    using that lv d(2) r(5,6) inv(2) by (simp add: sess_inv_def busy_ok_def has_status_session)
  then have "sess_inv w'" using r(7) add_write_inv [OF lv st] by blast
  then show ?thesis using r(1,2) inv(2) by blast
qed

text \<open>
  C9: shutting down a session with unsent data loses none of it: the call only marks the session as
  closing, stops reading, keeps every pending byte and leaves the write event as it is registered.
  In particular that registration keeps the time-out it had, which is none for an ordinary write
  event, although the code means closing sessions to be limited to ten seconds.\<close>

theorem session_shutdown_keeps_data:
  assumes "quiet E" "sess_inv w" "w_alive w" "\<not> has_status SESSION_EXITING w" "pending w \<noteq> []"
  shows "\<exists>w'. session_shutdown E w = Some (1, w') \<and> sess_inv w' \<and> w_alive w' \<and> has_status SESSION_EXITING w' \<and>
    pending w' = pending w \<and> w_out w' = w_out w \<and> w_regs w' EvRead = None \<and>
    w_regs w' EvWrite = w_regs w EvWrite \<and> w_regs w EvWrite \<noteq> None"
proof -
  note d = sess_invD [OF assms(2,3)]
  have ne: "queue_list w \<noteq> []" using assms(5) by (auto simp: pending_def)
  then have pos: "0 < sendqueue_count w" using count_pos_iff [OF live_okD(3) [OF d(1)]] by simp
  have wr: "has_status SESSION_WRITING w" using d(2) ne by (simp add: busy_ok_def)
  then have reg: "w_regs w EvWrite \<noteq> None"
    using live_okD(5) [OF d(1)] unfolding regs_ok_def regs_known_def regs_agree_def by blast
  define w1 where "w1 = status_set SESSION_EXITING w"
  define w2 where "w2 = session_del_event EV_READ w1"
  have wr2: "has_status SESSION_WRITING w2" using wr by (simp add: w2_def w1_def del_read_state status_simps)
  then have same: "session_add_event EV_WRITE w2 = w2" by (simp add: session_add_event_def Let_def)
  have eq: "session_shutdown E w = Some (1, w2)"
    using pos assms(4) same by (simp add: session_shutdown_def w1_def w2_def Let_def)
  obtain rc w' where "session_shutdown E w = Some (rc, w')" "sess_inv w'"
    using session_shutdown_inv [OF assms(1) d(1,3)] by blast
  then have i: "sess_inv w2" using eq by simp
  have eo: "events_only w w2"
    using del_event_only [of w1 EV_READ] events_only_trans [OF events_only_steps(2) del_event_only]
    by (simp add: w2_def w1_def)
  have rd: "w_regs w2 EvRead = None"
  proof (cases "has_status SESSION_READING w")
    case True
    then show ?thesis by (simp add: w2_def w1_def session_del_event_def Let_def status_simps frame_simps)
  next
    case False
    then have "w_regs w EvRead = None"
      using live_okD(5) [OF d(1)] by (cases "w_regs w EvRead") (auto simp: regs_ok_def regs_known_def regs_agree_def)
    then show ?thesis using False by (simp add: w2_def w1_def session_del_event_def Let_def status_simps frame_simps)
  qed
  have "has_status SESSION_EXITING w2" by (simp add: w2_def w1_def del_read_state status_simps)
  moreover have "w_regs w2 EvWrite = w_regs w EvWrite" by (simp add: w2_def w1_def del_read_state frame_simps)
  ultimately show ?thesis
    using eq i rd reg eo events_only_queue(2) [OF eo] assms(3) by (intro exI [of _ w2]) (simp add: events_only_def)
qed

text \<open>
  C38: a queued message without bytes can never be sent: the transmission writes nothing, reports
  no error and leaves it at the head of the queue, so the write handler registers for writing again
  and again.\<close>

theorem zero_length_message_stays:
  assumes "ring_ok (ss_sendqueue (w_session w))" "queue_list w = [a]" "w_msgs w a = Some m" "msg_length m = 0"
    and "ss_msgoffset (w_session w) = 0" "setting_transport (ss_setting (w_session w)) = Channel"
    and "sendqueue_limit (ss_setting (w_session w)) \<le> 0"
  shows "channel_transmit w = Some (0, w) \<and>
    channel_on_write E EV_WRITE w = Some (session_add_event EV_WRITE (status_clear SESSION_WRITING w)) \<and>
    queue_list (session_add_event EV_WRITE (status_clear SESSION_WRITING w)) = [a]"
proof -
  have tr: "channel_transmit v = Some (0, v)"
    if v: "ss_sendqueue (w_session v) = ss_sendqueue (w_session w)" "w_msgs v = w_msgs w" "ss_msgoffset (w_session v) = 0" for v
  proof -
    have rl: "ring_list (ss_sendqueue (w_session v)) = [a]" using assms(2) v(1) by (simp add: queue_list_def)
    have cnt: "unat (sendqueue_count v) = 1"
      using queue_length [of v] assms(1) v(1) rl by (simp add: queue_list_def)
    have "QUEUE_GET (ss_sendqueue (w_session v)) 0 = Some (0, Some a)"
      using ring_get [of "ss_sendqueue (w_session v)" 0] assms(1) v(1) rl by simp
    then have "gather_loop (w_msgs v) (ss_sendqueue (w_session v)) [0..<unat (sendqueue_count v)] (ss_msgoffset (w_session v)) 0 = Some []"
      using cnt v assms(3,4) by (simp add: iov_max_def message_get_length_def)
    moreover have "0 < sendqueue_count v" using cnt by (simp add: word_less_nat_alt)
    ultimately show ?thesis by (simp add: channel_transmit_def sys_write_def)
  qed
  define w1 where "w1 = status_clear SESSION_WRITING w"
  have s1: "session_data (w_session w1) = session_data (w_session w)" by (simp add: w1_def frame_simps)
  note f1 = session_data_fields [OF s1]
  have t1: "channel_transmit w1 = Some (0, w1)" using tr [of w1] f1 assms(5) by (simp add: w1_def frame_simps)
  have q1: "queue_list w1 = [a]" using f1 assms(2) by (simp add: queue_list_def)
  have "0 < sendqueue_count w1"
    using count_pos_iff [of w1] f1 assms(1) q1 by simp
  then have "channel_on_write E EV_WRITE w = Some (session_add_event EV_WRITE w1)"
    using t1 f1 assms(6,7) by (simp add: channel_on_write_def Let_def call_transmit_def flip: w1_def)
  moreover have "queue_list (session_add_event EV_WRITE w1) = [a]"
    using events_only_queue(1) [OF add_event_only, of EV_WRITE w1] q1 by simp
  ultimately show ?thesis using tr [of w] assms(5) by (simp add: w1_def)
qed

section \<open>Instances\<close>

text \<open>A session with one message of three bytes to send to itself, waiting for its descriptor.\<close>

definition demo_message :: message where
  "demo_message = \<lparr>msg_nsuccess = 0, msg_nfailure = 0, msg_buffer = Some [1, 2, 3], msg_length = 3,
     msg_tolist = Some \<lparr>sl_count = 1, sl_size = 1, sl_entries = Some [42]\<rparr>\<rparr>"

definition demo_session :: session where
  "demo_session = \<lparr>ss_id = 42, ss_fd = 5, ss_type = eSessionType_Accept, ss_status = SESSION_WRITING, ss_host = None,
     ss_port = 80, ss_driver = None, ss_privdata = 0, ss_reattach = 0, ss_inbuffer = buffer_init, ss_tasklist = [],
     ss_msgoffset = 1, ss_sendqueue = \<lparr>q_size = 2, q_entries = Some [7, 0], q_head = 0, q_tail = 1\<rparr>,
     ss_setting = init_settings\<lparr>setting_transport := Channel\<rparr>\<rparr>"

definition demo_world :: world where
  "demo_world = \<lparr>w_session = demo_session, w_alive = True, w_msgs = (\<lambda>a. if a = 7 then Some demo_message else None),
     w_next = 8, w_out = [1], w_io = [Wrote 1, Failed EAGAIN],
     w_regs = (\<lambda>e. if e = EvWrite then Some \<lparr>rg_fd = 5, rg_events = EV_WRITE, rg_callback = On_write, rg_tv = - 1\<rparr> else None),
     w_refuse = (\<lambda>_. False),
     w_acts = []\<rparr>"

definition demo_env :: environment where
  "demo_env = \<lparr>en_mem_queue = True, en_mem_message = True, en_mem_buffer = True, en_mem_sidlist = True,
     en_mem_task = True, en_mem_event = True, en_fresh_sid = (\<lambda>_. 0), en_fresh_byte = (\<lambda>_. 0),
     en_service = \<lparr>sv_start = (\<lambda>w. (0, w)), sv_process = (\<lambda>bs w. (int (length bs), w)), sv_transform = None,
       sv_keepalive = (\<lambda>w. (0, w)), sv_timeout = (\<lambda>w. (0, w)), sv_error = (\<lambda>r w. (0, w)),
       sv_perform = (\<lambda>ty t i w. (0, w)), sv_shutdown = (\<lambda>way w. w)\<rparr>,
     en_driver_send = (\<lambda>bs w. None), en_driver_transmit = (\<lambda>w. None), en_tcp_connect = 6,
     en_reattach = (\<lambda>fd d. - 1), en_is_connected = 0, en_running = True, en_refuse = (\<lambda>_. False)\<rparr>"

lemma demo_env_ok: "env_ok demo_env"
  by (simp add: env_ok_def demo_env_def memory_ok_def quiet_def callback_ok_def)

lemma demo_message_ok: "sendable demo_message" "receivers demo_message = [42]" "outcomes demo_message = 0"
  by (simp_all add: sendable_def demo_message_def message_ok_def sidlist_ok_def receivers_def sids_def outcomes_def)

lemma demo_world_queue: "queue_list demo_world = [7]" "pending demo_world = [2, 3]"
  by (simp_all add: queue_list_def pending_def demo_world_def demo_session_def ring_list_def QUEUE_COUNT_def q_slot_def
      bytes_of_def demo_message_def)

lemma demo_world_live: "live_ok demo_world"
proof -
  have "ring_ok (ss_sendqueue demo_session)"
    by (auto simp: demo_session_def ring_ok_def QUEUE_COUNT_def intro: exI [of _ 1])
  moreover have "msgs_ok (w_msgs demo_world) [7]"
    using demo_message_ok by (simp add: msgs_ok_def demo_world_def)
  ultimately have "queue_ok demo_world"
    using demo_world_queue
    by (simp add: queue_ok_def) (simp add: demo_world_def demo_session_def offset_ok_def bytes_of_def demo_message_def)
  moreover have "regs_ok demo_world"
    by (simp add: regs_ok_def regs_known_def regs_agree_def demo_world_def demo_session_def has_status_def)
  moreover have "buffer_ok (ss_inbuffer demo_session)" by (simp add: demo_session_def buffer_init_def buffer_ok_def)
  ultimately show ?thesis by (simp add: live_ok_def demo_world_def) (simp add: demo_session_def)
qed

lemma demo_world_inv: "sess_inv demo_world" "w_alive demo_world"
  using demo_world_live
  by (simp_all add: sess_inv_def busy_ok_def) (simp_all add: demo_world_def demo_session_def has_status_def)

lemma demo_world_status: "\<not> has_status SESSION_EXITING demo_world" "has_status SESSION_WRITING demo_world"
  by (simp_all add: has_status_def demo_world_def demo_session_def)

theorem channel_transmit_streams_witness:
  "\<exists>rc w' bs. channel_transmit demo_world = Some (rc, w') \<and> w_out w' = [1] @ bs \<and> [2, 3] = bs @ pending w'"
proof -
  have "w_out demo_world = [1]" by (simp add: demo_world_def)
  then show ?thesis
    using channel_transmit_streams [OF live_okD(2) [OF demo_world_live]] demo_world_queue(2) by metis
qed

theorem session_send_streams_witness:
  "\<exists>rc w'. session_send demo_env [9, 8] demo_world = Some (rc, w') \<and> 0 \<le> rc \<and>
     w_out w' @ pending w' = [1] @ [2, 3] @ [9, 8]"
proof -
  have "w_out demo_world = [1]" "memory_ok demo_env" "sv_transform (en_service demo_env) = None"
    "setting_transport (ss_setting (w_session demo_world)) = Channel"
    by (simp_all add: demo_world_def demo_env_def memory_ok_def demo_session_def)
  then show ?thesis
    using session_send_streams [OF live_okD(2) [OF demo_world_live], where E = demo_env and buf = "[9, 8]"
        and t = "Fresh [9, 8]" and d = "[9, 8]"] demo_world_status demo_world_queue by auto
qed

theorem session_end_accounts_witness:
  "\<exists>w'. session_end demo_env 42 False demo_world = Some (0, w') \<and> w_regs w' EvWrite = None \<and>
    w_acts w' = [Act_message_destroy 7, Act_close 5, Act_session_end 42]"
proof -
  have "freed message_add_failure (w_msgs demo_world) [7] = [7]"
    using demo_message_ok by (simp add: demo_world_def message_is_complete_def message_add_failure_def demo_message_def)
  moreover have "w_acts demo_world = []" "ss_tasklist (w_session demo_world) = []" "ss_driver (w_session demo_world) = None"
    "ss_fd (w_session demo_world) = 5" "ss_type (w_session demo_world) \<noteq> eSessionType_Shared"
    by (simp_all add: demo_world_def demo_session_def eSessionType_Accept_def eSessionType_Shared_def)
  ultimately show ?thesis
    using session_end_accounts [OF demo_world_live, of demo_env 42 False] demo_world_queue(1) by auto
qed

definition demo_occurrence :: occurrence where
  "demo_occurrence = \<lparr>oc_results = EV_WRITE, oc_readv = (\<lambda>_. (0, [])), oc_errno = Errno_other\<rparr>"

theorem fire_keeps_session_witness:
  "\<exists>w'. fire demo_env EvWrite demo_occurrence demo_world = Some w' \<and> sess_inv w'"
proof -
  have "w_regs demo_world EvWrite = Some \<lparr>rg_fd = 5, rg_events = EV_WRITE, rg_callback = On_write, rg_tv = - 1\<rparr>"
    by (simp add: demo_world_def)
  then show ?thesis
    using fire_keeps_session [OF demo_env_ok demo_world_inv, of EvWrite _ demo_occurrence] demo_world_queue
    by (fastforce simp: occurrence_ok_def demo_occurrence_def kernel_read_def demo_world_def demo_session_def buffer_init_def)
qed

theorem session_shutdown_keeps_data_witness:
  "\<exists>w' r. session_shutdown demo_env demo_world = Some (1, w') \<and> pending w' = [2, 3] \<and>
    w_regs w' EvWrite = Some r \<and> rg_tv r = - 1"
proof -
  have "quiet demo_env" using demo_env_ok by (simp add: env_ok_def)
  moreover have "w_regs demo_world EvWrite = Some \<lparr>rg_fd = 5, rg_events = EV_WRITE, rg_callback = On_write, rg_tv = - 1\<rparr>"
    by (simp add: demo_world_def)
  ultimately show ?thesis
    using session_shutdown_keeps_data [OF _ demo_world_inv demo_world_status(1), of demo_env] demo_world_queue(2) by auto
qed

definition empty_message_world :: world where
  "empty_message_world = demo_world\<lparr>w_session := demo_session\<lparr>ss_msgoffset := 0\<rparr>,
     w_msgs := (\<lambda>a. Some (demo_message\<lparr>msg_length := 0\<rparr>))\<rparr>"

theorem zero_length_message_stays_witness:
  "channel_transmit empty_message_world = Some (0, empty_message_world)"
proof -
  have "ring_ok (ss_sendqueue (w_session empty_message_world))"
    using live_okD(3) [OF demo_world_live] by (simp add: empty_message_world_def demo_world_def)
  moreover have "queue_list empty_message_world = [7]"
    using demo_world_queue(1) by (simp add: empty_message_world_def queue_list_def demo_world_def)
  ultimately show ?thesis
    using zero_length_message_stays [of empty_message_world 7 _ demo_env]
    by (simp add: empty_message_world_def demo_world_def demo_session_def init_settings_def)
qed

end
