(* ===== verification/Layer.thy ===== *)
theory Layer
  imports Channel SlotMap
begin

text \<open>
  The network layer inside one I/O thread (\<^verbatim>\<open>src/network.c\<close>, the \<open>_direct\<close> functions and the
  processor of the tasks that other threads post).

  The state of a thread is its session manager, the sessions it owns, and the messages its sessions
  share.  An operation on one session sees the \<open>world\<close> of that session, cut out of the state of
  the thread and put back; a session that has ended is gone, so a use of its pointer faults.
\<close>

section \<open>The state of a thread\<close>

text \<open>\<open>en_service\<close> of a session that has not been given its callbacks is all null pointers.\<close>

record entity =
  e_session :: session
  e_out :: "byte list"
  e_io :: "io_result list"
  e_regs :: "session_event \<Rightarrow> registration option"
  e_refuse :: "session_event \<Rightarrow> bool"
  e_service :: "service option"

datatype layer_action =
    Session_act nat action
  | Free_buffer nat
  | Free_transformed
  | Message_destroy nat
  | Recycle_task int u64 int
  | Sidlist_destroy
  | Close_fd int
  | Alloc_host
  | Eptable_destroy
  | Free_host

record io_thread =
  lt_index :: u8
  lt_manager :: "nat session_manager"
  lt_sessions :: "nat \<Rightarrow> entity option"
  lt_msgs :: "nat \<Rightarrow> message option"
  lt_next :: nat
  lt_acts :: "layer_action list"

definition log_layer :: "layer_action \<Rightarrow> io_thread \<Rightarrow> io_thread" where
  "log_layer a S = S\<lparr>lt_acts := lt_acts S @ [a]\<rparr>"

definition focus :: "entity \<Rightarrow> io_thread \<Rightarrow> world" where
  "focus e S = \<lparr>w_session = e_session e, w_alive = True, w_msgs = lt_msgs S, w_next = lt_next S,
     w_out = e_out e, w_io = e_io e, w_regs = e_regs e, w_refuse = e_refuse e, w_acts = []\<rparr>"

definition unfocus :: "nat \<Rightarrow> entity \<Rightarrow> world \<Rightarrow> io_thread \<Rightarrow> io_thread" where
  "unfocus p e w S = S\<lparr>
     lt_sessions := (lt_sessions S)(p := if w_alive w
       then Some \<lparr>e_session = w_session w, e_out = w_out w, e_io = w_io w, e_regs = w_regs w, e_refuse = w_refuse w, e_service = e_service e\<rparr>
       else None),
     lt_msgs := w_msgs w, lt_next := w_next w, lt_acts := lt_acts S @ map (Session_act p) (w_acts w)\<rparr>"

text \<open>The calls to \<open>session_manager_remove\<close> that the operation on the session made.\<close>

definition is_removal :: "action \<Rightarrow> bool" where
  "is_removal a \<longleftrightarrow> (case a of Act_manager_remove _ \<Rightarrow> True | _ \<Rightarrow> False)"

definition retire :: "nat \<Rightarrow> action list \<Rightarrow> io_thread \<Rightarrow> io_thread option" where
  "retire p acts S =
     (if filter is_removal acts = [] then Some S
      else do {
        (rc, m) \<leftarrow> session_manager_remove (lt_manager S) (Some p);
        Some (S\<lparr>lt_manager := m\<rparr>)
      })"

definition with_session ::
  "nat \<Rightarrow> (entity \<Rightarrow> world \<Rightarrow> (int \<times> world) option) \<Rightarrow> io_thread \<Rightarrow> (int \<times> io_thread) option" where
  "with_session p f S = do {
     e \<leftarrow> lt_sessions S p;
     (rc, w) \<leftarrow> f e (focus e S);
     S \<leftarrow> retire p (w_acts w) (unfocus p e w S);
     Some (rc, S)
   }"

text \<open>Sending only looks at the callback \<open>transform\<close>, whose null pointer is tested.\<close>

definition no_service :: service where
  "no_service = \<lparr>sv_start = (\<lambda>w. (0, w)), sv_process = (\<lambda>_ w. (0, w)), sv_transform = None,
     sv_keepalive = (\<lambda>w. (0, w)), sv_timeout = (\<lambda>w. (0, w)), sv_error = (\<lambda>_ w. (0, w)),
     sv_perform = (\<lambda>_ _ _ w. (0, w)), sv_shutdown = (\<lambda>_ w. w)\<rparr>"

definition sending_env :: "environment \<Rightarrow> entity \<Rightarrow> environment" where
  "sending_env E e = E\<lparr>en_service := (case e_service e of None \<Rightarrow> no_service | Some sv \<Rightarrow> sv)\<rparr>"

text \<open>Anything else may call the other callbacks, and a null pointer among them is a fault.\<close>

definition with_service ::
  "environment \<Rightarrow> nat \<Rightarrow> (environment \<Rightarrow> world \<Rightarrow> (int \<times> world) option) \<Rightarrow> io_thread \<Rightarrow> (int \<times> io_thread) option" where
  "with_service E p f = with_session p (\<lambda>e w. do { sv \<leftarrow> e_service e; f (E\<lparr>en_service := sv\<rparr>) w })"

section \<open>The layer and its tasks\<close>

definition eIOStatus_Running :: u8 where "eIOStatus_Running = 1"
definition eIOStatus_Stopped :: u8 where "eIOStatus_Stopped = 2"

definition NETWORK_TCP :: u8 where "NETWORK_TCP = 1"
definition NETWORK_KCP :: u8 where "NETWORK_KCP = 3"

text \<open>\<open>il_threads\<close> says whether the group of threads exists.\<close>

record iolayer =
  il_status :: u8
  il_nthreads :: u8
  il_nclients :: u32
  il_roundrobin :: u32
  il_threads :: bool
  il_transform :: "(byte list \<Rightarrow> transformed) option"

text \<open>The block at \<open>ts_buf\<close> holds \<open>ts_bytes\<close>, and \<open>nbytes\<close> is their number.\<close>

record task_send =
  ts_id :: sid
  ts_buf :: nat
  ts_bytes :: "byte list"
  ts_isfree :: bool

record task_perform =
  tp_id :: sid
  tp_type :: int
  tp_task :: u64
  tp_interval :: int

definition apply_transform :: "iolayer \<Rightarrow> byte list \<Rightarrow> transformed" where
  "apply_transform layer bs = (case il_transform layer of None \<Rightarrow> Same (length bs) | Some f \<Rightarrow> f bs)"

section \<open>Sending\<close>

definition send_direct ::
  "environment \<Rightarrow> iolayer \<Rightarrow> task_send \<Rightarrow> io_thread \<Rightarrow> (int \<times> io_thread) option" where
  "send_direct E layer task S = do {
     session \<leftarrow> session_manager_get (lt_manager S) (ts_id task);
     (writen, S) \<leftarrow> (case session of
         None \<Rightarrow> Some (0, S)
       | Some p \<Rightarrow>
          (case apply_transform layer (ts_bytes task) of
             Gone \<Rightarrow> Some (0, S)
           | Same n \<Rightarrow>
              if n \<le> length (ts_bytes task)
              then with_session p (\<lambda>e. session_send (sending_env E e) (take n (ts_bytes task))) S else None
           | Fresh bs \<Rightarrow> do {
              (writen, S) \<leftarrow> with_session p (\<lambda>e. session_send (sending_env E e) bs) S;
              Some (writen, log_layer Free_transformed S)
             }));
     Some (writen, if ts_isfree task then log_layer (Free_buffer (ts_buf task)) S else S)
   }"

section \<open>Broadcasting\<close>

definition layer_store :: "nat \<Rightarrow> message \<Rightarrow> io_thread \<Rightarrow> io_thread" where
  "layer_store a m S = S\<lparr>lt_msgs := (lt_msgs S)(a := Some m)\<rparr>"

definition layer_destroy :: "nat \<Rightarrow> io_thread \<Rightarrow> io_thread" where
  "layer_destroy a S = log_layer (Message_destroy a) (S\<lparr>lt_msgs := (lt_msgs S)(a := None)\<rparr>)"

text \<open>The layer's transformation of a whole message; a changed length of the same block is not taken over.\<close>

definition transform_message :: "iolayer \<Rightarrow> nat \<Rightarrow> io_thread \<Rightarrow> (bool \<times> io_thread) option" where
  "transform_message layer a S = do {
     m \<leftarrow> lt_msgs S a;
     (case il_transform layer of
        None \<Rightarrow> Some (True, S)
      | Some f \<Rightarrow> do {
          bs \<leftarrow> message_bytes m;
          (case f bs of
             Gone \<Rightarrow> Some (False, layer_destroy a S)
           | Same _ \<Rightarrow> Some (True, S)
           | Fresh bs \<Rightarrow> Some (True, layer_store a (snd (message_set_buffer m (Some bs) (of_nat (length bs)))) S))
        })
   }"

text \<open>The result of sending to the receiver \<open>sd\<close>: whether its session took the message.\<close>

definition broadcast_one ::
  "environment \<Rightarrow> u8 \<Rightarrow> nat \<Rightarrow> sid \<Rightarrow> io_thread \<Rightarrow> (bool \<times> io_thread) option" where
  "broadcast_one E index a sd S =
     (if SID_INDEX sd = uint index then do {
        session \<leftarrow> session_manager_get (lt_manager S) sd;
        (case session of
           None \<Rightarrow> Some (False, S)
         | Some p \<Rightarrow> do {
             (rc, S) \<leftarrow> with_session p (\<lambda>e. session_sendmessage (sending_env E e) a) S;
             Some (0 \<le> rc, S)
           })
      }
      else Some (False, S))"

fun broadcast_loop ::
  "environment \<Rightarrow> u8 \<Rightarrow> nat \<Rightarrow> nat list \<Rightarrow> int \<Rightarrow> io_thread \<Rightarrow> (int \<times> io_thread) option" where
  "broadcast_loop E index a [] cnt S = Some (cnt, S)"
| "broadcast_loop E index a (i # js) cnt S = do {
     m \<leftarrow> lt_msgs S a;
     l \<leftarrow> msg_tolist m;
     sd \<leftarrow> sidlist_get l (of_nat i);
     (taken, S) \<leftarrow> broadcast_one E index a sd S;
     (if taken then broadcast_loop E index a js (cnt + 1) S
      else do {
        m \<leftarrow> lt_msgs S a;
        broadcast_loop E index a js cnt (layer_store a (message_add_failure m) S)
      })
   }"

text \<open>Destroyed here only if no session still has to report an outcome.\<close>

definition layer_message_done :: "nat \<Rightarrow> io_thread \<Rightarrow> io_thread option" where
  "layer_message_done a S = do {
     m \<leftarrow> lt_msgs S a;
     Some (if message_is_complete m then layer_destroy a S else S)
   }"

definition broadcast_direct ::
  "environment \<Rightarrow> iolayer \<Rightarrow> u8 \<Rightarrow> nat \<Rightarrow> io_thread \<Rightarrow> (int \<times> io_thread) option" where
  "broadcast_direct E layer index a S = do {
     m \<leftarrow> lt_msgs S a;
     l \<leftarrow> msg_tolist m;
     let totalcount = sl_count l;
     (ok, S) \<leftarrow> transform_message layer a S;
     (if \<not> ok then Some (- 1, S)
      else do {
        (cnt, S) \<leftarrow> broadcast_loop E index a [0..<unat totalcount] 0 S;
        S \<leftarrow> layer_message_done a S;
        Some (cnt, S)
      })
   }"

text \<open>The visitor of all sessions; a fault in it is the state \<open>None\<close>.\<close>

definition broadcast2_loop :: "environment \<Rightarrow> nat \<Rightarrow> nat \<Rightarrow> io_thread \<Rightarrow> (int \<times> io_thread) option" where
  "broadcast2_loop E a p S = do {
     m \<leftarrow> lt_msgs S a;
     e \<leftarrow> lt_sessions S p;
     (_, m) \<leftarrow> message_add_receiver (en_mem_sidlist E) (en_mem_sidlist E) (en_mem_sidlist E) (en_fresh_sid E) m
                (ss_id (e_session e));
     (_, S) \<leftarrow> with_session p (\<lambda>e. session_sendmessage (sending_env E e) a) (layer_store a m S);
     Some (0, S)
   }"

definition visit ::
  "(nat \<Rightarrow> io_thread \<Rightarrow> (int \<times> io_thread) option) \<Rightarrow> nat \<Rightarrow> nat session_manager \<times> io_thread option
   \<Rightarrow> int \<times> (nat session_manager \<times> io_thread option)" where
  "visit f p st =
     (case st of (m, c) \<Rightarrow>
       (case Option.bind c (\<lambda>S. f p (S\<lparr>lt_manager := m\<rparr>)) of
          None \<Rightarrow> (0, (m, None))
        | Some (rc, S) \<Rightarrow> (rc, (lt_manager S, Some S))))"

definition broadcast2_direct ::
  "environment \<Rightarrow> iolayer \<Rightarrow> nat \<Rightarrow> io_thread \<Rightarrow> (int \<times> io_thread) option" where
  "broadcast2_direct E layer a S = do {
     (ok, S) \<leftarrow> transform_message layer a S;
     (if \<not> ok then Some (- 1, S)
      else do {
        m \<leftarrow> lt_msgs S a;
        (_, m) \<leftarrow> message_reserve_receivers (en_mem_sidlist E) (en_mem_sidlist E) (en_mem_sidlist E) (en_fresh_sid E) m
                   (sm_count (lt_manager S));
        let S = layer_store a m S;
        (cnt, (_, S)) \<leftarrow> session_manager_foreach (visit (broadcast2_loop E a)) (lt_manager S, Some S);
        S \<leftarrow> S;
        S \<leftarrow> layer_message_done a S;
        Some (cnt, S)
      })
   }"

section \<open>Tasks of the application\<close>

text \<open>A task run at once is recycled afterwards, whether or not the session survives it.\<close>

definition perform_now :: "task_perform \<Rightarrow> environment \<Rightarrow> world \<Rightarrow> (int \<times> world) option" where
  "perform_now task E w =
     (let (rc, w) = sv_perform (en_service E) (tp_type task) (tp_task task) (tp_interval task) w
      in if rc < 0 then session_shutdown E (session_close w) else Some (0, w))"

definition perform_direct ::
  "environment \<Rightarrow> task_perform \<Rightarrow> io_thread \<Rightarrow> (int \<times> io_thread) option" where
  "perform_direct E task S = do {
     let recycle = log_layer (Recycle_task (tp_type task) (tp_task task) (tp_interval task));
     session \<leftarrow> session_manager_get (lt_manager S) (tp_id task);
     (rc, S) \<leftarrow> (case session of
         None \<Rightarrow> Some (- 1, S)
       | Some p \<Rightarrow>
          if tp_interval task \<le> 0 then do {
            (_, S) \<leftarrow> with_service E p (perform_now task) S;
            Some (0, recycle S)
          }
          else with_session p (\<lambda>e w. Some (session_schedule_task E (tp_type task) (tp_task task) (tp_interval task) w)) S);
     Some (rc, if rc \<noteq> 0 then recycle S else S)
   }"

definition shutdown_direct :: "environment \<Rightarrow> sid \<Rightarrow> io_thread \<Rightarrow> (int \<times> io_thread) option" where
  "shutdown_direct E sd S = do {
     session \<leftarrow> session_manager_get (lt_manager S) sd;
     (case session of
        None \<Rightarrow> Some (- 1, S)
      | Some p \<Rightarrow> with_service E p (\<lambda>E w. session_shutdown E (session_close w)) S)
   }"

fun shutdowns_loop :: "environment \<Rightarrow> u8 \<Rightarrow> sidlist \<Rightarrow> nat list \<Rightarrow> int \<Rightarrow> io_thread \<Rightarrow> (int \<times> io_thread) option" where
  "shutdowns_loop E index ids [] cnt S = Some (cnt, S)"
| "shutdowns_loop E index ids (i # js) cnt S = do {
     sd \<leftarrow> sidlist_get ids (of_nat i);
     (if SID_INDEX sd = uint index then do {
        session \<leftarrow> session_manager_get (lt_manager S) sd;
        (case session of
           None \<Rightarrow> shutdowns_loop E index ids js cnt S
         | Some p \<Rightarrow> do {
             (_, S) \<leftarrow> with_service E p (\<lambda>E w. session_shutdown E (session_close w)) S;
             shutdowns_loop E index ids js (cnt + 1) S
           })
      }
      else shutdowns_loop E index ids js cnt S)
   }"

definition shutdowns_direct :: "environment \<Rightarrow> u8 \<Rightarrow> sidlist \<Rightarrow> io_thread \<Rightarrow> (int \<times> io_thread) option" where
  "shutdowns_direct E index ids S = do {
     (cnt, S) \<leftarrow> shutdowns_loop E index ids [0..<unat (sl_count ids)] 0 S;
     Some (cnt, log_layer Sidlist_destroy S)
   }"

end
