(* ===== verification/Accounting.thy ===== *)
theory Accounting
  imports SessionSteps Layer
begin

text \<open>
  The books of the shared messages.  A message owes one outcome to each of its receivers that has
  none yet, and an entry of a send queue stands for one owed outcome.  The difference of the two,
  the slack of a session for a message, is changed by no handler of a session: what leaves a queue
  is settled, what is queued is new.  A session that ends is taken out of its manager, once.
\<close>

section \<open>What a message owes\<close>

definition owed :: "message \<Rightarrow> int" where
  "owed m = int (length (receivers m)) - int (outcomes m)"

definition owes :: "(nat \<Rightarrow> message option) \<Rightarrow> nat \<Rightarrow> int" where
  "owes msgs a = (case msgs a of None \<Rightarrow> 0 | Some m \<Rightarrow> owed m)"

definition slack :: "world \<Rightarrow> nat \<Rightarrow> int" where
  "slack w a = owes (w_msgs w) a - int (count_list (queue_list w) a)"

definition same_content :: "message \<Rightarrow> message \<Rightarrow> bool" where
  "same_content m m' \<longleftrightarrow>
     msg_buffer m' = msg_buffer m \<and> msg_length m' = msg_length m \<and> msg_tolist m' = msg_tolist m"

text \<open>From the messages below \<open>n\<close> to those below \<open>n'\<close>: old ones keep their content, and those touched or new owe something.\<close>

definition evolves :: "nat \<Rightarrow> (nat \<Rightarrow> message option) \<Rightarrow> nat \<Rightarrow> (nat \<Rightarrow> message option) \<Rightarrow> bool" where
  "evolves n msgs n' msgs' \<longleftrightarrow> n \<le> n' \<and> (\<forall>a m'. msgs' a = Some m' \<longrightarrow>
     (case msgs a of Some m \<Rightarrow> same_content m m' \<and> (m' = m \<or> 0 < owed m')
      | None \<Rightarrow> n \<le> a \<and> a < n' \<and> sendable m' \<and> 0 < owed m'))"

definition bounded :: "nat \<Rightarrow> (nat \<Rightarrow> message option) \<Rightarrow> bool" where
  "bounded n msgs \<longleftrightarrow> (\<forall>a m. msgs a = Some m \<longrightarrow> a < n)"

definition removal_acts :: "world \<Rightarrow> action list" where
  "removal_acts w = filter is_removal (w_acts w)"

definition accounted :: "world \<Rightarrow> world \<Rightarrow> bool" where
  "accounted w w' \<longleftrightarrow> evolves (w_next w) (w_msgs w) (w_next w') (w_msgs w') \<and> (\<forall>a. slack w' a = slack w a) \<and>
     (if w_alive w' then removal_acts w' = removal_acts w \<and> ss_id (w_session w') = ss_id (w_session w)
      else removal_acts w' = removal_acts w @ [Act_manager_remove (ss_id (w_session w))] \<and> queue_list w' = [])"

lemma same_content_refl [simp]: "same_content m m"
  by (simp add: same_content_def)

lemma same_content_trans: "same_content a b \<Longrightarrow> same_content b c \<Longrightarrow> same_content a c"
  by (simp add: same_content_def)

lemma same_content_sendable:
  assumes "same_content m m'"
  shows "sendable m' = sendable m" "receivers m' = receivers m" "message_ok m' = message_ok m"
  using assms by (simp_all add: same_content_def sendable_def message_ok_def receivers_def)

lemma evolves_refl [simp]: "evolves n msgs n msgs"
  by (auto simp: evolves_def split: option.splits)

lemma evolvesD:
  assumes "evolves n msgs n' msgs'" "msgs' a = Some m'"
  shows "msgs a = Some m \<Longrightarrow> same_content m m' \<and> (m' = m \<or> 0 < owed m')"
    "msgs a = None \<Longrightarrow> n \<le> a \<and> a < n' \<and> sendable m' \<and> 0 < owed m'"
proof -
  have "case msgs a of Some m \<Rightarrow> same_content m m' \<and> (m' = m \<or> 0 < owed m')
      | None \<Rightarrow> n \<le> a \<and> a < n' \<and> sendable m' \<and> 0 < owed m'"
    using assms unfolding evolves_def by blast
  then show "msgs a = Some m \<Longrightarrow> same_content m m' \<and> (m' = m \<or> 0 < owed m')"
    "msgs a = None \<Longrightarrow> n \<le> a \<and> a < n' \<and> sendable m' \<and> 0 < owed m'" by simp_all
qed

lemma evolves_le: "evolves n msgs n' msgs' \<Longrightarrow> n \<le> n'"
  by (simp add: evolves_def)

lemma evolves_bounded: "evolves n msgs n' msgs' \<Longrightarrow> bounded n msgs \<Longrightarrow> bounded n' msgs'"
  unfolding bounded_def evolves_def by (fastforce split: option.splits)

lemma evolves_trans:
  assumes e: "evolves n1 msgs1 n2 msgs2" "evolves n2 msgs2 n3 msgs3" and b: "bounded n1 msgs1"
  shows "evolves n1 msgs1 n3 msgs3"
  unfolding evolves_def
proof (intro conjI allI impI)
  show "n1 \<le> n3" using e evolves_le by (meson order_trans)
  fix a m3 assume m3: "msgs3 a = Some m3"
  show "case msgs1 a of Some m \<Rightarrow> same_content m m3 \<and> (m3 = m \<or> 0 < owed m3)
      | None \<Rightarrow> n1 \<le> a \<and> a < n3 \<and> sendable m3 \<and> 0 < owed m3"
  proof (cases "msgs2 a")
    case None
    then have n2: "n2 \<le> a" "a < n3" "sendable m3" "0 < owed m3" using evolvesD(2) [OF e(2) m3] by auto
    then have "msgs1 a = None" using b evolves_le [OF e(1)] unfolding bounded_def by (cases "msgs1 a") force+
    then show ?thesis using n2 evolves_le [OF e(1)] by simp
  next
    case (Some m2)
    have c: "same_content m2 m3" "m3 = m2 \<or> 0 < owed m3" using evolvesD(1) [OF e(2) m3 Some] by auto
    show ?thesis
    proof (cases "msgs1 a")
      case None
      then have "n1 \<le> a" "a < n2" "sendable m2" "0 < owed m2" using evolvesD(2) [OF e(1) Some] by auto
      then show ?thesis using None c same_content_sendable(1) [OF c(1)] evolves_le [OF e(2)] by auto
    next
      case (Some m1)
      then have "same_content m1 m2" "m2 = m1 \<or> 0 < owed m2"
        using evolvesD(1) [OF e(1) \<open>msgs2 a = Some m2\<close>] by auto
      then show ?thesis using Some c same_content_trans by auto
    qed
  qed
qed

lemma accounted_trans:
  assumes a: "accounted u v" "accounted v w" and b: "bounded (w_next u) (w_msgs u)" and al: "w_alive v"
  shows "accounted u w"
proof -
  have "evolves (w_next u) (w_msgs u) (w_next w) (w_msgs w)"
    using a b evolves_trans unfolding accounted_def by blast
  then show ?thesis using a al unfolding accounted_def by (cases "w_alive w") simp_all
qed

lemma accounted_bounded: "accounted w w' \<Longrightarrow> bounded (w_next w) (w_msgs w) \<Longrightarrow> bounded (w_next w') (w_msgs w')"
  unfolding accounted_def using evolves_bounded by blast

text \<open>A step that leaves messages, queue, identifier and log of removals alone.\<close>

lemma accounted_same:
  assumes "w_msgs w' = w_msgs w" "w_next w \<le> w_next w'" "queue_list w' = queue_list w" "w_alive w'"
    "removal_acts w' = removal_acts w" "ss_id (w_session w') = ss_id (w_session w)"
  shows "accounted w w'"
  using assms by (auto simp: accounted_def evolves_def slack_def split: option.splits)

lemma accounted_refl: "w_alive w \<Longrightarrow> accounted w w"
  by (rule accounted_same) simp_all

lemma accounted_events:
  assumes "events_only w w'" "w_alive w"
  shows "accounted w w'"
  using assms events_only_queue(1) [OF assms(1)] session_data_fields(1) [of "w_session w'" "w_session w"]
  by (intro accounted_same) (simp_all add: events_only_def removal_acts_def)

section \<open>Settling\<close>

lemma settle_books:
  assumes ok: "msgs_ok msgs (a # as)" and f: "is_outcome f"
  shows "evolves n msgs n (settle f a msgs)" "owes (settle f a msgs) b = owes msgs b - (if b = a then 1 else 0)"
proof -
  obtain m where m: "msgs a = Some m" "sendable m" "outcomes m + count_list (a # as) a \<le> length (receivers m)"
    using ok unfolding msgs_ok_def by auto
  have oc: "outcomes (f m) = Suc (outcomes m)" "message_ok (f m)" "receivers (f m) = receivers m"
    using outcome_counts [of m] m f by (auto simp: sendable_def is_outcome_def)
  have oc4: "same_content m (f m)"
    using f by (auto simp: is_outcome_def same_content_def message_add_success_def message_add_failure_def)
  have compl: "message_is_complete (f m) \<longleftrightarrow> owed (f m) = 0"
    using complete_iff [OF oc(2)] by (auto simp: owed_def oc)
  have low: "owed (f m) = owed m - 1" "0 \<le> owed (f m)" using oc m(3) by (simp_all add: owed_def)
  show "owes (settle f a msgs) b = owes msgs b - (if b = a then 1 else 0)"
    using m(1) compl low by (simp add: owes_def settle_def)
  show "evolves n msgs n (settle f a msgs)"
    using m(1) oc4 compl low(2) unfolding evolves_def settle_def by (auto split: option.splits)
qed

lemma fold_settle_books:
  assumes "msgs_ok msgs (ps @ qs)" "is_outcome f" "bounded n msgs"
  shows "evolves n msgs n (fold (settle f) ps msgs) \<and>
    (\<forall>b. owes (fold (settle f) ps msgs) b = owes msgs b - int (count_list ps b))"
  using assms
proof (induction ps arbitrary: msgs)
  case (Cons a ps)
  note s = settle_books [of msgs a "ps @ qs" f]
  have m: "msgs_ok msgs (a # ps @ qs)" using Cons.prems(1) by simp
  have ok: "msgs_ok (settle f a msgs) (ps @ qs)" using settle_ok(1) [OF m Cons.prems(2)] .
  have e: "evolves n msgs n (settle f a msgs)" using s(1) [OF m Cons.prems(2)] .
  have b: "bounded n (settle f a msgs)" using evolves_bounded [OF e Cons.prems(3)] .
  note ih = Cons.IH [OF ok Cons.prems(2) b]
  have "evolves n msgs n (fold (settle f) ps (settle f a msgs))"
    using ih evolves_trans [OF e _ Cons.prems(3)] by blast
  then show ?case using ih s(2) [OF m Cons.prems(2)] by simp
qed simp

section \<open>Transmitting\<close>

lemma removals_log [simp]: "removal_acts (log_act a w) = removal_acts w @ (if is_removal a then [a] else [])"
  by (simp add: removal_acts_def log_act_def)

lemma removals_frame [simp]:
  "removal_acts (on_session f w) = removal_acts w" "removal_acts (w\<lparr>w_io := io\<rparr>) = removal_acts w" "removal_acts (w\<lparr>w_out := bs\<rparr>) = removal_acts w"
  "removal_acts (w\<lparr>w_msgs := ms\<rparr>) = removal_acts w" "removal_acts (w\<lparr>w_next := n\<rparr>) = removal_acts w" "removal_acts (store_message a m w) = removal_acts w"
  by (simp_all add: removal_acts_def on_session_def store_message_def)

lemma message_done_removals: "message_done a w = Some w' \<Longrightarrow> removal_acts w' = removal_acts w"
  by (auto simp: message_done_def is_removal_def split: bind_splits if_splits)

lemma written_loop_removals: "written_loop n off w = Some (r, w') \<Longrightarrow> removal_acts w' = removal_acts w"
proof (induction n off w rule: written_loop.induct)
  case (2 n off w)
  then show ?case
    by (auto simp: update_message_def split: bind_splits prod.splits if_splits dest!: message_done_removals)
qed simp

lemma sys_write_removals: "sys_write d w = (r, e, w') \<Longrightarrow> removal_acts w' = removal_acts w"
  by (auto simp: sys_write_def Let_def split: if_splits list.splits io_result.splits)

lemma transmit_loop_removals: "transmit_loop n r w = Some (r', w') \<Longrightarrow> removal_acts w' = removal_acts w"
proof (induction n r w rule: transmit_loop.induct)
  case (2 n r w)
  then show ?case
    by (fastforce simp: Let_def split: bind_splits prod.splits if_splits dest: written_loop_removals sys_write_removals)
qed simp

lemma transmit_accounted:
  assumes ok: "queue_ok w" "bounded (w_next w) (w_msgs w)" "w_alive w" and t: "channel_transmit w = Some (rc, w')"
  shows "accounted w w'" "same_but_queue w w'" "queue_ok w'" "w_alive w'"
proof -
  obtain bs ps where "transmitted w bs ps w'" using transmit_runs [OF ok(1)] t by auto
  then have tr: "queue_ok w'" "same_but_queue w w'" "queue_list w = ps @ queue_list w'"
    "w_msgs w' = fold (settle message_add_success) ps (w_msgs w)"
    by (simp_all add: transmitted_def)
  have m: "msgs_ok (w_msgs w) (ps @ queue_list w')" using ok(1) tr(3) by (simp add: queue_ok_def)
  have f: "evolves (w_next w) (w_msgs w) (w_next w) (w_msgs w')"
    "\<forall>b. owes (w_msgs w') b = owes (w_msgs w) b - int (count_list ps b)"
    using fold_settle_books [OF m _ ok(2), of message_add_success] by (simp_all add: is_outcome_def tr(4))
  have s: "w_next w' = w_next w" "w_alive w' = w_alive w" "ss_id (w_session w') = ss_id (w_session w)"
    using tr(2) by (auto simp: same_but_queue_def)
  have "removal_acts w' = removal_acts w" using transmit_loop_removals t unfolding channel_transmit_def by blast
  then show "accounted w w'" using f s ok(3) by (simp add: accounted_def slack_def tr(3))
  show "same_but_queue w w'" "queue_ok w'" "w_alive w'" using tr(1,2) s ok(3) by simp_all
qed

section \<open>Stopping and ending\<close>

lemma stop_acts_removals [simp]: "filter is_removal (stop_acts w) = []"
  by (auto simp: stop_acts_def is_removal_def filter_empty_conv split: option.splits)

lemma session_stop_id: "ss_id (w_session (session_stop w)) = ss_id (w_session w)"
proof -
  have d: "ss_id (w_session (stop_event fl e v)) = ss_id (w_session v)" for fl e v
    using session_data_fields(1) [OF stop_event_frame(7)] .
  have t: "ss_id (w_session (stop_tasks ts v)) = ss_id (w_session v)" for ts v
    using stop_tasks_state [of ts v] by simp
  show ?thesis
    by (simp add: session_stop_def Let_def on_session_def log_act_def d t split: option.splits)
qed

lemma session_stop_accounted:
  assumes "regs_ok w" "w_alive w"
  shows "accounted w (session_stop w)"
  using session_stop_state [OF regs_ok_known [OF assms(1)]] assms(2)
  by (intro accounted_same) (simp_all add: queue_list_def removal_acts_def session_stop_id)

lemma start_reconnect_accounted:
  assumes "live_ok w" and b: "bounded (w_next w) (w_msgs w)"
  shows "accounted w (snd (session_start_reconnect w))"
proof (cases "has_status SESSION_EXITING w \<or> has_status SESSION_WRITING w")
  case True
  then show ?thesis using accounted_refl live_okD(1) [OF assms(1)] by (auto simp: session_start_reconnect_def)
next
  case False
  define w1 where "w1 = (if ss_type (w_session w) = eSessionType_Associate then on_session (\<lambda>s. s\<lparr>ss_fd := - 1\<rparr>) w else w)"
  have "w_regs w EvWrite = None"
    using live_okD(5) [OF assms(1)] False by (cases "w_regs w EvWrite") (auto simp: regs_ok_def regs_known_def regs_agree_def)
  then have r1: "regs_ok w1"
    using live_okD(5) [OF assms(1)] False by (simp add: w1_def regs_ok_def regs_known_def regs_agree_def has_status_session on_session_def)
  have a: "w_alive w1" "accounted w w1"
    using live_okD(1) [OF assms(1)] by (auto simp: w1_def on_session_def queue_list_def removal_acts_def intro!: accounted_same)
  define w3 where "w3 = status_set SESSION_WRITING (register EvWrite (- 1) 0 On_reconnect TRY_RECONNECT_INTERVAL (session_stop w1))"
  have al: "w_alive (session_stop w1)" using session_stop_state(5) [OF regs_ok_known [OF r1]] a(1) by simp
  have "events_only (session_stop w1) w3" unfolding w3_def by (intro events_only_status events_only_steps)
  then have a3: "accounted (session_stop w1) w3" by (rule accounted_events [OF _ al])
  have "accounted w (session_stop w1)"
    by (rule accounted_trans [OF a(2) session_stop_accounted [OF r1 a(1)] b a(1)])
  then have "accounted w w3" by (rule accounted_trans [OF _ a3 b al])
  moreover have "session_start_reconnect w = (0, w3)"
    using False by (simp add: session_start_reconnect_def w3_def w1_def Let_def)
  ultimately show ?thesis by simp
qed

lemma channel_shutdown_accounted:
  assumes "quiet E" "live_ok w" "bounded (w_next w) (w_msgs w)" "channel_shutdown E w = Some (rc, w')"
  shows "accounted w w'" "\<not> w_alive w'"
proof -
  define way :: int where "way = (if has_status SESSION_SHUTDOWNING w then 0 else 1)"
  define w1 where "w1 = on_session (\<lambda>s. s\<lparr>ss_id := 0\<rparr>)
     (log_act (Act_manager_remove (ss_id (w_session w))) (log_act (Act_shutdown way) w))"
  have w1: "w_session w1 = (w_session w)\<lparr>ss_id := 0\<rparr>" "w_msgs w1 = w_msgs w" "w_regs w1 = w_regs w \<and> w_refuse w1 = w_refuse w"
    "w_next w1 = w_next w" "queue_list w1 = queue_list w"
    "removal_acts w1 = removal_acts w @ [Act_manager_remove (ss_id (w_session w))]"
    by (simp_all add: w1_def on_session_def log_act_def queue_list_def removal_acts_def is_removal_def)
  have m: "msgs_ok (w_msgs w1) (queue_list w1)" using live_okD(4) [OF assms(2)] by (simp add: w1)
  have "ring_ok (ss_sendqueue (w_session w1))" "regs_known w1"
    using live_okD(3,5) [OF assms(2)] by (simp_all add: w1 regs_ok_def regs_known_def has_status_session)
  then obtain v where v: "session_end E (ss_id (w_session w1)) False w1 = Some (0, v)"
    "w_msgs v = fold (settle message_add_failure) (queue_list w1) (w_msgs w1)" "queue_list v = []"
    "w_next v = w_next w1" "\<not> w_alive v"
    "w_acts v = w_acts w1 @ map Act_message_destroy (freed message_add_failure (w_msgs w1) (queue_list w1)) @
      stop_acts w1 @ [Act_session_end (ss_id (w_session w1))]"
    using session_end_spec [OF _ m, of E "ss_id (w_session w1)" False] by auto
  have "channel_shutdown E w = Some (0, v)"
    using assms(1) v(1) unfolding channel_shutdown_def quiet_def Let_def way_def [symmetric] w1_def
    by (simp add: log_act_def)
  then have w': "w' = v" using assms(4) by simp
  have "filter is_removal (map Act_message_destroy xs) = []" for xs
    by (auto simp: filter_empty_conv is_removal_def)
  then have rm: "removal_acts v = removal_acts w1" using v(6) by (simp add: removal_acts_def is_removal_def)
  have m0: "msgs_ok (w_msgs w) (queue_list w @ [])" using m w1 by simp
  show "\<not> w_alive w'" using v(5) w' by simp
  show "accounted w w'"
    using fold_settle_books [OF m0 _ assms(3), of message_add_failure] v rm
    by (simp add: w' accounted_def is_outcome_def w1 slack_def)
qed

section \<open>Errors, shutdown, time-outs\<close>

lemma channel_error_accounted:
  assumes "quiet E" "live_ok w" "bounded (w_next w) (w_msgs w)" "channel_error E c w = Some (rc, w')"
  shows "accounted w w'"
proof -
  obtain r where e: "sv_error (en_service E) c w = (r, w)"
    using assms(1) unfolding quiet_def by (metis prod.collapse)
  show ?thesis
    using assms(4) e channel_shutdown_accounted(1) [OF assms(1-3)] start_reconnect_accounted [OF assms(2,3)]
    by (auto simp: channel_error_def Let_def split: if_splits)
qed

lemma session_shutdown_accounted:
  assumes "quiet E" "live_ok w" "bounded (w_next w) (w_msgs w)" "session_shutdown E w = Some (rc, w')"
  shows "accounted w w'"
proof (cases "\<not> has_status SESSION_EXITING w \<and> 0 < sendqueue_count w")
  case True
  then have "w' = session_add_event EV_WRITE (session_del_event EV_READ (status_set SESSION_EXITING w))"
    using assms(4) by (auto simp: session_shutdown_def Let_def)
  then have "events_only w w'"
    using events_only_trans [OF events_only_trans [OF events_only_steps(2) del_event_only] add_event_only] by simp
  then show ?thesis using live_okD(1) [OF assms(2)] by (rule accounted_events)
next
  case False
  then show ?thesis
    using assms(4) channel_shutdown_accounted(1) [OF assms(1-3)] by (auto simp: session_shutdown_def)
qed

text \<open>A callback settles what it takes out of the queue and queues new messages only.\<close>

definition callback_accounted :: "(world \<Rightarrow> world) \<Rightarrow> bool" where
  "callback_accounted f \<longleftrightarrow>
     (\<forall>w. sess_inv w \<and> w_alive w \<and> bounded (w_next w) (w_msgs w) \<longrightarrow> accounted w (f w))"

definition env_accounted :: "environment \<Rightarrow> bool" where
  "env_accounted E \<longleftrightarrow> env_ok E \<and>
     callback_accounted (\<lambda>w. snd (sv_start (en_service E) w)) \<and>
     (\<forall>bs. callback_accounted (\<lambda>w. snd (sv_process (en_service E) bs w))) \<and>
     callback_accounted (\<lambda>w. snd (sv_keepalive (en_service E) w)) \<and>
     callback_accounted (\<lambda>w. snd (sv_timeout (en_service E) w)) \<and>
     (\<forall>ty t i. callback_accounted (\<lambda>w. snd (sv_perform (en_service E) ty t i w)))"

text \<open>The state between two steps of a handler that started in \<open>u\<close>.\<close>

definition midway :: "world \<Rightarrow> world \<Rightarrow> bool" where
  "midway u w \<longleftrightarrow> accounted u w \<and> w_alive w \<and> bounded (w_next u) (w_msgs u) \<and> bounded (w_next w) (w_msgs w)"

lemma midway_refl: "w_alive w \<Longrightarrow> bounded (w_next w) (w_msgs w) \<Longrightarrow> midway w w"
  by (simp add: midway_def accounted_refl)

lemma midway_step: "midway u v \<Longrightarrow> accounted v w \<Longrightarrow> w_alive w \<Longrightarrow> midway u w"
  unfolding midway_def using accounted_trans accounted_bounded by blast

lemma midway_last: "midway u v \<Longrightarrow> accounted v w \<Longrightarrow> accounted u w"
  unfolding midway_def using accounted_trans by blast

lemma midway_events: "midway u v \<Longrightarrow> events_only v w \<Longrightarrow> midway u w"
  using midway_step [of u v w] accounted_events [of v w] by (simp add: midway_def events_only_def)

lemma midway_callback:
  assumes "callback_ok f" "callback_accounted f" "sess_inv w" "midway u w"
  shows "midway u (f w)" "sess_inv (f w)" "w_alive (f w)"
proof -
  have w: "w_alive w" "bounded (w_next w) (w_msgs w)" using assms(4) by (simp_all add: midway_def)
  show c: "sess_inv (f w)" "w_alive (f w)" using callback_okD(1,2) [OF assms(1,3) w(1)] by simp_all
  have "accounted w (f w)" using assms(2,3) w unfolding callback_accounted_def by blast
  then show "midway u (f w)" by (rule midway_step [OF assms(4) _ c(2)])
qed

lemma midway_bounded: "midway u w \<Longrightarrow> bounded (w_next w) (w_msgs w)"
  by (simp add: midway_def)

lemma channel_timeout_accounted:
  assumes E: "env_accounted E" and w: "sess_inv w" "midway u w" and t: "channel_timeout E w = Some (rc, w')"
  shows "accounted u w'"
proof -
  define w1 where "w1 = snd (sv_timeout (en_service E) w)"
  obtain r where r: "sv_timeout (en_service E) w = (r, w1)" by (metis w1_def prod.collapse)
  have q: "quiet E" and cb: "callback_ok (\<lambda>w. snd (sv_timeout (en_service E) w))"
    "callback_accounted (\<lambda>w. snd (sv_timeout (en_service E) w))"
    using E unfolding env_accounted_def env_ok_def by blast+
  note c = midway_callback [OF cb w, folded w1_def]
  note d = sess_invD [OF c(2,3)]
  have "midway u (snd (session_start_keepalive (session_add_event EV_READ w1)))"
    by (intro midway_events [OF midway_events [OF c(1) add_event_only] start_keepalive_only])
  moreover have "accounted w1 v" if "session_shutdown E w1 = Some (k, v)" for k v
    by (rule session_shutdown_accounted [OF q d(1) midway_bounded [OF c(1)] that])
  ultimately show ?thesis
    using t r start_reconnect_accounted [OF d(1) midway_bounded [OF c(1)]] midway_last [OF c(1)]
    by (auto simp: channel_timeout_def Let_def midway_def split: if_splits)
qed

section \<open>Reads\<close>

lemma inbuffer_accounted: "w_alive w \<Longrightarrow> accounted w (on_session (\<lambda>s. s\<lparr>ss_inbuffer := f s\<rparr>) w)"
  by (rule accounted_same) (simp_all add: on_session_def queue_list_def removal_acts_def)

lemma channel_process_midway:
  assumes E: "env_accounted E" and w: "sess_inv w" "midway u w" and p: "channel_process E w = (n, w')"
  shows "midway u w'"
proof (cases "0 < bf_length (ss_inbuffer (w_session w))")
  case False
  then show ?thesis using p w by (simp add: channel_process_def Let_def)
next
  case True
  define bs where "bs = take (unat (bf_length (ss_inbuffer (w_session w)))) (buffer_data (ss_inbuffer (w_session w)))"
  define w1 where "w1 = snd (sv_process (en_service E) bs w)"
  obtain k where r: "sv_process (en_service E) bs w = (k, w1)" by (metis w1_def prod.collapse)
  have cb: "callback_ok (\<lambda>w. snd (sv_process (en_service E) bs w))"
    "callback_accounted (\<lambda>w. snd (sv_process (en_service E) bs w))"
    using E unfolding env_accounted_def env_ok_def by blast+
  note c = midway_callback [OF cb w, folded w1_def]
  have "w' = (if 0 < k then on_session (\<lambda>s. s\<lparr>ss_inbuffer := snd (buffer_erase (ss_inbuffer s) (of_int k))\<rparr>) w1 else w1)"
    using True p r by (auto simp: channel_process_def Let_def bs_def)
  moreover have "midway u (on_session (\<lambda>s. s\<lparr>ss_inbuffer := f s\<rparr>) w1)" for f
    by (rule midway_step [OF c(1) inbuffer_accounted]) (use c(3) in \<open>simp_all add: on_session_def\<close>)
  ultimately show ?thesis using c(1) by simp
qed

lemma on_read_accounted:
  assumes E: "env_accounted E" and inv: "sess_inv w0" "w_regs w0 EvRead = Some r" and m: "midway u w0"
    and w: "w = (if rg_events r AND EV_PERSIST \<noteq> 0 then w0 else evsets_remove EvRead w0)"
    and cap: "unat (bf_capacity (ss_inbuffer (w_session w0))) \<le> 2 ^ 62"
    and k: "\<forall>room. kernel_read room (readv room)"
    and h: "channel_on_read E readv err ev w = Some w'"
  shows "accounted u w'"
proof -
  have al: "w_alive w0" using m by (simp add: midway_def)
  have Eo: "env_ok E" and q: "quiet E" using E unfolding env_accounted_def env_ok_def by blast+
  define w1 where "w1 = (if \<not> persistent w then status_clear SESSION_READING w else w)"
  have i1: "sess_inv w1" "w_alive w1" using read_start_inv [OF inv(1) al inv(2) w] by (simp_all add: w1_def)
  have m1: "midway u w1"
    by (rule midway_events [OF m]) (auto simp: w1_def w intro: events_only_status events_only_steps)
  have c1: "unat (bf_capacity (ss_inbuffer (w_session w1))) \<le> 2 ^ 62"
    using cap by (simp add: w1_def w frame_simps status_clear_def on_session_def)
  have del: "midway u (if persistent v then session_del_event EV_READ v else v)" if "midway u v" for v
    using midway_events [OF that del_event_only] that by simp
  show ?thesis
  proof (cases "ev AND EV_READ \<noteq> 0")
    case False
    define v where "v = (if persistent w1 then session_del_event EV_READ w1 else w1)"
    have v: "sess_inv v" "midway u v" using if_inv [OF i1, of "persistent w1"] del [OF m1] by (simp_all add: v_def)
    obtain rc where "channel_timeout E v = Some (rc, w')"
      using h False by (auto simp: channel_on_read_def w1_def [symmetric] Let_def v_def)
    then show ?thesis by (rule channel_timeout_accounted [OF E v])
  next
    case True
    obtain n w2 where r2: "channel_receive E readv w1 = Some (n, w2)" "sess_inv w2" "w_alive w2"
      using channel_receive_inv [OF i1 c1 k] by blast
    have "accounted w1 w2"
      using r2(1) i1(2) by (auto simp: channel_receive_def intro: inbuffer_accounted split: bind_splits)
    then have m2: "midway u w2" by (rule midway_step [OF m1 _ r2(3)])
    obtain np w3 where r3: "(if en_running E then channel_process E w2 else (0, w2)) = (np, w3)" "sess_inv w3" "w_alive w3"
      using channel_process_inv [OF Eo r2(2,3)] r2(2,3) by (cases "en_running E") auto
    have m3: "midway u w3"
      using r3(1) channel_process_midway [OF E r2(2) m2] m2 by (auto split: if_splits)
    define v where "v = (if persistent w3 then session_del_event EV_READ w3 else w3)"
    have v: "sess_inv v" "w_alive v" "midway u v"
      using if_inv [OF r3(2,3), of "persistent w3"] del [OF m3] by (simp_all add: v_def)
    have l: "live_ok v" and b: "bounded (w_next v) (w_msgs v)"
      using sess_invD(1) [OF v(1,2)] midway_bounded [OF v(3)] by simp_all
    have sh: "accounted u x" if "session_shutdown E v = Some (c, x)" for c x
      by (rule midway_last [OF v(3) session_shutdown_accounted [OF q l b that]])
    have er: "accounted u x" if "channel_error E c v = Some (d, x)" for c d x
      by (rule midway_last [OF v(3) channel_error_accounted [OF q l b that]])
    have "accounted u (session_add_event EV_READ w3)"
      using midway_events [OF m3 add_event_only] by (simp add: midway_def)
    moreover have "accounted u w3" "accounted u v" using m3 v(3) by (simp_all add: midway_def)
    ultimately show ?thesis
      using h True r2(1) r3(1) sh er
      by (auto simp: channel_on_read_def w1_def [symmetric] Let_def v_def split: if_splits)
  qed
qed

section \<open>Writes\<close>

lemma on_write_accounted:
  assumes E: "env_accounted E" and l: "live_ok w1" and m: "midway u w1"
    and w: "w1 = status_clear SESSION_WRITING w" and h: "channel_on_write E ev w = Some w'"
  shows "accounted u w'"
proof -
  have q: "quiet E" using E unfolding env_accounted_def env_ok_def by blast
  have sh: "accounted u x" if "live_ok v" "midway u v" "channel_shutdown E v = Some (c, x)" for v c x
    by (rule midway_last [OF that(2) channel_shutdown_accounted(1) [OF q that(1) midway_bounded [OF that(2)] that(3)]])
  have er: "accounted u x" if "live_ok v" "midway u v" "channel_error E c v = Some (d, x)" for v c d x
    by (rule midway_last [OF that(2) channel_error_accounted [OF q that(1) midway_bounded [OF that(2)] that(3)]])
  show ?thesis
  proof (cases "ev AND EV_WRITE \<noteq> 0 \<and> 0 < sendqueue_count w1")
    case False
    then show ?thesis
      using h m sh [OF l m] by (auto simp: channel_on_write_def w [symmetric] Let_def midway_def split: if_splits)
  next
    case True
    obtain rc w2 where t: "channel_transmit w1 = Some (rc, w2)" using transmit_runs [OF live_okD(2) [OF l]] by blast
    note a = transmit_accounted [OF live_okD(2) [OF l] midway_bounded [OF m] live_okD(1) [OF l] t]
    have m2: "midway u w2" by (rule midway_step [OF m a(1,4)])
    have l2: "live_ok w2" by (rule same_but_queue_live(1) [OF l a(2,3)])
    have ct: "call_transmit E w1 = Some (rc, w2)" using t live_okD(7) [OF l] by (simp add: call_transmit_def)
    have "midway u (session_add_event EV_WRITE w2)" by (rule midway_events [OF m2 add_event_only])
    then have "accounted u (session_add_event EV_WRITE w2)" "accounted u w2" using m2 by (simp_all add: midway_def)
    then show ?thesis
      using h True ct er [OF l2 m2] sh [OF l2 m2]
      by (auto simp: channel_on_write_def Let_def simp flip: w split: if_splits)
  qed
qed

section \<open>Keep-alive, timed tasks, reconnecting\<close>

lemma on_keepalive_accounted:
  assumes E: "env_accounted E" and i: "sess_inv w1" and m: "midway u w1"
    and w: "w1 = status_clear SESSION_KEEPALIVING w"
  shows "accounted u (channel_on_keepalive E w)"
proof -
  define w2 where "w2 = snd (sv_keepalive (en_service E) w1)"
  obtain rc where k: "sv_keepalive (en_service E) w1 = (rc, w2)" by (metis w2_def prod.collapse)
  have cb: "callback_ok (\<lambda>w. snd (sv_keepalive (en_service E) w))"
    "callback_accounted (\<lambda>w. snd (sv_keepalive (en_service E) w))"
    using E unfolding env_accounted_def env_ok_def by blast+
  note c = midway_callback [OF cb i m, folded w2_def]
  have "midway u (snd (session_start_keepalive w2))" by (rule midway_events [OF c(1) start_keepalive_only])
  then show ?thesis
    using k c(1) by (simp add: channel_on_keepalive_def Let_def midway_def flip: w)
qed

lemma on_schedule_accounted:
  assumes E: "env_accounted E" and i: "sess_inv w1" and m: "midway u w1"
    and h: "channel_on_schedule E a w1 = Some w'"
  shows "accounted u w'"
proof -
  have q: "quiet E" using E unfolding env_accounted_def env_ok_def by blast
  obtain t where t: "find (\<lambda>t. st_addr t = a) (ss_tasklist (w_session w1)) = Some t"
    using h by (auto simp: channel_on_schedule_def split: bind_splits)
  define w2 where "w2 = snd (sv_perform (en_service E) (st_type t) (st_task t) (st_interval t) w1)"
  obtain rc where p: "sv_perform (en_service E) (st_type t) (st_task t) (st_interval t) w1 = (rc, w2)"
    by (metis w2_def prod.collapse)
  have cb: "callback_ok (\<lambda>w. snd (sv_perform (en_service E) (st_type t) (st_task t) (st_interval t) w))"
    "callback_accounted (\<lambda>w. snd (sv_perform (en_service E) (st_type t) (st_task t) (st_interval t) w))"
    using E unfolding env_accounted_def env_ok_def by blast+
  note c = midway_callback [OF cb i m, folded w2_def]
  obtain r w3 where w3: "session_cancel_task a w2 = Some (r, w3)"
    using h t p by (auto simp: channel_on_schedule_def split: bind_splits)
  obtain t2 where t2: "find (\<lambda>t. st_addr t = a) (ss_tasklist (w_session w2)) = Some t2"
    using w3 by (auto simp: session_cancel_task_def split: option.splits)
  then have "t2 \<in> set (ss_tasklist (w_session w2))" by (auto simp: find_Some_iff)
  then have ev2: "st_event t2" using live_okD(5) [OF sess_invD(1) [OF c(2,3)]] unfolding regs_ok_def regs_known_def regs_agree_def by blast
  have w3_eq: "w3 = log_act (Act_recycle_task a) (evsets_remove (EvTask a)
     (on_session (\<lambda>s. s\<lparr>ss_tasklist := filter (\<lambda>t. st_addr t \<noteq> a) (ss_tasklist s)\<rparr>) w2))"
    using w3 t2 ev2 by (simp add: session_cancel_task_def Let_def)
  have a3: "accounted w2 w3" "w_alive w3"
    using c(3) by (auto simp: w3_eq is_removal_def log_act_def on_session_def queue_list_def removal_acts_def frame_simps intro!: accounted_same)
  have m3: "midway u w3" by (rule midway_step [OF c(1) a3])
  have m4: "midway u (session_close w3)"
    unfolding session_close_def by (rule midway_events [OF m3 events_only_steps(2)])
  have r2: "regs_ok w2" by (rule live_okD(5) [OF sess_invD(1) [OF c(2,3)]])
  have af: "b \<in> st_addr ` set (filter (\<lambda>t. st_addr t \<noteq> a) ts) \<longleftrightarrow> b \<in> st_addr ` set ts \<and> b \<noteq> a" for b ts by auto
  have fl: "\<forall>t \<in> set (filter (\<lambda>t. st_addr t \<noteq> a) (ss_tasklist (w_session w2))). st_event t"
    using r2 by (simp add: regs_ok_def regs_known_def regs_agree_def)
  have s3: "w_session w3 = (w_session w2)\<lparr>ss_tasklist := filter (\<lambda>t. st_addr t \<noteq> a) (ss_tasklist (w_session w2))\<rparr>"
    "w_regs w3 = (w_regs w2)(EvTask a := None) \<and> w_refuse w3 = w_refuse w2" "w_msgs w3 = w_msgs w2" "w_next w3 = w_next w2"
    by (simp_all add: w3_eq log_act_def on_session_def frame_simps)
  have "regs_ok w3"
    using r2 fl by (simp add: regs_ok_def regs_known_def regs_agree_def has_status_session s3 af del: set_filter)
  then have l3: "live_ok w3"
    using sess_invD(1) [OF c(2,3)] a3(2) by (simp add: live_ok_def queue_ok_def queue_list_def s3)
  then have l4: "live_ok (session_close w3)"
    unfolding session_close_def by (rule live_ok_events [OF _ events_only_steps(2)])
      (use \<open>regs_ok w3\<close> in \<open>simp add: regs_ok_def regs_known_def frame_simps status_simps\<close>)
  have sh: "accounted u x" if "session_shutdown E (session_close w3) = Some (k, x)" for k x
    by (rule midway_last [OF m4 session_shutdown_accounted [OF q l4 midway_bounded [OF m4] that]])
  show ?thesis
    using h t p w3 sh m3 by (auto simp: channel_on_schedule_def midway_def split: if_splits)
qed

lemma on_reconnect_accounted:
  assumes E: "env_accounted E" and l: "live_ok w1" "\<not> has_status SESSION_WRITING w1" and m: "midway u w1"
    and w: "w1 = status_clear SESSION_WRITING w" and h: "channel_on_reconnect E w = Some w'"
  shows "accounted u w'"
proof -
  have q: "quiet E" using E unfolding env_accounted_def env_ok_def by blast
  have none: "w_regs w1 EvWrite = None"
    using live_okD(5) [OF l(1)] l(2) by (cases "w_regs w1 EvWrite") (auto simp: regs_ok_def regs_known_def regs_agree_def)
  have fd: "live_ok (on_session (\<lambda>s. s\<lparr>ss_fd := f s\<rparr>) w1)" "midway u (on_session (\<lambda>s. s\<lparr>ss_fd := f s\<rparr>) w1)" for f
  proof -
    show "live_ok (on_session (\<lambda>s. s\<lparr>ss_fd := f s\<rparr>) w1)"
      using l none by (simp add: live_ok_def queue_ok_def queue_list_def regs_ok_def regs_known_def regs_agree_def has_status_session on_session_def)
    have "accounted w1 (on_session (\<lambda>s. s\<lparr>ss_fd := f s\<rparr>) w1)"
      using live_okD(1) [OF l(1)]
      by (intro accounted_same) (simp_all add: on_session_def queue_list_def removal_acts_def)
    then show "midway u (on_session (\<lambda>s. s\<lparr>ss_fd := f s\<rparr>) w1)"
      by (rule midway_step [OF m]) (use live_okD(1) [OF l(1)] in \<open>simp add: on_session_def\<close>)
  qed
  define s where "s = w_session w1"
  define w2 where "w2 = (if ss_type s = eSessionType_Connect then on_session (\<lambda>s. s\<lparr>ss_fd := en_tcp_connect E\<rparr>) w1
     else if ss_type s = eSessionType_Associate
     then on_session (\<lambda>s. s\<lparr>ss_fd := en_reattach E (ss_fd s) (ss_privdata s)\<rparr>) w1 else w1)"
  have w2: "live_ok w2" "midway u w2" using fd l(1) m by (simp_all add: w2_def)
  have "midway u (status_set SESSION_WRITING (register EvWrite (ss_fd (w_session w2)) EV_WRITE Reconnected (- 1) w2))"
    by (rule midway_events [OF w2(2)]) (intro events_only_status events_only_steps)
  moreover have "accounted u x" if "channel_error E c w2 = Some (d, x)" for c d x
    by (rule midway_last [OF w2(2) channel_error_accounted [OF q w2(1) midway_bounded [OF w2(2)] that]])
  moreover have "Some w' =
     (if ss_fd (w_session w2) < 0 then map_option snd (channel_error E eIOError_ConnectFailure w2)
      else Some (status_set SESSION_WRITING (register EvWrite (ss_fd (w_session w2)) EV_WRITE Reconnected (- 1) w2)))"
    using h unfolding channel_on_reconnect_def Let_def w2_def s_def w by (rule sym)
  ultimately show ?thesis by (auto simp: midway_def eq_commute [of "Some w'"] split: if_splits)
qed

lemma reconnected_accounted:
  assumes E: "env_accounted E" and l: "live_ok w1" "0 < ss_fd (w_session w1)" "\<not> has_status SESSION_WRITING w1"
    and m: "midway u w1" and w: "w1 = status_clear SESSION_WRITING w" and ev: "ev AND EV_WRITE \<noteq> 0"
    and small: "length (queue_list w1) < 2 ^ 30" and h: "channel_reconnected E ev w = Some w'"
  shows "accounted u w'"
proof (cases "en_is_connected E = 0")
  case False
  have q: "quiet E" using E unfolding env_accounted_def env_ok_def by blast
  have "accounted u x" if "channel_error E c w1 = Some (d, x)" for c d x
    by (rule midway_last [OF m channel_error_accounted [OF q l(1) midway_bounded [OF m] that]])
  then show ?thesis using False ev h by (auto simp: channel_reconnected_def Let_def simp flip: w)
next
  case conn: True
  have Eo: "env_ok E" and cb: "callback_accounted (\<lambda>w. snd (sv_start (en_service E) w))"
    using E unfolding env_accounted_def by blast+
  obtain q0 w2 w3 sq w4 where w2: "w2 = on_session (\<lambda>s. s\<lparr>ss_msgoffset := 0, ss_sendqueue := q0\<rparr>) w1"
      "ring_list q0 = []" "sess_inv w2" "w_alive w2"
    and w3: "w3 = snd (sv_start (en_service E) w2)" "w_alive w3"
    and w4: "w4 = on_session (\<lambda>s. s\<lparr>ss_sendqueue := sq\<rparr>) w3" "queue_list w4 = queue_list w3 @ queue_list w1"
    and eq: "channel_reconnected E ev w =
       Some (snd (session_start_keepalive (session_add_event EV_WRITE (session_add_event EV_READ w4))))"
    using reconnected_states [OF Eo l w ev small conn] by metis
  have b: "bounded (w_next w2) (w_msgs w2)" using midway_bounded [OF m] by (simp add: w2(1) on_session_def)
  have a: "accounted w2 w3" using cb w2(3,4) b unfolding callback_accounted_def w3(1) by blast
  have s2: "w_msgs w2 = w_msgs w1" "w_next w2 = w_next w1" "queue_list w2 = []" "ss_id (w_session w2) = ss_id (w_session w1)"
    "removal_acts w2 = removal_acts w1"
    using w2(2) by (simp_all add: w2(1) on_session_def queue_list_def removal_acts_def)
  have s4: "w_msgs w4 = w_msgs w3" "w_next w4 = w_next w3" "ss_id (w_session w4) = ss_id (w_session w3)"
    "removal_acts w4 = removal_acts w3" "w_alive w4"
    using w3(2) by (simp_all add: w4(1) on_session_def removal_acts_def)
  have "accounted w1 w4" using a w3(2) by (auto simp: accounted_def s2 s4 w4(2) slack_def)
  then have "midway u w4" using m s4(5) midway_step by blast
  then have "midway u (snd (session_start_keepalive (session_add_event EV_WRITE (session_add_event EV_READ w4))))"
    by (intro midway_events [OF midway_events [OF midway_events [OF _ add_event_only] add_event_only] start_keepalive_only])
  then show ?thesis using h eq by (simp add: midway_def)
qed

section \<open>Any event\<close>

lemma fire_accounted:
  assumes E: "env_accounted E" and inv: "sess_inv w" "w_alive w" "w_regs w e = Some r" "occurrence_ok r oc"
    and cap: "unat (bf_capacity (ss_inbuffer (w_session w))) \<le> 2 ^ 62" and small: "length (queue_list w) < 2 ^ 30"
    and b: "bounded (w_next w) (w_msgs w)" and h: "fire E e oc w = Some w'"
  shows "accounted w w'"
proof -
  have m: "midway w w" by (rule midway_refl [OF inv(2) b])
  note d = sess_invD [OF inv(1,2)]
  have r0: "regs_ok w" by (rule live_okD(5) [OF d(1)])
  show ?thesis
  proof (cases e)
    case EvRead
    then have "rg_callback r = On_read" using r0 inv(3) unfolding regs_ok_def regs_known_def regs_agree_def by blast
    then show ?thesis
      using on_read_accounted [OF E inv(1) inv(3) [unfolded EvRead] m refl cap, where readv = "oc_readv oc"] inv(3,4) EvRead h
      by (simp add: fire_def Let_def occurrence_ok_def split del: if_split)
  next
    case EvWrite
    define v where "v = evsets_remove EvWrite w"
    note s = write_start_live [OF inv(1,2) inv(3) [unfolded EvWrite], folded v_def]
    have m1: "midway w (status_clear SESSION_WRITING v)"
      unfolding v_def by (rule midway_events [OF m]) (intro events_only_status events_only_steps)
    have small1: "length (queue_list (status_clear SESSION_WRITING v)) < 2 ^ 30"
      using small by (simp add: v_def queue_list_def status_clear_def on_session_def frame_simps)
    have fire: "fire E e oc w = (case rg_callback r of
        On_read \<Rightarrow> channel_on_read E (oc_readv oc) (oc_errno oc) (oc_results oc) v
      | On_write \<Rightarrow> channel_on_write E (oc_results oc) v
      | On_keepalive \<Rightarrow> Some (channel_on_keepalive E v)
      | On_reconnect \<Rightarrow> channel_on_reconnect E v
      | Reconnected \<Rightarrow> channel_reconnected E (oc_results oc) v
      | On_schedule \<Rightarrow> None)"
      using inv(3) s(5) by (cases "rg_callback r") (simp_all add: fire_def EvWrite v_def Let_def)
    consider (W) "rg_callback r = On_write" | (R) "rg_callback r = On_reconnect" | (C) "rg_callback r = Reconnected"
      using s(7) by blast
    then show ?thesis
    proof cases
      case W
      then show ?thesis using on_write_accounted [OF E s(1) m1 refl] h by (simp add: fire)
    next
      case R
      then show ?thesis using on_reconnect_accounted [OF E s(1,3) m1 refl] h by (simp add: fire)
    next
      case C
      have "oc_results oc AND EV_WRITE \<noteq> 0" using inv(4) s(6) [OF C] by (auto simp: occurrence_ok_def)
      then show ?thesis using reconnected_accounted [OF E s(1) _ s(3) m1 refl _ small1] s(2) C h by (simp add: fire)
    qed
  next
    case EvKeepalive
    then have k: "rg_callback r = On_keepalive" "rg_events r = 0"
      using r0 inv(3) unfolding regs_ok_def regs_known_def regs_agree_def by blast+
    define w1 where "w1 = status_clear SESSION_KEEPALIVING (evsets_remove EvKeepalive w)"
    have eo: "events_only w w1" by (simp add: w1_def events_only_status events_only_steps)
    have "regs_ok w1" using r0 by (simp add: w1_def regs_ok_def regs_known_def regs_agree_def frame_simps status_simps)
    then have "live_ok w1" by (rule live_ok_events [OF d(1) eo])
    moreover have "busy_ok w1" by (rule busy_ok_events [OF d(2) eo]) (simp add: w1_def status_simps)
    ultimately have "sess_inv w1" by (simp add: sess_inv_def live_ok_def)
    then show ?thesis
      using on_keepalive_accounted [OF E _ midway_events [OF m eo] w1_def] k inv(3) EvKeepalive h by (simp add: fire_def)
  next
    case (EvTask a)
    then have k: "rg_callback r = On_schedule" "rg_events r = 0"
      using r0 inv(3) unfolding regs_ok_def regs_known_def regs_agree_def by blast+
    define w1 where "w1 = evsets_remove (EvTask a) w"
    have eo: "events_only w w1" by (simp add: w1_def events_only_steps)
    have "regs_ok w1" using r0 by (simp add: w1_def regs_ok_def regs_known_def regs_agree_def frame_simps status_simps)
    then have "live_ok w1" by (rule live_ok_events [OF d(1) eo])
    moreover have "busy_ok w1" by (rule busy_ok_events [OF d(2) eo]) (simp add: w1_def status_simps)
    ultimately have "sess_inv w1" by (simp add: sess_inv_def live_ok_def)
    then show ?thesis
      using on_schedule_accounted [OF E _ midway_events [OF m eo]] k inv(3) EvTask h by (simp add: fire_def w1_def)
  qed
qed

end
