(* ===== verification/Ownership.thy ===== *)
theory Ownership
  imports Accounting
begin

text \<open>
  The invariant of one I/O thread over all its sessions, the messages they share and the session
  manager: no session is lost or dangling, and every message owes exactly as many outcomes as there
  are entries for it in the send queues of the thread.  So a message is freed exactly when its last
  entry has been settled: never while a queue still holds it, and never later.

  \<open>d\<close> is what messages owe beyond their queue entries: nothing between the tasks of a thread, the
  receivers not yet served while a broadcast is under way.  \<open>X\<close> are messages in the hands of a
  running task, which may owe nothing and still exist.
\<close>

section \<open>The invariant\<close>

definition queue_of :: "io_thread \<Rightarrow> nat \<Rightarrow> nat list" where
  "queue_of S p = (case lt_sessions S p of None \<Rightarrow> [] | Some e \<Rightarrow> ring_list (ss_sendqueue (e_session e)))"

definition entries :: "io_thread \<Rightarrow> nat \<Rightarrow> int" where
  "entries S a = (\<Sum>p<lt_next S. int (count_list (queue_of S p) a))"

definition session_listed :: "io_thread \<Rightarrow> nat \<Rightarrow> entity \<Rightarrow> bool" where
  "session_listed S p e \<longleftrightarrow> p < lt_next S \<and> sess_inv (focus e S) \<and>
     se_id (lt_manager S) p = ss_id (e_session e) \<and> handles (lt_manager S) (key (ss_id (e_session e))) = Some p"

definition thread_inv :: "nat set \<Rightarrow> (nat \<Rightarrow> int) \<Rightarrow> io_thread \<Rightarrow> bool" where
  "thread_inv X d S \<longleftrightarrow> smgr_ok (lt_manager S) \<and>
     (\<forall>p e. lt_sessions S p = Some e \<longrightarrow> session_listed S p e) \<and>
     (\<forall>k p. handles (lt_manager S) k = Some p \<longrightarrow> lt_sessions S p \<noteq> None) \<and>
     bounded (lt_next S) (lt_msgs S) \<and>
     (\<forall>a. 0 \<le> d a \<and> owes (lt_msgs S) a = entries S a + d a) \<and>
     (\<forall>a m. lt_msgs S a = Some m \<and> a \<notin> X \<longrightarrow> 0 < owed m)"

abbreviation thread_ok :: "io_thread \<Rightarrow> bool" where
  "thread_ok S \<equiv> thread_inv {} (\<lambda>_. 0) S"

lemma thread_invD:
  assumes "thread_inv X d S"
  shows "smgr_ok (lt_manager S)" "lt_sessions S p = Some e \<Longrightarrow> session_listed S p e"
    "handles (lt_manager S) k = Some p \<Longrightarrow> lt_sessions S p \<noteq> None" "bounded (lt_next S) (lt_msgs S)"
    "0 \<le> d a" "owes (lt_msgs S) a = entries S a + d a" "lt_msgs S a = Some m \<Longrightarrow> a \<notin> X \<Longrightarrow> 0 < owed m"
  using assms unfolding thread_inv_def by blast+

lemma focus_simps [simp]:
  "w_session (focus e S) = e_session e" "w_alive (focus e S)" "w_msgs (focus e S) = lt_msgs S"
  "w_next (focus e S) = lt_next S" "w_out (focus e S) = e_out e" "w_io (focus e S) = e_io e"
  "w_regs (focus e S) = e_regs e" "w_refuse (focus e S) = e_refuse e" "removal_acts (focus e S) = []" "w_acts (focus e S) = []"
  "queue_list (focus e S) = ring_list (ss_sendqueue (e_session e))"
  by (simp_all add: focus_def removal_acts_def queue_list_def)

lemma listed_session:
  assumes "thread_inv X d S" "lt_sessions S p = Some e"
  shows "p < lt_next S" "sess_inv (focus e S)" "se_id (lt_manager S) p = ss_id (e_session e)"
    "handles (lt_manager S) (key (ss_id (e_session e))) = Some p" "p \<in> sessions (lt_manager S)"
  using thread_invD(2) [OF assms] unfolding session_listed_def sessions_def ran_def by blast+

lemma entries_split:
  assumes "p < lt_next S"
  shows "entries S a = int (count_list (queue_of S p) a) + (\<Sum>q \<in> {..<lt_next S} - {p}. int (count_list (queue_of S q) a))"
  unfolding entries_def using assms by (subst sum.remove [of _ p]) auto

lemma count_le_entries:
  assumes "lt_sessions S q = Some e" "q < lt_next S"
  shows "int (count_list (ring_list (ss_sendqueue (e_session e))) a) \<le> entries S a"
  using entries_split [OF assms(2), of a] assms(1) sum_nonneg [of "{..<lt_next S} - {q}" "\<lambda>q. int (count_list (queue_of S q) a)"]
  by (simp add: queue_of_def)

section \<open>One step of one session\<close>

text \<open>The state of the thread after a session \<open>p\<close> has become \<open>w\<close>.\<close>

lemma remove_id:
  "session_manager_remove m (Some p) = Some (0, m') \<Longrightarrow> se_id m' = (se_id m)(p := 0)"
  by (auto simp: session_manager_remove_def Let_def split: bind_splits if_splits)

lemma retire_ok:
  assumes inv: "thread_inv X d S" and e: "lt_sessions S p = Some e"
    and r: "if w_alive w then removal_acts w = [] else removal_acts w \<noteq> []"
  shows "\<exists>m. retire p (w_acts w) (unfocus p e w S) = Some ((unfocus p e w S)\<lparr>lt_manager := m\<rparr>) \<and> smgr_ok m \<and>
    handles m = (if w_alive w then handles (lt_manager S)
                 else (handles (lt_manager S))(key (ss_id (e_session e)) := None)) \<and>
    (\<forall>q. q \<noteq> p \<longrightarrow> se_id m q = se_id (lt_manager S) q) \<and> (w_alive w \<longrightarrow> m = lt_manager S) \<and>
    sm_index m = sm_index (lt_manager S)"
proof (cases "w_alive w")
  case True
  then show ?thesis
    using r thread_invD(1) [OF inv]
    by (intro exI [of _ "lt_manager S"]) (simp add: retire_def removal_acts_def unfocus_def)
next
  case False
  note l = listed_session [OF inv e]
  obtain m where m: "session_manager_remove (lt_manager S) (Some p) = Some (0, m)" "smgr_ok m"
    "handles m = (handles (lt_manager S))(key (se_id (lt_manager S) p) := None)" "sm_index m = sm_index (lt_manager S)"
    using remove_ok [OF thread_invD(1) [OF inv] l(5)] by blast
  then show ?thesis
    using r False l(3) remove_id [OF m(1)]
    by (intro exI [of _ m]) (simp add: retire_def removal_acts_def unfocus_def)
qed

text \<open>Another value of a message that sends the same bytes; its receivers may differ.\<close>

definition same_bytes :: "message \<Rightarrow> message \<Rightarrow> bool" where
  "same_bytes m m' \<longleftrightarrow>
     msg_buffer m' = msg_buffer m \<and> msg_length m' = msg_length m \<and> (message_ok m \<longrightarrow> message_ok m')"

lemma same_content_bytes: "same_content m m' \<Longrightarrow> same_bytes m m'"
  using same_content_sendable(3) [of m m'] by (simp add: same_bytes_def same_content_def)

text \<open>What a session finds changed after a step of another one: nothing it has to send.\<close>

lemma change_messages:
  assumes inv: "sess_inv w" "w_alive w"
    and keep: "\<forall>b \<in> set (queue_list w). \<forall>m. w_msgs w b = Some m \<longrightarrow>
      (\<exists>m'. msgs' b = Some m' \<and> same_bytes m m' \<and> int (count_list (queue_list w) b) \<le> owed m')"
    and le: "w_next w \<le> n'"
  shows "sess_inv (w\<lparr>w_msgs := msgs', w_next := n'\<rparr>)" "pending (w\<lparr>w_msgs := msgs', w_next := n'\<rparr>) = pending w"
proof -
  let ?w = "w\<lparr>w_msgs := msgs', w_next := n'\<rparr>"
  define as where "as = queue_list w"
  have ql: "queue_list ?w = as" by (simp add: as_def queue_list_def)
  have l: "live_ok w" "busy_ok w" using sess_invD [OF inv] by simp_all
  have q: "queue_ok w" by (rule live_okD(2) [OF l(1)])
  have mo: "msgs_ok (w_msgs w) as" using q by (simp add: queue_ok_def as_def)
  have keep': "\<exists>m'. msgs' b = Some m' \<and> same_bytes m m' \<and> int (count_list as b) \<le> owed m'"
    if "b \<in> set as" "w_msgs w b = Some m" for b m
    using keep that unfolding as_def by blast
  have bytes: "bytes_of msgs' b = bytes_of (w_msgs w) b" if b: "b \<in> set as" for b
  proof -
    obtain m where m: "w_msgs w b = Some m" using mo b unfolding msgs_ok_def by blast
    then obtain m' where "msgs' b = Some m'" "msg_buffer m' = msg_buffer m" "msg_length m' = msg_length m"
      using keep' [OF b] unfolding same_bytes_def by blast
    then show ?thesis using m by (cases "msg_buffer m") (simp_all add: bytes_of_def)
  qed
  have st: "stream msgs' as = stream (w_msgs w) as" by (rule stream_cong) (rule bytes)
  show "pending ?w = pending w" using st by (simp add: pending_def ql) (simp add: as_def)
  have "msgs_ok msgs' as"
    unfolding msgs_ok_def
  proof
    fix b assume b: "b \<in> set as"
    obtain m where m: "w_msgs w b = Some m" "sendable m" using mo b unfolding msgs_ok_def by blast
    obtain m' where m': "msgs' b = Some m'" "same_bytes m m'" "int (count_list as b) \<le> owed m'"
      using keep' [OF b m(1)] by blast
    then show "\<exists>m. msgs' b = Some m \<and> sendable m \<and> outcomes m + count_list as b \<le> length (receivers m)"
      using m(2) by (auto simp: owed_def same_bytes_def sendable_def)
  qed
  moreover have "offset_ok msgs' as off = offset_ok (w_msgs w) as off" for off
    using bytes by (cases as) (simp_all add: offset_ok_def)
  moreover have "\<forall>a \<in> set as. a < n'" using q le by (auto simp: queue_ok_def as_def)
  ultimately have "queue_ok ?w" using q ql by (simp add: queue_ok_def as_def)
  then have "live_ok ?w" using l(1) by (simp add: live_ok_def regs_ok_def regs_known_def has_status_session)
  moreover have "busy_ok ?w" using l(2) ql by (simp add: busy_ok_def has_status_session as_def)
  ultimately show "sess_inv ?w" using inv(2) by (simp add: sess_inv_def)
qed

lemma other_session:
  assumes inv: "sess_inv (focus e S)"
    and keep: "\<forall>b \<in> set (ring_list (ss_sendqueue (e_session e))). \<forall>m. lt_msgs S b = Some m \<longrightarrow>
      (\<exists>m'. lt_msgs S' b = Some m' \<and> same_bytes m m' \<and>
        int (count_list (ring_list (ss_sendqueue (e_session e))) b) \<le> owed m')"
    and le: "lt_next S \<le> lt_next S'"
  shows "sess_inv (focus e S')" "pending (focus e S') = pending (focus e S)"
proof -
  have eq: "focus e S' = (focus e S)\<lparr>w_msgs := lt_msgs S', w_next := lt_next S'\<rparr>" by (simp add: focus_def)
  show "sess_inv (focus e S')" "pending (focus e S') = pending (focus e S)"
    unfolding eq using change_messages [OF inv, of "lt_msgs S'" "lt_next S'"] keep le by simp_all
qed

text \<open>
  The step itself.  \<open>\<delta>\<close> is how much less the messages owe beyond their entries afterwards: nothing
  for a handler, one for a message just handed to the session.
\<close>

definition session_step :: "nat set \<Rightarrow> (nat \<Rightarrow> int) \<Rightarrow> entity \<Rightarrow> io_thread \<Rightarrow> world \<Rightarrow> bool" where
  "session_step X \<delta> e S w \<longleftrightarrow> sess_inv w \<and> lt_next S \<le> w_next w \<and>
     (\<forall>b m'. w_msgs w b = Some m' \<longrightarrow>
       (case lt_msgs S b of Some m \<Rightarrow> same_content m m' \<and> (m' = m \<or> b \<in> X \<or> 0 < owed m')
        | None \<Rightarrow> b < w_next w \<and> 0 < owed m')) \<and>
     (\<forall>b. slack w b = slack (focus e S) b - \<delta> b) \<and>
     (if w_alive w then removal_acts w = [] \<and> ss_id (w_session w) = ss_id (e_session e)
      else removal_acts w \<noteq> [] \<and> queue_list w = [])"

lemma session_step_inv:
  assumes inv: "thread_inv X d S" and e: "lt_sessions S p = Some e" and w: "session_step X \<delta> e S w"
    and \<delta>: "\<forall>b. \<delta> b \<le> d b"
  shows "\<exists>S'. retire p (w_acts w) (unfocus p e w S) = Some S' \<and> thread_inv X (\<lambda>b. d b - \<delta> b) S' \<and>
    lt_msgs S' = w_msgs w \<and> lt_next S' = w_next w \<and> (\<forall>q. q \<noteq> p \<longrightarrow> lt_sessions S' q = lt_sessions S q) \<and>
    lt_sessions S' p = (if w_alive w then Some \<lparr>e_session = w_session w, e_out = w_out w, e_io = w_io w,
      e_regs = w_regs w, e_refuse = w_refuse w, e_service = e_service e\<rparr> else None) \<and>
    (\<forall>q e'. q \<noteq> p \<and> lt_sessions S q = Some e' \<longrightarrow> pending (focus e' S') = pending (focus e' S)) \<and>
    (w_alive w \<longrightarrow> lt_manager S' = lt_manager S) \<and> lt_index S' = lt_index S \<and>
    lt_acts S' = lt_acts S @ map (Session_act p) (w_acts w) \<and>
    handles (lt_manager S') = (if w_alive w then handles (lt_manager S)
      else (handles (lt_manager S))(key (ss_id (e_session e)) := None))"
proof -
  note l = listed_session [OF inv e]
  have w1: "sess_inv w" "lt_next S \<le> w_next w" "slack w b = slack (focus e S) b - \<delta> b" for b
    using w by (simp_all add: session_step_def)
  have c_old: "same_content m m' \<and> (m' = m \<or> b \<in> X \<or> 0 < owed m')" if "w_msgs w b = Some m'" "lt_msgs S b = Some m" for b m m'
    using w that unfolding session_step_def by fastforce
  have c_new: "b < w_next w \<and> 0 < owed m'" if "w_msgs w b = Some m'" "lt_msgs S b = None" for b m'
    using w that unfolding session_step_def by fastforce
  have rm: "if w_alive w then removal_acts w = [] else removal_acts w \<noteq> []"
    using w unfolding session_step_def by (simp split: if_splits)
  obtain m where m: "retire p (w_acts w) (unfocus p e w S) = Some ((unfocus p e w S)\<lparr>lt_manager := m\<rparr>)" "smgr_ok m"
    "handles m = (if w_alive w then handles (lt_manager S) else (handles (lt_manager S))(key (ss_id (e_session e)) := None))"
    "\<forall>q. q \<noteq> p \<longrightarrow> se_id m q = se_id (lt_manager S) q" "w_alive w \<longrightarrow> m = lt_manager S"
    using retire_ok [OF inv e rm] by blast
  define S' where "S' = (unfocus p e w S)\<lparr>lt_manager := m\<rparr>"
  define e' where "e' = \<lparr>e_session = w_session w, e_out = w_out w, e_io = w_io w, e_regs = w_regs w, e_refuse = w_refuse w, e_service = e_service e\<rparr>"
  have S': "lt_sessions S' = (lt_sessions S)(p := if w_alive w then Some e' else None)" "lt_msgs S' = w_msgs w"
    "lt_next S' = w_next w" "lt_manager S' = m" "lt_index S' = lt_index S"
    "lt_acts S' = lt_acts S @ map (Session_act p) (w_acts w)"
    by (simp_all add: S'_def unfocus_def e'_def)
  have qo: "queue_of S' q = queue_of S q" if "q \<noteq> p" for q using that by (simp add: queue_of_def S'(1))
  have dead: "queue_list w = []" if "\<not> w_alive w" using w that by (simp add: session_step_def)
  have qp: "queue_of S' p = queue_list w" "queue_of S p = queue_list (focus e S)"
    using dead e by (auto simp: queue_of_def S'(1) e'_def queue_list_def)
  have none: "queue_of S q = []" if "\<not> q < lt_next S" for q
    using that listed_session(1) [OF inv, of q] by (cases "lt_sessions S q") (auto simp: queue_of_def)
  have "(\<Sum>q \<in> {..<w_next w} - {p}. int (count_list (queue_of S' q) a)) =
      (\<Sum>q \<in> {..<lt_next S} - {p}. int (count_list (queue_of S q) a))" for a
  proof (intro sum.mono_neutral_cong_right)
    show "\<forall>i \<in> ({..<w_next w} - {p}) - ({..<lt_next S} - {p}). int (count_list (queue_of S' i) a) = 0"
    proof
      fix i assume "i \<in> ({..<w_next w} - {p}) - ({..<lt_next S} - {p})"
      then have "i \<noteq> p" "\<not> i < lt_next S" by auto
      then show "int (count_list (queue_of S' i) a) = 0" using none [of i] qo [of i] by simp
    qed
  qed (use w1(2) qo in auto)
  then have ent: "entries S' a = entries S a + int (count_list (queue_list w) a) - int (count_list (queue_list (focus e S)) a)" for a
    using entries_split [of p S a] entries_split [of p S' a] l(1) w1(2) qp by (simp add: S'(3))
  have bal: "owes (w_msgs w) b = entries S' b + (d b - \<delta> b)" for b
    using thread_invD(6) [OF inv, of b] w1(3) [of b] ent [of b] by (simp add: slack_def)
  have bnd: "bounded (w_next w) (w_msgs w)"
    unfolding bounded_def
  proof (intro allI impI)
    fix b m' assume b: "w_msgs w b = Some m'"
    show "b < w_next w"
      using c_new [OF b] thread_invD(4) [OF inv] w1(2) unfolding bounded_def by (cases "lt_msgs S b") force+
  qed
  have others: "sess_inv (focus e1 S') \<and> pending (focus e1 S') = pending (focus e1 S)"
    if q: "q \<noteq> p" "lt_sessions S q = Some e1" for q e1
  proof -
    note lq = listed_session [OF inv q(2)]
    have "q < lt_next S'" using lq(1) w1(2) S'(3) by simp
    moreover have "lt_sessions S' q = Some e1" using q by (simp add: S'(1))
    ultimately have cnt: "int (count_list (ring_list (ss_sendqueue (e_session e1))) b) \<le> entries S' b" for b
      by (rule count_le_entries [rotated])
    have "\<exists>m'. lt_msgs S' b = Some m' \<and> same_bytes m1 m' \<and>
        int (count_list (ring_list (ss_sendqueue (e_session e1))) b) \<le> owed m'"
      if b: "b \<in> set (ring_list (ss_sendqueue (e_session e1)))" "lt_msgs S b = Some m1" for b m1
    proof -
      have "0 < count_list (ring_list (ss_sendqueue (e_session e1))) b"
        using b(1) by (metis count_list_0_iff gr0I)
      then have "0 < owes (w_msgs w) b"
        using bal [of b] cnt [of b] \<delta> by (smt (verit) of_nat_0_less_iff)
      then obtain m' where m': "w_msgs w b = Some m'" by (cases "w_msgs w b") (auto simp: owes_def)
      have "int (count_list (ring_list (ss_sendqueue (e_session e1))) b) \<le> owed m'"
        using bal [of b] cnt [of b] \<delta> m' by (smt (verit) owes_def option.simps(5))
      then show ?thesis using m' same_content_bytes c_old [OF m' b(2)] S'(2) by auto
    qed
    moreover have "lt_next S \<le> lt_next S'" using w1(2) S'(3) by simp
    ultimately show ?thesis using other_session [OF lq(2), of S'] by blast
  qed
  have me: "sess_inv (focus e' S')" if "w_alive w"
  proof -
    have "focus e' S' = w\<lparr>w_acts := []\<rparr>" using that by (simp add: focus_def e'_def S')
    moreover have "sess_inv (w\<lparr>w_acts := []\<rparr>) = sess_inv w"
      by (simp add: sess_inv_def live_ok_def busy_ok_def queue_ok_def queue_list_def regs_ok_def regs_known_def has_status_session)
    ultimately show ?thesis using w1(1) by simp
  qed
  have listed: "session_listed S' q e1" if "lt_sessions S' q = Some e1" for q e1
  proof (cases "q = p")
    case True
    then have "w_alive w" "e1 = e'" using that by (auto simp: S'(1) split: if_splits)
    then show ?thesis
      using me l w True m(3,5) w1(2) by (simp add: session_listed_def S' session_step_def e'_def)
  next
    case False
    then have e1: "lt_sessions S q = Some e1" using that by (simp add: S'(1))
    note lq = listed_session [OF inv e1]
    have "key (ss_id (e_session e1)) \<noteq> key (ss_id (e_session e))" using lq(4) l(4) False by auto
    then show ?thesis
      using others [OF False e1] lq m(3,4) False w1(2) by (simp add: session_listed_def S')
  qed
  have dang: "lt_sessions S' q \<noteq> None" if h: "handles (lt_manager S') k = Some q" for k q
  proof (cases "q = p")
    case False
    have "handles (lt_manager S) k = Some q" using h m(3) by (simp add: S'(4) split: if_splits)
    then show ?thesis using thread_invD(3) [OF inv] False by (simp add: S'(1))
  next
    case True
    show ?thesis
    proof (cases "w_alive w")
      case True
      then show ?thesis using \<open>q = p\<close> by (simp add: S'(1))
    next
      case False
      then have k: "handles (lt_manager S) k = Some p" "k \<noteq> key (ss_id (e_session e))"
        using h m(3) \<open>q = p\<close> by (auto simp: S'(4) split: if_splits)
      then show ?thesis using handles_key(2) [OF thread_invD(1) [OF inv] k(1)] l(3) by simp
    qed
  qed
  have pos: "0 < owed m'" if a: "w_msgs w a = Some m'" "a \<notin> X" for a m'
    using c_new [OF a(1)] c_old [OF a(1)] thread_invD(7) [OF inv _ a(2)] a(2) by (cases "lt_msgs S a") auto
  have "thread_inv X (\<lambda>b. d b - \<delta> b) S'"
    unfolding thread_inv_def S'(2,3)
  proof (intro conjI)
    show "smgr_ok (lt_manager S')" using m(2) S'(4) by simp
    show "\<forall>q e. lt_sessions S' q = Some e \<longrightarrow> session_listed S' q e" using listed by blast
    show "\<forall>k q. handles (lt_manager S') k = Some q \<longrightarrow> lt_sessions S' q \<noteq> None" using dang by blast
    show "bounded (w_next w) (w_msgs w)" by (rule bnd)
    show "\<forall>a. 0 \<le> d a - \<delta> a \<and> owes (w_msgs w) a = entries S' a + (d a - \<delta> a)" using bal \<delta> by simp
    show "\<forall>a m. w_msgs w a = Some m \<and> a \<notin> X \<longrightarrow> 0 < owed m" using pos by blast
  qed
  then show ?thesis
    using m(1,3) S' others m(5) by (intro exI [of _ S']) (auto simp: S'_def e'_def)
qed

end
