(* ===== verification/LayerSteps.thy ===== *)
theory LayerSteps
  imports Ownership
begin

text \<open>
  The tasks of a thread keep the invariant of the thread: events that fire, sends, shutdowns and
  tasks of the application, each as a step of the session it names.
\<close>

section \<open>From sessions to the thread\<close>

lemma accounted_step:
  assumes "accounted (focus e S) w" "sess_inv w"
  shows "session_step X (\<lambda>_. 0) e S w"
proof -
  have ev: "evolves (lt_next S) (lt_msgs S) (w_next w) (w_msgs w)" using assms(1) by (simp add: accounted_def)
  have "case lt_msgs S b of Some m \<Rightarrow> same_content m m' \<and> (m' = m \<or> b \<in> X \<or> 0 < owed m')
      | None \<Rightarrow> b < w_next w \<and> 0 < owed m'" if "w_msgs w b = Some m'" for b m'
    using evolvesD [OF ev that] by (cases "lt_msgs S b") auto
  then show ?thesis
    using assms evolves_le [OF ev] by (simp add: session_step_def accounted_def)
qed

text \<open>What a step of session \<open>p\<close> leaves alone.\<close>

definition only_session :: "nat \<Rightarrow> io_thread \<Rightarrow> io_thread \<Rightarrow> bool" where
  "only_session p S S' \<longleftrightarrow> lt_index S' = lt_index S \<and>
     (\<forall>q. q \<noteq> p \<longrightarrow> lt_sessions S' q = lt_sessions S q) \<and>
     (\<forall>q e. q \<noteq> p \<and> lt_sessions S q = Some e \<longrightarrow> pending (focus e S') = pending (focus e S))"

text \<open>The entity of a live session with the world \<open>w\<close>.\<close>

definition entity_of :: "entity \<Rightarrow> world \<Rightarrow> entity" where
  "entity_of e w = \<lparr>e_session = w_session w, e_out = w_out w, e_io = w_io w, e_regs = w_regs w, e_refuse = w_refuse w, e_service = e_service e\<rparr>"

lemma with_session_step:
  assumes inv: "thread_inv X d S" and e: "lt_sessions S p = Some e" and f: "f e (focus e S) = Some (rc, w)"
    and st: "session_step X \<delta> e S w" and \<delta>: "\<forall>b. \<delta> b \<le> d b"
  shows "\<exists>S'. with_session p f S = Some (rc, S') \<and> thread_inv X (\<lambda>b. d b - \<delta> b) S' \<and> only_session p S S' \<and>
    lt_msgs S' = w_msgs w \<and> lt_next S' = w_next w \<and> (w_alive w \<longrightarrow> lt_manager S' = lt_manager S) \<and>
    lt_sessions S' p = (if w_alive w then Some (entity_of e w) else None) \<and>
    lt_acts S' = lt_acts S @ map (Session_act p) (w_acts w) \<and>
    handles (lt_manager S') = (if w_alive w then handles (lt_manager S)
      else (handles (lt_manager S))(key (ss_id (e_session e)) := None))"
proof -
  obtain S' where S': "retire p (w_acts w) (unfocus p e w S) = Some S'" "thread_inv X (\<lambda>b. d b - \<delta> b) S'"
    "lt_msgs S' = w_msgs w" "lt_next S' = w_next w" "\<forall>q. q \<noteq> p \<longrightarrow> lt_sessions S' q = lt_sessions S q"
    "lt_sessions S' p = (if w_alive w then Some (entity_of e w) else None)"
    "\<forall>q e'. q \<noteq> p \<and> lt_sessions S q = Some e' \<longrightarrow> pending (focus e' S') = pending (focus e' S)"
    "w_alive w \<longrightarrow> lt_manager S' = lt_manager S" "lt_index S' = lt_index S"
    "lt_acts S' = lt_acts S @ map (Session_act p) (w_acts w)"
    "handles (lt_manager S') = (if w_alive w then handles (lt_manager S)
      else (handles (lt_manager S))(key (ss_id (e_session e)) := None))"
    using session_step_inv [OF inv e st \<delta>] unfolding entity_of_def by blast
  then show ?thesis
    using e f by (intro exI [of _ S']) (simp add: with_session_def only_session_def)
qed

lemma with_service_step:
  assumes inv: "thread_inv X d S" and e: "lt_sessions S p = Some e" "e_service e = Some sv"
    and f: "f (E\<lparr>en_service := sv\<rparr>) (focus e S) = Some (rc, w)"
    and a: "accounted (focus e S) w" "sess_inv w"
  shows "\<exists>S'. with_service E p f S = Some (rc, S') \<and> thread_inv X d S' \<and> only_session p S S' \<and>
    lt_sessions S' p = (if w_alive w then Some (entity_of e w) else None) \<and>
    lt_acts S' = lt_acts S @ map (Session_act p) (w_acts w) \<and> lt_msgs S' = w_msgs w \<and>
    handles (lt_manager S') = (if w_alive w then handles (lt_manager S)
      else (handles (lt_manager S))(key (ss_id (e_session e)) := None))"
proof -
  have d: "\<forall>b. (0::int) \<le> d b" using thread_invD(5) [OF inv] by blast
  show ?thesis
    unfolding with_service_def
    using with_session_step [where f = "\<lambda>e w. do { sv \<leftarrow> e_service e; f (E\<lparr>en_service := sv\<rparr>) w }",
        OF inv e(1) _ accounted_step [OF a, of X] d] e(2) f by auto
qed

section \<open>Events\<close>

definition thread_fire ::
  "environment \<Rightarrow> nat \<Rightarrow> session_event \<Rightarrow> occurrence \<Rightarrow> io_thread \<Rightarrow> (int \<times> io_thread) option" where
  "thread_fire E p ev oc = with_service E p (\<lambda>E w. map_option (\<lambda>w. (0, w)) (fire E ev oc w))"

definition session_small :: "entity \<Rightarrow> bool" where
  "session_small e \<longleftrightarrow> unat (bf_capacity (ss_inbuffer (e_session e))) \<le> 2 ^ 62 \<and>
     length (ring_list (ss_sendqueue (e_session e))) < 2 ^ 30"

lemma thread_fire_ok:
  assumes inv: "thread_ok S" and e: "lt_sessions S p = Some e" "e_service e = Some sv"
    and E: "env_accounted (E\<lparr>en_service := sv\<rparr>)" and r: "e_regs e ev = Some r" "occurrence_ok r oc"
    and small: "session_small e"
  shows "\<exists>S'. thread_fire E p ev oc S = Some (0, S') \<and> thread_ok S' \<and> only_session p S S'"
proof -
  note l = listed_session [OF inv e(1)]
  have Eo: "env_ok (E\<lparr>en_service := sv\<rparr>)" using E by (simp add: env_accounted_def)
  have sm: "unat (bf_capacity (ss_inbuffer (w_session (focus e S)))) \<le> 2 ^ 62" "length (queue_list (focus e S)) < 2 ^ 30"
    and rg: "w_regs (focus e S) ev = Some r" and al: "w_alive (focus e S)"
    and b: "bounded (w_next (focus e S)) (w_msgs (focus e S))"
    using small r(1) thread_invD(4) [OF inv] by (simp_all add: session_small_def)
  obtain w where w: "fire (E\<lparr>en_service := sv\<rparr>) ev oc (focus e S) = Some w" "sess_inv w"
    using fire_inv [OF Eo l(2) al rg r(2) sm] by blast
  have "accounted (focus e S) w" by (rule fire_accounted [OF E l(2) al rg r(2) sm b w(1)])
  then obtain S' where "thread_fire E p ev oc S = Some (0, S')" "thread_ok S'" "only_session p S S'"
    using with_service_step [where f = "\<lambda>E w. map_option (\<lambda>w. (0, w)) (fire E ev oc w)", OF inv e _ _ w(2), of E 0] w(1)
    by (auto simp: thread_fire_def)
  then show ?thesis by blast
qed

section \<open>Sending on one session\<close>

lemma add_write_exiting:
  "has_status SESSION_EXITING (session_add_event EV_WRITE w) = has_status SESSION_EXITING w"
  by (auto simp: session_add_event_def session_add_write_def session_add_read_def Let_def frame_simps status_simps split: prod.splits)

lemma send_buffer_step:
  assumes mem: "memory_ok E" and inv: "sess_inv w" "w_alive w" and b: "bounded (w_next w) (w_msgs w)"
    and small: "length (queue_list w) < 2 ^ 31" "length d < 2 ^ 64"
  shows "\<exists>rc w'. send_buffer E d w = Some (rc, w') \<and> sess_inv w' \<and> w_alive w' \<and> accounted w w' \<and>
    has_status SESSION_EXITING w' = has_status SESSION_EXITING w \<and>
    length (queue_list w') \<le> Suc (length (queue_list w)) \<and>
    (if has_status SESSION_EXITING w then rc = - 1 \<and> w' = w
     else 0 \<le> rc \<and> w_out w' @ pending w' = w_out w @ pending w @ d)"
proof (cases "has_status SESSION_EXITING w")
  case True
  then have "send_buffer E d w = Some (- 1, w)" by (simp add: send_buffer_def send_only_def)
  then show ?thesis using True inv accounted_refl [OF inv(2)] by simp
next
  case False
  note d = sess_invD [OF inv]
  obtain n w' v q where r: "send_buffer E d w = Some (int n, w')" "w_alive w' = w_alive w"
    "w_out w' @ pending w' = w_out w @ pending w @ d"
    "queue_ok v" "w_regs v = w_regs w \<and> w_refuse v = w_refuse w" "w_alive v = w_alive w" "w_session v = (w_session w)\<lparr>ss_sendqueue := q\<rparr>"
    "w_acts v = w_acts w" "w' = session_add_event EV_WRITE v \<and> new_message_queued w v \<or>
         w' = v \<and> queue_list v = queue_list w \<and> w_msgs v = w_msgs w \<and> w_next v = w_next w"
    using send_buffer_stream [OF live_okD(2,7) [OF d(1)] False mem small] by blast
  have lv: "live_ok v" using d(1) r(4-7) by (simp add: live_ok_def regs_ok_def regs_known_def has_status_session)
  have st: "has_status SESSION_WRITING v \<or> 0 < ss_fd (w_session v)" using d(3) r(7) by (simp add: has_status_session)
  have ex: "has_status SESSION_EXITING v = has_status SESSION_EXITING w" using r(7) by (simp add: has_status_session)
  have al: "w_alive v" using r(6) inv(2) by simp
  have rm: "removal_acts v = removal_acts w" "ss_id (w_session v) = ss_id (w_session w)"
    using r(7,8) by (simp_all add: removal_acts_def)
  have "sess_inv w' \<and> accounted w w' \<and> has_status SESSION_EXITING w' = has_status SESSION_EXITING w \<and>
    length (queue_list w') \<le> Suc (length (queue_list w))"
  proof (cases "w' = session_add_event EV_WRITE v \<and> new_message_queued w v")
    case True
    then obtain m where m: "sendable m" "receivers m = [ss_id (w_session w)]" "outcomes m = 0"
      "w_msgs v = (w_msgs w)(w_next w \<mapsto> m)" "w_next v = Suc (w_next w)" "queue_list v = queue_list w @ [w_next w]"
      unfolding new_message_queued_def by blast
    have none: "w_msgs w (w_next w) = None" using b unfolding bounded_def by (cases "w_msgs w (w_next w)") auto
    have "evolves (w_next w) (w_msgs w) (w_next v) (w_msgs v)"
      using m(1,2,3) none unfolding evolves_def m(4,5) by (auto simp: owed_def split: option.splits)
    moreover have "slack v a = slack w a" for a
      using m(2,3) none by (cases "a = w_next w") (simp_all add: slack_def m(4,6) owes_def owed_def)
    ultimately have "accounted w v" using rm al by (simp add: accounted_def)
    then have "accounted w w'"
      using accounted_trans [OF _ accounted_events [OF add_event_only al] b al] True by blast
    then show ?thesis using add_write_inv [OF lv st] True ex events_only_queue(1) [OF add_event_only, of EV_WRITE v] m(6)
      by (simp add: add_write_exiting)
  next
    case False
    then have v: "w' = v" "queue_list v = queue_list w" "w_msgs v = w_msgs w" "w_next v = w_next w" using r(9) by auto
    have "accounted w v" by (rule accounted_same) (use v rm al in simp_all)
    moreover have "sess_inv v" using v(2) lv d(2) r(6,7) inv(2) by (simp add: sess_inv_def busy_ok_def has_status_session)
    ultimately show ?thesis using v ex by simp
  qed
  then show ?thesis using r(1,2,3) inv(2) False by auto
qed

text \<open>The data after the transformation by the session's own callback; \<open>None\<close> if it refuses them.\<close>

definition session_data_for :: "service \<Rightarrow> byte list \<Rightarrow> byte list option" where
  "session_data_for sv bs = (case sv_transform sv of None \<Rightarrow> Some bs | Some f \<Rightarrow>
     (case f bs of Same n \<Rightarrow> Some (take n bs) | Gone \<Rightarrow> None | Fresh xs \<Rightarrow> Some xs))"

text \<open>A transformation in place returns at most the length it was given.\<close>

definition transform_ok :: "(byte list \<Rightarrow> transformed) option \<Rightarrow> bool" where
  "transform_ok tr \<longleftrightarrow> (\<forall>f bs. tr = Some f \<longrightarrow> (case f bs of Same n \<Rightarrow> n \<le> length bs
      | Gone \<Rightarrow> True | Fresh xs \<Rightarrow> xs \<noteq> [] \<and> length xs < 2 ^ 64))"

lemma session_send_step:
  assumes mem: "memory_ok E" and inv: "sess_inv w" "w_alive w" and b: "bounded (w_next w) (w_msgs w)"
    and small: "length (queue_list w) < 2 ^ 31" "length bs < 2 ^ 64" and tr: "transform_ok (sv_transform (en_service E))"
  shows "\<exists>rc w'. session_send E bs w = Some (rc, w') \<and> sess_inv w' \<and> w_alive w' \<and> accounted w w' \<and>
    (case session_data_for (en_service E) bs of
       Some d \<Rightarrow> if has_status SESSION_EXITING w then rc = - 1 \<and> w' = w
         else 0 \<le> rc \<and> w_out w' @ pending w' = w_out w @ pending w @ d
     | None \<Rightarrow> rc = - 1 \<and> w' = w)"
proof (cases "session_data_for (en_service E) bs")
  case None
  then have "session_send E bs w = Some (- 1, w)"
    by (auto simp: session_send_def session_data_for_def split: option.splits transformed.splits)
  then show ?thesis using None inv accounted_refl [OF inv(2)] by simp
next
  case (Some d)
  have d: "length d < 2 ^ 64"
    using Some small(2) tr unfolding session_data_for_def transform_ok_def
    by (fastforce split: option.splits transformed.splits)
  have "session_send E bs w = send_buffer E d w"
    using Some tr unfolding session_send_def session_data_for_def transform_ok_def
    by (fastforce split: option.splits transformed.splits)
  then show ?thesis using send_buffer_step [OF mem inv b small(1) d] Some by auto
qed

text \<open>
  What is asked of a callback is what a callback does that works on its session through the library: here one
  that sends.
\<close>

definition send_call :: "environment \<Rightarrow> byte list \<Rightarrow> world \<Rightarrow> world" where
  "send_call E bs w = (if length (queue_list w) < 2 ^ 30
     then (case session_send E bs w of Some (_, w') \<Rightarrow> w' | None \<Rightarrow> w) else w)"

lemma send_call_ok:
  assumes "memory_ok E" "length bs < 2 ^ 64" "sv_transform (en_service E) = None"
  shows "callback_ok (send_call E bs)" "callback_accounted (send_call E bs)"
proof -
  have tr: "transform_ok (sv_transform (en_service E))" by (simp add: transform_ok_def assms(3))
  have eq: "session_send E bs w = send_buffer E bs w" for w by (simp add: session_send_def assms(3))
  show "callback_accounted (send_call E bs)"
    unfolding callback_accounted_def
  proof (intro allI impI)
    fix w assume w: "sess_inv w \<and> w_alive w \<and> bounded (w_next w) (w_msgs w)"
    show "accounted w (send_call E bs w)"
    proof (cases "length (queue_list w) < 2 ^ 30")
      case True
      then have "length (queue_list w) < 2 ^ 31" by simp
      then obtain rc w' where "session_send E bs w = Some (rc, w')" "accounted w w'"
        using session_send_step [OF assms(1) _ _ _ _ assms(2) tr] w by blast
      then show ?thesis using True by (simp add: send_call_def)
    qed (use w in \<open>simp add: send_call_def accounted_refl\<close>)
  qed
  show "callback_ok (send_call E bs)"
    unfolding callback_ok_def
  proof (intro allI impI)
    fix w assume w: "sess_inv w \<and> w_alive w"
    let ?ok = "\<lambda>v. sess_inv v \<and> w_alive v \<and>
      (\<forall>a < w_next w. a \<notin> set (queue_list w) \<longrightarrow> w_msgs v a = w_msgs w a) \<and> w_next w \<le> w_next v \<and>
      (\<forall>a \<in> set (queue_list v). a \<in> set (queue_list w) \<or> w_next w \<le> a) \<and>
      length (queue_list v) \<le> length (queue_list w) + 2 ^ 20 \<and>
      set (ss_tasklist (w_session w)) \<subseteq> set (ss_tasklist (w_session v))"
    show "?ok (send_call E bs w)"
    proof (cases "length (queue_list w) < 2 ^ 30 \<and> \<not> has_status SESSION_EXITING w")
      case True
      then have sm: "length (queue_list w) < 2 ^ 31" by simp
      note d = sess_invD [OF conjunct1 [OF w] conjunct2 [OF w]]
      obtain n v w' q where r: "send_buffer E bs w = Some (int n, w')" "w_session v = (w_session w)\<lparr>ss_sendqueue := q\<rparr>"
        "w' = session_add_event EV_WRITE v \<and> new_message_queued w v \<or>
         w' = v \<and> queue_list v = queue_list w \<and> w_msgs v = w_msgs w \<and> w_next v = w_next w"
        using send_buffer_stream [OF live_okD(2,7) [OF d(1)] _ assms(1) sm assms(2)] True by blast
      have "sess_inv w' \<and> w_alive w'"
        using session_send_inv [OF assms(1) _ _ _ sm assms(2)] w True r(1) by auto
      moreover have "w_msgs w' = w_msgs v" "w_next w' = w_next v" "queue_list w' = queue_list v"
        "ss_tasklist (w_session w') = ss_tasklist (w_session v)"
        using r(3) add_event_only [of v EV_WRITE] events_only_queue(1) [OF add_event_only, of EV_WRITE v]
          session_data_fields(8) [of "w_session w'" "w_session v"]
        by (auto simp: events_only_def)
      moreover have "(\<forall>a < w_next w. w_msgs v a = w_msgs w a) \<and> w_next w \<le> w_next v \<and>
          (\<forall>a \<in> set (queue_list v). a \<in> set (queue_list w) \<or> w_next w \<le> a) \<and>
          length (queue_list v) \<le> length (queue_list w) + 1"
        using r(3) by (auto simp: new_message_queued_def)
      ultimately have "?ok w'" using r(2) by auto
      then show ?thesis using True r(1) by (simp add: send_call_def eq)
    next
      case False
      then have "send_call E bs w = w" by (auto simp: send_call_def eq send_buffer_def send_only_def)
      then show ?thesis using w by simp
    qed
  qed
qed

section \<open>Sends posted to the thread\<close>

lemma log_layer_simps [simp]:
  "lt_index (log_layer a S) = lt_index S" "lt_manager (log_layer a S) = lt_manager S"
  "lt_sessions (log_layer a S) = lt_sessions S" "lt_msgs (log_layer a S) = lt_msgs S" "lt_next (log_layer a S) = lt_next S"
  "lt_acts (log_layer a S) = lt_acts S @ [a]" "focus e (log_layer a S) = focus e S"
  by (simp_all add: log_layer_def focus_def)

lemma thread_inv_log [simp]: "thread_inv X d (log_layer a S) = thread_inv X d S"
  by (simp add: thread_inv_def session_listed_def entries_def queue_of_def)

lemma only_session_log [simp]: "only_session p S (log_layer a S') = only_session p S S'"
  by (simp add: only_session_def)

lemma only_session_refl [simp]: "only_session p S S"
  by (simp add: only_session_def)

definition sessions_ready :: "io_thread \<Rightarrow> bool" where
  "sessions_ready S \<longleftrightarrow> (\<forall>p e. lt_sessions S p = Some e \<longrightarrow> length (ring_list (ss_sendqueue (e_session e))) < 2 ^ 30 \<and>
     (\<forall>sv. e_service e = Some sv \<longrightarrow> transform_ok (sv_transform sv)))"

lemma sending_env_simps:
  "memory_ok (sending_env E e) = memory_ok E"
  "en_service (sending_env E e) = (case e_service e of None \<Rightarrow> no_service | Some sv \<Rightarrow> sv)"
  by (simp_all add: sending_env_def memory_ok_def)

lemma ready_session:
  assumes "sessions_ready S" "lt_sessions S p = Some e"
  shows "length (ring_list (ss_sendqueue (e_session e))) < 2 ^ 30" "transform_ok (sv_transform (en_service (sending_env E e)))"
  using assms by (auto simp: sessions_ready_def sending_env_simps no_service_def transform_ok_def split: option.splits)

text \<open>The session a lookup finds is one of the thread's.\<close>

lemma get_session:
  assumes "thread_inv X d S"
  shows "session_manager_get (lt_manager S) sd = Some (handles (lt_manager S) (key sd))"
    "handles (lt_manager S) (key sd) = Some p \<Longrightarrow> \<exists>e. lt_sessions S p = Some e"
  using get_handles [OF thread_invD(1) [OF assms]] thread_invD(3) [OF assms] by auto

definition frees :: "io_thread \<Rightarrow> layer_action list" where
  "frees S = filter (\<lambda>a. case a of Free_buffer _ \<Rightarrow> True | _ \<Rightarrow> False) (lt_acts S)"

lemma frees_session [simp]: "filter (\<lambda>a. case a of Free_buffer _ \<Rightarrow> True | _ \<Rightarrow> False) (map (Session_act p) as) = []"
  by (simp add: filter_empty_conv)

lemma frees_log [simp]:
  "frees (log_layer (Free_buffer b) S) = frees S @ [Free_buffer b]" "frees (log_layer Free_transformed S) = frees S"
  by (simp_all add: frees_def)

end
