(* ===== verification/LayerSend.thy ===== *)
theory LayerSend
  imports LayerSteps
begin

text \<open>
  Sending to one session by a task of its thread: \<^verbatim>\<open>_send_direct\<close> of \<^verbatim>\<open>src/network.c\<close>.
\<close>

section \<open>Data given to a session\<close>

text \<open>All bytes a session was given to send, in order: those it wrote and those still queued.\<close>

definition session_stream :: "io_thread \<Rightarrow> nat \<Rightarrow> byte list" where
  "session_stream S p = (case lt_sessions S p of None \<Rightarrow> [] | Some e \<Rightarrow> e_out e @ pending (focus e S))"

lemma session_stream_log [simp]: "session_stream (log_layer a S) = session_stream S"
  by (rule ext) (simp add: session_stream_def split: option.split)

lemma only_session_stream: "only_session p S S' \<Longrightarrow> q \<noteq> p \<Longrightarrow> session_stream S' q = session_stream S q"
  by (cases "lt_sessions S q") (simp_all add: only_session_def session_stream_def)

lemma only_session_trans:
  assumes "only_session p S S'" "only_session p S' S''"
  shows "only_session p S S''"
  using assms unfolding only_session_def by fastforce

text \<open>The receiver of an identifier on this thread, if it is alive and still takes data.\<close>

definition session_open :: "io_thread \<Rightarrow> nat \<Rightarrow> bool" where
  "session_open S p \<longleftrightarrow> (\<exists>e. lt_sessions S p = Some e \<and> \<not> has_status SESSION_EXITING (focus e S))"

text \<open>What becomes of data on their way: the layer's transformation, then the session's.\<close>

definition transformed_by :: "(byte list \<Rightarrow> transformed) option \<Rightarrow> byte list \<Rightarrow> byte list option" where
  "transformed_by tr bs = (case tr of None \<Rightarrow> Some bs | Some f \<Rightarrow>
     (case f bs of Same n \<Rightarrow> Some (take n bs) | Gone \<Rightarrow> None | Fresh xs \<Rightarrow> Some xs))"

lemma session_data_transformed: "session_data_for sv = transformed_by (sv_transform sv)"
  by (rule ext) (simp add: session_data_for_def transformed_by_def)

definition service_of :: "io_thread \<Rightarrow> nat \<Rightarrow> service" where
  "service_of S p = (case lt_sessions S p of Some e \<Rightarrow> (case e_service e of Some sv \<Rightarrow> sv | None \<Rightarrow> no_service) | None \<Rightarrow> no_service)"

definition delivered :: "iolayer \<Rightarrow> io_thread \<Rightarrow> nat \<Rightarrow> byte list \<Rightarrow> byte list option" where
  "delivered layer S p bs = Option.bind (transformed_by (il_transform layer) bs) (transformed_by (sv_transform (service_of S p)))"

lemma session_send_thread:
  assumes inv: "thread_ok S" and e: "lt_sessions S p = Some e" and mem: "memory_ok E" and rdy: "sessions_ready S"
    and len: "length bs < 2 ^ 64"
  shows "\<exists>rc S'. with_session p (\<lambda>e. session_send (sending_env E e) bs) S = Some (rc, S') \<and> thread_ok S' \<and>
    only_session p S S' \<and> frees S' = frees S \<and>
    (case transformed_by (sv_transform (service_of S p)) bs of
       Some d \<Rightarrow> if session_open S p then 0 \<le> rc \<and> session_stream S' p = session_stream S p @ d
         else rc = - 1 \<and> session_stream S' p = session_stream S p
     | None \<Rightarrow> rc = - 1 \<and> session_stream S' p = session_stream S p)"
proof -
  note l = listed_session [OF inv e]
  have sv: "en_service (sending_env E e) = service_of S p" using e by (simp add: sending_env_simps service_of_def)
  have op: "session_open S p = (\<not> has_status SESSION_EXITING (focus e S))" using e by (simp add: session_open_def)
  have st: "session_stream S p = e_out e @ pending (focus e S)" using e by (simp add: session_stream_def)
  obtain rc w where w: "session_send (sending_env E e) bs (focus e S) = Some (rc, w)" "sess_inv w" "w_alive w"
    "accounted (focus e S) w"
    "case transformed_by (sv_transform (service_of S p)) bs of
       Some d \<Rightarrow> if session_open S p then 0 \<le> rc \<and> w_out w @ pending w = session_stream S p @ d
         else rc = - 1 \<and> w = focus e S
     | None \<Rightarrow> rc = - 1 \<and> w = focus e S"
  proof -
    have sm: "length (queue_list (focus e S)) < 2 ^ 31" using ready_session(1) [OF rdy e] by simp
    have "memory_ok (sending_env E e)" "transform_ok (sv_transform (en_service (sending_env E e)))"
      "bounded (w_next (focus e S)) (w_msgs (focus e S))" "w_alive (focus e S)"
      using mem ready_session(2) [OF rdy e] thread_invD(4) [OF inv] by (simp_all add: sending_env_simps(1))
    from session_send_step [OF this(1) l(2) this(4,3) sm len this(2)] show thesis
      by (elim exE conjE) (rule that; simp add: session_data_transformed sv op st split: option.splits if_splits)
  qed
  obtain S' where S': "with_session p (\<lambda>e. session_send (sending_env E e) bs) S = Some (rc, S')" "thread_inv {} (\<lambda>b. 0 - 0) S'"
    "only_session p S S'" "lt_msgs S' = w_msgs w" "lt_sessions S' p = Some (entity_of e w)"
    "lt_acts S' = lt_acts S @ map (Session_act p) (w_acts w)"
    using with_session_step [where f = "\<lambda>e. session_send (sending_env E e) bs", OF inv e w(1) accounted_step [OF w(4,2), of "{}"]] w(3)
    by auto
  have st': "session_stream S' p = w_out w @ pending w"
    by (simp add: session_stream_def S'(4,5)) (simp add: pending_def entity_of_def S'(4) queue_list_def)
  have "frees S' = frees S" by (simp add: frees_def S'(6))
  then show ?thesis
    using S'(1,2,3) w(5) st' st
    by (intro exI [of _ rc] exI [of _ S']) (auto split: option.splits if_splits)
qed

section \<open>The task\<close>

lemma transformed_length:
  assumes "transformed_by tr bs = Some d" "transform_ok tr" "length bs < 2 ^ 64"
  shows "length d < 2 ^ 64"
  using assms unfolding transformed_by_def transform_ok_def
  by (fastforce split: option.splits transformed.splits)

text \<open>The task for a session that is there is the sending of the transformed data.\<close>

lemma send_direct_some:
  assumes p: "session_manager_get (lt_manager S) (ts_id task) = Some (Some p)" and tr: "transform_ok (il_transform layer)"
  shows "send_direct E layer task S =
    (case transformed_by (il_transform layer) (ts_bytes task) of
       None \<Rightarrow> Some (0, if ts_isfree task then log_layer (Free_buffer (ts_buf task)) S else S)
     | Some d \<Rightarrow> do {
        (rc, S) \<leftarrow> with_session p (\<lambda>e. session_send (sending_env E e) d) S;
        let S = (case apply_transform layer (ts_bytes task) of Fresh _ \<Rightarrow> log_layer Free_transformed S | _ \<Rightarrow> S);
        Some (rc, if ts_isfree task then log_layer (Free_buffer (ts_buf task)) S else S)
      })"
  using tr unfolding send_direct_def apply_transform_def transformed_by_def transform_ok_def p
  by (cases "il_transform layer") (fastforce split: transformed.splits bind_splits)+

lemma layer_send:
  assumes inv: "thread_ok S" and mem: "memory_ok E" and rdy: "sessions_ready S"
    and len: "length (ts_bytes task) < 2 ^ 64" and tr: "transform_ok (il_transform layer)"
    and p: "handles (lt_manager S) (key (ts_id task)) = Some p"
  shows "\<exists>rc S'. send_direct E layer task S = Some (rc, S') \<and> thread_ok S' \<and> only_session p S S' \<and>
    frees S' = frees S @ (if ts_isfree task then [Free_buffer (ts_buf task)] else []) \<and>
    session_stream S' p = session_stream S p @ (if session_open S p
      then (case delivered layer S p (ts_bytes task) of Some d \<Rightarrow> d | None \<Rightarrow> []) else [])"
proof -
  obtain e where e: "lt_sessions S p = Some e" using get_session(2) [OF inv p] by blast
  have g: "session_manager_get (lt_manager S) (ts_id task) = Some (Some p)" using get_session(1) [OF inv] p by simp
  show ?thesis
  proof (cases "transformed_by (il_transform layer) (ts_bytes task)")
    case None
    then show ?thesis using inv by (simp add: send_direct_some [OF g tr] delivered_def)
  next
    case (Some d)
    have d: "length d < 2 ^ 64" by (rule transformed_length [OF Some tr len])
    obtain rc S' where S': "with_session p (\<lambda>e. session_send (sending_env E e) d) S = Some (rc, S')" "thread_ok S'"
      "only_session p S S'" "frees S' = frees S"
      "case transformed_by (sv_transform (service_of S p)) d of
         Some d \<Rightarrow> if session_open S p then 0 \<le> rc \<and> session_stream S' p = session_stream S p @ d
           else rc = - 1 \<and> session_stream S' p = session_stream S p
       | None \<Rightarrow> rc = - 1 \<and> session_stream S' p = session_stream S p"
      using session_send_thread [OF inv e mem rdy d] by blast
    define S2 where "S2 = (case apply_transform layer (ts_bytes task) of Fresh _ \<Rightarrow> log_layer Free_transformed S' | _ \<Rightarrow> S')"
    have S2: "thread_ok S2" "only_session p S S2" "frees S2 = frees S" "session_stream S2 = session_stream S'"
      using S'(2-4) by (simp_all add: S2_def split: transformed.splits)
    have "send_direct E layer task S = Some (rc, if ts_isfree task then log_layer (Free_buffer (ts_buf task)) S2 else S2)"
      using S'(1) by (simp add: send_direct_some [OF g tr] Some S2_def)
    moreover have "session_stream S2 p = session_stream S p @ (if session_open S p
        then (case delivered layer S p (ts_bytes task) of Some d \<Rightarrow> d | None \<Rightarrow> []) else [])"
      using S'(5) by (auto simp: delivered_def Some S2(4) split: option.splits if_splits)
    ultimately show ?thesis using S2(1-3) by simp
  qed
qed

text \<open>
  C13: Sending task.  The task of the identifier's thread always runs, keeps the thread consistent, and
  frees the buffer exactly once when the library owns it; the data, transformed by the layer and then
  by the session, are appended to what that session has been given to send, and to no other
  session; a stale identifier, a closing session or a refused transformation adds nothing.
\<close>
theorem send_direct_delivers:
  assumes "thread_ok S" "memory_ok E" "sessions_ready S"
    and "length (ts_bytes task) < 2 ^ 64" "transform_ok (il_transform layer)"
  shows "\<exists>rc S'. send_direct E layer task S = Some (rc, S') \<and> thread_ok S' \<and>
    frees S' = frees S @ (if ts_isfree task then [Free_buffer (ts_buf task)] else []) \<and>
    (\<forall>q. session_stream S' q = session_stream S q @
      (if handles (lt_manager S) (key (ts_id task)) = Some q \<and> session_open S q
       then (case delivered layer S q (ts_bytes task) of Some d \<Rightarrow> d | None \<Rightarrow> []) else []))"
proof (cases "handles (lt_manager S) (key (ts_id task))")
  case None
  then have "send_direct E layer task S = Some (0, if ts_isfree task then log_layer (Free_buffer (ts_buf task)) S else S)"
    using get_session(1) [OF assms(1)] by (simp add: send_direct_def)
  then show ?thesis using assms(1) None by simp
next
  case (Some p)
  obtain rc S' where S': "send_direct E layer task S = Some (rc, S')" "thread_ok S'" "only_session p S S'"
    "frees S' = frees S @ (if ts_isfree task then [Free_buffer (ts_buf task)] else [])"
    "session_stream S' p = session_stream S p @ (if session_open S p
      then (case delivered layer S p (ts_bytes task) of Some d \<Rightarrow> d | None \<Rightarrow> []) else [])"
    using layer_send [OF assms Some] by blast
  have "session_stream S' q = session_stream S q @ (if handles (lt_manager S) (key (ts_id task)) = Some q \<and> session_open S q
       then (case delivered layer S q (ts_bytes task) of Some d \<Rightarrow> d | None \<Rightarrow> []) else [])" for q
    using S'(5) only_session_stream [OF S'(3), of q] Some by (cases "q = p") auto
  then show ?thesis using S'(1,2,4) by blast
qed

end
