(* ===== verification/LayerBroadcast.thy ===== *)
theory LayerBroadcast
  imports LayerSend
begin

text \<open>
  Broadcasting on one thread: \<^verbatim>\<open>session_sendmessage\<close> of \<^verbatim>\<open>src/session.c\<close> and \<^verbatim>\<open>_broadcast_direct\<close> of
  \<^verbatim>\<open>src/network.c\<close>.  One message stands in the queues of all the sessions that take it, and counts
  an outcome for each of its receivers.
\<close>

section \<open>A message handed to one session\<close>

text \<open>The bytes a session sends for a message; \<open>None\<close> if its callback refuses it.\<close>

definition message_for :: "service \<Rightarrow> byte list \<Rightarrow> byte list option" where
  "message_for sv bs = (case sv_transform sv of None \<Rightarrow> Some bs | Some f \<Rightarrow>
     (case f bs of Same _ \<Rightarrow> Some bs | Gone \<Rightarrow> None | Fresh xs \<Rightarrow> Some xs))"

text \<open>The session takes the message: as its own data, if its callback made new ones and it is not ending.\<close>

definition takes_message :: "service \<Rightarrow> bool \<Rightarrow> byte list \<Rightarrow> bool" where
  "takes_message sv exiting bs \<longleftrightarrow> (case sv_transform sv of None \<Rightarrow> True | Some f \<Rightarrow>
     (case f bs of Same _ \<Rightarrow> True | Gone \<Rightarrow> False | Fresh _ \<Rightarrow> \<not> exiting))"

lemma message_bytes_of:
  assumes "w_msgs w a = Some m" "sendable m"
  shows "message_bytes m = Some (bytes_of (w_msgs w) a)"
proof -
  obtain b where b: "msg_buffer m = Some b" "unat (msg_length m) \<le> length b" "msg_length m \<noteq> 0"
    using assms(2) unfolding sendable_def by blast
  then show ?thesis
    by (simp add: message_bytes_def message_get_length_def message_get_buffer_def bytes_of_def assms(1))
qed

lemma slack_spare:
  assumes "w_msgs w a = Some m"
  shows "slack w a = int (length (receivers m)) - int (outcomes m) - int (count_list (queue_list w) a)"
  using assms by (simp add: slack_def owes_def owed_def)

text \<open>The message itself is put into the queue.\<close>

lemma queue_message:
  assumes inv: "sess_inv w" "w_alive w" and m: "w_msgs w a = Some m" "sendable m" "a < w_next w"
    and spare: "1 \<le> slack w a" and room: "length (queue_list w) < 2 ^ 31"
  shows "\<exists>v. sendqueue_append True a w = Some (0, v) \<and> sess_inv (session_add_event EV_WRITE v) \<and>
    events_only v (session_add_event EV_WRITE v) \<and> w_alive v \<and>
    queue_list v = queue_list w @ [a] \<and> w_msgs v = w_msgs w \<and> w_next v = w_next w \<and> w_out v = w_out w \<and>
    w_acts v = w_acts w \<and> ss_id (w_session v) = ss_id (w_session w) \<and> pending v = pending w @ bytes_of (w_msgs w) a \<and>
    has_status SESSION_EXITING v = has_status SESSION_EXITING w"
proof -
  note d = sess_invD [OF inv]
  have q: "queue_ok w" by (rule live_okD(2) [OF d(1)])
  obtain r where r: "sendqueue_append True a w = Some (0, on_session (\<lambda>s. s\<lparr>ss_sendqueue := r\<rparr>) w)"
    "ring_ok r" "ring_list r = queue_list w @ [a]"
    using sendqueue_append_ok [OF queue_ok_ring [OF q] room] by blast
  define v where "v = on_session (\<lambda>s. s\<lparr>ss_sendqueue := r\<rparr>) w"
  have sp: "outcomes m + Suc (count_list (queue_list w) a) \<le> length (receivers m)"
    using spare slack_spare [of w a m] m(1) by simp
  note s = append_stream [OF q m sp r(2,3) v_def]
  have v: "w_msgs v = w_msgs w" "w_next v = w_next w" "w_out v = w_out w" "w_acts v = w_acts w" "w_regs v = w_regs w \<and> w_refuse v = w_refuse w"
    "w_alive v" "w_session v = (w_session w)\<lparr>ss_sendqueue := r\<rparr>"
    using inv(2) by (simp_all add: v_def on_session_def)
  have lv: "live_ok v" using d(1) s(1) v by (simp add: live_ok_def regs_ok_def regs_known_def has_status_session)
  have st: "has_status SESSION_WRITING v \<or> 0 < ss_fd (w_session v)" using d(3) v(7) by (simp add: has_status_session)
  show ?thesis
    using r(1,3) s(2) v add_write_inv [OF lv st] add_event_only [of v EV_WRITE]
    by (intro exI [of _ v]) (simp add: v_def [symmetric] queue_list_def has_status_session)
qed

definition settled_one :: "nat \<Rightarrow> nat \<Rightarrow> int" where
  "settled_one a b = (if b = a then 1 else 0)"

text \<open>A session that takes the message settles it or has one more entry for it.\<close>

lemma queue_message_step:
  assumes inv: "sess_inv w" "w_alive w" and m: "w_msgs w a = Some m" "sendable m" "a < w_next w"
    and spare: "1 \<le> slack w a" and room: "length (queue_list w) < 2 ^ 31" and mem: "memory_ok E"
    and t: "case sv_transform (en_service E) of None \<Rightarrow> True | Some f \<Rightarrow> \<exists>n. f (bytes_of (w_msgs w) a) = Same n"
  shows "\<exists>w'. session_sendmessage E a w = Some (0, w') \<and> sess_inv w' \<and> w_alive w' \<and> w_msgs w' = w_msgs w \<and>
    w_next w' = w_next w \<and> queue_list w' = queue_list w @ [a] \<and> w_out w' = w_out w \<and>
    pending w' = pending w @ bytes_of (w_msgs w) a \<and> removal_acts w' = removal_acts w \<and>
    ss_id (w_session w') = ss_id (w_session w) \<and> has_status SESSION_EXITING w' = has_status SESSION_EXITING w"
proof -
  obtain v where v: "sendqueue_append True a w = Some (0, v)" "sess_inv (session_add_event EV_WRITE v)"
    "events_only v (session_add_event EV_WRITE v)" "w_alive v"
    "queue_list v = queue_list w @ [a]" "w_msgs v = w_msgs w" "w_next v = w_next w" "w_out v = w_out w"
    "w_acts v = w_acts w" "ss_id (w_session v) = ss_id (w_session w)" "pending v = pending w @ bytes_of (w_msgs w) a"
    "has_status SESSION_EXITING v = has_status SESSION_EXITING w"
    using queue_message [OF inv m spare room] by blast
  define w' where "w' = session_add_event EV_WRITE v"
  have "session_sendmessage E a w = Some (0, w')"
    using v(1) mem t m(1) message_bytes_of [OF m(1,2)]
    by (auto simp: session_sendmessage_def the_message_def w'_def memory_ok_def split: option.splits)
  moreover have "w_alive w'" "w_msgs w' = w_msgs v" "w_next w' = w_next v" "w_out w' = w_out v"
    using v(3,4) by (simp_all add: events_only_def w'_def)
  moreover have "accounted v w'" unfolding w'_def by (rule accounted_events [OF v(3,4)])
  moreover have "queue_list w' = queue_list v" "pending w' = pending v"
    unfolding w'_def using events_only_queue [OF v(3)] by simp_all
  ultimately show ?thesis
    using v(2,5-12) unfolding accounted_def
    by (intro exI [of _ w']) (simp add: w'_def removal_acts_def add_write_exiting)
qed

text \<open>An outcome recorded for a message in the hands of the task.\<close>

lemma owed_outcome:
  assumes "message_ok m" "1 \<le> owed m"
  shows "owed (message_add_failure m) = owed m - 1" "owed (message_add_success m) = owed m - 1"
proof -
  have "outcomes m < length (receivers m)" using assms(2) by (simp add: owed_def)
  from outcome_counts [OF this assms(1)]
  show "owed (message_add_failure m) = owed m - 1" "owed (message_add_success m) = owed m - 1" by (simp_all add: owed_def)
qed

lemma same_content_outcome [simp]: "same_content m (message_add_failure m)" "same_content m (message_add_success m)"
  by (simp_all add: same_content_def message_add_failure_def message_add_success_def)

lemma settle_in_hand:
  assumes f: "is_outcome f" and w: "session_step X (\<lambda>_. 0) e S w" "w_alive w" and a: "a \<in> X" "lt_msgs S a = Some m" "sendable m"
    and spare: "1 \<le> slack w a"
  shows "\<exists>v m1. update_message f a w = Some v \<and> session_step X (settled_one a) e S v \<and> w_alive v \<and>
    pending v = pending w \<and> w_out v = w_out w \<and> queue_list v = queue_list w \<and> w_msgs v a = Some m1 \<and> same_content m m1 \<and>
    w_session v = w_session w"
proof -
  have sl: "slack w a = owes (w_msgs w) a - int (count_list (queue_list w) a)" by (simp add: slack_def)
  obtain m0 where m0: "w_msgs w a = Some m0" using spare sl by (cases "w_msgs w a") (auto simp: owes_def)
  have old: "case lt_msgs S b of Some m \<Rightarrow> same_content m m' \<and> (m' = m \<or> b \<in> X \<or> 0 < owed m') | None \<Rightarrow> b < w_next w \<and> 0 < owed m'"
    if "w_msgs w b = Some m'" for b m'
    using w(1) that unfolding session_step_def by blast
  have sc: "same_content m m0" using old [OF m0] a(2) by simp
  have ok: "message_ok m0" using same_content_sendable [OF sc] a(3) by (simp add: sendable_def)
  have ow: "1 + int (count_list (queue_list w) a) \<le> owed m0" using spare sl m0 by (simp add: owes_def)
  define m1 where "m1 = f m0"
  have m1: "owed m1 = owed m0 - 1" "same_content m0 m1" using f owed_outcome [OF ok] ow by (auto simp: m1_def is_outcome_def)
  define v where "v = w\<lparr>w_msgs := (w_msgs w)(a \<mapsto> m1), w_next := w_next w\<rparr>"
  have r: "update_message f a w = Some v"
    using m0 by (simp add: update_message_def store_message_def v_def m1_def)
  have inv: "sess_inv w" using w(1) by (simp add: session_step_def)
  have keep: "\<forall>b \<in> set (queue_list w). \<forall>m. w_msgs w b = Some m \<longrightarrow>
      (\<exists>m'. ((w_msgs w)(a \<mapsto> m1)) b = Some m' \<and> same_bytes m m' \<and> int (count_list (queue_list w) b) \<le> owed m')"
  proof (intro ballI allI impI)
    fix b mb assume b: "b \<in> set (queue_list w)" "w_msgs w b = Some mb"
    show "\<exists>m'. ((w_msgs w)(a \<mapsto> m1)) b = Some m' \<and> same_bytes mb m' \<and> int (count_list (queue_list w) b) \<le> owed m'"
    proof (cases "b = a")
      case True
      then show ?thesis using m1 same_content_bytes ow b m0 by simp
    next
      case False
      have "queue_ok w" using sess_invD [OF inv w(2)] live_okD(2) by blast
      then show ?thesis using False b unfolding queue_ok_def msgs_ok_def by (fastforce simp: owed_def same_bytes_def)
    qed
  qed
  note c = change_messages [OF inv w(2) keep order_refl, folded v_def]
  have v: "w_alive v" "w_out v = w_out w" "queue_list v = queue_list w" "w_next v = w_next w" "removal_acts v = removal_acts w"
    "ss_id (w_session v) = ss_id (w_session w)"
    using w(2) by (simp_all add: v_def queue_list_def removal_acts_def)
  have "session_step X (settled_one a) e S v"
    unfolding session_step_def
  proof (intro conjI)
    show "sess_inv v" by (rule c(1))
    show "lt_next S \<le> w_next v" using w(1) v(4) by (simp add: session_step_def)
    show "\<forall>b m'. w_msgs v b = Some m' \<longrightarrow> (case lt_msgs S b of Some m \<Rightarrow> same_content m m' \<and> (m' = m \<or> b \<in> X \<or> 0 < owed m')
        | None \<Rightarrow> b < w_next v \<and> 0 < owed m')"
    proof (intro allI impI)
      fix b m' assume b: "w_msgs v b = Some m'"
      show "case lt_msgs S b of Some m \<Rightarrow> same_content m m' \<and> (m' = m \<or> b \<in> X \<or> 0 < owed m') | None \<Rightarrow> b < w_next v \<and> 0 < owed m'"
      proof (cases "b = a")
        case True
        then show ?thesis using b a m1(2) sc by (auto simp: v_def intro: same_content_trans)
      next
        case False
        then show ?thesis using b old [of b m'] by (cases "lt_msgs S b") (simp_all add: v_def)
      qed
    qed
    show "\<forall>b. slack v b = slack (focus e S) b - settled_one a b"
    proof
      fix b
      have "slack w b = slack (focus e S) b" using w(1) by (simp add: session_step_def)
      moreover have "slack v b = slack w b - settled_one a b"
        using m0 m1(1) v(3) by (simp add: slack_def owes_def v_def settled_one_def)
      ultimately show "slack v b = slack (focus e S) b - settled_one a b" by simp
    qed
    show "if w_alive v then removal_acts v = [] \<and> ss_id (w_session v) = ss_id (e_session e)
      else removal_acts v \<noteq> [] \<and> queue_list v = []"
      using w v by (simp add: session_step_def)
  qed
  then show ?thesis
    using r v c(2) m1(2) sc by (intro exI [of _ v] exI [of _ m1]) (auto simp: v_def intro: same_content_trans)
qed

lemma sendmessage_step:
  assumes inv: "sess_inv (focus e S)" and b: "bounded (lt_next S) (lt_msgs S)" and m: "lt_msgs S a = Some m" "sendable m"
    and spare: "1 \<le> slack (focus e S) a" and room: "length (ring_list (ss_sendqueue (e_session e))) < 2 ^ 31"
    and mem: "memory_ok E" and tr: "transform_ok (sv_transform (en_service E))"
    and t: "takes_message (en_service E) (has_status SESSION_EXITING (focus e S)) (bytes_of (lt_msgs S) a)"
  shows "\<exists>rc w m1. session_sendmessage E a (focus e S) = Some (rc, w) \<and> 0 \<le> rc \<and> w_alive w \<and>
    session_step {a} (settled_one a) e S w \<and>
    Some (w_out w @ pending w) = map_option (\<lambda>d. e_out e @ pending (focus e S) @ d) (message_for (en_service E) (bytes_of (lt_msgs S) a)) \<and>
    w_msgs w a = Some m1 \<and> same_content m m1 \<and>
    length (queue_list w) \<le> Suc (length (ring_list (ss_sendqueue (e_session e)))) \<and>
    has_status SESSION_EXITING w = has_status SESSION_EXITING (focus e S)"
proof -
  let ?w = "focus e S" and ?bs = "bytes_of (lt_msgs S) a"
  have w: "w_alive ?w" "w_msgs ?w a = Some m" "a < w_next ?w" "length (queue_list ?w) < 2 ^ 31" "bounded (w_next ?w) (w_msgs ?w)"
    using m(1) b room by (auto simp: bounded_def)
  have mb: "message_bytes m = Some ?bs" using message_bytes_of [OF w(2) m(2)] by simp
  show ?thesis
  proof (cases "case sv_transform (en_service E) of None \<Rightarrow> True | Some f \<Rightarrow> \<exists>n. f ?bs = Same n")
    case True
    then have t': "case sv_transform (en_service E) of None \<Rightarrow> True | Some f \<Rightarrow> \<exists>n. f (bytes_of (w_msgs ?w) a) = Same n"
      by (cases "sv_transform (en_service E)") simp_all
    obtain w' where w': "session_sendmessage E a ?w = Some (0, w')" "sess_inv w'" "w_alive w'" "w_msgs w' = w_msgs ?w"
      "w_next w' = w_next ?w" "queue_list w' = queue_list ?w @ [a]" "w_out w' = w_out ?w"
      "pending w' = pending ?w @ bytes_of (w_msgs ?w) a" "removal_acts w' = removal_acts ?w"
      "ss_id (w_session w') = ss_id (w_session ?w)" "has_status SESSION_EXITING w' = has_status SESSION_EXITING ?w"
      using queue_message_step [OF inv w(1,2) m(2) w(3) spare w(4) mem t'] by blast
    have "slack w' c = slack ?w c - settled_one a c" for c
      by (simp add: slack_def w'(4,6) settled_one_def)
    then have "session_step {a} (settled_one a) e S w'"
      using w' b unfolding session_step_def by (auto simp: bounded_def split: option.splits)
    moreover have "message_for (en_service E) ?bs = Some ?bs"
      using True by (auto simp: message_for_def split: option.splits)
    ultimately show ?thesis using w' m(1) by (intro exI [of _ 0] exI [of _ w'] exI [of _ m]) simp
  next
    case False
    then obtain f xs where f: "sv_transform (en_service E) = Some f" "f ?bs = Fresh xs" "\<not> has_status SESSION_EXITING ?w"
      using t by (auto simp: takes_message_def split: option.splits transformed.splits)
    have xs: "length xs < 2 ^ 64" using tr f(1,2) unfolding transform_ok_def by (fastforce split: transformed.splits)
    obtain rc w1 where w1: "send_buffer E xs ?w = Some (rc, w1)" "sess_inv w1" "w_alive w1" "accounted ?w w1"
      "length (queue_list w1) \<le> Suc (length (queue_list ?w))" "0 \<le> rc" "w_out w1 @ pending w1 = w_out ?w @ pending ?w @ xs"
      "has_status SESSION_EXITING w1 = has_status SESSION_EXITING ?w"
      using send_buffer_step [OF mem inv w(1,5,4) xs] f(3) by auto
    have sp: "1 \<le> slack w1 a" using spare w1(4) by (simp add: accounted_def)
    obtain v m1 where v: "update_message message_add_success a w1 = Some v" "session_step {a} (settled_one a) e S v" "w_alive v"
      "pending v = pending w1" "w_out v = w_out w1" "queue_list v = queue_list w1" "w_msgs v a = Some m1" "same_content m m1"
      "w_session v = w_session w1"
      using settle_in_hand [of message_add_success, OF _ accounted_step [OF w1(4,2), of "{a}"] w1(3) insertI1 m sp] by (auto simp: is_outcome_def)
    have "session_sendmessage E a ?w = Some (rc, v)"
      using w1(1,6) v(1) mb f(1,2) m(1) by (simp add: session_sendmessage_def the_message_def)
    then show ?thesis
      using v w1(5-8) f(1,2) by (intro exI [of _ rc] exI [of _ v] exI [of _ m1]) (simp add: message_for_def has_status_session)
  qed
qed

section \<open>One receiver after the other\<close>

text \<open>All the sessions together can be given \<open>n\<close> more messages without an overflow of a queue.\<close>

definition sessions_room :: "nat \<Rightarrow> io_thread \<Rightarrow> bool" where
  "sessions_room n S \<longleftrightarrow> (\<forall>p e. lt_sessions S p = Some e \<longrightarrow>
     length (ring_list (ss_sendqueue (e_session e))) + n < 2 ^ 31 \<and>
     (\<forall>sv. e_service e = Some sv \<longrightarrow> transform_ok (sv_transform sv)))"

lemma sessions_roomD:
  assumes "sessions_room n S" "lt_sessions S p = Some e"
  shows "length (ring_list (ss_sendqueue (e_session e))) + n < 2 ^ 31" "transform_ok (sv_transform (service_of S p))"
  using assms by (auto simp: sessions_room_def service_of_def no_service_def transform_ok_def split: option.splits)

text \<open>What a session makes of the bytes of a message, if it takes it.\<close>

definition session_takes :: "io_thread \<Rightarrow> byte list \<Rightarrow> nat \<Rightarrow> bool" where
  "session_takes S bs p \<longleftrightarrow> takes_message (service_of S p) (\<not> session_open S p) bs"

definition taken_bytes :: "io_thread \<Rightarrow> byte list \<Rightarrow> nat \<Rightarrow> byte list" where
  "taken_bytes S bs p = (case message_for (service_of S p) bs of Some d \<Rightarrow> d | None \<Rightarrow> [])"

text \<open>A step of the broadcast: only the streams and the books change, not who the sessions are.\<close>

definition same_sessions :: "io_thread \<Rightarrow> io_thread \<Rightarrow> bool" where
  "same_sessions S S' \<longleftrightarrow> lt_manager S' = lt_manager S \<and> lt_index S' = lt_index S \<and> frees S' = frees S \<and>
     service_of S' = service_of S \<and> session_open S' = session_open S"

lemma same_sessions_refl [simp]: "same_sessions S S"
  by (simp add: same_sessions_def)

lemma same_sessions_trans: "same_sessions S S' \<Longrightarrow> same_sessions S' S'' \<Longrightarrow> same_sessions S S''"
  by (simp add: same_sessions_def)

lemma same_sessions_takes:
  assumes "same_sessions S S'"
  shows "session_takes S' = session_takes S" "taken_bytes S' = taken_bytes S"
  using assms by (simp_all add: same_sessions_def session_takes_def taken_bytes_def fun_eq_iff)

definition less_one :: "nat \<Rightarrow> (nat \<Rightarrow> int) \<Rightarrow> nat \<Rightarrow> int" where
  "less_one a d b = (if b = a then d b - 1 else d b)"

text \<open>What a step of one session without an end leaves of the others.\<close>

lemma session_frame:
  assumes room: "sessions_room (Suc n) S" and p: "lt_sessions S p = Some e"
    and S': "only_session p S S'" "lt_manager S' = lt_manager S" "lt_sessions S' p = Some (entity_of e w)"
      "lt_acts S' = lt_acts S @ map (Session_act p) as"
    and ex: "has_status SESSION_EXITING w = has_status SESSION_EXITING (focus e S)"
    and len: "length (queue_list w) \<le> Suc (length (ring_list (ss_sendqueue (e_session e))))"
  shows "same_sessions S S'" "sessions_room n S'"
proof -
  have others: "lt_sessions S' q = lt_sessions S q" if "q \<noteq> p" for q using S'(1) that by (simp add: only_session_def)
  have "service_of S' q = service_of S q \<and> session_open S' q = session_open S q" for q
    using others [of q] S'(3) p ex
    by (cases "q = p") (auto simp: service_of_def session_open_def entity_of_def has_status_session)
  then show "same_sessions S S'"
    using S'(1,2,4) by (simp add: same_sessions_def only_session_def frees_def fun_eq_iff)
  show "sessions_room n S'"
    unfolding sessions_room_def
  proof (intro allI impI)
    fix q e' assume q: "lt_sessions S' q = Some e'"
    show "length (ring_list (ss_sendqueue (e_session e'))) + n < 2 ^ 31 \<and>
      (\<forall>sv. e_service e' = Some sv \<longrightarrow> transform_ok (sv_transform sv))"
    proof (cases "q = p")
      case True
      then show ?thesis
        using q S'(3) len room p unfolding sessions_room_def by (fastforce simp: entity_of_def queue_list_def)
    next
      case False
      then show ?thesis using q others [of q] room unfolding sessions_room_def by fastforce
    qed
  qed
qed

lemma sendmessage_thread:
  assumes inv: "thread_inv {a} d S" and p: "lt_sessions S p = Some e" and m: "lt_msgs S a = Some m" "sendable m"
    and owed: "1 \<le> d a" and mem: "memory_ok E" and room: "sessions_room (Suc n) S"
    and t: "session_takes S (bytes_of (lt_msgs S) a) p"
  shows "\<exists>rc S' m1. with_session p (\<lambda>e. session_sendmessage (sending_env E e) a) S = Some (rc, S') \<and> 0 \<le> rc \<and>
    thread_inv {a} (less_one a d) S' \<and> only_session p S S' \<and> same_sessions S S' \<and> sessions_room n S' \<and>
    lt_msgs S' a = Some m1 \<and> same_content m m1 \<and>
    session_stream S' p = session_stream S p @ taken_bytes S (bytes_of (lt_msgs S) a) p"
proof -
  note l = listed_session [OF inv p]
  have sv: "en_service (sending_env E e) = service_of S p" using p by (simp add: sending_env_simps service_of_def)
  have op: "session_open S p = (\<not> has_status SESSION_EXITING (focus e S))" using p by (simp add: session_open_def)
  have sp: "1 \<le> slack (focus e S) a"
    using thread_invD(6) [OF inv, of a] count_le_entries [OF p l(1), of a] owed by (simp add: slack_def)
  have rm: "length (ring_list (ss_sendqueue (e_session e))) < 2 ^ 31" "transform_ok (sv_transform (en_service (sending_env E e)))"
    using sessions_roomD [OF room p] sv by simp_all
  have me: "memory_ok (sending_env E e)" using mem by (simp add: sending_env_simps)
  have tk: "takes_message (en_service (sending_env E e)) (has_status SESSION_EXITING (focus e S)) (bytes_of (lt_msgs S) a)"
    using t by (simp add: session_takes_def sv op)
  obtain rc w m1 where w: "session_sendmessage (sending_env E e) a (focus e S) = Some (rc, w)" "0 \<le> rc" "w_alive w"
    "session_step {a} (settled_one a) e S w"
    "Some (w_out w @ pending w) = map_option (\<lambda>d. e_out e @ pending (focus e S) @ d)
       (message_for (en_service (sending_env E e)) (bytes_of (lt_msgs S) a))"
    "w_msgs w a = Some m1" "same_content m m1"
    "length (queue_list w) \<le> Suc (length (ring_list (ss_sendqueue (e_session e))))"
    "has_status SESSION_EXITING w = has_status SESSION_EXITING (focus e S)"
    using sendmessage_step [OF l(2) thread_invD(4) [OF inv] m sp rm(1) me rm(2) tk] by blast
  have \<delta>: "\<forall>b. settled_one a b \<le> d b"
    using owed thread_invD(5) [OF inv] by (auto simp: settled_one_def)
  have eq: "(\<lambda>b. d b - settled_one a b) = less_one a d" by (rule ext) (simp add: settled_one_def less_one_def)
  obtain S' where S': "with_session p (\<lambda>e. session_sendmessage (sending_env E e) a) S = Some (rc, S')"
    "thread_inv {a} (less_one a d) S'" "only_session p S S'" "lt_msgs S' = w_msgs w" "lt_next S' = w_next w"
    "lt_manager S' = lt_manager S" "lt_sessions S' p = Some (entity_of e w)" "lt_acts S' = lt_acts S @ map (Session_act p) (w_acts w)"
    using with_session_step [where f = "\<lambda>e. session_sendmessage (sending_env E e) a", OF inv p w(1,4) \<delta>] w(3)
    unfolding eq by auto
  note f = session_frame [OF room p S'(3,6,7,8) w(9,8)]
  have "session_stream S' p = w_out w @ pending w"
    by (simp add: session_stream_def S'(7)) (simp add: pending_def entity_of_def S'(4) queue_list_def)
  then have "session_stream S' p = session_stream S p @ taken_bytes S (bytes_of (lt_msgs S) a) p"
    using w(5) p unfolding sv taken_bytes_def
    by (cases "message_for (service_of S p) (bytes_of (lt_msgs S) a)") (simp_all add: session_stream_def)
  then show ?thesis using S' w(2,6,7) f by (intro exI [of _ rc] exI [of _ S'] exI [of _ m1]) simp
qed

text \<open>A receiver without a session on this thread is a failure at once.\<close>

lemma layer_store_simps [simp]:
  "lt_index (layer_store a m S) = lt_index S" "lt_manager (layer_store a m S) = lt_manager S"
  "lt_sessions (layer_store a m S) = lt_sessions S" "lt_msgs (layer_store a m S) = (lt_msgs S)(a \<mapsto> m)"
  "lt_next (layer_store a m S) = lt_next S" "lt_acts (layer_store a m S) = lt_acts S"
  by (simp_all add: layer_store_def)

lemma entries_layer [simp]: "entries (layer_store a m S) b = entries S b" "entries (log_layer x S) b = entries S b"
  by (simp_all add: entries_def queue_of_def)

lemma entries_nonneg: "0 \<le> entries S b"
  by (simp add: entries_def sum_nonneg)

text \<open>A new value for a message in the hands of the task: the queues that have it see the same bytes.\<close>

lemma store_thread:
  assumes inv: "thread_inv {a} d S" and a: "a < lt_next S" and k: "owed m' = entries S a + k" "0 \<le> k"
    and content: "entries S a = 0 \<or> (\<exists>m. lt_msgs S a = Some m \<and> same_bytes m m')"
  shows "thread_inv {a} (\<lambda>b. if b = a then k else d b) (layer_store a m' S)"
    "session_stream (layer_store a m' S) = session_stream S" "same_sessions S (layer_store a m' S)"
    "sessions_room n (layer_store a m' S) = sessions_room n S"
proof -
  let ?S = "layer_store a m' S"
  have books: "owes (lt_msgs S) b = entries S b + d b" for b by (rule thread_invD(6) [OF inv])
  have fo: "sess_inv (focus e ?S) \<and> pending (focus e ?S) = pending (focus e S)"
    if e: "lt_sessions S p = Some e" for p e
  proof -
    note l = listed_session [OF inv e]
    have "\<forall>b \<in> set (ring_list (ss_sendqueue (e_session e))). \<forall>mb. lt_msgs S b = Some mb \<longrightarrow>
      (\<exists>m'. lt_msgs ?S b = Some m' \<and> same_bytes mb m' \<and> int (count_list (ring_list (ss_sendqueue (e_session e))) b) \<le> owed m')"
    proof (intro ballI allI impI)
      fix b mb assume b: "b \<in> set (ring_list (ss_sendqueue (e_session e)))" "lt_msgs S b = Some mb"
      have c: "int (count_list (ring_list (ss_sendqueue (e_session e))) b) \<le> entries S b" by (rule count_le_entries [OF e l(1)])
      show "\<exists>m'. lt_msgs ?S b = Some m' \<and> same_bytes mb m' \<and> int (count_list (ring_list (ss_sendqueue (e_session e))) b) \<le> owed m'"
      proof (cases "b = a")
        case True
        have "0 < count_list (ring_list (ss_sendqueue (e_session e))) b" using b(1) by (metis count_list_0_iff gr0I)
        then have "entries S a \<noteq> 0" using c True by simp
        then show ?thesis using b(2) True content c k by auto
      next
        case False
        then show ?thesis using b(2) c books [of b] thread_invD(5) [OF inv, of b] by (simp add: owes_def same_bytes_def)
      qed
    qed
    then show ?thesis using other_session [OF l(2), of ?S] by simp
  qed
  show "session_stream ?S = session_stream S"
    using fo by (auto simp: session_stream_def fun_eq_iff split: option.split)
  show "same_sessions S ?S"
    using fo by (auto simp: same_sessions_def service_of_def session_open_def frees_def fun_eq_iff has_status_session)
  show "sessions_room n ?S = sessions_room n S" by (simp add: sessions_room_def)
  show "thread_inv {a} (\<lambda>b. if b = a then k else d b) ?S"
    unfolding thread_inv_def
  proof (intro conjI)
    show "smgr_ok (lt_manager ?S)" using thread_invD(1) [OF inv] by simp
    show "\<forall>p e. lt_sessions ?S p = Some e \<longrightarrow> session_listed ?S p e"
      using thread_invD(2) [OF inv] fo by (auto simp: session_listed_def)
    show "\<forall>k p. handles (lt_manager ?S) k = Some p \<longrightarrow> lt_sessions ?S p \<noteq> None"
      using thread_invD(3) [OF inv] by simp
    show "bounded (lt_next ?S) (lt_msgs ?S)" using thread_invD(4) [OF inv] a by (auto simp: bounded_def)
    show "\<forall>b. 0 \<le> (if b = a then k else d b) \<and> owes (lt_msgs ?S) b = entries ?S b + (if b = a then k else d b)"
    proof
      fix b
      show "0 \<le> (if b = a then k else d b) \<and> owes (lt_msgs ?S) b = entries ?S b + (if b = a then k else d b)"
        using books [of b] thread_invD(5) [OF inv, of b] k by (auto simp: owes_def)
    qed
    show "\<forall>b mb. lt_msgs ?S b = Some mb \<and> b \<notin> {a} \<longrightarrow> 0 < owed mb"
      using thread_invD(7) [OF inv] by simp
  qed
qed

lemma failure_thread:
  assumes inv: "thread_inv {a} d S" and m: "lt_msgs S a = Some m" "message_ok m" and owed: "1 \<le> d a"
  shows "thread_inv {a} (less_one a d) (layer_store a (message_add_failure m) S)"
    "session_stream (layer_store a (message_add_failure m) S) = session_stream S"
    "same_sessions S (layer_store a (message_add_failure m) S)"
    "sessions_room n (layer_store a (message_add_failure m) S) = sessions_room n S"
proof -
  have "owed m = entries S a + d a" using thread_invD(6) [OF inv, of a] m(1) by (simp add: owes_def)
  then have k: "owed (message_add_failure m) = entries S a + (d a - 1)" "0 \<le> d a - 1"
    using owed_outcome(1) [OF m(2)] owed entries_nonneg [of S a] by simp_all
  have a: "a < lt_next S" using thread_invD(4) [OF inv] m(1) by (simp add: bounded_def)
  have c: "entries S a = 0 \<or> (\<exists>m'. lt_msgs S a = Some m' \<and> same_bytes m' (message_add_failure m))"
    using m(1) same_content_bytes [OF same_content_outcome(1)] by blast
  have eq: "(\<lambda>b. if b = a then d a - 1 else d b) = less_one a d" by (auto simp: less_one_def fun_eq_iff)
  note s = store_thread [OF inv a k c]
  show "thread_inv {a} (less_one a d) (layer_store a (message_add_failure m) S)"
    "session_stream (layer_store a (message_add_failure m) S) = session_stream S"
    "same_sessions S (layer_store a (message_add_failure m) S)"
    "sessions_room n (layer_store a (message_add_failure m) S) = sessions_room n S"
    using s by (simp_all only: eq)
qed

section \<open>The loop over the receivers\<close>

text \<open>The session of this thread that an identifier in the list names, if there is one.\<close>

definition routed :: "io_thread \<Rightarrow> u8 \<Rightarrow> sid \<Rightarrow> nat option" where
  "routed S index sd = (if SID_INDEX sd = uint index then handles (lt_manager S) (key sd) else None)"

lemma sidlist_get_nth:
  assumes ok: "sidlist_ok l" and i: "i < length (sids l)"
  shows "sidlist_get l (of_nat i) = Some (sids l ! i)"
proof -
  have n: "length (sids l) = unat (sl_count l)" using sids_length [OF ok] by simp
  then have "length (sids l) < 2 ^ 32" using unat_bound [where 'a = 32, of "sl_count l"] by simp
  then have "unat (of_nat i :: i32) = i" using i by (simp add: unat_of_nat)
  moreover have "(of_nat i :: i32) \<noteq> - 1"
  proof
    assume "(of_nat i :: i32) = - 1"
    then have "i = unat (- 1 :: i32)" using \<open>unat (of_nat i :: i32) = i\<close> by simp
    then have "i = 2 ^ 32 - 1" by (simp add: unsigned_minus_1_eq_mask mask_eq_exp_minus_1)
    then show False using i \<open>length (sids l) < 2 ^ 32\<close> by simp
  qed
  ultimately show ?thesis using sidlist_get_list [OF ok, of "of_nat i"] i by (simp add: pos_def)
qed

text \<open>What a message in the hands of a task owes beyond its entries.\<close>

definition in_hand :: "nat \<Rightarrow> nat \<Rightarrow> nat \<Rightarrow> int" where
  "in_hand a k b = (if b = a then int k else 0)"

lemma in_hand_simps [simp]: "in_hand a k a = int k" "less_one a (in_hand a (Suc k)) = in_hand a k" "in_hand a 0 = (\<lambda>_. 0)"
  by (auto simp: in_hand_def less_one_def fun_eq_iff)

lemma broadcast_loop_spec:
  assumes "thread_inv {a} (in_hand a (length js)) S" "memory_ok E" "sessions_room (length js) S"
    and "lt_msgs S a = Some m" "sendable m" "msg_tolist m = Some l" "\<forall>i \<in> set js. i < length (sids l)"
    and "\<forall>i \<in> set js. \<forall>p. routed S index (sids l ! i) = Some p \<longrightarrow> session_takes S (bytes_of (lt_msgs S) a) p"
  shows "\<exists>S' m'. broadcast_loop E index a js cnt S =
      Some (cnt + int (length (filter (\<lambda>i. routed S index (sids l ! i) \<noteq> None) js)), S') \<and>
    thread_inv {a} (\<lambda>_. 0) S' \<and> lt_msgs S' a = Some m' \<and> same_content m m' \<and> same_sessions S S' \<and>
    (\<forall>q. session_stream S' q = session_stream S q @
      concat (map (\<lambda>_. taken_bytes S (bytes_of (lt_msgs S) a) q) (filter (\<lambda>i. routed S index (sids l ! i) = Some q) js)))"
  using assms
proof (induction js arbitrary: S m cnt)
  case Nil
  then show ?case by simp
next
  case (Cons i js)
  let ?sd = "sids l ! i" and ?bs = "bytes_of (lt_msgs S) a"
  have mo: "message_ok m" "sidlist_ok l" using Cons.prems(5,6) by (simp_all add: sendable_def message_ok_def)
  have get: "sidlist_get l (of_nat i) = Some ?sd" using sidlist_get_nth [OF mo(2)] Cons.prems(7) by simp
  have h: "1 \<le> in_hand a (length (i # js)) a" by simp
  have g: "session_manager_get (lt_manager S) ?sd = Some (handles (lt_manager S) (key ?sd))"
    by (rule get_session(1) [OF Cons.prems(1)])
  show ?case
  proof (cases "routed S index ?sd")
    case None
    let ?S = "layer_store a (message_add_failure m) S"
    note f = failure_thread [OF Cons.prems(1,4) mo(1) h]
    have step: "broadcast_loop E index a (i # js) cnt S = broadcast_loop E index a js cnt ?S"
      using None g get Cons.prems(4,6) by (auto simp: broadcast_one_def routed_def split: if_splits)
    have p1: "thread_inv {a} (in_hand a (length js)) ?S" using f(1) by simp
    have p2: "sessions_room (length js) ?S" using Cons.prems(3) unfolding f(4) by (fastforce simp: sessions_room_def)
    have p3: "lt_msgs ?S a = Some (message_add_failure m)" by simp
    have p4: "sendable (message_add_failure m)" "msg_tolist (message_add_failure m) = Some l"
      using Cons.prems(5,6) same_content_sendable(1) [OF same_content_outcome(1), of m] by (simp_all add: message_add_failure_def)
    have sb: "bytes_of (lt_msgs ?S) a = ?bs" using Cons.prems(4) by (simp add: bytes_of_def split: option.split)
    have ro: "routed ?S = routed S" by (simp add: routed_def fun_eq_iff)
    have p5: "\<forall>i \<in> set js. \<forall>p. routed ?S index (sids l ! i) = Some p \<longrightarrow> session_takes ?S (bytes_of (lt_msgs ?S) a) p"
      using Cons.prems(8) unfolding sb ro same_sessions_takes [OF f(3)] by simp
    have p6: "\<forall>i \<in> set js. i < length (sids l)" using Cons.prems(7) by simp
    obtain S' m' where r: "broadcast_loop E index a js cnt ?S =
        Some (cnt + int (length (filter (\<lambda>i. routed ?S index (sids l ! i) \<noteq> None) js)), S')"
      "thread_inv {a} (\<lambda>_. 0) S'" "lt_msgs S' a = Some m'" "same_content (message_add_failure m) m'" "same_sessions ?S S'"
      "\<forall>q. session_stream S' q = session_stream ?S q @
        concat (map (\<lambda>_. taken_bytes ?S (bytes_of (lt_msgs ?S) a) q) (filter (\<lambda>i. routed ?S index (sids l ! i) = Some q) js))"
      using Cons.IH [OF p1 Cons.prems(2) p2 p3 p4 p6 p5, of cnt] by blast
    show ?thesis
      using r(2,3) same_content_trans [OF same_content_outcome(1) r(4)] same_sessions_trans [OF f(3) r(5)] r(1,6) None
      unfolding step sb ro f(2) same_sessions_takes [OF f(3)]
      by (intro exI [of _ S'] exI [of _ m']) simp
  next
    case (Some p)
    then obtain e where e: "lt_sessions S p = Some e" using get_session(2) [OF Cons.prems(1)] by (auto simp: routed_def split: if_splits)
    have t: "session_takes S ?bs p" using Cons.prems(8) Some by simp
    have rm: "sessions_room (Suc (length js)) S" using Cons.prems(3) by simp
    obtain rc T m1 where T: "with_session p (\<lambda>e. session_sendmessage (sending_env E e) a) S = Some (rc, T)" "0 \<le> rc"
      "thread_inv {a} (less_one a (in_hand a (length (i # js)))) T" "only_session p S T" "same_sessions S T" "sessions_room (length js) T"
      "lt_msgs T a = Some m1" "same_content m m1" "session_stream T p = session_stream S p @ taken_bytes S ?bs p"
      using sendmessage_thread [OF Cons.prems(1) e Cons.prems(4,5) h Cons.prems(2) rm t] by blast
    have step: "broadcast_loop E index a (i # js) cnt S = broadcast_loop E index a js (cnt + 1) T"
      using Some g get Cons.prems(4,6) T(1,2) by (simp add: broadcast_one_def routed_def split: if_splits)
    have p1: "thread_inv {a} (in_hand a (length js)) T" using T(3) by simp
    have p4: "sendable m1" "msg_tolist m1 = Some l"
      using Cons.prems(5,6) same_content_sendable(1) [OF T(8)] T(8) by (simp_all add: same_content_def)
    have sb: "bytes_of (lt_msgs T) a = ?bs" using Cons.prems(4) T(7,8) by (simp add: bytes_of_def same_content_def split: option.split)
    have ro: "routed T = routed S" using T(5) by (simp add: routed_def same_sessions_def fun_eq_iff)
    have p5: "\<forall>i \<in> set js. \<forall>p. routed T index (sids l ! i) = Some p \<longrightarrow> session_takes T (bytes_of (lt_msgs T) a) p"
      using Cons.prems(8) unfolding sb ro same_sessions_takes [OF T(5)] by simp
    have p6: "\<forall>i \<in> set js. i < length (sids l)" using Cons.prems(7) by simp
    obtain S' m' where r: "broadcast_loop E index a js (cnt + 1) T =
        Some (cnt + 1 + int (length (filter (\<lambda>i. routed T index (sids l ! i) \<noteq> None) js)), S')"
      "thread_inv {a} (\<lambda>_. 0) S'" "lt_msgs S' a = Some m'" "same_content m1 m'" "same_sessions T S'"
      "\<forall>q. session_stream S' q = session_stream T q @
        concat (map (\<lambda>_. taken_bytes T (bytes_of (lt_msgs T) a) q) (filter (\<lambda>i. routed T index (sids l ! i) = Some q) js))"
      using Cons.IH [OF p1 Cons.prems(2) T(6,7) p4 p6 p5, of "cnt + 1"] by blast
    have st: "session_stream T q = session_stream S q @ (if q = p then taken_bytes S ?bs p else [])" for q
      using T(9) only_session_stream [OF T(4), of q] by (cases "q = p") simp_all
    show ?thesis
      using r(2,3) same_content_trans [OF T(8) r(4)] same_sessions_trans [OF T(5) r(5)] r(1,6) Some
      unfolding step sb ro same_sessions_takes [OF T(5)] st
      by (intro exI [of _ S'] exI [of _ m']) auto
  qed
qed

section \<open>The message after its broadcast\<close>

lemma thread_inv_mono: "thread_inv X d S \<Longrightarrow> X \<subseteq> Y \<Longrightarrow> thread_inv Y d S"
  unfolding thread_inv_def by blast

text \<open>A message exists as long as a queue has it: nothing dangles, and nothing is forgotten.\<close>

lemma queued_message:
  assumes inv: "thread_inv X d S" and q: "a \<in> set (queue_of S p)"
  shows "0 < entries S a"
proof -
  obtain e where e: "lt_sessions S p = Some e" "a \<in> set (ring_list (ss_sendqueue (e_session e)))"
    using q that by (cases "lt_sessions S p") (auto simp: queue_of_def)
  have "0 < count_list (ring_list (ss_sendqueue (e_session e))) a" using e(2) by (metis count_list_0_iff gr0I)
  then show ?thesis using count_le_entries [OF e(1) listed_session(1) [OF inv e(1)], of a] by simp
qed

lemma destroy_thread:
  assumes inv: "thread_inv {a} d S" and e: "entries S a = 0" and d: "\<forall>b. b \<noteq> a \<longrightarrow> d b = 0"
  shows "thread_ok (layer_destroy a S)" "session_stream (layer_destroy a S) = session_stream S"
    "same_sessions S (layer_destroy a S)"
proof -
  define T where "T = S\<lparr>lt_msgs := (lt_msgs S)(a := None)\<rparr>"
  have T: "lt_manager T = lt_manager S" "lt_sessions T = lt_sessions S" "lt_next T = lt_next S" "lt_index T = lt_index S"
    "lt_msgs T = (lt_msgs S)(a := None)" "entries T b = entries S b" "layer_destroy a S = log_layer (Message_destroy a) T" for b
    by (simp_all add: T_def entries_def queue_of_def layer_destroy_def)
  have books: "owes (lt_msgs S) b = entries S b + d b" for b by (rule thread_invD(6) [OF inv])
  have fo: "sess_inv (focus e T) \<and> pending (focus e T) = pending (focus e S)"
    if es: "lt_sessions S p = Some e" for p e
  proof -
    note l = listed_session [OF inv es]
    have "\<forall>b \<in> set (ring_list (ss_sendqueue (e_session e))). \<forall>mb. lt_msgs S b = Some mb \<longrightarrow>
      (\<exists>m'. lt_msgs T b = Some m' \<and> same_bytes mb m' \<and> int (count_list (ring_list (ss_sendqueue (e_session e))) b) \<le> owed m')"
    proof (intro ballI allI impI)
      fix b mb assume b: "b \<in> set (ring_list (ss_sendqueue (e_session e)))" "lt_msgs S b = Some mb"
      have "0 < entries S b" by (rule queued_message [OF inv, of b p]) (use es b in \<open>simp add: queue_of_def\<close>)
      then show "\<exists>m'. lt_msgs T b = Some m' \<and> same_bytes mb m' \<and> int (count_list (ring_list (ss_sendqueue (e_session e))) b) \<le> owed m'"
        using b(2) e T(5) books [of b] thread_invD(5) [OF inv, of b] count_le_entries [OF es l(1), of b] by (auto simp: owes_def same_bytes_def)
    qed
    then show ?thesis using other_session [OF l(2), of T] T(3) by simp
  qed
  show "session_stream (layer_destroy a S) = session_stream S"
    using fo unfolding T(7) by (auto simp: session_stream_def fun_eq_iff T(2) split: option.split)
  show "same_sessions S (layer_destroy a S)"
    unfolding T(7)
    by (simp add: same_sessions_def service_of_def session_open_def frees_def T fun_eq_iff has_status_session) (simp add: T_def)
  have "thread_ok T"
    unfolding thread_inv_def
  proof (intro conjI)
    show "smgr_ok (lt_manager T)" using thread_invD(1) [OF inv] T by simp
    show "\<forall>p e. lt_sessions T p = Some e \<longrightarrow> session_listed T p e"
      using thread_invD(2) [OF inv] fo by (auto simp: session_listed_def T)
    show "\<forall>k p. handles (lt_manager T) k = Some p \<longrightarrow> lt_sessions T p \<noteq> None"
      using thread_invD(3) [OF inv] T by simp
    show "bounded (lt_next T) (lt_msgs T)" using thread_invD(4) [OF inv] T by (auto simp: bounded_def)
    show "\<forall>b. (0::int) \<le> 0 \<and> owes (lt_msgs T) b = entries T b + 0"
    proof
      fix b
      show "(0::int) \<le> 0 \<and> owes (lt_msgs T) b = entries T b + 0"
        using books [of b] e d T by (cases "b = a") (simp_all add: owes_def)
    qed
    show "\<forall>b mb. lt_msgs T b = Some mb \<and> b \<notin> {} \<longrightarrow> 0 < owed mb"
      using thread_invD(7) [OF inv] T by (auto split: if_splits)
  qed
  then show "thread_ok (layer_destroy a S)" unfolding T(7) by simp
qed

lemma done_thread:
  assumes inv: "thread_inv {a} (\<lambda>_. 0) S" and m: "lt_msgs S a = Some m" "message_ok m"
  shows "\<exists>S'. layer_message_done a S = Some S' \<and> thread_ok S' \<and> session_stream S' = session_stream S \<and> same_sessions S S'"
proof -
  have ow: "owed m = entries S a" using thread_invD(6) [OF inv, of a] m(1) by (simp add: owes_def)
  have c: "message_is_complete m \<longleftrightarrow> entries S a = 0" using complete_iff [OF m(2)] ow by (auto simp: owed_def)
  show ?thesis
  proof (cases "entries S a = 0")
    case True
    then show ?thesis using destroy_thread [OF inv True] m(1) c by (simp add: layer_message_done_def)
  next
    case False
    have "thread_ok S"
      unfolding thread_inv_def
    proof (intro conjI)
      show "\<forall>b mb. lt_msgs S b = Some mb \<and> b \<notin> {} \<longrightarrow> 0 < owed mb"
        using thread_invD(7) [OF inv] False ow m(1) entries_nonneg [of S a] by (metis less_le option.inject singletonD)
    qed (use inv in \<open>simp_all add: thread_inv_def\<close>)
    then show ?thesis using False m(1) c by (simp add: layer_message_done_def)
  qed
qed

section \<open>The task\<close>

text \<open>What the layer's callback makes of a message; a changed length of the same block is not taken over.\<close>

definition layer_bytes :: "iolayer \<Rightarrow> byte list \<Rightarrow> byte list option" where
  "layer_bytes layer bs = (case il_transform layer of None \<Rightarrow> Some bs | Some f \<Rightarrow>
     (case f bs of Same _ \<Rightarrow> Some bs | Gone \<Rightarrow> None | Fresh xs \<Rightarrow> Some xs))"

text \<open>A message just taken from the queue of tasks: no session has it, and no receiver has an outcome.\<close>

definition task_message :: "nat \<Rightarrow> message \<Rightarrow> io_thread \<Rightarrow> bool" where
  "task_message a m S \<longleftrightarrow> thread_inv {a} (in_hand a (length (receivers m))) S \<and> lt_msgs S a = Some m \<and> sendable m \<and>
     outcomes m = 0"

lemma task_message_entries: "task_message a m S \<Longrightarrow> entries S a = 0"
  using thread_invD(6) [of "{a}" "in_hand a (length (receivers m))" S a]
  by (auto simp: task_message_def owes_def owed_def)

lemma transform_message_ok:
  assumes t: "task_message a m S" and tr: "transform_ok (il_transform layer)"
  shows "case layer_bytes layer (bytes_of (lt_msgs S) a) of
      None \<Rightarrow> \<exists>S'. transform_message layer a S = Some (False, S') \<and> thread_ok S' \<and> session_stream S' = session_stream S \<and>
        same_sessions S S' \<and> lt_msgs S' a = None
    | Some bs \<Rightarrow> \<exists>S' m'. transform_message layer a S = Some (True, S') \<and> task_message a m' S' \<and> session_stream S' = session_stream S \<and>
        same_sessions S S' \<and> msg_tolist m' = msg_tolist m \<and> bytes_of (lt_msgs S') a = bs \<and>
        (\<forall>n. sessions_room n S' = sessions_room n S)"
proof -
  let ?bs = "bytes_of (lt_msgs S) a"
  have inv: "thread_inv {a} (in_hand a (length (receivers m))) S" and m: "lt_msgs S a = Some m" "sendable m" "outcomes m = 0"
    using t by (simp_all add: task_message_def)
  have e: "entries S a = 0" by (rule task_message_entries [OF t])
  have b: "message_bytes m = Some ?bs" using message_bytes_of [of "focus undefined S" a m] m by simp
  show ?thesis
  proof (cases "il_transform layer")
    case None
    then show ?thesis using t m(1) by (auto simp: layer_bytes_def transform_message_def)
  next
    case (Some f)
    show ?thesis
    proof (cases "f ?bs")
      case (Same n)
      then show ?thesis using Some t m(1) b by (auto simp: layer_bytes_def transform_message_def)
    next
      case Gone
      have "\<forall>b. b \<noteq> a \<longrightarrow> in_hand a (length (receivers m)) b = 0" by (simp add: in_hand_def)
      then show ?thesis
        using Some Gone m(1) b destroy_thread [OF inv e]
        by (simp add: layer_bytes_def transform_message_def) (simp add: layer_destroy_def)
    next
      case (Fresh xs)
      define m' where "m' = snd (message_set_buffer m (Some xs) (of_nat (length xs)))"
      have xs: "xs \<noteq> []" "length xs < 2 ^ 64"
        using tr Some Fresh unfolding transform_ok_def by (fastforce split: transformed.splits)+
      have len: "unat (of_nat (length xs) :: u64) = length xs" using xs(2) by (simp add: unat_of_nat)
      then have nz: "(of_nat (length xs) :: u64) \<noteq> 0" using xs(1) by (metis length_0_conv unat_0)
      have m': "receivers m' = receivers m" "outcomes m' = 0" "sendable m'" "msg_tolist m' = msg_tolist m" "message_ok m'"
        using m(2,3) len nz by (simp_all add: m'_def message_set_buffer_def receivers_def outcomes_def sendable_def message_ok_def)
      have a: "a < lt_next S" using thread_invD(4) [OF inv] m(1) by (simp add: bounded_def)
      have k: "owed m' = entries S a + int (length (receivers m))" "0 \<le> int (length (receivers m))"
        using m' e by (simp_all add: owed_def)
      note s = store_thread [OF inv a k disjI1 [OF e]]
      have eq: "(\<lambda>b. if b = a then int (length (receivers m)) else in_hand a (length (receivers m)) b) =
          in_hand a (length (receivers m'))"
        by (auto simp: in_hand_def m'(1) fun_eq_iff)
      have "task_message a m' (layer_store a m' S)"
        using s(1) m'(2,3) unfolding eq by (simp add: task_message_def)
      moreover have "bytes_of (lt_msgs (layer_store a m' S)) a = xs"
        using len by (simp add: bytes_of_def m'_def message_set_buffer_def)
      moreover have "transform_message layer a S = Some (True, layer_store a m' S)"
        using Some Fresh m(1) b by (simp add: transform_message_def m'_def)
      ultimately show ?thesis
        using Some Fresh s(2,3,4) m'(4) by (simp add: layer_bytes_def) blast
    qed
  qed
qed

lemma filter_nth: "map (\<lambda>i. xs ! i) (filter (\<lambda>i. P (xs ! i)) [0..<length xs]) = filter P xs"
  using filter_map [of P "(!) xs" "[0..<length xs]"] by (simp add: comp_def map_nth)

lemma concat_const: "length xs = length ys \<Longrightarrow> concat (map (\<lambda>_. z) xs) = concat (map (\<lambda>_. z) ys)"
  by (metis map_replicate_const)

lemma broadcast_loop_all:
  assumes t: "task_message a m S" and l: "msg_tolist m = Some l" and mem: "memory_ok E"
    and room: "sessions_room (length (receivers m)) S"
    and tk: "\<forall>sd \<in> set (receivers m). \<forall>p. routed S index sd = Some p \<longrightarrow> session_takes S (bytes_of (lt_msgs S) a) p"
  shows "\<exists>S' m'. broadcast_loop E index a [0..<unat (sl_count l)] 0 S =
      Some (int (length (filter (\<lambda>sd. routed S index sd \<noteq> None) (receivers m))), S') \<and>
    thread_inv {a} (\<lambda>_. 0) S' \<and> lt_msgs S' a = Some m' \<and> same_content m m' \<and> same_sessions S S' \<and>
    (\<forall>q. session_stream S' q = session_stream S q @
      concat (map (\<lambda>_. taken_bytes S (bytes_of (lt_msgs S) a) q) (filter (\<lambda>sd. routed S index sd = Some q) (receivers m))))"
proof -
  let ?js = "[0..<length (sids l)]"
  have m: "thread_inv {a} (in_hand a (length (receivers m))) S" "lt_msgs S a = Some m" "sendable m"
    using t by (simp_all add: task_message_def)
  have r: "receivers m = sids l" using l by (simp add: receivers_def)
  have n: "unat (sl_count l) = length (sids l)" using m(3) l sids_length [of l] by (simp add: sendable_def message_ok_def)
  have cnt: "length (filter (\<lambda>i. P (sids l ! i)) ?js) = length (filter P (receivers m))" for P
    using arg_cong [OF filter_nth [of "sids l" P], of length] by (simp add: r)
  have p1: "thread_inv {a} (in_hand a (length ?js)) S" "sessions_room (length ?js) S" using m(1) room by (simp_all add: r)
  have p2: "\<forall>i \<in> set ?js. i < length (sids l)"
    "\<forall>i \<in> set ?js. \<forall>p. routed S index (sids l ! i) = Some p \<longrightarrow> session_takes S (bytes_of (lt_msgs S) a) p"
    using tk by (auto simp: r)
  obtain S' m' where S': "broadcast_loop E index a ?js 0 S =
      Some (0 + int (length (filter (\<lambda>i. routed S index (sids l ! i) \<noteq> None) ?js)), S')"
    "thread_inv {a} (\<lambda>_. 0) S'" "lt_msgs S' a = Some m'" "same_content m m'" "same_sessions S S'"
    "\<forall>q. session_stream S' q = session_stream S q @
      concat (map (\<lambda>_. taken_bytes S (bytes_of (lt_msgs S) a) q) (filter (\<lambda>i. routed S index (sids l ! i) = Some q) ?js))"
    using broadcast_loop_spec [OF p1(1) mem p1(2) m(2,3) l p2, of 0] by blast
  have "concat (map (\<lambda>_. z) (filter (\<lambda>i. routed S index (sids l ! i) = Some q) ?js)) =
      concat (map (\<lambda>_. z) (filter (\<lambda>sd. routed S index sd = Some q) (receivers m)))" for q and z :: "byte list"
    by (rule concat_const) (rule cnt)
  then show ?thesis
    using S' cnt [of "\<lambda>sd. routed S index sd \<noteq> None"] unfolding n by (intro exI [of _ S'] exI [of _ m']) simp
qed

text \<open>
  C10: Broadcast task.  A broadcast always runs and keeps the thread consistent: the message has as
  many outcomes missing as queues hold it, so it is freed at once when no queue does and by its last
  receiver otherwise.  Each session of this thread is given the bytes once per listing of its
  identifier, as the callbacks transform them, and the result counts the receivers found here.  The
  callbacks must not refuse a message (see \<open>broadcast_refused_dangles\<close>).
\<close>
theorem broadcast_direct_delivers:
  assumes "task_message a m S" "msg_tolist m = Some l" "memory_ok E"
    and "sessions_room (length (receivers m)) S" "transform_ok (il_transform layer)"
    and "layer_bytes layer (bytes_of (lt_msgs S) a) = Some bs"
    and "\<forall>sd \<in> set (receivers m). \<forall>p. routed S index sd = Some p \<longrightarrow> session_takes S bs p"
  shows "\<exists>S'. broadcast_direct E layer index a S =
      Some (int (length (filter (\<lambda>sd. routed S index sd \<noteq> None) (receivers m))), S') \<and>
    thread_ok S' \<and> same_sessions S S' \<and>
    (\<forall>q. session_stream S' q = session_stream S q @
      concat (map (\<lambda>_. taken_bytes S bs q) (filter (\<lambda>sd. routed S index sd = Some q) (receivers m))))"
proof -
  have m: "lt_msgs S a = Some m" using assms(1) by (simp add: task_message_def)
  obtain T m1 where T: "transform_message layer a S = Some (True, T)" "task_message a m1 T" "session_stream T = session_stream S"
    "same_sessions S T" "msg_tolist m1 = msg_tolist m" "bytes_of (lt_msgs T) a = bs" "\<forall>n. sessions_room n T = sessions_room n S"
    using transform_message_ok [OF assms(1,5)] assms(6) by auto
  have r: "receivers m1 = receivers m" using T(5) by (simp add: receivers_def)
  have ro: "routed T = routed S" using T(4) by (simp add: routed_def same_sessions_def fun_eq_iff)
  have l: "msg_tolist m1 = Some l" using T(5) assms(2) by simp
  have room: "sessions_room (length (receivers m1)) T" using assms(4) T(7) r by simp
  have tk: "\<forall>sd \<in> set (receivers m1). \<forall>p. routed T index sd = Some p \<longrightarrow> session_takes T (bytes_of (lt_msgs T) a) p"
    using assms(7) unfolding r ro T(6) same_sessions_takes [OF T(4)] .
  obtain U m2 where U: "broadcast_loop E index a [0..<unat (sl_count l)] 0 T =
      Some (int (length (filter (\<lambda>sd. routed S index sd \<noteq> None) (receivers m))), U)"
    "thread_inv {a} (\<lambda>_. 0) U" "lt_msgs U a = Some m2" "same_content m1 m2" "same_sessions T U"
    "\<forall>q. session_stream U q = session_stream T q @
      concat (map (\<lambda>_. taken_bytes S bs q) (filter (\<lambda>sd. routed S index sd = Some q) (receivers m)))"
    using broadcast_loop_all [OF T(2) l assms(3) room tk] unfolding r ro T(6) same_sessions_takes [OF T(4)] by blast
  have "message_ok m2" using T(2) same_content_sendable [OF U(4)] by (simp add: task_message_def sendable_def)
  then obtain S' where S': "layer_message_done a U = Some S'" "thread_ok S'" "session_stream S' = session_stream U" "same_sessions U S'"
    using done_thread [OF U(2,3)] by blast
  have "same_sessions S S'" by (intro same_sessions_trans [OF T(4)] same_sessions_trans [OF U(5)] S'(4))
  then show ?thesis
    using T(1,3) U(1,6) S'(1-3) m assms(2) by (intro exI [of _ S']) (simp add: broadcast_direct_def)
qed

section \<open>A message that a session refuses\<close>

lemma refused_outcomes:
  assumes "lt_msgs S a = Some m" "sendable m" "lt_sessions S q = Some e"
    and "sv_transform (service_of S q) = Some f" "f (bytes_of (lt_msgs S) a) = Gone"
  shows "\<exists>T. with_session q (\<lambda>e. session_sendmessage (sending_env E e) a) S = Some (- 1, T) \<and>
    lt_msgs T = (lt_msgs S)(a \<mapsto> message_add_failure m) \<and> lt_manager T = lt_manager S \<and>
    (\<forall>p. p \<noteq> q \<longrightarrow> lt_sessions T p = lt_sessions S p)"
proof -
  let ?w = "(focus e S)\<lparr>w_msgs := (lt_msgs S)(a \<mapsto> message_add_failure m)\<rparr>"
  have sv: "en_service (sending_env E e) = service_of S q" using assms(3) by (simp add: sending_env_simps service_of_def)
  have "message_bytes m = Some (bytes_of (lt_msgs S) a)" using message_bytes_of [of "focus e S" a m] assms(1,2) by simp
  then have "session_sendmessage (sending_env E e) a (focus e S) = Some (- 1, ?w)"
    using assms sv by (simp add: session_sendmessage_def the_message_def update_message_def store_message_def)
  then show ?thesis
    using assms(3) by (simp add: with_session_def retire_def unfocus_def)
qed

lemma queued_taken:
  assumes inv: "thread_inv {a} d S" and p: "lt_sessions S p = Some e" and m: "lt_msgs S a = Some m" "sendable m"
    and owed: "1 \<le> d a" and mem: "memory_ok E" and room: "sessions_room (Suc n) S" and t: "sv_transform (service_of S p) = None"
  shows "\<exists>T. with_session p (\<lambda>e. session_sendmessage (sending_env E e) a) S = Some (0, T) \<and> lt_msgs T = lt_msgs S \<and>
    lt_manager T = lt_manager S \<and> queue_of T p = queue_of S p @ [a] \<and>
    (\<exists>e'. lt_sessions T p = Some e' \<and> ring_ok (ss_sendqueue (e_session e'))) \<and> (\<forall>q. q \<noteq> p \<longrightarrow> lt_sessions T q = lt_sessions S q)"
proof -
  note l = listed_session [OF inv p]
  have sv: "en_service (sending_env E e) = service_of S p" using p by (simp add: sending_env_simps service_of_def)
  have sp: "1 \<le> slack (focus e S) a"
    using thread_invD(6) [OF inv, of a] count_le_entries [OF p l(1), of a] owed by (simp add: slack_def)
  have h: "w_alive (focus e S)" "w_msgs (focus e S) a = Some m" "a < w_next (focus e S)" "length (queue_list (focus e S)) < 2 ^ 31"
    "memory_ok (sending_env E e)"
    using m(1) thread_invD(4) [OF inv] sessions_roomD(1) [OF room p] mem by (auto simp: bounded_def sending_env_simps)
  have t': "case sv_transform (en_service (sending_env E e)) of None \<Rightarrow> True | Some f \<Rightarrow> \<exists>n. f (bytes_of (w_msgs (focus e S)) a) = Same n"
    by (simp add: sv t)
  obtain w where w: "session_sendmessage (sending_env E e) a (focus e S) = Some (0, w)" "w_alive w" "w_msgs w = lt_msgs S"
    "queue_list w = ring_list (ss_sendqueue (e_session e)) @ [a]" "removal_acts w = []" "sess_inv w"
    using queue_message_step [OF l(2) h(1,2) m(2) h(3) sp h(4,5) t'] by auto
  have "ring_ok (ss_sendqueue (w_session w))"
    using sess_invD(1) [OF w(6,2)] live_okD(2) queue_ok_ring by blast
  with w show ?thesis
    using p by (simp add: with_session_def retire_def unfocus_def removal_acts_def queue_of_def queue_list_def)
qed

lemma transmit_freed:
  assumes "ring_ok (ss_sendqueue (w_session w))" "queue_list w = a # as" "w_msgs w a = None"
  shows "channel_transmit w = None"
proof -
  have n: "unat (sendqueue_count w) = Suc (length as)" using queue_length [OF assms(1)] assms(2) by simp
  have g: "QUEUE_GET (ss_sendqueue (w_session w)) 0 = Some (0, Some a)"
    using ring_get [OF assms(1), of 0] assms(2) by (simp add: queue_list_def)
  have "[0..<unat (sendqueue_count w)] = 0 # [1..<unat (sendqueue_count w)]" using n by (simp add: upt_rec)
  then show ?thesis
    using count_pos_iff [OF assms(1)] assms(2,3) g by (simp add: channel_transmit_def iov_max_def)
qed

text \<open>
  C11: Refused message.  If the callback of one receiver refuses a message that another receiver has
  queued, both \<^verbatim>\<open>session_sendmessage\<close> and \<^verbatim>\<open>_broadcast_direct\<close> record the failure.  With two receivers
  the message then counts as complete and is freed, while the send queue of the other session
  still has it: the next transmission of that session uses freed memory.
\<close>
theorem broadcast_refused_dangles:
  assumes "task_message a m S" "msg_tolist m = Some l" "receivers m = [s, s']" "memory_ok E" "sessions_room 2 S"
    and "il_transform layer = None"
    and "routed S index s = Some p" "routed S index s' = Some q" "p \<noteq> q" "queue_of S p = []"
    and "sv_transform (service_of S p) = None"
    and "sv_transform (service_of S q) = Some f" "f (bytes_of (lt_msgs S) a) = Gone"
  shows "\<exists>S' e. broadcast_direct E layer index a S = Some (1, S') \<and> lt_msgs S' a = None \<and>
    queue_of S' p = [a] \<and> lt_sessions S' p = Some e \<and> channel_transmit (focus e S') = None"
proof -
  have m: "thread_inv {a} (in_hand a 2) S" "lt_msgs S a = Some m" "sendable m" "outcomes m = 0" "message_ok m"
    using assms(1,3) by (simp_all add: task_message_def sendable_def numeral_2_eq_2)
  have r: "sids l = [s, s']" using assms(2,3) by (simp add: receivers_def)
  have lo: "sidlist_ok l" using m(5) assms(2) by (simp add: message_ok_def)
  have n: "unat (sl_count l) = 2" using sids_length [OF lo] r by simp
  have get: "sidlist_get l 0 = Some s" "sidlist_get l 1 = Some s'"
    using sidlist_get_nth [OF lo, of 0] sidlist_get_nth [OF lo, of 1] by (simp_all add: r)
  have g: "session_manager_get (lt_manager S) x = Some (handles (lt_manager S) (key x))" for x by (rule get_session(1) [OF m(1)])
  have hp: "handles (lt_manager S) (key s) = Some p" "SID_INDEX s = uint index" "handles (lt_manager S) (key s') = Some q"
    "SID_INDEX s' = uint index"
    using assms(7,8) by (auto simp: routed_def split: if_splits)
  obtain ep eq where e: "lt_sessions S p = Some ep" "lt_sessions S q = Some eq" using get_session(2) [OF m(1)] hp by blast
  have room: "sessions_room (Suc 1) S" using assms(5) by (simp add: numeral_2_eq_2)
  obtain T where T: "with_session p (\<lambda>e. session_sendmessage (sending_env E e) a) S = Some (0, T)" "lt_msgs T = lt_msgs S"
    "lt_manager T = lt_manager S" "queue_of T p = [a]" "\<forall>q. q \<noteq> p \<longrightarrow> lt_sessions T q = lt_sessions S q"
    "\<exists>e'. lt_sessions T p = Some e' \<and> ring_ok (ss_sendqueue (e_session e'))"
    using queued_taken [OF m(1) e(1) m(2,3) _ assms(4) room assms(11)] assms(10) by auto
  have sq: "service_of T q = service_of S q" "lt_sessions T q = Some eq" using T(5) assms(9) e(2) by (simp_all add: service_of_def)
  obtain U where U: "with_session q (\<lambda>e. session_sendmessage (sending_env E e) a) T = Some (- 1, U)"
    "lt_msgs U = (lt_msgs S)(a \<mapsto> message_add_failure m)" "lt_manager U = lt_manager S"
    "\<forall>p. p \<noteq> q \<longrightarrow> lt_sessions U p = lt_sessions T p"
    using refused_outcomes [of T a m q eq f E] T(2,3) m(2,3) sq assms(12,13) by auto
  define m2 where "m2 = message_add_failure (message_add_failure m)"
  define V where "V = layer_store a m2 U"
  have c1: "outcomes (message_add_failure m) = 1" using outcome_counts(2) [of m] m(4,5) assms(3) by simp
  have "outcomes m2 = 2" using outcome_counts(2) [of "message_add_failure m"] c1 m(5) assms(3) by (simp add: m2_def)
  then have c2: "message_is_complete m2" using complete_iff [of m2] m(5) assms(3) by (simp add: m2_def)
  have loop: "broadcast_loop E index a [0..<2] 0 S = Some (1, V)"
    using m(2) assms(2) get g hp T(1,2,3) U(1,2)
    by (simp add: upt_rec broadcast_one_def V_def m2_def)
  define S' where "S' = layer_destroy a V"
  have b: "broadcast_direct E layer index a S = Some (1, S')"
    using loop m(2) assms(2,6) c2 n
    by (simp add: broadcast_direct_def transform_message_def layer_message_done_def V_def S'_def)
  obtain e' where e': "lt_sessions T p = Some e'" "ring_list (ss_sendqueue (e_session e')) = [a]"
    "ring_ok (ss_sendqueue (e_session e'))"
    using T(4,6) by (cases "lt_sessions T p") (auto simp: queue_of_def)
  have S': "lt_msgs S' a = None" "lt_sessions S' p = Some e'"
    using U(4) assms(9) e'(1) by (simp_all add: S'_def V_def layer_destroy_def)
  have "queue_of S' p = [a]" using S'(2) e'(2) by (simp add: queue_of_def)
  moreover have "channel_transmit (focus e' S') = None"
    by (rule transmit_freed) (use e'(2,3) S'(1) in simp_all)
  ultimately show ?thesis using b S' by blast
qed

end
