(* ===== verification/LayerEnd.thy ===== *)
theory LayerEnd
  imports LayerBroadcast
begin

text \<open>
  Tasks that end sessions or run tasks of the application: \<^verbatim>\<open>_shutdown_direct\<close>, \<^verbatim>\<open>_shutdowns_direct\<close>
  and \<^verbatim>\<open>_perform_direct\<close> of \<^verbatim>\<open>src/network.c\<close>.
\<close>

section \<open>Ending one session\<close>

text \<open>Every session of the thread has its callbacks, and they keep to the library.\<close>

definition services_ok :: "environment \<Rightarrow> io_thread \<Rightarrow> bool" where
  "services_ok E S \<longleftrightarrow> (\<forall>p e. lt_sessions S p = Some e \<longrightarrow>
     (\<exists>sv. e_service e = Some sv \<and> env_accounted (E\<lparr>en_service := sv\<rparr>)))"

text \<open>A session with data to send that has not been shut down yet: a shutdown lets it finish.\<close>

definition draining :: "io_thread \<Rightarrow> nat \<Rightarrow> bool" where
  "draining S p \<longleftrightarrow> session_open S p \<and> queue_of S p \<noteq> []"

lemma close_step:
  assumes "sess_inv w" "w_alive w"
  shows "sess_inv (session_close w)" "events_only w (session_close w)"
    "has_status SESSION_EXITING (session_close w) = has_status SESSION_EXITING w"
proof -
  note d = sess_invD [OF assms]
  show e: "events_only w (session_close w)" by (simp add: session_close_def events_only_steps)
  show "has_status SESSION_EXITING (session_close w) = has_status SESSION_EXITING w"
    by (simp add: session_close_def status_simps)
  have "regs_ok (session_close w)" using live_okD(5) [OF d(1)] by (simp add: session_close_def regs_ok_def regs_known_def frame_simps status_simps)
  then have "live_ok (session_close w)" by (rule live_ok_events [OF d(1) e])
  moreover have "busy_ok (session_close w)" by (rule busy_ok_events [OF d(2) e]) (simp add: session_close_def status_simps)
  ultimately show "sess_inv (session_close w)" by (simp add: sess_inv_def live_ok_def)
qed

lemma shutdown_step:
  assumes E: "quiet E" and inv: "sess_inv w" "w_alive w" and b: "bounded (w_next w) (w_msgs w)"
  shows "\<exists>rc w'. session_shutdown E w = Some (rc, w') \<and> sess_inv w' \<and> accounted w w' \<and>
    (if \<not> has_status SESSION_EXITING w \<and> queue_list w \<noteq> []
     then rc = 1 \<and> w_alive w' \<and> has_status SESSION_EXITING w' \<and> pending w' = pending w \<and> w_out w' = w_out w \<and>
       queue_list w' = queue_list w
     else \<not> w_alive w')"
proof -
  note d = sess_invD [OF inv]
  obtain rc w' where r: "session_shutdown E w = Some (rc, w')" "sess_inv w'"
    using session_shutdown_inv [OF E d(1,3)] by blast
  have a: "accounted w w'" by (rule session_shutdown_accounted [OF E d(1) b r(1)])
  have pos: "0 < sendqueue_count w \<longleftrightarrow> queue_list w \<noteq> []" by (rule count_pos_iff [OF live_okD(3) [OF d(1)]])
  have "if \<not> has_status SESSION_EXITING w \<and> queue_list w \<noteq> []
     then rc = 1 \<and> w_alive w' \<and> has_status SESSION_EXITING w' \<and> pending w' = pending w \<and> w_out w' = w_out w \<and>
       queue_list w' = queue_list w
     else \<not> w_alive w'"
  proof (cases "\<not> has_status SESSION_EXITING w \<and> queue_list w \<noteq> []")
    case True
    then have w': "rc = 1" "w' = session_add_event EV_WRITE (session_del_event EV_READ (status_set SESSION_EXITING w))"
      using r(1) pos by (auto simp: session_shutdown_def Let_def)
    have e: "events_only w w'"
      unfolding w' by (intro events_only_trans [OF events_only_trans [OF events_only_steps(2) del_event_only] add_event_only])
    have "has_status SESSION_EXITING w'" by (simp add: w' add_write_exiting del_read_state status_simps)
    then show ?thesis using True w'(1) e events_only_queue [OF e] inv(2) by (simp add: events_only_def)
  next
    case False
    then have "channel_shutdown E w = Some (rc, w')" using r(1) pos by (auto simp: session_shutdown_def)
    then show ?thesis using False channel_shutdown_accounted(2) [OF E d(1) b] by simp
  qed
  then show ?thesis using r a by blast
qed

lemma close_shutdown_step:
  assumes E: "quiet E" and inv: "sess_inv w" "w_alive w" and b: "bounded (w_next w) (w_msgs w)"
  shows "\<exists>rc w'. session_shutdown E (session_close w) = Some (rc, w') \<and> sess_inv w' \<and> accounted w w' \<and>
    (if \<not> has_status SESSION_EXITING w \<and> queue_list w \<noteq> []
     then rc = 1 \<and> w_alive w' \<and> has_status SESSION_EXITING w' \<and> pending w' = pending w \<and> w_out w' = w_out w \<and>
       queue_list w' = queue_list w
     else \<not> w_alive w')"
proof -
  note c = close_step [OF inv]
  note q = events_only_queue [OF c(2)]
  have al: "w_alive (session_close w)" "bounded (w_next (session_close w)) (w_msgs (session_close w))"
    "w_out (session_close w) = w_out w"
    using c(2) inv(2) b by (simp_all add: events_only_def)
  have ac: "accounted w x" if "accounted (session_close w) x" for x
    by (rule accounted_trans [OF accounted_events [OF c(2) inv(2)] that b al(1)])
  show ?thesis
    using shutdown_step [OF E c(1) al(1,2)] ac unfolding c(3) q(1,2) al(3) by blast
qed

text \<open>The sessions a task that ends sessions leaves alone.\<close>

definition untouched :: "io_thread \<Rightarrow> io_thread \<Rightarrow> nat \<Rightarrow> bool" where
  "untouched S S' q \<longleftrightarrow> lt_sessions S' q = lt_sessions S q \<and> session_stream S' q = session_stream S q"

lemma untouched_same:
  assumes "untouched S S' q"
  shows "session_open S' q = session_open S q" "queue_of S' q = queue_of S q" "draining S' q = draining S q"
  using assms by (simp_all add: untouched_def session_open_def queue_of_def draining_def has_status_session)

lemma only_session_untouched: "only_session p S S' \<Longrightarrow> q \<noteq> p \<Longrightarrow> untouched S S' q"
  using only_session_stream [of p S S' q] by (simp add: untouched_def only_session_def)

text \<open>A first shutdown of a session with data to send keeps all of them; any other one ends the session.\<close>

definition shut_down :: "io_thread \<Rightarrow> io_thread \<Rightarrow> nat \<Rightarrow> bool" where
  "shut_down S S' p \<longleftrightarrow> \<not> session_open S' p \<and>
     (if draining S p then lt_sessions S' p \<noteq> None \<and> session_stream S' p = session_stream S p \<and> queue_of S' p = queue_of S p
      else lt_sessions S' p = None)"

lemma shutdown_thread:
  assumes inv: "thread_ok S" and sv: "services_ok E S" and p: "handles (lt_manager S) (key sd) = Some p"
  shows "\<exists>rc S'. with_service E p (\<lambda>E w. session_shutdown E (session_close w)) S = Some (rc, S') \<and>
    thread_ok S' \<and> services_ok E S' \<and> only_session p S S' \<and> shut_down S S' p \<and>
    handles (lt_manager S') = (if draining S p then handles (lt_manager S) else (handles (lt_manager S))(key sd := None))"
proof -
  obtain e where e: "lt_sessions S p = Some e" using get_session(2) [OF inv p] by blast
  obtain s where s: "e_service e = Some s" "env_accounted (E\<lparr>en_service := s\<rparr>)" using sv e unfolding services_ok_def by blast
  note l = listed_session [OF inv e]
  have k: "key (ss_id (e_session e)) = key sd"
    using handles_key(2) [OF thread_invD(1) [OF inv] p] l(3) by simp
  have q: "quiet (E\<lparr>en_service := s\<rparr>)" using s(2) by (simp add: env_accounted_def env_ok_def)
  have op: "session_open S p = (\<not> has_status SESSION_EXITING (focus e S))" using e by (simp add: session_open_def)
  have dr: "draining S p = (\<not> has_status SESSION_EXITING (focus e S) \<and> queue_list (focus e S) \<noteq> [])"
    using e by (simp add: draining_def op queue_of_def)
  have b: "bounded (w_next (focus e S)) (w_msgs (focus e S))" "w_alive (focus e S)" using thread_invD(4) [OF inv] by simp_all
  obtain rc w where w: "session_shutdown (E\<lparr>en_service := s\<rparr>) (session_close (focus e S)) = Some (rc, w)" "sess_inv w"
    "accounted (focus e S) w"
    "if draining S p
     then rc = 1 \<and> w_alive w \<and> has_status SESSION_EXITING w \<and> pending w = pending (focus e S) \<and> w_out w = w_out (focus e S) \<and>
       queue_list w = queue_list (focus e S)
     else \<not> w_alive w"
    using close_shutdown_step [OF q l(2) b(2,1)] unfolding dr by blast
  obtain S' where S': "with_service E p (\<lambda>E w. session_shutdown E (session_close w)) S = Some (rc, S')" "thread_ok S'"
    "only_session p S S'" "lt_sessions S' p = (if w_alive w then Some (entity_of e w) else None)" "lt_msgs S' = w_msgs w"
    "handles (lt_manager S') = (if w_alive w then handles (lt_manager S) else (handles (lt_manager S))(key sd := None))"
    using with_service_step [where f = "\<lambda>E w. session_shutdown E (session_close w)", OF inv e s(1) w(1,3,2)] unfolding k by blast
  have "services_ok E S'"
    unfolding services_ok_def
  proof (intro allI impI)
    fix r er assume r: "lt_sessions S' r = Some er"
    show "\<exists>sv. e_service er = Some sv \<and> env_accounted (E\<lparr>en_service := sv\<rparr>)"
    proof (cases "r = p")
      case True
      then have "er = entity_of e w" using r S'(4) by (simp split: if_splits)
      then show ?thesis using s by (simp add: entity_of_def)
    next
      case False
      then show ?thesis using r S'(3) sv unfolding only_session_def services_ok_def by metis
    qed
  qed
  moreover have "shut_down S S' p"
  proof (cases "draining S p")
    case True
    then have al: "lt_sessions S' p = Some (entity_of e w)" using S'(4) w(4) by simp
    have "session_stream S' p = w_out w @ pending w"
      by (simp add: session_stream_def al) (simp add: pending_def entity_of_def S'(5) queue_list_def)
    moreover have "\<not> session_open S' p" "queue_of S' p = queue_of S p"
      using True w(4) al e by (simp_all add: session_open_def entity_of_def has_status_session queue_of_def queue_list_def)
    ultimately show ?thesis using True w(4) al e by (simp add: shut_down_def session_stream_def)
  next
    case False
    then have "lt_sessions S' p = None" using S'(4) w(4) by simp
    then show ?thesis using False by (simp add: shut_down_def session_open_def)
  qed
  moreover have "w_alive w = draining S p" using w(4) by (auto split: if_splits)
  ultimately show ?thesis using S'(1-3,6) by (intro exI [of _ rc] exI [of _ S']) simp
qed

text \<open>
  Shutdown task.  It fails for an identifier that names no session; otherwise the session takes
  no more data, keeps everything it has not sent yet if this was the first shutdown, and is gone
  from the thread if it had nothing to send or was shut down before.  Other sessions, and all
  messages they share with this one, are as before.
\<close>
theorem shutdown_direct_ends:
  assumes "thread_ok S" "services_ok E S"
  shows "\<exists>rc S'. shutdown_direct E sd S = Some (rc, S') \<and> thread_ok S' \<and>
    (case handles (lt_manager S) (key sd) of
       None \<Rightarrow> rc = - 1 \<and> S' = S
     | Some p \<Rightarrow> shut_down S S' p \<and> (\<forall>q. q \<noteq> p \<longrightarrow> untouched S S' q) \<and>
         (handles (lt_manager S') (key sd) = Some p \<longleftrightarrow> draining S p))"
proof (cases "handles (lt_manager S) (key sd)")
  case None
  then have "shutdown_direct E sd S = Some (- 1, S)" using get_session(1) [OF assms(1)] by (simp add: shutdown_direct_def)
  then show ?thesis using None assms(1) by simp
next
  case (Some p)
  have g: "session_manager_get (lt_manager S) sd = Some (Some p)" using get_session(1) [OF assms(1)] Some by simp
  obtain rc S' where S': "with_service E p (\<lambda>E w. session_shutdown E (session_close w)) S = Some (rc, S')" "thread_ok S'"
    "only_session p S S'" "shut_down S S' p"
    "handles (lt_manager S') = (if draining S p then handles (lt_manager S) else (handles (lt_manager S))(key sd := None))"
    using shutdown_thread [OF assms Some] by blast
  have "handles (lt_manager S') (key sd) = Some p \<longleftrightarrow> draining S p" using S'(5) Some by simp
  then show ?thesis
    using S'(1,2,4) only_session_untouched [OF S'(3)] Some g by (simp add: shutdown_direct_def)
qed

section \<open>Ending many sessions\<close>

text \<open>What a list of shutdowns does to a session that it names \<open>k\<close> times.\<close>

definition shut_down_times :: "io_thread \<Rightarrow> io_thread \<Rightarrow> nat \<Rightarrow> nat \<Rightarrow> bool" where
  "shut_down_times S S' q k \<longleftrightarrow>
     (if k = 0 then untouched S S' q
      else \<not> session_open S' q \<and>
        (if k = 1 \<and> draining S q
         then lt_sessions S' q \<noteq> None \<and> session_stream S' q = session_stream S q \<and> queue_of S' q = queue_of S q
         else lt_sessions S' q = None))"

lemma shut_down_once_more:
  assumes "shut_down S T p" "shut_down_times T S' p k" "\<not> draining S p \<longrightarrow> k = 0"
  shows "shut_down_times S S' p (Suc k)"
proof (cases "draining S p")
  case True
  then have T: "\<not> session_open T p" "lt_sessions T p \<noteq> None" "session_stream T p = session_stream S p" "queue_of T p = queue_of S p"
    "\<not> draining T p"
    using assms(1) by (simp_all add: shut_down_def draining_def)
  then show ?thesis
    using assms(2) True untouched_same [of T S' p]
    by (cases "k = 0") (auto simp: shut_down_times_def untouched_def)
next
  case False
  then have "k = 0" "lt_sessions T p = None" using assms by (simp_all add: shut_down_def)
  then show ?thesis
    using assms(2) False by (simp add: shut_down_times_def untouched_def session_open_def)
qed

lemma untouched_times:
  assumes "untouched S T q" "shut_down_times T S' q k"
  shows "shut_down_times S S' q k"
  using assms untouched_same [OF assms(1)] by (auto simp: shut_down_times_def untouched_def split: if_splits)

lemma shutdowns_loop_spec:
  assumes "thread_ok S" "services_ok E S" "sidlist_ok ids" "\<forall>i \<in> set js. i < length (sids ids)"
  shows "\<exists>c S'. shutdowns_loop E index ids js cnt S = Some (c, S') \<and> thread_ok S' \<and> services_ok E S' \<and>
    (\<forall>q. shut_down_times S S' q (length (filter (\<lambda>i. routed S index (sids ids ! i) = Some q) js)))"
  using assms
proof (induction js arbitrary: S cnt)
  case Nil
  then show ?case by (simp add: shut_down_times_def untouched_def)
next
  case (Cons i js)
  let ?sd = "sids ids ! i"
  let ?hits = "\<lambda>S q. length (filter (\<lambda>i. routed S index (sids ids ! i) = Some q) js)"
  have get: "sidlist_get ids (of_nat i) = Some ?sd" using sidlist_get_nth [OF Cons.prems(3)] Cons.prems(4) by simp
  have js: "\<forall>i \<in> set js. i < length (sids ids)" using Cons.prems(4) by simp
  have g: "session_manager_get (lt_manager S) ?sd = Some (handles (lt_manager S) (key ?sd))"
    by (rule get_session(1) [OF Cons.prems(1)])
  show ?case
  proof (cases "routed S index ?sd")
    case None
    then have "shutdowns_loop E index ids (i # js) cnt S = shutdowns_loop E index ids js cnt S"
      using get g by (auto simp: routed_def split: if_splits)
    then show ?thesis using Cons.IH [OF Cons.prems(1-3) js, of cnt] None by simp
  next
    case (Some p)
    then have p: "handles (lt_manager S) (key ?sd) = Some p" "SID_INDEX ?sd = uint index" by (auto simp: routed_def split: if_splits)
    obtain rc T where T: "with_service E p (\<lambda>E w. session_shutdown E (session_close w)) S = Some (rc, T)"
      "thread_ok T" "services_ok E T" "only_session p S T" "shut_down S T p"
      "handles (lt_manager T) = (if draining S p then handles (lt_manager S) else (handles (lt_manager S))(key ?sd := None))"
      using shutdown_thread [OF Cons.prems(1,2) p(1)] by blast
    have step: "shutdowns_loop E index ids (i # js) cnt S = shutdowns_loop E index ids js (cnt + 1) T"
      using get g p T(1) by simp
    obtain c S' where r: "shutdowns_loop E index ids js (cnt + 1) T = Some (c, S')" "thread_ok S'" "services_ok E S'"
      "\<forall>q. shut_down_times T S' q (?hits T q)"
      using Cons.IH [OF T(2,3) Cons.prems(3) js, of "cnt + 1"] by blast
    have same: "routed T index sd = Some q \<longleftrightarrow> routed S index sd = Some q" if "q \<noteq> p \<or> draining S p" for q sd
      using T(6) p(1) that by (auto simp: routed_def)
    have "shut_down_times S S' q (length (filter (\<lambda>i. routed S index (sids ids ! i) = Some q) (i # js)))" for q
    proof (cases "q = p")
      case True
      have gone: "?hits T p = 0" if nd: "\<not> draining S p"
      proof -
        have "lt_sessions T p = None" using T(5) nd by (simp add: shut_down_def)
        then have "routed T index sd \<noteq> Some p" for sd
          using thread_invD(3) [OF T(2), of "key sd" p] by (auto simp: routed_def)
        then show ?thesis by simp
      qed
      have "shut_down_times S S' p (Suc (?hits T p))"
        using shut_down_once_more [OF T(5)] r(4) gone by blast
      moreover have "?hits T p = ?hits S p" if "draining S p" using same that by simp
      moreover have "shut_down_times S S' p (Suc k)" if "\<not> draining S p" "shut_down_times S S' p (Suc j)" for k j
        using that by (simp add: shut_down_times_def)
      ultimately show ?thesis using True Some by (cases "draining S p") auto
    next
      case False
      then have h: "?hits T q = ?hits S q" using same [of q] by simp
      have "shut_down_times T S' q (?hits S q)" using r(4) [THEN spec, of q] unfolding h .
      then show ?thesis
        using untouched_times [OF only_session_untouched [OF T(4) False]] False Some by simp
    qed
    then show ?thesis unfolding step using r(1-3) by blast
  qed
qed

text \<open>
  C19: Shutdown of a list.  Every session of this thread that the list names ends: one with data to
  send that is named once keeps them all and finishes sending, any other is gone at once, even one
  with unsent data if it is named twice.  Sessions not named are as before, the thread stays
  consistent, and the list is freed.
\<close>
theorem shutdowns_direct_end:
  assumes "thread_ok S" "services_ok E S" "sidlist_ok ids"
  shows "\<exists>c S'. shutdowns_direct E index ids S = Some (c, log_layer Sidlist_destroy S') \<and> thread_ok S' \<and>
    (\<forall>q. shut_down_times S S' q (length (filter (\<lambda>sd. routed S index sd = Some q) (sids ids))))"
proof -
  let ?js = "[0..<length (sids ids)]"
  have n: "unat (sl_count ids) = length (sids ids)" using sids_length [OF assms(3)] by simp
  have "\<forall>i \<in> set ?js. i < length (sids ids)" by simp
  from shutdowns_loop_spec [OF assms this, of index 0]
  obtain c S' where r: "shutdowns_loop E index ids ?js 0 S = Some (c, S')" "thread_ok S'"
    "\<forall>q. shut_down_times S S' q (length (filter (\<lambda>i. routed S index (sids ids ! i) = Some q) ?js))"
    by blast
  have "length (filter (\<lambda>i. routed S index (sids ids ! i) = Some q) ?js) =
      length (filter (\<lambda>sd. routed S index sd = Some q) (sids ids))" for q
    using arg_cong [OF filter_nth [of "sids ids" "\<lambda>sd. routed S index sd = Some q"], of length] by simp
  then show ?thesis using r n by (intro exI [of _ c] exI [of _ S']) (simp add: shutdowns_direct_def)
qed

section \<open>Tasks of the application\<close>

definition recycles :: "io_thread \<Rightarrow> layer_action list" where
  "recycles S = filter (\<lambda>a. case a of Recycle_task _ _ _ \<Rightarrow> True | _ \<Rightarrow> False) (lt_acts S)"

lemma recycles_simps [simp]:
  "recycles (log_layer (Recycle_task ty t i) S) = recycles S @ [Recycle_task ty t i]"
  "filter (\<lambda>a. case a of Recycle_task _ _ _ \<Rightarrow> True | _ \<Rightarrow> False) (map (Session_act p) as) = []"
  by (simp_all add: recycles_def filter_empty_conv)

lemma perform_now_step:
  assumes E: "env_accounted E" and inv: "sess_inv w" "w_alive w" and b: "bounded (w_next w) (w_msgs w)"
  shows "\<exists>rc w'. perform_now task E w = Some (rc, w') \<and> sess_inv w' \<and> accounted w w'"
proof -
  define v where "v = snd (sv_perform (en_service E) (tp_type task) (tp_task task) (tp_interval task) w)"
  obtain rc where rc: "sv_perform (en_service E) (tp_type task) (tp_task task) (tp_interval task) w = (rc, v)"
    by (metis v_def prod.collapse)
  have cb: "callback_ok (\<lambda>w. snd (sv_perform (en_service E) (tp_type task) (tp_task task) (tp_interval task) w))"
    "callback_accounted (\<lambda>w. snd (sv_perform (en_service E) (tp_type task) (tp_task task) (tp_interval task) w))"
    and q: "quiet E"
    using E unfolding env_accounted_def env_ok_def by blast+
  note c = midway_callback [OF cb inv(1) midway_refl [OF inv(2) b], folded v_def]
  have a: "accounted w v" using c(1) by (simp add: midway_def)
  obtain r x where s: "session_shutdown E (session_close v) = Some (r, x)" "sess_inv x" "accounted v x"
    using close_shutdown_step [OF q c(2,3) midway_bounded [OF c(1)]] by blast
  have "accounted w x" by (rule accounted_trans [OF a s(3) b c(3)])
  then show ?thesis using rc s(1,2) c(2) a by (cases "rc < 0") (simp_all add: perform_now_def)
qed

lemma schedule_step:
  assumes inv: "sess_inv w" "w_alive w" and r: "session_schedule_task E ty t i w = (rc, w')"
  shows "sess_inv w' \<and> w_alive w' \<and> accounted w w' \<and>
    (rc = 0 \<and> 0 < i \<longrightarrow> (\<exists>a rg. a \<in> st_addr ` set (ss_tasklist (w_session w')) \<and> w_regs w' (EvTask a) = Some rg \<and> rg_tv rg = i))"
proof -
  note d = sess_invD [OF inv]
  let ?v = "w\<lparr>w_next := Suc (w_next w)\<rparr>"
  let ?task = "\<lparr>st_addr = w_next w, st_type = ty, st_task = of_nat (w_next w), st_interval = i, st_event = True\<rparr>"
  define u where "u = on_session (\<lambda>s. s\<lparr>ss_tasklist := ?task # ss_tasklist s\<rparr>) ?v"
  have q: "queue_ok w" by (rule live_okD(2) [OF d(1)])
  have v: "sess_inv ?v" "accounted w ?v"
  proof -
    have "queue_ok ?v" using q by (auto simp: queue_ok_def queue_list_def)
    then show "sess_inv ?v"
      using d inv(2) by (simp add: sess_inv_def live_ok_def busy_ok_def regs_ok_def regs_known_def has_status_session queue_list_def)
    show "accounted w ?v"
      using inv(2) unfolding accounted_def evolves_def
      by (auto simp: slack_def queue_list_def removal_acts_def split: option.splits)
  qed
  consider "w' = w \<and> rc < 0" | "w' = ?v \<and> rc < 0"
    | "en_mem_event E \<and> rc = 0 \<and> w' = register (EvTask (w_next w)) (- 1) 0 On_schedule i u"
    using r by (auto simp: session_schedule_task_def Let_def u_def split: if_splits)
  then show ?thesis
  proof cases
    case 1
    then show ?thesis using inv accounted_refl [OF inv(2)] by simp
  next
    case 2
    then show ?thesis using v inv(2) by simp
  next
    case 3
    have w': "w_session w' = (w_session w)\<lparr>ss_tasklist := ?task # ss_tasklist (w_session w)\<rparr>"
      "w_alive w'" "w_msgs w' = w_msgs w" "w_next w' = Suc (w_next w)" "w_acts w' = w_acts w"
      using 3 inv(2) by (simp_all add: u_def register_def on_session_def)
    have R: "w_regs w' = (w_regs w)(EvTask (w_next w) := registered (- 1) 0 On_schedule i (w_regs w (EvTask (w_next w))))"
      "w_refuse w' = w_refuse w"
      using 3 by (simp_all add: u_def on_session_def frame_simps)
    have "regs_ok w'"
      using live_okD(5) [OF d(1)]
      by (auto simp: regs_ok_def regs_known_def regs_agree_def has_status_session w'(1) R registered_def split: if_splits option.splits)
    moreover have "queue_ok w'" using q by (auto simp: queue_ok_def queue_list_def w')
    ultimately have "sess_inv w'"
      using d w'(2) by (simp add: sess_inv_def live_ok_def busy_ok_def has_status_session queue_list_def w'(1))
    moreover have "accounted w w'"
      using w'(2) unfolding accounted_def evolves_def
      by (auto simp: slack_def queue_list_def removal_acts_def w' split: option.splits)
    moreover have "\<exists>rg. w_regs w' (EvTask (w_next w)) = Some rg \<and> rg_tv rg = i" if "0 < i"
      using that by (auto simp: R registered_def armed_def split: option.splits)
    ultimately show ?thesis using w'(1,2) by auto
  qed
qed

text \<open>
  C21: Task of the application.  It always runs and keeps the thread consistent, whatever the callback
  answers.  The task is recycled exactly once before the call returns if the session is not there,
  takes no more work, or the task is immediate; otherwise it is not recycled now and its timer is
  registered with the session.
\<close>
theorem perform_direct_recycles:
  assumes "thread_ok S" "services_ok E S"
  shows "\<exists>rc S'. perform_direct E task S = Some (rc, S') \<and> thread_ok S' \<and>
    (if rc = 0 \<and> 0 < tp_interval task
     then recycles S' = recycles S \<and>
       (\<exists>p e a rg. handles (lt_manager S) (key (tp_id task)) = Some p \<and> lt_sessions S' p = Some e \<and>
         a \<in> st_addr ` set (ss_tasklist (e_session e)) \<and> e_regs e (EvTask a) = Some rg \<and> rg_tv rg = tp_interval task)
     else recycles S' = recycles S @ [Recycle_task (tp_type task) (tp_task task) (tp_interval task)])"
proof (cases "handles (lt_manager S) (key (tp_id task))")
  case None
  then show ?thesis using get_session(1) [OF assms(1)] assms(1) by (simp add: perform_direct_def)
next
  case (Some p)
  have g: "session_manager_get (lt_manager S) (tp_id task) = Some (Some p)" using get_session(1) [OF assms(1)] Some by simp
  obtain e where e: "lt_sessions S p = Some e" using get_session(2) [OF assms(1) Some] by blast
  obtain s where s: "e_service e = Some s" "env_accounted (E\<lparr>en_service := s\<rparr>)" using assms(2) e unfolding services_ok_def by blast
  note l = listed_session [OF assms(1) e]
  have b: "w_alive (focus e S)" "bounded (w_next (focus e S)) (w_msgs (focus e S))" using thread_invD(4) [OF assms(1)] by simp_all
  show ?thesis
  proof (cases "tp_interval task \<le> 0")
    case True
    obtain rc w where w: "perform_now task (E\<lparr>en_service := s\<rparr>) (focus e S) = Some (rc, w)" "sess_inv w" "accounted (focus e S) w"
      using perform_now_step [OF s(2) l(2) b] by blast
    obtain S' where S': "with_service E p (perform_now task) S = Some (rc, S')" "thread_ok S'"
      "lt_acts S' = lt_acts S @ map (Session_act p) (w_acts w)"
      using with_service_step [where f = "perform_now task", OF assms(1) e s(1) w(1,3,2)] by blast
    have "recycles S' = recycles S" by (simp add: recycles_def S'(3))
    then show ?thesis using True g S'(1,2) by (simp add: perform_direct_def)
  next
    case False
    define f where "f = (\<lambda>(e :: entity) w. Some (session_schedule_task E (tp_type task) (tp_task task) (tp_interval task) w) :: (int \<times> world) option)"
    obtain rc w where w: "session_schedule_task E (tp_type task) (tp_task task) (tp_interval task) (focus e S) = (rc, w)" by force
    note st = schedule_step [OF l(2) b(1) w]
    have fe: "f e (focus e S) = Some (rc, w)" by (simp add: f_def w)
    obtain S' where S': "with_session p f S = Some (rc, S')" "thread_inv {} (\<lambda>b. 0 - 0) S'"
      "lt_sessions S' p = Some (entity_of e w)" "lt_acts S' = lt_acts S @ map (Session_act p) (w_acts w)"
      using with_session_step [where f = f, OF assms(1) e fe accounted_step [of e S w "{}"]] st by auto
    have rec: "recycles S' = recycles S" by (simp add: recycles_def S'(4))
    have "perform_direct E task S = Some (rc, if rc \<noteq> 0
        then log_layer (Recycle_task (tp_type task) (tp_task task) (tp_interval task)) S' else S')"
      using False g S'(1) by (simp add: perform_direct_def flip: f_def)
    moreover have "\<exists>a rg. a \<in> st_addr ` set (ss_tasklist (w_session w)) \<and> w_regs w (EvTask a) = Some rg \<and> rg_tv rg = tp_interval task"
      if "rc = 0" using st that False by simp
    ultimately show ?thesis
      using S'(2,3) Some False rec by (cases "rc = 0") (auto simp: entity_of_def)
  qed
qed

end
