(* ===== verification/LayerBroadcast2.thy ===== *)
theory LayerBroadcast2
  imports LayerEnd
begin

text \<open>
  Broadcasting to all sessions of a thread: \<^verbatim>\<open>_broadcast2_direct\<close> of \<^verbatim>\<open>src/network.c\<close>.  The list of
  receivers grows while the sessions already take the message.
\<close>

section \<open>Taking or refusing\<close>

lemma refused_step:
  assumes inv: "sess_inv (focus e S)" and m: "lt_msgs S a = Some m" "sendable m"
    and spare: "1 \<le> slack (focus e S) a"
    and t: "\<not> takes_message (en_service E) (has_status SESSION_EXITING (focus e S)) (bytes_of (lt_msgs S) a)"
  shows "\<exists>w m1. session_sendmessage E a (focus e S) = Some (- 1, w) \<and> w_alive w \<and> session_step {a} (settled_one a) e S w \<and>
    w_out w @ pending w = e_out e @ pending (focus e S) \<and> w_msgs w a = Some m1 \<and> same_content m m1 \<and>
    queue_list w = ring_list (ss_sendqueue (e_session e)) \<and>
    has_status SESSION_EXITING w = has_status SESSION_EXITING (focus e S)"
proof -
  let ?w = "focus e S"
  have w0: "session_step {a} (\<lambda>_. 0) e S ?w"
    using accounted_step [OF accounted_refl, of e S "{a}"] inv by simp
  have iof: "is_outcome message_add_failure" by (simp add: is_outcome_def)
  obtain v m1 where v: "update_message message_add_failure a ?w = Some v" "session_step {a} (settled_one a) e S v" "w_alive v"
    "pending v = pending ?w" "w_out v = w_out ?w" "queue_list v = queue_list ?w" "w_msgs v a = Some m1" "same_content m m1"
    "w_session v = w_session ?w"
    using settle_in_hand [OF iof w0 _ insertI1 m spare] by auto
  have mb: "message_bytes m = Some (bytes_of (lt_msgs S) a)" using message_bytes_of [of ?w a m] m by simp
  have "session_sendmessage E a ?w = Some (- 1, v)"
    using t v(1) mb m(1)
    by (auto simp: session_sendmessage_def the_message_def takes_message_def send_buffer_def send_only_def
        split: option.splits transformed.splits)
  then show ?thesis using v by (intro exI [of _ v] exI [of _ m1]) (simp add: has_status_session)
qed

lemma sendmessage_any:
  assumes inv: "thread_inv {a} d S" and p: "lt_sessions S p = Some e" and m: "lt_msgs S a = Some m" "sendable m"
    and owed: "1 \<le> d a" and mem: "memory_ok E" and room: "sessions_room (Suc n) S"
  shows "\<exists>rc S' m1. with_session p (\<lambda>e. session_sendmessage (sending_env E e) a) S = Some (rc, S') \<and>
    thread_inv {a} (less_one a d) S' \<and> only_session p S S' \<and> same_sessions S S' \<and> sessions_room n S' \<and>
    lt_msgs S' a = Some m1 \<and> same_content m m1 \<and>
    session_stream S' p = session_stream S p @
      (if session_takes S (bytes_of (lt_msgs S) a) p then taken_bytes S (bytes_of (lt_msgs S) a) p else [])"
proof (cases "session_takes S (bytes_of (lt_msgs S) a) p")
  case True
  then show ?thesis using sendmessage_thread [OF inv p m owed mem room True] by auto
next
  case False
  note l = listed_session [OF inv p]
  have sv: "en_service (sending_env E e) = service_of S p" using p by (simp add: sending_env_simps service_of_def)
  have op: "session_open S p = (\<not> has_status SESSION_EXITING (focus e S))" using p by (simp add: session_open_def)
  have sp: "1 \<le> slack (focus e S) a"
    using thread_invD(6) [OF inv, of a] count_le_entries [OF p l(1), of a] owed by (simp add: slack_def)
  have tk: "\<not> takes_message (en_service (sending_env E e)) (has_status SESSION_EXITING (focus e S)) (bytes_of (lt_msgs S) a)"
    using False by (simp add: session_takes_def sv op)
  obtain w m1 where w: "session_sendmessage (sending_env E e) a (focus e S) = Some (- 1, w)" "w_alive w"
    "session_step {a} (settled_one a) e S w" "w_out w @ pending w = e_out e @ pending (focus e S)"
    "w_msgs w a = Some m1" "same_content m m1" "queue_list w = ring_list (ss_sendqueue (e_session e))"
    "has_status SESSION_EXITING w = has_status SESSION_EXITING (focus e S)"
    using refused_step [OF l(2) m sp tk] by blast
  have \<delta>: "\<forall>b. settled_one a b \<le> d b"
    using owed thread_invD(5) [OF inv] by (auto simp: settled_one_def)
  have eq: "(\<lambda>b. d b - settled_one a b) = less_one a d" by (rule ext) (simp add: settled_one_def less_one_def)
  obtain S' where S': "with_session p (\<lambda>e. session_sendmessage (sending_env E e) a) S = Some (- 1, S')"
    "thread_inv {a} (less_one a d) S'" "only_session p S S'" "lt_msgs S' = w_msgs w" "lt_manager S' = lt_manager S"
    "lt_sessions S' p = Some (entity_of e w)" "lt_acts S' = lt_acts S @ map (Session_act p) (w_acts w)"
    using with_session_step [where f = "\<lambda>e. session_sendmessage (sending_env E e) a", OF inv p w(1,3) \<delta>] w(2)
    unfolding eq by auto
  have ln: "length (queue_list w) \<le> Suc (length (ring_list (ss_sendqueue (e_session e))))" by (simp add: w(7))
  note f = session_frame [OF room p S'(3,5,6,7) w(8) ln]
  have "session_stream S' p = w_out w @ pending w"
    by (simp add: session_stream_def S'(6)) (simp add: pending_def entity_of_def S'(4) queue_list_def)
  then have "session_stream S' p = session_stream S p" using w(4) p by (simp add: session_stream_def)
  then show ?thesis using S'(1-4) w(5,6,7) f False by (intro exI [of _ "- 1"] exI [of _ S'] exI [of _ m1]) simp
qed

section \<open>The visitor\<close>

lemma add_receiver_frame:
  "message_add_receiver b1 b2 b3 fresh m sd = Some (rc, m') \<Longrightarrow> msg_buffer m' = msg_buffer m \<and> msg_length m' = msg_length m"
  by (auto simp: message_add_receiver_def Let_def split: option.splits bind_splits)

lemma reserve_frame:
  "message_reserve_receivers b1 b2 b3 fresh m n = Some (rc, m') \<Longrightarrow> msg_buffer m' = msg_buffer m \<and> msg_length m' = msg_length m"
  by (auto simp: message_reserve_receivers_def Let_def split: option.splits bind_splits)

lemma same_bytes_of:
  assumes "msg_buffer m' = msg_buffer m" "msg_length m' = msg_length m" "lt_msgs S a = Some m"
  shows "bytes_of (lt_msgs (layer_store a m' S)) a = bytes_of (lt_msgs S) a"
  using assms by (simp add: bytes_of_def split: option.split)

lemma sendable_frame:
  "msg_buffer m' = msg_buffer m \<Longrightarrow> msg_length m' = msg_length m \<Longrightarrow> message_ok m' \<Longrightarrow> sendable m \<Longrightarrow> sendable m'"
  by (simp add: sendable_def)

text \<open>What a session is given for the message.\<close>

definition given :: "io_thread \<Rightarrow> byte list \<Rightarrow> nat \<Rightarrow> byte list" where
  "given S bs p = (if session_takes S bs p then taken_bytes S bs p else [])"

lemma same_sessions_given: "same_sessions S S' \<Longrightarrow> given S' = given S"
  using same_sessions_takes [of S S'] by (simp add: given_def fun_eq_iff)

lemma broadcast2_loop_step:
  assumes inv: "thread_inv {a} (\<lambda>_. 0) S" and p: "lt_sessions S p = Some e" and m: "lt_msgs S a = Some m" "sendable m"
    and mem: "memory_ok E" and room: "sessions_room (Suc n) S" and len: "length (receivers m) < 2 ^ 31"
  shows "\<exists>S' m'. broadcast2_loop E a p S = Some (0, S') \<and> thread_inv {a} (\<lambda>_. 0) S' \<and> same_sessions S S' \<and>
    sessions_room n S' \<and> lt_msgs S' a = Some m' \<and> sendable m' \<and> length (receivers m') = Suc (length (receivers m)) \<and>
    bytes_of (lt_msgs S') a = bytes_of (lt_msgs S) a \<and>
    (\<forall>q. session_stream S' q = session_stream S q @ (if q = p then given S (bytes_of (lt_msgs S) a) p else []))"
proof -
  have mo: "message_ok m" using m(2) by (simp add: sendable_def)
  obtain m1 where m1: "message_add_receiver True True True (en_fresh_sid E) m (ss_id (e_session e)) = Some (0, m1)" "message_ok m1"
    "receivers m1 = receivers m @ [ss_id (e_session e)]" "outcomes m1 = outcomes m"
    using add_receiver_ok [OF mo len] by blast
  note fr = add_receiver_frame [OF m1(1)]
  have s1: "sendable m1" using sendable_frame [of m1 m] fr m1(2) m(2) by simp
  have a: "a < lt_next S" using thread_invD(4) [OF inv] m(1) by (simp add: bounded_def)
  have "owed m = entries S a" using thread_invD(6) [OF inv, of a] m(1) by (simp add: owes_def)
  then have k: "owed m1 = entries S a + 1" "(0::int) \<le> 1" using m1(3,4) by (simp_all add: owed_def)
  have c: "entries S a = 0 \<or> (\<exists>m. lt_msgs S a = Some m \<and> same_bytes m m1)"
    using m(1) fr m1(2) by (auto simp: same_bytes_def)
  let ?S = "layer_store a m1 S"
  note st = store_thread [OF inv a k c]
  have eq: "(\<lambda>b. if b = a then 1 else 0) = in_hand a 1" by (auto simp: in_hand_def fun_eq_iff)
  have p1: "thread_inv {a} (in_hand a 1) ?S" using st(1) unfolding eq .
  have p2: "lt_sessions ?S p = Some e" "lt_msgs ?S a = Some m1" "1 \<le> in_hand a 1 a" using p by simp_all
  have p3: "sessions_room (Suc n) ?S" using room st(4) by simp
  obtain rc T m2 where T: "with_session p (\<lambda>e. session_sendmessage (sending_env E e) a) ?S = Some (rc, T)"
    "thread_inv {a} (less_one a (in_hand a 1)) T" "only_session p ?S T" "same_sessions ?S T" "sessions_room n T"
    "lt_msgs T a = Some m2" "same_content m1 m2"
    "session_stream T p = session_stream ?S p @ given ?S (bytes_of (lt_msgs ?S) a) p"
    using sendmessage_any [OF p1 p2(1,2) s1 p2(3) mem p3] unfolding given_def by blast
  have sb: "bytes_of (lt_msgs ?S) a = bytes_of (lt_msgs S) a" using same_bytes_of [of m1 m] fr m(1) by simp
  have str: "session_stream T q = session_stream S q @ (if q = p then given S (bytes_of (lt_msgs S) a) p else [])" for q
    using T(8) only_session_stream [OF T(3), of q] unfolding sb st(2) same_sessions_given [OF st(3)] by (cases "q = p") simp_all
  have "less_one a (in_hand a 1) = (\<lambda>_. 0)" by (auto simp: less_one_def in_hand_def fun_eq_iff)
  then have t1: "thread_inv {a} (\<lambda>_. 0) T" using T(2) by simp
  have "sendable m2" "receivers m2 = receivers m1" using same_content_sendable [OF T(7)] s1 by simp_all
  moreover have "bytes_of (lt_msgs T) a = bytes_of (lt_msgs S) a"
    using T(6,7) by (subst sb [symmetric]) (simp add: bytes_of_def same_content_def split: option.split)
  moreover have "broadcast2_loop E a p S = Some (0, T)"
    using m(1) p m1(1) mem T(1) by (simp add: broadcast2_loop_def memory_ok_def)
  ultimately show ?thesis
    using t1 same_sessions_trans [OF st(3) T(4)] T(5,6) m1(3) str by (intro exI [of _ T] exI [of _ m2]) simp
qed

section \<open>The task\<close>

definition visited :: "nat \<Rightarrow> io_thread \<Rightarrow> byte list \<Rightarrow> nat \<Rightarrow> nat list \<Rightarrow> io_thread option \<Rightarrow> bool" where
  "visited a S0 bs n ps c \<longleftrightarrow> (\<exists>S m. c = Some S \<and> thread_inv {a} (\<lambda>_. 0) S \<and> same_sessions S0 S \<and>
     sessions_room (n - length ps) S \<and> lt_msgs S a = Some m \<and> sendable m \<and> length (receivers m) = length ps \<and>
     bytes_of (lt_msgs S) a = bs \<and> distinct ps \<and> set ps \<subseteq> sessions (lt_manager S0) \<and>
     (\<forall>q. session_stream S q = session_stream S0 q @ (if q \<in> set ps then given S0 bs q else [])))"

lemma visit_step:
  assumes ok: "smgr_ok (lt_manager S0)" and n: "n = unat (sm_count (lt_manager S0))" and mem: "memory_ok E"
    and p: "p \<in> sessions (lt_manager S0)" "p \<notin> set ps" and v: "visited a S0 bs n ps c"
  shows "\<exists>c'. visit (broadcast2_loop E a) p (lt_manager S0, c) = (0, (lt_manager S0, c')) \<and> visited a S0 bs n (ps @ [p]) c'"
proof -
  obtain S m where S: "c = Some S" "thread_inv {a} (\<lambda>_. 0) S" "same_sessions S0 S" "sessions_room (n - length ps) S"
    "lt_msgs S a = Some m" "sendable m" "length (receivers m) = length ps" "bytes_of (lt_msgs S) a = bs" "distinct ps"
    "set ps \<subseteq> sessions (lt_manager S0)"
    "\<forall>q. session_stream S q = session_stream S0 q @ (if q \<in> set ps then given S0 bs q else [])"
    using v unfolding visited_def by blast
  have mg: "lt_manager S = lt_manager S0" using S(3) by (simp add: same_sessions_def)
  have "set (ps @ [p]) \<subseteq> set (session_list (lt_manager S0) 0)" "distinct (ps @ [p])"
    using p S(9,10) by (auto simp: session_list_set)
  then have "length (ps @ [p]) \<le> length (session_list (lt_manager S0) 0)"
    by (metis List.finite_set card_mono distinct_card le_trans card_length)
  moreover have "length (session_list (lt_manager S0) 0) = n"
    using session_list_length [OF ok] n by (metis nat_int unat_eq_nat_uint)
  ultimately have len: "length ps < n" by simp
  have "sm_count (lt_manager S0) \<le> 2 ^ 24 \<or> n \<le> 2 ^ 24" using ok n
    by (elim smgr_okE) (metis length_filter_le le_trans)
  then have "n \<le> 2 ^ 24" using n by (auto simp: word_le_nat_alt)
  then have lr: "length (receivers m) < 2 ^ 31" using len S(7) by simp
  obtain e where e: "lt_sessions S p = Some e"
    using p(1) thread_invD(3) [OF S(2)] mg unfolding sessions_def ran_def by fastforce
  have room: "sessions_room (Suc (n - length (ps @ [p]))) S" using S(4) len by (simp add: Suc_diff_Suc)
  obtain S' m' where S': "broadcast2_loop E a p S = Some (0, S')" "thread_inv {a} (\<lambda>_. 0) S'" "same_sessions S S'"
    "sessions_room (n - length (ps @ [p])) S'" "lt_msgs S' a = Some m'" "sendable m'" "length (receivers m') = Suc (length (receivers m))"
    "bytes_of (lt_msgs S') a = bs"
    "\<forall>q. session_stream S' q = session_stream S q @ (if q = p then given S bs p else [])"
    using broadcast2_loop_step [OF S(2) e S(5,6) mem room lr] unfolding S(8) by blast
  have id: "S\<lparr>lt_manager := lt_manager S0\<rparr> = S" unfolding mg [symmetric] by simp
  have "visit (broadcast2_loop E a) p (lt_manager S0, c) = (0, (lt_manager S0, Some S'))"
    using S(1) S'(1,3) mg by (simp add: visit_def same_sessions_def id)
  moreover have "visited a S0 bs n (ps @ [p]) (Some S')"
    using S'(2,4-8) same_sessions_trans [OF S(3) S'(3)] S(7,9,10,11) S'(9) p same_sessions_given [OF S(3)]
    unfolding visited_def by (intro exI [of _ S'] exI [of _ m']) auto
  ultimately show ?thesis by blast
qed

text \<open>
  C12: Broadcast to all.  The message goes to every session of the thread exactly once, in whatever form
  its callback gives it; a refused message counts one failure.  The receivers are counted as the
  sessions take the message, so none is freed early: the thread stays consistent whatever the
  callbacks answer.
\<close>
theorem broadcast2_direct_delivers:
  assumes "task_message a m S" "receivers m = []" "memory_ok E"
    and "sessions_room (unat (sm_count (lt_manager S))) S" "transform_ok (il_transform layer)"
    and "layer_bytes layer (bytes_of (lt_msgs S) a) = Some bs"
  shows "\<exists>S'. broadcast2_direct E layer a S = Some (uint (sm_count (lt_manager S)), S') \<and> thread_ok S' \<and> same_sessions S S' \<and>
    (\<forall>q. session_stream S' q = session_stream S q @ (if lt_sessions S q = None then [] else given S bs q))"
proof -
  obtain T m1 where T: "transform_message layer a S = Some (True, T)" "task_message a m1 T" "session_stream T = session_stream S"
    "same_sessions S T" "msg_tolist m1 = msg_tolist m" "bytes_of (lt_msgs T) a = bs" "\<forall>n. sessions_room n T = sessions_room n S"
    using transform_message_ok [OF assms(1,5)] assms(6) by auto
  have r1: "receivers m1 = []" using T(5) assms(2) by (simp add: receivers_def)
  have t1: "thread_inv {a} (\<lambda>_. 0) T" "lt_msgs T a = Some m1" "sendable m1" "outcomes m1 = 0" "message_ok m1"
    using T(2) r1 by (simp_all add: task_message_def sendable_def)
  have mg: "lt_manager T = lt_manager S" using T(4) by (simp add: same_sessions_def)
  let ?n = "unat (sm_count (lt_manager S))"
  obtain m2 where m2: "message_reserve_receivers True True True (en_fresh_sid E) m1 (sm_count (lt_manager T)) = Some (0, m2)"
    "message_ok m2" "receivers m2 = []" "outcomes m2 = 0"
    using reserve_receivers_ok [OF t1(5)] r1 t1(4) by metis
  note fr = reserve_frame [OF m2(1)]
  let ?U = "layer_store a m2 T"
  have a: "a < lt_next T" using thread_invD(4) [OF t1(1)] t1(2) by (simp add: bounded_def)
  have e0: "entries T a = 0" by (rule task_message_entries [OF T(2)])
  have k: "owed m2 = entries T a + 0" "(0::int) \<le> 0" using e0 m2(3,4) by (simp_all add: owed_def)
  note st = store_thread [OF t1(1) a k disjI1 [OF e0]]
  have s2: "sendable m2" using sendable_frame [of m2 m1] fr m2(2) t1(3) by simp
  have v0: "visited a ?U bs ?n [] (Some ?U)"
    using st(1,4) s2 m2(3) assms(4) T(6,7) same_bytes_of [of m2 m1 T a] fr t1(2) unfolding visited_def
    by (intro exI [of _ ?U] exI [of _ m2]) simp
  have mu: "lt_manager ?U = lt_manager S" using mg by simp
  have ok: "smgr_ok (lt_manager ?U)" using thread_invD(1) [OF t1(1)] by simp
  obtain c where c: "session_manager_foreach (visit (broadcast2_loop E a)) (lt_manager ?U, Some ?U) =
      Some (uint (sm_count (lt_manager S)), (lt_manager ?U, c))" "visited a ?U bs ?n (session_list (lt_manager ?U) 0) c"
    using foreach_inv [where Q = "visited a ?U bs ?n" and func = "visit (broadcast2_loop E a)", OF ok v0
        visit_step [OF ok _ assms(3)]] unfolding mu by blast
  then obtain V m3 where V: "c = Some V" "thread_inv {a} (\<lambda>_. 0) V" "same_sessions ?U V" "lt_msgs V a = Some m3" "sendable m3"
    "\<forall>q. session_stream V q = session_stream ?U q @ (if q \<in> sessions (lt_manager ?U) then given ?U bs q else [])"
    unfolding visited_def session_list_set by blast
  have "message_ok m3" using V(5) by (simp add: sendable_def)
  then obtain S' where S': "layer_message_done a V = Some S'" "thread_ok S'" "session_stream S' = session_stream V" "same_sessions V S'"
    using done_thread [OF V(2,4)] by blast
  have ss: "same_sessions S ?U" by (rule same_sessions_trans [OF T(4) st(3)])
  have "same_sessions S S'" by (rule same_sessions_trans [OF same_sessions_trans [OF ss V(3)] S'(4)])
  moreover have "q \<in> sessions (lt_manager S) \<longleftrightarrow> lt_sessions S q \<noteq> None" for q
  proof -
    have inv: "thread_inv {a} (in_hand a 0) S" using assms(1,2) by (simp add: task_message_def)
    show ?thesis
    proof
      assume "q \<in> sessions (lt_manager S)"
      then show "lt_sessions S q \<noteq> None" using thread_invD(3) [OF inv] unfolding sessions_def ran_def by fastforce
    next
      assume "lt_sessions S q \<noteq> None"
      then show "q \<in> sessions (lt_manager S)" using listed_session(5) [OF inv] by blast
    qed
  qed
  moreover have "broadcast2_direct E layer a S = Some (uint (sm_count (lt_manager S)), S')"
    using T(1) t1(2) m2(1) assms(3) c(1) V(1) S'(1) by (simp add: broadcast2_direct_def memory_ok_def Let_def)
  moreover have "session_stream S' q = session_stream S q @ (if q \<in> sessions (lt_manager S) then given S bs q else [])" for q
    using V(6) S'(3) T(3) st(2) mu same_sessions_given [OF ss] by simp
  ultimately show ?thesis using S'(2) by (intro exI [of _ S']) simp
qed

end
