(* ===== verification/LayerExample.thy ===== *)
theory LayerExample
  imports LayerBroadcast2
begin

text \<open>
  The properties of the tasks at a concrete thread: two idle sessions, and a message addressed to
  both of them.
\<close>

section \<open>A thread with two sessions\<close>

definition demo_sid :: "nat \<Rightarrow> sid" where
  "demo_sid i = MAKE_SID 0 0 (of_nat i)"

definition demo_slot :: "nat \<Rightarrow> nat slot" where
  "demo_slot p = \<lparr>sl_union = Session (Some p), sl_version = 0, sl_is_active = True\<rparr>"

definition demo_manager :: "nat session_manager" where
  "demo_manager = \<lparr>sm_index = 0, sm_count = 2, sm_capacity = 2, sm_table = [demo_slot 0, demo_slot 1],
     sm_free_head = INVALID_SLOT_INDEX, sm_recyclesize = 0, sm_recyclelist = [], se_id = demo_sid, se_manager = (\<lambda>_. True)\<rparr>"

definition idle_entity :: "nat \<Rightarrow> (byte list \<Rightarrow> transformed) option \<Rightarrow> entity" where
  "idle_entity p tr = \<lparr>e_session = \<lparr>ss_id = demo_sid p, ss_fd = 5, ss_type = eSessionType_Accept, ss_status = 0, ss_host = None,
       ss_port = 80, ss_driver = None, ss_privdata = 0, ss_reattach = 0, ss_inbuffer = buffer_init, ss_tasklist = [],
       ss_msgoffset = 0, ss_sendqueue = \<lparr>q_size = 2, q_entries = Some [0, 0], q_head = 0, q_tail = 0\<rparr>,
       ss_setting = init_settings\<lparr>setting_transport := Channel\<rparr>\<rparr>,
     e_out = [], e_io = [], e_regs = (\<lambda>_. None), e_refuse = (\<lambda>_. False), e_service = Some ((en_service demo_env)\<lparr>sv_transform := tr\<rparr>)\<rparr>"

definition demo_thread :: "message option \<Rightarrow> (byte list \<Rightarrow> transformed) option \<Rightarrow> io_thread" where
  "demo_thread m tr = \<lparr>lt_index = 0, lt_manager = demo_manager,
     lt_sessions = (\<lambda>p. if p = 0 then Some (idle_entity 0 None) else if p = 1 then Some (idle_entity 1 tr) else None),
     lt_msgs = (\<lambda>a. if a = 2 then m else None), lt_next = 3, lt_acts = []\<rparr>"

definition demo_layer :: iolayer where
  "demo_layer = \<lparr>il_status = eIOStatus_Running, il_nthreads = 1, il_nclients = 2, il_roundrobin = 0, il_threads = True,
     il_transform = None\<rparr>"

definition cast_message :: "sid list option \<Rightarrow> message" where
  "cast_message ids = \<lparr>msg_nsuccess = 0, msg_nfailure = 0, msg_buffer = Some [1, 2, 3], msg_length = 3,
     msg_tolist = map_option (\<lambda>ids. \<lparr>sl_count = 2, sl_size = 2, sl_entries = Some ids\<rparr>) ids\<rparr>"

lemma demo_sid_key: "key (demo_sid 0) = (0, 0)" "key (demo_sid 1) = (1, 0)" "SID_INDEX (demo_sid 0) = 0" "SID_INDEX (demo_sid 1) = 0"
  by (simp_all add: demo_sid_def key_def MAKE_SID_def SID_SEQ_def SID_VERSION_def SID_INDEX_def sid_masks)

lemmas demo_sid_facts = demo_sid_key demo_sid_key [unfolded One_nat_def]

lemma demo_table:
  "length (sm_table demo_manager) = 2" "i < 2 \<Longrightarrow> sm_table demo_manager ! i = demo_slot i"
  by (auto simp: demo_manager_def less_2_cases_iff)

lemma demo_slots [simp]: "sl_is_active (demo_slot p)" "sl_version (demo_slot p) = 0" "sl_union (demo_slot p) = Session (Some p)"
  by (simp_all add: demo_slot_def)

lemma demo_manager_ok: "smgr_ok demo_manager"
proof -
  have "set [] = {i. i < length (sm_table demo_manager) \<and> \<not> sl_is_active (sm_table demo_manager ! i)}"
    by (auto simp: demo_table)
  then have "\<exists>fl. free_chain (sm_table demo_manager) (sm_free_head demo_manager) fl \<and> distinct fl \<and>
      set fl = {i. i < length (sm_table demo_manager) \<and> \<not> sl_is_active (sm_table demo_manager ! i)}"
    by (intro exI [of _ "[]"]) (simp add: demo_manager_def)
  moreover have "session_slot_ok demo_manager i" if "i < 2" for i
    using that demo_table(2) by (simp add: session_slot_ok_def) (simp add: demo_manager_def demo_sid_def)
  moreover have "filter sl_is_active (sm_table demo_manager) = sm_table demo_manager" by (simp add: demo_manager_def)
  ultimately show ?thesis
    unfolding smgr_ok_def using demo_table by (auto simp: demo_manager_def MAX_SLOT_CAPACITY_def)
qed

lemma demo_handles: "handles demo_manager k = (if k = (0, 0) then Some 0 else if k = (1, 0) then Some 1 else None)"
  by (cases k) (auto simp: handles_def demo_table less_2_cases_iff)

lemma demo_thread_simps [simp]:
  "lt_manager (demo_thread m tr) = demo_manager" "lt_next (demo_thread m tr) = 3" "lt_acts (demo_thread m tr) = []"
  "lt_msgs (demo_thread m tr) = (\<lambda>a. if a = 2 then m else None)"
  by (simp_all add: demo_thread_def)

lemma demo_sessions:
  "lt_sessions (demo_thread m tr) p = Some e \<longleftrightarrow> p = 0 \<and> e = idle_entity 0 None \<or> p = 1 \<and> e = idle_entity 1 tr"
  by (auto simp: demo_thread_def)

lemma idle_queue: "ring_list (ss_sendqueue (e_session (idle_entity p tr))) = []"
  by (simp add: idle_entity_def ring_list_def QUEUE_COUNT_def)

lemma demo_entries: "entries (demo_thread m tr) a = 0"
  unfolding entries_def by (rule sum.neutral) (auto simp: queue_of_def demo_thread_def idle_queue)

lemma idle_inv: "sess_inv (focus (idle_entity p tr) S)"
proof -
  have "ring_ok (ss_sendqueue (e_session (idle_entity p tr)))"
    by (auto simp: idle_entity_def ring_ok_def QUEUE_COUNT_def intro: exI [of _ 1])
  then have "queue_ok (focus (idle_entity p tr) S)"
    by (simp add: queue_ok_def idle_queue msgs_ok_def offset_ok_def) (simp add: idle_entity_def)
  moreover have "regs_ok (focus (idle_entity p tr) S)"
    by (simp add: regs_ok_def regs_known_def regs_agree_def has_status_def idle_entity_def)
  moreover have "buffer_ok (ss_inbuffer (e_session (idle_entity p tr)))" by (simp add: idle_entity_def buffer_init_def buffer_ok_def)
  ultimately show ?thesis
    by (simp add: sess_inv_def live_ok_def busy_ok_def idle_queue) (simp add: idle_entity_def)
qed

lemma idle_pending: "pending (focus (idle_entity p tr) S) = []"
  by (simp add: pending_def idle_queue)

lemma demo_thread_inv:
  assumes "case m of None \<Rightarrow> d 2 = 0 | Some m \<Rightarrow> owed m = d 2 \<and> (2 \<in> X \<or> 0 < owed m)" "\<forall>a. 0 \<le> d a" "\<forall>a. a \<noteq> 2 \<longrightarrow> d a = 0"
  shows "thread_inv X d (demo_thread m tr)"
  unfolding thread_inv_def
proof (intro conjI)
  show "smgr_ok (lt_manager (demo_thread m tr))" by (simp add: demo_manager_ok)
  show "\<forall>p e. lt_sessions (demo_thread m tr) p = Some e \<longrightarrow> session_listed (demo_thread m tr) p e"
    by (auto simp: demo_sessions session_listed_def idle_inv demo_handles)
      (simp_all add: idle_entity_def demo_manager_def demo_sid_facts)
  show "\<forall>k p. handles (lt_manager (demo_thread m tr)) k = Some p \<longrightarrow> lt_sessions (demo_thread m tr) p \<noteq> None"
    by (auto simp: demo_handles demo_thread_def)
  show "bounded (lt_next (demo_thread m tr)) (lt_msgs (demo_thread m tr))" by (simp add: bounded_def)
  show "\<forall>a. 0 \<le> d a \<and> owes (lt_msgs (demo_thread m tr)) a = entries (demo_thread m tr) a + d a"
    using assms by (auto simp: demo_entries owes_def split: option.splits)
  show "\<forall>a m'. lt_msgs (demo_thread m tr) a = Some m' \<and> a \<notin> X \<longrightarrow> 0 < owed m'"
    using assms(1) by (auto split: if_splits)
qed

lemma demo_thread_ok: "thread_ok (demo_thread None tr)"
  by (rule demo_thread_inv) simp_all

lemma cast_message_ok:
  "sendable (cast_message (Some [s, s']))" "receivers (cast_message (Some [s, s'])) = [s, s']"
  "outcomes (cast_message ids) = 0" "sendable (cast_message None)" "receivers (cast_message None) = []"
  by (simp_all add: cast_message_def sendable_def message_ok_def sidlist_ok_def receivers_def sids_def outcomes_def)

lemma cast_task:
  assumes "sendable (cast_message ids)"
  shows "task_message 2 (cast_message ids) (demo_thread (Some (cast_message ids)) tr)"
proof -
  have "owed (cast_message ids) = in_hand 2 (length (receivers (cast_message ids))) 2" by (simp add: owed_def cast_message_ok)
  then have "thread_inv {2} (in_hand 2 (length (receivers (cast_message ids)))) (demo_thread (Some (cast_message ids)) tr)"
    by (intro demo_thread_inv) (simp_all add: in_hand_def)
  moreover have "lt_msgs (demo_thread (Some (cast_message ids)) tr) 2 = Some (cast_message ids)" by (simp add: demo_thread_def)
  ultimately show ?thesis using assms by (simp add: task_message_def cast_message_ok)
qed

lemma demo_bytes: "bytes_of (lt_msgs (demo_thread (Some (cast_message ids)) tr)) 2 = [1, 2, 3]"
  by (simp add: bytes_of_def cast_message_def)

lemma demo_stream [simp]: "session_stream (demo_thread m tr) p = []"
  by (auto simp: session_stream_def demo_sessions idle_pending split: option.split) (auto simp: idle_entity_def demo_thread_def)

lemma demo_room: "n < 2 ^ 31 \<Longrightarrow> transform_ok tr \<Longrightarrow> sessions_room n (demo_thread m tr)"
  by (auto simp: sessions_room_def demo_sessions idle_queue) (auto simp: idle_entity_def demo_env_def transform_ok_def)

lemma demo_ready: "transform_ok tr \<Longrightarrow> sessions_ready (demo_thread m tr)"
  by (auto simp: sessions_ready_def demo_sessions idle_queue) (auto simp: idle_entity_def demo_env_def transform_ok_def)

lemma demo_open: "session_open (demo_thread m tr) 0" "session_open (demo_thread m tr) 1"
  by (auto simp: session_open_def demo_sessions has_status_def) (auto simp: idle_entity_def)

lemma demo_service: "sv_transform (service_of (demo_thread m tr) 0) = None" "sv_transform (service_of (demo_thread m tr) 1) = tr"
  by (simp_all add: service_of_def demo_thread_def idle_entity_def)

lemma demo_memory: "memory_ok demo_env"
  using demo_env_ok by (simp add: env_ok_def)

lemma demo_routed: "routed (demo_thread m tr) 0 (demo_sid 0) = Some 0" "routed (demo_thread m tr) 0 (demo_sid 1) = Some 1"
  by (simp_all add: routed_def demo_thread_def demo_handles demo_sid_facts)

section \<open>The properties at this thread\<close>

definition demo_send :: task_send where
  "demo_send = \<lparr>ts_id = demo_sid 1, ts_buf = 77, ts_bytes = [9, 8], ts_isfree = True\<rparr>"

theorem send_direct_delivers_witness:
  "\<exists>rc S'. send_direct demo_env demo_layer demo_send (demo_thread None None) = Some (rc, S') \<and> thread_ok S' \<and>
    frees S' = [Free_buffer 77] \<and> session_stream S' 1 = [9, 8] \<and> session_stream S' 0 = []"
proof -
  have t: "transform_ok None" "transform_ok (il_transform demo_layer)" by (simp_all add: transform_ok_def demo_layer_def)
  have len: "length (ts_bytes demo_send) < 2 ^ 64" by (simp add: demo_send_def)
  have h: "handles (lt_manager (demo_thread None None)) (key (ts_id demo_send)) = Some 1"
    by (simp add: demo_handles demo_send_def demo_sid_facts)
  have d: "delivered demo_layer (demo_thread None None) 1 (ts_bytes demo_send) = Some [9, 8]"
    using demo_service(2) [of None None] by (simp add: delivered_def transformed_by_def demo_layer_def demo_send_def)
  obtain rc S' where S': "send_direct demo_env demo_layer demo_send (demo_thread None None) = Some (rc, S')" "thread_ok S'"
    "frees S' = frees (demo_thread None None) @ (if ts_isfree demo_send then [Free_buffer (ts_buf demo_send)] else [])"
    and st: "\<And>q. session_stream S' q = session_stream (demo_thread None None) q @
      (if handles (lt_manager (demo_thread None None)) (key (ts_id demo_send)) = Some q \<and> session_open (demo_thread None None) q
       then (case delivered demo_layer (demo_thread None None) q (ts_bytes demo_send) of Some d \<Rightarrow> d | None \<Rightarrow> []) else [])"
    using send_direct_delivers [OF demo_thread_ok demo_memory demo_ready [OF t(1)] len t(2)] by blast
  have "frees S' = [Free_buffer 77]" using S'(3) by (simp add: frees_def demo_send_def)
  moreover have "session_stream S' 1 = [9, 8]" using st [of 1] d h demo_open(2) [of None None] by simp
  moreover have "session_stream S' 0 = []" using st [of 0] h by simp
  ultimately show ?thesis using S'(1,2) by blast
qed

definition cast_thread :: "sid list option \<Rightarrow> (byte list \<Rightarrow> transformed) option \<Rightarrow> io_thread" where
  "cast_thread ids tr = demo_thread (Some (cast_message ids)) tr"

definition both :: "sid list" where
  "both = [demo_sid 0, demo_sid 1]"

lemma cast_facts:
  "task_message 2 (cast_message (Some both)) (cast_thread (Some both) tr)" "receivers (cast_message (Some both)) = both"
  "task_message 2 (cast_message None) (cast_thread None tr)"
  "bytes_of (lt_msgs (cast_thread ids tr)) 2 = [1, 2, 3]" "layer_bytes demo_layer bs = Some bs" "transform_ok (il_transform demo_layer)"
  "session_stream (cast_thread ids tr) q = []"
  "routed (cast_thread ids tr) 0 (demo_sid 0) = Some 0" "routed (cast_thread ids tr) 0 (demo_sid 1) = Some 1"
  "sv_transform (service_of (cast_thread ids tr) 0) = None" "sv_transform (service_of (cast_thread ids tr) 1) = tr"
  by (simp_all add: cast_thread_def both_def cast_task cast_message_ok demo_bytes layer_bytes_def demo_layer_def transform_ok_def
      demo_routed [unfolded One_nat_def] demo_service [unfolded One_nat_def] demo_bytes [simplified])

lemma cast_takes: "session_takes (cast_thread ids None) bs p" "taken_bytes (cast_thread ids None) bs p = bs"
proof -
  have "sv_transform (service_of (cast_thread ids None) p) = None"
    by (simp add: cast_thread_def service_of_def demo_thread_def idle_entity_def no_service_def)
  then show "session_takes (cast_thread ids None) bs p" "taken_bytes (cast_thread ids None) bs p = bs"
    by (simp_all add: session_takes_def takes_message_def taken_bytes_def message_for_def)
qed

lemma cast_room: "n < 2 ^ 31 \<Longrightarrow> transform_ok tr \<Longrightarrow> sessions_room n (cast_thread ids tr)"
  by (simp add: cast_thread_def demo_room)

theorem broadcast_direct_delivers_witness:
  "\<exists>S'. broadcast_direct demo_env demo_layer 0 2 (cast_thread (Some both) None) = Some (2, S') \<and> thread_ok S' \<and>
    session_stream S' 0 = [1, 2, 3] \<and> session_stream S' 1 = [1, 2, 3]"
proof -
  let ?S = "cast_thread (Some both) None"
  have r: "\<forall>sd \<in> set (receivers (cast_message (Some both))). \<forall>p. routed ?S 0 sd = Some p \<longrightarrow> session_takes ?S [1, 2, 3] p"
    by (simp add: cast_takes)
  have lb: "layer_bytes demo_layer (bytes_of (lt_msgs ?S) 2) = Some [1, 2, 3]" by (simp add: cast_facts)
  have room: "sessions_room (length (receivers (cast_message (Some both)))) ?S"
    by (rule cast_room) (simp_all add: cast_facts(2), simp_all add: both_def transform_ok_def)
  have l: "msg_tolist (cast_message (Some both)) = Some \<lparr>sl_count = 2, sl_size = 2, sl_entries = Some both\<rparr>"
    by (simp add: cast_message_def)
  have f: "filter (\<lambda>sd. routed ?S 0 sd \<noteq> None) both = both" "filter (\<lambda>sd. routed ?S 0 sd = Some 0) both = [demo_sid 0]"
    "filter (\<lambda>sd. routed ?S 0 sd = Some 1) both = [demo_sid 1]"
    by (simp_all add: both_def cast_facts cast_facts [unfolded One_nat_def])
  obtain S' where S': "broadcast_direct demo_env demo_layer 0 2 ?S = Some (int (length both), S')" "thread_ok S'"
    and st: "\<And>q. session_stream S' q = session_stream ?S q @
      concat (map (\<lambda>_. [1, 2, 3]) (filter (\<lambda>sd. routed ?S 0 sd = Some q) both))"
    using broadcast_direct_delivers [OF cast_facts(1) l demo_memory room cast_facts(6) lb r] unfolding cast_facts(2) f(1) cast_takes(2)
    by blast
  have "session_stream S' 0 = [1, 2, 3]" "session_stream S' 1 = [1, 2, 3]" unfolding st f by (simp_all add: cast_facts)
  then show ?thesis using S' by (simp add: both_def)
qed

theorem broadcast_refused_dangles_witness:
  "\<exists>S' e. broadcast_direct demo_env demo_layer 0 2 (cast_thread (Some both) (Some (\<lambda>_. Gone))) = Some (1, S') \<and>
    lt_msgs S' 2 = None \<and> queue_of S' 0 = [2] \<and> lt_sessions S' 0 = Some e \<and> channel_transmit (focus e S') = None"
proof -
  let ?S = "cast_thread (Some both) (Some (\<lambda>_. Gone))"
  have "receivers (cast_message (Some both)) = [demo_sid 0, demo_sid 1]"
    using cast_facts(2) by (simp only: both_def)
  moreover have "sessions_room 2 ?S" by (rule cast_room) (simp_all add: transform_ok_def)
  moreover have "msg_tolist (cast_message (Some both)) = Some \<lparr>sl_count = 2, sl_size = 2, sl_entries = Some both\<rparr>"
    by (simp add: cast_message_def)
  moreover have "queue_of ?S 0 = []" by (simp add: queue_of_def cast_thread_def demo_thread_def idle_queue)
  ultimately show ?thesis
    using broadcast_refused_dangles [OF cast_facts(1), where s = "demo_sid 0" and s' = "demo_sid 1" and p = 0 and q = 1 and f = "\<lambda>_. Gone"
        and E = demo_env and layer = demo_layer and index = 0]
    by (simp add: demo_memory cast_facts cast_facts [unfolded One_nat_def] demo_layer_def)
qed

theorem broadcast2_direct_delivers_witness:
  "\<exists>S'. broadcast2_direct demo_env demo_layer 2 (cast_thread None None) = Some (2, S') \<and> thread_ok S' \<and>
    session_stream S' 0 = [1, 2, 3] \<and> session_stream S' 1 = [1, 2, 3]"
proof -
  let ?S = "cast_thread None None"
  have lb: "layer_bytes demo_layer (bytes_of (lt_msgs ?S) 2) = Some [1, 2, 3]" by (simp add: cast_facts)
  have room: "sessions_room (unat (sm_count (lt_manager ?S))) ?S"
    by (rule cast_room) (simp_all add: cast_thread_def demo_manager_def transform_ok_def)
  have r: "receivers (cast_message None) = []" by (simp add: cast_message_ok)
  have g: "given ?S [1, 2, 3] q = [1, 2, 3]" for q by (simp add: given_def cast_takes)
  obtain S' where S': "broadcast2_direct demo_env demo_layer 2 ?S = Some (uint (sm_count (lt_manager ?S)), S')" "thread_ok S'"
    and st: "\<And>q. session_stream S' q = session_stream ?S q @ (if lt_sessions ?S q = None then [] else [1, 2, 3])"
    using broadcast2_direct_delivers [OF cast_facts(3) r demo_memory room cast_facts(6) lb] unfolding g by blast
  have "session_stream S' 0 = [1, 2, 3]" "session_stream S' 1 = [1, 2, 3]"
    unfolding st by (simp_all add: cast_facts) (simp_all add: cast_thread_def demo_thread_def)
  then show ?thesis using S' by (simp add: cast_thread_def demo_manager_def)
qed

text \<open>The callbacks of the example do nothing.\<close>

lemma demo_services: "services_ok demo_env (demo_thread m None)"
proof -
  have "callback_ok (\<lambda>w. w)" by (simp add: callback_ok_def)
  moreover have "callback_accounted (\<lambda>w. w)" by (simp add: callback_accounted_def accounted_refl)
  ultimately have "env_accounted (demo_env\<lparr>en_service := (en_service demo_env)\<lparr>sv_transform := None\<rparr>\<rparr>)"
    using demo_env_ok by (simp add: env_accounted_def env_ok_def memory_ok_def quiet_def) (simp add: demo_env_def)
  then show ?thesis by (auto simp: services_ok_def demo_sessions) (simp_all add: idle_entity_def)
qed

lemma demo_draining: "\<not> draining (demo_thread m tr) p"
  by (auto simp: draining_def queue_of_def demo_thread_def idle_queue)

theorem shutdown_direct_ends_witness:
  "\<exists>rc S'. shutdown_direct demo_env (demo_sid 1) (demo_thread None None) = Some (rc, S') \<and> thread_ok S' \<and>
    lt_sessions S' 1 = None \<and> lt_sessions S' 0 = Some (idle_entity 0 None)"
proof -
  let ?S = "demo_thread None None"
  have h: "handles (lt_manager ?S) (key (demo_sid 1)) = Some 1" by (simp add: demo_handles demo_sid_facts)
  obtain rc S' where S': "shutdown_direct demo_env (demo_sid 1) ?S = Some (rc, S')" "thread_ok S'" "shut_down ?S S' 1"
    "\<forall>q. q \<noteq> 1 \<longrightarrow> untouched ?S S' q"
    using shutdown_direct_ends [OF demo_thread_ok demo_services, of "demo_sid 1"] unfolding h option.case by blast
  have "lt_sessions S' 1 = None" using S'(3) demo_draining by (simp add: shut_down_def)
  moreover have "lt_sessions S' 0 = Some (idle_entity 0 None)" using S'(4) by (simp add: untouched_def demo_thread_def)
  ultimately show ?thesis using S'(1,2) by blast
qed

theorem shutdowns_direct_end_witness:
  "\<exists>c S'. shutdowns_direct demo_env 0 \<lparr>sl_count = 2, sl_size = 2, sl_entries = Some [demo_sid 1, demo_sid 1]\<rparr> (demo_thread None None) =
      Some (c, log_layer Sidlist_destroy S') \<and>
    thread_ok S' \<and> lt_sessions S' 1 = None \<and> lt_sessions S' 0 = Some (idle_entity 0 None)"
proof -
  let ?S = "demo_thread None None" and ?l = "\<lparr>sl_count = 2, sl_size = 2, sl_entries = Some [demo_sid 1, demo_sid 1]\<rparr>"
  have ok: "sidlist_ok ?l" and ids: "sids ?l = [demo_sid 1, demo_sid 1]" by (simp_all add: sidlist_ok_def sids_def)
  obtain c S' where S': "shutdowns_direct demo_env 0 ?l ?S = Some (c, log_layer Sidlist_destroy S')" "thread_ok S'"
    "\<forall>q. shut_down_times ?S S' q (length (filter (\<lambda>sd. routed ?S 0 sd = Some q) [demo_sid 1, demo_sid 1]))"
    using shutdowns_direct_end [OF demo_thread_ok demo_services ok, of 0] unfolding ids by blast
  have "lt_sessions S' 1 = None" using S'(3) [THEN spec, of 1] demo_routed(2) [of None None] by (simp add: shut_down_times_def)
  moreover have "lt_sessions S' 0 = Some (idle_entity 0 None)"
    using S'(3) [THEN spec, of 0] demo_routed(2) [of None None] by (simp add: shut_down_times_def untouched_def) (simp add: demo_thread_def)
  ultimately show ?thesis using S'(1,2) by blast
qed

definition demo_task :: task_perform where
  "demo_task = \<lparr>tp_id = demo_sid 1, tp_type = 4, tp_task = 99, tp_interval = 0\<rparr>"

theorem perform_direct_recycles_witness:
  "\<exists>rc S'. perform_direct demo_env demo_task (demo_thread None None) = Some (rc, S') \<and> thread_ok S' \<and>
    recycles S' = [Recycle_task 4 99 0]"
  using perform_direct_recycles [OF demo_thread_ok demo_services, of demo_task] by (auto simp: demo_task_def recycles_def)

end
