(* ===== verification/Sockets.thy ===== *)
theory Sockets
  imports Prelude
begin

unbundle bit_operations_syntax

text \<open>
  The socket helpers of \<^verbatim>\<open>src/utils.c\<close> and the options the network layer sets on its sockets
  (\<^verbatim>\<open>src/network.c\<close>).  What the kernel and the resolver answer are arguments; the state is the list
  of descriptors that are open.
\<close>

section \<open>Attempts\<close>

text \<open>
  One address of the resolver and what the calls on it return: the descriptor or a negative number,
  the result of setting the options, whether binding and listening succeeded, and how connecting ended.
\<close>

datatype connect_result = Connected | Interrupted | In_progress | Refused

record attempt =
  at_socket :: int
  at_options :: int
  at_bind :: bool
  at_listen :: bool
  at_connect :: connect_result

definition try_listen :: "attempt \<Rightarrow> int list \<Rightarrow> int option \<times> int list" where
  "try_listen p ds =
     (let fd = at_socket p in
      if fd < 0 then (None, ds)
      else let ds = fd # ds
           in if at_options p \<noteq> 0 then (None, remove1 fd ds)
              else if \<not> at_bind p then (None, remove1 fd ds)
              else if \<not> at_listen p then (None, remove1 fd ds)
              else (Some fd, ds))"

definition try_connect :: "attempt \<Rightarrow> int list \<Rightarrow> int option \<times> int list" where
  "try_connect p ds =
     (let fd = at_socket p in
      if fd < 0 then (None, ds)
      else let ds = fd # ds
           in if at_options p \<noteq> 0 then (None, remove1 fd ds)
              else if at_connect p = Refused then (None, remove1 fd ds)
              else (Some fd, ds))"

definition try_bind :: "attempt \<Rightarrow> int list \<Rightarrow> int option \<times> int list" where
  "try_bind p ds =
     (let fd = at_socket p in
      if fd < 0 then (None, ds)
      else let ds = fd # ds
           in if at_options p \<noteq> 0 then (None, remove1 fd ds)
              else if \<not> at_bind p then (None, remove1 fd ds)
              else (Some fd, ds))"

fun address_loop :: "(attempt \<Rightarrow> int list \<Rightarrow> int option \<times> int list) \<Rightarrow> attempt list \<Rightarrow> int list \<Rightarrow> int option \<times> int list" where
  "address_loop try [] ds = (None, ds)"
| "address_loop try (p # ps) ds =
     (case try p ds of
        (Some fd, ds) \<Rightarrow> (Some fd, ds)
      | (None, ds) \<Rightarrow> address_loop try ps ds)"

section \<open>Local sockets\<close>

definition unix_connect :: "attempt \<Rightarrow> int list \<Rightarrow> int \<times> int list" where
  "unix_connect p ds =
     (let fd = at_socket p in
      if fd < 0 then (- 4, ds)
      else let ds = fd # ds
           in if at_options p \<noteq> 0 then (- 5, remove1 fd ds)
              else if at_connect p \<noteq> Connected then (- 6, remove1 fd ds)
              else (fd, ds))"

text \<open>\<open>gone\<close>: the old file could be removed or was not there.\<close>

definition unix_listen :: "bool \<Rightarrow> attempt \<Rightarrow> int list \<Rightarrow> int \<times> int list" where
  "unix_listen gone p ds =
     (if \<not> gone then (- 3, ds)
      else let fd = at_socket p in
           if fd < 0 then (- 4, ds)
           else let ds = fd # ds
                in if at_options p \<noteq> 0 then (- 5, remove1 fd ds)
                   else if \<not> at_bind p then (- 6, remove1 fd ds)
                   else if \<not> at_listen p then (- 7, remove1 fd ds)
                   else (fd, ds))"

section \<open>Resolved addresses\<close>

text \<open>\<open>res\<close> is the list of the resolver, \<open>None\<close> if it failed; \<open>ux\<close> is for the local socket tried for port 0.\<close>

definition tcp_listen :: "u16 \<Rightarrow> attempt list option \<Rightarrow> bool \<Rightarrow> attempt \<Rightarrow> int list \<Rightarrow> int \<times> int list" where
  "tcp_listen port res gone ux ds =
     (case res of
        None \<Rightarrow> if port = 0 then unix_listen gone ux ds else (- 1, ds)
      | Some ps \<Rightarrow>
          (case address_loop try_listen ps ds of
             (Some fd, ds) \<Rightarrow> (fd, ds)
           | (None, ds) \<Rightarrow> if port = 0 then unix_listen gone ux ds else (- 2, ds)))"

definition tcp_connect :: "u16 \<Rightarrow> attempt list option \<Rightarrow> attempt \<Rightarrow> int list \<Rightarrow> int \<times> int list" where
  "tcp_connect port res ux ds =
     (if port = 0 then unix_connect ux ds
      else case res of
        None \<Rightarrow> (- 1, ds)
      | Some ps \<Rightarrow>
          (case address_loop try_connect ps ds of
             (Some fd, ds) \<Rightarrow> (fd, ds)
           | (None, ds) \<Rightarrow> (- 2, ds)))"

definition udp_bind :: "attempt list option \<Rightarrow> int list \<Rightarrow> int \<times> int list" where
  "udp_bind res ds =
     (case res of
        None \<Rightarrow> (- 1, ds)
      | Some ps \<Rightarrow>
          (case address_loop try_bind ps ds of
             (Some fd, ds) \<Rightarrow> (fd, ds)
           | (None, ds) \<Rightarrow> (- 2, ds)))"

text \<open>The result of setting the options is not looked at; descriptor 0 is open but refused.\<close>

definition udp_connect :: "attempt \<Rightarrow> int list \<Rightarrow> int \<times> int list" where
  "udp_connect p ds =
     (let fd = at_socket p; ds = (if fd < 0 then ds else fd # ds)
      in if fd \<le> 0 then (- 1, ds)
         else if \<not> at_bind p then (- 2, remove1 fd ds)
         else if at_connect p = Refused then (- 3, remove1 fd ds)
         else (fd, ds))"

section \<open>Options\<close>

datatype socket_option = Non_block | Cloexec | Reuse_addr | Reuse_port | No_delay | Send_buffer int | Receive_buffer int

text \<open>\<open>reuseport\<close>: the build accepts connections on every thread.\<close>

definition iolayer_server_option :: "bool \<Rightarrow> int \<times> socket_option list" where
  "iolayer_server_option reuseport = (0, [Non_block, Reuse_addr, No_delay] @ (if reuseport then [Reuse_port] else []))"

definition iolayer_client_option :: "int \<times> socket_option list" where
  "iolayer_client_option = (0, [Non_block, No_delay])"

definition SEND_BUFFER_SIZE :: int where "SEND_BUFFER_SIZE = 4194304"
definition RECV_BUFFER_SIZE :: int where "RECV_BUFFER_SIZE = 4194304"

definition iolayer_udp_option :: "int \<times> socket_option list" where
  "iolayer_udp_option =
     (0, [Cloexec, Non_block, Reuse_addr, Reuse_port, Send_buffer SEND_BUFFER_SIZE, Receive_buffer RECV_BUFFER_SIZE])"

section \<open>Peer addresses\<close>

definition swap16 :: "u16 \<Rightarrow> u16" where
  "swap16 p = push_bit 8 p OR drop_bit 8 p"

text \<open>
  A socket address with its port in network order; \<open>ntop\<close> and \<open>pton\<close> are the conversions of the C
  library between an address and its text.
\<close>

datatype 'a sockaddr = Inet (sa_addr: 'a) (sa_port: u16) | Inet6 (sa_addr: 'a) (sa_port: u16) | Local | Other

datatype family = AF_INET | AF_INET6 | AF_UNIX | AF_OTHER

definition convert_endpoint :: "(family \<Rightarrow> string \<Rightarrow> 'a) \<Rightarrow> family \<Rightarrow> string \<Rightarrow> u16 \<Rightarrow> 'a sockaddr \<Rightarrow> 'a sockaddr" where
  "convert_endpoint pton type host port addr =
     (case type of
        AF_INET \<Rightarrow> Inet (pton AF_INET host) (swap16 port)
      | AF_INET6 \<Rightarrow> Inet6 (pton AF_INET6 host) (swap16 port)
      | _ \<Rightarrow> addr)"

text \<open>The host and port after the call, from those before it.\<close>

definition parse_endpoint :: "(family \<Rightarrow> 'a \<Rightarrow> string) \<Rightarrow> 'a sockaddr \<Rightarrow> string \<Rightarrow> u16 \<Rightarrow> string \<times> u16" where
  "parse_endpoint ntop addr host port =
     (case addr of
        Inet a p \<Rightarrow> (ntop AF_INET a, swap16 p)
      | Inet6 a p \<Rightarrow> (ntop AF_INET6 a, swap16 p)
      | Local \<Rightarrow> (host, 0)
      | Other \<Rightarrow> (host, port))"

definition tcp_accept :: "(family \<Rightarrow> 'a \<Rightarrow> string) \<Rightarrow> int \<Rightarrow> 'a sockaddr \<Rightarrow> int list \<Rightarrow> int \<times> string \<times> u16 \<times> int list" where
  "tcp_accept ntop cfd peer ds =
     (if cfd \<noteq> - 1
      then (let (host, port) = parse_endpoint ntop peer [] 0 in (cfd, host, port, cfd # ds))
      else (cfd, [], 0, ds))"

text \<open>The pending error of a socket, -1 if the kernel does not tell; and the option for IPv6 only.\<close>

definition is_connected :: "int option \<Rightarrow> int" where
  "is_connected pending = (case pending of Some v \<Rightarrow> v | None \<Rightarrow> - 1)"

definition is_ipv6only :: "bool \<Rightarrow> int" where
  "is_ipv6only answer = (if \<not> answer then - 1 else 0)"

section \<open>No descriptor is lost\<close>

definition one_or_none :: "int list \<Rightarrow> int option \<times> int list \<Rightarrow> bool" where
  "one_or_none ds r \<longleftrightarrow> (case r of (None, ds') \<Rightarrow> ds' = ds | (Some fd, ds') \<Rightarrow> 0 \<le> fd \<and> ds' = fd # ds)"

lemma try_once:
  "one_or_none ds (try_listen p ds)" "one_or_none ds (try_connect p ds)" "one_or_none ds (try_bind p ds)"
  by (simp_all add: one_or_none_def try_listen_def try_connect_def try_bind_def Let_def)

lemma address_loop_once:
  assumes "\<And>p ds. one_or_none ds (try p ds)"
  shows "one_or_none ds (address_loop try ps ds)"
proof (induction ps)
  case Nil
  then show ?case by (simp add: one_or_none_def)
next
  case (Cons p ps)
  then show ?case
    using assms [of ds p] by (cases "try p ds"; cases "fst (try p ds)") (auto simp: one_or_none_def)
qed

text \<open>A result is the one descriptor that has been opened, or negative and nothing has been.\<close>

definition opens :: "int list \<Rightarrow> int \<times> int list \<Rightarrow> bool" where
  "opens ds r \<longleftrightarrow> (case r of (fd, ds') \<Rightarrow> if fd < 0 then ds' = ds else ds' = fd # ds)"

lemma local_opens: "opens ds (unix_listen gone p ds)" "opens ds (unix_connect p ds)"
  by (simp_all add: opens_def unix_listen_def unix_connect_def Let_def)

text \<open>
  C36: Descriptors of new sockets.  Listening, connecting and binding try the addresses in turn and
  close every socket they give up: afterwards exactly the returned descriptor has been opened, or
  none if the result is negative, whatever the resolver and the kernel answer; with one exception, which is a defect
  of the code: \<open>udp_connect\<close> takes descriptor 0 for a failure and loses it open.
\<close>
theorem sockets_not_lost:
  "opens ds (tcp_listen port res gone ux ds) \<and> opens ds (tcp_connect port res ux ds) \<and> opens ds (udp_bind res ds) \<and>
   opens ds (unix_listen gone ux ds) \<and> opens ds (unix_connect ux ds) \<and>
   (if at_socket ux = 0 then udp_connect ux ds = (- 1, 0 # ds) else opens ds (udp_connect ux ds))"
proof -
  have l: "opens ds (case address_loop try_listen ps ds of (Some fd, ds) \<Rightarrow> (fd, ds)
      | (None, ds) \<Rightarrow> if port = 0 then unix_listen gone ux ds else (- 2, ds))" for ps
    using address_loop_once [of try_listen ds ps, OF try_once(1)] local_opens(1) [of ds gone ux]
    by (auto simp: one_or_none_def opens_def split: prod.splits option.splits)
  have c: "opens ds (case address_loop try_connect ps ds of (Some fd, ds) \<Rightarrow> (fd, ds) | (None, ds) \<Rightarrow> (- 2, ds))" for ps
    using address_loop_once [of try_connect ds ps, OF try_once(2)] by (auto simp: one_or_none_def opens_def split: prod.splits option.splits)
  have b: "opens ds (case address_loop try_bind ps ds of (Some fd, ds) \<Rightarrow> (fd, ds) | (None, ds) \<Rightarrow> (- 2, ds))" for ps
    using address_loop_once [of try_bind ds ps, OF try_once(3)] by (auto simp: one_or_none_def opens_def split: prod.splits option.splits)
  have "opens ds (tcp_listen port res gone ux ds)"
    using l local_opens(1) [of ds gone ux] by (cases res) (auto simp: tcp_listen_def opens_def)
  moreover have "opens ds (tcp_connect port res ux ds)"
    using c local_opens(2) [of ds ux] by (cases res) (auto simp: tcp_connect_def opens_def)
  moreover have "opens ds (udp_bind res ds)" using b by (cases res) (auto simp: udp_bind_def opens_def)
  moreover have "if at_socket ux = 0 then udp_connect ux ds = (- 1, 0 # ds) else opens ds (udp_connect ux ds)"
    by (simp add: udp_connect_def opens_def Let_def)
  ultimately show ?thesis using local_opens [of ds] by (intro conjI)
qed

lemma udp_connect_loses_zero: "at_socket p = 0 \<Longrightarrow> udp_connect p ds = (- 1, 0 # ds)"
  by (simp add: udp_connect_def)

lemma swap16_twice: "swap16 (swap16 p) = p"
  by (rule bit_word_eqI) (auto simp: swap16_def bit_or_iff bit_push_bit_iff bit_drop_bit_eq dest: bit_imp_le_length)

lemma endpoint_roundtrip:
  assumes "type = AF_INET \<or> type = AF_INET6" "ntop type (pton type host) = host"
  shows "parse_endpoint ntop (convert_endpoint pton type host port addr) host' port' = (host, port)"
  using assms by (auto simp: parse_endpoint_def convert_endpoint_def swap16_twice)

definition refused_attempt :: attempt where
  "refused_attempt = \<lparr>at_socket = 5, at_options = 0, at_bind = True, at_listen = False, at_connect = Refused\<rparr>"

theorem sockets_not_lost_witness: "opens [3] (udp_connect refused_attempt [3])"
  using sockets_not_lost [of "[3]" 80 None True refused_attempt] by (simp add: refused_attempt_def)

end
