(* ===== verification/Gate.thy ===== *)
theory Gate
  imports Layer Sockets
begin

text \<open>
  How sessions come to a thread: acceptors, connectors and associaters of \<^verbatim>\<open>src/network.c\<close> and their
  handlers in \<^verbatim>\<open>src/channel.c\<close>, for the build that accepts on every thread (\<^verbatim>\<open>EVENT_HAVE_REUSEPORT\<close>)
  and for TCP sockets.

  The objects live at addresses of the thread and are linked in its lists; the callbacks of the
  application and the answers of the kernel are arguments.
\<close>

section \<open>State\<close>

record transfer =
  tr_fd :: int
  tr_event :: bool
  tr_buffer :: buffer

record acceptor =
  ac_fd :: int
  ac_type :: u8
  ac_index :: u8
  ac_event :: bool
  ac_host :: "string option"
  ac_port :: u16
  ac_idlefd :: int
  ac_eptable :: bool
  ac_ntransfer :: int
  ac_transferlist :: "transfer list option"

record connector =
  cn_fd :: int
  cn_index :: u8
  cn_event :: bool
  cn_host :: "string option"
  cn_port :: u16
  cn_state :: u8

record associater =
  as_fd :: int
  as_index :: u8
  as_privdata :: u64
  as_event :: bool
  as_reattach :: u64
  as_state :: u8

datatype gate_event = Ev_accept nat | Ev_transfer nat nat | Ev_connect nat | Ev_associate nat
datatype gate_callback = On_accept | On_udpread | On_connected | On_associated | Reconnect_direct | Reassociate_direct

record gate_registration =
  gr_fd :: int
  gr_events :: u16
  gr_callback :: gate_callback
  gr_tv :: int

record gate =
  gt_thread :: io_thread
  gt_acceptors :: "nat \<Rightarrow> acceptor option"
  gt_connectors :: "nat \<Rightarrow> connector option"
  gt_associaters :: "nat \<Rightarrow> associater option"
  gt_acceptlist :: "nat list"
  gt_connectlist :: "nat list"
  gt_associatelist :: "nat list"
  gt_regs :: "gate_event \<Rightarrow> gate_registration option"
  gt_refuse :: "gate_event \<Rightarrow> bool"

text \<open>
  \<open>event_set\<close>, \<open>event_set_callback\<close>, \<open>evsets_add\<close>, as for the events of a session, where \<open>epoll_ctl\<close> may refuse
  to watch the descriptor and the timer is started all the same; and \<open>evsets_del\<close>.\<close>

definition gate_register :: "gate_event \<Rightarrow> int \<Rightarrow> u16 \<Rightarrow> gate_callback \<Rightarrow> int \<Rightarrow> gate \<Rightarrow> gate" where
  "gate_register e fd0 ev0 cb tv G =
     (let watched = (case gt_regs G e of None \<Rightarrow> False | Some r \<Rightarrow> armed (gr_fd r) (gr_events r) (- 1));
          (fd, ev) = (if gt_refuse G e \<and> \<not> watched then (- 1, ev0 AND NOT (EV_READ OR EV_WRITE)) else (fd0, ev0))
      in G\<lparr>gt_regs := (gt_regs G)(e := (case gt_regs G e of
     Some r \<Rightarrow> Some \<lparr>gr_fd = fd, gr_events = ev, gr_callback = cb, gr_tv = (if 0 \<le> tv then tv else gr_tv r)\<rparr>
   | None \<Rightarrow> if armed fd ev tv then Some \<lparr>gr_fd = fd, gr_events = ev, gr_callback = cb, gr_tv = tv\<rparr> else None))\<rparr>)"

definition gate_remove :: "gate_event \<Rightarrow> gate \<Rightarrow> gate" where
  "gate_remove e G = G\<lparr>gt_regs := (gt_regs G)(e := None)\<rparr>"

definition on_thread :: "(io_thread \<Rightarrow> io_thread) \<Rightarrow> gate \<Rightarrow> gate" where
  "on_thread f G = G\<lparr>gt_thread := f (gt_thread G)\<rparr>"

definition gate_log :: "layer_action list \<Rightarrow> gate \<Rightarrow> gate" where
  "gate_log as = on_thread (\<lambda>S. S\<lparr>lt_acts := lt_acts S @ as\<rparr>)"

text \<open>A descriptor is closed only if it is positive.\<close>

definition close_positive :: "int \<Rightarrow> layer_action list" where
  "close_positive fd = (if 0 < fd then [Close_fd fd] else [])"

definition free_host :: "string option \<Rightarrow> layer_action list" where
  "free_host h = (if h \<noteq> None then [Free_host] else [])"

text \<open>\<open>STAILQ_REMOVE\<close> runs off the list if the element is not in it.\<close>

definition stailq_remove :: "nat \<Rightarrow> nat list \<Rightarrow> nat list option" where
  "stailq_remove a xs = (if a \<in> set xs then Some (remove1 a xs) else None)"

section \<open>Release\<close>

definition free_transfer :: "nat \<Rightarrow> nat \<Rightarrow> transfer \<Rightarrow> gate \<Rightarrow> gate" where
  "free_transfer a i t G =
     gate_log (close_positive (tr_fd t)) (if tr_event t then gate_remove (Ev_transfer a i) G else G)"

fun free_transfers :: "nat \<Rightarrow> nat \<Rightarrow> transfer list \<Rightarrow> gate \<Rightarrow> gate" where
  "free_transfers a i [] G = G"
| "free_transfers a i (t # ts) G = free_transfers a (Suc i) ts (free_transfer a i t G)"

text \<open>The elements that a loop over the sockets of an acceptor touches.\<close>

definition acceptor_transfers :: "acceptor \<Rightarrow> transfer list option" where
  "acceptor_transfers x =
     (let n = nat (ac_ntransfer x)
      in case ac_transferlist x of
           None \<Rightarrow> if n = 0 then Some [] else None
         | Some ts \<Rightarrow> if n \<le> length ts then Some (take n ts) else None)"

definition iolayer_free_acceptor :: "nat \<Rightarrow> gate \<Rightarrow> gate option" where
  "iolayer_free_acceptor a G = do {
     x \<leftarrow> gt_acceptors G a;
     let G = (if ac_event x then gate_remove (Ev_accept a) G else G);
     let G = gate_log (free_host (ac_host x) @ close_positive (ac_fd x) @ close_positive (ac_idlefd x) @
       (if ac_eptable x then [Eptable_destroy] else [])) G;
     ts \<leftarrow> acceptor_transfers x;
     let G = free_transfers a 0 ts G;
     Some (G\<lparr>gt_acceptors := (gt_acceptors G)(a := None)\<rparr>)
   }"

definition iolayer_free_connector :: "nat \<Rightarrow> gate \<Rightarrow> gate option" where
  "iolayer_free_connector c G = do {
     x \<leftarrow> gt_connectors G c;
     let G = (if cn_event x then gate_remove (Ev_connect c) G else G);
     let G = gate_log (free_host (cn_host x) @ close_positive (cn_fd x)) G;
     G \<leftarrow> (if cn_state x = 1
           then map_option (\<lambda>xs. G\<lparr>gt_connectlist := xs\<rparr>) (stailq_remove c (gt_connectlist G)) else Some G);
     Some (G\<lparr>gt_connectors := (gt_connectors G)(c := None)\<rparr>)
   }"

text \<open>Its descriptor is not closed.\<close>

definition iolayer_free_associater :: "nat \<Rightarrow> gate \<Rightarrow> gate option" where
  "iolayer_free_associater a G = do {
     x \<leftarrow> gt_associaters G a;
     let G = (if as_event x then gate_remove (Ev_associate a) G else G);
     G \<leftarrow> (if as_state x = 1
           then map_option (\<lambda>xs. G\<lparr>gt_associatelist := xs\<rparr>) (stailq_remove a (gt_associatelist G)) else Some G);
     Some (G\<lparr>gt_associaters := (gt_associaters G)(a := None)\<rparr>)
   }"

section \<open>New sessions\<close>

text \<open>\<open>expand\<close>: memory for a larger table; the session object is a new block with no service yet.\<close>

definition new_entity :: "environment \<Rightarrow> io_result list \<Rightarrow> sid \<Rightarrow> entity" where
  "new_entity E io sd = \<lparr>e_session = (new_session (en_mem_queue E))\<lparr>ss_id := sd\<rparr>, e_out = [], e_io = io,
     e_regs = (\<lambda>_. None), e_refuse = en_refuse E, e_service = None\<rparr>"

definition iolayer_alloc_session ::
  "environment \<Rightarrow> bool \<Rightarrow> (nat \<Rightarrow> nat slot) \<Rightarrow> io_result list \<Rightarrow> io_thread \<Rightarrow> (nat option \<times> io_thread) option" where
  "iolayer_alloc_session E expand fresh io S = do {
     (r, m) \<leftarrow> session_manager_alloc False expand fresh (Some (lt_next S)) (lt_manager S);
     (case r of
        None \<Rightarrow> Some (None, S\<lparr>lt_manager := m\<rparr>)
      | Some p \<Rightarrow> Some (Some p, S\<lparr>lt_manager := m, lt_next := Suc (lt_next S),
          lt_sessions := (lt_sessions S)(p \<mapsto> new_entity E io (se_id m p))\<rparr>))
   }"

definition remove_session :: "nat \<Rightarrow> io_thread \<Rightarrow> io_thread option" where
  "remove_session p S = do {
     (_, m) \<leftarrow> session_manager_remove (lt_manager S) (Some p);
     Some (S\<lparr>lt_manager := m\<rparr>)
   }"

text \<open>The tail of \<open>_assign_direct\<close> and of the handlers below: endpoint, then start.\<close>

definition start_session ::
  "environment \<Rightarrow> nat \<Rightarrow> (session \<Rightarrow> session) \<Rightarrow> u8 \<Rightarrow> int \<Rightarrow> io_thread \<Rightarrow> io_thread option" where
  "start_session E p f type fd S =
     map_option snd (with_service E p (\<lambda>E w. Some (session_start E type fd (on_session f w))) S)"

section \<open>Accepting\<close>

text \<open>What an operation is given to make a session with: memory, contents of fresh blocks, the kernel.\<close>

record provision =
  su_expand :: bool
  su_fresh :: "nat \<Rightarrow> nat slot"
  su_io :: "io_result list"

record task_assign =
  ta_fd :: int
  ta_type :: u8
  ta_port :: u16
  ta_host :: "string option"
  ta_acceptor :: nat

definition free_task_assign :: "task_assign \<Rightarrow> layer_action list" where
  "free_task_assign task =
     (if 0 < ta_fd task \<and> ta_type task = NETWORK_TCP then [Close_fd (ta_fd task)] else []) @ free_host (ta_host task)"

definition log_acts :: "layer_action list \<Rightarrow> io_thread \<Rightarrow> io_thread" where
  "log_acts as S = S\<lparr>lt_acts := lt_acts S @ as\<rparr>"

type_synonym accept_callback = "sid \<Rightarrow> string option \<Rightarrow> u16 \<Rightarrow> io_thread \<Rightarrow> int \<times> io_thread"

text \<open>\<open>kcp\<close> is the branch for the sessions that share a UDP socket.\<close>

definition assign_direct ::
  "environment \<Rightarrow> provision \<Rightarrow> accept_callback \<Rightarrow> (nat \<Rightarrow> io_thread \<Rightarrow> (int \<times> io_thread) option) \<Rightarrow> task_assign
   \<Rightarrow> io_thread \<Rightarrow> (int \<times> io_thread) option" where
  "assign_direct E su cb kcp task S = do {
     (session, S) \<leftarrow> iolayer_alloc_session E (su_expand su) (su_fresh su) (su_io su) S;
     (case session of
        None \<Rightarrow> Some (- 1, log_acts (free_task_assign task) S)
      | Some p \<Rightarrow>
          let (rc, S) = cb (se_id (lt_manager S) p) (ta_host task) (ta_port task) S
          in if rc \<noteq> 0 then do {
               S \<leftarrow> remove_session p S;
               Some (1, log_acts (free_task_assign task) S)
             }
             else if ta_type task = NETWORK_TCP then do {
               S \<leftarrow> start_session E p (session_set_endpoint (ta_host task) (ta_port task)) eSessionType_Accept (ta_fd task) S;
               Some (0, S)
             }
             else if ta_type task = NETWORK_KCP then kcp p S
             else Some (0, S))
   }"

text \<open>The descriptors in the order of the calls: the reserve is given up, one connection taken and closed.\<close>

definition iolayer_accept_fdlimits :: "int \<Rightarrow> int \<Rightarrow> nat \<Rightarrow> gate \<Rightarrow> gate option" where
  "iolayer_accept_fdlimits taken reserve a G = do {
     x \<leftarrow> gt_acceptors G a;
     let G = gate_log (Close_fd (ac_idlefd x) # close_positive taken) G;
     Some (G\<lparr>gt_acceptors := (gt_acceptors G)(a \<mapsto> x\<lparr>ac_idlefd := reserve\<rparr>)\<rparr>)
   }"

text \<open>What the kernel answers to a call of \<open>accept\<close> and to those of \<open>iolayer_accept_fdlimits\<close>.\<close>

record 'a accept_answer =
  aa_cfd :: int
  aa_peer :: "'a sockaddr"
  aa_emfile :: bool
  aa_taken :: int
  aa_reserve :: int

definition channel_on_accept ::
  "environment \<Rightarrow> provision \<Rightarrow> (family \<Rightarrow> 'a \<Rightarrow> string) \<Rightarrow> accept_callback \<Rightarrow> (nat \<Rightarrow> io_thread \<Rightarrow> (int \<times> io_thread) option)
   \<Rightarrow> 'a accept_answer \<Rightarrow> nat \<Rightarrow> u16 \<Rightarrow> gate \<Rightarrow> gate option" where
  "channel_on_accept E su ntop cb kcp an a ev G = do {
     x \<leftarrow> gt_acceptors G a;
     (if ev AND EV_READ \<noteq> 0 \<and> en_running E then
        let G = gate_log [Alloc_host] G;
            (cfd, host, port, _) = tcp_accept ntop (aa_cfd an) (aa_peer an) []
        in if 0 < cfd then do {
             (_, S) \<leftarrow> assign_direct E su cb kcp
               \<lparr>ta_fd = cfd, ta_type = ac_type x, ta_port = port, ta_host = Some host, ta_acceptor = a\<rparr> (gt_thread G);
             Some (G\<lparr>gt_thread := S\<rparr>)
           }
           else if aa_emfile an then map_option (gate_log [Free_host]) (iolayer_accept_fdlimits (aa_taken an) (aa_reserve an) a G)
           else Some G
      else Some G)
   }"

section \<open>Connecting\<close>

type_synonym connect_callback = "int \<Rightarrow> string option \<Rightarrow> u16 \<Rightarrow> sid \<Rightarrow> io_thread \<Rightarrow> int \<times> io_thread"

text \<open>\<open>event_set\<close>, \<open>event_set_callback\<close> and \<open>evsets_add\<close> with the interval of retries.\<close>

definition connect_direct :: "nat \<Rightarrow> gate \<Rightarrow> gate option" where
  "connect_direct c G = do {
     x \<leftarrow> gt_connectors G c;
     Some (gate_register (Ev_connect c) (cn_fd x) EV_WRITE On_connected TRY_RECONNECT_INTERVAL G)
   }"

definition reconnect_direct :: "environment \<Rightarrow> nat \<Rightarrow> gate \<Rightarrow> gate option" where
  "reconnect_direct E c G = do {
     x \<leftarrow> gt_connectors G c;
     let G = G\<lparr>gt_connectors := (gt_connectors G)(c \<mapsto> x\<lparr>cn_fd := en_tcp_connect E\<rparr>)\<rparr>;
     Some (gate_register (Ev_connect c) (en_tcp_connect E) EV_WRITE On_connected TRY_RECONNECT_INTERVAL G)
   }"

text \<open>How a connection attempt ended: the event tells, and on Linux the socket is asked.\<close>

definition eIOError_Timeout :: int where "eIOError_Timeout = 0x00010009"

definition connect_outcome :: "environment \<Rightarrow> u16 \<Rightarrow> int" where
  "connect_outcome E ev =
     (if ev AND EV_WRITE \<noteq> 0
      then (if en_is_connected E \<noteq> 0 then eIOError_ConnectStatus else 0)
      else eIOError_Timeout)"

definition outcome_session ::
  "environment \<Rightarrow> provision \<Rightarrow> int \<Rightarrow> io_thread \<Rightarrow> (int \<times> nat option \<times> sid \<times> io_thread) option" where
  "outcome_session E su result S =
     (if result = 0 then do {
        (session, S) \<leftarrow> iolayer_alloc_session E (su_expand su) (su_fresh su) (su_io su) S;
        (case session of
           Some p \<Rightarrow> Some (0, Some p, se_id (lt_manager S) p, S)
         | None \<Rightarrow> Some (eIOError_OutMemory, None, 0, S))
      }
      else Some (result, None, 0, S))"

text \<open>A session the application does not want: \<open>session_manager_remove\<close>, then \<open>session_end\<close>.\<close>

definition refuse_session :: "environment \<Rightarrow> nat option \<Rightarrow> sid \<Rightarrow> io_thread \<Rightarrow> io_thread option" where
  "refuse_session E session sd S =
     (case session of
        None \<Rightarrow> Some S
      | Some p \<Rightarrow> do {
          S \<leftarrow> remove_session p S;
          (_, S) \<leftarrow> with_session p (\<lambda>e w. session_end E sd False (on_session (\<lambda>s. s\<lparr>ss_id := 0\<rparr>) w)) S;
          Some S
        })"

definition channel_on_connected ::
  "environment \<Rightarrow> provision \<Rightarrow> bool \<Rightarrow> connect_callback \<Rightarrow> nat \<Rightarrow> u16 \<Rightarrow> gate \<Rightarrow> gate option" where
  "channel_on_connected E su strdup cb c ev G = do {
     x \<leftarrow> gt_connectors G c;
     (result, session, sd, S) \<leftarrow> outcome_session E su (connect_outcome E ev) (gt_thread G);
     let (ack, S) = cb result (cn_host x) (cn_port x) sd S;
     (if ack \<noteq> 0 then do {
        S \<leftarrow> refuse_session E session sd S;
        iolayer_free_connector c (G\<lparr>gt_thread := S\<rparr>)
      }
      else if result \<noteq> 0 then
        let G = gate_log (close_positive (cn_fd x)) (G\<lparr>gt_thread := S\<rparr>);
            x' = (if 0 < cn_fd x then x\<lparr>cn_fd := - 1\<rparr> else x);
            G = (if cn_state x = 0
                 then G\<lparr>gt_connectors := (gt_connectors G)(c \<mapsto> x'\<lparr>cn_state := 1\<rparr>),
                        gt_connectlist := gt_connectlist G @ [c]\<rparr>
                 else G\<lparr>gt_connectors := (gt_connectors G)(c \<mapsto> x')\<rparr>)
        in Some (gate_register (Ev_connect c) (- 1) 0 Reconnect_direct TRY_RECONNECT_INTERVAL G)
      else do {
        p \<leftarrow> session;
        host \<leftarrow> cn_host x;
        S \<leftarrow> start_session E p (session_copy_endpoint strdup host (cn_port x)) eSessionType_Connect (cn_fd x) S;
        iolayer_free_connector c (G\<lparr>gt_thread := S, gt_connectors := (gt_connectors G)(c \<mapsto> x\<lparr>cn_fd := - 1\<rparr>)\<rparr>)
      })
   }"

section \<open>Associating\<close>

type_synonym associate_callback = "int \<Rightarrow> int \<Rightarrow> u64 \<Rightarrow> sid \<Rightarrow> io_thread \<Rightarrow> int \<times> io_thread"

definition associate_direct :: "nat \<Rightarrow> gate \<Rightarrow> gate option" where
  "associate_direct a G = do {
     x \<leftarrow> gt_associaters G a;
     Some (gate_register (Ev_associate a) (as_fd x) EV_WRITE On_associated TRY_RECONNECT_INTERVAL G)
   }"

definition reassociate_direct :: "environment \<Rightarrow> nat \<Rightarrow> gate \<Rightarrow> gate option" where
  "reassociate_direct E a G = do {
     x \<leftarrow> gt_associaters G a;
     let fd = en_reattach E (as_fd x) (as_privdata x);
     let G = G\<lparr>gt_associaters := (gt_associaters G)(a \<mapsto> x\<lparr>as_fd := fd\<rparr>)\<rparr>;
     Some (gate_register (Ev_associate a) fd EV_WRITE On_associated TRY_RECONNECT_INTERVAL G)
   }"

definition channel_on_associated ::
  "environment \<Rightarrow> provision \<Rightarrow> associate_callback \<Rightarrow> nat \<Rightarrow> u16 \<Rightarrow> gate \<Rightarrow> gate option" where
  "channel_on_associated E su cb a ev G = do {
     x \<leftarrow> gt_associaters G a;
     (result, session, sd, S) \<leftarrow> outcome_session E su (connect_outcome E ev) (gt_thread G);
     let (ack, S) = cb result (as_fd x) (as_privdata x) sd S;
     (if ack \<noteq> 0 then do {
        S \<leftarrow> refuse_session E session sd S;
        iolayer_free_associater a (G\<lparr>gt_thread := S\<rparr>)
      }
      else if result \<noteq> 0 then
        if as_reattach x = 0 then iolayer_free_associater a (G\<lparr>gt_thread := S\<rparr>)
        else let G = gate_register (Ev_associate a) (- 1) 0 Reassociate_direct TRY_RECONNECT_INTERVAL (G\<lparr>gt_thread := S\<rparr>)
             in Some (if as_state x = 0
                  then G\<lparr>gt_associaters := (gt_associaters G)(a \<mapsto> x\<lparr>as_state := 1\<rparr>),
                         gt_associatelist := gt_associatelist G @ [a]\<rparr>
                  else G)
      else do {
        p \<leftarrow> session;
        S \<leftarrow> start_session E p (session_set_reattach (as_reattach x) (as_privdata x)) eSessionType_Associate (as_fd x) S;
        iolayer_free_associater a (G\<lparr>gt_thread := S\<rparr>)
      })
   }"

section \<open>Listening\<close>

text \<open>The events of a listener: one for TCP, one per UDP socket otherwise.\<close>

fun listen_transfers :: "nat \<Rightarrow> nat \<Rightarrow> transfer list \<Rightarrow> gate \<Rightarrow> gate" where
  "listen_transfers a i [] G = G"
| "listen_transfers a i (t # ts) G = listen_transfers a (Suc i) ts
     (gate_register (Ev_transfer a i) (tr_fd t) (EV_READ OR EV_PERSIST) On_udpread (- 1) G)"

definition listen_direct :: "nat \<Rightarrow> gate \<Rightarrow> gate option" where
  "listen_direct a G = do {
     x \<leftarrow> gt_acceptors G a;
     let G = G\<lparr>gt_acceptlist := gt_acceptlist G @ [a]\<rparr>;
     (if ac_type x = NETWORK_TCP
      then Some (gate_register (Ev_accept a) (ac_fd x) (EV_READ OR EV_PERSIST) On_accept (- 1) G)
      else if ac_type x = NETWORK_KCP then do {
        ts \<leftarrow> acceptor_transfers x;
        Some (listen_transfers a 0 ts G)
      }
      else Some G)
   }"

definition get_transfer :: "acceptor \<Rightarrow> int \<Rightarrow> nat option option" where
  "get_transfer x fd = do {
     ts \<leftarrow> acceptor_transfers x;
     Some (List.find (\<lambda>i. tr_fd (ts ! i) = fd) [0..<length ts])
   }"

section \<open>New listeners\<close>

text \<open>What the allocator and the system calls answer; one pair per UDP socket.\<close>

record listen_answer =
  la_memory :: bool
  la_event :: bool
  la_idlefd :: int
  la_listen :: int
  la_eptable :: bool
  la_transferlist :: bool
  la_transfers :: "(bool \<times> int) list"

definition init_transfer :: "bool \<times> int \<Rightarrow> transfer \<Rightarrow> int \<times> transfer" where
  "init_transfer an t =
     (if \<not> fst an then (- 1, t\<lparr>tr_event := False\<rparr>)
      else let t = t\<lparr>tr_event := True, tr_buffer := buffer_init, tr_fd := snd an\<rparr>
           in (if snd an \<le> 0 then - 2 else 0, t))"

fun init_transfers :: "nat \<Rightarrow> (bool \<times> int) list \<Rightarrow> transfer list \<Rightarrow> (bool \<times> transfer list) option" where
  "init_transfers i [] ts = Some (True, ts)"
| "init_transfers i (an # ans) ts = do {
     t \<leftarrow> arr_get ts i;
     let (rc, t) = init_transfer an t;
     ts \<leftarrow> arr_set ts i t;
     (if rc \<noteq> 0 then Some (False, ts) else init_transfers (Suc i) ans ts)
   }"

definition zero_transfer :: transfer where
  "zero_transfer = \<lparr>tr_fd = 0, tr_event = False, tr_buffer = buffer_init\<rparr>"

text \<open>
  The acceptor gets the address \<open>a\<close>; it is posted to its thread exactly if the result is 0.
  \<open>ntransfer\<close> is from the options of the caller.
\<close>

definition server_listen ::
  "u8 \<Rightarrow> u8 \<Rightarrow> string option \<Rightarrow> u16 \<Rightarrow> int option \<Rightarrow> listen_answer \<Rightarrow> nat \<Rightarrow> gate \<Rightarrow> (int \<times> gate) option" where
  "server_listen type index host port ntransfer an a G =
     (if \<not> la_memory an then Some (- 1, G)
      else let x = \<lparr>ac_fd = 0, ac_type = type, ac_index = index, ac_event = False, ac_host = host, ac_port = port,
                     ac_idlefd = 0, ac_eptable = False, ac_ntransfer = 0, ac_transferlist = None\<rparr>;
               store = (\<lambda>x G. G\<lparr>gt_acceptors := (gt_acceptors G)(a \<mapsto> x)\<rparr>);
               fail = (\<lambda>rc x. map_option (\<lambda>G. (rc, G)) (iolayer_free_acceptor a (store x G)))
           in if type = NETWORK_TCP then
                if \<not> la_event an then fail (- 2) x
                else let x = x\<lparr>ac_event := True, ac_idlefd := la_idlefd an, ac_fd := la_listen an\<rparr>
                     in if la_listen an \<le> 0 then fail (- 3) x else Some (0, store x G)
              else if type = NETWORK_KCP then
                let x = x\<lparr>ac_ntransfer := (case ntransfer of None \<Rightarrow> 16 | Some n \<Rightarrow> n)\<rparr>
                in if \<not> la_eptable an then fail (- 4) x
                   else let x = x\<lparr>ac_eptable := True\<rparr>
                        in if \<not> la_transferlist an then fail (- 5) x
                           else do {
                             let n = nat (ac_ntransfer x);
                             (ok, ts) \<leftarrow> init_transfers 0 (take n (la_transfers an)) (replicate n zero_transfer);
                             let x = x\<lparr>ac_transferlist := Some ts\<rparr>;
                             (if \<not> ok then fail (- 6) x else Some (0, store x G))
                           }
              else Some (0, store x G))"

section \<open>Events\<close>

text \<open>The handler of an event; one that is not persistent has left its event set by then.\<close>

record 'a gate_occurrence =
  go_results :: u16
  go_provision :: provision
  go_answer :: "'a accept_answer"
  go_strdup :: bool

record application =
  ap_accept :: "nat \<Rightarrow> accept_callback"
  ap_connect :: "nat \<Rightarrow> connect_callback"
  ap_associate :: "nat \<Rightarrow> associate_callback"

definition gate_fire ::
  "environment \<Rightarrow> (family \<Rightarrow> 'a \<Rightarrow> string) \<Rightarrow> application \<Rightarrow> (nat \<Rightarrow> io_thread \<Rightarrow> (int \<times> io_thread) option)
   \<Rightarrow> gate_event \<Rightarrow> 'a gate_occurrence \<Rightarrow> gate \<Rightarrow> gate option" where
  "gate_fire E ntop ap kcp e oc G = do {
     r \<leftarrow> gt_regs G e;
     let G = (if gr_events r AND EV_PERSIST \<noteq> 0 then G else gate_remove e G);
     (case (e, gr_callback r) of
        (Ev_accept a, On_accept) \<Rightarrow>
          channel_on_accept E (go_provision oc) ntop (ap_accept ap a) kcp (go_answer oc) a (go_results oc) G
      | (Ev_connect c, On_connected) \<Rightarrow>
          channel_on_connected E (go_provision oc) (go_strdup oc) (ap_connect ap c) c (go_results oc) G
      | (Ev_connect c, Reconnect_direct) \<Rightarrow> reconnect_direct E c G
      | (Ev_associate a, On_associated) \<Rightarrow>
          channel_on_associated E (go_provision oc) (ap_associate ap a) a (go_results oc) G
      | (Ev_associate a, Reassociate_direct) \<Rightarrow> reassociate_direct E a G
      | _ \<Rightarrow> None)
   }"

end
