(* ===== verification/GateFacts.thy ===== *)
theory GateFacts
  imports Gate LayerEnd
begin

text \<open>
  What becomes of descriptors, hosts and sessions when a connection is accepted, made or refused:
  the thread keeps its invariant, and nothing is closed or freed twice.
\<close>

section \<open>A session more\<close>

lemma thread_grow:
  assumes inv: "thread_inv X d S" and p: "lt_next S \<le> p" "p < lt_next S'"
    and same: "lt_msgs S' = lt_msgs S" "\<forall>q. q \<noteq> p \<longrightarrow> lt_sessions S' q = lt_sessions S q"
      "\<forall>q. q \<noteq> p \<longrightarrow> se_id (lt_manager S') q = se_id (lt_manager S) q" "smgr_ok (lt_manager S')"
    and old: "\<forall>k q. handles (lt_manager S) k = Some q \<longrightarrow> handles (lt_manager S') k = Some q"
    and new: "\<forall>k q. handles (lt_manager S') k = Some q \<longrightarrow> handles (lt_manager S) k = Some q \<or> q = p \<and> lt_sessions S' p \<noteq> None"
    and e: "\<forall>e. lt_sessions S' p = Some e \<longrightarrow> session_listed S' p e \<and> ring_list (ss_sendqueue (e_session e)) = []"
  shows "thread_inv X d S'" "\<forall>q e. q \<noteq> p \<and> lt_sessions S q = Some e \<longrightarrow> pending (focus e S') = pending (focus e S)"
proof -
  have b: "bounded (lt_next S) (lt_msgs S)" by (rule thread_invD(4) [OF inv])
  have fc: "focus x S' = (focus x S)\<lparr>w_msgs := lt_msgs S, w_next := lt_next S'\<rparr>" for x by (simp add: focus_def same)
  have keep: "sess_inv (focus x S') \<and> pending (focus x S') = pending (focus x S)" if x: "lt_sessions S q = Some x" for q x
  proof -
    note l = listed_session [OF inv x]
    have c: "int (count_list (queue_list (focus x S)) a) \<le> owes (lt_msgs S) a" for a
      using count_le_entries [OF x l(1), of a] thread_invD(5,6) [OF inv, of a] by simp
    have k: "\<forall>b \<in> set (queue_list (focus x S)). \<forall>m. w_msgs (focus x S) b = Some m \<longrightarrow>
      (\<exists>m'. lt_msgs S b = Some m' \<and> same_bytes m m' \<and> int (count_list (queue_list (focus x S)) b) \<le> owed m')"
    proof (intro ballI allI impI)
      fix b m assume "w_msgs (focus x S) b = Some m"
      then show "\<exists>m'. lt_msgs S b = Some m' \<and> same_bytes m m' \<and> int (count_list (queue_list (focus x S)) b) \<le> owed m'"
        using c [of b] by (simp add: same_bytes_def owes_def)
    qed
    have n: "w_next (focus x S) \<le> lt_next S'" using p by simp
    show ?thesis unfolding fc using change_messages [OF l(2) _ k n] by simp
  qed
  then show "\<forall>q e. q \<noteq> p \<and> lt_sessions S q = Some e \<longrightarrow> pending (focus e S') = pending (focus e S)" by blast
  have pn: "lt_sessions S q = None" if "lt_next S \<le> q" for q
  proof (cases "lt_sessions S q")
    case (Some x)
    then show ?thesis using listed_session(1) [OF inv Some] that by simp
  qed simp
  have qp: "queue_of S' q = (if q < lt_next S then queue_of S q else [])" for q
    using same(2) p e pn [of q] by (cases "q = p") (auto simp: queue_of_def split: option.splits)
  have en: "entries S' a = entries S a" for a
  proof -
    have "entries S' a = (\<Sum>q<lt_next S'. if q < lt_next S then int (count_list (queue_of S q) a) else 0)"
      unfolding entries_def by (rule sum.cong) (simp_all add: qp)
    also have "\<dots> = (\<Sum>q<lt_next S. int (count_list (queue_of S q) a))"
      using p by (intro sum.mono_neutral_cong_right) auto
    finally show ?thesis by (simp add: entries_def)
  qed
  have li: "session_listed S' q x" if x: "lt_sessions S' q = Some x" for q x
  proof (cases "q = p")
    case True
    then show ?thesis using e x by blast
  next
    case False
    then have y: "lt_sessions S q = Some x" using x same(2) by simp
    note l = listed_session [OF inv y]
    have "handles (lt_manager S') (key (ss_id (e_session x))) = Some q" using l(4) old by blast
    then show ?thesis using l keep [OF y] same(3) False p by (simp add: session_listed_def)
  qed
  have h: "lt_sessions S' q \<noteq> None" if "handles (lt_manager S') k = Some q" for k q
  proof (cases "q = p \<and> lt_sessions S' p \<noteq> None")
    case False
    then have k: "handles (lt_manager S) k = Some q" using new that by blast
    then have "lt_sessions S q \<noteq> None" by (rule thread_invD(3) [OF inv])
    then show ?thesis using same(2) pn p by (cases "q = p") auto
  qed simp
  have bd: "bounded (lt_next S') (lt_msgs S')" using b p same(1) unfolding bounded_def by fastforce
  have os: "\<forall>a. 0 \<le> d a \<and> owes (lt_msgs S') a = entries S' a + d a"
    using thread_invD(5,6) [OF inv] by (simp add: same(1) en)
  have ow: "\<forall>a m. lt_msgs S' a = Some m \<and> a \<notin> X \<longrightarrow> 0 < owed m"
    unfolding same(1) using thread_invD(7) [OF inv] by blast
  show "thread_inv X d S'" unfolding thread_inv_def using same(4) li h bd os ow by blast
qed

section \<open>A new session\<close>

text \<open>\<open>fresh_at p sd S S1\<close>: \<open>S1\<close> is \<open>S\<close> with a new block \<open>p\<close> that has the identifier \<open>sd\<close>.\<close>

definition fresh_at :: "environment \<Rightarrow> io_result list \<Rightarrow> nat \<Rightarrow> sid \<Rightarrow> io_thread \<Rightarrow> io_thread \<Rightarrow> bool" where
  "fresh_at E io p sd S S1 \<longleftrightarrow> p = lt_next S \<and>
     (\<exists>m. S1 = S\<lparr>lt_manager := m, lt_next := Suc p, lt_sessions := (lt_sessions S)(p \<mapsto> new_entity E io sd)\<rparr> \<and>
        smgr_ok m \<and> se_id m p = sd \<and> handles (lt_manager S) (key sd) = None \<and>
        handles m = (handles (lt_manager S))(key sd \<mapsto> p) \<and> (\<forall>q. q \<noteq> p \<longrightarrow> se_id m q = se_id (lt_manager S) q))"

lemma next_unused: "thread_inv X d S \<Longrightarrow> lt_sessions S (lt_next S) = None"
  using listed_session(1) [of X d S "lt_next S"] by (cases "lt_sessions S (lt_next S)") auto

lemma next_unlisted: "thread_inv X d S \<Longrightarrow> lt_next S \<notin> sessions (lt_manager S)"
  using thread_invD(3) [of X d S _ "lt_next S"] next_unused [of X d S] by (auto simp: sessions_def ran_def)

lemma alloc_cases:
  assumes inv: "thread_inv X d S"
  shows "iolayer_alloc_session E ex fr io S = Some (None, S) \<or>
    (\<exists>sd S1. iolayer_alloc_session E ex fr io S = Some (Some (lt_next S), S1) \<and> fresh_at E io (lt_next S) sd S S1)"
proof (cases "sm_free_head (lt_manager S) = INVALID_SLOT_INDEX \<and> (full (lt_manager S) \<or> \<not> ex)")
  case True
  then have "session_manager_alloc False ex fr (Some (lt_next S)) (lt_manager S) = Some (None, lt_manager S)"
    using alloc_fails [OF thread_invD(1) [OF inv]] by blast
  then show ?thesis by (simp add: iolayer_alloc_session_def)
next
  case False
  have f: "\<not> full (lt_manager S)" using False by (auto simp: full_def)
  obtain m where m: "session_manager_alloc False True fr (Some (lt_next S)) (lt_manager S) = Some (Some (lt_next S), m)"
    "smgr_ok m" "handles (lt_manager S) (key (se_id m (lt_next S))) = None"
    "handles m = (handles (lt_manager S))(key (se_id m (lt_next S)) \<mapsto> lt_next S)"
    "\<forall>q. q \<noteq> lt_next S \<longrightarrow> se_id m q = se_id (lt_manager S) q"
    using alloc_ok [OF thread_invD(1) [OF inv] f next_unlisted [OF inv], of fr] by blast
  have "session_manager_alloc False ex fr (Some (lt_next S)) (lt_manager S) = Some (Some (lt_next S), m)"
    using m(1) False by (cases ex) (auto simp: session_manager_alloc_def)
  then show ?thesis
    using m(2-5) by (auto simp: iolayer_alloc_session_def fresh_at_def intro!: exI [of _ m])
qed

section \<open>Starting it\<close>

text \<open>What a callback that is offered a session does with it: it sets its service and its settings.\<close>

definition configured :: "nat \<Rightarrow> service option \<Rightarrow> session_setting \<Rightarrow> io_thread \<Rightarrow> io_thread" where
  "configured p sv st S = S\<lparr>lt_sessions := (lt_sessions S)(p := map_option (\<lambda>e. e\<lparr>e_service := sv,
     e_session := (e_session e)\<lparr>ss_setting := st\<rparr>\<rparr>) (lt_sessions S p))\<rparr>"

lemma configured_simps [simp]:
  "lt_manager (configured p sv st S) = lt_manager S" "lt_msgs (configured p sv st S) = lt_msgs S"
  "lt_next (configured p sv st S) = lt_next S" "lt_acts (configured p sv st S) = lt_acts S"
  "lt_index (configured p sv st S) = lt_index S"
  "q \<noteq> p \<Longrightarrow> lt_sessions (configured p sv st S) q = lt_sessions S q"
  by (simp_all add: configured_def)

text \<open>Setters of the endpoint and of what belongs to an associated descriptor.\<close>

definition sets_endpoint :: "(session \<Rightarrow> session) \<Rightarrow> bool" where
  "sets_endpoint f \<longleftrightarrow> (\<forall>s. \<exists>h p d r. f s = s\<lparr>ss_host := h, ss_port := p, ss_privdata := d, ss_reattach := r\<rparr>)"

lemma setters_endpoint:
  "sets_endpoint (session_set_endpoint h p)" "sets_endpoint (session_copy_endpoint mem hs p)" "sets_endpoint (session_set_reattach r d)"
proof -
  have "session_set_endpoint h p s = s\<lparr>ss_host := h, ss_port := p, ss_privdata := ss_privdata s, ss_reattach := ss_reattach s\<rparr>" for s
    by (simp add: session_set_endpoint_def)
  then show "sets_endpoint (session_set_endpoint h p)" unfolding sets_endpoint_def by blast
  have "session_copy_endpoint mem hs p s = s\<lparr>ss_host := if mem then Some hs else None, ss_port := p,
      ss_privdata := ss_privdata s, ss_reattach := ss_reattach s\<rparr>" for s
    by (simp add: session_copy_endpoint_def)
  then show "sets_endpoint (session_copy_endpoint mem hs p)" unfolding sets_endpoint_def by blast
  have "session_set_reattach r d s = s\<lparr>ss_host := ss_host s, ss_port := ss_port s, ss_privdata := d, ss_reattach := r\<rparr>" for s
    by (simp add: session_set_reattach_def)
  then show "sets_endpoint (session_set_reattach r d)" unfolding sets_endpoint_def by blast
qed

text \<open>\<open>session_start\<close> up to the callback, and the rest of it.\<close>

definition readied :: "(session \<Rightarrow> session) \<Rightarrow> u8 \<Rightarrow> int \<Rightarrow> session \<Rightarrow> session" where
  "readied f type fd s = (f s)\<lparr>ss_fd := fd, ss_type := type,
     ss_setting := (ss_setting (f s))\<lparr>setting_transport := (if ss_driver (f s) = None then Channel else Driver)\<rparr>\<rparr>"

definition begin_reading :: "environment \<Rightarrow> world \<Rightarrow> int \<times> world" where
  "begin_reading E w = (0, snd (session_start_keepalive (session_add_event EV_READ (snd (sv_start (en_service E) w)))))"

lemma session_start_split: "session_start E type fd (on_session f w) = begin_reading E (on_session (readied f type fd) w)"
  by (simp add: session_start_def begin_reading_def on_session_def readied_def Let_def split: prod.split)

lemma begin_reading_ok:
  assumes E: "env_accounted E" and w: "sess_inv w" "w_alive w" "bounded (w_next w) (w_msgs w)"
  shows "\<exists>w'. begin_reading E w = (0, w') \<and> sess_inv w' \<and> w_alive w' \<and> accounted w w' \<and>
    (has_status SESSION_READING w' \<or> has_status SESSION_EXITING w') \<and>
    ss_fd (w_session w') = ss_fd (w_session (snd (sv_start (en_service E) w)))"
proof -
  define w1 where "w1 = snd (sv_start (en_service E) w)"
  have cb: "callback_ok (\<lambda>w. snd (sv_start (en_service E) w))" "callback_accounted (\<lambda>w. snd (sv_start (en_service E) w))"
    using E unfolding env_accounted_def env_ok_def by blast+
  note c = midway_callback [OF cb w(1) midway_refl [OF w(2,3)], folded w1_def]
  define w2 where "w2 = session_add_event EV_READ w1"
  define w3 where "w3 = snd (session_start_keepalive w2)"
  have e2: "events_only w1 w2" and e3: "events_only w2 w3"
    by (simp_all add: w2_def w3_def add_event_only start_keepalive_only)
  have i2: "sess_inv w2" "w_alive w2"
    using add_read_inv [OF c(2,3)] c(3) e2 by (simp_all add: w2_def events_only_def)
  have i3: "sess_inv w3" "w_alive w3"
    using keepalive_inv [OF i2] i2(2) e3 by (simp_all add: w3_def events_only_def)
  have "accounted w w3"
    by (rule midway_last [OF midway_events [OF c(1) e2] accounted_events [OF e3 i2(2)]])
  moreover have "has_status SESSION_READING w2 \<or> has_status SESSION_EXITING w2"
    by (auto simp: w2_def session_add_event_def session_add_read_def Let_def status_simps split: prod.splits)
  moreover have "has_status SESSION_READING w3 = has_status SESSION_READING w2" "has_status SESSION_EXITING w3 = has_status SESSION_EXITING w2"
    by (auto simp: w3_def session_start_keepalive_def status_simps)
  moreover have "ss_fd (w_session w3) = ss_fd (w_session w1)"
    using e2 e3 session_data_fields [of "w_session w2" "w_session w1"] session_data_fields [of "w_session w3" "w_session w2"]
    by (simp add: events_only_def)
  ultimately show ?thesis
    using i3 by (intro exI [of _ w3]) (simp add: begin_reading_def w3_def w2_def w1_def)
qed

definition ready_entity ::
  "environment \<Rightarrow> io_result list \<Rightarrow> sid \<Rightarrow> service \<Rightarrow> session_setting \<Rightarrow> (session \<Rightarrow> session) \<Rightarrow> u8 \<Rightarrow> int \<Rightarrow> entity" where
  "ready_entity E io sd sv st f type fd = (new_entity E io sd)\<lparr>e_service := Some sv,
     e_session := readied f type fd ((e_session (new_entity E io sd))\<lparr>ss_setting := st\<rparr>)\<rparr>"

lemma new_queue: "\<exists>q. QUEUE_INIT True (0::nat) DEFAULT_SENDQUEUE_SIZE = (0, q) \<and> ring_ok q \<and> ring_list q = []"
proof (rule ring_init)
  show "DEFAULT_SENDQUEUE_SIZE = 0 \<or> (\<exists>k < 32. unat DEFAULT_SENDQUEUE_SIZE = 2 ^ k)"
    by (intro disjI2 exI [of _ 7]) (simp add: DEFAULT_SENDQUEUE_SIZE_def)
qed

lemma ready_entity_fields:
  assumes "sets_endpoint f" "en_mem_queue E" and e_def: "e = ready_entity E io sd sv st f type fd"
  shows "ss_id (e_session e) = sd" "ss_fd (e_session e) = fd" "ss_type (e_session e) = type" "ss_status (e_session e) = 0"
    "ss_tasklist (e_session e) = []" "ss_inbuffer (e_session e) = buffer_init" "ss_msgoffset (e_session e) = 0"
    "ring_ok (ss_sendqueue (e_session e))" "ring_list (ss_sendqueue (e_session e)) = []"
    "setting_transport (ss_setting (e_session e)) = Channel" "e_regs e = (\<lambda>_. None)" "e_service e = Some sv" "e_out e = []" "e_refuse e = en_refuse E"
proof -
  obtain q where q: "QUEUE_INIT True (0::nat) DEFAULT_SENDQUEUE_SIZE = (0, q)" "ring_ok q" "ring_list q = []"
    using new_queue by blast
  define s where "s = (e_session (new_entity E io sd))\<lparr>ss_setting := st\<rparr>"
  have s: "s = (new_session True)\<lparr>ss_id := sd, ss_setting := st\<rparr>" using assms(2) by (simp add: s_def new_entity_def)
  obtain h p d r where f: "f s = s\<lparr>ss_host := h, ss_port := p, ss_privdata := d, ss_reattach := r\<rparr>"
    using assms(1) unfolding sets_endpoint_def by blast
  have es: "e_session e = readied f type fd s" by (simp add: e_def ready_entity_def s_def)
  have sf: "ss_id s = sd" "ss_status s = 0" "ss_tasklist s = []" "ss_inbuffer s = buffer_init" "ss_msgoffset s = 0"
    "ss_sendqueue s = q" "ss_driver s = None"
    using q by (simp_all add: s new_session_def)
  show "ss_id (e_session e) = sd" "ss_fd (e_session e) = fd" "ss_type (e_session e) = type" "ss_status (e_session e) = 0"
    "ss_tasklist (e_session e) = []" "ss_inbuffer (e_session e) = buffer_init" "ss_msgoffset (e_session e) = 0"
    "ring_ok (ss_sendqueue (e_session e))" "ring_list (ss_sendqueue (e_session e)) = []"
    "setting_transport (ss_setting (e_session e)) = Channel"
    using q by (simp_all add: es readied_def f sf)
  show "e_regs e = (\<lambda>_. None)" "e_service e = Some sv" "e_out e = []" "e_refuse e = en_refuse E" by (simp_all add: e_def ready_entity_def new_entity_def)
qed

lemma ready_entity_inv:
  assumes "sets_endpoint f" "en_mem_queue E" "0 < fd" "\<forall>e. \<not> en_refuse E e"
  shows "sess_inv (focus (ready_entity E io sd sv st f type fd) S)"
proof -
  note q = ready_entity_fields [OF assms(1,2) refl, of io sd sv st type fd]
  let ?w = "focus (ready_entity E io sd sv st f type fd) S"
  have "queue_ok ?w" by (simp add: queue_ok_def q msgs_ok_def offset_ok_def)
  moreover have "regs_ok ?w" using assms(4) by (simp add: regs_ok_def regs_known_def regs_agree_def has_status_def q)
  moreover have "buffer_ok (ss_inbuffer (w_session ?w))" by (simp add: q buffer_init_def buffer_ok_def)
  ultimately show ?thesis using assms(3) by (simp add: sess_inv_def live_ok_def busy_ok_def q)
qed

lemma start_new:
  assumes inv: "thread_ok S" and fr: "fresh_at E io p sd S S1" and f: "sets_endpoint f" and fd: "0 < fd"
    and E: "env_accounted (E\<lparr>en_service := sv\<rparr>)" and keep: "\<forall>w. ss_fd (w_session (snd (sv_start sv w))) = ss_fd (w_session w)"
  shows "\<exists>S' e. start_session E p f type fd (configured p (Some sv) st S1) = Some S' \<and> thread_ok S' \<and>
    (\<forall>q. q \<noteq> p \<longrightarrow> lt_sessions S' q = lt_sessions S q) \<and>
    (\<forall>q e. q \<noteq> p \<and> lt_sessions S q = Some e \<longrightarrow> pending (focus e S') = pending (focus e S)) \<and>
    handles (lt_manager S') = (handles (lt_manager S))(key sd \<mapsto> p) \<and> lt_sessions S' p = Some e \<and> ss_id (e_session e) = sd \<and>
    ss_fd (e_session e) = fd \<and>
    (has_status SESSION_READING (focus e S') \<or> has_status SESSION_EXITING (focus e S')) \<and>
    (\<exists>as. lt_acts S' = lt_acts S @ map (Session_act p) as)"
proof -
  obtain m where m: "S1 = S\<lparr>lt_manager := m, lt_next := Suc p, lt_sessions := (lt_sessions S)(p \<mapsto> new_entity E io sd)\<rparr>"
    "smgr_ok m" "se_id m p = sd" "handles (lt_manager S) (key sd) = None"
    "handles m = (handles (lt_manager S))(key sd \<mapsto> p)" "\<forall>q. q \<noteq> p \<longrightarrow> se_id m q = se_id (lt_manager S) q" and p: "p = lt_next S"
    using fr unfolding fresh_at_def by blast
  have mq: "en_mem_queue E" and nr: "\<forall>e. \<not> en_refuse E e"
    using E by (simp_all add: env_accounted_def env_ok_def memory_ok_def)
  define e2 where "e2 = ready_entity E io sd sv st f type fd"
  note q = ready_entity_fields [OF f mq e2_def]
  define S2 where "S2 = S1\<lparr>lt_sessions := (lt_sessions S)(p \<mapsto> e2)\<rparr>"
  have S2: "lt_sessions S2 = (lt_sessions S)(p \<mapsto> e2)" "lt_manager S2 = m" "lt_msgs S2 = lt_msgs S" "lt_next S2 = Suc p"
    "lt_acts S2 = lt_acts S" "lt_index S2 = lt_index S"
    by (simp_all add: S2_def m(1))
  have i2: "sess_inv (focus e2 S2)" unfolding e2_def by (rule ready_entity_inv [OF f mq fd nr])
  have g: "thread_ok S2" "\<forall>q e. q \<noteq> p \<and> lt_sessions S q = Some e \<longrightarrow> pending (focus e S2) = pending (focus e S)"
    using thread_grow [OF inv, of p S2] p m(2-6) i2 q(1,9) by (auto simp: S2 session_listed_def split: if_splits)
  have w: "w_alive (focus e2 S2)" "bounded (w_next (focus e2 S2)) (w_msgs (focus e2 S2))"
    using thread_invD(4) [OF g(1)] by simp_all
  obtain w' where w': "begin_reading (E\<lparr>en_service := sv\<rparr>) (focus e2 S2) = (0, w')" "sess_inv w'" "w_alive w'"
    "accounted (focus e2 S2) w'" "has_status SESSION_READING w' \<or> has_status SESSION_EXITING w'" "ss_fd (w_session w') = fd"
    using begin_reading_ok [OF E i2 w] keep q(2) by auto
  have e2s: "lt_sessions S2 p = Some e2" by (simp add: S2)
  obtain S' where S': "with_service E p (\<lambda>E w. Some (begin_reading E w)) S2 = Some (0, S')" "thread_ok S'" "only_session p S2 S'"
    "lt_sessions S' p = Some (entity_of e2 w')" "lt_acts S' = lt_acts S @ map (Session_act p) (w_acts w')"
    "handles (lt_manager S') = handles m"
    using with_service_step [where f = "\<lambda>E w. Some (begin_reading E w)", OF g(1) e2s q(12) _ w'(4,2), of E 0] w'(1,3) by (auto simp: S2)
  define x where "x = new_entity E io sd\<lparr>e_service := Some sv, e_session := (e_session (new_entity E io sd))\<lparr>ss_setting := st\<rparr>\<rparr>"
  define T where "T = configured p (Some sv) st S1"
  have x: "lt_sessions T p = Some x" "e_service x = Some sv" by (simp_all add: T_def x_def configured_def m(1))
  have fc: "on_session (readied f type fd) (focus x T) = focus e2 S2"
    unfolding x_def T_def by (simp add: focus_def on_session_def e2_def ready_entity_def S2 m(1) new_entity_def)
  have uf: "unfocus p x w T = unfocus p e2 w S2" for w
    using x(2) q(12) by (simp add: unfocus_def S2_def m(1) configured_def T_def)
  have "with_service E p (\<lambda>E w. Some (session_start E type fd (on_session f w))) T = with_service E p (\<lambda>E w. Some (begin_reading E w)) S2"
    by (simp add: with_service_def with_session_def x e2s q(12) session_start_split fc uf)
  then have st': "start_session E p f type fd T = Some S'" using S'(1) by (simp add: start_session_def)
  have o: "lt_sessions S' r = lt_sessions S r" if "r \<noteq> p" for r
    using S'(3) that unfolding only_session_def by (simp add: S2)
  have pe: "pending (focus y S') = pending (focus y S)" if "r \<noteq> p" "lt_sessions S r = Some y" for r y
  proof -
    have "lt_sessions S2 r = Some y" using that by (simp add: S2)
    then have "pending (focus y S') = pending (focus y S2)" using S'(3) that(1) unfolding only_session_def by blast
    then show ?thesis using g(2) that by simp
  qed
  have en: "ss_id (e_session (entity_of e2 w')) = sd" "ss_fd (e_session (entity_of e2 w')) = fd" "has_status fl (focus (entity_of e2 w') S') = has_status fl w'" for fl
    using w'(3,4,6) q(1) by (simp_all add: accounted_def entity_of_def has_status_session)
  have hs: "handles (lt_manager S') = (handles (lt_manager S))(key sd \<mapsto> p)" using S'(6) m(5) by (rule trans)
  have rd: "has_status SESSION_READING (focus (entity_of e2 w') S') \<or> has_status SESSION_EXITING (focus (entity_of e2 w') S')"
    unfolding en by (rule w'(5))
  show ?thesis
    using st' S'(2,4,5) o pe hs en(1,2) rd unfolding T_def
    by (intro exI [of _ S'] exI [of _ "entity_of e2 w'"]) blast
qed

section \<open>Giving it up\<close>

text \<open>The thread without the block \<open>p\<close>.\<close>

definition without :: "nat \<Rightarrow> io_thread \<Rightarrow> io_thread" where
  "without p S = S\<lparr>lt_sessions := (lt_sessions S)(p := None)\<rparr>"

lemma without_simps [simp]:
  "lt_manager (without p S) = lt_manager S" "lt_msgs (without p S) = lt_msgs S" "lt_next (without p S) = lt_next S"
  "lt_acts (without p S) = lt_acts S" "lt_sessions (without p S) = (lt_sessions S)(p := None)"
  by (simp_all add: without_def)

lemma remove_new:
  assumes inv: "thread_ok S" and fr: "fresh_at E io p sd S S1"
  shows "\<exists>m. remove_session p (configured p sv st S1) = Some ((configured p sv st S1)\<lparr>lt_manager := m\<rparr>) \<and>
    smgr_ok m \<and> handles m = handles (lt_manager S) \<and> (\<forall>q. q \<noteq> p \<longrightarrow> se_id m q = se_id (lt_manager S) q)"
proof -
  obtain m where m: "lt_manager S1 = m" "smgr_ok m" "se_id m p = sd" "handles (lt_manager S) (key sd) = None"
    "handles m = (handles (lt_manager S))(key sd \<mapsto> p)" "\<forall>q. q \<noteq> p \<longrightarrow> se_id m q = se_id (lt_manager S) q"
    using fr unfolding fresh_at_def by auto
  have "handles m (key sd) = Some p" unfolding m(5) by simp
  then have "p \<in> sessions m" unfolding sessions_def ran_def by blast
  then obtain m' where m': "session_manager_remove m (Some p) = Some (0, m')" "smgr_ok m'"
    "handles m' = (handles m)(key (se_id m p) := None)"
    using remove_ok [OF m(2)] by blast
  have "handles m' = handles (lt_manager S)"
    unfolding m'(3) m(3,5) by (rule ext) (simp add: m(4))
  then show ?thesis
    using m' m(1,6) remove_id [OF m'(1)] by (intro exI [of _ m']) (simp add: remove_session_def)
qed

text \<open>A rejected session of a listener stays allocated, but nothing refers to it.\<close>

lemma remove_new_ok:
  assumes inv: "thread_ok S" and fr: "fresh_at E io p sd S S1"
  shows "\<exists>S'. remove_session p (configured p sv st S1) = Some S' \<and> thread_ok (without p (log_acts as S')) \<and>
    lt_sessions S' p \<noteq> None \<and> handles (lt_manager S') = handles (lt_manager S) \<and> lt_acts S' = lt_acts S \<and>
    lt_msgs S' = lt_msgs S \<and> (\<forall>q. q \<noteq> p \<longrightarrow> lt_sessions S' q = lt_sessions S q) \<and>
    (\<forall>q e. lt_sessions S q = Some e \<longrightarrow> pending (focus e S') = pending (focus e S))"
proof -
  obtain m where m: "remove_session p (configured p sv st S1) = Some ((configured p sv st S1)\<lparr>lt_manager := m\<rparr>)"
    "smgr_ok m" "handles m = handles (lt_manager S)" "\<forall>q. q \<noteq> p \<longrightarrow> se_id m q = se_id (lt_manager S) q"
    using remove_new [OF inv fr] by blast
  define S' where "S' = (configured p sv st S1)\<lparr>lt_manager := m\<rparr>"
  have p: "p = lt_next S" "lt_next S' = Suc p" "lt_msgs S' = lt_msgs S" "lt_acts S' = lt_acts S" "lt_manager S' = m"
    "\<forall>q. q \<noteq> p \<longrightarrow> lt_sessions S' q = lt_sessions S q" "lt_sessions S' p \<noteq> None"
    using fr by (auto simp: fresh_at_def S'_def configured_def)
  have h: "\<forall>k q. handles m k = Some q \<longrightarrow> handles (lt_manager S) k = Some q" unfolding m(3) by blast
  have h': "\<forall>k q. handles (lt_manager S) k = Some q \<longrightarrow> handles m k = Some q" unfolding m(3) by blast
  have a: "lt_manager (without p (log_acts as S')) = m" "lt_msgs (without p (log_acts as S')) = lt_msgs S"
    "lt_next (without p (log_acts as S')) = Suc p" "lt_sessions (without p (log_acts as S')) = (lt_sessions S')(p := None)" for as
    by (simp_all add: log_acts_def p)
  have le: "lt_next S \<le> p" "p < lt_next (without p (log_acts as S'))" for as by (simp_all add: log_acts_def p(1,2))
  have ss: "\<forall>q. q \<noteq> p \<longrightarrow> lt_sessions (without p (log_acts as S')) q = lt_sessions S q" for as using p(6) by (simp add: log_acts_def)
  have se: "\<forall>q. q \<noteq> p \<longrightarrow> se_id (lt_manager (without p (log_acts as S'))) q = se_id (lt_manager S) q" for as
    unfolding a by (rule m(4))
  have ok: "smgr_ok (lt_manager (without p (log_acts as S')))" for as unfolding a by (rule m(2))
  have ho: "\<forall>k q. handles (lt_manager S) k = Some q \<longrightarrow> handles (lt_manager (without p (log_acts as S'))) k = Some q" for as
    unfolding a by (rule h')
  have hn: "\<forall>k q. handles (lt_manager (without p (log_acts as S'))) k = Some q \<longrightarrow>
    handles (lt_manager S) k = Some q \<or> q = p \<and> lt_sessions (without p (log_acts as S')) p \<noteq> None" for as
    unfolding a using h by blast
  have en: "\<forall>e. lt_sessions (without p (log_acts as S')) p = Some e \<longrightarrow>
    session_listed (without p (log_acts as S')) p e \<and> ring_list (ss_sendqueue (e_session e)) = []" for as
    by (simp add: a)
  note g = thread_grow [OF inv le a(2) ss se ok ho hn en]
  have "pending (focus e S') = pending (focus e S)" if "lt_sessions S q = Some e" for q e
  proof -
    have "q \<noteq> p" using that next_unused [OF inv] p(1) by auto
    then have "pending (focus e (without p (log_acts [] S'))) = pending (focus e S)" using g(2) that by blast
    then show ?thesis by (simp add: pending_def queue_list_def focus_def log_acts_def)
  qed
  then show ?thesis using m(1,3) p g(1) unfolding S'_def by (intro exI [of _ "(configured p sv st S1)\<lparr>lt_manager := m\<rparr>"]) simp
qed

lemma end_new:
  assumes "en_mem_queue E" "ring_list (ss_sendqueue (w_session w)) = []" "ring_ok (ss_sendqueue (w_session w))"
    "ss_status (w_session w) = 0" "ss_tasklist (w_session w) = []" "w_regs w = (\<lambda>_. None)" "ss_driver (w_session w) = None"
    "ss_fd (w_session w) = 0" "w_acts w = []"
  shows "\<exists>w'. session_end E' sd False w = Some (0, w') \<and> \<not> w_alive w' \<and> w_msgs w' = w_msgs w \<and> w_next w' = w_next w \<and>
    w_acts w' = [Act_session_end sd]"
proof -
  have q: "queue_list w = []" using assms(2) by (simp add: queue_list_def)
  have "regs_known w" using assms by (simp add: regs_known_def regs_agree_def has_status_def)
  moreover have "msgs_ok (w_msgs w) (queue_list w)" by (simp add: q msgs_ok_def)
  moreover have "stop_acts w = []" using assms by (simp add: stop_acts_def)
  ultimately show ?thesis
    using session_end_spec [OF assms(3), of E' sd False] assms(9) q by auto
qed

lemma refuse_new_ok:
  assumes inv: "thread_ok S" and fr: "fresh_at E io p sd S S1" and mq: "en_mem_queue E"
  shows "\<exists>S'. refuse_session E (Some p) sd (configured p sv st S1) = Some S' \<and> thread_ok S' \<and>
    handles (lt_manager S') = handles (lt_manager S) \<and> lt_acts S' = lt_acts S @ [Session_act p (Act_session_end sd)] \<and>
    lt_msgs S' = lt_msgs S \<and> lt_sessions S' = lt_sessions S \<and>
    (\<forall>q e. lt_sessions S q = Some e \<longrightarrow> pending (focus e S') = pending (focus e S))"
proof -
  obtain T where T: "remove_session p (configured p sv st S1) = Some T" "thread_ok (without p (log_acts [Session_act p (Act_session_end sd)] T))"
    "handles (lt_manager T) = handles (lt_manager S)" "lt_acts T = lt_acts S" "lt_msgs T = lt_msgs S"
    "\<forall>q. q \<noteq> p \<longrightarrow> lt_sessions T q = lt_sessions S q" "\<forall>q e. lt_sessions S q = Some e \<longrightarrow> pending (focus e T) = pending (focus e S)"
    using remove_new_ok [OF inv fr, of sv st "[Session_act p (Act_session_end sd)]"] by blast
  obtain m where m: "T = (configured p sv st S1)\<lparr>lt_manager := m\<rparr>" using T(1) remove_new [OF inv fr, of sv st] by auto
  define e where "e = (new_entity E io sd)\<lparr>e_service := sv, e_session := (e_session (new_entity E io sd))\<lparr>ss_setting := st\<rparr>\<rparr>"
  have e: "lt_sessions T p = Some e" using fr by (auto simp: m configured_def fresh_at_def e_def)
  obtain q where q: "QUEUE_INIT True (0::nat) DEFAULT_SENDQUEUE_SIZE = (0, q)" "ring_ok q" "ring_list q = []"
    using new_queue by blast
  define w where "w = on_session (\<lambda>s. s\<lparr>ss_id := 0\<rparr>) (focus e T)"
  have ws: "w_session w = (new_session True)\<lparr>ss_id := 0, ss_setting := st\<rparr>"
    using mq by (simp add: w_def on_session_def e_def new_entity_def)
  obtain w' where w': "session_end E sd False w = Some (0, w')" "\<not> w_alive w'" "w_msgs w' = lt_msgs T" "w_next w' = lt_next T"
    "w_acts w' = [Act_session_end sd]"
    using end_new [OF mq, of w E sd] q unfolding ws by (auto simp: new_session_def w_def on_session_def e_def new_entity_def)
  have u: "unfocus p e w' T = without p (log_acts [Session_act p (Act_session_end sd)] T)"
    using w' by (simp add: unfocus_def without_def log_acts_def)
  have "with_session p (\<lambda>e w. session_end E sd False (on_session (\<lambda>s. s\<lparr>ss_id := 0\<rparr>) w)) T
      = Some (0, without p (log_acts [Session_act p (Act_session_end sd)] T))"
    using w'(1,5) e by (simp add: with_session_def u retire_def is_removal_def flip: w_def)
  then have r: "refuse_session E (Some p) sd (configured p sv st S1) = Some (without p (log_acts [Session_act p (Act_session_end sd)] T))"
    using T(1) by (simp add: refuse_session_def)
  have s: "lt_sessions (without p (log_acts as T)) = lt_sessions S" for as
    using T(6) next_unused [OF inv] fr by (auto simp: log_acts_def fresh_at_def)
  have "pending (focus e (without p (log_acts as T))) = pending (focus e T)" for e as
    by (simp add: pending_def queue_list_def focus_def log_acts_def)
  then show ?thesis using r T(2-5,7) s by (intro exI [of _ "without p (log_acts [Session_act p (Act_session_end sd)] T)"]) (simp add: log_acts_def)
qed

end
