(* ===== verification/GateProps.thy ===== *)
theory GateProps
  imports GateFacts LayerExample
begin

text \<open>
  Accepting, connecting, associating and listening as a whole: who owns a descriptor afterwards, and that the
  thread keeps its invariant.
\<close>

section \<open>The application\<close>

text \<open>
  A callback that is offered the session \<open>p\<close> configures it and nothing else; if it takes the session, it
  gives it a service that works through the library and leaves the descriptor alone.
\<close>

definition offer_ok :: "environment \<Rightarrow> nat \<Rightarrow> int \<times> io_thread \<Rightarrow> io_thread \<Rightarrow> bool" where
  "offer_ok E p r S \<longleftrightarrow> (\<exists>sv st. snd r = configured p sv st S \<and>
     (fst r = 0 \<longrightarrow> (\<exists>v. sv = Some v \<and> env_accounted (E\<lparr>en_service := v\<rparr>) \<and>
        (\<forall>w. ss_fd (w_session (snd (sv_start v w))) = ss_fd (w_session w)))))"

definition accept_ok :: "environment \<Rightarrow> accept_callback \<Rightarrow> bool" where
  "accept_ok E cb \<longleftrightarrow>
     (\<forall>sd host port S p. handles (lt_manager S) (key sd) = Some p \<longrightarrow> offer_ok E p (cb sd host port S) S)"

lemma fresh_handles: "fresh_at E io p sd S S1 \<Longrightarrow> handles (lt_manager S1) (key sd) = Some p \<and> se_id (lt_manager S1) p = sd \<and>
    handles (lt_manager S) (key sd) = None \<and> p = lt_next S"
  by (auto simp: fresh_at_def)

text \<open>A session of the thread that has taken over the descriptor \<open>fd\<close>; the rest is as in \<open>S\<close>.\<close>

definition session_takes :: "int \<Rightarrow> io_thread \<Rightarrow> io_thread \<Rightarrow> bool" where
  "session_takes fd S S' \<longleftrightarrow> thread_ok S' \<and> (\<exists>p sd e. handles (lt_manager S) (key sd) = None \<and>
     handles (lt_manager S') = (handles (lt_manager S))(key sd \<mapsto> p) \<and> lt_sessions S p = None \<and> lt_sessions S' p = Some e \<and>
     ss_id (e_session e) = sd \<and> ss_fd (e_session e) = fd \<and>
     (has_status SESSION_READING (focus e S') \<or> has_status SESSION_EXITING (focus e S')) \<and>
     (\<exists>as. lt_acts S' = lt_acts S @ map (Session_act p) as))"

definition others_kept :: "io_thread \<Rightarrow> io_thread \<Rightarrow> bool" where
  "others_kept S S' \<longleftrightarrow>
     (\<forall>q e. lt_sessions S q = Some e \<longrightarrow> lt_sessions S' q = Some e \<and> pending (focus e S') = pending (focus e S))"

lemma started_takes:
  assumes "thread_ok S" "fresh_at E io p sd S S1" "sets_endpoint f" "0 < fd" "env_accounted (E\<lparr>en_service := sv\<rparr>)"
    "\<forall>w. ss_fd (w_session (snd (sv_start sv w))) = ss_fd (w_session w)"
  shows "\<exists>S'. start_session E p f type fd (configured p (Some sv) st S1) = Some S' \<and> session_takes fd S S' \<and> others_kept S S'"
proof -
  obtain S' e where S': "start_session E p f type fd (configured p (Some sv) st S1) = Some S'" "thread_ok S'"
    "\<forall>q. q \<noteq> p \<longrightarrow> lt_sessions S' q = lt_sessions S q"
    "\<forall>q e. q \<noteq> p \<and> lt_sessions S q = Some e \<longrightarrow> pending (focus e S') = pending (focus e S)"
    "handles (lt_manager S') = (handles (lt_manager S))(key sd \<mapsto> p)" "lt_sessions S' p = Some e" "ss_id (e_session e) = sd"
    "ss_fd (e_session e) = fd" "has_status SESSION_READING (focus e S') \<or> has_status SESSION_EXITING (focus e S')"
    "\<exists>as. lt_acts S' = lt_acts S @ map (Session_act p) as"
    using start_new [OF assms] by blast
  note f = fresh_handles [OF assms(2)]
  have n: "lt_sessions S p = None" using next_unused [OF assms(1)] f by simp
  have "session_takes fd S S'" unfolding session_takes_def using S' n f by blast
  moreover have "others_kept S S'" unfolding others_kept_def using S'(3,4) n by (metis option.distinct(1))
  ultimately show ?thesis using S'(1) by blast
qed

text \<open>
  C15: What becomes of an accepted connection.  \<open>_assign_direct\<close> (TCP) either gives the descriptor to a new
  session, which waits for data under a new identifier, or closes it and frees the host, each exactly
  once (the session table is full or out of memory, or the application refuses); no other session of the
  thread is affected, and the thread keeps its invariant.  After a refusal the block of the new session is still
  allocated although no identifier leads to it: it is never released.
\<close>
theorem assign_direct_settles:
  assumes inv: "thread_ok S" and cb: "accept_ok E cb" and mq: "en_mem_queue E" and fd: "0 < ta_fd task" and ty: "ta_type task = NETWORK_TCP"
  shows "\<exists>rc S'. assign_direct E su cb kcp task S = Some (rc, S') \<and> others_kept S S' \<and>
    (if rc = 0 then session_takes (ta_fd task) S S'
     else lt_acts S' = lt_acts S @ Close_fd (ta_fd task) # free_host (ta_host task) \<and>
       handles (lt_manager S') = handles (lt_manager S) \<and> thread_ok (without (lt_next S) S') \<and>
       (lt_sessions S' (lt_next S) \<noteq> None \<longleftrightarrow> rc = 1))"
proof -
  have ft: "free_task_assign task = Close_fd (ta_fd task) # free_host (ta_host task)" using fd ty by (simp add: free_task_assign_def)
  consider (full) "iolayer_alloc_session E (su_expand su) (su_fresh su) (su_io su) S = Some (None, S)"
    | (new) sd S1 where "iolayer_alloc_session E (su_expand su) (su_fresh su) (su_io su) S = Some (Some (lt_next S), S1)"
        "fresh_at E (su_io su) (lt_next S) sd S S1"
    using alloc_cases [OF inv] by blast
  then show ?thesis
  proof cases
    case full
    have "lt_sessions S = (lt_sessions S)(lt_next S := None)" using next_unused [OF inv] by auto
    then have w: "without (lt_next S) (log_acts as S) = log_acts as S" for as by (simp add: without_def log_acts_def)
    have "thread_ok (log_acts as S)" for as
      using inv unfolding thread_inv_def by (simp add: log_acts_def session_listed_def focus_def entries_def queue_of_def)
    then show ?thesis
      using full next_unused [OF inv] ft
      by (simp add: assign_direct_def w others_kept_def) (simp add: log_acts_def focus_def pending_def queue_list_def)
  next
    case new
    define p where "p = lt_next S"
    note f = fresh_handles [OF new(2)]
    obtain rc T where r: "cb sd (ta_host task) (ta_port task) S1 = (rc, T)" by fastforce
    then obtain sv st where T: "T = configured p sv st S1"
      "rc = 0 \<longrightarrow> (\<exists>v. sv = Some v \<and> env_accounted (E\<lparr>en_service := v\<rparr>) \<and> (\<forall>w. ss_fd (w_session (snd (sv_start v w))) = ss_fd (w_session w)))"
      using cb f unfolding accept_ok_def offer_ok_def p_def by (metis fst_conv snd_conv)
    show ?thesis
    proof (cases "rc = 0")
      case True
      then obtain v where v: "sv = Some v" "env_accounted (E\<lparr>en_service := v\<rparr>)" "\<forall>w. ss_fd (w_session (snd (sv_start v w))) = ss_fd (w_session w)"
        using T(2) by blast
      obtain S' where "start_session E p (session_set_endpoint (ta_host task) (ta_port task)) eSessionType_Accept (ta_fd task) T = Some S'"
        "session_takes (ta_fd task) S S'" "others_kept S S'"
        using started_takes [OF inv new(2) setters_endpoint(1) fd v(2,3)] unfolding T(1) v(1) p_def by blast
      then show ?thesis using new(1) f r True ty by (intro exI [of _ 0] exI [of _ S']) (simp add: assign_direct_def p_def)
    next
      case False
      obtain S' where S': "remove_session p T = Some S'" "thread_ok (without p (log_acts (free_task_assign task) S'))"
        "lt_sessions S' p \<noteq> None" "handles (lt_manager S') = handles (lt_manager S)" "lt_acts S' = lt_acts S"
        "\<forall>q. q \<noteq> p \<longrightarrow> lt_sessions S' q = lt_sessions S q"
        "\<forall>q e. lt_sessions S q = Some e \<longrightarrow> pending (focus e S') = pending (focus e S)"
        using remove_new_ok [OF inv new(2), of sv st "free_task_assign task"] unfolding T(1) p_def by blast
      have "others_kept S (log_acts as S')" for as
        unfolding others_kept_def using S'(6,7) next_unused [OF inv]
        by (metis (no_types, lifting) p_def log_acts_def option.distinct(1) focus_def io_thread.select_convs io_thread.surjective io_thread.update_convs(6))
      moreover have "assign_direct E su cb kcp task S = Some (1, log_acts (free_task_assign task) S')"
        using new(1) f r False S'(1) by (simp add: assign_direct_def p_def)
      ultimately show ?thesis
        using S'(2-5) ft
        by (intro exI [of _ 1] exI [of _ "log_acts (free_task_assign task) S'"]) (simp add: log_acts_def p_def)
    qed
  qed
qed

section \<open>Connecting\<close>

definition connect_ok :: "environment \<Rightarrow> connect_callback \<Rightarrow> bool" where
  "connect_ok E cb \<longleftrightarrow>
     (\<forall>host port sd S p. handles (lt_manager S) (key sd) = Some p \<longrightarrow> offer_ok E p (cb 0 host port sd S) S) \<and>
     (\<forall>r host port sd S. r \<noteq> 0 \<longrightarrow> snd (cb r host port sd S) = S)"

text \<open>A connector whose event has just fired: in the list of its thread exactly if it has tried before.\<close>

definition connector_ok :: "nat \<Rightarrow> connector \<Rightarrow> gate \<Rightarrow> bool" where
  "connector_ok c x G \<longleftrightarrow> gt_connectors G c = Some x \<and> cn_event x \<and> cn_host x \<noteq> None \<and> gt_regs G (Ev_connect c) = None \<and>
     distinct (gt_connectlist G) \<and> cn_state x \<in> {0, 1} \<and> (cn_state x = 1 \<longleftrightarrow> c \<in> set (gt_connectlist G))"

definition connector_gone :: "nat \<Rightarrow> gate \<Rightarrow> bool" where
  "connector_gone c G \<longleftrightarrow> gt_connectors G c = None \<and> c \<notin> set (gt_connectlist G) \<and> gt_regs G (Ev_connect c) = None"

lemma free_connector_ok:
  assumes "connector_ok c x G" "gt_connectors G' c = Some (x\<lparr>cn_fd := fd\<rparr>)" "gt_connectlist G' = gt_connectlist G" "gt_regs G' = gt_regs G"
  shows "\<exists>G''. iolayer_free_connector c G' = Some G'' \<and> connector_gone c G'' \<and>
    gt_thread G'' = log_acts (Free_host # close_positive fd) (gt_thread G')"
proof -
  have l: "cn_state x = 1 \<longrightarrow> c \<in> set (gt_connectlist G)" "cn_state x \<noteq> 1 \<longrightarrow> c \<notin> set (gt_connectlist G)" "distinct (gt_connectlist G)"
    "cn_event x" "cn_host x \<noteq> None"
    using assms(1) by (auto simp: connector_ok_def)
  show ?thesis
    using assms(2-4) l
    by (cases "cn_state x = 1")
      (auto simp: iolayer_free_connector_def stailq_remove_def connector_gone_def gate_log_def on_thread_def log_acts_def
        gate_remove_def free_host_def Let_def)
qed

definition connector_waits :: "nat \<Rightarrow> gate \<Rightarrow> bool" where
  "connector_waits c G \<longleftrightarrow> (\<exists>x. gt_connectors G c = Some x \<and> cn_fd x = - 1 \<and> cn_state x = 1 \<and> c \<in> set (gt_connectlist G) \<and>
     gt_regs G (Ev_connect c) =
       Some \<lparr>gr_fd = - 1, gr_events = 0, gr_callback = Reconnect_direct, gr_tv = TRY_RECONNECT_INTERVAL\<rparr>)"

lemma log_acts_ok:
  "thread_inv X d (log_acts as S) = thread_inv X d S" "others_kept S0 (log_acts as S) = others_kept S0 S"
  by (simp_all add: thread_inv_def log_acts_def session_listed_def focus_def entries_def queue_of_def others_kept_def
      pending_def queue_list_def)

lemma others_kept_refl: "others_kept S S"
  by (simp add: others_kept_def)

text \<open>
  C16: What becomes of a connection attempt.  When its event fires, the connector ends up in one of three
  ways: the descriptor belongs to a new session that waits for data and the connector is released; or it
  is closed exactly once and the connector is released; or it is closed exactly once and the connector
  waits for its next attempt.  The host is freed exactly when the connector is released, a session the application refuses
  leaves nothing behind, and the thread and its other sessions are as before.
\<close>
theorem connected_settles:
  assumes inv: "thread_ok (gt_thread G)" and x: "connector_ok c x G" and cb: "connect_ok E cb" and mq: "en_mem_queue E" and fd: "0 < cn_fd x"
  shows "\<exists>G' S1 as. channel_on_connected E su strdup cb c ev G = Some G' \<and> thread_ok (gt_thread G') \<and>
    others_kept (gt_thread G) (gt_thread G') \<and> gt_thread G' = log_acts as S1 \<and>
    (connector_gone c G' \<and> session_takes (cn_fd x) (gt_thread G) S1 \<and> as = [Free_host] \<or>
     lt_sessions S1 = lt_sessions (gt_thread G) \<and> handles (lt_manager S1) = handles (lt_manager (gt_thread G)) \<and>
     (\<exists>ends. lt_acts S1 = lt_acts (gt_thread G) @ ends \<and> (\<forall>a \<in> set ends. \<exists>p sd. a = Session_act p (Act_session_end sd))) \<and>
     (connector_gone c G' \<and> as = [Free_host, Close_fd (cn_fd x)] \<or> connector_waits c G' \<and> as = [Close_fd (cn_fd x)]))"
proof -
  define S where "S = gt_thread G"
  have inv': "thread_ok S" using inv by (simp add: S_def)
  have cx: "gt_connectors G c = Some x" "cn_state x \<in> {0, 1}" "gt_regs G (Ev_connect c) = None"
    "cn_state x = 1 \<longleftrightarrow> c \<in> set (gt_connectlist G)"
    using x unfolding connector_ok_def by blast+
  obtain h where h: "cn_host x = Some h" using x by (auto simp: connector_ok_def)
  have xx: "x\<lparr>cn_fd := cn_fd x\<rparr> = x" by simp
  obtain oc where oc: "outcome_session E su (connect_outcome E ev) S = Some oc"
    "(\<exists>r. oc = (r, None, 0, S) \<and> r \<noteq> 0) \<or> (\<exists>sd S1. oc = (0, Some (lt_next S), sd, S1) \<and> fresh_at E (su_io su) (lt_next S) sd S S1)"
  proof (cases "connect_outcome E ev = 0")
    case True
    consider (full) "iolayer_alloc_session E (su_expand su) (su_fresh su) (su_io su) S = Some (None, S)"
      | (new) sd S1 where "iolayer_alloc_session E (su_expand su) (su_fresh su) (su_io su) S = Some (Some (lt_next S), S1)"
          "fresh_at E (su_io su) (lt_next S) sd S S1"
      using alloc_cases [OF inv'] by blast
    then show ?thesis
    proof cases
      case full
      then show ?thesis using True that [of "(eIOError_OutMemory, None, 0, S)"] by (simp add: outcome_session_def eIOError_OutMemory_def)
    next
      case new
      then show ?thesis
        using True fresh_handles [OF new(2)] that [of "(0, Some (lt_next S), sd, S1)"] by (simp add: outcome_session_def)
    qed
  next
    case False
    then show ?thesis using that by (simp add: outcome_session_def)
  qed
  have drop: "\<exists>G'. iolayer_free_connector c (G\<lparr>gt_thread := T\<rparr>) = Some G' \<and> connector_gone c G' \<and>
      gt_thread G' = log_acts [Free_host, Close_fd (cn_fd x)] T" for T
    using free_connector_ok [OF x, of "G\<lparr>gt_thread := T\<rparr>" "cn_fd x"] cx(1) fd by (simp add: xx close_positive_def)
  from oc(2) show ?thesis
  proof (elim disjE exE conjE)
    fix r assume r: "oc = (r, None, 0, S)" "r \<noteq> 0"
    obtain ack where a: "cb r (cn_host x) (cn_port x) 0 S = (ack, S)"
      using cb r(2) unfolding connect_ok_def by (metis prod.collapse)
    show ?thesis
    proof (cases "ack = 0")
      case True
      define T where "T = gate_log (close_positive (cn_fd x)) (G\<lparr>gt_thread := S\<rparr>)"
      define H where "H = (if cn_state x = 0 then T\<lparr>gt_connectors := (gt_connectors T)(c \<mapsto> x\<lparr>cn_fd := - 1, cn_state := 1\<rparr>),
        gt_connectlist := gt_connectlist T @ [c]\<rparr> else T\<lparr>gt_connectors := (gt_connectors T)(c \<mapsto> x\<lparr>cn_fd := - 1\<rparr>)\<rparr>)"
      define G' where "G' = gate_register (Ev_connect c) (- 1) 0 Reconnect_direct TRY_RECONNECT_INTERVAL H"
      have "channel_on_connected E su strdup cb c ev G = Some G'"
        using cx(1) oc(1) r a True fd by (simp add: channel_on_connected_def S_def [symmetric] G'_def H_def T_def Let_def)
      moreover have "connector_waits c G'"
        using cx by (auto simp: connector_waits_def G'_def H_def T_def gate_register_def gate_log_def on_thread_def armed_def TRY_RECONNECT_INTERVAL_def)
      moreover have "gt_thread G' = log_acts [Close_fd (cn_fd x)] S"
        using fd by (simp add: G'_def H_def T_def gate_register_def gate_log_def on_thread_def log_acts_def close_positive_def)
      ultimately show ?thesis
        using inv' by (intro exI [of _ G'] exI [of _ S] exI [of _ "[Close_fd (cn_fd x)]"])
          (simp add: log_acts_ok others_kept_refl S_def [symmetric])
    next
      case False
      obtain G' where G': "iolayer_free_connector c (G\<lparr>gt_thread := S\<rparr>) = Some G'" "connector_gone c G'"
        "gt_thread G' = log_acts [Free_host, Close_fd (cn_fd x)] S"
        using drop by blast
      have "channel_on_connected E su strdup cb c ev G = Some G'"
        using cx(1) oc(1) r a False G'(1) by (simp add: channel_on_connected_def S_def [symmetric] refuse_session_def)
      then show ?thesis
        using inv' G'(2,3) by (intro exI [of _ G'] exI [of _ S] exI [of _ "[Free_host, Close_fd (cn_fd x)]"])
          (simp add: log_acts_ok others_kept_refl S_def [symmetric])
    qed
  next
    fix sd S1 assume r: "oc = (0, Some (lt_next S), sd, S1)" and fr: "fresh_at E (su_io su) (lt_next S) sd S S1"
    note f = fresh_handles [OF fr]
    obtain ack T where a: "cb 0 (cn_host x) (cn_port x) sd S1 = (ack, T)" by fastforce
    then obtain sv st where T: "T = configured (lt_next S) sv st S1"
      "ack = 0 \<longrightarrow> (\<exists>v. sv = Some v \<and> env_accounted (E\<lparr>en_service := v\<rparr>) \<and> (\<forall>w. ss_fd (w_session (snd (sv_start v w))) = ss_fd (w_session w)))"
      using cb f unfolding connect_ok_def offer_ok_def by (metis fst_conv snd_conv)
    show ?thesis
    proof (cases "ack = 0")
      case True
      then obtain v where v: "sv = Some v" "env_accounted (E\<lparr>en_service := v\<rparr>)" "\<forall>w. ss_fd (w_session (snd (sv_start v w))) = ss_fd (w_session w)"
        using T(2) by blast
      obtain S' where S': "start_session E (lt_next S) (session_copy_endpoint strdup h (cn_port x)) eSessionType_Connect (cn_fd x) T = Some S'"
        "session_takes (cn_fd x) S S'" "others_kept S S'"
        using started_takes [OF inv' fr setters_endpoint(2) fd v(2,3)] unfolding T(1) v(1) by blast
      define H where "H = G\<lparr>gt_thread := S', gt_connectors := (gt_connectors G)(c \<mapsto> x\<lparr>cn_fd := - 1\<rparr>)\<rparr>"
      obtain G' where G': "iolayer_free_connector c H = Some G'" "connector_gone c G'" "gt_thread G' = log_acts [Free_host] S'"
        using free_connector_ok [OF x, of H "- 1"] by (auto simp: H_def close_positive_def)
      have "channel_on_connected E su strdup cb c ev G = Some G'"
        using cx(1) oc(1) r a True S'(1) G'(1) h by (simp add: channel_on_connected_def S_def [symmetric] H_def)
      moreover have "thread_ok S'" using S'(2) by (simp add: session_takes_def)
      ultimately show ?thesis
        using S'(2,3) G'(2,3) by (intro exI [of _ G'] exI [of _ S'] exI [of _ "[Free_host]"]) (simp add: log_acts_ok S_def [symmetric])
    next
      case False
      obtain S' where S': "refuse_session E (Some (lt_next S)) sd T = Some S'" "thread_ok S'"
        "handles (lt_manager S') = handles (lt_manager S)" "lt_acts S' = lt_acts S @ [Session_act (lt_next S) (Act_session_end sd)]"
        "lt_sessions S' = lt_sessions S" "\<forall>q e. lt_sessions S q = Some e \<longrightarrow> pending (focus e S') = pending (focus e S)"
        using refuse_new_ok [OF inv' fr mq, of sv st] unfolding T(1) by blast
      obtain G' where G': "iolayer_free_connector c (G\<lparr>gt_thread := S'\<rparr>) = Some G'" "connector_gone c G'"
        "gt_thread G' = log_acts [Free_host, Close_fd (cn_fd x)] S'"
        using drop by blast
      have "channel_on_connected E su strdup cb c ev G = Some G'"
        using cx(1) oc(1) r a False S'(1) G'(1) by (simp add: channel_on_connected_def S_def [symmetric])
      moreover have "others_kept S S'" using S'(5,6) by (simp add: others_kept_def)
      ultimately show ?thesis
        using S'(2-5) G'(2,3) by (intro exI [of _ G'] exI [of _ S'] exI [of _ "[Free_host, Close_fd (cn_fd x)]"])
          (simp add: log_acts_ok S_def [symmetric])
    qed
  qed
qed

section \<open>Listeners that cannot be set up\<close>

text \<open>Without the table of endpoints or the list of sockets the release of the half-made acceptor dereferences NULL.\<close>

lemma kcp_listen_faults:
  assumes "la_memory an" "\<not> (la_eptable an \<and> la_transferlist an)" "0 < (case n of None \<Rightarrow> 16 | Some n \<Rightarrow> n)"
  shows "server_listen NETWORK_KCP index host port n an a G = None"
  using assms by (auto simp: server_listen_def NETWORK_KCP_def NETWORK_TCP_def iolayer_free_acceptor_def acceptor_transfers_def gate_log_def
      on_thread_def Let_def split: option.splits)

text \<open>A TCP listener that cannot be set up leaves nothing behind: what was opened is closed.\<close>

lemma tcp_listen_failure:
  assumes "la_memory an" "la_event an" "la_listen an < 0" "0 < la_idlefd an"
  shows "\<exists>G'. server_listen NETWORK_TCP index host port n an a G = Some (- 3, G') \<and> gt_acceptors G' a = None \<and>
    lt_acts (gt_thread G') = lt_acts (gt_thread G) @ free_host host @ [Close_fd (la_idlefd an)]"
  using assms by (simp add: server_listen_def iolayer_free_acceptor_def acceptor_transfers_def gate_log_def on_thread_def
      gate_remove_def close_positive_def Let_def)

text \<open>A connection that cannot be accepted for another reason than a lack of descriptors: the host is not freed.\<close>

lemma accept_failure_leaks:
  assumes "gt_acceptors G a = Some x" "en_running E" "aa_cfd an = - 1" "\<not> aa_emfile an" "ev AND EV_READ \<noteq> 0"
  shows "channel_on_accept E su ntop cb kcp an a ev G = Some (gate_log [Alloc_host] G)"
  using assms by (simp add: channel_on_accept_def tcp_accept_def gate_log_def on_thread_def)

section \<open>Examples\<close>

definition take_all :: accept_callback where
  "take_all sd host port S = (case handles (lt_manager S) (key sd) of
     Some p \<Rightarrow> (0, configured p (Some (en_service demo_env)) init_settings S) | None \<Rightarrow> (1, S))"

lemma demo_env_accounted: "env_accounted (demo_env\<lparr>en_service := en_service demo_env\<rparr>)" "sv_start (en_service demo_env) w = (0, w)"
proof -
  have "callback_accounted (\<lambda>w. w)" by (simp add: callback_accounted_def accounted_refl)
  then show "env_accounted (demo_env\<lparr>en_service := en_service demo_env\<rparr>)"
    using demo_env_ok by (simp add: env_accounted_def env_ok_def memory_ok_def quiet_def) (simp add: demo_env_def)
  show "sv_start (en_service demo_env) w = (0, w)" by (simp add: demo_env_def)
qed

lemma take_all_ok: "accept_ok demo_env take_all"
  using demo_env_accounted by (auto simp: accept_ok_def take_all_def offer_ok_def intro!: exI)

definition demo_provision :: provision where
  "demo_provision = \<lparr>su_expand = True, su_fresh = (\<lambda>_. demo_slot 0), su_io = []\<rparr>"

definition demo_assign :: task_assign where
  "demo_assign = \<lparr>ta_fd = 9, ta_type = NETWORK_TCP, ta_port = 80, ta_host = None, ta_acceptor = 4\<rparr>"

theorem assign_direct_settles_witness:
  "\<exists>rc S'. assign_direct demo_env demo_provision take_all (\<lambda>_ _. None) demo_assign (demo_thread None None) = Some (rc, S') \<and>
    (if rc = 0 then session_takes 9 (demo_thread None None) S' else lt_acts S' = [Close_fd 9])"
proof -
  have t: "0 < ta_fd demo_assign" "ta_type demo_assign = NETWORK_TCP" "en_mem_queue demo_env" "ta_fd demo_assign = 9" "ta_host demo_assign = None"
    by (simp_all add: demo_assign_def demo_env_def)
  obtain rc S' where S': "assign_direct demo_env demo_provision take_all (\<lambda>_ _. None) demo_assign (demo_thread None None) = Some (rc, S')"
    "if rc = 0 then session_takes 9 (demo_thread None None) S'
     else lt_acts S' = lt_acts (demo_thread None None) @ Close_fd 9 # free_host None"
    using assign_direct_settles [OF demo_thread_ok take_all_ok t(3,1,2), of demo_provision "\<lambda>_ _. None" None]
    unfolding t(4,5) by (metis (full_types))
  then show ?thesis by (intro exI [of _ rc] exI [of _ S']) (simp add: free_host_def split: if_splits)
qed

definition demo_connector :: connector where
  "demo_connector = \<lparr>cn_fd = 9, cn_index = 0, cn_event = True, cn_host = Some ''host'', cn_port = 80, cn_state = 0\<rparr>"

definition demo_gate :: gate where
  "demo_gate = \<lparr>gt_thread = demo_thread None None, gt_acceptors = (\<lambda>_. None),
     gt_connectors = (\<lambda>c. if c = 4 then Some demo_connector else None), gt_associaters = (\<lambda>_. None), gt_acceptlist = [],
     gt_connectlist = [], gt_associatelist = [], gt_regs = (\<lambda>_. None), gt_refuse = (\<lambda>_. False)\<rparr>"

definition retry_all :: connect_callback where
  "retry_all r host port sd S = (if r = 0 then take_all sd host port S else (0, S))"

lemma retry_all_ok: "connect_ok demo_env retry_all"
  using take_all_ok by (auto simp: connect_ok_def retry_all_def accept_ok_def)

theorem connected_settles_witness:
  "\<exists>G'. channel_on_connected demo_env demo_provision True retry_all 4 EV_WRITE demo_gate = Some G' \<and> thread_ok (gt_thread G') \<and>
    (connector_gone 4 G' \<or> connector_waits 4 G')"
proof -
  have "connector_ok 4 demo_connector demo_gate" by (simp add: connector_ok_def demo_gate_def demo_connector_def)
  moreover have "thread_ok (gt_thread demo_gate)" using demo_thread_ok by (simp add: demo_gate_def)
  moreover have "en_mem_queue demo_env" "0 < cn_fd demo_connector" by (simp_all add: demo_env_def demo_connector_def)
  ultimately show ?thesis
    using connected_settles [of demo_gate 4 demo_connector demo_env retry_all demo_provision True EV_WRITE] retry_all_ok by blast
qed

end
