(* ===== verification/Kcp.thy ===== *)
theory Kcp
  imports Prelude
begin

unbundle bit_operations_syntax

text \<open>
  The reliable protocol on datagrams of \<^verbatim>\<open>src/ikcp.c\<close> and \<^verbatim>\<open>src/ikcp.h\<close>: segments with serial numbers, their
  encoding, sending in fragments, reordering, acknowledgement, retransmission, and the windows.

  Serial numbers and times are 32-bit words that wrap around and are compared by the sign of their
  difference.  The queues of segments (\<open>iqueue\<close>) are lists.  What the protocol gives to the output
  callback is collected; what the allocator answers is an argument.  A write beyond the block for
  outgoing datagrams and the use of a block that could not be allocated are faults (\<open>None\<close>).
\<close>

section \<open>Constants\<close>

definition IKCP_RTO_NDL :: u32 where "IKCP_RTO_NDL = 30"
definition IKCP_RTO_MIN :: u32 where "IKCP_RTO_MIN = 100"
definition IKCP_RTO_DEF :: u32 where "IKCP_RTO_DEF = 200"
definition IKCP_RTO_MAX :: u32 where "IKCP_RTO_MAX = 60000"
definition IKCP_CMD_PUSH :: u32 where "IKCP_CMD_PUSH = 81"
definition IKCP_CMD_ACK :: u32 where "IKCP_CMD_ACK = 82"
definition IKCP_CMD_WASK :: u32 where "IKCP_CMD_WASK = 83"
definition IKCP_CMD_WINS :: u32 where "IKCP_CMD_WINS = 84"
definition IKCP_ASK_SEND :: u32 where "IKCP_ASK_SEND = 1"
definition IKCP_ASK_TELL :: u32 where "IKCP_ASK_TELL = 2"
definition IKCP_WND_SND :: u32 where "IKCP_WND_SND = 32"
definition IKCP_WND_RCV :: u32 where "IKCP_WND_RCV = 128"
definition IKCP_MTU_DEF :: u32 where "IKCP_MTU_DEF = 1400"
definition IKCP_INTERVAL :: u32 where "IKCP_INTERVAL = 100"
definition IKCP_OVERHEAD :: nat where "IKCP_OVERHEAD = 24"
definition IKCP_DEADLINK :: u32 where "IKCP_DEADLINK = 20"
definition IKCP_THRESH_INIT :: u32 where "IKCP_THRESH_INIT = 2"
definition IKCP_THRESH_MIN :: u32 where "IKCP_THRESH_MIN = 2"
definition IKCP_PROBE_INIT :: u32 where "IKCP_PROBE_INIT = 7000"
definition IKCP_PROBE_LIMIT :: u32 where "IKCP_PROBE_LIMIT = 120000"
definition IKCP_FASTACK_LIMIT :: int where "IKCP_FASTACK_LIMIT = 5"

section \<open>Encoding\<close>

text \<open>The machine is little-endian; a decoder that would read outside its block faults.\<close>

definition ikcp_encode8u :: "byte \<Rightarrow> byte list" where
  "ikcp_encode8u c = [c]"

definition ikcp_encode16u :: "u16 \<Rightarrow> byte list" where
  "ikcp_encode16u w = [ucast w, ucast (drop_bit 8 w)]"

definition ikcp_encode32u :: "u32 \<Rightarrow> byte list" where
  "ikcp_encode32u l = [ucast l, ucast (drop_bit 8 l), ucast (drop_bit 16 l), ucast (drop_bit 24 l)]"

definition ikcp_decode8u :: "byte list \<Rightarrow> (byte \<times> byte list) option" where
  "ikcp_decode8u p = (case p of c # p \<Rightarrow> Some (c, p) | _ \<Rightarrow> None)"

definition ikcp_decode16u :: "byte list \<Rightarrow> (u16 \<times> byte list) option" where
  "ikcp_decode16u p = (case p of a # b # p \<Rightarrow> Some (ucast a OR push_bit 8 (ucast b), p) | _ \<Rightarrow> None)"

definition ikcp_decode32u :: "byte list \<Rightarrow> (u32 \<times> byte list) option" where
  "ikcp_decode32u p = (case p of a # b # c # d # p \<Rightarrow>
     Some (ucast a OR push_bit 8 (ucast b) OR push_bit 16 (ucast c) OR push_bit 24 (ucast d), p) | _ \<Rightarrow> None)"

definition imin :: "u32 \<Rightarrow> u32 \<Rightarrow> u32" where "imin a b = (if a \<le> b then a else b)"
definition imax :: "u32 \<Rightarrow> u32 \<Rightarrow> u32" where "imax a b = (if a \<ge> b then a else b)"
definition ibound :: "u32 \<Rightarrow> u32 \<Rightarrow> u32 \<Rightarrow> u32" where "ibound lower middle upper = imin (imax lower middle) upper"
definition itimediff :: "u32 \<Rightarrow> u32 \<Rightarrow> int" where "itimediff later earlier = sint (later - earlier)"

section \<open>State\<close>

text \<open>The block of a segment is allocated for its data, so \<open>len\<close> is the length of \<open>sg_data\<close>.\<close>

record segment =
  sg_conv :: u32
  sg_cmd :: u32
  sg_frg :: u32
  sg_wnd :: u32
  sg_ts :: u32
  sg_sn :: u32
  sg_una :: u32
  sg_resendts :: u32
  sg_rto :: u32
  sg_fastack :: u32
  sg_xmit :: u32
  sg_data :: "byte list"

definition sg_len :: "segment \<Rightarrow> u32" where
  "sg_len s = of_nat (length (sg_data s))"

text \<open>
  \<open>kc_buffer\<close> is the size of the block for datagrams, \<open>kc_out\<close> what has been given to the output callback;
  the acknowledgements are the first \<open>ackcount\<close> entries of \<open>acklist\<close>.
\<close>

record kcp =
  kc_conv :: u32
  kc_mtu :: u32
  kc_mss :: u32
  kc_state :: u32
  kc_snd_una :: u32
  kc_snd_nxt :: u32
  kc_rcv_nxt :: u32
  kc_ssthresh :: u32
  kc_rx_rttval :: u32
  kc_rx_srtt :: u32
  kc_rx_rto :: u32
  kc_rx_minrto :: u32
  kc_snd_wnd :: u32
  kc_rcv_wnd :: u32
  kc_rmt_wnd :: u32
  kc_cwnd :: u32
  kc_probe :: u32
  kc_current :: u32
  kc_interval :: u32
  kc_ts_flush :: u32
  kc_xmit :: u32
  kc_nrcv_buf :: u32
  kc_nsnd_buf :: u32
  kc_nrcv_que :: u32
  kc_nsnd_que :: u32
  kc_nodelay :: u32
  kc_updated :: u32
  kc_ts_probe :: u32
  kc_probe_wait :: u32
  kc_dead_link :: u32
  kc_incr :: u32
  kc_snd_queue :: "segment list"
  kc_rcv_queue :: "segment list"
  kc_snd_buf :: "segment list"
  kc_rcv_buf :: "segment list"
  kc_acklist :: "(u32 \<times> u32) list"
  kc_ackblock :: u32
  kc_buffer :: nat
  kc_fastresend :: int
  kc_fastlimit :: int
  kc_nocwnd :: int
  kc_stream :: int
  kc_out :: "byte list list"

definition ikcp_create :: "bool \<Rightarrow> bool \<Rightarrow> u32 \<Rightarrow> kcp option" where
  "ikcp_create mem mem_buffer conv =
     (if \<not> mem then None
      else if \<not> mem_buffer then None
      else Some \<lparr>kc_conv = conv, kc_mtu = IKCP_MTU_DEF, kc_mss = IKCP_MTU_DEF - 24, kc_state = 0, kc_snd_una = 0,
        kc_snd_nxt = 0, kc_rcv_nxt = 0, kc_ssthresh = IKCP_THRESH_INIT, kc_rx_rttval = 0, kc_rx_srtt = 0,
        kc_rx_rto = IKCP_RTO_DEF, kc_rx_minrto = IKCP_RTO_MIN, kc_snd_wnd = IKCP_WND_SND, kc_rcv_wnd = IKCP_WND_RCV,
        kc_rmt_wnd = IKCP_WND_RCV, kc_cwnd = 0, kc_probe = 0, kc_current = 0, kc_interval = IKCP_INTERVAL,
        kc_ts_flush = IKCP_INTERVAL, kc_xmit = 0, kc_nrcv_buf = 0, kc_nsnd_buf = 0, kc_nrcv_que = 0, kc_nsnd_que = 0,
        kc_nodelay = 0, kc_updated = 0, kc_ts_probe = 0, kc_probe_wait = 0, kc_dead_link = IKCP_DEADLINK, kc_incr = 0,
        kc_snd_queue = [], kc_rcv_queue = [], kc_snd_buf = [], kc_rcv_buf = [], kc_acklist = [], kc_ackblock = 0,
        kc_buffer = (unat IKCP_MTU_DEF + IKCP_OVERHEAD) * 3, kc_fastresend = 0, kc_fastlimit = IKCP_FASTACK_LIMIT,
        kc_nocwnd = 0, kc_stream = 0, kc_out = []\<rparr>)"

text \<open>Returning nothing and returning NULL are told apart by the callers of \<open>ikcp_create\<close>; the blocks released at the end.\<close>

definition ikcp_release :: "kcp \<Rightarrow> segment list" where
  "ikcp_release k = kc_snd_buf k @ kc_rcv_buf k @ kc_snd_queue k @ kc_rcv_queue k"

section \<open>Receiving\<close>

fun peek_loop :: "segment list \<Rightarrow> u32 \<Rightarrow> u32" where
  "peek_loop [] n = n"
| "peek_loop (s # ss) n = (let n = n + sg_len s in if sg_frg s = 0 then n else peek_loop ss n)"

definition ikcp_peeksize :: "kcp \<Rightarrow> int" where
  "ikcp_peeksize k =
     (case kc_rcv_queue k of
        [] \<Rightarrow> - 1
      | s # ss \<Rightarrow>
          if sg_frg s = 0 then sint (sg_len s)
          else if kc_nrcv_que k < sg_frg s + 1 then - 1
          else sint (peek_loop (s # ss) 0))"

text \<open>The fragments of the first message: their bytes, and what is left of the queue and its counter.\<close>

fun recv_loop :: "segment list \<Rightarrow> u32 \<Rightarrow> byte list \<times> segment list \<times> u32" where
  "recv_loop [] n = ([], [], n)"
| "recv_loop (s # ss) n =
     (if sg_frg s = 0 then (sg_data s, ss, n - 1)
      else let (bs, ss, n) = recv_loop ss (n - 1) in (sg_data s @ bs, ss, n))"

text \<open>\<open>rcv_buf\<close> to \<open>rcv_queue\<close>, as long as the next expected segment is there and there is room.\<close>

fun move_loop :: "segment list \<Rightarrow> kcp \<Rightarrow> kcp" where
  "move_loop [] k = k"
| "move_loop (s # ss) k =
     (if sg_sn s = kc_rcv_nxt k \<and> kc_nrcv_que k < kc_rcv_wnd k
      then move_loop ss (k\<lparr>kc_rcv_buf := ss, kc_nrcv_buf := kc_nrcv_buf k - 1, kc_rcv_queue := kc_rcv_queue k @ [s],
             kc_nrcv_que := kc_nrcv_que k + 1, kc_rcv_nxt := kc_rcv_nxt k + 1\<rparr>)
      else k)"

text \<open>The bytes are those copied to the buffer of the caller, which has room for \<open>len\<close> (peeking if negative).\<close>

definition ikcp_recv :: "int \<Rightarrow> kcp \<Rightarrow> int \<times> byte list \<times> kcp" where
  "ikcp_recv len k =
     (if kc_rcv_queue k = [] then (- 1, [], k)
      else let peeksize = ikcp_peeksize k
           in if peeksize < 0 then (- 2, [], k)
              else if \<bar>len\<bar> < peeksize then (- 3, [], k)
              else let recover = kc_nrcv_que k \<ge> kc_rcv_wnd k;
                       (bs, queue, n) = recv_loop (kc_rcv_queue k) (kc_nrcv_que k);
                       k = (if len < 0 then k else k\<lparr>kc_rcv_queue := queue, kc_nrcv_que := n\<rparr>);
                       k = move_loop (kc_rcv_buf k) k;
                       k = (if kc_nrcv_que k < kc_rcv_wnd k \<and> recover then k\<lparr>kc_probe := kc_probe k OR IKCP_ASK_TELL\<rparr> else k)
                   in (int (length bs), bs, k))"

section \<open>Sending\<close>

text \<open>
  \<open>raw\<close> is a fresh block, \<open>mem i\<close> says whether allocating the block of fragment \<open>i\<close> succeeds; the message
  is at most \<open>2 ^ 31 - 1\<close> bytes, or its length is negative.
\<close>

fun fragment_loop :: "(nat \<Rightarrow> bool) \<Rightarrow> segment \<Rightarrow> nat \<Rightarrow> nat \<Rightarrow> byte list \<Rightarrow> int \<Rightarrow> kcp \<Rightarrow> int \<times> kcp" where
  "fragment_loop mem raw 0 i bs sent k = (sent, k)"
| "fragment_loop mem raw (Suc m) i bs sent k =
     (let n = min (unat (kc_mss k)) (length bs)
      in if \<not> mem i then (- 2, k)
         else let s = raw\<lparr>sg_data := take n bs, sg_frg := (if kc_stream k = 0 then of_nat m else 0)\<rparr>
              in fragment_loop mem raw m (Suc i) (drop n bs) (sent + int n)
                   (k\<lparr>kc_snd_queue := kc_snd_queue k @ [s], kc_nsnd_que := kc_nsnd_que k + 1\<rparr>))"

definition fragment_count :: "kcp \<Rightarrow> nat \<Rightarrow> nat" where
  "fragment_count k len =
     (if len \<le> unat (kc_mss k) then 1 else (len + unat (kc_mss k) - 1) div unat (kc_mss k))"

definition fragment :: "(nat \<Rightarrow> bool) \<Rightarrow> segment \<Rightarrow> byte list \<Rightarrow> int \<Rightarrow> kcp \<Rightarrow> int \<times> kcp" where
  "fragment mem raw bs sent k =
     (let count = fragment_count k (length bs)
      in if unat IKCP_WND_RCV \<le> count then (if kc_stream k \<noteq> 0 \<and> 0 < sent then sent else - 2, k)
         else fragment_loop mem raw (if count = 0 then 1 else count) 0 bs sent k)"

definition ikcp_send :: "bool \<Rightarrow> (nat \<Rightarrow> bool) \<Rightarrow> segment \<Rightarrow> byte list \<Rightarrow> kcp \<Rightarrow> int \<times> kcp" where
  "ikcp_send mem_extend mem raw bs k =
     (if 2 ^ 31 \<le> length bs then (- 1, k)
      else if kc_stream k = 0 then fragment mem raw bs 0 k
      else if kc_snd_queue k \<noteq> [] \<and> sg_len (last (kc_snd_queue k)) < kc_mss k then
        let old = last (kc_snd_queue k);
            extend = min (length bs) (unat (kc_mss k - sg_len old))
        in if \<not> mem_extend then (- 2, k)
           else let s = raw\<lparr>sg_data := sg_data old @ take extend bs, sg_frg := 0\<rparr>;
                    k = k\<lparr>kc_snd_queue := butlast (kc_snd_queue k) @ [s]\<rparr>
                in if length bs \<le> extend then (int extend, k) else fragment mem raw (drop extend bs) (int extend) k
      else if bs = [] then (0, k)
      else fragment mem raw bs 0 k)"

section \<open>Acknowledgements\<close>

definition ikcp_update_ack :: "u32 \<Rightarrow> kcp \<Rightarrow> kcp" where
  "ikcp_update_ack rtt k =
     (let k = (if kc_rx_srtt k = 0 then k\<lparr>kc_rx_srtt := rtt, kc_rx_rttval := word_of_int (trunc_div (sint rtt) 2)\<rparr>
               else let delta = \<bar>sint (rtt - kc_rx_srtt k)\<bar>;
                        k = k\<lparr>kc_rx_rttval := word_of_int (trunc_div (sint (3 * kc_rx_rttval k) + delta) 4)\<rparr>;
                        srtt = word_of_int (trunc_div (sint (7 * kc_rx_srtt k + rtt)) 8)
                    in k\<lparr>kc_rx_srtt := if srtt <s 1 then 1 else srtt\<rparr>);
          rto = kc_rx_srtt k + imax (kc_interval k) (4 * kc_rx_rttval k)
      in k\<lparr>kc_rx_rto := ibound (kc_rx_minrto k) rto IKCP_RTO_MAX\<rparr>)"

definition ikcp_shrink_buf :: "kcp \<Rightarrow> kcp" where
  "ikcp_shrink_buf k = k\<lparr>kc_snd_una := (case kc_snd_buf k of s # _ \<Rightarrow> sg_sn s | [] \<Rightarrow> kc_snd_nxt k)\<rparr>"

fun ack_loop :: "u32 \<Rightarrow> segment list \<Rightarrow> segment list \<times> bool" where
  "ack_loop sn [] = ([], False)"
| "ack_loop sn (s # ss) =
     (if sn = sg_sn s then (ss, True)
      else if itimediff sn (sg_sn s) < 0 then (s # ss, False)
      else let (ss, hit) = ack_loop sn ss in (s # ss, hit))"

definition ikcp_parse_ack :: "u32 \<Rightarrow> kcp \<Rightarrow> kcp" where
  "ikcp_parse_ack sn k =
     (if itimediff sn (kc_snd_una k) < 0 \<or> 0 \<le> itimediff sn (kc_snd_nxt k) then k
      else let (ss, hit) = ack_loop sn (kc_snd_buf k)
           in k\<lparr>kc_snd_buf := ss, kc_nsnd_buf := (if hit then kc_nsnd_buf k - 1 else kc_nsnd_buf k)\<rparr>)"

fun una_loop :: "u32 \<Rightarrow> segment list \<Rightarrow> u32 \<Rightarrow> segment list \<times> u32" where
  "una_loop una [] n = ([], n)"
| "una_loop una (s # ss) n = (if 0 < itimediff una (sg_sn s) then una_loop una ss (n - 1) else (s # ss, n))"

definition ikcp_parse_una :: "u32 \<Rightarrow> kcp \<Rightarrow> kcp" where
  "ikcp_parse_una una k =
     (let (ss, n) = una_loop una (kc_snd_buf k) (kc_nsnd_buf k) in k\<lparr>kc_snd_buf := ss, kc_nsnd_buf := n\<rparr>)"

fun fastack_loop :: "u32 \<Rightarrow> segment list \<Rightarrow> segment list" where
  "fastack_loop sn [] = []"
| "fastack_loop sn (s # ss) =
     (if itimediff sn (sg_sn s) < 0 then s # ss
      else (if sn \<noteq> sg_sn s then s\<lparr>sg_fastack := sg_fastack s + 1\<rparr> else s) # fastack_loop sn ss)"

definition ikcp_parse_fastack :: "u32 \<Rightarrow> u32 \<Rightarrow> kcp \<Rightarrow> kcp" where
  "ikcp_parse_fastack sn ts k =
     (if itimediff sn (kc_snd_una k) < 0 \<or> 0 \<le> itimediff sn (kc_snd_nxt k) then k
      else k\<lparr>kc_snd_buf := fastack_loop sn (kc_snd_buf k)\<rparr>)"

text \<open>The size of the list is doubled until it is enough; the fuel is the number of bits that can be shifted.\<close>

fun newblock_loop :: "nat \<Rightarrow> u32 \<Rightarrow> u32 \<Rightarrow> u32 option" where
  "newblock_loop 0 newsize newblock = None"
| "newblock_loop (Suc fuel) newsize newblock =
     (if newblock < newsize then newblock_loop fuel newsize (push_bit 1 newblock) else Some newblock)"

definition ikcp_ack_push :: "bool \<Rightarrow> u32 \<Rightarrow> u32 \<Rightarrow> kcp \<Rightarrow> kcp option" where
  "ikcp_ack_push mem sn ts k = do {
     let newsize = of_nat (length (kc_acklist k)) + 1;
     k \<leftarrow> (if kc_ackblock k < newsize then do {
             newblock \<leftarrow> newblock_loop 32 newsize 8;
             (if mem then Some (k\<lparr>kc_ackblock := newblock\<rparr>) else None)
           } else Some k);
     Some (k\<lparr>kc_acklist := kc_acklist k @ [(sn, ts)]\<rparr>)
   }"

definition ikcp_ack_get :: "kcp \<Rightarrow> nat \<Rightarrow> (u32 \<times> u32) option" where
  "ikcp_ack_get k p = arr_get (kc_acklist k) p"

section \<open>Input\<close>

text \<open>The place of a segment in \<open>rcv_buf\<close>, searched from the end; \<open>None\<close> if its number is there already.\<close>

fun insert_back :: "segment \<Rightarrow> segment list \<Rightarrow> segment list option" where
  "insert_back s [] = Some [s]"
| "insert_back s (p # ps) =
     (if sg_sn p = sg_sn s then None
      else if 0 < itimediff (sg_sn s) (sg_sn p) then Some (s # p # ps)
      else map_option ((#) p) (insert_back s ps))"

definition ikcp_parse_data :: "segment \<Rightarrow> kcp \<Rightarrow> kcp" where
  "ikcp_parse_data newseg k =
     (let sn = sg_sn newseg
      in if 0 \<le> itimediff sn (kc_rcv_nxt k + kc_rcv_wnd k) \<or> itimediff sn (kc_rcv_nxt k) < 0 then k
         else let k = (case insert_back newseg (rev (kc_rcv_buf k)) of
                         Some ss \<Rightarrow> k\<lparr>kc_rcv_buf := rev ss, kc_nrcv_buf := kc_nrcv_buf k + 1\<rparr> | None \<Rightarrow> k)
              in move_loop (kc_rcv_buf k) k)"

text \<open>The header of a segment as it is sent.\<close>

record header =
  hd_conv :: u32
  hd_cmd :: byte
  hd_frg :: byte
  hd_wnd :: u16
  hd_ts :: u32
  hd_sn :: u32
  hd_una :: u32
  hd_len :: u32

definition decode_head :: "byte list \<Rightarrow> (header \<times> byte list) option" where
  "decode_head p = do {
     (conv, p) \<leftarrow> ikcp_decode32u p;
     (cmd, p) \<leftarrow> ikcp_decode8u p;
     (frg, p) \<leftarrow> ikcp_decode8u p;
     (wnd, p) \<leftarrow> ikcp_decode16u p;
     (ts, p) \<leftarrow> ikcp_decode32u p;
     (sn, p) \<leftarrow> ikcp_decode32u p;
     (una, p) \<leftarrow> ikcp_decode32u p;
     (len, p) \<leftarrow> ikcp_decode32u p;
     Some (\<lparr>hd_conv = conv, hd_cmd = cmd, hd_frg = frg, hd_wnd = wnd, hd_ts = ts, hd_sn = sn, hd_una = una, hd_len = len\<rparr>, p)
   }"

lemma decode_lengths:
  "ikcp_decode8u p = Some (c, q) \<Longrightarrow> length p = length q + 1"
  "ikcp_decode16u p = Some (w, q) \<Longrightarrow> length p = length q + 2"
  "ikcp_decode32u p = Some (l, q) \<Longrightarrow> length p = length q + 4"
  by (auto simp: ikcp_decode8u_def ikcp_decode16u_def ikcp_decode32u_def split: list.splits)

lemma decode_head_length: "decode_head p = Some (h, q) \<Longrightarrow> length p = length q + 24"
  by (auto simp: decode_head_def split: bind_splits dest!: decode_lengths)

text \<open>A segment of data for this endpoint; \<open>mem\<close> says whether its block can be allocated.\<close>

definition input_push :: "bool \<Rightarrow> bool \<Rightarrow> segment \<Rightarrow> header \<Rightarrow> byte list \<Rightarrow> kcp \<Rightarrow> kcp option" where
  "input_push mem_ack mem raw h data k =
     (if itimediff (hd_sn h) (kc_rcv_nxt k + kc_rcv_wnd k) < 0 then do {
        k \<leftarrow> ikcp_ack_push mem_ack (hd_sn h) (hd_ts h) k;
        (if 0 \<le> itimediff (hd_sn h) (kc_rcv_nxt k) then
           if \<not> mem then None
           else Some (ikcp_parse_data (raw\<lparr>sg_conv := hd_conv h, sg_cmd := ucast (hd_cmd h), sg_frg := ucast (hd_frg h),
                  sg_wnd := ucast (hd_wnd h), sg_ts := hd_ts h, sg_sn := hd_sn h, sg_una := hd_una h, sg_data := data\<rparr>) k)
         else Some k)
      }
      else Some k)"

text \<open>The largest acknowledged number so far and its time, if there is any.\<close>

definition later_ack :: "u32 \<Rightarrow> u32 \<Rightarrow> (u32 \<times> u32) option \<Rightarrow> (u32 \<times> u32) option" where
  "later_ack sn ts ack =
     (case ack of
        None \<Rightarrow> Some (sn, ts)
      | Some (maxack, latest_ts) \<Rightarrow> if 0 < itimediff sn maxack then Some (sn, ts) else Some (maxack, latest_ts))"

definition known_cmd :: "byte \<Rightarrow> bool" where
  "known_cmd cmd \<longleftrightarrow> ucast cmd = IKCP_CMD_PUSH \<or> ucast cmd = IKCP_CMD_ACK \<or> ucast cmd = IKCP_CMD_WASK \<or> ucast cmd = IKCP_CMD_WINS"

definition input_segment ::
  "bool \<Rightarrow> bool \<Rightarrow> segment \<Rightarrow> header \<Rightarrow> byte list \<Rightarrow> kcp \<Rightarrow> (u32 \<times> u32) option \<Rightarrow> (kcp \<times> (u32 \<times> u32) option) option" where
  "input_segment mem_ack mem raw h data k ack =
     (let k = ikcp_shrink_buf (ikcp_parse_una (hd_una h) (k\<lparr>kc_rmt_wnd := ucast (hd_wnd h)\<rparr>)) in
      if ucast (hd_cmd h) = IKCP_CMD_ACK then
        let k = (if 0 \<le> itimediff (kc_current k) (hd_ts h) then ikcp_update_ack (kc_current k - hd_ts h) k else k);
            k = ikcp_shrink_buf (ikcp_parse_ack (hd_sn h) k)
        in Some (k, later_ack (hd_sn h) (hd_ts h) ack)
      else if ucast (hd_cmd h) = IKCP_CMD_PUSH then map_option (\<lambda>k. (k, ack)) (input_push mem_ack mem raw h data k)
      else if ucast (hd_cmd h) = IKCP_CMD_WASK then Some (k\<lparr>kc_probe := kc_probe k OR IKCP_ASK_TELL\<rparr>, ack)
      else Some (k, ack))"

function input_loop ::
  "bool \<Rightarrow> bool \<Rightarrow> segment \<Rightarrow> byte list \<Rightarrow> kcp \<Rightarrow> (u32 \<times> u32) option \<Rightarrow> (int \<times> kcp \<times> (u32 \<times> u32) option) option" where
  "input_loop mem_ack mem raw data k ack =
     (case decode_head data of
        None \<Rightarrow> Some (0, k, ack)
      | Some (h, rest) \<Rightarrow>
          if hd_conv h \<noteq> kc_conv k then Some (- 1, k, ack)
          else if length rest < unat (hd_len h) \<or> hd_len h <s 0 then Some (- 2, k, ack)
          else if \<not> known_cmd (hd_cmd h) then Some (- 3, k, ack)
          else (case input_segment mem_ack mem raw h (take (unat (hd_len h)) rest) k ack of
                  None \<Rightarrow> None
                | Some (k, ack) \<Rightarrow> input_loop mem_ack mem raw (drop (unat (hd_len h)) rest) k ack))"
  by pat_completeness auto
termination
  by (relation "measure (\<lambda>(_, _, _, data, _, _). length data)") (auto dest!: decode_head_length)

declare input_loop.simps [simp del]

text \<open>The congestion window after an acknowledgement.\<close>

definition grow_window :: "kcp \<Rightarrow> kcp" where
  "grow_window k =
     (let mss = kc_mss k;
          k = (if kc_cwnd k < kc_ssthresh k then k\<lparr>kc_cwnd := kc_cwnd k + 1, kc_incr := kc_incr k + mss\<rparr>
               else let k = (if kc_incr k < mss then k\<lparr>kc_incr := mss\<rparr> else k);
                        k = k\<lparr>kc_incr := kc_incr k + ((mss * mss) div kc_incr k + mss div 16)\<rparr>
                    in if (kc_cwnd k + 1) * mss \<le> kc_incr k
                       then k\<lparr>kc_cwnd := (kc_incr k + mss - 1) div (if 0 < mss then mss else 1)\<rparr> else k)
      in if kc_rmt_wnd k < kc_cwnd k then k\<lparr>kc_cwnd := kc_rmt_wnd k, kc_incr := kc_rmt_wnd k * mss\<rparr> else k)"

text \<open>An error in a later segment leaves what the earlier ones have changed.\<close>

definition ikcp_input :: "bool \<Rightarrow> bool \<Rightarrow> segment \<Rightarrow> byte list \<Rightarrow> kcp \<Rightarrow> (int \<times> kcp) option" where
  "ikcp_input mem_ack mem raw data k0 =
     (if length data < IKCP_OVERHEAD then Some (- 1, k0)
      else do {
        (rc, k, ack) \<leftarrow> input_loop mem_ack mem raw data k0 None;
        (if rc \<noteq> 0 then Some (rc, k)
         else let k = (case ack of Some (maxack, latest_ts) \<Rightarrow> ikcp_parse_fastack maxack latest_ts k | None \<Rightarrow> k)
              in Some (0, if 0 < itimediff (kc_snd_una k) (kc_snd_una k0) \<and> kc_cwnd k < kc_rmt_wnd k then grow_window k else k))
      })"

section \<open>Output\<close>

definition ikcp_encode_seg :: "segment \<Rightarrow> byte list" where
  "ikcp_encode_seg s = ikcp_encode32u (sg_conv s) @ ikcp_encode8u (ucast (sg_cmd s)) @ ikcp_encode8u (ucast (sg_frg s)) @
     ikcp_encode16u (ucast (sg_wnd s)) @ ikcp_encode32u (sg_ts s) @ ikcp_encode32u (sg_sn s) @ ikcp_encode32u (sg_una s) @
     ikcp_encode32u (sg_len s)"

definition ikcp_wnd_unused :: "kcp \<Rightarrow> u32" where
  "ikcp_wnd_unused k = (if kc_nrcv_que k < kc_rcv_wnd k then kc_rcv_wnd k - kc_nrcv_que k else 0)"

text \<open>
  \<open>pend\<close> is what has been written to the block and not been sent.  \<open>ikcp_output\<close> sends nothing if it is empty;
  the result of the callback is not looked at.
\<close>

definition ikcp_output :: "byte list \<Rightarrow> kcp \<Rightarrow> kcp" where
  "ikcp_output bs k = (if bs = [] then k else k\<lparr>kc_out := kc_out k @ [bs]\<rparr>)"

definition flush_room :: "nat \<Rightarrow> byte list \<times> kcp \<Rightarrow> byte list \<times> kcp" where
  "flush_room need st =
     (let (pend, k) = st in if unat (kc_mtu k) < length pend + need then ([], ikcp_output pend k) else (pend, k))"

definition flush_put :: "byte list \<Rightarrow> byte list \<times> kcp \<Rightarrow> (byte list \<times> kcp) option" where
  "flush_put bs st =
     (let (pend, k) = st in if length pend + length bs \<le> kc_buffer k then Some (pend @ bs, k) else None)"

definition flush_control :: "segment \<Rightarrow> byte list \<times> kcp \<Rightarrow> (byte list \<times> kcp) option" where
  "flush_control s st = flush_put (ikcp_encode_seg s) (flush_room IKCP_OVERHEAD st)"

fun flush_acks :: "segment \<Rightarrow> (u32 \<times> u32) list \<Rightarrow> byte list \<times> kcp \<Rightarrow> (byte list \<times> kcp) option" where
  "flush_acks s [] st = Some st"
| "flush_acks s ((sn, ts) # as) st = do {
     st \<leftarrow> flush_control (s\<lparr>sg_sn := sn, sg_ts := ts\<rparr>) st;
     flush_acks s as st
   }"

text \<open>The number and time of the last acknowledgement stay in the header of the probes.\<close>

definition after_acks :: "segment \<Rightarrow> (u32 \<times> u32) list \<Rightarrow> segment" where
  "after_acks s as = (case as of [] \<Rightarrow> s | _ \<Rightarrow> s\<lparr>sg_sn := fst (last as), sg_ts := snd (last as)\<rparr>)"

definition flush_probe_timer :: "kcp \<Rightarrow> kcp" where
  "flush_probe_timer k =
     (if kc_rmt_wnd k = 0 then
        if kc_probe_wait k = 0 then k\<lparr>kc_probe_wait := IKCP_PROBE_INIT, kc_ts_probe := kc_current k + IKCP_PROBE_INIT\<rparr>
        else if 0 \<le> itimediff (kc_current k) (kc_ts_probe k) then
          let w = (if kc_probe_wait k < IKCP_PROBE_INIT then IKCP_PROBE_INIT else kc_probe_wait k);
              w = w + w div 2;
              w = (if IKCP_PROBE_LIMIT < w then IKCP_PROBE_LIMIT else w)
          in k\<lparr>kc_probe_wait := w, kc_ts_probe := kc_current k + w, kc_probe := kc_probe k OR IKCP_ASK_SEND\<rparr>
        else k
      else k\<lparr>kc_ts_probe := 0, kc_probe_wait := 0\<rparr>)"

text \<open>New segments enter the window.\<close>

fun admit_loop :: "u32 \<Rightarrow> u32 \<Rightarrow> u32 \<Rightarrow> segment list \<Rightarrow> kcp \<Rightarrow> kcp" where
  "admit_loop cwnd wnd current [] k = k"
| "admit_loop cwnd wnd current (s # ss) k =
     (if itimediff (kc_snd_nxt k) (kc_snd_una k + cwnd) < 0 then
        let s = s\<lparr>sg_conv := kc_conv k, sg_cmd := IKCP_CMD_PUSH, sg_wnd := wnd, sg_ts := current, sg_sn := kc_snd_nxt k,
                 sg_una := kc_rcv_nxt k, sg_resendts := current, sg_rto := kc_rx_rto k, sg_fastack := 0, sg_xmit := 0\<rparr>
        in admit_loop cwnd wnd current ss
             (k\<lparr>kc_snd_queue := ss, kc_snd_buf := kc_snd_buf k @ [s], kc_nsnd_que := kc_nsnd_que k - 1,
                kc_nsnd_buf := kc_nsnd_buf k + 1, kc_snd_nxt := kc_snd_nxt k + 1\<rparr>)
      else k)"

text \<open>Whether a segment is sent now, and its clocks then: the first time, after a time-out, or after repeated acknowledgement of later ones.\<close>

datatype send_reason = Not_now | First | Timed_out | Fast

definition send_now :: "u32 \<Rightarrow> u32 \<Rightarrow> kcp \<Rightarrow> segment \<Rightarrow> send_reason" where
  "send_now current resent k s =
     (if sg_xmit s = 0 then First
      else if 0 \<le> itimediff current (sg_resendts s) then Timed_out
      else if resent \<le> sg_fastack s \<and> (sint (sg_xmit s) \<le> kc_fastlimit k \<or> kc_fastlimit k \<le> 0) then Fast
      else Not_now)"

definition longer_rto :: "kcp \<Rightarrow> u32 \<Rightarrow> u32" where
  "longer_rto k rto =
     (if kc_nodelay k = 0 then rto + imax rto (kc_rx_rto k)
      else rto + word_of_int (trunc_div (sint (if kc_nodelay k < 2 then rto else kc_rx_rto k)) 2))"

definition restart :: "u32 \<Rightarrow> u32 \<Rightarrow> kcp \<Rightarrow> send_reason \<Rightarrow> segment \<Rightarrow> segment" where
  "restart current rtomin k why s =
     (case why of
        Not_now \<Rightarrow> s
      | First \<Rightarrow> s\<lparr>sg_xmit := 1, sg_rto := kc_rx_rto k, sg_resendts := current + kc_rx_rto k + rtomin\<rparr>
      | Timed_out \<Rightarrow> s\<lparr>sg_xmit := sg_xmit s + 1, sg_rto := longer_rto k (sg_rto s),
            sg_resendts := current + longer_rto k (sg_rto s)\<rparr>
      | Fast \<Rightarrow> s\<lparr>sg_xmit := sg_xmit s + 1, sg_fastack := 0, sg_resendts := current + sg_rto s\<rparr>)"

definition flush_segment :: "u32 \<Rightarrow> u32 \<Rightarrow> u32 \<Rightarrow> u32 \<Rightarrow> segment \<Rightarrow> byte list \<times> kcp \<Rightarrow> (segment \<times> send_reason \<times> byte list \<times> kcp) option" where
  "flush_segment current wnd resent rtomin s st =
     (let (pend, k) = st;
          why = send_now current resent k s;
          s = restart current rtomin k why s;
          k = (if why = Timed_out then k\<lparr>kc_xmit := kc_xmit k + 1\<rparr> else k)
      in if why = Not_now then Some (s, why, pend, k)
         else let s = s\<lparr>sg_ts := current, sg_wnd := wnd, sg_una := kc_rcv_nxt k\<rparr> in do {
           (pend, k) \<leftarrow> flush_put (ikcp_encode_seg s) (flush_room (IKCP_OVERHEAD + length (sg_data s)) (pend, k));
           (pend, k) \<leftarrow> flush_put (sg_data s) (pend, k);
           Some (s, why, pend, if kc_dead_link k \<le> sg_xmit s then k\<lparr>kc_state := - 1\<rparr> else k)
         })"

fun flush_segments ::
  "u32 \<Rightarrow> u32 \<Rightarrow> u32 \<Rightarrow> u32 \<Rightarrow> segment list \<Rightarrow> byte list \<times> kcp \<Rightarrow> (segment list \<times> send_reason list \<times> byte list \<times> kcp) option" where
  "flush_segments current wnd resent rtomin [] st = Some ([], [], st)"
| "flush_segments current wnd resent rtomin (s # ss) st = do {
     (s, why, st) \<leftarrow> flush_segment current wnd resent rtomin s st;
     (ss, whys, st) \<leftarrow> flush_segments current wnd resent rtomin ss st;
     Some (s # ss, why # whys, st)
   }"

definition flush_window :: "u32 \<Rightarrow> u32 \<Rightarrow> send_reason list \<Rightarrow> kcp \<Rightarrow> kcp" where
  "flush_window cwnd resent whys k =
     (let k = (if Fast \<in> set whys then
                 let inflight = kc_snd_nxt k - kc_snd_una k;
                     th = imax (inflight div 2) IKCP_THRESH_MIN
                 in k\<lparr>kc_ssthresh := th, kc_cwnd := th + resent, kc_incr := (th + resent) * kc_mss k\<rparr> else k);
          k = (if Timed_out \<in> set whys
               then k\<lparr>kc_ssthresh := imax (cwnd div 2) IKCP_THRESH_MIN, kc_cwnd := 1, kc_incr := kc_mss k\<rparr> else k)
      in if kc_cwnd k < 1 then k\<lparr>kc_cwnd := 1, kc_incr := kc_mss k\<rparr> else k)"

definition ikcp_flush :: "kcp \<Rightarrow> kcp option" where
  "ikcp_flush k =
     (if kc_updated k = 0 then Some k
      else let current = kc_current k; as = kc_acklist k; wnd = ikcp_wnd_unused k;
               s = \<lparr>sg_conv = kc_conv k, sg_cmd = IKCP_CMD_ACK, sg_frg = 0, sg_wnd = wnd, sg_ts = 0, sg_sn = 0,
                    sg_una = kc_rcv_nxt k, sg_resendts = 0, sg_rto = 0, sg_fastack = 0, sg_xmit = 0, sg_data = []\<rparr>
           in do {
             (pend, k) \<leftarrow> flush_acks s as ([], k);
             let s = after_acks s as;
             let k = flush_probe_timer (k\<lparr>kc_acklist := []\<rparr>);
             (pend, k) \<leftarrow> (if kc_probe k AND IKCP_ASK_SEND \<noteq> 0 then flush_control (s\<lparr>sg_cmd := IKCP_CMD_WASK\<rparr>) (pend, k)
                           else Some (pend, k));
             (pend, k) \<leftarrow> (if kc_probe k AND IKCP_ASK_TELL \<noteq> 0 then flush_control (s\<lparr>sg_cmd := IKCP_CMD_WINS\<rparr>) (pend, k)
                           else Some (pend, k));
             let k = k\<lparr>kc_probe := 0\<rparr>;
             let cwnd = imin (kc_snd_wnd k) (kc_rmt_wnd k);
             let cwnd = (if kc_nocwnd k = 0 then imin (kc_cwnd k) cwnd else cwnd);
             let k = admit_loop cwnd wnd current (kc_snd_queue k) k;
             let resent = (if 0 < kc_fastresend k then word_of_int (kc_fastresend k) else 0xffffffff);
             let rtomin = (if kc_nodelay k = 0 then word_of_int (sint (kc_rx_rto k) div 8) else 0);
             (ss, whys, pend, k) \<leftarrow> flush_segments current wnd resent rtomin (kc_snd_buf k) (pend, k);
             let k = ikcp_output pend (k\<lparr>kc_snd_buf := ss\<rparr>);
             Some (flush_window cwnd resent whys k)
           })"

section \<open>Time\<close>

definition ikcp_update :: "u32 \<Rightarrow> kcp \<Rightarrow> kcp option" where
  "ikcp_update current k =
     (let k = k\<lparr>kc_current := current\<rparr>;
          k = (if kc_updated k = 0 then k\<lparr>kc_updated := 1, kc_ts_flush := current\<rparr> else k);
          slap = itimediff current (kc_ts_flush k);
          (slap, k) = (if 10000 \<le> slap \<or> slap < - 10000 then (0, k\<lparr>kc_ts_flush := current\<rparr>) else (slap, k))
      in if 0 \<le> slap then
           let k = k\<lparr>kc_ts_flush := kc_ts_flush k + kc_interval k\<rparr>;
               k = (if 0 \<le> itimediff current (kc_ts_flush k) then k\<lparr>kc_ts_flush := current + kc_interval k\<rparr> else k)
           in ikcp_flush k
         else Some k)"

text \<open>The least time to a retransmission, or \<open>None\<close> if one is due.\<close>

fun check_loop :: "u32 \<Rightarrow> segment list \<Rightarrow> int \<Rightarrow> int option" where
  "check_loop current [] tm_packet = Some tm_packet"
| "check_loop current (s # ss) tm_packet =
     (let diff = itimediff (sg_resendts s) current
      in if diff \<le> 0 then None else check_loop current ss (if diff < tm_packet then diff else tm_packet))"

definition ikcp_check :: "u32 \<Rightarrow> kcp \<Rightarrow> u32" where
  "ikcp_check current k =
     (if kc_updated k = 0 then current
      else let d = itimediff current (kc_ts_flush k);
               ts_flush = (if 10000 \<le> d \<or> d < - 10000 then current else kc_ts_flush k)
           in if 0 \<le> itimediff current ts_flush then current
              else let tm_flush = itimediff ts_flush current
                   in case check_loop current (kc_snd_buf k) 0x7fffffff of
                        None \<Rightarrow> current
                      | Some tm_packet \<Rightarrow>
                          let minimal = (word_of_int (if tm_packet < tm_flush then tm_packet else tm_flush) :: u32)
                          in current + (if kc_interval k \<le> minimal then kc_interval k else minimal))"

section \<open>Options\<close>

text \<open>The size of the new block is computed in 32 bits.\<close>

definition ikcp_setmtu :: "bool \<Rightarrow> i32 \<Rightarrow> kcp \<Rightarrow> int \<times> kcp" where
  "ikcp_setmtu mem mtu k =
     (if sint mtu < 50 \<or> sint mtu < int IKCP_OVERHEAD then (- 1, k)
      else if \<not> mem then (- 2, k)
      else (0, k\<lparr>kc_mtu := mtu, kc_mss := mtu - 24, kc_buffer := unat ((mtu + 24) * 3)\<rparr>))"

definition clamp_interval :: "int \<Rightarrow> u32" where
  "clamp_interval interval = (if 5000 < interval then 5000 else if interval < 10 then 10 else word_of_int interval)"

definition ikcp_interval :: "int \<Rightarrow> kcp \<Rightarrow> int \<times> kcp" where
  "ikcp_interval interval k = (0, k\<lparr>kc_interval := clamp_interval interval\<rparr>)"

definition ikcp_nodelay :: "i32 \<Rightarrow> int \<Rightarrow> int \<Rightarrow> int \<Rightarrow> kcp \<Rightarrow> int \<times> kcp" where
  "ikcp_nodelay nodelay interval resend nc k =
     (let k = (if 0 \<le> sint nodelay
               then k\<lparr>kc_nodelay := nodelay, kc_rx_minrto := (if nodelay \<noteq> 0 then IKCP_RTO_NDL else IKCP_RTO_MIN)\<rparr> else k);
          k = (if 0 \<le> interval then k\<lparr>kc_interval := clamp_interval interval\<rparr> else k);
          k = (if 0 \<le> resend then k\<lparr>kc_fastresend := resend\<rparr> else k);
          k = (if 0 \<le> nc then k\<lparr>kc_nocwnd := nc\<rparr> else k)
      in (0, k))"

definition ikcp_wndsize :: "int \<Rightarrow> int \<Rightarrow> kcp \<Rightarrow> int \<times> kcp" where
  "ikcp_wndsize sndwnd rcvwnd k =
     (let k = (if 0 < sndwnd then k\<lparr>kc_snd_wnd := word_of_int sndwnd\<rparr> else k);
          k = (if 0 < rcvwnd then k\<lparr>kc_rcv_wnd := imax (word_of_int rcvwnd) IKCP_WND_RCV\<rparr> else k)
      in (0, k))"

definition ikcp_waitsnd :: "kcp \<Rightarrow> u32" where
  "ikcp_waitsnd k = kc_nsnd_buf k + kc_nsnd_que k"

definition ikcp_getconv :: "byte list \<Rightarrow> u32 option" where
  "ikcp_getconv p = map_option fst (ikcp_decode32u p)"

end
