(* ===== verification/KcpCodec.thy ===== *)
theory KcpCodec
  imports Kcp
begin

unbundle bit_operations_syntax

text \<open>
  Segments on the wire: decoding undoes encoding, and a datagram made of several segments is read back
  segment by segment.
\<close>

section \<open>Words\<close>

lemma decode_encode8: "ikcp_decode8u (ikcp_encode8u c @ p) = Some (c, p)"
  by (simp add: ikcp_decode8u_def ikcp_encode8u_def)

lemma bytes16: "(ucast (ucast w :: byte) :: u16) OR push_bit 8 (ucast (ucast (drop_bit 8 w) :: byte)) = w" for w :: u16
  by (rule bit_word_eqI) (auto simp: bit_or_iff bit_push_bit_iff bit_ucast_iff bit_drop_bit_eq dest: bit_imp_le_length)

lemma bytes32:
  "(ucast (ucast l :: byte) :: u32) OR push_bit 8 (ucast (ucast (drop_bit 8 l) :: byte)) OR
     push_bit 16 (ucast (ucast (drop_bit 16 l) :: byte)) OR push_bit 24 (ucast (ucast (drop_bit 24 l) :: byte)) = l" for l :: u32
proof (rule bit_word_eqI)
  fix n assume n: "n < LENGTH(32)"
  consider "n < 8" | "8 \<le> n \<and> n < 16" | "16 \<le> n \<and> n < 24" | "24 \<le> n" by linarith
  then show "bit ((ucast (ucast l :: byte) :: u32) OR push_bit 8 (ucast (ucast (drop_bit 8 l) :: byte)) OR
     push_bit 16 (ucast (ucast (drop_bit 16 l) :: byte)) OR push_bit 24 (ucast (ucast (drop_bit 24 l) :: byte))) n = bit l n"
    using n by cases (auto simp: bit_or_iff bit_push_bit_iff bit_ucast_iff bit_drop_bit_eq)
qed

lemma decode_encode16: "ikcp_decode16u (ikcp_encode16u w @ p) = Some (w, p)"
  by (simp add: ikcp_decode16u_def ikcp_encode16u_def bytes16)

lemma decode_encode32: "ikcp_decode32u (ikcp_encode32u l @ p) = Some (l, p)"
  by (simp add: ikcp_decode32u_def ikcp_encode32u_def bytes32)

lemmas decode_encode = decode_encode8 decode_encode16 decode_encode32

lemma encode_lengths [simp]:
  "length (ikcp_encode8u c) = 1" "length (ikcp_encode16u w) = 2" "length (ikcp_encode32u l) = 4"
  by (simp_all add: ikcp_encode8u_def ikcp_encode16u_def ikcp_encode32u_def)

section \<open>Segments\<close>

text \<open>What fits into the fields of the header: the number of a fragment has 8 bits, a window 16.\<close>

definition sendable_segment :: "segment \<Rightarrow> bool" where
  "sendable_segment s \<longleftrightarrow> sg_cmd s \<in> {IKCP_CMD_PUSH, IKCP_CMD_ACK, IKCP_CMD_WASK, IKCP_CMD_WINS} \<and> sg_frg s < 256 \<and>
     sg_wnd s < 65536 \<and> length (sg_data s) < 2 ^ 31"

definition head_of :: "segment \<Rightarrow> header" where
  "head_of s = \<lparr>hd_conv = sg_conv s, hd_cmd = ucast (sg_cmd s), hd_frg = ucast (sg_frg s), hd_wnd = ucast (sg_wnd s),
     hd_ts = sg_ts s, hd_sn = sg_sn s, hd_una = sg_una s, hd_len = sg_len s\<rparr>"

lemma encode_seg_length [simp]: "length (ikcp_encode_seg s) = 24"
  by (simp add: ikcp_encode_seg_def)

lemma decode_encode_seg: "decode_head (ikcp_encode_seg s @ rest) = Some (head_of s, rest)"
  by (simp add: decode_head_def ikcp_encode_seg_def decode_encode head_of_def)

lemma decode_short: "length p < 24 \<Longrightarrow> decode_head p = None"
  by (cases "decode_head p") (auto dest: decode_head_length)

lemma low_bytes:
  "x < 256 \<Longrightarrow> ucast (ucast x :: byte) = x" "y < 65536 \<Longrightarrow> ucast (ucast y :: u16) = y" for x y :: u32
proof -
  assume "x < 256"
  then have "unat x < 256" by (simp add: word_less_nat_alt)
  then show "ucast (ucast x :: byte) = x" by (simp add: word_eq_iff_unsigned [where 'a = nat] unsigned_ucast_eq take_bit_eq_mod unat_mod_distrib)
next
  assume "y < 65536"
  then have "unat y < 65536" by (simp add: word_less_nat_alt)
  then show "ucast (ucast y :: u16) = y" by (simp add: word_eq_iff_unsigned [where 'a = nat] unsigned_ucast_eq take_bit_eq_mod unat_mod_distrib)
qed

lemma commands_small: "c \<in> {IKCP_CMD_PUSH, IKCP_CMD_ACK, IKCP_CMD_WASK, IKCP_CMD_WINS} \<Longrightarrow> c < 256"
  by (auto simp: IKCP_CMD_PUSH_def IKCP_CMD_ACK_def IKCP_CMD_WASK_def IKCP_CMD_WINS_def)

lemma len_small: "length (sg_data s) < 2 ^ 31 \<Longrightarrow> unat (sg_len s) = length (sg_data s) \<and> \<not> sg_len s <s 0"
proof -
  assume l: "length (sg_data s) < 2 ^ 31"
  have u: "unat (sg_len s) = length (sg_data s)" using l by (simp add: sg_len_def unat_of_nat take_bit_nat_eq_self)
  have "0 \<le> sint (sg_len s)" using l u by (simp add: sint_uint uint_nat signed_take_bit_nonnegative_iff bit_iff_odd)
  then show ?thesis using u by (simp add: word_sless_alt)
qed

lemma sendable_fields:
  assumes "sendable_segment s"
  shows "known_cmd (hd_cmd (head_of s))" "ucast (hd_cmd (head_of s)) = sg_cmd s" "ucast (hd_frg (head_of s)) = sg_frg s"
    "ucast (hd_wnd (head_of s)) = sg_wnd s" "unat (hd_len (head_of s)) = length (sg_data s)" "\<not> hd_len (head_of s) <s 0"
proof -
  have s: "sg_cmd s \<in> {IKCP_CMD_PUSH, IKCP_CMD_ACK, IKCP_CMD_WASK, IKCP_CMD_WINS}" "sg_frg s < 256" "sg_wnd s < 65536"
    "length (sg_data s) < 2 ^ 31"
    using assms unfolding sendable_segment_def by blast+
  show c: "ucast (hd_cmd (head_of s)) = sg_cmd s" using low_bytes(1) [OF commands_small [OF s(1)]] by (simp add: head_of_def)
  show "known_cmd (hd_cmd (head_of s))" using s(1) c by (auto simp: known_cmd_def)
  show "ucast (hd_frg (head_of s)) = sg_frg s" "ucast (hd_wnd (head_of s)) = sg_wnd s"
    using low_bytes s(2,3) by (simp_all add: head_of_def)
  show "unat (hd_len (head_of s)) = length (sg_data s)" "\<not> hd_len (head_of s) <s 0"
    using len_small [OF s(4)] by (simp_all add: head_of_def)
qed

section \<open>Datagrams\<close>

definition packet :: "segment list \<Rightarrow> byte list" where
  "packet ss = concat (map (\<lambda>s. ikcp_encode_seg s @ sg_data s) ss)"

lemma packet_simps [simp]:
  "packet [] = []" "packet (s # ss) = ikcp_encode_seg s @ sg_data s @ packet ss" "packet (ss @ ts) = packet ss @ packet ts"
  by (simp_all add: packet_def)

text \<open>What a datagram means: its segments, one after the other.\<close>

fun input_segments ::
  "bool \<Rightarrow> bool \<Rightarrow> segment \<Rightarrow> segment list \<Rightarrow> kcp \<Rightarrow> (u32 \<times> u32) option \<Rightarrow> (kcp \<times> (u32 \<times> u32) option) option" where
  "input_segments mem_ack mem raw [] k ack = Some (k, ack)"
| "input_segments mem_ack mem raw (s # ss) k ack = do {
     (k, ack) \<leftarrow> input_segment mem_ack mem raw (head_of s) (sg_data s) k ack;
     input_segments mem_ack mem raw ss k ack
   }"

lemma move_loop_conv [simp]: "kc_conv (move_loop ss k) = kc_conv k"
  by (induction ss k rule: move_loop.induct) simp_all

lemma input_conv:
  assumes "input_segment mem_ack mem raw h data k ack = Some (k', ack')"
  shows "kc_conv k' = kc_conv k"
proof -
  have una: "kc_conv (ikcp_parse_una u k) = kc_conv k" "kc_conv (ikcp_shrink_buf k) = kc_conv k"
    "kc_conv (ikcp_parse_ack sn k) = kc_conv k" "kc_conv (ikcp_update_ack r k) = kc_conv k"
    "kc_conv (ikcp_parse_data s k) = kc_conv k" for u k sn r s
    by (simp_all add: ikcp_parse_una_def ikcp_shrink_buf_def ikcp_parse_ack_def ikcp_update_ack_def ikcp_parse_data_def Let_def
        split: prod.split option.split)
  have push: "kc_conv k' = kc_conv k" if "input_push mem_ack mem raw h data k = Some k'" for k k'
    using that by (auto simp: input_push_def ikcp_ack_push_def una Let_def split: bind_splits if_splits)
  show ?thesis
    using assms by (auto simp: input_segment_def Let_def una dest!: push split: if_splits)
qed

lemma input_packet:
  assumes "\<forall>s \<in> set ss. sendable_segment s \<and> sg_conv s = kc_conv k"
  shows "input_loop mem_ack mem raw (packet ss) k ack =
    map_option (\<lambda>(k, ack). (0, k, ack)) (input_segments mem_ack mem raw ss k ack)"
  using assms
proof (induction ss arbitrary: k ack)
  case Nil
  then show ?case by (simp add: input_loop.simps decode_short)
next
  case (Cons s ss)
  have s: "sendable_segment s" "sg_conv s = kc_conv k" using Cons.prems by simp_all
  have d: "decode_head (packet (s # ss)) = Some (head_of s, sg_data s @ packet ss)" by (simp add: decode_encode_seg)
  note f = sendable_fields [OF s(1)]
  have c: "hd_conv (head_of s) = kc_conv k" using s(2) by (simp add: head_of_def)
  show ?case
  proof (cases "input_segment mem_ack mem raw (head_of s) (sg_data s) k ack")
    case None
    then show ?thesis using f c by (subst input_loop.simps) (simp only: d, simp)
  next
    case (Some r)
    obtain k' ack' where r: "r = (k', ack')" by fastforce
    have "\<forall>s \<in> set ss. sendable_segment s \<and> sg_conv s = kc_conv k'"
      using Cons.prems input_conv [OF Some [unfolded r]] by simp
    from Cons.IH [OF this] show ?thesis
      using f c Some r by (subst input_loop.simps) (simp only: d, simp)
  qed
qed

end
