(* ===== verification/KcpFlush.thy ===== *)
theory KcpFlush
  imports KcpCodec
begin

unbundle bit_operations_syntax

text \<open>
  What a flush sends: the acknowledgements, the probes and the segments of the window, each exactly once
  and in this order, packed into datagrams of at most the size of the path, which fit into the block that is
  allocated for them.
\<close>

section \<open>Packing\<close>

text \<open>
  Since the output was \<open>out0\<close> the segments \<open>L\<close> have been emitted: packed into the datagrams that follow
  \<open>out0\<close> and into the one under construction.
\<close>

definition emitted :: "nat \<Rightarrow> byte list list \<Rightarrow> byte list \<Rightarrow> byte list list \<Rightarrow> segment list \<Rightarrow> bool" where
  "emitted m out0 pend out L \<longleftrightarrow> (\<exists>ps ss. out = out0 @ map packet ps \<and> pend = packet ss \<and> concat ps @ ss = L \<and>
     (\<forall>p \<in> set ps. p \<noteq> [] \<and> length (packet p) \<le> m) \<and> length (packet ss) \<le> m)"

lemma encode_seg_nonempty [simp]: "ikcp_encode_seg s \<noteq> []"
  by (metis encode_seg_length length_0_conv zero_neq_numeral)

lemma packet_empty [simp]: "packet ss = [] \<longleftrightarrow> ss = []"
  by (cases ss) simp_all

lemma emitted_start: "emitted m out [] out []"
  unfolding emitted_def by (rule exI [of _ "[]"], rule exI [of _ "[]"]) simp

lemma emitted_output:
  assumes "emitted m out0 pend out L"
  shows "emitted m out0 [] (if pend = [] then out else out @ [pend]) L"
proof -
  obtain ps ss where p: "out = out0 @ map packet ps" "pend = packet ss" "concat ps @ ss = L"
    "\<forall>p \<in> set ps. p \<noteq> [] \<and> length (packet p) \<le> m" "length (packet ss) \<le> m"
    using assms unfolding emitted_def by blast
  show ?thesis
  proof (cases "ss = []")
    case True
    then show ?thesis using p unfolding emitted_def by (intro exI [of _ ps] exI [of _ "[]"]) simp
  next
    case False
    then show ?thesis using p unfolding emitted_def by (intro exI [of _ "ps @ [ss]"] exI [of _ "[]"]) simp
  qed
qed

lemma emitted_closed:
  assumes "emitted m out0 [] out L"
  shows "\<exists>ps. out = out0 @ map packet ps \<and> concat ps = L \<and> (\<forall>p \<in> set ps. p \<noteq> [] \<and> length (packet p) \<le> m)"
proof -
  obtain ps ss where p: "out = out0 @ map packet ps" "[] = packet ss" "concat ps @ ss = L"
    "\<forall>p \<in> set ps. p \<noteq> [] \<and> length (packet p) \<le> m"
    using assms unfolding emitted_def by blast
  then have "ss = []" using packet_empty by metis
  then show ?thesis using p by (intro exI [of _ ps]) simp
qed

lemma emitted_room:
  assumes "emitted (unat (kc_mtu k)) out0 pend (kc_out k) L" "need \<le> unat (kc_mtu k)"
  shows "\<exists>pend' out'. flush_room need (pend, k) = (pend', k\<lparr>kc_out := out'\<rparr>) \<and> emitted (unat (kc_mtu k)) out0 pend' out' L \<and>
    length pend' + need \<le> unat (kc_mtu k)"
proof (cases "unat (kc_mtu k) < length pend + need")
  case True
  have "ikcp_output pend k = k\<lparr>kc_out := if pend = [] then kc_out k else kc_out k @ [pend]\<rparr>" by (simp add: ikcp_output_def)
  then show ?thesis
    using True assms(2) emitted_output [OF assms(1)]
    by (intro exI [of _ "[]"] exI [of _ "if pend = [] then kc_out k else kc_out k @ [pend]"]) (simp add: flush_room_def)
next
  case False
  then show ?thesis using assms by (intro exI [of _ pend] exI [of _ "kc_out k"]) (simp add: flush_room_def)
qed

lemma emitted_put:
  assumes "emitted m out0 pend out L" "length pend + 24 + length (sg_data s) \<le> m"
  shows "emitted m out0 (pend @ ikcp_encode_seg s @ sg_data s) out (L @ [s])"
proof -
  obtain ps ss where p: "out = out0 @ map packet ps" "pend = packet ss" "concat ps @ ss = L"
    "\<forall>p \<in> set ps. p \<noteq> [] \<and> length (packet p) \<le> m" "length (packet ss) \<le> m"
    using assms(1) unfolding emitted_def by blast
  then show ?thesis
    using assms(2) unfolding emitted_def by (intro exI [of _ ps] exI [of _ "ss @ [s]"]) auto
qed

lemma flush_put_ok: "length pend + length bs \<le> kc_buffer k \<Longrightarrow> flush_put bs (pend, k) = Some (pend @ bs, k)"
  by (simp add: flush_put_def)

lemma flush_control_ok:
  assumes "emitted (unat (kc_mtu k)) out0 pend (kc_out k) L" "24 \<le> unat (kc_mtu k)" "unat (kc_mtu k) \<le> kc_buffer k" "sg_data s = []"
  shows "\<exists>pend' out'. flush_control s (pend, k) = Some (pend', k\<lparr>kc_out := out'\<rparr>) \<and>
    emitted (unat (kc_mtu k)) out0 pend' out' (L @ [s])"
proof -
  obtain p out where r: "flush_room IKCP_OVERHEAD (pend, k) = (p, k\<lparr>kc_out := out\<rparr>)" "emitted (unat (kc_mtu k)) out0 p out L"
    "length p + 24 \<le> unat (kc_mtu k)"
    using emitted_room [OF assms(1), of 24] assms(2) by (auto simp: IKCP_OVERHEAD_def)
  have "flush_control s (pend, k) = Some (p @ ikcp_encode_seg s, k\<lparr>kc_out := out\<rparr>)"
    using r(1,3) assms(3) by (simp add: flush_control_def flush_put_ok)
  then show ?thesis using emitted_put [OF r(2), of s] r(3) assms(4) by auto
qed

lemma flush_acks_ok:
  assumes "emitted (unat (kc_mtu k)) out0 pend (kc_out k) L" "24 \<le> unat (kc_mtu k)" "unat (kc_mtu k) \<le> kc_buffer k" "sg_data s = []"
  shows "\<exists>pend' out'. flush_acks s as (pend, k) = Some (pend', k\<lparr>kc_out := out'\<rparr>) \<and>
    emitted (unat (kc_mtu k)) out0 pend' out' (L @ map (\<lambda>(sn, ts). s\<lparr>sg_sn := sn, sg_ts := ts\<rparr>) as)"
  using assms
proof (induction as arbitrary: pend k L)
  case Nil
  then show ?case by (intro exI [of _ pend] exI [of _ "kc_out k"]) simp
next
  case (Cons a as)
  obtain sn ts where a: "a = (sn, ts)" by fastforce
  obtain p out where r: "flush_control (s\<lparr>sg_sn := sn, sg_ts := ts\<rparr>) (pend, k) = Some (p, k\<lparr>kc_out := out\<rparr>)"
    "emitted (unat (kc_mtu k)) out0 p out (L @ [s\<lparr>sg_sn := sn, sg_ts := ts\<rparr>])"
    using flush_control_ok [OF Cons.prems(1-3), of "s\<lparr>sg_sn := sn, sg_ts := ts\<rparr>"] Cons.prems(4) by auto
  show ?case
    using Cons.IH [of "k\<lparr>kc_out := out\<rparr>" p "L @ [s\<lparr>sg_sn := sn, sg_ts := ts\<rparr>]"] Cons.prems(2-4) r by (auto simp: a)
qed

section \<open>The segments of the window\<close>

text \<open>A segment after a flush at the time \<open>current\<close>.\<close>

definition sent_as :: "u32 \<Rightarrow> u32 \<Rightarrow> u32 \<Rightarrow> u32 \<Rightarrow> kcp \<Rightarrow> segment \<Rightarrow> segment" where
  "sent_as current wnd resent rtomin k s =
     (let why = send_now current resent k s; s' = restart current rtomin k why s
      in if why = Not_now then s' else s'\<lparr>sg_ts := current, sg_wnd := wnd, sg_una := kc_rcv_nxt k\<rparr>)"

lemma restart_data [simp]: "sg_data (restart current rtomin k why s) = sg_data s" "sg_sn (restart current rtomin k why s) = sg_sn s"
  "sg_frg (restart current rtomin k why s) = sg_frg s" "sg_cmd (restart current rtomin k why s) = sg_cmd s"
  "sg_conv (restart current rtomin k why s) = sg_conv s" "sg_wnd (restart current rtomin k why s) = sg_wnd s"
  by (simp_all add: restart_def split: send_reason.split)

lemma sent_as_simps [simp]: "sg_data (sent_as current wnd resent rtomin k s) = sg_data s"
  "sg_sn (sent_as current wnd resent rtomin k s) = sg_sn s" "sg_frg (sent_as current wnd resent rtomin k s) = sg_frg s"
  "sg_cmd (sent_as current wnd resent rtomin k s) = sg_cmd s" "sg_conv (sent_as current wnd resent rtomin k s) = sg_conv s"
  by (simp_all add: sent_as_def Let_def)

lemma send_now_cong:
  "send_now current resent (k\<lparr>kc_out := out, kc_xmit := x, kc_state := t\<rparr>) = send_now current resent k"
  "sent_as current wnd resent rtomin (k\<lparr>kc_out := out, kc_xmit := x, kc_state := t\<rparr>) = sent_as current wnd resent rtomin k"
  by (simp_all add: fun_eq_iff send_now_def sent_as_def restart_def longer_rto_def Let_def split: send_reason.split)

lemma flush_segment_ok:
  assumes "emitted (unat (kc_mtu k)) out0 pend (kc_out k) L" "unat (kc_mtu k) \<le> kc_buffer k" "24 + length (sg_data s) \<le> unat (kc_mtu k)"
  shows "\<exists>pend' out' x t. flush_segment current wnd resent rtomin s (pend, k) =
      Some (sent_as current wnd resent rtomin k s, send_now current resent k s, pend', k\<lparr>kc_out := out', kc_xmit := x, kc_state := t\<rparr>) \<and>
    emitted (unat (kc_mtu k)) out0 pend' out'
      (L @ (if send_now current resent k s = Not_now then [] else [sent_as current wnd resent rtomin k s]))"
proof (cases "send_now current resent k s = Not_now")
  case True
  show ?thesis
    by (rule exI [of _ pend], rule exI [of _ "kc_out k"], rule exI [of _ "kc_xmit k"], rule exI [of _ "kc_state k"])
      (use True assms(1) in \<open>simp add: flush_segment_def sent_as_def\<close>)
next
  case False
  define s' where "s' = sent_as current wnd resent rtomin k s"
  define k1 where "k1 = (if send_now current resent k s = Timed_out then k\<lparr>kc_xmit := kc_xmit k + 1\<rparr> else k)"
  have s': "restart current rtomin k (send_now current resent k s) s\<lparr>sg_ts := current, sg_wnd := wnd, sg_una := kc_rcv_nxt k1\<rparr> = s'"
    "sg_data s' = sg_data s"
    using False by (simp_all add: s'_def sent_as_def k1_def)
  have k1: "k1 = k\<lparr>kc_xmit := kc_xmit k1\<rparr>" "kc_out k1 = kc_out k" "kc_mtu k1 = kc_mtu k" "kc_buffer k1 = kc_buffer k" by (simp_all add: k1_def)
  obtain p out where r: "flush_room (24 + length (sg_data s)) (pend, k1) = (p, k1\<lparr>kc_out := out\<rparr>)"
    "emitted (unat (kc_mtu k)) out0 p out L" "length p + (24 + length (sg_data s)) \<le> unat (kc_mtu k)"
    using emitted_room [of k1 out0 pend L "24 + length (sg_data s)"] assms(1,3) k1(2,3) by auto
  define t where "t = (if kc_dead_link k \<le> sg_xmit s' then - 1 else kc_state k)"
  have "flush_segment current wnd resent rtomin s (pend, k) =
      Some (s', send_now current resent k s, p @ ikcp_encode_seg s' @ sg_data s, k1\<lparr>kc_out := out, kc_state := t\<rparr>)"
    using False r(1,3) assms(2) s' k1(4)
    by (simp add: flush_segment_def Let_def flush_put_ok IKCP_OVERHEAD_def flip: k1_def) (simp add: t_def k1_def)
  moreover have "k1\<lparr>kc_out := out, kc_state := t\<rparr> = k\<lparr>kc_out := out, kc_xmit := kc_xmit k1, kc_state := t\<rparr>"
    by (subst k1(1)) simp
  ultimately show ?thesis
    using emitted_put [OF r(2), of s'] r(3) s'(2) False unfolding s'_def by auto
qed

lemma flush_segments_ok:
  assumes "emitted (unat (kc_mtu k)) out0 pend (kc_out k) L" "unat (kc_mtu k) \<le> kc_buffer k"
    "\<forall>s \<in> set ss. 24 + length (sg_data s) \<le> unat (kc_mtu k)"
  shows "\<exists>pend' out' x t. flush_segments current wnd resent rtomin ss (pend, k) =
      Some (map (sent_as current wnd resent rtomin k) ss, map (send_now current resent k) ss, pend',
        k\<lparr>kc_out := out', kc_xmit := x, kc_state := t\<rparr>) \<and>
    emitted (unat (kc_mtu k)) out0 pend' out'
      (L @ map (sent_as current wnd resent rtomin k) (filter (\<lambda>s. send_now current resent k s \<noteq> Not_now) ss))"
  using assms
proof (induction ss arbitrary: pend k L)
  case Nil
  show ?case
    by (rule exI [of _ pend], rule exI [of _ "kc_out k"], rule exI [of _ "kc_xmit k"], rule exI [of _ "kc_state k"])
      (use Nil.prems in simp)
next
  case (Cons s ss)
  have ls: "24 + length (sg_data s) \<le> unat (kc_mtu k)" using Cons.prems(3) by simp
  obtain p out x t where r: "flush_segment current wnd resent rtomin s (pend, k) =
      Some (sent_as current wnd resent rtomin k s, send_now current resent k s, p, k\<lparr>kc_out := out, kc_xmit := x, kc_state := t\<rparr>)"
    "emitted (unat (kc_mtu k)) out0 p out
      (L @ (if send_now current resent k s = Not_now then [] else [sent_as current wnd resent rtomin k s]))"
    using flush_segment_ok [OF Cons.prems(1,2) ls] by blast
  define k1 where "k1 = k\<lparr>kc_out := out, kc_xmit := x, kc_state := t\<rparr>"
  obtain p' out' x' t' where r': "flush_segments current wnd resent rtomin ss (p, k1) =
      Some (map (sent_as current wnd resent rtomin k1) ss, map (send_now current resent k1) ss, p', k1\<lparr>kc_out := out', kc_xmit := x', kc_state := t'\<rparr>)"
    "emitted (unat (kc_mtu k1)) out0 p' out'
      ((L @ (if send_now current resent k s = Not_now then [] else [sent_as current wnd resent rtomin k s])) @
       map (sent_as current wnd resent rtomin k1) (filter (\<lambda>s. send_now current resent k1 s \<noteq> Not_now) ss))"
    using Cons.IH [of k1 p "L @ (if send_now current resent k s = Not_now then [] else [sent_as current wnd resent rtomin k s])"]
      r(2) Cons.prems(2,3) by (auto simp: k1_def)
  have c: "send_now current resent k1 = send_now current resent k" "sent_as current wnd resent rtomin k1 = sent_as current wnd resent rtomin k"
    unfolding k1_def by (rule send_now_cong)+
  show ?case
    by (rule exI [of _ p'], rule exI [of _ out'], rule exI [of _ x'], rule exI [of _ t'])
      (use r(1) r'[unfolded c] in \<open>simp add: k1_def split: if_splits\<close>)
qed

section \<open>The window\<close>

text \<open>Segments that enter the window get consecutive numbers.\<close>

fun numbered :: "u32 \<Rightarrow> u32 \<Rightarrow> kcp \<Rightarrow> segment list \<Rightarrow> segment list" where
  "numbered wnd nxt k [] = []"
| "numbered wnd nxt k (s # ss) =
     s\<lparr>sg_conv := kc_conv k, sg_cmd := IKCP_CMD_PUSH, sg_wnd := wnd, sg_ts := kc_current k, sg_sn := nxt, sg_una := kc_rcv_nxt k,
       sg_resendts := kc_current k, sg_rto := kc_rx_rto k, sg_fastack := 0, sg_xmit := 0\<rparr> # numbered wnd (nxt + 1) k ss"

lemma numbered_length [simp]: "length (numbered wnd nxt k ss) = length ss"
  by (induction ss arbitrary: nxt) simp_all

lemma numbered_nth:
  "i < length ss \<Longrightarrow> sg_sn (numbered wnd nxt k ss ! i) = nxt + of_nat i \<and> sg_data (numbered wnd nxt k ss ! i) = sg_data (ss ! i) \<and>
    sg_frg (numbered wnd nxt k ss ! i) = sg_frg (ss ! i) \<and> sg_conv (numbered wnd nxt k ss ! i) = kc_conv k \<and>
    sg_cmd (numbered wnd nxt k ss ! i) = IKCP_CMD_PUSH"
  by (induction ss arbitrary: nxt i) (auto simp: less_Suc_eq_0_disj)

lemma numbered_cong:
  "kc_conv k' = kc_conv k \<Longrightarrow> kc_current k' = kc_current k \<Longrightarrow> kc_rcv_nxt k' = kc_rcv_nxt k \<Longrightarrow> kc_rx_rto k' = kc_rx_rto k \<Longrightarrow>
   numbered wnd nxt k' ss = numbered wnd nxt k ss"
  by (induction ss arbitrary: nxt) simp_all

text \<open>Signed comparison of numbers that are less than half of the range apart.\<close>

lemma diff_sign:
  assumes "unat (a :: u32) < 2 ^ 31" "unat c < 2 ^ 31"
  shows "sint (a - c) = int (unat a) - int (unat c)"
proof -
  have "a - c = word_of_int (int (unat a) - int (unat c))" by simp
  then have "sint (a - c) = signed_take_bit 31 (int (unat a) - int (unat c))" by (simp only: sint_sbintrunc') simp
  also have "\<dots> = int (unat a) - int (unat c)"
  proof (rule signed_take_bit_int_eq_self)
    have "int (unat a) < int (2 ^ 31)" "int (unat c) < int (2 ^ 31)" using assms by (simp_all only: of_nat_less_iff)
    then have "int (unat a) < 2 ^ 31" "int (unat c) < 2 ^ 31" by (simp_all only: of_nat_power of_nat_numeral)
    then show "- (2 ^ 31) \<le> int (unat a) - int (unat c)" "int (unat a) - int (unat c) < 2 ^ 31" by linarith+
  qed
  finally show ?thesis .
qed

lemma admit_ok:
  assumes "kc_snd_queue k = q" "unat (kc_snd_nxt k - kc_snd_una k) < 2 ^ 31" "unat cwnd < 2 ^ 31" "kc_current k = current"
  defines "j \<equiv> min (length q) (unat cwnd - unat (kc_snd_nxt k - kc_snd_una k))"
  shows "admit_loop cwnd wnd current q k = k\<lparr>kc_snd_queue := drop j q,
    kc_snd_buf := kc_snd_buf k @ numbered wnd (kc_snd_nxt k) k (take j q), kc_nsnd_que := kc_nsnd_que k - of_nat j,
    kc_nsnd_buf := kc_nsnd_buf k + of_nat j, kc_snd_nxt := kc_snd_nxt k + of_nat j\<rparr>"
  using assms(1-4) unfolding j_def
proof (induction q arbitrary: k)
  case Nil
  then show ?case by simp
next
  case (Cons s ss)
  define d where "d = unat (kc_snd_nxt k - kc_snd_una k)"
  have "itimediff (kc_snd_nxt k) (kc_snd_una k + cwnd) = int d - int (unat cwnd)"
    using diff_sign [OF Cons.prems(2,3)] by (simp add: itimediff_def d_def algebra_simps)
  then have c: "itimediff (kc_snd_nxt k) (kc_snd_una k + cwnd) < 0 \<longleftrightarrow> d < unat cwnd" by linarith
  show ?case
  proof (cases "d < unat cwnd")
    case False
    then show ?thesis using c Cons.prems(1) by (simp flip: d_def)
  next
    case True
    define s' where "s' = s\<lparr>sg_conv := kc_conv k, sg_cmd := IKCP_CMD_PUSH, sg_wnd := wnd, sg_ts := current, sg_sn := kc_snd_nxt k,
                 sg_una := kc_rcv_nxt k, sg_resendts := current, sg_rto := kc_rx_rto k, sg_fastack := 0, sg_xmit := 0\<rparr>"
    define k1 where "k1 = k\<lparr>kc_snd_queue := ss, kc_snd_buf := kc_snd_buf k @ [s'], kc_nsnd_que := kc_nsnd_que k - 1,
      kc_nsnd_buf := kc_nsnd_buf k + 1, kc_snd_nxt := kc_snd_nxt k + 1\<rparr>"
    have "unat (kc_snd_nxt k + 1 - kc_snd_una k) = unat (kc_snd_nxt k - kc_snd_una k + 1)" by (simp add: algebra_simps)
    also have "\<dots> = Suc d" using Cons.prems(2) by (simp add: d_def unat_word_ariths)
    finally have d1: "unat (kc_snd_nxt k1 - kc_snd_una k1) = Suc d" by (simp add: k1_def)
    have st: "admit_loop cwnd wnd current (s # ss) k = admit_loop cwnd wnd current ss k1"
      using True c by (simp add: k1_def s'_def Let_def)
    define jj where "jj = min (length ss) (unat cwnd - Suc d)"
    have m: "min (Suc (length ss)) (unat cwnd - d) = Suc jj" using True by (simp add: jj_def)
    have nb: "numbered wnd nxt k1 xs = numbered wnd nxt k xs" for nxt xs by (rule numbered_cong) (simp_all add: k1_def)
    have "admit_loop cwnd wnd current ss k1 = k1\<lparr>kc_snd_queue := drop jj ss,
      kc_snd_buf := kc_snd_buf k1 @ numbered wnd (kc_snd_nxt k1) k1 (take jj ss),
      kc_nsnd_que := kc_nsnd_que k1 - of_nat jj, kc_nsnd_buf := kc_nsnd_buf k1 + of_nat jj, kc_snd_nxt := kc_snd_nxt k1 + of_nat jj\<rparr>"
      using Cons.IH [of k1] d1 Cons.prems(3,4) True by (simp add: k1_def jj_def)
    moreover have "numbered wnd (kc_snd_nxt k) k (take (Suc jj) (s # ss)) = s' # numbered wnd (kc_snd_nxt k + 1) k (take jj ss)"
      by (simp add: s'_def Cons.prems(4))
    ultimately show ?thesis unfolding st nb
      by (simp only: list.size d_def [symmetric] m add_Suc_right add_0_right) (simp add: k1_def algebra_simps)
  qed
qed

section \<open>A whole flush\<close>

text \<open>The segments are not longer than the path allows, and the block for datagrams has room for one.\<close>

definition kcp_sizes :: "kcp \<Rightarrow> bool" where
  "kcp_sizes k \<longleftrightarrow> unat (kc_mtu k) = unat (kc_mss k) + 24 \<and> 0 < unat (kc_mss k) \<and> unat (kc_mtu k) < 2 ^ 31 \<and>
     unat (kc_mtu k) \<le> kc_buffer k \<and>
     (\<forall>s \<in> set (kc_snd_queue k @ kc_snd_buf k). length (sg_data s) \<le> unat (kc_mss k) \<and> sg_frg s < 256) \<and>
     (\<forall>s \<in> set (kc_snd_buf k). sg_cmd s = IKCP_CMD_PUSH \<and> sg_conv s = kc_conv k) \<and>
     kc_rcv_wnd k < 65536 \<and> kc_rmt_wnd k < 65536"

text \<open>How far back from the next number a segment is; the segments of \<open>snd_buf\<close> are numbered upwards from \<open>snd_una\<close>.\<close>

definition outstanding :: "kcp \<Rightarrow> segment \<Rightarrow> nat" where
  "outstanding k s = unat (kc_snd_nxt k - sg_sn s)"

definition kcp_window :: "kcp \<Rightarrow> bool" where
  "kcp_window k \<longleftrightarrow> unat (kc_snd_nxt k - kc_snd_una k) < 2 ^ 31 \<and>
     (\<forall>s \<in> set (kc_snd_buf k). 0 < outstanding k s \<and> outstanding k s \<le> unat (kc_snd_nxt k - kc_snd_una k)) \<and>
     sorted_wrt (\<lambda>a b. outstanding k b < outstanding k a) (kc_snd_buf k)"

definition kcp_fits :: "kcp \<Rightarrow> bool" where
  "kcp_fits k \<longleftrightarrow> kcp_sizes k \<and> kcp_window k"

definition flush_cwnd :: "kcp \<Rightarrow> u32" where
  "flush_cwnd k = (let cwnd = imin (kc_snd_wnd k) (kc_rmt_wnd k) in if kc_nocwnd k = 0 then imin (kc_cwnd k) cwnd else cwnd)"

definition flush_resent :: "kcp \<Rightarrow> u32" where
  "flush_resent k = (if 0 < kc_fastresend k then word_of_int (kc_fastresend k) else 0xffffffff)"

definition flush_rtomin :: "kcp \<Rightarrow> u32" where
  "flush_rtomin k = (if kc_nodelay k = 0 then word_of_int (sint (kc_rx_rto k) div 8) else 0)"

text \<open>How many segments of the queue enter the window, and the window then.\<close>

definition admitted :: "kcp \<Rightarrow> nat" where
  "admitted k = min (length (kc_snd_queue k)) (unat (flush_cwnd k) - unat (kc_snd_nxt k - kc_snd_una k))"

definition window_of :: "kcp \<Rightarrow> segment list" where
  "window_of k = kc_snd_buf k @ numbered (ikcp_wnd_unused k) (kc_snd_nxt k) k (take (admitted k) (kc_snd_queue k))"

definition due :: "kcp \<Rightarrow> segment \<Rightarrow> bool" where
  "due k s \<longleftrightarrow> send_now (kc_current k) (flush_resent k) k s \<noteq> Not_now"

definition after_flush :: "kcp \<Rightarrow> segment \<Rightarrow> segment" where
  "after_flush k = sent_as (kc_current k) (ikcp_wnd_unused k) (flush_resent k) (flush_rtomin k) k"

definition control :: "kcp \<Rightarrow> u32 \<Rightarrow> segment" where
  "control k cmd = \<lparr>sg_conv = kc_conv k, sg_cmd = cmd, sg_frg = 0, sg_wnd = ikcp_wnd_unused k, sg_ts = 0, sg_sn = 0,
     sg_una = kc_rcv_nxt k, sg_resendts = 0, sg_rto = 0, sg_fastack = 0, sg_xmit = 0, sg_data = []\<rparr>"

definition acks_of :: "kcp \<Rightarrow> segment list" where
  "acks_of k = map (\<lambda>(sn, ts). (control k IKCP_CMD_ACK)\<lparr>sg_sn := sn, sg_ts := ts\<rparr>) (kc_acklist k)"

definition probes_of :: "kcp \<Rightarrow> segment list" where
  "probes_of k = (let h = after_acks (control k IKCP_CMD_ACK) (kc_acklist k); p = kc_probe (flush_probe_timer k)
     in (if p AND IKCP_ASK_SEND \<noteq> 0 then [h\<lparr>sg_cmd := IKCP_CMD_WASK\<rparr>] else []) @
        (if p AND IKCP_ASK_TELL \<noteq> 0 then [h\<lparr>sg_cmd := IKCP_CMD_WINS\<rparr>] else []))"

lemma probe_timer_shape:
  "flush_probe_timer k = k\<lparr>kc_probe := kc_probe (flush_probe_timer k), kc_probe_wait := kc_probe_wait (flush_probe_timer k),
     kc_ts_probe := kc_ts_probe (flush_probe_timer k)\<rparr>"
  by (simp add: flush_probe_timer_def Let_def)

lemma probe_timer_cong:
  "kc_probe (flush_probe_timer (k\<lparr>kc_out := out, kc_acklist := as\<rparr>)) = kc_probe (flush_probe_timer k)"
  by (simp add: flush_probe_timer_def Let_def)

lemma sent_cong:
  assumes "kc_rcv_nxt k' = kc_rcv_nxt k" "kc_rx_rto k' = kc_rx_rto k" "kc_nodelay k' = kc_nodelay k" "kc_fastlimit k' = kc_fastlimit k"
  shows "send_now current resent k' = send_now current resent k"
    "sent_as current wnd resent rtomin k' = sent_as current wnd resent rtomin k"
  using assms by (simp_all add: fun_eq_iff send_now_def sent_as_def restart_def longer_rto_def Let_def split: send_reason.split)

lemma window_fields [simp]:
  "kc_out (flush_window c r w k) = kc_out k" "kc_snd_buf (flush_window c r w k) = kc_snd_buf k"
  "kc_snd_queue (flush_window c r w k) = kc_snd_queue k" "kc_acklist (flush_window c r w k) = kc_acklist k"
  "kc_mtu (flush_window c r w k) = kc_mtu k" "kc_mss (flush_window c r w k) = kc_mss k" "kc_buffer (flush_window c r w k) = kc_buffer k"
  "kc_conv (flush_window c r w k) = kc_conv k" "kc_rcv_wnd (flush_window c r w k) = kc_rcv_wnd k"
  "kc_rmt_wnd (flush_window c r w k) = kc_rmt_wnd k" "kc_snd_nxt (flush_window c r w k) = kc_snd_nxt k"
  "kc_snd_una (flush_window c r w k) = kc_snd_una k" "kc_rcv_buf (flush_window c r w k) = kc_rcv_buf k"
  "kc_rcv_queue (flush_window c r w k) = kc_rcv_queue k" "kc_rcv_nxt (flush_window c r w k) = kc_rcv_nxt k"
  "kc_nsnd_que (flush_window c r w k) = kc_nsnd_que k" "kc_nsnd_buf (flush_window c r w k) = kc_nsnd_buf k"
  "kc_updated (flush_window c r w k) = kc_updated k" "kc_nrcv_que (flush_window c r w k) = kc_nrcv_que k" "kc_nrcv_buf (flush_window c r w k) = kc_nrcv_buf k"
  by (simp_all add: flush_window_def Let_def)

definition same_receiver :: "kcp \<Rightarrow> kcp \<Rightarrow> bool" where
  "same_receiver k k' \<longleftrightarrow> kc_rcv_buf k' = kc_rcv_buf k \<and> kc_rcv_queue k' = kc_rcv_queue k \<and> kc_rcv_nxt k' = kc_rcv_nxt k \<and>
     kc_nrcv_que k' = kc_nrcv_que k \<and> kc_nrcv_buf k' = kc_nrcv_buf k \<and> kc_rcv_wnd k' = kc_rcv_wnd k"

lemma cwnd_small: "kcp_fits k \<Longrightarrow> unat (flush_cwnd k) < 65536"
proof -
  assume "kcp_fits k"
  then have r: "unat (kc_rmt_wnd k) < 65536" by (simp add: kcp_fits_def kcp_sizes_def word_less_nat_alt)
  have "unat (flush_cwnd k) \<le> unat (kc_rmt_wnd k)"
    by (auto simp: flush_cwnd_def imin_def Let_def word_le_nat_alt)
  then show ?thesis using r by linarith
qed

lemma numbered_in:
  assumes "s \<in> set (numbered wnd nxt k ss)"
  shows "\<exists>s' \<in> set ss. sg_data s = sg_data s' \<and> sg_frg s = sg_frg s' \<and> sg_conv s = kc_conv k \<and> sg_cmd s = IKCP_CMD_PUSH"
proof -
  obtain i where i: "i < length ss" "s = numbered wnd nxt k ss ! i" using assms by (auto simp: in_set_conv_nth)
  show ?thesis using numbered_nth [OF i(1), of wnd nxt k] i by (intro bexI [of _ "ss ! i"]) simp_all
qed

lemma window_of_fits:
  assumes "kcp_fits k" "s \<in> set (window_of k)"
  shows "length (sg_data s) \<le> unat (kc_mss k)" "sg_frg s < 256" "sg_cmd s = IKCP_CMD_PUSH" "sg_conv s = kc_conv k"
proof -
  have q: "\<forall>s \<in> set (kc_snd_queue k @ kc_snd_buf k). length (sg_data s) \<le> unat (kc_mss k) \<and> sg_frg s < 256"
    "\<forall>s \<in> set (kc_snd_buf k). sg_cmd s = IKCP_CMD_PUSH \<and> sg_conv s = kc_conv k"
    using assms(1) unfolding kcp_fits_def kcp_sizes_def by blast+
  have "length (sg_data s) \<le> unat (kc_mss k) \<and> sg_frg s < 256 \<and> sg_cmd s = IKCP_CMD_PUSH \<and> sg_conv s = kc_conv k"
  proof (cases "s \<in> set (kc_snd_buf k)")
    case True
    then show ?thesis using q by simp
  next
    case False
    then have "s \<in> set (numbered (ikcp_wnd_unused k) (kc_snd_nxt k) k (take (admitted k) (kc_snd_queue k)))"
      using assms(2) by (simp add: window_of_def)
    then obtain s' where "s' \<in> set (kc_snd_queue k)" "sg_data s = sg_data s'" "sg_frg s = sg_frg s'" "sg_conv s = kc_conv k" "sg_cmd s = IKCP_CMD_PUSH"
      using numbered_in in_set_takeD by (metis (no_types, lifting))
    then show ?thesis using q(1) by auto
  qed
  then show "length (sg_data s) \<le> unat (kc_mss k)" "sg_frg s < 256" "sg_cmd s = IKCP_CMD_PUSH" "sg_conv s = kc_conv k" by blast+
qed

lemma window_small: "kcp_fits k \<Longrightarrow> \<forall>s \<in> set (window_of k). 24 + length (sg_data s) \<le> unat (kc_mtu k)"
  using window_of_fits(1) by (fastforce simp: kcp_fits_def kcp_sizes_def)

lemma flush_sends:
  assumes fits: "kcp_fits k" and u: "kc_updated k \<noteq> 0"
  shows "\<exists>k' ps. ikcp_flush k = Some k' \<and> kc_out k' = kc_out k @ map packet ps \<and>
    (\<forall>p \<in> set ps. p \<noteq> [] \<and> length (packet p) \<le> unat (kc_mtu k)) \<and>
    concat ps = acks_of k @ probes_of k @ map (after_flush k) (filter (due k) (window_of k)) \<and>
    kc_snd_buf k' = map (after_flush k) (window_of k) \<and> kc_snd_queue k' = drop (admitted k) (kc_snd_queue k) \<and>
    kc_acklist k' = [] \<and> kc_snd_nxt k' = kc_snd_nxt k + of_nat (admitted k) \<and> kc_snd_una k' = kc_snd_una k \<and>
    kc_mtu k' = kc_mtu k \<and> kc_mss k' = kc_mss k \<and> kc_buffer k' = kc_buffer k \<and> kc_conv k' = kc_conv k \<and>
    kc_rmt_wnd k' = kc_rmt_wnd k \<and> kc_nsnd_que k' = kc_nsnd_que k - of_nat (admitted k) \<and>
    kc_nsnd_buf k' = kc_nsnd_buf k + of_nat (admitted k) \<and> kc_updated k' = kc_updated k \<and> same_receiver k k'"
proof -
  define m where "m = unat (kc_mtu k)"
  have f: "24 \<le> m" "m \<le> kc_buffer k" "unat (kc_snd_nxt k - kc_snd_una k) < 2 ^ 31"
    "\<forall>s \<in> set (kc_snd_queue k @ kc_snd_buf k). 24 + length (sg_data s) \<le> m"
    using fits by (auto simp: kcp_fits_def kcp_sizes_def kcp_window_def m_def)
  define h where "h = control k IKCP_CMD_ACK"
  have hd: "sg_data h = []" by (simp add: h_def control_def)
  obtain p1 o1 where a1: "flush_acks h (kc_acklist k) ([], k) = Some (p1, k\<lparr>kc_out := o1\<rparr>)" "emitted m (kc_out k) p1 o1 (acks_of k)"
    using flush_acks_ok [OF emitted_start, of k h "kc_acklist k"] f(1,2) hd by (auto simp: m_def acks_of_def h_def)
  define h' where "h' = after_acks h (kc_acklist k)"
  have hd': "sg_data (h'\<lparr>sg_cmd := c\<rparr>) = []" for c using hd by (simp add: h'_def after_acks_def split: list.split)
  define k1 where "k1 = flush_probe_timer (k\<lparr>kc_out := o1, kc_acklist := []\<rparr>)"
  define pr where "pr = kc_probe (flush_probe_timer k)"
  define w where "w = kc_probe_wait k1"
  define t where "t = kc_ts_probe k1"
  have k1: "k1 = k\<lparr>kc_out := o1, kc_acklist := [], kc_probe := pr, kc_probe_wait := w, kc_ts_probe := t\<rparr>"
    unfolding w_def t_def pr_def k1_def by (simp add: flush_probe_timer_def Let_def)
  define c1 where "c1 = (if pr AND IKCP_ASK_SEND \<noteq> 0 then [h'\<lparr>sg_cmd := IKCP_CMD_WASK\<rparr>] else [])"
  have "\<exists>p2 o2. (if kc_probe k1 AND IKCP_ASK_SEND \<noteq> 0 then flush_control (h'\<lparr>sg_cmd := IKCP_CMD_WASK\<rparr>) (p1, k1) else Some (p1, k1)) =
      Some (p2, k1\<lparr>kc_out := o2\<rparr>) \<and> emitted m (kc_out k) p2 o2 (acks_of k @ c1)"
  proof (cases "pr AND IKCP_ASK_SEND = 0")
    case True
    then show ?thesis using a1(2) by (intro exI [of _ p1] exI [of _ o1]) (simp add: k1 c1_def)
  next
    case False
    then show ?thesis
      using flush_control_ok [of k1 "kc_out k" p1 "acks_of k" "h'\<lparr>sg_cmd := IKCP_CMD_WASK\<rparr>"] a1(2) f(1,2) hd'
      by (auto simp: k1 c1_def m_def)
  qed
  then obtain p2 o2 where a2: "(if kc_probe k1 AND IKCP_ASK_SEND \<noteq> 0 then flush_control (h'\<lparr>sg_cmd := IKCP_CMD_WASK\<rparr>) (p1, k1) else Some (p1, k1)) =
      Some (p2, k1\<lparr>kc_out := o2\<rparr>)" "emitted m (kc_out k) p2 o2 (acks_of k @ c1)" by blast
  define k2 where "k2 = k1\<lparr>kc_out := o2\<rparr>"
  define c2 where "c2 = (if pr AND IKCP_ASK_TELL \<noteq> 0 then [h'\<lparr>sg_cmd := IKCP_CMD_WINS\<rparr>] else [])"
  have "\<exists>p3 o3. (if kc_probe k2 AND IKCP_ASK_TELL \<noteq> 0 then flush_control (h'\<lparr>sg_cmd := IKCP_CMD_WINS\<rparr>) (p2, k2) else Some (p2, k2)) =
      Some (p3, k2\<lparr>kc_out := o3\<rparr>) \<and> emitted m (kc_out k) p3 o3 (acks_of k @ c1 @ c2)"
  proof (cases "pr AND IKCP_ASK_TELL = 0")
    case True
    then show ?thesis using a2(2) by (intro exI [of _ p2] exI [of _ o2]) (simp add: k2_def k1 c2_def)
  next
    case False
    then show ?thesis
      using flush_control_ok [of k2 "kc_out k" p2 "acks_of k @ c1" "h'\<lparr>sg_cmd := IKCP_CMD_WINS\<rparr>"] a2(2) f(1,2) hd'
      by (auto simp: k2_def k1 c2_def m_def)
  qed
  moreover have "probes_of k = c1 @ c2" by (simp add: probes_of_def c1_def c2_def h'_def h_def pr_def Let_def)
  ultimately obtain p3 o3 where a3: "(if kc_probe k2 AND IKCP_ASK_TELL \<noteq> 0 then flush_control (h'\<lparr>sg_cmd := IKCP_CMD_WINS\<rparr>) (p2, k2) else Some (p2, k2)) =
      Some (p3, k2\<lparr>kc_out := o3\<rparr>)" "emitted m (kc_out k) p3 o3 (acks_of k @ probes_of k)"
    by (metis (no_types, lifting))
  define k3 where "k3 = k2\<lparr>kc_out := o3, kc_probe := 0\<rparr>"
  have k3: "k3 = k\<lparr>kc_out := o3, kc_acklist := [], kc_probe := 0, kc_probe_wait := w, kc_ts_probe := t\<rparr>" by (simp add: k3_def k2_def k1)
  have cw: "(if kc_nocwnd k3 = 0 then imin (kc_cwnd k3) (imin (kc_snd_wnd k3) (kc_rmt_wnd k3)) else imin (kc_snd_wnd k3) (kc_rmt_wnd k3)) = flush_cwnd k"
    by (simp add: k3 flush_cwnd_def)
  define q where "q = kc_snd_queue k"
  define k4 where "k4 = admit_loop (flush_cwnd k) (ikcp_wnd_unused k) (kc_current k) (kc_snd_queue k3) k3"
  have "unat (flush_cwnd k) < 2 ^ 31" using cwnd_small [OF fits] by simp
  then have "k4 = k3\<lparr>kc_snd_queue := drop (admitted k) q,
      kc_snd_buf := kc_snd_buf k3 @ numbered (ikcp_wnd_unused k) (kc_snd_nxt k3) k3 (take (admitted k) q),
      kc_nsnd_que := kc_nsnd_que k3 - of_nat (admitted k), kc_nsnd_buf := kc_nsnd_buf k3 + of_nat (admitted k),
      kc_snd_nxt := kc_snd_nxt k3 + of_nat (admitted k)\<rparr>"
    using admit_ok [of k3 q "flush_cwnd k" "kc_current k" "ikcp_wnd_unused k"] f(3)
    unfolding k4_def by (simp add: k3 q_def admitted_def)
  moreover have "numbered wnd nxt k3 ss = numbered wnd nxt k ss" for wnd nxt ss by (rule numbered_cong) (simp_all add: k3)
  ultimately have k4: "k4 = k\<lparr>kc_out := o3, kc_acklist := [], kc_probe := 0, kc_probe_wait := w, kc_ts_probe := t,
      kc_snd_queue := drop (admitted k) q, kc_snd_buf := window_of k, kc_nsnd_que := kc_nsnd_que k - of_nat (admitted k),
      kc_nsnd_buf := kc_nsnd_buf k + of_nat (admitted k), kc_snd_nxt := kc_snd_nxt k + of_nat (admitted k)\<rparr>"
    by (simp add: k3 window_of_def q_def)
  have len: "\<forall>s \<in> set (kc_snd_buf k4). 24 + length (sg_data s) \<le> unat (kc_mtu k4)" using window_small [OF fits] by (simp add: k4)
  have e4: "emitted (unat (kc_mtu k4)) (kc_out k) p3 (kc_out k4) (acks_of k @ probes_of k)" using a3(2) by (simp add: k4 m_def)
  have b4: "unat (kc_mtu k4) \<le> kc_buffer k4" using f(2) by (simp add: k4 m_def)
  have c4: "send_now (kc_current k) (flush_resent k) k4 = send_now (kc_current k) (flush_resent k) k"
    "sent_as (kc_current k) (ikcp_wnd_unused k) (flush_resent k) (flush_rtomin k) k4 = after_flush k"
    unfolding after_flush_def by (rule sent_cong; simp add: k4)+
  have f5: "filter (\<lambda>s. send_now (kc_current k) (flush_resent k) k s \<noteq> Not_now) ss = filter (due k) ss" for ss by (rule filter_cong) (simp_all add: due_def)
  have sb: "kc_snd_buf k4 = window_of k" and m4: "unat (kc_mtu k4) = m" by (simp_all add: k4 m_def)
  obtain p5 o5 x st where a5: "flush_segments (kc_current k) (ikcp_wnd_unused k) (flush_resent k) (flush_rtomin k) (window_of k) (p3, k4) =
      Some (map (after_flush k) (window_of k), map (send_now (kc_current k) (flush_resent k) k) (window_of k), p5,
        k4\<lparr>kc_out := o5, kc_xmit := x, kc_state := st\<rparr>)"
    "emitted m (kc_out k) p5 o5 ((acks_of k @ probes_of k) @ map (after_flush k) (filter (due k) (window_of k)))"
    using flush_segments_ok [OF e4 b4 len, of "kc_current k" "ikcp_wnd_unused k" "flush_resent k" "flush_rtomin k"]
    unfolding c4 f5 sb m4 by blast
  define whys where "whys = map (send_now (kc_current k) (flush_resent k) k) (window_of k)"
  define k5 where "k5 = ikcp_output p5 (k4\<lparr>kc_out := o5, kc_xmit := x, kc_state := st, kc_snd_buf := map (after_flush k) (window_of k)\<rparr>)"
  have k5: "k5 = k4\<lparr>kc_out := if p5 = [] then o5 else o5 @ [p5], kc_xmit := x, kc_state := st, kc_snd_buf := map (after_flush k) (window_of k)\<rparr>"
    by (simp add: k5_def ikcp_output_def)
  define k6 where "k6 = flush_window (flush_cwnd k) (flush_resent k) whys k5"
  have fin: "ikcp_flush k = Some k6"
  proof -
    have "kc_snd_buf k4 = window_of k" "kc_fastresend k4 = kc_fastresend k" "kc_nodelay k4 = kc_nodelay k" "kc_rx_rto k4 = kc_rx_rto k"
      by (simp_all add: k4)
    note e = this
    have a2': "(if kc_probe (flush_probe_timer (k\<lparr>kc_out := o1, kc_acklist := []\<rparr>)) AND IKCP_ASK_SEND \<noteq> 0
        then flush_control (after_acks h (kc_acklist k)\<lparr>sg_cmd := IKCP_CMD_WASK\<rparr>) (p1, flush_probe_timer (k\<lparr>kc_out := o1, kc_acklist := []\<rparr>))
        else Some (p1, flush_probe_timer (k\<lparr>kc_out := o1, kc_acklist := []\<rparr>))) = Some (p2, k2)"
      using a2(1) unfolding k1_def h'_def k2_def .
    have a3': "(if kc_probe k2 AND IKCP_ASK_TELL \<noteq> 0 then flush_control (after_acks h (kc_acklist k)\<lparr>sg_cmd := IKCP_CMD_WINS\<rparr>) (p2, k2)
        else Some (p2, k2)) = Some (p3, k2\<lparr>kc_out := o3\<rparr>)"
      using a3(1) unfolding h'_def .
    show ?thesis
      unfolding ikcp_flush_def Let_def
      apply (simp only: u if_False a1(1)[unfolded h_def control_def] bind.bind_lunit prod.case)
      apply (simp only: a2'[unfolded h_def control_def] bind.bind_lunit prod.case)
      apply (simp only: a3'[unfolded h_def control_def] bind.bind_lunit prod.case)
      apply (simp only: k3_def [symmetric] cw k4_def [symmetric] e)
      apply (simp only: flush_resent_def [symmetric] flush_rtomin_def [symmetric] a5(1) bind.bind_lunit prod.case)
      by (simp add: k6_def k5_def whys_def flush_rtomin_def flush_resent_def)
  qed
  obtain ps where ps: "kc_out k6 = kc_out k @ map packet ps" "concat ps = acks_of k @ probes_of k @ map (after_flush k) (filter (due k) (window_of k))"
    "\<forall>p \<in> set ps. p \<noteq> [] \<and> length (packet p) \<le> m"
  proof -
    have "emitted m (kc_out k) [] (kc_out k6) ((acks_of k @ probes_of k) @ map (after_flush k) (filter (due k) (window_of k)))"
      using emitted_output [OF a5(2)] by (simp add: k6_def k5)
    then show thesis using that emitted_closed by (metis (no_types, lifting) append_assoc)
  qed
  show ?thesis
    by (rule exI [of _ k6], rule exI [of _ ps])
      (use fin ps in \<open>simp add: k6_def k5 k4 q_def m_def same_receiver_def\<close>)
qed

section \<open>What the peer reads\<close>

lemma unused_small: "kcp_fits k \<Longrightarrow> ikcp_wnd_unused k < 65536"
proof -
  assume "kcp_fits k"
  then have r: "unat (kc_rcv_wnd k) < 65536" by (simp add: kcp_fits_def kcp_sizes_def word_less_nat_alt)
  show ?thesis
  proof (cases "kc_nrcv_que k < kc_rcv_wnd k")
    case True
    then have "unat (kc_rcv_wnd k - kc_nrcv_que k) \<le> unat (kc_rcv_wnd k)" by (simp add: unat_sub_if' word_less_nat_alt)
    then show ?thesis using r True by (simp add: ikcp_wnd_unused_def word_less_nat_alt)
  qed (simp add: ikcp_wnd_unused_def)
qed

lemma emitted_sendable:
  assumes fits: "kcp_fits k" and s: "s \<in> set (acks_of k @ probes_of k @ map (after_flush k) (filter (due k) (window_of k)))"
  shows "sendable_segment s \<and> sg_conv s = kc_conv k"
proof -
  have w: "ikcp_wnd_unused k < 65536" by (rule unused_small [OF fits])
  have m: "unat (kc_mss k) < 2 ^ 31" using fits by (simp add: kcp_fits_def kcp_sizes_def)
  have c: "sendable_segment (control k c\<lparr>sg_cmd := d, sg_sn := sn, sg_ts := ts\<rparr>)" if "d \<in> {IKCP_CMD_ACK, IKCP_CMD_WASK, IKCP_CMD_WINS}" for c d sn ts
    using that w by (auto simp: sendable_segment_def control_def)
  have ctl: "control k IKCP_CMD_ACK = (control k IKCP_CMD_ACK)\<lparr>sg_cmd := IKCP_CMD_ACK\<rparr>" by (simp add: control_def)
  consider "s \<in> set (acks_of k)" | "s \<in> set (probes_of k)" | s' where "s = after_flush k s'" "due k s'" "s' \<in> set (window_of k)"
    using s by auto
  then show ?thesis
  proof cases
    case 1
    then show ?thesis using w by (auto simp: acks_of_def sendable_segment_def control_def)
  next
    case 2
    then show ?thesis using w by (auto simp: probes_of_def sendable_segment_def control_def after_acks_def Let_def split: if_splits list.splits)
  next
    case 3
    note f = window_of_fits [OF fits 3(3)]
    have "sg_wnd s = ikcp_wnd_unused k" using 3(1,2) by (simp add: after_flush_def due_def sent_as_def Let_def)
    then show ?thesis using f w m 3(1) by (auto simp: sendable_segment_def after_flush_def)
  qed
qed

lemma outstanding_shift:
  assumes "unat (nxt - sn :: u32) < 2 ^ 31" "j < 2 ^ 31"
  shows "unat (nxt + of_nat j - sn) = unat (nxt - sn) + j"
proof -
  have j: "unat (of_nat j :: u32) = j" using assms(2) by (simp add: unat_of_nat take_bit_nat_eq_self)
  have "nxt + of_nat j - sn = (nxt - sn) + of_nat j" by (simp add: algebra_simps)
  then show ?thesis using assms j by (simp only:) (simp add: unat_word_ariths)
qed

lemma admitted_small: "kcp_fits k \<Longrightarrow> admitted k < 65536 \<and> unat (kc_snd_nxt k - kc_snd_una k) + admitted k < 2 ^ 31"
  using cwnd_small [of k] by (auto simp: admitted_def kcp_fits_def kcp_window_def)

lemma flush_window_kept:
  assumes fits: "kcp_fits k"
    and k': "kc_snd_buf k' = map (after_flush k) (window_of k)" "kc_snd_nxt k' = kc_snd_nxt k + of_nat (admitted k)"
      "kc_snd_una k' = kc_snd_una k"
  shows "kcp_window k'"
proof -
  define j where "j = admitted k"
  define d where "d = unat (kc_snd_nxt k - kc_snd_una k)"
  have w: "d < 2 ^ 31" "\<forall>s \<in> set (kc_snd_buf k). 0 < outstanding k s \<and> outstanding k s \<le> d"
    "sorted_wrt (\<lambda>a b. outstanding k b < outstanding k a) (kc_snd_buf k)"
    using fits unfolding kcp_fits_def kcp_window_def d_def by blast+
  have j: "d + j < 2 ^ 31" using admitted_small [OF fits] by (simp add: d_def j_def)
  have sn: "outstanding k' (after_flush k s) = outstanding k' s" for s by (simp add: outstanding_def after_flush_def)
  have d': "unat (kc_snd_nxt k' - kc_snd_una k') = d + j"
    using outstanding_shift [of "kc_snd_nxt k" "kc_snd_una k" j] j by (simp add: k' d_def j_def)
  have old: "outstanding k' s = outstanding k s + j" if "s \<in> set (kc_snd_buf k)" for s
    using outstanding_shift [of "kc_snd_nxt k" "sg_sn s" j] w(1,2) j that by (force simp: k'(2) outstanding_def j_def)
  define new where "new = numbered (ikcp_wnd_unused k) (kc_snd_nxt k) k (take j (kc_snd_queue k))"
  have ln: "length new = j" by (simp add: new_def j_def admitted_def)
  have nw: "outstanding k' (new ! i) = j - i" if "i < j" for i
  proof -
    have "sg_sn (new ! i) = kc_snd_nxt k + of_nat i"
      using numbered_nth [of i "take j (kc_snd_queue k)"] that ln by (simp add: new_def)
    then have "kc_snd_nxt k' - sg_sn (new ! i) = of_nat (j - i)" using that by (simp add: k'(2) j_def of_nat_diff algebra_simps)
    then show ?thesis using j by (simp add: outstanding_def unat_of_nat take_bit_nat_eq_self)
  qed
  have new_in: "0 < outstanding k' s \<and> outstanding k' s \<le> j" if "s \<in> set new" for s
    using that nw ln by (fastforce simp: in_set_conv_nth)
  have srt: "sorted_wrt (\<lambda>a b. outstanding k' b < outstanding k' a) (kc_snd_buf k @ new)"
  proof -
    have "sorted_wrt (\<lambda>a b. outstanding k' b < outstanding k' a) (kc_snd_buf k)"
      by (rule sorted_wrt_mono_rel [OF _ w(3)]) (simp add: old)
    moreover have "sorted_wrt (\<lambda>a b. outstanding k' b < outstanding k' a) new"
      using ln nw by (auto simp: sorted_wrt_iff_nth_less)
    moreover have "\<forall>a \<in> set (kc_snd_buf k). \<forall>b \<in> set new. outstanding k' b < outstanding k' a"
      using old new_in w(2) by fastforce
    ultimately show ?thesis by (simp add: sorted_wrt_append)
  qed
  have win: "window_of k = kc_snd_buf k @ new" by (simp add: window_of_def new_def j_def)
  show ?thesis unfolding kcp_window_def d'
  proof (intro conjI)
    show "d + j < 2 ^ 31" by (rule j)
    show "\<forall>s \<in> set (kc_snd_buf k'). 0 < outstanding k' s \<and> outstanding k' s \<le> d + j"
      using old new_in w(2) by (fastforce simp: k'(1) win sn)
    show "sorted_wrt (\<lambda>a b. outstanding k' b < outstanding k' a) (kc_snd_buf k')"
      using srt by (simp only: k'(1) win sn sorted_wrt_map)
  qed
qed

lemma flush_keeps_fits:
  assumes fits: "kcp_fits k" and r: "ikcp_flush k = Some k'"
  shows "kcp_fits k'"
proof (cases "kc_updated k = 0")
  case True
  then show ?thesis using assms by (simp add: ikcp_flush_def)
next
  case False
  note f = flush_sends [OF fits False]
  have k': "kc_snd_buf k' = map (after_flush k) (window_of k)" "kc_snd_queue k' = drop (admitted k) (kc_snd_queue k)"
    "kc_snd_nxt k' = kc_snd_nxt k + of_nat (admitted k)" "kc_snd_una k' = kc_snd_una k" "kc_mtu k' = kc_mtu k" "kc_mss k' = kc_mss k"
    "kc_buffer k' = kc_buffer k" "kc_conv k' = kc_conv k" "kc_rmt_wnd k' = kc_rmt_wnd k" "kc_rcv_wnd k' = kc_rcv_wnd k"
    using f r unfolding same_receiver_def by auto
  have z: "unat (kc_mtu k) = unat (kc_mss k) + 24 \<and> 0 < unat (kc_mss k) \<and> unat (kc_mtu k) < 2 ^ 31 \<and> unat (kc_mtu k) \<le> kc_buffer k"
    "\<forall>s \<in> set (kc_snd_queue k @ kc_snd_buf k). length (sg_data s) \<le> unat (kc_mss k) \<and> sg_frg s < 256"
    "kc_rcv_wnd k < 65536 \<and> kc_rmt_wnd k < 65536"
    using fits unfolding kcp_fits_def kcp_sizes_def by blast+
  have q: "\<forall>s \<in> set (kc_snd_queue k'). length (sg_data s) \<le> unat (kc_mss k) \<and> sg_frg s < 256"
    using z(2) in_set_dropD by (fastforce simp: k'(2))
  have b: "\<forall>s \<in> set (kc_snd_buf k'). length (sg_data s) \<le> unat (kc_mss k) \<and> sg_frg s < 256 \<and> sg_cmd s = IKCP_CMD_PUSH \<and> sg_conv s = kc_conv k"
    using window_of_fits [OF fits] by (simp add: k'(1) after_flush_def)
  have "kcp_sizes k'" unfolding kcp_sizes_def k'(5-10) using z q b by auto
  then show ?thesis using flush_window_kept [OF fits k'(1,3,4)] by (simp add: kcp_fits_def)
qed

text \<open>
  C3: A flush gives the output callback each waiting acknowledgement, each probe that is asked for, and each
  segment of the send window that is new, timed out or skipped, exactly once and in this order, in
  datagrams that are not empty and not longer than the path allows; it writes nothing beyond its block.
  Segments of the queue enter the window in order as far as the window allows, with consecutive numbers, and
  the sizes and the numbering stay consistent.
\<close>
theorem flush_correct:
  assumes "kcp_fits k" "kc_updated k \<noteq> 0"
  shows "\<exists>k' ps. ikcp_flush k = Some k' \<and> kc_out k' = kc_out k @ map packet ps \<and>
    (\<forall>p \<in> set ps. p \<noteq> [] \<and> length (packet p) \<le> unat (kc_mtu k)) \<and>
    concat ps = acks_of k @ probes_of k @ map (after_flush k) (filter (due k) (window_of k)) \<and>
    kc_acklist k' = [] \<and> kc_snd_buf k' = map (after_flush k) (window_of k) \<and>
    kc_snd_queue k' = drop (admitted k) (kc_snd_queue k) \<and> kcp_fits k'"
  using flush_sends [OF assms] flush_keeps_fits [OF assms(1)] by metis

definition kcp_example :: kcp where
  "kcp_example = (the (ikcp_create True True 7))\<lparr>kc_updated := 1, kc_acklist := [(3, 4)], kc_nocwnd := 1, kc_nsnd_que := 1,
     kc_snd_queue := [(control (the (ikcp_create True True 7)) 0)\<lparr>sg_data := [1, 2, 3]\<rparr>]\<rparr>"

lemma kcp_example_fits: "kcp_fits kcp_example" "kc_updated kcp_example \<noteq> 0" "kc_conv kcp_example = 7"
  by (simp_all add: kcp_fits_def kcp_sizes_def kcp_window_def kcp_example_def ikcp_create_def control_def IKCP_MTU_DEF_def IKCP_WND_RCV_def IKCP_OVERHEAD_def)

lemma kcp_example_simps:
  "kc_out kcp_example = []" "kc_acklist kcp_example = [(3, 4)]" "kc_rmt_wnd kcp_example = 128" "kc_snd_wnd kcp_example = 32"
  "kc_nocwnd kcp_example = 1" "kc_snd_buf kcp_example = []" "kc_snd_nxt kcp_example = 0" "kc_snd_una kcp_example = 0"
  "kc_probe kcp_example = 0"
  "kc_snd_queue kcp_example = [(control (the (ikcp_create True True 7)) 0)\<lparr>sg_data := [1, 2, 3]\<rparr>]"
  by (simp_all add: kcp_example_def ikcp_create_def IKCP_WND_RCV_def IKCP_WND_SND_def)

lemma flush_correct_witness: "\<exists>k' ps. ikcp_flush kcp_example = Some k' \<and> kc_out k' = map packet ps \<and>
    map (\<lambda>s. (sg_cmd s, sg_sn s, sg_data s)) (concat ps) = [(IKCP_CMD_ACK, 3, []), (IKCP_CMD_PUSH, 0, [1, 2, 3])]"
proof -
  note ex = kcp_example_simps
  have a: "map (\<lambda>s. (sg_cmd s, sg_sn s, sg_data s)) (acks_of kcp_example) = [(IKCP_CMD_ACK, 3, [])]"
    by (simp add: acks_of_def ex control_def)
  have p: "probes_of kcp_example = []" by (simp add: probes_of_def flush_probe_timer_def ex Let_def)
  have "admitted kcp_example = 1" by (simp add: admitted_def flush_cwnd_def imin_def Let_def ex)
  then have w: "window_of kcp_example = numbered (ikcp_wnd_unused kcp_example) 0 kcp_example [(control (the (ikcp_create True True 7)) 0)\<lparr>sg_data := [1, 2, 3]\<rparr>]"
    by (simp add: window_of_def ex)
  have "map (\<lambda>s. (sg_cmd s, sg_sn s, sg_data s)) (map (after_flush kcp_example) (filter (due kcp_example) (window_of kcp_example))) =
      [(IKCP_CMD_PUSH, 0, [1, 2, 3])]"
    unfolding w by (simp add: due_def send_now_def after_flush_def)
  then have "map (\<lambda>s. (sg_cmd s, sg_sn s, sg_data s))
      (acks_of kcp_example @ probes_of kcp_example @ map (after_flush kcp_example) (filter (due kcp_example) (window_of kcp_example))) =
      [(IKCP_CMD_ACK, 3, []), (IKCP_CMD_PUSH, 0, [1, 2, 3])]" "kc_out kcp_example = []"
    using a p ex(1) by (simp_all only: map_append append_Nil append_Cons)
  note e = this
  obtain k' ps where f: "ikcp_flush kcp_example = Some k'" "kc_out k' = kc_out kcp_example @ map packet ps"
    "concat ps = acks_of kcp_example @ probes_of kcp_example @ map (after_flush kcp_example) (filter (due kcp_example) (window_of kcp_example))"
    using flush_correct [OF kcp_example_fits(1,2)] by blast
  show ?thesis by (rule exI [of _ k'], rule exI [of _ ps]) (use f(1,2) e in \<open>simp only: f(3) append_Nil\<close>)
qed

text \<open>
  The sizes have to be consistent: a message that is queued for the default path of 1400 bytes is still in one
  piece when the path is set to 50, and the flush writes beyond the new block of 222 bytes.
\<close>

definition kcp_shrunk :: kcp where
  "kcp_shrunk = snd (ikcp_setmtu True 50 (kcp_example\<lparr>kc_acklist := [],
     kc_snd_queue := [(control (the (ikcp_create True True 7)) 0)\<lparr>sg_data := replicate 1376 0\<rparr>]\<rparr>))"

lemma flush_after_setmtu_faults: "ikcp_flush kcp_shrunk = None"
proof -
  define s where "s = (control (the (ikcp_create True True 7)) 0)\<lparr>sg_data := replicate 1376 0\<rparr>"
  have k: "kcp_shrunk = kcp_example\<lparr>kc_acklist := [], kc_snd_queue := [s], kc_mtu := 50, kc_mss := 26, kc_buffer := 222\<rparr>"
    by (simp add: kcp_shrunk_def ikcp_setmtu_def IKCP_OVERHEAD_def s_def)
  note f = kcp_example_simps kcp_example_fits(2)
  have l: "length (sg_data s) = 1376" by (simp add: s_def)
  have p: "flush_probe_timer kcp_shrunk = kcp_shrunk\<lparr>kc_ts_probe := 0, kc_probe_wait := 0\<rparr>"
    by (simp add: flush_probe_timer_def k f)
  have e: "kc_out kcp_shrunk = []" "kc_acklist kcp_shrunk = []" "kc_rmt_wnd kcp_shrunk = 128" "kc_snd_wnd kcp_shrunk = 32"
    "kc_nocwnd kcp_shrunk = 1" "kc_snd_buf kcp_shrunk = []" "kc_snd_nxt kcp_shrunk = 0" "kc_snd_una kcp_shrunk = 0" "kc_probe kcp_shrunk = 0"
    "kc_snd_queue kcp_shrunk = [s]" "kc_buffer kcp_shrunk = 222" "kc_updated kcp_shrunk \<noteq> 0" "kc_acklist_update (\<lambda>_. []) kcp_shrunk = kcp_shrunk"
    by (simp_all add: k f)
  have n: "flush_segment c w r m s' ([], k) = None" if "kc_buffer k = 222" "sg_xmit s' = 0" "length (sg_data s') = 1376" for c w r m s' k
    using that l by (simp add: flush_segment_def send_now_def flush_room_def flush_put_def ikcp_output_def Let_def)
  show ?thesis
    by (simp add: ikcp_flush_def e p Let_def IKCP_ASK_SEND_def IKCP_ASK_TELL_def after_acks_def imin_def itimediff_def n l)
qed

text \<open>
  C4: What a flush sends is what the peer reads: the input of each of its datagrams, at any endpoint of the
  same conversation, has the effect of its segments one after the other, with the command, number, data and window
  that were sent, and reports no error.
\<close>
theorem flush_read_back:
  assumes "kcp_fits k" "kc_updated k \<noteq> 0" "kc_conv peer = kc_conv k"
  shows "\<exists>k' ps. ikcp_flush k = Some k' \<and> kc_out k' = kc_out k @ map packet ps \<and>
    concat ps = acks_of k @ probes_of k @ map (after_flush k) (filter (due k) (window_of k)) \<and>
    (\<forall>p \<in> set ps. input_loop mem_ack mem raw (packet p) peer ack =
      map_option (\<lambda>(peer', ack'). (0, peer', ack')) (input_segments mem_ack mem raw p peer ack)) \<and>
    (\<forall>s \<in> set (concat ps). ucast (hd_cmd (head_of s)) = sg_cmd s \<and> hd_sn (head_of s) = sg_sn s \<and> ucast (hd_frg (head_of s)) = sg_frg s \<and>
      ucast (hd_wnd (head_of s)) = sg_wnd s \<and> unat (hd_len (head_of s)) = length (sg_data s))"
proof -
  obtain k' ps where f: "ikcp_flush k = Some k'" "kc_out k' = kc_out k @ map packet ps"
    "concat ps = acks_of k @ probes_of k @ map (after_flush k) (filter (due k) (window_of k))"
    using flush_sends [OF assms(1,2)] by blast
  have s: "\<forall>s \<in> set (concat ps). sendable_segment s \<and> sg_conv s = kc_conv peer"
    using emitted_sendable [OF assms(1)] assms(3) unfolding f(3) by metis
  then have "\<forall>p \<in> set ps. \<forall>s \<in> set p. sendable_segment s \<and> sg_conv s = kc_conv peer" unfolding set_concat by blast
  then have "\<forall>p \<in> set ps. input_loop mem_ack mem raw (packet p) peer ack =
      map_option (\<lambda>(peer', ack'). (0, peer', ack')) (input_segments mem_ack mem raw p peer ack)"
    using input_packet by blast
  moreover have "hd_sn (head_of s) = sg_sn s" for s by (simp add: head_of_def)
  ultimately show ?thesis using f s sendable_fields(2-5) by metis
qed

lemma flush_read_back_witness: "\<exists>k' ps. ikcp_flush kcp_example = Some k' \<and> kc_out k' = map packet ps \<and> ps \<noteq> [] \<and>
    list_all (\<lambda>p. input_loop True True (control kcp_example 0) (packet p) kcp_example None =
      map_option (\<lambda>(peer', ack'). (0, peer', ack')) (input_segments True True (control kcp_example 0) p kcp_example None)) ps"
proof -
  obtain k' ps where f: "ikcp_flush kcp_example = Some k'" "kc_out k' = kc_out kcp_example @ map packet ps"
    "concat ps = acks_of kcp_example @ probes_of kcp_example @ map (after_flush kcp_example) (filter (due kcp_example) (window_of kcp_example))"
    "\<forall>p \<in> set ps. input_loop True True (control kcp_example 0) (packet p) kcp_example None =
      map_option (\<lambda>(peer', ack'). (0, peer', ack')) (input_segments True True (control kcp_example 0) p kcp_example None)"
    using flush_read_back [OF kcp_example_fits(1,2) refl, of True True "control kcp_example 0" None] by blast
  have "ps \<noteq> []" using f(3) kcp_example_simps(2) by (auto simp: acks_of_def)
  then show ?thesis using f kcp_example_simps(1) by (intro exI [of _ k'] exI [of _ ps]) (simp add: list_all_iff)
qed

end
