(* ===== verification/KcpInv.thy ===== *)
theory KcpInv
  imports KcpFlush
begin

unbundle bit_operations_syntax

text \<open>
  The state of a conversation stays well formed: the numbers of the segments in the send window, the order of
  the receive buffer, the sizes and the counters, under every call of the protocol, whatever bytes arrive.
\<close>

lemma sint_nonneg: "0 \<le> sint (a :: u32) \<Longrightarrow> unat a < 2 ^ 31"
proof -
  assume "0 \<le> sint a"
  then have "even (uint a div 2 ^ 31)" by (simp add: sint_uint signed_take_bit_nonnegative_iff bit_iff_odd)
  moreover have "uint a div 2 ^ 31 < 2" "0 \<le> uint a div 2 ^ 31" using uint_lt2p [of a] by (simp_all add: pos_imp_zdiv_nonneg_iff)
  moreover have "x = 0" if "even x" "x < 2" "0 \<le> x" for x :: int using that by presburger
  ultimately have "uint a div 2 ^ 31 = 0" by blast
  then have "uint a mod 2 ^ 31 = uint a" using div_mult_mod_eq [of "uint a" "2 ^ 31"] by (simp only: mult_zero_left add_0_left)
  then have "uint a < 2 ^ 31" using pos_mod_bound [of "2 ^ 31" "uint a"] by simp
  then have "int (unat a) < 2147483648" by (simp only: uint_nat) simp
  then have "unat a < 2147483648" by linarith
  then show ?thesis by simp
qed

section \<open>Acknowledgements\<close>

lemma una_loop_drops:
  "una_loop una ss n = (dropWhile (\<lambda>s. 0 < itimediff una (sg_sn s)) ss,
     n - of_nat (length (takeWhile (\<lambda>s. 0 < itimediff una (sg_sn s)) ss)))"
  by (induction ss arbitrary: n) (simp_all add: algebra_simps)

lemma parse_una_shape:
  "ikcp_parse_una una k = k\<lparr>kc_snd_buf := dropWhile (\<lambda>s. 0 < itimediff una (sg_sn s)) (kc_snd_buf k),
     kc_nsnd_buf := kc_nsnd_buf k - of_nat (length (takeWhile (\<lambda>s. 0 < itimediff una (sg_sn s)) (kc_snd_buf k)))\<rparr>"
  by (simp add: ikcp_parse_una_def una_loop_drops)

lemma ack_loop_removes:
  "ack_loop sn ss = (ss', hit) \<Longrightarrow> if hit then \<exists>a s b. ss = a @ s # b \<and> sg_sn s = sn \<and> ss' = a @ b else ss' = ss"
proof (induction ss arbitrary: ss' hit)
  case Nil
  then show ?case by simp
next
  case (Cons x ss)
  obtain t h where r: "ack_loop sn ss = (t, h)" by fastforce
  consider "sn = sg_sn x" | "sn \<noteq> sg_sn x" "itimediff sn (sg_sn x) < 0" | "sn \<noteq> sg_sn x" "\<not> itimediff sn (sg_sn x) < 0" by blast
  then show ?case
  proof cases
    case 1
    then show ?thesis using Cons.prems by (auto intro!: exI [of _ "[]"])
  next
    case 2
    then show ?thesis using Cons.prems by simp
  next
    case 3
    then have e: "ss' = x # t" "hit = h" using Cons.prems r by simp_all
    show ?thesis
    proof (cases h)
      case True
      then obtain a s b where "ss = a @ s # b" "sg_sn s = sn" "t = a @ b" using Cons.IH [OF r] by auto
      then show ?thesis using True e by (auto intro!: exI [of _ "x # a"])
    next
      case False
      then show ?thesis using Cons.IH [OF r] e by simp
    qed
  qed
qed

lemma fastack_loop_map:
  "map sg_sn (fastack_loop sn ss) = map sg_sn ss \<and> map sg_data (fastack_loop sn ss) = map sg_data ss \<and>
   map sg_frg (fastack_loop sn ss) = map sg_frg ss \<and> map sg_cmd (fastack_loop sn ss) = map sg_cmd ss \<and>
   map sg_conv (fastack_loop sn ss) = map sg_conv ss"
  by (induction ss) simp_all

section \<open>The send window\<close>

text \<open>The same without the number of the first segment that is not acknowledged.\<close>

definition numbers_fall :: "kcp \<Rightarrow> bool" where
  "numbers_fall k \<longleftrightarrow> (\<forall>s \<in> set (kc_snd_buf k). 0 < outstanding k s \<and> outstanding k s < 2 ^ 31) \<and>
     sorted_wrt (\<lambda>a b. outstanding k b < outstanding k a) (kc_snd_buf k)"

lemma window_numbers: "kcp_window k \<Longrightarrow> numbers_fall k"
  by (fastforce simp: kcp_window_def numbers_fall_def)

lemma shrink_window:
  assumes "numbers_fall k"
  shows "kcp_window (ikcp_shrink_buf k)"
proof (cases "kc_snd_buf k")
  case Nil
  then show ?thesis by (simp add: ikcp_shrink_buf_def kcp_window_def)
next
  case (Cons s ss)
  have "outstanding (k\<lparr>kc_snd_una := u\<rparr>) x = outstanding k x" for u x by (simp add: outstanding_def)
  then show ?thesis
    using assms Cons by (auto simp: ikcp_shrink_buf_def kcp_window_def numbers_fall_def outstanding_def less_imp_le)
qed

lemma sorted_wrt_cut: "sorted_wrt P (a @ s # b) \<Longrightarrow> sorted_wrt P (a @ b)"
  by (simp add: sorted_wrt_append)

lemma numbers_cong:
  "kc_snd_buf k' = kc_snd_buf k \<Longrightarrow> kc_snd_nxt k' = kc_snd_nxt k \<Longrightarrow> numbers_fall k' = numbers_fall k"
  by (simp add: numbers_fall_def outstanding_def)

lemma window_cong:
  "kc_snd_buf k' = kc_snd_buf k \<Longrightarrow> kc_snd_nxt k' = kc_snd_nxt k \<Longrightarrow> kc_snd_una k' = kc_snd_una k \<Longrightarrow> kcp_window k' = kcp_window k"
  by (simp add: kcp_window_def outstanding_def)

lemma una_numbers:
  assumes "numbers_fall k"
  shows "numbers_fall (ikcp_parse_una una k)"
proof -
  have o: "outstanding (ikcp_parse_una una k) = outstanding k" by (simp add: fun_eq_iff outstanding_def parse_una_shape)
  have "sorted_wrt (\<lambda>a b. outstanding k b < outstanding k a) (dropWhile P (kc_snd_buf k))" for P
    using assms unfolding numbers_fall_def by (metis sorted_wrt_append takeWhile_dropWhile_id)
  then show ?thesis
    using assms unfolding numbers_fall_def o by (auto simp: parse_una_shape dest: set_dropWhileD)
qed

lemma ack_window:
  assumes "kcp_window k"
  shows "kcp_window (ikcp_parse_ack sn k)"
proof (cases "itimediff sn (kc_snd_una k) < 0 \<or> 0 \<le> itimediff sn (kc_snd_nxt k)")
  case True
  then show ?thesis using assms by (simp add: ikcp_parse_ack_def)
next
  case False
  obtain ss h where r: "ack_loop sn (kc_snd_buf k) = (ss, h)" by fastforce
  define k' where "k' = ikcp_parse_ack sn k"
  have k': "kc_snd_buf k' = ss" "kc_snd_nxt k' = kc_snd_nxt k" "kc_snd_una k' = kc_snd_una k"
    using False r by (simp_all add: k'_def ikcp_parse_ack_def)
  have o: "outstanding k' = outstanding k" by (simp add: fun_eq_iff outstanding_def k')
  show ?thesis
  proof (cases h)
    case True
    then obtain a s b where "kc_snd_buf k = a @ s # b" "ss = a @ b" using ack_loop_removes [OF r] by auto
    then show ?thesis using assms sorted_wrt_cut unfolding k'_def [symmetric] kcp_window_def o k' by auto
  next
    case f: False
    then have "ss = kc_snd_buf k" using ack_loop_removes [OF r] by simp
    then show ?thesis using assms unfolding k'_def [symmetric] kcp_window_def o k' by simp
  qed
qed

lemma fastack_window:
  assumes "kcp_window k"
  shows "kcp_window (ikcp_parse_fastack sn ts k)"
proof (cases "itimediff sn (kc_snd_una k) < 0 \<or> 0 \<le> itimediff sn (kc_snd_nxt k)")
  case True
  then show ?thesis using assms by (simp add: ikcp_parse_fastack_def)
next
  case False
  define k' where "k' = ikcp_parse_fastack sn ts k"
  have k': "kc_snd_buf k' = fastack_loop sn (kc_snd_buf k)" "kc_snd_nxt k' = kc_snd_nxt k" "kc_snd_una k' = kc_snd_una k"
    using False by (simp_all add: k'_def ikcp_parse_fastack_def)
  define f where "f = (\<lambda>n. unat (kc_snd_nxt k - n))"
  have o: "outstanding k' = f \<circ> sg_sn" "outstanding k = f \<circ> sg_sn" by (simp_all add: fun_eq_iff outstanding_def k' f_def)
  have m: "map sg_sn (kc_snd_buf k') = map sg_sn (kc_snd_buf k)" using fastack_loop_map k'(1) by simp
  have via: "kcp_window x \<longleftrightarrow> f (kc_snd_una x) < 2 ^ 31 \<and> (\<forall>n \<in> set (map sg_sn (kc_snd_buf x)). 0 < f n \<and> f n \<le> f (kc_snd_una x)) \<and>
      sorted_wrt (\<lambda>a b. f b < f a) (map sg_sn (kc_snd_buf x))" if "outstanding x = f \<circ> sg_sn" "kc_snd_nxt x = kc_snd_nxt k" for x
    using that by (simp add: kcp_window_def f_def sorted_wrt_map)
  have "kcp_window k' = kcp_window k" unfolding via [OF o(2) refl] via [OF o(1) k'(2)] by (simp only: m k'(3))
  then show ?thesis using assms by (simp add: k'_def)
qed

text \<open>An acknowledgement takes exactly its segment out of the send window.\<close>

lemma parse_ack_filter:
  assumes "kcp_window k"
  shows "kc_snd_buf (ikcp_parse_ack sn k) = filter (\<lambda>s. sg_sn s \<noteq> sn) (kc_snd_buf k)"
proof -
  define nxt where "nxt = kc_snd_nxt k"
  define d where "d = unat (nxt - kc_snd_una k)"
  have w: "d < 2 ^ 31" "\<forall>s \<in> set (kc_snd_buf k). 0 < outstanding k s \<and> outstanding k s \<le> d"
    "sorted_wrt (\<lambda>a b. outstanding k b < outstanding k a) (kc_snd_buf k)"
    using assms unfolding kcp_window_def d_def nxt_def by blast+
  have diff: "itimediff a b = int (unat (nxt - b)) - int (unat (nxt - a))" if "unat (nxt - a) < 2 ^ 31" "unat (nxt - b) < 2 ^ 31" for a b
    using diff_sign [OF that(2,1)] by (simp add: itimediff_def)
  show ?thesis
  proof (cases "itimediff sn (kc_snd_una k) < 0 \<or> 0 \<le> itimediff sn nxt")
    case True
    have "sg_sn s \<noteq> sn" if "s \<in> set (kc_snd_buf k)" for s
    proof
      assume e: "sg_sn s = sn"
      have o: "0 < unat (nxt - sn)" "unat (nxt - sn) \<le> d" using w(2) that e by (auto simp: outstanding_def nxt_def)
      have "itimediff sn (kc_snd_una k) = int d - int (unat (nxt - sn))" using diff [of sn "kc_snd_una k"] o w(1) by (simp add: d_def)
      moreover have "itimediff sn nxt = - int (unat (nxt - sn))" using diff [of sn nxt] o w(1) by simp
      ultimately show False using True o by linarith
    qed
    then have "filter (\<lambda>s. sg_sn s \<noteq> sn) (kc_snd_buf k) = kc_snd_buf k" by simp
    then show ?thesis using True by (simp add: ikcp_parse_ack_def nxt_def)
  next
    case False
    define a where "a = unat (sn - kc_snd_una k)"
    have a: "a < 2 ^ 31" using False sint_nonneg [of "sn - kc_snd_una k"] by (simp add: a_def itimediff_def)
    have "itimediff sn nxt = sint ((sn - kc_snd_una k) - (nxt - kc_snd_una k))" by (simp add: itimediff_def)
    also have "\<dots> = int a - int d" using diff_sign [of "sn - kc_snd_una k" "nxt - kc_snd_una k"] a w(1) by (simp only: a_def d_def)
    finally have ad: "a < d" using False by linarith
    have "nxt - sn = (nxt - kc_snd_una k) - (sn - kc_snd_una k)" by simp
    then have o: "unat (nxt - sn) = d - a" using ad by (simp only: unat_sub_if' a_def d_def) simp
    have loop: "ack_loop sn ss = (filter (\<lambda>s. sg_sn s \<noteq> sn) ss, sn \<in> set (map sg_sn ss))"
      if "sorted_wrt (\<lambda>a b. outstanding k b < outstanding k a) ss" "\<forall>s \<in> set ss. outstanding k s \<le> d" for ss
      using that
    proof (induction ss)
      case Nil
      then show ?case by simp
    next
      case (Cons s ss)
      have IH: "ack_loop sn ss = (filter (\<lambda>s. sg_sn s \<noteq> sn) ss, sn \<in> set (map sg_sn ss))" using Cons by simp
      have ls: "\<forall>x \<in> set ss. outstanding k x < outstanding k s" using Cons.prems(1) by simp
      have "unat (nxt - sn) < 2 ^ 31" "unat (nxt - sg_sn s) < 2 ^ 31" using o w(1) Cons.prems(2) by (auto simp: outstanding_def nxt_def)
      then have c: "itimediff sn (sg_sn s) = int (outstanding k s) - int (unat (nxt - sn))"
        unfolding outstanding_def nxt_def [symmetric] by (rule diff)
      consider "sg_sn s = sn" | "sg_sn s \<noteq> sn" "itimediff sn (sg_sn s) < 0" | "sg_sn s \<noteq> sn" "\<not> itimediff sn (sg_sn s) < 0" by blast
      then show ?case
      proof cases
        case 1
        then have "\<forall>x \<in> set ss. sg_sn x \<noteq> sn" using ls by (auto simp: outstanding_def)
        then show ?thesis using 1 by (auto simp: filter_id_conv)
      next
        case 2
        then have "outstanding k s < unat (nxt - sn)" using c by linarith
        then have "\<forall>x \<in> set ss. outstanding k x < unat (nxt - sn)" using ls less_trans by blast
        then have "\<forall>x \<in> set ss. sg_sn x \<noteq> sn" by (auto simp: outstanding_def nxt_def)
        then show ?thesis using 2 by (auto simp: filter_id_conv)
      next
        case 3
        then show ?thesis using IH by auto
      qed
    qed
    show ?thesis using False loop [OF w(3)] w(2) by (simp add: ikcp_parse_ack_def nxt_def)
  qed
qed

text \<open>The numbers between \<open>snd_una\<close> and \<open>snd_nxt\<close> compare as their distances from \<open>snd_nxt\<close>.\<close>

definition in_window :: "kcp \<Rightarrow> u32 \<Rightarrow> bool" where
  "in_window k n \<longleftrightarrow> unat (kc_snd_nxt k - n) \<le> unat (kc_snd_nxt k - kc_snd_una k)"

lemma window_diff:
  assumes "kcp_window k" "in_window k n" "s \<in> set (kc_snd_buf k)"
  shows "itimediff n (sg_sn s) = int (outstanding k s) - int (unat (kc_snd_nxt k - n))"
proof -
  have "unat (kc_snd_nxt k - n) < 2 ^ 31" "outstanding k s < 2 ^ 31"
    using assms by (auto simp: kcp_window_def in_window_def)
  then show ?thesis using diff_sign [of "kc_snd_nxt k - sg_sn s" "kc_snd_nxt k - n"]
    by (simp add: itimediff_def outstanding_def)
qed

lemma falling_drop:
  "sorted_wrt (\<lambda>a b. f b < f a) ss \<Longrightarrow> dropWhile (\<lambda>s. c < f s) ss = filter (\<lambda>s. \<not> c < f s) ss" for f :: "'a \<Rightarrow> nat"
proof (induction ss)
  case (Cons a ss)
  have "filter (\<lambda>s. \<not> c < f s) ss = ss" if "\<not> c < f a" using Cons.prems that by (intro filter_True) (auto simp: not_less)
  then show ?case using Cons by auto
qed simp

lemma parse_una_filter:
  assumes "kcp_window k" "in_window k una"
  shows "kc_snd_buf (ikcp_parse_una una k) = filter (\<lambda>s. \<not> 0 < itimediff una (sg_sn s)) (kc_snd_buf k)"
proof -
  define c where "c = unat (kc_snd_nxt k - una)"
  have e: "0 < itimediff una (sg_sn s) \<longleftrightarrow> c < outstanding k s" if "s \<in> set (kc_snd_buf k)" for s
    using window_diff [OF assms that] unfolding c_def by linarith
  have "kc_snd_buf (ikcp_parse_una una k) = dropWhile (\<lambda>s. c < outstanding k s) (kc_snd_buf k)"
    unfolding parse_una_shape using e by (simp cong: dropWhile_cong)
  also have "\<dots> = filter (\<lambda>s. \<not> c < outstanding k s) (kc_snd_buf k)"
    by (rule falling_drop) (use assms(1) in \<open>simp add: kcp_window_def\<close>)
  also have "\<dots> = filter (\<lambda>s. \<not> 0 < itimediff una (sg_sn s)) (kc_snd_buf k)" using e by (simp cong: filter_cong)
  finally show ?thesis .
qed

lemma fastack_stops:
  assumes "sorted_wrt (\<lambda>a b. f b < f a) ss" "\<forall>s \<in> set ss. itimediff sn (sg_sn s) = int (f s) - int c \<and> (sn = sg_sn s \<longleftrightarrow> f s = c)"
  shows "fastack_loop sn ss = map (\<lambda>s. if 0 < itimediff sn (sg_sn s) then s\<lparr>sg_fastack := sg_fastack s + 1\<rparr> else s) ss"
  using assms
proof (induction ss)
  case Nil
  then show ?case by simp
next
  case (Cons s ss)
  show ?case
  proof (cases "f s < c")
    case True
    then have "\<forall>t \<in> set (s # ss). f t < c" using Cons.prems(1) by (auto intro: less_trans)
    then have "\<forall>t \<in> set (s # ss). \<not> 0 < itimediff sn (sg_sn t)" using Cons.prems(2) by auto
    then have "map (\<lambda>s. if 0 < itimediff sn (sg_sn s) then s\<lparr>sg_fastack := sg_fastack s + 1\<rparr> else s) (s # ss) = s # ss"
      by (intro map_idI) auto
    moreover have "itimediff sn (sg_sn s) < 0" using True Cons.prems(2) by simp
    ultimately show ?thesis by simp
  next
    case False
    then have "\<not> itimediff sn (sg_sn s) < 0" "sn \<noteq> sg_sn s \<longleftrightarrow> 0 < itimediff sn (sg_sn s)" using Cons.prems(2) by auto
    then show ?thesis using Cons by simp
  qed
qed

lemma parse_fastack_map:
  assumes "kcp_window k" "in_window k sn" "sn \<noteq> kc_snd_nxt k"
  shows "kc_snd_buf (ikcp_parse_fastack sn ts k) =
    map (\<lambda>s. if 0 < itimediff sn (sg_sn s) then s\<lparr>sg_fastack := sg_fastack s + 1\<rparr> else s) (kc_snd_buf k)"
proof -
  define nxt where "nxt = kc_snd_nxt k"
  define c where "c = unat (nxt - sn)"
  define d where "d = unat (nxt - kc_snd_una k)"
  have d: "d < 2 ^ 31" "c \<le> d" using assms(1,2) by (auto simp: kcp_window_def in_window_def c_def d_def nxt_def)
  have "unat (nxt - sn) \<noteq> 0" using assms(3) by (simp add: nxt_def unat_eq_0)
  then have "0 < c" by (simp add: c_def)
  have "itimediff sn nxt = - int c" using diff_sign [of 0 "nxt - sn"] d by (simp add: itimediff_def c_def)
  moreover have "itimediff sn (kc_snd_una k) = int d - int c"
    using diff_sign [of "nxt - kc_snd_una k" "nxt - sn"] d by (simp add: itimediff_def c_def d_def)
  ultimately have "\<not> (itimediff sn (kc_snd_una k) < 0 \<or> 0 \<le> itimediff sn nxt)" using d \<open>0 < c\<close> by linarith
  then have "kc_snd_buf (ikcp_parse_fastack sn ts k) = fastack_loop sn (kc_snd_buf k)" by (simp add: ikcp_parse_fastack_def nxt_def)
  moreover have "sn = sg_sn s \<longleftrightarrow> outstanding k s = c" for s
  proof -
    have "unat x = unat y \<longleftrightarrow> x = y" for x y :: u32 by (auto intro: unsigned_word_eqI)
    then show ?thesis by (auto simp: outstanding_def c_def nxt_def)
  qed
  ultimately show ?thesis
    using fastack_stops [of "outstanding k" "kc_snd_buf k" sn c] window_diff [OF assms(1,2)] assms(1)
    by (simp add: kcp_window_def c_def nxt_def)
qed

text \<open>
  C29: The loops over the send window, which stop early because it is ordered, do what a pass over all of it would
  do: an acknowledgement takes out exactly the segment of its number, the number up to which everything
  has arrived takes out exactly the segments before it, and the largest acknowledged number counts exactly the
  segments that it has overtaken, also where the numbers wrap around.
\<close>
theorem ack_loops_are_passes:
  assumes "kcp_window k" "in_window k una" "in_window k sn" "sn \<noteq> kc_snd_nxt k"
  shows "kc_snd_buf (ikcp_parse_ack n k) = filter (\<lambda>s. sg_sn s \<noteq> n) (kc_snd_buf k) \<and>
    kc_snd_buf (ikcp_parse_una una k) = filter (\<lambda>s. \<not> 0 < itimediff una (sg_sn s)) (kc_snd_buf k) \<and>
    kc_snd_buf (ikcp_parse_fastack sn ts k) =
      map (\<lambda>s. if 0 < itimediff sn (sg_sn s) then s\<lparr>sg_fastack := sg_fastack s + 1\<rparr> else s) (kc_snd_buf k)"
  using parse_ack_filter [OF assms(1)] parse_una_filter [OF assms(1,2)] parse_fastack_map [OF assms(1,3,4)] by simp

text \<open>A window whose numbers wrap around.\<close>

definition kcp_wrapping :: kcp where
  "kcp_wrapping = kcp_example\<lparr>kc_snd_una := - 1, kc_snd_nxt := 2,
     kc_snd_buf := map (\<lambda>n. (control kcp_example IKCP_CMD_PUSH)\<lparr>sg_sn := n\<rparr>) [- 1, 0, 1]\<rparr>"

lemma ack_loops_are_passes_witness:
  "map sg_sn (kc_snd_buf (ikcp_parse_ack 0 kcp_wrapping)) = [- 1, 1] \<and> map sg_sn (kc_snd_buf (ikcp_parse_una 0 kcp_wrapping)) = [0, 1] \<and>
    map sg_fastack (kc_snd_buf (ikcp_parse_fastack 1 5 kcp_wrapping)) = [1, 1, 0]"
proof -
  have w: "kcp_window kcp_wrapping" "in_window kcp_wrapping 0" "in_window kcp_wrapping 1" "1 \<noteq> kc_snd_nxt kcp_wrapping"
    by (simp_all add: kcp_window_def in_window_def kcp_wrapping_def outstanding_def)
  show ?thesis using ack_loops_are_passes [OF w, of 0 5]
    by (simp add: kcp_wrapping_def control_def itimediff_def)
qed

end
