(* ===== verification/KcpRecv.thy ===== *)
theory KcpRecv
  imports KcpInv
begin

unbundle bit_operations_syntax

text \<open>
  The receiving side: the buffer of segments that came too early is sorted and free of duplicates, whatever
  arrives, and everything that is in order and has room moves to the queue.
\<close>

section \<open>The receive buffer\<close>

text \<open>How far a segment is ahead of the next expected one.\<close>

definition ahead :: "kcp \<Rightarrow> segment \<Rightarrow> nat" where
  "ahead k s = unat (sg_sn s - kc_rcv_nxt k)"

definition kcp_early :: "kcp \<Rightarrow> bool" where
  "kcp_early k \<longleftrightarrow> (\<forall>s \<in> set (kc_rcv_buf k). ahead k s < 65536) \<and> sorted_wrt (\<lambda>a b. ahead k a < ahead k b) (kc_rcv_buf k)"

lemma ahead_diff:
  assumes "ahead k a < 2 ^ 31" "ahead k b < 2 ^ 31"
  shows "itimediff (sg_sn a) (sg_sn b) = int (ahead k a) - int (ahead k b)"
  using diff_sign [OF assms [unfolded ahead_def]] by (simp add: itimediff_def ahead_def)

lemma ahead_inj: "ahead k a = ahead k b \<longleftrightarrow> sg_sn a = sg_sn b"
proof -
  have "unat x = unat y \<longleftrightarrow> x = y" for x y :: u32 by (auto intro: unsigned_word_eqI)
  then show ?thesis by (simp only: ahead_def diff_left_imp_eq) simp
qed

lemma insert_back_spec:
  assumes "ahead k s < 2 ^ 31" "\<forall>p \<in> set ps. ahead k p < 2 ^ 31" "sorted_wrt (\<lambda>a b. ahead k b < ahead k a) ps"
  shows "case insert_back s ps of
      None \<Rightarrow> sg_sn s \<in> sg_sn ` set ps
    | Some ss \<Rightarrow> sg_sn s \<notin> sg_sn ` set ps \<and> set ss = insert s (set ps) \<and> length ss = Suc (length ps) \<and>
        sorted_wrt (\<lambda>a b. ahead k b < ahead k a) ss"
  using assms(2,3)
proof (induction ps)
  case Nil
  then show ?case by simp
next
  case (Cons p ps)
  have lp: "ahead k p < 2 ^ 31" "\<forall>q \<in> set ps. ahead k q < ahead k p" "\<forall>p \<in> set ps. ahead k p < 2 ^ 31"
    "sorted_wrt (\<lambda>a b. ahead k b < ahead k a) ps" using Cons.prems by simp_all
  have d: "itimediff (sg_sn s) (sg_sn p) = int (ahead k s) - int (ahead k p)" by (rule ahead_diff [OF assms(1) lp(1)])
  consider "sg_sn p = sg_sn s" | "sg_sn p \<noteq> sg_sn s" "ahead k p < ahead k s" | "sg_sn p \<noteq> sg_sn s" "ahead k s < ahead k p"
    using ahead_inj by (metis linorder_neqE_nat)
  then show ?case
  proof cases
    case 1
    then show ?thesis by simp
  next
    case 2
    then have "sg_sn s \<notin> sg_sn ` set ps" using lp(2) 2(2) ahead_inj by (metis imageE less_asym)
    then show ?thesis using 2 d lp Cons.prems by (auto intro: less_trans)
  next
    case 3
    show ?thesis
    proof (cases "insert_back s ps")
      case None
      then show ?thesis using 3 d Cons.IH [OF lp(3,4)] by simp
    next
      case (Some ss)
      then show ?thesis using 3 d Cons.IH [OF lp(3,4)] lp by auto
    qed
  qed
qed

text \<open>The segments at the front that are in order and have room.\<close>

lemma move_loop_shape:
  assumes "kc_rcv_buf k = ss"
  shows "\<exists>j \<le> length ss. move_loop ss k = k\<lparr>kc_rcv_buf := drop j ss, kc_nrcv_buf := kc_nrcv_buf k - of_nat j,
      kc_rcv_queue := kc_rcv_queue k @ take j ss, kc_nrcv_que := kc_nrcv_que k + of_nat j, kc_rcv_nxt := kc_rcv_nxt k + of_nat j\<rparr> \<and>
    (\<forall>i < j. sg_sn (ss ! i) = kc_rcv_nxt k + of_nat i) \<and>
    (j < length ss \<longrightarrow> sg_sn (ss ! j) \<noteq> kc_rcv_nxt k + of_nat j \<or> kc_rcv_wnd k \<le> kc_nrcv_que k + of_nat j)"
  using assms
proof (induction ss arbitrary: k)
  case Nil
  then show ?case by (intro exI [of _ 0]) simp
next
  case (Cons s ss)
  show ?case
  proof (cases "sg_sn s = kc_rcv_nxt k \<and> kc_nrcv_que k < kc_rcv_wnd k")
    case False
    then show ?thesis using Cons.prems by (intro exI [of _ 0]) (auto simp: not_less)
  next
    case True
    define k1 where "k1 = k\<lparr>kc_rcv_buf := ss, kc_nrcv_buf := kc_nrcv_buf k - 1, kc_rcv_queue := kc_rcv_queue k @ [s],
             kc_nrcv_que := kc_nrcv_que k + 1, kc_rcv_nxt := kc_rcv_nxt k + 1\<rparr>"
    have "kc_rcv_buf k1 = ss" by (simp add: k1_def)
    from Cons.IH [OF this] obtain j where j: "j \<le> length ss"
      "move_loop ss k1 = k1\<lparr>kc_rcv_buf := drop j ss, kc_nrcv_buf := kc_nrcv_buf k1 - of_nat j,
        kc_rcv_queue := kc_rcv_queue k1 @ take j ss, kc_nrcv_que := kc_nrcv_que k1 + of_nat j, kc_rcv_nxt := kc_rcv_nxt k1 + of_nat j\<rparr>"
      "\<forall>i < j. sg_sn (ss ! i) = kc_rcv_nxt k1 + of_nat i"
      "j < length ss \<longrightarrow> sg_sn (ss ! j) \<noteq> kc_rcv_nxt k1 + of_nat j \<or> kc_rcv_wnd k1 \<le> kc_nrcv_que k1 + of_nat j" by blast
    have "move_loop (s # ss) k = move_loop ss k1" using True by (simp add: k1_def)
    moreover have "\<forall>i < Suc j. sg_sn ((s # ss) ! i) = kc_rcv_nxt k + of_nat i"
      using j(3) True by (auto simp: less_Suc_eq_0_disj k1_def algebra_simps)
    ultimately show ?thesis
      using j by (intro exI [of _ "Suc j"]) (simp add: k1_def algebra_simps)
  qed
qed

lemma sorted_ahead_nth:
  assumes "sorted_wrt (\<lambda>a b. ahead k a < ahead k b) ss" "\<forall>i < j. ahead k (ss ! i) = i" "s \<in> set (drop j ss)" "j \<le> length ss"
  shows "j \<le> ahead k s"
proof (cases j)
  case 0
  then show ?thesis by simp
next
  case (Suc i)
  obtain n where n: "n < length ss - j" "s = ss ! (j + n)" using assms(3,4) by (auto simp: in_set_conv_nth)
  have "ahead k (ss ! i) < ahead k (ss ! (j + n))"
    using sorted_wrt_nth_less [OF assms(1), of i "j + n"] n Suc by simp
  then show ?thesis using assms(2) Suc n by simp
qed

lemma move_loop_early:
  assumes "kcp_early k"
  shows "kcp_early (move_loop (kc_rcv_buf k) k)"
proof -
  define ss where "ss = kc_rcv_buf k"
  obtain j where j: "j \<le> length ss" "move_loop ss k = k\<lparr>kc_rcv_buf := drop j ss, kc_nrcv_buf := kc_nrcv_buf k - of_nat j,
      kc_rcv_queue := kc_rcv_queue k @ take j ss, kc_nrcv_que := kc_nrcv_que k + of_nat j, kc_rcv_nxt := kc_rcv_nxt k + of_nat j\<rparr>"
    "\<forall>i < j. sg_sn (ss ! i) = kc_rcv_nxt k + of_nat i"
    using move_loop_shape [of k ss] ss_def by blast
  have e: "\<forall>s \<in> set ss. ahead k s < 65536" "sorted_wrt (\<lambda>a b. ahead k a < ahead k b) ss"
    using assms unfolding kcp_early_def ss_def by blast+
  define k' where "k' = move_loop ss k"
  show ?thesis
  proof (cases "j = 0")
    case True
    have "kc_rcv_buf k' = ss" "kc_rcv_nxt k' = kc_rcv_nxt k" unfolding k'_def j(2) using True by simp_all
    then have "kcp_early k' = kcp_early k" by (simp add: kcp_early_def ahead_def ss_def)
    then show ?thesis using assms by (simp add: k'_def ss_def)
  next
    case False
    have "ahead k (ss ! (j - 1)) < 65536" using e(1) j(1) False by simp
    have low: "j \<le> 65536 \<Longrightarrow> i < j \<Longrightarrow> ahead k (ss ! i) = i" for i
      using j(3) by (simp add: ahead_def unat_of_nat take_bit_nat_eq_self)
    have small: "j \<le> 65536"
    proof (rule ccontr)
      assume "\<not> j \<le> 65536"
      then have "sg_sn (ss ! 65536) = kc_rcv_nxt k + of_nat 65536" "65536 < length ss" using j by simp_all
      then have "ahead k (ss ! 65536) = 65536" by (simp add: ahead_def)
      then show False using e(1) \<open>65536 < length ss\<close> nth_mem by (metis less_irrefl)
    qed
    have d: "ahead k' s + j = ahead k s" if "s \<in> set (drop j ss)" for s
    proof -
      have "j \<le> ahead k s" using sorted_ahead_nth [OF e(2) _ that j(1)] low small by blast
      have "sg_sn s - kc_rcv_nxt k' = (sg_sn s - kc_rcv_nxt k) - of_nat j" by (simp add: k'_def j(2))
      note n = this
      have "unat (of_nat j :: u32) = j" using small by (simp add: unat_of_nat take_bit_nat_eq_self)
      then have "unat ((sg_sn s - kc_rcv_nxt k) - of_nat j) = ahead k s - j"
        using \<open>j \<le> ahead k s\<close> unat_sub [of "of_nat j" "sg_sn s - kc_rcv_nxt k"] by (simp add: ahead_def word_le_nat_alt)
      then show ?thesis using \<open>j \<le> ahead k s\<close> unfolding ahead_def [of k'] n by simp
    qed
    have b: "kc_rcv_buf k' = drop j ss" by (simp add: k'_def j(2))
    have "\<forall>s \<in> set (drop j ss). ahead k' s < 65536" using d e(1) in_set_dropD by fastforce
    moreover have "sorted_wrt (\<lambda>a b. ahead k' a < ahead k' b) (drop j ss)"
    proof (rule sorted_wrt_mono_rel)
      show "sorted_wrt (\<lambda>a b. ahead k a < ahead k b) (drop j ss)" using e(2) by (rule sorted_wrt_drop)
    next
      fix x y assume "x \<in> set (drop j ss)" "y \<in> set (drop j ss)" "ahead k x < ahead k y"
      then show "ahead k' x < ahead k' y" using d [of x] d [of y] by linarith
    qed
    ultimately show ?thesis using b unfolding kcp_early_def k'_def ss_def by simp
  qed
qed

text \<open>A segment inside the window takes its place unless its number is there.\<close>

lemma parse_data_shape:
  assumes "kcp_early k" "kc_rcv_wnd k < 65536"
  shows "ikcp_parse_data s k = k \<and> \<not> ahead k s < unat (kc_rcv_wnd k) \<or>
    ahead k s < unat (kc_rcv_wnd k) \<and> (\<exists>ss n. ikcp_parse_data s k = move_loop ss (k\<lparr>kc_rcv_buf := ss, kc_nrcv_buf := n\<rparr>) \<and>
      kcp_early (k\<lparr>kc_rcv_buf := ss, kc_nrcv_buf := n\<rparr>) \<and>
      (sg_sn s \<in> sg_sn ` set (kc_rcv_buf k) \<and> ss = kc_rcv_buf k \<and> n = kc_nrcv_buf k \<or>
       sg_sn s \<notin> sg_sn ` set (kc_rcv_buf k) \<and> set ss = insert s (set (kc_rcv_buf k)) \<and> length ss = Suc (length (kc_rcv_buf k)) \<and>
       n = kc_nrcv_buf k + 1))"
proof -
  have e: "\<forall>s \<in> set (kc_rcv_buf k). ahead k s < 65536" "sorted_wrt (\<lambda>a b. ahead k a < ahead k b) (kc_rcv_buf k)"
    using assms(1) unfolding kcp_early_def by blast+
  have w: "unat (kc_rcv_wnd k) < 65536" using assms(2) by (simp add: word_less_nat_alt)
  show ?thesis
  proof (cases "ahead k s < 2 ^ 31")
    case False
    have "itimediff (sg_sn s) (kc_rcv_nxt k) < 0" using sint_nonneg [of "sg_sn s - kc_rcv_nxt k"] False unfolding itimediff_def ahead_def by (meson not_le)
    then show ?thesis using False w by (simp add: ikcp_parse_data_def)
  next
    case True
    have "itimediff (sg_sn s) (kc_rcv_nxt k) = int (ahead k s)"
      using diff_sign [of "sg_sn s - kc_rcv_nxt k" 0] True by (simp add: itimediff_def ahead_def)
    moreover have "itimediff (sg_sn s) (kc_rcv_nxt k + kc_rcv_wnd k) = int (ahead k s) - int (unat (kc_rcv_wnd k))"
      using diff_sign [of "sg_sn s - kc_rcv_nxt k" "kc_rcv_wnd k"] True w by (simp add: itimediff_def ahead_def algebra_simps)
    ultimately have g: "(0 \<le> itimediff (sg_sn s) (kc_rcv_nxt k + kc_rcv_wnd k) \<or> itimediff (sg_sn s) (kc_rcv_nxt k) < 0) \<longleftrightarrow>
        \<not> ahead k s < unat (kc_rcv_wnd k)" by linarith
    show ?thesis
    proof (cases "ahead k s < unat (kc_rcv_wnd k)")
      case False
      then show ?thesis using g by (simp add: ikcp_parse_data_def)
    next
      case t: True
      have r: "\<forall>p \<in> set (rev (kc_rcv_buf k)). ahead k p < 2 ^ 31" "sorted_wrt (\<lambda>a b. ahead k b < ahead k a) (rev (kc_rcv_buf k))"
        using e by (force, simp add: sorted_wrt_rev)
      note i = insert_back_spec [OF True r]
      show ?thesis
      proof (cases "insert_back s (rev (kc_rcv_buf k))")
        case None
        have "kcp_early (k\<lparr>kc_rcv_buf := kc_rcv_buf k, kc_nrcv_buf := kc_nrcv_buf k\<rparr>)" using assms(1) by simp
        moreover have "ikcp_parse_data s k = move_loop (kc_rcv_buf k) k" using g t None by (simp add: ikcp_parse_data_def)
        ultimately show ?thesis using t i None by (intro disjI2 conjI exI [of _ "kc_rcv_buf k"] exI [of _ "kc_nrcv_buf k"] disjI1) simp_all
      next
        case (Some ss)
        have f: "sg_sn s \<notin> sg_sn ` set (kc_rcv_buf k)" "set ss = insert s (set (kc_rcv_buf k))" "length ss = Suc (length (kc_rcv_buf k))"
          "sorted_wrt (\<lambda>a b. ahead k b < ahead k a) ss" using i Some by simp_all
        define k1 where "k1 = k\<lparr>kc_rcv_buf := rev ss, kc_nrcv_buf := kc_nrcv_buf k + 1\<rparr>"
        have "ahead k1 = ahead k" by (simp add: fun_eq_iff ahead_def k1_def)
        then have "kcp_early k1" using e(1) f(2,4) t w by (auto simp: kcp_early_def k1_def sorted_wrt_rev)
        moreover have "ikcp_parse_data s k = move_loop (rev ss) k1" using g t Some by (simp add: ikcp_parse_data_def k1_def)
        ultimately show ?thesis using t f
          by (intro disjI2 conjI exI [of _ "rev ss"] exI [of _ "kc_nrcv_buf k + 1"]) (simp_all add: k1_def)
      qed
    qed
  qed
qed

lemma parse_data_early:
  assumes "kcp_early k" "kc_rcv_wnd k < 65536"
  shows "kcp_early (ikcp_parse_data s k)"
  using parse_data_shape [OF assms, of s] move_loop_early assms(1) by fastforce

end
