(* ===== verification/KcpCalls.thy ===== *)
theory KcpCalls
  imports KcpRecv
begin

unbundle bit_operations_syntax

text \<open>
  Every call of the protocol, and that it keeps the state of a conversation well formed.
\<close>

section \<open>The well-formed state\<close>

definition kcp_counts :: "kcp \<Rightarrow> bool" where
  "kcp_counts k \<longleftrightarrow> kc_nsnd_buf k = of_nat (length (kc_snd_buf k)) \<and> kc_nsnd_que k = of_nat (length (kc_snd_queue k)) \<and>
     kc_nrcv_buf k = of_nat (length (kc_rcv_buf k)) \<and> kc_nrcv_que k = of_nat (length (kc_rcv_queue k))"

definition kcp_ok :: "kcp \<Rightarrow> bool" where
  "kcp_ok k \<longleftrightarrow> kcp_fits k \<and> kcp_early k \<and> kcp_counts k"

lemma ok_parts:
  assumes "kcp_ok k"
  shows "kcp_sizes k" "kcp_window k" "kcp_early k" "kcp_counts k" "kc_rcv_wnd k < 65536"
  using assms unfolding kcp_ok_def kcp_fits_def kcp_sizes_def by blast+

text \<open>The sending and the receiving part of the state are independent.\<close>

definition snd_part :: "kcp \<Rightarrow> (u32 \<times> u32 \<times> u32 \<times> u32 \<times> u32 \<times> u32 \<times> u32) \<times> segment list \<times> segment list \<times> nat" where
  "snd_part k = ((kc_conv k, kc_mtu k, kc_mss k, kc_snd_una k, kc_snd_nxt k, kc_nsnd_buf k, kc_nsnd_que k), kc_snd_queue k, kc_snd_buf k, kc_buffer k)"

definition rcv_part :: "kcp \<Rightarrow> (u32 \<times> u32 \<times> u32) \<times> segment list \<times> segment list" where
  "rcv_part k = ((kc_rcv_nxt k, kc_nrcv_buf k, kc_nrcv_que k), kc_rcv_queue k, kc_rcv_buf k)"

lemma ok_cong:
  assumes "kcp_ok k" "snd_part k' = snd_part k" "rcv_part k' = rcv_part k" "kc_rcv_wnd k' < 65536" "kc_rmt_wnd k' < 65536"
  shows "kcp_ok k'"
  using assms by (simp add: kcp_ok_def kcp_fits_def kcp_sizes_def kcp_window_def outstanding_def kcp_early_def ahead_def kcp_counts_def
      snd_part_def rcv_part_def)

lemma ok_snd:
  assumes "kcp_ok k" "rcv_part k' = rcv_part k" "kc_rcv_wnd k' = kc_rcv_wnd k" "kcp_fits k'"
    "kc_nsnd_buf k' = of_nat (length (kc_snd_buf k'))" "kc_nsnd_que k' = of_nat (length (kc_snd_queue k'))"
  shows "kcp_ok k'"
  using assms by (simp add: kcp_ok_def kcp_early_def ahead_def kcp_counts_def rcv_part_def)

lemma ok_rcv:
  assumes "kcp_ok k" "snd_part k' = snd_part k" "kc_rcv_wnd k' = kc_rcv_wnd k" "kc_rmt_wnd k' = kc_rmt_wnd k" "kcp_early k'"
    "kc_nrcv_buf k' = of_nat (length (kc_rcv_buf k'))" "kc_nrcv_que k' = of_nat (length (kc_rcv_queue k'))"
  shows "kcp_ok k'"
  using assms by (simp add: kcp_ok_def kcp_fits_def kcp_sizes_def kcp_window_def outstanding_def kcp_counts_def snd_part_def)

section \<open>Receiving\<close>

text \<open>How many segments the first message has.\<close>

fun first_message :: "segment list \<Rightarrow> nat" where
  "first_message [] = 0"
| "first_message (s # ss) = (if sg_frg s = 0 then 1 else Suc (first_message ss))"

lemma recv_loop_shape:
  "recv_loop ss n = (concat (map sg_data (take (first_message ss) ss)), drop (first_message ss) ss, n - of_nat (first_message ss))"
  by (induction ss arbitrary: n) (simp_all add: algebra_simps)

lemma first_message_le: "first_message ss \<le> length ss"
  by (induction ss) simp_all

lemma move_ok:
  assumes "kcp_ok k"
  shows "kcp_ok (move_loop (kc_rcv_buf k) k)"
proof -
  obtain j where j: "j \<le> length (kc_rcv_buf k)" "move_loop (kc_rcv_buf k) k = k\<lparr>kc_rcv_buf := drop j (kc_rcv_buf k), kc_nrcv_buf := kc_nrcv_buf k - of_nat j,
      kc_rcv_queue := kc_rcv_queue k @ take j (kc_rcv_buf k), kc_nrcv_que := kc_nrcv_que k + of_nat j, kc_rcv_nxt := kc_rcv_nxt k + of_nat j\<rparr>"
    using move_loop_shape [OF refl] by blast
  have c: "kc_nrcv_buf k = of_nat (length (kc_rcv_buf k))" "kc_nrcv_que k = of_nat (length (kc_rcv_queue k))"
    using assms unfolding kcp_ok_def kcp_counts_def by blast+
  have e: "kcp_early (move_loop (kc_rcv_buf k) k)" using move_loop_early ok_parts(3) [OF assms] by blast
  show ?thesis
    by (rule ok_rcv [OF assms _ _ _ e]) (use j c in \<open>simp_all add: snd_part_def of_nat_diff\<close>)
qed

lemma recv_refused:
  assumes "kc_rcv_queue k = [] \<or> ikcp_peeksize k < 0 \<or> \<bar>len\<bar> < ikcp_peeksize k"
  shows "ikcp_recv len k = (if kc_rcv_queue k = [] then - 1 else if ikcp_peeksize k < 0 then - 2 else - 3, [], k)"
  using assms unfolding ikcp_recv_def Let_def by presburger

lemma recv_ok:
  assumes "kcp_ok k"
  shows "kcp_ok (snd (snd (ikcp_recv len k)))"
proof -
  define n where "n = first_message (kc_rcv_queue k)"
  define k1 where "k1 = (if len < 0 then k else k\<lparr>kc_rcv_queue := drop n (kc_rcv_queue k), kc_nrcv_que := kc_nrcv_que k - of_nat n\<rparr>)"
  define k2 where "k2 = move_loop (kc_rcv_buf k) k1"
  have c: "kc_nrcv_que k = of_nat (length (kc_rcv_queue k))" using assms unfolding kcp_ok_def kcp_counts_def by blast
  have "kcp_ok k1"
  proof (cases "len < 0")
    case True
    then show ?thesis using assms by (simp add: k1_def)
  next
    case False
    have "kcp_early k1" using assms False by (simp add: k1_def kcp_ok_def kcp_early_def ahead_def)
    moreover have "kc_nrcv_buf k1 = of_nat (length (kc_rcv_buf k1))" using assms False by (simp add: k1_def kcp_ok_def kcp_counts_def)
    ultimately show ?thesis
      using False c first_message_le [of "kc_rcv_queue k"]
      by (intro ok_rcv [OF assms]) (simp_all add: k1_def snd_part_def n_def of_nat_diff)
  qed
  moreover have "kc_rcv_buf k1 = kc_rcv_buf k" by (simp add: k1_def)
  ultimately have k2: "kcp_ok k2" using move_ok by (metis k2_def)
  have "kcp_ok (k2\<lparr>kc_probe := p\<rparr>)" for p
    by (rule ok_cong [OF k2]) (use ok_parts(1) [OF k2] in \<open>simp_all add: snd_part_def rcv_part_def kcp_sizes_def\<close>)
  moreover have "snd (snd (ikcp_recv len k)) \<in> {k, k2, k2\<lparr>kc_probe := kc_probe k2 OR IKCP_ASK_TELL\<rparr>}"
  proof (cases "kc_rcv_queue k = [] \<or> ikcp_peeksize k < 0 \<or> \<bar>len\<bar> < ikcp_peeksize k")
    case True
    then show ?thesis by (simp add: recv_refused)
  next
    case False
    have "kc_rcv_buf (if len < 0 then k else k\<lparr>kc_rcv_queue := q, kc_nrcv_que := m\<rparr>) = kc_rcv_buf k" for q m by simp
    then show ?thesis using False
      by (simp only: ikcp_recv_def recv_loop_shape Let_def prod.case if_False de_Morgan_disj n_def [symmetric] k1_def [symmetric] k2_def [symmetric]) simp
  qed
  ultimately show ?thesis using assms k2 by (metis insertE emptyE)
qed

section \<open>Sending\<close>

definition piece_ok :: "kcp \<Rightarrow> segment \<Rightarrow> bool" where
  "piece_ok k s \<longleftrightarrow> length (sg_data s) \<le> unat (kc_mss k) \<and> sg_frg s < 256"

lemma queue_ok:
  assumes "kcp_ok k" "\<forall>s \<in> set q. piece_ok k s"
  shows "kcp_ok (k\<lparr>kc_snd_queue := q, kc_nsnd_que := of_nat (length q)\<rparr>)"
  using assms by (intro ok_snd [OF assms(1)])
    (auto simp: rcv_part_def kcp_ok_def kcp_fits_def kcp_sizes_def kcp_window_def outstanding_def kcp_counts_def piece_ok_def)

lemma ok_queue: "kcp_ok k \<Longrightarrow> \<forall>s \<in> set (kc_snd_queue k). piece_ok k s"
  by (auto simp: kcp_ok_def kcp_fits_def kcp_sizes_def piece_ok_def)

lemma frg_small: "n < 256 \<Longrightarrow> (of_nat n :: u32) < 256"
  by (simp add: word_less_nat_alt unat_of_nat take_bit_nat_eq_self)

lemma fragment_loop_ok:
  assumes "kcp_ok k" "m \<le> 256"
  shows "kcp_ok (snd (fragment_loop mem raw m i bs sent k))"
  using assms
proof (induction m arbitrary: i bs sent k)
  case 0
  then show ?case by simp
next
  case (Suc m)
  define s where "s = raw\<lparr>sg_data := take (min (unat (kc_mss k)) (length bs)) bs, sg_frg := (if kc_stream k = 0 then of_nat m else 0)\<rparr>"
  have "piece_ok k s" using Suc.prems(2) frg_small [of m] by (simp add: piece_ok_def s_def)
  then have "kcp_ok (k\<lparr>kc_snd_queue := kc_snd_queue k @ [s], kc_nsnd_que := of_nat (length (kc_snd_queue k @ [s]))\<rparr>)"
    using Suc.prems(1) ok_queue by (intro queue_ok) auto
  moreover have "kc_nsnd_que k = of_nat (length (kc_snd_queue k))" using Suc.prems(1) by (simp add: kcp_ok_def kcp_counts_def)
  ultimately have "kcp_ok (k\<lparr>kc_snd_queue := kc_snd_queue k @ [s], kc_nsnd_que := kc_nsnd_que k + 1\<rparr>)" by (simp add: algebra_simps)
  then show ?case using Suc by (simp add: Let_def flip: s_def)
qed

lemma fragment_ok: "kcp_ok k \<Longrightarrow> kcp_ok (snd (fragment mem raw bs sent k))"
  by (simp add: fragment_def Let_def fragment_loop_ok IKCP_WND_RCV_def)

lemma send_ok:
  assumes "kcp_ok k"
  shows "kcp_ok (snd (ikcp_send mem_extend mem raw bs k))"
proof (cases "2 ^ 31 \<le> length bs \<or> kc_stream k = 0 \<or> \<not> (kc_snd_queue k \<noteq> [] \<and> sg_len (last (kc_snd_queue k)) < kc_mss k)")
  case True
  then show ?thesis using assms fragment_ok by (auto simp: ikcp_send_def)
next
  case False
  define old where "old = last (kc_snd_queue k)"
  define n where "n = min (length bs) (unat (kc_mss k - sg_len old))"
  define s where "s = raw\<lparr>sg_data := sg_data old @ take n bs, sg_frg := 0\<rparr>"
  define k1 where "k1 = k\<lparr>kc_snd_queue := butlast (kc_snd_queue k) @ [s]\<rparr>"
  have q: "kc_snd_queue k \<noteq> []" "sg_len old < kc_mss k" using False by (auto simp: old_def)
  have old: "piece_ok k old" using ok_queue [OF assms] q(1) by (simp add: old_def)
  have mss: "unat (kc_mss k) < 2 ^ 31" using assms by (auto simp: kcp_ok_def kcp_fits_def kcp_sizes_def)
  then have "unat (sg_len old) = length (sg_data old)" using len_small [of old] old by (simp add: piece_ok_def)
  then have "n \<le> unat (kc_mss k) - length (sg_data old)" using q(2) unat_sub [of "sg_len old" "kc_mss k"] by (simp add: n_def)
  moreover have "length (take n bs) \<le> n" by simp
  ultimately have "length (sg_data old) + length (take n bs) \<le> unat (kc_mss k)" using old unfolding piece_ok_def by linarith
  then have s: "piece_ok k s" by (simp add: piece_ok_def s_def del: length_take)
  have "kcp_ok (k\<lparr>kc_snd_queue := butlast (kc_snd_queue k) @ [s], kc_nsnd_que := of_nat (length (butlast (kc_snd_queue k) @ [s]))\<rparr>)"
    using s ok_queue [OF assms] by (intro queue_ok [OF assms]) (auto dest: in_set_butlastD)
  moreover have "kc_nsnd_que k = of_nat (length (butlast (kc_snd_queue k) @ [s]))"
    using assms q(1) by (simp add: kcp_ok_def kcp_counts_def)
  ultimately have "kcp_ok (k\<lparr>kc_snd_queue := butlast (kc_snd_queue k) @ [s], kc_nsnd_que := kc_nsnd_que k\<rparr>)" by (simp only:)
  then have k1: "kcp_ok k1" by (simp add: k1_def)
  have "snd (ikcp_send mem_extend mem raw bs k) \<in> {k, k1, snd (fragment mem raw (drop n bs) (int n) k1)}"
    using False by (auto simp: ikcp_send_def Let_def n_def s_def k1_def old_def)
  then show ?thesis using assms k1 fragment_ok [OF k1] by fastforce
qed

section \<open>Input\<close>

lemma fastack_fields:
  "map (\<lambda>s. (sg_data s, sg_frg s, sg_cmd s, sg_conv s)) (fastack_loop sn ss) = map (\<lambda>s. (sg_data s, sg_frg s, sg_cmd s, sg_conv s)) ss"
  by (induction ss) simp_all

lemma part_simps:
  "snd_part (k\<lparr>kc_acklist := as, kc_ackblock := b\<rparr>) = snd_part k"
  "rcv_part (k\<lparr>kc_acklist := as, kc_ackblock := b\<rparr>) = rcv_part k"
  by (simp_all add: snd_part_def rcv_part_def)

lemma grow_window_parts:
  "snd_part (grow_window k) = snd_part k" "rcv_part (grow_window k) = rcv_part k"
  "kc_rcv_wnd (grow_window k) = kc_rcv_wnd k" "kc_rmt_wnd (grow_window k) = kc_rmt_wnd k"
  by (simp_all add: grow_window_def Let_def snd_part_def rcv_part_def)

lemma update_ack_parts:
  "snd_part (ikcp_update_ack r k) = snd_part k" "rcv_part (ikcp_update_ack r k) = rcv_part k"
  "kc_rcv_wnd (ikcp_update_ack r k) = kc_rcv_wnd k" "kc_rmt_wnd (ikcp_update_ack r k) = kc_rmt_wnd k"
  by (simp_all add: ikcp_update_ack_def Let_def snd_part_def rcv_part_def)

lemma ok_same:
  assumes "kcp_ok k" "snd_part k' = snd_part k" "rcv_part k' = rcv_part k" "kc_rcv_wnd k' = kc_rcv_wnd k" "kc_rmt_wnd k' = kc_rmt_wnd k"
  shows "kcp_ok k'"
  using assms ok_parts(1) [OF assms(1)] by (intro ok_cong [OF assms(1-3)]) (simp_all add: kcp_sizes_def)

text \<open>Segments leave the send window.\<close>

lemma sizes_fewer:
  assumes "kcp_sizes k" "set (kc_snd_buf k') \<subseteq> set (kc_snd_buf k)" "kc_snd_queue k' = kc_snd_queue k" "kc_mtu k' = kc_mtu k"
    "kc_mss k' = kc_mss k" "kc_buffer k' = kc_buffer k" "kc_conv k' = kc_conv k" "kc_rcv_wnd k' = kc_rcv_wnd k" "kc_rmt_wnd k' < 65536"
  shows "kcp_sizes k'"
  using assms unfolding kcp_sizes_def by auto

lemma una_ok:
  assumes "kcp_ok k" "r < 65536"
  shows "kcp_ok (ikcp_shrink_buf (ikcp_parse_una una (k\<lparr>kc_rmt_wnd := r\<rparr>)))"
proof -
  define k0 where "k0 = k\<lparr>kc_rmt_wnd := r\<rparr>"
  define k1 where "k1 = ikcp_parse_una una k0"
  have k0: "kcp_ok k0" by (rule ok_cong [OF assms(1)]) (use ok_parts(5) assms in \<open>simp_all add: k0_def snd_part_def rcv_part_def\<close>)
  define P where "P = (\<lambda>s :: segment. 0 < itimediff una (sg_sn s))"
  have k1: "k1 = k0\<lparr>kc_snd_buf := dropWhile P (kc_snd_buf k0), kc_nsnd_buf := kc_nsnd_buf k0 - of_nat (length (takeWhile P (kc_snd_buf k0)))\<rparr>"
    by (simp add: k1_def parse_una_shape P_def)
  have "numbers_fall k1" using una_numbers window_numbers ok_parts(2) [OF k0] by (simp add: k1_def)
  then have w: "kcp_window (ikcp_shrink_buf k1)" by (rule shrink_window)
  have z: "kcp_sizes (ikcp_shrink_buf k1)"
    by (rule sizes_fewer [OF ok_parts(1) [OF k0]]) (use assms(2) in \<open>auto simp: k1 k0_def ikcp_shrink_buf_def dest: set_dropWhileD\<close>)
  have "length (kc_snd_buf k0) = length (takeWhile P (kc_snd_buf k0)) + length (dropWhile P (kc_snd_buf k0))"
    by (metis length_append takeWhile_dropWhile_id)
  moreover have c: "kc_nsnd_buf k0 = of_nat (length (kc_snd_buf k0))" "kc_nsnd_que k0 = of_nat (length (kc_snd_queue k0))"
    using k0 unfolding kcp_ok_def kcp_counts_def by blast+
  ultimately have "kc_nsnd_buf k1 = of_nat (length (kc_snd_buf k1))" by (simp add: k1)
  then show ?thesis unfolding k0_def [symmetric] k1_def [symmetric]
    using w z c(2) by (intro ok_snd [OF k0]) (simp_all add: rcv_part_def ikcp_shrink_buf_def kcp_fits_def k1)
qed

lemma parse_ack_ok:
  assumes "kcp_ok k"
  shows "kcp_ok (ikcp_shrink_buf (ikcp_parse_ack sn k))"
proof -
  define k1 where "k1 = ikcp_parse_ack sn k"
  have w: "kcp_window (ikcp_shrink_buf k1)"
    unfolding k1_def by (rule shrink_window [OF window_numbers [OF ack_window [OF ok_parts(2) [OF assms]]]])
  have c: "kc_nsnd_buf k = of_nat (length (kc_snd_buf k))" "kc_nsnd_que k = of_nat (length (kc_snd_queue k))"
    using assms unfolding kcp_ok_def kcp_counts_def by blast+
  have "\<exists>n. k1 = k\<lparr>kc_snd_buf := kc_snd_buf k1, kc_nsnd_buf := n\<rparr> \<and> n = of_nat (length (kc_snd_buf k1)) \<and> set (kc_snd_buf k1) \<subseteq> set (kc_snd_buf k)"
  proof (cases "itimediff sn (kc_snd_una k) < 0 \<or> 0 \<le> itimediff sn (kc_snd_nxt k)")
    case True
    then have "k1 = k" by (simp add: k1_def ikcp_parse_ack_def)
    then show ?thesis using c by simp
  next
    case False
    obtain ss h where r: "ack_loop sn (kc_snd_buf k) = (ss, h)" by fastforce
    have k1: "k1 = k\<lparr>kc_snd_buf := ss, kc_nsnd_buf := (if h then kc_nsnd_buf k - 1 else kc_nsnd_buf k)\<rparr>"
      using False r by (simp add: k1_def ikcp_parse_ack_def)
    show ?thesis
    proof (cases h)
      case True
      then obtain a s b where "kc_snd_buf k = a @ s # b" "ss = a @ b" using ack_loop_removes [OF r] by auto
      then show ?thesis using True c by (auto simp: k1)
    next
      case False
      then have "ss = kc_snd_buf k" using ack_loop_removes [OF r] by simp
      then show ?thesis using False c by (simp add: k1)
    qed
  qed
  then obtain n where k1: "k1 = k\<lparr>kc_snd_buf := kc_snd_buf k1, kc_nsnd_buf := n\<rparr>" "n = of_nat (length (kc_snd_buf k1))"
    "set (kc_snd_buf k1) \<subseteq> set (kc_snd_buf k)" by blast
  have f: "kc_snd_queue k1 = kc_snd_queue k" "kc_nsnd_que k1 = kc_nsnd_que k" "kc_nsnd_buf k1 = n" "kc_mtu k1 = kc_mtu k" "kc_mss k1 = kc_mss k"
    "kc_buffer k1 = kc_buffer k" "kc_conv k1 = kc_conv k" "kc_rcv_wnd k1 = kc_rcv_wnd k" "kc_rmt_wnd k1 = kc_rmt_wnd k" "rcv_part k1 = rcv_part k"
    by (subst k1(1), simp add: rcv_part_def)+
  have z: "kcp_sizes (ikcp_shrink_buf k1)"
    using k1(3) f ok_parts(1) [OF assms] by (intro sizes_fewer [OF ok_parts(1) [OF assms]]) (simp_all add: ikcp_shrink_buf_def kcp_sizes_def)
  show ?thesis unfolding k1_def [symmetric]
    using w z c(2) k1(2) f by (intro ok_snd [OF assms]) (simp_all add: ikcp_shrink_buf_def kcp_fits_def rcv_part_def)
qed

lemma fastack_ok:
  assumes "kcp_ok k"
  shows "kcp_ok (ikcp_parse_fastack sn ts k)"
proof (cases "itimediff sn (kc_snd_una k) < 0 \<or> 0 \<le> itimediff sn (kc_snd_nxt k)")
  case True
  then show ?thesis using assms by (simp add: ikcp_parse_fastack_def)
next
  case False
  define ss where "ss = fastack_loop sn (kc_snd_buf k)"
  have k1: "ikcp_parse_fastack sn ts k = k\<lparr>kc_snd_buf := ss\<rparr>" using False by (simp add: ikcp_parse_fastack_def ss_def)
  have w: "kcp_window (k\<lparr>kc_snd_buf := ss\<rparr>)" using fastack_window [OF ok_parts(2) [OF assms]] k1 by metis
  have m: "map (\<lambda>s. (sg_data s, sg_frg s, sg_cmd s, sg_conv s)) ss = map (\<lambda>s. (sg_data s, sg_frg s, sg_cmd s, sg_conv s)) (kc_snd_buf k)"
    unfolding ss_def by (rule fastack_fields)
  have all: "(\<forall>s \<in> set ss. Q (sg_data s, sg_frg s, sg_cmd s, sg_conv s)) \<longleftrightarrow> (\<forall>s \<in> set (kc_snd_buf k). Q (sg_data s, sg_frg s, sg_cmd s, sg_conv s))" for Q
    using arg_cong [OF m, of "\<lambda>l. \<forall>x \<in> set l. Q x"] by simp
  have z: "kcp_sizes (k\<lparr>kc_snd_buf := ss\<rparr>)"
    using ok_parts(1) [OF assms] all [of "\<lambda>(d, f, c, v). length d \<le> unat (kc_mss k) \<and> f < 256"] all [of "\<lambda>(d, f, c, v). c = IKCP_CMD_PUSH \<and> v = kc_conv k"]
    by (auto simp: kcp_sizes_def)
  have "length ss = length (kc_snd_buf k)" using m map_eq_imp_length_eq by blast
  then show ?thesis unfolding k1
    using w z assms by (intro ok_snd [OF assms]) (simp_all add: rcv_part_def kcp_fits_def kcp_ok_def kcp_counts_def)
qed

lemma parse_data_ok:
  assumes "kcp_ok k"
  shows "kcp_ok (ikcp_parse_data s k)"
proof -
  have c: "kc_nrcv_buf k = of_nat (length (kc_rcv_buf k))" "kc_nrcv_que k = of_nat (length (kc_rcv_queue k))"
    using assms unfolding kcp_ok_def kcp_counts_def by blast+
  consider "ikcp_parse_data s k = k" | ss n where "ikcp_parse_data s k = move_loop ss (k\<lparr>kc_rcv_buf := ss, kc_nrcv_buf := n\<rparr>)"
    "kcp_early (k\<lparr>kc_rcv_buf := ss, kc_nrcv_buf := n\<rparr>)" "n = of_nat (length ss)"
  proof (cases "ikcp_parse_data s k = k")
    case False
    then obtain ss n where d: "ikcp_parse_data s k = move_loop ss (k\<lparr>kc_rcv_buf := ss, kc_nrcv_buf := n\<rparr>)"
      "kcp_early (k\<lparr>kc_rcv_buf := ss, kc_nrcv_buf := n\<rparr>)"
      "ss = kc_rcv_buf k \<and> n = kc_nrcv_buf k \<or> length ss = Suc (length (kc_rcv_buf k)) \<and> n = kc_nrcv_buf k + 1"
      using parse_data_shape [OF ok_parts(3) [OF assms] ok_parts(5) [OF assms], of s] by blast
    then have "n = of_nat (length ss)" using c(1) by auto
    then show thesis using that(2) d(1,2) by blast
  qed blast
  then show ?thesis
  proof cases
    case 1
    then show ?thesis using assms by simp
  next
    case 2
    have "kcp_ok (k\<lparr>kc_rcv_buf := ss, kc_nrcv_buf := n\<rparr>)"
      by (rule ok_rcv [OF assms _ _ _ 2(2)]) (use 2(3) c in \<open>simp_all add: snd_part_def\<close>)
    from move_ok [OF this] show ?thesis using 2(1) by simp
  qed
qed

lemma ack_push_ok:
  assumes "kcp_ok k" "ikcp_ack_push mem sn ts k = Some k'"
  shows "kcp_ok k'"
proof -
  have "k' = k\<lparr>kc_acklist := kc_acklist k @ [(sn, ts)], kc_ackblock := kc_ackblock k'\<rparr>"
    using assms(2) unfolding ikcp_ack_push_def Let_def by (auto split: bind_splits if_splits)
  then obtain as b where k': "k' = k\<lparr>kc_acklist := as, kc_ackblock := b\<rparr>" by blast
  show ?thesis unfolding k' by (rule ok_same [OF assms(1)]) (simp_all add: part_simps)
qed

lemma input_push_ok:
  assumes "kcp_ok k" "input_push mem_ack mem raw h data k = Some k'"
  shows "kcp_ok k'"
proof (cases "itimediff (hd_sn h) (kc_rcv_nxt k + kc_rcv_wnd k) < 0")
  case False
  then show ?thesis using assms by (simp add: input_push_def)
next
  case True
  then obtain k1 where k1: "ikcp_ack_push mem_ack (hd_sn h) (hd_ts h) k = Some k1"
    using assms(2) by (auto simp: input_push_def split: bind_splits)
  have "kcp_ok k1" using ack_push_ok [OF assms(1) k1] .
  then show ?thesis using assms(2) True k1 parse_data_ok by (auto simp: input_push_def split: if_splits)
qed

lemma u16_small: "(ucast (w :: u16) :: u32) < 65536"
proof -
  have "uint w < 65536" using uint_lt2p [of w] by simp
  then have "int (unat w) < 65536" by (simp only: uint_nat)
  then have w: "unat w < 65536" by linarith
  then have "unat (ucast w :: u32) = unat w" by (simp add: unsigned_ucast_eq take_bit_eq_mod)
  then show ?thesis using w by (simp add: word_less_nat_alt)
qed

lemma input_segment_ok:
  assumes "kcp_ok k" "input_segment mem_ack mem raw h data k ack = Some (k', ack')"
  shows "kcp_ok k'"
proof -
  define k1 where "k1 = ikcp_shrink_buf (ikcp_parse_una (hd_una h) (k\<lparr>kc_rmt_wnd := ucast (hd_wnd h)\<rparr>))"
  have k1: "kcp_ok k1" unfolding k1_def by (rule una_ok [OF assms(1) u16_small])
  have "kcp_ok (ikcp_update_ack r k1)" for r by (rule ok_same [OF k1]) (simp_all add: update_ack_parts)
  then have a: "kcp_ok (ikcp_shrink_buf (ikcp_parse_ack n (ikcp_update_ack r k1)))" "kcp_ok (ikcp_shrink_buf (ikcp_parse_ack n k1))" for n r
    using parse_ack_ok k1 by blast+
  have p: "kcp_ok (k1\<lparr>kc_probe := q\<rparr>)" for q by (rule ok_same [OF k1]) (simp_all add: snd_part_def rcv_part_def)
  consider "ucast (hd_cmd h) = IKCP_CMD_ACK" | "ucast (hd_cmd h) \<noteq> IKCP_CMD_ACK" "ucast (hd_cmd h) = IKCP_CMD_PUSH"
    | "ucast (hd_cmd h) \<noteq> IKCP_CMD_ACK" "ucast (hd_cmd h) \<noteq> IKCP_CMD_PUSH" by blast
  then show ?thesis
  proof cases
    case 1
    then show ?thesis using assms(2) a unfolding input_segment_def Let_def k1_def [symmetric] by (auto split: if_splits)
  next
    case 2
    then show ?thesis using assms(2) input_push_ok [OF k1] unfolding input_segment_def Let_def k1_def [symmetric] by auto
  next
    case 3
    then show ?thesis using assms(2) k1 p unfolding input_segment_def Let_def k1_def [symmetric] by (auto split: if_splits)
  qed
qed

lemma input_loop_ok:
  "kcp_ok k \<Longrightarrow> input_loop mem_ack mem raw data k ack = Some (rc, k', ack') \<Longrightarrow> kcp_ok k'"
proof (induction mem_ack mem raw data k ack rule: input_loop.induct)
  case (1 mem_ack mem raw data k ack)
  show ?case
  proof (cases "decode_head data")
    case None
    then show ?thesis using 1(2,3) by (subst (asm) input_loop.simps) simp
  next
    case (Some x)
    obtain h rest where x: "x = (h, rest)" by fastforce
    show ?thesis
    proof (cases "hd_conv h \<noteq> kc_conv k \<or> (length rest < unat (hd_len h) \<or> hd_len h <s 0) \<or> \<not> known_cmd (hd_cmd h)")
      case True
      then show ?thesis using 1(2,3) Some x by (subst (asm) input_loop.simps) (simp split: if_splits)
    next
      case False
      then obtain k1 a1 where s: "input_segment mem_ack mem raw h (take (unat (hd_len h)) rest) k ack = Some (k1, a1)"
        "input_loop mem_ack mem raw (drop (unat (hd_len h)) rest) k1 a1 = Some (rc, k', ack')"
        using 1(3) Some x by (subst (asm) input_loop.simps) (auto split: option.splits)
      have "kcp_ok k1" by (rule input_segment_ok [OF 1(2) s(1)])
      then show ?thesis using 1(1) [OF Some x [symmetric] _ _ _ s(1) refl] s(2) False by blast
    qed
  qed
qed

lemma input_ok:
  assumes "kcp_ok k" "ikcp_input mem_ack mem raw data k = Some (rc, k')"
  shows "kcp_ok k'"
proof (cases "length data < IKCP_OVERHEAD")
  case True
  then show ?thesis using assms by (simp add: ikcp_input_def)
next
  case False
  then obtain r k1 a where l: "input_loop mem_ack mem raw data k None = Some (r, k1, a)"
    using assms(2) by (auto simp: ikcp_input_def split: bind_splits)
  have k1: "kcp_ok k1" by (rule input_loop_ok [OF assms(1) l])
  define k2 where "k2 = (case a of Some (maxack, latest_ts) \<Rightarrow> ikcp_parse_fastack maxack latest_ts k1 | None \<Rightarrow> k1)"
  have k2: "kcp_ok k2" using k1 fastack_ok by (auto simp: k2_def split: option.split)
  have "kcp_ok (grow_window k2)" by (rule ok_same [OF k2]) (simp_all add: grow_window_parts)
  moreover have "k' \<in> {k1, k2, grow_window k2}"
    using assms(2) False l unfolding ikcp_input_def by (auto simp: Let_def k2_def split: if_splits)
  ultimately show ?thesis using k1 k2 by fastforce
qed

end
