(* ===== verification/KcpSteps.thy ===== *)
theory KcpSteps
  imports KcpCalls
begin

unbundle bit_operations_syntax

text \<open>
  A conversation from its creation on, under any calls: it stays well formed, and as long as memory can be had no
  call faults.
\<close>

section \<open>Output and options\<close>

lemma flush_ok:
  assumes "kcp_ok k" "ikcp_flush k = Some k'"
  shows "kcp_ok k'"
proof (cases "kc_updated k = 0")
  case True
  then show ?thesis using assms by (simp add: ikcp_flush_def)
next
  case False
  have f: "kcp_fits k" using assms(1) by (simp add: kcp_ok_def)
  have c: "kc_nsnd_buf k = of_nat (length (kc_snd_buf k))" "kc_nsnd_que k = of_nat (length (kc_snd_queue k))"
    using assms(1) unfolding kcp_ok_def kcp_counts_def by blast+
  have k': "kc_snd_buf k' = map (after_flush k) (window_of k)" "kc_snd_queue k' = drop (admitted k) (kc_snd_queue k)"
    "kc_nsnd_que k' = kc_nsnd_que k - of_nat (admitted k)" "kc_nsnd_buf k' = kc_nsnd_buf k + of_nat (admitted k)" "same_receiver k k'"
    using flush_sends [OF f False] assms(2) by auto
  have a: "admitted k \<le> length (kc_snd_queue k)" by (simp add: admitted_def)
  have "length (window_of k) = length (kc_snd_buf k) + admitted k" using a by (simp add: window_of_def)
  then show ?thesis
    using k' c a flush_keeps_fits [OF f assms(2)] by (intro ok_snd [OF assms(1)]) (simp_all add: rcv_part_def same_receiver_def of_nat_diff)
qed

lemma flush_total: "kcp_fits k \<Longrightarrow> ikcp_flush k \<noteq> None"
  using flush_sends [of k] by (cases "kc_updated k = 0") (auto simp: ikcp_flush_def)

lemma update_flushes:
  "\<exists>k'. snd_part k' = snd_part k \<and> rcv_part k' = rcv_part k \<and> kc_rcv_wnd k' = kc_rcv_wnd k \<and> kc_rmt_wnd k' = kc_rmt_wnd k \<and>
     (ikcp_update now k = Some k' \<or> ikcp_update now k = ikcp_flush k')"
proof -
  define k1 where "k1 = (if kc_updated k = 0 then k\<lparr>kc_current := now, kc_updated := 1, kc_ts_flush := now\<rparr> else k\<lparr>kc_current := now\<rparr>)"
  define d where "d = itimediff now (kc_ts_flush k1)"
  define far where "far \<longleftrightarrow> 10000 \<le> d \<or> d < - 10000"
  define k2 where "k2 = (if far then k1\<lparr>kc_ts_flush := now\<rparr> else k1)"
  define k3 where "k3 = k2\<lparr>kc_ts_flush := kc_ts_flush k2 + kc_interval k2\<rparr>"
  define k4 where "k4 = (if 0 \<le> itimediff now (kc_ts_flush k3) then k3\<lparr>kc_ts_flush := now + kc_interval k3\<rparr> else k3)"
  have e: "ikcp_update now k = (if 0 \<le> (if far then 0 else d) then ikcp_flush k4 else Some k2)"
    by (simp add: ikcp_update_def Let_def k1_def d_def far_def k2_def k3_def k4_def)
  have p2: "snd_part k2 = snd_part k \<and> rcv_part k2 = rcv_part k \<and> kc_rcv_wnd k2 = kc_rcv_wnd k \<and> kc_rmt_wnd k2 = kc_rmt_wnd k"
    by (simp add: k2_def k1_def snd_part_def rcv_part_def)
  have "snd_part k4 = snd_part k2 \<and> rcv_part k4 = rcv_part k2 \<and> kc_rcv_wnd k4 = kc_rcv_wnd k2 \<and> kc_rmt_wnd k4 = kc_rmt_wnd k2"
    by (simp add: k4_def k3_def snd_part_def rcv_part_def)
  then show ?thesis using p2 e by (cases "0 \<le> (if far then 0 else d)") (metis, metis)
qed

lemma update_ok:
  assumes "kcp_ok k"
  shows "\<exists>k'. ikcp_update now k = Some k' \<and> kcp_ok k'"
proof -
  obtain k1 where k1: "snd_part k1 = snd_part k" "rcv_part k1 = rcv_part k" "kc_rcv_wnd k1 = kc_rcv_wnd k" "kc_rmt_wnd k1 = kc_rmt_wnd k"
    "ikcp_update now k = Some k1 \<or> ikcp_update now k = ikcp_flush k1"
    using update_flushes by blast
  have k1_ok: "kcp_ok k1" by (rule ok_same [OF assms k1(1-4)])
  then have "ikcp_flush k1 \<noteq> None" using flush_total by (simp add: kcp_ok_def)
  then show ?thesis using k1(5) k1_ok flush_ok by auto
qed

text \<open>A larger path is harmless; the new block has the size that was asked for as long as its computation does not wrap around.\<close>

lemma setmtu_ok:
  assumes "kcp_ok k" "kc_mtu k \<le> mtu" "unat mtu < 2 ^ 30"
  shows "kcp_ok (snd (ikcp_setmtu mem mtu k))"
proof (cases "(sint mtu < 50 \<or> sint mtu < int IKCP_OVERHEAD) \<or> \<not> mem")
  case True
  then show ?thesis using assms(1) by (auto simp: ikcp_setmtu_def)
next
  case False
  define k' where "k' = k\<lparr>kc_mtu := mtu, kc_mss := mtu - 24, kc_buffer := unat ((mtu + 24) * 3)\<rparr>"
  have k': "snd (ikcp_setmtu mem mtu k) = k'" using False by (simp add: ikcp_setmtu_def k'_def)
  have s: "kcp_sizes k" by (rule ok_parts(1) [OF assms(1)])
  have m: "unat (kc_mtu k) = unat (kc_mss k) + 24" "0 < unat (kc_mss k)" "unat (kc_mtu k) \<le> unat mtu"
    using s assms(2) unfolding kcp_sizes_def by (blast, blast, simp add: word_le_nat_alt)
  have mss: "unat (mtu - 24) = unat mtu - 24" using m unat_sub [of 24 mtu] by (simp add: word_le_nat_alt)
  have a: "unat (mtu + 24) = unat mtu + 24" using assms(3) by (simp add: unat_word_ariths)
  have "unat ((mtu + 24) * 3) = (unat mtu + 24) * 3 mod 2 ^ 32" by (subst unat_word_ariths(2)) (simp add: a)
  also have "\<dots> = (unat mtu + 24) * 3" by (rule mod_less) (use assms(3) in simp)
  finally have "unat ((mtu + 24) * 3) = (unat mtu + 24) * 3" .
  moreover have "unat (kc_mss k) \<le> unat (mtu - 24)" using m(1,3) mss by linarith
  then have "\<forall>s \<in> set (kc_snd_queue k @ kc_snd_buf k). length (sg_data s) \<le> unat (mtu - 24) \<and> sg_frg s < 256"
    using s unfolding kcp_sizes_def by (meson order_trans)
  moreover have "unat mtu < 2 ^ 31" using assms(3) by simp
  ultimately have "kcp_sizes k'" using s m mss unfolding kcp_sizes_def k'_def by simp
  moreover have "kcp_window k'" using window_cong [of k' k] ok_parts(2) [OF assms(1)] by (simp add: k'_def)
  ultimately show ?thesis unfolding k'
    using assms(1) by (intro ok_snd [OF assms(1)]) (simp_all add: k'_def rcv_part_def kcp_fits_def kcp_ok_def kcp_counts_def)
qed

lemma options_ok:
  assumes "kcp_ok k"
  shows "kcp_ok (snd (ikcp_interval i k))" "kcp_ok (snd (ikcp_nodelay nd i r nc k))"
    "w < 65536 \<Longrightarrow> kcp_ok (snd (ikcp_wndsize s w k))"
proof -
  show "kcp_ok (snd (ikcp_interval i k))" by (rule ok_same [OF assms]) (simp_all add: ikcp_interval_def snd_part_def rcv_part_def)
  show "kcp_ok (snd (ikcp_nodelay nd i r nc k))" by (rule ok_same [OF assms]) (simp_all add: ikcp_nodelay_def Let_def snd_part_def rcv_part_def)
  show "kcp_ok (snd (ikcp_wndsize s w k))" if w: "w < 65536"
  proof (rule ok_cong [OF assms])
    have "imax (word_of_int w) IKCP_WND_RCV < 65536" if "0 < w"
    proof -
      have "uint (word_of_int w :: u32) = w" using w that by (simp add: uint_word_of_int_eq take_bit_int_eq_self)
      then have "(word_of_int w :: u32) < 65536" using w by (simp add: word_less_def)
      then show ?thesis by (simp add: imax_def IKCP_WND_RCV_def)
    qed
    then show "kc_rcv_wnd (snd (ikcp_wndsize s w k)) < 65536" using ok_parts(5) [OF assms] by (simp add: ikcp_wndsize_def Let_def)
    show "kc_rmt_wnd (snd (ikcp_wndsize s w k)) < 65536" using ok_parts(1) [OF assms] by (simp add: ikcp_wndsize_def Let_def kcp_sizes_def)
  qed (simp_all add: ikcp_wndsize_def Let_def snd_part_def rcv_part_def)
qed

lemma kcp_create_ok: "ikcp_create mem mem_buffer conv = Some k \<Longrightarrow> kcp_ok k"
  by (auto simp: ikcp_create_def kcp_ok_def kcp_fits_def kcp_sizes_def kcp_window_def kcp_early_def kcp_counts_def
      IKCP_MTU_DEF_def IKCP_WND_RCV_def IKCP_OVERHEAD_def split: if_splits)

section \<open>Input does not fault\<close>

lemma newblock_doubles: "newsize \<le> 2 ^ 31 \<Longrightarrow> j \<le> 31 \<Longrightarrow> 32 \<le> n + j \<Longrightarrow> newblock_loop n newsize (2 ^ j) \<noteq> None" for newsize :: u32
proof (induction n arbitrary: j)
  case 0
  then show ?case by simp
next
  case (Suc n)
  show ?case
  proof (cases "(2 :: u32) ^ j < newsize")
    case False
    then show ?thesis by simp
  next
    case True
    have "j \<noteq> 31" using True Suc.prems(1) by auto
    then have "j + 1 \<le> 31" using Suc.prems(2) by simp
    moreover have "push_bit 1 ((2 :: u32) ^ j) = 2 ^ (j + 1)" by (simp add: push_bit_eq_mult)
    ultimately show ?thesis using True Suc.IH [OF Suc.prems(1), of "j + 1"] Suc.prems(3) by (simp add: mult.commute)
  qed
qed

lemma ack_push_total:
  assumes "length (kc_acklist k) < 2 ^ 31"
  shows "\<exists>k'. ikcp_ack_push True sn ts k = Some k' \<and> length (kc_acklist k') = Suc (length (kc_acklist k))"
proof -
  define newsize where "newsize = (of_nat (length (kc_acklist k)) + 1 :: u32)"
  have "unat newsize = length (kc_acklist k) + 1"
    using assms by (simp add: newsize_def unat_word_ariths unat_of_nat take_bit_nat_eq_self)
  then have "newsize \<le> 2 ^ 31" using assms by (simp add: word_le_nat_alt)
  then have "newblock_loop 32 newsize 8 \<noteq> None" using newblock_doubles [of newsize 3 32] by simp
  then obtain b where "newblock_loop 32 newsize 8 = Some b" by blast
  then show ?thesis by (simp add: ikcp_ack_push_def Let_def flip: newsize_def)
qed

lemma acklist_kept [simp]:
  "kc_acklist (ikcp_parse_una u k) = kc_acklist k" "kc_acklist (ikcp_shrink_buf k) = kc_acklist k"
  "kc_acklist (ikcp_parse_ack sn k) = kc_acklist k" "kc_acklist (ikcp_update_ack r k) = kc_acklist k"
  by (simp_all add: ikcp_parse_una_def ikcp_shrink_buf_def ikcp_parse_ack_def ikcp_update_ack_def Let_def split: prod.split)

lemma move_loop_acklist [simp]: "kc_acklist (move_loop ss k) = kc_acklist k"
  by (induction ss k rule: move_loop.induct) simp_all

lemma parse_data_acklist [simp]: "kc_acklist (ikcp_parse_data s k) = kc_acklist k"
  by (simp add: ikcp_parse_data_def Let_def split: option.split)

lemma input_segment_total:
  assumes "length (kc_acklist k) < 2 ^ 31"
  shows "\<exists>k' ack'. input_segment True True raw h data k ack = Some (k', ack') \<and> length (kc_acklist k') \<le> Suc (length (kc_acklist k))"
proof -
  have p: "\<exists>k'. input_push True True raw h data k = Some k' \<and> length (kc_acklist k') \<le> Suc (length (kc_acklist k))"
    if l: "length (kc_acklist k) < 2 ^ 31" for k
  proof -
    obtain k1 where "ikcp_ack_push True (hd_sn h) (hd_ts h) k = Some k1" "length (kc_acklist k1) = Suc (length (kc_acklist k))"
      using ack_push_total [OF l] by blast
    then show ?thesis by (auto simp: input_push_def)
  qed
  define k1 where "k1 = ikcp_shrink_buf (ikcp_parse_una (hd_una h) (k\<lparr>kc_rmt_wnd := ucast (hd_wnd h)\<rparr>))"
  have l: "kc_acklist k1 = kc_acklist k" by (simp add: k1_def)
  obtain k2 where k2: "input_push True True raw h data k1 = Some k2" "length (kc_acklist k2) \<le> Suc (length (kc_acklist k))"
    using p [of k1] assms l by auto
  show ?thesis unfolding input_segment_def Let_def k1_def [symmetric] using k2 l by auto
qed

lemma input_loop_total:
  "length (kc_acklist k) + length data < 2 ^ 31 \<Longrightarrow> input_loop True True raw data k ack \<noteq> None"
proof (induction data arbitrary: k ack rule: length_induct)
  case (1 data)
  show ?case
  proof (cases "decode_head data")
    case None
    then show ?thesis by (subst input_loop.simps) simp
  next
    case (Some x)
    obtain h rest where x: "x = (h, rest)" by fastforce
    have l: "length data = length rest + 24" using Some x decode_head_length by simp
    obtain k1 a1 where s: "input_segment True True raw h (take (unat (hd_len h)) rest) k ack = Some (k1, a1)"
      "length (kc_acklist k1) \<le> Suc (length (kc_acklist k))"
      using input_segment_total [of k raw h "take (unat (hd_len h)) rest" ack] 1(2) by auto
    have "length (kc_acklist k1) + length (drop (unat (hd_len h)) rest) < 2 ^ 31" using 1(2) l s(2) by simp
    moreover have "length (drop (unat (hd_len h)) rest) < length data" using l by simp
    ultimately have "input_loop True True raw (drop (unat (hd_len h)) rest) k1 a1 \<noteq> None" using 1(1) by blast
    then show ?thesis using Some x s(1) by (subst input_loop.simps) simp
  qed
qed

lemma input_total:
  assumes "length (kc_acklist k) + length data < 2 ^ 31"
  shows "ikcp_input True True raw data k \<noteq> None"
proof -
  obtain r where "input_loop True True raw data k None = Some r" using input_loop_total [OF assms] by fastforce
  then show ?thesis by (cases r) (simp add: ikcp_input_def Let_def)
qed

section \<open>Calls\<close>

datatype kcp_call =
  Call_send bool "nat \<Rightarrow> bool" segment "byte list"
| Call_recv int
| Call_input bool bool segment "byte list"
| Call_update u32
| Call_flush
| Call_setmtu bool i32
| Call_interval int
| Call_nodelay i32 int int int
| Call_wndsize int int

fun kcp_step :: "kcp_call \<Rightarrow> kcp \<Rightarrow> kcp option" where
  "kcp_step (Call_send mem_extend mem raw bs) k = Some (snd (ikcp_send mem_extend mem raw bs k))"
| "kcp_step (Call_recv len) k = Some (snd (snd (ikcp_recv len k)))"
| "kcp_step (Call_input mem_ack mem raw data) k = map_option snd (ikcp_input mem_ack mem raw data k)"
| "kcp_step (Call_update now) k = ikcp_update now k"
| "kcp_step Call_flush k = ikcp_flush k"
| "kcp_step (Call_setmtu mem mtu) k = Some (snd (ikcp_setmtu mem mtu k))"
| "kcp_step (Call_interval i) k = Some (snd (ikcp_interval i k))"
| "kcp_step (Call_nodelay nd i r nc) k = Some (snd (ikcp_nodelay nd i r nc k))"
| "kcp_step (Call_wndsize s r) k = Some (snd (ikcp_wndsize s r k))"

fun kcp_run :: "kcp_call list \<Rightarrow> kcp \<Rightarrow> kcp option" where
  "kcp_run [] k = Some k"
| "kcp_run (c # cs) k = Option.bind (kcp_step c k) (kcp_run cs)"

text \<open>The path is not made smaller, a window is less than \<open>2 ^ 16\<close> segments, the receiver of a datagram has memory.\<close>

fun fair_call :: "kcp_call \<Rightarrow> kcp \<Rightarrow> bool" where
  "fair_call (Call_input mem_ack mem raw data) k \<longleftrightarrow> mem_ack \<and> mem \<and> length (kc_acklist k) + length data < 2 ^ 31"
| "fair_call (Call_setmtu mem mtu) k \<longleftrightarrow> kc_mtu k \<le> mtu \<and> unat mtu < 2 ^ 30"
| "fair_call (Call_wndsize s r) k \<longleftrightarrow> r < 65536"
| "fair_call _ k \<longleftrightarrow> True"

fun fair_calls :: "kcp_call list \<Rightarrow> kcp \<Rightarrow> bool" where
  "fair_calls [] k \<longleftrightarrow> True"
| "fair_calls (c # cs) k \<longleftrightarrow> fair_call c k \<and> (case kcp_step c k of None \<Rightarrow> True | Some k' \<Rightarrow> fair_calls cs k')"

lemma kcp_step_ok:
  assumes "kcp_ok k" "fair_call c k"
  shows "\<exists>k'. kcp_step c k = Some k' \<and> kcp_ok k'"
proof (cases c)
  case (Call_input mem_ack mem raw data)
  then obtain r where "ikcp_input mem_ack mem raw data k = Some r" using input_total [of k data raw] assms(2) by auto
  then show ?thesis using input_ok [OF assms(1)] Call_input by (cases r) auto
next
  case Call_flush
  then show ?thesis using flush_total flush_ok [OF assms(1)] assms(1) unfolding kcp_ok_def [of k] by auto
qed (use assms send_ok recv_ok update_ok setmtu_ok options_ok in auto)

lemma kcp_run_ok:
  "kcp_ok k \<Longrightarrow> fair_calls cs k \<Longrightarrow> \<exists>k'. kcp_run cs k = Some k' \<and> kcp_ok k'"
proof (induction cs arbitrary: k)
  case Nil
  then show ?case by simp
next
  case (Cons c cs)
  then obtain k1 where "kcp_step c k = Some k1" "kcp_ok k1" using kcp_step_ok [of k c] by auto
  then show ?case using Cons by simp
qed



end
