(* ===== verification/KcpStream.thy ===== *)
theory KcpStream
  imports KcpSteps
begin

unbundle bit_operations_syntax

text \<open>
  The stream of bytes through a conversation: what is accepted is queued, what is queued is numbered, and
  what the peer delivers is a prefix of it.
\<close>

section \<open>Queueing\<close>

definition bytes_of :: "segment list \<Rightarrow> byte list" where
  "bytes_of ss = concat (map sg_data ss)"

lemma bytes_of_simps [simp]: "bytes_of [] = []" "bytes_of (s # ss) = sg_data s @ bytes_of ss" "bytes_of (ss @ ts) = bytes_of ss @ bytes_of ts"
  by (simp_all add: bytes_of_def)

lemma fragment_loop_appends:
  assumes "\<forall>i. mem i" "length bs \<le> m * unat (kc_mss k)"
  shows "\<exists>ss n. fragment_loop mem raw m i bs sent k = (sent + int (length bs), k\<lparr>kc_snd_queue := kc_snd_queue k @ ss, kc_nsnd_que := n\<rparr>) \<and>
    bytes_of ss = bs"
  using assms(2)
proof (induction m arbitrary: i bs sent k)
  case 0
  then show ?case by (intro exI [of _ "[]"] exI [of _ "kc_nsnd_que k"]) simp
next
  case (Suc m)
  define n where "n = min (unat (kc_mss k)) (length bs)"
  define s where "s = raw\<lparr>sg_data := take n bs, sg_frg := (if kc_stream k = 0 then of_nat m else 0)\<rparr>"
  define k1 where "k1 = k\<lparr>kc_snd_queue := kc_snd_queue k @ [s], kc_nsnd_que := kc_nsnd_que k + 1\<rparr>"
  have "length (drop n bs) \<le> m * unat (kc_mss k1)" using Suc.prems by (auto simp: n_def k1_def min_def)
  from Suc.IH [OF this, of "Suc i" "sent + int n"] obtain ss r where
    r: "fragment_loop mem raw m (Suc i) (drop n bs) (sent + int n) k1 =
      (sent + int n + int (length (drop n bs)), k1\<lparr>kc_snd_queue := kc_snd_queue k1 @ ss, kc_nsnd_que := r\<rparr>)" "bytes_of ss = drop n bs" by blast
  have "fragment_loop mem raw (Suc m) i bs sent k = fragment_loop mem raw m (Suc i) (drop n bs) (sent + int n) k1"
    using assms(1) by (simp add: Let_def n_def s_def k1_def)
  moreover have "int n + int (length (drop n bs)) = int (length bs)" by (simp add: n_def)
  ultimately show ?case
    using r by (intro exI [of _ "s # ss"] exI [of _ r]) (simp add: k1_def s_def add.assoc)
qed

lemma count_enough: "0 < unat (kc_mss k) \<Longrightarrow> len \<le> (if fragment_count k len = 0 then 1 else fragment_count k len) * unat (kc_mss k)"
proof -
  assume m: "0 < unat (kc_mss k)"
  define c where "c = unat (kc_mss k)"
  have "len \<le> (len + c - 1) div c * c" if "c < len"
  proof -
    have "(len + c - 1) mod c < c" using m by (simp add: c_def)
    moreover have "(len + c - 1) div c * c + (len + c - 1) mod c = len + c - 1" by (rule div_mult_mod_eq)
    ultimately show ?thesis using that by linarith
  qed
  moreover have "(len + c - 1) div c \<noteq> 0" if "c < len" using that m by (simp add: div_eq_0_iff c_def)
  ultimately show ?thesis by (cases "len \<le> c") (simp_all add: fragment_count_def c_def [symmetric])
qed

lemma fragment_appends:
  assumes "\<forall>i. mem i" "0 < unat (kc_mss k)"
  shows "\<exists>rc ss n. fragment mem raw bs sent k = (rc, k\<lparr>kc_snd_queue := kc_snd_queue k @ ss, kc_nsnd_que := n\<rparr>) \<and>
    (rc = sent + int (length bs) \<and> bytes_of ss = bs \<or> rc = (if kc_stream k \<noteq> 0 \<and> 0 < sent then sent else - 2) \<and> ss = [])"
proof (cases "unat IKCP_WND_RCV \<le> fragment_count k (length bs)")
  case True
  then show ?thesis
    by (intro exI [of _ "if kc_stream k \<noteq> 0 \<and> 0 < sent then sent else - 2"] exI [of _ "[]"] exI [of _ "kc_nsnd_que k"])
      (simp add: fragment_def Let_def)
next
  case False
  obtain ss n where r: "fragment_loop mem raw (if fragment_count k (length bs) = 0 then 1 else fragment_count k (length bs)) 0 bs sent k =
      (sent + int (length bs), k\<lparr>kc_snd_queue := kc_snd_queue k @ ss, kc_nsnd_que := n\<rparr>)" "bytes_of ss = bs"
    using fragment_loop_appends [OF assms(1) count_enough [OF assms(2)]] by blast
  show ?thesis
    by (rule exI [of _ "sent + int (length bs)"], rule exI [of _ ss], rule exI [of _ n])
      (use r False in \<open>simp add: fragment_def Let_def\<close>)
qed

text \<open>What a send accepts is appended to the queue.\<close>

lemma send_appends:
  assumes "\<forall>i. mem i" "kcp_ok k"
  shows "\<exists>rc q n. ikcp_send True mem raw bs k = (rc, k\<lparr>kc_snd_queue := q, kc_nsnd_que := n\<rparr>) \<and>
    bytes_of q = bytes_of (kc_snd_queue k) @ take (nat rc) bs"
proof -
  have mss: "0 < unat (kc_mss k)" "unat (kc_mss k) < 2 ^ 31" using ok_parts(1) [OF assms(2)] by (auto simp: kcp_sizes_def)
  obtain rc ss n where f: "fragment mem raw bs 0 k = (rc, k\<lparr>kc_snd_queue := kc_snd_queue k @ ss, kc_nsnd_que := n\<rparr>)"
    "rc = int (length bs) \<and> bytes_of ss = bs \<or> rc = - 2 \<and> ss = []"
    using fragment_appends [OF assms(1) mss(1), of raw bs 0] by auto
  then have f': "bytes_of (kc_snd_queue k @ ss) = bytes_of (kc_snd_queue k) @ take (nat rc) bs" by auto
  define ext where "ext \<longleftrightarrow> kc_snd_queue k \<noteq> [] \<and> sg_len (last (kc_snd_queue k)) < kc_mss k"
  consider "2 ^ 31 \<le> length bs" | "length bs < 2 ^ 31" "kc_stream k = 0 \<or> \<not> ext \<and> bs \<noteq> []" | "length bs < 2 ^ 31" "kc_stream k \<noteq> 0" "\<not> ext" "bs = []"
    | "length bs < 2 ^ 31" "kc_stream k \<noteq> 0" "ext" by (cases "2 ^ 31 \<le> length bs"; cases "kc_stream k = 0"; cases ext; cases "bs = []") (simp_all add: not_le)
  then show ?thesis
  proof cases
    case 1
    then have "ikcp_send True mem raw bs k = (- 1, k)" by (simp add: ikcp_send_def)
    then show ?thesis by (intro exI [of _ "- 1"] exI [of _ "kc_snd_queue k"] exI [of _ "kc_nsnd_que k"]) simp
  next
    case 2
    then have "ikcp_send True mem raw bs k = fragment mem raw bs 0 k" unfolding ikcp_send_def ext_def [symmetric] by (auto simp: not_le)
    then show ?thesis using f f' by (intro exI [of _ rc] exI [of _ "kc_snd_queue k @ ss"] exI [of _ n]) simp
  next
    case 3
    then have "ikcp_send True mem raw bs k = (0, k)" unfolding ikcp_send_def ext_def [symmetric] by simp
    then show ?thesis using 3(4) by (intro exI [of _ 0] exI [of _ "kc_snd_queue k"] exI [of _ "kc_nsnd_que k"]) simp
  next
    case 4
    define old where "old = last (kc_snd_queue k)"
    define e where "e = min (length bs) (unat (kc_mss k - sg_len old))"
    define s where "s = raw\<lparr>sg_data := sg_data old @ take e bs, sg_frg := 0\<rparr>"
    define k1 where "k1 = k\<lparr>kc_snd_queue := butlast (kc_snd_queue k) @ [s]\<rparr>"
    have q: "kc_snd_queue k = butlast (kc_snd_queue k) @ [old]" using 4(3) by (simp add: ext_def old_def)
    have b1: "bytes_of (kc_snd_queue k1) = bytes_of (kc_snd_queue k) @ take e bs" by (subst q) (simp add: k1_def s_def)
    have "sg_len old < kc_mss k" using 4(3) by (simp add: ext_def old_def)
    then have "0 < unat (kc_mss k - sg_len old)" using unat_sub [of "sg_len old" "kc_mss k"] by (simp add: word_less_nat_alt word_le_nat_alt)
    then have e: "0 < e" if "bs \<noteq> []" using that by (simp add: e_def)
    have le: "length bs \<le> unat (kc_mss k - sg_len old) \<longleftrightarrow> length bs \<le> e" by (auto simp: e_def)
    have st: "ikcp_send True mem raw bs k = (if length bs \<le> e then (int e, k1) else fragment mem raw (drop e bs) (int e) k1)"
      using 4 unfolding ikcp_send_def ext_def [symmetric] by (simp add: Let_def old_def [symmetric] e_def [symmetric] s_def k1_def le)
    show ?thesis
    proof (cases "length bs \<le> e")
      case True
      then show ?thesis using st b1
        by (intro exI [of _ "int e"] exI [of _ "kc_snd_queue k1"] exI [of _ "kc_nsnd_que k"]) (simp add: k1_def)
    next
      case False
      obtain r ts m where g: "fragment mem raw (drop e bs) (int e) k1 = (r, k1\<lparr>kc_snd_queue := kc_snd_queue k1 @ ts, kc_nsnd_que := m\<rparr>)"
        "r = int e + int (length (drop e bs)) \<and> bytes_of ts = drop e bs \<or> r = (if kc_stream k1 \<noteq> 0 \<and> 0 < int e then int e else - 2) \<and> ts = []"
        using fragment_appends [OF assms(1), of k1 raw "drop e bs" "int e"] mss(1) by (auto simp: k1_def)
      have "0 < e" by (rule e) (use False in \<open>cases bs, simp_all\<close>)
      then have "r = int (length bs) \<and> bytes_of ts = drop e bs \<or> r = int e \<and> ts = []"
        using g(2) 4(2) False by (auto simp: k1_def)
      then have "bytes_of (kc_snd_queue k1 @ ts) = bytes_of (kc_snd_queue k) @ take (nat r) bs" using b1 by auto
      then show ?thesis using st g(1) False
        by (intro exI [of _ r] exI [of _ "kc_snd_queue k1 @ ts"] exI [of _ m]) (simp add: k1_def)
    qed
  qed
qed

end
