(* ===== verification/KcpLink.thy ===== *)
theory KcpLink
  imports KcpStream
begin

unbundle bit_operations_syntax

text \<open>
  Two ends of a conversation and a network between them that loses, repeats and reorders datagrams: what
  one end delivers is a prefix of what the other has accepted.
\<close>

section \<open>Views\<close>

definition snd_view :: "kcp \<Rightarrow> u32 \<times> u32 \<times> segment list \<times> segment list \<times> byte list list" where
  "snd_view k = (kc_conv k, kc_snd_nxt k, kc_snd_queue k, kc_snd_buf k, kc_out k)"

definition rcv_view :: "kcp \<Rightarrow> u32 \<times> u32 \<times> segment list \<times> segment list" where
  "rcv_view k = (kc_conv k, kc_rcv_nxt k, kc_rcv_queue k, kc_rcv_buf k)"

lemma move_loop_snd_view [simp]: "snd_view (move_loop ss k) = snd_view k"
  by (induction ss k rule: move_loop.induct) (simp_all add: snd_view_def)

lemma recv_snd_view: "snd_view (snd (snd (ikcp_recv len k))) = snd_view k"
proof (cases "kc_rcv_queue k = [] \<or> ikcp_peeksize k < 0 \<or> \<bar>len\<bar> < ikcp_peeksize k")
  case True
  then show ?thesis by (simp add: recv_refused)
next
  case False
  define k1 where "k1 = (if len < 0 then k else k\<lparr>kc_rcv_queue := drop (first_message (kc_rcv_queue k)) (kc_rcv_queue k),
    kc_nrcv_que := kc_nrcv_que k - of_nat (first_message (kc_rcv_queue k))\<rparr>)"
  define k2 where "k2 = move_loop (kc_rcv_buf k1) k1"
  have "snd_view k1 = snd_view k" by (simp add: k1_def snd_view_def)
  then have "snd_view k2 = snd_view k" by (simp add: k2_def)
  then have "snd_view (k2\<lparr>kc_probe := p\<rparr>) = snd_view k" "snd_view k2 = snd_view k" for p by (simp_all add: snd_view_def)
  then show ?thesis using False
    by (simp only: ikcp_recv_def recv_loop_shape Let_def prod.case if_False de_Morgan_disj k1_def [symmetric] k2_def [symmetric]) simp
qed

lemma options_views:
  "snd_view (snd (ikcp_setmtu mem mtu k)) = snd_view k" "rcv_view (snd (ikcp_setmtu mem mtu k)) = rcv_view k"
  "snd_view (snd (ikcp_interval i k)) = snd_view k" "rcv_view (snd (ikcp_interval i k)) = rcv_view k"
  "snd_view (snd (ikcp_nodelay nd i r nc k)) = snd_view k" "rcv_view (snd (ikcp_nodelay nd i r nc k)) = rcv_view k"
  "snd_view (snd (ikcp_wndsize s w k)) = snd_view k" "rcv_view (snd (ikcp_wndsize s w k)) = rcv_view k"
  by (simp_all add: ikcp_setmtu_def ikcp_interval_def ikcp_nodelay_def ikcp_wndsize_def Let_def snd_view_def rcv_view_def)

lemma fragment_loop_rcv_view: "rcv_view (snd (fragment_loop mem raw m i bs sent k)) = rcv_view k"
  by (induction mem raw m i bs sent k rule: fragment_loop.induct) (simp_all add: Let_def rcv_view_def)

lemma send_rcv_view: "rcv_view (snd (ikcp_send mem_extend mem raw bs k)) = rcv_view k"
proof -
  have f: "rcv_view (snd (fragment mem raw bs sent k)) = rcv_view k" for bs sent k
    by (simp add: fragment_def Let_def fragment_loop_rcv_view)
  have "rcv_view (k\<lparr>kc_snd_queue := q\<rparr>) = rcv_view k" for q by (simp add: rcv_view_def)
  then show ?thesis by (simp add: ikcp_send_def Let_def f)
qed

lemma update_views:
  "\<exists>k'. snd_part k' = snd_part k \<and> rcv_part k' = rcv_part k \<and> kc_rcv_wnd k' = kc_rcv_wnd k \<and> kc_rmt_wnd k' = kc_rmt_wnd k \<and>
     snd_view k' = snd_view k \<and> rcv_view k' = rcv_view k \<and> (ikcp_update now k = Some k' \<or> ikcp_update now k = ikcp_flush k')"
proof -
  define k1 where "k1 = (if kc_updated k = 0 then k\<lparr>kc_current := now, kc_updated := 1, kc_ts_flush := now\<rparr> else k\<lparr>kc_current := now\<rparr>)"
  define d where "d = itimediff now (kc_ts_flush k1)"
  define far where "far \<longleftrightarrow> 10000 \<le> d \<or> d < - 10000"
  define k2 where "k2 = (if far then k1\<lparr>kc_ts_flush := now\<rparr> else k1)"
  define k3 where "k3 = k2\<lparr>kc_ts_flush := kc_ts_flush k2 + kc_interval k2\<rparr>"
  define k4 where "k4 = (if 0 \<le> itimediff now (kc_ts_flush k3) then k3\<lparr>kc_ts_flush := now + kc_interval k3\<rparr> else k3)"
  have e: "ikcp_update now k = (if 0 \<le> (if far then 0 else d) then ikcp_flush k4 else Some k2)"
    by (simp add: ikcp_update_def Let_def k1_def d_def far_def k2_def k3_def k4_def)
  let ?P = "\<lambda>x y. snd_part x = snd_part y \<and> rcv_part x = rcv_part y \<and> kc_rcv_wnd x = kc_rcv_wnd y \<and> kc_rmt_wnd x = kc_rmt_wnd y \<and>
    snd_view x = snd_view y \<and> rcv_view x = rcv_view y"
  have p2: "?P k2 k" by (simp add: k2_def k1_def snd_part_def rcv_part_def snd_view_def rcv_view_def)
  have "?P k4 k2" by (simp add: k4_def k3_def snd_part_def rcv_part_def snd_view_def rcv_view_def)
  then show ?thesis using p2 e by (cases "0 \<le> (if far then 0 else d)") (metis, metis)
qed

section \<open>The sender\<close>

definition piece :: "segment \<Rightarrow> u32 \<times> byte list" where
  "piece s = (sg_frg s, sg_data s)"

text \<open>The segment carries the piece of the stream that belongs to its number.\<close>

definition genuine :: "(u32 \<times> byte list) list \<Rightarrow> segment \<Rightarrow> bool" where
  "genuine log s \<longleftrightarrow> (\<exists>i < length log. sg_sn s = of_nat i \<and> piece s = log ! i)"

definition sender :: "(u32 \<times> byte list) list \<Rightarrow> kcp \<Rightarrow> bool" where
  "sender log k \<longleftrightarrow> kcp_ok k \<and> kc_snd_nxt k = of_nat (length log) \<and> (\<forall>s \<in> set (kc_snd_buf k). genuine log s)"

lemma genuine_longer: "genuine log s \<Longrightarrow> genuine (log @ extra) s"
  by (auto simp: genuine_def nth_append)

text \<open>A datagram of the sender.\<close>

definition true_packet :: "(u32 \<times> byte list) list \<Rightarrow> u32 \<Rightarrow> byte list \<Rightarrow> bool" where
  "true_packet log conv d \<longleftrightarrow> (\<exists>ss. d = packet ss \<and>
     (\<forall>s \<in> set ss. sendable_segment s \<and> sg_conv s = conv \<and> (sg_cmd s = IKCP_CMD_PUSH \<longrightarrow> genuine log s)))"

lemma true_packet_longer: "true_packet log conv d \<Longrightarrow> true_packet (log @ extra) conv d"
  unfolding true_packet_def using genuine_longer by blast

text \<open>The segments that have left the queue.\<close>

definition departed :: "segment list \<Rightarrow> segment list \<Rightarrow> (u32 \<times> byte list) list" where
  "departed q q' = map piece (take (length q - length q') q)"

lemma not_push: "IKCP_CMD_ACK \<noteq> IKCP_CMD_PUSH" "IKCP_CMD_WASK \<noteq> IKCP_CMD_PUSH" "IKCP_CMD_WINS \<noteq> IKCP_CMD_PUSH"
  by (simp_all add: IKCP_CMD_PUSH_def IKCP_CMD_ACK_def IKCP_CMD_WASK_def IKCP_CMD_WINS_def)

lemma flush_sender:
  assumes s: "sender log k" and r: "ikcp_flush k = Some k'"
  shows "\<exists>ps. kc_out k' = kc_out k @ ps \<and> sender (log @ departed (kc_snd_queue k) (kc_snd_queue k')) k' \<and>
    (\<forall>d \<in> set ps. true_packet (log @ departed (kc_snd_queue k) (kc_snd_queue k')) (kc_conv k) d) \<and>
    bytes_of (kc_snd_queue k) = concat (map snd (departed (kc_snd_queue k) (kc_snd_queue k'))) @ bytes_of (kc_snd_queue k') \<and>
    kc_conv k' = kc_conv k \<and> rcv_view k' = rcv_view k"
proof (cases "kc_updated k = 0")
  case True
  then have "k' = k" using r by (simp add: ikcp_flush_def)
  then show ?thesis using s by (intro exI [of _ "[]"]) (simp add: departed_def)
next
  case False
  define j where "j = admitted k"
  define q where "q = kc_snd_queue k"
  have ok: "kcp_ok k" and nxt: "kc_snd_nxt k = of_nat (length log)" and old: "\<forall>s \<in> set (kc_snd_buf k). genuine log s"
    using s unfolding sender_def by blast+
  have fits: "kcp_fits k" using ok by (simp add: kcp_ok_def)
  obtain ps where f: "kc_out k' = kc_out k @ map packet ps"
    "concat ps = acks_of k @ probes_of k @ map (after_flush k) (filter (due k) (window_of k))"
    "kc_snd_buf k' = map (after_flush k) (window_of k)" "kc_snd_queue k' = drop j q"
    "kc_snd_nxt k' = kc_snd_nxt k + of_nat j" "kc_conv k' = kc_conv k" "same_receiver k k'"
    using flush_sends [OF fits False] r unfolding j_def q_def by auto
  have jq: "j \<le> length q" by (simp add: j_def admitted_def q_def)
  define extra where "extra = departed q (kc_snd_queue k')"
  have extra: "extra = map piece (take j q)" using jq by (simp add: extra_def departed_def f(4))
  have lm: "length extra = j" using jq by (simp add: extra)
  have aft: "sg_sn (after_flush k s) = sg_sn s \<and> piece (after_flush k s) = piece s \<and> sg_cmd (after_flush k s) = sg_cmd s" for s
    by (simp add: after_flush_def piece_def)
  have new: "genuine (log @ extra) s" if s: "s \<in> set (numbered wnd (kc_snd_nxt k) k (take j q))" for s wnd
  proof -
    obtain i where i: "i < j" "s = numbered wnd (kc_snd_nxt k) k (take j q) ! i" using s jq by (auto simp: in_set_conv_nth)
    then have "sg_sn s = of_nat (length log + i)" "piece s = extra ! i"
      using numbered_nth [of i "take j q" wnd "kc_snd_nxt k" k] jq by (simp_all add: nxt extra piece_def)
    then show ?thesis using i lm unfolding genuine_def by (intro exI [of _ "length log + i"]) (simp add: nth_append)
  qed
  have win: "\<forall>s \<in> set (window_of k). genuine (log @ extra) s"
    using old genuine_longer new by (auto simp: window_of_def j_def q_def)
  have aft_gen: "genuine (log @ extra) (after_flush k s) = genuine (log @ extra) s" for s using aft by (simp add: genuine_def)
  have snd: "sender (log @ extra) k'"
    using flush_ok [OF ok r] f(3,5) win aft_gen nxt lm by (simp add: sender_def)
  have pk: "true_packet (log @ extra) (kc_conv k) (packet p)" if "p \<in> set ps" for p
  proof -
    have sub: "set p \<subseteq> set (acks_of k @ probes_of k @ map (after_flush k) (filter (due k) (window_of k)))"
      unfolding f(2) [symmetric] using that by auto
    have "genuine (log @ extra) s" if "s \<in> set p" "sg_cmd s = IKCP_CMD_PUSH" for s
    proof -
      have "s \<notin> set (acks_of k)" "s \<notin> set (probes_of k)"
        using that(2) not_push by (auto simp: acks_of_def probes_of_def control_def Let_def split: if_splits)
      then have "s \<in> after_flush k ` set (window_of k)" using sub that(1) by auto
      then show ?thesis using win aft_gen by auto
    qed
    then show ?thesis unfolding true_packet_def using emitted_sendable [OF fits] sub by blast
  qed
  have byt: "bytes_of q = concat (map snd extra) @ bytes_of (drop j q)"
    by (simp add: extra bytes_of_def piece_def comp_def flip: concat_append map_append)
  show ?thesis
    using f(1,4,6,7) snd pk byt
    by (intro exI [of _ "map packet ps"]) (auto simp: extra_def q_def same_receiver_def rcv_view_def)
qed

text \<open>Any input only takes segments out of the send window.\<close>

definition waiting_pieces :: "kcp \<Rightarrow> (u32 \<times> u32 \<times> byte list) set" where
  "waiting_pieces k = (\<lambda>s. (sg_sn s, piece s)) ` set (kc_snd_buf k)"

definition fewer :: "kcp \<Rightarrow> kcp \<Rightarrow> bool" where
  "fewer k k' \<longleftrightarrow> kc_conv k' = kc_conv k \<and> kc_snd_nxt k' = kc_snd_nxt k \<and> kc_snd_queue k' = kc_snd_queue k \<and> kc_out k' = kc_out k \<and>
     waiting_pieces k' \<subseteq> waiting_pieces k"

lemma fewer_refl [simp]: "fewer k k"
  by (simp add: fewer_def)

lemma fewer_trans: "fewer a b \<Longrightarrow> fewer b c \<Longrightarrow> fewer a c"
  by (auto simp: fewer_def)

lemma fewer_view: "snd_view k' = snd_view k \<Longrightarrow> fewer k k'"
  by (simp add: fewer_def snd_view_def waiting_pieces_def)

lemma fewer_una: "fewer k (ikcp_shrink_buf (ikcp_parse_una u (k\<lparr>kc_rmt_wnd := w\<rparr>)))"
  by (auto simp: fewer_def waiting_pieces_def ikcp_shrink_buf_def parse_una_shape dest: set_dropWhileD)

lemma fewer_ack: "fewer k (ikcp_shrink_buf (ikcp_parse_ack sn k))"
proof -
  obtain ss h where r: "ack_loop sn (kc_snd_buf k) = (ss, h)" by fastforce
  have "set ss \<subseteq> set (kc_snd_buf k)" using ack_loop_removes [OF r] by (auto split: if_splits)
  then show ?thesis using r by (auto simp: fewer_def waiting_pieces_def ikcp_shrink_buf_def ikcp_parse_ack_def)
qed

lemma fewer_fastack: "fewer k (ikcp_parse_fastack sn ts k)"
proof -
  have "map (\<lambda>s. (sg_sn s, piece s)) (fastack_loop sn ss) = map (\<lambda>s. (sg_sn s, piece s)) ss" for ss
    by (induction ss) (simp_all add: piece_def)
  then have "(\<lambda>s. (sg_sn s, piece s)) ` set (fastack_loop sn ss) = (\<lambda>s. (sg_sn s, piece s)) ` set ss" for ss
    by (simp only: set_map [symmetric])
  then show ?thesis by (simp add: fewer_def waiting_pieces_def ikcp_parse_fastack_def)
qed

lemma push_snd_view:
  assumes "input_push mem_ack mem raw h data k = Some k'"
  shows "snd_view k' = snd_view k"
proof -
  have a: "snd_view k1 = snd_view k" if "ikcp_ack_push m sn ts k = Some k1" for m sn ts k1
    using that by (auto simp: ikcp_ack_push_def Let_def snd_view_def split: bind_splits if_splits)
  have "snd_view (k\<lparr>kc_rcv_buf := b, kc_nrcv_buf := n\<rparr>) = snd_view k" for b n k by (simp add: snd_view_def)
  then have d: "snd_view (ikcp_parse_data s k) = snd_view k" for s k
    by (simp add: ikcp_parse_data_def Let_def split: option.split)
  show ?thesis
  proof (cases "itimediff (hd_sn h) (kc_rcv_nxt k + kc_rcv_wnd k) < 0")
    case False
    then show ?thesis using assms by (simp add: input_push_def)
  next
    case True
    then obtain k1 s where k1: "ikcp_ack_push mem_ack (hd_sn h) (hd_ts h) k = Some k1" "k' = k1 \<or> k' = ikcp_parse_data s k1"
      using assms unfolding input_push_def by (auto split: bind_splits if_splits)
    then show ?thesis using a [OF k1(1)] d [of s k1] by auto
  qed
qed

lemma fewer_segment:
  assumes "input_segment mem_ack mem raw h data k ack = Some (k', ack')"
  shows "fewer k k'"
proof -
  define k1 where "k1 = ikcp_shrink_buf (ikcp_parse_una (hd_una h) (k\<lparr>kc_rmt_wnd := ucast (hd_wnd h)\<rparr>))"
  have k1: "fewer k k1" unfolding k1_def by (rule fewer_una)
  have "fewer k1 (ikcp_update_ack r k1)" for r by (rule fewer_view) (simp add: ikcp_update_ack_def Let_def snd_view_def)
  then have a: "fewer k1 (ikcp_shrink_buf (ikcp_parse_ack n (ikcp_update_ack r k1)))" "fewer k1 (ikcp_shrink_buf (ikcp_parse_ack n k1))" for n r
    using fewer_ack fewer_trans by blast+
  have p: "fewer k1 (k1\<lparr>kc_probe := q\<rparr>)" for q by (rule fewer_view) (simp add: snd_view_def)
  have "fewer k1 k'"
    using assms a p push_snd_view [of mem_ack mem raw h data k1] fewer_view [of _ k1]
    unfolding input_segment_def Let_def k1_def [symmetric] by (auto split: if_splits)
  then show ?thesis using k1 fewer_trans by blast
qed

lemma fewer_loop: "input_loop mem_ack mem raw data k ack = Some (rc, k', ack') \<Longrightarrow> fewer k k'"
proof (induction mem_ack mem raw data k ack rule: input_loop.induct)
  case (1 mem_ack mem raw data k ack)
  show ?case
  proof (cases "decode_head data")
    case None
    then show ?thesis using 1(2) by (subst (asm) input_loop.simps) simp
  next
    case (Some x)
    obtain h rest where x: "x = (h, rest)" by fastforce
    show ?thesis
    proof (cases "hd_conv h \<noteq> kc_conv k \<or> (length rest < unat (hd_len h) \<or> hd_len h <s 0) \<or> \<not> known_cmd (hd_cmd h)")
      case True
      then show ?thesis using 1(2) Some x by (subst (asm) input_loop.simps) (simp split: if_splits)
    next
      case False
      then obtain k1 a1 where s: "input_segment mem_ack mem raw h (take (unat (hd_len h)) rest) k ack = Some (k1, a1)"
        "input_loop mem_ack mem raw (drop (unat (hd_len h)) rest) k1 a1 = Some (rc, k', ack')"
        using 1(2) Some x by (subst (asm) input_loop.simps) (auto split: option.splits)
      then have "fewer k1 k'" using 1(1) [OF Some x [symmetric] _ _ _ s(1) refl] False by blast
      then show ?thesis using fewer_segment [OF s(1)] fewer_trans by blast
    qed
  qed
qed

lemma grow_views: "snd_view (grow_window k) = snd_view k" "rcv_view (grow_window k) = rcv_view k"
  by (simp_all add: grow_window_def Let_def snd_view_def rcv_view_def)

lemma fewer_input:
  assumes "ikcp_input mem_ack mem raw data k = Some (rc, k')"
  shows "fewer k k'"
proof (cases "length data < IKCP_OVERHEAD")
  case True
  then show ?thesis using assms by (simp add: ikcp_input_def)
next
  case False
  then obtain r k1 a where l: "input_loop mem_ack mem raw data k None = Some (r, k1, a)"
    using assms by (auto simp: ikcp_input_def split: bind_splits)
  define k2 where "k2 = (case a of Some (maxack, latest_ts) \<Rightarrow> ikcp_parse_fastack maxack latest_ts k1 | None \<Rightarrow> k1)"
  have k1: "fewer k k1" by (rule fewer_loop [OF l])
  have k2: "fewer k1 k2" using fewer_fastack by (auto simp: k2_def split: option.split)
  have k3: "fewer k2 (grow_window k2)" by (rule fewer_view) (rule grow_views)
  have "k' \<in> {k1, k2, grow_window k2}"
    using assms False l unfolding ikcp_input_def by (auto simp: Let_def k2_def split: if_splits)
  then show ?thesis using k1 k2 k3 fewer_trans by (metis insertE emptyE)
qed

lemma fewer_sender:
  assumes "sender log k" "fewer k k'" "kcp_ok k'"
  shows "sender log k'"
proof -
  have "genuine log s" if "s \<in> set (kc_snd_buf k')" for s
  proof -
    have "(sg_sn s, piece s) \<in> (\<lambda>s. (sg_sn s, piece s)) ` set (kc_snd_buf k)" using assms(2) that unfolding fewer_def waiting_pieces_def by blast
    then obtain t where "t \<in> set (kc_snd_buf k)" "sg_sn s = sg_sn t" "piece s = piece t" by blast
    then show ?thesis using assms(1) by (auto simp: sender_def genuine_def)
  qed
  then show ?thesis using assms by (simp add: sender_def fewer_def)
qed

section \<open>The receiver\<close>

text \<open>
  The next expected number is that of piece \<open>n\<close>, the pieces from \<open>d\<close> on wait for the application, and what came
  too early is genuine.
\<close>

definition receiver :: "(u32 \<times> byte list) list \<Rightarrow> nat \<Rightarrow> nat \<Rightarrow> kcp \<Rightarrow> bool" where
  "receiver log n d k \<longleftrightarrow> kc_rcv_nxt k = of_nat n \<and> n \<le> length log \<and> d \<le> n \<and> map piece (kc_rcv_queue k) = drop d (take n log) \<and>
     (\<forall>s \<in> set (kc_rcv_buf k). genuine log s)"

lemma receiver_longer: "receiver log n d k \<Longrightarrow> receiver (log @ extra) n d k"
  unfolding receiver_def using genuine_longer by auto

lemma receiver_cong: "rcv_view k' = rcv_view k \<Longrightarrow> receiver log n d k' = receiver log n d k"
  by (simp add: receiver_def rcv_view_def)

lemma move_loop_receiver:
  assumes "length log < 2 ^ 32" "receiver log n d k" "\<forall>s \<in> set ss. genuine log s" "kc_rcv_buf k = ss"
  shows "\<exists>m. receiver log m d (move_loop ss k)"
  using assms(2-4)
proof (induction ss arbitrary: k n)
  case Nil
  then show ?case by auto
next
  case (Cons s ss)
  show ?case
  proof (cases "sg_sn s = kc_rcv_nxt k \<and> kc_nrcv_que k < kc_rcv_wnd k")
    case False
    then show ?thesis using Cons.prems(1) by auto
  next
    case True
    define k1 where "k1 = k\<lparr>kc_rcv_buf := ss, kc_nrcv_buf := kc_nrcv_buf k - 1, kc_rcv_queue := kc_rcv_queue k @ [s],
             kc_nrcv_que := kc_nrcv_que k + 1, kc_rcv_nxt := kc_rcv_nxt k + 1\<rparr>"
    have r: "kc_rcv_nxt k = of_nat n" "n \<le> length log" "d \<le> n" "map piece (kc_rcv_queue k) = drop d (take n log)"
      using Cons.prems(1) unfolding receiver_def by blast+
    obtain i where i: "i < length log" "sg_sn s = of_nat i" "piece s = log ! i" using Cons.prems(2) by (auto simp: genuine_def)
    have "(of_nat i :: u32) = of_nat n" using True i(2) r(1) by simp
    then have "unat (of_nat i :: u32) = unat (of_nat n :: u32)" by simp
    then have "i = n" using i(1) r(2) assms(1) by (simp add: unat_of_nat take_bit_nat_eq_self)
    then have "receiver log (Suc n) d k1"
      using r i Cons.prems(2) by (simp add: receiver_def k1_def take_Suc_conv_app_nth)
    from Cons.IH [OF this] have "\<exists>m. receiver log m d (move_loop ss k1)" using Cons.prems(2) by (simp add: k1_def)
    then show ?thesis using True by (simp add: k1_def)
  qed
qed

lemma parse_data_receiver:
  assumes "length log < 2 ^ 32" "receiver log n d k" "genuine log s"
  shows "\<exists>m. receiver log m d (ikcp_parse_data s k)"
proof -
  have old: "\<forall>s \<in> set (kc_rcv_buf k). genuine log s" using assms(2) by (simp add: receiver_def)
  have set_ins: "insert_back s ps = Some ss \<Longrightarrow> set ss = insert s (set ps)" for ps ss
    by (induction ps arbitrary: ss) (auto split: if_splits)
  define k1 where "k1 = (case insert_back s (rev (kc_rcv_buf k)) of
      Some ss \<Rightarrow> k\<lparr>kc_rcv_buf := rev ss, kc_nrcv_buf := kc_nrcv_buf k + 1\<rparr> | None \<Rightarrow> k)"
  have "\<forall>t \<in> set (kc_rcv_buf k1). genuine log t" "receiver log n d k1"
    using old assms(2,3) set_ins by (auto simp: k1_def receiver_def split: option.split)
  then have "\<exists>m. receiver log m d (move_loop (kc_rcv_buf k1) k1)" using move_loop_receiver [OF assms(1)] by blast
  then show ?thesis using assms(2) by (auto simp: ikcp_parse_data_def Let_def k1_def)
qed

lemma push_receiver:
  assumes "length log < 2 ^ 32" "receiver log n d k" "genuine log s" "sendable_segment s"
    "input_push mem_ack mem raw (head_of s) (sg_data s) k = Some k'"
  shows "\<exists>m. receiver log m d k'"
proof -
  have f: "ucast (hd_frg (head_of s)) = sg_frg s" using sendable_fields [OF assms(4)] by blast
  have a: "receiver log n d k1" if "ikcp_ack_push m sn ts k = Some k1" for m sn ts k1
    using that assms(2) by (auto simp: ikcp_ack_push_def Let_def receiver_def split: bind_splits if_splits)
  define t where "t = raw\<lparr>sg_conv := hd_conv (head_of s), sg_cmd := ucast (hd_cmd (head_of s)), sg_frg := ucast (hd_frg (head_of s)),
    sg_wnd := ucast (hd_wnd (head_of s)), sg_ts := hd_ts (head_of s), sg_sn := hd_sn (head_of s), sg_una := hd_una (head_of s), sg_data := sg_data s\<rparr>"
  have "genuine log t" using assms(3) f by (simp add: genuine_def piece_def t_def head_of_def)
  then have "\<exists>m. receiver log m d (ikcp_parse_data t k1)" if "receiver log n d k1" for k1
    using parse_data_receiver [OF assms(1) that] by blast
  note d = this
  show ?thesis
  proof (cases "itimediff (hd_sn (head_of s)) (kc_rcv_nxt k + kc_rcv_wnd k) < 0")
    case False
    then show ?thesis using assms(2,5) by (auto simp: input_push_def)
  next
    case True
    then obtain k1 where k1: "ikcp_ack_push mem_ack (hd_sn (head_of s)) (hd_ts (head_of s)) k = Some k1"
      "k' = k1 \<or> k' = ikcp_parse_data t k1"
      using assms(5) unfolding input_push_def t_def [symmetric] by (auto split: bind_splits if_splits)
    then show ?thesis using a [OF k1(1)] d [OF a [OF k1(1)]] by blast
  qed
qed

lemma segment_receiver:
  assumes "length log < 2 ^ 32" "receiver log n d k" "sendable_segment s" "sg_cmd s = IKCP_CMD_PUSH \<longrightarrow> genuine log s"
    "input_segment mem_ack mem raw (head_of s) (sg_data s) k ack = Some (k', ack')"
  shows "\<exists>m. receiver log m d k'"
proof -
  define k1 where "k1 = ikcp_shrink_buf (ikcp_parse_una (hd_una (head_of s)) (k\<lparr>kc_rmt_wnd := ucast (hd_wnd (head_of s))\<rparr>))"
  have c: "ucast (hd_cmd (head_of s)) = sg_cmd s" using sendable_fields [OF assms(3)] by blast
  have v: "rcv_view (ikcp_shrink_buf x) = rcv_view x" "rcv_view (ikcp_parse_ack n x) = rcv_view x" "rcv_view (ikcp_update_ack r x) = rcv_view x"
    "rcv_view (ikcp_parse_una u x) = rcv_view x" "rcv_view (x\<lparr>kc_probe := p\<rparr>) = rcv_view x" "rcv_view (x\<lparr>kc_rmt_wnd := w\<rparr>) = rcv_view x"
    for x n r u p w
    by (simp_all add: rcv_view_def ikcp_shrink_buf_def ikcp_parse_ack_def ikcp_update_ack_def ikcp_parse_una_def Let_def split: prod.split)
  have k1: "receiver log n d k1" using assms(2) receiver_cong [of k1 k] by (simp add: k1_def v)
  consider "sg_cmd s = IKCP_CMD_PUSH" | "sg_cmd s \<noteq> IKCP_CMD_PUSH" by blast
  then show ?thesis
  proof cases
    case 1
    then have "input_push mem_ack mem raw (head_of s) (sg_data s) k1 = Some k'"
      using assms(5) c not_push(1) unfolding input_segment_def Let_def k1_def [symmetric] by auto
    then show ?thesis using push_receiver [OF assms(1) k1 _ assms(3)] assms(4) 1 by blast
  next
    case 2
    then have "rcv_view k' = rcv_view k1"
      using assms(5) c unfolding input_segment_def Let_def k1_def [symmetric] by (auto simp: v split: if_splits)
    then show ?thesis using k1 receiver_cong by blast
  qed
qed

lemma segments_receiver:
  assumes "length log < 2 ^ 32" "receiver log n d k"
    "\<forall>s \<in> set ss. sendable_segment s \<and> (sg_cmd s = IKCP_CMD_PUSH \<longrightarrow> genuine log s)"
    "input_segments mem_ack mem raw ss k ack = Some (k', ack')"
  shows "\<exists>m. receiver log m d k'"
  using assms(2-4)
proof (induction ss arbitrary: k ack n)
  case Nil
  then show ?case by auto
next
  case (Cons s ss)
  obtain k1 a1 where s: "input_segment mem_ack mem raw (head_of s) (sg_data s) k ack = Some (k1, a1)"
    "input_segments mem_ack mem raw ss k1 a1 = Some (k', ack')" using Cons.prems(3) by (auto split: bind_splits)
  obtain m where "receiver log m d k1" using segment_receiver [OF assms(1) Cons.prems(1) _ _ s(1)] Cons.prems(2) by auto
  then show ?case using Cons.IH [OF _ _ s(2)] Cons.prems(2) by auto
qed

lemma fastack_rcv_view: "rcv_view (ikcp_parse_fastack sn ts k) = rcv_view k"
  by (simp add: rcv_view_def ikcp_parse_fastack_def)

lemma input_receiver:
  assumes "length log < 2 ^ 32" "receiver log n d k" "true_packet log (kc_conv k) data" "ikcp_input mem_ack mem raw data k = Some (rc, k')"
  shows "\<exists>m. receiver log m d k'"
proof (cases "length data < IKCP_OVERHEAD")
  case True
  then show ?thesis using assms(2,4) by (auto simp: ikcp_input_def)
next
  case False
  obtain ss where ss: "data = packet ss"
    "\<forall>s \<in> set ss. sendable_segment s \<and> sg_conv s = kc_conv k \<and> (sg_cmd s = IKCP_CMD_PUSH \<longrightarrow> genuine log s)"
    using assms(3) unfolding true_packet_def by blast
  have l: "input_loop mem_ack mem raw data k None = map_option (\<lambda>(k, ack). (0, k, ack)) (input_segments mem_ack mem raw ss k None)"
    using input_packet ss by simp
  obtain k1 a where i: "input_segments mem_ack mem raw ss k None = Some (k1, a)" "input_loop mem_ack mem raw data k None = Some (0, k1, a)"
    using assms(4) False l by (cases "input_segments mem_ack mem raw ss k None") (auto simp: ikcp_input_def)
  obtain m where m: "receiver log m d k1" using segments_receiver [OF assms(1,2) _ i(1)] ss(2) by auto
  define k2 where "k2 = (case a of Some (maxack, latest_ts) \<Rightarrow> ikcp_parse_fastack maxack latest_ts k1 | None \<Rightarrow> k1)"
  have "rcv_view k2 = rcv_view k1" using fastack_rcv_view by (auto simp: k2_def split: option.split)
  moreover have "k' = k2 \<or> k' = grow_window k2"
    using assms(4) False i(2) unfolding ikcp_input_def by (auto simp: Let_def k2_def split: if_splits)
  ultimately have "rcv_view k' = rcv_view k1" using grow_views(2) by metis
  then show ?thesis using m receiver_cong by blast
qed

end
