(* ===== verification/KcpNet.thy ===== *)
theory KcpNet
  imports KcpLink
begin

unbundle bit_operations_syntax

text \<open>
  Two ends of a conversation and the network between them, as a step relation: whatever is lost, repeated,
  reordered or made up on the way back, what is delivered is a prefix of what was accepted.
\<close>

section \<open>Delivering\<close>

lemma recv_parts:
  assumes "\<not> (kc_rcv_queue k = [] \<or> ikcp_peeksize k < 0 \<or> \<bar>len\<bar> < ikcp_peeksize k)"
  shows "\<exists>k1 p. k1 = (if len < 0 then k else k\<lparr>kc_rcv_queue := drop (first_message (kc_rcv_queue k)) (kc_rcv_queue k),
      kc_nrcv_que := kc_nrcv_que k - of_nat (first_message (kc_rcv_queue k))\<rparr>) \<and>
    ikcp_recv len k = (int (length (bytes_of (take (first_message (kc_rcv_queue k)) (kc_rcv_queue k)))),
      bytes_of (take (first_message (kc_rcv_queue k)) (kc_rcv_queue k)), (move_loop (kc_rcv_buf k1) k1)\<lparr>kc_probe := p\<rparr>)"
proof -
  define k1 where "k1 = (if len < 0 then k else k\<lparr>kc_rcv_queue := drop (first_message (kc_rcv_queue k)) (kc_rcv_queue k),
      kc_nrcv_que := kc_nrcv_que k - of_nat (first_message (kc_rcv_queue k))\<rparr>)"
  define k2 where "k2 = move_loop (kc_rcv_buf k1) k1"
  define p where "p = (if kc_nrcv_que k2 < kc_rcv_wnd k2 \<and> kc_rcv_wnd k \<le> kc_nrcv_que k then kc_probe k2 OR IKCP_ASK_TELL else kc_probe k2)"
  have "ikcp_recv len k = (int (length (bytes_of (take (first_message (kc_rcv_queue k)) (kc_rcv_queue k)))),
      bytes_of (take (first_message (kc_rcv_queue k)) (kc_rcv_queue k)), k2\<lparr>kc_probe := p\<rparr>)"
    using assms by (simp only: ikcp_recv_def recv_loop_shape Let_def prod.case if_False de_Morgan_disj k1_def [symmetric] k2_def [symmetric])
      (simp add: p_def bytes_of_def)
  then show ?thesis unfolding k2_def k1_def by blast
qed

lemma receiver_queue:
  assumes "length log < 2 ^ 32" "receiver log n d k" "f \<le> length (kc_rcv_queue k)"
  shows "receiver log n (d + f) (k\<lparr>kc_rcv_queue := drop f (kc_rcv_queue k), kc_nrcv_que := q\<rparr>)"
    "take (d + f) log = take d log @ map piece (take f (kc_rcv_queue k))"
proof -
  have r: "n \<le> length log" "d \<le> n" "map piece (kc_rcv_queue k) = drop d (take n log)" using assms(2) unfolding receiver_def by blast+
  then have l: "length (kc_rcv_queue k) = n - d" by (metis length_drop length_map length_take min_absorb2)
  have "map piece (drop f (kc_rcv_queue k)) = drop (d + f) (take n log)" by (simp add: drop_map [symmetric] r(3) add.commute)
  then show "receiver log n (d + f) (k\<lparr>kc_rcv_queue := drop f (kc_rcv_queue k), kc_nrcv_que := q\<rparr>)"
    using assms(2,3) l r(2) by (simp add: receiver_def)
  have "map piece (take f (kc_rcv_queue k)) = take f (drop d (take n log))" by (simp add: take_map [symmetric] r(3))
  also have "\<dots> = take f (drop d log)" using assms(3) l r(2) by (simp add: drop_take min_def)
  finally show "take (d + f) log = take d log @ map piece (take f (kc_rcv_queue k))" by (simp add: take_add)
qed

lemma recv_receiver:
  assumes "length log < 2 ^ 32" "receiver log n d k" "ikcp_recv len k = (rc, bs, k')"
  shows "\<exists>m e. receiver log m e k' \<and> (if len < 0 then e = d else concat (map snd (take e log)) = concat (map snd (take d log)) @ bs)"
proof (cases "kc_rcv_queue k = [] \<or> ikcp_peeksize k < 0 \<or> \<bar>len\<bar> < ikcp_peeksize k")
  case True
  then have "k' = k" "bs = []" using assms(3) by (simp_all add: recv_refused)
  then show ?thesis using assms(2) by auto
next
  case False
  define f where "f = first_message (kc_rcv_queue k)"
  obtain k1 p where k1: "k1 = (if len < 0 then k else k\<lparr>kc_rcv_queue := drop f (kc_rcv_queue k), kc_nrcv_que := kc_nrcv_que k - of_nat f\<rparr>)"
    "bs = bytes_of (take f (kc_rcv_queue k))" "k' = (move_loop (kc_rcv_buf k1) k1)\<lparr>kc_probe := p\<rparr>"
    using recv_parts [OF False] assms(3) unfolding f_def by auto
  define e where "e = (if len < 0 then d else d + f)"
  have q: "f \<le> length (kc_rcv_queue k)" by (simp add: f_def first_message_le)
  have r1: "receiver log n e k1" using receiver_queue(1) [OF assms(1,2) q] assms(2) by (simp add: e_def k1(1))
  then have "\<forall>s \<in> set (kc_rcv_buf k1). genuine log s" by (simp add: receiver_def)
  then obtain m where "receiver log m e (move_loop (kc_rcv_buf k1) k1)" using move_loop_receiver [OF assms(1) r1] by blast
  then have "receiver log m e k'" by (simp add: k1(3) receiver_def)
  moreover have "map snd (map piece xs) = map sg_data xs" for xs by (simp add: piece_def)
  ultimately show ?thesis using receiver_queue(2) [OF assms(1,2) q]
    by - (rule exI [of _ m], rule exI [of _ e], simp add: e_def k1(2) bytes_of_def piece_def comp_def)
qed

section \<open>The link\<close>

text \<open>
  The two ends, the datagrams that the first has ever sent, the bytes that it has accepted, the bytes that
  the second has delivered, and the segments that have been numbered.
\<close>

record link =
  lk_a :: kcp
  lk_b :: kcp
  lk_net :: "byte list set"
  lk_sent :: "byte list"
  lk_got :: "byte list"
  lk_log :: "(u32 \<times> byte list) list"

fun is_send :: "kcp_call \<Rightarrow> bool" where
  "is_send (Call_send _ _ _ _) = True"
| "is_send _ = False"

text \<open>A call that neither takes data from the network nor data from the queue.\<close>

fun keeps_data :: "kcp_call \<Rightarrow> bool" where
  "keeps_data (Call_input _ _ _ _) = False"
| "keeps_data (Call_recv len) = (len < 0)"
| "keeps_data _ = True"

text \<open>
  The first end may be called in any way, and gets any bytes whatsoever from the network.  The second gets, in
  any order and any number of times, datagrams that the first has sent.  Fewer than \<open>2 ^ 32\<close> segments are numbered.
\<close>

inductive link_step :: "link \<Rightarrow> link \<Rightarrow> bool" where
  a_send: "ikcp_send True (\<lambda>i. True) raw bs (lk_a L) = (rc, k) \<Longrightarrow>
    link_step L (L\<lparr>lk_a := k, lk_sent := lk_sent L @ take (nat rc) bs\<rparr>)"
| a_call: "\<not> is_send c \<Longrightarrow> fair_call c (lk_a L) \<Longrightarrow> kcp_step c (lk_a L) = Some k \<Longrightarrow>
    log = lk_log L @ departed (kc_snd_queue (lk_a L)) (kc_snd_queue k) \<Longrightarrow> length log < 2 ^ 32 \<Longrightarrow>
    link_step L (L\<lparr>lk_a := k, lk_net := lk_net L \<union> set (drop (length (kc_out (lk_a L))) (kc_out k)), lk_log := log\<rparr>)"
| b_input: "d \<in> lk_net L \<Longrightarrow> ikcp_input mem_ack mem raw d (lk_b L) = Some (rc, k) \<Longrightarrow> link_step L (L\<lparr>lk_b := k\<rparr>)"
| b_recv: "0 \<le> len \<Longrightarrow> ikcp_recv len (lk_b L) = (rc, bs, k) \<Longrightarrow> link_step L (L\<lparr>lk_b := k, lk_got := lk_got L @ bs\<rparr>)"
| b_call: "keeps_data c \<Longrightarrow> fair_call c (lk_b L) \<Longrightarrow> kcp_step c (lk_b L) = Some k \<Longrightarrow> link_step L (L\<lparr>lk_b := k\<rparr>)"

definition link_ok :: "link \<Rightarrow> bool" where
  "link_ok L \<longleftrightarrow> length (lk_log L) < 2 ^ 32 \<and> sender (lk_log L) (lk_a L) \<and> kcp_ok (lk_b L) \<and>
     (\<exists>n d. receiver (lk_log L) n d (lk_b L) \<and> lk_got L = concat (map snd (take d (lk_log L)))) \<and>
     lk_sent L = concat (map snd (lk_log L)) @ bytes_of (kc_snd_queue (lk_a L)) \<and>
     (\<forall>d \<in> lk_net L. true_packet (lk_log L) (kc_conv (lk_b L)) d) \<and> kc_conv (lk_a L) = kc_conv (lk_b L)"

text \<open>What a call does to the sending end.\<close>

lemma call_sender:
  assumes s: "sender log k" and c: "\<not> is_send c" "fair_call c k" and r: "kcp_step c k = Some k'"
  shows "\<exists>ps. kc_out k' = kc_out k @ ps \<and> sender (log @ departed (kc_snd_queue k) (kc_snd_queue k')) k' \<and>
    (\<forall>d \<in> set ps. true_packet (log @ departed (kc_snd_queue k) (kc_snd_queue k')) (kc_conv k) d) \<and>
    bytes_of (kc_snd_queue k) = concat (map snd (departed (kc_snd_queue k) (kc_snd_queue k'))) @ bytes_of (kc_snd_queue k') \<and>
    kc_conv k' = kc_conv k"
proof -
  have ok': "kcp_ok k'" using kcp_step_ok [of k c] s c(2) r by (auto simp: sender_def)
  have few: ?thesis if "fewer k k'"
  proof -
    have "sender log k'" by (rule fewer_sender [OF s that ok'])
    then show ?thesis using that by (intro exI [of _ "[]"]) (simp add: fewer_def departed_def)
  qed
  have up: ?thesis if u: "kcp_step c k = ikcp_update now k" for now
  proof -
    obtain k1 where k1: "snd_part k1 = snd_part k" "rcv_part k1 = rcv_part k" "kc_rcv_wnd k1 = kc_rcv_wnd k" "kc_rmt_wnd k1 = kc_rmt_wnd k"
      "snd_view k1 = snd_view k" "ikcp_update now k = Some k1 \<or> ikcp_update now k = ikcp_flush k1" using update_views by blast
    have "fewer k k1" by (rule fewer_view [OF k1(5)])
    then have s1: "sender log k1" using fewer_sender [OF s] ok_same [OF _ k1(1-4)] s by (simp add: sender_def)
    show ?thesis
    proof (cases "ikcp_update now k = Some k1")
      case True
      then show ?thesis using few fewer_view [OF k1(5)] r u by simp
    next
      case False
      then have "ikcp_flush k1 = Some k'" using k1(6) r u by simp
      then show ?thesis using flush_sender [OF s1] k1(5) by (simp add: snd_view_def) blast
    qed
  qed
  show ?thesis
  proof (cases c)
    case Call_send
    then show ?thesis using c(1) by simp
  next
    case (Call_recv len)
    then show ?thesis using few fewer_view [OF recv_snd_view] r by auto
  next
    case (Call_input mem_ack mem raw data)
    then show ?thesis using few fewer_input r by auto
  next
    case (Call_update now)
    then show ?thesis using up by simp
  next
    case Call_flush
    then show ?thesis using flush_sender [OF s] r by auto
  next
    case Call_setmtu
    then show ?thesis using few fewer_view options_views r by auto
  next
    case Call_interval
    then show ?thesis using few fewer_view options_views r by auto
  next
    case Call_nodelay
    then show ?thesis using few fewer_view options_views r by auto
  next
    case Call_wndsize
    then show ?thesis using few fewer_view options_views r by auto
  qed
qed

text \<open>What a call that keeps the data does to the receiving end.\<close>

lemma flush_rcv_view:
  assumes "kcp_ok k" "ikcp_flush k = Some k'"
  shows "rcv_view k' = rcv_view k"
proof (cases "kc_updated k = 0")
  case True
  then show ?thesis using assms by (simp add: ikcp_flush_def)
next
  case False
  have "kcp_fits k" using assms(1) by (simp add: kcp_ok_def)
  from flush_sends [OF this False] show ?thesis using assms(2) by (auto simp: same_receiver_def rcv_view_def)
qed

lemma call_receiver:
  assumes "length log < 2 ^ 32" "receiver log n d k" "kcp_ok k" "keeps_data c" "kcp_step c k = Some k'"
  shows "(\<exists>m. receiver log m d k') \<and> kc_conv k' = kc_conv k"
proof -
  have same: ?thesis if "rcv_view k' = rcv_view k"
    using receiver_cong [OF that] assms(2) that by (auto simp: rcv_view_def)
  show ?thesis
  proof (cases c)
    case (Call_recv len)
    obtain rc bs where r: "ikcp_recv len k = (rc, bs, k')" using Call_recv assms(5) by (cases "ikcp_recv len k") auto
    then show ?thesis using recv_receiver [OF assms(1,2) r] recv_snd_view [of len k] Call_recv assms(4) by (auto simp: snd_view_def)
  next
    case (Call_update now)
    obtain k1 where k1: "snd_part k1 = snd_part k" "rcv_part k1 = rcv_part k" "kc_rcv_wnd k1 = kc_rcv_wnd k" "kc_rmt_wnd k1 = kc_rmt_wnd k"
      "rcv_view k1 = rcv_view k" "ikcp_update now k = Some k1 \<or> ikcp_update now k = ikcp_flush k1" using update_views by blast
    have "kcp_ok k1" by (rule ok_same [OF assms(3) k1(1-4)])
    then show ?thesis using same k1(5,6) flush_rcv_view Call_update assms(5) by auto
  next
    case Call_flush
    then show ?thesis using same flush_rcv_view assms(3,5) by auto
  qed (use assms(4,5) same send_rcv_view options_views in auto)
qed

lemma link_step_ok:
  assumes "link_step L L'" "link_ok L"
  shows "link_ok L'"
  using assms(1)
proof cases
  case (a_send raw bs rc k)
  obtain q n where q: "k = (lk_a L)\<lparr>kc_snd_queue := q, kc_nsnd_que := n\<rparr>" "bytes_of q = bytes_of (kc_snd_queue (lk_a L)) @ take (nat rc) bs"
    using send_appends [of "\<lambda>i. True" "lk_a L" raw bs] a_send(2) assms(2) by (auto simp: link_ok_def sender_def)
  have "kcp_ok k" using send_ok [of "lk_a L" True "\<lambda>i. True" raw bs] a_send(2) assms(2) by (simp add: link_ok_def sender_def)
  then have "sender (lk_log L) k" using assms(2) by (simp add: link_ok_def sender_def q(1))
  then show ?thesis using assms(2) q by (simp add: link_ok_def a_send(1))
next
  case (a_call c k log)
  have s: "sender (lk_log L) (lk_a L)" using assms(2) by (simp add: link_ok_def)
  obtain ps where ps: "kc_out k = kc_out (lk_a L) @ ps" "sender log k" "\<forall>d \<in> set ps. true_packet log (kc_conv (lk_a L)) d"
    "bytes_of (kc_snd_queue (lk_a L)) = concat (map snd (departed (kc_snd_queue (lk_a L)) (kc_snd_queue k))) @ bytes_of (kc_snd_queue k)"
    "kc_conv k = kc_conv (lk_a L)"
    using call_sender [OF s a_call(2-4)] unfolding a_call(5) by blast
  obtain n d where nd: "receiver (lk_log L) n d (lk_b L)" "lk_got L = concat (map snd (take d (lk_log L)))"
    using assms(2) by (auto simp: link_ok_def)
  have "d \<le> length (lk_log L)" using nd(1) by (simp add: receiver_def)
  then have "receiver log n d (lk_b L) \<and> lk_got L = concat (map snd (take d log))"
    using receiver_longer [OF nd(1)] nd(2) by (simp add: a_call(5))
  moreover have "\<forall>d \<in> lk_net L \<union> set ps. true_packet log (kc_conv (lk_b L)) d"
    using assms(2) ps(3) true_packet_longer by (auto simp: link_ok_def a_call(5))
  ultimately show ?thesis
    using assms(2) ps a_call(6) unfolding link_ok_def a_call(1) by (auto simp: a_call(5))
next
  case (b_input d mem_ack mem raw rc k)
  obtain n e where r: "receiver (lk_log L) n e (lk_b L)" "lk_got L = concat (map snd (take e (lk_log L)))"
    "true_packet (lk_log L) (kc_conv (lk_b L)) d" "length (lk_log L) < 2 ^ 32"
    using assms(2) b_input(2) by (auto simp: link_ok_def)
  obtain m where "receiver (lk_log L) m e k" using input_receiver [OF r(4,1,3) b_input(3)] by blast
  moreover have "kc_conv k = kc_conv (lk_b L)" using fewer_input [OF b_input(3)] by (simp add: fewer_def)
  moreover have "kcp_ok k" using input_ok [OF _ b_input(3)] assms(2) by (simp add: link_ok_def)
  ultimately show ?thesis using assms(2) r(2) unfolding link_ok_def b_input(1) by auto
next
  case (b_recv len rc bs k)
  obtain n e where r: "receiver (lk_log L) n e (lk_b L)" "lk_got L = concat (map snd (take e (lk_log L)))" "length (lk_log L) < 2 ^ 32"
    using assms(2) by (auto simp: link_ok_def)
  obtain m f where f: "receiver (lk_log L) m f k" "lk_got L @ bs = concat (map snd (take f (lk_log L)))"
    using recv_receiver [OF r(3,1) b_recv(3)] b_recv(2) r(2) by auto
  have "kc_conv k = kc_conv (lk_b L)" using recv_snd_view [of len "lk_b L"] b_recv(3) by (simp add: snd_view_def)
  moreover have "kcp_ok k" using recv_ok [of "lk_b L" len] b_recv(3) assms(2) by (simp add: link_ok_def)
  ultimately show ?thesis using assms(2) f unfolding link_ok_def b_recv(1) by auto
next
  case (b_call c k)
  obtain n e where r: "receiver (lk_log L) n e (lk_b L)" "lk_got L = concat (map snd (take e (lk_log L)))" "length (lk_log L) < 2 ^ 32"
    using assms(2) by (auto simp: link_ok_def)
  obtain m where "receiver (lk_log L) m e k" "kc_conv k = kc_conv (lk_b L)"
    using call_receiver [OF r(3,1) _ b_call(2,4)] assms(2) by (auto simp: link_ok_def)
  moreover have "kcp_ok k" using kcp_step_ok [of "lk_b L" c] b_call(3,4) assms(2) by (auto simp: link_ok_def)
  ultimately show ?thesis using assms(2) r(2) unfolding link_ok_def b_call(1) by auto
qed

definition link_start :: "kcp \<Rightarrow> kcp \<Rightarrow> link" where
  "link_start a b = \<lparr>lk_a = a, lk_b = b, lk_net = {}, lk_sent = [], lk_got = [], lk_log = []\<rparr>"

lemma link_start_ok:
  assumes "ikcp_create True True conv = Some a" "ikcp_create True True conv = Some b"
  shows "link_ok (link_start a b)"
  using kcp_create_ok [OF assms(1)] kcp_create_ok [OF assms(2)] assms by (auto simp: link_ok_def link_start_def sender_def receiver_def ikcp_create_def)

lemma link_steps_ok: "link_step\<^sup>*\<^sup>* L L' \<Longrightarrow> link_ok L \<Longrightarrow> link_ok L'"
  by (induction rule: rtranclp_induct) (auto intro: link_step_ok)

text \<open>
  C1: Over a network that loses, repeats and reorders datagrams, and that may give the sending end anything at
  all, the bytes that one end of a conversation has delivered to its application are at every moment a prefix of
  the bytes that the other end has accepted: nothing is lost, repeated, reordered or altered in between.
\<close>
theorem kcp_delivers_prefix:
  assumes "ikcp_create True True conv = Some a" "ikcp_create True True conv = Some b" "link_step\<^sup>*\<^sup>* (link_start a b) L"
  shows "\<exists>rest. lk_sent L = lk_got L @ rest"
proof -
  have "link_ok L" by (rule link_steps_ok [OF assms(3) link_start_ok [OF assms(1,2)]])
  then obtain d where "lk_got L = concat (map snd (take d (lk_log L)))" "lk_sent L = concat (map snd (lk_log L)) @ bytes_of (kc_snd_queue (lk_a L))"
    unfolding link_ok_def by blast
  moreover have "concat (map snd (lk_log L)) = concat (map snd (take d (lk_log L))) @ concat (map snd (drop d (lk_log L)))"
    by (metis append_take_drop_id concat_append map_append)
  ultimately show ?thesis by simp
qed

lemma kcp_delivers_prefix_witness:
  "\<exists>a L rest. ikcp_create True True 7 = Some a \<and> link_step\<^sup>*\<^sup>* (link_start a a) L \<and> lk_sent L = [1, 2, 3] \<and> lk_sent L = lk_got L @ rest"
proof -
  obtain a where a: "ikcp_create True True 7 = Some a" by (simp add: ikcp_create_def)
  have q: "kc_snd_queue a = []" "kc_stream a = 0" "kc_mss a = 1376" using a by (auto simp: ikcp_create_def IKCP_MTU_DEF_def)
  define raw where "raw = control a 0"
  have "fst (ikcp_send True (\<lambda>i. True) raw [1, 2, 3] a) = 3"
    by (simp add: ikcp_send_def fragment_def fragment_count_def q IKCP_WND_RCV_def Let_def)
  then obtain k where k: "ikcp_send True (\<lambda>i. True) raw [1, 2, 3] a = (3, k)" by (metis prod.collapse)
  have "link_step (link_start a a) ((link_start a a)\<lparr>lk_a := k, lk_sent := lk_sent (link_start a a) @ take (nat 3) [1, 2, 3]\<rparr>)"
    by (rule a_send) (use k in \<open>simp add: link_start_def\<close>)
  then have "link_step\<^sup>*\<^sup>* (link_start a a) ((link_start a a)\<lparr>lk_a := k, lk_sent := [1, 2, 3]\<rparr>)" by (simp add: link_start_def r_into_rtranclp)
  from kcp_delivers_prefix [OF a a this] show ?thesis using a \<open>link_step\<^sup>*\<^sup>* _ _\<close> by auto
qed

end
