(* ===== verification/Spec2Isabelle.thy ===== *)
theory Spec2Isabelle
  imports RingQueue TailQueue Utils Sid SidList SlotMap EpHash Buffer Message EventCore TimerWheel EventOp Epoll EventSet Lock MsgQueue Threads Worker ThreadGroup
    Session Channel SendPath SessionFacts SendStream SessionInv SessionLife SessionSteps Layer Accounting Ownership LayerSteps LayerSend LayerBroadcast LayerEnd LayerBroadcast2 LayerExample Sockets Gate GateFacts GateProps Kcp KcpCodec KcpFlush KcpInv KcpRecv KcpCalls KcpSteps KcpStream KcpLink KcpNet
begin

text \<open>
  A verification library for libevlite, a C library for event-driven network services: I/O threads
  run event sets (epoll and a timing wheel), sessions own descriptors and send queues, and the
  threads of the application reach them through message queues and 64-bit session identifiers.

  \<^bold>\<open>How C is modelled.\<close>  Fixed-width integers are words, structs are records, enumerations and
  flags are word constants.  A computation that can leave the defined behaviour of C (an access
  outside a block, a dereference of NULL or of freed memory, a list macro called outside its
  contract) has an option type and faults with \<open>None\<close>; error returns of the code stay the numbers
  the code returns.  The build is the Linux one with \<^verbatim>\<open>NDEBUG\<close>, so an \<^verbatim>\<open>assert\<close> tests nothing.  What
  lies outside the sources (system calls, the allocator, the callbacks of the application) is an
  argument, with documented behaviour as named hypotheses of the theorems only: a read returns no more
  than there is room for, a callback uses the library and nothing else.  The theory \<open>Prelude\<close> has
  the common types, memory accesses and the facts on lists and words.

  \<^bold>\<open>Containers.\<close>  \<open>RingQueue\<close>: the growable ring of \<^verbatim>\<open>src/queue.h\<close> (\<^verbatim>\<open>QUEUE_*\<close>), with 32-bit counters
  that wrap around; each operation is the list operation of its name, and the locale \<open>fifo\<close> states
  that for its clients.  \<open>TailQueue\<close>: the intrusive tail queue of the same header (\<^verbatim>\<open>TAILQ_*\<close>) on raw
  link cells, any number of queues in one memory.  \<open>SidList\<close> (\<^verbatim>\<open>src/sidlist.c\<close>): growable array with
  swap removal.  \<open>EpHash\<close> (\<^verbatim>\<open>src/ephashtable.c\<close>): hash table from endpoints to stacks of entries.
  \<open>Buffer\<close> and \<open>Message\<close> (\<^verbatim>\<open>src/message.c\<close>): byte buffer as a stream, and messages shared by several
  send queues, complete when every receiver has an outcome.  \<open>Utils\<close> (\<^verbatim>\<open>src/utils.c\<close>): arithmetic,
  clocks and descriptor flags.

  \<^bold>\<open>Identifiers.\<close>  \<open>Sid\<close>: the layout of an identifier (\<^verbatim>\<open>src/session.h\<close>).  \<open>SlotMap\<close>: the session
  manager (\<^verbatim>\<open>session_manager_*\<close> of \<^verbatim>\<open>src/session.c\<close>), a table of versioned slots threaded by a free list;
  the locale \<open>session_table\<close> states what it promises, in particular that a stale identifier resolves to
  nothing until the 16-bit version comes round.

  \<^bold>\<open>Events.\<close>  \<open>EventCore\<close>: events, their lists and the wheel's buckets (\<^verbatim>\<open>src/event-internal.h\<close>, part
  of \<^verbatim>\<open>src/event.c\<close> and \<^verbatim>\<open>src/timer.c\<close>).  \<open>TimerWheel\<close>: dispatch of the wheel, refined by a map from
  timers to the number of dispatches left.  \<open>EventOp\<close>: the table of back end functions and its contract,
  the locale \<open>io_backend\<close>; \<open>Epoll\<close> (\<^verbatim>\<open>src/epoll.c\<close>) interprets it.  \<open>EventSet\<close>: adding, deleting, one
  round of dispatching, creation and destruction.  List macros are used there as list operations, under
  the contract that \<open>TailQueue\<close> proves for them; a call outside it is a fault, and the theorems show that
  none occurs.

  \<^bold>\<open>Threads.\<close>  \<open>Lock\<close> (\<^verbatim>\<open>src/lock.h\<close>): the spin lock as a step relation over any number of threads.
  \<open>MsgQueue\<close> (\<^verbatim>\<open>src/msgqueue.c\<close>): tasks, and a notification when the queue stops being empty; a critical
  section is one step, which \<open>Lock\<close> justifies.  \<open>Threads\<close>, \<open>Worker\<close>, \<open>ThreadGroup\<close> (\<^verbatim>\<open>src/threads.c\<close>):
  posting, one worker interleaved with any number of posters and a stopper (no task lost, reordered or
  left unnoticed), and starting and stopping a group.

  \<^bold>\<open>Sessions.\<close>  \<open>Session\<close> (\<^verbatim>\<open>src/session.c\<close>): sending, registration of events, timed tasks,
  reconnection, shutdown and end.  \<open>Channel\<close> (\<^verbatim>\<open>src/channel.c\<close>): transmission and the handlers of a
  session's events; \<open>fire\<close> calls the handler of a registered event.  The state is one session with
  the messages it shares, the bytes its descriptor has taken, the results the kernel has in store
  for the next writes, and a log of the calls that leave the model.  \<open>SendPath\<close> and \<open>SendStream\<close>: what has
  been written, followed by what is pending, is what was sent.  \<open>SessionFacts\<close>, \<open>SessionInv\<close>,
  \<open>SessionLife\<close>, \<open>SessionSteps\<close>: which fields a step leaves alone, the invariant that ties status flags to
  registered events and unsent data to a registered write event, and its preservation by every operation
  and every handler.

  \<^bold>\<open>Loops and fuel.\<close>  Loops over a list or a counter are structural or have a measure.  Loops whose end
  depends on the state take fuel and fault without it, and the theorems give enough: the wheel's dispatch
  takes one more than the length of the bucket, the active list one more than the number of events, and a
  transmission one more than the number of results the kernel has in store, since each turn takes one (an
  exhausted store is a full descriptor, which ends the loop).

  \<^bold>\<open>Not modelled.\<close>  The handlers that make sessions (accept, connect, associate), the entry points of
  \<^verbatim>\<open>src/network.c\<close>, the UDP driver and KCP (\<^verbatim>\<open>src/driver.c\<close>, \<^verbatim>\<open>src/ikcp.c\<close>): their results are arguments
  where a session uses them.  The kqueue back end, the counterpart of epoll on other systems.  The socket
  helpers of \<^verbatim>\<open>src/utils.c\<close>, which are sequences of system calls.  Log lines, signal masks and thread
  attributes.  The examples and tests.
\<close>

end
